(* ===== verification/Prelude.thy ===== *)
theory Prelude
  imports Main "HOL-Library.Word" "HOL-Library.Product_Lexorder" "HOL-Library.List_Lexorder"
begin

text \<open>
  Shared vocabulary of the development: the machine integers of the Rust sources
  (\<open>u64\<close> as a 64-bit word, \<open>i128\<close> as an integer whose range is checked where the source checks
  it, \<open>usize\<close> and \<open>u32\<close> indices as naturals), the checked and saturating operations of
  the Rust standard library, \<open>Result\<close> as a sum type, and \<open>BTreeMap\<close> as an association list
  searched in key order. The collections below carry the component proofs.
\<close>

section \<open>Collections\<close>

named_theorems checked_arith \<open>what a successful checked operation computed\<close>
named_theorems lb_rules \<open>postcondition rules of the budgeted result monad\<close>
named_theorems lb_mono_rules \<open>budget monotonicity rules\<close>

section \<open>Machine integers\<close>

type_synonym u64 = "64 word"
type_synonym i128 = int
type_synonym usize = nat
type_synonym u32 = nat

definition u64_MAX :: u64 where
  "u64_MAX = 18446744073709551615"

definition u64_checked_add :: "u64 \<Rightarrow> u64 \<Rightarrow> u64 option" where
  "u64_checked_add a b = (if uint a + uint b < 2 ^ 64 then Some (a + b) else None)"

definition u64_checked_sub :: "u64 \<Rightarrow> u64 \<Rightarrow> u64 option" where
  "u64_checked_sub a b = (if b \<le> a then Some (a - b) else None)"

definition u64_checked_mul :: "u64 \<Rightarrow> u64 \<Rightarrow> u64 option" where
  "u64_checked_mul a b = (if uint a * uint b < 2 ^ 64 then Some (a * b) else None)"

definition u64_saturating_add :: "u64 \<Rightarrow> u64 \<Rightarrow> u64" where
  "u64_saturating_add a b = (if uint a + uint b < 2 ^ 64 then a + b else u64_MAX)"

definition u64_saturating_sub :: "u64 \<Rightarrow> u64 \<Rightarrow> u64" where
  "u64_saturating_sub a b = (if b \<le> a then a - b else 0)"

definition u64_saturating_mul :: "u64 \<Rightarrow> u64 \<Rightarrow> u64" where
  "u64_saturating_mul a b = (if uint a * uint b < 2 ^ 64 then a * b else u64_MAX)"

definition u64_is_multiple_of :: "u64 \<Rightarrow> u64 \<Rightarrow> bool" where
  "u64_is_multiple_of a b = (if b = 0 then a = 0 else a mod b = 0)"

definition u64_try_from :: "i128 \<Rightarrow> u64 option" where
  "u64_try_from x = (if 0 \<le> x \<and> x < 2 ^ 64 then Some (word_of_int x) else None)"

definition u64_of_bool :: "bool \<Rightarrow> u64" where
  "u64_of_bool b = (if b then 1 else 0)"

definition usize_checked_add :: "usize \<Rightarrow> usize \<Rightarrow> usize option" where
  "usize_checked_add a b = (if int (a + b) < 2 ^ 64 then Some (a + b) else None)"

definition usize_checked_mul :: "usize \<Rightarrow> usize \<Rightarrow> usize option" where
  "usize_checked_mul a b = (if int (a * b) < 2 ^ 64 then Some (a * b) else None)"

definition checked_shl_one :: "nat \<Rightarrow> usize option" where
  "checked_shl_one n = (if n < 64 then Some (2 ^ n) else None)"

definition i128_fit :: "int \<Rightarrow> i128 option" where
  "i128_fit x = (if - (2 ^ 127) \<le> x \<and> x < 2 ^ 127 then Some x else None)"

definition i128_checked_add :: "i128 \<Rightarrow> i128 \<Rightarrow> i128 option" where
  "i128_checked_add a b = i128_fit (a + b)"

definition i128_checked_sub :: "i128 \<Rightarrow> i128 \<Rightarrow> i128 option" where
  "i128_checked_sub a b = i128_fit (a - b)"

definition i128_checked_mul :: "i128 \<Rightarrow> i128 \<Rightarrow> i128 option" where
  "i128_checked_mul a b = i128_fit (a * b)"

definition i128_checked_neg :: "i128 \<Rightarrow> i128 option" where
  "i128_checked_neg a = i128_fit (- a)"

lemma uint_u64_MAX [simp]: "uint u64_MAX = 2 ^ 64 - 1"
  by (simp add: u64_MAX_def)

lemma uint_u64_bound: "uint (x :: u64) < 2 ^ 64"
  using uint_lt2p [of x] by simp

lemma uint_u64_le_max: "uint (x :: u64) \<le> 18446744073709551615"
  using uint_u64_bound [of x] by simp

lemma u64_le_MAX [simp]: "x \<le> u64_MAX"
  using uint_u64_bound [of x] by (simp add: word_le_def)

lemma uint_u64_pos_iff: "0 < uint (x :: u64) \<longleftrightarrow> x \<noteq> 0"
  using uint_0_iff [of x] uint_ge_0 [of x] by linarith

lemma uint_add_u64: "uint (a :: u64) + uint b < 2 ^ 64 \<Longrightarrow> uint (a + b) = uint a + uint b"
  using uint_add_lem [of a b] by simp

lemma uint_mul_u64: "uint (a :: u64) * uint b < 2 ^ 64 \<Longrightarrow> uint (a * b) = uint a * uint b"
  using uint_mult_lem [of a b] by simp

lemma uint_sub_u64: "(b :: u64) \<le> a \<Longrightarrow> uint (a - b) = uint a - uint b"
  using uint_sub_lem [of b a] by (simp add: word_le_def)

lemma u64_checked_add_Some [checked_arith]:
  "u64_checked_add a b = Some c \<Longrightarrow> uint c = uint a + uint b"
  by (auto simp: u64_checked_add_def uint_add_u64 split: if_splits)

lemma u64_checked_sub_Some [checked_arith]:
  "u64_checked_sub a b = Some c \<Longrightarrow> uint c = uint a - uint b"
  by (auto simp: u64_checked_sub_def uint_sub_u64 split: if_splits)

lemma u64_checked_mul_Some [checked_arith]:
  "u64_checked_mul a b = Some c \<Longrightarrow> uint c = uint a * uint b"
  by (auto simp: u64_checked_mul_def uint_mul_u64 split: if_splits)

lemma u64_try_from_Some [checked_arith]:
  "u64_try_from x = Some c \<Longrightarrow> uint c = x"
  by (auto simp: u64_try_from_def uint_word_of_int split: if_splits)

lemma i128_fit_Some [checked_arith]: "i128_fit x = Some y \<Longrightarrow> y = x"
  by (auto simp: i128_fit_def split: if_splits)

lemma i128_checked_add_Some [checked_arith]: "i128_checked_add a b = Some c \<Longrightarrow> c = a + b"
  by (auto simp: i128_checked_add_def dest: i128_fit_Some)

lemma i128_checked_sub_Some [checked_arith]: "i128_checked_sub a b = Some c \<Longrightarrow> c = a - b"
  by (auto simp: i128_checked_sub_def dest: i128_fit_Some)

lemma i128_checked_mul_Some [checked_arith]: "i128_checked_mul a b = Some c \<Longrightarrow> c = a * b"
  by (auto simp: i128_checked_mul_def dest: i128_fit_Some)

lemma i128_checked_neg_Some [checked_arith]: "i128_checked_neg a = Some c \<Longrightarrow> c = - a"
  by (auto simp: i128_checked_neg_def dest: i128_fit_Some)

lemma uint_saturating_add:
  "uint (u64_saturating_add a b) = min (uint a + uint b) (2 ^ 64 - 1)"
  by (simp add: u64_saturating_add_def uint_add_u64)

lemma uint_saturating_mul:
  "uint (u64_saturating_mul a b) = min (uint a * uint b) (2 ^ 64 - 1)"
  by (simp add: u64_saturating_mul_def uint_mul_u64)

lemma uint_saturating_sub:
  "uint (u64_saturating_sub a b) = max 0 (uint a - uint b)"
  by (auto simp: u64_saturating_sub_def uint_sub_u64 word_le_def)

lemma uint_max_u64: "uint (max a b :: u64) = max (uint a) (uint b)"
  by (simp add: max_def word_le_def)

lemma uint_min_u64: "uint (min a b :: u64) = min (uint a) (uint b)"
  by (simp add: min_def word_le_def)

section \<open>Result\<close>

definition ok_or :: "'e \<Rightarrow> 'a option \<Rightarrow> 'e + 'a" where
  "ok_or e o' = (case o' of None \<Rightarrow> Inl e | Some x \<Rightarrow> Inr x)"

definition res_bind :: "'e + 'a \<Rightarrow> ('a \<Rightarrow> 'e + 'b) \<Rightarrow> 'e + 'b" where
  "res_bind r f = (case r of Inl e \<Rightarrow> Inl e | Inr x \<Rightarrow> f x)"

fun res_map :: "('a \<Rightarrow> 'e + 'b) \<Rightarrow> 'a list \<Rightarrow> 'e + 'b list" where
  "res_map f [] = Inr []"
| "res_map f (x # xs) = res_bind (f x) (\<lambda>y. res_bind (res_map f xs) (\<lambda>ys. Inr (y # ys)))"

fun res_fold :: "('a \<Rightarrow> 's \<Rightarrow> 'e + 's) \<Rightarrow> 'a list \<Rightarrow> 's \<Rightarrow> 'e + 's" where
  "res_fold f [] s = Inr s"
| "res_fold f (x # xs) s = res_bind (f x s) (\<lambda>s'. res_fold f xs s')"

lemma ok_or_Inr [simp]: "ok_or e o' = Inr x \<longleftrightarrow> o' = Some x"
  by (auto simp: ok_or_def split: option.splits)

lemma res_bind_Inr [simp]: "res_bind r f = Inr y \<longleftrightarrow> (\<exists>x. r = Inr x \<and> f x = Inr y)"
  by (auto simp: res_bind_def split: sum.splits)

lemma res_bind_simps [simp]: "res_bind (Inl e) f = Inl e" "res_bind (Inr x) f = f x"
  by (simp_all add: res_bind_def)

lemma ok_or_simps [simp]: "ok_or e None = Inl e" "ok_or e (Some x) = Inr x"
  by (simp_all add: ok_or_def)

lemma res_fold_append [simp]:
  "res_fold f (xs @ ys) s = res_bind (res_fold f xs s) (res_fold f ys)"
proof (induction xs arbitrary: s)
  case (Cons x xs)
  then show ?case by (cases "f x s") simp_all
qed simp

lemma res_fold_each: "res_fold f xs s = Inr s' \<Longrightarrow> x \<in> set xs \<Longrightarrow> \<exists>t t'. f x t = Inr t'"
  by (induction xs arbitrary: s) auto

lemma enumerate_elem: "i < length xs \<Longrightarrow> (i, xs ! i) \<in> set (List.enumerate 0 xs)"
  by (simp add: in_set_enumerate_eq)

lemma enumerate_split:
  assumes "List.enumerate 0 xs = ys @ (i, x) # zs"
  shows "i = length ys" and "i < length xs" and "x = xs ! i" and "map snd ys = take i xs"
proof -
  have len: "length ys < length xs"
    using arg_cong [OF assms, of length] by simp
  have "(i, x) = List.enumerate 0 xs ! length ys"
    using assms by (simp add: nth_append)
  then show i: "i = length ys" "x = xs ! i" using len by (auto simp: nth_enumerate_eq)
  then show "i < length xs" using len by simp
  have "map snd (take (length ys) (List.enumerate 0 xs)) = take i xs"
    unfolding i by (simp add: take_map [symmetric])
  then show "map snd ys = take i xs" using assms by simp
qed

text \<open>The loop rule that tracks the prefix already processed.\<close>

lemma res_fold_prefix:
  assumes "res_fold f xs s = Inr r" and "I [] s"
    and "\<And>ys x zs s s'. xs = ys @ x # zs \<Longrightarrow> I ys s \<Longrightarrow> f x s = Inr s' \<Longrightarrow> I (ys @ [x]) s'"
  shows "I xs r"
proof -
  have "I xs r" if "xs = ys @ zs" "I ys s" "res_fold f zs s = Inr r" for ys zs s
    using that
  proof (induction zs arbitrary: ys s)
    case (Cons z zs)
    from Cons.prems(3) obtain s' where "f z s = Inr s'" "res_fold f zs s' = Inr r" by auto
    then show ?case using Cons.IH [of "ys @ [z]" s'] Cons.prems(1,2) assms(3) by auto
  qed simp
  from this [of "[]" xs s] assms(1,2) show ?thesis by simp
qed

lemma res_map_length: "res_map f xs = Inr ys \<Longrightarrow> length ys = length xs"
  by (induction xs arbitrary: ys) auto

lemma res_map_nth: "res_map f xs = Inr ys \<Longrightarrow> i < length xs \<Longrightarrow> f (xs ! i) = Inr (ys ! i)"
  by (induction xs arbitrary: ys i) (auto simp: nth_Cons split: nat.splits)

section \<open>Ordered maps\<close>

text \<open>
  \<open>BTreeMap\<close> keeps its entries in strictly increasing key order. \<open>bt_get\<close> and \<open>bt_insert\<close>
  search that order, so they agree with each other on every list, and on lists satisfying
  \<open>bt_sorted\<close> they are the lookup and the update of a finite map.
\<close>

type_synonym ('k, 'v) btmap = "('k \<times> 'v) list"

fun bt_get :: "('k::linorder, 'v) btmap \<Rightarrow> 'k \<Rightarrow> 'v option" where
  "bt_get [] k = None"
| "bt_get ((a, v) # m) k = (if k < a then None else if k = a then Some v else bt_get m k)"

fun bt_insert :: "'k::linorder \<Rightarrow> 'v \<Rightarrow> ('k, 'v) btmap \<Rightarrow> ('k, 'v) btmap" where
  "bt_insert k v [] = [(k, v)]"
| "bt_insert k v ((a, w) # m) =
     (if k < a then (k, v) # (a, w) # m
      else if k = a then (k, v) # m
      else (a, w) # bt_insert k v m)"

definition bt_keys :: "('k, 'v) btmap \<Rightarrow> 'k list" where
  "bt_keys m = map fst m"

definition bt_retain :: "('v \<Rightarrow> bool) \<Rightarrow> ('k, 'v) btmap \<Rightarrow> ('k, 'v) btmap" where
  "bt_retain p m = filter (\<lambda>(k, v). p v) m"

definition bt_sorted :: "('k::linorder, 'v) btmap \<Rightarrow> bool" where
  "bt_sorted m = sorted_wrt (<) (map fst m)"

lemma bt_sorted_Nil [simp]: "bt_sorted []"
  by (simp add: bt_sorted_def)

lemma bt_sorted_single [simp]: "bt_sorted [(k, v)]"
  by (simp add: bt_sorted_def)

lemma bt_sorted_Cons:
  "bt_sorted ((k, v) # m) \<longleftrightarrow> (\<forall>x \<in> set (map fst m). k < x) \<and> bt_sorted m"
  by (simp add: bt_sorted_def)

lemma bt_insert_keys: "set (map fst (bt_insert k v m)) = insert k (set (map fst m))"
  by (induction k v m rule: bt_insert.induct) auto

lemma bt_sorted_insert [simp, intro]: "bt_sorted m \<Longrightarrow> bt_sorted (bt_insert k v m)"
proof (induction m)
  case (Cons p m)
  obtain a w where p: "p = (a, w)" by force
  show ?case
    using Cons bt_insert_keys [of k v m]
    by (auto simp: p bt_sorted_Cons simp del: set_map)
qed simp

lemma bt_sorted_retain [simp, intro]: "bt_sorted m \<Longrightarrow> bt_sorted (bt_retain p m)"
  by (induction m) (auto simp: bt_retain_def bt_sorted_def)

lemma bt_get_insert_same [simp]: "bt_get (bt_insert k v m) k = Some v"
  by (induction k v m rule: bt_insert.induct) auto

lemma bt_get_insert_other:
  "bt_sorted m \<Longrightarrow> j \<noteq> k \<Longrightarrow> bt_get (bt_insert k v m) j = bt_get m j"
proof (induction m)
  case (Cons p m)
  obtain a w where p: "p = (a, w)" by force
  show ?case
  proof (cases "k < a")
    case True
    have "bt_get m j = None" if "j < a"
      using Cons.prems(1) that by (cases m) (auto simp: p bt_sorted_Cons)
    then show ?thesis using True Cons.prems by (auto simp: p)
  next
    case False
    then show ?thesis using Cons by (auto simp: p bt_sorted_Cons)
  qed
qed auto

lemma bt_get_map_of: "bt_sorted m \<Longrightarrow> bt_get m k = map_of m k"
proof (induction m)
  case (Cons p m)
  obtain a w where p: "p = (a, w)" by force
  have "map_of m k = None" if "k < a"
    using Cons.prems that by (force simp: p bt_sorted_Cons map_of_eq_None_iff)
  then show ?case using Cons by (auto simp: p bt_sorted_Cons)
qed simp

lemma bt_get_in_set: "bt_get m k = Some v \<Longrightarrow> (k, v) \<in> set m"
  by (induction m k rule: bt_get.induct) (auto split: if_splits)

lemma bt_get_mem: "bt_sorted m \<Longrightarrow> bt_get m a = Some k \<longleftrightarrow> (a, k) \<in> set m"
  by (auto simp: bt_get_map_of bt_sorted_def strict_sorted_iff dest: map_of_SomeD)

lemma bt_insert_elem: "x \<in> set (bt_insert k v m) \<Longrightarrow> x = (k, v) \<or> x \<in> set m"
  by (induction k v m rule: bt_insert.induct) (auto split: if_splits)

lemma bt_insert_length: "length (bt_insert k v m) \<le> Suc (length m)"
  by (induction k v m rule: bt_insert.induct) auto

text \<open>The contract of an ordered map, and its client lemmas.\<close>

locale ordered_map =
  fixes get :: "'m \<Rightarrow> 'k \<Rightarrow> 'v option"
    and insert_entry :: "'k \<Rightarrow> 'v \<Rightarrow> 'm \<Rightarrow> 'm"
    and ordered :: "'m \<Rightarrow> bool"
    and empty_map :: 'm
  assumes get_empty: "get empty_map k = None"
    and get_insert: "ordered m \<Longrightarrow> get (insert_entry k v m) j = (if j = k then Some v else get m j)"
    and ordered_empty: "ordered empty_map"
    and ordered_insert: "ordered m \<Longrightarrow> ordered (insert_entry k v m)"
begin

lemma ordered_fold: "ordered m \<Longrightarrow> ordered (fold (\<lambda>(k, v). insert_entry k v) kvs m)"
  by (induction kvs arbitrary: m) (auto simp: ordered_insert)

lemma get_fold:
  "ordered m \<Longrightarrow>
    get (fold (\<lambda>(k, v). insert_entry k v) kvs m) j =
      (case map_of (rev kvs) j of Some v \<Rightarrow> Some v | None \<Rightarrow> get m j)"
proof (induction kvs arbitrary: m)
  case (Cons p kvs)
  obtain k v where p: "p = (k, v)" by force
  show ?case
    using Cons.IH [OF ordered_insert [OF Cons.prems, of k v]] Cons.prems
    by (auto simp: p get_insert map_add_def split: option.splits)
qed simp

end

interpretation bt: ordered_map bt_get bt_insert bt_sorted "[]"
  by unfold_locales (auto simp: bt_get_insert_other)

end
