(* ===== verification/Logic_Budget.thy ===== *)
theory Logic_Budget
  imports Prelude
begin

text \<open>
  The error type and the shared work budget of \<open>src/src/predicate_logic.rs\<close>. Every routine of
  the predicate logic threads one \<open>&mut LogicBudget\<close> and returns \<open>Result<_, LogicError>\<close>; the
  budget keeps what was charged before an error, so a computation maps a budget to a result
  \<^emph>\<open>and\<close> the budget left. \<open>lb_post\<close> states what a successful run returns; \<open>lb_mono\<close> that a run
  never gives budget back.
\<close>

section \<open>Limits, errors and the budget\<close>

definition MAX_LOGIC_PARAMETERS :: usize where "MAX_LOGIC_PARAMETERS = 32"
definition MAX_EXISTENTIALS :: usize where "MAX_EXISTENTIALS = 32"
definition MAX_EXPRESSION_NODES :: usize where "MAX_EXPRESSION_NODES = 256"
definition MAX_EXPRESSION_DEPTH :: usize where "MAX_EXPRESSION_DEPTH = 32"
definition MAX_SUBSTITUTION_NODES :: usize where "MAX_SUBSTITUTION_NODES = 4096"
definition MAX_CONSTRAINTS :: usize where "MAX_CONSTRAINTS = 32"
definition MAX_LINEAR_TERMS :: usize where "MAX_LINEAR_TERMS = 16"
definition MAX_BOOLEAN_BRANCHES :: usize where "MAX_BOOLEAN_BRANCHES = 16"

lemmas limit_defs = MAX_LOGIC_PARAMETERS_def MAX_EXISTENTIALS_def MAX_EXPRESSION_NODES_def
  MAX_EXPRESSION_DEPTH_def MAX_SUBSTITUTION_NODES_def MAX_CONSTRAINTS_def MAX_LINEAR_TERMS_def
  MAX_BOOLEAN_BRANCHES_def

datatype logic_error =
    Budget
  | InvalidNode
  | TypeMismatch
  | Unbound
  | DuplicateName
  | MissingWitness
  | Unproved
  | Overflow
  | StaleInstance

record logic_budget =
  remaining :: usize

type_synonym 'a lresult = "logic_error + 'a"
type_synonym 'a lb = "logic_budget \<Rightarrow> 'a lresult \<times> logic_budget"

definition default_budget :: logic_budget where
  "default_budget = \<lparr>remaining = MAX_SUBSTITUTION_NODES\<rparr>"

definition charge :: "usize \<Rightarrow> unit lb" where
  "charge amount b =
     (if amount \<le> remaining b then (Inr (), b\<lparr>remaining := remaining b - amount\<rparr>)
      else (Inl Budget, b))"

section \<open>Sequencing\<close>

definition lb_return :: "'a \<Rightarrow> 'a lb" where
  "lb_return x b = (Inr x, b)"

definition lb_throw :: "logic_error \<Rightarrow> 'a lb" where
  "lb_throw e b = (Inl e, b)"

definition lb_lift :: "'a lresult \<Rightarrow> 'a lb" where
  "lb_lift r b = (r, b)"

definition lb_bind :: "'a lb \<Rightarrow> ('a \<Rightarrow> 'b lb) \<Rightarrow> 'b lb" where
  "lb_bind m f b = (case m b of (Inl e, b') \<Rightarrow> (Inl e, b') | (Inr x, b') \<Rightarrow> f x b')"

definition lb_then :: "unit lb \<Rightarrow> 'b lb \<Rightarrow> 'b lb" where
  "lb_then m k = lb_bind m (\<lambda>_. k)"

definition lb_catch :: "'a lb \<Rightarrow> logic_error \<Rightarrow> 'a lb \<Rightarrow> 'a lb" where
  "lb_catch m e h b = (case m b of (Inl e', b') \<Rightarrow> if e' = e then h b' else (Inl e', b') | r \<Rightarrow> r)"

fun lb_map :: "('a \<Rightarrow> 'b lb) \<Rightarrow> 'a list \<Rightarrow> 'b list lb" where
  "lb_map f [] = lb_return []"
| "lb_map f (x # xs) = lb_bind (f x) (\<lambda>y. lb_bind (lb_map f xs) (\<lambda>ys. lb_return (y # ys)))"

fun lb_fold :: "('a \<Rightarrow> 's \<Rightarrow> 's lb) \<Rightarrow> 'a list \<Rightarrow> 's \<Rightarrow> 's lb" where
  "lb_fold f [] s = lb_return s"
| "lb_fold f (x # xs) s = lb_bind (f x s) (\<lambda>s'. lb_fold f xs s')"

lemma lb_bind_Inr:
  "lb_bind m f b = (Inr y, b') \<longleftrightarrow> (\<exists>x b1. m b = (Inr x, b1) \<and> f x b1 = (Inr y, b'))"
  by (auto simp: lb_bind_def split: prod.splits sum.splits)

lemma lb_simps:
  "lb_return x b = (Inr x, b)" "lb_throw e b = (Inl e, b)" "lb_lift r b = (r, b)"
  by (simp_all add: lb_return_def lb_throw_def lb_lift_def)

lemma lb_bind_cong [fundef_cong]:
  "m = m' \<Longrightarrow> (\<And>x. f x = f' x) \<Longrightarrow> lb_bind m f = lb_bind m' f'"
  by (simp add: fun_eq_iff lb_bind_def split: prod.splits sum.splits)

lemma lb_then_cong [fundef_cong]: "m = m' \<Longrightarrow> k = k' \<Longrightarrow> lb_then m k = lb_then m' k'"
  by simp

lemma lb_map_cong [fundef_cong]:
  "xs = ys \<Longrightarrow> (\<And>x. x \<in> set ys \<Longrightarrow> f x = g x) \<Longrightarrow> lb_map f xs = lb_map g ys"
  by (induction ys arbitrary: xs) auto

section \<open>Postconditions of successful runs\<close>

definition lb_post :: "'a lb \<Rightarrow> ('a \<Rightarrow> bool) \<Rightarrow> bool" where
  "lb_post m P = (\<forall>b x b'. m b = (Inr x, b') \<longrightarrow> P x)"

lemma lb_postD: "lb_post m P \<Longrightarrow> m b = (Inr x, b') \<Longrightarrow> P x"
  by (auto simp: lb_post_def)

lemma lb_postI: "(\<And>b x b'. m b = (Inr x, b') \<Longrightarrow> P x) \<Longrightarrow> lb_post m P"
  by (auto simp: lb_post_def)

lemma lb_post_return [lb_rules]: "P x \<Longrightarrow> lb_post (lb_return x) P"
  by (simp add: lb_post_def lb_simps)

lemma lb_post_throw [lb_rules]: "lb_post (lb_throw e) P"
  by (simp add: lb_post_def lb_simps)

lemma lb_post_lift [lb_rules]: "(\<And>x. r = Inr x \<Longrightarrow> P x) \<Longrightarrow> lb_post (lb_lift r) P"
  by (simp add: lb_post_def lb_simps)

lemma lb_post_charge [lb_rules]: "P () \<Longrightarrow> lb_post (charge n) P"
  by (simp add: lb_post_def lb_simps)

lemma lb_post_bind: "lb_post m Q \<Longrightarrow> (\<And>x. Q x \<Longrightarrow> lb_post (f x) P) \<Longrightarrow> lb_post (lb_bind m f) P"
  unfolding lb_post_def lb_bind_Inr by blast

lemma lb_post_then [lb_rules]: "lb_post k P \<Longrightarrow> lb_post (lb_then m k) P"
  unfolding lb_then_def by (rule lb_post_bind [where Q = "\<lambda>_. True"]) (auto simp: lb_post_def)

lemma lb_post_if [lb_rules]:
  "(c \<Longrightarrow> lb_post m P) \<Longrightarrow> (\<not> c \<Longrightarrow> lb_post k P) \<Longrightarrow> lb_post (if c then m else k) P"
  by simp

lemma lb_post_mono: "lb_post m Q \<Longrightarrow> (\<And>x. Q x \<Longrightarrow> P x) \<Longrightarrow> lb_post m P"
  by (auto simp: lb_post_def)

lemma lb_post_catch [lb_rules]: "lb_post m P \<Longrightarrow> lb_post h P \<Longrightarrow> lb_post (lb_catch m e h) P"
  by (auto simp: lb_post_def lb_catch_def split: prod.splits sum.splits if_splits)

lemma lb_post_True [simp]: "lb_post m (\<lambda>_. True)"
  by (simp add: lb_post_def lb_simps)

lemma lb_post_map:
  assumes "\<And>x. x \<in> set xs \<Longrightarrow> lb_post (f x) (R x)"
  shows "lb_post (lb_map f xs) (list_all2 R xs)"
  using assms
proof (induction xs)
  case Nil
  then show ?case by (simp add: lb_post_return)
next
  case (Cons x xs)
  have "lb_post (f x) (R x)" "lb_post (lb_map f xs) (list_all2 R xs)"
    using Cons by simp_all
  then show ?case
    by (auto intro!: lb_post_bind [where Q = "R x"] lb_post_bind [where Q = "list_all2 R xs"]
        lb_post_return)
qed

lemma lb_post_fold:
  assumes "I s" and "\<And>x s. x \<in> set xs \<Longrightarrow> I s \<Longrightarrow> lb_post (f x s) I"
  shows "lb_post (lb_fold f xs s) I"
  using assms
proof (induction xs arbitrary: s)
  case Nil
  then show ?case by (simp add: lb_post_return)
next
  case (Cons x xs)
  show ?case
    by (simp, rule lb_post_bind [where Q = I]) (use Cons in auto)
qed

text \<open>The loop rule that tracks the prefix already processed.\<close>

lemma lb_post_fold_prefix:
  assumes "I [] s"
    and "\<And>ys x zs s. xs = ys @ x # zs \<Longrightarrow> I ys s \<Longrightarrow> lb_post (f x s) (I (ys @ [x]))"
  shows "lb_post (lb_fold f xs s) (I xs)"
proof -
  have "lb_post (lb_fold f zs s) (I xs)" if "xs = ys @ zs" "I ys s" for ys zs s
    using that
  proof (induction zs arbitrary: ys s)
    case Nil
    then show ?case by (simp add: lb_post_return)
  next
    case (Cons z zs)
    show ?case
      by (simp, rule lb_post_bind [where Q = "I (ys @ [z])"])
        (use Cons assms(2) in auto)
  qed
  from this [of "[]" xs s] assms(1) show ?thesis by simp
qed

lemma lb_post_lift_bind: "(\<And>x. r = Inr x \<Longrightarrow> lb_post (f x) P) \<Longrightarrow> lb_post (lb_bind (lb_lift r) f) P"
  by (rule lb_post_bind [where Q = "\<lambda>x. r = Inr x"]) (auto intro: lb_rules)

section \<open>Postconditions of every run, errors included\<close>

definition lb_spec :: "'a lb \<Rightarrow> ('a \<Rightarrow> bool) \<Rightarrow> (logic_error \<Rightarrow> bool) \<Rightarrow> bool" where
  "lb_spec m P E = (\<forall>b. case fst (m b) of Inl e \<Rightarrow> E e | Inr x \<Rightarrow> P x)"

lemma lb_specD:
  "lb_spec m P E \<Longrightarrow> m b = (Inr x, b') \<Longrightarrow> P x"
  "lb_spec m P E \<Longrightarrow> m b = (Inl e, b') \<Longrightarrow> E e"
  by (auto simp: lb_spec_def dest: spec [of _ b])

lemma lb_spec_return [lb_rules]: "P x \<Longrightarrow> lb_spec (lb_return x) P E"
  by (simp add: lb_spec_def lb_simps)

lemma lb_spec_throw [lb_rules]: "E e \<Longrightarrow> lb_spec (lb_throw e) P E"
  by (simp add: lb_spec_def lb_simps)

lemma lb_spec_charge [lb_rules]: "P () \<Longrightarrow> E Budget \<Longrightarrow> lb_spec (charge n) P E"
  by (simp add: lb_spec_def charge_def)

lemma lb_spec_lift [lb_rules]:
  "(\<And>x. r = Inr x \<Longrightarrow> P x) \<Longrightarrow> (\<And>e. r = Inl e \<Longrightarrow> E e) \<Longrightarrow> lb_spec (lb_lift r) P E"
  by (cases r) (auto simp: lb_spec_def lb_simps)

lemma lb_spec_bind:
  assumes "lb_spec m Q E" and "\<And>x. Q x \<Longrightarrow> lb_spec (f x) P E"
  shows "lb_spec (lb_bind m f) P E"
  unfolding lb_spec_def
proof
  fix b
  obtain r b' where m: "m b = (r, b')" by force
  show "case fst (lb_bind m f b) of Inl e \<Rightarrow> E e | Inr x \<Rightarrow> P x"
  proof (cases r)
    case (Inl e)
    then show ?thesis using lb_specD(2) [OF assms(1)] m by (simp add: lb_bind_def)
  next
    case (Inr x)
    then have "Q x" using lb_specD(1) [OF assms(1)] m by simp
    then show ?thesis using assms(2) [of x] Inr m by (simp add: lb_bind_def lb_spec_def)
  qed
qed

lemma lb_spec_then [lb_rules]:
  "lb_spec m (\<lambda>_. True) E \<Longrightarrow> lb_spec k P E \<Longrightarrow> lb_spec (lb_then m k) P E"
  unfolding lb_then_def by (rule lb_spec_bind)

lemma lb_spec_if [lb_rules]:
  "(c \<Longrightarrow> lb_spec m P E) \<Longrightarrow> (\<not> c \<Longrightarrow> lb_spec k P E) \<Longrightarrow> lb_spec (if c then m else k) P E"
  by simp

lemma lb_spec_mono: "lb_spec m Q E \<Longrightarrow> (\<And>x. Q x \<Longrightarrow> P x) \<Longrightarrow> lb_spec m P E"
  by (auto simp: lb_spec_def split: sum.splits)

lemma lb_spec_fold_prefix:
  assumes "I [] s"
    and "\<And>ys x zs s. xs = ys @ x # zs \<Longrightarrow> I ys s \<Longrightarrow> lb_spec (f x s) (I (ys @ [x])) E"
  shows "lb_spec (lb_fold f xs s) (I xs) E"
proof -
  have "lb_spec (lb_fold f zs s) (I xs) E" if "xs = ys @ zs" "I ys s" for ys zs s
    using that
  proof (induction zs arbitrary: ys s)
    case Nil
    then show ?case by (auto simp: lb_spec_def lb_simps)
  next
    case (Cons z zs)
    show ?case
      by (simp, rule lb_spec_bind [where Q = "I (ys @ [z])"])
        (use Cons assms(2) in auto)
  qed
  from this [of "[]" xs s] assms(1) show ?thesis by simp
qed

lemma lb_spec_map:
  assumes "\<And>x. x \<in> set xs \<Longrightarrow> lb_spec (f x) (R x) E"
  shows "lb_spec (lb_map f xs) (list_all2 R xs) E"
  using assms
proof (induction xs)
  case Nil
  then show ?case by (auto simp: lb_spec_def lb_simps)
next
  case (Cons x xs)
  have "lb_spec (f x) (R x) E" "lb_spec (lb_map f xs) (list_all2 R xs) E"
    using Cons by simp_all
  then show ?case
    by (auto intro!: lb_spec_bind [where Q = "R x"] lb_spec_bind [where Q = "list_all2 R xs"]
        lb_spec_return)
qed

lemma lb_spec_catch:
  assumes "lb_spec m P (\<lambda>e. e = x \<or> E e)" and "lb_spec h P E"
  shows "lb_spec (lb_catch m x h) P E"
  unfolding lb_spec_def
proof
  fix b
  obtain r b' where m: "m b = (r, b')" by force
  show "case fst (lb_catch m x h b) of Inl e \<Rightarrow> E e | Inr y \<Rightarrow> P y"
    using assms m unfolding lb_spec_def lb_catch_def
    by (cases r) (auto dest!: spec [of _ b])
qed

lemma lb_spec_weaken:
  "lb_spec m Q F \<Longrightarrow> (\<And>x. Q x \<Longrightarrow> P x) \<Longrightarrow> (\<And>e. F e \<Longrightarrow> E e) \<Longrightarrow> lb_spec m P E"
  by (auto simp: lb_spec_def split: sum.splits)

lemma lb_spec_lift_bind:
  "(\<And>x. r = Inr x \<Longrightarrow> lb_spec (f x) P E) \<Longrightarrow> (\<And>e. r = Inl e \<Longrightarrow> E e) \<Longrightarrow>
    lb_spec (lb_bind (lb_lift r) f) P E"
  by (rule lb_spec_bind [where Q = "\<lambda>x. r = Inr x"]) (auto intro: lb_rules)

section \<open>Budgets only shrink\<close>

definition lb_mono :: "'a lb \<Rightarrow> bool" where
  "lb_mono m = (\<forall>b. remaining (snd (m b)) \<le> remaining b)"

lemma lb_monoI: "(\<And>b r b'. m b = (r, b') \<Longrightarrow> remaining b' \<le> remaining b) \<Longrightarrow> lb_mono m"
  by (auto simp: lb_mono_def) (metis prod.collapse)

lemma lb_monoD: "lb_mono m \<Longrightarrow> m b = (r, b') \<Longrightarrow> remaining b' \<le> remaining b"
  by (metis lb_mono_def snd_conv)

lemma lb_mono_basic [lb_mono_rules]:
  "lb_mono (lb_return x)" "lb_mono (lb_throw e)" "lb_mono (lb_lift r)" "lb_mono (charge n)"
  by (auto simp: lb_mono_def charge_def lb_simps)

lemma lb_mono_bind [lb_mono_rules]:
  assumes "lb_mono m" and "\<And>x. lb_mono (f x)"
  shows "lb_mono (lb_bind m f)"
proof (rule lb_monoI)
  fix b r b'
  assume r: "lb_bind m f b = (r, b')"
  obtain q c where m: "m b = (q, c)" by force
  have c: "remaining c \<le> remaining b" using assms(1) m by (rule lb_monoD)
  show "remaining b' \<le> remaining b"
  proof (cases q)
    case (Inl e)
    then show ?thesis using r m c by (simp add: lb_bind_def)
  next
    case (Inr x)
    then have "f x c = (r, b')" using r m by (simp add: lb_bind_def)
    then show ?thesis using lb_monoD [OF assms(2)] c by (meson le_trans)
  qed
qed

lemma lb_mono_then [lb_mono_rules]: "lb_mono m \<Longrightarrow> lb_mono k \<Longrightarrow> lb_mono (lb_then m k)"
  unfolding lb_then_def by (rule lb_mono_bind)

lemma lb_mono_if [lb_mono_rules]:
  "(c \<Longrightarrow> lb_mono m) \<Longrightarrow> (\<not> c \<Longrightarrow> lb_mono k) \<Longrightarrow> lb_mono (if c then m else k)"
  by simp

lemma lb_mono_catch [lb_mono_rules]:
  assumes "lb_mono m" and "lb_mono h"
  shows "lb_mono (lb_catch m e h)"
proof (rule lb_monoI)
  fix b r b'
  assume r: "lb_catch m e h b = (r, b')"
  obtain q c where m: "m b = (q, c)" by force
  have c: "remaining c \<le> remaining b" using assms(1) m by (rule lb_monoD)
  have "h c = (r, b') \<or> b' = c"
    using r m by (auto simp: lb_catch_def split: sum.splits if_splits)
  then show "remaining b' \<le> remaining b"
    using lb_monoD [OF assms(2)] c by (meson le_trans)
qed

lemma lb_mono_fold [lb_mono_rules]: "(\<And>x s. lb_mono (f x s)) \<Longrightarrow> lb_mono (lb_fold f xs s)"
  by (induction xs arbitrary: s) (auto intro!: lb_mono_rules)

lemma lb_mono_map [lb_mono_rules]: "(\<And>x. lb_mono (f x)) \<Longrightarrow> lb_mono (lb_map f xs)"
  by (induction xs) (auto intro!: lb_mono_rules)

lemma lb_mono_option [lb_mono_rules]:
  "(o' = None \<Longrightarrow> lb_mono m) \<Longrightarrow> (\<And>x. o' = Some x \<Longrightarrow> lb_mono (f x)) \<Longrightarrow>
    lb_mono (case o' of None \<Rightarrow> m | Some x \<Rightarrow> f x)"
  by (cases o') auto

text \<open>The limit is hard: a computation that charges more than it was given fails.\<close>

lemma charge_ok: "charge n b = (Inr (), b') \<longleftrightarrow> n \<le> remaining b \<and> b' = b\<lparr>remaining := remaining b - n\<rparr>"
  by (auto simp: charge_def)

lemma charge_then_Inr:
  "lb_then (charge n) k b = (Inr x, b') \<longleftrightarrow>
     n \<le> remaining b \<and> k (b\<lparr>remaining := remaining b - n\<rparr>) = (Inr x, b')"
  by (auto simp: lb_then_def lb_bind_Inr charge_ok)

end
