(* ===== verification/Affine_Value.thy ===== *)
theory Affine_Value
  imports Logic_Budget
begin

text \<open>
  \<open>AffineValue\<close> of \<open>src/src/predicate_logic.rs\<close>: an affine form over atoms with a closed
  \<open>u64\<close> interval. \<open>av_den\<close> is its meaning under a valuation of the atoms, \<open>av_sat\<close> says the
  recorded interval contains that meaning. The operations fail instead of wrapping, so a
  successful one denotes the exact arithmetic result and that result fits a machine word.
\<close>

section \<open>Affine forms\<close>

record 'a affine_value =
  av_lower :: u64
  av_upper :: u64
  av_constant :: i128
  av_terms :: "('a, i128) btmap"

definition lin_sum :: "('a \<Rightarrow> int) \<Rightarrow> ('a, i128) btmap \<Rightarrow> int" where
  "lin_sum \<rho> terms = sum_list (map (\<lambda>(a, n). n * \<rho> a) terms)"

definition av_den :: "('a \<Rightarrow> int) \<Rightarrow> 'a affine_value \<Rightarrow> int" where
  "av_den \<rho> v = av_constant v + lin_sum \<rho> (av_terms v)"

definition av_sat :: "('a \<Rightarrow> int) \<Rightarrow> 'a affine_value \<Rightarrow> bool" where
  "av_sat \<rho> v = (uint (av_lower v) \<le> av_den \<rho> v \<and> av_den \<rho> v \<le> uint (av_upper v))"

definition av_wf :: "'a::linorder affine_value \<Rightarrow> bool" where
  "av_wf v = (av_lower v \<le> av_upper v \<and> bt_sorted (av_terms v) \<and>
     length (av_terms v) \<le> MAX_LINEAR_TERMS \<and> (\<forall>(a, n) \<in> set (av_terms v). n \<noteq> 0))"

section \<open>Constructors and arithmetic\<close>

definition av_exact :: "u64 \<Rightarrow> 'a affine_value" where
  "av_exact value =
     \<lparr>av_lower = value, av_upper = value, av_constant = uint value, av_terms = []\<rparr>"

definition av_identified :: "'a \<Rightarrow> u64 \<Rightarrow> u64 \<Rightarrow> 'a affine_value lresult" where
  "av_identified atom lower upper =
     (if lower > upper then Inl InvalidNode
      else Inr \<lparr>av_lower = lower, av_upper = upper, av_constant = 0, av_terms = [(atom, 1)]\<rparr>)"

definition av_variable :: "'a \<Rightarrow> u64 \<Rightarrow> u64 \<Rightarrow> 'a affine_value lresult" where
  "av_variable atom lower upper =
     (if lower > upper then Inl InvalidNode
      else if lower = upper then Inr (av_exact lower)
      else av_identified atom lower upper)"

definition sign_of :: "bool \<Rightarrow> i128" where
  "sign_of subtract = (if subtract then - 1 else 1)"

definition bt_get_or_zero :: "('k::linorder, i128) btmap \<Rightarrow> 'k \<Rightarrow> i128" where
  "bt_get_or_zero m k = (case bt_get m k of None \<Rightarrow> 0 | Some n \<Rightarrow> n)"

definition combine_terms ::
  "bool \<Rightarrow> ('a::linorder, i128) btmap \<Rightarrow> ('a, i128) btmap \<Rightarrow> ('a, i128) btmap lresult" where
  "combine_terms subtract terms other =
     res_fold (\<lambda>(atom, n) terms.
         res_bind (ok_or Overflow (i128_checked_mul n (sign_of subtract))) (\<lambda>p.
         res_bind (ok_or Overflow (i128_checked_add (bt_get_or_zero terms atom) p)) (\<lambda>v.
         Inr (bt_insert atom v terms)))) other terms"

definition av_combine ::
  "'a::linorder affine_value \<Rightarrow> 'a affine_value \<Rightarrow> bool \<Rightarrow> 'a affine_value lresult" where
  "av_combine a b subtract =
     res_bind (combine_terms subtract (av_terms a) (av_terms b)) (\<lambda>terms0.
     let terms = bt_retain (\<lambda>n. n \<noteq> 0) terms0 in
     if length terms > MAX_LINEAR_TERMS then Inl Budget
     else res_bind (ok_or Overflow (i128_checked_mul (av_constant b) (sign_of subtract))) (\<lambda>k.
     res_bind (ok_or Overflow (i128_checked_add (av_constant a) k)) (\<lambda>constant.
     if terms = [] then
       res_bind (ok_or Overflow (u64_try_from constant)) (\<lambda>value. Inr (av_exact value))
     else
       res_bind (ok_or Overflow
           (if subtract then u64_checked_sub (av_lower a) (av_upper b)
            else u64_checked_add (av_lower a) (av_lower b))) (\<lambda>lower.
       res_bind (ok_or Overflow
           (if subtract then u64_checked_sub (av_upper a) (av_lower b)
            else u64_checked_add (av_upper a) (av_upper b))) (\<lambda>upper.
       Inr \<lparr>av_lower = lower, av_upper = upper, av_constant = constant, av_terms = terms\<rparr>)))))"

definition av_add :: "'a::linorder affine_value \<Rightarrow> 'a affine_value \<Rightarrow> 'a affine_value lresult" where
  "av_add a b = av_combine a b False"

definition av_sub :: "'a::linorder affine_value \<Rightarrow> 'a affine_value \<Rightarrow> 'a affine_value lresult" where
  "av_sub a b = av_combine a b True"

definition scale_terms :: "i128 \<Rightarrow> ('a, i128) btmap \<Rightarrow> ('a, i128) btmap lresult" where
  "scale_terms factor terms =
     res_map (\<lambda>(a, n). res_bind (ok_or Overflow (i128_checked_mul n factor)) (\<lambda>m. Inr (a, m))) terms"

definition av_scale :: "'a affine_value \<Rightarrow> u64 \<Rightarrow> 'a affine_value lresult" where
  "av_scale a factor =
     (if factor = 0 then Inr (av_exact 0)
      else
        res_bind (ok_or Overflow (u64_checked_mul (av_lower a) factor)) (\<lambda>lower.
        res_bind (ok_or Overflow (u64_checked_mul (av_upper a) factor)) (\<lambda>upper.
        res_bind (ok_or Overflow (i128_checked_mul (av_constant a) (uint factor))) (\<lambda>constant.
        res_bind (scale_terms (uint factor) (av_terms a)) (\<lambda>terms.
        Inr \<lparr>av_lower = lower, av_upper = upper, av_constant = constant, av_terms = terms\<rparr>)))))"

definition av_equal :: "'a affine_value \<Rightarrow> 'a affine_value \<Rightarrow> bool option" where
  "av_equal a b =
     (if av_terms a = av_terms b then Some (av_constant a = av_constant b)
      else if av_lower a = av_upper a \<and> av_lower b = av_upper b then Some (av_lower a = av_lower b)
      else if av_upper a < av_lower b \<or> av_upper b < av_lower a then Some False
      else None)"

definition av_less_equal :: "'a affine_value \<Rightarrow> 'a affine_value \<Rightarrow> bool option" where
  "av_less_equal a b =
     (if av_terms a = av_terms b then Some (av_constant a \<le> av_constant b)
      else if av_upper a \<le> av_lower b then Some True
      else if av_lower a > av_upper b then Some False
      else None)"

section \<open>Linear sums\<close>

lemma lin_sum_simps [simp]:
  "lin_sum \<rho> [] = 0" "lin_sum \<rho> ((a, n) # t) = n * \<rho> a + lin_sum \<rho> t"
  by (simp_all add: lin_sum_def)

lemma lin_sum_append [simp]: "lin_sum \<rho> (s @ t) = lin_sum \<rho> s + lin_sum \<rho> t"
  by (simp add: lin_sum_def)

lemma lin_sum_retain [simp]: "lin_sum \<rho> (bt_retain (\<lambda>n. n \<noteq> 0) t) = lin_sum \<rho> t"
  by (induction t) (auto simp: bt_retain_def)

lemma lin_sum_insert:
  "lin_sum \<rho> (bt_insert k v t) = lin_sum \<rho> t + (v - bt_get_or_zero t k) * \<rho> k"
  by (induction k v t rule: bt_insert.induct) (auto simp: bt_get_or_zero_def algebra_simps)

lemma combine_terms_sum:
  "combine_terms s t u = Inr r \<Longrightarrow> lin_sum \<rho> r = lin_sum \<rho> t + sign_of s * lin_sum \<rho> u"
proof (induction u arbitrary: t)
  case (Cons p u)
  obtain a n where p: "p = (a, n)" by force
  from Cons.prems obtain v where
    v: "v = bt_get_or_zero t a + n * sign_of s" and r: "combine_terms s (bt_insert a v t) u = Inr r"
    by (auto simp: combine_terms_def p dest!: checked_arith)
  from Cons.IH [OF r] show ?case by (simp add: p v lin_sum_insert algebra_simps)
qed (simp add: combine_terms_def)

lemma combine_terms_sorted: "combine_terms s t u = Inr r \<Longrightarrow> bt_sorted t \<Longrightarrow> bt_sorted r"
proof (induction u arbitrary: t)
  case (Cons p u)
  obtain a n where p: "p = (a, n)" by force
  from Cons.prems obtain v where "combine_terms s (bt_insert a v t) u = Inr r"
    by (auto simp: combine_terms_def p)
  with Cons.IH Cons.prems(2) show ?case by blast
qed (simp add: combine_terms_def)

lemma scale_terms_sum: "scale_terms k t = Inr r \<Longrightarrow> lin_sum \<rho> r = k * lin_sum \<rho> t"
  unfolding scale_terms_def
  by (induction t arbitrary: r) (auto simp: algebra_simps dest!: checked_arith)

lemma scale_terms_keys: "scale_terms k t = Inr r \<Longrightarrow> map fst r = map fst t"
  unfolding scale_terms_def by (induction t arbitrary: r) auto

lemma scale_terms_nonzero:
  "scale_terms k t = Inr r \<Longrightarrow> k \<noteq> 0 \<Longrightarrow> \<forall>(a, n) \<in> set t. n \<noteq> 0 \<Longrightarrow> \<forall>(a, n) \<in> set r. n \<noteq> 0"
  unfolding scale_terms_def
  by (induction t arbitrary: r) (auto dest!: checked_arith)

section \<open>The operations are sound\<close>

lemma av_den_exact [simp]: "av_den \<rho> (av_exact v) = uint v"
  by (simp add: av_den_def av_exact_def)

lemma av_sat_exact [simp]: "av_sat \<rho> (av_exact v)"
  by (simp add: av_sat_def) (simp add: av_exact_def)

lemma av_sat_word: "av_sat \<rho> v \<Longrightarrow> 0 \<le> av_den \<rho> v \<and> av_den \<rho> v < 2 ^ 64"
  unfolding av_sat_def using uint_u64_bound [of "av_upper v"] uint_ge_0 [of "av_lower v"]
  by linarith

lemma av_variable_sound:
  assumes "av_variable a l u = Inr v" and "uint l \<le> \<rho> a" and "\<rho> a \<le> uint u"
  shows "av_den \<rho> v = \<rho> a \<and> av_sat \<rho> v"
  using assms by (auto simp: av_variable_def av_identified_def av_den_def av_sat_def av_exact_def
      split: if_splits)

lemma av_identified_sound:
  assumes "av_identified a l u = Inr v"
  shows "av_den \<rho> v = \<rho> a \<and> (av_sat \<rho> v \<longleftrightarrow> uint l \<le> \<rho> a \<and> \<rho> a \<le> uint u)"
  using assms by (auto simp: av_identified_def av_den_def av_sat_def split: if_splits)

lemma av_combine_den:
  assumes "av_combine a b s = Inr c"
  shows "av_den \<rho> c = av_den \<rho> a + sign_of s * av_den \<rho> b"
proof -
  from assms obtain t k cst where
    t: "combine_terms s (av_terms a) (av_terms b) = Inr t" and
    k: "i128_checked_mul (av_constant b) (sign_of s) = Some k" and
    kc: "i128_checked_add (av_constant a) k = Some cst" and
    c: "(bt_retain (\<lambda>n. n \<noteq> 0) t = [] \<and> (\<exists>v. u64_try_from cst = Some v \<and> c = av_exact v)) \<or>
        (av_constant c = cst \<and> av_terms c = bt_retain (\<lambda>n. n \<noteq> 0) t)"
    by (auto simp: av_combine_def Let_def split: if_splits)
  have sum: "lin_sum \<rho> (bt_retain (\<lambda>n. n \<noteq> 0) t) =
      lin_sum \<rho> (av_terms a) + sign_of s * lin_sum \<rho> (av_terms b)"
    using combine_terms_sum [OF t] by simp
  have const: "cst = av_constant a + sign_of s * av_constant b"
    using k kc by (auto dest!: checked_arith)
  from c show ?thesis
  proof
    assume "bt_retain (\<lambda>n. n \<noteq> 0) t = [] \<and> (\<exists>v. u64_try_from cst = Some v \<and> c = av_exact v)"
    then show ?thesis using sum const
      by (auto simp: av_den_def [of \<rho> a] av_den_def [of \<rho> b] algebra_simps dest!: checked_arith)
  qed (use sum const in \<open>simp add: av_den_def algebra_simps\<close>)
qed

lemma av_combine_sat:
  assumes "av_combine a b s = Inr c" and "av_sat \<rho> a" and "av_sat \<rho> b"
  shows "av_sat \<rho> c"
proof -
  have den: "av_den \<rho> c = av_den \<rho> a + sign_of s * av_den \<rho> b"
    using assms(1) by (rule av_combine_den)
  from assms(1) have "(\<exists>v. c = av_exact v) \<or>
      (if s then uint (av_lower c) = uint (av_lower a) - uint (av_upper b) \<and>
                 uint (av_upper c) = uint (av_upper a) - uint (av_lower b)
       else uint (av_lower c) = uint (av_lower a) + uint (av_lower b) \<and>
            uint (av_upper c) = uint (av_upper a) + uint (av_upper b))"
    by (auto simp: av_combine_def Let_def split: if_splits dest!: checked_arith)
  then show ?thesis using assms(2,3) den
    by (auto simp: av_sat_def sign_of_def split: if_splits) (simp_all add: av_exact_def)
qed

lemma av_scale_den: "av_scale a k = Inr c \<Longrightarrow> av_den \<rho> c = uint k * av_den \<rho> a"
  by (auto simp: av_scale_def av_den_def av_exact_def algebra_simps split: if_splits
      dest!: checked_arith scale_terms_sum [where \<rho> = \<rho>])

lemma av_scale_sat:
  assumes "av_scale a k = Inr c" and "av_sat \<rho> a"
  shows "av_sat \<rho> c"
proof (cases "k = 0")
  case True
  then show ?thesis using assms by (auto simp: av_scale_def)
next
  case False
  then have "uint (av_lower c) = uint (av_lower a) * uint k" "uint (av_upper c) = uint (av_upper a) * uint k"
    using assms(1) by (auto simp: av_scale_def split: if_splits dest!: checked_arith)
  moreover have "av_den \<rho> c = uint k * av_den \<rho> a" using assms(1) by (rule av_scale_den)
  ultimately show ?thesis using assms(2)
    by (auto simp: av_sat_def mult.commute intro: mult_left_mono)
qed

lemma av_equal_sound:
  assumes "av_equal a b = Some t" and "av_sat \<rho> a" and "av_sat \<rho> b"
  shows "t = (av_den \<rho> a = av_den \<rho> b)"
proof (cases "av_terms a = av_terms b")
  case True
  then show ?thesis using assms(1) by (auto simp: av_equal_def av_den_def)
next
  case False
  then show ?thesis using assms
    by (auto simp: av_equal_def av_sat_def word_less_def word_le_def word_uint_eq_iff
        split: if_splits)
qed

lemma av_less_equal_sound:
  assumes "av_less_equal a b = Some t" and "av_sat \<rho> a" and "av_sat \<rho> b"
  shows "t = (av_den \<rho> a \<le> av_den \<rho> b)"
proof (cases "av_terms a = av_terms b")
  case True
  then show ?thesis using assms(1) by (auto simp: av_less_equal_def av_den_def)
next
  case False
  then show ?thesis using assms
    by (auto simp: av_less_equal_def av_sat_def word_less_def word_le_def split: if_splits)
qed

section \<open>The representation invariant\<close>

lemma av_wf_exact [simp]: "av_wf (av_exact v)"
  by (simp add: av_wf_def av_exact_def)

lemma av_wf_identified: "av_identified a l u = Inr v \<Longrightarrow> av_wf v"
  by (auto simp: av_identified_def av_wf_def limit_defs split: if_splits)

lemma av_wf_variable: "av_variable a l u = Inr v \<Longrightarrow> av_wf v"
  by (auto simp: av_variable_def av_wf_identified split: if_splits)

lemma bt_retain_nonzero [simp]: "\<forall>(a, n) \<in> set (bt_retain (\<lambda>n. n \<noteq> 0) t). n \<noteq> 0"
  by (auto simp: bt_retain_def)

lemma av_wf_combine:
  assumes "av_combine a b s = Inr c" and "av_wf a" and "av_wf b"
  shows "av_wf c"
proof -
  from assms(1) obtain t where t: "combine_terms s (av_terms a) (av_terms b) = Inr t" and
    c: "(\<exists>v. c = av_exact v) \<or>
      (av_terms c = bt_retain (\<lambda>n. n \<noteq> 0) t \<and> length (av_terms c) \<le> MAX_LINEAR_TERMS \<and>
       (if s then uint (av_lower c) = uint (av_lower a) - uint (av_upper b) \<and>
                 uint (av_upper c) = uint (av_upper a) - uint (av_lower b)
       else uint (av_lower c) = uint (av_lower a) + uint (av_lower b) \<and>
            uint (av_upper c) = uint (av_upper a) + uint (av_upper b)))"
    by (auto simp: av_combine_def Let_def split: if_splits dest!: checked_arith)
  have "bt_sorted t" using combine_terms_sorted [OF t] assms(2) by (simp add: av_wf_def)
  then have sorted: "bt_sorted (bt_retain (\<lambda>n. n \<noteq> 0) t)" by simp
  have le: "uint (av_lower a) \<le> uint (av_upper a)" "uint (av_lower b) \<le> uint (av_upper b)"
    using assms(2,3) by (simp_all add: av_wf_def word_le_def)
  show ?thesis
  proof (cases "\<exists>v. c = av_exact v")
    case False
    with c sorted le bt_retain_nonzero [of t] show ?thesis
      unfolding av_wf_def word_le_def by (auto split: if_splits)
  qed auto
qed

lemma av_wf_scale:
  assumes "av_scale a k = Inr c" and "av_wf a"
  shows "av_wf c"
proof (cases "k = 0")
  case True
  then show ?thesis using assms by (auto simp: av_scale_def)
next
  case False
  then obtain t where t: "scale_terms (uint k) (av_terms a) = Inr t" and c: "av_terms c = t"
    "uint (av_lower c) = uint (av_lower a) * uint k" "uint (av_upper c) = uint (av_upper a) * uint k"
    using assms(1) by (auto simp: av_scale_def split: if_splits dest!: checked_arith)
  have "map fst t = map fst (av_terms a)" using t by (rule scale_terms_keys)
  then have "length t = length (av_terms a)" "bt_sorted t = bt_sorted (av_terms a)"
    by (auto simp: bt_sorted_def dest: map_eq_imp_length_eq)
  moreover have "uint k \<noteq> 0" using False by (simp add: uint_0_iff)
  ultimately show ?thesis using assms(2) c scale_terms_nonzero [OF t]
    by (auto simp: av_wf_def word_le_def mult_right_mono)
qed

section \<open>Checked affine domains\<close>

text \<open>
  What the evaluators rely on: a domain whose partial arithmetic is exact on values that
  meet their bounds. \<open>AffineValue\<close> and the mathematical \<open>LinearWord\<close> both provide it.
\<close>

locale affine_domain =
  fixes den :: "('a \<Rightarrow> int) \<Rightarrow> 'v \<Rightarrow> int"
    and sat :: "('a \<Rightarrow> int) \<Rightarrow> 'v \<Rightarrow> bool"
    and combine :: "'v \<Rightarrow> 'v \<Rightarrow> bool \<Rightarrow> 'v lresult"
    and scale :: "'v \<Rightarrow> u64 \<Rightarrow> 'v lresult"
  assumes combine_den: "combine a b s = Inr c \<Longrightarrow> den \<rho> c = den \<rho> a + sign_of s * den \<rho> b"
    and combine_sat: "combine a b s = Inr c \<Longrightarrow> sat \<rho> a \<Longrightarrow> sat \<rho> b \<Longrightarrow> sat \<rho> c"
    and scale_den: "scale a k = Inr c \<Longrightarrow> den \<rho> c = uint k * den \<rho> a"
    and scale_sat: "scale a k = Inr c \<Longrightarrow> sat \<rho> a \<Longrightarrow> sat \<rho> c"
begin

lemma add_exact: "combine a b False = Inr c \<Longrightarrow> den \<rho> c = den \<rho> a + den \<rho> b"
  by (simp add: combine_den sign_of_def)

lemma sub_exact: "combine a b True = Inr c \<Longrightarrow> den \<rho> c = den \<rho> a - den \<rho> b"
  by (simp add: combine_den sign_of_def)

text \<open>A weighted sum built by repeated scaling and addition.\<close>

lemma weighted_sum_exact:
  "res_fold (\<lambda>(k, v) acc. res_bind (scale v k) (\<lambda>w. combine acc w False)) kvs acc = Inr r \<Longrightarrow>
    den \<rho> r = den \<rho> acc + sum_list (map (\<lambda>(k, v). uint k * den \<rho> v) kvs)"
proof (induction kvs arbitrary: acc)
  case (Cons p kvs)
  obtain k v where p: "p = (k, v)" by force
  from Cons.prems obtain w acc' where w: "scale v k = Inr w" "combine acc w False = Inr acc'"
    "res_fold (\<lambda>(k, v) acc. res_bind (scale v k) (\<lambda>w. combine acc w False)) kvs acc' = Inr r"
    by (auto simp: p)
  from Cons.IH [OF w(3)] show ?case
    by (simp add: p add_exact [OF w(2)] scale_den [OF w(1)])
qed simp

lemma weighted_sum_sat:
  "res_fold (\<lambda>(k, v) acc. res_bind (scale v k) (\<lambda>w. combine acc w False)) kvs acc = Inr r \<Longrightarrow>
    sat \<rho> acc \<Longrightarrow> \<forall>(k, v) \<in> set kvs. sat \<rho> v \<Longrightarrow> sat \<rho> r"
proof (induction kvs arbitrary: acc)
  case (Cons p kvs)
  obtain k v where p: "p = (k, v)" by force
  from Cons.prems(1) obtain w acc' where w: "scale v k = Inr w" "combine acc w False = Inr acc'"
    "res_fold (\<lambda>(k, v) acc. res_bind (scale v k) (\<lambda>w. combine acc w False)) kvs acc' = Inr r"
    by (auto simp: p)
  then have "sat \<rho> acc'" using Cons.prems(2,3) by (auto simp: p intro: combine_sat scale_sat)
  then show ?case using Cons.IH [OF w(3)] Cons.prems(3) by simp
qed simp

end

interpretation av: affine_domain av_den av_sat av_combine av_scale
  by unfold_locales (simp_all add: av_combine_den av_combine_sat av_scale_den av_scale_sat)

end
