(* ===== verification/Logic_Syntax.thy ===== *)
theory Logic_Syntax
  imports Logic_Budget
begin

text \<open>
  The typed expression DAGs of \<open>src/src/predicate_logic.rs\<close>: types, nodes, expressions and
  predicate declarations, with the validator that every consumer runs first. \<open>'t\<close> is the
  adapter's memory-access type. Node identifiers are \<open>u32\<close> indices into \<open>nodes\<close>.
\<close>

section \<open>Types, nodes and expressions\<close>

datatype 't logic_type = TU64 | TUsize | TBool | TResource 't

datatype observation_time = Entry | Current

datatype logic_binder = Parameter u32 | ExistentialBinder u32

datatype 't logic_node_kind =
    NWord u64
  | NBool bool
  | NBinder logic_binder
  | NObserve u32 u64 't observation_time
  | NResource u32 "u64 list"
  | NAdd u32 u32
  | NSub u32 u32
  | NScale u32 u64
  | NEqual u32 u32
  | NLess u32 u32
  | NLessEqual u32 u32
  | NNot u32
  | NAnd u32 u32
  | NOr u32 u32

record 't logic_node =
  node_ty :: "'t logic_type"
  node_kind :: "'t logic_node_kind"

record 't logic_expression =
  nodes :: "'t logic_node list"
  root :: u32

record 't logic_parameter =
  lp_position :: usize
  lp_name :: string
  lp_ty :: "'t logic_type"

record 't existential =
  ex_name :: string
  ex_ty :: "'t logic_type"
  ex_default :: "'t logic_expression option"

record 't predicate_logic =
  parameters :: "'t logic_parameter list"
  existentials :: "'t existential list"
  constraints :: "'t logic_expression list"

definition is_word_type :: "'t logic_type \<Rightarrow> bool" where
  "is_word_type t = (t = TU64 \<or> t = TUsize)"

fun node_children :: "'t logic_node_kind \<Rightarrow> u32 list" where
  "node_children (NAdd a b) = [a, b]"
| "node_children (NSub a b) = [a, b]"
| "node_children (NScale a f) = [a]"
| "node_children (NEqual a b) = [a, b]"
| "node_children (NLess a b) = [a, b]"
| "node_children (NLessEqual a b) = [a, b]"
| "node_children (NNot a) = [a]"
| "node_children (NAnd a b) = [a, b]"
| "node_children (NOr a b) = [a, b]"
| "node_children (NWord n) = []"
| "node_children (NBool v) = []"
| "node_children (NBinder v) = []"
| "node_children (NObserve r i a t) = []"
| "node_children (NResource r p) = []"

section \<open>Validation\<close>

definition operand_type :: "'t logic_node list \<Rightarrow> nat \<Rightarrow> u32 \<Rightarrow> 't logic_type lresult" where
  "operand_type ns index nid =
     (if nid < length ns \<and> nid < index then Inr (node_ty (ns ! nid)) else Inl InvalidNode)"

fun binary_type :: "'t logic_node_kind \<Rightarrow> 't logic_type \<Rightarrow> 't logic_type lresult" where
  "binary_type (NAdd a b) ty = (if is_word_type ty then Inr ty else Inl TypeMismatch)"
| "binary_type (NSub a b) ty = (if is_word_type ty then Inr ty else Inl TypeMismatch)"
| "binary_type (NEqual a b) ty = Inr TBool"
| "binary_type (NLess a b) ty = (if is_word_type ty then Inr TBool else Inl TypeMismatch)"
| "binary_type (NLessEqual a b) ty = (if is_word_type ty then Inr TBool else Inl TypeMismatch)"
| "binary_type (NAnd a b) ty = (if ty = TBool then Inr TBool else Inl TypeMismatch)"
| "binary_type (NOr a b) ty = (if ty = TBool then Inr TBool else Inl TypeMismatch)"
| "binary_type _ ty = Inl TypeMismatch"

definition infer_binary ::
  "'t logic_node list \<Rightarrow> nat \<Rightarrow> 't logic_node_kind \<Rightarrow> u32 \<Rightarrow> u32 \<Rightarrow> 't logic_type lresult" where
  "infer_binary ns index k a b =
     res_bind (operand_type ns index a) (\<lambda>ty.
     res_bind (operand_type ns index b) (\<lambda>tb.
     if ty \<noteq> tb then Inl TypeMismatch else binary_type k ty))"

type_synonym 't observation_typing =
  "u32 \<Rightarrow> u64 \<Rightarrow> 't \<Rightarrow> observation_time \<Rightarrow> 't logic_type option"
type_synonym 't resource_typing = "u32 \<Rightarrow> u64 list \<Rightarrow> 't option"

fun infer_node ::
  "'t logic_type list \<Rightarrow> 't logic_type list \<Rightarrow> 't observation_typing \<Rightarrow> 't resource_typing \<Rightarrow>
   't logic_node list \<Rightarrow> nat \<Rightarrow> 't logic_type \<Rightarrow> 't logic_node_kind \<Rightarrow> 't logic_type lresult" where
  "infer_node ps es obs rsc ns index ty (NWord n) =
     (if is_word_type ty then Inr ty else Inl InvalidNode)"
| "infer_node ps es obs rsc ns index ty (NBool v) = Inr TBool"
| "infer_node ps es obs rsc ns index ty (NBinder (Parameter nid)) =
     (if nid < length ps then Inr (ps ! nid) else Inl Unbound)"
| "infer_node ps es obs rsc ns index ty (NBinder (ExistentialBinder nid)) =
     (if nid < length es then Inr (es ! nid) else Inl Unbound)"
| "infer_node ps es obs rsc ns index ty (NObserve r i a t) = ok_or InvalidNode (obs r i a t)"
| "infer_node ps es obs rsc ns index ty (NResource r path) =
     (if length path > 16 then Inl Budget
      else res_bind (ok_or InvalidNode (rsc r path)) (\<lambda>t. Inr (TResource t)))"
| "infer_node ps es obs rsc ns index ty (NScale a f) =
     res_bind (operand_type ns index a) (\<lambda>t. if is_word_type t then Inr t else Inl TypeMismatch)"
| "infer_node ps es obs rsc ns index ty (NNot a) =
     res_bind (operand_type ns index a) (\<lambda>t. if t \<noteq> TBool then Inl TypeMismatch else Inr TBool)"
| "infer_node ps es obs rsc ns index ty (NAdd a b) = infer_binary ns index (NAdd a b) a b"
| "infer_node ps es obs rsc ns index ty (NSub a b) = infer_binary ns index (NSub a b) a b"
| "infer_node ps es obs rsc ns index ty (NEqual a b) = infer_binary ns index (NEqual a b) a b"
| "infer_node ps es obs rsc ns index ty (NLess a b) = infer_binary ns index (NLess a b) a b"
| "infer_node ps es obs rsc ns index ty (NLessEqual a b) =
     infer_binary ns index (NLessEqual a b) a b"
| "infer_node ps es obs rsc ns index ty (NAnd a b) = infer_binary ns index (NAnd a b) a b"
| "infer_node ps es obs rsc ns index ty (NOr a b) = infer_binary ns index (NOr a b) a b"

definition node_depth :: "nat list \<Rightarrow> 't logic_node_kind \<Rightarrow> nat" where
  "node_depth depths k = Max (insert 0 (set (map (\<lambda>nid. depths ! nid) (node_children k)))) + 1"

text \<open>Disjuncts of the positive and of the negative normal form.\<close>

fun node_branches :: "(nat \<times> nat) list \<Rightarrow> 't logic_node_kind \<Rightarrow> (nat \<times> nat) lresult" where
  "node_branches br (NOr a b) =
     res_bind (ok_or Budget (usize_checked_add (fst (br ! a)) (fst (br ! b)))) (\<lambda>p.
     res_bind (ok_or Budget (usize_checked_mul (snd (br ! a)) (snd (br ! b)))) (\<lambda>n. Inr (p, n)))"
| "node_branches br (NAnd a b) =
     res_bind (ok_or Budget (usize_checked_mul (fst (br ! a)) (fst (br ! b)))) (\<lambda>p.
     res_bind (ok_or Budget (usize_checked_add (snd (br ! a)) (snd (br ! b)))) (\<lambda>n. Inr (p, n)))"
| "node_branches br (NNot a) = Inr (snd (br ! a), fst (br ! a))"
| "node_branches br _ = Inr (1, 1)"

definition validate_node ::
  "'t logic_type list \<Rightarrow> 't logic_type list \<Rightarrow> 't observation_typing \<Rightarrow> 't resource_typing \<Rightarrow>
   't logic_node list \<Rightarrow> nat \<times> 't logic_node \<Rightarrow> nat list \<times> (nat \<times> nat) list \<Rightarrow>
   (nat list \<times> (nat \<times> nat) list) lresult" where
  "validate_node ps es obs rsc ns inode acc =
     (case (inode, acc) of ((index, node), (depths, branches)) \<Rightarrow>
       res_bind (infer_node ps es obs rsc ns index (node_ty node) (node_kind node)) (\<lambda>inferred.
       if inferred \<noteq> node_ty node then Inl TypeMismatch
       else
         let depth = node_depth depths (node_kind node) in
         res_bind (node_branches branches (node_kind node)) (\<lambda>count.
         if depth > MAX_EXPRESSION_DEPTH \<or> fst count > MAX_BOOLEAN_BRANCHES \<or>
            snd count > MAX_BOOLEAN_BRANCHES
         then Inl Budget
         else Inr (depths @ [depth], branches @ [count]))))"

text \<open>The reachability sweep: \<open>pending\<close> is the stack, its top first.\<close>

function live_nodes :: "'t logic_node list \<Rightarrow> u32 list \<Rightarrow> u32 list \<Rightarrow> u32 list" where
  "live_nodes ns [] used = used"
| "live_nodes ns (nid # pending) used =
     (if nid \<in> set used \<or> \<not> nid < length ns then live_nodes ns pending used
      else live_nodes ns (rev (node_children (node_kind (ns ! nid))) @ pending) (nid # used))"
  by pat_completeness auto
termination
proof (relation "measures [\<lambda>(ns, pending, used). card ({..<length ns} - set used),
                          \<lambda>(ns, pending, used). length pending]", goal_cases)
  case (3 ns nid pending used)
  have "card ({..<length ns} - set (nid # used)) < card ({..<length ns} - set used)"
    by (rule psubset_card_mono) (use 3 in auto)
  then show ?case by (simp del: list.set)
qed auto

definition validate ::
  "'t logic_type list \<Rightarrow> 't logic_type list \<Rightarrow> 't observation_typing \<Rightarrow> 't resource_typing \<Rightarrow>
   't logic_expression \<Rightarrow> 't logic_type lb" where
  "validate ps es obs rsc e =
     lb_then (charge (length (nodes e)))
       (if nodes e = [] \<or> length (nodes e) > MAX_EXPRESSION_NODES \<or> root e + 1 \<noteq> length (nodes e)
        then lb_throw Budget
        else lb_bind (lb_lift (res_fold (validate_node ps es obs rsc (nodes e))
              (List.enumerate 0 (nodes e)) ([], []))) (\<lambda>_.
          if length (live_nodes (nodes e) [root e] []) \<noteq> length (nodes e) then lb_throw InvalidNode
          else lb_return (node_ty (nodes e ! root e))))"

section \<open>Retyping accesses\<close>

fun map_type :: "('t \<Rightarrow> 'u lresult) \<Rightarrow> 't logic_type \<Rightarrow> 'u logic_type lresult" where
  "map_type f TU64 = Inr TU64"
| "map_type f TUsize = Inr TUsize"
| "map_type f TBool = Inr TBool"
| "map_type f (TResource t) = res_bind (f t) (\<lambda>u. Inr (TResource u))"

fun map_kind :: "('t \<Rightarrow> 'u lresult) \<Rightarrow> 't logic_node_kind \<Rightarrow> 'u logic_node_kind lresult" where
  "map_kind f (NObserve r i a t) = res_bind (f a) (\<lambda>u. Inr (NObserve r i u t))"
| "map_kind f (NWord n) = Inr (NWord n)"
| "map_kind f (NBool v) = Inr (NBool v)"
| "map_kind f (NBinder v) = Inr (NBinder v)"
| "map_kind f (NResource r p) = Inr (NResource r p)"
| "map_kind f (NAdd a b) = Inr (NAdd a b)"
| "map_kind f (NSub a b) = Inr (NSub a b)"
| "map_kind f (NScale a k) = Inr (NScale a k)"
| "map_kind f (NEqual a b) = Inr (NEqual a b)"
| "map_kind f (NLess a b) = Inr (NLess a b)"
| "map_kind f (NLessEqual a b) = Inr (NLessEqual a b)"
| "map_kind f (NNot a) = Inr (NNot a)"
| "map_kind f (NAnd a b) = Inr (NAnd a b)"
| "map_kind f (NOr a b) = Inr (NOr a b)"

definition map_access ::
  "('t \<Rightarrow> 'u lresult) \<Rightarrow> 't logic_expression \<Rightarrow> 'u logic_expression lresult" where
  "map_access f e =
     res_bind (res_map (\<lambda>n. res_bind (map_type f (node_ty n)) (\<lambda>ty.
         res_bind (map_kind f (node_kind n)) (\<lambda>k. Inr \<lparr>node_ty = ty, node_kind = k\<rparr>))) (nodes e))
       (\<lambda>ns. Inr \<lparr>nodes = ns, root = root e\<rparr>)"

definition map_access_parameter ::
  "('t \<Rightarrow> 'u lresult) \<Rightarrow> 't logic_parameter \<Rightarrow> 'u logic_parameter lresult" where
  "map_access_parameter f p = res_bind (map_type f (lp_ty p)) (\<lambda>ty.
     Inr \<lparr>lp_position = lp_position p, lp_name = lp_name p, lp_ty = ty\<rparr>)"

definition map_access_existential ::
  "('t \<Rightarrow> 'u lresult) \<Rightarrow> 't existential \<Rightarrow> 'u existential lresult" where
  "map_access_existential f w = res_bind (map_type f (ex_ty w)) (\<lambda>ty.
     res_bind (case ex_default w of None \<Rightarrow> Inr None
         | Some e \<Rightarrow> res_bind (map_access f e) (\<lambda>e'. Inr (Some e'))) (\<lambda>d.
     Inr \<lparr>ex_name = ex_name w, ex_ty = ty, ex_default = d\<rparr>))"

definition map_access_logic ::
  "('t \<Rightarrow> 'u lresult) \<Rightarrow> 't predicate_logic \<Rightarrow> 'u predicate_logic lresult" where
  "map_access_logic f l =
     res_bind (res_map (map_access_parameter f) (parameters l)) (\<lambda>ps.
     res_bind (res_map (map_access_existential f) (existentials l)) (\<lambda>es.
     res_bind (res_map (map_access f) (constraints l)) (\<lambda>cs.
     Inr \<lparr>parameters = ps, existentials = es, constraints = cs\<rparr>)))"

section \<open>Predicate declarations\<close>

definition validate_parameter ::
  "nat \<Rightarrow> 't logic_parameter \<Rightarrow> string list \<times> nat list \<times> 't logic_type list \<Rightarrow>
   (string list \<times> nat list \<times> 't logic_type list) lb" where
  "validate_parameter limit p acc =
     (case acc of (names, positions, tys) \<Rightarrow>
       if lp_position p \<ge> limit \<or> lp_position p \<in> set positions then lb_throw InvalidNode
       else if lp_name p = [] \<or> lp_name p \<in> set names then lb_throw DuplicateName
       else (case lp_ty p of TResource t \<Rightarrow> lb_throw TypeMismatch
         | _ \<Rightarrow> lb_return (lp_name p # names, lp_position p # positions, tys @ [lp_ty p])))"

definition validate_existential ::
  "'t logic_type list \<Rightarrow> 't observation_typing \<Rightarrow> 't resource_typing \<Rightarrow> 't existential \<Rightarrow>
   string list \<times> 't logic_type list \<Rightarrow> (string list \<times> 't logic_type list) lb" where
  "validate_existential ps obs rsc w acc =
     (case acc of (names, tys) \<Rightarrow>
       if ex_name w = [] \<or> ex_name w \<in> set names then lb_throw DuplicateName
       else
         lb_bind (case ex_default w of None \<Rightarrow> lb_return True
            | Some e \<Rightarrow> lb_bind (validate ps tys obs rsc e) (\<lambda>t. lb_return (t = ex_ty w))) (\<lambda>ok.
         if ok then lb_return (ex_name w # names, tys @ [ex_ty w]) else lb_throw TypeMismatch))"

definition validate_logic ::
  "string list \<Rightarrow> 't observation_typing \<Rightarrow> 't resource_typing \<Rightarrow> 't predicate_logic \<Rightarrow> unit lb" where
  "validate_logic resource_names obs rsc l =
     (if length (parameters l) > MAX_LOGIC_PARAMETERS \<or> length (existentials l) > MAX_EXISTENTIALS
         \<or> length (constraints l) > MAX_CONSTRAINTS then lb_throw Budget
      else if \<not> distinct resource_names then lb_throw DuplicateName
      else if \<not> sorted_wrt (<) (map lp_position (parameters l)) then lb_throw InvalidNode
      else
        lb_bind (lb_fold (validate_parameter (length resource_names + length (parameters l)))
            (parameters l) (resource_names, [], [])) (\<lambda>(names, positions, ps).
        lb_bind (lb_fold (validate_existential ps obs rsc) (existentials l) (names, [])) (\<lambda>(names', es).
        lb_fold (\<lambda>c _. lb_bind (validate ps es obs rsc c) (\<lambda>t.
            if t \<noteq> TBool then lb_throw TypeMismatch else lb_return ())) (constraints l) ())))"

text \<open>The public entry starts every declaration with a fresh default budget.\<close>

definition validate_declaration ::
  "string list \<Rightarrow> 't observation_typing \<Rightarrow> 't resource_typing \<Rightarrow> 't predicate_logic \<Rightarrow> unit lresult"
  where
  "validate_declaration resource_names obs rsc l =
     fst (validate_logic resource_names obs rsc l default_budget)"

section \<open>Opened instances\<close>

record instance_scope =
  scope_declaration :: u32
  scope_instance :: u64
  scope_opening :: u64

record opened_binder =
  ob_scope :: instance_scope
  ob_binder :: u32

record 'v opened_bindings =
  bd_scope :: instance_scope
  bd_values :: "'v list"

definition opened_new :: "instance_scope \<Rightarrow> 'v list \<Rightarrow> 'v opened_bindings lresult" where
  "opened_new scope values =
     (if length values > MAX_EXISTENTIALS then Inl Budget
      else Inr \<lparr>bd_scope = scope, bd_values = values\<rparr>)"

definition opened_read :: "'v opened_bindings \<Rightarrow> opened_binder \<Rightarrow> 'v lresult" where
  "opened_read self binder =
     (if ob_scope binder \<noteq> bd_scope self then Inl StaleInstance
      else if ob_binder binder < length (bd_values self)
      then Inr (bd_values self ! ob_binder binder)
      else Inl Unbound)"

section \<open>What validation guarantees\<close>

definition wt_expression ::
  "'t logic_type list \<Rightarrow> 't logic_type list \<Rightarrow> 't observation_typing \<Rightarrow> 't resource_typing \<Rightarrow>
   't logic_expression \<Rightarrow> bool" where
  "wt_expression ps es obs rsc e =
     (nodes e \<noteq> [] \<and> length (nodes e) \<le> MAX_EXPRESSION_NODES \<and> root e + 1 = length (nodes e) \<and>
      (\<forall>i < length (nodes e). infer_node ps es obs rsc (nodes e) i (node_ty (nodes e ! i))
          (node_kind (nodes e ! i)) = Inr (node_ty (nodes e ! i))))"

definition child_edges :: "'t logic_node list \<Rightarrow> (u32 \<times> u32) set" where
  "child_edges ns = {(p, c). p < length ns \<and> c \<in> set (node_children (node_kind (ns ! p)))}"

lemma infer_binary_Inr:
  "infer_binary ns i k a b = Inr t \<Longrightarrow>
    a < i \<and> a < length ns \<and> b < i \<and> b < length ns \<and> node_ty (ns ! a) = node_ty (ns ! b) \<and>
    binary_type k (node_ty (ns ! a)) = Inr t"
  by (auto simp: infer_binary_def operand_type_def split: if_splits)

lemma operand_type_Inr: "operand_type ns i a = Inr t \<Longrightarrow> a < i \<and> a < length ns \<and> t = node_ty (ns ! a)"
  by (simp add: operand_type_def split: if_splits)

lemma infer_node_children:
  "infer_node ps es obs rsc ns i ty k = Inr t \<Longrightarrow> c \<in> set (node_children k) \<Longrightarrow> c < i \<and> c < length ns"
  by (cases k; simp; (drule infer_binary_Inr)?; (elim exE conjE)?; (drule operand_type_Inr)?; blast)

lemma live_nodes_distinct:
  "distinct used \<Longrightarrow> set used \<subseteq> {..<length ns} \<Longrightarrow>
    distinct (live_nodes ns pending used) \<and> set (live_nodes ns pending used) \<subseteq> {..<length ns}"
  by (induction ns pending used rule: live_nodes.induct) auto

lemma live_nodes_reachable:
  assumes "\<forall>x \<in> set pending \<union> set used. (r, x) \<in> (child_edges ns)\<^sup>*"
  shows "\<forall>x \<in> set (live_nodes ns pending used). (r, x) \<in> (child_edges ns)\<^sup>*"
  using assms
proof (induction ns pending used rule: live_nodes.induct)
  case (2 ns nid pending used)
  show ?case
  proof (cases "nid \<in> set used \<or> \<not> nid < length ns")
    case True
    then show ?thesis using 2 by simp
  next
    case False
    have "(r, c) \<in> (child_edges ns)\<^sup>*" if "c \<in> set (node_children (node_kind (ns ! nid)))" for c
    proof (rule rtrancl_into_rtrancl)
      show "(r, nid) \<in> (child_edges ns)\<^sup>*" using 2(3) by simp
      show "(nid, c) \<in> child_edges ns" using False that by (simp add: child_edges_def)
    qed
    then have "\<forall>x \<in> set (rev (node_children (node_kind (ns ! nid))) @ pending) \<union> set (nid # used).
        (r, x) \<in> (child_edges ns)\<^sup>*"
      using 2(3) by simp blast
    from 2(2) [OF False this] show ?thesis using False by simp
  qed
qed simp

lemma validate_Inr:
  assumes "validate ps es obs rsc e b = (Inr ty, b')"
  shows "wt_expression ps es obs rsc e" and "ty = node_ty (nodes e ! root e)"
    and "length (live_nodes (nodes e) [root e] []) = length (nodes e)"
    and "remaining b' = remaining b - length (nodes e)" "length (nodes e) \<le> remaining b"
proof -
  from assms obtain acc where acc:
    "res_fold (validate_node ps es obs rsc (nodes e)) (List.enumerate 0 (nodes e)) ([], []) = Inr acc"
    and shape: "nodes e \<noteq> []" "length (nodes e) \<le> MAX_EXPRESSION_NODES" "root e + 1 = length (nodes e)"
    and rest: "ty = node_ty (nodes e ! root e)"
      "length (live_nodes (nodes e) [root e] []) = length (nodes e)"
      "remaining b' = remaining b - length (nodes e)" "length (nodes e) \<le> remaining b"
    by (auto simp: validate_def lb_then_def lb_bind_Inr lb_simps charge_ok split: if_splits)
  have "infer_node ps es obs rsc (nodes e) i (node_ty (nodes e ! i)) (node_kind (nodes e ! i)) =
      Inr (node_ty (nodes e ! i))" if "i < length (nodes e)" for i
    using res_fold_each [OF acc enumerate_elem [OF that]]
    by (auto simp: validate_node_def Let_def split: if_splits)
  then show "wt_expression ps es obs rsc e" using shape by (simp add: wt_expression_def)
  show "ty = node_ty (nodes e ! root e)"
    "length (live_nodes (nodes e) [root e] []) = length (nodes e)"
    "remaining b' = remaining b - length (nodes e)" "length (nodes e) \<le> remaining b"
    by (rule rest)+
qed

end
