(* ===== verification/Logic_Value.thy ===== *)
theory Logic_Value
  imports Affine_Value Logic_Syntax
begin

text \<open>
  Abstract scalar values of \<open>src/src/predicate_logic.rs\<close> (\<open>LogicValue\<close>) and the bounded Boolean
  captures of \<open>src/src/predicate_logic/boolean.rs\<close>. \<open>lv_bool \<rho> v t\<close> reads: under the valuation
  \<open>\<rho>\<close> of the atoms, \<open>v\<close> may stand for the truth value \<open>t\<close>. An anonymous unknown may stand for
  either, every other Boolean value for exactly one.
\<close>

section \<open>Values\<close>

datatype word_type = WtU64 | WtUsize

datatype word_comparison = WEqual | WLessEqual

datatype boolean_operation = OpAnd | OpOr | OpEqual

fun word_type_from_logic_type :: "'t logic_type \<Rightarrow> word_type lresult" where
  "word_type_from_logic_type TU64 = Inr WtU64"
| "word_type_from_logic_type TUsize = Inr WtUsize"
| "word_type_from_logic_type _ = Inl TypeMismatch"

fun word_type_logic_type :: "word_type \<Rightarrow> 't logic_type" where
  "word_type_logic_type WtU64 = TU64"
| "word_type_logic_type WtUsize = TUsize"

datatype ('a, 'r) logic_value =
    VWord "'a affine_value"
  | VBool "bool option"
  | VBoolAtom 'a bool "bool option"
  | VBoolComparison word_type word_comparison "'a affine_value" "'a affine_value" bool
  | VBoolBinary boolean_operation "('a, 'r) logic_value" "('a, 'r) logic_value" bool
  | VResource 'r
  | VResourceAtom 'a

record ('t, 'a, 'r) typed_logic_value =
  tv_ty :: "'t logic_type"
  tv_value :: "('a, 'r) logic_value"

fun op_evaluate :: "boolean_operation \<Rightarrow> bool option \<Rightarrow> bool option \<Rightarrow> bool option" where
  "op_evaluate OpEqual l r =
     (case (l, r) of (Some a, Some b) \<Rightarrow> Some (a = b) | _ \<Rightarrow> None)"
| "op_evaluate OpAnd l r =
     (if l = Some False \<or> r = Some False then Some False
      else case (l, r) of (Some a, Some b) \<Rightarrow> Some (a \<and> b) | _ \<Rightarrow> None)"
| "op_evaluate OpOr l r =
     (if l = Some True \<or> r = Some True then Some True
      else case (l, r) of (Some a, Some b) \<Rightarrow> Some (a \<or> b) | _ \<Rightarrow> None)"

fun compare_words :: "word_comparison \<Rightarrow> 'a affine_value \<Rightarrow> 'a affine_value \<Rightarrow> bool option" where
  "compare_words WEqual l r = av_equal l r"
| "compare_words WLessEqual l r = av_less_equal l r"

fun known_boolean :: "('a, 'r) logic_value \<Rightarrow> bool option" where
  "known_boolean (VBool v) = v"
| "known_boolean (VBoolAtom a negated known) = map_option (\<lambda>v. v \<noteq> negated) known"
| "known_boolean (VBoolComparison t c l r negated) =
     map_option (\<lambda>v. v \<noteq> negated) (compare_words c l r)"
| "known_boolean (VBoolBinary op l r negated) =
     map_option (\<lambda>v. v \<noteq> negated) (op_evaluate op (known_boolean l) (known_boolean r))"
| "known_boolean _ = None"

fun is_boolean :: "('a, 'r) logic_value \<Rightarrow> bool" where
  "is_boolean (VBool v) = True"
| "is_boolean (VBoolAtom a n k) = True"
| "is_boolean (VBoolComparison t c l r n) = True"
| "is_boolean (VBoolBinary op l r n) = True"
| "is_boolean _ = False"

definition with_known_boolean ::
  "('a, 'r) logic_value \<Rightarrow> bool \<Rightarrow> ('a, 'r) logic_value lresult" where
  "with_known_boolean v truth =
     (if known_boolean v = Some (\<not> truth) then Inl Unproved
      else case v of
        VBoolAtom a negated k \<Rightarrow> Inr (VBoolAtom a negated (Some (truth \<noteq> negated)))
      | VBool k \<Rightarrow> Inr (VBool (Some truth))
      | VBoolComparison t c l r n \<Rightarrow> Inr (VBool (Some truth))
      | VBoolBinary op l r n \<Rightarrow> Inr (VBool (Some truth))
      | _ \<Rightarrow> Inl TypeMismatch)"

definition both_known :: "bool option \<Rightarrow> bool option \<Rightarrow> bool option \<Rightarrow> bool option" where
  "both_known a b otherwise = (case (a, b) of (Some x, Some y) \<Rightarrow> Some (x = y) | _ \<Rightarrow> otherwise)"

text \<open>
  The source returns early when both truths are known and otherwise matches on the two shapes;
  \<open>both_known\<close> is the early return, with the value of the match as its last argument.
\<close>

fun bool_equal :: "('a, 'r) logic_value \<Rightarrow> ('a, 'r) logic_value \<Rightarrow> bool option" where
  "bool_equal (VBoolBinary op l r n) (VBoolBinary op' l' r' n') =
     both_known (known_boolean (VBoolBinary op l r n)) (known_boolean (VBoolBinary op' l' r' n'))
       (if op = op' \<and> bool_equal l l' = Some True \<and> bool_equal r r' = Some True
        then Some (n = n') else None)"
| "bool_equal (VBool a) (VBool b) = both_known a b None"
| "bool_equal (VBoolAtom a x k) (VBoolAtom b y k') =
     both_known (known_boolean (VBoolAtom a x k :: ('a, 'r) logic_value)) (known_boolean (VBoolAtom b y k' :: ('a, 'r) logic_value))
       (if a = b then Some (x = y) else None)"
| "bool_equal (VBoolComparison t c l r n) (VBoolComparison t' c' l' r' n') =
     both_known (known_boolean (VBoolComparison t c l r n :: ('a, 'r) logic_value)) (known_boolean (VBoolComparison t' c' l' r' n' :: ('a, 'r) logic_value))
       (if t = t' \<and> c = c' \<and>
           ((av_equal l l' = Some True \<and> av_equal r r' = Some True) \<or>
            (c = WEqual \<and> av_equal l r' = Some True \<and> av_equal r l' = Some True))
        then Some (n = n') else None)"
| "bool_equal v w = both_known (known_boolean v) (known_boolean w) None"

text \<open>The last arm is \<open>unreachable!\<close> in the source: every caller checks \<open>is_boolean\<close> first.\<close>

fun bool_not :: "('a, 'r) logic_value \<Rightarrow> ('a, 'r) logic_value" where
  "bool_not (VBoolBinary op l r n) = VBoolBinary op l r (\<not> n)"
| "bool_not (VBool v) = VBool (map_option Not v)"
| "bool_not (VBoolAtom a n k) = VBoolAtom a (\<not> n) k"
| "bool_not (VBoolComparison t c l r n) = VBoolComparison t c l r (\<not> n)"
| "bool_not v = v"

definition word_comparison_value ::
  "word_type \<Rightarrow> word_comparison \<Rightarrow> 'a affine_value \<Rightarrow> 'a affine_value \<Rightarrow> bool \<Rightarrow> ('a, 'r) logic_value"
  where
  "word_comparison_value t c l r negated =
     (case compare_words c l r of
        Some v \<Rightarrow> VBool (Some (v \<noteq> negated))
      | None \<Rightarrow> VBoolComparison t c l r negated)"

definition bool_combine ::
  "('a, 'r) logic_value \<Rightarrow> ('a, 'r) logic_value \<Rightarrow> bool \<Rightarrow> ('a, 'r) logic_value" where
  "bool_combine v w is_or =
     (if v = VBool (Some is_or) then v
      else if w = VBool (Some is_or) then w
      else if v = VBool (Some (\<not> is_or)) then w
      else if w = VBool (Some (\<not> is_or)) then v
      else case bool_equal v w of
        Some True \<Rightarrow> v
      | Some False \<Rightarrow> VBool (Some is_or)
      | None \<Rightarrow> VBool None)"

section \<open>Captures\<close>

text \<open>The traversal's stack holds values with their depth, the next one to visit first.\<close>

function capture_walk ::
  "(('a, 'r) logic_value \<times> nat) list \<Rightarrow> ('a, 'r) logic_value list \<Rightarrow> nat \<Rightarrow> ('a, 'r) logic_value list lb"
  where
  "capture_walk [] leaves count = lb_return leaves"
| "capture_walk ((v, depth) # pending) leaves count =
     lb_then (charge 1)
       (if count + 1 > MAX_EXPRESSION_NODES \<or> depth \<ge> MAX_EXPRESSION_DEPTH then lb_throw Budget
        else case v of
          VBoolBinary op l r n \<Rightarrow>
            if \<not> is_boolean l \<or> \<not> is_boolean r then lb_throw TypeMismatch
            else capture_walk ((l, depth + 1) # (r, depth + 1) # pending) leaves (count + 1)
        | _ \<Rightarrow> capture_walk pending (leaves @ [v]) (count + 1))"
  by pat_completeness auto
termination
  by (relation "measure (\<lambda>(pending, leaves, count). sum_list (map (\<lambda>(v, d). 2 * size v + 1) pending))")
    (auto simp: split_beta)

definition capture_leaves :: "('a, 'r) logic_value \<Rightarrow> ('a, 'r) logic_value list lb" where
  "capture_leaves v = capture_walk [(v, 0)] [] 0"

definition boolean_binary ::
  "boolean_operation \<Rightarrow> ('a, 'r) logic_value \<Rightarrow> ('a, 'r) logic_value \<Rightarrow> bool \<Rightarrow> ('a, 'r) logic_value lb"
  where
  "boolean_binary op l r negated =
     (if \<not> is_boolean l \<or> \<not> is_boolean r then lb_throw TypeMismatch
      else lb_bind (capture_leaves (VBoolBinary op l r negated)) (\<lambda>leaves.
        if VBool None \<in> set leaves then lb_throw Unbound
        else lb_return (VBoolBinary op l r negated)))"

section \<open>Meaning\<close>

record ('a, 'r) valuation =
  val_word :: "'a \<Rightarrow> int"
  val_bool :: "'a \<Rightarrow> bool"
  val_resource :: "'a \<Rightarrow> 'r"

fun cmp_sem :: "word_comparison \<Rightarrow> int \<Rightarrow> int \<Rightarrow> bool" where
  "cmp_sem WEqual x y = (x = y)"
| "cmp_sem WLessEqual x y = (x \<le> y)"

fun op_sem :: "boolean_operation \<Rightarrow> bool \<Rightarrow> bool \<Rightarrow> bool" where
  "op_sem OpAnd x y = (x \<and> y)"
| "op_sem OpOr x y = (x \<or> y)"
| "op_sem OpEqual x y = (x = y)"

fun lv_bool :: "('a, 'r) valuation \<Rightarrow> ('a, 'r) logic_value \<Rightarrow> bool \<Rightarrow> bool" where
  "lv_bool \<rho> (VBool None) t = True"
| "lv_bool \<rho> (VBool (Some v)) t = (t = v)"
| "lv_bool \<rho> (VBoolAtom a n k) t =
     (t = (val_bool \<rho> a \<noteq> n) \<and> (k = None \<or> k = Some (val_bool \<rho> a)))"
| "lv_bool \<rho> (VBoolComparison wt c l r n) t =
     (av_sat (val_word \<rho>) l \<and> av_sat (val_word \<rho>) r \<and>
      t = (cmp_sem c (av_den (val_word \<rho>) l) (av_den (val_word \<rho>) r) \<noteq> n))"
| "lv_bool \<rho> (VBoolBinary op l r n) t =
     (\<exists>x y. lv_bool \<rho> l x \<and> lv_bool \<rho> r y \<and> t = (op_sem op x y \<noteq> n))"
| "lv_bool \<rho> (VWord w) t = False"
| "lv_bool \<rho> (VResource r) t = False"
| "lv_bool \<rho> (VResourceAtom a) t = False"

datatype 'r concrete_value = CWord u64 | CBool bool | CResource 'r

fun lv_rep :: "('a, 'r) valuation \<Rightarrow> ('a, 'r) logic_value \<Rightarrow> 'r concrete_value \<Rightarrow> bool" where
  "lv_rep \<rho> v (CBool t) = lv_bool \<rho> v t"
| "lv_rep \<rho> (VWord w) (CWord n) = (av_sat (val_word \<rho>) w \<and> uint n = av_den (val_word \<rho>) w)"
| "lv_rep \<rho> (VResource r) (CResource s) = (s = r)"
| "lv_rep \<rho> (VResourceAtom a) (CResource s) = (s = val_resource \<rho> a)"
| "lv_rep \<rho> v c = False"

section \<open>Soundness of the value operations\<close>

lemma lv_bool_is_boolean: "lv_bool \<rho> v t \<Longrightarrow> is_boolean v"
  by (cases v) auto

lemma op_evaluate_sound:
  assumes "op_evaluate op l r = Some e" and "\<And>k. l = Some k \<Longrightarrow> k = x" and "\<And>k. r = Some k \<Longrightarrow> k = y"
  shows "e = op_sem op x y"
  using assms by (cases op; cases l; cases r) (auto split: if_splits)

lemma compare_words_sound:
  assumes "compare_words c l r = Some e" and "av_sat \<rho> l" and "av_sat \<rho> r"
  shows "e = cmp_sem c (av_den \<rho> l) (av_den \<rho> r)"
  using assms by (cases c) (simp_all add: av_equal_sound av_less_equal_sound)

lemma known_boolean_sound: "lv_bool \<rho> v t \<Longrightarrow> known_boolean v = Some k \<Longrightarrow> k = t"
proof (induction v arbitrary: t k)
  case (VBool x)
  then show ?case by (cases x) auto
next
  case (VBoolComparison wt c l r n)
  then show ?case using compare_words_sound [of c l r _ "val_word \<rho>"] by auto
next
  case (VBoolBinary op l r n)
  from VBoolBinary.prems obtain x y e where xy: "lv_bool \<rho> l x" "lv_bool \<rho> r y"
    "t = (op_sem op x y \<noteq> n)" and e: "op_evaluate op (known_boolean l) (known_boolean r) = Some e"
    "k = (e \<noteq> n)"
    by auto
  have "e = op_sem op x y"
    using e(1) by (rule op_evaluate_sound) (use VBoolBinary.IH xy in auto)
  then show ?case using e(2) xy(3) by simp
qed auto

lemma both_known_sound:
  assumes "both_known (known_boolean v) (known_boolean w) otherwise = Some e"
    and "lv_bool \<rho> v x" and "lv_bool \<rho> w y"
    and "otherwise = Some e \<Longrightarrow> e = (x = y)"
  shows "e = (x = y)"
proof (cases "known_boolean v = None \<or> known_boolean w = None")
  case True
  then show ?thesis using assms by (auto simp: both_known_def split: option.splits)
next
  case False
  then obtain a b where k: "known_boolean v = Some a" "known_boolean w = Some b" by auto
  have "a = x" "b = y" using known_boolean_sound assms(2,3) k by blast+
  then show ?thesis using assms(1) k by (simp add: both_known_def)
qed

lemma both_known_sound_None:
  assumes "both_known (known_boolean v) (known_boolean w) None = Some e"
    and "lv_bool \<rho> v x" and "lv_bool \<rho> w y"
  shows "e = (x = y)"
  using assms by (rule both_known_sound) simp

lemma bool_equal_sound:
  "bool_equal v w = Some e \<Longrightarrow> lv_bool \<rho> v x \<Longrightarrow> lv_bool \<rho> w y \<Longrightarrow> e = (x = y)"
proof (induction v arbitrary: w e x y)
  case v: (VBoolBinary op l r n)
  show ?case
  proof (cases w)
    case w: (VBoolBinary op' l' r' n')
    show ?thesis
    proof (rule both_known_sound [OF v.prems(1) [unfolded w bool_equal.simps] v.prems(2) v.prems(3) [unfolded w]])
      assume shape: "(if op = op' \<and> bool_equal l l' = Some True \<and> bool_equal r r' = Some True
        then Some (n = n') else None) = Some e"
      obtain x1 y1 x2 y2 where p: "lv_bool \<rho> l x1" "lv_bool \<rho> r y1" "x = (op_sem op x1 y1 \<noteq> n)"
        "lv_bool \<rho> l' x2" "lv_bool \<rho> r' y2" "y = (op_sem op' x2 y2 \<noteq> n')"
        using v.prems(2,3) unfolding w lv_bool.simps by blast
      from shape have b: "op = op'" "bool_equal l l' = Some True" "bool_equal r r' = Some True" "e = (n = n')"
        by (simp_all split: if_splits)
      have "x1 = x2" "y1 = y2"
        using v.IH(1) [OF b(2) p(1,4)] v.IH(2) [OF b(3) p(2,5)] by simp_all
      then show "e = (x = y)" using b p by auto
    qed
  qed (rule both_known_sound_None [of "VBoolBinary op l r n" w e \<rho> x y];
    use v.prems in \<open>simp del: known_boolean.simps lv_bool.simps\<close>)+
next
  case v: (VBoolComparison t c l r n)
  have eq: "av_den (val_word \<rho>) l = av_den (val_word \<rho>) l'"
    if "av_equal l l' = Some True" "av_sat (val_word \<rho>) l" "av_sat (val_word \<rho>) l'" for l l'
    using av_equal_sound [OF that] by simp
  show ?case
  proof (cases w)
    case w: (VBoolComparison t' c' l' r' n')
    show ?thesis
      by (rule both_known_sound [OF v.prems(1) [unfolded w bool_equal.simps] v.prems(2) v.prems(3) [unfolded w]])
        (use v.prems(2,3) eq w in \<open>auto split: if_splits\<close>)
  qed (rule both_known_sound_None [of "VBoolComparison t c l r n" w e \<rho> x y];
    use v.prems in \<open>simp del: known_boolean.simps lv_bool.simps\<close>)+
next
  case v: (VBool a)
  then show ?case
    by (cases w) (use both_known_sound_None [of "VBool a" w e \<rho> x y] in auto)
next
  case v: (VBoolAtom a n k)
  show ?case
  proof (cases w)
    case w: (VBoolAtom b y' k')
    show ?thesis
      by (rule both_known_sound [OF v.prems(1) [unfolded w bool_equal.simps] v.prems(2) v.prems(3) [unfolded w]])
        (use v.prems(2,3) w in \<open>auto split: if_splits\<close>)
  qed (rule both_known_sound_None [of "VBoolAtom a n k" w e \<rho> x y];
    use v.prems in \<open>simp del: known_boolean.simps lv_bool.simps\<close>)+
qed simp_all

lemma bool_not_sound: "is_boolean v \<Longrightarrow> lv_bool \<rho> (bool_not v) t \<longleftrightarrow> lv_bool \<rho> v (\<not> t)"
proof (cases v)
  case (VBool x)
  then show ?thesis by (cases x) auto
qed auto

lemma bool_not_is_boolean [simp]: "is_boolean (bool_not v) = is_boolean v"
  by (cases v) auto

lemma word_comparison_value_sound:
  assumes "av_sat (val_word \<rho>) l" and "av_sat (val_word \<rho>) r"
  shows "lv_bool \<rho> (word_comparison_value t c l r n)
    (cmp_sem c (av_den (val_word \<rho>) l) (av_den (val_word \<rho>) r) \<noteq> n)"
  using assms compare_words_sound [of c l r _ "val_word \<rho>"]
  by (auto simp: word_comparison_value_def split: option.split)

definition junction :: "bool \<Rightarrow> bool \<Rightarrow> bool \<Rightarrow> bool" where
  "junction is_or x y = (if is_or then x \<or> y else x \<and> y)"

lemma bool_combine_sound:
  assumes "lv_bool \<rho> v x" and "lv_bool \<rho> w y"
  shows "lv_bool \<rho> (bool_combine v w is_or) (junction is_or x y)"
  using assms bool_equal_sound [of v w _ \<rho> x y]
  by (auto simp: bool_combine_def junction_def split: option.split bool.split)

lemma with_known_boolean_Inr:
  assumes "with_known_boolean v truth = Inr w"
  shows "known_boolean w = Some truth" and "is_boolean v"
  using assms
  by (cases v; auto simp: with_known_boolean_def simp del: known_boolean.simps(3,4) split: if_splits)+

lemma with_known_boolean_sound:
  assumes "with_known_boolean v truth = Inr w" and "lv_bool \<rho> v truth"
  shows "lv_bool \<rho> w truth"
  using assms
  by (cases v) (auto simp: with_known_boolean_def simp del: known_boolean.simps split: if_splits)

section \<open>What a successful traversal shows\<close>

primrec leaf_list :: "('a, 'r) logic_value \<Rightarrow> ('a, 'r) logic_value list" where
  "leaf_list (VBoolBinary op l r n) = leaf_list l @ leaf_list r"
| "leaf_list (VWord w) = [VWord w]"
| "leaf_list (VBool v) = [VBool v]"
| "leaf_list (VBoolAtom a n k) = [VBoolAtom a n k]"
| "leaf_list (VBoolComparison t c l r n) = [VBoolComparison t c l r n]"
| "leaf_list (VResource r) = [VResource r]"
| "leaf_list (VResourceAtom a) = [VResourceAtom a]"

primrec capture_depth :: "('a, 'r) logic_value \<Rightarrow> nat" where
  "capture_depth (VBoolBinary op l r n) = Suc (max (capture_depth l) (capture_depth r))"
| "capture_depth (VWord w) = 1"
| "capture_depth (VBool v) = 1"
| "capture_depth (VBoolAtom a n k) = 1"
| "capture_depth (VBoolComparison t c l r n) = 1"
| "capture_depth (VResource r) = 1"
| "capture_depth (VResourceAtom a) = 1"

primrec capture_nodes :: "('a, 'r) logic_value \<Rightarrow> nat" where
  "capture_nodes (VBoolBinary op l r n) = capture_nodes l + capture_nodes r + 1"
| "capture_nodes (VWord w) = 1"
| "capture_nodes (VBool v) = 1"
| "capture_nodes (VBoolAtom a n k) = 1"
| "capture_nodes (VBoolComparison t c l r n) = 1"
| "capture_nodes (VResource r) = 1"
| "capture_nodes (VResourceAtom a) = 1"

primrec capture_typed :: "('a, 'r) logic_value \<Rightarrow> bool" where
  "capture_typed (VBoolBinary op l r n) =
     (is_boolean l \<and> is_boolean r \<and> capture_typed l \<and> capture_typed r)"
| "capture_typed (VWord w) = True"
| "capture_typed (VBool v) = True"
| "capture_typed (VBoolAtom a n k) = True"
| "capture_typed (VBoolComparison t c l r n) = True"
| "capture_typed (VResource r) = True"
| "capture_typed (VResourceAtom a) = True"

lemma capture_nodes_pos: "0 < capture_nodes v"
  by (cases v) auto

text \<open>The traversal succeeds exactly on the typed captures within the three limits.\<close>

definition pending_leaves :: "(('a, 'r) logic_value \<times> nat) list \<Rightarrow> ('a, 'r) logic_value list" where
  "pending_leaves pending = concat (map (leaf_list \<circ> fst) pending)"

definition pending_nodes :: "(('a, 'r) logic_value \<times> nat) list \<Rightarrow> nat" where
  "pending_nodes pending = sum_list (map (capture_nodes \<circ> fst) pending)"

definition pending_ok :: "(('a, 'r) logic_value \<times> nat) list \<Rightarrow> bool" where
  "pending_ok pending =
     (\<forall>(v, d) \<in> set pending. capture_typed v \<and> d + capture_depth v \<le> MAX_EXPRESSION_DEPTH)"

lemma capture_walk_Inr:
  "capture_walk pending leaves count b = (Inr ls, b') \<longleftrightarrow>
     pending_ok pending \<and> (pending = [] \<or> count + pending_nodes pending \<le> MAX_EXPRESSION_NODES) \<and>
     pending_nodes pending \<le> remaining b \<and>
     ls = leaves @ pending_leaves pending \<and> b' = b\<lparr>remaining := remaining b - pending_nodes pending\<rparr>"
proof (induction pending leaves count arbitrary: b rule: capture_walk.induct)
  case (1 leaves count)
  show ?case
    by (auto simp: lb_simps pending_ok_def pending_leaves_def pending_nodes_def)
next
  case (2 v depth pending leaves count)
  have pos: "0 < capture_nodes w" for w :: "('a, 'b) logic_value" by (rule capture_nodes_pos)
  note step = charge_then_Inr
  show ?case
  proof (cases "count + 1 > MAX_EXPRESSION_NODES \<or> depth \<ge> MAX_EXPRESSION_DEPTH")
    case True
    have "capture_depth v > 0" by (cases v) auto
    then show ?thesis using True pos [of v]
      by (auto simp: step lb_simps pending_ok_def pending_nodes_def)
  next
    case False
    show ?thesis
    proof (cases v)
      case v: (VBoolBinary op l r n)
      show ?thesis
      proof (cases "is_boolean l \<and> is_boolean r")
        case True
        have IH: "capture_walk ((l, Suc depth) # (r, Suc depth) # pending) leaves (Suc count) c = (Inr ls, b') \<longleftrightarrow>
            pending_ok ((l, Suc depth) # (r, Suc depth) # pending) \<and>
            Suc count + pending_nodes ((l, Suc depth) # (r, Suc depth) # pending) \<le> MAX_EXPRESSION_NODES \<and>
            pending_nodes ((l, Suc depth) # (r, Suc depth) # pending) \<le> remaining c \<and>
            ls = leaves @ pending_leaves ((l, Suc depth) # (r, Suc depth) # pending) \<and>
            b' = c\<lparr>remaining := remaining c - pending_nodes ((l, Suc depth) # (r, Suc depth) # pending)\<rparr>" for c
          using 2(5) [OF False v] True by (simp del: capture_walk.simps)
        show ?thesis
          unfolding capture_walk.simps(2) [of v depth pending leaves count] step unfolding v
          using False True
          by (auto simp: IH pending_ok_def pending_nodes_def pending_leaves_def
              simp del: capture_walk.simps)
      qed (use False v in \<open>auto simp: step lb_simps pending_ok_def\<close>)
    qed (use False 2 in \<open>auto simp: step pending_ok_def pending_nodes_def pending_leaves_def\<close>)
  qed
qed

lemma capture_leaves_Inr:
  "capture_leaves v b = (Inr ls, b') \<longleftrightarrow>
     capture_typed v \<and> capture_depth v \<le> MAX_EXPRESSION_DEPTH \<and>
     capture_nodes v \<le> MAX_EXPRESSION_NODES \<and> capture_nodes v \<le> remaining b \<and>
     ls = leaf_list v \<and> b' = b\<lparr>remaining := remaining b - capture_nodes v\<rparr>"
  by (auto simp: capture_leaves_def capture_walk_Inr pending_ok_def pending_nodes_def
      pending_leaves_def simp del: capture_walk.simps)

lemma boolean_binary_Inr:
  "boolean_binary op l r n b = (Inr v, b') \<Longrightarrow>
     v = VBoolBinary op l r n \<and> capture_typed v \<and> VBool None \<notin> set (leaf_list v)"
  by (auto simp: boolean_binary_def lb_bind_Inr capture_leaves_Inr lb_simps split: if_splits)

lemma boolean_binary_post [lb_rules]:
  "lb_post (boolean_binary op l r n) (\<lambda>v. v = VBoolBinary op l r n)"
  by (auto intro: lb_postI dest: boolean_binary_Inr)

text \<open>Without anonymous unknowns a capture denotes at most one truth value.\<close>

lemma capture_deterministic:
  "VBool None \<notin> set (leaf_list v) \<Longrightarrow> lv_bool \<rho> v x \<Longrightarrow> lv_bool \<rho> v y \<Longrightarrow> x = y"
proof (induction v arbitrary: x y)
  case (VBool k)
  then show ?case by (cases k) auto
next
  case (VBoolBinary op l r n)
  from VBoolBinary.prems obtain p q p' q' where
    "lv_bool \<rho> l p" "lv_bool \<rho> r q" "x = (op_sem op p q \<noteq> n)"
    "lv_bool \<rho> l p'" "lv_bool \<rho> r q'" "y = (op_sem op p' q' \<noteq> n)"
    unfolding lv_bool.simps by blast
  moreover from this VBoolBinary.IH VBoolBinary.prems(1) have "p = p'" "q = q'" by auto
  ultimately show ?case by simp
qed auto

end
