(* ===== verification/Evaluation.thy ===== *)
theory Evaluation
  imports Logic_Value
begin

text \<open>
  The checked DAG evaluator of \<open>src/src/predicate_logic/evaluation.rs\<close>, in its value and its
  capture mode, and the machine evaluator it refines. The adapter closures \<open>observe\<close> and
  \<open>resource\<close> are parameters; each is called once per leaf node, in node order.
\<close>

section \<open>Operations of a mode\<close>

datatype evaluation_mode = ValueMode | CaptureMode

definition mode_word_comparison ::
  "evaluation_mode \<Rightarrow> word_type \<Rightarrow> word_comparison \<Rightarrow> 'a affine_value \<Rightarrow> 'a affine_value \<Rightarrow> bool \<Rightarrow>
   ('a, 'r) logic_value" where
  "mode_word_comparison mode t c l r negated =
     (if mode = CaptureMode \<and> (av_terms l \<noteq> [] \<or> av_terms r \<noteq> [])
      then VBoolComparison t c l r negated
      else word_comparison_value t c l r negated)"

definition same_word :: "'a affine_value \<Rightarrow> 'a affine_value \<Rightarrow> bool" where
  "same_word a b = (av_constant a = av_constant b \<and> av_terms a = av_terms b)"

fun capture_identity :: "('a, 'r) logic_value \<Rightarrow> ('a, 'r) logic_value \<Rightarrow> bool option" where
  "capture_identity (VBoolBinary op l r n) (VBoolBinary op' l' r' n') =
     (if op = op' \<and> capture_identity l l' = Some True \<and> capture_identity r r' = Some True
      then Some (n = n') else None)"
| "capture_identity (VBool (Some a)) (VBool (Some b)) = Some (a = b)"
| "capture_identity (VBoolAtom a x k) (VBoolAtom b y k') = (if a = b then Some (x = y) else None)"
| "capture_identity (VBoolComparison t c l r n) (VBoolComparison t' c' l' r' n') =
     (if t = t' \<and> c = c' \<and>
         ((same_word l l' \<and> same_word r r') \<or> (c = WEqual \<and> same_word l r' \<and> same_word r l'))
      then Some (n = n') else None)"
| "capture_identity v w = None"

definition mode_boolean_binary ::
  "evaluation_mode \<Rightarrow> boolean_operation \<Rightarrow> ('a, 'r) logic_value \<Rightarrow> ('a, 'r) logic_value \<Rightarrow>
   ('a, 'r) logic_value lb" where
  "mode_boolean_binary mode op v w =
     (if mode = ValueMode then lb_catch (boolean_binary op v w False) Unbound (lb_return (VBool None))
      else boolean_binary op v w False)"

definition mode_bool_equality ::
  "evaluation_mode \<Rightarrow> ('a, 'r) logic_value \<Rightarrow> ('a, 'r) logic_value \<Rightarrow> ('a, 'r) logic_value lb" where
  "mode_bool_equality mode v w =
     (if mode = ValueMode then
        (case bool_equal v w of
           Some value \<Rightarrow> lb_return (VBool (Some value))
         | None \<Rightarrow> mode_boolean_binary mode OpEqual v w)
      else case (v, w) of
        (VBool (Some value), other) \<Rightarrow> lb_return (if value then other else bool_not other)
      | (other, VBool (Some value)) \<Rightarrow> lb_return (if value then other else bool_not other)
      | _ \<Rightarrow>
        (case capture_identity v w of
           Some value \<Rightarrow> lb_return (VBool (Some value))
         | None \<Rightarrow> boolean_binary OpEqual v w False))"

definition junction_op :: "bool \<Rightarrow> boolean_operation" where
  "junction_op is_or = (if is_or then OpOr else OpAnd)"

definition mode_bool_combine ::
  "evaluation_mode \<Rightarrow> ('a, 'r) logic_value \<Rightarrow> ('a, 'r) logic_value \<Rightarrow> bool \<Rightarrow> ('a, 'r) logic_value lb"
  where
  "mode_bool_combine mode v w is_or =
     (if mode = ValueMode then
        (let value = bool_combine v w is_or in
         if value = VBool None then mode_boolean_binary mode (junction_op is_or) v w
         else lb_return value)
      else if v = VBool (Some is_or) then lb_return v
      else if w = VBool (Some is_or) then lb_return w
      else if v = VBool (Some (\<not> is_or)) then lb_return w
      else if w = VBool (Some (\<not> is_or)) then lb_return v
      else case capture_identity v w of
        Some True \<Rightarrow> lb_return v
      | Some False \<Rightarrow> lb_return (VBool (Some is_or))
      | None \<Rightarrow> boolean_binary (junction_op is_or) v w False)"

section \<open>Leaves\<close>

type_synonym ('t, 'a, 'r) observe =
  "u32 \<Rightarrow> u64 \<Rightarrow> 't \<Rightarrow> observation_time \<Rightarrow> ('t, 'a, 'r) typed_logic_value lresult"
type_synonym ('t, 'a, 'r) resolve_resource =
  "u32 \<Rightarrow> u64 list \<Rightarrow> ('t, 'a, 'r) typed_logic_value lresult"

definition resolve_leaf ::
  "('t, 'a, 'r) observe \<Rightarrow> ('t, 'a, 'r) resolve_resource \<Rightarrow> nat \<times> 't logic_node \<Rightarrow>
   (nat, ('t, 'a, 'r) typed_logic_value) btmap \<Rightarrow> (nat, ('t, 'a, 'r) typed_logic_value) btmap lresult"
  where
  "resolve_leaf observe resource inode leaves =
     (case inode of (index, node) \<Rightarrow>
       let keep = (\<lambda>v. if tv_ty v \<noteq> node_ty node then Inl TypeMismatch
                       else Inr (bt_insert index v leaves)) in
       (case node_kind node of
          NObserve r offset access time \<Rightarrow> res_bind (observe r offset access time) keep
        | NResource r path \<Rightarrow> res_bind (resource r path) keep
        | _ \<Rightarrow> Inr leaves))"

definition resolve_leaves ::
  "('t, 'a, 'r) observe \<Rightarrow> ('t, 'a, 'r) resolve_resource \<Rightarrow> 't logic_node list \<Rightarrow>
   (nat, ('t, 'a, 'r) typed_logic_value) btmap lresult" where
  "resolve_leaves observe resource ns =
     res_fold (resolve_leaf observe resource) (List.enumerate 0 ns) []"

fun find_map :: "('x \<Rightarrow> 'y option) \<Rightarrow> 'x list \<Rightarrow> 'y option" where
  "find_map f [] = None"
| "find_map f (x # xs) = (case f x of Some y \<Rightarrow> Some y | None \<Rightarrow> find_map f xs)"

text \<open>The typings handed to \<open>validate\<close> answer from the leaves already resolved.\<close>

definition leaf_observation_type ::
  "'t logic_node list \<Rightarrow> (nat, ('t, 'a, 'r) typed_logic_value) btmap \<Rightarrow> 't observation_typing" where
  "leaf_observation_type ns leaves r offset access time =
     find_map (\<lambda>(i, n). if node_kind n = NObserve r offset access time
                        then map_option tv_ty (bt_get leaves i) else None) (List.enumerate 0 ns)"

definition leaf_resource_type ::
  "'t logic_node list \<Rightarrow> (nat, ('t, 'a, 'r) typed_logic_value) btmap \<Rightarrow> 't resource_typing" where
  "leaf_resource_type ns leaves r path =
     find_map (\<lambda>(i, n). if node_kind n = NResource r path
                        then (case bt_get leaves i of
                                Some v \<Rightarrow> (case tv_ty v of TResource t \<Rightarrow> Some t | _ \<Rightarrow> None)
                              | None \<Rightarrow> None)
                        else None) (List.enumerate 0 ns)"

section \<open>Nodes\<close>

definition get_value ::
  "('t, 'a, 'r) typed_logic_value list \<Rightarrow> u32 \<Rightarrow> ('t, 'a, 'r) typed_logic_value lresult" where
  "get_value values nid = (if nid < length values then Inr (values ! nid) else Inl InvalidNode)"

definition get_word :: "('t, 'a, 'r) typed_logic_value list \<Rightarrow> u32 \<Rightarrow> 'a affine_value lresult" where
  "get_word values nid =
     res_bind (get_value values nid) (\<lambda>v. case tv_value v of VWord w \<Rightarrow> Inr w | _ \<Rightarrow> Inl TypeMismatch)"

definition get_boolean ::
  "('t, 'a, 'r) typed_logic_value list \<Rightarrow> u32 \<Rightarrow> ('a, 'r) logic_value lresult" where
  "get_boolean values nid =
     res_bind (get_value values nid) (\<lambda>v. if is_boolean (tv_value v) then Inr (tv_value v) else Inl TypeMismatch)"

definition get_word_type :: "('t, 'a, 'r) typed_logic_value list \<Rightarrow> u32 \<Rightarrow> word_type lresult" where
  "get_word_type values nid =
     res_bind (get_value values nid) (\<lambda>v. word_type_from_logic_type (tv_ty v))"

definition get_binder ::
  "('t, 'a, 'r) typed_logic_value list \<Rightarrow> u32 \<Rightarrow> ('a, 'r) logic_value lresult" where
  "get_binder values nid = (if nid < length values then Inr (tv_value (values ! nid)) else Inl Unbound)"

definition eval_equal ::
  "evaluation_mode \<Rightarrow> ('t, 'a, 'r) typed_logic_value \<Rightarrow> ('t, 'a, 'r) typed_logic_value \<Rightarrow>
   ('a, 'r) logic_value lb" where
  "eval_equal mode v w =
     (case (tv_value v, tv_value w) of
        (VWord l, VWord r) \<Rightarrow>
          lb_bind (lb_lift (word_type_from_logic_type (tv_ty v))) (\<lambda>t.
          lb_return (mode_word_comparison mode t WEqual l r False))
      | (VResource a, VResource b) \<Rightarrow> lb_return (VBool (Some (a = b)))
      | (VResourceAtom a, VResourceAtom b) \<Rightarrow> lb_return (VBool (if a = b then Some True else None))
      | (VResourceAtom a, VResource b) \<Rightarrow> lb_return (VBool None)
      | (VResource a, VResourceAtom b) \<Rightarrow> lb_return (VBool None)
      | (x, y) \<Rightarrow> if is_boolean x \<and> is_boolean y then mode_bool_equality mode x y
                 else lb_throw TypeMismatch)"

definition eval_compare ::
  "evaluation_mode \<Rightarrow> ('t, 'a, 'r) typed_logic_value list \<Rightarrow> u32 \<Rightarrow> u32 \<Rightarrow> u32 \<Rightarrow> bool \<Rightarrow>
   ('a, 'r) logic_value lb" where
  "eval_compare mode values typed x y negated =
     lb_bind (lb_lift (get_word_type values typed)) (\<lambda>t.
     lb_bind (lb_lift (get_word values x)) (\<lambda>l.
     lb_bind (lb_lift (get_word values y)) (\<lambda>r.
     lb_return (mode_word_comparison mode t WLessEqual l r negated))))"

definition eval_arith ::
  "('a affine_value \<Rightarrow> 'a affine_value \<Rightarrow> 'a affine_value lresult) \<Rightarrow>
   ('t, 'a, 'r) typed_logic_value list \<Rightarrow> u32 \<Rightarrow> u32 \<Rightarrow> ('a, 'r) logic_value lb" where
  "eval_arith f values x y =
     lb_lift (res_bind (get_word values x) (\<lambda>l. res_bind (get_word values y) (\<lambda>r.
       res_bind (f l r) (\<lambda>w. Inr (VWord w)))))"

definition eval_junction ::
  "evaluation_mode \<Rightarrow> ('t, 'a, 'r) typed_logic_value list \<Rightarrow> u32 \<Rightarrow> u32 \<Rightarrow> bool \<Rightarrow>
   ('a, 'r) logic_value lb" where
  "eval_junction mode values x y is_or =
     lb_bind (lb_lift (get_boolean values x)) (\<lambda>v.
     lb_bind (lb_lift (get_boolean values y)) (\<lambda>w. mode_bool_combine mode v w is_or))"

fun eval_kind ::
  "evaluation_mode \<Rightarrow> ('t, 'a::linorder, 'r) typed_logic_value list \<Rightarrow>
   ('t, 'a, 'r) typed_logic_value list \<Rightarrow> (nat, ('t, 'a, 'r) typed_logic_value) btmap \<Rightarrow>
   ('t, 'a, 'r) typed_logic_value list \<Rightarrow> nat \<Rightarrow> 't logic_node_kind \<Rightarrow> ('a, 'r) logic_value lb" where
  "eval_kind mode ps es leaves values index (NWord n) = lb_return (VWord (av_exact n))"
| "eval_kind mode ps es leaves values index (NBool v) = lb_return (VBool (Some v))"
| "eval_kind mode ps es leaves values index (NBinder (Parameter nid)) = lb_lift (get_binder ps nid)"
| "eval_kind mode ps es leaves values index (NBinder (ExistentialBinder nid)) =
     lb_lift (get_binder es nid)"
| "eval_kind mode ps es leaves values index (NObserve r offset access time) =
     lb_lift (res_bind (ok_or InvalidNode (bt_get leaves index)) (\<lambda>v. Inr (tv_value v)))"
| "eval_kind mode ps es leaves values index (NResource r path) =
     lb_lift (res_bind (ok_or InvalidNode (bt_get leaves index)) (\<lambda>v. Inr (tv_value v)))"
| "eval_kind mode ps es leaves values index (NAdd x y) = eval_arith av_add values x y"
| "eval_kind mode ps es leaves values index (NSub x y) = eval_arith av_sub values x y"
| "eval_kind mode ps es leaves values index (NScale x factor) =
     lb_lift (res_bind (get_word values x) (\<lambda>w. res_bind (av_scale w factor) (\<lambda>s. Inr (VWord s))))"
| "eval_kind mode ps es leaves values index (NEqual x y) =
     lb_bind (lb_lift (get_value values x)) (\<lambda>v.
     lb_bind (lb_lift (get_value values y)) (\<lambda>w. eval_equal mode v w))"
| "eval_kind mode ps es leaves values index (NLess x y) = eval_compare mode values x y x True"
| "eval_kind mode ps es leaves values index (NLessEqual x y) = eval_compare mode values x x y False"
| "eval_kind mode ps es leaves values index (NNot x) =
     lb_lift (res_bind (get_boolean values x) (\<lambda>v. Inr (bool_not v)))"
| "eval_kind mode ps es leaves values index (NAnd x y) = eval_junction mode values x y False"
| "eval_kind mode ps es leaves values index (NOr x y) = eval_junction mode values x y True"

fun value_matches :: "'t logic_type \<Rightarrow> ('a, 'r) logic_value \<Rightarrow> bool" where
  "value_matches TU64 (VWord w) = True"
| "value_matches TUsize (VWord w) = True"
| "value_matches TBool v = is_boolean v"
| "value_matches (TResource t) (VResource r) = True"
| "value_matches (TResource t) (VResourceAtom a) = True"
| "value_matches ty v = False"

definition settle :: "evaluation_mode \<Rightarrow> ('a, 'r) logic_value \<Rightarrow> ('a, 'r) logic_value" where
  "settle mode v =
     (if mode = ValueMode
      then (case known_boolean v of Some known \<Rightarrow> VBool (Some known) | None \<Rightarrow> v)
      else v)"

definition eval_node ::
  "evaluation_mode \<Rightarrow> ('t, 'a::linorder, 'r) typed_logic_value list \<Rightarrow>
   ('t, 'a, 'r) typed_logic_value list \<Rightarrow> (nat, ('t, 'a, 'r) typed_logic_value) btmap \<Rightarrow>
   nat \<times> 't logic_node \<Rightarrow> ('t, 'a, 'r) typed_logic_value list \<Rightarrow>
   ('t, 'a, 'r) typed_logic_value list lb" where
  "eval_node mode ps es leaves inode values =
     (case inode of (index, node) \<Rightarrow>
       lb_bind (eval_kind mode ps es leaves values index (node_kind node)) (\<lambda>v.
       if value_matches (node_ty node) v
       then lb_return (values @ [\<lparr>tv_ty = node_ty node, tv_value = settle mode v\<rparr>])
       else lb_throw TypeMismatch))"

definition eval_nodes ::
  "evaluation_mode \<Rightarrow> ('t, 'a::linorder, 'r) typed_logic_value list \<Rightarrow>
   ('t, 'a, 'r) typed_logic_value list \<Rightarrow> (nat, ('t, 'a, 'r) typed_logic_value) btmap \<Rightarrow>
   't logic_node list \<Rightarrow> ('t, 'a, 'r) typed_logic_value list lb" where
  "eval_nodes mode ps es leaves ns = lb_fold (eval_node mode ps es leaves) (List.enumerate 0 ns) []"

section \<open>The evaluator\<close>

definition evaluate_with_mode ::
  "('t, 'a::linorder, 'r) typed_logic_value list \<Rightarrow> ('t, 'a, 'r) typed_logic_value list \<Rightarrow>
   ('t, 'a, 'r) observe \<Rightarrow> ('t, 'a, 'r) resolve_resource \<Rightarrow> evaluation_mode \<Rightarrow>
   't logic_expression \<Rightarrow> ('t, 'a, 'r) typed_logic_value lb" where
  "evaluate_with_mode ps es observe resource mode e =
     (if nodes e = [] \<or> length (nodes e) > MAX_EXPRESSION_NODES \<or> root e + 1 \<noteq> length (nodes e)
      then lb_throw Budget
      else
        lb_bind (lb_map (\<lambda>input. capture_leaves (tv_value input)) (ps @ es)) (\<lambda>_.
        lb_bind (lb_lift (resolve_leaves observe resource (nodes e))) (\<lambda>leaves.
        lb_bind (validate (map tv_ty ps) (map tv_ty es) (leaf_observation_type (nodes e) leaves)
                   (leaf_resource_type (nodes e) leaves) e) (\<lambda>_.
        lb_bind (eval_nodes mode ps es leaves (nodes e)) (\<lambda>values.
        if values = [] then lb_throw InvalidNode else lb_return (last values))))))"

definition evaluate ::
  "('t, 'a::linorder, 'r) typed_logic_value list \<Rightarrow> ('t, 'a, 'r) typed_logic_value list \<Rightarrow>
   ('t, 'a, 'r) observe \<Rightarrow> ('t, 'a, 'r) resolve_resource \<Rightarrow> 't logic_expression \<Rightarrow>
   ('t, 'a, 'r) typed_logic_value lb" where
  "evaluate ps es observe resource e = evaluate_with_mode ps es observe resource ValueMode e"

definition evaluate_for_capture ::
  "('t, 'a::linorder, 'r) typed_logic_value list \<Rightarrow> ('t, 'a, 'r) typed_logic_value list \<Rightarrow>
   ('t, 'a, 'r) observe \<Rightarrow> ('t, 'a, 'r) resolve_resource \<Rightarrow> 't logic_expression \<Rightarrow>
   ('t, 'a, 'r) typed_logic_value lb" where
  "evaluate_for_capture ps es observe resource e =
     evaluate_with_mode ps es observe resource CaptureMode e"

end
