(* ===== verification/Evaluation_Sound.thy ===== *)
theory Evaluation_Sound
  imports Evaluation
begin

text \<open>
  The evaluator is sound: whenever it returns a value, running the same expression on machine
  words succeeds (no addition, subtraction or scaling overflows) and the value stands for the
  result. The machine evaluator below is the meaning of the expression language.
\<close>

section \<open>Running an expression on machine words\<close>

record ('t, 'r) machine_inputs =
  mi_parameters :: "'r concrete_value list"
  mi_existentials :: "'r concrete_value list"
  mi_observe :: "u32 \<Rightarrow> u64 \<Rightarrow> 't \<Rightarrow> observation_time \<Rightarrow> 'r concrete_value"
  mi_resource :: "u32 \<Rightarrow> u64 list \<Rightarrow> 'r concrete_value"

definition nth_option :: "'x list \<Rightarrow> nat \<Rightarrow> 'x option" where
  "nth_option xs i = (if i < length xs then Some (xs ! i) else None)"

fun machine_word2 :: "(u64 \<Rightarrow> u64 \<Rightarrow> 'r concrete_value option) \<Rightarrow> 'r concrete_value option \<Rightarrow>
    'r concrete_value option \<Rightarrow> 'r concrete_value option" where
  "machine_word2 f (Some (CWord x)) (Some (CWord y)) = f x y"
| "machine_word2 f _ _ = None"

fun machine_bool2 :: "(bool \<Rightarrow> bool \<Rightarrow> bool) \<Rightarrow> 'r concrete_value option \<Rightarrow>
    'r concrete_value option \<Rightarrow> 'r concrete_value option" where
  "machine_bool2 f (Some (CBool x)) (Some (CBool y)) = Some (CBool (f x y))"
| "machine_bool2 f _ _ = None"

fun machine_equal :: "'r concrete_value option \<Rightarrow> 'r concrete_value option \<Rightarrow> 'r concrete_value option" where
  "machine_equal (Some (CWord x)) (Some (CWord y)) = Some (CBool (x = y))"
| "machine_equal (Some (CBool x)) (Some (CBool y)) = Some (CBool (x = y))"
| "machine_equal (Some (CResource x)) (Some (CResource y)) = Some (CBool (x = y))"
| "machine_equal _ _ = None"

fun machine_node ::
  "('t, 'r) machine_inputs \<Rightarrow> 'r concrete_value list \<Rightarrow> 't logic_node_kind \<Rightarrow> 'r concrete_value option"
  where
  "machine_node mi vs (NWord n) = Some (CWord n)"
| "machine_node mi vs (NBool v) = Some (CBool v)"
| "machine_node mi vs (NBinder (Parameter nid)) = nth_option (mi_parameters mi) nid"
| "machine_node mi vs (NBinder (ExistentialBinder nid)) = nth_option (mi_existentials mi) nid"
| "machine_node mi vs (NObserve r offset access time) = Some (mi_observe mi r offset access time)"
| "machine_node mi vs (NResource r path) = Some (mi_resource mi r path)"
| "machine_node mi vs (NAdd x y) =
     machine_word2 (\<lambda>a b. map_option CWord (u64_checked_add a b)) (nth_option vs x) (nth_option vs y)"
| "machine_node mi vs (NSub x y) =
     machine_word2 (\<lambda>a b. map_option CWord (u64_checked_sub a b)) (nth_option vs x) (nth_option vs y)"
| "machine_node mi vs (NScale x factor) =
     machine_word2 (\<lambda>a b. map_option CWord (u64_checked_mul a b)) (nth_option vs x) (Some (CWord factor))"
| "machine_node mi vs (NEqual x y) = machine_equal (nth_option vs x) (nth_option vs y)"
| "machine_node mi vs (NLess x y) =
     machine_word2 (\<lambda>a b. Some (CBool (a < b))) (nth_option vs x) (nth_option vs y)"
| "machine_node mi vs (NLessEqual x y) =
     machine_word2 (\<lambda>a b. Some (CBool (a \<le> b))) (nth_option vs x) (nth_option vs y)"
| "machine_node mi vs (NNot x) = machine_bool2 (\<lambda>a b. \<not> a) (nth_option vs x) (nth_option vs x)"
| "machine_node mi vs (NAnd x y) = machine_bool2 (\<and>) (nth_option vs x) (nth_option vs y)"
| "machine_node mi vs (NOr x y) = machine_bool2 (\<or>) (nth_option vs x) (nth_option vs y)"

fun machine_run ::
  "('t, 'r) machine_inputs \<Rightarrow> 't logic_node list \<Rightarrow> 'r concrete_value list \<Rightarrow> 'r concrete_value list option"
  where
  "machine_run mi [] vs = Some vs"
| "machine_run mi (n # ns) vs =
     (case machine_node mi vs (node_kind n) of
        None \<Rightarrow> None
      | Some v \<Rightarrow> machine_run mi ns (vs @ [v]))"

definition machine_eval :: "('t, 'r) machine_inputs \<Rightarrow> 't logic_expression \<Rightarrow> 'r concrete_value option" where
  "machine_eval mi e =
     (case machine_run mi (nodes e) [] of Some vs \<Rightarrow> nth_option vs (root e) | None \<Rightarrow> None)"

lemma machine_run_snoc:
  "machine_run mi (ns @ [n]) vs =
     (case machine_run mi ns vs of
        None \<Rightarrow> None
      | Some us \<Rightarrow> map_option (\<lambda>v. us @ [v]) (machine_node mi us (node_kind n)))"
  by (induction ns arbitrary: vs) (auto split: option.splits)

lemma machine_run_length: "machine_run mi ns vs = Some us \<Longrightarrow> length us = length vs + length ns"
  by (induction ns arbitrary: vs) (auto split: option.splits)

section \<open>Representation\<close>

abbreviation tv_rep ::
  "('a, 'r) valuation \<Rightarrow> ('t, 'a, 'r) typed_logic_value \<Rightarrow> 'r concrete_value \<Rightarrow> bool" where
  "tv_rep \<rho> v c \<equiv> lv_rep \<rho> (tv_value v) c"

definition inputs_represented ::
  "('a, 'r) valuation \<Rightarrow> ('t, 'a, 'r) typed_logic_value list \<Rightarrow> ('t, 'a, 'r) typed_logic_value list \<Rightarrow>
   ('t, 'a, 'r) observe \<Rightarrow> ('t, 'a, 'r) resolve_resource \<Rightarrow> ('t, 'r) machine_inputs \<Rightarrow> bool" where
  "inputs_represented \<rho> ps es observe resource mi =
     (list_all2 (tv_rep \<rho>) ps (mi_parameters mi) \<and> list_all2 (tv_rep \<rho>) es (mi_existentials mi) \<and>
      (\<forall>r i a t v. observe r i a t = Inr v \<longrightarrow> tv_rep \<rho> v (mi_observe mi r i a t)) \<and>
      (\<forall>r p v. resource r p = Inr v \<longrightarrow> tv_rep \<rho> v (mi_resource mi r p)))"

lemma lv_rep_cases:
  "lv_rep \<rho> v c \<Longrightarrow>
    (\<exists>w n. v = VWord w \<and> c = CWord n \<and> av_sat (val_word \<rho>) w \<and> uint n = av_den (val_word \<rho>) w) \<or>
    (\<exists>t. is_boolean v \<and> c = CBool t \<and> lv_bool \<rho> v t) \<or>
    (\<exists>s. (v = VResource s \<or> (\<exists>a. v = VResourceAtom a \<and> s = val_resource \<rho> a)) \<and> c = CResource s)"
  by (cases c; cases v) auto

lemma lv_rep_word: "lv_rep \<rho> (VWord w) c \<longleftrightarrow>
    (\<exists>n. c = CWord n \<and> av_sat (val_word \<rho>) w \<and> uint n = av_den (val_word \<rho>) w)"
  by (cases c) auto

lemma lv_rep_boolean: "is_boolean v \<Longrightarrow> lv_rep \<rho> v c \<longleftrightarrow> (\<exists>t. c = CBool t \<and> lv_bool \<rho> v t)"
  by (cases c; cases v) auto

section \<open>The operations of a mode\<close>

lemma same_word_den: "same_word a b \<Longrightarrow> av_den \<rho> a = av_den \<rho> b"
  by (simp add: same_word_def av_den_def)

lemma mode_word_comparison_sound:
  assumes "av_sat (val_word \<rho>) l" and "av_sat (val_word \<rho>) r"
  shows "lv_bool \<rho> (mode_word_comparison mode t c l r n)
    (cmp_sem c (av_den (val_word \<rho>) l) (av_den (val_word \<rho>) r) \<noteq> n)"
  using word_comparison_value_sound [OF assms, of t c n] assms
  by (simp add: mode_word_comparison_def)

lemma capture_identity_sound:
  "capture_identity v w = Some e \<Longrightarrow> lv_bool \<rho> v x \<Longrightarrow> lv_bool \<rho> w y \<Longrightarrow> e = (x = y)"
proof (induction v w arbitrary: e x y rule: capture_identity.induct)
  case (1 op l r n op' l' r' n')
  obtain x1 y1 x2 y2 where p: "lv_bool \<rho> l x1" "lv_bool \<rho> r y1" "x = (op_sem op x1 y1 \<noteq> n)"
    "lv_bool \<rho> l' x2" "lv_bool \<rho> r' y2" "y = (op_sem op' x2 y2 \<noteq> n')"
    using 1(4,5) unfolding lv_bool.simps by blast
  from 1(3) have b: "op = op'" "capture_identity l l' = Some True" "capture_identity r r' = Some True"
    "e = (n = n')"
    by (simp_all split: if_splits)
  have "x1 = x2" "y1 = y2" using 1(1) [OF b(2) p(1,4)] 1(2) [OF b(3) p(2,5)] by simp_all
  then show ?case using b p by auto
next
  case (4 t c l r n t' c' l' r' n')
  then show ?case
    by (auto split: if_splits dest!: same_word_den [where \<rho> = "val_word \<rho>"])
qed (auto split: if_splits)

lemma lv_bool_binary:
  "lv_bool \<rho> v x \<Longrightarrow> lv_bool \<rho> w y \<Longrightarrow> lv_bool \<rho> (VBoolBinary op v w False) (op_sem op x y)"
  by auto

lemma mode_boolean_binary_sound:
  "lb_post (mode_boolean_binary mode op v w)
    (\<lambda>u. \<forall>x y. lv_bool \<rho> v x \<longrightarrow> lv_bool \<rho> w y \<longrightarrow> lv_bool \<rho> u (op_sem op x y))"
  unfolding mode_boolean_binary_def
  by (auto intro!: lb_rules lb_post_mono [OF boolean_binary_post] lv_bool_binary simp del: lv_bool.simps(5))

lemma boolean_binary_sound:
  "lb_post (boolean_binary op v w False)
    (\<lambda>u. \<forall>x y. lv_bool \<rho> v x \<longrightarrow> lv_bool \<rho> w y \<longrightarrow> lv_bool \<rho> u (op_sem op x y))"
  by (auto intro!: lb_post_mono [OF boolean_binary_post] lv_bool_binary simp del: lv_bool.simps(5))

lemma mode_bool_equality_sound:
  assumes "lv_bool \<rho> v x" and "lv_bool \<rho> w y"
  shows "lb_post (mode_bool_equality mode v w) (\<lambda>u. lv_bool \<rho> u (x = y))"
proof -
  have bin: "lb_post (mode_boolean_binary mode OpEqual v w) (\<lambda>u. lv_bool \<rho> u (x = y))"
    "lb_post (boolean_binary OpEqual v w False) (\<lambda>u. lv_bool \<rho> u (x = y))"
    using assms mode_boolean_binary_sound [of mode OpEqual v w \<rho>] boolean_binary_sound [of OpEqual v w \<rho>]
    by (auto elim: lb_post_mono)
  have flip: "lv_bool \<rho> (bool_not u) (\<not> t)" if "lv_bool \<rho> u t" for u t
    using that bool_not_sound [of u \<rho>] lv_bool_is_boolean [OF that] by simp
  show ?thesis
  proof (cases mode)
    case ValueMode
    then show ?thesis using bin bool_equal_sound [OF _ assms]
      by (auto simp: mode_bool_equality_def split: option.split intro!: lb_rules)
  next
    case CaptureMode
    then show ?thesis using bin capture_identity_sound [OF _ assms] assms flip [OF assms(1)] flip [OF assms(2)]
      by (auto simp: mode_bool_equality_def split: option.split logic_value.split intro!: lb_rules)
  qed
qed

lemma junction_op_sem: "op_sem (junction_op is_or) x y = junction is_or x y"
  by (simp add: junction_op_def junction_def)

lemma mode_bool_combine_sound:
  assumes "lv_bool \<rho> v x" and "lv_bool \<rho> w y"
  shows "lb_post (mode_bool_combine mode v w is_or) (\<lambda>u. lv_bool \<rho> u (junction is_or x y))"
proof -
  have bin: "lb_post (mode_boolean_binary mode (junction_op is_or) v w) (\<lambda>u. lv_bool \<rho> u (junction is_or x y))"
    "lb_post (boolean_binary (junction_op is_or) v w False) (\<lambda>u. lv_bool \<rho> u (junction is_or x y))"
    using assms mode_boolean_binary_sound [of mode "junction_op is_or" v w \<rho>]
      boolean_binary_sound [of "junction_op is_or" v w \<rho>]
    by (auto elim!: lb_post_mono simp: junction_op_sem)
  show ?thesis
  proof (cases mode)
    case ValueMode
    then show ?thesis using bin bool_combine_sound [OF assms, of is_or]
      by (auto simp: mode_bool_combine_def Let_def intro!: lb_rules)
  next
    case CaptureMode
    then show ?thesis using bin capture_identity_sound [OF _ assms] assms
      by (auto simp: mode_bool_combine_def junction_def split: option.split bool.split intro!: lb_rules)
  qed
qed

lemma known_boolean_is_boolean: "known_boolean v = Some k \<Longrightarrow> is_boolean v"
  by (cases v) auto

lemma settle_sound:
  assumes "lv_rep \<rho> v c"
  shows "lv_rep \<rho> (settle mode v) c"
proof (cases "known_boolean v")
  case (Some k)
  then obtain t where "c = CBool t" "lv_bool \<rho> v t"
    using assms known_boolean_is_boolean lv_rep_boolean by blast
  then show ?thesis using Some known_boolean_sound [of \<rho> v t k] by (simp add: settle_def)
qed (use assms in \<open>simp add: settle_def\<close>)

section \<open>One node\<close>

lemma checked_add_rep:
  assumes "av_add v w = Inr u" and "av_sat \<rho> v" and "av_sat \<rho> w"
    and "uint x = av_den \<rho> v" and "uint y = av_den \<rho> w"
  shows "\<exists>z. u64_checked_add x y = Some z \<and> av_sat \<rho> u \<and> uint z = av_den \<rho> u"
proof -
  have d: "av_den \<rho> u = uint x + uint y" "av_sat \<rho> u"
    using av_combine_den [of v w False u \<rho>] av_combine_sat [of v w False u \<rho>] assms
    by (simp_all add: av_add_def sign_of_def)
  then show ?thesis using av_sat_word [of \<rho> u]
    by (auto simp: u64_checked_add_def uint_add_u64)
qed

lemma checked_sub_rep:
  assumes "av_sub v w = Inr u" and "av_sat \<rho> v" and "av_sat \<rho> w"
    and "uint x = av_den \<rho> v" and "uint y = av_den \<rho> w"
  shows "\<exists>z. u64_checked_sub x y = Some z \<and> av_sat \<rho> u \<and> uint z = av_den \<rho> u"
proof -
  have d: "av_den \<rho> u = uint x - uint y" "av_sat \<rho> u"
    using av_combine_den [of v w True u \<rho>] av_combine_sat [of v w True u \<rho>] assms
    by (simp_all add: av_sub_def sign_of_def)
  then have "y \<le> x" using av_sat_word [of \<rho> u] by (simp add: word_le_def)
  then show ?thesis using d by (auto simp: u64_checked_sub_def uint_sub_u64)
qed

lemma checked_mul_rep:
  assumes "av_scale v k = Inr u" and "av_sat \<rho> v" and "uint x = av_den \<rho> v"
  shows "\<exists>z. u64_checked_mul x k = Some z \<and> av_sat \<rho> u \<and> uint z = av_den \<rho> u"
proof -
  have d: "av_den \<rho> u = uint x * uint k" "av_sat \<rho> u"
    using av_scale_den [OF assms(1), of \<rho>] av_scale_sat [OF assms(1,2)] assms(3)
    by (simp_all add: mult.commute)
  then show ?thesis using av_sat_word [of \<rho> u]
    by (auto simp: u64_checked_mul_def uint_mul_u64)
qed

lemma get_value_rep:
  "get_value values nid = Inr v \<Longrightarrow> list_all2 (tv_rep \<rho>) values cs \<Longrightarrow>
    \<exists>c. nth_option cs nid = Some c \<and> tv_rep \<rho> v c"
  by (auto simp: get_value_def nth_option_def list_all2_conv_all_nth split: if_splits)

lemma get_word_rep:
  assumes "get_word values nid = Inr w" and "list_all2 (tv_rep \<rho>) values cs"
  shows "\<exists>n. nth_option cs nid = Some (CWord n) \<and> av_sat (val_word \<rho>) w \<and> uint n = av_den (val_word \<rho>) w"
proof -
  from assms(1) obtain v where v: "get_value values nid = Inr v"
    and "(case tv_value v of VWord w \<Rightarrow> Inr w | _ \<Rightarrow> Inl TypeMismatch) = Inr w"
    by (auto simp: get_word_def)
  then have "tv_value v = VWord w" by (cases "tv_value v") auto
  then show ?thesis using get_value_rep [OF v assms(2)] by (auto simp: lv_rep_word)
qed

lemma get_boolean_rep:
  assumes "get_boolean values nid = Inr v" and "list_all2 (tv_rep \<rho>) values cs"
  shows "\<exists>t. nth_option cs nid = Some (CBool t) \<and> lv_bool \<rho> v t"
proof -
  from assms(1) obtain w where w: "get_value values nid = Inr w" "tv_value w = v" "is_boolean v"
    by (auto simp: get_boolean_def split: if_splits)
  then show ?thesis using get_value_rep [OF w(1) assms(2)] by (auto simp: lv_rep_boolean)
qed

lemma get_binder_rep:
  "get_binder ps nid = Inr v \<Longrightarrow> list_all2 (tv_rep \<rho>) ps cs \<Longrightarrow>
    \<exists>c. nth_option cs nid = Some c \<and> lv_rep \<rho> v c"
  by (auto simp: get_binder_def nth_option_def list_all2_conv_all_nth split: if_splits)

lemma eval_equal_sound:
  assumes "tv_rep \<rho> v c" and "tv_rep \<rho> w d"
  shows "lb_post (eval_equal mode v w) (\<lambda>u. \<exists>e. machine_equal (Some c) (Some d) = Some e \<and> lv_rep \<rho> u e)"
proof (cases "is_boolean (tv_value v) \<and> is_boolean (tv_value w)")
  case True
  then obtain x y where xy: "c = CBool x" "lv_bool \<rho> (tv_value v) x" "d = CBool y" "lv_bool \<rho> (tv_value w) y"
    using assms by (auto simp: lv_rep_boolean)
  have "eval_equal mode v w = mode_bool_equality mode (tv_value v) (tv_value w)"
    using True by (auto simp: eval_equal_def split: logic_value.split)
  then show ?thesis using mode_bool_equality_sound [OF xy(2,4), of mode] by (simp add: xy)
next
  case False
  have word: "lb_post (lb_bind (lb_lift t) (\<lambda>t. lb_return (mode_word_comparison mode t WEqual l r False)))
      (\<lambda>u. lv_bool \<rho> u (av_den (val_word \<rho>) l = av_den (val_word \<rho>) r))"
    if "av_sat (val_word \<rho>) l" "av_sat (val_word \<rho>) r" for t :: "word_type lresult" and l r
    using mode_word_comparison_sound [OF that, of mode _ WEqual False]
    by (auto intro!: lb_post_bind [where Q = "\<lambda>_. True"] lb_post_return)
  show ?thesis
    using assms False word
    by (cases "tv_value v"; cases "tv_value w")
      (auto simp: eval_equal_def lv_rep_word lv_rep_boolean word_uint_eq_iff intro!: lb_rules
        dest!: lv_rep_cases)
qed

definition leaf_resolved ::
  "('t, 'a, 'r) observe \<Rightarrow> ('t, 'a, 'r) resolve_resource \<Rightarrow> 't logic_node_kind \<Rightarrow>
   ('t, 'a, 'r) typed_logic_value \<Rightarrow> bool" where
  "leaf_resolved observe resource k v =
     (case k of NObserve r i a t \<Rightarrow> observe r i a t = Inr v
      | NResource r p \<Rightarrow> resource r p = Inr v
      | _ \<Rightarrow> False)"

lemma eval_compare_sound:
  assumes "list_all2 (tv_rep \<rho>) values cs"
  shows "lb_post (eval_compare mode values typed x y n)
    (\<lambda>v. \<exists>p q. nth_option cs x = Some (CWord p) \<and> nth_option cs y = Some (CWord q) \<and>
         lv_bool \<rho> v ((p \<le> q) \<noteq> n))"
  unfolding eval_compare_def
proof (intro lb_post_lift_bind lb_post_return)
  fix t l r
  assume "get_word values x = Inr l" "get_word values y = Inr r"
  then obtain p q where "nth_option cs x = Some (CWord p)" "nth_option cs y = Some (CWord q)"
    "av_sat (val_word \<rho>) l" "av_sat (val_word \<rho>) r"
    "uint p = av_den (val_word \<rho>) l" "uint q = av_den (val_word \<rho>) r"
    using get_word_rep assms by blast
  then show "\<exists>p q. nth_option cs x = Some (CWord p) \<and> nth_option cs y = Some (CWord q) \<and>
      lv_bool \<rho> (mode_word_comparison mode t WLessEqual l r n) ((p \<le> q) \<noteq> n)"
    using mode_word_comparison_sound [of \<rho> l r mode t WLessEqual n] by (simp add: word_le_def)
qed

lemma eval_arith_sound:
  assumes "list_all2 (tv_rep \<rho>) values cs"
    and "\<And>v w u x y. f v w = Inr u \<Longrightarrow> av_sat (val_word \<rho>) v \<Longrightarrow> av_sat (val_word \<rho>) w \<Longrightarrow>
      uint x = av_den (val_word \<rho>) v \<Longrightarrow> uint y = av_den (val_word \<rho>) w \<Longrightarrow>
      \<exists>z. g x y = Some z \<and> av_sat (val_word \<rho>) u \<and> uint z = av_den (val_word \<rho>) u"
  shows "lb_post (eval_arith f values x y)
    (\<lambda>v. \<exists>c. machine_word2 (\<lambda>a b. map_option CWord (g a b)) (nth_option cs x) (nth_option cs y) = Some c
        \<and> lv_rep \<rho> v c)"
  unfolding eval_arith_def
proof (rule lb_post_lift, goal_cases)
  case (1 u)
  then obtain l r w where l: "get_word values x = Inr l" and r: "get_word values y = Inr r"
    and w: "f l r = Inr w" "u = VWord w" by auto
  obtain p where p: "nth_option cs x = Some (CWord p)" "av_sat (val_word \<rho>) l" "uint p = av_den (val_word \<rho>) l"
    using get_word_rep [OF l assms(1)] by blast
  obtain q where q: "nth_option cs y = Some (CWord q)" "av_sat (val_word \<rho>) r" "uint q = av_den (val_word \<rho>) r"
    using get_word_rep [OF r assms(1)] by blast
  show ?case
    using assms(2) [OF w(1) p(2) q(2) p(3) q(3)] p q w(2) by auto
qed

lemma eval_junction_sound:
  assumes "list_all2 (tv_rep \<rho>) values cs"
  shows "lb_post (eval_junction mode values x y is_or)
    (\<lambda>v. \<exists>c. machine_bool2 (junction is_or) (nth_option cs x) (nth_option cs y) = Some c \<and> lv_rep \<rho> v c)"
  unfolding eval_junction_def
proof (intro lb_post_lift_bind)
  fix v w
  assume "get_boolean values x = Inr v" "get_boolean values y = Inr w"
  then obtain p q where "nth_option cs x = Some (CBool p)" "nth_option cs y = Some (CBool q)"
    and "lv_bool \<rho> v p" "lv_bool \<rho> w q"
    using get_boolean_rep assms by blast
  then show "lb_post (mode_bool_combine mode v w is_or)
      (\<lambda>v. \<exists>c. machine_bool2 (junction is_or) (nth_option cs x) (nth_option cs y) = Some c \<and> lv_rep \<rho> v c)"
    using mode_bool_combine_sound [of \<rho> v p w q mode is_or] by (auto elim: lb_post_mono)
qed

lemma junction_bool: "junction False = (\<and>)" "junction True = (\<or>)"
  by (auto simp: junction_def fun_eq_iff)

lemma eval_kind_sound:
  assumes ins: "inputs_represented \<rho> ps es observe resource mi"
    and vs: "list_all2 (tv_rep \<rho>) values cs"
    and leaf: "\<And>v. bt_get leaves index = Some v \<Longrightarrow> leaf_resolved observe resource k v"
  shows "lb_post (eval_kind mode ps es leaves values index k)
    (\<lambda>v. \<exists>c. machine_node mi cs k = Some c \<and> lv_rep \<rho> v c)"
proof (cases k)
  case (NBinder b)
  then show ?thesis using ins by (cases b)
      (auto simp: inputs_represented_def intro!: lb_post_lift dest: get_binder_rep)
next
  case (NAdd x y)
  then show ?thesis using eval_arith_sound [OF vs checked_add_rep, where x = x and y = y] by simp
next
  case (NSub x y)
  then show ?thesis using eval_arith_sound [OF vs checked_sub_rep, where x = x and y = y] by simp
next
  case (NScale x f)
  show ?thesis unfolding NScale eval_kind.simps
  proof (rule lb_post_lift, goal_cases)
    case (1 u)
    then obtain w s where w: "get_word values x = Inr w" "av_scale w f = Inr s" "u = VWord s" by auto
    then show ?case
      using get_word_rep [OF w(1) vs] checked_mul_rep [OF w(2)] by fastforce
  qed
next
  case (NEqual x y)
  show ?thesis unfolding NEqual eval_kind.simps
  proof (intro lb_post_lift_bind)
    fix v w
    assume "get_value values x = Inr v" "get_value values y = Inr w"
    then obtain c d where "nth_option cs x = Some c" "tv_rep \<rho> v c" "nth_option cs y = Some d" "tv_rep \<rho> w d"
      using get_value_rep vs by blast
    then show "lb_post (eval_equal mode v w) (\<lambda>v. \<exists>c. machine_node mi cs (NEqual x y) = Some c \<and> lv_rep \<rho> v c)"
      using eval_equal_sound [of \<rho> v c w d mode] by simp
  qed
next
  case (NLess x y)
  show ?thesis unfolding NLess eval_kind.simps
    by (rule lb_post_mono [OF eval_compare_sound [OF vs]]) (auto simp: not_le)
next
  case (NLessEqual x y)
  show ?thesis unfolding NLessEqual eval_kind.simps
    by (rule lb_post_mono [OF eval_compare_sound [OF vs]]) auto
next
  case (NNot x)
  show ?thesis unfolding NNot eval_kind.simps
    by (rule lb_post_lift) (auto dest!: get_boolean_rep [OF _ vs] simp: bool_not_sound lv_bool_is_boolean)
next
  case (NAnd x y)
  then show ?thesis using eval_junction_sound [OF vs, of mode x y False] by (simp add: junction_bool)
next
  case (NOr x y)
  then show ?thesis using eval_junction_sound [OF vs, of mode x y True] by (simp add: junction_bool)
next
  case (NObserve r i a t)
  then show ?thesis using ins leaf
    by (auto simp: inputs_represented_def leaf_resolved_def intro!: lb_post_lift)
next
  case (NResource r p)
  then show ?thesis using ins leaf
    by (auto simp: inputs_represented_def leaf_resolved_def intro!: lb_post_lift)
qed (auto intro!: lb_post_return)

section \<open>The whole expression\<close>

definition is_leaf :: "'t logic_node_kind \<Rightarrow> bool" where
  "is_leaf k = (case k of NObserve r i a t \<Rightarrow> True | NResource r p \<Rightarrow> True | _ \<Rightarrow> False)"

lemma resolve_leaf_Inr:
  assumes "resolve_leaf observe resource (i, n) leaves = Inr leaves'"
  shows "leaves' = leaves \<and> \<not> is_leaf (node_kind n) \<or>
    (\<exists>v. leaves' = bt_insert i v leaves \<and> leaf_resolved observe resource (node_kind n) v \<and>
         tv_ty v = node_ty n)"
  using assms
  by (cases "node_kind n") (auto simp: resolve_leaf_def leaf_resolved_def is_leaf_def Let_def split: if_splits)

lemma resolve_leaves_Inr:
  assumes "resolve_leaves observe resource ns = Inr leaves"
  shows "bt_get leaves i = Some v \<Longrightarrow> i < length ns \<and>
      leaf_resolved observe resource (node_kind (ns ! i)) v \<and> tv_ty v = node_ty (ns ! i)"
    and "i < length ns \<Longrightarrow> is_leaf (node_kind (ns ! i)) \<Longrightarrow> \<exists>v. bt_get leaves i = Some v"
proof -
  let ?I = "\<lambda>ys leaves. bt_sorted leaves \<and>
    (\<forall>i v. bt_get leaves i = Some v \<longrightarrow> i < length ys \<and>
       leaf_resolved observe resource (node_kind (ns ! i)) v \<and> tv_ty v = node_ty (ns ! i)) \<and>
    (\<forall>i < length ys. is_leaf (node_kind (ns ! i)) \<longrightarrow> bt_get leaves i \<noteq> None)"
  have "?I (List.enumerate 0 ns) leaves"
  proof (rule res_fold_prefix [where I = ?I, OF assms [unfolded resolve_leaves_def]])
    fix ys x zs s s'
    assume e: "List.enumerate 0 ns = ys @ x # zs" and I: "?I ys s"
      and r: "resolve_leaf observe resource x s = Inr s'"
    obtain i n where x: "x = (i, n)" by force
    note split = enumerate_split [OF e [unfolded x]]
    from resolve_leaf_Inr [OF r [unfolded x]] I split show "?I (ys @ [x]) s'"
      by (auto simp: bt.get_insert less_Suc_eq split: if_splits)
  qed simp
  then show "bt_get leaves i = Some v \<Longrightarrow> i < length ns \<and>
      leaf_resolved observe resource (node_kind (ns ! i)) v \<and> tv_ty v = node_ty (ns ! i)"
    "i < length ns \<Longrightarrow> is_leaf (node_kind (ns ! i)) \<Longrightarrow> \<exists>v. bt_get leaves i = Some v"
    by auto
qed

lemma eval_node_sound:
  assumes ins: "inputs_represented \<rho> ps es observe resource mi"
    and vs: "list_all2 (tv_rep \<rho>) vals cs"
    and leaf: "\<And>v. bt_get leaves index = Some v \<Longrightarrow> leaf_resolved observe resource (node_kind n) v"
  shows "lb_post (eval_node mode ps es leaves (index, n) vals)
    (\<lambda>vals'. \<exists>c v. machine_node mi cs (node_kind n) = Some c \<and> vals' = vals @ [v] \<and> tv_rep \<rho> v c \<and>
       tv_ty v = node_ty n)"
  unfolding eval_node_def prod.case
  by (rule lb_post_bind [OF eval_kind_sound [OF ins vs leaf]])
    (auto intro!: lb_rules settle_sound)

lemma eval_nodes_sound:
  assumes ins: "inputs_represented \<rho> ps es observe resource mi"
    and leaves: "resolve_leaves observe resource ns = Inr leaves"
  shows "lb_post (eval_nodes mode ps es leaves ns)
    (\<lambda>vals. \<exists>cs. machine_run mi ns [] = Some cs \<and> list_all2 (tv_rep \<rho>) vals cs \<and>
       map tv_ty vals = map node_ty ns)"
proof -
  let ?I = "\<lambda>ys vals. \<exists>cs. machine_run mi (map snd ys) [] = Some cs \<and>
    list_all2 (tv_rep \<rho>) vals cs \<and> map tv_ty vals = map (node_ty \<circ> snd) ys"
  have "lb_post (eval_nodes mode ps es leaves ns) (?I (List.enumerate 0 ns))"
    unfolding eval_nodes_def
  proof (rule lb_post_fold_prefix)
    fix ys x zs vals
    assume e: "List.enumerate 0 ns = ys @ x # zs" and I: "?I ys vals"
    obtain i n where x: "x = (i, n)" by force
    note split = enumerate_split [OF e [unfolded x]]
    from I obtain cs where cs: "machine_run mi (map snd ys) [] = Some cs" "list_all2 (tv_rep \<rho>) vals cs"
      "map tv_ty vals = map (node_ty \<circ> snd) ys" by blast
    have leaf: "leaf_resolved observe resource (node_kind n) v" if "bt_get leaves i = Some v" for v
      using resolve_leaves_Inr(1) [OF leaves that] split(3) by simp
    show "lb_post (eval_node mode ps es leaves x vals) (?I (ys @ [x]))"
      unfolding x
      by (rule lb_post_mono [OF eval_node_sound [OF ins cs(2) leaf]])
        (use cs in \<open>auto simp: machine_run_snoc intro!: list_all2_appendI\<close>)
  qed simp
  then show ?thesis by (simp add: map_snd_enumerate flip: map_map)
qed

lemma evaluate_with_mode_rep:
  assumes "inputs_represented \<rho> ps es observe resource mi"
    and "evaluate_with_mode ps es observe resource mode e b = (Inr v, b')"
  shows "\<exists>c. machine_eval mi e = Some c \<and> lv_rep \<rho> (tv_value v) c \<and>
    tv_ty v = node_ty (nodes e ! root e)"
proof -
  from assms(2) obtain leaves vals b1 b2 where
    shape: "nodes e \<noteq> []" "root e + 1 = length (nodes e)" and
    leaves: "resolve_leaves observe resource (nodes e) = Inr leaves" and
    run: "eval_nodes mode ps es leaves (nodes e) b1 = (Inr vals, b2)" and
    v: "vals \<noteq> []" "v = last vals"
    by (auto simp: evaluate_with_mode_def lb_bind_Inr lb_simps split: if_splits)
  obtain cs where cs: "machine_run mi (nodes e) [] = Some cs" "list_all2 (tv_rep \<rho>) vals cs"
    "map tv_ty vals = map node_ty (nodes e)"
    using lb_postD [OF eval_nodes_sound [OF assms(1) leaves] run] by blast
  have len: "length vals = length (nodes e)" "length cs = length (nodes e)"
    using cs list_all2_lengthD map_eq_imp_length_eq by fastforce+
  have last: "last vals = vals ! root e"
    using v(1) len shape(2) by (simp add: last_conv_nth flip: shape(2))
  have "tv_rep \<rho> (vals ! root e) (cs ! root e)"
    using cs(2) len shape(2) by (auto intro: list_all2_nthD)
  moreover have "tv_ty (vals ! root e) = node_ty (nodes e ! root e)"
    using cs(3) len shape(2) by (metis less_add_one nth_map)
  ultimately show ?thesis using cs(1) len shape(2) last v(2)
    by (simp add: machine_eval_def nth_option_def)
qed

text \<open>C1: Soundness of the evaluator in both modes. If the inputs stand for machine values, a
  successful evaluation means the expression runs on machine words without overflow, and the
  returned value stands for the result and has the root's type.\<close>

theorem evaluate_with_mode_sound:
  assumes "inputs_represented \<rho> ps es observe resource mi"
    and "evaluate_with_mode ps es observe resource mode e b = (Inr v, b')"
  shows "\<exists>c. machine_eval mi e = Some c \<and> lv_rep \<rho> (tv_value v) c \<and>
    tv_ty v = node_ty (nodes e ! root e)"
  using assms by (rule evaluate_with_mode_rep)

text \<open>A truth value returned by \<open>evaluate\<close> is the truth value: every machine run whose
  inputs the abstract inputs stand for computes it.\<close>

theorem evaluate_decides:
  assumes "inputs_represented \<rho> ps es observe resource mi"
    and "evaluate ps es observe resource e b = (Inr v, b')"
    and "tv_value v = VBool (Some t)"
  shows "machine_eval mi e = Some (CBool t)"
  using evaluate_with_mode_rep [OF assms(1) assms(2) [unfolded evaluate_def]] assms(3)
  by (auto simp: lv_rep_boolean)

section \<open>A sample\<close>

text \<open>The query \<open>x + 5 \<le> 20\<close> for a word \<open>x\<close> between 3 and 10.\<close>

definition sample_parameters :: "(unit, nat, unit) typed_logic_value list" where
  "sample_parameters = [\<lparr>tv_ty = TU64, tv_value =
     VWord \<lparr>av_lower = 3, av_upper = 10, av_constant = 0, av_terms = [(0, 1)]\<rparr>\<rparr>]"

definition sample_expression :: "unit logic_expression" where
  "sample_expression =
     \<lparr>nodes = [\<lparr>node_ty = TU64, node_kind = NBinder (Parameter 0)\<rparr>,
               \<lparr>node_ty = TU64, node_kind = NWord 5\<rparr>,
               \<lparr>node_ty = TU64, node_kind = NAdd 0 1\<rparr>,
               \<lparr>node_ty = TU64, node_kind = NWord 20\<rparr>,
               \<lparr>node_ty = TBool, node_kind = NLessEqual 2 3\<rparr>], root = 4\<rparr>"

definition no_observe :: "(unit, nat, unit) observe" where
  "no_observe r i a t = Inl InvalidNode"

definition no_resource :: "(unit, nat, unit) resolve_resource" where
  "no_resource r p = Inl InvalidNode"

definition sample_valuation :: "(nat, unit) valuation" where
  "sample_valuation = \<lparr>val_word = \<lambda>_. 7, val_bool = \<lambda>_. False, val_resource = \<lambda>_. ()\<rparr>"

definition sample_machine :: "(unit, unit) machine_inputs" where
  "sample_machine = \<lparr>mi_parameters = [CWord 7], mi_existentials = [],
     mi_observe = \<lambda>r i a t. CBool False, mi_resource = \<lambda>r p. CBool False\<rparr>"

lemma sample_represented:
  "inputs_represented sample_valuation sample_parameters [] no_observe no_resource sample_machine"
  by (simp add: inputs_represented_def sample_parameters_def sample_machine_def sample_valuation_def
      no_observe_def no_resource_def av_sat_def av_den_def)

lemma sample_evaluation:
  "evaluate sample_parameters [] no_observe no_resource sample_expression default_budget =
     (Inr \<lparr>tv_ty = TBool, tv_value = VBool (Some True)\<rparr>, \<lparr>remaining = 4090\<rparr>)"
  by code_simp

theorem evaluate_decides_witness: "machine_eval sample_machine sample_expression = Some (CBool True)"
  by (rule evaluate_decides [OF sample_represented sample_evaluation]) simp

lemma sample_capture:
  "evaluate_with_mode sample_parameters [] no_observe no_resource CaptureMode sample_expression default_budget =
     (Inr \<lparr>tv_ty = TBool, tv_value =
        VBoolComparison WtU64 WLessEqual
          \<lparr>av_lower = 8, av_upper = 15, av_constant = 5, av_terms = [(0, 1)]\<rparr>
          \<lparr>av_lower = 20, av_upper = 20, av_constant = 20, av_terms = []\<rparr> False\<rparr>, \<lparr>remaining = 4090\<rparr>)"
  by code_simp

theorem evaluate_with_mode_sound_witness:
  "\<exists>c. machine_eval sample_machine sample_expression = Some c \<and>
     lv_rep sample_valuation (VBoolComparison WtU64 WLessEqual
          \<lparr>av_lower = 8, av_upper = 15, av_constant = 5, av_terms = [(0, 1)]\<rparr>
          \<lparr>av_lower = 20, av_upper = 20, av_constant = 20, av_terms = []\<rparr> False) c"
  using evaluate_with_mode_sound [OF sample_represented sample_capture] by auto

end
