(* ===== verification/Evaluation_Safe.thy ===== *)
theory Evaluation_Safe
  imports Evaluation_Sound
begin

text \<open>
  Well-typed expressions do not go wrong: once leaf resolution and validation have succeeded, the
  node loop of the evaluator reports neither a type mismatch nor an invalid node nor an unbound
  binder; it can only run out of budget, leave the machine-word range or, in capture mode, refuse
  to capture an anonymous unknown.
\<close>

section \<open>Typed values\<close>

definition value_ok :: "('t, 'a, 'r) typed_logic_value \<Rightarrow> bool" where
  "value_ok v = (value_matches (tv_ty v) (tv_value v) \<and> capture_typed (tv_value v))"

definition loop_error :: "evaluation_mode \<Rightarrow> logic_error \<Rightarrow> bool" where
  "loop_error mode e = (e = Budget \<or> e = Overflow \<or> e = Unbound \<and> mode = CaptureMode)"

lemma loop_error_simps [simp]:
  "loop_error mode Budget" "loop_error mode Overflow" "loop_error CaptureMode Unbound"
  "loop_error mode TypeMismatch = False" "loop_error mode InvalidNode = False"
  by (simp_all add: loop_error_def)

lemma value_matches_bool [simp]: "value_matches TBool v = is_boolean v"
  by (cases v) auto

lemma value_matches_word: "is_word_type ty \<Longrightarrow> value_matches ty v \<Longrightarrow> \<exists>w. v = VWord w"
  by (cases v) (auto simp: is_word_type_def)

lemma value_matches_word_intro [simp]: "is_word_type ty \<Longrightarrow> value_matches ty (VWord w)"
  by (auto simp: is_word_type_def)

lemma word_type_total: "is_word_type ty \<Longrightarrow> \<exists>t. word_type_from_logic_type ty = Inr t"
  by (auto simp: is_word_type_def)

lemma value_matches_resource:
  "value_matches (TResource t) v \<Longrightarrow> (\<exists>r. v = VResource r) \<or> (\<exists>a. v = VResourceAtom a)"
  by (cases v) auto

lemma capture_typed_not [simp]: "capture_typed (bool_not v) = capture_typed v"
  by (cases v) auto

lemma settle_ok:
  "value_matches ty v \<and> capture_typed v \<Longrightarrow> value_matches ty (settle mode v) \<and> capture_typed (settle mode v)"
  by (cases v; cases ty) (auto simp: settle_def split: option.split)

section \<open>Errors of the operations\<close>

lemma capture_walk_errors:
  "\<forall>(v, d) \<in> set pending. capture_typed v \<Longrightarrow>
    lb_spec (capture_walk pending leaves count) (\<lambda>_. True) (\<lambda>e. e = Budget)"
proof (induction pending leaves count rule: capture_walk.induct)
  case (2 v depth pending leaves count)
  have body: "lb_spec (case v of
      VBoolBinary op l r n \<Rightarrow>
        if \<not> is_boolean l \<or> \<not> is_boolean r then lb_throw TypeMismatch
        else capture_walk ((l, depth + 1) # (r, depth + 1) # pending) leaves (count + 1)
    | _ \<Rightarrow> capture_walk pending (leaves @ [v]) (count + 1)) (\<lambda>_. True) (\<lambda>e. e = Budget)"
    if "\<not> (count + 1 > MAX_EXPRESSION_NODES \<or> depth \<ge> MAX_EXPRESSION_DEPTH)"
    using 2 that by (cases v) (simp_all del: capture_walk.simps)
  show ?case
    unfolding capture_walk.simps(2) [of v depth pending leaves count]
    by (intro lb_spec_then lb_spec_charge lb_spec_if lb_spec_throw body) simp_all
qed (auto intro: lb_rules)

lemma capture_leaves_errors:
  "capture_typed v \<Longrightarrow> lb_spec (capture_leaves v) (\<lambda>_. True) (\<lambda>e. e = Budget)"
  unfolding capture_leaves_def by (rule capture_walk_errors) simp

lemma boolean_binary_errors:
  assumes "is_boolean l" "is_boolean r" "capture_typed l" "capture_typed r"
  shows "lb_spec (boolean_binary op l r n) (\<lambda>v. is_boolean v \<and> capture_typed v)
    (\<lambda>e. e = Unbound \<or> e = Budget)"
proof -
  have "lb_spec (capture_leaves (VBoolBinary op l r n)) (\<lambda>_. True) (\<lambda>e. e = Unbound \<or> e = Budget)"
    by (rule lb_spec_weaken [OF capture_leaves_errors]) (use assms in auto)
  then show ?thesis
    unfolding boolean_binary_def using assms
    by (auto intro!: lb_spec_bind lb_rules)
qed

lemma mode_boolean_binary_errors:
  assumes "is_boolean l" "is_boolean r" "capture_typed l" "capture_typed r"
  shows "lb_spec (mode_boolean_binary mode op l r) (\<lambda>v. is_boolean v \<and> capture_typed v) (loop_error mode)"
proof (cases mode)
  case ValueMode
  then show ?thesis unfolding mode_boolean_binary_def
    by simp (rule lb_spec_catch; (rule lb_spec_weaken [OF boolean_binary_errors [OF assms]]; auto)?;
      auto intro: lb_rules)
next
  case CaptureMode
  then show ?thesis unfolding mode_boolean_binary_def
    by simp (rule lb_spec_weaken [OF boolean_binary_errors [OF assms]]; auto)
qed

lemma capture_binary_errors:
  assumes "is_boolean l" "is_boolean r" "capture_typed l" "capture_typed r"
  shows "lb_spec (boolean_binary op l r n) (\<lambda>v. is_boolean v \<and> capture_typed v) (loop_error CaptureMode)"
  by (rule lb_spec_weaken [OF boolean_binary_errors [OF assms]]) auto

lemma mode_bool_equality_errors:
  assumes "is_boolean l" "is_boolean r" "capture_typed l" "capture_typed r"
  shows "lb_spec (mode_bool_equality mode l r) (\<lambda>v. is_boolean v \<and> capture_typed v) (loop_error mode)"
proof (cases mode)
  case ValueMode
  then show ?thesis using mode_boolean_binary_errors [OF assms, of mode OpEqual]
    by (auto simp: mode_bool_equality_def split: option.split intro!: lb_rules)
next
  case CaptureMode
  then show ?thesis using capture_binary_errors [OF assms, of OpEqual False] assms
    by (auto simp: mode_bool_equality_def split: option.split logic_value.split intro!: lb_rules)
qed

lemma bool_combine_ok:
  assumes "is_boolean l" "is_boolean r" "capture_typed l" "capture_typed r"
  shows "is_boolean (bool_combine l r is_or) \<and> capture_typed (bool_combine l r is_or)"
  using assms by (auto simp: bool_combine_def split: option.split bool.split)

lemma mode_bool_combine_errors:
  assumes "is_boolean l" "is_boolean r" "capture_typed l" "capture_typed r"
  shows "lb_spec (mode_bool_combine mode l r is_or) (\<lambda>v. is_boolean v \<and> capture_typed v) (loop_error mode)"
proof (cases mode)
  case ValueMode
  then show ?thesis
    using mode_boolean_binary_errors [OF assms, of mode "junction_op is_or"] bool_combine_ok [OF assms, of is_or]
    by (auto simp: mode_bool_combine_def Let_def intro!: lb_rules)
next
  case CaptureMode
  then show ?thesis
    using capture_binary_errors [OF assms, of "junction_op is_or" False] assms
    by (auto simp: mode_bool_combine_def split: option.split bool.split intro!: lb_rules)
qed

lemma av_combine_errors: "av_combine v w s = Inl e \<Longrightarrow> e = Budget \<or> e = Overflow"
proof -
  have terms: "combine_terms s t u = Inl e \<Longrightarrow> e = Overflow" for t u :: "('a, i128) btmap"
    unfolding combine_terms_def
    by (induction u arbitrary: t) (auto simp: res_bind_def ok_or_def split: sum.splits option.splits)
  assume "av_combine v w s = Inl e"
  then show ?thesis
    by (auto simp: av_combine_def Let_def res_bind_def ok_or_def dest!: terms
        split: sum.splits option.splits if_splits)
qed

lemma av_scale_errors: "av_scale v k = Inl e \<Longrightarrow> e = Overflow"
proof -
  have terms: "scale_terms k t = Inl e \<Longrightarrow> e = Overflow" for k and t :: "('a, i128) btmap"
    unfolding scale_terms_def
    by (induction t) (auto simp: res_bind_def ok_or_def split: sum.splits option.splits)
  assume "av_scale v k = Inl e"
  then show ?thesis
    by (auto simp: av_scale_def res_bind_def ok_or_def dest!: terms
        split: sum.splits option.splits if_splits)
qed

section \<open>One node\<close>

lemma get_value_ok:
  assumes "map tv_ty vals = map node_ty (take i ns)" and "\<forall>v \<in> set vals. value_ok v"
    and "x < i" and "i \<le> length ns"
  shows "\<exists>v. get_value vals x = Inr v \<and> tv_ty v = node_ty (ns ! x) \<and> value_ok v"
proof -
  have "length vals = i" using assms(1,4) map_eq_imp_length_eq by fastforce
  moreover have "tv_ty (vals ! x) = node_ty (ns ! x)"
    using arg_cong [OF assms(1), of "\<lambda>l. l ! x"] assms(3,4) calculation by simp
  ultimately show ?thesis using assms(2,3) by (simp add: get_value_def)
qed

lemma get_word_ok:
  assumes "get_value vals x = Inr v" and "value_ok v" and "is_word_type (tv_ty v)"
  shows "\<exists>w. get_word vals x = Inr w" and "\<exists>t. get_word_type vals x = Inr t"
  using assms value_matches_word [of "tv_ty v" "tv_value v"] word_type_total
  by (auto simp: value_ok_def get_word_def get_word_type_def)

lemma get_boolean_ok:
  assumes "get_value vals x = Inr v" and "value_ok v" and "tv_ty v = TBool"
  shows "get_boolean vals x = Inr (tv_value v) \<and> is_boolean (tv_value v) \<and> capture_typed (tv_value v)"
  using assms by (simp add: get_boolean_def value_ok_def)

lemma mode_word_comparison_ok [simp]:
  "is_boolean (mode_word_comparison mode t c l r n)" "capture_typed (mode_word_comparison mode t c l r n)"
  by (simp_all add: mode_word_comparison_def word_comparison_value_def split: option.split)

lemma eval_equal_errors:
  assumes "value_ok v" "value_ok w" "tv_ty v = tv_ty w"
  shows "lb_spec (eval_equal mode v w) (\<lambda>u. is_boolean u \<and> capture_typed u) (loop_error mode)"
proof (cases "tv_ty v")
  case TBool
  then have "is_boolean (tv_value v)" "is_boolean (tv_value w)"
    "capture_typed (tv_value v)" "capture_typed (tv_value w)"
    using assms by (auto simp: value_ok_def)
  note e = mode_bool_equality_errors [OF this, of mode]
  moreover have "eval_equal mode v w = mode_bool_equality mode (tv_value v) (tv_value w)"
    using \<open>is_boolean (tv_value v)\<close> \<open>is_boolean (tv_value w)\<close>
    by (auto simp: eval_equal_def split: logic_value.split)
  ultimately show ?thesis by simp
next
  case (TResource t)
  then have "value_matches (TResource t) (tv_value v)" "value_matches (TResource t) (tv_value w)"
    using assms by (auto simp: value_ok_def)
  from this [THEN value_matches_resource] show ?thesis
    by (auto simp: eval_equal_def intro!: lb_rules)
next
  case TU64
  then obtain l r where "tv_value v = VWord l" "tv_value w = VWord r"
    using assms value_matches_word [of TU64 "tv_value v"] value_matches_word [of TU64 "tv_value w"]
    by (auto simp: value_ok_def is_word_type_def)
  then show ?thesis using TU64 by (auto simp: eval_equal_def intro!: lb_rules lb_spec_lift_bind)
next
  case TUsize
  then obtain l r where "tv_value v = VWord l" "tv_value w = VWord r"
    using assms value_matches_word [of TUsize "tv_value v"] value_matches_word [of TUsize "tv_value w"]
    by (auto simp: value_ok_def is_word_type_def)
  then show ?thesis using TUsize by (auto simp: eval_equal_def intro!: lb_rules lb_spec_lift_bind)
qed

lemma eval_compare_errors:
  assumes "get_word_type vals a = Inr t" "get_word vals x = Inr l" "get_word vals y = Inr r"
  shows "lb_spec (eval_compare mode vals a x y n) (\<lambda>u. is_boolean u \<and> capture_typed u) (loop_error mode)"
  using assms by (auto simp: eval_compare_def intro!: lb_rules lb_spec_lift_bind)

lemma eval_arith_errors:
  assumes "get_word vals x = Inr l" "get_word vals y = Inr r" "is_word_type ty"
    and "\<And>e. f l r = Inl e \<Longrightarrow> e = Budget \<or> e = Overflow"
  shows "lb_spec (eval_arith f vals x y) (\<lambda>u. value_matches ty u \<and> capture_typed u) (loop_error mode)"
  using assms by (cases "f l r") (auto simp: eval_arith_def intro!: lb_rules)

lemma eval_junction_errors:
  assumes "get_boolean vals x = Inr l \<and> is_boolean l \<and> capture_typed l"
    "get_boolean vals y = Inr r \<and> is_boolean r \<and> capture_typed r"
  shows "lb_spec (eval_junction mode vals x y is_or) (\<lambda>u. is_boolean u \<and> capture_typed u) (loop_error mode)"
  using assms mode_bool_combine_errors [of l r mode is_or]
  by (auto simp: eval_junction_def intro!: lb_spec_lift_bind)

definition inputs_typed ::
  "('t, 'a, 'r) typed_logic_value list \<Rightarrow> ('t, 'a, 'r) typed_logic_value list \<Rightarrow>
   ('t, 'a, 'r) observe \<Rightarrow> ('t, 'a, 'r) resolve_resource \<Rightarrow> bool" where
  "inputs_typed ps es observe resource =
     ((\<forall>v \<in> set ps \<union> set es. value_ok v) \<and>
      (\<forall>r i a t v. observe r i a t = Inr v \<longrightarrow> value_ok v) \<and>
      (\<forall>r p v. resource r p = Inr v \<longrightarrow> value_ok v))"

lemma get_binder_ok:
  assumes "x < length ps" and "\<forall>v \<in> set ps. value_ok v"
  shows "\<exists>u. get_binder ps x = Inr u \<and> value_matches (tv_ty (ps ! x)) u \<and> capture_typed u"
  using assms nth_mem [OF assms(1)] by (simp add: get_binder_def value_ok_def)

lemma binary_type_Inr:
  "binary_type k ty = Inr t \<Longrightarrow>
    (case k of NAdd a b \<Rightarrow> is_word_type ty \<and> t = ty | NSub a b \<Rightarrow> is_word_type ty \<and> t = ty
     | NEqual a b \<Rightarrow> t = TBool | NLess a b \<Rightarrow> is_word_type ty \<and> t = TBool
     | NLessEqual a b \<Rightarrow> is_word_type ty \<and> t = TBool | NAnd a b \<Rightarrow> ty = TBool \<and> t = TBool
     | NOr a b \<Rightarrow> ty = TBool \<and> t = TBool | _ \<Rightarrow> False)"
  by (cases k) (auto split: if_splits)

lemma eval_kind_errors:
  assumes inf: "infer_node (map tv_ty ps) (map tv_ty es) obs rsc ns i ty k = Inr ty"
    and ins: "inputs_typed ps es observe resource"
    and vals: "map tv_ty vals = map node_ty (take i ns)" "\<forall>v \<in> set vals. value_ok v" "i \<le> length ns"
    and leaf: "is_leaf k \<Longrightarrow> \<exists>v. bt_get leaves i = Some v \<and> value_ok v \<and> tv_ty v = ty"
  shows "lb_spec (eval_kind mode ps es leaves vals i k)
    (\<lambda>u. value_matches ty u \<and> capture_typed u) (loop_error mode)"
proof -
  note ok = get_value_ok [OF vals(1,2) _ vals(3)]
  have two: "\<exists>v w. get_value vals x = Inr v \<and> get_value vals y = Inr w \<and> value_ok v \<and> value_ok w \<and>
      tv_ty v = tv_ty w \<and> binary_type k (tv_ty v) = Inr ty"
    if "infer_binary ns i k x y = Inr ty" for x y
  proof -
    note b = infer_binary_Inr [OF that]
    then show ?thesis using ok [of x] ok [of y] by fastforce
  qed
  note words = get_word_ok
  show ?thesis
  proof (cases k)
    case (NBinder b)
    then show ?thesis using inf ins
      by (cases b) (auto simp: inputs_typed_def intro!: lb_spec_lift dest!: get_binder_ok split: if_splits)
  next
    case (NAdd x y)
    with inf two [of x y] obtain v w where "get_value vals x = Inr v" "get_value vals y = Inr w"
      "value_ok v" "value_ok w" "tv_ty v = tv_ty w" "is_word_type (tv_ty v)" "ty = tv_ty v"
      by (auto split: if_splits)
    then show ?thesis using words [of vals x v] words [of vals y w]
      by (auto simp: NAdd av_add_def intro!: eval_arith_errors dest: av_combine_errors)
  next
    case (NSub x y)
    with inf two [of x y] obtain v w where "get_value vals x = Inr v" "get_value vals y = Inr w"
      "value_ok v" "value_ok w" "tv_ty v = tv_ty w" "is_word_type (tv_ty v)" "ty = tv_ty v"
      by (auto split: if_splits)
    then show ?thesis using words [of vals x v] words [of vals y w]
      by (auto simp: NSub av_sub_def intro!: eval_arith_errors dest: av_combine_errors)
  next
    case (NScale x f)
    then have t: "operand_type ns i x = Inr ty" "is_word_type ty" using inf by (auto split: if_splits)
    then obtain v where v: "get_value vals x = Inr v" "value_ok v" "is_word_type (tv_ty v)" "ty = tv_ty v"
      using ok [of x] operand_type_Inr [OF t(1)] by metis
    obtain w where w: "get_word vals x = Inr w" using words(1) [OF v(1-3)] by blast
    show ?thesis using av_scale_errors [of w f] v(3,4) w
      by (cases "av_scale w f") (auto simp: NScale intro!: lb_spec_lift)
  next
    case (NEqual x y)
    with inf two [of x y] obtain v w where "get_value vals x = Inr v" "get_value vals y = Inr w"
      "value_ok v" "value_ok w" "tv_ty v = tv_ty w" "ty = TBool"
      by auto
    then show ?thesis by (auto simp: NEqual intro!: lb_spec_lift_bind eval_equal_errors)
  next
    case (NLess x y)
    with inf two [of x y] obtain v w where "get_value vals x = Inr v" "get_value vals y = Inr w"
      "value_ok v" "value_ok w" "tv_ty v = tv_ty w" "is_word_type (tv_ty v)" "ty = TBool"
      by (auto split: if_splits)
    then show ?thesis using words [of vals x v] words [of vals y w]
      by (auto simp: NLess intro!: eval_compare_errors)
  next
    case (NLessEqual x y)
    with inf two [of x y] obtain v w where "get_value vals x = Inr v" "get_value vals y = Inr w"
      "value_ok v" "value_ok w" "tv_ty v = tv_ty w" "is_word_type (tv_ty v)" "ty = TBool"
      by (auto split: if_splits)
    then show ?thesis using words [of vals x v] words [of vals y w]
      by (auto simp: NLessEqual intro!: eval_compare_errors)
  next
    case (NNot x)
    with inf obtain v where "get_value vals x = Inr v" "value_ok v" "tv_ty v = TBool" "ty = TBool"
      using ok [of x] by (auto dest!: operand_type_Inr split: if_splits)
    then show ?thesis using get_boolean_ok [of vals x v] by (auto simp: NNot intro!: lb_spec_lift)
  next
    case (NAnd x y)
    with inf two [of x y] obtain v w where "get_value vals x = Inr v" "get_value vals y = Inr w"
      "value_ok v" "value_ok w" "tv_ty v = TBool" "tv_ty w = TBool" "ty = TBool"
      by (auto split: if_splits)
    then show ?thesis using get_boolean_ok by (auto simp: NAnd intro!: eval_junction_errors)
  next
    case (NOr x y)
    with inf two [of x y] obtain v w where "get_value vals x = Inr v" "get_value vals y = Inr w"
      "value_ok v" "value_ok w" "tv_ty v = TBool" "tv_ty w = TBool" "ty = TBool"
      by (auto split: if_splits)
    then show ?thesis using get_boolean_ok by (auto simp: NOr intro!: eval_junction_errors)
  qed (use inf leaf in \<open>auto simp: is_leaf_def value_ok_def intro!: lb_rules split: if_splits\<close>)
qed

section \<open>The whole expression\<close>

lemma eval_nodes_errors:
  fixes ps es :: "('t, 'a::linorder, 'r) typed_logic_value list"
  assumes wt: "wt_expression (map tv_ty ps) (map tv_ty es) obs rsc e"
    and ins: "inputs_typed ps es observe resource"
    and leaves: "resolve_leaves observe resource (nodes e) = Inr leaves"
  shows "lb_spec (eval_nodes mode ps es leaves (nodes e))
    (\<lambda>vals. map tv_ty vals = map node_ty (nodes e) \<and> (\<forall>v \<in> set vals. value_ok v)) (loop_error mode)"
proof -
  let ?ns = "nodes e"
  let ?I = "\<lambda>ys vals. map tv_ty vals = map (node_ty \<circ> snd) ys \<and> (\<forall>v \<in> set vals. value_ok v)"
  have "lb_spec (eval_nodes mode ps es leaves ?ns) (?I (List.enumerate 0 ?ns)) (loop_error mode)"
    unfolding eval_nodes_def
  proof (rule lb_spec_fold_prefix)
    fix ys x zs and vals :: "('t, 'a, 'r) typed_logic_value list"
    assume e: "List.enumerate 0 ?ns = ys @ x # zs" and I: "?I ys vals"
    obtain i n where x: "x = (i, n)" by force
    note split = enumerate_split [OF e [unfolded x]]
    have inf: "infer_node (map tv_ty ps) (map tv_ty es) obs rsc ?ns i (node_ty n) (node_kind n) =
        Inr (node_ty n)"
      using wt split(2,3) by (simp add: wt_expression_def)
    have types: "map tv_ty vals = map node_ty (take i ?ns)"
      using I split(4) by (metis map_map)
    have leaf: "\<exists>v. bt_get leaves i = Some v \<and> value_ok v \<and> tv_ty v = node_ty n"
      if isleaf: "is_leaf (node_kind n)"
    proof -
      obtain v where v: "bt_get leaves i = Some v"
        using resolve_leaves_Inr(2) [OF leaves split(2)] isleaf split(3) by auto
      then show ?thesis using resolve_leaves_Inr(1) [OF leaves v] ins split(3) isleaf
        by (auto simp: leaf_resolved_def is_leaf_def inputs_typed_def split: logic_node_kind.splits)
    qed
    show "lb_spec (eval_node mode ps es leaves x vals) (?I (ys @ [x])) (loop_error mode)"
      unfolding x eval_node_def prod.case
      by (rule lb_spec_bind [OF eval_kind_errors [OF inf ins types]])
        (use I split(2) leaf in \<open>auto simp: value_ok_def settle_ok intro!: lb_rules\<close>)
  qed simp
  then show ?thesis by (simp add: map_snd_enumerate flip: map_map)
qed

text \<open>C10: Type safety of the evaluator. With well-typed inputs and closures, every failure other
  than an exhausted budget, an overflow or (in capture mode only) a refused anonymous unknown comes
  from resolving a leaf, checking an input capture or validating the expression; and a returned
  value is a value of the type of the root node, with the shape that type demands.\<close>

theorem evaluate_with_mode_safe:
  assumes "inputs_typed ps es observe resource"
  shows "case evaluate_with_mode ps es observe resource mode e b of
      (Inr v, b') \<Rightarrow> value_ok v \<and> root e < length (nodes e) \<and> tv_ty v = node_ty (nodes e ! root e)
    | (Inl err, b') \<Rightarrow> loop_error mode err \<or> resolve_leaves observe resource (nodes e) = Inl err \<or>
        (\<exists>leaves b1 b2. resolve_leaves observe resource (nodes e) = Inr leaves \<and>
           validate (map tv_ty ps) (map tv_ty es) (leaf_observation_type (nodes e) leaves)
             (leaf_resource_type (nodes e) leaves) e b1 = (Inl err, b2))"
proof (cases "nodes e = [] \<or> length (nodes e) > MAX_EXPRESSION_NODES \<or> root e + 1 \<noteq> length (nodes e)")
  case True
  then show ?thesis by (simp add: evaluate_with_mode_def lb_simps)
next
  case shape: False
  let ?m = "lb_map (\<lambda>input. capture_leaves (tv_value input)) (ps @ es)"
  have "lb_spec ?m (list_all2 (\<lambda>_ _. True) (ps @ es)) (\<lambda>e. e = Budget)"
    by (rule lb_spec_map) (use assms in \<open>auto simp: inputs_typed_def value_ok_def intro!: capture_leaves_errors\<close>)
  note m = lb_specD(2) [OF this]
  obtain r b0 where r: "?m b = (r, b0)" by force
  show ?thesis
  proof (cases r)
    case (Inl err)
    then show ?thesis using m [of b err b0] r shape by (auto simp: evaluate_with_mode_def lb_bind_def)
  next
    case ls: (Inr ls)
    show ?thesis
    proof (cases "resolve_leaves observe resource (nodes e)")
      case (Inl err)
      then show ?thesis using r ls shape by (simp add: evaluate_with_mode_def lb_bind_def lb_simps)
    next
      case leaves: (Inr leaves)
      let ?v = "validate (map tv_ty ps) (map tv_ty es) (leaf_observation_type (nodes e) leaves)
             (leaf_resource_type (nodes e) leaves) e"
      obtain q b1 where q: "?v b0 = (q, b1)" by force
      show ?thesis
      proof (cases q)
        case (Inl err)
        then show ?thesis using r ls shape leaves q
          by (auto simp: evaluate_with_mode_def lb_bind_def lb_simps)
      next
        case (Inr ty)
        then have wt: "wt_expression (map tv_ty ps) (map tv_ty es) (leaf_observation_type (nodes e) leaves)
             (leaf_resource_type (nodes e) leaves) e" using validate_Inr(1) q by blast
        note spec = lb_specD [OF eval_nodes_errors [OF wt assms leaves, of mode]]
        obtain s b2 where s: "eval_nodes mode ps es leaves (nodes e) b1 = (s, b2)" by force
        have eq: "evaluate_with_mode ps es observe resource mode e b =
            (case s of Inl err \<Rightarrow> (Inl err, b2) | Inr vals \<Rightarrow>
               if vals = [] then (Inl InvalidNode, b2) else (Inr (last vals), b2))"
          using r ls shape leaves q Inr s
          by (simp add: evaluate_with_mode_def lb_bind_def lb_simps split: sum.split)
        have typed: "tv_ty (last vals) = node_ty (nodes e ! root e)" if "vals \<noteq> []" "map tv_ty vals = map node_ty (nodes e)" for vals
        proof -
          have root: "root e = length (nodes e) - 1" "nodes e \<noteq> []" using shape by auto
          have "tv_ty (last vals) = last (map node_ty (nodes e))" using that by (metis last_map)
          then show ?thesis using root by (simp add: last_map last_conv_nth)
        qed
        show ?thesis unfolding eq using spec [of b1 _ b2] s shape typed by (cases s) auto
      qed
    qed
  qed
qed

theorem evaluate_with_mode_safe_witness:
  "inputs_typed sample_parameters [] no_observe no_resource \<and>
   value_ok \<lparr>tv_ty = (TBool :: unit logic_type), tv_value = (VBool (Some True) :: (nat, unit) logic_value)\<rparr>"
proof
  show typed: "inputs_typed sample_parameters [] no_observe no_resource"
    by (simp add: inputs_typed_def sample_parameters_def value_ok_def no_observe_def no_resource_def)
  show "value_ok \<lparr>tv_ty = (TBool :: unit logic_type), tv_value = (VBool (Some True) :: (nat, unit) logic_value)\<rparr>"
    using evaluate_with_mode_safe [OF typed, of ValueMode sample_expression default_budget]
    by (simp add: sample_evaluation [unfolded evaluate_def])
qed

end
