(* ===== verification/Linear_Word.thy ===== *)
theory Linear_Word
  imports Affine_Value
begin

text \<open>
  \<open>LinearWord\<close> of \<open>src/src/predicate_logic/affine.rs\<close> and its submodules \<open>envelope\<close>,
  \<open>preimage\<close> and \<open>projection\<close>. A linear word is an affine form with signed mathematical
  bounds; it asserts nothing about machine arithmetic until \<open>lw_into_word\<close> admits it.
\<close>

section \<open>Mathematical affine expressions\<close>

record 'a linear_word =
  lw_constant :: i128
  lw_terms :: "('a, i128) btmap"
  lw_lower :: i128
  lw_upper :: i128

definition lw_den :: "('a \<Rightarrow> int) \<Rightarrow> 'a linear_word \<Rightarrow> int" where
  "lw_den \<rho> w = lw_constant w + lin_sum \<rho> (lw_terms w)"

definition lw_sat :: "('a \<Rightarrow> int) \<Rightarrow> 'a linear_word \<Rightarrow> bool" where
  "lw_sat \<rho> w = (lw_lower w \<le> lw_den \<rho> w \<and> lw_den \<rho> w \<le> lw_upper w)"

definition lw_from_word :: "'a affine_value \<Rightarrow> 'a linear_word" where
  "lw_from_word word = \<lparr>lw_constant = av_constant word, lw_terms = av_terms word,
     lw_lower = uint (av_lower word), lw_upper = uint (av_upper word)\<rparr>"

definition lw_exact :: "i128 \<Rightarrow> 'a linear_word" where
  "lw_exact value = \<lparr>lw_constant = value, lw_terms = [], lw_lower = value, lw_upper = value\<rparr>"

definition lw_combine ::
  "'a::linorder linear_word \<Rightarrow> 'a linear_word \<Rightarrow> bool \<Rightarrow> 'a linear_word lresult" where
  "lw_combine a b subtract =
     res_bind (combine_terms subtract (lw_terms a) (lw_terms b)) (\<lambda>terms0.
     let terms = bt_retain (\<lambda>n. n \<noteq> 0) terms0 in
     if length terms > MAX_LINEAR_TERMS then Inl Budget
     else res_bind (ok_or Overflow (i128_checked_mul (lw_constant b) (sign_of subtract))) (\<lambda>k.
     res_bind (ok_or Overflow (i128_checked_add (lw_constant a) k)) (\<lambda>constant.
     if terms = [] then Inr (lw_exact constant)
     else
       res_bind (ok_or Overflow
           (if subtract then i128_checked_sub (lw_lower a) (lw_upper b)
            else i128_checked_add (lw_lower a) (lw_lower b))) (\<lambda>lower.
       res_bind (ok_or Overflow
           (if subtract then i128_checked_sub (lw_upper a) (lw_lower b)
            else i128_checked_add (lw_upper a) (lw_upper b))) (\<lambda>upper.
       Inr \<lparr>lw_constant = constant, lw_terms = terms, lw_lower = lower, lw_upper = upper\<rparr>)))))"

definition lw_scale :: "'a linear_word \<Rightarrow> u64 \<Rightarrow> 'a linear_word lresult" where
  "lw_scale a factor =
     (if factor = 0 then Inr (lw_exact 0)
      else
        res_bind (ok_or Overflow (i128_checked_mul (lw_constant a) (uint factor))) (\<lambda>constant.
        res_bind (scale_terms (uint factor) (lw_terms a)) (\<lambda>terms.
        res_bind (ok_or Overflow (i128_checked_mul (lw_lower a) (uint factor))) (\<lambda>lower.
        res_bind (ok_or Overflow (i128_checked_mul (lw_upper a) (uint factor))) (\<lambda>upper.
        Inr \<lparr>lw_constant = constant, lw_terms = terms, lw_lower = lower, lw_upper = upper\<rparr>)))))"

definition lw_into_word :: "'a linear_word \<Rightarrow> 'a affine_value lresult" where
  "lw_into_word w =
     (if lw_lower w > lw_upper w then Inl Unproved
      else
        res_bind (ok_or Overflow (u64_try_from (lw_lower w))) (\<lambda>lower.
        res_bind (ok_or Overflow (u64_try_from (lw_upper w))) (\<lambda>upper.
        Inr \<lparr>av_lower = lower, av_upper = upper, av_constant = lw_constant w,
             av_terms = lw_terms w\<rparr>)))"

lemma lw_exact_simps [simp]: "lw_den \<rho> (lw_exact v) = v" "lw_sat \<rho> (lw_exact v)"
  by (simp_all add: lw_den_def lw_sat_def lw_exact_def)

lemma lw_from_word_simps [simp]:
  "lw_den \<rho> (lw_from_word w) = av_den \<rho> w" "lw_sat \<rho> (lw_from_word w) = av_sat \<rho> w"
  by (simp_all add: lw_den_def lw_sat_def lw_from_word_def av_den_def av_sat_def)

lemma lw_combine_den:
  assumes "lw_combine a b s = Inr c"
  shows "lw_den \<rho> c = lw_den \<rho> a + sign_of s * lw_den \<rho> b"
proof -
  from assms obtain t where
    t: "combine_terms s (lw_terms a) (lw_terms b) = Inr t" and
    c: "lw_constant c = lw_constant a + lw_constant b * sign_of s"
      "lw_terms c = bt_retain (\<lambda>n. n \<noteq> 0) t"
    by (auto simp: lw_combine_def lw_exact_def Let_def split: if_splits dest!: checked_arith)
  have "lin_sum \<rho> (lw_terms c) = lin_sum \<rho> (lw_terms a) + sign_of s * lin_sum \<rho> (lw_terms b)"
    using combine_terms_sum [OF t] c by simp
  then show ?thesis using c by (simp add: lw_den_def algebra_simps)
qed

lemma lw_combine_bounds:
  assumes "lw_combine a b s = Inr c"
  shows "(\<exists>v. c = lw_exact v) \<or>
      (if s then lw_lower c = lw_lower a - lw_upper b \<and> lw_upper c = lw_upper a - lw_lower b
       else lw_lower c = lw_lower a + lw_lower b \<and> lw_upper c = lw_upper a + lw_upper b)"
  using assms by (auto simp: lw_combine_def Let_def split: if_splits dest!: checked_arith)

lemma lw_combine_sat:
  assumes "lw_combine a b s = Inr c" and "lw_sat \<rho> a" and "lw_sat \<rho> b"
  shows "lw_sat \<rho> c"
proof (cases "\<exists>v. c = lw_exact v")
  case False
  have "lw_den \<rho> c = lw_den \<rho> a + sign_of s * lw_den \<rho> b"
    using assms(1) by (rule lw_combine_den)
  then show ?thesis using lw_combine_bounds [OF assms(1)] False assms(2,3)
    by (auto simp: lw_sat_def sign_of_def split: if_splits)
qed auto

lemma lw_scale_den: "lw_scale a k = Inr c \<Longrightarrow> lw_den \<rho> c = uint k * lw_den \<rho> a"
  by (auto simp: lw_scale_def lw_den_def lw_exact_def algebra_simps split: if_splits
      dest!: checked_arith scale_terms_sum [where \<rho> = \<rho>])

lemma lw_scale_sat:
  assumes "lw_scale a k = Inr c" and "lw_sat \<rho> a"
  shows "lw_sat \<rho> c"
proof (cases "k = 0")
  case True
  then show ?thesis using assms by (auto simp: lw_scale_def)
next
  case False
  then have "lw_lower c = lw_lower a * uint k" "lw_upper c = lw_upper a * uint k"
    using assms(1) by (auto simp: lw_scale_def split: if_splits dest!: checked_arith)
  moreover have "lw_den \<rho> c = uint k * lw_den \<rho> a" using assms(1) by (rule lw_scale_den)
  ultimately show ?thesis using assms(2)
    by (auto simp: lw_sat_def mult.commute [of _ "uint k"] intro!: mult_left_mono)
qed

lemma lw_into_word_sound:
  assumes "lw_into_word w = Inr v"
  shows "av_den \<rho> v = lw_den \<rho> w \<and> av_sat \<rho> v = lw_sat \<rho> w"
  using assms
  by (auto simp: lw_into_word_def av_den_def av_sat_def lw_den_def lw_sat_def split: if_splits
      dest!: checked_arith)

interpretation lw: affine_domain lw_den lw_sat lw_combine lw_scale
  by unfold_locales (simp_all add: lw_combine_den lw_combine_sat lw_scale_den lw_scale_sat)

section \<open>Conservative envelopes\<close>

definition envelope_step ::
  "nat \<times> u64 \<times> u64 \<times> u64 \<Rightarrow> u64 \<times> u64 \<Rightarrow> (u64 \<times> u64) lresult" where
  "envelope_step t acc =
     (case t of (index, coefficient, low, high) \<Rightarrow>
       if index \<ge> MAX_LINEAR_TERMS then Inl Budget
       else if low > high then Inl InvalidNode
       else
         res_bind (ok_or Overflow (u64_checked_mul low coefficient)) (\<lambda>p.
         res_bind (ok_or Overflow (u64_checked_add (fst acc) p)) (\<lambda>lower.
         Inr (lower, u64_saturating_add (snd acc) (u64_saturating_mul high coefficient)))))"

definition positive_word_envelope ::
  "u64 \<Rightarrow> (u64 \<times> u64 \<times> u64) list \<Rightarrow> (u64 \<times> u64) lresult" where
  "positive_word_envelope constant terms =
     res_fold envelope_step (List.enumerate 0 terms) (constant, constant)"

lemma envelope_step_Inr:
  "envelope_step (i, c, lo, hi) (l, u) = Inr r \<longleftrightarrow>
    i < MAX_LINEAR_TERMS \<and> lo \<le> hi \<and>
    (\<exists>p l1. u64_checked_mul lo c = Some p \<and> u64_checked_add l p = Some l1 \<and>
      r = (l1, u64_saturating_add u (u64_saturating_mul hi c)))"
  by (auto simp: envelope_step_def)

text \<open>The positive affine sum the envelope and the projection are about.\<close>

definition weighted :: "(u64 \<times> u64 \<times> u64) list \<Rightarrow> u64 list \<Rightarrow> int" where
  "weighted terms xs = sum_list (map (\<lambda>((c, lo, hi), x). uint c * uint x) (zip terms xs))"

definition in_ranges :: "(u64 \<times> u64 \<times> u64) list \<Rightarrow> u64 list \<Rightarrow> bool" where
  "in_ranges terms xs = list_all2 (\<lambda>(c, lo, hi) x. lo \<le> x \<and> x \<le> hi) terms xs"

lemma weighted_simps [simp]:
  "weighted [] xs = 0" "weighted (t # ts) (x # xs) = uint (fst t) * uint x + weighted ts xs"
  by (simp_all add: weighted_def split: prod.splits)

lemma weighted_nonneg: "0 \<le> weighted ts xs"
proof (induction ts arbitrary: xs)
  case (Cons t ts)
  then show ?case by (cases xs) (auto simp: weighted_def split: prod.splits)
qed simp

lemma in_ranges_Cons [simp]:
  "in_ranges ((c, lo, hi) # ts) (x # xs) \<longleftrightarrow> lo \<le> x \<and> x \<le> hi \<and> in_ranges ts xs"
  by (simp add: in_ranges_def)

lemma in_ranges_length: "in_ranges ts xs \<Longrightarrow> length xs = length ts"
  by (simp add: in_ranges_def list_all2_lengthD)

lemma saturating_step_upper:
  assumes "A \<le> uint u" and "A + uint c * uint x \<le> M" and "M < 2 ^ 64" and "x \<le> hi"
  shows "A + uint c * uint x \<le> uint (u64_saturating_add u (u64_saturating_mul hi c))"
proof -
  have "uint c * uint x \<le> uint hi * uint c"
    using assms(4) by (simp add: word_le_def mult.commute mult_left_mono)
  then show ?thesis using assms by (simp add: uint_saturating_add uint_saturating_mul min_def)
qed

lemma envelope_bounds:
  assumes "res_fold envelope_step (List.enumerate n ts) (l, u) = Inr (l', u')"
    and "in_ranges ts xs" and "uint l \<le> A" and "A \<le> uint u"
    and "A + weighted ts xs < 2 ^ 64"
  shows "uint l' \<le> A + weighted ts xs \<and> A + weighted ts xs \<le> uint u'"
  using assms
proof (induction ts arbitrary: n l u xs A)
  case (Cons t ts)
  obtain c lo hi where t: "t = (c, lo, hi)" by (cases t) auto
  obtain x ys where xs: "xs = x # ys" using Cons.prems(2) by (auto simp: in_ranges_def list_all2_Cons1)
  obtain p l1 where p: "u64_checked_mul lo c = Some p" "u64_checked_add l p = Some l1" and
    rest: "res_fold envelope_step (List.enumerate (Suc n) ts)
      (l1, u64_saturating_add u (u64_saturating_mul hi c)) = Inr (l', u')"
    using Cons.prems(1) by (auto simp: t envelope_step_Inr)
  let ?A = "A + uint c * uint x"
  have r: "lo \<le> x" "x \<le> hi" "in_ranges ts ys" using Cons.prems(2) by (simp_all add: t xs)
  have le: "uint lo * uint c \<le> uint c * uint x"
    using r(1) by (simp add: word_le_def mult.commute mult_left_mono)
  have lower: "uint l1 \<le> ?A" using p Cons.prems(3) le by (auto dest!: checked_arith)
  have sum: "?A + weighted ts ys = A + weighted (t # ts) xs" by (simp add: t xs)
  then have fits: "?A + weighted ts ys < 2 ^ 64" using Cons.prems(5) by simp
  have upper: "?A \<le> uint (u64_saturating_add u (u64_saturating_mul hi c))"
    by (rule saturating_step_upper [where M = "?A + weighted ts ys"])
      (use Cons.prems(4) fits r weighted_nonneg [of ts ys] in auto)
  from Cons.IH [OF rest r(3) lower upper fits] show ?case unfolding sum .
qed simp

section \<open>Preimages\<close>

definition positive_affine_preimage :: "u64 \<Rightarrow> u64 \<Rightarrow> u64 \<Rightarrow> u64 \<Rightarrow> (u64 \<times> u64) lb" where
  "positive_affine_preimage scale offset lower upper =
     lb_then (charge 1)
       (if scale = 0 \<or> lower > upper then lb_throw InvalidNode
        else case u64_checked_sub upper offset of
          None \<Rightarrow> lb_throw Unproved
        | Some d \<Rightarrow>
            let high = d div scale;
                low0 = u64_saturating_sub lower offset;
                low = low0 div scale + u64_of_bool (\<not> u64_is_multiple_of low0 scale)
            in if low > high then lb_throw Unproved else lb_return (low, high))"

lemma ceil_le_iff: "0 < (s::int) \<Longrightarrow> a \<le> s * x \<longleftrightarrow> a div s + (if a mod s = 0 then 0 else 1) \<le> x"
proof -
  assume s: "0 < s"
  have a: "a = s * (a div s) + a mod s" by simp
  have m: "0 \<le> a mod s" "a mod s < s" using s by simp_all
  show ?thesis
  proof (cases "a mod s = 0")
    case True
    then have "a = s * (a div s)" using a by simp
    then show ?thesis using s True by (metis add.right_neutral mult_le_cancel_left_pos)
  next
    case False
    then have "a \<le> s * x \<longleftrightarrow> a div s < x"
    proof -
      have "a div s < x" if "a \<le> s * x"
      proof (rule ccontr)
        assume "\<not> a div s < x"
        then have "s * x \<le> s * (a div s)" using s by simp
        then show False using that a m False by linarith
      qed
      moreover have "a \<le> s * x" if "a div s < x"
      proof -
        have "s * (a div s + 1) \<le> s * x" using that s by (intro mult_left_mono) auto
        then show ?thesis using a m by (simp only: distrib_left)
      qed
      ultimately show ?thesis by blast
    qed
    then show ?thesis using False by auto
  qed
qed

lemma floor_ge_iff: "0 < (s::int) \<Longrightarrow> s * x \<le> a \<longleftrightarrow> x \<le> a div s"
proof -
  assume s: "0 < s"
  have a: "a = s * (a div s) + a mod s" "0 \<le> a mod s" "a mod s < s" using s by simp_all
  have "x \<le> a div s" if "s * x \<le> a"
  proof (rule ccontr)
    assume "\<not> x \<le> a div s"
    then have "s * (a div s + 1) \<le> s * x" using s by (intro mult_left_mono) auto
    then have "s * (a div s) + s \<le> s * x" by (simp only: distrib_left)
    then show False using that a by linarith
  qed
  moreover have "s * x \<le> a" if "x \<le> a div s"
    using mult_left_mono [OF that, of s] s a by linarith
  ultimately show ?thesis by blast
qed

lemma uint_ceil_quotient:
  assumes "(s::u64) \<noteq> 0"
  shows "uint (a div s + u64_of_bool (\<not> u64_is_multiple_of a s)) =
    uint a div uint s + (if uint a mod uint s = 0 then 0 else 1)"
proof -
  have m: "(a mod s = 0) = (uint a mod uint s = 0)"
    by (metis uint_0_iff uint_mod)
  have s: "0 < uint s" using assms by (simp add: uint_u64_pos_iff)
  have "uint a div uint s + 1 < 2 ^ 64" if "uint a mod uint s \<noteq> 0"
  proof -
    have "uint s \<noteq> 1" using that by auto
    then have "2 \<le> uint s" using s by simp
    then have "uint a div uint s \<le> uint a div 2"
      by (intro zdiv_mono2) auto
    then show ?thesis using uint_u64_bound [of a] by simp
  qed
  then show ?thesis using assms m
    by (auto simp: u64_is_multiple_of_def u64_of_bool_def uint_div uint_add_u64)
qed

definition solves :: "u64 \<Rightarrow> u64 \<Rightarrow> u64 \<Rightarrow> u64 \<Rightarrow> u64 \<Rightarrow> bool" where
  "solves scale offset lower upper x =
     (uint lower \<le> uint scale * uint x + uint offset \<and>
      uint scale * uint x + uint offset \<le> uint upper)"

lemma preimage_bounds:
  assumes "s \<noteq> 0" and "l \<le> u" and "u64_checked_sub u c = Some d"
  defines "low0 \<equiv> u64_saturating_sub l c"
  shows "solves s c l u x \<longleftrightarrow>
    low0 div s + u64_of_bool (\<not> u64_is_multiple_of low0 s) \<le> x \<and> x \<le> d div s"
proof -
  have s: "0 < uint s" using assms(1) by (simp add: uint_u64_pos_iff)
  have d: "uint d = uint u - uint c" using assms(3) by (auto dest!: checked_arith)
  have low0: "uint low0 = max 0 (uint l - uint c)" by (simp add: low0_def uint_saturating_sub)
  have prod: "0 \<le> uint s * uint x" by simp
  have "low0 div s + u64_of_bool (\<not> u64_is_multiple_of low0 s) \<le> x \<longleftrightarrow> uint low0 \<le> uint s * uint x"
    unfolding word_le_def uint_ceil_quotient [OF assms(1)] using ceil_le_iff [OF s] by simp
  moreover have "x \<le> d div s \<longleftrightarrow> uint s * uint x \<le> uint d"
    unfolding word_le_def uint_div using floor_ge_iff [OF s] by simp
  ultimately show ?thesis using prod unfolding solves_def low0 d by auto
qed

lemma positive_affine_preimage_spec:
  "lb_spec (positive_affine_preimage s c l u)
     (\<lambda>(lo, hi). \<forall>x. solves s c l u x \<longleftrightarrow> lo \<le> x \<and> x \<le> hi)
     (\<lambda>e. e = Budget \<or> (e = InvalidNode \<and> (s = 0 \<or> u < l)) \<or>
          (e = Unproved \<and> (\<forall>x. \<not> solves s c l u x)))"
proof -
  have none: "\<not> solves s c l u x" if "u64_checked_sub u c = None" for x
    using that uint_ge_0 [of "s"] uint_ge_0 [of x]
    by (auto simp: u64_checked_sub_def solves_def word_le_def split: if_splits)
      (meson add_increasing dual_order.trans mult_nonneg_nonneg order_refl uint_ge_0)
  have some: "solves s c l u x \<longleftrightarrow>
      u64_saturating_sub l c div s +
        u64_of_bool (\<not> u64_is_multiple_of (u64_saturating_sub l c) s) \<le> x \<and> x \<le> d div s"
    if "u64_checked_sub u c = Some d" "\<not> (s = 0 \<or> l > u)" for d x
    using that by (intro preimage_bounds) auto
  show ?thesis
    unfolding positive_affine_preimage_def Let_def
    by (auto intro!: lb_rules simp: none some split: option.split)
qed

section \<open>Projections\<close>

definition projection_extremes ::
  "u64 \<times> u64 \<times> u64 \<Rightarrow> u64 \<times> u64 \<Rightarrow> (u64 \<times> u64) lb" where
  "projection_extremes t acc =
     (case t of (coefficient, lo, hi) \<Rightarrow>
       lb_then (charge 1) (lb_lift (
         res_bind (ok_or Overflow (u64_checked_mul lo coefficient)) (\<lambda>p.
         res_bind (ok_or Overflow (u64_checked_add (fst acc) p)) (\<lambda>minimum.
         Inr (minimum, u64_saturating_add (snd acc) (u64_saturating_mul hi coefficient)))))))"

definition projection_other_step :: "nat \<Rightarrow> nat \<times> u64 \<times> u64 \<times> u64 \<Rightarrow> u64 \<Rightarrow> u64 lb" where
  "projection_other_step index t other_max =
     (case t of (other, c, lo, high) \<Rightarrow> lb_then (charge 1) (lb_return
         (if other \<noteq> index then u64_saturating_add other_max (u64_saturating_mul c high)
          else other_max)))"

definition projection_other_max ::
  "nat \<Rightarrow> u64 \<Rightarrow> (u64 \<times> u64 \<times> u64) list \<Rightarrow> u64 lb" where
  "projection_other_max index constant terms =
     lb_fold (projection_other_step index) (List.enumerate 0 terms) constant"

definition projection_operand ::
  "u64 \<Rightarrow> (u64 \<times> u64 \<times> u64) list \<Rightarrow> u64 \<Rightarrow> u64 \<Rightarrow> u64 \<Rightarrow> nat \<times> u64 \<times> u64 \<times> u64 \<Rightarrow> (u64 \<times> u64) lb"
  where
  "projection_operand constant terms lower upper minimum t =
     (case t of (index, coefficient, lo, hi) \<Rightarrow>
       let other_min = minimum - lo * coefficient in
       lb_bind (projection_other_max index constant terms) (\<lambda>other_max.
       lb_bind (positive_affine_preimage coefficient 0 (u64_saturating_sub lower other_max)
           (upper - other_min)) (\<lambda>(low, high).
       if max lo low > min hi high then lb_throw Unproved
       else lb_return (max lo low, min hi high))))"

definition positive_affine_projection ::
  "u64 \<Rightarrow> (u64 \<times> u64 \<times> u64) list \<Rightarrow> u64 \<Rightarrow> u64 \<Rightarrow> (u64 \<times> u64) list lb" where
  "positive_affine_projection constant terms lower upper =
     lb_then (charge 1)
       (if length terms > MAX_LINEAR_TERMS then lb_throw Budget
        else if lower > upper \<or> list_ex (\<lambda>(c, lo, hi). c = 0 \<or> lo > hi) terms
        then lb_throw InvalidNode
        else lb_bind (lb_fold projection_extremes terms (constant, constant))
          (\<lambda>(minimum, maximum).
            if minimum > upper \<or> maximum < lower then lb_throw Unproved
            else lb_map (projection_operand constant terms lower upper minimum)
              (List.enumerate 0 terms)))"

lemma projection_other_step_simp:
  "projection_other_step i (n, c, lo, hi) om = lb_then (charge 1) (lb_return
     (if n \<noteq> i then u64_saturating_add om (u64_saturating_mul c hi) else om))"
  by (simp add: projection_other_step_def)

text \<open>The part of the sum contributed by every operand but one.\<close>

fun weighted_but :: "nat \<Rightarrow> nat \<Rightarrow> (u64 \<times> u64 \<times> u64) list \<Rightarrow> u64 list \<Rightarrow> int" where
  "weighted_but i n (t # ts) (x # xs) =
     (if n \<noteq> i then uint (fst t) * uint x else 0) + weighted_but i (Suc n) ts xs"
| "weighted_but i n ts xs = 0"

definition minsum :: "(u64 \<times> u64 \<times> u64) list \<Rightarrow> int" where
  "minsum ts = sum_list (map (\<lambda>(c, lo, hi). uint lo * uint c) ts)"

lemma minsum_simps [simp]: "minsum [] = 0" "minsum ((c, lo, hi) # ts) = uint lo * uint c + minsum ts"
  by (simp_all add: minsum_def)

lemma weighted_but_nonneg: "0 \<le> weighted_but i n ts xs"
  by (induction i n ts xs rule: weighted_but.induct) auto

lemma weighted_but_skip:
  "length xs = length ts \<Longrightarrow> i < n \<Longrightarrow> weighted_but i n ts xs = weighted ts xs"
proof (induction ts arbitrary: xs n)
  case (Cons t ts)
  then show ?case by (cases xs) auto
qed simp

lemma weighted_but_split:
  "length xs = length ts \<Longrightarrow> k < length ts \<Longrightarrow>
    weighted ts xs = weighted_but (n + k) n ts xs + uint (fst (ts ! k)) * uint (xs ! k)"
proof (induction ts arbitrary: xs n k)
  case (Cons t ts)
  then obtain x ys where xs: "xs = x # ys" by (cases xs) auto
  show ?case
    using Cons.prems Cons.IH [of ys "k - 1" "Suc n"] weighted_but_skip [of ys ts n "Suc n"]
    by (cases k) (auto simp: xs)
qed simp

lemma in_ranges_lower:
  "in_ranges ((c, lo, hi) # ts) (x # xs) \<Longrightarrow> uint lo * uint c \<le> uint c * uint x"
  by (simp add: word_le_def mult.commute mult_left_mono)

lemma minsum_le: "in_ranges ts xs \<Longrightarrow> minsum ts \<le> weighted ts xs"
proof (induction ts arbitrary: xs)
  case (Cons t ts)
  obtain c lo hi where t: "t = (c, lo, hi)" by (cases t) auto
  then obtain x ys where xs: "xs = x # ys"
    using Cons.prems by (auto simp: in_ranges_def list_all2_Cons1)
  then show ?case using Cons.IH [of ys] Cons.prems in_ranges_lower [of c lo hi ts x ys]
    by (simp add: t)
qed simp

lemma minsum_but_le:
  "in_ranges ts xs \<Longrightarrow> k < length ts \<Longrightarrow>
    minsum ts - uint (fst (snd (ts ! k))) * uint (fst (ts ! k)) \<le> weighted_but (n + k) n ts xs"
proof (induction ts arbitrary: xs n k)
  case (Cons t ts)
  obtain c lo hi where t: "t = (c, lo, hi)" by (cases t) auto
  then obtain x ys where xs: "xs = x # ys"
    using Cons.prems by (auto simp: in_ranges_def list_all2_Cons1)
  have r: "in_ranges ts ys" "uint lo * uint c \<le> uint c * uint x"
    using Cons.prems(1) in_ranges_lower [of c lo hi ts x ys] by (simp_all add: t xs)
  show ?case
  proof (cases k)
    case 0
    have "weighted_but n (Suc n) ts ys = weighted ts ys"
      using in_ranges_length [OF r(1)] by (simp add: weighted_but_skip)
    then show ?thesis using minsum_le [OF r(1)] 0 by (simp add: t xs)
  next
    case (Suc j)
    then show ?thesis using Cons.IH [OF r(1), of j "Suc n"] Cons.prems(2) r(2)
      by (simp add: t xs)
  qed
qed simp

lemma projection_extremes_spec:
  assumes "in_ranges ts xs" and "uint mn = A + minsum_acc" and "A' \<le> uint mx"
    and "A + minsum_acc \<le> A'" and "A' + weighted ts xs < 2 ^ 64"
  shows "lb_spec (lb_fold projection_extremes ts (mn, mx))
     (\<lambda>(mn', mx'). uint mn' = A + minsum_acc + minsum ts \<and> A' + weighted ts xs \<le> uint mx')
     (\<lambda>e. e = Budget)"
  using assms
proof (induction ts arbitrary: xs mn mx A' minsum_acc)
  case Nil
  then show ?case by (auto intro!: lb_rules)
next
  case (Cons t ts)
  obtain c lo hi where t: "t = (c, lo, hi)" by (cases t) auto
  then obtain x ys where xs: "xs = x # ys"
    using Cons.prems(1) by (auto simp: in_ranges_def list_all2_Cons1)
  have r: "in_ranges ts ys" "x \<le> hi" and low: "uint lo * uint c \<le> uint c * uint x"
    using Cons.prems(1) in_ranges_lower [of c lo hi ts x ys] by (simp_all add: t xs)
  let ?mx = "u64_saturating_add mx (u64_saturating_mul hi c)"
  have tot: "A' + uint c * uint x + weighted ts ys < 2 ^ 64"
    using Cons.prems(5) by (simp add: t xs)
  have w: "0 \<le> weighted ts ys" by (rule weighted_nonneg)
  have upper: "A' + uint c * uint x \<le> uint ?mx"
    by (rule saturating_step_upper [where M = "A' + uint c * uint x + weighted ts ys"])
      (use Cons.prems(3) tot r w in auto)
  have nn: "0 \<le> uint mn" "0 \<le> uint c * uint x" "0 \<le> uint lo * uint c" by simp_all
  have fits: "uint lo * uint c < 2 ^ 64" "uint mn + uint lo * uint c < 2 ^ 64"
    using Cons.prems(2,4) low tot w nn by linarith+
  then obtain p mn1 where p: "u64_checked_mul lo c = Some p" "u64_checked_add mn p = Some mn1"
    "uint mn1 = uint mn + uint lo * uint c"
    by (auto simp: u64_checked_mul_def u64_checked_add_def uint_mul_u64 uint_add_u64)
  have "lb_spec (lb_fold projection_extremes ts (mn1, ?mx))
     (\<lambda>(mn', mx'). uint mn' = A + (minsum_acc + uint lo * uint c) + minsum ts \<and>
        A' + uint c * uint x + weighted ts ys \<le> uint mx') (\<lambda>e. e = Budget)"
    by (rule Cons.IH [OF r(1)]) (use p Cons.prems(2,4) upper tot low in auto)
  then have rest: "lb_spec (lb_fold projection_extremes ts (mn1, ?mx))
     (\<lambda>(mn', mx'). uint mn' = A + minsum_acc + minsum (t # ts) \<and>
        A' + weighted (t # ts) xs \<le> uint mx') (\<lambda>e. e = Budget)"
    by (rule lb_spec_mono) (auto simp: t xs)
  show ?case
    by (simp, rule lb_spec_bind [where Q = "\<lambda>r. r = (mn1, ?mx)"])
      (use rest in \<open>auto simp: t projection_extremes_def p intro!: lb_rules\<close>)
qed

lemma projection_other_max_spec:
  assumes "in_ranges ts xs" and "A \<le> uint om" and "A + weighted_but i n ts xs < 2 ^ 64"
  shows "lb_spec (lb_fold (projection_other_step i) (List.enumerate n ts) om)
     (\<lambda>om'. A + weighted_but i n ts xs \<le> uint om') (\<lambda>e. e = Budget)"
  using assms
proof (induction ts arbitrary: xs n om A)
  case Nil
  then show ?case by (auto intro!: lb_rules)
next
  case (Cons t ts)
  obtain c lo hi where t: "t = (c, lo, hi)" by (cases t) auto
  then obtain x ys where xs: "xs = x # ys"
    using Cons.prems(1) by (auto simp: in_ranges_def list_all2_Cons1)
  let ?x = "if n \<noteq> i then uint c * uint x else 0"
  let ?om = "if n \<noteq> i then u64_saturating_add om (u64_saturating_mul c hi) else om"
  have mulc: "u64_saturating_mul c hi = u64_saturating_mul hi c"
    by (simp add: u64_saturating_mul_def mult.commute)
  have r: "in_ranges ts ys" "x \<le> hi" and tot: "A + ?x + weighted_but i (Suc n) ts ys < 2 ^ 64"
    using Cons.prems by (auto simp: t xs add.assoc split: if_splits)
  have om: "A + ?x \<le> uint ?om"
    using saturating_step_upper [OF Cons.prems(2), of c x "A + uint c * uint x" hi] tot r
      weighted_but_nonneg [of i "Suc n" ts ys] Cons.prems(2) by (auto simp: mulc)
  show ?case
    by (simp, rule lb_spec_bind [where Q = "\<lambda>r. r = ?om"])
      (use Cons.IH [OF r(1) om tot] in
        \<open>auto simp: t xs add.assoc projection_other_step_simp intro!: lb_rules\<close>)
qed

lemma projection_operand_spec:
  assumes "in_ranges ts xs" and "i < length ts" and "ts ! i = (c, lo, hi)" and "c \<noteq> 0"
    and "uint k + weighted ts xs \<le> uint u" and "uint l \<le> uint k + weighted ts xs"
    and "uint mn = uint k + minsum ts"
  shows "lb_spec (projection_operand k ts l u mn (i, c, lo, hi))
     (\<lambda>(low, high). low \<le> xs ! i \<and> xs ! i \<le> high) (\<lambda>e. e = Budget)"
proof -
  let ?x = "xs ! i" and ?W = "weighted_but i 0 ts xs"
  have x: "lo \<le> ?x" "?x \<le> hi"
    using list_all2_nthD [OF assms(1) [unfolded in_ranges_def] assms(2)] assms(3) by auto
  have split: "weighted ts xs = ?W + uint c * uint ?x"
    using weighted_but_split [of xs ts i 0] in_ranges_length [OF assms(1)] assms(2,3) by simp
  have min: "minsum ts - uint lo * uint c \<le> ?W"
    using minsum_but_le [OF assms(1,2), of 0] assms(3) by simp
  have low: "uint lo * uint c \<le> minsum ts"
    using assms(2,3)
  proof (induction ts arbitrary: i)
    case (Cons t ts)
    have nonneg: "0 \<le> minsum ts" for ts
      by (induction ts) (auto simp: minsum_def)
    show ?case using Cons nonneg [of ts]
      by (cases i) (auto simp: minsum_def add_increasing split: prod.split)
  qed simp
  have nn: "0 \<le> uint c * uint ?x" "0 \<le> uint lo * uint c" "0 \<le> ?W" "0 \<le> uint k"
    by (simp_all add: weighted_but_nonneg)
  have ub: "uint u < 2 ^ 64" by (rule uint_u64_bound)
  have lox: "uint lo * uint c \<le> uint c * uint ?x"
    using x(1) by (simp add: word_le_def mult.commute mult_left_mono)
  have prod: "uint (lo * c) = uint lo * uint c"
    by (rule uint_mul_u64) (use lox split assms(5) nn ub in linarith)
  have om_min: "uint (mn - lo * c) = uint k + minsum ts - uint lo * uint c"
    using uint_sub_u64 [of "lo * c" mn] prod assms(7) low nn by (simp add: word_le_def)
  have up: "uint (u - (mn - lo * c)) = uint u - (uint k + minsum ts - uint lo * uint c)"
    using uint_sub_u64 [of "mn - lo * c" u] om_min min split assms(5) nn by (simp add: word_le_def)
  have other: "lb_spec (projection_other_max i k ts) (\<lambda>om. uint k + ?W \<le> uint om) (\<lambda>e. e = Budget)"
    unfolding projection_other_max_def
    by (rule projection_other_max_spec [OF assms(1) order_refl]) (use split assms(5) nn ub in linarith)
  have solved: "solves c 0 (u64_saturating_sub l om) (u - (mn - lo * c)) ?x"
    if "uint k + ?W \<le> uint om" for om
    using that assms(5,6) split min nn by (simp add: solves_def up uint_saturating_sub)
  have pre: "lb_spec (positive_affine_preimage c 0 (u64_saturating_sub l om) (u - (mn - lo * c)))
      (\<lambda>(low, high). low \<le> ?x \<and> ?x \<le> high) (\<lambda>e. e = Budget)"
    if "uint k + ?W \<le> uint om" for om
  proof -
    have "\<not> u - (mn - lo * c) < u64_saturating_sub l om"
      using solved [OF that] by (simp add: solves_def word_less_def)
    then show ?thesis
      using positive_affine_preimage_spec [of c 0 "u64_saturating_sub l om" "u - (mn - lo * c)"]
        solved [OF that] assms(4)
      unfolding lb_spec_def by (auto split: sum.splits prod.splits)
  qed
  show ?thesis
    unfolding projection_operand_def Let_def
    by (simp, rule lb_spec_bind [OF other], rule lb_spec_bind [OF pre])
      (use x in \<open>auto intro!: lb_rules simp: max_def min_def split: if_splits\<close>)
qed

lemma enumerate_nth: "(i, t) \<in> set (List.enumerate 0 ts) \<Longrightarrow> i < length ts \<and> ts ! i = t"
  by (auto simp: in_set_enumerate_eq)

lemma in_ranges_nonempty:
  assumes "in_ranges ts xs" and "(c, lo, hi) \<in> set ts"
  shows "\<not> hi < lo"
proof -
  obtain i where "i < length ts" "ts ! i = (c, lo, hi)"
    using assms(2) by (auto simp: in_set_conv_nth)
  then show ?thesis
    using list_all2_nthD [OF assms(1) [unfolded in_ranges_def], of i] by auto
qed

text \<open>C29: Projecting a bounded positive affine sum onto its operands loses no solution: when a
  tuple lies in the operand ranges and meets the bounds on the sum, the projection either runs
  out of budget or returns operand intervals that contain every component of the tuple. It is
  never rejected as infeasible, and no product or subtraction wraps.\<close>

theorem positive_affine_projection_complete:
  assumes "in_ranges terms xs" and "\<forall>(c, lo, hi) \<in> set terms. c \<noteq> 0"
    and "uint lower \<le> uint constant + weighted terms xs"
    and "uint constant + weighted terms xs \<le> uint upper"
  shows "case fst (positive_affine_projection constant terms lower upper b) of
      Inl e \<Rightarrow> e = Budget
    | Inr bounds \<Rightarrow> list_all2 (\<lambda>x (low, high). low \<le> x \<and> x \<le> high) xs bounds"
proof -
  have valid: "\<not> list_ex (\<lambda>(c, lo, hi). c = 0 \<or> lo > hi) terms"
    using assms(2) in_ranges_nonempty [OF assms(1)] by (auto simp: list_ex_iff)
  have le: "\<not> lower > upper" using assms(3,4) by (simp add: word_less_def)
  have ub: "uint upper < 2 ^ 64" by (rule uint_u64_bound)
  have extremes: "lb_spec (lb_fold projection_extremes terms (constant, constant))
     (\<lambda>(mn, mx). uint mn = uint constant + minsum terms \<and>
        uint constant + weighted terms xs \<le> uint mx) (\<lambda>e. e = Budget)"
    using projection_extremes_spec [OF assms(1), of "constant" "uint constant" 0 "uint constant" "constant"]
      assms(4) ub by simp
  have operands: "lb_spec (lb_map (projection_operand constant terms lower upper mn)
        (List.enumerate 0 terms))
      (\<lambda>bounds. list_all2 (\<lambda>x (low, high). low \<le> x \<and> x \<le> high) xs bounds) (\<lambda>e. e = Budget)"
    if "uint mn = uint constant + minsum terms" for mn
  proof (rule lb_spec_mono [OF lb_spec_map
        [where R = "\<lambda>(i, t) (low, high). low \<le> xs ! i \<and> xs ! i \<le> high"]])
    fix p
    assume p: "p \<in> set (List.enumerate 0 terms)"
    obtain i c lo hi where pe: "p = (i, c, lo, hi)" by (cases p) auto
    have i: "i < length terms" "terms ! i = (c, lo, hi)" using enumerate_nth [of i "(c, lo, hi)" terms] p
      by (simp_all add: pe)
    then have "c \<noteq> 0" using assms(2) nth_mem [OF i(1)] by auto
    then show "lb_spec (projection_operand constant terms lower upper mn p)
        ((\<lambda>(i, t) (low, high). low \<le> xs ! i \<and> xs ! i \<le> high) p) (\<lambda>e. e = Budget)"
      using projection_operand_spec [OF assms(1) i _ assms(4,3) that] by (simp add: pe)
  next
    fix bounds
    assume "list_all2 (\<lambda>(i, t) (low, high). low \<le> xs ! i \<and> xs ! i \<le> high)
      (List.enumerate 0 terms) bounds"
    then show "list_all2 (\<lambda>x (low, high). low \<le> x \<and> x \<le> high) xs bounds"
      using in_ranges_length [OF assms(1)]
      by (auto simp: list_all2_conv_all_nth nth_enumerate_eq)
  qed
  have "lb_spec (positive_affine_projection constant terms lower upper)
      (\<lambda>bounds. list_all2 (\<lambda>x (low, high). low \<le> x \<and> x \<le> high) xs bounds) (\<lambda>e. e = Budget)"
    unfolding positive_affine_projection_def
    using valid le minsum_le [OF assms(1)] assms(3,4)
    by (auto intro!: lb_rules lb_spec_bind [OF extremes] operands simp: word_less_def)
  then show ?thesis by (simp add: lb_spec_def)
qed

theorem positive_affine_projection_complete_witness:
  "in_ranges [(2, 0, 10), (3, 1, 4)] [1, 2] \<and>
   (case fst (positive_affine_projection 1 [(2, 0, 10), (3, 1, 4)] 5 12 default_budget) of
      Inl e \<Rightarrow> e = Budget
    | Inr bounds \<Rightarrow> list_all2 (\<lambda>x (low, high). low \<le> x \<and> x \<le> high) [1, 2] bounds)"
proof -
  have h: "in_ranges [(2, 0, 10), (3, 1, 4)] [1, 2]" by (simp add: in_ranges_def)
  show ?thesis
    using positive_affine_projection_complete [OF h, of 5 1 12 default_budget] h by simp
qed

text \<open>The preimage of a positive affine map is exact. With a nonzero scale and ordered
  bounds, the computed interval contains precisely the words \<open>x\<close> with
  \<open>lower \<le> scale * x + offset \<le> upper\<close>, and \<open>Unproved\<close> is returned only when there are none.\<close>

theorem positive_affine_preimage_exact:
  assumes "scale \<noteq> 0" and "lower \<le> upper"
  shows "case fst (positive_affine_preimage scale offset lower upper b) of
      Inl e \<Rightarrow> e = Budget \<or> (e = Unproved \<and> (\<forall>x. \<not> solves scale offset lower upper x))
    | Inr (low, high) \<Rightarrow> \<forall>x. solves scale offset lower upper x \<longleftrightarrow> low \<le> x \<and> x \<le> high"
  using positive_affine_preimage_spec [of scale offset lower upper] assms
  by (auto simp: lb_spec_def split: sum.splits dest!: spec [of _ b])

theorem positive_affine_preimage_exact_witness:
  "(3::u64) \<noteq> 0 \<and> (6::u64) \<le> 11 \<and>
   (case fst (positive_affine_preimage 3 1 6 11 default_budget) of
      Inl e \<Rightarrow> e = Budget \<or> (e = Unproved \<and> (\<forall>x. \<not> solves 3 1 6 11 x))
    | Inr (low, high) \<Rightarrow> \<forall>x. solves 3 1 6 11 x \<longleftrightarrow> low \<le> x \<and> x \<le> high)"
  using positive_affine_preimage_exact [of 3 6 11 1 default_budget] by simp

text \<open>The envelope of a positive affine expression whose value is already a machine word
  bounds that value on both sides; only the upper bound saturates.\<close>

theorem positive_word_envelope_sound:
  assumes "positive_word_envelope constant terms = Inr (lower, upper)"
    and "in_ranges terms xs" and "uint constant + weighted terms xs < 2 ^ 64"
  shows "uint lower \<le> uint constant + weighted terms xs \<and>
    uint constant + weighted terms xs \<le> uint upper"
  using envelope_bounds [OF assms(1) [unfolded positive_word_envelope_def] assms(2)] assms(3) by simp

theorem positive_word_envelope_sound_witness:
  "positive_word_envelope 1 [(2, 1, 3), (3, 2, 4)] = Inr (9, 19) \<and>
   uint (9::u64) \<le> uint (1::u64) + weighted [(2, 1, 3), (3, 2, 4)] [2, 3] \<and>
   uint (1::u64) + weighted [(2, 1, 3), (3, 2, 4)] [2, 3] \<le> uint (19::u64)"
proof -
  have h: "positive_word_envelope 1 [(2, 1, 3), (3, 2, 4)] = Inr (9, 19)"
    by (simp add: positive_word_envelope_def envelope_step_def limit_defs u64_checked_mul_def
        u64_checked_add_def u64_saturating_mul_def u64_saturating_add_def)
  have r: "in_ranges [(2, 1, 3), (3, 2, 4)] [2, 3]" by (simp add: in_ranges_def)
  show ?thesis using positive_word_envelope_sound [OF h r] h by simp
qed

end
