(* ===== verification/Scalar_Template.thy ===== *)
theory Scalar_Template
  imports Logic_Value Linear_Word "HOL-Library.Product_Lexorder" "HOL-Library.List_Lexorder"
begin

text \<open>
  Scalar expression shapes of \<open>src/src/predicate_logic/scalar_template.rs\<close> and
  \<open>scalar_template/input_types.rs\<close>: a captured value without its intervals, over the adapter's
  own leaf names. Shapes are ordered the way the derived \<open>Ord\<close> orders them, field by field and
  constructors in declaration order, since they serve as map keys and sort keys.
\<close>

section \<open>Shapes\<close>

datatype scalar_kind = KWord | KBool

datatype 'a word_template = WordTemplate (wt_constant: i128) (wt_terms: "('a, i128) btmap")

datatype 'a scalar_template =
    SWord "'a word_template"
  | SBool bool
  | SBoolAtom 'a bool
  | SComparison word_type word_comparison "'a word_template" "'a word_template" bool
  | SBoolean boolean_operation "'a scalar_template" "'a scalar_template" bool

section \<open>The derived order\<close>

fun word_type_rank :: "word_type \<Rightarrow> nat" where
  "word_type_rank WtU64 = 0"
| "word_type_rank WtUsize = 1"

instantiation word_type :: linorder
begin

definition less_eq_word_type :: "word_type \<Rightarrow> word_type \<Rightarrow> bool" where
  "less_eq_word_type s t = (word_type_rank s \<le> word_type_rank t)"

definition less_word_type :: "word_type \<Rightarrow> word_type \<Rightarrow> bool" where
  "less_word_type s t = (word_type_rank s < word_type_rank t)"

instance
proof
  fix s t :: word_type
  show "s \<le> t \<Longrightarrow> t \<le> s \<Longrightarrow> s = t" by (cases s; cases t) (auto simp: less_eq_word_type_def)
qed (auto simp: less_eq_word_type_def less_word_type_def)

end

fun word_comparison_rank :: "word_comparison \<Rightarrow> nat" where
  "word_comparison_rank WEqual = 0"
| "word_comparison_rank WLessEqual = 1"

instantiation word_comparison :: linorder
begin

definition less_eq_word_comparison :: "word_comparison \<Rightarrow> word_comparison \<Rightarrow> bool" where
  "less_eq_word_comparison s t = (word_comparison_rank s \<le> word_comparison_rank t)"

definition less_word_comparison :: "word_comparison \<Rightarrow> word_comparison \<Rightarrow> bool" where
  "less_word_comparison s t = (word_comparison_rank s < word_comparison_rank t)"

instance
proof
  fix s t :: word_comparison
  show "s \<le> t \<Longrightarrow> t \<le> s \<Longrightarrow> s = t" by (cases s; cases t) (auto simp: less_eq_word_comparison_def)
qed (auto simp: less_eq_word_comparison_def less_word_comparison_def)

end

fun boolean_operation_rank :: "boolean_operation \<Rightarrow> nat" where
  "boolean_operation_rank OpAnd = 0"
| "boolean_operation_rank OpOr = 1"
| "boolean_operation_rank OpEqual = 2"

instantiation boolean_operation :: linorder
begin

definition less_eq_boolean_operation :: "boolean_operation \<Rightarrow> boolean_operation \<Rightarrow> bool" where
  "less_eq_boolean_operation s t = (boolean_operation_rank s \<le> boolean_operation_rank t)"

definition less_boolean_operation :: "boolean_operation \<Rightarrow> boolean_operation \<Rightarrow> bool" where
  "less_boolean_operation s t = (boolean_operation_rank s < boolean_operation_rank t)"

instance
proof
  fix s t :: boolean_operation
  show "s \<le> t \<Longrightarrow> t \<le> s \<Longrightarrow> s = t" by (cases s; cases t) (auto simp: less_eq_boolean_operation_def)
qed (auto simp: less_eq_boolean_operation_def less_boolean_operation_def)

end

instantiation word_template :: (linorder) linorder
begin

definition less_eq_word_template :: "'a word_template \<Rightarrow> 'a word_template \<Rightarrow> bool" where
  "less_eq_word_template v w = ((wt_constant v, wt_terms v) \<le> (wt_constant w, wt_terms w))"

definition less_word_template :: "'a word_template \<Rightarrow> 'a word_template \<Rightarrow> bool" where
  "less_word_template v w = ((wt_constant v, wt_terms v) < (wt_constant w, wt_terms w))"

instance
proof
  fix v w :: "'a word_template"
  show "v \<le> w \<Longrightarrow> w \<le> v \<Longrightarrow> v = w"
    by (cases v; cases w) (auto simp: less_eq_word_template_def)
qed (auto simp: less_eq_word_template_def less_word_template_def)

end

primrec template_rank :: "'a scalar_template \<Rightarrow> nat" where
  "template_rank (SWord w) = 0"
| "template_rank (SBool v) = 1"
| "template_rank (SBoolAtom a n) = 2"
| "template_rank (SComparison t c l r n) = 3"
| "template_rank (SBoolean op l r n) = 4"

fun template_less :: "'a::linorder scalar_template \<Rightarrow> 'a scalar_template \<Rightarrow> bool" where
  "template_less (SWord v) (SWord w) = (v < w)"
| "template_less (SBool v) (SBool w) = (v < w)"
| "template_less (SBoolAtom a n) (SBoolAtom a' n') = ((a, n) < (a', n'))"
| "template_less (SComparison t c l r n) (SComparison t' c' l' r' n') =
     ((t, c, l, r, n) < (t', c', l', r', n'))"
| "template_less (SBoolean op l r n) (SBoolean op' l' r' n') =
     (op < op' \<or> op = op' \<and> (template_less l l' \<or> l = l' \<and> (template_less r r' \<or> r = r' \<and> n < n')))"
| "template_less s t = (template_rank s < template_rank t)"

lemma template_less_irrefl: "\<not> template_less s s"
  by (induction s) auto

lemma template_less_rank: "template_rank s \<noteq> template_rank t \<Longrightarrow>
    template_less s t \<longleftrightarrow> template_rank s < template_rank t"
  by (cases s; cases t) auto

lemma template_less_trans: "template_less s t \<Longrightarrow> template_less t u \<Longrightarrow> template_less s u"
proof (induction s arbitrary: t u)
  case (SBoolean op l r n)
  show ?case
  proof (cases "template_rank t = 4 \<and> template_rank u = 4")
    case True
    then obtain op' l' r' n' op'' l'' r'' n'' where
      t: "t = SBoolean op' l' r' n'" and u: "u = SBoolean op'' l'' r'' n''"
      by (cases t; cases u) auto
    show ?thesis using SBoolean.prems SBoolean.IH unfolding t u
      by (auto intro: less_trans)
  next
    case False
    then show ?thesis using SBoolean.prems by (cases t; cases u) auto
  qed
next
  case (SWord w)
  then show ?case by (cases t; cases u) (auto intro: less_trans)
next
  case (SBool w)
  then show ?case by (cases t; cases u) (auto intro: less_trans)
next
  case (SBoolAtom a n)
  then show ?case by (cases t; cases u) (auto intro: less_trans)
next
  case (SComparison ty c l r n)
  then show ?case by (cases t; cases u) (auto simp del: less_prod_simp intro: less_trans)
qed

lemma template_less_total: "template_less s t \<or> s = t \<or> template_less t s"
proof (induction s arbitrary: t)
  case (SBoolean op l r n)
  show ?case
  proof (cases t)
    case t: (SBoolean op' l' r' n')
    consider "op < op'" | "op' < op" | "op = op'" by force
    then show ?thesis
      by cases (use SBoolean.IH [of l'] SBoolean.IH(2) [of r'] in \<open>auto simp: t\<close>)
  qed auto
next
  case (SComparison ty c l r n)
  show ?case
  proof (cases t)
    case (SComparison ty' c' l' r' n')
    then show ?thesis using less_linear [of "(ty, c, l, r, n)" "(ty', c', l', r', n')"]
      by (auto simp del: less_prod_simp)
  qed auto
next
  case (SWord v)
  show ?case
  proof (cases t)
    case (SWord w)
    then show ?thesis using less_linear [of v w] by auto
  qed auto
next
  case (SBool v)
  then show ?case by (cases t) auto
next
  case (SBoolAtom a n)
  show ?case
  proof (cases t)
    case (SBoolAtom a' n')
    then show ?thesis using less_linear [of "(a, n)" "(a', n')"] by (auto simp del: less_prod_simp)
  qed auto
qed

instantiation scalar_template :: (linorder) linorder
begin

definition less_scalar_template :: "'a scalar_template \<Rightarrow> 'a scalar_template \<Rightarrow> bool" where
  "less_scalar_template s t = template_less s t"

definition less_eq_scalar_template :: "'a scalar_template \<Rightarrow> 'a scalar_template \<Rightarrow> bool" where
  "less_eq_scalar_template s t = (s = t \<or> template_less s t)"

instance
  by standard
    (use template_less_irrefl template_less_trans template_less_total in
      \<open>unfold less_scalar_template_def less_eq_scalar_template_def; blast\<close>)+

end

section \<open>Capture\<close>

type_synonym ('b, 'a) leaf_map = "'b \<Rightarrow> scalar_kind \<Rightarrow> 'a lb"

definition capture_term ::
  "('b, 'a::linorder) leaf_map \<Rightarrow> 'b \<times> i128 \<Rightarrow> ('a, i128) btmap \<Rightarrow> ('a, i128) btmap lb" where
  "capture_term f term terms =
     lb_bind (f (fst term) KWord) (\<lambda>atom.
     lb_bind (lb_lift (ok_or Overflow (i128_checked_add (bt_get_or_zero terms atom) (snd term)))) (\<lambda>v.
     lb_return (bt_insert atom v terms)))"

definition word_capture :: "('b, 'a::linorder) leaf_map \<Rightarrow> 'b affine_value \<Rightarrow> 'a word_template lb" where
  "word_capture f word =
     lb_then (charge (1 + length (av_terms word)))
       (if length (av_terms word) > MAX_LINEAR_TERMS then lb_throw Budget
        else lb_bind (lb_fold (capture_term f) (av_terms word) []) (\<lambda>terms.
          lb_return (WordTemplate (av_constant word) (bt_retain (\<lambda>c. c \<noteq> 0) terms))))"

primrec capture :: "('b, 'a::linorder) leaf_map \<Rightarrow> ('b, 'r) logic_value \<Rightarrow> 'a scalar_template lb" where
  "capture f (VBoolBinary op l r negated) =
     lb_then (charge 1)
       (lb_bind (capture_leaves (VBoolBinary op l r negated)) (\<lambda>_.
        lb_bind (capture f l) (\<lambda>s.
        lb_bind (capture f r) (\<lambda>t. lb_return (SBoolean op s t negated)))))"
| "capture f (VWord word) =
     lb_then (charge 1) (lb_bind (word_capture f word) (\<lambda>w. lb_return (SWord w)))"
| "capture f (VBool v) =
     lb_then (charge 1) (case v of Some b \<Rightarrow> lb_return (SBool b) | None \<Rightarrow> lb_throw Unbound)"
| "capture f (VBoolAtom atom negated known) =
     lb_then (charge 1) (lb_bind (f atom KBool) (\<lambda>a. lb_return (SBoolAtom a negated)))"
| "capture f (VBoolComparison t c l r negated) =
     lb_then (charge 1)
       (lb_bind (word_capture f l) (\<lambda>l'.
        lb_bind (word_capture f r) (\<lambda>r'. lb_return (SComparison t c l' r' negated))))"
| "capture f (VResource r) = lb_then (charge 1) (lb_throw Unbound)"
| "capture f (VResourceAtom a) = lb_then (charge 1) (lb_throw Unbound)"

fun word_shape :: "'a scalar_template \<Rightarrow> (i128 \<times> ('a, i128) btmap) option" where
  "word_shape (SWord w) = Some (wt_constant w, wt_terms w)"
| "word_shape _ = None"

section \<open>Inputs\<close>

fun merge_inputs :: "('a::linorder \<times> 'k) list \<Rightarrow> ('a, 'k) btmap \<Rightarrow> ('a, 'k) btmap lresult" where
  "merge_inputs [] result = Inr result"
| "merge_inputs ((atom, kind) # rest) result =
     (case bt_get result atom of
        Some old \<Rightarrow> if old \<noteq> kind then Inl TypeMismatch
                    else merge_inputs rest (bt_insert atom kind result)
      | None \<Rightarrow> merge_inputs rest (bt_insert atom kind result))"

definition bt_extend :: "('a::linorder \<times> 'k) list \<Rightarrow> ('a, 'k) btmap \<Rightarrow> ('a, 'k) btmap" where
  "bt_extend kvs m = fold (\<lambda>(k, v). bt_insert k v) kvs m"

primrec inputs :: "'a::linorder scalar_template \<Rightarrow> ('a, scalar_kind) btmap lb" where
  "inputs (SBoolean op l r n) =
     lb_then (charge 1) (lb_bind (inputs l) (\<lambda>ls. lb_bind (inputs r) (\<lambda>rs.
       lb_lift (merge_inputs (ls @ rs) []))))"
| "inputs (SBool v) = lb_then (charge 1) (lb_return [])"
| "inputs (SBoolAtom a n) = lb_then (charge 1) (lb_return (bt_insert a KBool []))"
| "inputs (SWord w) =
     lb_then (charge 1) (lb_then (charge (length (wt_terms w)))
       (lb_return (bt_extend (map (\<lambda>a. (a, KWord)) (bt_keys (wt_terms w))) [])))"
| "inputs (SComparison t c l r n) =
     lb_then (charge 1) (lb_then (charge (length (wt_terms l) + length (wt_terms r)))
       (lb_return (bt_extend (map (\<lambda>a. (a, KWord)) (bt_keys (wt_terms l) @ bt_keys (wt_terms r))) [])))"

fun merge_typed ::
  "('a::linorder \<times> 't logic_type) list \<Rightarrow> ('a, 't logic_type) btmap \<Rightarrow> ('a, 't logic_type) btmap lb" where
  "merge_typed [] result = lb_return result"
| "merge_typed ((atom, ty) # rest) result =
     lb_then (charge 1)
       (case bt_get result atom of
          Some old \<Rightarrow> if old \<noteq> ty then lb_throw TypeMismatch
                      else merge_typed rest (bt_insert atom ty result)
        | None \<Rightarrow> merge_typed rest (bt_insert atom ty result))"

fun typed_inputs :: "'t logic_type \<Rightarrow> 'a::linorder scalar_template \<Rightarrow> ('a, 't logic_type) btmap lb" where
  "typed_inputs result_type (SBoolean op l r n) =
     lb_then (charge 1)
       (if result_type = TBool then
          lb_bind (typed_inputs TBool l) (\<lambda>ls. lb_bind (typed_inputs TBool r) (\<lambda>rs.
            merge_typed (ls @ rs) []))
        else lb_throw TypeMismatch)"
| "typed_inputs result_type (SBool v) =
     lb_then (charge 1) (if result_type = TBool then lb_return [] else lb_throw TypeMismatch)"
| "typed_inputs result_type (SBoolAtom a n) =
     lb_then (charge 1)
       (if result_type = TBool then lb_return (bt_insert a TBool []) else lb_throw TypeMismatch)"
| "typed_inputs result_type (SWord w) =
     lb_then (charge 1)
       (if is_word_type result_type then
          lb_then (charge (length (wt_terms w)))
            (lb_return (bt_extend (map (\<lambda>a. (a, result_type)) (bt_keys (wt_terms w))) []))
        else lb_throw TypeMismatch)"
| "typed_inputs result_type (SComparison t c l r n) =
     lb_then (charge 1)
       (if result_type = TBool then
          lb_then (charge (length (wt_terms l) + length (wt_terms r)))
            (lb_return (bt_extend (map (\<lambda>a. (a, word_type_logic_type t))
               (bt_keys (wt_terms l) @ bt_keys (wt_terms r))) []))
        else lb_throw TypeMismatch)"

section \<open>Instantiation\<close>

type_synonym ('a, 'b, 'r) leaf_read = "'a \<Rightarrow> scalar_kind \<Rightarrow> ('b, 'r) logic_value lb"
type_synonym 'b domain_service = "word_type option \<Rightarrow> 'b linear_word \<Rightarrow> 'b affine_value lb"

definition add_product :: "i128 \<Rightarrow> i128 \<Rightarrow> i128 \<Rightarrow> i128 option" where
  "add_product a b c =
     (case i128_checked_mul b c of Some p \<Rightarrow> i128_checked_add a p | None \<Rightarrow> None)"

definition instantiate_terms ::
  "i128 \<Rightarrow> ('b::linorder, i128) btmap \<Rightarrow> ('b, i128) btmap \<Rightarrow> ('b, i128) btmap lresult" where
  "instantiate_terms coefficient value_terms terms =
     res_fold (\<lambda>(atom, factor) terms.
         res_bind (ok_or Overflow (add_product (bt_get_or_zero terms atom) coefficient factor)) (\<lambda>v.
         Inr (bt_insert atom v terms))) value_terms terms"

definition add_scaled_word ::
  "i128 \<Rightarrow> 'b::linorder affine_value \<Rightarrow> 'b linear_word \<Rightarrow> 'b linear_word lb" where
  "add_scaled_word coefficient word acc =
     lb_then (charge (length (av_terms word)))
       (if av_lower word > av_upper word then lb_throw InvalidNode
        else
          let lo = (if coefficient \<ge> 0 then av_lower word else av_upper word);
              hi = (if coefficient \<ge> 0 then av_upper word else av_lower word) in
          lb_bind (lb_lift (ok_or Overflow (add_product (lw_lower acc) coefficient (uint lo)))) (\<lambda>lower.
          lb_bind (lb_lift (ok_or Overflow (add_product (lw_upper acc) coefficient (uint hi)))) (\<lambda>upper.
          lb_bind (lb_lift (ok_or Overflow
              (add_product (lw_constant acc) coefficient (av_constant word)))) (\<lambda>constant.
          lb_bind (lb_lift (instantiate_terms coefficient (av_terms word) (lw_terms acc))) (\<lambda>terms0.
          let terms = bt_retain (\<lambda>c. c \<noteq> 0) terms0 in
          if length terms > MAX_LINEAR_TERMS then lb_throw Budget
          else lb_return \<lparr>lw_constant = constant, lw_terms = terms,
                          lw_lower = lower, lw_upper = upper\<rparr>)))))"

definition instantiate_step ::
  "('a, 'b::linorder, 'r) leaf_read \<Rightarrow> 'a \<times> i128 \<Rightarrow> 'b linear_word \<Rightarrow> 'b linear_word lb" where
  "instantiate_step read term acc =
     lb_bind (read (fst term) KWord) (\<lambda>v.
       case v of VWord word \<Rightarrow> add_scaled_word (snd term) word acc | _ \<Rightarrow> lb_throw TypeMismatch)"

definition word_instantiate ::
  "('a, 'b::linorder, 'r) leaf_read \<Rightarrow> 'a word_template \<Rightarrow> 'b linear_word lb" where
  "word_instantiate read w =
     lb_then (charge (1 + length (wt_terms w)))
       (lb_fold (instantiate_step read) (wt_terms w) (lw_exact (wt_constant w)))"

primrec instantiate_with_domain ::
  "('a, 'b::linorder, 'r) leaf_read \<Rightarrow> 'b domain_service \<Rightarrow> 'a scalar_template \<Rightarrow> ('b, 'r) logic_value lb"
  where
  "instantiate_with_domain read domain (SBoolean op l r negated) =
     lb_then (charge 1)
       (lb_bind (instantiate_with_domain read domain l) (\<lambda>v.
        lb_bind (instantiate_with_domain read domain r) (\<lambda>w. boolean_binary op v w negated)))"
| "instantiate_with_domain read domain (SWord w) =
     lb_then (charge 1)
       (lb_bind (word_instantiate read w) (\<lambda>lw.
        lb_bind (domain None lw) (\<lambda>v. lb_return (VWord v))))"
| "instantiate_with_domain read domain (SBool v) = lb_then (charge 1) (lb_return (VBool (Some v)))"
| "instantiate_with_domain read domain (SBoolAtom a negated) =
     lb_then (charge 1)
       (lb_bind (read a KBool) (\<lambda>v.
        if \<not> is_boolean v then lb_throw TypeMismatch
        else lb_return (if negated then bool_not v else v)))"
| "instantiate_with_domain read domain (SComparison t c l r negated) =
     lb_then (charge 1)
       (lb_bind (word_instantiate read l) (\<lambda>l'.
        lb_bind (domain (Some t) l') (\<lambda>v.
        lb_bind (word_instantiate read r) (\<lambda>r'.
        lb_bind (domain (Some t) r') (\<lambda>w. lb_return (word_comparison_value t c v w negated))))))"

definition instantiate ::
  "('a, 'b::linorder, 'r) leaf_read \<Rightarrow> 'a scalar_template \<Rightarrow> ('b, 'r) logic_value lb" where
  "instantiate read s = instantiate_with_domain read (\<lambda>_ word. lb_lift (lw_into_word word)) s"

section \<open>Meaning\<close>

definition wt_den :: "('a \<Rightarrow> int) \<Rightarrow> 'a word_template \<Rightarrow> int" where
  "wt_den \<sigma> w = wt_constant w + lin_sum \<sigma> (wt_terms w)"

primrec st_bool :: "('a \<Rightarrow> int) \<Rightarrow> ('a \<Rightarrow> bool) \<Rightarrow> 'a scalar_template \<Rightarrow> bool" where
  "st_bool \<sigma> \<tau> (SWord w) = False"
| "st_bool \<sigma> \<tau> (SBool v) = v"
| "st_bool \<sigma> \<tau> (SBoolAtom a n) = (\<tau> a \<noteq> n)"
| "st_bool \<sigma> \<tau> (SComparison t c l r n) = (cmp_sem c (wt_den \<sigma> l) (wt_den \<sigma> r) \<noteq> n)"
| "st_bool \<sigma> \<tau> (SBoolean op l r n) = (op_sem op (st_bool \<sigma> \<tau> l) (st_bool \<sigma> \<tau> r) \<noteq> n)"

text \<open>A shape stands for a value under \<open>\<rho>\<close> when both denote the same word or the same truth.\<close>

definition shape_of ::
  "('b, 'r) valuation \<Rightarrow> ('a \<Rightarrow> int) \<Rightarrow> ('a \<Rightarrow> bool) \<Rightarrow> ('b, 'r) logic_value \<Rightarrow> 'a scalar_template \<Rightarrow> bool"
  where
  "shape_of \<rho> \<sigma> \<tau> v s =
     ((\<forall>t. lv_bool \<rho> v t \<longrightarrow> st_bool \<sigma> \<tau> s = t) \<and>
      (\<forall>w. v = VWord w \<longrightarrow> (\<exists>t. s = SWord t \<and> wt_den \<sigma> t = av_den (val_word \<rho>) w)))"

definition map_respects ::
  "('b, 'r) valuation \<Rightarrow> ('a \<Rightarrow> int) \<Rightarrow> ('a \<Rightarrow> bool) \<Rightarrow> ('b, 'a) leaf_map \<Rightarrow> bool" where
  "map_respects \<rho> \<sigma> \<tau> f =
     (\<forall>a b a' b'. (f a KWord b = (Inr a', b') \<longrightarrow> \<sigma> a' = val_word \<rho> a) \<and>
                  (f a KBool b = (Inr a', b') \<longrightarrow> \<tau> a' = val_bool \<rho> a))"

lemma capture_term_sound:
  assumes "map_respects \<rho> \<sigma> \<tau> f" and "lin_sum \<sigma> terms = lin_sum (val_word \<rho>) ys" and "bt_sorted terms"
  shows "lb_post (capture_term f x terms)
    (\<lambda>terms'. lin_sum \<sigma> terms' = lin_sum (val_word \<rho>) (ys @ [x]) \<and> bt_sorted terms')"
proof -
  obtain a n where x: "x = (a, n)" by force
  have f: "lb_post (f a KWord) (\<lambda>a'. \<sigma> a' = val_word \<rho> a)"
    using assms(1) unfolding map_respects_def lb_post_def by blast
  show ?thesis unfolding capture_term_def x fst_conv snd_conv
    by (rule lb_post_bind [OF f], rule lb_post_lift_bind)
      (use assms(2,3) in \<open>auto intro!: lb_post_return simp: lin_sum_insert algebra_simps dest!: checked_arith\<close>)
qed

lemma word_capture_sound:
  assumes "map_respects \<rho> \<sigma> \<tau> f"
  shows "lb_post (word_capture f w) (\<lambda>t. wt_den \<sigma> t = av_den (val_word \<rho>) w \<and> bt_sorted (wt_terms t))"
proof -
  have "lb_post (lb_fold (capture_term f) (av_terms w) [])
      (\<lambda>terms. lin_sum \<sigma> terms = lin_sum (val_word \<rho>) (av_terms w) \<and> bt_sorted terms)"
    by (rule lb_post_fold_prefix [where
          I = "\<lambda>ys terms. lin_sum \<sigma> terms = lin_sum (val_word \<rho>) ys \<and> bt_sorted terms"])
      (use capture_term_sound [OF assms] in auto)
  then show ?thesis
    unfolding word_capture_def
    by (intro lb_post_then lb_post_if lb_post_throw)
      (erule lb_post_bind, auto intro!: lb_post_return simp: wt_den_def av_den_def)
qed

lemma capture_shape:
  assumes "map_respects \<rho> \<sigma> \<tau> f"
  shows "lb_post (capture f v) (shape_of \<rho> \<sigma> \<tau> v)"
proof (induction v)
  case (VBoolBinary op l r n)
  show ?case unfolding capture.simps
  proof (rule lb_post_then, rule lb_post_bind [where Q = "\<lambda>_. True"], simp,
      rule lb_post_bind [OF VBoolBinary.IH(1)], rule lb_post_bind [OF VBoolBinary.IH(2)], rule lb_post_return)
    fix s t
    assume "shape_of \<rho> \<sigma> \<tau> l s" "shape_of \<rho> \<sigma> \<tau> r t"
    then show "shape_of \<rho> \<sigma> \<tau> (VBoolBinary op l r n) (SBoolean op s t n)"
      by (auto simp: shape_of_def)
  qed
next
  case (VWord w)
  show ?case unfolding capture.simps
    by (rule lb_post_then, rule lb_post_bind [OF word_capture_sound [OF assms, of w]])
      (auto simp: shape_of_def intro!: lb_post_return)
next
  case (VBool k)
  then show ?case by (cases k) (auto simp: shape_of_def intro!: lb_rules)
next
  case (VBoolAtom a n k)
  have f: "lb_post (f a KBool) (\<lambda>a'. \<tau> a' = val_bool \<rho> a)"
    using assms unfolding map_respects_def lb_post_def by blast
  show ?case unfolding capture.simps
    by (rule lb_post_then, rule lb_post_bind [OF f]) (auto simp: shape_of_def intro!: lb_post_return)
next
  case (VBoolComparison t c l r n)
  show ?case unfolding capture.simps
    by (rule lb_post_then, rule lb_post_bind [OF word_capture_sound [OF assms, of l]],
        rule lb_post_bind [OF word_capture_sound [OF assms, of r]])
      (auto simp: shape_of_def intro!: lb_post_return)
qed (auto intro!: lb_rules)

section \<open>Instantiation is sound\<close>

definition read_respects ::
  "('b, 'r) valuation \<Rightarrow> ('a \<Rightarrow> int) \<Rightarrow> ('a \<Rightarrow> bool) \<Rightarrow> ('a, 'b, 'r) leaf_read \<Rightarrow> bool" where
  "read_respects \<rho> \<sigma> \<tau> read =
     (\<forall>a b v b'.
        (read a KWord b = (Inr v, b') \<longrightarrow>
           (\<forall>w. v = VWord w \<longrightarrow> av_sat (val_word \<rho>) w \<and> av_den (val_word \<rho>) w = \<sigma> a)) \<and>
        (read a KBool b = (Inr v, b') \<longrightarrow> is_boolean v \<longrightarrow> lv_bool \<rho> v (\<tau> a)))"

definition domain_sound :: "('b, 'r) valuation \<Rightarrow> 'b domain_service \<Rightarrow> bool" where
  "domain_sound \<rho> domain =
     (\<forall>t lw b w b'. domain t lw b = (Inr w, b') \<longrightarrow> lw_sat (val_word \<rho>) lw \<longrightarrow>
        av_sat (val_word \<rho>) w \<and> av_den (val_word \<rho>) w = lw_den (val_word \<rho>) lw)"

definition instance_of ::
  "('b, 'r) valuation \<Rightarrow> ('a \<Rightarrow> int) \<Rightarrow> ('a \<Rightarrow> bool) \<Rightarrow> 'a scalar_template \<Rightarrow> ('b, 'r) logic_value \<Rightarrow> bool"
  where
  "instance_of \<rho> \<sigma> \<tau> s v =
     (case s of
        SWord t \<Rightarrow> (\<exists>w. v = VWord w \<and> av_sat (val_word \<rho>) w \<and> av_den (val_word \<rho>) w = wt_den \<sigma> t)
      | _ \<Rightarrow> lv_bool \<rho> v (st_bool \<sigma> \<tau> s))"

lemma add_product_Some [checked_arith]: "add_product a b c = Some r \<Longrightarrow> r = a + b * c"
  by (auto simp: add_product_def split: option.splits dest!: checked_arith)

lemma instantiate_terms_sum:
  "instantiate_terms k vt t = Inr r \<Longrightarrow> lin_sum \<rho> r = lin_sum \<rho> t + k * lin_sum \<rho> vt"
proof (induction vt arbitrary: t)
  case (Cons p vt)
  obtain a n where p: "p = (a, n)" by force
  from Cons.prems obtain v where
    v: "v = bt_get_or_zero t a + k * n" and r: "instantiate_terms k vt (bt_insert a v t) = Inr r"
    by (auto simp: instantiate_terms_def p dest!: checked_arith)
  from Cons.IH [OF r] show ?case by (simp add: p v lin_sum_insert algebra_simps)
qed (simp add: instantiate_terms_def)

lemma scaled_bounds:
  fixes k d lo hi :: int
  assumes "lo \<le> d" and "d \<le> hi"
  shows "k * (if k \<ge> 0 then lo else hi) \<le> k * d" and "k * d \<le> k * (if k \<ge> 0 then hi else lo)"
  using assms by (auto intro: mult_left_mono mult_left_mono_neg)

lemma add_scaled_word_sound:
  assumes "lw_sat \<rho> acc" and "av_sat \<rho> w"
  shows "lb_post (add_scaled_word k w acc)
    (\<lambda>acc'. lw_sat \<rho> acc' \<and> lw_den \<rho> acc' = lw_den \<rho> acc + k * av_den \<rho> w)"
proof -
  note b = scaled_bounds [of "uint (av_lower w)" "av_den \<rho> w" "uint (av_upper w)" k]
  show ?thesis unfolding add_scaled_word_def Let_def
    by (intro lb_post_then lb_post_if lb_post_throw lb_post_lift_bind lb_post_return)
      (use assms b in \<open>auto simp: lw_sat_def lw_den_def av_sat_def av_den_def algebra_simps
        dest!: checked_arith instantiate_terms_sum [where \<rho> = \<rho>] split: if_splits\<close>)
qed

lemma instantiate_step_sound:
  assumes "read_respects \<rho> \<sigma> \<tau> read"
    and "lw_sat (val_word \<rho>) acc \<and> lw_den (val_word \<rho>) acc = c + lin_sum \<sigma> ys"
  shows "lb_post (instantiate_step read x acc)
    (\<lambda>acc'. lw_sat (val_word \<rho>) acc' \<and> lw_den (val_word \<rho>) acc' = c + lin_sum \<sigma> (ys @ [x]))"
proof -
  obtain a k where x: "x = (a, k)" by force
  let ?\<rho> = "val_word \<rho>"
  have read: "lb_post (read a KWord) (\<lambda>v. \<forall>w. v = VWord w \<longrightarrow> av_sat ?\<rho> w \<and> av_den ?\<rho> w = \<sigma> a)"
    using assms(1) unfolding read_respects_def lb_post_def by blast
  show ?thesis unfolding instantiate_step_def x fst_conv snd_conv
    by (rule lb_post_bind [OF read])
      (use assms(2) in \<open>auto intro!: lb_post_throw lb_post_mono [OF add_scaled_word_sound [of ?\<rho>]]
        split: logic_value.split\<close>)
qed

lemma word_instantiate_sound:
  assumes "read_respects \<rho> \<sigma> \<tau> read"
  shows "lb_post (word_instantiate read w)
    (\<lambda>lw. lw_sat (val_word \<rho>) lw \<and> lw_den (val_word \<rho>) lw = wt_den \<sigma> w)"
  unfolding word_instantiate_def wt_den_def
  by (rule lb_post_then, rule lb_post_fold_prefix [where
        I = "\<lambda>ys lw. lw_sat (val_word \<rho>) lw \<and> lw_den (val_word \<rho>) lw = wt_constant w + lin_sum \<sigma> ys"])
    (use instantiate_step_sound [OF assms] in auto)

lemma domain_word_sound:
  assumes "read_respects \<rho> \<sigma> \<tau> read" and "domain_sound \<rho> domain"
    and "\<And>u. av_sat (val_word \<rho>) u \<Longrightarrow> av_den (val_word \<rho>) u = wt_den \<sigma> w \<Longrightarrow> lb_post (k u) P"
  shows "lb_post (lb_bind (word_instantiate read w) (\<lambda>lw. lb_bind (domain t lw) k)) P"
proof (rule lb_post_bind [OF word_instantiate_sound [OF assms(1)]])
  fix lw
  assume lw: "lw_sat (val_word \<rho>) lw \<and> lw_den (val_word \<rho>) lw = wt_den \<sigma> w"
  have "lb_post (domain t lw) (\<lambda>u. av_sat (val_word \<rho>) u \<and> av_den (val_word \<rho>) u = wt_den \<sigma> w)"
    using assms(2) lw unfolding domain_sound_def lb_post_def by metis
  then show "lb_post (lb_bind (domain t lw) k) P" by (rule lb_post_bind) (use assms(3) in blast)
qed

lemma instantiate_with_domain_sound:
  assumes "read_respects \<rho> \<sigma> \<tau> read" and "domain_sound \<rho> domain"
  shows "lb_post (instantiate_with_domain read domain s) (instance_of \<rho> \<sigma> \<tau> s)"
proof (induction s)
  case (SBoolean op l r n)
  show ?case unfolding instantiate_with_domain.simps
  proof (rule lb_post_then, rule lb_post_bind [OF SBoolean.IH(1)], rule lb_post_bind [OF SBoolean.IH(2)],
      rule lb_postI)
    fix v w b u b'
    assume l: "instance_of \<rho> \<sigma> \<tau> l v" and r: "instance_of \<rho> \<sigma> \<tau> r w"
      and u: "boolean_binary op v w n b = (Inr u, b')"
    have "is_boolean v" "is_boolean w" using u by (auto simp: boolean_binary_def lb_simps split: if_splits)
    then have "lv_bool \<rho> v (st_bool \<sigma> \<tau> l)" "lv_bool \<rho> w (st_bool \<sigma> \<tau> r)"
      using l r by (auto simp: instance_of_def split: scalar_template.splits)
    then show "instance_of \<rho> \<sigma> \<tau> (SBoolean op l r n) u"
      using boolean_binary_Inr [OF u] by (auto simp: instance_of_def)
  qed
next
  case (SWord w)
  show ?case unfolding instantiate_with_domain.simps
    by (rule lb_post_then, rule domain_word_sound [OF assms]) (auto simp: instance_of_def intro!: lb_post_return)
next
  case (SComparison t c l r n)
  show ?case unfolding instantiate_with_domain.simps
    by (rule lb_post_then, rule domain_word_sound [OF assms], rule domain_word_sound [OF assms], rule lb_post_return)
      (use word_comparison_value_sound [of \<rho>] in \<open>fastforce simp: instance_of_def\<close>)
next
  case (SBoolAtom a n)
  have read: "lb_post (read a KBool) (\<lambda>v. is_boolean v \<longrightarrow> lv_bool \<rho> v (\<tau> a))"
    using assms(1) unfolding read_respects_def lb_post_def by blast
  show ?case unfolding instantiate_with_domain.simps
    by (rule lb_post_then, rule lb_post_bind [OF read])
      (auto simp: instance_of_def bool_not_sound intro!: lb_rules)
qed (auto simp: instance_of_def intro!: lb_rules)

lemma into_word_domain_sound: "domain_sound \<rho> (\<lambda>_ word. lb_lift (lw_into_word word))"
  by (auto simp: domain_sound_def lb_simps dest: lw_into_word_sound [where \<rho> = "val_word \<rho>"])

lemma capture_word: "capture f v b = (Inr (SWord t), b') \<Longrightarrow> \<exists>w. v = VWord w"
  by (cases v) (auto simp: charge_then_Inr lb_bind_Inr lb_simps split: option.splits)

text \<open>C24: Instantiating a shape is sound for every domain service that is: the value returned
  denotes exactly what the shape means under the readings of its leaves.\<close>

theorem instantiate_with_domain_exact:
  assumes "read_respects \<rho> \<sigma> \<tau> read" and "domain_sound \<rho> domain"
    and "instantiate_with_domain read domain s b = (Inr v, b')"
  shows "instance_of \<rho> \<sigma> \<tau> s v"
  using lb_postD [OF instantiate_with_domain_sound [OF assms(1,2)] assms(3)] .

text \<open>C23: Capture followed by instantiation is faithful: when the leaf names of the shape mean the
  captured leaves on one side and the readings on the other, the rebuilt value denotes the same
  word, proved to fit its recomputed bounds, or the same truth value.\<close>

theorem capture_instantiate_roundtrip:
  assumes "map_respects \<rho> \<sigma> \<tau> f" and "capture f v b = (Inr s, b1)"
    and "read_respects \<rho>' \<sigma> \<tau> read" and "instantiate read s c = (Inr u, c1)"
  shows "(\<forall>t. lv_bool \<rho> v t \<longrightarrow> lv_bool \<rho>' u t) \<and>
    (\<forall>w. v = VWord w \<longrightarrow> (\<exists>w'. u = VWord w' \<and> av_sat (val_word \<rho>') w' \<and>
       av_den (val_word \<rho>') w' = av_den (val_word \<rho>) w))"
proof -
  have shape: "shape_of \<rho> \<sigma> \<tau> v s" using lb_postD [OF capture_shape [OF assms(1)] assms(2)] .
  have inst: "instance_of \<rho>' \<sigma> \<tau> s u"
    using lb_postD [OF instantiate_with_domain_sound [OF assms(3) into_word_domain_sound]] assms(4)
    unfolding instantiate_def by blast
  show ?thesis
  proof (cases "\<exists>t. s = SWord t")
    case True
    then obtain t w where "s = SWord t" "v = VWord w" using capture_word assms(2) by blast
    then show ?thesis using shape inst by (auto simp: shape_of_def instance_of_def)
  next
    case False
    then have "lv_bool \<rho>' u (st_bool \<sigma> \<tau> s)" using inst by (cases s) (auto simp: instance_of_def)
    then show ?thesis using shape False by (auto simp: shape_of_def)
  qed
qed

definition sample_capture_value :: "(nat, unit) logic_value" where
  "sample_capture_value = VBoolComparison WtU64 WLessEqual
     \<lparr>av_lower = 8, av_upper = 15, av_constant = 5, av_terms = [(0, 1)]\<rparr> (av_exact 20) False"

definition sample_reading :: "(nat, nat, unit) leaf_read" where
  "sample_reading a k = (case k of KWord \<Rightarrow> lb_return (VWord (av_exact 7)) | KBool \<Rightarrow> lb_throw Unbound)"

theorem instantiate_with_domain_exact_witness:
  "instance_of \<lparr>val_word = \<lambda>_. 7, val_bool = \<lambda>_. True, val_resource = \<lambda>_. ()\<rparr> (\<lambda>_. 7) (\<lambda>_. True)
     (SComparison WtU64 WLessEqual (WordTemplate 5 [(0 :: nat, 1)]) (WordTemplate 20 []) False)
     (VBool (Some True) :: (nat, unit) logic_value)"
proof (rule instantiate_with_domain_exact [OF _ into_word_domain_sound, where read = sample_reading])
  show "read_respects \<lparr>val_word = \<lambda>_. 7, val_bool = \<lambda>_. True, val_resource = \<lambda>_. ()\<rparr> (\<lambda>_. 7) (\<lambda>_. True)
      sample_reading"
    by (auto simp: read_respects_def sample_reading_def lb_simps)
  show "instantiate_with_domain sample_reading (\<lambda>_ word. lb_lift (lw_into_word word))
     (SComparison WtU64 WLessEqual (WordTemplate 5 [(0 :: nat, 1)]) (WordTemplate 20 []) False)
     default_budget = (Inr (VBool (Some True)), \<lparr>remaining = 4092\<rparr>)"
    by code_simp
qed

theorem capture_instantiate_roundtrip_witness:
  "lv_bool \<lparr>val_word = \<lambda>_. 7, val_bool = \<lambda>_. True, val_resource = \<lambda>_. ()\<rparr>
     (VBool (Some True) :: (nat, unit) logic_value) True"
proof -
  let ?\<rho> = "\<lparr>val_word = \<lambda>_. 7, val_bool = \<lambda>_. True, val_resource = \<lambda>_. ()\<rparr> :: (nat, unit) valuation"
  have m: "map_respects ?\<rho> (\<lambda>_. 7) (\<lambda>_. True) (\<lambda>a k. lb_return a)"
    by (simp add: map_respects_def lb_simps)
  have c: "capture (\<lambda>a k. lb_return a) sample_capture_value default_budget =
      (Inr (SComparison WtU64 WLessEqual (WordTemplate 5 [(0, 1)]) (WordTemplate 20 []) False), \<lparr>remaining = 4092\<rparr>)"
    by code_simp
  have r: "read_respects ?\<rho> (\<lambda>_. 7) (\<lambda>_. True) sample_reading"
    by (auto simp: read_respects_def sample_reading_def lb_simps)
  have i: "instantiate sample_reading
      (SComparison WtU64 WLessEqual (WordTemplate 5 [(0, 1)]) (WordTemplate 20 []) False)
      default_budget = (Inr (VBool (Some True)), \<lparr>remaining = 4092\<rparr>)"
    by code_simp
  have "lv_bool ?\<rho> sample_capture_value True"
    by (simp add: sample_capture_value_def av_sat_def av_den_def av_exact_def)
  then show ?thesis using capture_instantiate_roundtrip [OF m c r i] by blast
qed

section \<open>Inputs determine the meaning\<close>

primrec template_atoms :: "'a scalar_template \<Rightarrow> ('a \<times> scalar_kind) set" where
  "template_atoms (SWord w) = (\<lambda>a. (a, KWord)) ` fst ` set (wt_terms w)"
| "template_atoms (SBool v) = {}"
| "template_atoms (SBoolAtom a n) = {(a, KBool)}"
| "template_atoms (SComparison t c l r n) = (\<lambda>a. (a, KWord)) ` fst ` (set (wt_terms l) \<union> set (wt_terms r))"
| "template_atoms (SBoolean op l r n) = template_atoms l \<union> template_atoms r"

lemma merge_inputs_get:
  "merge_inputs kvs m = Inr r \<Longrightarrow> bt_sorted m \<Longrightarrow>
    bt_sorted r \<and> (\<forall>a k. bt_get r a = Some k \<longleftrightarrow> (a, k) \<in> set kvs \<or> bt_get m a = Some k)"
proof (induction kvs arbitrary: m)
  case (Cons p kvs)
  obtain b j where p: "p = (b, j)" by force
  from Cons.prems have old: "bt_get m b = None \<or> bt_get m b = Some j"
    and rest: "merge_inputs kvs (bt_insert b j m) = Inr r"
    by (auto simp: p split: option.splits if_splits)
  from Cons.IH [OF rest] Cons.prems(2) old show ?case
    by (auto simp: p bt.get_insert)
qed simp

lemma bt_extend_get:
  assumes "bt_sorted m"
  shows "bt_sorted (bt_extend (map (\<lambda>a. (a, k)) keys) m) \<and>
    bt_get (bt_extend (map (\<lambda>a. (a, k)) keys) m) a = (if a \<in> set keys then Some k else bt_get m a)"
  using assms unfolding bt_extend_def
  by (induction keys arbitrary: m) (auto simp: bt.get_insert)

lemma inputs_atoms:
  "lb_post (inputs s) (\<lambda>m. bt_sorted m \<and> (\<forall>a k. bt_get m a = Some k \<longleftrightarrow> (a, k) \<in> template_atoms s))"
proof (induction s)
  case (SBoolean op l r n)
  show ?case unfolding inputs.simps
    by (rule lb_post_then, rule lb_post_bind [OF SBoolean.IH(1)], rule lb_post_bind [OF SBoolean.IH(2)],
        rule lb_post_lift) (auto dest!: merge_inputs_get simp: bt_get_mem)
next
  case (SWord w)
  show ?case using bt_extend_get [of "[]" KWord "bt_keys (wt_terms w)"]
    by (auto intro!: lb_rules simp: bt_keys_def split: if_splits; force)
next
  case (SComparison t c l r n)
  show ?case using bt_extend_get [of "[]" KWord "bt_keys (wt_terms l) @ bt_keys (wt_terms r)"]
    by (auto intro!: lb_rules simp: bt_keys_def split: if_splits; force)
qed (auto intro!: lb_rules split: if_splits)

lemma lin_sum_cong: "(\<And>a. a \<in> fst ` set t \<Longrightarrow> \<sigma> a = \<sigma>' a) \<Longrightarrow> lin_sum \<sigma> t = lin_sum \<sigma>' t"
  by (induction t) (auto simp: lin_sum_def)

lemma template_atoms_determine:
  assumes "\<And>a. (a, KWord) \<in> template_atoms s \<Longrightarrow> \<sigma> a = \<sigma>' a"
    and "\<And>a. (a, KBool) \<in> template_atoms s \<Longrightarrow> \<tau> a = \<tau>' a"
  shows "st_bool \<sigma> \<tau> s = st_bool \<sigma>' \<tau>' s"
  using assms
proof (induction s)
  case (SComparison t c l r n)
  then have "lin_sum \<sigma> (wt_terms l) = lin_sum \<sigma>' (wt_terms l)" "lin_sum \<sigma> (wt_terms r) = lin_sum \<sigma>' (wt_terms r)"
    by (auto intro!: lin_sum_cong)
  then show ?case by (simp add: wt_den_def)
qed auto

text \<open>The inputs a shape reports are complete and unambiguous: no name is used at two kinds,
  and two readings that agree on the reported inputs give the shape the same truth value.\<close>

theorem inputs_determine:
  assumes "inputs s b = (Inr m, b')"
    and "\<And>a. bt_get m a = Some KWord \<Longrightarrow> \<sigma> a = \<sigma>' a"
    and "\<And>a. bt_get m a = Some KBool \<Longrightarrow> \<tau> a = \<tau>' a"
  shows "st_bool \<sigma> \<tau> s = st_bool \<sigma>' \<tau>' s \<and>
    (\<forall>a. \<not> ((a, KWord) \<in> template_atoms s \<and> (a, KBool) \<in> template_atoms s))"
proof -
  have m: "\<forall>a k. bt_get m a = Some k \<longleftrightarrow> (a, k) \<in> template_atoms s"
    using lb_postD [OF inputs_atoms assms(1)] by blast
  then have "\<not> ((a, KWord) \<in> template_atoms s \<and> (a, KBool) \<in> template_atoms s)" for a
    by (metis option.inject scalar_kind.distinct(1))
  moreover have "st_bool \<sigma> \<tau> s = st_bool \<sigma>' \<tau>' s"
    using m assms(2,3) by (intro template_atoms_determine) auto
  ultimately show ?thesis by blast
qed

theorem inputs_determine_witness:
  "st_bool (\<lambda>_. 3) (\<lambda>_. True) (SBoolean OpAnd (SBoolAtom (1 :: nat) False) (SBool True) False) =
   st_bool (\<lambda>_. 4) (\<lambda>a. a = 1) (SBoolean OpAnd (SBoolAtom (1 :: nat) False) (SBool True) False)"
proof -
  have "inputs (SBoolean OpAnd (SBoolAtom (1 :: nat) False) (SBool True) False) default_budget =
      (Inr [(1, KBool)], \<lparr>remaining = 4093\<rparr>)"
    by code_simp
  then show ?thesis
    by (rule inputs_determine [THEN conjunct1]) (simp_all split: if_splits)
qed

end
