(* ===== verification/Propositional.thy ===== *)
theory Propositional
  imports Logic_Value
begin

text \<open>
  The bounded propositional engine of \<open>src/src/predicate_logic/propositional.rs\<close>: a topological
  graph of constants, inputs and gates, premises on its nodes, and an enumeration of every
  assignment of the undetermined inputs. The two bits of a \<open>u8\<close> possibility are a pair of
  Booleans, the first for \<open>false\<close>, the second for \<open>true\<close>.
\<close>

section \<open>Graphs\<close>

record literal =
  lit_node :: usize
  lit_negated :: bool

datatype prop_node = PConstant bool | PInput usize | PGate boolean_operation literal literal

definition positive :: "usize \<Rightarrow> literal" where
  "positive n = \<lparr>lit_node = n, lit_negated = False\<rparr>"

definition lit_read :: "literal \<Rightarrow> bool list \<Rightarrow> bool" where
  "lit_read l vals = ((vals ! lit_node l) \<noteq> lit_negated l)"

type_synonym binding = "bool option \<times> usize option"

section \<open>Enumeration\<close>

definition collect_input ::
  "nat \<times> prop_node \<times> bool option \<Rightarrow> (usize, bool option) btmap \<Rightarrow> (usize, bool option) btmap lb" where
  "collect_input node inputs =
     lb_then (charge 1)
       (case node of
          (nid, PInput input, known) \<Rightarrow>
            let old = (case bt_get inputs input of Some v \<Rightarrow> v | None \<Rightarrow> None) in
            (case known of
               None \<Rightarrow> lb_return (bt_insert input old inputs)
             | Some truth \<Rightarrow>
                 if old = Some (\<not> truth) then lb_throw Unproved
                 else lb_return (bt_insert input (Some truth) inputs))
        | (nid, PGate op a b, known) \<Rightarrow>
            if lit_node a \<ge> nid \<or> lit_node b \<ge> nid then lb_throw InvalidNode else lb_return inputs
        | (nid, PConstant v, known) \<Rightarrow> lb_return inputs)"

fun number_inputs :: "(usize, bool option) btmap \<Rightarrow> nat \<Rightarrow> (usize, binding) btmap \<times> nat" where
  "number_inputs [] free = ([], free)"
| "number_inputs ((i, None) # inputs) free =
     (let (rest, n) = number_inputs inputs (free + 1) in ((i, (None, Some free)) # rest, n))"
| "number_inputs ((i, Some v) # inputs) free =
     (let (rest, n) = number_inputs inputs free in ((i, (Some v, None)) # rest, n))"

definition node_binding :: "(usize, binding) btmap \<Rightarrow> prop_node \<Rightarrow> binding option" where
  "node_binding inputs node = (case node of PInput i \<Rightarrow> bt_get inputs i | _ \<Rightarrow> None)"

fun row_node :: "nat \<Rightarrow> prop_node \<Rightarrow> binding option \<Rightarrow> bool list \<Rightarrow> bool lresult" where
  "row_node row (PConstant v) bound vals = Inr v"
| "row_node row (PInput i) bound vals =
     (case bound of
        Some (Some v, _) \<Rightarrow> Inr v
      | Some (None, Some slot) \<Rightarrow> Inr (odd (row div 2 ^ slot))
      | _ \<Rightarrow> Inl InvalidNode)"
| "row_node row (PGate op a b) bound vals = Inr (op_sem op (lit_read a vals) (lit_read b vals))"

text \<open>\<open>None\<close> is a row that contradicts a premise.\<close>

fun eval_row ::
  "nat \<Rightarrow> (prop_node \<times> bool option \<times> binding option) list \<Rightarrow> bool list \<Rightarrow> bool list option lresult" where
  "eval_row row [] vals = Inr (Some vals)"
| "eval_row row ((node, known, bound) # rest) vals =
     res_bind (row_node row node bound vals) (\<lambda>v.
       if known = Some (\<not> v) then Inr None else eval_row row rest (vals @ [v]))"

definition mark :: "bool \<Rightarrow> bool \<times> bool \<Rightarrow> bool \<times> bool" where
  "mark truth p = (fst p \<or> \<not> truth, snd p \<or> truth)"

fun verdict :: "bool \<times> bool \<Rightarrow> bool option lresult" where
  "verdict (False, False) = Inl Unproved"
| "verdict (True, False) = Inr (Some False)"
| "verdict (False, True) = Inr (Some True)"
| "verdict (True, True) = Inr None"

fun scan_rows ::
  "(prop_node \<times> bool option \<times> binding option) list \<Rightarrow> literal list \<Rightarrow> literal list \<Rightarrow>
   (bool list \<Rightarrow> bool lb) \<Rightarrow> nat list \<Rightarrow> (bool \<times> bool) list \<Rightarrow> bool option list lb" where
  "scan_rows graph queries observations admit [] possibilities =
     lb_lift (res_map verdict possibilities)"
| "scan_rows graph queries observations admit (row # rows) possibilities =
     lb_bind (lb_lift (eval_row row graph [])) (\<lambda>outcome.
       case outcome of
         None \<Rightarrow> scan_rows graph queries observations admit rows possibilities
       | Some vals \<Rightarrow>
           lb_bind (admit (map (\<lambda>l. lit_read l vals) observations)) (\<lambda>admitted.
             if \<not> admitted then scan_rows graph queries observations admit rows possibilities
             else
               let marked = map2 (\<lambda>p l. mark (lit_read l vals) p) possibilities queries in
               if \<forall>p \<in> set marked. p = (True, True)
               then lb_return (replicate (length queries) None)
               else scan_rows graph queries observations admit rows marked))"

definition forced_many_with_models ::
  "prop_node list \<Rightarrow> bool option list \<Rightarrow> literal list \<Rightarrow> literal list \<Rightarrow> (bool list \<Rightarrow> bool lb) \<Rightarrow>
   bool option list lb" where
  "forced_many_with_models ns known queries observations admit =
     (if length ns > 2 * MAX_EXPRESSION_NODES \<or> length queries > MAX_EXPRESSION_NODES \<or>
         length observations > MAX_EXPRESSION_NODES then lb_throw Budget
      else if length ns \<noteq> length known \<or> queries = [] \<or>
         (\<exists>q \<in> set (queries @ observations). lit_node q \<ge> length ns) then lb_throw InvalidNode
      else
        lb_then (charge (length queries + length observations))
          (lb_bind (lb_fold collect_input (List.enumerate 0 (zip ns known)) []) (\<lambda>inputs0.
            let (inputs, free) = number_inputs inputs0 0 in
            lb_bind (lb_lift (ok_or Budget (checked_shl_one free))) (\<lambda>rows.
            lb_bind (lb_lift (ok_or Budget
                (usize_checked_mul rows (length ns + 2 * length queries + length observations)))) (\<lambda>work.
            lb_then (charge work)
              (scan_rows (zip ns (zip known (map (node_binding inputs) ns))) queries observations admit
                 [0..<rows] (replicate (length queries) (False, False))))))))"

definition forced_many :: "prop_node list \<Rightarrow> bool option list \<Rightarrow> literal list \<Rightarrow> bool option list lb" where
  "forced_many ns known queries =
     forced_many_with_models ns known queries [] (\<lambda>_. lb_return True)"

definition forced :: "prop_node list \<Rightarrow> bool option list \<Rightarrow> literal \<Rightarrow> bool option lb" where
  "forced ns known query = lb_bind (forced_many ns known [query]) (\<lambda>rs. lb_return (rs ! 0))"

section \<open>Models\<close>

definition node_value :: "(usize \<Rightarrow> bool) \<Rightarrow> bool list \<Rightarrow> prop_node \<Rightarrow> bool" where
  "node_value \<mu> vals node =
     (case node of PConstant v \<Rightarrow> v | PInput i \<Rightarrow> \<mu> i
      | PGate op a b \<Rightarrow> op_sem op (lit_read a vals) (lit_read b vals))"

definition node_values :: "(usize \<Rightarrow> bool) \<Rightarrow> prop_node list \<Rightarrow> bool list" where
  "node_values \<mu> ns = foldl (\<lambda>vals node. vals @ [node_value \<mu> vals node]) [] ns"

definition premises_hold :: "bool option list \<Rightarrow> bool list \<Rightarrow> bool" where
  "premises_hold known vals = list_all2 (\<lambda>k v. k = None \<or> k = Some v) known vals"

definition models ::
  "prop_node list \<Rightarrow> bool option list \<Rightarrow> literal list \<Rightarrow> (bool list \<Rightarrow> bool) \<Rightarrow> (usize \<Rightarrow> bool) set" where
  "models ns known observations A =
     {\<mu>. premises_hold known (node_values \<mu> ns) \<and> A (map (\<lambda>l. lit_read l (node_values \<mu> ns)) observations)}"

text \<open>The answer every model gives, if there is one.\<close>

definition common_truth :: "(usize \<Rightarrow> bool) set \<Rightarrow> prop_node list \<Rightarrow> literal \<Rightarrow> bool option \<Rightarrow> bool" where
  "common_truth M ns query r =
     (M \<noteq> {} \<and>
      (case r of
         Some t \<Rightarrow> (\<forall>\<mu> \<in> M. lit_read query (node_values \<mu> ns) = t)
       | None \<Rightarrow> (\<exists>\<mu> \<in> M. lit_read query (node_values \<mu> ns)) \<and>
                 (\<exists>\<mu> \<in> M. \<not> lit_read query (node_values \<mu> ns))))"

section \<open>Inputs and their slots\<close>

definition well_ordered :: "prop_node list \<Rightarrow> bool" where
  "well_ordered ns = (\<forall>i < length ns. case ns ! i of
     PGate op a b \<Rightarrow> lit_node a < i \<and> lit_node b < i | _ \<Rightarrow> True)"

definition inputs_of :: "(nat \<times> prop_node \<times> bool option) list \<Rightarrow> (usize, bool option) btmap \<Rightarrow> bool" where
  "inputs_of ys m =
     (bt_sorted m \<and>
      (\<forall>k. bt_get m k \<noteq> None \<longleftrightarrow> (\<exists>i known. (i, PInput k, known) \<in> set ys)) \<and>
      (\<forall>k t. bt_get m k = Some (Some t) \<longleftrightarrow> (\<exists>i. (i, PInput k, Some t) \<in> set ys)))"

lemma inputs_of_step:
  assumes "inputs_of ys m"
  shows "lb_post (collect_input x m) (inputs_of (ys @ [x]))"
proof -
  obtain i n known where x: "x = (i, n, known)" by (cases x)
  have sorted: "bt_sorted m" using assms by (simp add: inputs_of_def)
  note get = bt.get_insert [OF sorted]
  have known_get: "bt_get m k = Some (Some t)" if "(i, PInput k, Some t) \<in> set ys" for i k t
    using assms that by (auto simp: inputs_of_def)
  show ?thesis
  proof (cases n)
    case (PInput k)
    show ?thesis
    proof (cases known)
      case None
      have "inputs_of (ys @ [x]) (bt_insert k (case bt_get m k of Some v \<Rightarrow> v | None \<Rightarrow> None) m)"
        using assms by (auto simp: inputs_of_def x PInput None get split: option.split dest: known_get)
      then show ?thesis
        by (simp add: collect_input_def x PInput None Let_def lb_post_then lb_post_return)
    next
      case (Some t)
      have "inputs_of (ys @ [x]) (bt_insert k (Some t) m)"
        if "(case bt_get m k of Some v \<Rightarrow> v | None \<Rightarrow> None) \<noteq> Some (\<not> t)"
      proof -
        have "\<forall>i. (i, PInput k, Some (\<not> t)) \<notin> set ys"
          using that known_get by force
        then have "u = t" if "(j, PInput k, Some u) \<in> set ys" for j u
          using that by (cases u; cases t) auto
        then show ?thesis using assms by (auto simp: inputs_of_def x PInput Some get)
      qed
      then show ?thesis
        by (auto simp: collect_input_def x PInput Some Let_def intro!: lb_rules)
    qed
  qed (use assms in \<open>auto simp: collect_input_def x inputs_of_def intro!: lb_rules\<close>)
qed

lemma collect_inputs_post:
  "lb_post (lb_fold collect_input xs []) (inputs_of xs)"
  by (rule lb_post_fold_prefix [where I = inputs_of])
    (auto simp: inputs_of_def inputs_of_step)

lemma number_inputs_keys: "number_inputs m free = (m', n) \<Longrightarrow> map fst m' = map fst m \<and> free \<le> n"
  by (induction m free arbitrary: m' n rule: number_inputs.induct) (fastforce split: prod.splits)+


lemma number_inputs_slots:
  "number_inputs m free = (m', n) \<Longrightarrow>
    \<exists>f. \<forall>k slot. (k, (None, Some slot)) \<in> set m' \<longrightarrow> f slot = \<mu> k \<and> free \<le> slot \<and> slot < n"
proof (induction m free arbitrary: m' n rule: number_inputs.induct)
  case (2 i inputs free)
  from 2(2) obtain rest where r: "number_inputs inputs (free + 1) = (rest, n)"
    "m' = (i, (None, Some free)) # rest"
    by (auto split: prod.splits)
  from 2(1) [OF r(1)] obtain f where
    f: "\<forall>k slot. (k, (None, Some slot)) \<in> set rest \<longrightarrow> f slot = \<mu> k \<and> free + 1 \<le> slot \<and> slot < n"
    by blast
  have "(f(free := \<mu> i)) slot = \<mu> k \<and> free \<le> slot \<and> slot < n"
    if "(k, (None, Some slot)) \<in> set m'" for k slot
  proof (cases "(k, (None, Some slot)) \<in> set rest")
    case True
    then have "f slot = \<mu> k \<and> free + 1 \<le> slot \<and> slot < n" using f by blast
    then show ?thesis by auto
  next
    case False
    then show ?thesis using that r(2) number_inputs_keys [OF r(1)] by auto
  qed
  then show ?case by blast
next
  case (3 i v inputs free)
  from 3(2) obtain rest where r: "number_inputs inputs free = (rest, n)"
    "m' = (i, (Some v, None)) # rest"
    by (auto split: prod.splits)
  then show ?case using 3(1) [OF r(1)] by simp
qed simp

lemma number_inputs_mem:
  "number_inputs m free = (m', n) \<Longrightarrow> (k, (Some v, x)) \<in> set m' \<Longrightarrow> (k, Some v) \<in> set m"
  by (induction m free arbitrary: m' n rule: number_inputs.induct) (auto split: prod.splits)

lemma number_inputs_free:
  "number_inputs m free = (m', n) \<Longrightarrow> (k, (None, x)) \<in> set m' \<Longrightarrow> x \<noteq> None"
  by (induction m free arbitrary: m' n rule: number_inputs.induct) (auto split: prod.splits)

lemma number_inputs_get:
  assumes "number_inputs m free = (m', n)" and "bt_sorted m"
  shows "bt_sorted m'" and "bt_get m' k = None \<longleftrightarrow> bt_get m k = None"
    and "bt_get m' k = Some (Some v, x) \<Longrightarrow> bt_get m k = Some (Some v)"
    and "bt_get m' k = Some (None, x) \<Longrightarrow> \<exists>slot. x = Some slot"
proof -
  note keys = number_inputs_keys [OF assms(1)]
  show sorted: "bt_sorted m'" using keys assms(2) by (simp add: bt_sorted_def)
  show "bt_get m' k = None \<longleftrightarrow> bt_get m k = None"
    using keys assms(2) sorted by (simp add: bt_get_map_of map_of_eq_None_iff flip: set_map)
  show "bt_get m k = Some (Some v)" if "bt_get m' k = Some (Some v, x)"
    using number_inputs_mem [OF assms(1)] bt_get_in_set [OF that] assms(2)
    by (simp add: bt_get_map_of bt_sorted_def strict_sorted_iff)
  show "\<exists>slot. x = Some slot" if "bt_get m' k = Some (None, x)"
    using number_inputs_free [OF assms(1)] bt_get_in_set [OF that] by blast
qed

lemma row_of_bits: "\<exists>row :: nat. row < 2 ^ n \<and> (\<forall>i < n. odd (row div 2 ^ i) = f i)"
proof (induction n)
  case (Suc n)
  then obtain row :: nat where row: "row < 2 ^ n" "\<forall>i < n. odd (row div 2 ^ i) = f i" by blast
  define new where "new = row + (if f n then 2 ^ n else 0)"
  have "odd (new div 2 ^ i) = f i" if "i < Suc n" for i
  proof (cases "i = n")
    case True
    then show ?thesis using row(1) by (simp add: new_def div_add_self2)
  next
    case False
    then have i: "i < n" using that by simp
    then have "(2 :: nat) ^ n = 2 ^ (n - i) * 2 ^ i" by (simp flip: power_add)
    then have "new div 2 ^ i = row div 2 ^ i + (if f n then 2 ^ (n - i) else 0)"
      by (simp add: new_def)
    then show ?thesis using row(2) i by simp
  qed
  moreover have "new < 2 ^ Suc n" using row(1) by (simp add: new_def)
  ultimately show ?case by blast
qed simp

section \<open>Rows are assignments\<close>

definition row_env :: "(usize, binding) btmap \<Rightarrow> nat \<Rightarrow> usize \<Rightarrow> bool" where
  "row_env inputs row i =
     (case bt_get inputs i of
        Some (Some v, _) \<Rightarrow> v
      | Some (None, Some slot) \<Rightarrow> odd (row div 2 ^ slot)
      | _ \<Rightarrow> False)"

definition extend_values :: "(usize \<Rightarrow> bool) \<Rightarrow> bool list \<Rightarrow> prop_node list \<Rightarrow> bool list" where
  "extend_values \<mu> vals ns = foldl (\<lambda>vals node. vals @ [node_value \<mu> vals node]) vals ns"

lemma extend_values_simps [simp]:
  "extend_values \<mu> vals [] = vals"
  "extend_values \<mu> vals (n # ns) = extend_values \<mu> (vals @ [node_value \<mu> vals n]) ns"
  by (simp_all add: extend_values_def)

lemma extend_values_append:
  "extend_values \<mu> vals (ms @ ns) = extend_values \<mu> (extend_values \<mu> vals ms) ns"
  by (simp add: extend_values_def)

lemma node_values_extend: "node_values \<mu> ns = extend_values \<mu> [] ns"
  by (simp add: node_values_def extend_values_def)

lemma extend_values_prefix: "\<exists>us. extend_values \<mu> vals ns = vals @ us \<and> length us = length ns"
proof (induction ns arbitrary: vals)
  case (Cons n ns)
  obtain us where "extend_values \<mu> (vals @ [node_value \<mu> vals n]) ns =
      (vals @ [node_value \<mu> vals n]) @ us" "length us = length ns"
    using Cons by blast
  then show ?case by simp
qed simp

lemma node_values_length [simp]: "length (node_values \<mu> ns) = length ns"
  using extend_values_prefix [of \<mu> "[]" ns] by (auto simp: node_values_extend)

lemma node_values_cong:
  assumes "\<And>i. PInput i \<in> set ns \<Longrightarrow> \<mu> i = \<nu> i"
  shows "node_values \<mu> ns = node_values \<nu> ns"
proof -
  have "extend_values \<mu> vals ns = extend_values \<nu> vals ns" for vals
    using assms
    by (induction ns arbitrary: vals) (auto simp: node_value_def split: prop_node.split)
  then show ?thesis by (simp add: node_values_extend)
qed

definition all_bound :: "(usize, binding) btmap \<Rightarrow> prop_node list \<Rightarrow> bool" where
  "all_bound inputs ns = (\<forall>i. PInput i \<in> set ns \<longrightarrow>
     (\<exists>v x. bt_get inputs i = Some (Some v, x)) \<or> (\<exists>slot. bt_get inputs i = Some (None, Some slot)))"

lemma eval_row_exact:
  assumes "length known = length ns" and "all_bound inputs ns"
  shows "eval_row row (zip ns (zip known (map (node_binding inputs) ns))) vals =
    Inr (if list_all2 (\<lambda>k v. k = None \<or> k = Some v) known
              (drop (length vals) (extend_values (row_env inputs row) vals ns))
         then Some (extend_values (row_env inputs row) vals ns) else None)"
  using assms
proof (induction ns arbitrary: known vals)
  case (Cons n ns)
  obtain k ks where known: "known = k # ks" "length ks = length ns"
    using Cons.prems(1) by (cases known) auto
  let ?\<mu> = "row_env inputs row"
  let ?v = "node_value ?\<mu> vals n"
  have node: "row_node row n (node_binding inputs n) vals = Inr ?v"
    using Cons.prems(2)
    by (cases n) (auto simp: node_value_def node_binding_def row_env_def all_bound_def)
  obtain us where us: "extend_values ?\<mu> (vals @ [?v]) ns = vals @ ?v # us"
    using extend_values_prefix [of ?\<mu> "vals @ [?v]" ns] by auto
  have "all_bound inputs ns" using Cons.prems(2) by (simp add: all_bound_def)
  note IH = Cons.IH [OF known(2) this, of "vals @ [?v]", unfolded us]
  show ?case using IH by (auto simp: known(1) node us)
qed simp

lemma eval_row_models:
  assumes "length known = length ns" and "all_bound inputs ns"
  shows "eval_row row (zip ns (zip known (map (node_binding inputs) ns))) [] =
    Inr (if premises_hold known (node_values (row_env inputs row) ns)
         then Some (node_values (row_env inputs row) ns) else None)"
  using eval_row_exact [OF assms, of row "[]"] by (simp add: premises_hold_def node_values_extend)

section \<open>The scan\<close>

definition possible ::
  "(prop_node \<times> bool option \<times> binding option) list \<Rightarrow> literal list \<Rightarrow> (bool list \<Rightarrow> bool) \<Rightarrow> nat list \<Rightarrow>
   literal \<Rightarrow> bool \<Rightarrow> bool" where
  "possible graph observations A rows query t =
     (\<exists>row \<in> set rows. \<exists>vals. eval_row row graph [] = Inr (Some vals) \<and>
        A (map (\<lambda>l. lit_read l vals) observations) \<and> lit_read query vals = t)"

lemma possible_Nil [simp]: "possible graph observations A [] query t = False"
  by (simp add: possible_def)

lemma possible_Cons:
  "possible graph observations A (row # rows) query t \<longleftrightarrow>
     (\<exists>vals. eval_row row graph [] = Inr (Some vals) \<and>
        A (map (\<lambda>l. lit_read l vals) observations) \<and> lit_read query vals = t) \<or>
     possible graph observations A rows query t"
  by (auto simp: possible_def)

definition scan_result ::
  "(prop_node \<times> bool option \<times> binding option) list \<Rightarrow> literal list \<Rightarrow> literal list \<Rightarrow>
   (bool list \<Rightarrow> bool) \<Rightarrow> nat list \<Rightarrow> (bool \<times> bool) list \<Rightarrow> bool option list \<Rightarrow> bool" where
  "scan_result graph queries observations A rows possibilities rs =
     (length rs = length queries \<and>
      (\<forall>i < length queries.
         verdict (fst (possibilities ! i) \<or> possible graph observations A rows (queries ! i) False,
                  snd (possibilities ! i) \<or> possible graph observations A rows (queries ! i) True)
           = Inr (rs ! i)))"

lemma scan_result_skip:
  assumes "\<And>vals. eval_row row graph [] = Inr (Some vals) \<Longrightarrow>
    \<not> A (map (\<lambda>l. lit_read l vals) observations)"
  shows "scan_result graph queries observations A (row # rows) possibilities =
    scan_result graph queries observations A rows possibilities"
proof -
  have "possible graph observations A (row # rows) q t = possible graph observations A rows q t" for q t
    using assms by (auto simp: possible_Cons)
  then show ?thesis by (intro ext) (simp add: scan_result_def)
qed

abbreviation mark_all :: "literal list \<Rightarrow> bool list \<Rightarrow> (bool \<times> bool) list \<Rightarrow> (bool \<times> bool) list" where
  "mark_all queries vals possibilities \<equiv> map2 (\<lambda>p l. mark (lit_read l vals) p) possibilities queries"

lemma scan_result_mark:
  assumes "eval_row row graph [] = Inr (Some vals)" and "A (map (\<lambda>l. lit_read l vals) observations)"
    and "length possibilities = length queries"
  shows "scan_result graph queries observations A (row # rows) possibilities =
    scan_result graph queries observations A rows (mark_all queries vals possibilities)"
proof -
  have "mark_all queries vals possibilities ! i = mark (lit_read (queries ! i) vals) (possibilities ! i)"
    if "i < length queries" for i
    using that assms(3) by simp
  then show ?thesis using assms(1,2) unfolding scan_result_def possible_Cons
    by (intro ext arg_cong2 [where f = "(\<and>)"] refl all_cong1 imp_cong) (auto simp: mark_def)
qed

lemma scan_result_stop:
  assumes "\<forall>p \<in> set (mark_all queries vals possibilities). p = (True, True)"
    and "length possibilities = length queries"
  shows "scan_result graph queries observations A rows (mark_all queries vals possibilities)
    (replicate (length queries) None)"
proof -
  have "mark_all queries vals possibilities ! i = (True, True)" if "i < length queries" for i
    using that assms by (metis (no_types, lifting) length_map length_zip min.idem nth_mem)
  then show ?thesis by (simp add: scan_result_def)
qed

lemma scan_rows_post:
  assumes admit: "\<And>obs b r b'. admit obs b = (Inr r, b') \<Longrightarrow> r = A obs"
    and "length possibilities = length queries"
  shows "lb_post (scan_rows graph queries observations admit rows possibilities)
    (scan_result graph queries observations A rows possibilities)"
  using assms(2)
proof (induction rows arbitrary: possibilities)
  case Nil
  show ?case
    by (auto intro!: lb_post_lift simp: scan_result_def Nil dest: res_map_length res_map_nth)
next
  case (Cons row rows)
  let ?P = "scan_result graph queries observations A (row # rows) possibilities"
  note IH = Cons.IH
  show ?case unfolding scan_rows.simps
  proof (rule lb_post_bind [OF lb_post_lift [where P = "\<lambda>o'. eval_row row graph [] = Inr o'"]], simp)
    fix outcome
    assume e: "eval_row row graph [] = Inr outcome"
    show "lb_post (case outcome of
         None \<Rightarrow> scan_rows graph queries observations admit rows possibilities
       | Some vals \<Rightarrow> lb_bind (admit (map (\<lambda>l. lit_read l vals) observations)) (\<lambda>admitted.
             if \<not> admitted then scan_rows graph queries observations admit rows possibilities
             else
               let marked = mark_all queries vals possibilities in
               if \<forall>p \<in> set marked. p = (True, True)
               then lb_return (replicate (length queries) None)
               else scan_rows graph queries observations admit rows marked)) ?P"
    proof (cases outcome)
      case None
      then have "?P = scan_result graph queries observations A rows possibilities"
        using e by (intro scan_result_skip) simp
      then show ?thesis using IH [OF Cons.prems] None by simp
    next
      case (Some vals)
      let ?obs = "map (\<lambda>l. lit_read l vals) observations"
      have ok: "lb_post (admit ?obs) (\<lambda>r. r = A ?obs)" using admit by (auto intro: lb_postI)
      note mark = scan_result_mark [OF e [unfolded Some] _ Cons.prems]
      have skip: "?P = scan_result graph queries observations A rows possibilities" if "\<not> A ?obs"
        using that e Some by (intro scan_result_skip) simp
      show ?thesis unfolding Some option.case
        by (rule lb_post_bind [OF ok], simp only: Let_def, intro lb_post_if)
          (use IH mark skip Cons.prems scan_result_stop [OF _ Cons.prems] in \<open>auto intro!: lb_post_return\<close>)
    qed
  qed
qed

section \<open>Exactness\<close>

lemma known_input_value:
  assumes "premises_hold known (node_values \<mu> ns)" and "(i, PInput k, Some t) \<in> set (List.enumerate 0 (zip ns known))"
  shows "\<mu> k = t"
proof -
  from assms(2) have i: "i < length ns" "ns ! i = PInput k" "known ! i = Some t"
    by (auto simp: in_set_enumerate_eq)
  have len: "length known = length ns" using assms(1) by (auto simp: premises_hold_def dest: list_all2_lengthD)
  let ?pre = "extend_values \<mu> [] (take i ns)"
  have "ns = take i ns @ PInput k # drop (Suc i) ns"
    using i by (metis id_take_nth_drop)
  then have "node_values \<mu> ns = extend_values \<mu> [] (take i ns @ PInput k # drop (Suc i) ns)"
    by (simp add: node_values_extend)
  then have "node_values \<mu> ns = extend_values \<mu> ?pre (PInput k # drop (Suc i) ns)"
    by (simp only: extend_values_append)
  moreover have "length ?pre = i"
    using extend_values_prefix [of \<mu> "[]" "take i ns"] i(1) by auto
  moreover obtain us where "extend_values \<mu> (?pre @ [\<mu> k]) (drop (Suc i) ns) = (?pre @ [\<mu> k]) @ us"
    using extend_values_prefix [of \<mu> "?pre @ [\<mu> k]" "drop (Suc i) ns"] by blast
  ultimately have "node_values \<mu> ns ! i = \<mu> k"
    by (simp add: node_value_def nth_append)
  moreover have "known ! i = None \<or> known ! i = Some (node_values \<mu> ns ! i)"
    using assms(1) i(1) len by (auto simp: premises_hold_def list_all2_conv_all_nth)
  ultimately show ?thesis using i(3) by simp
qed

lemma every_model_has_a_row:
  assumes ins: "inputs_of (List.enumerate 0 (zip ns known)) m" and num: "number_inputs m 0 = (inputs, free)"
    and \<mu>: "premises_hold known (node_values \<mu> ns)"
  shows "\<exists>row < 2 ^ free. node_values (row_env inputs row) ns = node_values \<mu> ns"
proof -
  have sorted: "bt_sorted m" using ins by (simp add: inputs_of_def)
  have len: "length known = length ns" using \<mu> by (auto simp: premises_hold_def dest: list_all2_lengthD)
  note get = number_inputs_get [OF num sorted]
  obtain f where f: "\<And>k slot. (k, (None, Some slot)) \<in> set inputs \<Longrightarrow> f slot = \<mu> k \<and> slot < free"
    using number_inputs_slots [OF num, of \<mu>] by blast
  obtain row :: nat where row: "row < 2 ^ free" "\<forall>i < free. odd (row div 2 ^ i) = f i"
    using row_of_bits by blast
  have "row_env inputs row i = \<mu> i" if i: "PInput i \<in> set ns" for i
  proof -
    obtain j where "j < length ns" "ns ! j = PInput i" using i by (auto simp: in_set_conv_nth)
    then have "(j, PInput i, known ! j) \<in> set (List.enumerate 0 (zip ns known))"
      using len by (simp add: in_set_enumerate_eq)
    then have "bt_get m i \<noteq> None" using ins unfolding inputs_of_def by blast
    then obtain v x where vx: "bt_get inputs i = Some (v, x)"
      using get(2) [of i] by (metis not_None_eq surj_pair)
    show ?thesis
    proof (cases v)
      case (Some t)
      then have "bt_get m i = Some (Some t)" using get(3) vx by blast
      then obtain j' where "(j', PInput i, Some t) \<in> set (List.enumerate 0 (zip ns known))"
        using ins unfolding inputs_of_def by blast
      then show ?thesis using known_input_value [OF \<mu>] vx Some by (simp add: row_env_def)
    next
      case None
      then obtain slot where "x = Some slot" using get(4) vx by blast
      then show ?thesis using vx None row(2) f [OF bt_get_in_set [of inputs i "(None, Some slot)"]]
        by (simp add: row_env_def)
    qed
  qed
  then show ?thesis using node_values_cong row(1) by blast
qed

lemma collected_all_bound:
  assumes "inputs_of (List.enumerate 0 (zip ns known)) m" and "number_inputs m 0 = (inputs, free)"
    and "length known = length ns"
  shows "all_bound inputs ns"
  unfolding all_bound_def
proof (intro allI impI)
  fix i
  assume "PInput i \<in> set ns"
  then obtain j where "j < length ns" "ns ! j = PInput i" by (auto simp: in_set_conv_nth)
  then have "(j, PInput i, known ! j) \<in> set (List.enumerate 0 (zip ns known))"
    using assms(3) by (simp add: in_set_enumerate_eq)
  then have "bt_get m i \<noteq> None" using assms(1) unfolding inputs_of_def by blast
  have sorted: "bt_sorted m" using assms(1) by (simp add: inputs_of_def)
  obtain v x where vx: "bt_get inputs i = Some (v, x)"
    using number_inputs_get(2) [OF assms(2) sorted, of i] \<open>bt_get m i \<noteq> None\<close> by (metis not_None_eq surj_pair)
  then have "v = None \<Longrightarrow> \<exists>slot. x = Some slot" using number_inputs_get(4) [OF assms(2) sorted] by blast
  then show "(\<exists>v x. bt_get inputs i = Some (Some v, x)) \<or> (\<exists>slot. bt_get inputs i = Some (None, Some slot))"
    using vx by (cases v) auto
qed

lemma possible_models:
  assumes ins: "inputs_of (List.enumerate 0 (zip ns known)) m" and num: "number_inputs m 0 = (inputs, free)"
    and len: "length known = length ns"
  shows "possible (zip ns (zip known (map (node_binding inputs) ns))) observations A [0..<2 ^ free] query t \<longleftrightarrow>
    (\<exists>\<mu> \<in> models ns known observations A. lit_read query (node_values \<mu> ns) = t)" (is "?L \<longleftrightarrow> ?R")
proof
  note row = eval_row_models [OF len collected_all_bound [OF ins num len]]
  show ?R if ?L
    using that by (auto simp: possible_def row models_def split: if_splits)
  show ?L if ?R
  proof -
    from that obtain \<mu> where \<mu>: "premises_hold known (node_values \<mu> ns)"
      "A (map (\<lambda>l. lit_read l (node_values \<mu> ns)) observations)" "lit_read query (node_values \<mu> ns) = t"
      by (auto simp: models_def)
    obtain r where "r < 2 ^ free" "node_values (row_env inputs r) ns = node_values \<mu> ns"
      using every_model_has_a_row [OF ins num \<mu>(1)] by blast
    then show ?L using \<mu> by (auto simp: possible_def row intro!: bexI [of _ r])
  qed
qed

lemma verdict_common_truth:
  assumes "verdict (\<exists>\<mu> \<in> M. \<not> lit_read q (node_values \<mu> ns), \<exists>\<mu> \<in> M. lit_read q (node_values \<mu> ns)) = Inr r"
  shows "common_truth M ns q r"
  using assms
  by (cases "\<exists>\<mu> \<in> M. \<not> lit_read q (node_values \<mu> ns)"; cases "\<exists>\<mu> \<in> M. lit_read q (node_values \<mu> ns)")
    (auto simp: common_truth_def)

lemma forced_many_with_models_post:
  assumes "\<And>obs b r b'. admit obs b = (Inr r, b') \<Longrightarrow> r = A obs"
    and "forced_many_with_models ns known queries observations admit b = (Inr rs, b')"
  shows "list_all2 (common_truth (models ns known observations A) ns) queries rs"
proof -
  from assms(2) obtain m b1 b2 b3 where
    len: "length known = length ns" and
    m: "lb_fold collect_input (List.enumerate 0 (zip ns known)) [] b1 = (Inr m, b2)" and
    scan0: "scan_rows (zip ns (zip known (map (node_binding (fst (number_inputs m 0))) ns))) queries
       observations admit [0..<2 ^ snd (number_inputs m 0)] (replicate (length queries) (False, False)) b3
       = (Inr rs, b')"
    by (auto simp: forced_many_with_models_def lb_bind_Inr lb_simps charge_then_Inr checked_shl_one_def
        split_beta split: if_splits)
  obtain inputs free where num: "number_inputs m 0 = (inputs, free)" by force
  note scan = scan0 [unfolded num fst_conv snd_conv]
  have ins: "inputs_of (List.enumerate 0 (zip ns known)) m"
    using lb_postD [OF collect_inputs_post m] .
  have "scan_result (zip ns (zip known (map (node_binding inputs) ns))) queries observations A
      [0..<2 ^ free] (replicate (length queries) (False, False)) rs"
    using lb_postD [OF scan_rows_post [OF assms(1)] scan] by simp
  then show ?thesis
    unfolding scan_result_def list_all2_conv_all_nth possible_models [OF ins num len]
    by (auto intro!: verdict_common_truth)
qed

text \<open>C11: The engine decides its queries exactly. When it answers, the premises admitted by the
  callback have a model; a query answered with a truth value has that value in every such model,
  and a query left open is true in one and false in another. An inconsistent premise set is never
  a proof.\<close>

theorem forced_many_with_models_exact:
  assumes "\<And>obs b r b'. admit obs b = (Inr r, b') \<Longrightarrow> r = A obs"
    and "forced_many_with_models ns known queries observations admit b = (Inr rs, b')"
  shows "list_all2 (common_truth (models ns known observations A) ns) queries rs"
  using assms by (rule forced_many_with_models_post)

theorem forced_many_with_models_exact_witness:
  "list_all2 (common_truth (models
       [PInput 7, PInput 9, PGate OpAnd (positive 0) (positive 1)]
       [None, None, Some True] [] (\<lambda>_. True))
       [PInput 7, PInput 9, PGate OpAnd (positive 0) (positive 1)])
     [positive 0, positive 1] [Some True, Some True]"
proof (rule forced_many_with_models_exact [where admit = "\<lambda>_. lb_return True" and b = default_budget])
  show "forced_many_with_models [PInput 7, PInput 9, PGate OpAnd (positive 0) (positive 1)]
       [None, None, Some True] [positive 0, positive 1] [] (\<lambda>_. lb_return True) default_budget =
     (Inr [Some True, Some True], \<lparr>remaining = 4063\<rparr>)"
    by code_simp
qed (simp add: lb_simps)

section \<open>Enough budget gives an answer\<close>

lemma collect_input_ok:
  assumes "inputs_of ys m" and "1 \<le> remaining b"
    and "\<And>i k t. (i, PInput k, Some t) \<in> set ys \<or> (i, PInput k, Some t) = x \<Longrightarrow> \<mu> k = t"
    and "\<And>i op p q known. x = (i, PGate op p q, known) \<Longrightarrow> lit_node p < i \<and> lit_node q < i"
  shows "\<exists>m'. collect_input x m b = (Inr m', b\<lparr>remaining := remaining b - 1\<rparr>)"
proof -
  obtain i n known where x: "x = (i, n, known)" by (cases x)
  have step: "(\<exists>m'. lb_then (charge 1) k b = (Inr m', b\<lparr>remaining := remaining b - 1\<rparr>)) \<longleftrightarrow>
      (\<exists>m'. k (b\<lparr>remaining := remaining b - 1\<rparr>) = (Inr m', b\<lparr>remaining := remaining b - 1\<rparr>))"
    for k :: "(usize, bool option) btmap lb"
    using assms(2) by (simp add: charge_then_Inr del: One_nat_def)
  have old: "(case bt_get m k of Some v \<Rightarrow> v | None \<Rightarrow> None) \<noteq> Some (\<not> t)"
    if "n = PInput k" "known = Some t" for k t
  proof
    assume "(case bt_get m k of Some v \<Rightarrow> v | None \<Rightarrow> None) = Some (\<not> t)"
    then have "bt_get m k = Some (Some (\<not> t))" by (auto split: option.splits)
    then obtain j where "(j, PInput k, Some (\<not> t)) \<in> set ys" using assms(1) by (auto simp: inputs_of_def)
    then have "\<mu> k = (\<not> t)" using assms(3) by blast
    moreover have "\<mu> k = t" using assms(3) [of i k t] that x by simp
    ultimately show False by simp
  qed
  show ?thesis unfolding collect_input_def step
    using old assms(4) by (auto simp: x Let_def lb_simps split: prop_node.split option.split)
qed

lemma collect_inputs_ok:
  assumes "premises_hold known (node_values \<mu> ns)" and "well_ordered ns"
    and "List.enumerate 0 (zip ns known) = ys @ zs" and "inputs_of ys m" and "length zs \<le> remaining b"
  shows "\<exists>m'. lb_fold collect_input zs m b = (Inr m', b\<lparr>remaining := remaining b - length zs\<rparr>)"
  using assms(3-)
proof (induction zs arbitrary: ys m b)
  case (Cons x zs)
  have "\<exists>m'. collect_input x m b = (Inr m', b\<lparr>remaining := remaining b - 1\<rparr>)"
  proof (rule collect_input_ok [OF Cons.prems(2), where \<mu> = \<mu>])
    show "\<mu> k = t" if "(i, PInput k, Some t) \<in> set ys \<or> (i, PInput k, Some t) = x" for i k t
      using known_input_value [OF assms(1)] that Cons.prems(1) by auto
    show "lit_node p < i \<and> lit_node q < i" if x: "x = (i, PGate op p q, kn)" for i op p q kn
    proof -
      note e = enumerate_split(2,3) [OF Cons.prems(1) [unfolded x]]
      then have "i < length ns" "ns ! i = PGate op p q" by (simp_all split: prod.splits)
      then show ?thesis using assms(2) unfolding well_ordered_def by force
    qed
  qed (use Cons.prems(3) in simp)
  then obtain m' where m': "collect_input x m b = (Inr m', b\<lparr>remaining := remaining b - 1\<rparr>)" by blast
  have "inputs_of (ys @ [x]) m'" using lb_postD [OF inputs_of_step [OF Cons.prems(2)] m'] .
  from Cons.IH [OF _ this, of "b\<lparr>remaining := remaining b - 1\<rparr>"] Cons.prems m' show ?case
    by (simp add: lb_bind_def)
qed (simp add: lb_simps)

lemma number_inputs_count: "number_inputs m free = (m', n) \<Longrightarrow> n \<le> free + length m"
  by (induction m free arbitrary: m' n rule: number_inputs.induct) (fastforce split: prod.splits)+

lemma inputs_of_length:
  assumes "inputs_of (List.enumerate 0 (zip ns known)) m" and "length known = length ns"
  shows "length m = card {i. PInput i \<in> set ns}"
proof -
  have sorted: "bt_sorted m" using assms(1) by (simp add: inputs_of_def)
  have "bt_get m i \<noteq> None \<longleftrightarrow> PInput i \<in> set ns" for i
  proof
    assume "PInput i \<in> set ns"
    then obtain j where "j < length ns" "ns ! j = PInput i" by (auto simp: in_set_conv_nth)
    then have "(j, PInput i, known ! j) \<in> set (List.enumerate 0 (zip ns known))"
      using assms(2) by (simp add: in_set_enumerate_eq)
    then show "bt_get m i \<noteq> None" using assms(1) unfolding inputs_of_def by blast
  qed (use assms(1) in \<open>auto simp: inputs_of_def in_set_enumerate_eq intro: nth_mem dest: sym\<close>)
  then have "{i. PInput i \<in> set ns} = set (map fst m)"
    using sorted by (auto simp: bt_get_map_of map_of_eq_None_iff)
  moreover have "distinct (map fst m)" using sorted by (simp add: bt_sorted_def strict_sorted_iff)
  ultimately show ?thesis by (metis distinct_card length_map)
qed

lemma scan_rows_total:
  assumes "\<forall>row \<in> set rows. \<exists>r. eval_row row graph [] = Inr r"
    and "(\<exists>row \<in> set rows. \<exists>vals. eval_row row graph [] = Inr (Some vals)) \<or>
         (False, False) \<notin> set possibilities"
  shows "\<exists>rs. scan_rows graph queries observations (\<lambda>_. lb_return True) rows possibilities b = (Inr rs, b)"
  using assms
proof (induction rows arbitrary: possibilities)
  case Nil
  then have "(False, False) \<notin> set possibilities" by simp
  then have "\<exists>rs. res_map verdict possibilities = Inr rs"
  proof (induction possibilities)
    case (Cons p ps)
    then show ?case by (cases p rule: verdict.cases) auto
  qed simp
  then show ?case by (simp add: lb_simps)
next
  case (Cons row rows)
  then obtain r where r: "eval_row row graph [] = Inr r" by auto
  show ?case
  proof (cases r)
    case None
    then show ?thesis using Cons r by (simp add: lb_bind_def lb_simps)
  next
    case (Some vals)
    have "(False, False) \<notin> set (mark_all queries vals possibilities)"
      by (auto simp: mark_def)
    then show ?thesis using Cons r Some by (simp add: lb_bind_def lb_simps Let_def)
  qed
qed

definition enumeration_cost :: "prop_node list \<Rightarrow> literal list \<Rightarrow> nat" where
  "enumeration_cost ns queries = length queries + length ns +
     2 ^ card {i. PInput i \<in> set ns} * (length ns + 2 * length queries)"

lemma rows_within:
  fixes w :: nat
  assumes "free \<le> n" and "2 ^ n * w \<le> r" and "r < 2 ^ 64" and "0 < w"
  shows "free < 64" and "2 ^ free * w \<le> r" and "int (2 ^ free * w) < 2 ^ 64"
proof -
  have "(2 :: nat) ^ free \<le> 2 ^ n" using assms(1) by (simp add: power_increasing)
  then have "2 ^ free * w \<le> 2 ^ n * w" by (rule mult_le_mono1)
  then show le: "2 ^ free * w \<le> r" using assms(2) by (rule le_trans)
  have "(2 :: nat) ^ free * 1 \<le> 2 ^ free * w" by (rule mult_le_mono2) (use assms(4) in simp)
  then have "(2 :: nat) ^ free < 2 ^ 64" using le assms(3) by linarith
  then show "free < 64" by (rule power_less_imp_less_exp [rotated]) simp
  have "2 ^ free * w < 2 ^ 64" using le assms(3) by (rule le_less_trans)
  then have "int (2 ^ free * w) < int (2 ^ 64)" by (rule of_nat_less_iff [THEN iffD2])
  then show "int (2 ^ free * w) < 2 ^ 64" by simp
qed

text \<open>C28: The engine is complete. For a graph in topological order within the size limits whose
  premises have a model, a budget that covers the full enumeration always yields an answer.\<close>

theorem forced_many_complete:
  assumes shape: "length ns \<le> 2 * MAX_EXPRESSION_NODES" "length queries \<le> MAX_EXPRESSION_NODES"
      "queries \<noteq> []" "\<forall>q \<in> set queries. lit_node q < length ns" "well_ordered ns"
    and model: "premises_hold known (node_values \<mu> ns)"
    and budget: "enumeration_cost ns queries \<le> remaining b" "remaining b < 2 ^ 64"
  shows "\<exists>rs b'. forced_many ns known queries b = (Inr rs, b')"
proof -
  have len: "length known = length ns"
    using model by (auto simp: premises_hold_def dest: list_all2_lengthD)
  let ?w = "length ns + 2 * length queries"
  let ?b1 = "b\<lparr>remaining := remaining b - length queries\<rparr>"
  let ?b2 = "b\<lparr>remaining := remaining b - length queries - length ns\<rparr>"
  have fits: "length ns \<le> remaining b - length queries" "length queries \<le> remaining b"
    using budget(1) unfolding enumeration_cost_def by linarith+
  have "inputs_of [] []" by (simp add: inputs_of_def)
  then obtain m where m: "lb_fold collect_input (List.enumerate 0 (zip ns known)) [] ?b1 = (Inr m, ?b2)"
    using collect_inputs_ok [OF model shape(5), of "[]" _ "[]" ?b1] fits len by auto
  have ins: "inputs_of (List.enumerate 0 (zip ns known)) m"
    using lb_postD [OF collect_inputs_post m] .
  obtain inputs free where num: "number_inputs m 0 = (inputs, free)" by force
  have free: "free \<le> card {i. PInput i \<in> set ns}"
    using number_inputs_count [OF num] inputs_of_length [OF ins len] by simp
  have w: "0 < ?w" using shape(3) by simp
  have cost: "2 ^ card {i. PInput i \<in> set ns} * ?w \<le> remaining ?b2"
    using budget(1) by (simp add: enumeration_cost_def)
  have r64: "remaining ?b2 < 2 ^ 64" using budget(2) by simp
  note rows = rows_within [OF free cost r64 w]
  let ?graph = "zip ns (zip known (map (node_binding inputs) ns))"
  note row = eval_row_models [OF len collected_all_bound [OF ins num len]]
  obtain r where "r < 2 ^ free" "node_values (row_env inputs r) ns = node_values \<mu> ns"
    using every_model_has_a_row [OF ins num model] by blast
  then have "\<exists>rs. scan_rows ?graph queries [] (\<lambda>_. lb_return True) [0..<2 ^ free]
      (replicate (length queries) (False, False)) (?b2\<lparr>remaining := remaining ?b2 - 2 ^ free * ?w\<rparr>) =
      (Inr rs, ?b2\<lparr>remaining := remaining ?b2 - 2 ^ free * ?w\<rparr>)"
    by (intro scan_rows_total) (use model in \<open>auto simp: row intro!: bexI [of _ r]\<close>)
  then show ?thesis
    using shape m num rows len fits
    by (auto simp: forced_many_def forced_many_with_models_def lb_then_def lb_bind_def lb_simps charge_def
        checked_shl_one_def usize_checked_mul_def enumeration_cost_def)
qed

theorem forced_many_complete_witness:
  "\<exists>rs b'. forced_many [PInput 4, PGate OpOr (positive 0) \<lparr>lit_node = 0, lit_negated = True\<rparr>]
     [None, None] [positive 1] default_budget = (Inr rs, b')"
proof (rule forced_many_complete [where \<mu> = "\<lambda>_. True"])
  have "{i. PInput i \<in> set [PInput 4, PGate OpOr (positive 0) \<lparr>lit_node = 0, lit_negated = True\<rparr>]} = {4}"
    by auto
  then show "enumeration_cost [PInput 4, PGate OpOr (positive 0) \<lparr>lit_node = 0, lit_negated = True\<rparr>]
     [positive 1] \<le> remaining default_budget"
    by (simp add: enumeration_cost_def default_budget_def limit_defs)
  show "remaining default_budget < 2 ^ 64" by (simp add: default_budget_def limit_defs)
qed (auto simp: limit_defs positive_def well_ordered_def premises_hold_def node_values_def node_value_def
    less_Suc_eq numeral_2_eq_2)

end
