(* ===== verification/Boolean_Equivalence.thy ===== *)
theory Boolean_Equivalence
  imports Scalar_Template Propositional
begin

text \<open>
  Propositional equivalence of shapes, \<open>src/src/predicate_logic/boolean_equivalence.rs\<close>. A shape
  is compiled to the graph of the propositional engine; comparisons and Boolean leaves become
  inputs, shared between both sides through one variable table. \<open>st_prop\<close> is the propositional
  reading of a shape: its leaves, with their negation removed, are independent atoms.
\<close>

section \<open>Compilation\<close>

type_synonym 'a compile_state = "('a scalar_template, usize) btmap \<times> prop_node list"

definition push_node ::
  "prop_node \<Rightarrow> bool \<Rightarrow> 'a compile_state \<Rightarrow> (literal \<times> 'a compile_state) lb" where
  "push_node node negation st =
     (if length (snd st) \<ge> 2 * MAX_EXPRESSION_NODES then lb_throw Budget
      else lb_return (\<lparr>lit_node = length (snd st), lit_negated = negation\<rparr>, (fst st, snd st @ [node])))"

definition intern ::
  "'a::linorder scalar_template \<Rightarrow> 'a compile_state \<Rightarrow> usize \<times> 'a compile_state" where
  "intern key st =
     (case bt_get (fst st) key of
        Some i \<Rightarrow> (i, st)
      | None \<Rightarrow> (length (fst st), (bt_insert key (length (fst st)) (fst st), snd st)))"

primrec compile ::
  "'a::linorder scalar_template \<Rightarrow> nat \<Rightarrow> 'a compile_state \<Rightarrow> (literal \<times> 'a compile_state) lb" where
  "compile (SBool v) depth st =
     lb_then (charge 1)
       (if depth \<ge> MAX_EXPRESSION_DEPTH \<or> length (snd st) \<ge> 2 * MAX_EXPRESSION_NODES then lb_throw Budget
        else push_node (PConstant v) False st)"
| "compile (SBoolAtom a n) depth st =
     lb_then (charge 1)
       (if depth \<ge> MAX_EXPRESSION_DEPTH \<or> length (snd st) \<ge> 2 * MAX_EXPRESSION_NODES then lb_throw Budget
        else case intern (SBoolAtom a False) st of (i, st') \<Rightarrow> push_node (PInput i) n st')"
| "compile (SComparison t c l r n) depth st =
     lb_then (charge 1)
       (if depth \<ge> MAX_EXPRESSION_DEPTH \<or> length (snd st) \<ge> 2 * MAX_EXPRESSION_NODES then lb_throw Budget
        else case intern (SComparison t c l r False) st of (i, st') \<Rightarrow> push_node (PInput i) n st')"
| "compile (SBoolean op l r n) depth st =
     lb_then (charge 1)
       (if depth \<ge> MAX_EXPRESSION_DEPTH \<or> length (snd st) \<ge> 2 * MAX_EXPRESSION_NODES then lb_throw Budget
        else
          lb_bind (compile l (depth + 1) st) (\<lambda>(a, st1).
          lb_bind (compile r (depth + 1) st1) (\<lambda>(b, st2).
          push_node (PGate op a b) n st2)))"
| "compile (SWord w) depth st =
     lb_then (charge 1)
       (if depth \<ge> MAX_EXPRESSION_DEPTH \<or> length (snd st) \<ge> 2 * MAX_EXPRESSION_NODES then lb_throw Budget
        else lb_throw TypeMismatch)"

definition equivalent :: "'a::linorder scalar_template \<Rightarrow> 'a scalar_template \<Rightarrow> bool lb" where
  "equivalent left right =
     lb_bind (compile left 0 ([], [])) (\<lambda>(a, st1).
     lb_bind (compile right 0 st1) (\<lambda>(b, st2).
     let query = positive (length (snd st2));
         ns = snd st2 @ [PGate OpEqual a b] in
     lb_bind (forced ns (replicate (length ns) None) query) (\<lambda>r. lb_return (r = Some True))))"

section \<open>Propositional meaning\<close>

primrec st_prop :: "('a scalar_template \<Rightarrow> bool) \<Rightarrow> 'a scalar_template \<Rightarrow> bool" where
  "st_prop \<alpha> (SWord w) = False"
| "st_prop \<alpha> (SBool v) = v"
| "st_prop \<alpha> (SBoolAtom a n) = (\<alpha> (SBoolAtom a False) \<noteq> n)"
| "st_prop \<alpha> (SComparison t c l r n) = (\<alpha> (SComparison t c l r False) \<noteq> n)"
| "st_prop \<alpha> (SBoolean op l r n) = (op_sem op (st_prop \<alpha> l) (st_prop \<alpha> r) \<noteq> n)"

lemma st_bool_prop: "st_bool \<sigma> \<tau> s = st_prop (st_bool \<sigma> \<tau>) s"
  by (induction s) auto

section \<open>The compiled graph means the shape\<close>

definition table_ok :: "('a::linorder scalar_template, usize) btmap \<Rightarrow> bool" where
  "table_ok vars =
     (bt_sorted vars \<and> (\<forall>k i. bt_get vars k = Some i \<longrightarrow> i < length vars) \<and>
      (\<forall>k k' i. bt_get vars k = Some i \<longrightarrow> bt_get vars k' = Some i \<longrightarrow> k = k'))"

definition table_extends ::
  "('a::linorder scalar_template, usize) btmap \<Rightarrow> ('a scalar_template, usize) btmap \<Rightarrow> bool" where
  "table_extends vars vars' = (\<forall>k i. bt_get vars k = Some i \<longrightarrow> bt_get vars' k = Some i)"

definition table_agrees ::
  "('a scalar_template \<Rightarrow> bool) \<Rightarrow> (usize \<Rightarrow> bool) \<Rightarrow> ('a::linorder scalar_template, usize) btmap \<Rightarrow> bool" where
  "table_agrees \<alpha> \<mu> vars = (\<forall>k i. bt_get vars k = Some i \<longrightarrow> \<mu> i = \<alpha> k)"

text \<open>The literal reads the shape in every graph that extends the compiled one.\<close>

definition compiled ::
  "'a::linorder scalar_template \<Rightarrow> 'a compile_state \<Rightarrow> literal \<times> 'a compile_state \<Rightarrow> bool" where
  "compiled s st r =
     (case r of (a, st') \<Rightarrow>
        table_ok (fst st') \<and> table_extends (fst st) (fst st') \<and>
        (\<exists>ms. snd st' = snd st @ ms) \<and> lit_node a < length (snd st') \<and>
        (\<forall>\<alpha> \<mu> ms. table_agrees \<alpha> \<mu> (fst st') \<longrightarrow>
           lit_read a (node_values \<mu> (snd st' @ ms)) = st_prop \<alpha> s))"

lemma node_values_append:
  "node_values \<mu> (ns @ ms) = extend_values \<mu> (node_values \<mu> ns) ms"
  by (simp add: node_values_extend extend_values_append)

lemma node_values_nth:
  "i < length ns \<Longrightarrow> node_values \<mu> (ns @ ms) ! i = node_values \<mu> ns ! i"
  using extend_values_prefix [of \<mu> "node_values \<mu> ns" ms]
  by (auto simp: node_values_append nth_append)

lemma lit_read_append:
  "lit_node a < length ns \<Longrightarrow> lit_read a (node_values \<mu> (ns @ ms)) = lit_read a (node_values \<mu> ns)"
  by (simp add: lit_read_def node_values_nth)

lemma pushed_value:
  "node_values \<mu> ((ns @ [n]) @ ms) ! length ns = node_value \<mu> (node_values \<mu> ns) n"
proof -
  have "node_values \<mu> (ns @ [n]) = node_values \<mu> ns @ [node_value \<mu> (node_values \<mu> ns) n]"
    by (simp add: node_values_append)
  then show ?thesis using node_values_nth [of "length ns" "ns @ [n]" \<mu> ms] by (simp add: nth_append)
qed

lemma push_node_Inr:
  assumes "push_node n neg st b = (Inr (a, st'), b')"
  shows "a = \<lparr>lit_node = length (snd st), lit_negated = neg\<rparr>" "st' = (fst st, snd st @ [n])" "b' = b"
  using assms by (auto simp: push_node_def lb_simps split: if_splits)

lemma bt_insert_new_length:
  "bt_get m k = None \<Longrightarrow> bt_sorted m \<Longrightarrow> length (bt_insert k v m) = Suc (length m)"
proof (induction m)
  case (Cons p m)
  obtain a w where p: "p = (a, w)" by force
  show ?case using Cons by (auto simp: p bt_sorted_Cons split: if_splits)
qed simp

lemma intern_ok:
  assumes "table_ok (fst st)" and "intern key st = (i, st')"
  shows "table_ok (fst st')" "table_extends (fst st) (fst st')" "snd st' = snd st" "bt_get (fst st') key = Some i"
proof -
  note t = assms(1) [unfolded table_ok_def]
  consider "bt_get (fst st) key = Some i" "st' = st"
    | "bt_get (fst st) key = None" "i = length (fst st)" "st' = (bt_insert key i (fst st), snd st)"
    using assms(2) by (auto simp: intern_def split: option.splits)
  then have "table_ok (fst st') \<and> table_extends (fst st) (fst st') \<and> snd st' = snd st \<and> bt_get (fst st') key = Some i"
  proof cases
    case 1
    then show ?thesis using assms(1) by (simp add: table_extends_def)
  next
    case 2
    have "length (bt_insert key i (fst st)) = Suc (length (fst st))"
      using 2(1) t by (intro bt_insert_new_length) simp_all
    then show ?thesis using t 2
      by (auto simp: table_ok_def table_extends_def bt.get_insert less_Suc_eq split: if_splits)
  qed
  then show "table_ok (fst st')" "table_extends (fst st) (fst st')" "snd st' = snd st" "bt_get (fst st') key = Some i"
    by blast+
qed

lemma intern_push_compiled:
  assumes ok: "table_ok (fst st)" and int: "intern key st = (i, st1)"
    and push: "push_node (PInput i) n st1 b = (Inr r, b')"
    and mean: "\<And>\<alpha>. st_prop \<alpha> s = (\<alpha> key \<noteq> n)"
  shows "compiled s st r"
proof -
  obtain a st' where r: "r = (a, st')" by (cases r)
  note p = push_node_Inr [OF push [unfolded r]] and i = intern_ok [OF ok int]
  have read: "lit_read a (node_values \<mu> (snd st' @ ms)) = (\<mu> i \<noteq> n)" for \<mu> ms
    using pushed_value [of \<mu> "snd st1" "PInput i" ms]
    by (simp add: lit_read_def p node_value_def)
  show ?thesis unfolding compiled_def r prod.case read mean
    using i by (auto simp: p table_agrees_def)
qed

lemma compile_compiled:
  assumes "table_ok (fst st)" and "compile s depth st b = (Inr r, b')"
  shows "compiled s st r"
  using assms
proof (induction s arbitrary: depth st b r b')
  case (SBool v)
  obtain a st' where r: "r = (a, st')" by (cases r)
  from SBool.prems(2) obtain b1 where "push_node (PConstant v) False st b1 = (Inr (a, st'), b')"
    by (auto simp: r charge_then_Inr lb_simps split: if_splits)
  note p = push_node_Inr [OF this]
  show ?case using SBool.prems(1) pushed_value [of _ "snd st" "PConstant v"]
    by (auto simp: compiled_def r p table_extends_def lit_read_def node_value_def)
next
  case (SBoolAtom x n)
  obtain i st1 where int: "intern (SBoolAtom x False) st = (i, st1)" by (metis surj_pair)
  from SBoolAtom.prems(2) obtain b1 where "push_node (PInput i) n st1 b1 = (Inr r, b')"
    by (auto simp: int charge_then_Inr lb_simps split: if_splits)
  then show ?case using intern_push_compiled [OF SBoolAtom.prems(1) int] by simp
next
  case (SComparison t c l r' n)
  obtain i st1 where int: "intern (SComparison t c l r' False) st = (i, st1)" by (metis surj_pair)
  from SComparison.prems(2) obtain b1 where "push_node (PInput i) n st1 b1 = (Inr r, b')"
    by (auto simp: int charge_then_Inr lb_simps split: if_splits)
  then show ?case using intern_push_compiled [OF SComparison.prems(1) int] by simp
next
  case (SBoolean op l r' n)
  obtain a st' where r: "r = (a, st')" by (cases r)
  from SBoolean.prems(2) obtain x st1 y st2 b1 b2 b3 where
    l: "compile l (depth + 1) st b1 = (Inr (x, st1), b2)" and
    rr: "compile r' (depth + 1) st1 b2 = (Inr (y, st2), b3)" and
    push: "push_node (PGate op x y) n st2 b3 = (Inr (a, st'), b')"
    by (auto simp: r charge_then_Inr lb_bind_Inr lb_simps split: if_splits)
  note cl = SBoolean.IH(1) [OF SBoolean.prems(1) l, unfolded compiled_def prod.case]
  then have ok1: "table_ok (fst st1)" by blast
  note cr = SBoolean.IH(2) [OF ok1 rr, unfolded compiled_def prod.case]
  note p = push_node_Inr [OF push]
  obtain m1 m2 where m: "snd st1 = snd st @ m1" "snd st2 = snd st1 @ m2" using cl cr by blast
  have "lit_read a (node_values \<mu> (snd st' @ ms)) = st_prop \<alpha> (SBoolean op l r' n)"
    if "table_agrees \<alpha> \<mu> (fst st')" for \<alpha> \<mu> ms
  proof -
    have ag: "table_agrees \<alpha> \<mu> (fst st1)" "table_agrees \<alpha> \<mu> (fst st2)"
      using that cr p(2) by (auto simp: table_agrees_def table_extends_def)
    have "lit_read x (node_values \<mu> (snd st2)) = st_prop \<alpha> l"
      using cl ag(1) m(2) by auto
    moreover have "lit_read y (node_values \<mu> (snd st2 @ [])) = st_prop \<alpha> r'"
      using cr ag(2) by blast
    ultimately show ?thesis
      using pushed_value [of \<mu> "snd st2" "PGate op x y" ms]
      unfolding lit_read_def [of a] by (simp add: p node_value_def)
  qed
  then show ?case using cl cr p m by (auto simp: compiled_def r table_extends_def)
qed (auto simp: charge_then_Inr lb_simps split: if_splits)

section \<open>Exactness\<close>

lemma forced_exact:
  assumes "forced ns known q b = (Inr r, b')"
  shows "common_truth (models ns known [] (\<lambda>_. True)) ns q r"
proof -
  from assms obtain rs where rs: "forced_many_with_models ns known [q] [] (\<lambda>_. lb_return True) b = (Inr rs, b')"
    and r: "r = rs ! 0"
    by (auto simp: forced_def forced_many_def lb_bind_Inr lb_simps)
  have "list_all2 (common_truth (models ns known [] (\<lambda>_. True)) ns) [q] rs"
    using _ rs by (rule forced_many_with_models_post) (simp add: lb_simps)
  then show ?thesis using r by (auto simp: list_all2_Cons1)
qed

lemma unconstrained_models: "length known = length ns \<Longrightarrow> models ns (replicate (length ns) None) [] (\<lambda>_. True) = UNIV"
  by (auto simp: models_def premises_hold_def list_all2_conv_all_nth)

lemma equivalent_exact_lemma:
  assumes "equivalent left right b = (Inr r, b')"
  shows "r \<longleftrightarrow> (\<forall>\<alpha>. st_prop \<alpha> left = st_prop \<alpha> right)"
proof -
  from assms obtain x st1 y st2 b1 b2 v where
    l: "compile left 0 ([], []) b = (Inr (x, st1), b1)" and
    rr: "compile right 0 st1 b1 = (Inr (y, st2), b2)" and
    f: "forced (snd st2 @ [PGate OpEqual x y]) (replicate (length (snd st2 @ [PGate OpEqual x y])) None)
        (positive (length (snd st2))) b2 = (Inr v, b')" and
    r: "r = (v = Some True)"
    by (auto simp: equivalent_def lb_bind_Inr lb_simps Let_def)
  have "table_ok (fst ([] :: ('a scalar_template, usize) btmap, [] :: prop_node list))"
    by (simp add: table_ok_def)
  note cl = compile_compiled [OF this l, unfolded compiled_def prod.case]
  note cr = compile_compiled [OF cl [THEN conjunct1] rr, unfolded compiled_def prod.case]
  obtain m2 where m2: "snd st2 = snd st1 @ m2" using cr by blast
  let ?ns = "snd st2 @ [PGate OpEqual x y]" and ?q = "positive (length (snd st2))"
  have q: "lit_read ?q (node_values \<mu> ?ns) = (st_prop \<alpha> left = st_prop \<alpha> right)"
    if ag: "table_agrees \<alpha> \<mu> (fst st2)" for \<alpha> \<mu>
  proof -
    have "table_agrees \<alpha> \<mu> (fst st1)" using ag cr by (auto simp: table_agrees_def table_extends_def)
    then have "lit_read x (node_values \<mu> (snd st2)) = st_prop \<alpha> left" using cl m2 by auto
    moreover have "lit_read y (node_values \<mu> (snd st2 @ [])) = st_prop \<alpha> right" using cr ag by blast
    ultimately show ?thesis using pushed_value [of \<mu> "snd st2" "PGate OpEqual x y" "[]"]
      unfolding lit_read_def [of ?q] by (simp add: positive_def node_value_def)
  qed
  have ct: "common_truth UNIV ?ns ?q v"
    using forced_exact [OF f] by (simp only: unconstrained_models [OF length_replicate])
  have inj: "k = k'" if "bt_get (fst st2) k = Some i" "bt_get (fst st2) k' = Some i" for k k' i
    using cr [THEN conjunct1] that unfolding table_ok_def by blast
  have assign: "\<exists>\<mu>. table_agrees \<alpha> \<mu> (fst st2)" for \<alpha>
  proof
    show "table_agrees \<alpha> (\<lambda>i. \<exists>k. bt_get (fst st2) k = Some i \<and> \<alpha> k) (fst st2)"
      using inj by (auto simp: table_agrees_def)
  qed
  have read: "\<exists>\<alpha>. table_agrees \<alpha> \<mu> (fst st2)" for \<mu>
    by (rule exI [of _ "\<lambda>k. case bt_get (fst st2) k of Some i \<Rightarrow> \<mu> i | None \<Rightarrow> False"])
      (simp add: table_agrees_def)
  show ?thesis
  proof
    assume r
    then have "\<forall>\<mu>. lit_read ?q (node_values \<mu> ?ns)" using ct r by (simp add: common_truth_def)
    then show "\<forall>\<alpha>. st_prop \<alpha> left = st_prop \<alpha> right" using q assign by blast
  next
    assume eq: "\<forall>\<alpha>. st_prop \<alpha> left = st_prop \<alpha> right"
    have "lit_read ?q (node_values \<mu> ?ns)" for \<mu> using q read eq by blast
    then have "v = Some True" using ct by (auto simp: common_truth_def split: option.splits)
    then show r using r by simp
  qed
qed

text \<open>C21: \<open>equivalent\<close> is an exact decision procedure for propositional equivalence: it answers
  \<open>true\<close> precisely when the two shapes agree under every assignment of their leaves. In particular
  shapes it equates have the same truth value under every reading of their words and Booleans.\<close>

theorem equivalent_exact:
  assumes "equivalent left right b = (Inr r, b')"
  shows "(r \<longleftrightarrow> (\<forall>\<alpha>. st_prop \<alpha> left = st_prop \<alpha> right)) \<and>
    (r \<longrightarrow> (\<forall>\<sigma> \<tau>. st_bool \<sigma> \<tau> left = st_bool \<sigma> \<tau> right))"
  using equivalent_exact_lemma [OF assms] st_bool_prop [of _ _ left] st_bool_prop [of _ _ right] by metis

theorem equivalent_exact_witness:
  "\<forall>\<sigma> \<tau>. st_bool \<sigma> \<tau> (SBoolean OpAnd (SBoolAtom (1 :: nat) False) (SBoolAtom 2 False) False) =
          st_bool \<sigma> \<tau> (SBoolean OpOr (SBoolAtom 1 True) (SBoolAtom 2 True) True)"
proof -
  have "equivalent (SBoolean OpAnd (SBoolAtom (1 :: nat) False) (SBoolAtom 2 False) False)
     (SBoolean OpOr (SBoolAtom 1 True) (SBoolAtom 2 True) True) default_budget = (Inr True, \<lparr>remaining = 4046\<rparr>)"
    by code_simp
  from equivalent_exact [OF this] show ?thesis by simp
qed

end
