(* ===== verification/Boolean_Normalize.thy ===== *)
theory Boolean_Normalize
  imports Scalar_Template
begin

text \<open>
  Normalisation of Boolean captures, \<open>src/src/predicate_logic/boolean_normalize.rs\<close>: negations are
  pushed down by De Morgan, nested conjunctions and disjunctions are flattened, sorted by the shape
  of their terms and rebuilt as a balanced tree. Every step charges the caller's budget.
\<close>

section \<open>The algorithm\<close>

primrec flatten ::
  "boolean_operation \<Rightarrow> ('a, 'r) logic_value \<Rightarrow> ('a, 'r) logic_value list \<Rightarrow> ('a, 'r) logic_value list lb" where
  "flatten op (VBoolBinary op' l r negated) terms =
     lb_then (charge 1)
       (if \<not> negated \<and> op' = op \<and> op \<noteq> OpEqual
        then lb_bind (flatten op l terms) (\<lambda>ts. flatten op r ts)
        else lb_return (terms @ [VBoolBinary op' l r negated]))"
| "flatten op (VBool v) terms = lb_then (charge 1) (lb_return (terms @ [VBool v]))"
| "flatten op (VBoolAtom a n k) terms = lb_then (charge 1) (lb_return (terms @ [VBoolAtom a n k]))"
| "flatten op (VBoolComparison t c l r n) terms =
     lb_then (charge 1) (lb_return (terms @ [VBoolComparison t c l r n]))"
| "flatten op (VWord w) terms = lb_then (charge 1) (lb_return (terms @ [VWord w]))"
| "flatten op (VResource r) terms = lb_then (charge 1) (lb_return (terms @ [VResource r]))"
| "flatten op (VResourceAtom a) terms = lb_then (charge 1) (lb_return (terms @ [VResourceAtom a]))"

text \<open>
  The source recurses on slices. On the empty slice, which no caller passes, the recursion charges
  one unit per level and never shrinks, so it ends with the budget used up.
\<close>

function balanced :: "boolean_operation \<Rightarrow> ('a, 'r) logic_value list \<Rightarrow> ('a, 'r) logic_value lb" where
  "balanced op [] = (\<lambda>b. (Inl Budget, b\<lparr>remaining := 0\<rparr>))"
| "balanced op [v] = lb_then (charge 1) (lb_return v)"
| "balanced op (v # w # vs) =
     (let terms = v # w # vs; middle = length terms div 2 in
      lb_then (charge 1)
        (lb_bind (balanced op (take middle terms)) (\<lambda>l.
         lb_bind (balanced op (drop middle terms)) (\<lambda>r.
         lb_return (VBoolBinary op l r False)))))"
  by pat_completeness auto
termination
  by (relation "measure (\<lambda>(op, terms). length terms)") auto

text \<open>
  The insertion sort works in place on an array; the part already sorted is kept here with its
  last element first, which is the order in which the inner loop visits it.
\<close>

fun insert_back :: "'k::linorder \<times> 'v \<Rightarrow> ('k \<times> 'v) list \<Rightarrow> ('k \<times> 'v) list lb" where
  "insert_back x [] = lb_return [x]"
| "insert_back x (y # ys) =
     lb_then (charge 1)
       (if fst y \<le> fst x then lb_return (x # y # ys)
        else lb_bind (insert_back x ys) (\<lambda>zs. lb_return (y # zs)))"

definition sort_keyed :: "('k::linorder \<times> 'v) list \<Rightarrow> ('k \<times> 'v) list lb" where
  "sort_keyed xs = lb_bind (lb_fold insert_back xs []) (\<lambda>sorted. lb_return (rev sorted))"

definition keyed_term :: "('a::linorder, 'r) logic_value \<Rightarrow> ('a scalar_template \<times> ('a, 'r) logic_value) lb" where
  "keyed_term term = lb_bind (capture (\<lambda>a _. lb_return a) term) (\<lambda>key. lb_return (key, term))"

definition check_operand :: "'a affine_value \<Rightarrow> unit lb" where
  "check_operand word =
     lb_then (charge (length (av_terms word)))
       (if length (av_terms word) > MAX_LINEAR_TERMS then lb_throw Budget
        else if av_lower word > av_upper word then lb_throw InvalidNode
        else lb_return ())"

definition swap_operands :: "word_comparison \<Rightarrow> 'a::linorder affine_value \<Rightarrow> 'a affine_value \<Rightarrow> bool" where
  "swap_operands c l r = (c = WEqual \<and> (av_constant l, av_terms l) > (av_constant r, av_terms r))"

fun push_negation :: "boolean_operation \<Rightarrow> bool \<Rightarrow> boolean_operation \<times> bool \<times> bool" where
  "push_negation OpAnd True = (OpOr, True, False)"
| "push_negation OpOr True = (OpAnd, True, False)"
| "push_negation op negate = (op, False, negate)"

primrec normalize :: "('a::linorder, 'r) logic_value \<Rightarrow> bool \<Rightarrow> ('a, 'r) logic_value lb" where
  "normalize (VBool v) invert = lb_then (charge 1) (lb_return (VBool (map_option (\<lambda>b. b \<noteq> invert) v)))"
| "normalize (VBoolAtom a negated known) invert =
     lb_then (charge 1) (lb_return (VBoolAtom a (negated \<noteq> invert) known))"
| "normalize (VBoolComparison t c l r negated) invert =
     lb_then (charge 1) (lb_then (check_operand l) (lb_then (check_operand r)
       (lb_return
         (if swap_operands c l r then VBoolComparison t c r l (negated \<noteq> invert)
          else VBoolComparison t c l r (negated \<noteq> invert)))))"
| "normalize (VBoolBinary op l r negated) invert =
     lb_then (charge 1)
       (case push_negation op (invert \<noteq> negated) of (op', child_invert, result_invert) \<Rightarrow>
          lb_bind (normalize l child_invert) (\<lambda>left.
          lb_bind (normalize r child_invert) (\<lambda>right.
          lb_bind (flatten op' left []) (\<lambda>ls.
          lb_bind (flatten op' right ls) (\<lambda>terms.
          lb_bind (lb_map keyed_term terms) (\<lambda>keyed.
          lb_bind (sort_keyed keyed) (\<lambda>sorted.
          lb_bind (balanced op' (map snd sorted)) (\<lambda>result.
          lb_return (if result_invert then bool_not result else result)))))))))"
| "normalize (VWord w) invert = lb_then (charge 1) (lb_throw TypeMismatch)"
| "normalize (VResource r) invert = lb_then (charge 1) (lb_throw TypeMismatch)"
| "normalize (VResourceAtom a) invert = lb_then (charge 1) (lb_throw TypeMismatch)"

definition canonical_boolean_capture :: "('a::linorder, 'r) logic_value \<Rightarrow> ('a, 'r) logic_value lb" where
  "canonical_boolean_capture v =
     (if \<not> is_boolean v then lb_throw TypeMismatch
      else
        lb_bind (capture_leaves v) (\<lambda>_.
        lb_bind (normalize v False) (\<lambda>value.
        lb_bind (capture_leaves value) (\<lambda>_. lb_return value))))"

section \<open>Lists of terms under one operation\<close>

definition op_unit :: "boolean_operation \<Rightarrow> bool" where
  "op_unit op = (op \<noteq> OpOr)"

lemma op_sem_unit [simp]: "op_sem op (op_unit op) x = x" "op_sem op x (op_unit op) = x"
  by (cases op; auto simp: op_unit_def)+

lemma op_sem_assoc: "op_sem op (op_sem op x y) z = op_sem op x (op_sem op y z)"
  by (cases op) auto

lemma op_sem_commute: "op_sem op x y = op_sem op y x"
  by (cases op) auto

fun lv_terms :: "('a, 'r) valuation \<Rightarrow> boolean_operation \<Rightarrow> ('a, 'r) logic_value list \<Rightarrow> bool \<Rightarrow> bool" where
  "lv_terms \<rho> op [] t = (t = op_unit op)"
| "lv_terms \<rho> op (v # vs) t = (\<exists>x y. lv_bool \<rho> v x \<and> lv_terms \<rho> op vs y \<and> t = op_sem op x y)"

lemma lv_terms_single [simp]: "lv_terms \<rho> op [v] t = lv_bool \<rho> v t"
  by auto

lemma lv_terms_append:
  "lv_terms \<rho> op (vs @ ws) t \<longleftrightarrow>
     (\<exists>x y. lv_terms \<rho> op vs x \<and> lv_terms \<rho> op ws y \<and> t = op_sem op x y)"
proof (induction vs arbitrary: t)
  case (Cons v vs)
  show ?case unfolding append_Cons lv_terms.simps Cons.IH
  proof
    assume "\<exists>x y. lv_bool \<rho> v x \<and>
        (\<exists>a b. lv_terms \<rho> op vs a \<and> lv_terms \<rho> op ws b \<and> y = op_sem op a b) \<and> t = op_sem op x y"
    then obtain x a b where "lv_bool \<rho> v x" "lv_terms \<rho> op vs a" "lv_terms \<rho> op ws b"
      "t = op_sem op (op_sem op x a) b"
      unfolding op_sem_assoc by blast
    then show "\<exists>x y. (\<exists>p q. lv_bool \<rho> v p \<and> lv_terms \<rho> op vs q \<and> x = op_sem op p q) \<and>
        lv_terms \<rho> op ws y \<and> t = op_sem op x y" by blast
  next
    assume "\<exists>x y. (\<exists>p q. lv_bool \<rho> v p \<and> lv_terms \<rho> op vs q \<and> x = op_sem op p q) \<and>
        lv_terms \<rho> op ws y \<and> t = op_sem op x y"
    then obtain p q y where "lv_bool \<rho> v p" "lv_terms \<rho> op vs q" "lv_terms \<rho> op ws y"
      "t = op_sem op p (op_sem op q y)"
      unfolding op_sem_assoc [symmetric] by blast
    then show "\<exists>x y. lv_bool \<rho> v x \<and>
        (\<exists>a b. lv_terms \<rho> op vs a \<and> lv_terms \<rho> op ws b \<and> y = op_sem op a b) \<and> t = op_sem op x y"
      by blast
  qed
qed auto

lemma lv_terms_commute: "lv_terms \<rho> op (vs @ ws) t \<longleftrightarrow> lv_terms \<rho> op (ws @ vs) t"
  unfolding lv_terms_append by (metis op_sem_commute)

lemma lv_terms_cong:
  "(\<And>t. lv_terms \<rho> op vs t = lv_terms \<rho> op ws t) \<Longrightarrow> lv_terms \<rho> op (us @ vs) t = lv_terms \<rho> op (us @ ws) t"
  by (simp add: lv_terms_append)

lemma lv_terms_swap: "lv_terms \<rho> op (v # w # vs) t \<longleftrightarrow> lv_terms \<rho> op (w # v # vs) t"
  using lv_terms_append [of \<rho> op "[v, w]" vs t] lv_terms_append [of \<rho> op "[w, v]" vs t]
    lv_terms_commute [of \<rho> op "[v]" "[w]"] by simp

lemma lv_terms_rev: "lv_terms \<rho> op (rev vs) t \<longleftrightarrow> lv_terms \<rho> op vs t"
proof (induction vs arbitrary: t)
  case (Cons v vs)
  have "lv_terms \<rho> op (rev vs @ [v]) t \<longleftrightarrow> lv_terms \<rho> op ([v] @ rev vs) t" by (rule lv_terms_commute)
  also have "\<dots> \<longleftrightarrow> lv_terms \<rho> op ([v] @ vs) t" by (rule lv_terms_cong) (rule Cons.IH)
  finally show ?case by simp
qed simp

lemma lb_bind_assoc: "lb_bind (lb_bind m f) g = lb_bind m (\<lambda>x. lb_bind (f x) g)"
  by (rule ext) (auto simp: lb_bind_def split: prod.splits sum.splits)

section \<open>Meaning is preserved\<close>

lemma flatten_post:
  "lb_post (flatten op v terms)
    (\<lambda>ts. \<exists>new. ts = terms @ new \<and> new \<noteq> [] \<and> (\<forall>\<rho> t. lv_terms \<rho> op new t = lv_bool \<rho> v t))"
proof (induction v arbitrary: terms)
  case (VBoolBinary op' l r n)
  have nested: "lb_post (lb_bind (flatten op l terms) (\<lambda>ts. flatten op r ts))
      (\<lambda>ts. \<exists>new. ts = terms @ new \<and> new \<noteq> [] \<and>
        (\<forall>\<rho> t. lv_terms \<rho> op new t = lv_bool \<rho> (VBoolBinary op l r False) t))"
  proof (rule lb_post_bind [OF VBoolBinary.IH(1)], erule exE, rule lb_post_mono [OF VBoolBinary.IH(2)], elim exE conjE)
    fix ts us ls rs
    assume "ts = terms @ ls" "us = ts @ rs" "ls \<noteq> []"
      "\<forall>\<rho> t. lv_terms \<rho> op ls t = lv_bool \<rho> l t" "\<forall>\<rho> t. lv_terms \<rho> op rs t = lv_bool \<rho> r t"
    then show "\<exists>new. us = terms @ new \<and> new \<noteq> [] \<and>
        (\<forall>\<rho> t. lv_terms \<rho> op new t = lv_bool \<rho> (VBoolBinary op l r False) t)"
      by (intro exI [of _ "ls @ rs"]) (auto simp: lv_terms_append)
  qed
  show ?case unfolding flatten.simps
    using nested
    by (intro lb_post_then lb_post_if) (auto intro!: lb_post_return simp del: lv_bool.simps lv_terms.simps)
qed (auto intro!: lb_rules simp del: lv_bool.simps lv_terms.simps)

lemma balanced_post:
  "terms \<noteq> [] \<Longrightarrow> lb_post (balanced op terms) (\<lambda>v. \<forall>\<rho> t. lv_bool \<rho> v t = lv_terms \<rho> op terms t)"
proof (induction op terms rule: balanced.induct)
  case (3 op v w vs)
  let ?ts = "v # w # vs" and ?m = "length (v # w # vs) div 2"
  have "take ?m ?ts \<noteq> []" "drop ?m ?ts \<noteq> []" by auto
  note IH = "3.IH"(1) [OF refl refl this(1)] "3.IH"(2) [OF refl refl this(2)]
  show ?case unfolding balanced.simps Let_def
    by (rule lb_post_then, rule lb_post_bind [OF IH(1)], rule lb_post_bind [OF IH(2)], rule lb_post_return)
      (simp only: lv_bool.simps lv_terms_append [of _ op "take ?m ?ts" "drop ?m ?ts", unfolded append_take_drop_id],
       blast)
qed (auto intro!: lb_rules)

lemma lb_post_conj: "lb_post m P \<Longrightarrow> lb_post m Q \<Longrightarrow> lb_post m (\<lambda>x. P x \<and> Q x)"
  by (auto simp: lb_post_def)

lemma insert_back_post:
  fixes x :: "'k::linorder \<times> ('a, 'r) logic_value"
  shows "lb_post (insert_back x ys) (\<lambda>zs. \<forall>\<rho> op t. lv_terms \<rho> op (map snd zs) t = lv_terms \<rho> op (map snd (x # ys)) t)"
proof (induction ys)
  case (Cons y ys)
  show ?case unfolding insert_back.simps
  proof (intro lb_post_then lb_post_if lb_post_return)
    show "lb_post (lb_bind (insert_back x ys) (\<lambda>zs. lb_return (y # zs)))
        (\<lambda>zs. \<forall>\<rho> op t. lv_terms \<rho> op (map snd zs) t = lv_terms \<rho> op (map snd (x # y # ys)) t)"
    proof (rule lb_post_bind [OF Cons.IH], rule lb_post_return, intro allI)
      fix zs :: "('k \<times> ('a, 'r) logic_value) list" and \<rho> op t
      assume zs: "\<forall>(\<rho> :: ('a, 'r) valuation) op t.
        lv_terms \<rho> op (map snd zs) t = lv_terms \<rho> op (map snd (x # ys)) t"
      have "lv_terms \<rho> op (snd y # map snd zs) t = lv_terms \<rho> op (snd y # snd x # map snd ys) t"
        using lv_terms_cong [of \<rho> op "map snd zs" "map snd (x # ys)" "[snd y]" t] zs by simp
      then show "lv_terms \<rho> op (map snd (y # zs)) t = lv_terms \<rho> op (map snd (x # y # ys)) t"
        using lv_terms_swap [of \<rho> op "snd y" "snd x" "map snd ys" t] by (simp only: list.map)
    qed
  qed simp
qed (auto intro!: lb_rules)

lemma insert_back_sorted:
  "sorted_wrt (\<lambda>a b. fst b \<le> fst a) ys \<Longrightarrow>
    lb_post (insert_back x ys) (\<lambda>zs. sorted_wrt (\<lambda>a b. fst b \<le> fst a) zs \<and> set zs = insert x (set ys) \<and> length zs = Suc (length ys))"
proof (induction ys)
  case (Cons y ys)
  have IH: "lb_post (insert_back x ys) (\<lambda>zs. sorted_wrt (\<lambda>a b. fst b \<le> fst a) zs \<and> set zs = insert x (set ys) \<and> length zs = Suc (length ys))"
    using Cons by simp
  show ?case unfolding insert_back.simps
    by (intro lb_post_then lb_post_if lb_post_return lb_post_bind [OF IH])
      (use Cons.prems in \<open>auto intro: order_trans\<close>)
qed (auto intro!: lb_rules)

lemma sort_keyed_post:
  fixes xs :: "('k::linorder \<times> ('a, 'r) logic_value) list"
  shows "lb_post (sort_keyed xs)
    (\<lambda>ys. (\<forall>\<rho> op t. lv_terms \<rho> op (map snd ys) t = lv_terms \<rho> op (map snd xs) t) \<and>
          sorted (map fst ys) \<and> set ys = set xs \<and> length ys = length xs)"
proof -
  let ?I = "\<lambda>(pre :: ('k \<times> ('a, 'r) logic_value) list) (acc :: ('k \<times> ('a, 'r) logic_value) list).
    (\<forall>\<rho> op t. lv_terms \<rho> op (map snd acc) t = lv_terms \<rho> op (map snd pre) t) \<and>
    sorted_wrt (\<lambda>a b. fst b \<le> fst a) acc \<and> set acc = set pre \<and> length acc = length pre"
  have "lb_post (lb_fold insert_back xs []) (?I xs)"
  proof (rule lb_post_fold_prefix)
    fix pre zs acc and x :: "'k \<times> ('a, 'r) logic_value"
    assume I: "?I pre acc"
    have "lv_terms \<rho> op (map snd (x # acc)) t = lv_terms \<rho> op (map snd (pre @ [x])) t"
      for \<rho> :: "('a, 'r) valuation" and op t
      using I lv_terms_cong [of \<rho> op "map snd acc" "map snd pre" "[snd x]" t]
        lv_terms_commute [of \<rho> op "map snd pre" "[snd x]" t] by simp
    then show "lb_post (insert_back x acc) (?I (pre @ [x]))"
      using I by (intro lb_post_mono [OF lb_post_conj [OF insert_back_post [of x acc] insert_back_sorted [of acc x]]])
        auto
  qed simp
  then show ?thesis unfolding sort_keyed_def
    by (rule lb_post_bind)
      (auto intro!: lb_post_return simp: rev_map [symmetric] lv_terms_rev sorted_wrt_rev sorted_wrt_map)
qed

lemma keyed_terms_post:
  fixes terms :: "('a::linorder, 'r) logic_value list"
  shows "lb_post (lb_map keyed_term terms) (\<lambda>keyed. map snd keyed = terms)"
proof (rule lb_post_mono [OF lb_post_map])
  show "lb_post (keyed_term v) (\<lambda>k. snd k = v)" for v :: "('a, 'r) logic_value"
    unfolding keyed_term_def by (rule lb_post_bind [where Q = "\<lambda>_. True"]) (auto intro!: lb_rules)
  show "map snd keyed = terms" if "list_all2 (\<lambda>v k. snd k = v) terms keyed"
    for keyed :: "('a scalar_template \<times> ('a, 'r) logic_value) list"
    using that by (induction rule: list_all2_induct) auto
qed

lemma push_negation_sound:
  assumes "push_negation op neg = (op', child, res)"
  shows "op_sem op' (x \<noteq> child) (y \<noteq> child) = ((op_sem op x y \<noteq> neg) \<noteq> res)"
    and "res \<Longrightarrow> op' = OpEqual"
  using assms by (cases op; cases neg; auto)+

text \<open>Negation is only left on leaves and on equalities.\<close>

primrec negation_normal :: "('a, 'r) logic_value \<Rightarrow> bool" where
  "negation_normal (VBoolBinary op l r n) =
     ((n \<longrightarrow> op = OpEqual) \<and> negation_normal l \<and> negation_normal r)"
| "negation_normal (VWord w) = True"
| "negation_normal (VBool v) = True"
| "negation_normal (VBoolAtom a n k) = True"
| "negation_normal (VBoolComparison t c l r n) = True"
| "negation_normal (VResource r) = True"
| "negation_normal (VResourceAtom a) = True"

lemma flatten_normal:
  "negation_normal v \<Longrightarrow> \<forall>u \<in> set terms. negation_normal u \<Longrightarrow>
    lb_post (flatten op v terms) (\<lambda>ts. (\<forall>u \<in> set ts. negation_normal u) \<and> length terms < length ts)"
proof (induction v arbitrary: terms)
  case (VBoolBinary op' l r n)
  have "lb_post (lb_bind (flatten op l terms) (\<lambda>ts. flatten op r ts))
      (\<lambda>ts. (\<forall>u \<in> set ts. negation_normal u) \<and> length terms < length ts)"
    by (rule lb_post_bind [OF VBoolBinary.IH(1)], use VBoolBinary.prems in simp_all,
        rule lb_post_mono [OF VBoolBinary.IH(2)], use VBoolBinary.prems in auto)
  then show ?case unfolding flatten.simps
    by (intro lb_post_then lb_post_if) (use VBoolBinary.prems in \<open>auto intro!: lb_post_return\<close>)
qed (auto intro!: lb_rules)

lemma balanced_normal:
  "\<forall>u \<in> set terms. negation_normal u \<Longrightarrow>
    lb_post (balanced op terms)
      (\<lambda>v. negation_normal v \<and> (2 \<le> length terms \<longrightarrow> (\<exists>l r. v = VBoolBinary op l r False)))"
proof (induction op terms rule: balanced.induct)
  case (1 op)
  then show ?case by (simp add: lb_post_def)
next
  case (3 op v w vs)
  let ?ts = "v # w # vs" and ?m = "length (v # w # vs) div 2"
  have "\<forall>u \<in> set (take ?m ?ts). negation_normal u" "\<forall>u \<in> set (drop ?m ?ts). negation_normal u"
    using "3.prems" by (meson in_set_takeD in_set_dropD)+
  note IH = "3.IH"(1) [OF refl refl this(1)] "3.IH"(2) [OF refl refl this(2)]
  show ?case unfolding balanced.simps Let_def
    by (rule lb_post_then, rule lb_post_bind [OF IH(1)], rule lb_post_bind [OF IH(2)], rule lb_post_return) auto
qed (auto intro!: lb_rules)

definition normalized :: "bool \<Rightarrow> ('a, 'r) logic_value \<Rightarrow> ('a, 'r) logic_value \<Rightarrow> bool" where
  "normalized invert v u = ((\<forall>\<rho> t. lv_bool \<rho> u t = lv_bool \<rho> v (t \<noteq> invert)) \<and> negation_normal u)"

lemma rebuild_post:
  assumes "negation_normal l" "negation_normal r"
  shows "lb_post (lb_bind (flatten op l []) (\<lambda>ls. lb_bind (flatten op r ls) (\<lambda>terms.
      lb_bind (lb_map keyed_term terms) (\<lambda>keyed. lb_bind (sort_keyed keyed) (\<lambda>sorted.
      balanced op (map snd sorted))))))
    (\<lambda>v. (\<forall>\<rho> t. lv_bool \<rho> v t = lv_bool \<rho> (VBoolBinary op l r False) t) \<and> negation_normal v \<and>
         (\<exists>a b. v = VBoolBinary op a b False))"
proof (rule lb_post_bind [OF lb_post_conj [OF flatten_post flatten_normal]],
    use assms in simp_all, elim conjE exE, rule lb_post_bind [OF lb_post_conj [OF flatten_post flatten_normal]],
    use assms in simp_all, elim conjE exE, rule lb_post_bind [OF keyed_terms_post],
    rule lb_post_bind [OF sort_keyed_post], elim conjE)
  fix terms ls rs keyed sorted
  assume a: "\<forall>u \<in> set terms. negation_normal u" "ls \<noteq> []" "length ls < length terms" "terms = ls @ rs"
    "\<forall>\<rho> t. lv_terms \<rho> op ls t = lv_bool \<rho> l t" "\<forall>\<rho> t. lv_terms \<rho> op rs t = lv_bool \<rho> r t"
    and k: "map snd keyed = terms"
    and s: "\<forall>\<rho> op t. lv_terms \<rho> op (map snd sorted) t = lv_terms \<rho> op (map snd keyed) t"
      "set sorted = set keyed" "length sorted = length keyed"
  show "lb_post (balanced op (map snd sorted))
    (\<lambda>v. (\<forall>\<rho> t. lv_bool \<rho> v t = (\<exists>x. lv_bool \<rho> l x \<and> (\<exists>y. lv_bool \<rho> r y \<and> t = op_sem op x y))) \<and>
      negation_normal v \<and> (\<exists>a b. v = VBoolBinary op a b False))"
  proof (rule lb_post_mono [OF lb_post_conj [OF balanced_post balanced_normal]])
    have len: "length (map snd sorted) = length terms" using k s(3) by (metis length_map)
    then show "map snd sorted \<noteq> []" using a(2,3) by auto
    have "set (map snd sorted) = set terms" using k s(2) by (metis list.set_map)
    then show "\<forall>u \<in> set (map snd sorted). negation_normal u" using a(1) by simp
    fix v
    assume v: "(\<forall>\<rho> t. lv_bool \<rho> v t = lv_terms \<rho> op (map snd sorted) t) \<and> negation_normal v \<and>
      (2 \<le> length (map snd sorted) \<longrightarrow> (\<exists>l r. v = VBoolBinary op l r False))"
    moreover have "2 \<le> length (map snd sorted)" using len a(2,3) by (cases ls) auto
    moreover have "lv_terms \<rho> op (map snd sorted) t =
        (\<exists>x. lv_bool \<rho> l x \<and> (\<exists>y. lv_bool \<rho> r y \<and> t = op_sem op x y))" for \<rho> t
      using s(1) k a(4-6) by (auto simp: lv_terms_append)
    ultimately show "(\<forall>\<rho> t. lv_bool \<rho> v t =
        (\<exists>x. lv_bool \<rho> l x \<and> (\<exists>y. lv_bool \<rho> r y \<and> t = op_sem op x y))) \<and>
        negation_normal v \<and> (\<exists>a b. v = VBoolBinary op a b False)" by blast
  qed
qed

lemma normalize_post: "lb_post (normalize v invert) (normalized invert v)"
proof (induction v arbitrary: invert)
  case (VBoolBinary op l r n)
  obtain op' child res where p: "push_negation op (invert \<noteq> n) = (op', child, res)" by (metis surj_pair)
  note sem = push_negation_sound [OF p]
  have assoc: "lb_bind (flatten op' a []) (\<lambda>ls. lb_bind (flatten op' c ls) (\<lambda>terms.
      lb_bind (lb_map keyed_term terms) (\<lambda>keyed. lb_bind (sort_keyed keyed) (\<lambda>sorted.
      lb_bind (balanced op' (map snd sorted)) k)))) =
    lb_bind (lb_bind (flatten op' a []) (\<lambda>ls. lb_bind (flatten op' c ls) (\<lambda>terms.
      lb_bind (lb_map keyed_term terms) (\<lambda>keyed. lb_bind (sort_keyed keyed) (\<lambda>sorted.
      balanced op' (map snd sorted)))))) k" for a c and k :: "('a, 'b) logic_value \<Rightarrow> ('a, 'b) logic_value lb"
    by (simp only: lb_bind_assoc)
  show ?case unfolding normalize.simps p prod.case assoc
  proof (rule lb_post_then, rule lb_post_bind [OF VBoolBinary.IH(1)], rule lb_post_bind [OF VBoolBinary.IH(2)],
      rule lb_post_bind [OF rebuild_post], simp add: normalized_def, simp add: normalized_def, rule lb_post_return,
      elim conjE exE)
    fix left right v a b
    assume left: "normalized child l left" and right: "normalized child r right"
      and v: "\<forall>\<rho> t. lv_bool \<rho> v t = lv_bool \<rho> (VBoolBinary op' left right False) t" "negation_normal v"
        "v = VBoolBinary op' a b False"
    have mean: "lv_bool \<rho> v (t \<noteq> res) = lv_bool \<rho> (VBoolBinary op l r n) (t \<noteq> invert)" for \<rho> t
    proof -
      have flip: "(\<exists>x y. P (x \<noteq> child) \<and> Q (y \<noteq> child) \<and> R x y) \<longleftrightarrow>
          (\<exists>x y. P x \<and> Q y \<and> R (x \<noteq> child) (y \<noteq> child))" for P Q :: "bool \<Rightarrow> bool" and R
        by (cases child) (auto simp: ex_bool_eq)
      have eq: "((t \<noteq> res) = op_sem op' (x \<noteq> child) (y \<noteq> child)) = ((t \<noteq> invert) = (op_sem op x y \<noteq> n))" for x y
        using sem(1) [of x y] by auto
      have "lv_bool \<rho> v (t \<noteq> res) \<longleftrightarrow>
          (\<exists>x y. lv_bool \<rho> l (x \<noteq> child) \<and> lv_bool \<rho> r (y \<noteq> child) \<and> (t \<noteq> res) = op_sem op' x y)"
        using v(1) left right by (simp add: normalized_def)
      also have "\<dots> \<longleftrightarrow> (\<exists>x y. lv_bool \<rho> l x \<and> lv_bool \<rho> r y \<and>
          (t \<noteq> res) = op_sem op' (x \<noteq> child) (y \<noteq> child))"
        by (rule flip)
      finally show ?thesis unfolding eq by simp
    qed
    show "normalized invert (VBoolBinary op l r n) (if res then bool_not v else v)"
    proof (cases res)
      case True
      have "negation_normal (bool_not v)" using v(2) sem(2) [OF True] by (simp add: v(3))
      moreover have "is_boolean v" by (simp add: v(3))
      ultimately show ?thesis using mean True by (simp add: normalized_def bool_not_sound del: lv_bool.simps)
    next
      case False
      then show ?thesis using mean v(2) by (simp add: normalized_def del: lv_bool.simps)
    qed
  qed
next
  case (VBool k)
  then show ?case by (cases k) (auto simp: normalized_def intro!: lb_rules)
next
  case (VBoolComparison t c l r n)
  show ?case unfolding normalize.simps
    by (intro lb_post_then lb_post_return) (cases c; auto simp: normalized_def swap_operands_def)
qed (auto simp: normalized_def intro!: lb_rules)

text \<open>C22: Canonicalising a capture preserves its meaning under every valuation, anonymous unknowns
  included, and leaves negation only on leaves and on equalities.\<close>

theorem canonical_boolean_capture_sound:
  assumes "canonical_boolean_capture v b = (Inr u, b')"
  shows "(\<forall>\<rho> t. lv_bool \<rho> u t = lv_bool \<rho> v t) \<and> negation_normal u"
proof -
  from assms obtain b1 b2 where "normalize v False b1 = (Inr u, b2)"
    by (auto simp: canonical_boolean_capture_def lb_bind_Inr lb_simps split: if_splits)
  from lb_postD [OF normalize_post this] show ?thesis by (simp add: normalized_def)
qed

theorem canonical_boolean_capture_sound_witness:
  "\<forall>\<rho> t. lv_bool \<rho> (VBoolBinary OpOr (VBoolAtom (1 :: nat) True None) (VBoolAtom 2 True None) False) t =
     lv_bool \<rho> (VBoolBinary OpAnd (VBoolAtom 2 False None) (VBoolAtom 1 False None) True :: (nat, unit) logic_value) t"
proof -
  have "canonical_boolean_capture
      (VBoolBinary OpAnd (VBoolAtom 2 False None) (VBoolAtom (1 :: nat) False None) True :: (nat, unit) logic_value)
      \<lparr>remaining = 30\<rparr> =
    (Inr (VBoolBinary OpOr (VBoolAtom 1 True None) (VBoolAtom 2 True None) False), \<lparr>remaining = 13\<rparr>)"
    by code_simp
  from canonical_boolean_capture_sound [OF this] show ?thesis by blast
qed

end
