(* ===== verification/Difference_Graph.thy ===== *)
theory Difference_Graph
  imports Linear_Word "HOL-Library.Product_Lexorder" "HOL-Library.List_Lexorder" "HOL-Library.Option_ord"
begin

text \<open>
  The difference-constraint graph of \<open>src/src/predicate_logic/facts/linear.rs\<close>. A vertex is a set
  of linear terms, an edge \<open>u \<rightarrow> v\<close> of weight \<open>k\<close> states \<open>v \<le> u + k\<close>. Shortest paths are found
  by synchronous relaxation and cached until the graph changes. A method returns the updated
  graph; after an error the graph is not used again.
\<close>

section \<open>Comparisons\<close>

datatype comparison = CmpEqual | CmpLess | CmpLessEqual

fun directions :: "comparison \<Rightarrow> 'w \<Rightarrow> 'w \<Rightarrow> ('w \<times> 'w \<times> bool) list" where
  "directions CmpEqual a b = [(a, b, False), (b, a, False)]"
| "directions CmpLess a b = [(a, b, True)]"
| "directions CmpLessEqual a b = [(a, b, False)]"

fun compare_sem :: "comparison \<Rightarrow> int \<Rightarrow> int \<Rightarrow> bool" where
  "compare_sem CmpEqual x y = (x = y)"
| "compare_sem CmpLess x y = (x < y)"
| "compare_sem CmpLessEqual x y = (x \<le> y)"

definition i128_of_bool :: "bool \<Rightarrow> i128" where
  "i128_of_bool b = (if b then 1 else 0)"

section \<open>The graph\<close>

definition MAX_VERTICES :: nat where
  "MAX_VERTICES = MAX_EXPRESSION_NODES"

definition MAX_EDGES :: nat where
  "MAX_EDGES = MAX_SUBSTITUTION_NODES"

record 'a graph =
  g_vertices :: "(('a, i128) btmap, usize) btmap"
  g_edges :: "(usize \<times> usize, i128) btmap"
  g_distances :: "(usize option, i128 option list) btmap"

definition graph_new :: "'a graph" where
  "graph_new = \<lparr>g_vertices = [([], 0)], g_edges = [], g_distances = []\<rparr>"

definition clone_cost :: "'a graph \<Rightarrow> nat" where
  "clone_cost g = sum_list (map (\<lambda>terms. 1 + length terms) (bt_keys (g_vertices g))) +
     length (g_edges g) + sum_list (map (length \<circ> snd) (g_distances g))"

definition vertex :: "('a::linorder, i128) btmap \<Rightarrow> 'a graph \<Rightarrow> (usize \<times> 'a graph) lb" where
  "vertex terms g =
     lb_then (charge (1 + length terms))
       (case bt_get (g_vertices g) terms of
          Some i \<Rightarrow> lb_return (i, g)
        | None \<Rightarrow>
            if length terms > MAX_LINEAR_TERMS \<or> length (g_vertices g) \<ge> MAX_VERTICES then lb_throw Budget
            else lb_return (length (g_vertices g),
              g\<lparr>g_vertices := bt_insert terms (length (g_vertices g)) (g_vertices g), g_distances := []\<rparr>))"

definition edge :: "usize \<Rightarrow> usize \<Rightarrow> i128 \<Rightarrow> 'a graph \<Rightarrow> 'a graph lb" where
  "edge from to weight g =
     lb_then (charge 1)
       (case bt_get (g_edges g) (from, to) of
          Some old \<Rightarrow>
            lb_return (if weight < old
              then g\<lparr>g_edges := bt_insert (from, to) weight (g_edges g), g_distances := []\<rparr> else g)
        | None \<Rightarrow>
            if length (g_edges g) \<ge> MAX_EDGES then lb_throw Budget
            else lb_return (g\<lparr>g_edges := bt_insert (from, to) weight (g_edges g), g_distances := []\<rparr>))"

definition positive_terms :: "('a, i128) btmap \<Rightarrow> ('a, i128) btmap" where
  "positive_terms terms = filter (\<lambda>(a, n). n > 0) terms"

definition negative_terms :: "('a, i128) btmap \<Rightarrow> ('a, i128) btmap lresult" where
  "negative_terms terms =
     res_map (\<lambda>(a, n). res_bind (ok_or Overflow (i128_checked_neg n)) (\<lambda>m. Inr (a, m)))
       (filter (\<lambda>(a, n). \<not> n > 0) terms)"

definition signed_vertices ::
  "('a::linorder, i128) btmap \<Rightarrow> 'a graph \<Rightarrow> ((usize \<times> usize) \<times> 'a graph) lb" where
  "signed_vertices terms g =
     lb_bind (lb_lift (negative_terms terms)) (\<lambda>negative.
     lb_bind (vertex (positive_terms terms) g) (\<lambda>(p, g1).
     lb_bind (vertex negative g1) (\<lambda>(n, g2). lb_return ((p, n), g2))))"

definition word_vertex :: "'a::linorder linear_word \<Rightarrow> 'a graph \<Rightarrow> (usize \<times> 'a graph) lb" where
  "word_vertex word g =
     lb_bind (vertex (lw_terms word) g) (\<lambda>(i, g1).
     lb_bind (lb_lift (ok_or Overflow (i128_checked_sub (lw_upper word) (lw_constant word)))) (\<lambda>up.
     lb_bind (edge 0 i up g1) (\<lambda>g2.
     lb_bind (lb_lift (ok_or Overflow (i128_checked_sub (lw_constant word) (lw_lower word)))) (\<lambda>down.
     lb_bind (edge i 0 down g2) (\<lambda>g3. lb_return (i, g3))))))"

definition direction_weight :: "'a linear_word \<Rightarrow> 'a linear_word \<Rightarrow> bool \<Rightarrow> i128 lresult" where
  "direction_weight a b strict =
     ok_or Overflow
       (case i128_checked_sub (lw_constant b) (lw_constant a) of
          Some k \<Rightarrow> i128_checked_sub k (i128_of_bool strict)
        | None \<Rightarrow> None)"

definition comparison_direction ::
  "usize \<Rightarrow> usize \<Rightarrow> nat \<times> 'a::linorder linear_word \<times> 'a linear_word \<times> bool \<Rightarrow> 'a graph \<Rightarrow> 'a graph lb" where
  "comparison_direction a_id b_id direction g =
     (case direction of (index, a, b, strict) \<Rightarrow>
       lb_bind (lb_lift (direction_weight a b strict)) (\<lambda>weight.
       lb_bind (if index = 0 then edge b_id a_id weight g else edge a_id b_id weight g) (\<lambda>g1.
       lb_bind (lb_lift (lw_combine a b True)) (\<lambda>difference.
       lb_bind (signed_vertices (lw_terms difference) g1) (\<lambda>((to, from), g2).
       edge from to weight g2)))))"

definition add_comparison ::
  "comparison \<Rightarrow> 'a::linorder linear_word \<Rightarrow> 'a linear_word \<Rightarrow> 'a graph \<Rightarrow> 'a graph lb" where
  "add_comparison op a b g =
     lb_bind (word_vertex a g) (\<lambda>(a_id, g1).
     lb_bind (word_vertex b g1) (\<lambda>(b_id, g2).
     lb_fold (comparison_direction a_id b_id) (List.enumerate 0 (directions op a b)) g2))"

section \<open>Shortest paths\<close>

definition relax_edge ::
  "i128 option list \<Rightarrow> (usize \<times> usize) \<times> i128 \<Rightarrow> i128 option list \<times> bool \<Rightarrow> (i128 option list \<times> bool) lb" where
  "relax_edge distances e acc =
     lb_then (charge 1)
       (case e of ((from, to), weight) \<Rightarrow>
          (case distances ! from of
             None \<Rightarrow> lb_return acc
           | Some value \<Rightarrow>
               lb_bind (lb_lift (ok_or Overflow (i128_checked_add value weight))) (\<lambda>candidate.
               if (case fst acc ! to of None \<Rightarrow> True | Some old \<Rightarrow> candidate < old)
               then lb_return ((fst acc)[to := Some candidate], True)
               else lb_return acc)))"

fun relax_rounds :: "(usize \<times> usize, i128) btmap \<Rightarrow> nat \<Rightarrow> i128 option list \<Rightarrow> i128 option list lb" where
  "relax_rounds edges 0 distances = lb_throw Unproved"
| "relax_rounds edges (Suc rounds) distances =
     lb_then (charge (length distances))
       (lb_bind (lb_fold (relax_edge distances) edges (distances, False)) (\<lambda>(next, changed).
        if \<not> changed then lb_return distances
        else if rounds = 0 then lb_throw Unproved
        else relax_rounds edges rounds next))"

definition initial_distances :: "usize option \<Rightarrow> nat \<Rightarrow> i128 option list" where
  "initial_distances source n =
     (case source of Some s \<Rightarrow> (replicate n None)[s := Some 0] | None \<Rightarrow> replicate n (Some 0))"

definition find_distances :: "usize option \<Rightarrow> 'a graph \<Rightarrow> (i128 option list \<times> 'a graph) lb" where
  "find_distances source g =
     lb_then (charge (length (g_vertices g)))
       (case bt_get (g_distances g) source of
          Some saved \<Rightarrow> lb_return (saved, g)
        | None \<Rightarrow>
            lb_bind (relax_rounds (g_edges g) (length (g_vertices g))
                (initial_distances source (length (g_vertices g)))) (\<lambda>ds.
            lb_return (ds, g\<lparr>g_distances := bt_insert source ds (g_distances g)\<rparr>)))"

definition consistent :: "'a graph \<Rightarrow> 'a graph lb" where
  "consistent g = lb_bind (find_distances None g) (\<lambda>(_, g'). lb_return g')"

section \<open>Queries\<close>

definition goal_bound :: "'a linear_word \<Rightarrow> bool \<Rightarrow> i128 lresult" where
  "goal_bound difference strict =
     ok_or Overflow
       (case i128_checked_neg (lw_constant difference) of
          Some v \<Rightarrow> i128_checked_sub v (i128_of_bool strict)
        | None \<Rightarrow> None)"

definition register_goal ::
  "'a::linorder linear_word \<times> 'a linear_word \<times> bool \<Rightarrow> (usize \<times> usize \<times> i128) list \<times> 'a graph \<Rightarrow>
   ((usize \<times> usize \<times> i128) list \<times> 'a graph) lb" where
  "register_goal direction acc =
     (case direction of (a, b, strict) \<Rightarrow>
       lb_bind (lb_lift (lw_combine a b True)) (\<lambda>difference.
       lb_bind (signed_vertices (lw_terms difference) (snd acc)) (\<lambda>((to, from), g).
       lb_bind (lb_lift (goal_bound difference strict)) (\<lambda>bound.
       lb_return (fst acc @ [(from, to, bound)], g)))))"

definition within :: "i128 option \<Rightarrow> i128 \<Rightarrow> bool" where
  "within d bound = (case d of Some value \<Rightarrow> value \<le> bound | None \<Rightarrow> False)"

fun check_goals ::
  "usize \<Rightarrow> usize \<Rightarrow> (nat \<times> usize \<times> usize \<times> i128) list \<Rightarrow> 'a graph \<Rightarrow> (bool \<times> 'a graph) lb" where
  "check_goals a_id b_id [] g = lb_return (True, g)"
| "check_goals a_id b_id ((index, from, to, bound) # goals) g =
     lb_bind (find_distances (Some from) g) (\<lambda>(ds, g1).
     if within (ds ! to) bound then check_goals a_id b_id goals g1
     else
       let (from', to') = (if index = 0 then (b_id, a_id) else (a_id, b_id)) in
       lb_bind (find_distances (Some from') g1) (\<lambda>(ds', g2).
       if \<not> within (ds' ! to') bound then lb_return (False, g2)
       else check_goals a_id b_id goals g2))"

definition graph_entails ::
  "comparison \<Rightarrow> 'a::linorder linear_word \<Rightarrow> 'a linear_word \<Rightarrow> 'a graph \<Rightarrow> (bool \<times> 'a graph) lb" where
  "graph_entails op a b g =
     lb_bind (word_vertex a g) (\<lambda>(a_id, g1).
     lb_bind (word_vertex b g1) (\<lambda>(b_id, g2).
     lb_bind (lb_fold register_goal (directions op a b) ([], g2)) (\<lambda>(goals, g3).
     lb_bind (consistent g3) (\<lambda>g4.
     check_goals a_id b_id (List.enumerate 0 goals) g4))))"

definition tighten_upper ::
  "'a linear_word \<Rightarrow> usize \<Rightarrow> usize \<Rightarrow> i128 \<Rightarrow> 'a graph \<Rightarrow> (i128 \<times> 'a graph) lb" where
  "tighten_upper word negative positive upper g =
     lb_bind (find_distances (Some negative) g) (\<lambda>(ds, g1).
     case ds ! positive of
       None \<Rightarrow> lb_return (upper, g1)
     | Some bound \<Rightarrow>
         lb_bind (lb_lift (ok_or Overflow (i128_checked_add (lw_constant word) bound))) (\<lambda>v.
         lb_return (min upper v, g1)))"

definition tighten_lower ::
  "'a linear_word \<Rightarrow> usize \<Rightarrow> usize \<Rightarrow> i128 \<Rightarrow> 'a graph \<Rightarrow> (i128 \<times> 'a graph) lb" where
  "tighten_lower word negative positive lower g =
     lb_bind (find_distances (Some positive) g) (\<lambda>(ds, g1).
     case ds ! negative of
       None \<Rightarrow> lb_return (lower, g1)
     | Some bound \<Rightarrow>
         lb_bind (lb_lift (ok_or Overflow (i128_checked_sub (lw_constant word) bound))) (\<lambda>v.
         lb_return (max lower v, g1)))"

definition tightened_bounds ::
  "'a linear_word \<Rightarrow> usize \<Rightarrow> usize \<Rightarrow> usize \<Rightarrow> i128 \<Rightarrow> i128 \<Rightarrow> 'a graph \<Rightarrow> ((i128 \<times> i128) \<times> 'a graph) lb" where
  "tightened_bounds word i positive negative lower0 upper0 g5 =
     (if (negative, positive) \<noteq> (0, i) then
        lb_bind (tighten_upper word negative positive upper0 g5) (\<lambda>(upper, g6).
        lb_bind (tighten_lower word negative positive lower0 g6) (\<lambda>(lower, g7).
        lb_return ((lower, upper), g7)))
      else lb_return ((lower0, upper0), g5))"

definition graph_bounds :: "'a::linorder linear_word \<Rightarrow> 'a graph \<Rightarrow> ((i128 \<times> i128) \<times> 'a graph) lb" where
  "graph_bounds word g =
     lb_bind (word_vertex word g) (\<lambda>(i, g1).
     lb_bind (signed_vertices (lw_terms word) g1) (\<lambda>((positive, negative), g2).
     lb_bind (consistent g2) (\<lambda>g3.
     lb_bind (find_distances (Some 0) g3) (\<lambda>(ds, g4).
     lb_bind (lb_lift (ok_or Unproved (ds ! i))) (\<lambda>up.
     lb_bind (lb_lift (ok_or Overflow (i128_checked_add up (lw_constant word)))) (\<lambda>upper0.
     lb_bind (find_distances (Some i) g4) (\<lambda>(ds', g5).
     lb_bind (lb_lift (ok_or Unproved (ds' ! 0))) (\<lambda>down.
     lb_bind (lb_lift (ok_or Overflow (i128_checked_sub (lw_constant word) down))) (\<lambda>lower0.
     lb_bind (tightened_bounds word i positive negative lower0 upper0 g5) (\<lambda>((lower, upper), g8).
     if lower > upper then lb_throw Unproved else lb_return ((lower, upper), g8)))))))))))"

section \<open>Invariant and meaning\<close>

definition labels :: "(usize \<Rightarrow> int) \<Rightarrow> ('a \<Rightarrow> int) \<Rightarrow> 'a::linorder graph \<Rightarrow> bool" where
  "labels f \<rho> g = (\<forall>t i. bt_get (g_vertices g) t = Some i \<longrightarrow> f i = lin_sum \<rho> t)"

definition edges_hold :: "(usize \<Rightarrow> int) \<Rightarrow> (usize \<times> usize, i128) btmap \<Rightarrow> bool" where
  "edges_hold f es = (\<forall>u v w. ((u, v), w) \<in> set es \<longrightarrow> f v \<le> f u + w)"

definition graph_sat :: "('a \<Rightarrow> int) \<Rightarrow> 'a::linorder graph \<Rightarrow> bool" where
  "graph_sat \<rho> g = (\<exists>f. labels f \<rho> g \<and> edges_hold f (g_edges g))"

definition reaches :: "(usize \<Rightarrow> int) \<Rightarrow> usize option \<Rightarrow> i128 option list \<Rightarrow> bool" where
  "reaches f source ds =
     (\<forall>s v d. source = Some s \<longrightarrow> v < length ds \<longrightarrow> ds ! v = Some d \<longrightarrow> f v \<le> f s + d)"

definition relaxed :: "i128 option list \<Rightarrow> ((usize \<times> usize) \<times> i128) list \<Rightarrow> bool" where
  "relaxed ds es =
     (\<forall>u v w d. ((u, v), w) \<in> set es \<longrightarrow> ds ! u = Some d \<longrightarrow> (\<exists>d'. ds ! v = Some d' \<and> d' \<le> d + w))"

definition below :: "i128 option list \<Rightarrow> i128 option list \<Rightarrow> bool" where
  "below ds ds' = (\<forall>v < length ds. \<forall>d. ds ! v = Some d \<longrightarrow> (\<exists>d'. ds' ! v = Some d' \<and> d' \<le> d))"

definition paths_ok :: "(usize \<times> usize, i128) btmap \<Rightarrow> nat \<Rightarrow> usize option \<Rightarrow> i128 option list \<Rightarrow> bool" where
  "paths_ok es n source ds =
     (length ds = n \<and> (\<forall>f. edges_hold f es \<longrightarrow> reaches f source ds) \<and>
      below (initial_distances source n) ds \<and> relaxed ds es)"

definition graph_ok :: "'a::linorder graph \<Rightarrow> bool" where
  "graph_ok g =
     (bt_sorted (g_vertices g) \<and> bt_sorted (g_edges g) \<and> bt_sorted (g_distances g) \<and>
      bt_get (g_vertices g) [] = Some 0 \<and>
      (\<forall>t i. bt_get (g_vertices g) t = Some i \<longrightarrow> i < length (g_vertices g)) \<and>
      (\<forall>u v w. ((u, v), w) \<in> set (g_edges g) \<longrightarrow> u < length (g_vertices g) \<and> v < length (g_vertices g)) \<and>
      (\<forall>source ds. bt_get (g_distances g) source = Some ds \<longrightarrow>
         paths_ok (g_edges g) (length (g_vertices g)) source ds))"

definition good :: "('a \<Rightarrow> int) \<Rightarrow> 'a::linorder graph \<Rightarrow> bool" where
  "good \<rho> g = (graph_ok g \<and> graph_sat \<rho> g)"

abbreviation vertex_of :: "'a::linorder graph \<Rightarrow> ('a, i128) btmap \<Rightarrow> usize \<Rightarrow> bool" where
  "vertex_of g t i \<equiv> bt_get (g_vertices g) t = Some i"

definition g_extends :: "'a::linorder graph \<Rightarrow> 'a graph \<Rightarrow> bool" where
  "g_extends g g' = (\<forall>t i. vertex_of g t i \<longrightarrow> vertex_of g' t i)"

lemma g_extends_refl [simp]: "g_extends g g"
  by (simp add: g_extends_def)

lemma g_extends_trans: "g_extends g h \<Longrightarrow> g_extends h k \<Longrightarrow> g_extends g k"
  by (simp add: g_extends_def)

lemma g_extendsD: "g_extends g g' \<Longrightarrow> vertex_of g t i \<Longrightarrow> vertex_of g' t i"
  by (simp add: g_extends_def)

lemma g_extends_same: "g_vertices g' = g_vertices g \<Longrightarrow> g_extends g g'"
  by (simp add: g_extends_def)

lemma good_new: "good \<rho> graph_new"
proof -
  have "labels (\<lambda>_. 0) \<rho> graph_new" by (simp add: labels_def graph_new_def split: if_splits)
  then show ?thesis
    by (auto simp: good_def graph_ok_def graph_sat_def graph_new_def edges_hold_def split: if_splits)
qed

lemma lb_post_bind2:
  "lb_post m Q \<Longrightarrow> (\<And>a b. Q (a, b) \<Longrightarrow> lb_post (f a b) P) \<Longrightarrow> lb_post (lb_bind m (\<lambda>(a, b). f a b)) P"
  by (rule lb_post_bind [where Q = Q]) auto

lemma lb_post_bind3:
  "lb_post m Q \<Longrightarrow> (\<And>a b c. Q ((a, b), c) \<Longrightarrow> lb_post (f a b c) P) \<Longrightarrow>
    lb_post (lb_bind m (\<lambda>((a, b), c). f a b c)) P"
  by (rule lb_post_bind [where Q = Q]) auto

section \<open>Building the graph\<close>

lemma bt_insert_fresh_length:
  "bt_sorted m \<Longrightarrow> bt_get m k = None \<Longrightarrow> length (bt_insert k v m) = Suc (length m)"
proof (induction m)
  case (Cons p m)
  obtain a w where p: "p = (a, w)" by force
  show ?case using Cons by (auto simp: p bt_sorted_Cons split: if_splits)
qed simp

lemma vertex_good:
  assumes "good \<rho> g"
  shows "lb_post (vertex t g) (\<lambda>(i, g'). good \<rho> g' \<and> g_extends g g' \<and> vertex_of g' t i)"
proof (cases "bt_get (g_vertices g) t")
  case (Some i)
  then show ?thesis using assms by (auto simp: vertex_def intro!: lb_rules)
next
  case None
  let ?n = "length (g_vertices g)"
  let ?g = "g\<lparr>g_vertices := bt_insert t ?n (g_vertices g), g_distances := []\<rparr>"
  from assms obtain f where ok: "graph_ok g" and f: "labels f \<rho> g" "edges_hold f (g_edges g)"
    by (auto simp: good_def graph_sat_def)
  have sorted: "bt_sorted (g_vertices g)" using ok by (simp add: graph_ok_def)
  note get = bt.get_insert [OF sorted] and len = bt_insert_fresh_length [OF sorted None, of ?n]
  have t: "t \<noteq> []" using ok None by (auto simp: graph_ok_def)
  have "labels (f(?n := lin_sum \<rho> t)) \<rho> ?g"
    using f(1) ok by (auto simp: labels_def get graph_ok_def)
  moreover have "edges_hold (f(?n := lin_sum \<rho> t)) (g_edges ?g)"
    using f(2) ok by (fastforce simp: edges_hold_def graph_ok_def)
  moreover have "graph_ok ?g"
    using ok t unfolding graph_ok_def by (auto simp: get len less_Suc_eq)
  moreover have "g_extends g ?g" "vertex_of ?g t ?n"
    using None by (auto simp: g_extends_def get)
  ultimately show ?thesis
    using None by (auto simp: vertex_def good_def graph_sat_def intro!: lb_rules)
qed

lemma edge_good:
  assumes "good \<rho> g" and "vertex_of g tu u" and "vertex_of g tv v"
    and "lin_sum \<rho> tv \<le> lin_sum \<rho> tu + w"
  shows "lb_post (edge u v w g) (\<lambda>g'. good \<rho> g' \<and> g_vertices g' = g_vertices g)"
proof -
  let ?g = "g\<lparr>g_edges := bt_insert (u, v) w (g_edges g), g_distances := []\<rparr>"
  from assms obtain f where ok: "graph_ok g" and f: "labels f \<rho> g" "edges_hold f (g_edges g)"
    by (auto simp: good_def graph_sat_def)
  have "f v \<le> f u + w" using f(1) assms(2-4) by (simp add: labels_def)
  then have "edges_hold f (g_edges ?g)"
    using f(2) by (auto simp: edges_hold_def dest!: bt_insert_elem)
  moreover have "labels f \<rho> ?g" using f(1) by (simp add: labels_def)
  moreover have "graph_ok ?g"
    using ok assms(2,3) by (auto simp: graph_ok_def dest!: bt_insert_elem; blast)
  ultimately have "good \<rho> ?g" by (auto simp: good_def graph_sat_def)
  then show ?thesis using assms(1)
    by (auto simp: edge_def intro!: lb_rules split: option.split)
qed

lemma root_vertex: "good \<rho> g \<Longrightarrow> vertex_of g [] 0"
  by (simp add: good_def graph_ok_def)

lemma word_vertex_good:
  assumes "good \<rho> g" and "lw_sat \<rho> word"
  shows "lb_post (word_vertex word g)
    (\<lambda>(i, g'). good \<rho> g' \<and> g_extends g g' \<and> vertex_of g' (lw_terms word) i)"
  unfolding word_vertex_def
proof (rule lb_post_bind2 [OF vertex_good [OF assms(1)]], rule lb_post_lift_bind, simp only: prod.case, elim conjE)
  fix i g1 up
  assume g1: "good \<rho> g1" "g_extends g g1" "vertex_of g1 (lw_terms word) i"
    and up: "ok_or Overflow (i128_checked_sub (lw_upper word) (lw_constant word)) = Inr up"
  have up': "lin_sum \<rho> (lw_terms word) \<le> lin_sum \<rho> [] + up"
    using up assms(2) by (auto simp: lw_sat_def lw_den_def dest!: checked_arith)
  show "lb_post (lb_bind (edge 0 i up g1) (\<lambda>g2.
     lb_bind (lb_lift (ok_or Overflow (i128_checked_sub (lw_constant word) (lw_lower word)))) (\<lambda>down.
     lb_bind (edge i 0 down g2) (\<lambda>g3. lb_return (i, g3)))))
    (\<lambda>(i, g'). good \<rho> g' \<and> g_extends g g' \<and> vertex_of g' (lw_terms word) i)"
  proof (rule lb_post_bind [OF edge_good [OF g1(1) root_vertex [OF g1(1)] g1(3) up']], rule lb_post_lift_bind,
      elim conjE)
    fix g2 down
    assume g2: "good \<rho> g2" "g_vertices g2 = g_vertices g1"
      and down: "ok_or Overflow (i128_checked_sub (lw_constant word) (lw_lower word)) = Inr down"
    have "lin_sum \<rho> [] \<le> lin_sum \<rho> (lw_terms word) + down"
      using down assms(2) by (auto simp: lw_sat_def lw_den_def dest!: checked_arith)
    moreover have "vertex_of g2 (lw_terms word) i" using g2 g1 by simp
    ultimately show "lb_post (lb_bind (edge i 0 down g2) (\<lambda>g3. lb_return (i, g3)))
        (\<lambda>(i, g'). good \<rho> g' \<and> g_extends g g' \<and> vertex_of g' (lw_terms word) i)"
      by (intro lb_post_bind [OF edge_good [OF g2(1) _ root_vertex [OF g2(1)]]] lb_post_return)
        (use g1 g2 in \<open>auto simp: g_extends_def\<close>)
  qed
qed

lemma negative_terms_sum:
  "negative_terms terms = Inr neg \<Longrightarrow> lin_sum \<rho> terms = lin_sum \<rho> (positive_terms terms) - lin_sum \<rho> neg"
proof (induction terms arbitrary: neg)
  case (Cons p terms)
  obtain a n where p: "p = (a, n)" by force
  show ?case
  proof (cases "n > 0")
    case True
    then show ?thesis using Cons by (simp add: p negative_terms_def positive_terms_def)
  next
    case False
    then obtain rest where "negative_terms terms = Inr rest" "neg = (a, - n) # rest"
      using Cons.prems by (auto simp: p negative_terms_def dest!: checked_arith)
    then show ?thesis using Cons.IH False by (simp add: p positive_terms_def)
  qed
qed (simp add: negative_terms_def positive_terms_def)

lemma signed_vertices_good:
  assumes "good \<rho> g"
  shows "lb_post (signed_vertices terms g)
    (\<lambda>((p, n), g'). good \<rho> g' \<and> g_extends g g' \<and>
       (\<exists>pos neg. vertex_of g' pos p \<and> vertex_of g' neg n \<and>
          (\<forall>\<rho>. lin_sum \<rho> terms = lin_sum \<rho> pos - lin_sum \<rho> neg)))"
  unfolding signed_vertices_def
proof (rule lb_post_lift_bind, rule lb_post_bind2 [OF vertex_good [OF assms]])
  fix neg p g1
  assume neg: "negative_terms terms = Inr neg"
    and "case (p, g1) of (i, g') \<Rightarrow> good \<rho> g' \<and> g_extends g g' \<and> vertex_of g' (positive_terms terms) i"
  then have g1: "good \<rho> g1" "g_extends g g1" "vertex_of g1 (positive_terms terms) p" by simp_all
  show "lb_post (lb_bind (vertex neg g1) (\<lambda>(n, g2). lb_return ((p, n), g2)))
    (\<lambda>((p, n), g'). good \<rho> g' \<and> g_extends g g' \<and>
       (\<exists>pos neg. vertex_of g' pos p \<and> vertex_of g' neg n \<and>
          (\<forall>\<rho>. lin_sum \<rho> terms = lin_sum \<rho> pos - lin_sum \<rho> neg)))"
    by (rule lb_post_bind2 [OF vertex_good [OF g1(1)]], rule lb_post_return)
      (use g1 negative_terms_sum [OF neg] in \<open>auto intro: g_extends_trans dest: g_extendsD\<close>)
qed

definition direction_holds :: "('a \<Rightarrow> int) \<Rightarrow> 'a linear_word \<times> 'a linear_word \<times> bool \<Rightarrow> bool" where
  "direction_holds \<rho> d = (case d of (a, b, strict) \<Rightarrow> lw_den \<rho> a + i128_of_bool strict \<le> lw_den \<rho> b)"

lemma directions_hold:
  "compare_sem op (lw_den \<rho> a) (lw_den \<rho> b) \<longleftrightarrow> (\<forall>d \<in> set (directions op a b). direction_holds \<rho> d)"
  by (cases op) (auto simp: direction_holds_def i128_of_bool_def)

lemma direction_index:
  "i < length (directions op a b) \<Longrightarrow>
    (i = 0 \<longrightarrow> (\<exists>s. directions op a b ! i = (a, b, s))) \<and> (i \<noteq> 0 \<longrightarrow> (\<exists>s. directions op a b ! i = (b, a, s)))"
  by (cases op) (auto simp: less_Suc_eq)

lemma comparison_direction_good:
  assumes "good \<rho> g" and "direction_holds \<rho> (a, b, strict)"
    and "vertex_of g (lw_terms a) (if index = 0 then a_id else b_id)"
    and "vertex_of g (lw_terms b) (if index = 0 then b_id else a_id)"
  shows "lb_post (comparison_direction a_id b_id (index, a, b, strict) g) (\<lambda>g'. good \<rho> g' \<and> g_extends g g')"
  unfolding comparison_direction_def prod.case
proof (rule lb_post_lift_bind)
  fix weight
  assume w: "direction_weight a b strict = Inr weight"
  have weight: "weight = lw_constant b - lw_constant a - i128_of_bool strict"
    using w by (auto simp: direction_weight_def split: option.splits dest!: checked_arith)
  then have le: "lin_sum \<rho> (lw_terms a) \<le> lin_sum \<rho> (lw_terms b) + weight"
    using assms(2) by (simp add: direction_holds_def lw_den_def)
  have first: "lb_post (if index = 0 then edge b_id a_id weight g else edge a_id b_id weight g)
      (\<lambda>g'. good \<rho> g' \<and> g_vertices g' = g_vertices g)"
    using edge_good [OF assms(1,4,3) le] by (cases "index = 0") simp_all
  show "lb_post (lb_bind (if index = 0 then edge b_id a_id weight g else edge a_id b_id weight g) (\<lambda>g1.
       lb_bind (lb_lift (lw_combine a b True)) (\<lambda>difference.
       lb_bind (signed_vertices (lw_terms difference) g1) (\<lambda>((to, from), g2).
       edge from to weight g2)))) (\<lambda>g'. good \<rho> g' \<and> g_extends g g')"
  proof (rule lb_post_bind [OF first], rule lb_post_lift_bind, elim conjE,
      rule lb_post_bind3 [OF signed_vertices_good], assumption, simp only: prod.case, elim conjE exE)
    fix g1 difference to src g2 pos neg
    assume g1: "g_vertices g1 = g_vertices g" and d: "lw_combine a b True = Inr difference"
      and g2: "good \<rho> g2" "g_extends g1 g2" "vertex_of g2 pos to" "vertex_of g2 neg src"
        "\<forall>\<rho>. lin_sum \<rho> (lw_terms difference) = lin_sum \<rho> pos - lin_sum \<rho> neg"
    have c: "lw_constant difference = lw_constant a - lw_constant b"
      using d by (auto simp: lw_combine_def Let_def sign_of_def lw_exact_def split: if_splits dest!: checked_arith)
    have "lin_sum \<rho> pos \<le> lin_sum \<rho> neg + weight"
      using lw_combine_den [OF d, of \<rho>] g2(5) assms(2) c weight
      by (simp add: direction_holds_def lw_den_def sign_of_def)
    then show "lb_post (edge src to weight g2) (\<lambda>g'. good \<rho> g' \<and> g_extends g g')"
      by (rule lb_post_mono [OF edge_good [OF g2(1,4,3)]])
        (use g1 g2(2) in \<open>auto simp: g_extends_def\<close>)
  qed
qed

lemma add_comparison_good:
  assumes "good \<rho> g" and "lw_sat \<rho> a" and "lw_sat \<rho> b" and "compare_sem op (lw_den \<rho> a) (lw_den \<rho> b)"
  shows "lb_post (add_comparison op a b g) (\<lambda>g'. good \<rho> g' \<and> g_extends g g')"
  unfolding add_comparison_def
proof (rule lb_post_bind2 [OF word_vertex_good [OF assms(1,2)]], simp only: prod.case, elim conjE,
    rule lb_post_bind2 [OF word_vertex_good [OF _ assms(3)]], assumption, simp only: prod.case, elim conjE)
  fix a_id g1 b_id g2
  assume g: "good \<rho> g1" "g_extends g g1" "vertex_of g1 (lw_terms a) a_id"
    "good \<rho> g2" "g_extends g1 g2" "vertex_of g2 (lw_terms b) b_id"
  have va: "vertex_of g2 (lw_terms a) a_id" using g by (auto dest: g_extendsD)
  let ?I = "\<lambda>ys h. good \<rho> h \<and> g_extends g2 h"
  have "lb_post (lb_fold (comparison_direction a_id b_id) (List.enumerate 0 (directions op a b)) g2)
      (?I (List.enumerate 0 (directions op a b)))"
  proof (rule lb_post_fold_prefix [where I = ?I])
    fix ys x zs h
    assume e: "List.enumerate 0 (directions op a b) = ys @ x # zs" and h: "?I ys h"
    obtain i c d s where x: "x = (i, c, d, s)" by (cases x)
    note split = enumerate_split [OF e [unfolded x]]
    have holds: "direction_holds \<rho> (c, d, s)"
      using assms(4) split(2,3) by (metis directions_hold nth_mem)
    have vc: "vertex_of h (lw_terms c) (if i = 0 then a_id else b_id)"
      "vertex_of h (lw_terms d) (if i = 0 then b_id else a_id)"
      using direction_index [OF split(2)] split(3) g_extendsD [OF conjunct2 [OF h] va]
        g_extendsD [OF conjunct2 [OF h] g(6)]
      by (cases "i = 0"; force)+
    show "lb_post (comparison_direction a_id b_id x h) (?I (ys @ [x]))"
      unfolding x
      by (rule lb_post_mono [OF comparison_direction_good [OF conjunct1 [OF h] holds vc]])
        (metis h g_extends_trans)
  qed (use g in simp)
  then show "lb_post (lb_fold (comparison_direction a_id b_id) (List.enumerate 0 (directions op a b)) g2)
      (\<lambda>g'. good \<rho> g' \<and> g_extends g g')"
    by (rule lb_post_mono) (use g in \<open>auto intro: g_extends_trans\<close>)
qed

section \<open>Paths\<close>

definition round_ok ::
  "(usize \<times> usize, i128) btmap \<Rightarrow> usize option \<Rightarrow> i128 option list \<Rightarrow> ((usize \<times> usize) \<times> i128) list \<Rightarrow>
   i128 option list \<times> bool \<Rightarrow> bool" where
  "round_ok es source ds ys acc =
     (length (fst acc) = length ds \<and>
      (\<forall>f. edges_hold f es \<longrightarrow> reaches f source ds \<longrightarrow> reaches f source (fst acc)) \<and>
      below ds (fst acc) \<and>
      (\<not> snd acc \<longrightarrow> fst acc = ds \<and> relaxed ds ys))"

lemma below_refl: "below ds ds"
  by (simp add: below_def)

lemma below_trans: "length ds' = length ds \<Longrightarrow> below ds ds' \<Longrightarrow> below ds' ds'' \<Longrightarrow> below ds ds''"
  unfolding below_def by (metis order_trans)

lemma relax_edge_ok:
  assumes "round_ok es source ds ys acc" and "x \<in> set es"
    and "\<forall>u v w. ((u, v), w) \<in> set es \<longrightarrow> u < length ds \<and> v < length ds"
  shows "lb_post (relax_edge ds x acc) (round_ok es source ds (ys @ [x]))"
proof -
  obtain u v w where x: "x = ((u, v), w)" by (cases x) auto
  have uv: "u < length ds" "v < length ds" using assms(2,3) x by auto
  show ?thesis
  proof (cases "ds ! u")
    case None
    then have "round_ok es source ds (ys @ [x]) acc"
      using assms(1) by (auto simp: round_ok_def relaxed_def x)
    then show ?thesis using None by (auto simp: relax_edge_def x intro!: lb_rules)
  next
    case (Some d)
    have upd: "round_ok es source ds (ys @ [x]) ((fst acc)[v := Some (d + w)], True)"
      if lower: "case fst acc ! v of None \<Rightarrow> True | Some old \<Rightarrow> d + w < old"
      unfolding round_ok_def
    proof (intro conjI allI impI)
      fix f
      assume f: "edges_hold f es" and r: "reaches f source ds"
      then have acc: "reaches f source (fst acc)" using assms(1) by (simp add: round_ok_def)
      have "f v \<le> f u + w" using f assms(2) by (auto simp: edges_hold_def x)
      moreover have "source = Some s \<Longrightarrow> f u \<le> f s + d" for s
        using r uv Some by (auto simp: reaches_def)
      ultimately have "source = Some s \<Longrightarrow> f v \<le> f s + (d + w)" for s by fastforce
      then show "reaches f source (fst ((fst acc)[v := Some (d + w)], True))"
        using acc unfolding reaches_def fst_conv length_list_update
        by (metis (no_types, lifting) nth_list_update_eq nth_list_update_neq option.inject)
    next
      show "below ds (fst ((fst acc)[v := Some (d + w)], True))"
        unfolding below_def
      proof (intro allI impI)
        fix i e
        assume "i < length ds" "ds ! i = Some e"
        moreover from this obtain e' where "fst acc ! i = Some e'" "e' \<le> e"
          using assms(1) unfolding round_ok_def below_def by blast
        ultimately show "\<exists>e'. fst ((fst acc)[v := Some (d + w)], True) ! i = Some e' \<and> e' \<le> e"
          using assms(1) lower by (cases "i = v") (auto simp: round_ok_def)
      qed
    qed (use assms(1) in \<open>simp_all add: round_ok_def\<close>)
    have keep: "round_ok es source ds (ys @ [x]) acc"
      if kept: "\<not> (case fst acc ! v of None \<Rightarrow> True | Some old \<Rightarrow> d + w < old)"
    proof -
      obtain old where "fst acc ! v = Some old" "old \<le> d + w"
        using kept by (auto split: option.splits)
      then show ?thesis using assms(1) Some by (auto simp: round_ok_def relaxed_def x)
    qed
    show ?thesis unfolding relax_edge_def x prod.case Some option.case
      using upd keep
      by (intro lb_post_then lb_post_lift_bind lb_post_if lb_post_return)
        (auto dest!: checked_arith simp: x split: option.splits)
  qed
qed

lemma relax_round_ok:
  assumes "\<forall>u v w. ((u, v), w) \<in> set es \<longrightarrow> u < length ds \<and> v < length ds"
  shows "lb_post (lb_fold (relax_edge ds) es (ds, False)) (round_ok es source ds es)"
  by (rule lb_post_fold_prefix [where I = "round_ok es source ds"])
    (use relax_edge_ok [OF _ _ assms] in \<open>auto simp: round_ok_def relaxed_def below_refl\<close>)

lemma relax_rounds_ok:
  assumes "\<forall>u v w. ((u, v), w) \<in> set es \<longrightarrow> u < n \<and> v < n" and "length ds = n"
    and "\<And>f. edges_hold f es \<Longrightarrow> reaches f source ds" and "below (initial_distances source n) ds"
  shows "lb_post (relax_rounds es rounds ds) (paths_ok es n source)"
  using assms(2-)
proof (induction rounds arbitrary: ds)
  case (Suc rounds)
  have bounds: "\<forall>u v w. ((u, v), w) \<in> set es \<longrightarrow> u < length ds \<and> v < length ds"
    using assms(1) Suc.prems(1) by simp
  show ?case unfolding relax_rounds.simps
  proof (rule lb_post_then, rule lb_post_bind2 [OF relax_round_ok [OF bounds, of source]], intro lb_post_if)
    fix next' changed
    assume r: "round_ok es source ds es (next', changed)"
    show "lb_post (lb_return ds) (paths_ok es n source)" if "\<not> changed"
      using r that Suc.prems
      by (intro lb_post_return) (simp add: round_ok_def paths_ok_def)
    have "below (initial_distances source n) next'"
      using r Suc.prems below_trans [OF _ Suc.prems(3)]
      by (simp add: round_ok_def initial_distances_def split: option.splits)
    then show "lb_post (relax_rounds es rounds next') (paths_ok es n source)"
      by (intro Suc.IH) (use r Suc.prems in \<open>simp_all add: round_ok_def\<close>)
  qed (rule lb_post_throw)
qed (simp add: lb_post_throw)

lemma initial_distances_length [simp]: "length (initial_distances source n) = n"
  by (simp add: initial_distances_def split: option.split)

lemma initial_distances_reaches: "reaches f source (initial_distances source n)"
proof (cases source)
  case (Some s)
  have "(replicate n None)[s := Some 0] ! v = Some d \<Longrightarrow> v < n \<Longrightarrow> v = s \<and> d = (0::int)" for v d
    by (cases "v = s") simp_all
  then show ?thesis by (fastforce simp: Some reaches_def initial_distances_def)
qed (simp add: reaches_def)

definition same_graph :: "'a graph \<Rightarrow> 'a graph \<Rightarrow> bool" where
  "same_graph g g' = (g_vertices g' = g_vertices g \<and> g_edges g' = g_edges g)"

lemma find_distances_ok:
  assumes "graph_ok g"
  shows "lb_post (find_distances source g)
    (\<lambda>(ds, g'). graph_ok g' \<and> same_graph g g' \<and> paths_ok (g_edges g) (length (g_vertices g)) source ds)"
proof (cases "bt_get (g_distances g) source")
  case (Some saved)
  then show ?thesis using assms
    by (auto simp: find_distances_def graph_ok_def same_graph_def intro!: lb_rules)
next
  case None
  let ?n = "length (g_vertices g)"
  have relax: "lb_post (relax_rounds (g_edges g) ?n (initial_distances source ?n)) (paths_ok (g_edges g) ?n source)"
    by (rule relax_rounds_ok) (use assms in \<open>auto simp: graph_ok_def initial_distances_reaches below_refl\<close>)
  have save: "graph_ok (g\<lparr>g_distances := bt_insert source ds (g_distances g)\<rparr>)"
    if "paths_ok (g_edges g) ?n source ds" for ds
    using assms that bt.get_insert [of "g_distances g"] unfolding graph_ok_def by auto
  show ?thesis unfolding find_distances_def None option.case
    by (rule lb_post_then, rule lb_post_bind [OF relax], rule lb_post_return)
      (simp add: save same_graph_def)
qed

definition dist_holds :: "('a \<Rightarrow> int) \<Rightarrow> 'a::linorder graph \<Rightarrow> usize option \<Rightarrow> i128 option list \<Rightarrow> bool" where
  "dist_holds \<rho> g source ds =
     (\<forall>tu u tv v d. source = Some u \<longrightarrow> vertex_of g tu u \<longrightarrow> vertex_of g tv v \<longrightarrow> ds ! v = Some d \<longrightarrow>
        lin_sum \<rho> tv \<le> lin_sum \<rho> tu + d)"

lemma dist_holdsD:
  "dist_holds \<rho> g (Some u) ds \<Longrightarrow> vertex_of g tu u \<Longrightarrow> vertex_of g tv v \<Longrightarrow> ds ! v = Some d \<Longrightarrow>
    lin_sum \<rho> tv \<le> lin_sum \<rho> tu + d"
  by (simp add: dist_holds_def)

lemma find_distances_good:
  assumes "good \<rho> g"
  shows "lb_post (find_distances source g)
    (\<lambda>(ds, g'). good \<rho> g' \<and> g_vertices g' = g_vertices g \<and> dist_holds \<rho> g source ds)"
proof (rule lb_post_mono [OF find_distances_ok], use assms in \<open>simp add: good_def\<close>, clarify)
  fix ds g'
  assume g': "graph_ok g'" "same_graph g g'" "paths_ok (g_edges g) (length (g_vertices g)) source ds"
  from assms obtain f where f: "labels f \<rho> g" "edges_hold f (g_edges g)"
    and ok: "graph_ok g" by (auto simp: good_def graph_sat_def)
  have "reaches f source ds" "length ds = length (g_vertices g)"
    using g'(3) f(2) by (simp_all add: paths_ok_def)
  then have "dist_holds \<rho> g source ds"
    using f(1) ok unfolding dist_holds_def reaches_def labels_def graph_ok_def by metis
  moreover have "graph_sat \<rho> g'"
    using f g'(2) by (auto simp: graph_sat_def same_graph_def labels_def)
  ultimately show "good \<rho> g' \<and> g_vertices g' = g_vertices g \<and> dist_holds \<rho> g source ds"
    using g' by (simp add: good_def same_graph_def)
qed

lemma consistent_good:
  "good \<rho> g \<Longrightarrow> lb_post (consistent g) (\<lambda>g'. good \<rho> g' \<and> g_vertices g' = g_vertices g)"
  unfolding consistent_def
  by (rule lb_post_bind2 [OF find_distances_good], assumption, rule lb_post_return) simp

section \<open>Entailment\<close>

definition goal_means ::
  "'a::linorder graph \<Rightarrow> 'a linear_word \<times> 'a linear_word \<times> bool \<Rightarrow> usize \<times> usize \<times> i128 \<Rightarrow> bool" where
  "goal_means g direction goal =
     (case direction of (a, b, strict) \<Rightarrow> case goal of (src, to, bound) \<Rightarrow>
        bound = lw_constant b - lw_constant a - i128_of_bool strict \<and>
        (\<exists>pos neg. vertex_of g pos to \<and> vertex_of g neg src \<and>
           (\<forall>\<rho>. lin_sum \<rho> (lw_terms a) - lin_sum \<rho> (lw_terms b) = lin_sum \<rho> pos - lin_sum \<rho> neg)))"

lemma goal_means_extends: "goal_means g d e \<Longrightarrow> g_extends g g' \<Longrightarrow> goal_means g' d e"
  by (auto simp: goal_means_def dest: g_extendsD)

lemma goal_means_list:
  "list_all2 (goal_means g) ys goals \<Longrightarrow> g_extends g g' \<Longrightarrow> list_all2 (goal_means g') ys goals"
  by (auto elim: list_all2_mono goal_means_extends)

lemma combine_constant:
  "lw_combine a b True = Inr difference \<Longrightarrow> lw_constant difference = lw_constant a - lw_constant b"
  by (auto simp: lw_combine_def Let_def sign_of_def lw_exact_def split: if_splits dest!: checked_arith)

lemma register_goal_good:
  assumes "good \<rho> (snd acc)"
  shows "lb_post (register_goal d acc)
    (\<lambda>acc'. good \<rho> (snd acc') \<and> g_extends (snd acc) (snd acc') \<and>
       (\<exists>goal. fst acc' = fst acc @ [goal] \<and> goal_means (snd acc') d goal))"
proof -
  obtain a b strict where d: "d = (a, b, strict)" by (cases d)
  show ?thesis unfolding register_goal_def d prod.case
  proof (rule lb_post_lift_bind, rule lb_post_bind3 [OF signed_vertices_good [OF assms]], rule lb_post_lift_bind,
      simp only: prod.case, elim conjE exE)
    fix difference to src g bound pos neg
    assume diff: "lw_combine a b True = Inr difference" and bound: "goal_bound difference strict = Inr bound"
      and g: "good \<rho> g" "g_extends (snd acc) g" "vertex_of g pos to" "vertex_of g neg src"
        "\<forall>\<rho>. lin_sum \<rho> (lw_terms difference) = lin_sum \<rho> pos - lin_sum \<rho> neg"
    have "bound = - lw_constant difference - i128_of_bool strict"
      using bound by (auto simp: goal_bound_def split: option.splits dest!: checked_arith)
    moreover have "lin_sum \<rho> (lw_terms a) - lin_sum \<rho> (lw_terms b) = lin_sum \<rho> pos - lin_sum \<rho> neg" for \<rho>
      using lw_combine_den [OF diff, of \<rho>] combine_constant [OF diff] g(5)
      by (simp add: lw_den_def sign_of_def)
    ultimately have "goal_means g (a, b, strict) (src, to, bound)"
      using combine_constant [OF diff] g(3,4) unfolding goal_means_def prod.case by auto
    then show "lb_post (lb_return (fst acc @ [(src, to, bound)], g))
      (\<lambda>acc'. good \<rho> (snd acc') \<and> g_extends (snd acc) (snd acc') \<and>
         (\<exists>goal. fst acc' = fst acc @ [goal] \<and> goal_means (snd acc') (a, b, strict) goal))"
      using g by (intro lb_post_return) auto
  qed
qed

lemma register_goals_good:
  assumes "good \<rho> g"
  shows "lb_post (lb_fold register_goal ds ([], g))
    (\<lambda>(goals, g'). good \<rho> g' \<and> g_extends g g' \<and> list_all2 (goal_means g') ds goals)"
proof -
  let ?I = "\<lambda>ys acc. good \<rho> (snd acc) \<and> g_extends g (snd acc) \<and> list_all2 (goal_means (snd acc)) ys (fst acc)"
  have "lb_post (lb_fold register_goal ds ([], g)) (?I ds)"
  proof (rule lb_post_fold_prefix [where I = ?I])
    fix ys x zs acc
    assume "?I ys acc"
    note I = this
    show "lb_post (register_goal x acc) (?I (ys @ [x]))"
    proof (rule lb_post_mono [OF register_goal_good [OF conjunct1 [OF I], of x]], elim conjE exE, intro conjI)
      fix acc' goal
      assume acc': "g_extends (snd acc) (snd acc')" "fst acc' = fst acc @ [goal]" "goal_means (snd acc') x goal"
      show "list_all2 (goal_means (snd acc')) (ys @ [x]) (fst acc')"
        using list_all2_appendI [OF goal_means_list [OF _ acc'(1)], of ys "fst acc" "[x]" "[goal]"] I acc' by simp
      show "g_extends g (snd acc')" using I acc' g_extends_trans by blast
    qed
  qed (use assms in simp)
  then show ?thesis by (rule lb_post_mono) auto
qed

definition direct_goal :: "'a::linorder graph \<Rightarrow> usize \<Rightarrow> usize \<Rightarrow> nat \<Rightarrow> 'a linear_word \<times> 'a linear_word \<times> bool \<Rightarrow> bool" where
  "direct_goal g a_id b_id i d =
     (vertex_of g (lw_terms (fst d)) (if i = 0 then a_id else b_id) \<and>
      vertex_of g (lw_terms (fst (snd d))) (if i = 0 then b_id else a_id))"

lemma within_goal_holds:
  assumes "goal_means g d (src, to, bound)" and "dist_holds \<rho> g (Some src) ds" and "within (ds ! to) bound"
  shows "direction_holds \<rho> d"
proof -
  obtain a b strict where d: "d = (a, b, strict)" by (cases d)
  obtain pos neg where v: "vertex_of g pos to" "vertex_of g neg src"
    and eq: "lin_sum \<rho> (lw_terms a) - lin_sum \<rho> (lw_terms b) = lin_sum \<rho> pos - lin_sum \<rho> neg"
    and bound: "bound = lw_constant b - lw_constant a - i128_of_bool strict"
    using assms(1) by (auto simp: goal_means_def d)
  obtain k where k: "ds ! to = Some k" "k \<le> bound"
    using assms(3) by (auto simp: within_def split: option.splits)
  have "lin_sum \<rho> pos \<le> lin_sum \<rho> neg + k" using assms(2) v k(1) by (simp add: dist_holds_def)
  then show ?thesis using eq bound k(2) by (simp add: direction_holds_def d lw_den_def)
qed

lemma within_direct_holds:
  assumes "direct_goal g a_id b_id i d" and "goal_means g d (src, to, bound)"
    and "dist_holds \<rho> g (Some (if i = 0 then b_id else a_id)) ds"
    and "within (ds ! (if i = 0 then a_id else b_id)) bound"
  shows "direction_holds \<rho> d"
proof -
  obtain a b strict where d: "d = (a, b, strict)" by (cases d)
  have "goal_means g d (if i = 0 then b_id else a_id, if i = 0 then a_id else b_id, bound)"
    using assms(1,2) unfolding goal_means_def direct_goal_def d prod.case fst_conv snd_conv by blast
  then show ?thesis using assms(3,4) by (rule within_goal_holds)
qed

lemma check_goals_good:
  assumes "good \<rho> g" and "\<forall>(i, goal) \<in> set goals. goal_means g (dir i) goal \<and> direct_goal g a_id b_id i (dir i)"
  shows "lb_post (check_goals a_id b_id goals g)
    (\<lambda>(r, g'). good \<rho> g' \<and> g_vertices g' = g_vertices g \<and> (r \<longrightarrow> (\<forall>(i, goal) \<in> set goals. direction_holds \<rho> (dir i))))"
  using assms
proof (induction goals arbitrary: g)
  case (Cons head goals)
  obtain i src to bound where head: "head = (i, src, to, bound)" by (cases head)
  let ?P = "\<lambda>(r, g'). good \<rho> g' \<and> g_vertices g' = g_vertices g \<and>
      (r \<longrightarrow> (\<forall>(i, goal) \<in> set (head # goals). direction_holds \<rho> (dir i)))"
  let ?src = "if i = 0 then b_id else a_id" and ?to = "if i = 0 then a_id else b_id"
  have goal: "goal_means g (dir i) (src, to, bound)" "direct_goal g a_id b_id i (dir i)"
    using Cons.prems(2) head by auto
  have rest: "lb_post (check_goals a_id b_id goals h) ?P"
    if h: "good \<rho> h" "g_vertices h = g_vertices g" "direction_holds \<rho> (dir i)" for h
  proof -
    have "\<forall>(i, goal) \<in> set goals. goal_means h (dir i) goal \<and> direct_goal h a_id b_id i (dir i)"
      using Cons.prems(2) h(2) by (auto simp: goal_means_def direct_goal_def)
    from Cons.IH [OF h(1) this] show ?thesis
      by (rule lb_post_mono) (use h head in auto)
  qed
  have second: "lb_post (lb_bind (find_distances (Some ?src) g1) (\<lambda>(ds', g2).
         if \<not> within (ds' ! ?to) bound then lb_return (False, g2) else check_goals a_id b_id goals g2)) ?P"
    if g1: "good \<rho> g1" "g_vertices g1 = g_vertices g" for g1
  proof (rule lb_post_bind2 [OF find_distances_good [OF g1(1)]], rule lb_post_if, simp only: prod.case, elim conjE)
    fix ds' g2
    assume g2: "good \<rho> g2" "g_vertices g2 = g_vertices g1"
    show "lb_post (lb_return (False, g2)) ?P" using g1 g2 by (intro lb_post_return) simp
  next
    fix ds' g2
    assume "case (ds', g2) of (ds, g') \<Rightarrow> good \<rho> g' \<and> g_vertices g' = g_vertices g1 \<and> dist_holds \<rho> g1 (Some ?src) ds"
    then have g2: "good \<rho> g2" "g_vertices g2 = g_vertices g" "dist_holds \<rho> g (Some ?src) ds'"
      using g1(2) by (auto simp: dist_holds_def)
    assume "\<not> \<not> within (ds' ! ?to) bound"
    then show "lb_post (check_goals a_id b_id goals g2) ?P"
      using rest [OF g2(1,2)] within_direct_holds [OF goal(2,1) g2(3)] by blast
  qed
  show ?case unfolding check_goals.simps head
  proof (rule lb_post_bind2 [OF find_distances_good [OF Cons.prems(1)]], rule lb_post_if,
      unfold head [symmetric], simp_all only: prod.case)
    fix ds g1
    assume d: "good \<rho> g1 \<and> g_vertices g1 = g_vertices g \<and> dist_holds \<rho> g (Some src) ds"
    show "within (ds ! to) bound \<Longrightarrow> lb_post (check_goals a_id b_id goals g1) ?P"
      using rest within_goal_holds [OF goal(1)] d by blast
    show "lb_post (let (from', to') = (if i = 0 then (b_id, a_id) else (a_id, b_id)) in
       lb_bind (find_distances (Some from') g1) (\<lambda>(ds', g2).
       if \<not> within (ds' ! to') bound then lb_return (False, g2)
       else check_goals a_id b_id goals g2)) ?P"
      using second [of g1] d by (cases "i = 0") (simp_all add: Let_def)
  qed
qed (simp add: lb_post_return)

lemma graph_entails_good:
  assumes "good \<rho> g" and "lw_sat \<rho> a" and "lw_sat \<rho> b"
  shows "lb_post (graph_entails op a b g)
    (\<lambda>(r, g'). good \<rho> g' \<and> g_extends g g' \<and> (r \<longrightarrow> compare_sem op (lw_den \<rho> a) (lw_den \<rho> b)))"
  unfolding graph_entails_def
proof (rule lb_post_bind2 [OF word_vertex_good [OF assms(1,2)]], simp only: prod.case, elim conjE,
    rule lb_post_bind2 [OF word_vertex_good [OF _ assms(3)]], assumption, simp only: prod.case, elim conjE,
    rule lb_post_bind2 [OF register_goals_good], assumption, simp only: prod.case, elim conjE,
    rule lb_post_bind [OF consistent_good], assumption, elim conjE)
  fix a_id g1 b_id g2 goals g3 g4
  assume g: "g_extends g g1" "vertex_of g1 (lw_terms a) a_id" "g_extends g1 g2" "vertex_of g2 (lw_terms b) b_id"
    "g_extends g2 g3" "list_all2 (goal_means g3) (directions op a b) goals" "good \<rho> g4" "g_vertices g4 = g_vertices g3"
  let ?dir = "\<lambda>i. directions op a b ! i"
  have ext: "g_extends g2 g4" "g_extends g g4"
    using g by (simp_all add: g_extends_def)
  have ids: "vertex_of g4 (lw_terms a) a_id" "vertex_of g4 (lw_terms b) b_id"
    using ext(1) g(2,3,4) by (auto dest: g_extendsD)
  have goals: "\<forall>(i, goal) \<in> set (List.enumerate 0 goals). goal_means g4 (?dir i) goal \<and> direct_goal g4 a_id b_id i (?dir i)"
  proof clarify
    fix i src to bound
    assume "(i, src, to, bound) \<in> set (List.enumerate 0 goals)"
    then have i: "i < length goals" "goals ! i = (src, to, bound)" by (auto simp: in_set_enumerate_eq)
    then have "goal_means g3 (?dir i) (src, to, bound)" "i < length (directions op a b)"
      using g(6) by (auto simp: list_all2_conv_all_nth)
    then show "goal_means g4 (?dir i) (src, to, bound) \<and> direct_goal g4 a_id b_id i (?dir i)"
      using direction_index [of i op a b] ids g(8) by (cases "i = 0") (auto simp: goal_means_def direct_goal_def)
  qed
  show "lb_post (check_goals a_id b_id (List.enumerate 0 goals) g4)
    (\<lambda>(r, g'). good \<rho> g' \<and> g_extends g g' \<and> (r \<longrightarrow> compare_sem op (lw_den \<rho> a) (lw_den \<rho> b)))"
  proof (rule lb_post_mono [OF check_goals_good [OF g(7) goals]], clarify, intro conjI impI)
    fix r g'
    assume "good \<rho> g'" and v: "g_vertices g' = g_vertices g4"
      and r: "r \<longrightarrow> (\<forall>(i, goal) \<in> set (List.enumerate 0 goals). direction_holds \<rho> (?dir i))"
    show "g_extends g g'" using v ext(2) by (simp add: g_extends_def)
    assume "r"
    then have "\<forall>i < length goals. direction_holds \<rho> (?dir i)"
      using r by (auto simp: in_set_enumerate_eq)
    then show "compare_sem op (lw_den \<rho> a) (lw_den \<rho> b)"
      using list_all2_lengthD [OF g(6)] unfolding directions_hold by (metis in_set_conv_nth)
  qed
qed

section \<open>Bounds\<close>

lemma tighten_upper_good:
  assumes "good \<rho> g" and "vertex_of g pos p" and "vertex_of g neg n"
    and "lin_sum \<rho> (lw_terms word) = lin_sum \<rho> pos - lin_sum \<rho> neg" and "lw_den \<rho> word \<le> upper"
  shows "lb_post (tighten_upper word n p upper g)
    (\<lambda>(u, g'). good \<rho> g' \<and> g_vertices g' = g_vertices g \<and> lw_den \<rho> word \<le> u)"
  unfolding tighten_upper_def
proof (rule lb_post_bind2 [OF find_distances_good [OF assms(1)]], simp only: prod.case, elim conjE)
  fix ds g1
  assume g1: "good \<rho> g1" "g_vertices g1 = g_vertices g" "dist_holds \<rho> g (Some n) ds"
  have "ds ! p = Some k \<Longrightarrow> lin_sum \<rho> pos \<le> lin_sum \<rho> neg + k" for k
    using g1(3) assms(2,3) by (simp add: dist_holds_def)
  then show "lb_post (case ds ! p of None \<Rightarrow> lb_return (upper, g1)
     | Some bound \<Rightarrow>
         lb_bind (lb_lift (ok_or Overflow (i128_checked_add (lw_constant word) bound))) (\<lambda>v.
         lb_return (min upper v, g1))) (\<lambda>(u, g'). good \<rho> g' \<and> g_vertices g' = g_vertices g \<and> lw_den \<rho> word \<le> u)"
    using g1 assms(4,5)
    by (cases "ds ! p") (auto intro!: lb_post_return lb_post_lift_bind simp: lw_den_def dest!: checked_arith)
qed

lemma tighten_lower_good:
  assumes "good \<rho> g" and "vertex_of g pos p" and "vertex_of g neg n"
    and "lin_sum \<rho> (lw_terms word) = lin_sum \<rho> pos - lin_sum \<rho> neg" and "lower \<le> lw_den \<rho> word"
  shows "lb_post (tighten_lower word n p lower g)
    (\<lambda>(l, g'). good \<rho> g' \<and> g_vertices g' = g_vertices g \<and> l \<le> lw_den \<rho> word)"
  unfolding tighten_lower_def
proof (rule lb_post_bind2 [OF find_distances_good [OF assms(1)]], simp only: prod.case, elim conjE)
  fix ds g1
  assume g1: "good \<rho> g1" "g_vertices g1 = g_vertices g" "dist_holds \<rho> g (Some p) ds"
  have "ds ! n = Some k \<Longrightarrow> lin_sum \<rho> neg \<le> lin_sum \<rho> pos + k" for k
    using g1(3) assms(2,3) by (simp add: dist_holds_def)
  then show "lb_post (case ds ! n of None \<Rightarrow> lb_return (lower, g1)
     | Some bound \<Rightarrow>
         lb_bind (lb_lift (ok_or Overflow (i128_checked_sub (lw_constant word) bound))) (\<lambda>v.
         lb_return (max lower v, g1))) (\<lambda>(l, g'). good \<rho> g' \<and> g_vertices g' = g_vertices g \<and> l \<le> lw_den \<rho> word)"
    using g1 assms(4,5)
    by (cases "ds ! n") (auto intro!: lb_post_return lb_post_lift_bind simp: lw_den_def dest!: checked_arith)
qed

lemma tightened_bounds_good:
  assumes "good \<rho> g" and "vertex_of g pos p" and "vertex_of g neg n"
    and "lin_sum \<rho> (lw_terms word) = lin_sum \<rho> pos - lin_sum \<rho> neg"
    and "lower \<le> lw_den \<rho> word" and "lw_den \<rho> word \<le> upper"
  shows "lb_post (tightened_bounds word i p n lower upper g)
    (\<lambda>((l, u), g'). good \<rho> g' \<and> g_vertices g' = g_vertices g \<and> l \<le> lw_den \<rho> word \<and> lw_den \<rho> word \<le> u)"
  unfolding tightened_bounds_def
proof (rule lb_post_if, rule lb_post_bind2 [OF tighten_upper_good [OF assms(1-4,6)]], simp only: prod.case, elim conjE)
  fix u g6
  assume g6: "good \<rho> g6" "g_vertices g6 = g_vertices g" "lw_den \<rho> word \<le> u"
  show "lb_post (lb_bind (tighten_lower word n p lower g6) (\<lambda>(lower, g7). lb_return ((lower, u), g7)))
    (\<lambda>((l, u), g'). good \<rho> g' \<and> g_vertices g' = g_vertices g \<and> l \<le> lw_den \<rho> word \<and> lw_den \<rho> word \<le> u)"
    by (rule lb_post_bind2 [OF tighten_lower_good [OF g6(1) _ _ assms(4,5)]])
      (use assms(2,3) g6 in \<open>auto intro!: lb_post_return\<close>)
qed (use assms in \<open>auto intro!: lb_post_return\<close>)

lemma graph_bounds_good:
  assumes "good \<rho> g" and "lw_sat \<rho> word"
  shows "lb_post (graph_bounds word g)
    (\<lambda>((l, u), g'). good \<rho> g' \<and> g_extends g g' \<and> l \<le> lw_den \<rho> word \<and> lw_den \<rho> word \<le> u)"
  unfolding graph_bounds_def
proof (rule lb_post_bind2 [OF word_vertex_good [OF assms]], simp only: prod.case, elim conjE,
    rule lb_post_bind3 [OF signed_vertices_good], assumption, simp only: prod.case, elim conjE exE,
    rule lb_post_bind [OF consistent_good], assumption, elim conjE,
    rule lb_post_bind2 [OF find_distances_good], assumption, simp only: prod.case, elim conjE,
    rule lb_post_lift_bind, rule lb_post_lift_bind,
    rule lb_post_bind2 [OF find_distances_good], assumption, simp only: prod.case, elim conjE,
    rule lb_post_lift_bind, rule lb_post_lift_bind)
  fix i g1 p n g2 pos neg g3 ds g4 up upper ds' g5 down lower
  assume g: "g_extends g g1" "vertex_of g1 (lw_terms word) i" "g_extends g1 g2" "vertex_of g2 pos p" "vertex_of g2 neg n"
      "g_vertices g3 = g_vertices g2" "g_vertices g4 = g_vertices g2" "good \<rho> g5" "g_vertices g5 = g_vertices g2"
    and split: "\<forall>\<rho>. lin_sum \<rho> (lw_terms word) = lin_sum \<rho> pos - lin_sum \<rho> neg"
    and d: "dist_holds \<rho> g3 (Some 0) ds" "dist_holds \<rho> g4 (Some i) ds'"
    and up: "ok_or Unproved (ds ! i) = Inr up" "ok_or Overflow (i128_checked_add up (lw_constant word)) = Inr upper"
    and down: "ok_or Unproved (ds' ! 0) = Inr down" "ok_or Overflow (i128_checked_sub (lw_constant word) down) = Inr lower"
  have v: "vertex_of g5 pos p" "vertex_of g5 neg n" "vertex_of g5 (lw_terms word) i" "vertex_of g5 [] 0" "g_extends g g5"
    using g root_vertex [OF g(8)] by (simp_all add: g_extends_def)
  have "lin_sum \<rho> (lw_terms word) \<le> lin_sum \<rho> [] + up" "lin_sum \<rho> [] \<le> lin_sum \<rho> (lw_terms word) + down"
    using dist_holdsD [OF d(1), of "[]" "lw_terms word" i up] dist_holdsD [OF d(2), of "lw_terms word" "[]" 0 down]
      v(3,4) up(1) down(1) g(6,7,9) by (auto simp: ok_or_def split: option.splits)
  then have den: "lower \<le> lw_den \<rho> word" "lw_den \<rho> word \<le> upper"
    using up(2) down(2) by (auto simp: lw_den_def dest!: checked_arith)
  show "lb_post (lb_bind (tightened_bounds word i p n lower upper g5) (\<lambda>((lower, upper), g8).
       if lower > upper then lb_throw Unproved else lb_return ((lower, upper), g8)))
    (\<lambda>((l, u), g'). good \<rho> g' \<and> g_extends g g' \<and> l \<le> lw_den \<rho> word \<and> lw_den \<rho> word \<le> u)"
    by (rule lb_post_bind3 [OF tightened_bounds_good [OF g(8) v(1,2) _ den]])
      (use split v(5) in \<open>auto intro!: lb_rules simp: g_extends_def\<close>)
qed

section \<open>Exactness of the distances\<close>

definition edges_in :: "nat \<Rightarrow> (usize \<times> usize, i128) btmap \<Rightarrow> bool" where
  "edges_in n es = (\<forall>u v w. ((u, v), w) \<in> set es \<longrightarrow> u < n \<and> v < n)"

lemma finite_lower_shift: "finite A \<Longrightarrow> \<exists>M::int. \<forall>x \<in> A. x \<le> M"
  by (rule exI [of _ "Max (insert 0 A)"]) auto

lemma source_distance:
  assumes "paths_ok es n (Some s) ds" and "edges_hold p es" and "s < n"
  shows "ds ! s = Some 0"
proof -
  obtain d where d: "ds ! s = Some d" "d \<le> 0"
    using assms(1,3) unfolding paths_ok_def below_def initial_distances_def option.case
    by (metis length_list_update length_replicate nth_list_update_eq)
  moreover have "p s \<le> p s + d"
    using assms d(1) unfolding paths_ok_def reaches_def by metis
  ultimately show ?thesis by simp
qed

lemma separating_potential:
  assumes ok: "paths_ok es n (Some s) ds" and p: "edges_hold p es" and "s < n"
  shows "\<exists>f. edges_hold f es \<and> f s = 0 \<and>
    (case ds ! v of Some d \<Rightarrow> f v = d | None \<Rightarrow> f v > k)"
proof -
  have rel: "relaxed ds es" using ok by (simp add: paths_ok_def)
  obtain M where M: "\<forall>x \<in> insert (k + 1 - p v) ((\<lambda>((u, v), w). the (ds ! v) - p u - w) ` set es). x \<le> M"
    using finite_lower_shift [of "insert (k + 1 - p v) ((\<lambda>((u, v), w). the (ds ! v) - p u - w) ` set es)"] by auto
  let ?f = "\<lambda>u. case ds ! u of Some d \<Rightarrow> d | None \<Rightarrow> p u + M"
  have "edges_hold ?f es"
    unfolding edges_hold_def
  proof (intro allI impI)
    fix a b w
    assume e: "((a, b), w) \<in> set es"
    then have shift: "the (ds ! b) - p a - w \<le> M" and pot: "p b \<le> p a + w"
      using M p by (force simp: edges_hold_def)+
    show "?f b \<le> ?f a + w"
    proof (cases "ds ! a")
      case None
      then show ?thesis using shift pot by (cases "ds ! b") auto
    next
      case (Some d)
      then obtain d' where "ds ! b = Some d'" "d' \<le> d + w" using rel e unfolding relaxed_def by blast
      then show ?thesis using Some by simp
    qed
  qed
  moreover have "?f s = 0" using source_distance [OF ok p assms(3)] by simp
  moreover have "case ds ! v of Some d \<Rightarrow> ?f v = d | None \<Rightarrow> ?f v > k"
    using M by (auto split: option.split)
  ultimately show ?thesis by (intro exI [of _ ?f]) blast
qed

lemma paths_exact:
  assumes "paths_ok es n (Some s) ds" and "edges_hold p es" and "s < n" and "v < n"
  shows "within (ds ! v) k \<longleftrightarrow> (\<forall>f. edges_hold f es \<longrightarrow> f v \<le> f s + k)"
proof
  assume "within (ds ! v) k"
  then obtain d where "ds ! v = Some d" "d \<le> k" by (auto simp: within_def split: option.splits)
  then show "\<forall>f. edges_hold f es \<longrightarrow> f v \<le> f s + k"
    using assms(1,4) by (force simp: paths_ok_def reaches_def)
next
  assume "\<forall>f. edges_hold f es \<longrightarrow> f v \<le> f s + k"
  then show "within (ds ! v) k"
    using separating_potential [OF assms(1-3), where v = v and k = k] by (force simp: within_def split: option.splits)
qed

lemma potential_of_distances:
  assumes "paths_ok es n None ds" and "edges_in n es"
  shows "edges_hold (\<lambda>v. the (ds ! v)) es"
  unfolding edges_hold_def
proof (intro allI impI)
  fix u v w
  assume e: "((u, v), w) \<in> set es"
  then obtain d where "ds ! u = Some d"
    using assms by (fastforce simp: paths_ok_def below_def initial_distances_def edges_in_def)
  then show "the (ds ! v) \<le> the (ds ! u) + w"
    using assms(1) e by (fastforce simp: paths_ok_def relaxed_def)
qed

lemma graph_ok_edges_in: "graph_ok g \<Longrightarrow> edges_in (length (g_vertices g)) (g_edges g)"
  by (simp add: graph_ok_def edges_in_def)

lemma consistent_ok:
  assumes "graph_ok g"
  shows "lb_post (consistent g) (\<lambda>g'. graph_ok g' \<and> same_graph g g' \<and> (\<exists>f. edges_hold f (g_edges g)))"
  unfolding consistent_def
  by (rule lb_post_bind2 [OF find_distances_ok [OF assms]], rule lb_post_return)
    (use potential_of_distances graph_ok_edges_in [OF assms] in blast)

section \<open>Properties\<close>

definition assume_all ::
  "(comparison \<times> 'a::linorder linear_word \<times> 'a linear_word) list \<Rightarrow> 'a graph \<Rightarrow> 'a graph lb" where
  "assume_all premises = lb_fold (\<lambda>(op, a, b). add_comparison op a b) premises"

definition premise_holds :: "('a \<Rightarrow> int) \<Rightarrow> comparison \<times> 'a linear_word \<times> 'a linear_word \<Rightarrow> bool" where
  "premise_holds \<rho> q = (case q of (op, a, b) \<Rightarrow>
     lw_sat \<rho> a \<and> lw_sat \<rho> b \<and> compare_sem op (lw_den \<rho> a) (lw_den \<rho> b))"

lemma assume_all_good:
  assumes "good \<rho> g" and "list_all (premise_holds \<rho>) premises"
  shows "lb_post (assume_all premises g) (good \<rho>)"
  unfolding assume_all_def
  by (rule lb_post_fold_prefix [where I = "\<lambda>_. good \<rho>"])
    (use assms in \<open>auto simp: list_all_iff premise_holds_def intro!: lb_post_mono [OF add_comparison_good]\<close>)

text \<open>C20: the graph is sound. Whatever premises are asserted with \<open>add_comparison\<close> into a fresh graph,
  a comparison that \<open>entails\<close> reports as entailed holds under every assignment of the variables that
  satisfies the premises and keeps the two queried words inside their ranges.\<close>

theorem graph_entails_sound:
  assumes "list_all (premise_holds \<rho>) premises" and "lw_sat \<rho> a" and "lw_sat \<rho> b"
    and "lb_bind (assume_all premises graph_new) (graph_entails op a b) budget = (Inr (True, g), budget')"
  shows "compare_sem op (lw_den \<rho> a) (lw_den \<rho> b)"
proof -
  have "lb_post (lb_bind (assume_all premises graph_new) (graph_entails op a b))
      (\<lambda>(r, g'). good \<rho> g' \<and> (r \<longrightarrow> compare_sem op (lw_den \<rho> a) (lw_den \<rho> b)))"
    by (rule lb_post_bind [OF assume_all_good [OF good_new assms(1)]], rule lb_post_mono, rule graph_entails_good)
      (use assms(2,3) in auto)
  from lb_postD [OF this assms(4)] show ?thesis by simp
qed

definition word_at :: "nat \<Rightarrow> i128 \<Rightarrow> i128 \<Rightarrow> nat linear_word" where
  "word_at i low high = \<lparr>lw_constant = 0, lw_terms = [(i, 1)], lw_lower = low, lw_upper = high\<rparr>"

definition entailed_in :: "(comparison \<times> nat linear_word \<times> nat linear_word) list \<Rightarrow> comparison \<Rightarrow>
    nat linear_word \<Rightarrow> nat linear_word \<Rightarrow> nat \<Rightarrow> bool option" where
  "entailed_in premises op a b n =
     (case fst (lb_bind (assume_all premises graph_new) (graph_entails op a b) \<lparr>remaining = n\<rparr>) of
        Inr (r, _) \<Rightarrow> Some r | Inl _ \<Rightarrow> None)"

theorem graph_entails_sound_witness:
  "entailed_in [(CmpLess, word_at 0 0 9, word_at 1 0 9)] CmpLessEqual (word_at 0 0 9) (word_at 1 0 9) 150 = Some True \<and>
   compare_sem CmpLessEqual (lw_den (\<lambda>i. int i + 3) (word_at 0 0 9)) (lw_den (\<lambda>i. int i + 3) (word_at 1 0 9))"
proof -
  let ?m = "lb_bind (assume_all [(CmpLess, word_at 0 0 9, word_at 1 0 9)] graph_new)
    (graph_entails CmpLessEqual (word_at 0 0 9) (word_at 1 0 9))"
  have e: "entailed_in [(CmpLess, word_at 0 0 9, word_at 1 0 9)] CmpLessEqual (word_at 0 0 9) (word_at 1 0 9) 150 = Some True"
    by code_simp
  then obtain g b' where r: "?m \<lparr>remaining = 150\<rparr> = (Inr (True, g), b')"
    by (cases "?m \<lparr>remaining = 150\<rparr>") (auto simp: entailed_in_def split: sum.splits prod.splits)
  have "compare_sem CmpLessEqual (lw_den (\<lambda>i. int i + 3) (word_at 0 0 9)) (lw_den (\<lambda>i. int i + 3) (word_at 1 0 9))"
    by (rule graph_entails_sound [OF _ _ _ r])
      (simp_all add: premise_holds_def word_at_def lw_sat_def lw_den_def)
  then show ?thesis using e by blast
qed

text \<open>C26: the bounds are sound. The interval that \<open>bounds\<close> computes for a word over asserted premises
  contains the value of the word under every assignment that satisfies the premises.\<close>

theorem graph_bounds_sound:
  assumes "list_all (premise_holds \<rho>) premises" and "lw_sat \<rho> word"
    and "lb_bind (assume_all premises graph_new) (graph_bounds word) budget = (Inr ((lower, upper), g), budget')"
  shows "lower \<le> lw_den \<rho> word \<and> lw_den \<rho> word \<le> upper"
proof -
  have "lb_post (lb_bind (assume_all premises graph_new) (graph_bounds word))
      (\<lambda>((l, u), g'). good \<rho> g' \<and> l \<le> lw_den \<rho> word \<and> lw_den \<rho> word \<le> u)"
    by (rule lb_post_bind [OF assume_all_good [OF good_new assms(1)]], rule lb_post_mono, rule graph_bounds_good)
      (use assms(2) in auto)
  from lb_postD [OF this assms(3)] show ?thesis by simp
qed

theorem graph_bounds_sound_witness:
  "\<exists>lower upper g b. lb_bind (assume_all [(CmpLess, word_at 0 0 9, word_at 1 0 5)] graph_new) (graph_bounds (word_at 0 0 9))
       \<lparr>remaining = 150\<rparr> = (Inr ((lower, upper), g), b) \<and>
     (lower, upper) = (0, 4) \<and> lower \<le> lw_den (\<lambda>i. int i + 3) (word_at 0 0 9) \<and> lw_den (\<lambda>i. int i + 3) (word_at 0 0 9) \<le> upper"
proof -
  let ?m = "lb_bind (assume_all [(CmpLess, word_at 0 0 9, word_at 1 0 5)] graph_new) (graph_bounds (word_at 0 0 9)) \<lparr>remaining = 150\<rparr>"
  have "(case fst ?m of Inr (r, _) \<Rightarrow> Some r | Inl _ \<Rightarrow> None) = Some (0, 4)" by code_simp
  then obtain g b where r: "?m = (Inr ((0, 4), g), b)"
    by (cases ?m) (auto split: sum.splits prod.splits)
  moreover have "0 \<le> lw_den (\<lambda>i. int i + 3) (word_at 0 0 9) \<and> lw_den (\<lambda>i. int i + 3) (word_at 0 0 9) \<le> 4"
    by (rule graph_bounds_sound [OF _ _ r]) (simp_all add: premise_holds_def word_at_def lw_sat_def lw_den_def)
  ultimately show ?thesis by blast
qed

text \<open>C25: the distances are exact. Once \<open>consistent\<close> has succeeded on a well-formed graph, the distance
  from \<open>s\<close> to \<open>v\<close> is within \<open>k\<close> if and only if every integer solution of the edges puts \<open>v\<close> at most
  \<open>k\<close> above \<open>s\<close>; an absent distance means that no bound follows.\<close>

theorem distances_exact:
  assumes "graph_ok g" and "s < length (g_vertices g)" and "v < length (g_vertices g)"
    and "consistent g budget = (Inr g1, budget1)"
    and "find_distances (Some s) g1 budget1 = (Inr (ds, g2), budget2)"
  shows "within (ds ! v) k \<longleftrightarrow> (\<forall>f. edges_hold f (g_edges g) \<longrightarrow> f v \<le> f s + k)"
proof -
  obtain p where g1: "graph_ok g1" "same_graph g g1" and p: "edges_hold p (g_edges g)"
    using lb_postD [OF consistent_ok [OF assms(1)] assms(4)] by auto
  have "paths_ok (g_edges g) (length (g_vertices g)) (Some s) ds"
    using lb_postD [OF find_distances_ok [OF g1(1)] assms(5)] g1(2) by (simp add: same_graph_def)
  then show ?thesis using p assms(2,3) by (rule paths_exact)
qed

definition small_graph :: "nat graph" where
  "small_graph = \<lparr>g_vertices = [([], 0), ([(0, 1)], 1)], g_edges = [((0, 1), 4)], g_distances = []\<rparr>"

lemma small_graph_ok: "graph_ok small_graph"
  by (auto simp: graph_ok_def small_graph_def bt_sorted_def split: if_splits)

theorem distances_exact_witness:
  "\<exists>ds. within (ds ! 1) 4 \<and> \<not> within (ds ! 1) 3 \<and>
     (within (ds ! 1) 4 \<longleftrightarrow> (\<forall>f. edges_hold f (g_edges small_graph) \<longrightarrow> f 1 \<le> f 0 + 4))"
proof -
  have c: "consistent small_graph \<lparr>remaining = 30\<rparr> =
      (Inr (small_graph\<lparr>g_distances := [(None, [Some 0, Some 0])]\<rparr>), \<lparr>remaining = 25\<rparr>)"
    by code_simp
  have d: "find_distances (Some 0) (small_graph\<lparr>g_distances := [(None, [Some 0, Some 0])]\<rparr>) \<lparr>remaining = 25\<rparr> =
      (Inr ([Some 0, Some 4], small_graph\<lparr>g_distances := [(None, [Some 0, Some 0]), (Some 0, [Some 0, Some 4])]\<rparr>), \<lparr>remaining = 17\<rparr>)"
    by code_simp
  have "within ([Some 0, Some 4] ! 1) 4 \<longleftrightarrow> (\<forall>f. edges_hold f (g_edges small_graph) \<longrightarrow> f 1 \<le> f 0 + 4)"
    by (rule distances_exact [OF small_graph_ok _ _ c d]) (simp_all add: small_graph_def)
  then show ?thesis by (intro exI [of _ "[Some 0, Some 4]"]) (simp add: within_def)
qed

end
