(* ===== verification/Interval_Domain.thy ===== *)
theory Interval_Domain
  imports Prelude
begin

text \<open>
  The scalar domains of the verifier's resource state: closed \<open>u64\<close> intervals and the three-valued
  boolean of \<open>src/src/verifier/resource/scalar.rs\<close>, the guaranteed alignment of
  \<open>src/src/verifier/resource/bytes.rs\<close> and the obligation status the numeric rules return. The
  locales \<open>join_domain\<close> and \<open>widening_domain\<close> state what the control-flow fixpoint relies on; every
  domain of the resource state interprets them.
\<close>

section \<open>Joins and widening\<close>

locale join_domain =
  fixes wf :: "'a \<Rightarrow> bool"
    and \<gamma> :: "'a \<Rightarrow> 'c \<Rightarrow> bool"
    and join :: "'a \<Rightarrow> 'a \<Rightarrow> 'a"
  assumes join_wf: "wf a \<Longrightarrow> wf b \<Longrightarrow> wf (join a b)"
    and join_left: "wf a \<Longrightarrow> wf b \<Longrightarrow> \<gamma> a c \<Longrightarrow> \<gamma> (join a b) c"
    and join_right: "wf a \<Longrightarrow> wf b \<Longrightarrow> \<gamma> b c \<Longrightarrow> \<gamma> (join a b) c"
begin

lemma join_fold:
  assumes "wf a" and "list_all wf bs" and "b \<in> set (a # bs)" and "\<gamma> b c"
  shows "wf (fold (\<lambda>b acc. join acc b) bs a) \<and> \<gamma> (fold (\<lambda>b acc. join acc b) bs a) c"
  using assms
proof (induction bs arbitrary: a b)
  case (Cons x bs)
  have wf: "wf (join a x)" using Cons.prems join_wf by simp
  consider "b \<in> set bs" | "\<gamma> (join a x) c"
    using Cons.prems join_left join_right by auto
  then show ?case
    by cases (use Cons.IH [OF wf] Cons.prems in auto)
qed simp

end

locale widening_domain = join_domain wf \<gamma> join
  for wf :: "'a \<Rightarrow> bool" and \<gamma> :: "'a \<Rightarrow> 'c \<Rightarrow> bool" and join :: "'a \<Rightarrow> 'a \<Rightarrow> 'a" +
  fixes widen :: "'a \<Rightarrow> 'a \<Rightarrow> 'a"
    and height :: "'a \<Rightarrow> nat"
  assumes widen_wf: "wf a \<Longrightarrow> wf b \<Longrightarrow> wf (widen a b)"
    and widen_left: "wf a \<Longrightarrow> wf b \<Longrightarrow> \<gamma> a c \<Longrightarrow> \<gamma> (widen a b) c"
    and widen_right: "wf a \<Longrightarrow> wf b \<Longrightarrow> \<gamma> b c \<Longrightarrow> \<gamma> (widen a b) c"
    and widen_progress: "widen a b \<noteq> a \<Longrightarrow> height (widen a b) < height a"
begin

abbreviation widen_chain :: "('a \<Rightarrow> 'a) \<Rightarrow> 'a \<Rightarrow> nat \<Rightarrow> 'a" where
  "widen_chain step a n \<equiv> ((\<lambda>x. widen x (step x)) ^^ n) a"

lemma widen_chain_stabilises:
  "\<exists>n \<le> height a. widen_chain step a (Suc n) = widen_chain step a n"
proof (rule ccontr)
  assume no: "\<not> (\<exists>n \<le> height a. widen_chain step a (Suc n) = widen_chain step a n)"
  have "height (widen_chain step a n) + n \<le> height a" if "n \<le> Suc (height a)" for n
    using that
  proof (induction n)
    case (Suc n)
    then have "widen_chain step a (Suc n) \<noteq> widen_chain step a n" using no by auto
    then have "height (widen_chain step a (Suc n)) < height (widen_chain step a n)"
      using widen_progress by simp
    then show ?case using Suc by simp
  qed simp
  from this [of "Suc (height a)"] show False by simp
qed

lemma widen_chain_wf: "(\<And>x. wf x \<Longrightarrow> wf (step x)) \<Longrightarrow> wf a \<Longrightarrow> wf (widen_chain step a n)"
  by (induction n) (auto intro: widen_wf)

lemma widen_chain_start: "(\<And>x. wf x \<Longrightarrow> wf (step x)) \<Longrightarrow> wf a \<Longrightarrow> \<gamma> a c \<Longrightarrow> \<gamma> (widen_chain step a n) c"
  by (induction n) (auto intro: widen_left widen_chain_wf)

lemma widen_chain_post:
  assumes "\<And>x. wf x \<Longrightarrow> wf (step x)" and "wf a"
  shows "\<exists>n \<le> height a. wf (widen_chain step a n) \<and> (\<forall>c. \<gamma> a c \<longrightarrow> \<gamma> (widen_chain step a n) c) \<and>
    (\<forall>c. \<gamma> (step (widen_chain step a n)) c \<longrightarrow> \<gamma> (widen_chain step a n) c)"
proof -
  obtain n where n: "n \<le> height a" "widen_chain step a (Suc n) = widen_chain step a n"
    using widen_chain_stabilises by blast
  have wf: "wf (widen_chain step a n)" by (rule widen_chain_wf) (use assms in auto)
  then have "\<gamma> (step (widen_chain step a n)) c \<Longrightarrow> \<gamma> (widen_chain step a n) c" for c
    using widen_right [of "widen_chain step a n" "step (widen_chain step a n)" c] assms(1) n(2) by simp
  moreover have "\<gamma> a c \<Longrightarrow> \<gamma> (widen_chain step a n) c" for c
    by (rule widen_chain_start) (use assms in auto)
  ultimately show ?thesis using n(1) wf by blast
qed

end

section \<open>Intervals\<close>

record u64_interval =
  iv_lower :: u64
  iv_upper :: u64

record u64_interval_error =
  ive_lower :: u64
  ive_upper :: u64

definition iv_new :: "u64 \<Rightarrow> u64 \<Rightarrow> u64_interval_error + u64_interval" where
  "iv_new lower upper =
     (if lower > upper then Inl \<lparr>ive_lower = lower, ive_upper = upper\<rparr>
      else Inr \<lparr>iv_lower = lower, iv_upper = upper\<rparr>)"

definition iv_exact :: "u64 \<Rightarrow> u64_interval" where
  "iv_exact v = \<lparr>iv_lower = v, iv_upper = v\<rparr>"

definition iv_unknown :: u64_interval where
  "iv_unknown = \<lparr>iv_lower = 0, iv_upper = u64_MAX\<rparr>"

definition iv_exact_value :: "u64_interval \<Rightarrow> u64 option" where
  "iv_exact_value i = (if iv_lower i = iv_upper i then Some (iv_lower i) else None)"

definition iv_contains :: "u64_interval \<Rightarrow> u64 \<Rightarrow> bool" where
  "iv_contains i v = (iv_lower i \<le> v \<and> v \<le> iv_upper i)"

definition iv_join :: "u64_interval \<Rightarrow> u64_interval \<Rightarrow> u64_interval" where
  "iv_join a b =
     \<lparr>iv_lower = (if iv_lower a < iv_lower b then iv_lower a else iv_lower b),
      iv_upper = (if iv_upper a > iv_upper b then iv_upper a else iv_upper b)\<rparr>"

definition iv_widen :: "u64_interval \<Rightarrow> u64_interval \<Rightarrow> u64_interval" where
  "iv_widen a next' =
     \<lparr>iv_lower = (if iv_lower next' < iv_lower a then 0 else iv_lower a),
      iv_upper = (if iv_upper next' > iv_upper a then u64_MAX else iv_upper a)\<rparr>"

fun result_ok :: "'e + 'a \<Rightarrow> 'a option" where
  "result_ok (Inl e) = None"
| "result_ok (Inr x) = Some x"

definition iv_intersection :: "u64_interval \<Rightarrow> u64_interval \<Rightarrow> u64_interval option" where
  "iv_intersection a b =
     result_ok (iv_new (max (iv_lower a) (iv_lower b)) (min (iv_upper a) (iv_upper b)))"

definition iv_height :: "u64_interval \<Rightarrow> nat" where
  "iv_height i = (if iv_lower i = 0 then 0 else 1) + (if iv_upper i = u64_MAX then 0 else 1)"

definition iv_wf :: "u64_interval \<Rightarrow> bool" where
  "iv_wf i = (iv_lower i \<le> iv_upper i)"

lemma iv_new_ok: "result_ok (iv_new l u) = Some i \<longleftrightarrow> l \<le> u \<and> i = \<lparr>iv_lower = l, iv_upper = u\<rparr>"
  by (auto simp: iv_new_def not_less)

lemma iv_new_Inr: "iv_new l u = Inr i \<longleftrightarrow> l \<le> u \<and> i = \<lparr>iv_lower = l, iv_upper = u\<rparr>"
  by (auto simp: iv_new_def not_less)

lemma iv_contains_ends: "iv_wf i \<Longrightarrow> iv_contains i (iv_lower i) \<and> iv_contains i (iv_upper i)"
  by (simp add: iv_wf_def iv_contains_def)

lemma iv_exact_valueD: "iv_exact_value i = Some v \<Longrightarrow> iv_contains i x \<Longrightarrow> x = v"
  by (auto simp: iv_exact_value_def iv_contains_def split: if_splits)

lemma iv_widen_progress: "iv_widen a b \<noteq> a \<Longrightarrow> iv_height (iv_widen a b) < iv_height a"
proof -
  assume ne: "iv_widen a b \<noteq> a"
  have "iv_lower b < iv_lower a \<or> iv_upper a < iv_upper b"
  proof (rule ccontr)
    assume "\<not> ?thesis"
    then have "iv_widen a b = a" by (simp add: iv_widen_def)
    with ne show False ..
  qed
  then show ?thesis
  proof
    assume l: "iv_lower b < iv_lower a"
    then have "iv_lower a \<noteq> 0" by auto
    then show ?thesis using l by (simp add: iv_height_def iv_widen_def)
  next
    assume u: "iv_upper a < iv_upper b"
    then have "iv_upper a \<noteq> u64_MAX" using leD [OF u64_le_MAX [of "iv_upper b"]] by auto
    then show ?thesis using u by (simp add: iv_height_def iv_widen_def)
  qed
qed

interpretation ivd: widening_domain iv_wf iv_contains iv_join iv_widen iv_height
proof (unfold_locales, goal_cases)
  case (7 a b)
  then show ?case by (rule iv_widen_progress)
qed (auto simp: iv_wf_def iv_contains_def iv_join_def iv_widen_def)

section \<open>Three-valued booleans\<close>

datatype abstract_bool = ABTrue | ABFalse | ABUnknown

definition ab_join :: "abstract_bool \<Rightarrow> abstract_bool \<Rightarrow> abstract_bool" where
  "ab_join a b = (if (a = ABTrue \<and> b = ABTrue) \<or> (a = ABFalse \<and> b = ABFalse) then a else ABUnknown)"

fun ab_contains :: "abstract_bool \<Rightarrow> bool \<Rightarrow> bool" where
  "ab_contains ABTrue v = v"
| "ab_contains ABFalse v = (\<not> v)"
| "ab_contains ABUnknown v = True"

definition ab_height :: "abstract_bool \<Rightarrow> nat" where
  "ab_height a = (if a = ABUnknown then 0 else 1)"

lemma ab_join_contains: "ab_contains a v \<or> ab_contains b v \<Longrightarrow> ab_contains (ab_join a b) v"
  by (cases a; cases b) (simp_all add: ab_join_def)

lemma ab_join_progress: "ab_join a b \<noteq> a \<Longrightarrow> ab_height (ab_join a b) < ab_height a"
  by (cases a; cases b) (simp_all add: ab_join_def ab_height_def)

interpretation abd: widening_domain "\<lambda>_. True" ab_contains ab_join ab_join ab_height
  by unfold_locales (simp_all add: ab_join_contains ab_join_progress)

section \<open>Alignment\<close>

record guaranteed_alignment =
  ga_bytes :: u64

record guaranteed_alignment_error =
  gae_bytes :: u64

definition u64_is_power_of_two :: "u64 \<Rightarrow> bool" where
  "u64_is_power_of_two x = (\<exists>k \<in> set [0..<64]. uint x = 2 ^ k)"

definition ga_new :: "u64 \<Rightarrow> guaranteed_alignment_error + guaranteed_alignment" where
  "ga_new bytes =
     (if bytes = 0 \<or> \<not> u64_is_power_of_two bytes then Inl \<lparr>gae_bytes = bytes\<rparr>
      else Inr \<lparr>ga_bytes = bytes\<rparr>)"

definition ga_one :: guaranteed_alignment where
  "ga_one = \<lparr>ga_bytes = 1\<rparr>"

definition ga_join :: "guaranteed_alignment \<Rightarrow> guaranteed_alignment \<Rightarrow> guaranteed_alignment" where
  "ga_join a b = (if ga_bytes a < ga_bytes b then a else b)"

definition ga_wf :: "guaranteed_alignment \<Rightarrow> bool" where
  "ga_wf a = u64_is_power_of_two (ga_bytes a)"

definition ga_holds :: "guaranteed_alignment \<Rightarrow> int \<Rightarrow> bool" where
  "ga_holds a v = (uint (ga_bytes a) dvd v)"

lemma power_two_dvd:
  assumes "u64_is_power_of_two a" and "u64_is_power_of_two b" and "a \<le> b"
  shows "uint a dvd uint b"
proof -
  obtain i j where "uint a = 2 ^ i" "uint b = 2 ^ j"
    using assms by (auto simp: u64_is_power_of_two_def)
  moreover from this have "i \<le> j" using assms(3) by (simp add: word_le_def)
  ultimately show ?thesis by (simp add: le_imp_power_dvd)
qed

lemma ga_new_wf: "ga_new bytes = Inr a \<Longrightarrow> ga_wf a"
  by (auto simp: ga_new_def ga_wf_def split: if_splits)

interpretation gad: join_domain ga_wf ga_holds ga_join
proof unfold_locales
  fix a b :: guaranteed_alignment and v :: int
  assume wf: "ga_wf a" "ga_wf b"
  then show "ga_wf (ga_join a b)" by (simp add: ga_join_def)
  have "ga_bytes a < ga_bytes b \<Longrightarrow> uint (ga_bytes a) dvd uint (ga_bytes b)"
    "\<not> ga_bytes a < ga_bytes b \<Longrightarrow> uint (ga_bytes b) dvd uint (ga_bytes a)"
    using wf power_two_dvd by (auto simp: ga_wf_def)
  then show "ga_holds a v \<Longrightarrow> ga_holds (ga_join a b) v" "ga_holds b v \<Longrightarrow> ga_holds (ga_join a b) v"
    by (auto simp: ga_join_def ga_holds_def intro: dvd_trans)
qed

section \<open>Obligation status\<close>

datatype obligation_status = Proven | Refuted | Unknown

definition classifies :: "obligation_status \<Rightarrow> ('c \<Rightarrow> bool) \<Rightarrow> ('c \<Rightarrow> bool) \<Rightarrow> bool" where
  "classifies st admissible goal =
     ((st = Proven \<longrightarrow> (\<forall>c. admissible c \<longrightarrow> goal c)) \<and> (st = Refuted \<longrightarrow> (\<forall>c. admissible c \<longrightarrow> \<not> goal c)))"

section \<open>Properties\<close>

text \<open>C37: Interval widening makes every fixpoint iteration finite. Whatever the transfer function of a
  cyclic control-flow entry, iterating the widening reaches within two rounds an interval that
  contains the entry value and is closed under the transfer function.\<close>

theorem interval_widening_terminates:
  assumes "\<And>x. iv_wf x \<Longrightarrow> iv_wf (step x)" and "iv_wf entry"
  shows "\<exists>n \<le> 2. \<exists>i. i = ((\<lambda>x. iv_widen x (step x)) ^^ n) entry \<and> iv_wf i \<and>
    (\<forall>v. iv_contains entry v \<longrightarrow> iv_contains i v) \<and> (\<forall>v. iv_contains (step i) v \<longrightarrow> iv_contains i v)"
proof -
  have h: "iv_height entry \<le> 2" by (simp add: iv_height_def)
  obtain n where n: "n \<le> iv_height entry" "iv_wf (((\<lambda>x. iv_widen x (step x)) ^^ n) entry)"
    "\<forall>v. iv_contains entry v \<longrightarrow> iv_contains (((\<lambda>x. iv_widen x (step x)) ^^ n) entry) v"
    "\<forall>v. iv_contains (step (((\<lambda>x. iv_widen x (step x)) ^^ n) entry)) v \<longrightarrow>
      iv_contains (((\<lambda>x. iv_widen x (step x)) ^^ n) entry) v"
    using ivd.widen_chain_post [of step, OF assms(1) assms(2)] by metis
  show ?thesis
    by (intro exI [of _ n] exI [of _ "((\<lambda>x. iv_widen x (step x)) ^^ n) entry"]) (use n h in simp)
qed

definition increment_loop :: "u64_interval \<Rightarrow> u64_interval" where
  "increment_loop i =
     (if iv_upper i = u64_MAX then i else \<lparr>iv_lower = iv_lower i, iv_upper = iv_upper i + 1\<rparr>)"

theorem interval_widening_terminates_witness:
  "iv_widen (iv_exact 3) (increment_loop (iv_exact 3)) = \<lparr>iv_lower = 3, iv_upper = u64_MAX\<rparr> \<and>
   (\<exists>n \<le> 2. \<exists>i. i = ((\<lambda>x. iv_widen x (increment_loop x)) ^^ n) (iv_exact 3) \<and> iv_wf i \<and>
    (\<forall>v. iv_contains (iv_exact 3) v \<longrightarrow> iv_contains i v) \<and> (\<forall>v. iv_contains (increment_loop i) v \<longrightarrow> iv_contains i v))"
proof -
  have "iv_wf (increment_loop x)" if wf: "iv_wf x" for x
  proof (cases "iv_upper x = u64_MAX")
    case False
    then have "uint (iv_upper x) + 1 < 2 ^ 64"
      using uint_u64_bound [of "iv_upper x"] uint_u64_MAX word_uint_eqI [of "iv_upper x" u64_MAX] by fastforce
    then have "uint (iv_upper x + 1) = uint (iv_upper x) + 1" using uint_add_u64 [of "iv_upper x" 1] by simp
    then show ?thesis using wf False by (simp add: iv_wf_def increment_loop_def word_le_def)
  qed (use wf in \<open>simp add: increment_loop_def\<close>)
  note t = interval_widening_terminates [of increment_loop, OF this, of "iv_exact 3"]
  have wf: "iv_wf (iv_exact 3)" by (simp add: iv_exact_def iv_wf_def)
  have "iv_widen (iv_exact 3) (increment_loop (iv_exact 3)) = \<lparr>iv_lower = 3, iv_upper = u64_MAX\<rparr>"
    by (simp add: iv_exact_def iv_widen_def increment_loop_def u64_MAX_def)
  then show ?thesis by (intro conjI) (assumption, rule t [OF _ wf], assumption)
qed

end
