(* ===== verification/Affine_Expression.thy ===== *)
theory Affine_Expression
  imports Interval_Domain
begin

text \<open>
  Symbolic offsets of \<open>src/src/verifier/resource/scalar.rs\<close>: affine expressions with at most two
  nonnegative variable terms, kept in a canonical form, and range bounds that pair such an
  expression with a numeric interval. An \<open>Option::unwrap\<close> is modelled by the option itself, and the
  expressions on which it cannot panic are identified.
\<close>

unbundle bit_operations_syntax

section \<open>Expressions\<close>

type_synonym vir_value_id = nat

record affine_expression =
  ae_root :: "vir_value_id option"
  ae_scale :: u64
  ae_addend :: u64
  ae_second :: "(vir_value_id \<times> u64) option"

definition ae_identity :: "vir_value_id \<Rightarrow> affine_expression" where
  "ae_identity root = \<lparr>ae_root = Some root, ae_scale = 1, ae_addend = 0, ae_second = None\<rparr>"

definition ae_constant :: "u64 \<Rightarrow> affine_expression" where
  "ae_constant v = \<lparr>ae_root = None, ae_scale = 0, ae_addend = v, ae_second = None\<rparr>"

definition ae_single_root :: "affine_expression \<Rightarrow> vir_value_id option" where
  "ae_single_root e = (if ae_second e = None then ae_root e else None)"

definition ae_is_constant :: "affine_expression \<Rightarrow> bool" where
  "ae_is_constant e = (ae_root e = None)"

definition ae_terms :: "affine_expression \<Rightarrow> (vir_value_id \<times> u64) option list" where
  "ae_terms e = [map_option (\<lambda>root. (root, ae_scale e)) (ae_root e), ae_second e]"

definition flatten_options :: "'a option list \<Rightarrow> 'a list" where
  "flatten_options xs = List.map_filter id xs"

definition same_terms :: "affine_expression \<Rightarrow> affine_expression \<Rightarrow> bool" where
  "same_terms a b = (ae_terms a = ae_terms b)"

fun merge_scales ::
  "(vir_value_id \<times> u64) list \<Rightarrow> (vir_value_id, u64) btmap \<Rightarrow> (vir_value_id, u64) btmap option" where
  "merge_scales [] merged = Some merged"
| "merge_scales ((root, scale) # rest) merged =
     (if scale = 0 then merge_scales rest merged
      else case u64_checked_add (case bt_get merged root of Some v \<Rightarrow> v | None \<Rightarrow> 0) scale of
        None \<Rightarrow> None
      | Some v \<Rightarrow>
          if length (bt_insert root v merged) > 2 then None
          else merge_scales rest (bt_insert root v merged))"

definition of_merged :: "u64 \<Rightarrow> (vir_value_id, u64) btmap \<Rightarrow> affine_expression" where
  "of_merged addend merged =
     (case merged of
        [] \<Rightarrow> ae_constant addend
      | (root, scale) # rest \<Rightarrow>
          \<lparr>ae_root = Some root, ae_scale = scale, ae_addend = addend,
           ae_second = (case rest of [] \<Rightarrow> None | t # _ \<Rightarrow> Some t)\<rparr>)"

definition from_terms :: "u64 \<Rightarrow> (vir_value_id \<times> u64) list \<Rightarrow> affine_expression option" where
  "from_terms addend terms = map_option (of_merged addend) (merge_scales terms [])"

fun cancel_term ::
  "vir_value_id \<times> u64 \<Rightarrow> (vir_value_id \<times> u64) list \<Rightarrow> (vir_value_id \<times> u64) \<times> (vir_value_id \<times> u64) list" where
  "cancel_term a [] = (a, [])"
| "cancel_term a (b # bs) =
     (if fst a = fst b then
        let common = min (snd a) (snd b);
            (a', bs') = cancel_term (fst a, snd a - common) bs in
        (a', (fst b, snd b - common) # bs')
      else let (a', bs') = cancel_term a bs in (a', b # bs'))"

fun cancel_terms ::
  "(vir_value_id \<times> u64) list \<Rightarrow> (vir_value_id \<times> u64) list \<Rightarrow>
   (vir_value_id \<times> u64) list \<times> (vir_value_id \<times> u64) list" where
  "cancel_terms [] right = ([], right)"
| "cancel_terms (a # left) right =
     (let (a', right') = cancel_term a right;
          (left', right'') = cancel_terms left right' in
      (a' # left', right''))"

definition cancel_common ::
  "affine_expression \<Rightarrow> affine_expression \<Rightarrow> (affine_expression \<times> affine_expression) option" where
  "cancel_common a b =
     (let (left, right) = cancel_terms (flatten_options (ae_terms a)) (flatten_options (ae_terms b)) in
      case (from_terms (ae_addend a) left, from_terms (ae_addend b) right) of
        (Some a', Some b') \<Rightarrow> Some (a', b')
      | _ \<Rightarrow> None)"

definition without_root :: "affine_expression \<Rightarrow> vir_value_id \<Rightarrow> affine_expression option" where
  "without_root e root =
     from_terms (ae_addend e) (filter (\<lambda>(vid, _). vid \<noteq> root) (flatten_options (ae_terms e)))"

fun interval_terms ::
  "(vir_value_id \<Rightarrow> u64_interval option) \<Rightarrow> (vir_value_id \<times> u64) list \<Rightarrow> u64 \<times> u64 \<Rightarrow> (u64 \<times> u64) option" where
  "interval_terms read [] acc = Some acc"
| "interval_terms read ((vid, scale) # rest) acc =
     Option.bind (read vid) (\<lambda>interval.
     Option.bind (u64_checked_mul (iv_lower interval) scale) (\<lambda>l.
     Option.bind (u64_checked_add (fst acc) l) (\<lambda>lower.
     Option.bind (u64_checked_mul (iv_upper interval) scale) (\<lambda>u.
     Option.bind (u64_checked_add (snd acc) u) (\<lambda>upper.
     interval_terms read rest (lower, upper))))))"

definition ae_interval ::
  "(vir_value_id \<Rightarrow> u64_interval option) \<Rightarrow> affine_expression \<Rightarrow> u64_interval option" where
  "ae_interval read e =
     Option.bind (interval_terms read (flatten_options (ae_terms e)) (ae_addend e, ae_addend e))
       (\<lambda>(lower, upper). result_ok (iv_new lower upper))"

definition ae_checked_add :: "affine_expression \<Rightarrow> affine_expression \<Rightarrow> affine_expression option" where
  "ae_checked_add a b =
     Option.bind (u64_checked_add (ae_addend a) (ae_addend b)) (\<lambda>addend.
     from_terms addend (flatten_options (ae_terms a @ ae_terms b)))"

definition ae_checked_add_constant :: "affine_expression \<Rightarrow> u64 \<Rightarrow> affine_expression option" where
  "ae_checked_add_constant e v =
     map_option (\<lambda>addend. e\<lparr>ae_addend := addend\<rparr>) (u64_checked_add (ae_addend e) v)"

definition ae_checked_sub_constant :: "affine_expression \<Rightarrow> u64 \<Rightarrow> affine_expression option" where
  "ae_checked_sub_constant e v =
     map_option (\<lambda>addend. e\<lparr>ae_addend := addend\<rparr>) (u64_checked_sub (ae_addend e) v)"

fun option_map_list :: "('a \<Rightarrow> 'b option) \<Rightarrow> 'a list \<Rightarrow> 'b list option" where
  "option_map_list f [] = Some []"
| "option_map_list f (x # xs) =
     Option.bind (f x) (\<lambda>y. Option.bind (option_map_list f xs) (\<lambda>ys. Some (y # ys)))"

definition ae_checked_div_exact :: "affine_expression \<Rightarrow> u64 \<Rightarrow> affine_expression option" where
  "ae_checked_div_exact e divisor =
     (if divisor = 0 \<or> \<not> u64_is_multiple_of (ae_addend e) divisor then None
      else Option.bind
        (option_map_list
          (\<lambda>(vid, scale). if u64_is_multiple_of scale divisor then Some (vid, scale div divisor) else None)
          (flatten_options (ae_terms e)))
        (from_terms (ae_addend e div divisor)))"

definition ae_checked_scale :: "affine_expression \<Rightarrow> u64 \<Rightarrow> affine_expression option" where
  "ae_checked_scale e factor =
     (if factor = 0 then Some (ae_constant 0)
      else Option.bind (u64_checked_mul (ae_scale e) factor) (\<lambda>scale.
        Option.bind (u64_checked_mul (ae_addend e) factor) (\<lambda>addend.
        Option.bind (case ae_second e of
            None \<Rightarrow> Some None
          | Some (vid, s) \<Rightarrow> map_option (\<lambda>s'. Some (vid, s')) (u64_checked_mul s factor)) (\<lambda>second.
        Some \<lparr>ae_root = ae_root e, ae_scale = scale, ae_addend = addend, ae_second = second\<rparr>))))"

definition u64_trailing_zeros :: "u64 \<Rightarrow> nat" where
  "u64_trailing_zeros x = length (takeWhile (\<lambda>i. \<not> bit x i) [0..<64])"

definition ae_guaranteed_alignment :: "affine_expression \<Rightarrow> guaranteed_alignment" where
  "ae_guaranteed_alignment e =
     (let divisor = fold (\<lambda>(_, scale) bits. bits OR scale) (flatten_options (ae_terms e)) (ae_addend e);
          bytes = (if divisor = 0 then push_bit 63 1 else push_bit (u64_trailing_zeros divisor) 1) in
      case ga_new bytes of Inr a \<Rightarrow> a | Inl _ \<Rightarrow> ga_one)"

definition rename_root ::
  "affine_expression \<Rightarrow> (vir_value_id, vir_value_id) btmap \<Rightarrow> affine_expression option" where
  "rename_root e renames =
     Option.bind
       (option_map_list (\<lambda>(vid, scale). map_option (\<lambda>n. (n, scale)) (bt_get renames vid))
          (flatten_options (ae_terms e)))
       (from_terms (ae_addend e))"

section \<open>Range bounds\<close>

record symbolic_range_bound =
  sb_expression :: affine_expression
  sb_interval :: u64_interval

definition sb_constant :: "u64 \<Rightarrow> symbolic_range_bound" where
  "sb_constant v = \<lparr>sb_expression = ae_constant v, sb_interval = iv_exact v\<rparr>"

definition sb_checked_add_constant :: "symbolic_range_bound \<Rightarrow> u64 \<Rightarrow> symbolic_range_bound option" where
  "sb_checked_add_constant b v =
     Option.bind (ae_checked_add_constant (sb_expression b) v) (\<lambda>e.
     Option.bind (u64_checked_add (iv_lower (sb_interval b)) v) (\<lambda>l.
     Option.bind (u64_checked_add (iv_upper (sb_interval b)) v) (\<lambda>u.
     map_option (\<lambda>i. \<lparr>sb_expression = e, sb_interval = i\<rparr>) (result_ok (iv_new l u)))))"

section \<open>Meaning and canonical form\<close>

definition terms_sum :: "(vir_value_id \<Rightarrow> int) \<Rightarrow> (vir_value_id \<times> u64) list \<Rightarrow> int" where
  "terms_sum \<rho> ts = sum_list (map (\<lambda>(vid, scale). uint scale * \<rho> vid) ts)"

abbreviation ae_flat :: "affine_expression \<Rightarrow> (vir_value_id \<times> u64) list" where
  "ae_flat e \<equiv> flatten_options (ae_terms e)"

definition ae_den :: "(vir_value_id \<Rightarrow> int) \<Rightarrow> affine_expression \<Rightarrow> int" where
  "ae_den \<rho> e = uint (ae_addend e) + terms_sum \<rho> (ae_flat e)"

definition canonical_terms :: "(vir_value_id \<times> u64) list \<Rightarrow> bool" where
  "canonical_terms ts = (bt_sorted ts \<and> length ts \<le> 2 \<and> (\<forall>(vid, scale) \<in> set ts. scale \<noteq> 0))"

definition ae_wf :: "affine_expression \<Rightarrow> bool" where
  "ae_wf e =
     (canonical_terms (ae_flat e) \<and> (ae_root e = None \<longrightarrow> ae_scale e = 0 \<and> ae_second e = None))"

lemma flatten_options_simps [simp]:
  "flatten_options [] = []" "flatten_options (None # xs) = flatten_options xs"
  "flatten_options (Some x # xs) = x # flatten_options xs"
  by (simp_all add: flatten_options_def List.map_filter_def)

lemma flatten_options_append [simp]: "flatten_options (xs @ ys) = flatten_options xs @ flatten_options ys"
  by (simp add: flatten_options_def List.map_filter_def)

lemma terms_sum_simps [simp]:
  "terms_sum \<rho> [] = 0" "terms_sum \<rho> ((k, v) # ts) = uint v * \<rho> k + terms_sum \<rho> ts"
  "terms_sum \<rho> (ts @ us) = terms_sum \<rho> ts + terms_sum \<rho> us"
  by (simp_all add: terms_sum_def)

lemma ae_flat_constant [simp]: "ae_flat (ae_constant v) = []"
  by (simp add: ae_terms_def ae_constant_def)

lemma ae_flat_addend [simp]: "ae_flat (e\<lparr>ae_addend := v\<rparr>) = ae_flat e"
  by (simp add: ae_terms_def)

lemma terms_sum_insert:
  "bt_sorted m \<Longrightarrow> terms_sum \<rho> (bt_insert k v m) =
    terms_sum \<rho> m + (uint v - (case bt_get m k of Some w \<Rightarrow> uint w | None \<Rightarrow> 0)) * \<rho> k"
proof (induction m)
  case (Cons p m)
  obtain a w where p: "p = (a, w)" by force
  have "k < a \<Longrightarrow> bt_get m k = None"
    using Cons.prems by (cases m) (auto simp: p bt_sorted_Cons)
  then show ?case using Cons by (auto simp: p bt_sorted_Cons algebra_simps)
qed simp

lemma merge_scales_canonical:
  "canonical_terms m \<Longrightarrow> merge_scales ts m = Some m' \<Longrightarrow>
    canonical_terms m' \<and> terms_sum \<rho> m' = terms_sum \<rho> m + terms_sum \<rho> ts"
proof (induction ts m arbitrary: m' rule: merge_scales.induct)
  case (2 root scale rest m)
  show ?case
  proof (cases "scale = 0")
    case False
    let ?old = "case bt_get m root of Some v \<Rightarrow> v | None \<Rightarrow> 0"
    obtain v where v: "u64_checked_add ?old scale = Some v" "length (bt_insert root v m) \<le> 2"
      and rest: "merge_scales rest (bt_insert root v m) = Some m'"
      using 2(4) False by (auto split: option.splits if_splits)
    have sum: "uint v = uint ?old + uint scale" using v(1) by (rule u64_checked_add_Some)
    moreover have "0 < uint scale" "0 \<le> uint ?old" using False by (simp_all add: uint_u64_pos_iff)
    ultimately have "uint v \<noteq> 0" by linarith
    then have "v \<noteq> 0" by auto
    then have c: "canonical_terms (bt_insert root v m)"
      using 2(3) v(2) by (auto simp: canonical_terms_def dest!: bt_insert_elem)
    have m: "bt_sorted m" using 2(3) by (simp add: canonical_terms_def)
    show ?thesis
      using 2(2) [OF False v(1) _ c rest] v(2) terms_sum_insert [OF m, of \<rho> root v] sum
      by (auto simp: algebra_simps split: option.splits)
  qed (use 2 in simp)
qed simp

lemma of_merged_canonical:
  "canonical_terms m \<Longrightarrow> ae_flat (of_merged addend m) = m \<and> ae_wf (of_merged addend m) \<and>
    ae_addend (of_merged addend m) = addend"
  by (cases m; cases "tl m")
    (auto simp: of_merged_def ae_wf_def canonical_terms_def ae_terms_def ae_constant_def)

lemma canonical_Nil [simp]: "canonical_terms []"
  by (simp add: canonical_terms_def)

lemma from_terms_den:
  assumes "from_terms addend ts = Some e"
  shows "ae_wf e \<and> ae_den \<rho> e = uint addend + terms_sum \<rho> ts"
proof -
  obtain m where m: "merge_scales ts [] = Some m" "e = of_merged addend m"
    using assms by (auto simp: from_terms_def)
  show ?thesis
    using merge_scales_canonical [OF canonical_Nil m(1), of \<rho>] of_merged_canonical [of m addend] m(2)
    by (auto simp: ae_den_def)
qed

text \<open>The canonical form is unique: a canonical list is read off its values on the unit assignments.\<close>

lemma terms_sum_unit:
  "bt_sorted ts \<Longrightarrow> terms_sum (\<lambda>v. if v = k then 1 else 0) ts = (case bt_get ts k of Some s \<Rightarrow> uint s | None \<Rightarrow> 0)"
proof (induction ts)
  case (Cons p ts)
  obtain a w where p: "p = (a, w)" by force
  have "\<not> a < k \<Longrightarrow> bt_get ts k = None"
    using Cons.prems by (cases ts) (auto simp: p bt_sorted_Cons)
  then show ?case using Cons by (auto simp: p bt_sorted_Cons)
qed simp

lemma bt_get_below: "bt_sorted ((a, v) # m) \<Longrightarrow> k \<le> a \<Longrightarrow> bt_get m k = None"
  by (cases m) (auto simp: bt_sorted_Cons)

lemma bt_ext:
  "bt_sorted m \<Longrightarrow> bt_sorted m' \<Longrightarrow> (\<And>k. bt_get m k = bt_get m' k) \<Longrightarrow> m = m'"
proof (induction m arbitrary: m')
  case Nil
  show ?case
  proof (cases m')
    case (Cons q l)
    then show ?thesis using Nil(3) [of "fst q"] by (cases q) simp
  qed simp
next
  case (Cons p m)
  obtain a v where p: "p = (a, v)" by force
  obtain b w m'' where m': "m' = (b, w) # m''"
    using Cons.prems(3) [of a] by (cases m') (auto simp: p)
  have ab: "a = b" using Cons.prems(3) [of a] Cons.prems(3) [of b]
    by (auto simp: p m' split: if_splits)
  have "bt_get m k = bt_get m'' k" for k
  proof (cases "k \<le> a")
    case True
    then show ?thesis
      using bt_get_below [of a v m k] bt_get_below [of b w m'' k] Cons.prems(1,2) ab by (simp add: p m')
  next
    case False
    then show ?thesis using Cons.prems(3) [of k] ab by (auto simp: p m' split: if_splits)
  qed
  then have "m = m''" using Cons by (auto simp: p m' bt_sorted_Cons)
  then show ?case using Cons.prems(3) [of a] ab by (simp add: p m')
qed

lemma canonical_terms_ext:
  assumes "canonical_terms ts" and "canonical_terms us" and "\<And>\<rho>. terms_sum \<rho> ts = terms_sum \<rho> us"
  shows "ts = us"
proof -
  have sorted: "bt_sorted ts" "bt_sorted us" using assms(1,2) by (simp_all add: canonical_terms_def)
  have nz: "bt_get xs k = Some s \<Longrightarrow> uint s \<noteq> 0" if "canonical_terms xs" for xs k s
    using that bt_get_in_set [of xs k s] by (auto simp: canonical_terms_def uint_0_iff)
  have "bt_get ts k = bt_get us k" for k
    using assms(3) [of "\<lambda>v. if v = k then 1 else 0"] nz [OF assms(1), of k] nz [OF assms(2), of k]
    by (auto simp: terms_sum_unit sorted intro: word_uint_eqI split: option.splits)
  then show ?thesis using bt_ext [OF sorted] by blast
qed

lemma ae_eqI:
  assumes "ae_wf a" and "ae_wf b" and "ae_addend a = ae_addend b" and "ae_flat a = ae_flat b"
  shows "a = b"
proof -
  have "ae_root a = ae_root b \<and> ae_scale a = ae_scale b \<and> ae_second a = ae_second b"
    using assms by (cases "ae_root a"; cases "ae_root b"; cases "ae_second a"; cases "ae_second b")
      (auto simp: ae_wf_def ae_terms_def)
  then show ?thesis using assms(3) by simp
qed

lemma ae_canonical:
  assumes "ae_wf a" and "ae_wf b" and "\<And>\<rho>. ae_den \<rho> a = ae_den \<rho> b"
  shows "a = b"
proof (rule ae_eqI [OF assms(1,2)])
  have "terms_sum (\<lambda>_. 0) ts = 0" for ts by (induction ts) auto
  then have "uint (ae_addend a) = uint (ae_addend b)"
    using assms(3) [of "\<lambda>_. 0"] by (simp add: ae_den_def)
  then show addend: "ae_addend a = ae_addend b" by (rule word_uint_eqI)
  show "ae_flat a = ae_flat b"
    by (rule canonical_terms_ext) (use assms addend in \<open>auto simp: ae_wf_def ae_den_def\<close>)
qed

section \<open>Operations\<close>

lemma ae_checked_add_den:
  "ae_checked_add a b = Some c \<Longrightarrow> ae_wf c \<and> ae_den \<rho> c = ae_den \<rho> a + ae_den \<rho> b"
  by (auto simp: ae_checked_add_def ae_den_def dest!: checked_arith
      dest: from_terms_den [where \<rho> = \<rho>] split: Option.bind_splits)

lemma ae_add_constant_den:
  "ae_checked_add_constant e v = Some c \<Longrightarrow> ae_wf e \<Longrightarrow> ae_wf c \<and> ae_den \<rho> c = ae_den \<rho> e + uint v"
  by (auto simp: ae_checked_add_constant_def ae_den_def ae_wf_def dest!: checked_arith)

lemma ae_sub_constant_den:
  "ae_checked_sub_constant e v = Some c \<Longrightarrow> ae_wf e \<Longrightarrow> ae_wf c \<and> ae_den \<rho> c = ae_den \<rho> e - uint v"
  by (auto simp: ae_checked_sub_constant_def ae_den_def ae_wf_def dest!: checked_arith)

lemma u64_mul_nonzero: "u64_checked_mul a b = Some c \<Longrightarrow> a \<noteq> 0 \<Longrightarrow> b \<noteq> 0 \<Longrightarrow> c \<noteq> 0"
  using uint_u64_pos_iff [of a] uint_u64_pos_iff [of b] uint_u64_pos_iff [of c]
  by (auto dest!: u64_checked_mul_Some)

lemma ae_checked_scale_den:
  assumes "ae_checked_scale e factor = Some c" and "ae_wf e"
  shows "ae_wf c \<and> ae_den \<rho> c = uint factor * ae_den \<rho> e"
proof (cases "factor = 0")
  case True
  then show ?thesis using assms 
    by (auto simp: ae_checked_scale_def ae_constant_def ae_wf_def ae_den_def ae_terms_def)
next
  case False
  then obtain scale addend second where
    c: "c = \<lparr>ae_root = ae_root e, ae_scale = scale, ae_addend = addend, ae_second = second\<rparr>"
    and mul: "u64_checked_mul (ae_scale e) factor = Some scale" "u64_checked_mul (ae_addend e) factor = Some addend"
    and second: "(case ae_second e of None \<Rightarrow> Some None
          | Some (vid, s) \<Rightarrow> map_option (\<lambda>s'. Some (vid, s')) (u64_checked_mul s factor)) = Some second"
    using assms(1) by (auto simp: ae_checked_scale_def split: Option.bind_splits)
  note nz = u64_mul_nonzero [OF _ _ False]
  show ?thesis
    using second mul assms(2) False
    by (cases "ae_root e"; cases "ae_second e")
      (auto simp: c ae_wf_def ae_den_def ae_terms_def canonical_terms_def bt_sorted_def algebra_simps uint_0_iff
        dest: nz dest!: checked_arith)
qed

definition within_intervals :: "(vir_value_id \<Rightarrow> u64_interval option) \<Rightarrow> (vir_value_id \<Rightarrow> int) \<Rightarrow> bool" where
  "within_intervals read \<rho> =
     (\<forall>vid i. read vid = Some i \<longrightarrow> uint (iv_lower i) \<le> \<rho> vid \<and> \<rho> vid \<le> uint (iv_upper i))"

lemma interval_terms_bounds:
  "interval_terms read ts acc = Some acc' \<Longrightarrow> within_intervals read \<rho> \<Longrightarrow>
    uint (fst acc') - uint (fst acc) \<le> terms_sum \<rho> ts \<and> terms_sum \<rho> ts \<le> uint (snd acc') - uint (snd acc)"
proof (induction read ts acc arbitrary: acc' rule: interval_terms.induct)
  case (2 read vid scale rest acc)
  obtain i l lower u upper where i: "read vid = Some i"
    and a: "u64_checked_mul (iv_lower i) scale = Some l" "u64_checked_add (fst acc) l = Some lower"
      "u64_checked_mul (iv_upper i) scale = Some u" "u64_checked_add (snd acc) u = Some upper"
    and rest: "interval_terms read rest (lower, upper) = Some acc'"
    using 2(2) by (auto split: Option.bind_splits)
  have "uint (iv_lower i) * uint scale \<le> uint scale * \<rho> vid" "uint scale * \<rho> vid \<le> uint (iv_upper i) * uint scale"
    using 2(3) i by (auto simp: within_intervals_def mult.commute [of _ "uint scale"] intro: mult_left_mono)
  then show ?case
    using 2(1) [OF i a rest 2(3)] a by (auto dest!: checked_arith)
qed simp

lemma interval_terms_attained:
  "interval_terms read ts acc = Some acc' \<Longrightarrow>
    terms_sum (\<lambda>v. uint (iv_lower (the (read v)))) ts = uint (fst acc') - uint (fst acc) \<and>
    terms_sum (\<lambda>v. uint (iv_upper (the (read v)))) ts = uint (snd acc') - uint (snd acc)"
proof (induction read ts acc arbitrary: acc' rule: interval_terms.induct)
  case (2 read vid scale rest acc)
  obtain i l lower u upper where i: "read vid = Some i"
    and a: "u64_checked_mul (iv_lower i) scale = Some l" "u64_checked_add (fst acc) l = Some lower"
      "u64_checked_mul (iv_upper i) scale = Some u" "u64_checked_add (snd acc) u = Some upper"
    and rest: "interval_terms read rest (lower, upper) = Some acc'"
    using 2(2) by (auto split: Option.bind_splits)
  show ?case using 2(1) [OF i a rest] a i by (auto simp: mult.commute dest!: checked_arith)
qed simp

lemma cancel_term_sum:
  "cancel_term a bs = (a', bs') \<Longrightarrow>
    fst a' = fst a \<and> map fst bs' = map fst bs \<and>
    uint (snd a) * \<rho> (fst a) - terms_sum \<rho> bs = uint (snd a') * \<rho> (fst a) - terms_sum \<rho> bs'"
proof (induction a bs arbitrary: a' bs' rule: cancel_term.induct)
  case (2 a b bs)
  show ?case
  proof (cases "fst a = fst b")
    case True
    let ?c = "min (snd a) (snd b)"
    obtain x xs where r: "cancel_term (fst a, snd a - ?c) bs = (x, xs)"
      by (cases "cancel_term (fst a, snd a - ?c) bs")
    then have eq: "a' = x" "bs' = (fst b, snd b - ?c) # xs" using 2(3) True by (simp_all add: Let_def)
    have "uint (snd a - ?c) = uint (snd a) - uint ?c" "uint (snd b - ?c) = uint (snd b) - uint ?c"
      by (simp_all add: uint_sub_u64)
    moreover have "uint (snd a - ?c) * \<rho> (fst a) - terms_sum \<rho> bs = uint (snd x) * \<rho> (fst a) - terms_sum \<rho> xs"
      "fst x = fst a" "map fst xs = map fst bs"
      using 2(1) [OF True refl r] by auto
    ultimately show ?thesis
      using eq True by (cases b) (simp add: left_diff_distrib)
  next
    case False
    obtain x xs where r: "cancel_term a bs = (x, xs)" by (cases "cancel_term a bs")
    then show ?thesis using 2(2) [OF False r] 2(3) False by (cases b) (auto simp: algebra_simps)
  qed
qed simp

lemma cancel_terms_sum:
  "cancel_terms left right = (left', right') \<Longrightarrow>
    map fst left' = map fst left \<and> map fst right' = map fst right \<and>
    terms_sum \<rho> left - terms_sum \<rho> right = terms_sum \<rho> left' - terms_sum \<rho> right'"
proof (induction left right arbitrary: left' right' rule: cancel_terms.induct)
  case (2 a left right)
  obtain a1 r1 where c: "cancel_term a right = (a1, r1)" by (cases "cancel_term a right")
  obtain l2 r2 where t: "cancel_terms left r1 = (l2, r2)" by (cases "cancel_terms left r1")
  have eq: "left' = a1 # l2" "right' = r2" using 2(2) c t by simp_all
  show ?case
    using 2(1) [OF c [symmetric] refl t] cancel_term_sum [OF c, of \<rho>] eq by (cases a; cases a1) auto
qed simp

lemma u64_checked_add_zero: "u64_checked_add 0 s = Some s"
  using uint_u64_bound [of s] by (simp add: u64_checked_add_def)

lemma merge_scales_total:
  assumes "sorted_wrt (<) (map fst ts)" and "length ts \<le> 2"
  shows "\<exists>m. merge_scales ts [] = Some m"
proof -
  consider "ts = []" | a s where "ts = [(a, s)]" | a s b t where "ts = [(a, s), (b, t)]"
    using assms(2) by (cases ts; cases "tl ts"; cases "tl (tl ts)") auto
  then show ?thesis using assms(1) by cases (auto simp: u64_checked_add_zero)
qed

lemma from_terms_total:
  "sorted_wrt (<) (map fst ts) \<Longrightarrow> length ts \<le> 2 \<Longrightarrow> \<exists>e. from_terms addend ts = Some e"
  using merge_scales_total by (fastforce simp: from_terms_def)

lemma cancel_common_total:
  assumes "ae_wf a" and "ae_wf b"
  shows "\<exists>a' b'. cancel_common a b = Some (a', b') \<and> ae_wf a' \<and> ae_wf b' \<and>
    (\<forall>\<rho>. ae_den \<rho> a - ae_den \<rho> b = ae_den \<rho> a' - ae_den \<rho> b')"
proof -
  obtain l r where c: "cancel_terms (ae_flat a) (ae_flat b) = (l, r)"
    by (cases "cancel_terms (ae_flat a) (ae_flat b)")
  note sum = cancel_terms_sum [OF c]
  have len: "length l = length (ae_flat a)" "length r = length (ae_flat b)"
    using sum [of "\<lambda>_. 0"] by (metis length_map)+
  obtain a' where a': "from_terms (ae_addend a) l = Some a'"
    using from_terms_total [of l] sum [of "\<lambda>_. 0"] len assms(1) by (auto simp: ae_wf_def canonical_terms_def bt_sorted_def)
  obtain b' where b': "from_terms (ae_addend b) r = Some b'"
    using from_terms_total [of r] sum [of "\<lambda>_. 0"] len assms(2) by (auto simp: ae_wf_def canonical_terms_def bt_sorted_def)
  show ?thesis
    using from_terms_den [OF a'] from_terms_den [OF b'] sum
    by (intro exI [of _ a'] exI [of _ b']) (simp add: cancel_common_def c a' b' ae_den_def [of _ a] ae_den_def [of _ b])
qed

lemma multiple_of_den: "d \<noteq> 0 \<Longrightarrow> u64_is_multiple_of s d \<Longrightarrow> uint s = uint d * uint (s div d)"
proof -
  assume "d \<noteq> 0" "u64_is_multiple_of s d"
  then have "s mod d = 0" by (simp add: u64_is_multiple_of_def)
  then have "uint s mod uint d = 0" using uint_mod_distrib [of s d] by simp
  then show ?thesis by (simp add: uint_div_distrib mult.commute mod_0_imp_dvd)
qed

lemma divided_terms_sum:
  "divisor \<noteq> 0 \<Longrightarrow> option_map_list
     (\<lambda>(vid, scale). if u64_is_multiple_of scale divisor then Some (vid, scale div divisor) else None) ts = Some us \<Longrightarrow>
   terms_sum \<rho> ts = uint divisor * terms_sum \<rho> us"
proof (induction ts arbitrary: us)
  case (Cons t ts)
  obtain vid scale where t: "t = (vid, scale)" by force
  obtain rest where "us = (vid, scale div divisor) # rest" "u64_is_multiple_of scale divisor"
    "terms_sum \<rho> ts = uint divisor * terms_sum \<rho> rest"
    using Cons by (auto simp: t split: Option.bind_splits if_splits)
  then show ?case using multiple_of_den [OF Cons.prems(1)] by (simp add: t algebra_simps)
qed simp

lemma ae_div_exact_den:
  assumes "ae_checked_div_exact e divisor = Some c"
  shows "ae_wf c \<and> ae_den \<rho> e = uint divisor * ae_den \<rho> c"
proof -
  obtain ts where d: "divisor \<noteq> 0" "u64_is_multiple_of (ae_addend e) divisor"
    and ts: "option_map_list
     (\<lambda>(vid, scale). if u64_is_multiple_of scale divisor then Some (vid, scale div divisor) else None) (ae_flat e) = Some ts"
    and c: "from_terms (ae_addend e div divisor) ts = Some c"
    using assms by (auto simp: ae_checked_div_exact_def split: if_splits Option.bind_splits)
  show ?thesis
    using from_terms_den [OF c, of \<rho>] divided_terms_sum [OF d(1) ts, of \<rho>] multiple_of_den [OF d]
    by (simp add: ae_den_def [of _ e] algebra_simps)
qed

lemma without_root_total:
  assumes "ae_wf e"
  shows "\<exists>c. without_root e root = Some c \<and> ae_wf c \<and>
    (\<forall>\<rho>. ae_den \<rho> c = ae_den (\<rho>(root := 0)) e)"
proof -
  let ?ts = "filter (\<lambda>(vid, _). vid \<noteq> root) (ae_flat e)"
  have "length ?ts \<le> 2"
    using assms length_filter_le [of "\<lambda>(vid, _). vid \<noteq> root" "ae_flat e"]
    unfolding ae_wf_def canonical_terms_def by linarith
  moreover have "sorted_wrt (<) (map fst ?ts)"
    using assms by (auto simp: ae_wf_def canonical_terms_def bt_sorted_def sorted_wrt_map intro: sorted_wrt_filter)
  ultimately obtain c where c: "from_terms (ae_addend e) ?ts = Some c" using from_terms_total by blast
  have "terms_sum \<rho> (filter (\<lambda>(vid, _). vid \<noteq> root) ts) = terms_sum (\<rho>(root := 0)) ts" for \<rho> ts
    by (induction ts) auto
  then show ?thesis
    using from_terms_den [OF c] by (intro exI [of _ c]) (auto simp: without_root_def c ae_den_def [of _ e])
qed

lemma renamed_terms_sum:
  "option_map_list (\<lambda>(vid, scale). map_option (\<lambda>n. (n, scale)) (bt_get renames vid)) ts = Some us \<Longrightarrow>
    terms_sum (\<lambda>v. \<rho> (the (bt_get renames v))) ts = terms_sum \<rho> us"
proof (induction ts arbitrary: us)
  case (Cons t ts)
  then show ?case by (cases t) (auto split: Option.bind_splits)
qed simp

lemma rename_root_den:
  "rename_root e renames = Some c \<Longrightarrow> ae_wf c \<and> ae_den \<rho> c = ae_den (\<lambda>v. \<rho> (the (bt_get renames v))) e"
  using renamed_terms_sum [of renames "ae_flat e" _ \<rho>]
  by (auto simp: rename_root_def ae_den_def [of _ e] dest: from_terms_den [where \<rho> = \<rho>] split: Option.bind_splits)

section \<open>Alignment\<close>

lemma trailing_zeros_bits: "i < u64_trailing_zeros x \<Longrightarrow> \<not> bit x i"
proof -
  assume i: "i < u64_trailing_zeros x"
  then have "takeWhile (\<lambda>i. \<not> bit x i) [0..<64] ! i \<in> set (takeWhile (\<lambda>i. \<not> bit x i) [0..<64])"
    by (intro nth_mem) (simp add: u64_trailing_zeros_def)
  moreover have "takeWhile (\<lambda>i. \<not> bit x i) [0..<64] ! i = i"
    using i takeWhile_nth [of i "\<lambda>i. \<not> bit x i" "[0..<64]"] length_takeWhile_le [of "\<lambda>i. \<not> bit x i" "[0..<64]"]
    by (simp add: u64_trailing_zeros_def)
  ultimately show ?thesis by (metis set_takeWhileD)
qed

lemma trailing_zeros_dvd: "2 ^ u64_trailing_zeros x dvd uint x"
proof -
  have "take_bit (u64_trailing_zeros x) (uint x) = 0"
    by (rule bit_eqI) (auto simp: bit_take_bit_iff bit_uint_iff dest: trailing_zeros_bits)
  then show ?thesis by (simp add: take_bit_eq_0_iff)
qed

lemma trailing_zeros_less: "x \<noteq> 0 \<Longrightarrow> u64_trailing_zeros x < 64"
proof -
  assume "x \<noteq> 0"
  show ?thesis
  proof (rule ccontr)
    assume "\<not> u64_trailing_zeros x < 64"
    then have "\<not> bit x i" if "i < 64" for i using that trailing_zeros_bits [of i x] by simp
    then have "x = 0" by (intro bit_word_eqI) simp
    with \<open>x \<noteq> 0\<close> show False ..
  qed
qed

lemma uint_power_u64: "n < 64 \<Longrightarrow> uint (2 ^ n :: u64) = 2 ^ n"
proof -
  assume "n < 64"
  then have "(2 :: int) ^ n < 2 ^ 64" by (intro power_strict_increasing) auto
  then show ?thesis using uint_word_of_int [of "2 ^ n", where 'a = 64] by simp
qed

lemma or_dvd: "2 ^ n dvd uint (a OR b :: u64) \<longleftrightarrow> 2 ^ n dvd uint a \<and> 2 ^ n dvd uint b"
  by (simp add: take_bit_eq_0_iff [symmetric] unsigned_or_eq take_bit_or or_eq_0_iff)

lemma fold_or_dvd:
  "2 ^ n dvd uint (fold (\<lambda>(_, scale) bits. bits OR scale) ts (acc :: u64)) \<longleftrightarrow>
    2 ^ n dvd uint acc \<and> (\<forall>(vid, scale) \<in> set ts. 2 ^ n dvd uint scale)"
  by (induction ts arbitrary: acc) (auto simp: or_dvd)

lemma terms_sum_dvd: "(\<forall>(vid, scale) \<in> set ts. k dvd uint scale) \<Longrightarrow> k dvd terms_sum \<rho> ts"
  by (induction ts) auto

lemma ae_alignment_holds:
  "ga_wf (ae_guaranteed_alignment e) \<and> ga_holds (ae_guaranteed_alignment e) (ae_den \<rho> e)"
proof -
  let ?d = "fold (\<lambda>(_, scale) bits. bits OR scale) (ae_flat e) (ae_addend e)"
  define n where "n = (if ?d = 0 then 63 else u64_trailing_zeros ?d)"
  have n: "n < 64" using trailing_zeros_less [of ?d] by (simp add: n_def)
  have "2 ^ n dvd uint ?d" using trailing_zeros_dvd [of ?d] by (auto simp: n_def)
  then have "2 ^ n dvd ae_den \<rho> e"
    by (auto simp: fold_or_dvd ae_den_def intro!: dvd_add terms_sum_dvd)
  moreover have "u64_is_power_of_two (2 ^ n)"
    using n uint_power_u64 [OF n] by (auto simp: u64_is_power_of_two_def)
  moreover have "(2 ^ n :: u64) \<noteq> 0"
    using uint_power_u64 [OF n] by (metis power_not_zero uint_0_iff zero_neq_numeral)
  ultimately have "ga_new (2 ^ n) = Inr \<lparr>ga_bytes = 2 ^ n\<rparr>" and "2 ^ n dvd ae_den \<rho> e"
    by (simp_all add: ga_new_def)
  moreover have "ae_guaranteed_alignment e = (case ga_new (2 ^ n) of Inr a \<Rightarrow> a | Inl _ \<Rightarrow> ga_one)"
    by (simp add: ae_guaranteed_alignment_def Let_def n_def push_bit_of_1)
  moreover have "ga_wf \<lparr>ga_bytes = 2 ^ n\<rparr>" using \<open>u64_is_power_of_two (2 ^ n)\<close> by (simp add: ga_wf_def)
  ultimately show ?thesis using uint_power_u64 [OF n] by (simp add: ga_holds_def)
qed

section \<open>Properties\<close>

text \<open>The expressions the code can build, each with the mathematical value its construction stands for.\<close>

inductive computes :: "affine_expression \<Rightarrow> ((vir_value_id \<Rightarrow> int) \<Rightarrow> int) \<Rightarrow> bool" where
  const: "computes (ae_constant v) (\<lambda>\<rho>. uint v)"
| identity: "computes (ae_identity v) (\<lambda>\<rho>. \<rho> v)"
| terms: "from_terms addend ts = Some e \<Longrightarrow> computes e (\<lambda>\<rho>. uint addend + (\<Sum>(v, scale) \<leftarrow> ts. uint scale * \<rho> v))"
| add: "computes a f \<Longrightarrow> computes b g \<Longrightarrow> ae_checked_add a b = Some e \<Longrightarrow> computes e (\<lambda>\<rho>. f \<rho> + g \<rho>)"
| add_constant: "computes a f \<Longrightarrow> ae_checked_add_constant a v = Some e \<Longrightarrow> computes e (\<lambda>\<rho>. f \<rho> + uint v)"
| sub_constant: "computes a f \<Longrightarrow> ae_checked_sub_constant a v = Some e \<Longrightarrow> computes e (\<lambda>\<rho>. f \<rho> - uint v)"
| scale: "computes a f \<Longrightarrow> ae_checked_scale a v = Some e \<Longrightarrow> computes e (\<lambda>\<rho>. uint v * f \<rho>)"
| div_exact: "computes a f \<Longrightarrow> ae_checked_div_exact a v = Some e \<Longrightarrow> computes e (\<lambda>\<rho>. f \<rho> div uint v)"
| without: "computes a f \<Longrightarrow> without_root a v = Some e \<Longrightarrow> computes e (\<lambda>\<rho>. f (\<rho>(v := 0)))"
| rename: "computes a f \<Longrightarrow> rename_root a m = Some e \<Longrightarrow> computes e (\<lambda>\<rho>. f (\<lambda>v. \<rho> (the (bt_get m v))))"

lemma without_root_den:
  assumes "without_root a v = Some e"
  shows "ae_wf e \<and> ae_den \<rho> e = ae_den (\<rho>(v := 0)) a"
proof -
  have "terms_sum \<rho> (filter (\<lambda>(vid, _). vid \<noteq> v) ts) = terms_sum (\<rho>(v := 0)) ts" for ts
    by (induction ts) (auto simp: terms_sum_def)
  then show ?thesis using from_terms_den [OF assms [unfolded without_root_def], of \<rho>] by (simp add: ae_den_def)
qed

lemma div_exact_nonzero: "ae_checked_div_exact a v = Some e \<Longrightarrow> v \<noteq> 0"
  by (auto simp: ae_checked_div_exact_def split: if_splits)

lemma computes_den: "computes e f \<Longrightarrow> ae_wf e \<and> (\<forall>\<rho>. ae_den \<rho> e = f \<rho>)"
proof (induction rule: computes.induct)
  case (const v)
  show ?case by (simp add: ae_wf_def ae_constant_def ae_den_def ae_terms_def canonical_terms_def flatten_options_def)
next
  case (identity v)
  show ?case by (simp add: ae_wf_def ae_identity_def ae_den_def ae_terms_def canonical_terms_def flatten_options_def)
next
  case (terms addend ts e)
  then show ?case using from_terms_den [of addend ts e] by (simp add: terms_sum_def)
next
  case (add a f b g e)
  then show ?case using ae_checked_add_den [OF add.hyps(3)] by simp
next
  case (add_constant a f v e)
  then show ?case using ae_add_constant_den [OF add_constant.hyps(2)] by simp
next
  case (sub_constant a f v e)
  then show ?case using ae_sub_constant_den [OF sub_constant.hyps(2)] by simp
next
  case (scale a f v e)
  then show ?case using ae_checked_scale_den [OF scale.hyps(2)] by simp
next
  case (div_exact a f v e)
  have "uint v \<noteq> 0" using div_exact_nonzero [OF div_exact.hyps(2)] by (simp add: unsigned_eq_0_iff)
  then show ?case using ae_div_exact_den [OF div_exact.hyps(2)] div_exact.IH by (metis nonzero_mult_div_cancel_left)
next
  case (without a f v e)
  then show ?case using without_root_den [OF without.hyps(2)] by (simp add: fun_upd_def)
next
  case (rename a f m e)
  then show ?case using rename_root_den [OF rename.hyps(2)] by simp
qed

text \<open>C38: Affine expressions are exact and canonical. Every expression the code builds from constants, values and term
  lists by its checked sum, addition, subtraction, product and exact division, by removing a root or by renaming
  is worth the mathematical result of its construction, with no wrap-around; and two of them are structurally equal,
  which is what the verifier tests, exactly when they have the same value under every assignment.\<close>

theorem affine_expression_canonical:
  assumes "computes a f" and "computes b g"
  shows "(\<forall>\<rho>. ae_den \<rho> a = f \<rho>) \<and> (a = b \<longleftrightarrow> (\<forall>\<rho>. f \<rho> = g \<rho>))"
  using ae_canonical [of a b] computes_den [OF assms(1)] computes_den [OF assms(2)] by auto

theorem affine_expression_canonical_witness:
  "let e = \<lparr>ae_root = Some 1, ae_scale = 3, ae_addend = 6, ae_second = Some (2, 3)\<rparr>
   in ae_checked_scale \<lparr>ae_root = Some 1, ae_scale = 1, ae_addend = 2, ae_second = Some (2, 1)\<rparr> 3 = Some e \<and>
      from_terms 6 [(2, 1), (1, 3), (2, 2)] = Some e \<and> (\<forall>\<rho>. ae_den \<rho> e = 3 * (2 + (\<rho> 2 + \<rho> 1))) \<and>
      (\<forall>\<rho> :: vir_value_id \<Rightarrow> int. 3 * (2 + (\<rho> 2 + \<rho> 1)) = 6 + (\<rho> 2 + (3 * \<rho> 1 + 2 * \<rho> 2)))"
proof -
  let ?e = "\<lparr>ae_root = Some 1, ae_scale = 3, ae_addend = 6, ae_second = Some (2, 3)\<rparr>"
  have runs: "from_terms 2 [(2, 1), (1, 1)] = Some \<lparr>ae_root = Some 1, ae_scale = 1, ae_addend = 2, ae_second = Some (2, 1)\<rparr>"
      "ae_checked_scale \<lparr>ae_root = Some 1, ae_scale = 1, ae_addend = 2, ae_second = Some (2, 1)\<rparr> 3 = Some ?e"
      "from_terms 6 [(2, 1), (1, 3), (2, 2)] = Some ?e" by code_simp+
  have three: "computes ?e (\<lambda>\<rho>. 3 * (2 + (\<rho> 2 + \<rho> 1)))"
    using computes.scale [OF computes.terms [OF runs(1)] runs(2)] by (simp del: One_nat_def)
  have six: "computes ?e (\<lambda>\<rho>. 6 + (\<rho> 2 + (3 * \<rho> 1 + 2 * \<rho> 2)))"
    using computes.terms [OF runs(3)] by (simp del: One_nat_def)
  have "\<forall>\<rho> :: vir_value_id \<Rightarrow> int. 3 * (2 + (\<rho> 2 + \<rho> 1)) = 6 + (\<rho> 2 + (3 * \<rho> 1 + 2 * \<rho> 2))"
    using affine_expression_canonical [OF three six] by blast
  moreover have "\<forall>\<rho>. ae_den \<rho> ?e = 3 * (2 + (\<rho> 2 + \<rho> 1))" using affine_expression_canonical [OF three six] by blast
  ultimately show ?thesis using runs(2,3) unfolding Let_def by blast
qed

text \<open>Cancelling common terms cannot panic and loses nothing: on canonical expressions both
  \<open>unwrap\<close> calls succeed and the difference of the two sides is unchanged under every assignment.\<close>

theorem cancel_common_safe:
  assumes "ae_wf a" and "ae_wf b"
  shows "\<exists>a' b'. cancel_common a b = Some (a', b') \<and> ae_wf a' \<and> ae_wf b' \<and>
    (\<forall>\<rho>. ae_den \<rho> a - ae_den \<rho> b = ae_den \<rho> a' - ae_den \<rho> b')"
  using assms by (rule cancel_common_total)

theorem cancel_common_safe_witness:
  "ae_wf (ae_identity 1) \<and> (\<exists>a' b'. cancel_common (ae_identity 1) (ae_identity 1) = Some (a', b') \<and> ae_wf a' \<and> ae_wf b' \<and>
    (\<forall>\<rho>. ae_den \<rho> (ae_identity 1) - ae_den \<rho> (ae_identity 1) = ae_den \<rho> a' - ae_den \<rho> b'))"
proof -
  have wf: "ae_wf (ae_identity 1)"
    by (simp add: ae_wf_def canonical_terms_def ae_identity_def ae_terms_def)
  then show ?thesis using cancel_common_safe [OF wf wf] by blast
qed

text \<open>The interval of an expression is sound and tight. It contains the value of the expression
  under every assignment inside the intervals of its roots, and both ends are the values at the
  ends of those intervals.\<close>

theorem affine_interval_tight:
  assumes "ae_interval read e = Some i"
  shows "(\<forall>\<rho>. within_intervals read \<rho> \<longrightarrow> uint (iv_lower i) \<le> ae_den \<rho> e \<and> ae_den \<rho> e \<le> uint (iv_upper i)) \<and>
    ae_den (\<lambda>v. uint (iv_lower (the (read v)))) e = uint (iv_lower i) \<and>
    ae_den (\<lambda>v. uint (iv_upper (the (read v)))) e = uint (iv_upper i)"
proof -
  obtain l u where lu: "interval_terms read (ae_flat e) (ae_addend e, ae_addend e) = Some (l, u)"
    and i: "i = \<lparr>iv_lower = l, iv_upper = u\<rparr>"
    using assms by (auto simp: ae_interval_def iv_new_ok split: Option.bind_splits)
  have "uint l \<le> ae_den \<rho> e \<and> ae_den \<rho> e \<le> uint u" if "within_intervals read \<rho>" for \<rho>
    using interval_terms_bounds [OF lu that] by (simp add: ae_den_def)
  then show ?thesis using interval_terms_attained [OF lu] by (simp add: ae_den_def i)
qed

theorem affine_interval_tight_witness:
  "ae_interval (\<lambda>v. Some \<lparr>iv_lower = 2, iv_upper = 5\<rparr>) (ae_identity 1) = Some \<lparr>iv_lower = 2, iv_upper = 5\<rparr> \<and>
   ae_den (\<lambda>v. 2) (ae_identity 1) = 2"
proof -
  have h: "ae_interval (\<lambda>v. Some \<lparr>iv_lower = 2, iv_upper = 5\<rparr>) (ae_identity 1) = Some \<lparr>iv_lower = 2, iv_upper = 5\<rparr>"
    by (simp add: ae_interval_def ae_identity_def ae_terms_def u64_checked_add_def u64_checked_mul_def iv_new_def)
  show ?thesis using affine_interval_tight [OF h] h by simp
qed

text \<open>The alignment inferred from the coefficients is sound for every expression: it is a power of
  two that divides the value of the expression under every assignment.\<close>

theorem guaranteed_alignment_sound:
  "ga_wf (ae_guaranteed_alignment e) \<and> uint (ga_bytes (ae_guaranteed_alignment e)) dvd ae_den \<rho> e"
  using ae_alignment_holds [of e \<rho>] by (simp add: ga_holds_def)

end
