(* ===== verification/Byte_Set.thy ===== *)
theory Byte_Set
  imports Affine_Expression
begin

text \<open>
  Byte ranges and canonical byte sets of \<open>src/src/verifier/resource/bytes.rs\<close>, and the symbolic
  permission ranges built on them. A set is a list of nonempty half-open ranges, sorted and with a
  gap between neighbours; its meaning is the set of byte offsets it covers.
\<close>

section \<open>Ranges\<close>

record byte_range =
  br_start :: u64
  br_end :: u64

datatype byte_range_error = Reversed u64 u64 | EndOverflow u64 u64

definition br_new :: "u64 \<Rightarrow> u64 \<Rightarrow> byte_range_error + byte_range" where
  "br_new start end' = (if start > end' then Inl (Reversed start end') else Inr \<lparr>br_start = start, br_end = end'\<rparr>)"

definition br_from_start_and_length :: "u64 \<Rightarrow> u64 \<Rightarrow> byte_range_error + byte_range" where
  "br_from_start_and_length start len =
     res_bind (ok_or (EndOverflow start len) (u64_checked_add start len)) (\<lambda>end'.
     Inr \<lparr>br_start = start, br_end = end'\<rparr>)"

definition br_length :: "byte_range \<Rightarrow> u64" where
  "br_length r = br_end r - br_start r"

definition br_is_empty :: "byte_range \<Rightarrow> bool" where
  "br_is_empty r = (br_start r = br_end r)"

definition br_contains :: "byte_range \<Rightarrow> byte_range \<Rightarrow> bool" where
  "br_contains r other = (br_start r \<le> br_start other \<and> br_end other \<le> br_end r)"

definition br_overlaps :: "byte_range \<Rightarrow> byte_range \<Rightarrow> bool" where
  "br_overlaps r other = (br_start r < br_end other \<and> br_start other < br_end r)"

definition br_intersection :: "byte_range \<Rightarrow> byte_range \<Rightarrow> byte_range option" where
  "br_intersection r other =
     (let start = max (br_start r) (br_start other); end' = min (br_end r) (br_end other) in
      if start < end' then Some \<lparr>br_start = start, br_end = end'\<rparr> else None)"

section \<open>Sets\<close>

definition VERIFIER_BYTE_SET_MAX_RANGES :: nat where
  "VERIFIER_BYTE_SET_MAX_RANGES = 4096"

record byte_set =
  bs_ranges :: "byte_range list"
  bs_precision_lost :: bool

definition bs_new :: byte_set where
  "bs_new = \<lparr>bs_ranges = [], bs_precision_lost = False\<rparr>"

definition bs_is_empty :: "byte_set \<Rightarrow> bool" where
  "bs_is_empty s = (bs_ranges s = [])"

definition bs_is_precise :: "byte_set \<Rightarrow> bool" where
  "bs_is_precise s = (\<not> bs_precision_lost s)"

definition store_ranges :: "byte_range list \<Rightarrow> byte_set \<Rightarrow> byte_set" where
  "store_ranges output s =
     (if length output > VERIFIER_BYTE_SET_MAX_RANGES
      then \<lparr>bs_ranges = take VERIFIER_BYTE_SET_MAX_RANGES output, bs_precision_lost = True\<rparr>
      else s\<lparr>bs_ranges := output\<rparr>)"

fun insert_ranges :: "byte_range \<Rightarrow> bool \<Rightarrow> byte_range list \<Rightarrow> byte_range list" where
  "insert_ranges merged inserted [] = (if inserted then [] else [merged])"
| "insert_ranges merged inserted (current # rest) =
     (if br_end current < br_start merged then current # insert_ranges merged inserted rest
      else if br_end merged < br_start current then
        (if inserted then [] else [merged]) @ current # insert_ranges merged True rest
      else insert_ranges
        \<lparr>br_start = min (br_start merged) (br_start current), br_end = max (br_end merged) (br_end current)\<rparr>
        inserted rest)"

definition bs_insert :: "byte_range \<Rightarrow> byte_set \<Rightarrow> byte_set" where
  "bs_insert rg s =
     (if br_is_empty rg then s else store_ranges (insert_ranges rg False (bs_ranges s)) s)"

definition remove_range :: "byte_range \<Rightarrow> byte_range \<Rightarrow> byte_range list" where
  "remove_range rg current =
     (if \<not> br_overlaps current rg then [current]
      else
        (if br_start current < br_start rg
         then [\<lparr>br_start = br_start current, br_end = min (br_start rg) (br_end current)\<rparr>] else []) @
        (if br_end rg < br_end current
         then [\<lparr>br_start = max (br_end rg) (br_start current), br_end = br_end current\<rparr>] else []))"

definition bs_remove :: "byte_range \<Rightarrow> byte_set \<Rightarrow> byte_set" where
  "bs_remove rg s =
     (if br_is_empty rg then s
      else store_ranges (concat (map (remove_range rg) (bs_ranges s))) s)"

definition bs_single :: "byte_range \<Rightarrow> byte_set" where
  "bs_single rg = bs_insert rg bs_new"

definition bs_contains :: "byte_set \<Rightarrow> byte_range \<Rightarrow> bool" where
  "bs_contains s rg = (br_is_empty rg \<or> list_ex (\<lambda>known. br_contains known rg) (bs_ranges s))"

fun intersect_ranges :: "byte_range list \<Rightarrow> byte_range list \<Rightarrow> byte_set \<Rightarrow> byte_set" where
  "intersect_ranges (left # ls) (right # rs) result =
     (let result' = (case br_intersection left right of Some overlap \<Rightarrow> bs_insert overlap result | None \<Rightarrow> result) in
      if br_end left < br_end right then intersect_ranges ls (right # rs) result'
      else intersect_ranges (left # ls) rs result')"
| "intersect_ranges _ _ result = result"

definition bs_intersection :: "byte_set \<Rightarrow> byte_set \<Rightarrow> byte_set" where
  "bs_intersection s other =
     (let result = (intersect_ranges (bs_ranges s) (bs_ranges other) bs_new)
            \<lparr>bs_precision_lost := bs_precision_lost s \<or> bs_precision_lost other\<rparr> in
      if length (bs_ranges result) > VERIFIER_BYTE_SET_MAX_RANGES
      then \<lparr>bs_ranges = take VERIFIER_BYTE_SET_MAX_RANGES (bs_ranges result), bs_precision_lost = True\<rparr>
      else result)"

definition bs_union :: "byte_set \<Rightarrow> byte_set \<Rightarrow> byte_set" where
  "bs_union s other =
     fold bs_insert (bs_ranges other) (s\<lparr>bs_precision_lost := bs_precision_lost s \<or> bs_precision_lost other\<rparr>)"

definition bs_is_disjoint :: "byte_set \<Rightarrow> byte_set \<Rightarrow> bool" where
  "bs_is_disjoint s other = bs_is_empty (bs_intersection s other)"

section \<open>Permission ranges\<close>

datatype abstract_byte_range =
    RExact byte_range
  | RSymbolic symbolic_range_bound symbolic_range_bound
  | RUnknown

fun abr_join :: "abstract_byte_range \<Rightarrow> abstract_byte_range \<Rightarrow> abstract_byte_range" where
  "abr_join (RExact left) (RExact right) =
     (if br_start left = br_start right \<and> br_end left = br_end right then RExact left else RUnknown)"
| "abr_join (RSymbolic ls le) (RSymbolic rs re) =
     (if ls = rs \<and> le = re then RSymbolic ls le else RUnknown)"
| "abr_join _ _ = RUnknown"

fun definitely_covers :: "abstract_byte_range \<Rightarrow> byte_range \<Rightarrow> bool" where
  "definitely_covers (RExact rg) access = br_contains rg access"
| "definitely_covers _ access = False"

fun abr_bounds :: "abstract_byte_range \<Rightarrow> (symbolic_range_bound \<times> symbolic_range_bound) option" where
  "abr_bounds (RExact rg) = Some (sb_constant (br_start rg), sb_constant (br_end rg))"
| "abr_bounds (RSymbolic start end') = Some (start, end')"
| "abr_bounds RUnknown = None"

definition fold_exact :: "symbolic_range_bound \<Rightarrow> symbolic_range_bound" where
  "fold_exact b = (case iv_exact_value (sb_interval b) of Some v \<Rightarrow> sb_constant v | None \<Rightarrow> b)"

definition from_bounds :: "symbolic_range_bound \<Rightarrow> symbolic_range_bound \<Rightarrow> abstract_byte_range" where
  "from_bounds start end' =
     (let s = fold_exact start; e = fold_exact end' in
      case (ae_single_root (sb_expression s), iv_exact_value (sb_interval s),
            ae_single_root (sb_expression e), iv_exact_value (sb_interval e)) of
        (None, Some a, None, Some b) \<Rightarrow> (case br_new a b of Inr r \<Rightarrow> RExact r | Inl _ \<Rightarrow> RUnknown)
      | _ \<Rightarrow> RSymbolic s e)"

section \<open>Meaning and invariant\<close>

definition br_bytes :: "byte_range \<Rightarrow> int set" where
  "br_bytes r = {x. uint (br_start r) \<le> x \<and> x < uint (br_end r)}"

definition ranges_bytes :: "byte_range list \<Rightarrow> int set" where
  "ranges_bytes rs = (\<Union>r \<in> set rs. br_bytes r)"

definition bs_bytes :: "byte_set \<Rightarrow> int set" where
  "bs_bytes s = ranges_bytes (bs_ranges s)"

abbreviation gap :: "byte_range \<Rightarrow> byte_range \<Rightarrow> bool" where
  "gap a b \<equiv> br_end a < br_start b"

definition ranges_wf :: "byte_range list \<Rightarrow> bool" where
  "ranges_wf rs = ((\<forall>r \<in> set rs. br_start r < br_end r) \<and> sorted_wrt gap rs)"

definition bs_wf :: "byte_set \<Rightarrow> bool" where
  "bs_wf s = (ranges_wf (bs_ranges s) \<and> length (bs_ranges s) \<le> VERIFIER_BYTE_SET_MAX_RANGES)"

lemmas u64_order = word_less_def word_le_def uint_min_u64 uint_max_u64

lemma ranges_bytes_simps [simp]:
  "ranges_bytes [] = {}" "ranges_bytes (r # rs) = br_bytes r \<union> ranges_bytes rs"
  "ranges_bytes (rs @ ss) = ranges_bytes rs \<union> ranges_bytes ss"
  by (auto simp: ranges_bytes_def)

lemma ranges_wf_Nil [simp]: "ranges_wf []"
  by (simp add: ranges_wf_def)

lemma ranges_wf_Cons:
  "ranges_wf (r # rs) \<longleftrightarrow> br_start r < br_end r \<and> (\<forall>x \<in> set rs. gap r x) \<and> ranges_wf rs"
  by (auto simp: ranges_wf_def)

lemma ranges_wf_take: "ranges_wf rs \<Longrightarrow> ranges_wf (take n rs)"
  by (auto simp: ranges_wf_def sorted_wrt_take dest: in_set_takeD)

lemma ranges_bytes_take: "ranges_bytes (take n rs) \<subseteq> ranges_bytes rs"
  by (auto simp: ranges_bytes_def dest: in_set_takeD)

lemma gap_trans: "gap a b \<Longrightarrow> br_start b < br_end b \<Longrightarrow> gap b c \<Longrightarrow> gap a c"
  by (auto simp: u64_order)

section \<open>Insertion\<close>

lemma insert_ranges_done: "(\<And>c. c \<in> set rs \<Longrightarrow> gap m c) \<Longrightarrow> ranges_wf (m # rs) \<Longrightarrow> insert_ranges m True rs = rs"
proof (induction rs)
  case (Cons c rs)
  have "\<not> br_end c < br_start m"
    using Cons.prems(1) [of c] Cons.prems(2) by (auto simp: ranges_wf_Cons u64_order)
  then show ?case using Cons by (auto simp: ranges_wf_Cons)
qed simp

lemma hull_bytes:
  "\<not> br_end c < br_start m \<Longrightarrow> \<not> br_end m < br_start c \<Longrightarrow> br_start m < br_end m \<Longrightarrow> br_start c < br_end c \<Longrightarrow>
    br_bytes \<lparr>br_start = min (br_start m) (br_start c), br_end = max (br_end m) (br_end c)\<rparr> = br_bytes m \<union> br_bytes c"
  by (auto simp: br_bytes_def u64_order)

lemma insert_ranges_spec:
  assumes "ranges_wf rs" and "br_start m < br_end m"
  shows "ranges_wf (insert_ranges m False rs) \<and>
    ranges_bytes (insert_ranges m False rs) = br_bytes m \<union> ranges_bytes rs \<and>
    (\<forall>x. gap x m \<longrightarrow> (\<forall>r \<in> set rs. gap x r) \<longrightarrow> (\<forall>r \<in> set (insert_ranges m False rs). gap x r))"
  using assms
proof (induction rs arbitrary: m)
  case (Cons c rs)
  have c: "br_start c < br_end c" "\<forall>x \<in> set rs. gap c x" "ranges_wf rs"
    using Cons.prems(1) by (simp_all add: ranges_wf_Cons)
  consider "gap c m" | "\<not> gap c m" "gap m c" | "\<not> gap c m" "\<not> gap m c" by blast
  then show ?case
  proof cases
    case 1
    then show ?thesis using Cons.IH [OF c(3) Cons.prems(2)] c by (auto simp: ranges_wf_Cons)
  next
    case 2
    have gaps: "gap m x" if "x \<in> set rs" for x using gap_trans [OF 2(2) c(1)] c(2) that by blast
    have "insert_ranges m True rs = rs"
      by (rule insert_ranges_done) (use gaps c Cons.prems(2) in \<open>auto simp: ranges_wf_Cons\<close>)
    then show ?thesis using 2 gaps c Cons.prems(2) by (auto simp: ranges_wf_Cons)
  next
    case 3
    let ?m = "\<lparr>br_start = min (br_start m) (br_start c), br_end = max (br_end m) (br_end c)\<rparr>"
    have "br_start ?m < br_end ?m" using Cons.prems(2) by (auto simp: u64_order)
    note IH = Cons.IH [OF c(3) this]
    have gap: "gap x ?m" if "gap x m" "gap x c" for x using that by (simp add: u64_order)
    have eq: "insert_ranges m False (c # rs) = insert_ranges ?m False rs" using 3 by simp
    have bytes: "br_bytes ?m = br_bytes m \<union> br_bytes c" by (rule hull_bytes [OF 3 Cons.prems(2) c(1)])
    have "ranges_bytes (insert_ranges ?m False rs) = br_bytes m \<union> ranges_bytes (c # rs)"
      using IH bytes by (simp add: Un_assoc)
    moreover have "\<forall>r \<in> set (insert_ranges ?m False rs). gap x r"
      if "gap x m" "\<forall>r \<in> set (c # rs). gap x r" for x
      by (rule IH [THEN conjunct2, THEN conjunct2, THEN spec, THEN mp, THEN mp])
        (rule gap [OF that(1)], use that(2) in simp, use that(2) in simp)
    ultimately show ?thesis unfolding eq using conjunct1 [OF IH] by (intro conjI allI impI) assumption+
  qed
qed (simp add: ranges_wf_Cons)

lemma store_ranges_wf: "ranges_wf rs \<Longrightarrow> bs_wf (store_ranges rs s)"
  by (auto simp: store_ranges_def bs_wf_def ranges_wf_take)

lemma store_ranges_bytes:
  "bs_bytes (store_ranges rs s) \<subseteq> ranges_bytes rs \<and>
    (bs_is_precise (store_ranges rs s) \<longrightarrow> bs_is_precise s \<and> bs_bytes (store_ranges rs s) = ranges_bytes rs)"
  using ranges_bytes_take [of VERIFIER_BYTE_SET_MAX_RANGES rs]
  by (auto simp: store_ranges_def bs_bytes_def bs_is_precise_def)

lemma br_bytes_empty: "br_is_empty r \<Longrightarrow> br_bytes r = {}"
  by (auto simp: br_is_empty_def br_bytes_def)

abbreviation br_wf :: "byte_range \<Rightarrow> bool" where
  "br_wf r \<equiv> br_start r \<le> br_end r"

lemma br_nonempty: "br_wf r \<Longrightarrow> \<not> br_is_empty r \<Longrightarrow> br_start r < br_end r"
  by (auto simp: br_is_empty_def)

lemma bs_insert_wf: "bs_wf s \<Longrightarrow> br_wf r \<Longrightarrow> bs_wf (bs_insert r s)"
  using insert_ranges_spec [of "bs_ranges s" r] br_nonempty [of r] store_ranges_wf bs_wf_def [of s]
  by (simp add: bs_insert_def)

lemma bs_insert_bytes:
  assumes "bs_wf s" and "br_wf r"
  shows "bs_bytes (bs_insert r s) \<subseteq> bs_bytes s \<union> br_bytes r \<and>
    (bs_is_precise (bs_insert r s) \<longrightarrow> bs_is_precise s \<and> bs_bytes (bs_insert r s) = bs_bytes s \<union> br_bytes r)"
proof (cases "br_is_empty r")
  case False
  have "ranges_bytes (insert_ranges r False (bs_ranges s)) = br_bytes r \<union> bs_bytes s"
    using insert_ranges_spec [of "bs_ranges s" r] br_nonempty [OF assms(2) False] assms(1)
    by (simp add: bs_wf_def bs_bytes_def)
  then show ?thesis
    using False store_ranges_bytes [of "insert_ranges r False (bs_ranges s)" s] by (auto simp: bs_insert_def)
qed (simp add: bs_insert_def br_bytes_empty)

section \<open>Removal\<close>

lemma remove_range_bytes:
  "br_start r < br_end r \<Longrightarrow> br_start c < br_end c \<Longrightarrow> ranges_bytes (remove_range r c) = br_bytes c - br_bytes r"
  by (auto simp: remove_range_def br_overlaps_def br_bytes_def u64_order)

lemma remove_range_wf:
  "br_start r < br_end r \<Longrightarrow> br_start c < br_end c \<Longrightarrow> ranges_wf (remove_range r c)"
  by (auto simp: remove_range_def br_overlaps_def ranges_wf_Cons u64_order)

lemma remove_range_inside:
  "x \<in> set (remove_range r c) \<Longrightarrow> br_start c \<le> br_start x \<and> br_end x \<le> br_end c"
  by (auto simp: remove_range_def u64_order split: if_splits)

lemma ranges_wf_append:
  "ranges_wf (xs @ ys) \<longleftrightarrow> ranges_wf xs \<and> ranges_wf ys \<and> (\<forall>x \<in> set xs. \<forall>y \<in> set ys. gap x y)"
  by (auto simp: ranges_wf_def sorted_wrt_append)

lemma remove_ranges_spec:
  assumes "ranges_wf rs" and "br_start r < br_end r"
  shows "ranges_wf (concat (map (remove_range r) rs)) \<and>
    ranges_bytes (concat (map (remove_range r) rs)) = ranges_bytes rs - br_bytes r"
  using assms(1)
proof (induction rs)
  case (Cons c rs)
  have c: "br_start c < br_end c" "\<forall>x \<in> set rs. gap c x" "ranges_wf rs"
    using Cons.prems by (simp_all add: ranges_wf_Cons)
  have "gap x y" if "x \<in> set (remove_range r c)" "d \<in> set rs" "y \<in> set (remove_range r d)" for x y d
    using remove_range_inside [OF that(1)] remove_range_inside [OF that(3)] c(2) that(2)
    by (auto simp: u64_order)
  then show ?case
    using Cons.IH [OF c(3)] remove_range_bytes [OF assms(2) c(1)] remove_range_wf [OF assms(2) c(1)]
    by (auto simp: ranges_wf_append)
qed simp

lemma bs_remove_wf: "bs_wf s \<Longrightarrow> br_wf r \<Longrightarrow> bs_wf (bs_remove r s)"
  using remove_ranges_spec [of "bs_ranges s" r] br_nonempty [of r] store_ranges_wf bs_wf_def [of s]
  by (simp add: bs_remove_def)

lemma bs_remove_bytes:
  assumes "bs_wf s" and "br_wf r"
  shows "bs_bytes (bs_remove r s) \<subseteq> bs_bytes s - br_bytes r \<and>
    (bs_is_precise (bs_remove r s) \<longrightarrow> bs_is_precise s \<and> bs_bytes (bs_remove r s) = bs_bytes s - br_bytes r)"
proof (cases "br_is_empty r")
  case False
  have "ranges_bytes (concat (map (remove_range r) (bs_ranges s))) = bs_bytes s - br_bytes r"
    using remove_ranges_spec [of "bs_ranges s" r] br_nonempty [OF assms(2) False] assms(1)
    by (simp add: bs_wf_def bs_bytes_def)
  then show ?thesis
    using False store_ranges_bytes [of "concat (map (remove_range r) (bs_ranges s))" s] by (auto simp: bs_remove_def)
qed (simp add: bs_remove_def br_bytes_empty)

section \<open>Canonical form\<close>

lemma ranges_wf_gap:
  assumes "ranges_wf rs" and "a \<in> set rs" and "b \<in> set rs"
  shows "a = b \<or> gap a b \<or> gap b a"
proof -
  obtain i j where "i < length rs" "a = rs ! i" "j < length rs" "b = rs ! j"
    using assms(2,3) by (auto simp: in_set_conv_nth)
  then show ?thesis
    using assms(1) by (cases i j rule: linorder_cases) (auto simp: ranges_wf_def sorted_wrt_iff_nth_less)
qed

lemma end_uncovered:
  assumes "ranges_wf rs" and "r \<in> set rs"
  shows "uint (br_end r) \<notin> ranges_bytes rs"
proof
  assume "uint (br_end r) \<in> ranges_bytes rs"
  then obtain k where "k \<in> set rs" "uint (br_start k) \<le> uint (br_end r)" "uint (br_end r) < uint (br_end k)"
    by (auto simp: ranges_bytes_def br_bytes_def)
  moreover have "br_start r < br_end r" using assms by (simp add: ranges_wf_def)
  ultimately show False using ranges_wf_gap [OF assms, of k] by (auto simp: u64_order)
qed

lemma range_inside:
  assumes "ranges_wf rs" and "br_start r < br_end r" and "br_bytes r \<subseteq> ranges_bytes rs"
  shows "\<exists>k \<in> set rs. br_contains k r"
proof -
  have "uint (br_start r) \<in> br_bytes r" using assms(2) by (simp add: br_bytes_def u64_order)
  then obtain k where k: "k \<in> set rs" "uint (br_start k) \<le> uint (br_start r)" "uint (br_start r) < uint (br_end k)"
    using assms(3) by (auto simp: ranges_bytes_def br_bytes_def)
  have "uint (br_end k) \<notin> br_bytes r" using end_uncovered [OF assms(1) k(1)] assms(3) by blast
  then show ?thesis using k by (intro bexI [of _ k]) (auto simp: br_contains_def br_bytes_def u64_order)
qed

lemma bs_contains_iff:
  assumes "bs_wf s" and "br_wf r"
  shows "bs_contains s r \<longleftrightarrow> br_bytes r \<subseteq> bs_bytes s"
proof (cases "br_is_empty r")
  case False
  have "br_contains k r \<Longrightarrow> br_bytes r \<subseteq> br_bytes k" for k
    by (auto simp: br_contains_def br_bytes_def u64_order)
  then show ?thesis
    using False assms range_inside [of "bs_ranges s" r] br_nonempty [OF assms(2) False]
    by (fastforce simp: bs_contains_def bs_wf_def bs_bytes_def list_ex_iff ranges_bytes_def)
qed (simp add: bs_contains_def br_bytes_empty)

lemma least_byte: "ranges_wf (r # rs) \<Longrightarrow> x \<in> ranges_bytes (r # rs) \<Longrightarrow> uint (br_start r) \<le> x"
  by (fastforce simp: ranges_wf_Cons ranges_bytes_def br_bytes_def u64_order)

lemma head_end:
  assumes "ranges_wf (a # rs)" and "ranges_wf (b # ss)" and "br_start a = br_start b"
    and "ranges_bytes (a # rs) = ranges_bytes (b # ss)"
  shows "br_end a \<le> br_end b"
proof (rule ccontr)
  assume "\<not> ?thesis"
  then have "uint (br_end b) \<in> br_bytes a"
    using assms(2,3) by (auto simp: br_bytes_def ranges_wf_Cons u64_order)
  then show False using end_uncovered [OF assms(2), of b] assms(4) by auto
qed

lemma tail_bytes: "ranges_wf (a # rs) \<Longrightarrow> ranges_bytes rs = ranges_bytes (a # rs) - br_bytes a"
  by (fastforce simp: ranges_wf_Cons ranges_bytes_def br_bytes_def u64_order)

lemma ranges_canonical:
  "ranges_wf rs \<Longrightarrow> ranges_wf ss \<Longrightarrow> ranges_bytes rs = ranges_bytes ss \<Longrightarrow> rs = ss"
proof (induction rs arbitrary: ss)
  case Nil
  then show ?case by (cases ss) (auto simp: ranges_wf_Cons br_bytes_def u64_order)
next
  case (Cons a rs)
  have mem: "uint (br_start x) \<in> ranges_bytes (x # xs)" if "ranges_wf (x # xs)" for x xs
    using that by (auto simp: ranges_wf_Cons br_bytes_def u64_order)
  obtain b ss' where ss: "ss = b # ss'" using Cons.prems mem [of a rs] by (cases ss) auto
  have wf: "ranges_wf (a # rs)" "ranges_wf (b # ss')" and eq: "ranges_bytes (a # rs) = ranges_bytes (b # ss')"
    using Cons.prems ss by simp_all
  have "uint (br_start a) \<le> uint (br_start b)" by (rule least_byte [OF wf(1)]) (use mem [OF wf(2)] eq in blast)
  moreover have "uint (br_start b) \<le> uint (br_start a)"
    by (rule least_byte [OF wf(2)]) (use mem [OF wf(1)] eq in blast)
  ultimately have start: "br_start a = br_start b" by (intro word_uint_eqI) simp
  have "br_end a = br_end b"
    using head_end [of a rs b ss'] head_end [of b ss' a rs] Cons.prems start ss by (simp add: order_antisym)
  then have ab: "a = b" using start by simp
  have "ranges_bytes rs = ranges_bytes ss'"
    using tail_bytes [of a rs] tail_bytes [of b ss'] Cons.prems ss ab by simp
  then show ?case using Cons.IH [of ss'] Cons.prems ss ab by (simp add: ranges_wf_Cons)
qed

section \<open>Intersection and union\<close>

lemma br_intersection_bytes:
  "(case br_intersection a b of Some r \<Rightarrow> br_start r < br_end r \<and> br_bytes r = br_bytes a \<inter> br_bytes b
     | None \<Rightarrow> br_bytes a \<inter> br_bytes b = {})"
  by (auto simp: br_intersection_def Let_def br_bytes_def u64_order)

lemma insert_ranges_length: "length (insert_ranges m inserted rs) \<le> Suc (length rs)"
proof (induction m inserted rs rule: insert_ranges.induct)
  case (2 m inserted c rs)
  have "length (insert_ranges m True rs) \<le> length rs" for m rs
    by (induction m True rs rule: insert_ranges.induct) auto
  then show ?case using 2 by auto
qed simp

lemma insert_ranges_nonempty: "insert_ranges m inserted rs = [] \<Longrightarrow> inserted"
  by (induction m inserted rs rule: insert_ranges.induct) (auto split: if_splits)

lemma bs_insert_room:
  assumes "bs_wf s" and "br_start r < br_end r"
  shows "length (bs_ranges (bs_insert r s)) \<le> Suc (length (bs_ranges s)) \<and> bs_ranges (bs_insert r s) \<noteq> [] \<and>
    (length (bs_ranges s) < VERIFIER_BYTE_SET_MAX_RANGES \<longrightarrow> bs_bytes (bs_insert r s) = bs_bytes s \<union> br_bytes r)"
proof -
  let ?out = "insert_ranges r False (bs_ranges s)"
  have ins: "bs_insert r s = store_ranges ?out s" using assms(2) by (auto simp: bs_insert_def br_is_empty_def)
  have "ranges_bytes ?out = br_bytes r \<union> bs_bytes s"
    using insert_ranges_spec [of "bs_ranges s" r] assms by (simp add: bs_wf_def bs_bytes_def)
  moreover have "?out \<noteq> []" using insert_ranges_nonempty [of r False "bs_ranges s"] by auto
  ultimately show ?thesis
    using insert_ranges_length [of r False "bs_ranges s"]
    by (auto simp: ins store_ranges_def VERIFIER_BYTE_SET_MAX_RANGES_def bs_bytes_def)
qed

definition inter_step :: "byte_range \<Rightarrow> byte_range \<Rightarrow> byte_set \<Rightarrow> byte_set" where
  "inter_step left right result =
     (case br_intersection left right of Some overlap \<Rightarrow> bs_insert overlap result | None \<Rightarrow> result)"

lemma inter_step_spec:
  assumes "bs_wf s"
  shows "bs_wf (inter_step l r s) \<and> bs_bytes (inter_step l r s) \<subseteq> bs_bytes s \<union> (br_bytes l \<inter> br_bytes r) \<and>
    length (bs_ranges (inter_step l r s)) \<le> Suc (length (bs_ranges s)) \<and>
    (length (bs_ranges s) < VERIFIER_BYTE_SET_MAX_RANGES \<longrightarrow>
       bs_bytes (inter_step l r s) = bs_bytes s \<union> (br_bytes l \<inter> br_bytes r)) \<and>
    (bs_ranges s \<noteq> [] \<or> br_bytes l \<inter> br_bytes r \<noteq> {} \<longrightarrow> bs_ranges (inter_step l r s) \<noteq> [])"
proof (cases "br_intersection l r")
  case None
  then show ?thesis using assms br_intersection_bytes [of l r] by (simp add: inter_step_def)
next
  case (Some k)
  then have k: "br_start k < br_end k" "br_bytes k = br_bytes l \<inter> br_bytes r"
    using br_intersection_bytes [of l r] by simp_all
  show ?thesis
    using bs_insert_wf [OF assms, of k] bs_insert_bytes [OF assms, of k] bs_insert_room [OF assms k(1)] k
    by (simp add: inter_step_def Some less_imp_le)
qed

lemma ranges_beyond:
  "ranges_wf (a # rs) \<Longrightarrow> uint (br_end b) \<le> uint (br_end a) \<Longrightarrow> br_bytes b \<inter> ranges_bytes rs = {}"
  by (fastforce simp: ranges_wf_Cons ranges_bytes_def br_bytes_def u64_order)

lemma intersect_ranges_spec:
  assumes "ranges_wf ls" and "ranges_wf rs" and "bs_wf s"
  shows "bs_wf (intersect_ranges ls rs s) \<and>
    bs_bytes (intersect_ranges ls rs s) \<subseteq> bs_bytes s \<union> (ranges_bytes ls \<inter> ranges_bytes rs) \<and>
    (length (bs_ranges s) + length ls + length rs \<le> VERIFIER_BYTE_SET_MAX_RANGES \<longrightarrow>
       bs_bytes (intersect_ranges ls rs s) = bs_bytes s \<union> (ranges_bytes ls \<inter> ranges_bytes rs)) \<and>
    (bs_ranges s \<noteq> [] \<or> ranges_bytes ls \<inter> ranges_bytes rs \<noteq> {} \<longrightarrow> bs_ranges (intersect_ranges ls rs s) \<noteq> [])"
  using assms
proof (induction ls rs s rule: intersect_ranges.induct)
  case (1 l ls r rs s)
  note step = inter_step_spec [OF 1(5), of l r]
  have tails: "ranges_wf ls" "ranges_wf rs" using 1(3,4) by (simp_all add: ranges_wf_Cons)
  show ?case
  proof (cases "br_end l < br_end r")
    case True
    then have eq: "intersect_ranges (l # ls) (r # rs) s = intersect_ranges ls (r # rs) (inter_step l r s)"
      by (simp add: inter_step_def)
    have "br_bytes l \<inter> ranges_bytes rs = {}"
      by (rule ranges_beyond [OF 1(4)]) (use True in \<open>simp add: u64_order\<close>)
    then have parts: "ranges_bytes (l # ls) \<inter> ranges_bytes (r # rs) =
        (br_bytes l \<inter> br_bytes r) \<union> (ranges_bytes ls \<inter> ranges_bytes (r # rs))" by auto
    note IH = 1(1) [OF _ True tails(1) 1(4), of "inter_step l r s"]
    show ?thesis unfolding eq parts using IH step by (simp add: inter_step_def) blast
  next
    case False
    then have eq: "intersect_ranges (l # ls) (r # rs) s = intersect_ranges (l # ls) rs (inter_step l r s)"
      by (simp add: inter_step_def)
    have "br_bytes r \<inter> ranges_bytes ls = {}"
      by (rule ranges_beyond [OF 1(3)]) (use False in \<open>simp add: u64_order\<close>)
    then have parts: "ranges_bytes (l # ls) \<inter> ranges_bytes (r # rs) =
        (br_bytes l \<inter> br_bytes r) \<union> (ranges_bytes (l # ls) \<inter> ranges_bytes rs)" by auto
    note IH = 1(2) [OF _ False 1(3) tails(2), of "inter_step l r s"]
    show ?thesis unfolding eq parts using IH step by (simp add: inter_step_def) blast
  qed
qed auto

lemma bs_new_wf [simp]: "bs_wf bs_new" "bs_bytes bs_new = {}" "bs_ranges bs_new = []"
  by (simp_all add: bs_wf_def bs_new_def bs_bytes_def)

lemma bs_intersection_eq:
  assumes "bs_wf a" and "bs_wf b"
  shows "bs_intersection a b = (intersect_ranges (bs_ranges a) (bs_ranges b) bs_new)
    \<lparr>bs_precision_lost := bs_precision_lost a \<or> bs_precision_lost b\<rparr>"
  using intersect_ranges_spec [of "bs_ranges a" "bs_ranges b" bs_new] assms
  by (auto simp: bs_intersection_def Let_def bs_wf_def)

lemma bs_intersection_spec:
  assumes "bs_wf a" and "bs_wf b"
  shows "bs_wf (bs_intersection a b) \<and> bs_bytes (bs_intersection a b) \<subseteq> bs_bytes a \<inter> bs_bytes b \<and>
    (length (bs_ranges a) + length (bs_ranges b) \<le> VERIFIER_BYTE_SET_MAX_RANGES \<longrightarrow>
       bs_bytes (bs_intersection a b) = bs_bytes a \<inter> bs_bytes b) \<and>
    (bs_bytes a \<inter> bs_bytes b \<noteq> {} \<longrightarrow> bs_ranges (bs_intersection a b) \<noteq> [])"
  using intersect_ranges_spec [of "bs_ranges a" "bs_ranges b" bs_new] assms
  by (simp add: bs_intersection_eq bs_wf_def bs_bytes_def)

lemma bs_is_disjoint_iff:
  assumes "bs_wf a" and "bs_wf b"
  shows "bs_is_disjoint a b \<longleftrightarrow> bs_bytes a \<inter> bs_bytes b = {}"
proof -
  have "bs_ranges s = [] \<longleftrightarrow> bs_bytes s = {}" if "bs_wf s" for s
    using that by (cases "bs_ranges s") (auto simp: bs_wf_def bs_bytes_def ranges_wf_Cons br_bytes_def u64_order)
  then show ?thesis
    using bs_intersection_spec [OF assms] by (auto simp: bs_is_disjoint_def bs_is_empty_def)
qed

section \<open>Sequences of edits\<close>

datatype byte_edit = EInsert byte_range | ERemove byte_range

fun edit_bytes :: "byte_edit \<Rightarrow> byte_set \<Rightarrow> byte_set" where
  "edit_bytes (EInsert r) s = bs_insert r s"
| "edit_bytes (ERemove r) s = bs_remove r s"

fun edit_set :: "byte_edit \<Rightarrow> int set \<Rightarrow> int set" where
  "edit_set (EInsert r) B = B \<union> br_bytes r"
| "edit_set (ERemove r) B = B - br_bytes r"

fun edit_wf :: "byte_edit \<Rightarrow> bool" where
  "edit_wf (EInsert r) = br_wf r"
| "edit_wf (ERemove r) = br_wf r"

text \<open>The contract of a store of definite byte facts: what is retained is never more than the
  abstract set, and exactly it while no precision has been lost.\<close>

locale definite_bytes =
  fixes wf :: "'s \<Rightarrow> bool"
    and bytes :: "'s \<Rightarrow> 'b set"
    and precise :: "'s \<Rightarrow> bool"
    and edit :: "'e \<Rightarrow> 's \<Rightarrow> 's"
    and edit_ok :: "'e \<Rightarrow> bool"
    and spec :: "'e \<Rightarrow> 'b set \<Rightarrow> 'b set"
  assumes edit_wf: "wf s \<Longrightarrow> edit_ok e \<Longrightarrow> wf (edit e s)"
    and edit_sub: "wf s \<Longrightarrow> edit_ok e \<Longrightarrow> bytes (edit e s) \<subseteq> spec e (bytes s)"
    and edit_exact: "wf s \<Longrightarrow> edit_ok e \<Longrightarrow> precise (edit e s) \<Longrightarrow> precise s \<and> bytes (edit e s) = spec e (bytes s)"
    and spec_mono: "A \<subseteq> B \<Longrightarrow> spec e A \<subseteq> spec e B"
begin

lemma edits_refine:
  "wf s \<Longrightarrow> list_all edit_ok es \<Longrightarrow>
    wf (fold edit es s) \<and> bytes (fold edit es s) \<subseteq> fold spec es (bytes s) \<and>
    (precise (fold edit es s) \<longrightarrow> precise s \<and> bytes (fold edit es s) = fold spec es (bytes s))"
proof (induction es arbitrary: s)
  case (Cons e es)
  have mono: "A \<subseteq> B \<Longrightarrow> fold spec es A \<subseteq> fold spec es B" for A B
    by (induction es arbitrary: A B) (auto dest: spec_mono)
  have e: "wf (edit e s)" "bytes (edit e s) \<subseteq> spec e (bytes s)" using Cons.prems edit_wf edit_sub by auto
  have "fold spec es (bytes (edit e s)) \<subseteq> fold spec es (spec e (bytes s))" by (rule mono [OF e(2)])
  then show ?case
    using Cons.IH [OF e(1)] Cons.prems edit_exact [of s e] by auto
qed simp

end

interpretation bse: definite_bytes bs_wf bs_bytes bs_is_precise edit_bytes edit_wf edit_set
proof unfold_locales
  fix s e
  assume wf: "bs_wf s" "edit_wf e"
  show "bs_wf (edit_bytes e s)"
    using wf by (cases e) (simp_all add: bs_insert_wf bs_remove_wf)
  show "bs_bytes (edit_bytes e s) \<subseteq> edit_set e (bs_bytes s)"
    using wf by (cases e) (simp_all add: bs_insert_bytes bs_remove_bytes)
  show "bs_is_precise (edit_bytes e s) \<Longrightarrow> bs_is_precise s \<and> bs_bytes (edit_bytes e s) = edit_set e (bs_bytes s)"
    using wf bs_insert_bytes [of s] bs_remove_bytes [of s] by (cases e) simp_all
next
  fix A B :: "int set" and e
  assume "A \<subseteq> B"
  then show "edit_set e A \<subseteq> edit_set e B" by (cases e) auto
qed

lemma bs_union_edits:
  "bs_union s other = fold edit_bytes (map EInsert (bs_ranges other))
     (s\<lparr>bs_precision_lost := bs_precision_lost s \<or> bs_precision_lost other\<rparr>)"
proof -
  have "fold bs_insert rs t = fold edit_bytes (map EInsert rs) t" for rs t by (induction rs arbitrary: t) auto
  then show ?thesis by (simp add: bs_union_def)
qed

lemma bs_union_spec:
  assumes "bs_wf a" and "bs_wf b"
  shows "bs_wf (bs_union a b) \<and> bs_bytes (bs_union a b) \<subseteq> bs_bytes a \<union> bs_bytes b \<and>
    (bs_is_precise (bs_union a b) \<longrightarrow> bs_is_precise a \<and> bs_is_precise b \<and> bs_bytes (bs_union a b) = bs_bytes a \<union> bs_bytes b)"
proof -
  let ?s = "a\<lparr>bs_precision_lost := bs_precision_lost a \<or> bs_precision_lost b\<rparr>"
  have s: "bs_wf ?s" "bs_bytes ?s = bs_bytes a" using assms(1) by (simp_all add: bs_wf_def bs_bytes_def)
  have "list_all edit_wf (map EInsert (bs_ranges b))"
    using assms(2) by (auto simp: list_all_iff bs_wf_def ranges_wf_def less_imp_le)
  moreover have "fold edit_set (map EInsert rs) A = A \<union> ranges_bytes rs" for rs A
    by (induction rs arbitrary: A) auto
  ultimately show ?thesis
    using bse.edits_refine [OF s(1), of "map EInsert (bs_ranges b)"] s(2)
    by (auto simp: bs_union_edits bs_bytes_def bs_is_precise_def)
qed

section \<open>The precision flag of an intersection\<close>

definition at_byte :: "nat \<Rightarrow> u64" where
  "at_byte n = of_nat n"

definition comb :: "nat \<Rightarrow> byte_set" where
  "comb k = \<lparr>bs_ranges = map (\<lambda>i. \<lparr>br_start = at_byte (4 * i + k), br_end = at_byte (4 * i + k + 3)\<rparr>) [0..<4096],
     bs_precision_lost = False\<rparr>"

lemma uint_of_nat_small: "n < 100000 \<Longrightarrow> uint (at_byte n) = int n"
  using uint_word_of_int [of "int n", where 'a = 64] by (simp add: at_byte_def)

lemma comb_wf: "k \<le> 10 \<Longrightarrow> bs_wf (comb k)"
  by (auto simp: bs_wf_def comb_def ranges_wf_def sorted_wrt_map sorted_wrt_iff_nth_less u64_order
      uint_of_nat_small VERIFIER_BYTE_SET_MAX_RANGES_def)

lemma comb_bytes: "k \<le> 10 \<Longrightarrow> x \<in> bs_bytes (comb k) \<longleftrightarrow> (\<exists>i < 4096. int (4 * i + k) \<le> x \<and> x < int (4 * i + k + 3))"
  by (auto simp: bs_bytes_def comb_def ranges_bytes_def br_bytes_def uint_of_nat_small Bex_def)

lemma comb_even: "x \<in> bs_bytes (comb 0) \<inter> bs_bytes (comb 2) \<Longrightarrow> even x"
  by (auto simp: comb_bytes) presburger

lemma comb_many: "(\<lambda>j. 2 * int j) ` {1..4097} \<subseteq> bs_bytes (comb 0) \<inter> bs_bytes (comb 2)"
proof
  fix x
  assume "x \<in> (\<lambda>j. 2 * int j) ` {1..4097}"
  then obtain j where j: "x = 2 * int j" "1 \<le> j" "j \<le> 4097" by auto
  show "x \<in> bs_bytes (comb 0) \<inter> bs_bytes (comb 2)"
  proof (cases "even j")
    case True
    then obtain i where "j = 2 * i" by auto
    then show ?thesis using j
      by (auto simp: comb_bytes intro: exI [of _ i] exI [of _ "i - 1"])
  next
    case False
    then obtain i where "j = 2 * i + 1" by (auto elim: oddE)
    then show ?thesis using j by (auto simp: comb_bytes intro: exI [of _ i])
  qed
qed

lemma even_ranges_card:
  assumes "ranges_wf rs" and "\<And>x. x \<in> ranges_bytes rs \<Longrightarrow> even x"
  shows "card (ranges_bytes rs) \<le> length rs"
proof -
  have "br_bytes r \<subseteq> {uint (br_start r)}" if r: "r \<in> set rs" for r
  proof
    fix x
    assume x: "x \<in> br_bytes r"
    show "x \<in> {uint (br_start r)}"
    proof (rule ccontr)
      assume "x \<notin> {uint (br_start r)}"
      then have "x - 1 \<in> br_bytes r" using x by (auto simp: br_bytes_def)
      then have "x \<in> ranges_bytes rs" "x - 1 \<in> ranges_bytes rs" using x r by (auto simp: ranges_bytes_def)
      then have "even x" "even (x - 1)" using assms(2) by blast+
      then show False by simp
    qed
  qed
  then have "ranges_bytes rs \<subseteq> (\<lambda>r. uint (br_start r)) ` set rs" by (auto simp: ranges_bytes_def)
  then have "card (ranges_bytes rs) \<le> card ((\<lambda>r. uint (br_start r)) ` set rs)" by (intro card_mono) auto
  also have "\<dots> \<le> length rs" using card_image_le [of "set rs"] card_length [of rs] le_trans by blast
  finally show ?thesis .
qed

text \<open>C40: An intersection that had to drop ranges still claims to be precise. Two precise sets whose common
  bytes need more than the range budget intersect to a set that reports \<open>is_precise\<close> and yet misses common
  bytes: the assignment after the loop overwrites the flag that \<open>insert\<close> set when it truncated.\<close>

theorem intersection_claims_precision:
  "bs_is_precise (comb 0) \<and> bs_is_precise (comb 2) \<and> bs_is_precise (bs_intersection (comb 0) (comb 2)) \<and>
   bs_bytes (bs_intersection (comb 0) (comb 2)) \<noteq> bs_bytes (comb 0) \<inter> bs_bytes (comb 2)"
proof -
  let ?r = "bs_intersection (comb 0) (comb 2)"
  have wf: "bs_wf (comb 0)" "bs_wf (comb 2)" by (simp_all add: comb_wf)
  note spec = bs_intersection_spec [OF wf]
  have precise: "bs_is_precise (comb 0)" "bs_is_precise (comb 2)" "bs_is_precise ?r"
    by (simp_all add: bs_is_precise_def bs_intersection_eq [OF wf], simp_all add: comb_def)
  have "card (bs_bytes ?r) \<le> 4096"
    using even_ranges_card [of "bs_ranges ?r"] spec comb_even
    by (force simp: bs_wf_def bs_bytes_def VERIFIER_BYTE_SET_MAX_RANGES_def)
  moreover have "4097 \<le> card (bs_bytes (comb 0) \<inter> bs_bytes (comb 2))"
  proof -
    have "finite (bs_bytes (comb 0))" by (simp add: bs_bytes_def ranges_bytes_def br_bytes_def)
    then have "card ((\<lambda>j. 2 * int j) ` {1..4097::nat}) \<le> card (bs_bytes (comb 0) \<inter> bs_bytes (comb 2))"
      using comb_many by (intro card_mono) auto
    moreover have "card ((\<lambda>j. 2 * int j) ` {1..4097::nat}) = 4097"
      by (subst card_image) (auto simp: inj_on_def)
    ultimately show ?thesis by simp
  qed
  ultimately show ?thesis using precise by auto
qed

section \<open>Meaning of permission ranges\<close>

definition bound_holds :: "(vir_value_id \<Rightarrow> int) \<Rightarrow> symbolic_range_bound \<Rightarrow> u64 \<Rightarrow> bool" where
  "bound_holds \<rho> b v = (ae_den \<rho> (sb_expression b) = uint v \<and> iv_contains (sb_interval b) v)"

fun abr_holds :: "abstract_byte_range \<Rightarrow> (vir_value_id \<Rightarrow> int) \<times> u64 \<times> u64 \<Rightarrow> bool" where
  "abr_holds (RExact r) (\<rho>, s, e) = (s = br_start r \<and> e = br_end r)"
| "abr_holds (RSymbolic a b) (\<rho>, s, e) = (bound_holds \<rho> a s \<and> bound_holds \<rho> b e)"
| "abr_holds RUnknown (\<rho>, s, e) = True"

lemma abr_join_holds: "abr_holds a c \<or> abr_holds b c \<Longrightarrow> abr_holds (abr_join a b) c"
  by (cases c; induction a b rule: abr_join.induct) auto

interpretation abrd: join_domain "\<lambda>_. True" abr_holds abr_join
  by unfold_locales (simp_all add: abr_join_holds)

lemma bound_holds_constant [simp]: "bound_holds \<rho> (sb_constant v) w \<longleftrightarrow> w = v"
proof
  assume "bound_holds \<rho> (sb_constant v) w"
  then have "uint v = uint w" by (simp add: bound_holds_def sb_constant_def ae_den_def) (simp add: ae_constant_def)
  then show "w = v" by (simp add: word_uint_eqI)
qed (auto simp: bound_holds_def sb_constant_def ae_den_def iv_exact_def iv_contains_def, simp add: ae_constant_def)

lemma fold_exact_holds: "bound_holds \<rho> b v \<Longrightarrow> bound_holds \<rho> (fold_exact b) v"
  using iv_exact_valueD [of "sb_interval b" _ v]
  by (auto simp: fold_exact_def split: option.split) (simp add: bound_holds_def)

lemma bound_holds_exact: "bound_holds \<rho> b v \<Longrightarrow> iv_exact_value (sb_interval b) = Some w \<Longrightarrow> v = w"
  by (auto simp: bound_holds_def dest: iv_exact_valueD)

lemma from_bounds_holds:
  assumes "bound_holds \<rho> start s" and "bound_holds \<rho> end' e"
  shows "abr_holds (from_bounds start end') (\<rho>, s, e)"
proof -
  have h: "bound_holds \<rho> (fold_exact start) s" "bound_holds \<rho> (fold_exact end') e"
    using assms by (simp_all add: fold_exact_holds)
  then show ?thesis
    by (auto simp: from_bounds_def Let_def br_new_def dest: bound_holds_exact split: option.splits)
qed

section \<open>Properties\<close>

text \<open>C3: Byte sets refine sets of bytes. Whatever sequence of insertions and removals is applied to a
  canonical set, the result is canonical, covers no byte that the same sequence on plain sets would
  not cover, and covers exactly those bytes whenever it still reports itself precise.\<close>

theorem byte_set_edits_refine:
  assumes "bs_wf s" and "list_all edit_wf edits"
  shows "bs_wf (fold edit_bytes edits s) \<and>
    bs_bytes (fold edit_bytes edits s) \<subseteq> fold edit_set edits (bs_bytes s) \<and>
    (bs_is_precise (fold edit_bytes edits s) \<longrightarrow> bs_bytes (fold edit_bytes edits s) = fold edit_set edits (bs_bytes s))"
  using bse.edits_refine [OF assms] by blast

theorem byte_set_edits_refine_witness:
  "bs_ranges (fold edit_bytes [EInsert \<lparr>br_start = 8, br_end = 16\<rparr>, EInsert \<lparr>br_start = 0, br_end = 8\<rparr>,
      ERemove \<lparr>br_start = 4, br_end = 12\<rparr>] bs_new) =
     [\<lparr>br_start = 0, br_end = 4\<rparr>, \<lparr>br_start = 12, br_end = 16\<rparr>] \<and>
   bs_bytes (fold edit_bytes [EInsert \<lparr>br_start = 8, br_end = 16\<rparr>, EInsert \<lparr>br_start = 0, br_end = 8\<rparr>,
      ERemove \<lparr>br_start = 4, br_end = 12\<rparr>] bs_new) \<subseteq>
     fold edit_set [EInsert \<lparr>br_start = 8, br_end = 16\<rparr>, EInsert \<lparr>br_start = 0, br_end = 8\<rparr>,
      ERemove \<lparr>br_start = 4, br_end = 12\<rparr>] (bs_bytes bs_new)"
proof -
  let ?es = "[EInsert \<lparr>br_start = 8, br_end = 16\<rparr>, EInsert \<lparr>br_start = 0, br_end = 8\<rparr>, ERemove \<lparr>br_start = 4, br_end = 12\<rparr>]"
  have ranges: "bs_ranges (fold edit_bytes ?es bs_new) = [\<lparr>br_start = 0, br_end = 4\<rparr>, \<lparr>br_start = 12, br_end = 16\<rparr>]"
    by (simp add: bs_insert_def bs_remove_def remove_range_def br_overlaps_def br_is_empty_def store_ranges_def
        VERIFIER_BYTE_SET_MAX_RANGES_def)
  have "bs_bytes (fold edit_bytes ?es bs_new) \<subseteq> fold edit_set ?es (bs_bytes bs_new)"
    using byte_set_edits_refine [of bs_new ?es] by simp
  with ranges show ?thesis by blast
qed

text \<open>Equality of byte sets is semantic: two canonical sets hold the same ranges exactly when they
  cover the same bytes.\<close>

theorem byte_set_canonical:
  assumes "bs_wf a" and "bs_wf b"
  shows "bs_ranges a = bs_ranges b \<longleftrightarrow> bs_bytes a = bs_bytes b"
  using assms ranges_canonical [of "bs_ranges a" "bs_ranges b"] by (auto simp: bs_wf_def bs_bytes_def)

theorem byte_set_canonical_witness:
  "bs_wf bs_new \<and> bs_wf (bs_single \<lparr>br_start = 1, br_end = 2\<rparr>) \<and> bs_bytes bs_new \<noteq> bs_bytes (bs_single \<lparr>br_start = 1, br_end = 2\<rparr>)"
proof -
  have wf: "bs_wf bs_new" "bs_wf (bs_single \<lparr>br_start = 1, br_end = 2\<rparr>)"
    by (simp_all add: bs_single_def bs_insert_wf)
  have "bs_ranges bs_new \<noteq> bs_ranges (bs_single \<lparr>br_start = 1, br_end = 2\<rparr>)"
    by (simp add: bs_single_def bs_insert_def br_is_empty_def store_ranges_def VERIFIER_BYTE_SET_MAX_RANGES_def)
  then show ?thesis using byte_set_canonical [OF wf] wf by blast
qed

text \<open>The queries are exact. \<open>contains\<close> answers whether every byte of the range is covered, and
  \<open>is_disjoint\<close> whether the sets share no byte, even when the intersection overflows the range budget.\<close>

theorem byte_set_queries_exact:
  assumes "bs_wf a" and "bs_wf b" and "br_wf r"
  shows "(bs_contains a r \<longleftrightarrow> br_bytes r \<subseteq> bs_bytes a) \<and> (bs_is_disjoint a b \<longleftrightarrow> bs_bytes a \<inter> bs_bytes b = {})"
  using bs_contains_iff [OF assms(1,3)] bs_is_disjoint_iff [OF assms(1,2)] by blast

theorem byte_set_queries_exact_witness:
  "\<not> bs_contains bs_new \<lparr>br_start = 1, br_end = 2\<rparr> \<and> \<not> br_bytes \<lparr>br_start = 1, br_end = 2\<rparr> \<subseteq> bs_bytes bs_new"
proof -
  have c: "\<not> bs_contains bs_new \<lparr>br_start = 1, br_end = 2\<rparr>" by (simp add: bs_contains_def br_is_empty_def)
  then show ?thesis using byte_set_queries_exact [of bs_new bs_new "\<lparr>br_start = 1, br_end = 2\<rparr>"] by simp
qed

text \<open>Joins of byte facts are sound. The intersection and union of canonical sets are canonical and
  never cover a byte outside the mathematical intersection and union; the intersection is exact when
  the two sets have together no more ranges than the budget, and the union whenever it is precise.\<close>

theorem byte_set_combine_sound:
  assumes "bs_wf a" and "bs_wf b"
  shows "bs_wf (bs_intersection a b) \<and> bs_bytes (bs_intersection a b) \<subseteq> bs_bytes a \<inter> bs_bytes b \<and>
    (length (bs_ranges a) + length (bs_ranges b) \<le> VERIFIER_BYTE_SET_MAX_RANGES \<longrightarrow>
       bs_bytes (bs_intersection a b) = bs_bytes a \<inter> bs_bytes b) \<and>
    bs_wf (bs_union a b) \<and> bs_bytes (bs_union a b) \<subseteq> bs_bytes a \<union> bs_bytes b \<and>
    (bs_is_precise (bs_union a b) \<longrightarrow> bs_bytes (bs_union a b) = bs_bytes a \<union> bs_bytes b)"
  using bs_intersection_spec [OF assms] bs_union_spec [OF assms] by blast

theorem byte_set_combine_sound_witness:
  "bs_ranges (bs_intersection (bs_single \<lparr>br_start = 0, br_end = 8\<rparr>) (bs_single \<lparr>br_start = 4, br_end = 12\<rparr>)) =
     [\<lparr>br_start = 4, br_end = 8\<rparr>] \<and>
   bs_bytes (bs_intersection (bs_single \<lparr>br_start = 0, br_end = 8\<rparr>) (bs_single \<lparr>br_start = 4, br_end = 12\<rparr>)) =
     bs_bytes (bs_single \<lparr>br_start = 0, br_end = 8\<rparr>) \<inter> bs_bytes (bs_single \<lparr>br_start = 4, br_end = 12\<rparr>)"
proof -
  have wf: "bs_wf (bs_single \<lparr>br_start = 0, br_end = 8\<rparr>)" "bs_wf (bs_single \<lparr>br_start = 4, br_end = 12\<rparr>)"
    by (simp_all add: bs_single_def bs_insert_wf)
  have ranges: "bs_ranges (bs_single \<lparr>br_start = 0, br_end = 8\<rparr>) = [\<lparr>br_start = 0, br_end = 8\<rparr>]"
    "bs_ranges (bs_single \<lparr>br_start = 4, br_end = 12\<rparr>) = [\<lparr>br_start = 4, br_end = 12\<rparr>]"
    by (simp_all add: bs_single_def bs_insert_def br_is_empty_def store_ranges_def VERIFIER_BYTE_SET_MAX_RANGES_def)
  then have "bs_ranges (bs_intersection (bs_single \<lparr>br_start = 0, br_end = 8\<rparr>) (bs_single \<lparr>br_start = 4, br_end = 12\<rparr>)) =
     [\<lparr>br_start = 4, br_end = 8\<rparr>]"
    by (simp add: bs_intersection_eq [OF wf] br_intersection_def Let_def bs_insert_def br_is_empty_def store_ranges_def
        VERIFIER_BYTE_SET_MAX_RANGES_def min_def max_def)
  then show ?thesis using byte_set_combine_sound [OF wf] ranges by (simp add: VERIFIER_BYTE_SET_MAX_RANGES_def)
qed

text \<open>Building a permission range from two bounds is sound: when the bounds describe the actual
  start and end, so does the range, whether it stays symbolic or is folded to an exact range.\<close>

theorem from_bounds_sound:
  assumes "bound_holds \<rho> start s" and "bound_holds \<rho> end' e"
  shows "abr_holds (from_bounds start end') (\<rho>, s, e)"
  using assms by (rule from_bounds_holds)

theorem from_bounds_sound_witness:
  "from_bounds (sb_constant 4) (sb_constant 9) = RExact \<lparr>br_start = 4, br_end = 9\<rparr> \<and>
   abr_holds (from_bounds (sb_constant 4) (sb_constant 9)) (\<lambda>_. 0, 4, 9)"
  using from_bounds_sound [of "\<lambda>_. 0" "sb_constant 4" 4 "sb_constant 9" 9]
  by (simp add: from_bounds_def fold_exact_def sb_constant_def iv_exact_def iv_exact_value_def ae_single_root_def
      ae_constant_def br_new_def)

end
