(* ===== verification/Error_State.thy ===== *)
theory Error_State
  imports Prelude
begin

text \<open>
  The error-and-state monad of stateful methods that fail early: a computation maps a state to a
  result and the state left behind, also when it fails. Correctness is stated by triples over the
  successful runs.
\<close>

type_synonym ('s, 'e, 'a) es = "'s \<Rightarrow> ('e + 'a) \<times> 's"

definition es_return :: "'a \<Rightarrow> ('s, 'e, 'a) es" where
  "es_return x s = (Inr x, s)"

definition es_throw :: "'e \<Rightarrow> ('s, 'e, 'a) es" where
  "es_throw e s = (Inl e, s)"

definition es_lift :: "'e + 'a \<Rightarrow> ('s, 'e, 'a) es" where
  "es_lift r s = (r, s)"

definition es_gets :: "('s \<Rightarrow> 'a) \<Rightarrow> ('s, 'e, 'a) es" where
  "es_gets f s = (Inr (f s), s)"

definition es_modify :: "('s \<Rightarrow> 's) \<Rightarrow> ('s, 'e, unit) es" where
  "es_modify f s = (Inr (), f s)"

definition es_bind :: "('s, 'e, 'a) es \<Rightarrow> ('a \<Rightarrow> ('s, 'e, 'b) es) \<Rightarrow> ('s, 'e, 'b) es" where
  "es_bind m f s = (case m s of (Inl e, s') \<Rightarrow> (Inl e, s') | (Inr x, s') \<Rightarrow> f x s')"

definition es_then :: "('s, 'e, unit) es \<Rightarrow> ('s, 'e, 'b) es \<Rightarrow> ('s, 'e, 'b) es" where
  "es_then m k = es_bind m (\<lambda>_. k)"

fun es_fold :: "('x \<Rightarrow> 'a \<Rightarrow> ('s, 'e, 'a) es) \<Rightarrow> 'x list \<Rightarrow> 'a \<Rightarrow> ('s, 'e, 'a) es" where
  "es_fold f [] a = es_return a"
| "es_fold f (x # xs) a = es_bind (f x a) (\<lambda>a'. es_fold f xs a')"

definition es_triple :: "('s \<Rightarrow> bool) \<Rightarrow> ('s, 'e, 'a) es \<Rightarrow> ('a \<Rightarrow> 's \<Rightarrow> bool) \<Rightarrow> bool" where
  "es_triple P m Q = (\<forall>s x s'. P s \<longrightarrow> m s = (Inr x, s') \<longrightarrow> Q x s')"

lemma es_tripleD: "es_triple P m Q \<Longrightarrow> P s \<Longrightarrow> m s = (Inr x, s') \<Longrightarrow> Q x s'"
  by (auto simp: es_triple_def)

lemma es_bind_Inr:
  "es_bind m f s = (Inr y, s') \<longleftrightarrow> (\<exists>x s1. m s = (Inr x, s1) \<and> f x s1 = (Inr y, s'))"
  by (auto simp: es_bind_def split: prod.splits sum.splits)

lemma es_simps:
  "es_return x s = (Inr x, s)" "es_throw e s = (Inl e, s)" "es_lift r s = (r, s)"
  "es_gets f s = (Inr (f s), s)" "es_modify g s = (Inr (), g s)"
  by (simp_all add: es_return_def es_throw_def es_lift_def es_gets_def es_modify_def)

lemma es_bind_cong [fundef_cong]:
  "m = m' \<Longrightarrow> (\<And>x. f x = f' x) \<Longrightarrow> es_bind m f = es_bind m' f'"
  by (simp add: fun_eq_iff es_bind_def split: prod.splits sum.splits)

lemma es_return_triple: "(\<And>s. P s \<Longrightarrow> Q x s) \<Longrightarrow> es_triple P (es_return x) Q"
  by (simp add: es_triple_def es_simps)

lemma es_throw_triple: "es_triple P (es_throw e) Q"
  by (simp add: es_triple_def es_simps)

lemma es_gets_bind: "(\<And>s0. es_triple (\<lambda>s. P s \<and> s = s0) (f (g s0)) Q) \<Longrightarrow> es_triple P (es_bind (es_gets g) f) Q"
  by (auto simp: es_triple_def es_bind_Inr es_simps)

lemma es_lift_bind: "(\<And>x. r = Inr x \<Longrightarrow> es_triple P (f x) Q) \<Longrightarrow> es_triple P (es_bind (es_lift r) f) Q"
  by (auto simp: es_triple_def es_bind_Inr es_simps)

lemma es_modify_triple: "(\<And>s. P s \<Longrightarrow> Q () (g s)) \<Longrightarrow> es_triple P (es_modify g) Q"
  by (simp add: es_triple_def es_simps)

lemma es_bind_triple:
  "es_triple P m R \<Longrightarrow> (\<And>x. es_triple (R x) (f x) Q) \<Longrightarrow> es_triple P (es_bind m f) Q"
  unfolding es_triple_def es_bind_Inr by blast

lemma es_then_triple:
  "es_triple P m (\<lambda>_. R) \<Longrightarrow> es_triple R k Q \<Longrightarrow> es_triple P (es_then m k) Q"
  unfolding es_then_def by (rule es_bind_triple)

lemma es_if_triple:
  "(c \<Longrightarrow> es_triple P m Q) \<Longrightarrow> (\<not> c \<Longrightarrow> es_triple P k Q) \<Longrightarrow> es_triple P (if c then m else k) Q"
  by simp

lemma es_conseq:
  "es_triple P m Q \<Longrightarrow> (\<And>s. P' s \<Longrightarrow> P s) \<Longrightarrow> (\<And>x s. Q x s \<Longrightarrow> Q' x s) \<Longrightarrow> es_triple P' m Q'"
  unfolding es_triple_def by blast

lemma es_pre_pure: "(C \<Longrightarrow> es_triple P m Q) \<Longrightarrow> es_triple (\<lambda>s. C \<and> P s) m Q"
  by (auto simp: es_triple_def)

lemma es_fold_prefix:
  assumes "\<And>ys x zs a. xs = ys @ x # zs \<Longrightarrow> es_triple (I ys a) (f x a) (I (ys @ [x]))"
  shows "es_triple (I [] a) (es_fold f xs a) (I xs)"
proof -
  have "es_triple (I ys a) (es_fold f zs a) (I xs)" if "xs = ys @ zs" for ys zs a
    using that
  proof (induction zs arbitrary: ys a)
    case Nil
    then show ?case by (simp add: es_triple_def es_simps)
  next
    case (Cons z zs)
    show ?case unfolding es_fold.simps
      by (rule es_bind_triple [OF assms [OF Cons.prems]]) (use Cons in simp)
  qed
  from this [of "[]" xs] show ?thesis by simp
qed

text \<open>
  Runs that fail matter too: \<open>es_safe I E m\<close> says that every run of \<open>m\<close> keeps \<open>I\<close> and raises only
  the errors in \<open>E\<close>.
\<close>

definition es_safe :: "('s \<Rightarrow> bool) \<Rightarrow> 'e set \<Rightarrow> ('s, 'e, 'a) es \<Rightarrow> bool" where
  "es_safe I E m = (\<forall>s r s'. I s \<longrightarrow> m s = (r, s') \<longrightarrow> I s' \<and> (\<forall>e. r = Inl e \<longrightarrow> e \<in> E))"

named_theorems es_safe_intros "compositional rules for runs that keep an invariant"

lemma es_safeD: "es_safe I E m \<Longrightarrow> I s \<Longrightarrow> m s = (r, s') \<Longrightarrow> I s' \<and> (\<forall>e. r = Inl e \<longrightarrow> e \<in> E)"
  unfolding es_safe_def by blast

lemma es_safe_return [es_safe_intros]: "es_safe I E (es_return x)"
  by (simp add: es_safe_def es_simps)

lemma es_safe_throw [es_safe_intros]: "e \<in> E \<Longrightarrow> es_safe I E (es_throw e)"
  by (simp add: es_safe_def es_simps)

lemma es_safe_lift [es_safe_intros]: "(\<And>e. r = Inl e \<Longrightarrow> e \<in> E) \<Longrightarrow> es_safe I E (es_lift r)"
  by (simp add: es_safe_def es_simps)

lemma es_safe_gets [es_safe_intros]: "es_safe I E (es_gets f)"
  by (simp add: es_safe_def es_simps)

lemma es_safe_modify [es_safe_intros]: "(\<And>s. I s \<Longrightarrow> I (g s)) \<Longrightarrow> es_safe I E (es_modify g)"
  by (simp add: es_safe_def es_simps)

lemma es_safe_bind [es_safe_intros]:
  "es_safe I E m \<Longrightarrow> (\<And>x. es_safe I E (f x)) \<Longrightarrow> es_safe I E (es_bind m f)"
proof (unfold es_safe_def [of I E "es_bind m f"], intro allI impI)
  fix s r s'
  assume m: "es_safe I E m" and f: "\<And>x. es_safe I E (f x)" and I: "I s" and run: "es_bind m f s = (r, s')"
  obtain r1 s1 where run1: "m s = (r1, s1)" by (cases "m s")
  show "I s' \<and> (\<forall>e. r = Inl e \<longrightarrow> e \<in> E)"
  proof (cases r1)
    case (Inl e)
    then show ?thesis using es_safeD [OF m I run1] run run1 by (auto simp: es_bind_def)
  next
    case (Inr x)
    then show ?thesis using es_safeD [OF m I run1] es_safeD [OF f [of x], of s1 r s'] run run1 by (simp add: es_bind_def)
  qed
qed

lemma es_safe_then [es_safe_intros]: "es_safe I E m \<Longrightarrow> es_safe I E k \<Longrightarrow> es_safe I E (es_then m k)"
  unfolding es_then_def by (rule es_safe_bind)

lemma es_safe_if [es_safe_intros]:
  "(c \<Longrightarrow> es_safe I E m) \<Longrightarrow> (\<not> c \<Longrightarrow> es_safe I E k) \<Longrightarrow> es_safe I E (if c then m else k)"
  by simp

lemma es_safe_fold [es_safe_intros]: "(\<And>x a. es_safe I E (f x a)) \<Longrightarrow> es_safe I E (es_fold f xs a)"
  by (induction xs arbitrary: a) (auto intro: es_safe_intros)

lemma es_safe_case_option [es_safe_intros]:
  "es_safe I E m \<Longrightarrow> (\<And>x. es_safe I E (f x)) \<Longrightarrow> es_safe I E (case x of None \<Rightarrow> m | Some x \<Rightarrow> f x)"
  by (cases x) auto

lemma es_safe_case_prod [es_safe_intros]:
  "(\<And>a b. es_safe I E (f a b)) \<Longrightarrow> es_safe I E (case p of (a, b) \<Rightarrow> f a b)"
  by (cases p) auto

end
