(* ===== verification/Difference_Solver.thy ===== *)
theory Difference_Solver
  imports Affine_Expression Error_State "HOL-Library.Product_Lexorder" "HOL-Library.Option_ord"
begin

text \<open>
  The bounded difference solver of \<open>src/src/verifier/relation/difference.rs\<close> and its splitting plan
  \<open>difference/splits.rs\<close>: premises over typed machine words become edges \<open>left - right \<le> bound\<close>
  between numbered vertices, disequalities are split into branches, and every branch is closed by
  Floyd-Warshall with a recorded derivation. All limits are shared by the whole query. The memory
  access carried by terms is an opaque type.
\<close>

section \<open>Terms, premises and goals\<close>

datatype 'm vir_type = TyU64 | TyBool | TyPointer 'm | TyPermission

datatype 'm relation_term =
    RValue vir_value_id "'m vir_type"
  | RPointerOffset vir_value_id 'm
  | RConstant u64
  | RDerived "8 word"

datatype relation_comparison = LessThan | LessOrEqual | Equal | NotEqual

record difference_limits =
  max_variables :: usize
  max_constraints :: usize
  max_steps :: usize
  max_derivations :: usize
  max_branches :: usize

definition default_limits :: difference_limits where
  "default_limits = \<lparr>max_variables = 24, max_constraints = 128, max_steps = 65536,
     max_derivations = 2048, max_branches = 4\<rparr>"

datatype 'm difference_premise =
    PInterval vir_value_id u64_interval
  | PBound "'m relation_term" "'m relation_term" i128
  | PEqualOffset "'m relation_term" "'m relation_term" i128
  | PCompare relation_comparison "'m relation_term" "'m relation_term"

record 'm difference_goal =
  dg_comparison :: relation_comparison
  dg_left :: "'m relation_term"
  dg_right :: "'m relation_term"

datatype difference_derivation =
    DEdge usize usize i128 "usize option"
  | DCompose usize usize i128

record difference_bound =
  db_left :: "vir_value_id option"
  db_right :: "vir_value_id option"
  db_bound :: i128

record difference_branch =
  dbr_choices :: "bool list"
  dbr_derivation :: "difference_derivation list"
  dbr_contradiction :: "usize option"
  dbr_status :: obligation_status
  dbr_bounds :: "difference_bound list"

datatype difference_stop = Complete | StopBudget | InvalidInput | ArithmeticOverflow | Inconsistent

record 'm difference_evidence =
  de_premises :: "'m difference_premise list"
  de_goal :: "'m difference_goal"
  de_limits :: difference_limits
  de_status :: obligation_status
  de_stop :: difference_stop
  de_steps :: usize
  de_branches :: "difference_branch list"

definition relation_word :: "vir_value_id \<Rightarrow> 'm relation_term" where
  "relation_word v = RValue v TyU64"

definition bound_premise :: "difference_bound \<Rightarrow> 'm difference_premise" where
  "bound_premise b =
     PBound (case db_left b of Some v \<Rightarrow> relation_word v | None \<Rightarrow> RConstant 0)
       (case db_right b of Some v \<Rightarrow> relation_word v | None \<Rightarrow> RConstant 0) (db_bound b)"

section \<open>The query\<close>

type_synonym edge = "usize \<times> usize \<times> i128 \<times> usize option"
type_synonym cell = "(i128 \<times> usize) option"

record 'm query =
  q_variables :: "(vir_value_id, usize) btmap"
  q_edges :: "edge list"
  q_disequalities :: "('m relation_term \<times> 'm relation_term \<times> usize) list"
  q_limits :: difference_limits
  q_steps :: usize
  q_derivations :: usize

type_synonym ('m, 'a) qm = "('m query, difference_stop, 'a) es"

definition push_edge :: "edge \<Rightarrow> ('m, unit) qm" where
  "push_edge e =
     es_bind (es_gets (\<lambda>q. length (q_edges q) \<ge> max_constraints (q_limits q))) (\<lambda>full.
     if full then es_throw StopBudget else es_modify (\<lambda>q. q\<lparr>q_edges := q_edges q @ [e]\<rparr>))"

definition new_variable :: "vir_value_id \<Rightarrow> usize \<Rightarrow> ('m, usize \<times> i128) qm" where
  "new_variable v vid =
     es_then (es_modify (\<lambda>q. q\<lparr>q_variables := bt_insert v vid (q_variables q)\<rparr>))
     (es_then (push_edge (vid, 0, 2 ^ 64 - 1, None))
     (es_then (push_edge (0, vid, 0, None))
     (es_return (vid, 0))))"

fun term_vertex :: "'m relation_term \<Rightarrow> ('m, usize \<times> i128) qm" where
  "term_vertex (RConstant n) = es_return (0, uint n)"
| "term_vertex (RValue v TyU64) =
     es_bind (es_gets id) (\<lambda>q.
     case bt_get (q_variables q) v of
       Some vid \<Rightarrow> es_return (vid, 0)
     | None \<Rightarrow>
         if length (q_variables q) \<ge> max_variables (q_limits q) then es_throw StopBudget
         else new_variable v (length (q_variables q) + 1))"
| "term_vertex _ = es_throw InvalidInput"

definition make_edge :: "'m relation_term \<Rightarrow> 'm relation_term \<Rightarrow> i128 \<Rightarrow> usize \<Rightarrow> ('m, edge) qm" where
  "make_edge left right c origin =
     es_bind (term_vertex left) (\<lambda>(l, a).
     es_bind (term_vertex right) (\<lambda>(r, b).
     es_bind (es_lift (ok_or ArithmeticOverflow
         (Option.bind (i128_checked_sub c a) (\<lambda>n. i128_checked_add n b)))) (\<lambda>bound.
     es_return (l, r, bound, Some origin))))"

definition add_bound :: "'m relation_term \<Rightarrow> 'm relation_term \<Rightarrow> i128 \<Rightarrow> usize \<Rightarrow> ('m, unit) qm" where
  "add_bound left right c origin = es_bind (make_edge left right c origin) push_edge"

definition add_disequality :: "'m relation_term \<Rightarrow> 'm relation_term \<Rightarrow> usize \<Rightarrow> ('m, unit) qm" where
  "add_disequality left right origin =
     es_bind (term_vertex left) (\<lambda>_.
     es_bind (term_vertex right) (\<lambda>_.
     es_bind (es_gets (\<lambda>q. length (q_disequalities q) \<ge> max_constraints (q_limits q))) (\<lambda>full.
     if full then es_throw StopBudget
     else es_modify (\<lambda>q. q\<lparr>q_disequalities := q_disequalities q @ [(left, right, origin)]\<rparr>))))"

fun add_premise :: "'m difference_premise \<Rightarrow> usize \<Rightarrow> ('m, unit) qm" where
  "add_premise (PInterval v interval) origin =
     es_then (add_bound (relation_word v) (RConstant (iv_upper interval)) 0 origin)
       (add_bound (RConstant (iv_lower interval)) (relation_word v) 0 origin)"
| "add_premise (PBound left right bound) origin = add_bound left right bound origin"
| "add_premise (PEqualOffset left right offset) origin =
     es_then (add_bound left right offset origin)
       (es_bind (es_lift (ok_or ArithmeticOverflow (i128_checked_neg offset))) (\<lambda>c.
        add_bound right left c origin))"
| "add_premise (PCompare comparison left right) origin =
     (case comparison of
        LessThan \<Rightarrow> add_bound left right (- 1) origin
      | LessOrEqual \<Rightarrow> add_bound left right 0 origin
      | Equal \<Rightarrow> es_then (add_bound left right 0 origin) (add_bound right left 0 origin)
      | NotEqual \<Rightarrow> add_disequality left right origin)"

definition tick :: "('m, unit) qm" where
  "tick =
     es_bind (es_gets (\<lambda>q. q_steps q \<ge> max_steps (q_limits q))) (\<lambda>full.
     if full then es_throw StopBudget else es_modify (\<lambda>q. q\<lparr>q_steps := q_steps q + 1\<rparr>))"

definition record_node ::
  "difference_derivation list \<Rightarrow> difference_derivation \<Rightarrow> ('m, usize \<times> difference_derivation list) qm" where
  "record_node trace node =
     es_bind (es_gets (\<lambda>q. q_derivations q \<ge> max_derivations (q_limits q))) (\<lambda>full.
     if full then es_throw StopBudget
     else es_then (es_modify (\<lambda>q. q\<lparr>q_derivations := q_derivations q + 1\<rparr>))
       (es_return (length trace, trace @ [node])))"

section \<open>Closing a branch\<close>

type_synonym closure = "cell list list \<times> difference_derivation list"

definition mat :: "cell list list \<Rightarrow> usize \<Rightarrow> usize \<Rightarrow> cell" where
  "mat m i j = m ! i ! j"

definition mat_set :: "cell list list \<Rightarrow> usize \<Rightarrow> usize \<Rightarrow> cell \<Rightarrow> cell list list" where
  "mat_set m i j c = m[i := (m ! i)[j := c]]"

definition improves :: "cell \<Rightarrow> i128 \<Rightarrow> bool" where
  "improves old c = (case old of None \<Rightarrow> True | Some (o', _) \<Rightarrow> c < o')"

definition seed_edge :: "edge \<Rightarrow> closure \<Rightarrow> ('m, closure) qm" where
  "seed_edge e acc =
     es_then tick
       (case e of (a, b, c, premise) \<Rightarrow>
          if improves (mat (fst acc) a b) c then
            es_bind (record_node (snd acc) (DEdge a b c premise)) (\<lambda>(proof', trace).
            es_return (mat_set (fst acc) a b (Some (c, proof')), trace))
          else es_return acc)"

definition relax_cell :: "usize \<times> usize \<times> usize \<Rightarrow> closure \<Rightarrow> ('m, closure) qm" where
  "relax_cell kij acc =
     es_then tick
       (case kij of (k, i, j) \<Rightarrow>
          case (mat (fst acc) i k, mat (fst acc) k j) of
            (Some (a, first), Some (b, second)) \<Rightarrow>
              es_bind (es_lift (ok_or ArithmeticOverflow (i128_checked_add a b))) (\<lambda>c.
              if improves (mat (fst acc) i j) c then
                es_bind (record_node (snd acc) (DCompose first second c)) (\<lambda>(proof', trace).
                es_return (mat_set (fst acc) i j (Some (c, proof')), trace))
              else es_return acc)
          | _ \<Rightarrow> es_return acc)"

definition find_contradiction :: "cell list list \<Rightarrow> usize \<Rightarrow> usize option" where
  "find_contradiction m n =
     (case List.map_filter (\<lambda>i. case mat m i i of
          Some (c, p) \<Rightarrow> if c < 0 then Some p else None | None \<Rightarrow> None) [0..<n] of
        p # _ \<Rightarrow> Some p | [] \<Rightarrow> None)"

fun close_rounds :: "usize list \<Rightarrow> usize \<Rightarrow> closure \<Rightarrow> ('m, usize option \<times> closure) qm" where
  "close_rounds [] n acc = es_return (None, acc)"
| "close_rounds (k # ks) n acc =
     es_bind (es_fold relax_cell (map (\<lambda>(i, j). (k, i, j)) (List.product [0..<n] [0..<n])) acc) (\<lambda>acc'.
     case find_contradiction (fst acc') n of
       Some p \<Rightarrow> es_return (Some p, acc')
     | None \<Rightarrow> close_rounds ks n acc')"

definition implied :: "cell list list \<Rightarrow> usize \<Rightarrow> usize \<Rightarrow> i128 \<Rightarrow> bool" where
  "implied m left right bound = (case mat m left right of Some (c, _) \<Rightarrow> c \<le> bound | None \<Rightarrow> False)"

definition verdict_status :: "relation_comparison \<Rightarrow> bool \<Rightarrow> bool \<Rightarrow> bool \<Rightarrow> bool \<Rightarrow> obligation_status" where
  "verdict_status comparison le lt ge gt =
     (let (yes, no) = (case comparison of
          LessThan \<Rightarrow> (lt, ge)
        | LessOrEqual \<Rightarrow> (le, gt)
        | Equal \<Rightarrow> (le \<and> ge, lt \<or> gt)
        | NotEqual \<Rightarrow> (lt \<or> gt, le \<and> ge)) in
      if yes then Proven else if no then Refuted else Unknown)"

definition vertex_names :: "(vir_value_id, usize) btmap \<Rightarrow> usize \<Rightarrow> vir_value_id option list" where
  "vertex_names variables n = fold (\<lambda>(v, i) names. names[i := Some v]) variables (replicate n None)"

definition exported_bound :: "cell list list \<Rightarrow> vir_value_id option list \<Rightarrow> usize \<times> usize \<Rightarrow> difference_bound option" where
  "exported_bound m names ij =
     (case ij of (i, j) \<Rightarrow>
        if i = j then None
        else case mat m i j of
          None \<Rightarrow> None
        | Some (bound, _) \<Rightarrow>
            if bound < (if i = 0 then 0 else 2 ^ 64 - 1)
            then Some \<lparr>db_left = names ! i, db_right = names ! j, db_bound = bound\<rparr> else None)"

definition exported_bounds :: "cell list list \<Rightarrow> (vir_value_id, usize) btmap \<Rightarrow> usize \<Rightarrow> difference_bound list" where
  "exported_bounds m variables n =
     sort_key (\<lambda>b. (db_left b, db_right b, db_bound b))
       (List.map_filter (exported_bound m (vertex_names variables n)) (List.product [0..<n] [0..<n]))"

definition branch_edge :: "nat \<times> bool \<Rightarrow> edge list \<Rightarrow> ('m, edge list) qm" where
  "branch_edge ic edges =
     es_bind (es_gets (\<lambda>q. q_disequalities q ! fst ic)) (\<lambda>(a, b, origin).
     es_bind (if snd ic then make_edge a b (- 1) origin else make_edge b a (- 1) origin) (\<lambda>e.
     es_return (edges @ [e])))"

definition judge_goal ::
  "'m difference_goal \<Rightarrow> bool list \<Rightarrow> cell list list \<Rightarrow> difference_derivation list \<Rightarrow> usize \<Rightarrow> ('m, difference_branch) qm" where
  "judge_goal goal choices m trace n =
     es_bind (term_vertex (dg_left goal)) (\<lambda>(l, a).
     es_bind (term_vertex (dg_right goal)) (\<lambda>(r, b).
     es_bind (es_lift (ok_or ArithmeticOverflow (i128_checked_sub b a))) (\<lambda>bound.
     es_bind (es_lift (ok_or ArithmeticOverflow (i128_checked_neg bound))) (\<lambda>reverse.
     es_bind (es_lift (ok_or ArithmeticOverflow (i128_checked_sub bound 1))) (\<lambda>below.
     es_bind (es_lift (ok_or ArithmeticOverflow (i128_checked_sub reverse 1))) (\<lambda>above.
     es_bind (es_gets q_variables) (\<lambda>variables.
     es_return \<lparr>dbr_choices = choices, dbr_derivation = trace, dbr_contradiction = None,
       dbr_status = verdict_status (dg_comparison goal) (implied m l r bound) (implied m l r below)
         (implied m r l reverse) (implied m r l above),
       dbr_bounds = exported_bounds m variables n\<rparr>)))))))"

definition branch :: "bool list \<Rightarrow> 'm difference_goal \<Rightarrow> ('m, difference_branch) qm" where
  "branch choices goal =
     es_bind (es_gets q_edges) (\<lambda>edges0.
     es_bind (es_fold branch_edge (List.enumerate 0 choices) edges0) (\<lambda>edges.
     es_bind (es_gets id) (\<lambda>q.
     if length edges > max_constraints (q_limits q) then es_throw StopBudget
     else
       let n = length (q_variables q) + 1 in
       es_bind (es_fold seed_edge (edges @ map (\<lambda>i. (i, i, 0, None)) [0..<n])
           (replicate n (replicate n None), [])) (\<lambda>seeded.
       es_bind (close_rounds [0..<n] n seeded) (\<lambda>(contradiction, m, trace).
       case contradiction of
         Some p \<Rightarrow> es_return \<lparr>dbr_choices = choices, dbr_derivation = trace, dbr_contradiction = Some p,
             dbr_status = Unknown, dbr_bounds = []\<rparr>
       | None \<Rightarrow> judge_goal goal choices m trace n)))))"

section \<open>Splitting disequalities\<close>

datatype choice = Fixed bool | Split usize bool

unbundle bit_operations_syntax

fun in_branch :: "choice \<Rightarrow> usize \<Rightarrow> bool" where
  "in_branch (Fixed v) b = v"
| "in_branch (Split k inverted) b = ((b AND push_bit k 1 \<noteq> 0) \<noteq> inverted)"

definition collect_bound :: "usize \<Rightarrow> (usize \<times> usize, i128) btmap \<Rightarrow> ('m, (usize \<times> usize, i128) btmap) qm" where
  "collect_bound index bounds =
     es_then tick
       (es_bind (es_gets (\<lambda>q. q_edges q ! index)) (\<lambda>(a, b, bound, _).
        es_return (bt_insert (a, b)
          (case bt_get bounds (a, b) of Some old \<Rightarrow> min old bound | None \<Rightarrow> bound) bounds)))"

definition merge_class :: "usize \<Rightarrow> usize \<Rightarrow> usize list \<Rightarrow> ('m, usize list) qm" where
  "merge_class low high classes =
     es_fold (\<lambda>c acc. es_then tick (es_return (acc @ [if c = high then low else c]))) classes []"

definition merge_classes ::
  "(usize \<times> usize, i128) btmap \<Rightarrow> (usize \<times> usize) \<times> i128 \<Rightarrow> usize list \<Rightarrow> ('m, usize list) qm" where
  "merge_classes bounds entry classes =
     es_then tick
       (case entry of ((a, b), bound) \<Rightarrow>
          if bound \<le> 0 \<and> (case bt_get bounds (b, a) of Some reverse \<Rightarrow> reverse \<le> 0 | None \<Rightarrow> False)
          then merge_class (min (classes ! a) (classes ! b)) (max (classes ! a) (classes ! b)) classes
          else es_return classes)"

definition bounded_by :: "(usize \<times> usize, i128) btmap \<Rightarrow> edge \<Rightarrow> bool" where
  "bounded_by bounds e =
     (case e of (a, b, c, _) \<Rightarrow> case bt_get bounds (a, b) of Some k \<Rightarrow> k \<le> c | None \<Rightarrow> False)"

type_synonym split_key = "(usize \<times> usize \<times> i128) \<times> (usize \<times> usize \<times> i128)"

definition class_edge :: "usize list \<Rightarrow> edge \<Rightarrow> usize \<times> usize \<times> i128" where
  "class_edge classes e = (case e of (a, b, c, _) \<Rightarrow> (classes ! a, classes ! b, c))"

definition split_choice ::
  "(usize \<times> usize, i128) btmap \<Rightarrow> usize list \<Rightarrow> edge \<Rightarrow> edge \<Rightarrow>
   (split_key, usize) btmap \<Rightarrow> choice \<times> (split_key, usize) btmap" where
  "split_choice bounds classes lt gt groups =
     (if bounded_by bounds lt then (Fixed True, groups)
      else if bounded_by bounds gt then (Fixed False, groups)
      else
        let l = class_edge classes lt; g = class_edge classes gt; key = (min l g, max l g) in
        case bt_get groups key of
          Some k \<Rightarrow> (Split k (l > g), groups)
        | None \<Rightarrow> (Split (length groups) (l > g), bt_insert key (length groups) groups))"

definition plan_choice ::
  "(usize \<times> usize, i128) btmap \<Rightarrow> usize list \<Rightarrow> usize \<Rightarrow> choice list \<times> (split_key, usize) btmap \<Rightarrow>
   ('m, choice list \<times> (split_key, usize) btmap) qm" where
  "plan_choice bounds classes index acc =
     es_then tick
       (es_bind (es_gets (\<lambda>q. q_disequalities q ! index)) (\<lambda>(left, right, origin).
        es_bind (make_edge left right (- 1) origin) (\<lambda>lt.
        es_bind (make_edge right left (- 1) origin) (\<lambda>gt.
        case split_choice bounds classes lt gt (snd acc) of (c, groups) \<Rightarrow> es_return (fst acc @ [c], groups)))))"

definition branch_count :: "difference_limits \<Rightarrow> nat \<Rightarrow> usize option" where
  "branch_count limits groups =
     (case checked_shl_one groups of
        Some count \<Rightarrow> if count \<le> max_branches limits then Some count else None
      | None \<Rightarrow> None)"

definition plan :: "('m, choice list \<times> usize) qm" where
  "plan =
     es_bind (es_gets id) (\<lambda>q.
     if max_branches (q_limits q) = 0 then es_throw StopBudget
     else if q_disequalities q = [] then es_return ([], 1)
     else
       es_bind (es_fold collect_bound [0..<length (q_edges q)] []) (\<lambda>bounds.
       es_bind (es_fold (merge_classes bounds) bounds [0..<length (q_variables q) + 1]) (\<lambda>classes.
       es_bind (es_fold (plan_choice bounds classes) [0..<length (q_disequalities q)] ([], [])) (\<lambda>(choices, groups).
       es_bind (es_lift (ok_or StopBudget (branch_count (q_limits q) (length groups)))) (\<lambda>count.
       es_return (choices, count))))))"

section \<open>Solving\<close>

definition initial_query :: "difference_limits \<Rightarrow> 'm query" where
  "initial_query limits = \<lparr>q_variables = [], q_edges = [], q_disequalities = [], q_limits = limits,
     q_steps = 0, q_derivations = 0\<rparr>"

definition overall_status :: "difference_branch list \<Rightarrow> difference_stop + obligation_status" where
  "overall_status branches =
     (case map dbr_status (filter (\<lambda>b. dbr_contradiction b = None) branches) of
        [] \<Rightarrow> Inl Inconsistent
      | first # rest \<Rightarrow> Inr (if list_all (\<lambda>st. st = first) rest then first else Unknown))"

definition run_branch ::
  "choice list \<Rightarrow> 'm difference_goal \<Rightarrow> usize \<Rightarrow> difference_branch list \<Rightarrow> ('m, difference_branch list) qm" where
  "run_branch choices goal b branches =
     es_bind (branch (map (\<lambda>c. in_branch c b) choices) goal) (\<lambda>r. es_return (branches @ [r]))"

definition prepare :: "'m difference_premise list \<Rightarrow> 'm difference_goal \<Rightarrow> ('m, choice list \<times> usize) qm" where
  "prepare premises goal =
     es_bind (term_vertex (dg_left goal)) (\<lambda>_.
     es_bind (term_vertex (dg_right goal)) (\<lambda>_.
     es_bind (es_fold (\<lambda>(i, p) _. add_premise p i) (List.enumerate 0 premises) ()) (\<lambda>_. plan)))"

text \<open>The branches already finished when a later one fails stay in the evidence.\<close>

fun run_branches ::
  "choice list \<Rightarrow> 'm difference_goal \<Rightarrow> usize list \<Rightarrow> difference_branch list \<Rightarrow> 'm query \<Rightarrow>
   difference_stop option \<times> difference_branch list \<times> 'm query" where
  "run_branches choices goal [] branches q = (None, branches, q)"
| "run_branches choices goal (b # bs) branches q =
     (case run_branch choices goal b branches q of
        (Inl e, q') \<Rightarrow> (Some e, branches, q')
      | (Inr branches', q') \<Rightarrow> run_branches choices goal bs branches' q')"

definition solve_difference ::
  "'m difference_premise list \<Rightarrow> 'm difference_goal \<Rightarrow> difference_limits \<Rightarrow> 'm difference_evidence" where
  "solve_difference premises goal limits =
     (let evidence = \<lparr>de_premises = [], de_goal = goal, de_limits = limits, de_status = Unknown,
            de_stop = Complete, de_steps = 0, de_branches = []\<rparr> in
      if length premises > max_constraints limits then evidence\<lparr>de_stop := StopBudget\<rparr>
      else
        case prepare premises goal (initial_query limits) of
          (Inl e, q) \<Rightarrow> evidence\<lparr>de_premises := premises, de_stop := e, de_steps := q_steps q\<rparr>
        | (Inr (choices, count), q) \<Rightarrow>
            (case run_branches choices goal [0..<count] [] q of
               (Some e, branches, q') \<Rightarrow>
                 evidence\<lparr>de_premises := premises, de_stop := e, de_steps := q_steps q', de_branches := branches\<rparr>
             | (None, branches, q') \<Rightarrow>
                 (case overall_status branches of
                    Inl e \<Rightarrow> evidence\<lparr>de_premises := premises, de_stop := e, de_steps := q_steps q', de_branches := branches\<rparr>
                  | Inr status \<Rightarrow> evidence\<lparr>de_premises := premises, de_status := status, de_steps := q_steps q',
                      de_branches := branches\<rparr>)))"

definition replay_difference ::
  "'m difference_premise list \<Rightarrow> 'm difference_goal \<Rightarrow> difference_limits \<Rightarrow> 'm difference_evidence \<Rightarrow> bool" where
  "replay_difference premises goal limits proposal = (solve_difference premises goal limits = proposal)"

end
