(* ===== verification/Difference_Sound.thy ===== *)
theory Difference_Sound
  imports Difference_Solver
begin

text \<open>
  Soundness of the bounded difference solver. A model assigns a machine word to every SSA value; a
  vertex denotes the word of the variable it numbers, and vertex 0 denotes zero. The invariant of
  the query is that every edge holds in the model, and the splitting plan never loses a model.
\<close>

section \<open>Meaning\<close>

type_synonym word_model = "vir_value_id \<Rightarrow> u64"

fun term_val :: "word_model \<Rightarrow> 'm relation_term \<Rightarrow> int" where
  "term_val \<rho> (RConstant n) = uint n"
| "term_val \<rho> (RValue v ty) = uint (\<rho> v)"
| "term_val \<rho> _ = 0"

fun compare_holds :: "relation_comparison \<Rightarrow> int \<Rightarrow> int \<Rightarrow> bool" where
  "compare_holds LessThan x y = (x < y)"
| "compare_holds LessOrEqual x y = (x \<le> y)"
| "compare_holds Equal x y = (x = y)"
| "compare_holds NotEqual x y = (x \<noteq> y)"

fun premise_true :: "word_model \<Rightarrow> 'm difference_premise \<Rightarrow> bool" where
  "premise_true \<rho> (PInterval v i) = iv_contains i (\<rho> v)"
| "premise_true \<rho> (PBound l r b) = (term_val \<rho> l - term_val \<rho> r \<le> b)"
| "premise_true \<rho> (PEqualOffset l r d) = (term_val \<rho> l - term_val \<rho> r = d)"
| "premise_true \<rho> (PCompare c l r) = compare_holds c (term_val \<rho> l) (term_val \<rho> r)"

definition goal_true :: "word_model \<Rightarrow> 'm difference_goal \<Rightarrow> bool" where
  "goal_true \<rho> g = compare_holds (dg_comparison g) (term_val \<rho> (dg_left g)) (term_val \<rho> (dg_right g))"

definition lab :: "word_model \<Rightarrow> (vir_value_id, usize) btmap \<Rightarrow> usize \<Rightarrow> int" where
  "lab \<rho> vars i = (case map_of (map (\<lambda>(v, j). (j, v)) vars) i of Some v \<Rightarrow> uint (\<rho> v) | None \<Rightarrow> 0)"

definition vars_ok :: "(vir_value_id, usize) btmap \<Rightarrow> bool" where
  "vars_ok vars = (bt_sorted vars \<and> distinct (map snd vars) \<and> snd ` set vars = {1..length vars})"

definition edge_ok :: "word_model \<Rightarrow> (vir_value_id, usize) btmap \<Rightarrow> edge \<Rightarrow> bool" where
  "edge_ok \<rho> vars e =
     (case e of (a, b, c, _) \<Rightarrow> a \<le> length vars \<and> b \<le> length vars \<and> lab \<rho> vars a - lab \<rho> vars b \<le> c)"

fun term_reg :: "(vir_value_id, usize) btmap \<Rightarrow> 'm relation_term \<Rightarrow> bool" where
  "term_reg vars (RConstant n) = True"
| "term_reg vars (RValue v TyU64) = (bt_get vars v \<noteq> None)"
| "term_reg vars _ = False"

definition diseq_ok ::
  "word_model \<Rightarrow> (vir_value_id, usize) btmap \<Rightarrow> 'm relation_term \<times> 'm relation_term \<times> usize \<Rightarrow> bool" where
  "diseq_ok \<rho> vars d =
     (case d of (l, r, origin) \<Rightarrow> term_reg vars l \<and> term_reg vars r \<and> term_val \<rho> l \<noteq> term_val \<rho> r)"

definition q_inv :: "word_model \<Rightarrow> 'm query \<Rightarrow> bool" where
  "q_inv \<rho> q =
     (vars_ok (q_variables q) \<and> list_all (edge_ok \<rho> (q_variables q)) (q_edges q) \<and>
      list_all (diseq_ok \<rho> (q_variables q)) (q_disequalities q))"

definition q_ext :: "'m query \<Rightarrow> 'm query \<Rightarrow> bool" where
  "q_ext q q' = (\<forall>v i. bt_get (q_variables q) v = Some i \<longrightarrow> bt_get (q_variables q') v = Some i)"

section \<open>Vertices\<close>

lemma lab_vertex: "vars_ok vars \<Longrightarrow> bt_get vars v = Some i \<Longrightarrow> lab \<rho> vars i = uint (\<rho> v)"
proof -
  assume ok: "vars_ok vars" and get: "bt_get vars v = Some i"
  have "(i, v) \<in> set (map (\<lambda>(v, j). (j, v)) vars)" using bt_get_in_set [OF get] by force
  moreover have "distinct (map fst (map (\<lambda>(v, j). (j, v)) vars))"
    using ok by (simp add: vars_ok_def comp_def case_prod_unfold)
  ultimately show ?thesis by (simp add: lab_def)
qed

lemma lab_zero: "vars_ok vars \<Longrightarrow> lab \<rho> vars 0 = 0"
proof -
  assume "vars_ok vars"
  then have "0 \<notin> fst ` set (map (\<lambda>(v, j). (j, v)) vars)" by (force simp: vars_ok_def)
  then show ?thesis by (simp add: lab_def map_of_eq_None_iff [THEN iffD2])
qed

lemma vars_ok_Nil [simp]: "vars_ok []"
  by (simp add: vars_ok_def)

lemma bt_insert_fresh:
  "bt_get m k = None \<Longrightarrow> bt_sorted m \<Longrightarrow> \<exists>xs ys. m = xs @ ys \<and> bt_insert k v m = xs @ (k, v) # ys"
proof (induction m)
  case (Cons p m)
  obtain a w where p: "p = (a, w)" by force
  show ?case
  proof (cases "k < a")
    case True
    then show ?thesis by (intro exI [of _ "[]"] exI [of _ "p # m"]) (simp add: p)
  next
    case False
    then have "bt_get m k = None" "k \<noteq> a" using Cons.prems by (auto simp: p split: if_splits)
    then obtain xs ys where "m = xs @ ys" "bt_insert k v m = xs @ (k, v) # ys"
      using Cons by (auto simp: p bt_sorted_Cons)
    then show ?thesis using False \<open>k \<noteq> a\<close> by (intro exI [of _ "p # xs"] exI [of _ ys]) (simp add: p)
  qed
qed simp

lemma vars_ok_insert:
  assumes "vars_ok vars" and "bt_get vars v = None" and "k = length vars + 1"
  shows "vars_ok (bt_insert v k vars) \<and> length (bt_insert v k vars) = k"
proof -
  obtain xs ys where s: "vars = xs @ ys" "bt_insert v k vars = xs @ (v, k) # ys"
    using bt_insert_fresh [OF assms(2)] assms(1) unfolding vars_ok_def by metis
  have len: "length (bt_insert v k vars) = k" using s assms(3) by (simp only: s(2)) simp
  have dom: "snd ` set vars = {1..length vars}" using assms(1) by (simp add: vars_ok_def)
  have "set (bt_insert v k vars) = insert (v, k) (set vars)" unfolding s(2) by (simp add: s(1) insert_commute)
  then have "snd ` set (bt_insert v k vars) = {1..k}" using dom assms(3) by auto
  moreover have "k \<notin> snd ` set vars" using dom assms(3) by simp
  then have "distinct (map snd (bt_insert v k vars))"
    unfolding s(2) using assms(1) s(1) by (simp add: vars_ok_def image_Un)
  ultimately show ?thesis using assms(1) len by (simp add: vars_ok_def)
qed

lemma vertex_exists: "vars_ok vars \<Longrightarrow> 0 < i \<Longrightarrow> i \<le> length vars \<Longrightarrow> \<exists>v. bt_get vars v = Some i"
proof -
  assume ok: "vars_ok vars" and i: "0 < i" "i \<le> length vars"
  then have "i \<in> snd ` set vars" by (simp add: vars_ok_def)
  then obtain v where "(v, i) \<in> set vars" by auto
  then have "map_of vars v = Some i"
    using ok by (auto simp: vars_ok_def bt_sorted_def strict_sorted_iff intro: map_of_is_SomeI)
  then show ?thesis using ok by (auto simp: vars_ok_def bt_get_map_of)
qed

lemma vertex_bound: "vars_ok vars \<Longrightarrow> bt_get vars v = Some i \<Longrightarrow> 0 < i \<and> i \<le> length vars"
  using bt_get_in_set [of vars v i] by (force simp: vars_ok_def)

lemma lab_ext:
  assumes "vars_ok (q_variables q)" and "vars_ok (q_variables q')" and "q_ext q q'" and "i \<le> length (q_variables q)"
  shows "lab \<rho> (q_variables q') i = lab \<rho> (q_variables q) i \<and> i \<le> length (q_variables q')"
proof (cases "i = 0")
  case False
  then obtain v where v: "bt_get (q_variables q) v = Some i" using vertex_exists assms by blast
  then have "bt_get (q_variables q') v = Some i" using assms(3) by (simp add: q_ext_def)
  then show ?thesis using v lab_vertex vertex_bound assms(1,2) by metis
qed (simp add: lab_zero assms)

lemma edge_ok_ext:
  "vars_ok (q_variables q) \<Longrightarrow> vars_ok (q_variables q') \<Longrightarrow> q_ext q q' \<Longrightarrow> edge_ok \<rho> (q_variables q) e \<Longrightarrow>
    edge_ok \<rho> (q_variables q') e"
  using lab_ext [of q q' _ \<rho>] by (cases e) (auto simp: edge_ok_def)

lemma term_reg_ext: "q_ext q q' \<Longrightarrow> term_reg (q_variables q) t \<Longrightarrow> term_reg (q_variables q') t"
  by (induction "q_variables q" t rule: term_reg.induct) (auto simp: q_ext_def)

lemma diseq_ok_ext: "q_ext q q' \<Longrightarrow> diseq_ok \<rho> (q_variables q) d \<Longrightarrow> diseq_ok \<rho> (q_variables q') d"
  by (cases d) (auto simp: diseq_ok_def dest: term_reg_ext)

lemma q_ext_refl [simp]: "q_ext q q"
  by (simp add: q_ext_def)

lemma q_ext_trans: "q_ext q q' \<Longrightarrow> q_ext q' q'' \<Longrightarrow> q_ext q q''"
  by (simp add: q_ext_def)

section \<open>Building the query\<close>

definition q_step :: "word_model \<Rightarrow> 'm query \<Rightarrow> 'm query \<Rightarrow> bool" where
  "q_step \<rho> q q' = (q_inv \<rho> q' \<and> q_ext q q')"

lemma q_step_refl: "q_inv \<rho> q \<Longrightarrow> q_step \<rho> q q"
  by (simp add: q_step_def)

lemma q_step_trans: "q_step \<rho> q q' \<Longrightarrow> q_step \<rho> q' q'' \<Longrightarrow> q_step \<rho> q q''"
  by (auto simp: q_step_def intro: q_ext_trans)

lemma push_edge_step:
  assumes "push_edge e q = (Inr x, q')" and "q_inv \<rho> q" and "edge_ok \<rho> (q_variables q) e"
  shows "q_step \<rho> q q' \<and> q_variables q' = q_variables q"
  using assms by (auto simp: push_edge_def es_bind_Inr es_simps q_step_def q_inv_def q_ext_def split: if_splits)

lemma new_variable_step:
  assumes run: "new_variable v (length (q_variables q) + 1) q = (Inr (vid, a), q')" and inv: "q_inv \<rho> q"
    and fresh: "bt_get (q_variables q) v = None"
  shows "q_step \<rho> q q' \<and> bt_get (q_variables q') v = Some vid \<and> a = 0"
proof -
  let ?id = "length (q_variables q) + 1"
  let ?q = "q\<lparr>q_variables := bt_insert v ?id (q_variables q)\<rparr>"
  obtain q1 where p1: "push_edge (?id, 0, 2 ^ 64 - 1, None) ?q = (Inr (), q1)"
    and p2: "push_edge (0, ?id, 0, None) q1 = (Inr (), q')" and res: "vid = ?id" "a = 0"
    using run by (auto simp: new_variable_def es_then_def es_bind_Inr es_simps)
  have ok: "vars_ok (q_variables q)" using inv by (simp add: q_inv_def)
  have ok': "vars_ok (q_variables ?q)" "length (q_variables ?q) = ?id"
    using vars_ok_insert [OF ok fresh refl] by simp_all
  have sorted: "bt_sorted (q_variables q)" using ok by (simp add: vars_ok_def)
  have ext: "q_ext q ?q"
    using fresh by (auto simp: q_ext_def bt.get_insert [OF sorted])
  have inv': "q_inv \<rho> ?q"
    unfolding q_inv_def list_all_iff
    by (intro conjI ballI ok'(1) edge_ok_ext [OF ok ok'(1) ext] diseq_ok_ext [OF ext])
      (use inv in \<open>simp_all add: q_inv_def list_all_iff\<close>)
  have get: "bt_get (q_variables ?q) v = Some ?id" by simp
  have lab: "lab \<rho> (q_variables ?q) ?id = uint (\<rho> v)" "lab \<rho> (q_variables ?q) 0 = 0"
    using lab_vertex [OF ok'(1) get] lab_zero [OF ok'(1)] by auto
  have e1: "edge_ok \<rho> (q_variables ?q) (?id, 0, 2 ^ 64 - 1, None)"
    and e2: "edge_ok \<rho> (q_variables ?q) (0, ?id, 0, None)"
    using lab ok'(2) uint_u64_bound [of "\<rho> v"] by (simp_all add: edge_ok_def)
  have s1: "q_step \<rho> ?q q1" "q_variables q1 = q_variables ?q" using push_edge_step [OF p1 inv' e1] by auto
  then have "q_step \<rho> q1 q'" "q_variables q' = q_variables q1"
    using push_edge_step [OF p2, of \<rho>] e2 by (auto simp: q_step_def)
  then show ?thesis using s1 ext get res by (auto simp: q_step_def q_ext_def)
qed

definition vertex_denotes :: "word_model \<Rightarrow> 'm query \<Rightarrow> 'm relation_term \<Rightarrow> usize \<times> i128 \<Rightarrow> bool" where
  "vertex_denotes \<rho> q t p =
     (term_reg (q_variables q) t \<and> fst p \<le> length (q_variables q) \<and>
      lab \<rho> (q_variables q) (fst p) + snd p = term_val \<rho> t)"

lemma vertex_denotes_ext:
  "q_inv \<rho> q \<Longrightarrow> q_step \<rho> q q' \<Longrightarrow> vertex_denotes \<rho> q t p \<Longrightarrow> vertex_denotes \<rho> q' t p"
  using lab_ext [of q q' "fst p" \<rho>] term_reg_ext [of q q' t]
  by (auto simp: q_step_def q_inv_def vertex_denotes_def)

lemma term_vertex_step:
  assumes "term_vertex t q = (Inr p, q')" and "q_inv \<rho> q"
  shows "q_step \<rho> q q' \<and> vertex_denotes \<rho> q' t p"
proof (cases t)
  case (RConstant n)
  then show ?thesis using assms
    by (auto simp: es_simps vertex_denotes_def q_step_refl lab_zero q_inv_def)
next
  case (RValue v ty)
  have ty: "ty = TyU64" using assms(1) RValue by (cases ty) (auto simp: es_simps)
  show ?thesis
  proof (cases "bt_get (q_variables q) v")
    case (Some vid)
    then have "p = (vid, 0)" "q' = q" using assms(1) RValue ty by (auto simp: es_bind_Inr es_simps)
    then show ?thesis
      using assms(2) Some lab_vertex [of "q_variables q" v vid \<rho>] vertex_bound [of "q_variables q" v vid] RValue ty
      by (auto simp: vertex_denotes_def q_step_refl q_inv_def)
  next
    case None
    then have run: "new_variable v (length (q_variables q) + 1) q = (Inr (fst p, snd p), q')"
      using assms(1) RValue ty by (auto simp: es_bind_Inr es_simps split: if_splits)
    note step = new_variable_step [OF run assms(2) None]
    have "vars_ok (q_variables q')" using step by (simp add: q_step_def q_inv_def)
    then show ?thesis
      using step lab_vertex [of "q_variables q'" v "fst p" \<rho>] vertex_bound [of "q_variables q'" v "fst p"] RValue ty
      by (auto simp: vertex_denotes_def)
  qed
qed (use assms in \<open>auto simp: es_simps\<close>)

lemma make_edge_step:
  assumes "make_edge l r c origin q = (Inr e, q')" and "q_inv \<rho> q"
  shows "q_step \<rho> q q' \<and> (term_val \<rho> l - term_val \<rho> r \<le> c \<longrightarrow> edge_ok \<rho> (q_variables q') e)"
proof -
  obtain p q1 p2 bound where t1: "term_vertex l q = (Inr p, q1)" and t2: "term_vertex r q1 = (Inr p2, q')"
    and b: "Option.bind (i128_checked_sub c (snd p)) (\<lambda>n. i128_checked_add n (snd p2)) = Some bound"
    and e: "e = (fst p, fst p2, bound, Some origin)"
    using assms(1) by (auto simp: make_edge_def es_bind_Inr es_simps case_prod_unfold)
  have s1: "q_step \<rho> q q1" "vertex_denotes \<rho> q1 l p" using term_vertex_step [OF t1 assms(2)] by auto
  then have inv1: "q_inv \<rho> q1" by (simp add: q_step_def)
  have s2: "q_step \<rho> q1 q'" "vertex_denotes \<rho> q' r p2" using term_vertex_step [OF t2 inv1] by auto
  have "vertex_denotes \<rho> q' l p" by (rule vertex_denotes_ext [OF inv1 s2(1) s1(2)])
  moreover have "bound = c - snd p + snd p2"
    using b by (auto split: Option.bind_splits dest!: checked_arith)
  ultimately show ?thesis
    using s2(2) q_step_trans [OF s1(1) s2(1)] by (auto simp: e edge_ok_def vertex_denotes_def)
qed

lemma add_bound_step:
  assumes "add_bound l r c origin q = (Inr x, q')" and "q_inv \<rho> q" and "term_val \<rho> l - term_val \<rho> r \<le> c"
  shows "q_step \<rho> q q'"
proof -
  obtain e q1 where m: "make_edge l r c origin q = (Inr e, q1)" and p: "push_edge e q1 = (Inr (), q')"
    using assms(1) by (auto simp: add_bound_def es_bind_Inr)
  have s: "q_step \<rho> q q1" "edge_ok \<rho> (q_variables q1) e" using make_edge_step [OF m assms(2)] assms(3) by auto
  then show ?thesis using push_edge_step [OF p, of \<rho>] q_step_trans by (metis q_step_def)
qed

lemma add_disequality_step:
  assumes "add_disequality l r origin q = (Inr x, q')" and "q_inv \<rho> q" and "term_val \<rho> l \<noteq> term_val \<rho> r"
  shows "q_step \<rho> q q'"
proof -
  obtain p q1 p2 q2 where t1: "term_vertex l q = (Inr p, q1)" and t2: "term_vertex r q1 = (Inr p2, q2)"
    and q': "q' = q2\<lparr>q_disequalities := q_disequalities q2 @ [(l, r, origin)]\<rparr>"
    using assms(1) by (auto simp: add_disequality_def es_bind_Inr es_simps split: if_splits)
  have s1: "q_step \<rho> q q1" "vertex_denotes \<rho> q1 l p" using term_vertex_step [OF t1 assms(2)] by auto
  then have inv1: "q_inv \<rho> q1" by (simp add: q_step_def)
  have s2: "q_step \<rho> q1 q2" "vertex_denotes \<rho> q2 r p2" using term_vertex_step [OF t2 inv1] by auto
  have "vertex_denotes \<rho> q2 l p" by (rule vertex_denotes_ext [OF inv1 s2(1) s1(2)])
  then have "q_step \<rho> q2 q'"
    using s2 assms(3) by (auto simp: q' q_step_def q_inv_def q_ext_def vertex_denotes_def diseq_ok_def)
  then show ?thesis using s1 s2 q_step_trans by blast
qed

lemma add_premise_step:
  assumes "add_premise p origin q = (Inr x, q')" and "q_inv \<rho> q" and "premise_true \<rho> p"
  shows "q_step \<rho> q q'"
proof -
  have twice: "q_step \<rho> q q'"
    if h: "es_then (add_bound l r c origin) (add_bound l' r' c' origin) q = (Inr x, q')"
      "term_val \<rho> l - term_val \<rho> r \<le> c" "term_val \<rho> l' - term_val \<rho> r' \<le> c'" for l r l' r' :: "'a relation_term" and c c'
  proof -
    obtain q1 where b: "add_bound l r c origin q = (Inr (), q1)" "add_bound l' r' c' origin q1 = (Inr x, q')"
      using h(1) by (auto simp: es_then_def es_bind_Inr)
    have "q_step \<rho> q q1" by (rule add_bound_step [OF b(1) assms(2) h(2)])
    moreover from this have "q_step \<rho> q1 q'" using add_bound_step [OF b(2) _ h(3)] by (simp add: q_step_def)
    ultimately show ?thesis by (rule q_step_trans)
  qed
  show ?thesis
  proof (cases p)
    case (PInterval v i)
    then show ?thesis using assms
      by (intro twice [of "relation_word v" "RConstant (iv_upper i)" 0 "RConstant (iv_lower i)" "relation_word v" 0])
        (auto simp: iv_contains_def relation_word_def word_le_def)
  next
    case (PBound l r b)
    then show ?thesis using assms add_bound_step by auto
  next
    case (PEqualOffset l r d)
    then have "es_then (add_bound l r d origin) (add_bound r l (- d) origin) q = (Inr x, q')"
      using assms(1) by (auto simp: es_then_def es_bind_Inr es_simps dest!: checked_arith)
    then show ?thesis using assms(3) PEqualOffset by (intro twice [of l r d r l "- d"]) auto
  next
    case (PCompare c l r)
    then show ?thesis
      using assms add_bound_step [of l r _ origin q x q' \<rho>] add_disequality_step [of l r origin q x q' \<rho>]
        twice [of l r 0 r l 0]
      by (cases c) auto
  qed
qed

section \<open>Registered terms\<close>

definition q_core :: "'m query \<Rightarrow> (vir_value_id, usize) btmap \<times> edge list \<times>
    ('m relation_term \<times> 'm relation_term \<times> usize) list \<times> difference_limits" where
  "q_core q = (q_variables q, q_edges q, q_disequalities q, q_limits q)"

lemma q_inv_core: "q_core q = q_core q' \<Longrightarrow> q_inv \<rho> q = q_inv \<rho> q'"
  by (simp add: q_core_def q_inv_def)

lemma term_vertex_reg:
  assumes "term_vertex t q = (Inr p, q')" and "term_reg (q_variables q) t"
  shows "q' = q"
  using assms by (induction t rule: term_vertex.induct) (auto simp: es_bind_Inr es_simps)

lemma make_edge_reg:
  assumes "make_edge l r c origin q = (Inr e, q')" and "q_inv \<rho> q"
    and "term_reg (q_variables q) l" and "term_reg (q_variables q) r"
  shows "q' = q \<and> (\<exists>a b k. e = (a, b, k, Some origin) \<and> a \<le> length (q_variables q) \<and> b \<le> length (q_variables q) \<and>
    lab \<rho> (q_variables q) a - lab \<rho> (q_variables q) b - k = term_val \<rho> l - term_val \<rho> r - c)"
proof -
  obtain p q1 p2 bound where t1: "term_vertex l q = (Inr p, q1)" and t2: "term_vertex r q1 = (Inr p2, q')"
    and b: "Option.bind (i128_checked_sub c (snd p)) (\<lambda>n. i128_checked_add n (snd p2)) = Some bound"
    and e: "e = (fst p, fst p2, bound, Some origin)"
    using assms(1) by (auto simp: make_edge_def es_bind_Inr es_simps case_prod_unfold)
  have q1: "q1 = q" by (rule term_vertex_reg [OF t1 assms(3)])
  have q': "q' = q" using term_vertex_reg [OF t2] assms(4) q1 by simp
  have "vertex_denotes \<rho> q l p" "vertex_denotes \<rho> q r p2"
    using term_vertex_step [OF t1 assms(2)] term_vertex_step [OF t2, of \<rho>] assms(2) q1 q' by auto
  moreover have "bound = c - snd p + snd p2"
    using b by (auto split: Option.bind_splits dest!: checked_arith)
  ultimately show ?thesis using q' by (auto simp: e vertex_denotes_def)
qed

lemma tick_core: "tick q = (Inr x, q') \<Longrightarrow> q_core q' = q_core q"
  by (auto simp: tick_def es_bind_Inr es_simps q_core_def split: if_splits)

lemma record_node_core:
  "record_node trace node q = (Inr (p, trace'), q') \<Longrightarrow> q_core q' = q_core q \<and> p = length trace \<and> trace' = trace @ [node]"
  by (auto simp: record_node_def es_then_def es_bind_Inr es_simps q_core_def split: if_splits)

section \<open>Derivations are certificates\<close>

fun check_node :: "edge set \<Rightarrow> (usize \<times> usize \<times> i128) list \<Rightarrow> difference_derivation \<Rightarrow> (usize \<times> usize \<times> i128) option" where
  "check_node edges cs (DEdge l r b premise) = (if (l, r, b, premise) \<in> edges then Some (l, r, b) else None)"
| "check_node edges cs (DCompose f g b) =
     (if f < length cs \<and> g < length cs \<and> fst (snd (cs ! f)) = fst (cs ! g) \<and> snd (snd (cs ! f)) + snd (snd (cs ! g)) = b
      then Some (fst (cs ! f), fst (snd (cs ! g)), b) else None)"

fun check_trace ::
  "edge set \<Rightarrow> (usize \<times> usize \<times> i128) list \<Rightarrow> difference_derivation list \<Rightarrow> (usize \<times> usize \<times> i128) list option" where
  "check_trace edges cs [] = Some cs"
| "check_trace edges cs (node # nodes) =
     (case check_node edges cs node of Some c \<Rightarrow> check_trace edges (cs @ [c]) nodes | None \<Rightarrow> None)"

definition concludes :: "(usize \<Rightarrow> int) \<Rightarrow> usize \<times> usize \<times> i128 \<Rightarrow> bool" where
  "concludes f c = (case c of (i, j, k) \<Rightarrow> f i - f j \<le> k)"

lemma check_trace_append:
  "check_trace edges cs (xs @ ys) = Option.bind (check_trace edges cs xs) (\<lambda>cs'. check_trace edges cs' ys)"
  by (induction edges cs xs rule: check_trace.induct) (auto split: option.split)

lemma check_trace_length: "check_trace edges cs xs = Some cs' \<Longrightarrow> length cs' = length cs + length xs"
  by (induction edges cs xs arbitrary: cs' rule: check_trace.induct) (auto split: option.splits)

lemma check_node_sound:
  assumes "\<forall>(a, b, c, p) \<in> edges. f a - f b \<le> c" and "list_all (concludes f) cs" and "check_node edges cs node = Some c"
  shows "concludes f c"
proof (cases node)
  case (DEdge l r b premise)
  then show ?thesis using assms(1,3) by (auto simp: concludes_def split: if_splits)
next
  case (DCompose x y b)
  then have "x < length cs" "y < length cs" and eq: "fst (snd (cs ! x)) = fst (cs ! y)"
    "snd (snd (cs ! x)) + snd (snd (cs ! y)) = b" "c = (fst (cs ! x), fst (snd (cs ! y)), b)"
    using assms(3) by (auto split: if_splits)
  then have "concludes f (cs ! x)" "concludes f (cs ! y)" using assms(2) by (auto simp: list_all_length)
  then show ?thesis using eq by (cases "cs ! x"; cases "cs ! y") (auto simp: concludes_def)
qed

lemma check_trace_sound:
  "\<forall>(a, b, c, p) \<in> edges. f a - f b \<le> c \<Longrightarrow> list_all (concludes f) cs \<Longrightarrow>
    check_trace edges cs nodes = Some cs' \<Longrightarrow> list_all (concludes f) cs'"
proof (induction edges cs nodes arbitrary: cs' rule: check_trace.induct)
  case (2 edges cs node nodes)
  then obtain c where "check_node edges cs node = Some c" "check_trace edges (cs @ [c]) nodes = Some cs'"
    by (auto split: option.splits)
  then show ?case using 2(1) [of c cs'] 2(2,3) check_node_sound by simp
qed simp

definition closure_ok :: "edge set \<Rightarrow> nat \<Rightarrow> closure \<Rightarrow> bool" where
  "closure_ok edges n acc =
     (length (fst acc) = n \<and> (\<forall>i < n. length (fst acc ! i) = n) \<and>
      (\<exists>cs. check_trace edges [] (snd acc) = Some cs \<and>
        (\<forall>i < n. \<forall>j < n. \<forall>c p. mat (fst acc) i j = Some (c, p) \<longrightarrow> p < length cs \<and> cs ! p = (i, j, c))))"

lemma mat_set_get:
  "i < length m \<Longrightarrow> j < length (m ! i) \<Longrightarrow> a < length m \<Longrightarrow>
    mat (mat_set m i j c) a b = (if a = i \<and> b = j then c else mat m a b)"
  by (auto simp: mat_def mat_set_def nth_list_update)

lemma mat_set_dims:
  "length m = n \<Longrightarrow> \<forall>i < n. length (m ! i) = n \<Longrightarrow>
    length (mat_set m i j c) = n \<and> (\<forall>a < n. length (mat_set m i j c ! a) = n)"
  by (cases "i < n") (auto simp: mat_set_def nth_list_update)

lemma closure_ok_record:
  assumes ok: "closure_ok edges n (m, trace)" and ij: "i < n" "j < n"
    and node: "\<And>cs. check_trace edges [] trace = Some cs \<Longrightarrow>
      (\<forall>i < n. \<forall>j < n. \<forall>c p. mat m i j = Some (c, p) \<longrightarrow> p < length cs \<and> cs ! p = (i, j, c)) \<Longrightarrow>
      check_node edges cs nd = Some (i, j, c)"
  shows "closure_ok edges n (mat_set m i j (Some (c, length trace)), trace @ [nd])"
proof -
  obtain cs where cs: "check_trace edges [] trace = Some cs"
    and cells: "\<forall>i < n. \<forall>j < n. \<forall>c p. mat m i j = Some (c, p) \<longrightarrow> p < length cs \<and> cs ! p = (i, j, c)"
    and dims: "length m = n" "\<forall>i < n. length (m ! i) = n"
    using ok by (auto simp: closure_ok_def)
  have "check_trace edges [] (trace @ [nd]) = Some (cs @ [(i, j, c)])"
    using cs node [OF cs cells] by (simp add: check_trace_append)
  moreover have "length cs = length trace" using check_trace_length [OF cs] by simp
  moreover have "p < length (cs @ [(i, j, c)]) \<and> (cs @ [(i, j, c)]) ! p = (a, b, k)"
    if "a < n" "b < n" "mat (mat_set m i j (Some (c, length trace))) a b = Some (k, p)" for a b k p
    using that cells dims ij \<open>length cs = length trace\<close> mat_set_get [of i m j a "Some (c, length trace)" b]
    by (auto simp: nth_append split: if_splits)
  ultimately show ?thesis
    using mat_set_dims [OF dims] unfolding closure_ok_def fst_conv snd_conv by blast
qed

lemma seed_edge_ok:
  assumes run: "seed_edge e acc q = (Inr acc', q')" and ok: "closure_ok edges n acc" and e: "e \<in> edges"
    and range: "fst e < n" "fst (snd e) < n"
  shows "closure_ok edges n acc' \<and> q_core q' = q_core q"
proof -
  obtain a b c pr where e': "e = (a, b, c, pr)" by (cases e) auto
  obtain m trace where acc: "acc = (m, trace)" by (cases acc)
  obtain x q1 where t: "tick q = (Inr x, q1)"
    and rest: "(if improves (mat m a b) c then
            es_bind (record_node trace (DEdge a b c pr)) (\<lambda>(proof', trace).
            es_return (mat_set m a b (Some (c, proof')), trace))
          else es_return acc) q1 = (Inr acc', q')"
    using run unfolding seed_edge_def es_then_def es_bind_Inr e' acc fst_conv snd_conv prod.case by blast
  note core = tick_core [OF t]
  show ?thesis
  proof (cases "improves (mat m a b) c")
    case True
    then obtain p trace' where r: "record_node trace (DEdge a b c pr) q1 = (Inr (p, trace'), q')"
      and acc': "acc' = (mat_set m a b (Some (c, p)), trace')"
      using rest by (auto simp: es_bind_Inr es_simps)
    have "closure_ok edges n (mat_set m a b (Some (c, length trace)), trace @ [DEdge a b c pr])"
      by (rule closure_ok_record [OF ok [unfolded acc]]) (use e range e' in auto)
    then show ?thesis using record_node_core [OF r] core acc' by simp
  next
    case False
    then show ?thesis using rest ok core by (auto simp: es_simps)
  qed
qed

lemma relax_cell_ok:
  assumes run: "relax_cell kij acc q = (Inr acc', q')" and ok: "closure_ok edges n acc"
    and range: "fst kij < n" "fst (snd kij) < n" "snd (snd kij) < n"
  shows "closure_ok edges n acc' \<and> q_core q' = q_core q"
proof -
  obtain k i j where kij: "kij = (k, i, j)" by (cases kij) auto
  obtain m trace where acc: "acc = (m, trace)" by (cases acc)
  obtain u q1 where t: "tick q = (Inr u, q1)"
    and rest: "(case (mat m i k, mat m k j) of
            (Some (a, first), Some (b, second)) \<Rightarrow>
              es_bind (es_lift (ok_or ArithmeticOverflow (i128_checked_add a b))) (\<lambda>c.
              if improves (mat m i j) c then
                es_bind (record_node trace (DCompose first second c)) (\<lambda>(proof', trace).
                es_return (mat_set m i j (Some (c, proof')), trace))
              else es_return acc)
          | _ \<Rightarrow> es_return acc) q1 = (Inr acc', q')"
    using run unfolding relax_cell_def es_then_def es_bind_Inr kij acc fst_conv snd_conv prod.case by blast
  note core = tick_core [OF t]
  show ?thesis
  proof (cases "mat m i k = None \<or> mat m k j = None")
    case True
    then show ?thesis using rest ok core by (auto simp: es_simps split: option.splits prod.splits)
  next
    case False
    then obtain a x b y where cells: "mat m i k = Some (a, x)" "mat m k j = Some (b, y)" by auto
    show ?thesis
    proof (cases "improves (mat m i j) (a + b)")
      case True
      then obtain p trace' where r: "record_node trace (DCompose x y (a + b)) q1 = (Inr (p, trace'), q')"
        and acc': "acc' = (mat_set m i j (Some (a + b, p)), trace')"
        using rest cells by (auto simp: es_bind_Inr es_simps dest!: checked_arith)
      have "closure_ok edges n (mat_set m i j (Some (a + b, length trace)), trace @ [DCompose x y (a + b)])"
      proof (rule closure_ok_record [OF ok [unfolded acc]])
        fix cs
        assume "\<forall>i < n. \<forall>j < n. \<forall>c p. mat m i j = Some (c, p) \<longrightarrow> p < length cs \<and> cs ! p = (i, j, c)"
        then have "x < length cs \<and> cs ! x = (i, k, a)" "y < length cs \<and> cs ! y = (k, j, b)"
          using cells range kij by auto
        then show "check_node edges cs (DCompose x y (a + b)) = Some (i, j, a + b)" by simp
      qed (use range kij in auto)
      then show ?thesis using record_node_core [OF r] core acc' by simp
    next
      case False
      then show ?thesis using rest ok core cells by (auto simp: es_bind_Inr es_simps dest!: checked_arith)
    qed
  qed
qed

lemma fold_closure:
  assumes "\<And>x acc q acc' q'. x \<in> set xs \<Longrightarrow> f x acc q = (Inr acc', q') \<Longrightarrow> closure_ok edges n acc \<Longrightarrow>
      closure_ok edges n acc' \<and> q_core q' = q_core q"
    and "es_fold f xs acc q = (Inr acc', q')" and "closure_ok edges n acc"
  shows "closure_ok edges n acc' \<and> q_core q' = q_core q"
proof -
  have triple: "es_triple (\<lambda>s. closure_ok edges n acc \<and> q_core s = q_core q) (es_fold f xs acc)
      (\<lambda>a s. closure_ok edges n a \<and> q_core s = q_core q)"
    by (rule es_fold_prefix [where I = "\<lambda>_ a s. closure_ok edges n a \<and> q_core s = q_core q"])
      (use assms(1) in \<open>fastforce simp: es_triple_def\<close>)
  show ?thesis by (rule es_tripleD [OF triple _ assms(2)]) (simp add: assms(3))
qed

lemma find_contradiction_Some:
  assumes "find_contradiction m n = Some p"
  shows "\<exists>i c. i < n \<and> mat m i i = Some (c, p) \<and> c < 0"
proof -
  have "p \<in> set (List.map_filter (\<lambda>i. case mat m i i of
          Some (c, p) \<Rightarrow> if c < 0 then Some p else None | None \<Rightarrow> None) [0..<n])"
    using assms by (auto simp: find_contradiction_def split: list.splits)
  then show ?thesis by (force simp: List.map_filter_def split: option.splits if_splits)
qed

lemma close_rounds_ok:
  assumes "close_rounds ks n acc q = (Inr (contradiction, acc'), q')" and "closure_ok edges n acc"
    and "\<forall>k \<in> set ks. k < n"
  shows "closure_ok edges n acc' \<and> q_core q' = q_core q \<and>
    (\<forall>p. contradiction = Some p \<longrightarrow> (\<exists>i c. i < n \<and> mat (fst acc') i i = Some (c, p) \<and> c < 0))"
  using assms
proof (induction ks arbitrary: acc q)
  case (Cons k ks)
  obtain acc1 q1 where f: "es_fold relax_cell (map (\<lambda>(i, j). (k, i, j)) (List.product [0..<n] [0..<n])) acc q = (Inr acc1, q1)"
    and rest: "(case find_contradiction (fst acc1) n of
       Some p \<Rightarrow> es_return (Some p, acc1) | None \<Rightarrow> close_rounds ks n acc1) q1 = (Inr (contradiction, acc'), q')"
    using Cons.prems(1) by (auto simp: es_bind_Inr)
  have ok1: "closure_ok edges n acc1 \<and> q_core q1 = q_core q"
    by (rule fold_closure [OF _ f Cons.prems(2)], rule relax_cell_ok) (use Cons.prems(3) in auto)
  show ?case
  proof (cases "find_contradiction (fst acc1) n")
    case None
    then show ?thesis using Cons.IH [of acc1 q1] rest ok1 Cons.prems(3) by simp
  next
    case (Some p)
    then show ?thesis using rest ok1 find_contradiction_Some [OF Some] by (auto simp: es_simps)
  qed
qed (auto simp: es_simps)


lemma closure_bound:
  assumes "closure_ok edges n acc" and "\<forall>(a, b, c, p) \<in> edges. f a - f b \<le> c"
    and "i < n" and "j < n" and "mat (fst acc) i j = Some (c, p)"
  shows "f i - f j \<le> c"
proof -
  obtain cs where cs: "check_trace edges [] (snd acc) = Some cs" "p < length cs \<and> cs ! p = (i, j, c)"
    using assms(1,3-5) unfolding closure_ok_def by blast
  have "list_all (concludes f) cs" by (rule check_trace_sound [OF assms(2) _ cs(1)]) simp
  then have "concludes f (cs ! p)" using cs(2) by (metis list_all_length)
  then show ?thesis using cs(2) by (simp add: concludes_def)
qed

section \<open>One branch\<close>

text \<open>A model takes the choices of a branch when each selects the direction the model has.\<close>

definition follows :: "word_model \<Rightarrow> ('m relation_term \<times> 'm relation_term \<times> usize) list \<Rightarrow> bool list \<Rightarrow> bool" where
  "follows \<rho> diseqs choices =
     (length choices = length diseqs \<and>
      (\<forall>i < length diseqs. choices ! i \<longleftrightarrow> term_val \<rho> (fst (diseqs ! i)) < term_val \<rho> (fst (snd (diseqs ! i)))))"

lemma branch_edge_ok:
  assumes run: "branch_edge (i, ch) edges q = (Inr edges', q')" and inv: "q_inv \<rho> q"
    and i: "i < length (q_disequalities q)"
    and ch: "ch \<longleftrightarrow> term_val \<rho> (fst (q_disequalities q ! i)) < term_val \<rho> (fst (snd (q_disequalities q ! i)))"
  shows "q' = q \<and> (\<exists>e. edges' = edges @ [e] \<and> edge_ok \<rho> (q_variables q) e)"
proof -
  obtain l r origin where d: "q_disequalities q ! i = (l, r, origin)" by (cases "q_disequalities q ! i") auto
  have "diseq_ok \<rho> (q_variables q) (l, r, origin)" using inv i d by (metis list_all_length q_inv_def)
  then have reg: "term_reg (q_variables q) l" "term_reg (q_variables q) r" and ne: "term_val \<rho> l \<noteq> term_val \<rho> r"
    by (auto simp: diseq_ok_def)
  have edge: "q' = q \<and> (term_val \<rho> x - term_val \<rho> y \<le> - 1 \<longrightarrow> edge_ok \<rho> (q_variables q) e)"
    if h: "make_edge x y (- 1) origin q = (Inr e, q')" "term_reg (q_variables q) x" "term_reg (q_variables q) y" for x y e
    using make_edge_reg [OF h(1) inv h(2,3)] by (auto simp: edge_ok_def)
  show ?thesis
  proof (cases ch)
    case True
    then obtain e where "make_edge l r (- 1) origin q = (Inr e, q')" "edges' = edges @ [e]"
      using run d by (auto simp: branch_edge_def es_bind_Inr es_simps)
    then show ?thesis using edge [of l r e] reg ch d True by simp
  next
    case False
    then obtain e where "make_edge r l (- 1) origin q = (Inr e, q')" "edges' = edges @ [e]"
      using run d by (auto simp: branch_edge_def es_bind_Inr es_simps)
    then show ?thesis using edge [of r l e] reg ch d False ne by simp
  qed
qed

lemma branch_edges_ok:
  assumes run: "es_fold branch_edge (List.enumerate 0 choices) edges q = (Inr edges', q')" and inv: "q_inv \<rho> q"
    and follow: "follows \<rho> (q_disequalities q) choices" and ok: "list_all (edge_ok \<rho> (q_variables q)) edges"
  shows "q' = q \<and> list_all (edge_ok \<rho> (q_variables q)) edges'"
proof -
  let ?I = "\<lambda>_ es s. s = q \<and> list_all (edge_ok \<rho> (q_variables q)) es"
  have step: "es_triple (?I ys es) (branch_edge x es) (?I (ys @ [x]))"
    if h: "List.enumerate 0 choices = ys @ x # zs" for ys x zs es
  proof -
    have "x \<in> set (List.enumerate 0 choices)" unfolding h by simp
    then have "x = (fst x, choices ! fst x)" "fst x < length choices"
      by (simp_all add: in_set_enumerate_eq prod_eq_iff)
    then obtain i where x: "x = (i, choices ! i)" "i < length choices" by metis
    then have i: "i < length (q_disequalities q)"
      "choices ! i \<longleftrightarrow> term_val \<rho> (fst (q_disequalities q ! i)) < term_val \<rho> (fst (snd (q_disequalities q ! i)))"
      using follow by (simp_all add: follows_def)
    show ?thesis unfolding es_triple_def x(1) using branch_edge_ok [OF _ inv i] by fastforce
  qed
  have triple: "es_triple (?I [] edges) (es_fold branch_edge (List.enumerate 0 choices) edges) (?I (List.enumerate 0 choices))"
    by (rule es_fold_prefix [of _ ?I]) (rule step)
  show ?thesis by (rule es_tripleD [OF triple _ run]) (simp add: ok)
qed

lemma vertex_names_lookup:
  "distinct (map snd vars) \<Longrightarrow> i < length names \<Longrightarrow>
    fold (\<lambda>(v, i) names. names[i := Some v]) vars names ! i =
      (case map_of (map (\<lambda>(v, j). (j, v)) vars) i of Some v \<Rightarrow> Some v | None \<Rightarrow> names ! i)"
proof (induction vars arbitrary: names)
  case (Cons p vars)
  obtain v j where p: "p = (v, j)" by force
  have "map_of (map (\<lambda>(v, j). (j, v)) vars) j = None"
    using Cons.prems(1) by (auto simp: p map_of_eq_None_iff image_def)
  then show ?case using Cons by (auto simp: p nth_list_update split: option.split)
qed simp

lemma vertex_names_lab:
  assumes "vars_ok vars" and "i < n"
  shows "term_val \<rho> (case vertex_names vars n ! i of Some v \<Rightarrow> relation_word v | None \<Rightarrow> RConstant 0) = lab \<rho> vars i"
  using assms vertex_names_lookup [of vars i "replicate n None"]
  by (auto simp: vertex_names_def vars_ok_def lab_def relation_word_def split: option.split)

lemma exported_bounds_ok:
  assumes ok: "vars_ok vars" and n: "n = length vars + 1" and b: "b \<in> set (exported_bounds m vars n)"
    and cells: "\<And>i j c p. i < n \<Longrightarrow> j < n \<Longrightarrow> mat m i j = Some (c, p) \<Longrightarrow> lab \<rho> vars i - lab \<rho> vars j \<le> c"
  shows "premise_true \<rho> (bound_premise b)"
proof -
  obtain i j where ij: "i < n" "j < n" and e: "exported_bound m (vertex_names vars n) (i, j) = Some b"
    using b by (auto simp: exported_bounds_def List.map_filter_def)
  then obtain p where "mat m i j = Some (db_bound b, p)"
    and names: "db_left b = vertex_names vars n ! i" "db_right b = vertex_names vars n ! j"
    by (auto simp: exported_bound_def split: if_splits option.splits)
  then have "lab \<rho> vars i - lab \<rho> vars j \<le> db_bound b" using cells ij by blast
  then show ?thesis
    unfolding bound_premise_def premise_true.simps names vertex_names_lab [OF ok ij(1)] vertex_names_lab [OF ok ij(2)]
    by simp
qed

text \<open>What a finished branch promises of a model that takes its choices.\<close>

definition branch_sound :: "word_model \<Rightarrow> 'm difference_goal \<Rightarrow> difference_branch \<Rightarrow> bool" where
  "branch_sound \<rho> goal br =
     (dbr_contradiction br = None \<and> (dbr_status br = Proven \<longrightarrow> goal_true \<rho> goal) \<and>
      (dbr_status br = Refuted \<longrightarrow> \<not> goal_true \<rho> goal) \<and>
      (\<forall>b \<in> set (dbr_bounds br). premise_true \<rho> (bound_premise b :: 'm difference_premise)))"

lemma verdict_status_sound:
  fixes x y :: int
  assumes "le \<Longrightarrow> x \<le> y" "lt \<Longrightarrow> x < y" "ge \<Longrightarrow> y \<le> x" "gt \<Longrightarrow> y < x"
  shows "(verdict_status cmp le lt ge gt = Proven \<longrightarrow> compare_holds cmp x y) \<and>
    (verdict_status cmp le lt ge gt = Refuted \<longrightarrow> \<not> compare_holds cmp x y)"
  using assms by (cases cmp) (fastforce simp: verdict_status_def split: if_splits)+

lemma judge_goal_ok:
  fixes goal :: "'m difference_goal"
  assumes run: "judge_goal goal choices m trace n q = (Inr br, q')" and inv: "q_inv \<rho> q"
    and reg: "term_reg (q_variables q) (dg_left goal)" "term_reg (q_variables q) (dg_right goal)"
    and n: "n = length (q_variables q) + 1"
    and cells: "\<And>i j c p. i < n \<Longrightarrow> j < n \<Longrightarrow> mat m i j = Some (c, p) \<Longrightarrow>
      lab \<rho> (q_variables q) i - lab \<rho> (q_variables q) j \<le> c"
  shows "q' = q \<and> branch_sound \<rho> goal br \<and> dbr_choices br = choices"
proof -
  obtain p q1 p2 q2 bound where t1: "term_vertex (dg_left goal) q = (Inr p, q1)"
    and t2: "term_vertex (dg_right goal) q1 = (Inr p2, q2)" and bound: "bound = snd p2 - snd p" and q2: "q' = q2"
    and br: "br = \<lparr>dbr_choices = choices, dbr_derivation = trace, dbr_contradiction = None,
       dbr_status = verdict_status (dg_comparison goal) (implied m (fst p) (fst p2) bound) (implied m (fst p) (fst p2) (bound - 1))
         (implied m (fst p2) (fst p) (- bound)) (implied m (fst p2) (fst p) (- bound - 1)),
       dbr_bounds = exported_bounds m (q_variables q2) n\<rparr>"
    using run by (auto simp: judge_goal_def es_bind_Inr es_simps dest!: checked_arith)
  have q1: "q1 = q" by (rule term_vertex_reg [OF t1 reg(1)])
  have q': "q2 = q" using term_vertex_reg [OF t2] reg(2) q1 by simp
  have d1: "vertex_denotes \<rho> q (dg_left goal) p" and d2: "vertex_denotes \<rho> q (dg_right goal) p2"
    using term_vertex_step [OF t1 inv] term_vertex_step [OF t2, of \<rho>] inv q1 q' by auto
  have imp: "lab \<rho> (q_variables q) i - lab \<rho> (q_variables q) j \<le> c" if "implied m i j c" "i < n" "j < n" for i j c
    using that cells [of i j] by (fastforce simp: implied_def split: option.splits)
  have "(dbr_status br = Proven \<longrightarrow> goal_true \<rho> goal) \<and> (dbr_status br = Refuted \<longrightarrow> \<not> goal_true \<rho> goal)"
    unfolding br goal_true_def difference_branch.simps
    by (rule verdict_status_sound)
      (use imp [of "fst p" "fst p2"] imp [of "fst p2" "fst p"] d1 d2 n bound in \<open>fastforce simp: vertex_denotes_def\<close>)+
  moreover have "premise_true \<rho> (bound_premise b :: 'm difference_premise)" if "b \<in> set (dbr_bounds br)" for b
    by (rule exported_bounds_ok [OF _ n _ cells, of b m]) (use that inv q' in \<open>auto simp: br q_inv_def\<close>)
  ultimately show ?thesis using q2 q' by (simp add: branch_sound_def br)
qed

lemma branch_ok:
  assumes run: "branch choices goal q = (Inr br, q')" and inv: "q_inv \<rho> q"
    and reg: "term_reg (q_variables q) (dg_left goal)" "term_reg (q_variables q) (dg_right goal)"
    and follow: "follows \<rho> (q_disequalities q) choices"
  shows "q_core q' = q_core q \<and> branch_sound \<rho> goal br \<and> dbr_choices br = choices"
proof -
  let ?n = "length (q_variables q) + 1" and ?f = "lab \<rho> (q_variables q)"
  obtain edges q0 where fold: "es_fold branch_edge (List.enumerate 0 choices) (q_edges q) q = (Inr edges, q0)"
    using run by (auto simp: branch_def es_bind_Inr es_simps)
  have ok0: "q0 = q" and eok: "list_all (edge_ok \<rho> (q_variables q)) edges"
    using branch_edges_ok [OF fold inv follow] inv by (auto simp: q_inv_def)
  let ?seeds = "edges @ map (\<lambda>i. (i, i, 0, None)) [0..<?n]"
  obtain seeded q1 contradiction m trace q2
    where s: "es_fold seed_edge ?seeds (replicate ?n (replicate ?n None), []) q = (Inr seeded, q1)"
      and c: "close_rounds [0..<?n] ?n seeded q1 = (Inr (contradiction, m, trace), q2)"
      and rest: "(case contradiction of
         Some p \<Rightarrow> es_return \<lparr>dbr_choices = choices, dbr_derivation = trace, dbr_contradiction = Some p,
             dbr_status = Unknown, dbr_bounds = []\<rparr>
       | None \<Rightarrow> judge_goal goal choices m trace ?n) q2 = (Inr br, q')"
    using run fold ok0
    by (auto simp: branch_def es_bind_Inr es_simps Let_def simp del: One_nat_def split: if_splits)
  have init: "closure_ok (set ?seeds) ?n (replicate ?n (replicate ?n None), [])"
    by (simp add: closure_ok_def mat_def del: replicate_Suc)
  have seeds: "fst e < ?n \<and> fst (snd e) < ?n \<and> ?f (fst e) - ?f (fst (snd e)) \<le> fst (snd (snd e))" if "e \<in> set ?seeds" for e
    using that eok by (auto simp: list_all_iff edge_ok_def)
  have s_ok: "closure_ok (set ?seeds) ?n seeded \<and> q_core q1 = q_core q"
    by (rule fold_closure [OF _ s init], rule seed_edge_ok) (use seeds in auto)
  have c_ok: "closure_ok (set ?seeds) ?n (m, trace) \<and> q_core q2 = q_core q1 \<and>
      (\<forall>p. contradiction = Some p \<longrightarrow> (\<exists>i c. i < ?n \<and> mat m i i = Some (c, p) \<and> c < 0))"
    using close_rounds_ok [OF c conjunct1 [OF s_ok]] by simp
  have sat: "\<forall>(a, b, c, p) \<in> set ?seeds. ?f a - ?f b \<le> c"
    by (intro ballI, clarify, drule seeds) simp
  have cells: "?f i - ?f j \<le> c" if h: "i < ?n" "j < ?n" "mat m i j = Some (c, p)" for i j c p
    by (rule closure_bound [OF conjunct1 [OF c_ok] sat h(1,2)]) (simp add: h(3))
  have none: "contradiction = None"
  proof (rule ccontr)
    assume "contradiction \<noteq> None"
    then obtain i c p where "i < ?n" "mat m i i = Some (c, p)" "c < 0" using c_ok by blast
    then show False using cells [of i i c p] by simp
  qed
  have core: "q_core q2 = q_core q" using s_ok c_ok by simp
  then have vars: "q_variables q2 = q_variables q" by (simp add: q_core_def)
  have judge: "judge_goal goal choices m trace ?n q2 = (Inr br, q')" using rest none by (simp only: option.case)
  have "q' = q2 \<and> branch_sound \<rho> goal br \<and> dbr_choices br = choices"
    by (rule judge_goal_ok [OF judge])
      (use cells reg inv q_inv_core [OF core, of \<rho>] in \<open>simp_all only: vars\<close>)
  then show ?thesis using core by simp
qed

end
