(* ===== verification/Difference_Plan.thy ===== *)
theory Difference_Plan
  imports Difference_Sound
begin

text \<open>
  The splitting plan of \<open>difference/splits.rs\<close> loses no model, and the verdicts of the solver hold in
  every model of its premises. Repeated observations of one disequality share a bit of the branch
  number; the proof chooses the branch number from the truth of the shared edges.
\<close>

section \<open>Folds that leave the constraints alone\<close>

lemma core_fold:
  assumes step: "\<And>ys x zs a q1 a' q2. xs = ys @ x # zs \<Longrightarrow> f x a q1 = (Inr a', q2) \<Longrightarrow> q_core q1 = q_core q \<Longrightarrow>
      I ys a \<Longrightarrow> I (ys @ [x]) a' \<and> q_core q2 = q_core q"
    and run: "es_fold f xs a q = (Inr a', q')" and start: "I [] a"
  shows "I xs a' \<and> q_core q' = q_core q"
proof -
  let ?J = "\<lambda>ys a s. I ys a \<and> q_core s = q_core q"
  have triple: "es_triple (?J [] a) (es_fold f xs a) (?J xs)"
    by (rule es_fold_prefix [of _ ?J]) (use step in \<open>unfold es_triple_def, blast\<close>)
  show ?thesis by (rule es_tripleD [OF triple _ run]) (simp add: start)
qed

lemma q_inv_core_eq: "q_core q1 = q_core q \<Longrightarrow> q_inv \<rho> q \<Longrightarrow> q_inv \<rho> q1"
  using q_inv_core by blast

section \<open>Collected bounds\<close>

definition bounds_ok :: "word_model \<Rightarrow> (vir_value_id, usize) btmap \<Rightarrow> (usize \<times> usize, i128) btmap \<Rightarrow> bool" where
  "bounds_ok \<rho> vars bounds =
     (bt_sorted bounds \<and> (\<forall>a b c. bt_get bounds (a, b) = Some c \<longrightarrow> edge_ok \<rho> vars (a, b, c, None)))"

lemma bounds_ok_entry: "bounds_ok \<rho> vars bounds \<Longrightarrow> ((a, b), c) \<in> set bounds \<Longrightarrow> edge_ok \<rho> vars (a, b, c, None)"
proof -
  assume ok: "bounds_ok \<rho> vars bounds" and entry: "((a, b), c) \<in> set bounds"
  then have "map_of bounds (a, b) = Some c"
    by (auto simp: bounds_ok_def bt_sorted_def strict_sorted_iff intro: map_of_is_SomeI)
  then show ?thesis using ok by (simp add: bounds_ok_def bt_get_map_of)
qed

lemma collect_bound_ok:
  assumes run: "collect_bound i bounds q = (Inr bounds', q')" and inv: "q_inv \<rho> q"
    and i: "i < length (q_edges q)" and ok: "bounds_ok \<rho> (q_variables q) bounds"
  shows "bounds_ok \<rho> (q_variables q) bounds' \<and> q_core q' = q_core q"
proof -
  obtain a b c p where e: "q_edges q ! i = (a, b, c, p)" by (cases "q_edges q ! i") auto
  obtain x q1 where t: "tick q = (Inr x, q1)"
    and rest: "es_bind (es_gets (\<lambda>q. q_edges q ! i)) (\<lambda>(a, b, bound, _).
        es_return (bt_insert (a, b)
          (case bt_get bounds (a, b) of Some old \<Rightarrow> min old bound | None \<Rightarrow> bound) bounds)) q1 =
        (Inr bounds' :: difference_stop + _, q')"
    using run unfolding collect_bound_def es_then_def es_bind_Inr [of tick] by blast
  note core = tick_core [OF t]
  then have "q_edges q1 ! i = (a, b, c, p)" using e by (simp add: q_core_def)
  then have res: "q' = q1"
    "bounds' = bt_insert (a, b) (case bt_get bounds (a, b) of Some old \<Rightarrow> min old c | None \<Rightarrow> c) bounds"
    using rest by (simp_all add: es_bind_def es_simps)
  have new: "edge_ok \<rho> (q_variables q) (a, b, c, p)" using inv i e by (metis list_all_length q_inv_def)
  have old: "edge_ok \<rho> (q_variables q) (a', b', c', None)" if "bt_get bounds (a', b') = Some c'" for a' b' c'
    using ok that by (simp add: bounds_ok_def)
  have sorted: "bt_sorted bounds" using ok by (simp add: bounds_ok_def)
  have "edge_ok \<rho> (q_variables q) (a', b', c', None)" if h: "bt_get bounds' (a', b') = Some c'" for a' b' c'
    using h new old unfolding res(2) bt.get_insert [OF sorted]
    by (auto simp: edge_ok_def min_def split: if_splits option.splits)
  then show ?thesis using core sorted by (simp add: bounds_ok_def res)
qed

section \<open>Classes of equal vertices\<close>

definition classes_ok :: "(usize \<Rightarrow> int) \<Rightarrow> nat \<Rightarrow> usize list \<Rightarrow> bool" where
  "classes_ok f n classes = (length classes = n \<and> (\<forall>i < n. \<forall>j < n. classes ! i = classes ! j \<longrightarrow> f i = f j))"

lemma merge_class_run:
  assumes "merge_class low high classes q = (Inr classes', q')"
  shows "classes' = map (\<lambda>c. if c = high then low else c) classes \<and> q_core q' = q_core q"
proof (rule core_fold [OF _ assms [unfolded merge_class_def],
    where I = "\<lambda>ys acc. acc = map (\<lambda>c. if c = high then low else c) ys"])
  fix ys x zs a q1 a' q2
  assume run: "es_then tick (es_return (a @ [if x = high then low else x])) q1 = (Inr a', q2)"
    and "q_core q1 = q_core q" "a = map (\<lambda>c. if c = high then low else c) ys"
  then show "a' = map (\<lambda>c. if c = high then low else c) (ys @ [x]) \<and> q_core q2 = q_core q"
    using tick_core [of q1 "()" q2] by (auto simp: es_then_def es_bind_Inr es_simps)
qed simp

lemma merged_classes_ok:
  assumes ok: "classes_ok f n classes" and ab: "a < n" "b < n" "f a = f b"
  shows "classes_ok f n (map (\<lambda>c. if c = max (classes ! a) (classes ! b) then min (classes ! a) (classes ! b) else c) classes)"
proof -
  have len: "length classes = n" using ok by (simp add: classes_ok_def)
  have eq: "classes ! i = classes ! j \<Longrightarrow> f i = f j" if "i < n" "j < n" for i j
    using ok that unfolding classes_ok_def by blast
  have pair: "f i = f a" if "i < n" "classes ! i = classes ! a \<or> classes ! i = classes ! b" for i
    using that eq [of i a] eq [of i b] ab by metis
  define merged where "merged c = (c = classes ! a \<or> c = classes ! b)" for c
  have img: "(if c = max (classes ! a) (classes ! b) then min (classes ! a) (classes ! b) else c) =
      (if merged c then min (classes ! a) (classes ! b) else c)" for c
    by (simp add: merged_def min_def max_def)
  have low: "merged (min (classes ! a) (classes ! b))" by (simp add: merged_def min_def)
  have same: "f i = f j" if h: "i < n" "j < n"
    "(if merged (classes ! i) then min (classes ! a) (classes ! b) else classes ! i) =
     (if merged (classes ! j) then min (classes ! a) (classes ! b) else classes ! j)" for i j
  proof (cases "merged (classes ! i)")
    case True
    then have "merged (classes ! j)" using h(3) low by (metis (full_types))
    then show ?thesis using True pair h(1,2) unfolding merged_def by metis
  next
    case False
    then have "\<not> merged (classes ! j)" using h(3) low by (metis (full_types))
    then show ?thesis using False h(3) eq [OF h(1,2)] by simp
  qed
  show ?thesis unfolding classes_ok_def img length_map len
  proof (intro conjI allI impI refl)
    fix i j
    assume ij: "i < n" "j < n" and eq': "map (\<lambda>c. if merged c then min (classes ! a) (classes ! b) else c) classes ! i =
      map (\<lambda>c. if merged c then min (classes ! a) (classes ! b) else c) classes ! j"
    have "i < length classes" "j < length classes" using ij len by auto
    from eq' [unfolded nth_map [OF this(1)] nth_map [OF this(2)]] show "f i = f j" by (rule same [OF ij])
  qed
qed

lemma merge_classes_ok:
  assumes run: "merge_classes bounds entry classes q = (Inr classes', q')" and "entry \<in> set bounds"
    and bounds: "bounds_ok \<rho> vars bounds" and ok: "classes_ok (lab \<rho> vars) (length vars + 1) classes"
  shows "classes_ok (lab \<rho> vars) (length vars + 1) classes' \<and> q_core q' = q_core q"
proof -
  obtain a b c where entry: "entry = ((a, b), c)" by (cases entry) auto
  let ?merge = "c \<le> 0 \<and> (case bt_get bounds (b, a) of Some reverse \<Rightarrow> reverse \<le> 0 | None \<Rightarrow> False)"
  obtain x q1 where t: "tick q = (Inr x, q1)"
    and rest: "(if ?merge then merge_class (min (classes ! a) (classes ! b)) (max (classes ! a) (classes ! b)) classes
        else es_return classes) q1 = (Inr classes', q')"
    using run unfolding merge_classes_def es_then_def es_bind_Inr entry prod.case by blast
  show ?thesis
  proof (cases ?merge)
    case False
    then show ?thesis using rest ok tick_core [OF t] by (auto simp: es_simps)
  next
    case True
    then obtain d where d: "bt_get bounds (b, a) = Some d" "d \<le> 0" "c \<le> 0" by (auto split: option.splits)
    have m: "merge_class (min (classes ! a) (classes ! b)) (max (classes ! a) (classes ! b)) classes q1 = (Inr classes', q')"
      using rest True by simp
    have "edge_ok \<rho> vars (a, b, c, None)" using bounds_ok_entry [OF bounds] assms(2) entry by simp
    moreover have "edge_ok \<rho> vars (b, a, d, None)" using bounds d(1) by (simp add: bounds_ok_def)
    ultimately have "a < length vars + 1" "b < length vars + 1" "lab \<rho> vars a = lab \<rho> vars b"
      using d by (auto simp: edge_ok_def)
    then show ?thesis using merge_class_run [OF m] merged_classes_ok [OF ok] tick_core [OF t] by simp
  qed
qed

section \<open>Choices\<close>

text \<open>An edge between classes is true when it holds between some members, hence between all.\<close>

definition class_true :: "(usize \<Rightarrow> int) \<Rightarrow> usize list \<Rightarrow> usize \<times> usize \<times> i128 \<Rightarrow> bool" where
  "class_true f classes e =
     (\<exists>a < length classes. \<exists>b < length classes. classes ! a = fst e \<and> classes ! b = fst (snd e) \<and> f a - f b \<le> snd (snd e))"

lemma class_true_edge:
  assumes "classes_ok f n classes" and "a < n" and "b < n"
  shows "class_true f classes (class_edge classes (a, b, c, p)) \<longleftrightarrow> f a - f b \<le> c"
proof -
  have "f a' = f a \<and> f b' = f b" if "a' < length classes" "b' < length classes"
    "classes ! a' = classes ! a" "classes ! b' = classes ! b" for a' b'
    using assms that unfolding classes_ok_def by blast
  moreover have "length classes = n" using assms(1) by (simp add: classes_ok_def)
  ultimately show ?thesis
    using assms(2,3) unfolding class_true_def class_edge_def prod.case fst_conv snd_conv by metis
qed

definition groups_ok :: "(split_key, usize) btmap \<Rightarrow> bool" where
  "groups_ok groups =
     (bt_sorted groups \<and> (\<forall>key k. bt_get groups key = Some k \<longrightarrow> k < length groups) \<and>
      (\<forall>key key' k. bt_get groups key = Some k \<longrightarrow> bt_get groups key' = Some k \<longrightarrow> key = key'))"

fun choice_ok :: "(usize \<times> usize \<times> i128 \<Rightarrow> bool) \<Rightarrow> (split_key, usize) btmap \<Rightarrow> bool \<Rightarrow> choice \<Rightarrow> bool" where
  "choice_ok T groups d (Fixed v) = (v = d)"
| "choice_ok T groups d (Split k inverted) = (\<exists>key. bt_get groups key = Some k \<and> d = (T (fst key) \<noteq> inverted))"

lemma choice_ok_mono:
  "choice_ok T groups d c \<Longrightarrow> (\<And>key k. bt_get groups key = Some k \<Longrightarrow> bt_get groups' key = Some k) \<Longrightarrow>
    choice_ok T groups' d c"
  by (cases c, simp) (simp only: choice_ok.simps, blast)

lemma groups_ok_insert:
  assumes "groups_ok groups" and "bt_get groups key = None"
  shows "groups_ok (bt_insert key (length groups) groups) \<and>
    (\<forall>key' k. bt_get groups key' = Some k \<longrightarrow> bt_get (bt_insert key (length groups) groups) key' = Some k)"
proof -
  have sorted: "bt_sorted groups" using assms(1) by (simp add: groups_ok_def)
  obtain xs ys where "groups = xs @ ys" "bt_insert key (length groups) groups = xs @ (key, length groups) # ys"
    using bt_insert_fresh [OF assms(2) sorted] by blast
  then have len: "length (bt_insert key (length groups) groups) = Suc (length groups)" by (metis length_append length_Cons add_Suc_right)
  let ?new = "bt_insert key (length groups) groups"
  have old: "bt_get groups key' = Some k \<Longrightarrow> k < length groups" for key' k
    using assms(1) unfolding groups_ok_def by blast
  have inj: "bt_get groups key' = Some k \<Longrightarrow> bt_get groups key'' = Some k \<Longrightarrow> key' = key''" for key' key'' k
    using assms(1) unfolding groups_ok_def by blast
  have new: "bt_get ?new key' = (if key' = key then Some (length groups) else bt_get groups key')" for key'
    by (simp only: bt.get_insert [OF sorted] bt_get_insert_same split: if_split)
  have "bt_get ?new key' = Some k \<Longrightarrow> k < length ?new" for key' k
    unfolding new len using old [of key' k] by (metis less_Suc_eq option.inject)
  moreover have "bt_get ?new key' = Some k \<Longrightarrow> bt_get ?new key'' = Some k \<Longrightarrow> key' = key''" for key' key'' k
    unfolding new using old [of key' k] old [of key'' k] inj [of key' k key''] by (metis less_irrefl option.inject)
  moreover have "bt_get groups key' = Some k \<Longrightarrow> bt_get ?new key' = Some k" for key' k
    unfolding new using assms(2) by (metis option.distinct(1))
  ultimately show ?thesis unfolding groups_ok_def using bt_sorted_insert [OF sorted] by blast
qed

lemma split_choice_ok:
  assumes split: "split_choice bounds classes lt gt groups = (c, groups')" and groups: "groups_ok groups"
    and lt: "bounded_by bounds lt \<Longrightarrow> d" and gt: "bounded_by bounds gt \<Longrightarrow> \<not> d"
    and T: "T (class_edge classes lt) = d" "T (class_edge classes gt) = (\<not> d)"
  shows "choice_ok T groups' d c \<and> groups_ok groups' \<and>
    (\<forall>key k. bt_get groups key = Some k \<longrightarrow> bt_get groups' key = Some k)"
proof (cases "bounded_by bounds lt \<or> bounded_by bounds gt")
  case True
  then show ?thesis using split groups lt gt by (auto simp: split_choice_def split: if_splits)
next
  case False
  let ?l = "class_edge classes lt" and ?g = "class_edge classes gt"
  let ?key = "(min ?l ?g, max ?l ?g)"
  have truth: "d = (T (fst ?key) \<noteq> (?l > ?g))" using T
    by (cases "?l \<le> ?g") (simp_all only: fst_conv min_def if_True if_False not_le [symmetric], blast+)
  show ?thesis
  proof (cases "bt_get groups ?key")
    case None
    then have cg: "c = Split (length groups) (?l > ?g)" "groups' = bt_insert ?key (length groups) groups"
      using split False by (simp_all add: split_choice_def Let_def)
    have "choice_ok T groups' d c" unfolding cg choice_ok.simps
      by (intro exI conjI) (rule bt_get_insert_same, rule truth)
    then show ?thesis using groups_ok_insert [OF groups None] cg(2) by blast
  next
    case (Some k)
    then have cg: "c = Split k (?l > ?g)" "groups' = groups"
      using split False by (simp_all add: split_choice_def Let_def)
    have "choice_ok T groups' d c" unfolding cg choice_ok.simps
      by (intro exI conjI) (rule Some, rule truth)
    then show ?thesis using groups cg(2) by blast
  qed
qed

definition lt_true :: "word_model \<Rightarrow> 'm relation_term \<times> 'm relation_term \<times> usize \<Rightarrow> bool" where
  "lt_true \<rho> d \<longleftrightarrow> term_val \<rho> (fst d) < term_val \<rho> (fst (snd d))"

definition choices_ok ::
  "word_model \<Rightarrow> 'm query \<Rightarrow> usize list \<Rightarrow> nat list \<Rightarrow> choice list \<times> (split_key, usize) btmap \<Rightarrow> bool" where
  "choices_ok \<rho> q classes ys acc =
     (length (fst acc) = length ys \<and> groups_ok (snd acc) \<and>
      (\<forall>i < length ys. choice_ok (class_true (lab \<rho> (q_variables q)) classes) (snd acc)
         (lt_true \<rho> (q_disequalities q ! (ys ! i))) (fst acc ! i)))"

lemma plan_choice_ok:
  assumes run: "plan_choice bounds classes i acc q1 = (Inr acc', q')" and inv: "q_inv \<rho> q" and core: "q_core q1 = q_core q"
    and i: "i < length (q_disequalities q)" and bounds: "bounds_ok \<rho> (q_variables q) bounds"
    and classes: "classes_ok (lab \<rho> (q_variables q)) (length (q_variables q) + 1) classes"
    and acc: "choices_ok \<rho> q classes ys acc"
  shows "choices_ok \<rho> q classes (ys @ [i]) acc' \<and> q_core q' = q_core q"
proof -
  obtain l r origin where d: "q_disequalities q ! i = (l, r, origin)" by (cases "q_disequalities q ! i") auto
  have "diseq_ok \<rho> (q_variables q) (l, r, origin)" using inv i d by (metis list_all_length q_inv_def)
  then have reg: "term_reg (q_variables q) l" "term_reg (q_variables q) r" and ne: "term_val \<rho> l \<noteq> term_val \<rho> r"
    by (auto simp: diseq_ok_def)
  obtain x q2 where t: "tick q1 = (Inr x, q2)"
    and rest: "es_bind (es_gets (\<lambda>q. q_disequalities q ! i)) (\<lambda>(left, right, origin).
        es_bind (make_edge left right (- 1) origin) (\<lambda>lt.
        es_bind (make_edge right left (- 1) origin) (\<lambda>gt.
        case split_choice bounds classes lt gt (snd acc) of (c, groups) \<Rightarrow> es_return (fst acc @ [c], groups)))) q2 =
        (Inr acc', q')"
    using run unfolding plan_choice_def es_then_def es_bind_Inr [of tick] by blast
  have core2: "q_core q2 = q_core q" using tick_core [OF t] core by simp
  then have vars: "q_variables q2 = q_variables q" and dis: "q_disequalities q2 = q_disequalities q" by (auto simp: q_core_def)
  have inv2: "q_inv \<rho> q2" using q_inv_core [OF core2] inv by simp
  obtain lt q3 gt q4 where m1: "make_edge l r (- 1) origin q2 = (Inr lt, q3)"
    and m2: "make_edge r l (- 1) origin q3 = (Inr gt, q4)"
    and end': "acc' = (fst acc @ [fst (split_choice bounds classes lt gt (snd acc))], snd (split_choice bounds classes lt gt (snd acc)))"
      "q' = q4"
    using rest d dis by (auto simp: es_bind_Inr es_simps case_prod_unfold)
  obtain c groups where sc: "split_choice bounds classes lt gt (snd acc) = (c, groups)"
    by (cases "split_choice bounds classes lt gt (snd acc)")
  then have res: "acc' = (fst acc @ [c], groups)" "q' = q4" using end' by auto
  obtain a b k where lt: "q3 = q2" "lt = (a, b, k, Some origin)" "a < length (q_variables q) + 1" "b < length (q_variables q) + 1"
    "lab \<rho> (q_variables q) a - lab \<rho> (q_variables q) b \<le> k \<longleftrightarrow> term_val \<rho> l < term_val \<rho> r"
    using make_edge_reg [OF m1 inv2] reg by (fastforce simp: vars)
  obtain a' b' k' where gt: "q4 = q3" "gt = (a', b', k', Some origin)" "a' < length (q_variables q) + 1"
    "b' < length (q_variables q) + 1"
    "lab \<rho> (q_variables q) a' - lab \<rho> (q_variables q) b' \<le> k' \<longleftrightarrow> term_val \<rho> r < term_val \<rho> l"
    using make_edge_reg [OF m2] inv2 lt(1) reg by (fastforce simp: vars)
  let ?T = "class_true (lab \<rho> (q_variables q)) classes" and ?d = "lt_true \<rho> (q_disequalities q ! i)"
  have bounded: "bounded_by bounds (a, b, k, p) \<Longrightarrow> lab \<rho> (q_variables q) a - lab \<rho> (q_variables q) b \<le> k" for a b k p
    using bounds by (fastforce simp: bounded_by_def bounds_ok_def edge_ok_def split: option.splits)
  have "choice_ok ?T groups ?d c \<and> groups_ok groups \<and> (\<forall>key k. bt_get (snd acc) key = Some k \<longrightarrow> bt_get groups key = Some k)"
  proof (rule split_choice_ok [OF sc])
    show "groups_ok (snd acc)" using acc by (simp add: choices_ok_def)
    show "?d" if "bounded_by bounds lt" using that bounded lt by (simp add: lt_true_def d)
    show "\<not> ?d" if "bounded_by bounds gt" using that bounded gt by (simp add: lt_true_def d)
    show "?T (class_edge classes lt) = ?d"
      unfolding lt(2) class_true_edge [OF classes lt(3,4)] using lt(5) by (simp add: lt_true_def d)
    show "?T (class_edge classes gt) = (\<not> ?d)"
      unfolding gt(2) class_true_edge [OF classes gt(3,4)] using gt(5) ne by (simp add: lt_true_def d) linarith
  qed
  then show ?thesis using acc core2 lt(1) gt(1) res choice_ok_mono
    by (auto simp: choices_ok_def nth_append less_Suc_eq)
qed

section \<open>The plan keeps every model\<close>

lemma in_branch_bit: "in_branch (Split k inverted) b \<longleftrightarrow> bit b k \<noteq> inverted"
  by (simp add: bit_iff_and_push_bit_not_eq_0)

lemma branch_number:
  assumes "groups_ok groups"
  shows "\<exists>b < 2 ^ length groups. \<forall>d c. choice_ok T groups d c \<longrightarrow> in_branch c b = d"
proof -
  let ?bs = "map (\<lambda>k. \<exists>key. bt_get groups key = Some k \<and> T (fst key)) [0..<length groups]"
  let ?b = "horner_sum of_bool 2 ?bs :: nat"
  have b: "bit ?b k \<longleftrightarrow> T (fst key)" if h: "bt_get groups key = Some k" for k key
  proof -
    have k: "k < length groups" and inj: "bt_get groups key' = Some k \<Longrightarrow> key' = key" for key'
      using assms h unfolding groups_ok_def by blast+
    have "bit ?b k \<longleftrightarrow> (\<exists>key'. bt_get groups key' = Some k \<and> T (fst key'))"
      using k by (simp add: bit_horner_sum_bit_iff del: split_paired_Ex)
    then show ?thesis using h inj by blast
  qed
  have "in_branch c ?b = d" if ok: "choice_ok T groups d c" for d c
  proof (cases c)
    case (Split k inverted)
    then obtain key where "bt_get groups key = Some k" "d = (T (fst key) \<noteq> inverted)"
      using ok unfolding Split choice_ok.simps by blast
    then show ?thesis unfolding Split in_branch_bit using b by blast
  qed (use ok in simp)
  moreover have "?b < 2 ^ length groups" using horner_sum_of_bool_2_less [of ?bs] by simp
  ultimately show ?thesis by blast
qed

lemma plan_ok:
  assumes run: "plan q = (Inr (choices, count), q')" and inv: "q_inv \<rho> q"
  shows "q_core q' = q_core q \<and> (\<exists>b < count. follows \<rho> (q_disequalities q) (map (\<lambda>c. in_branch c b) choices))"
proof (cases "q_disequalities q = []")
  case True
  then show ?thesis using run by (auto simp: plan_def es_bind_Inr es_simps follows_def split: if_splits)
next
  case False
  let ?vars = "q_variables q"
  obtain bounds q1 classes q2 groups where
    c: "es_fold collect_bound [0..<length (q_edges q)] [] q = (Inr bounds, q1)"
    and m: "es_fold (merge_classes bounds) bounds [0..<length ?vars + 1] q1 = (Inr classes, q2)"
    and p: "es_fold (plan_choice bounds classes) [0..<length (q_disequalities q)] ([], []) q2 = (Inr (choices, groups), q')"
    and n: "branch_count (q_limits q) (length groups) = Some count"
    using run False
    by (auto simp: plan_def es_bind_Inr es_simps simp del: One_nat_def upt_Suc split: if_splits)
  have b: "bounds_ok \<rho> ?vars bounds \<and> q_core q1 = q_core q"
  proof (rule core_fold [OF _ c, where I = "\<lambda>_. bounds_ok \<rho> ?vars"])
    fix ys x zs a s1 a' s2
    assume h: "[0..<length (q_edges q)] = ys @ x # zs" "collect_bound x a s1 = (Inr a', s2)" "q_core s1 = q_core q"
      "bounds_ok \<rho> ?vars a"
    have "x \<in> set [0..<length (q_edges q)]" unfolding h(1) by simp
    moreover have "q_edges s1 = q_edges q" "q_variables s1 = ?vars" using h(3) by (auto simp: q_core_def)
    ultimately show "bounds_ok \<rho> ?vars a' \<and> q_core s2 = q_core q"
      using collect_bound_ok [OF h(2) q_inv_core_eq [OF h(3) inv]] h(3,4) by simp
  qed (simp add: bounds_ok_def)
  have cl: "classes_ok (lab \<rho> ?vars) (length ?vars + 1) classes \<and> q_core q2 = q_core q1"
    by (rule core_fold [OF _ m, where I = "\<lambda>_. classes_ok (lab \<rho> ?vars) (length ?vars + 1)"])
      (use merge_classes_ok [OF _ _ conjunct1 [OF b]] in \<open>force\<close>, simp add: classes_ok_def del: upt_Suc)
  have core2: "q_core q2 = q_core q" using b cl by simp
  have "choices_ok \<rho> q classes [0..<length (q_disequalities q)] (choices, groups) \<and> q_core q' = q_core q2"
  proof (rule core_fold [OF _ p, where I = "choices_ok \<rho> q classes"])
    fix ys x zs a s1 a' s2
    assume h: "[0..<length (q_disequalities q)] = ys @ x # zs" "plan_choice bounds classes x a s1 = (Inr a', s2)"
      "q_core s1 = q_core q2" "choices_ok \<rho> q classes ys a"
    have "x \<in> set [0..<length (q_disequalities q)]" unfolding h(1) by simp
    then show "choices_ok \<rho> q classes (ys @ [x]) a' \<and> q_core s2 = q_core q2"
      using plan_choice_ok [OF h(2) inv _ _ conjunct1 [OF b] conjunct1 [OF cl] h(4)] h(3) core2 by simp
  qed (simp add: choices_ok_def groups_ok_def)
  then have ok: "choices_ok \<rho> q classes [0..<length (q_disequalities q)] (choices, groups)" and core': "q_core q' = q_core q"
    using core2 by auto
  have groups: "groups_ok groups" using ok by (simp add: choices_ok_def)
  obtain k where k: "k < 2 ^ length groups"
    "\<And>d c. choice_ok (class_true (lab \<rho> ?vars) classes) groups d c \<Longrightarrow> in_branch c k = d"
    using branch_number [OF groups, of "class_true (lab \<rho> ?vars) classes"] by blast
  have "count = 2 ^ length groups" using n by (auto simp: branch_count_def checked_shl_one_def split: if_splits)
  moreover have "follows \<rho> (q_disequalities q) (map (\<lambda>c. in_branch c k) choices)"
    using ok k(2) by (simp add: choices_ok_def follows_def lt_true_def)
  ultimately show ?thesis using core' k(1) by blast
qed

section \<open>Every branch keeps the constraints\<close>

lemma seed_edge_core: "seed_edge e acc q = (Inr acc', q') \<Longrightarrow> q_core q' = q_core q"
  by (cases e) (auto simp: seed_edge_def es_then_def es_bind_Inr es_simps split: if_splits
      dest!: tick_core record_node_core)

lemma relax_cell_core: "relax_cell kij acc q = (Inr acc', q') \<Longrightarrow> q_core q' = q_core q"
  by (cases kij) (auto simp: relax_cell_def es_then_def es_bind_Inr es_simps split: if_splits option.splits
      dest!: tick_core record_node_core)

lemma close_rounds_core: "close_rounds ks n acc q = (Inr r, q') \<Longrightarrow> q_core q' = q_core q"
proof (induction ks arbitrary: acc q)
  case (Cons k ks)
  obtain acc1 q1 where f: "es_fold relax_cell (map (\<lambda>(i, j). (k, i, j)) (List.product [0..<n] [0..<n])) acc q = (Inr acc1, q1)"
    and rest: "(case find_contradiction (fst acc1) n of
       Some p \<Rightarrow> es_return (Some p, acc1) | None \<Rightarrow> close_rounds ks n acc1) q1 = (Inr r, q')"
    using Cons.prems by (auto simp: es_bind_Inr)
  have "q_core q1 = q_core q"
    using core_fold [OF _ f, of "\<lambda>_ _. True"] relax_cell_core by metis
  then show ?case using rest Cons.IH [of acc1 q1] by (auto simp: es_simps split: option.splits)
qed (auto simp: es_simps)

lemma branch_edge_core:
  assumes run: "branch_edge x edges q = (Inr edges', q')" and inv: "q_inv \<rho> q" and i: "fst x < length (q_disequalities q)"
  shows "q' = q"
proof -
  obtain l r origin where d: "q_disequalities q ! fst x = (l, r, origin)" by (cases "q_disequalities q ! fst x") auto
  have "diseq_ok \<rho> (q_variables q) (l, r, origin)" using inv i d by (metis list_all_length q_inv_def)
  then have reg: "term_reg (q_variables q) l" "term_reg (q_variables q) r" by (auto simp: diseq_ok_def)
  obtain e where "make_edge l r (- 1) origin q = (Inr e, q') \<or> make_edge r l (- 1) origin q = (Inr e, q')"
    using run d by (auto simp: branch_edge_def es_bind_Inr es_simps split: if_splits)
  then show ?thesis using make_edge_reg inv reg by blast
qed

lemma branch_core:
  assumes run: "branch choices goal q = (Inr br, q')" and inv: "q_inv \<rho> q"
    and len: "length choices = length (q_disequalities q)"
    and reg: "term_reg (q_variables q) (dg_left goal)" "term_reg (q_variables q) (dg_right goal)"
  shows "q_core q' = q_core q \<and> dbr_choices br = choices"
proof -
  obtain edges q0 where fold: "es_fold branch_edge (List.enumerate 0 choices) (q_edges q) q = (Inr edges, q0)"
    using run by (auto simp: branch_def es_bind_Inr es_simps)
  have "q_core q0 = q_core q"
  proof -
    have "True \<and> q_core q0 = q_core q"
    proof (rule core_fold [OF _ fold, where I = "\<lambda>_ _. True"])
      fix ys x zs a s1 a' s2
      assume h: "List.enumerate 0 choices = ys @ x # zs" "branch_edge x a s1 = (Inr a', s2)" "q_core s1 = q_core q"
      have "x \<in> set (List.enumerate 0 choices)" unfolding h(1) by simp
      then have "fst x < length (q_disequalities s1)" using len h(3) by (simp add: in_set_enumerate_eq q_core_def)
      then show "True \<and> q_core s2 = q_core q" using branch_edge_core [OF h(2) q_inv_core_eq [OF h(3) inv]] h(3) by simp
    qed simp
    then show ?thesis by simp
  qed
  obtain n seeds start seeded q1 contradiction m trace q2
    where s: "es_fold seed_edge seeds start q0 = (Inr seeded, q1)"
      and c: "close_rounds [0..<n] n seeded q1 = (Inr (contradiction, m, trace), q2)"
      and rest: "(case contradiction of
         Some p \<Rightarrow> es_return \<lparr>dbr_choices = choices, dbr_derivation = trace, dbr_contradiction = Some p,
             dbr_status = Unknown, dbr_bounds = []\<rparr>
       | None \<Rightarrow> judge_goal goal choices m trace n) q2 = (Inr br, q')"
    using run fold unfolding branch_def Let_def
    by (auto simp: es_bind_Inr es_simps simp del: One_nat_def upt_Suc split: if_splits)
  have "q_core q1 = q_core q0" using core_fold [OF _ s, of "\<lambda>_ _. True"] seed_edge_core by metis
  then have core: "q_core q2 = q_core q" using close_rounds_core [OF c] \<open>q_core q0 = q_core q\<close> by simp
  then have vars: "q_variables q2 = q_variables q" by (simp add: q_core_def)
  show ?thesis
  proof (cases contradiction)
    case None
    then have "judge_goal goal choices m trace n q2 = (Inr br, q')" using rest by simp
    then obtain p s1 p2 where t: "term_vertex (dg_left goal) q2 = (Inr p, s1)" "term_vertex (dg_right goal) s1 = (Inr p2, q')"
      and "dbr_choices br = choices"
      by (auto simp: judge_goal_def es_bind_Inr es_simps)
    then show ?thesis using term_vertex_reg [OF t(1)] term_vertex_reg [OF t(2)] reg core vars by simp
  next
    case (Some p)
    then show ?thesis using rest core by (auto simp: es_simps)
  qed
qed

end
