(* ===== verification/Difference_Verdict.thy ===== *)
theory Difference_Verdict
  imports Difference_Plan
begin

text \<open>
  What a caller may rely on after \<open>solve_difference\<close>: the verdict holds in every model of the
  premises, the branches cover every model and their exported bounds hold there, and the shared limits
  are respected also when the query stops early.
\<close>

section \<open>The disequalities of the premises\<close>

fun premise_disequality :: "nat \<times> 'm difference_premise \<Rightarrow> ('m relation_term \<times> 'm relation_term \<times> usize) list" where
  "premise_disequality (i, PCompare NotEqual l r) = [(l, r, i)]"
| "premise_disequality _ = []"

definition premise_disequalities ::
  "'m difference_premise list \<Rightarrow> ('m relation_term \<times> 'm relation_term \<times> usize) list" where
  "premise_disequalities premises = concat (map premise_disequality (List.enumerate 0 premises))"

lemma push_edge_diseqs: "push_edge e q = (Inr x, q') \<Longrightarrow> q_disequalities q' = q_disequalities q"
  by (auto simp: push_edge_def es_bind_Inr es_simps split: if_splits)

lemma term_vertex_diseqs: "term_vertex t q = (Inr p, q') \<Longrightarrow> q_disequalities q' = q_disequalities q"
  by (induction t rule: term_vertex.induct)
    (auto simp: new_variable_def es_then_def es_bind_Inr es_simps split: option.splits if_splits dest!: push_edge_diseqs)

lemma add_bound_diseqs: "add_bound l r c origin q = (Inr x, q') \<Longrightarrow> q_disequalities q' = q_disequalities q"
  by (auto simp: add_bound_def make_edge_def es_bind_Inr es_simps dest!: push_edge_diseqs term_vertex_diseqs)

lemma add_premise_diseqs:
  "add_premise p origin q = (Inr x, q') \<Longrightarrow>
    q_disequalities q' = q_disequalities q @ premise_disequality (origin, p)"
proof (induction p origin rule: add_premise.induct)
  case (4 comparison l r origin)
  then show ?case
    by (cases comparison) (auto simp: add_disequality_def es_then_def es_bind_Inr es_simps split: if_splits
        dest!: add_bound_diseqs term_vertex_diseqs)
qed (auto simp: es_then_def es_bind_Inr es_simps dest!: add_bound_diseqs)

section \<open>Preparation\<close>

definition ready ::
  "word_model \<Rightarrow> 'm difference_premise list \<Rightarrow> 'm difference_goal \<Rightarrow> 'm query \<Rightarrow> bool" where
  "ready \<rho> premises goal q =
     (q_inv \<rho> q \<and> term_reg (q_variables q) (dg_left goal) \<and> term_reg (q_variables q) (dg_right goal) \<and>
      q_disequalities q = premise_disequalities premises)"

lemma ready_core: "q_core q' = q_core q \<Longrightarrow> ready \<rho> premises goal q \<Longrightarrow> ready \<rho> premises goal q'"
  using q_inv_core [of q' q \<rho>] by (simp add: ready_def q_core_def)

lemma premises_step:
  assumes run: "es_fold (\<lambda>(i, p) _. add_premise p i) (List.enumerate 0 premises) () q = (Inr x, q')"
    and inv: "q_inv \<rho> q" and true: "list_all (premise_true \<rho>) premises"
  shows "q_step \<rho> q q' \<and> q_disequalities q' = q_disequalities q @ premise_disequalities premises"
proof -
  let ?I = "\<lambda>ys (_ :: unit) s. q_step \<rho> q s \<and> q_disequalities s = q_disequalities q @ concat (map premise_disequality ys)"
  have triple: "es_triple (?I [] ()) (es_fold (\<lambda>(i, p) _. add_premise p i) (List.enumerate 0 premises) ())
      (?I (List.enumerate 0 premises))"
  proof (rule es_fold_prefix [of _ ?I], unfold es_triple_def, intro allI impI)
    fix ys and y :: "nat \<times> 'a difference_premise" and zs a s a' s'
    assume h: "List.enumerate 0 premises = ys @ y # zs" "?I ys a s" "(case y of (i, p) \<Rightarrow> \<lambda>_. add_premise p i) a s = (Inr a', s')"
    obtain i p where y: "y = (i, p)" by force
    have "y \<in> set (List.enumerate 0 premises)" unfolding h(1) by simp
    then have "p \<in> set premises" using y by (auto simp: in_set_enumerate_eq)
    then have p: "premise_true \<rho> p" using true by (simp add: list_all_iff)
    have run': "add_premise p i s = (Inr a', s')" using h(3) y by simp
    have "q_step \<rho> s s'" using add_premise_step [OF run' _ p] h(2) by (simp add: q_step_def)
    then show "?I (ys @ [y]) a' s'"
      using h(2) add_premise_diseqs [OF run'] q_step_trans y by auto
  qed
  show ?thesis
    using es_tripleD [OF triple _ run] q_step_refl [OF inv] by (simp add: premise_disequalities_def)
qed

lemma prepare_ok:
  assumes run: "prepare premises goal (initial_query limits) = (Inr (choices, count), q')"
    and true: "list_all (premise_true \<rho>) premises"
  shows "ready \<rho> premises goal q' \<and>
    (\<exists>b < count. follows \<rho> (premise_disequalities premises) (map (\<lambda>c. in_branch c b) choices))"
proof -
  have inv: "q_inv \<rho> (initial_query limits)" and dis: "q_disequalities (initial_query limits) = []"
    by (simp_all add: q_inv_def initial_query_def)
  obtain p q1 p2 q2 x q3 where t1: "term_vertex (dg_left goal) (initial_query limits) = (Inr p, q1)"
    and t2: "term_vertex (dg_right goal) q1 = (Inr p2, q2)"
    and f: "es_fold (\<lambda>(i, p) _. add_premise p i) (List.enumerate 0 premises) () q2 = (Inr x, q3)"
    and pl: "plan q3 = (Inr (choices, count), q')"
    using run unfolding prepare_def es_bind_Inr by blast
  have s1: "q_step \<rho> (initial_query limits) q1" "vertex_denotes \<rho> q1 (dg_left goal) p"
    using term_vertex_step [OF t1 inv] by auto
  then have inv1: "q_inv \<rho> q1" by (simp add: q_step_def)
  have s2: "q_step \<rho> q1 q2" "vertex_denotes \<rho> q2 (dg_right goal) p2" using term_vertex_step [OF t2 inv1] by auto
  then have inv2: "q_inv \<rho> q2" by (simp add: q_step_def)
  have s3: "q_step \<rho> q2 q3" "q_disequalities q3 = q_disequalities q2 @ premise_disequalities premises"
    using premises_step [OF f inv2 true] by auto
  have "vertex_denotes \<rho> q3 (dg_left goal) p" "vertex_denotes \<rho> q3 (dg_right goal) p2"
    using vertex_denotes_ext inv1 inv2 s1 s2 s3(1) by blast+
  then have ready: "ready \<rho> premises goal q3"
    using s3 dis term_vertex_diseqs [OF t1] term_vertex_diseqs [OF t2]
    by (simp add: ready_def vertex_denotes_def q_step_def)
  have inv3: "q_inv \<rho> q3" using ready by (simp add: ready_def)
  show ?thesis using plan_ok [OF pl inv3] ready_core [OF _ ready, of q'] ready by (auto simp: ready_def)
qed

section \<open>Running the branches\<close>

lemma run_branches_cases:
  assumes "run_branches choices goal bs branches q = (stop, branches', q')"
  shows "\<exists>new. branches' = branches @ new"
  using assms
  by (induction choices goal bs branches q rule: run_branches.induct)
    (force simp: run_branch_def es_bind_Inr es_simps split: prod.splits sum.splits)+

lemma run_branches_ok:
  assumes "run_branches choices goal bs branches q = (stop, branches', q')" and "ready \<rho> premises goal q"
    and "length choices = length (premise_disequalities premises)"
    and "\<forall>br \<in> set branches. follows \<rho> (premise_disequalities premises) (dbr_choices br) \<longrightarrow> branch_sound \<rho> goal br"
  shows "(\<forall>br \<in> set branches'. follows \<rho> (premise_disequalities premises) (dbr_choices br) \<longrightarrow> branch_sound \<rho> goal br) \<and>
    (stop = None \<longrightarrow> (\<forall>b \<in> set bs. \<exists>br \<in> set branches'. dbr_choices br = map (\<lambda>c. in_branch c b) choices))"
  using assms
proof (induction bs arbitrary: branches q)
  case (Cons b bs)
  let ?choices = "map (\<lambda>c. in_branch c b) choices"
  show ?case
  proof (cases "branch ?choices goal q")
    case (Pair r q1)
    show ?thesis
    proof (cases r)
      case (Inl e)
      then have "stop = Some e" "branches' = branches"
        using Cons.prems(1) Pair by (auto simp: run_branch_def es_bind_def)
      then show ?thesis using Cons.prems(4) by simp
    next
      case (Inr br)
      then have run: "branch ?choices goal q = (Inr br, q1)"
        and rest: "run_branches choices goal bs (branches @ [br]) q1 = (stop, branches', q')"
        using Cons.prems(1) Pair by (auto simp: run_branch_def es_bind_def es_simps)
      have inv: "q_inv \<rho> q" and reg: "term_reg (q_variables q) (dg_left goal)" "term_reg (q_variables q) (dg_right goal)"
        and dis: "q_disequalities q = premise_disequalities premises"
        using Cons.prems(2) by (auto simp: ready_def)
      have core: "q_core q1 = q_core q" "dbr_choices br = ?choices"
        using branch_core [OF run inv _ reg] Cons.prems(3) dis by auto
      have sound: "branch_sound \<rho> goal br" if "follows \<rho> (premise_disequalities premises) (dbr_choices br)"
        using branch_ok [OF run inv reg] that core(2) dis by simp
      have IH: "(\<forall>br \<in> set branches'. follows \<rho> (premise_disequalities premises) (dbr_choices br) \<longrightarrow> branch_sound \<rho> goal br) \<and>
        (stop = None \<longrightarrow> (\<forall>b \<in> set bs. \<exists>br \<in> set branches'. dbr_choices br = map (\<lambda>c. in_branch c b) choices))"
        using Cons.IH [OF rest ready_core [OF core(1) Cons.prems(2)] Cons.prems(3)] sound Cons.prems(4) by auto
      have "br \<in> set branches'" using run_branches_cases [OF rest] by auto
      then show ?thesis using IH core(2) by auto
    qed
  qed
qed auto

section \<open>Limits\<close>

definition in_limits :: "difference_limits \<Rightarrow> 'm query \<Rightarrow> bool" where
  "in_limits limits q \<longleftrightarrow> q_limits q = limits \<and> q_steps q \<le> max_steps limits \<and> q_derivations q \<le> max_derivations limits"

lemma in_limits_update [simp]:
  "in_limits limits (q\<lparr>q_variables := vs\<rparr>) = in_limits limits q"
  "in_limits limits (q\<lparr>q_edges := es\<rparr>) = in_limits limits q"
  "in_limits limits (q\<lparr>q_disequalities := ds\<rparr>) = in_limits limits q"
  by (simp_all add: in_limits_def)

abbreviation query_safe :: "difference_limits \<Rightarrow> ('m, 'a) qm \<Rightarrow> bool" where
  "query_safe limits \<equiv> es_safe (in_limits limits) {StopBudget, InvalidInput, ArithmeticOverflow}"

lemma ok_or_Inl: "ok_or e x = Inl e' \<Longrightarrow> e' = e"
  by (cases x) auto

lemma push_edge_safe [es_safe_intros]: "query_safe limits (push_edge e)"
  unfolding push_edge_def by (intro es_safe_intros) auto

lemma term_vertex_safe [es_safe_intros]: "query_safe limits (term_vertex t)"
  by (induction t rule: term_vertex.induct)
    (auto simp: new_variable_def intro!: es_safe_intros)

lemma make_edge_safe [es_safe_intros]: "query_safe limits (make_edge l r c origin)"
  unfolding make_edge_def by (intro es_safe_intros) (auto dest: ok_or_Inl)

lemma add_bound_safe [es_safe_intros]: "query_safe limits (add_bound l r c origin)"
  unfolding add_bound_def by (intro es_safe_intros)

lemma add_premise_safe [es_safe_intros]: "query_safe limits (add_premise p origin)"
proof (induction p origin rule: add_premise.induct)
  case (4 comparison l r origin)
  then show ?case
    by (cases comparison) (auto simp: add_disequality_def intro!: es_safe_intros)
qed (auto intro!: es_safe_intros dest: ok_or_Inl)

lemma tick_safe [es_safe_intros]: "query_safe limits tick"
  by (auto simp: es_safe_def tick_def es_bind_def es_simps in_limits_def split: if_splits)

lemma record_node_safe [es_safe_intros]: "query_safe limits (record_node trace node)"
  by (auto simp: es_safe_def record_node_def es_then_def es_bind_def es_simps in_limits_def split: if_splits)

lemma seed_edge_safe [es_safe_intros]: "query_safe limits (seed_edge e acc)"
  unfolding seed_edge_def by (intro es_safe_intros)

lemma relax_cell_safe [es_safe_intros]: "query_safe limits (relax_cell kij acc)"
  unfolding relax_cell_def by (intro es_safe_intros) (auto dest: ok_or_Inl)

lemma close_rounds_safe [es_safe_intros]: "query_safe limits (close_rounds ks n acc)"
  by (induction ks arbitrary: acc) (auto intro!: es_safe_intros)

lemma judge_goal_safe [es_safe_intros]: "query_safe limits (judge_goal goal choices m trace n)"
  unfolding judge_goal_def by (intro es_safe_intros) (auto dest: ok_or_Inl)

lemma branch_safe [es_safe_intros]: "query_safe limits (branch choices goal)"
  unfolding branch_def branch_edge_def Let_def by (intro es_safe_intros) auto

lemma plan_safe [es_safe_intros]: "query_safe limits plan"
  unfolding plan_def collect_bound_def merge_classes_def merge_class_def plan_choice_def
  by (intro es_safe_intros) (auto dest: ok_or_Inl)

lemma prepare_safe: "query_safe limits (prepare premises goal)"
  unfolding prepare_def by (intro es_safe_intros) (simp add: case_prod_unfold es_safe_intros)

lemma branch_safeD:
  "branch choices goal q = (r, q') \<Longrightarrow> in_limits limits q \<Longrightarrow>
    in_limits limits q' \<and> (\<forall>e. r = Inl e \<longrightarrow> e \<noteq> Complete \<and> e \<noteq> Inconsistent)"
  using es_safeD [OF branch_safe, of limits q choices goal r q'] by auto

text \<open>The nodes of a finished branch are those the query counted.\<close>

lemma seed_edge_count:
  "seed_edge e acc q = (Inr acc', q') \<Longrightarrow> q_derivations q' + length (snd acc) = q_derivations q + length (snd acc')"
  by (cases e) (auto simp: seed_edge_def tick_def record_node_def es_then_def es_bind_Inr es_simps split: if_splits)

lemma relax_cell_count:
  "relax_cell kij acc q = (Inr acc', q') \<Longrightarrow> q_derivations q' + length (snd acc) = q_derivations q + length (snd acc')"
  by (cases kij) (auto simp: relax_cell_def tick_def record_node_def es_then_def es_bind_Inr es_simps
      split: if_splits option.splits)

lemma fold_count:
  assumes step: "\<And>x acc q acc' q'. f x acc q = (Inr acc', q') \<Longrightarrow>
      q_derivations q' + length (snd acc) = q_derivations q + length (snd acc')"
    and run: "es_fold f xs acc q = (Inr (acc' :: closure), q')"
  shows "q_derivations q' + length (snd acc) = q_derivations q + length (snd acc')"
  using run
proof (induction xs arbitrary: acc q)
  case (Cons x xs)
  then obtain acc1 q1 where "f x acc q = (Inr acc1, q1)" "es_fold f xs acc1 q1 = (Inr acc', q')" by (auto simp: es_bind_Inr)
  then show ?case using step [of x acc q acc1 q1] Cons.IH [of acc1 q1] by simp
qed (simp add: es_simps)

lemma close_rounds_count:
  "close_rounds ks n acc q = (Inr (c, acc'), q') \<Longrightarrow> q_derivations q' + length (snd acc) = q_derivations q + length (snd acc')"
proof (induction ks arbitrary: acc q)
  case (Cons k ks)
  obtain acc1 q1 where f: "es_fold relax_cell (map (\<lambda>(i, j). (k, i, j)) (List.product [0..<n] [0..<n])) acc q = (Inr acc1, q1)"
    and rest: "(case find_contradiction (fst acc1) n of
       Some p \<Rightarrow> es_return (Some p, acc1) | None \<Rightarrow> close_rounds ks n acc1) q1 = (Inr (c, acc'), q')"
    using Cons.prems by (auto simp: es_bind_Inr)
  have "q_derivations q1 + length (snd acc) = q_derivations q + length (snd acc1)"
    by (rule fold_count [OF _ f]) (rule relax_cell_count)
  then show ?case
    using rest Cons.IH [of acc1 q1] by (auto simp: es_simps split: option.splits)
qed (auto simp: es_simps)

lemma term_vertex_count: "term_vertex t q = (Inr p, q') \<Longrightarrow> q_derivations q' = q_derivations q"
  by (induction t rule: term_vertex.induct)
    (auto simp: new_variable_def push_edge_def es_then_def es_bind_Inr es_simps split: option.splits if_splits)

lemma branch_edges_count:
  "es_fold branch_edge xs edges q = (Inr edges', q') \<Longrightarrow> q_derivations q' = q_derivations q"
proof (induction xs arbitrary: edges q)
  case (Cons x xs)
  then obtain e1 q1 where "branch_edge x edges q = (Inr e1, q1)" "es_fold branch_edge xs e1 q1 = (Inr edges', q')"
    by (auto simp: es_bind_Inr)
  moreover from this(1) have "q_derivations q1 = q_derivations q"
    by (auto simp: branch_edge_def make_edge_def es_bind_Inr es_simps split: if_splits prod.splits dest!: term_vertex_count)
  ultimately show ?case using Cons.IH by metis
qed (simp add: es_simps)

lemma branch_count_nodes:
  assumes run: "branch choices goal q = (Inr br, q')"
  shows "q_derivations q' = q_derivations q + length (dbr_derivation br)"
proof -
  obtain edges q0 where fold: "es_fold branch_edge (List.enumerate 0 choices) (q_edges q) q = (Inr edges, q0)"
    using run by (auto simp: branch_def es_bind_Inr es_simps)
  obtain n seeds m0 seeded q1 contradiction m trace q2
    where s: "es_fold seed_edge seeds (m0, []) q0 = (Inr seeded, q1)"
      and c: "close_rounds [0..<n] n seeded q1 = (Inr (contradiction, m, trace), q2)"
      and rest: "(case contradiction of
         Some p \<Rightarrow> es_return \<lparr>dbr_choices = choices, dbr_derivation = trace, dbr_contradiction = Some p,
             dbr_status = Unknown, dbr_bounds = []\<rparr>
       | None \<Rightarrow> judge_goal goal choices m trace n) q2 = (Inr br, q')"
    using run fold unfolding branch_def Let_def
    by (auto simp: es_bind_Inr es_simps simp del: One_nat_def upt_Suc split: if_splits)
  have "q_derivations q2 = q_derivations q + length trace"
    using fold_count [OF seed_edge_count s] close_rounds_count [OF c] branch_edges_count [OF fold] by simp
  moreover have "q_derivations q' = q_derivations q2 \<and> dbr_derivation br = trace"
    using rest by (auto simp: judge_goal_def es_bind_Inr es_simps split: option.splits dest!: term_vertex_count)
  ultimately show ?thesis by simp
qed

definition total_nodes :: "difference_branch list \<Rightarrow> nat" where
  "total_nodes branches = sum_list (map (\<lambda>br. length (dbr_derivation br)) branches)"

lemma run_branches_limits:
  "run_branches choices goal bs branches q = (stop, branches', q') \<Longrightarrow> in_limits limits q \<Longrightarrow>
    total_nodes branches \<le> q_derivations q \<Longrightarrow>
    in_limits limits q' \<and> total_nodes branches' \<le> max_derivations limits"
proof (induction bs arbitrary: branches q)
  case (Cons b bs)
  obtain r q1 where run: "branch (map (\<lambda>c. in_branch c b) choices) goal q = (r, q1)" by force
  note lim = branch_safeD [OF run Cons.prems(2)]
  show ?case
  proof (cases r)
    case (Inl e)
    then show ?thesis using Cons.prems run lim
      by (auto simp: run_branch_def es_bind_def in_limits_def)
  next
    case (Inr br)
    then have rest: "run_branches choices goal bs (branches @ [br]) q1 = (stop, branches', q')"
      using Cons.prems(1) run by (simp add: run_branch_def es_bind_def es_simps)
    have "total_nodes (branches @ [br]) \<le> q_derivations q1"
      using branch_count_nodes [OF run [unfolded Inr]] Cons.prems(3) by (simp add: total_nodes_def)
    then show ?thesis using Cons.IH [OF rest] lim by simp
  qed
qed (simp add: in_limits_def)

lemma run_branches_stop:
  "run_branches choices goal bs branches q = (Some e, branches', q') \<Longrightarrow> in_limits limits q \<Longrightarrow> e \<noteq> Complete \<and> e \<noteq> Inconsistent"
proof (induction bs arbitrary: branches q)
  case (Cons b bs)
  obtain r q1 where run: "branch (map (\<lambda>c. in_branch c b) choices) goal q = (r, q1)" by force
  note lim = branch_safeD [OF run Cons.prems(2)]
  show ?case
    using Cons.prems(1) Cons.IH [of _ q1] run lim
    by (cases r) (auto simp: run_branch_def es_bind_def es_simps)
qed simp

lemma run_branches_length:
  "run_branches choices goal bs branches q = (stop, branches', q') \<Longrightarrow> length branches' \<le> length branches + length bs"
  by (induction choices goal bs branches q rule: run_branches.induct)
    (force simp: run_branch_def es_bind_Inr es_simps split: prod.splits sum.splits)+

lemma plan_count: "plan q = (Inr (choices, count), q') \<Longrightarrow> count \<le> max_branches (q_limits q)"
  by (auto simp: plan_def branch_count_def es_bind_Inr es_simps split: if_splits option.splits)

lemma in_limits_initial: "in_limits limits (initial_query limits)"
  by (simp add: in_limits_def initial_query_def)

lemma prepare_limits:
  assumes "prepare ps goal (initial_query limits) = (r, q)"
  shows "in_limits limits q \<and> (\<forall>e. r = Inl e \<longrightarrow> e \<noteq> Complete \<and> e \<noteq> Inconsistent) \<and>
    (\<forall>choices count. r = Inr (choices, count) \<longrightarrow> count \<le> max_branches limits)"
proof -
  have "count \<le> max_branches limits" if h: "r = Inr (choices, count)" for choices count
  proof -
    have run: "prepare ps goal (initial_query limits) = (Inr (choices, count), q)" using assms h by simp
    obtain p q1 p2 q2 x q3 where t1: "term_vertex (dg_left goal) (initial_query limits) = (Inr p, q1)"
      and t2: "term_vertex (dg_right goal) q1 = (Inr p2, q2)"
      and f: "es_fold (\<lambda>(i, p) _. add_premise p i) (List.enumerate 0 ps) () q2 = (Inr x, q3)"
      and pl: "plan q3 = (Inr (choices, count), q)"
      using run unfolding prepare_def es_bind_Inr by blast
    have "in_limits limits q1" using es_safeD [OF term_vertex_safe in_limits_initial t1] by simp
    then have "in_limits limits q2" using es_safeD [OF term_vertex_safe _ t2] by simp
    moreover have safe: "query_safe limits (es_fold (\<lambda>(i, p) _. add_premise p i) (List.enumerate 0 ps) ())"
      by (intro es_safe_intros) (simp add: case_prod_unfold es_safe_intros)
    ultimately have "in_limits limits q3" using es_safeD [OF safe _ f] by blast
    then show ?thesis using plan_count [OF pl] by (simp add: in_limits_def)
  qed
  then show ?thesis using es_safeD [OF prepare_safe in_limits_initial assms] by auto
qed

section \<open>The verdict\<close>

lemma solve_difference_run:
  assumes "length ps \<le> max_constraints limits"
    and "prepare ps goal (initial_query limits) = (Inr (choices, count), q)"
    and "run_branches choices goal [0..<count] [] q = (stop, branches, q')"
  shows "solve_difference ps goal limits =
    \<lparr>de_premises = ps, de_goal = goal, de_limits = limits,
     de_status = (case (stop, overall_status branches) of (None, Inr status) \<Rightarrow> status | _ \<Rightarrow> Unknown),
     de_stop = (case (stop, overall_status branches) of
       (Some e, _) \<Rightarrow> e | (None, Inl e) \<Rightarrow> e | (None, Inr _) \<Rightarrow> Complete),
     de_steps = q_steps q', de_branches = branches\<rparr>"
  using assms by (auto simp: solve_difference_def Let_def split: option.split sum.split)

lemma solve_difference_early:
  assumes "length ps > max_constraints limits \<or> (\<exists>e q. prepare ps goal (initial_query limits) = (Inl e, q))"
  shows "de_status (solve_difference ps goal limits) = Unknown \<and> de_branches (solve_difference ps goal limits) = [] \<and>
    de_stop (solve_difference ps goal limits) \<noteq> Complete \<and> de_stop (solve_difference ps goal limits) \<noteq> Inconsistent \<and>
    de_steps (solve_difference ps goal limits) \<le> max_steps limits"
proof (cases "length ps > max_constraints limits")
  case False
  then obtain e q where p: "prepare ps goal (initial_query limits) = (Inl e, q)" using assms by blast
  then show ?thesis using prepare_limits [OF p] False by (simp add: solve_difference_def Let_def in_limits_def)
qed (simp add: solve_difference_def Let_def)

lemma solve_difference_exhaust:
  obtains (early) "length ps > max_constraints limits \<or> (\<exists>e q. prepare ps goal (initial_query limits) = (Inl e, q))"
  | (run) choices count q stop branches q' where "length ps \<le> max_constraints limits"
      "prepare ps goal (initial_query limits) = (Inr (choices, count), q)"
      "run_branches choices goal [0..<count] [] q = (stop, branches, q')"
proof (cases "length ps > max_constraints limits")
  case False
  obtain r q where "prepare ps goal (initial_query limits) = (r, q)" by force
  then show ?thesis using early run False
    by (cases r; cases "run_branches (fst (projr r)) goal [0..<snd (projr r)] [] q") force+
qed (use early in blast)

lemma overall_status_None:
  "overall_status branches = Inl e \<Longrightarrow> e = Inconsistent \<and> (\<forall>br \<in> set branches. dbr_contradiction br \<noteq> None)"
  by (auto simp: overall_status_def filter_empty_conv split: list.splits)

lemma overall_status_Some:
  assumes "overall_status branches = Inr st" and "br \<in> set branches" and "dbr_contradiction br = None" and "st \<noteq> Unknown"
  shows "dbr_status br = st"
proof -
  obtain x xs where l: "map dbr_status (filter (\<lambda>b. dbr_contradiction b = None) branches) = x # xs"
    using assms(1) by (auto simp: overall_status_def split: list.splits)
  have "list_all (\<lambda>y. y = x) xs" "st = x"
    using assms(1,4) by (auto simp: overall_status_def l split: if_splits)
  moreover have "dbr_status br \<in> set (x # xs)" unfolding l [symmetric] using assms(2,3) by simp
  ultimately show ?thesis by (auto simp: list_all_iff)
qed

text \<open>A model of the premises takes some branch, and that branch is sound for it.\<close>

lemma solve_difference_model:
  fixes goal :: "'m difference_goal" and limits :: difference_limits
  assumes true: "list_all (premise_true \<rho>) ps"
  defines "ev \<equiv> solve_difference ps goal limits"
  shows "(\<forall>br \<in> set (de_branches ev). follows \<rho> (premise_disequalities ps) (dbr_choices br) \<longrightarrow> branch_sound \<rho> goal br) \<and>
    (de_stop ev \<in> {Complete, Inconsistent} \<longrightarrow>
      (\<exists>br \<in> set (de_branches ev). follows \<rho> (premise_disequalities ps) (dbr_choices br))) \<and>
    (de_status ev \<noteq> Unknown \<longrightarrow> de_stop ev = Complete \<and> overall_status (de_branches ev) = Inr (de_status ev)) \<and>
    (de_stop ev = Inconsistent \<longrightarrow> (\<forall>br \<in> set (de_branches ev). dbr_contradiction br \<noteq> None))"
proof (cases rule: solve_difference_exhaust [of limits ps goal])
  case early
  then show ?thesis using solve_difference_early [OF early] unfolding ev_def by simp
next
  case (run choices count q stop branches q')
  have ready: "ready \<rho> ps goal q" and "\<exists>b < count. follows \<rho> (premise_disequalities ps) (map (\<lambda>c. in_branch c b) choices)"
    using prepare_ok [OF run(2) true] by auto
  then obtain b where b: "b < count" "follows \<rho> (premise_disequalities ps) (map (\<lambda>c. in_branch c b) choices)" by blast
  then have len: "length choices = length (premise_disequalities ps)" by (simp add: follows_def)
  have ok: "(\<forall>br \<in> set branches. follows \<rho> (premise_disequalities ps) (dbr_choices br) \<longrightarrow> branch_sound \<rho> goal br) \<and>
    (stop = None \<longrightarrow> (\<forall>b \<in> set [0..<count]. \<exists>br \<in> set branches. dbr_choices br = map (\<lambda>c. in_branch c b) choices))"
    using run_branches_ok [OF run(3) ready len] by simp
  have "b \<in> set [0..<count]" using b(1) by simp
  have lim: "in_limits limits q" using prepare_limits [OF run(2)] by simp
  have cover: "\<exists>br \<in> set branches. follows \<rho> (premise_disequalities ps) (dbr_choices br)" if none: "stop = None"
  proof -
    obtain br where "br \<in> set branches" "dbr_choices br = map (\<lambda>c. in_branch c b) choices" using ok none \<open>b \<in> set [0..<count]\<close> by blast
    then show ?thesis using b(2) by metis
  qed
  have stops: "e \<noteq> Complete \<and> e \<noteq> Inconsistent" if "stop = Some e" for e
    using run_branches_stop [OF _ lim] run(3) that by metis
  show ?thesis
    unfolding ev_def solve_difference_run [OF run]
    using ok cover stops overall_status_None [of branches] by (auto split: option.splits sum.splits)
qed

lemma solve_difference_verdict:
  assumes "list_all (premise_true \<rho>) ps"
  shows "(de_status (solve_difference ps goal limits) = Proven \<longrightarrow> goal_true \<rho> goal) \<and>
    (de_status (solve_difference ps goal limits) = Refuted \<longrightarrow> \<not> goal_true \<rho> goal) \<and>
    de_stop (solve_difference ps goal limits) \<noteq> Inconsistent"
proof -
  let ?ev = "solve_difference ps goal limits"
  note model = solve_difference_model [OF assms, of goal limits]
  have sound: "\<exists>br \<in> set (de_branches ?ev). branch_sound \<rho> goal br" if "de_stop ?ev \<in> {Complete, Inconsistent}"
    using model that by blast
  have "goal_true \<rho> goal \<longleftrightarrow> de_status ?ev = Proven" if h: "de_status ?ev \<noteq> Unknown"
  proof -
    obtain br where br: "br \<in> set (de_branches ?ev)" "branch_sound \<rho> goal br" using sound model h by blast
    then have "dbr_status br = de_status ?ev"
      using overall_status_Some [of "de_branches ?ev" "de_status ?ev" br] model h by (simp add: branch_sound_def)
    then show ?thesis using br(2) h by (cases "de_status ?ev") (auto simp: branch_sound_def)
  qed
  moreover have "de_stop ?ev \<noteq> Inconsistent" using sound model unfolding branch_sound_def by blast
  ultimately show ?thesis by auto
qed

text \<open>C2: The verdict of the solver is sound. In every assignment of machine words that satisfies the
  premises, a goal reported proven is true and a goal reported refuted is false; and premises that have a
  model are never reported inconsistent. Disequality splits, shared splits, the incremental negative-cycle
  exit and every budget are included.\<close>

theorem solve_difference_sound:
  assumes "list_all (premise_true \<rho>) ps"
  shows "(de_status (solve_difference ps goal limits) = Proven \<longrightarrow> goal_true \<rho> goal) \<and>
    (de_status (solve_difference ps goal limits) = Refuted \<longrightarrow> \<not> goal_true \<rho> goal) \<and>
    de_stop (solve_difference ps goal limits) \<noteq> Inconsistent"
  using assms by (rule solve_difference_verdict)

definition sample_premises :: "unit difference_premise list" where
  "sample_premises = [PCompare NotEqual (relation_word 0) (RConstant 2),
     PCompare LessOrEqual (relation_word 0) (RConstant 3), PCompare LessOrEqual (RConstant 1) (relation_word 0)]"

definition sample_goal :: "unit difference_goal" where
  "sample_goal = \<lparr>dg_comparison = NotEqual, dg_left = RConstant 2, dg_right = relation_word 0\<rparr>"

definition sample_limits :: difference_limits where
  "sample_limits = \<lparr>max_variables = 3, max_constraints = 20, max_steps = 200, max_derivations = 100, max_branches = 4\<rparr>"

theorem solve_difference_sound_witness:
  "de_status (solve_difference sample_premises sample_goal sample_limits) = Proven \<and> goal_true (\<lambda>_. 3) sample_goal"
proof -
  have "list_all (premise_true (\<lambda>_. 3)) sample_premises" by (simp add: sample_premises_def relation_word_def)
  moreover have "de_status (solve_difference sample_premises sample_goal sample_limits) = Proven" by code_simp
  ultimately show ?thesis using solve_difference_sound [of "\<lambda>_. 3" sample_premises sample_goal sample_limits] by simp
qed

text \<open>C30: The branches of the evidence are exhaustive and each is right about the models it stands for.
  A model of the premises that takes the choices of a recorded branch does not contradict it, agrees with
  its status, and satisfies every bound the branch exports, also when a later branch ran out of budget;
  when the query completed, every model of the premises takes the choices of some recorded branch.\<close>

theorem solve_difference_branches:
  assumes "list_all (premise_true \<rho>) ps"
  shows "(\<forall>br \<in> set (de_branches (solve_difference ps goal limits)).
      follows \<rho> (premise_disequalities ps) (dbr_choices br) \<longrightarrow> branch_sound \<rho> goal br) \<and>
    (de_stop (solve_difference ps goal limits) = Complete \<longrightarrow>
      (\<exists>br \<in> set (de_branches (solve_difference ps goal limits)).
        follows \<rho> (premise_disequalities ps) (dbr_choices br)))"
  using solve_difference_model [OF assms, of goal limits] by blast

theorem solve_difference_branches_witness:
  "length (de_branches (solve_difference sample_premises sample_goal sample_limits)) = 2 \<and>
   (\<exists>br \<in> set (de_branches (solve_difference sample_premises sample_goal sample_limits)).
     follows (\<lambda>_. 3) (premise_disequalities sample_premises) (dbr_choices br) \<and> branch_sound (\<lambda>_. 3) sample_goal br)"
proof -
  have "list_all (premise_true (\<lambda>_. 3)) sample_premises" by (simp add: sample_premises_def relation_word_def)
  note t = solve_difference_branches [OF this, of sample_goal sample_limits]
  have "de_stop (solve_difference sample_premises sample_goal sample_limits) = Complete" by code_simp
  moreover have "length (de_branches (solve_difference sample_premises sample_goal sample_limits)) = 2" by code_simp
  ultimately show ?thesis using t by blast
qed

text \<open>C31: All limits are shared by the complete query: however the query ends, the steps it counted, the
  branches it recorded and the derivation nodes of all its branches together stay within the limits.\<close>

theorem solve_difference_limits:
  shows "de_steps (solve_difference ps goal limits) \<le> max_steps limits \<and>
    length (de_branches (solve_difference ps goal limits)) \<le> max_branches limits \<and>
    total_nodes (de_branches (solve_difference ps goal limits)) \<le> max_derivations limits"
proof (cases rule: solve_difference_exhaust [of limits ps goal])
  case early
  then show ?thesis using solve_difference_early [OF early] by (simp add: total_nodes_def)
next
  case (run choices count q stop branches q')
  have lim: "in_limits limits q" "count \<le> max_branches limits" using prepare_limits [OF run(2)] by auto
  have "total_nodes [] \<le> q_derivations q" by (simp add: total_nodes_def)
  then show ?thesis
    using run_branches_limits [OF run(3) lim(1)] run_branches_length [OF run(3)] lim(2)
    by (simp add: solve_difference_run [OF run] in_limits_def)
qed

end
