(* ===== verification/Utf8.thy ===== *)
theory Utf8
  imports Main
begin

text \<open>
  UTF-8 as the standard library of Rust checks it: \<open>str::from_utf8\<close> with the position and length its error
  reports, the first scalar value of a text, \<open>char::is_whitespace\<close> and \<open>char::from_u32\<close>. A byte is a \<open>char\<close> of
  HOL, so ASCII literals read as in the source. A text is valid when it splits into encoded scalars.
\<close>

type_synonym u8 = char

abbreviation byte_val :: "u8 \<Rightarrow> nat" where
  "byte_val b \<equiv> of_char b"

section \<open>Validation\<close>

datatype utf8_scan = Scalar nat | Malformed "nat option"

definition utf8_char_width :: "u8 \<Rightarrow> nat" where
  "utf8_char_width b =
     (if byte_val b < 0x80 then 1
      else if 0xC2 \<le> byte_val b \<and> byte_val b \<le> 0xDF then 2
      else if 0xE0 \<le> byte_val b \<and> byte_val b \<le> 0xEF then 3
      else if 0xF0 \<le> byte_val b \<and> byte_val b \<le> 0xF4 then 4 else 0)"

definition continuation :: "u8 \<Rightarrow> bool" where
  "continuation b \<longleftrightarrow> 0x80 \<le> byte_val b \<and> byte_val b \<le> 0xBF"

definition second_of_three :: "u8 \<Rightarrow> u8 \<Rightarrow> bool" where
  "second_of_three a b \<longleftrightarrow>
     (if byte_val a = 0xE0 then 0xA0 \<le> byte_val b \<and> byte_val b \<le> 0xBF
      else if byte_val a = 0xED then 0x80 \<le> byte_val b \<and> byte_val b \<le> 0x9F
      else continuation b)"

definition second_of_four :: "u8 \<Rightarrow> u8 \<Rightarrow> bool" where
  "second_of_four a b \<longleftrightarrow>
     (if byte_val a = 0xF0 then 0x90 \<le> byte_val b \<and> byte_val b \<le> 0xBF
      else if byte_val a = 0xF4 then 0x80 \<le> byte_val b \<and> byte_val b \<le> 0x8F
      else continuation b)"

text \<open>A missing byte is an error without a length: more input could still complete the scalar.\<close>

fun check_rest :: "(u8 \<Rightarrow> bool) list \<Rightarrow> nat \<Rightarrow> u8 list \<Rightarrow> utf8_scan" where
  "check_rest [] n bs = Scalar n"
| "check_rest (p # ps) n [] = Malformed None"
| "check_rest (p # ps) n (b # bs) = (if p b then check_rest ps (Suc n) bs else Malformed (Some n))"

fun utf8_item :: "u8 list \<Rightarrow> utf8_scan" where
  "utf8_item [] = Malformed None"
| "utf8_item (b # bs) =
     (if utf8_char_width b = 1 then Scalar 1
      else if utf8_char_width b = 2 then check_rest [continuation] 1 bs
      else if utf8_char_width b = 3 then check_rest [second_of_three b, continuation] 1 bs
      else if utf8_char_width b = 4 then check_rest [second_of_four b, continuation, continuation] 1 bs
      else Malformed (Some 1))"

record utf8_error =
  valid_up_to :: nat
  error_len :: "nat option"

lemma check_rest_Scalar:
  "check_rest ps n bs = Scalar w \<Longrightarrow> w = n + length ps \<and> length ps \<le> length bs"
  by (induction ps n bs rule: check_rest.induct) (auto split: if_splits)

lemma utf8_item_Scalar:
  "utf8_item bs = Scalar w \<Longrightarrow> bs \<noteq> [] \<and> w = utf8_char_width (hd bs) \<and> 0 < w \<and> w \<le> length bs"
  by (cases bs) (auto split: if_splits dest!: check_rest_Scalar)

function utf8_check :: "nat \<Rightarrow> u8 list \<Rightarrow> utf8_error option" where
  "utf8_check pos bs =
     (if bs = [] then None
      else case utf8_item bs of
        Scalar w \<Rightarrow> utf8_check (pos + w) (drop w bs)
      | Malformed e \<Rightarrow> Some \<lparr>valid_up_to = pos, error_len = e\<rparr>)"
  by pat_completeness auto

termination
  by (relation "measure (\<lambda>(pos, bs). length bs)") (auto dest: utf8_item_Scalar)

declare utf8_check.simps [simp del]

definition from_utf8 :: "u8 list \<Rightarrow> utf8_error option" where
  "from_utf8 bs = utf8_check 0 bs"

definition scalar_value :: "u8 list \<Rightarrow> nat" where
  "scalar_value it =
     (case map byte_val it of
        [a] \<Rightarrow> a
      | [a, b] \<Rightarrow> (a mod 32) * 64 + b mod 64
      | [a, b, c] \<Rightarrow> ((a mod 16) * 64 + b mod 64) * 64 + c mod 64
      | [a, b, c, d] \<Rightarrow> (((a mod 8) * 64 + b mod 64) * 64 + c mod 64) * 64 + d mod 64
      | _ \<Rightarrow> 0)"

definition char_is_whitespace :: "nat \<Rightarrow> bool" where
  "char_is_whitespace c \<longleftrightarrow>
     c = 0x20 \<or> (0x09 \<le> c \<and> c \<le> 0x0D) \<or> c = 0x85 \<or> c = 0xA0 \<or> c = 0x1680 \<or> (0x2000 \<le> c \<and> c \<le> 0x200A) \<or>
     c = 0x2028 \<or> c = 0x2029 \<or> c = 0x202F \<or> c = 0x205F \<or> c = 0x3000"

definition char_from_u32 :: "nat \<Rightarrow> nat option" where
  "char_from_u32 n = (if n > 0x10FFFF \<or> (0xD800 \<le> n \<and> n \<le> 0xDFFF) then None else Some n)"

section \<open>Valid texts are sequences of encoded scalars\<close>

definition encoded :: "u8 list \<Rightarrow> bool" where
  "encoded it \<longleftrightarrow> utf8_item it = Scalar (length it)"

lemma check_rest_take:
  "check_rest ps n bs = Scalar w \<Longrightarrow> length ps \<le> k \<Longrightarrow> check_rest ps n (take k bs @ zs) = Scalar w"
proof (induction ps n bs arbitrary: k rule: check_rest.induct)
  case (3 p ps n b bs)
  then show ?case by (cases k) (auto split: if_splits)
qed auto

lemma utf8_item_take:
  assumes "utf8_item bs = Scalar w"
  shows "utf8_item (take w bs @ zs) = Scalar w"
proof (cases bs)
  case (Cons b cs)
  note w = utf8_item_Scalar [OF assms]
  then obtain k where k: "w = Suc k" using gr0_implies_Suc by blast
  have "utf8_char_width b = w" using w Cons by simp
  then show ?thesis using assms Cons k check_rest_take [of _ 1 cs w k zs]
    by (auto simp: split: if_splits)
qed (use assms in simp)

lemma utf8_item_encoded: "utf8_item bs = Scalar w \<Longrightarrow> encoded (take w bs)"
  using utf8_item_take [of bs w "[]"] utf8_item_Scalar [of bs w] by (simp add: encoded_def min_def)

lemma encoded_append: "encoded it \<Longrightarrow> utf8_item (it @ bs) = Scalar (length it)"
  unfolding encoded_def using utf8_item_take [of it "length it" bs] by simp

lemma encoded_Nil [simp]: "\<not> encoded []"
  by (simp add: encoded_def)

lemma utf8_check_encoded: "encoded it \<Longrightarrow> utf8_check pos (it @ bs) = utf8_check (pos + length it) bs"
  using encoded_append [of it bs] by (subst utf8_check.simps) auto

lemma utf8_check_concat:
  "\<forall>it \<in> set its. encoded it \<Longrightarrow> utf8_check pos (concat its @ bs) = utf8_check (pos + length (concat its)) bs"
  by (induction its arbitrary: pos) (auto simp: utf8_check_encoded add.assoc)

lemma utf8_check_valid:
  "utf8_check pos bs = None \<Longrightarrow> \<exists>its. bs = concat its \<and> (\<forall>it \<in> set its. encoded it)"
proof (induction pos bs rule: utf8_check.induct)
  case (1 pos bs)
  show ?case
  proof (cases "bs = []")
    case True
    then show ?thesis by (intro exI [of _ "[]"]) simp
  next
    case False
    then obtain w where w: "utf8_item bs = Scalar w" "utf8_check (pos + w) (drop w bs) = None"
      using 1(2) by (subst (asm) utf8_check.simps) (auto split: utf8_scan.splits)
    then obtain its where "drop w bs = concat its" "\<forall>it \<in> set its. encoded it" using 1(1) False by blast
    then show ?thesis using utf8_item_encoded [OF w(1)]
      by (intro exI [of _ "take w bs # its"]) (metis append_take_drop_id concat.simps(2) set_ConsD)
  qed
qed

lemma from_utf8_valid:
  "from_utf8 bs = None \<longleftrightarrow> (\<exists>its. bs = concat its \<and> (\<forall>it \<in> set its. encoded it))"
  using utf8_check_valid [of 0 bs] utf8_check_concat [of _ 0 "[]"]
  by (auto simp: from_utf8_def utf8_check.simps [of _ "[]"])

lemma from_utf8_error_at_start:
  assumes "bs \<noteq> []" and "utf8_item bs = Malformed e"
  shows "from_utf8 bs = Some \<lparr>valid_up_to = 0, error_len = e\<rparr>"
  using assms by (simp add: from_utf8_def utf8_check.simps)

lemma check_rest_Malformed:
  "check_rest ps n bs = Malformed (Some k) \<Longrightarrow> n \<le> k \<and> k \<le> n + length bs"
  by (induction ps n bs rule: check_rest.induct) (force split: if_splits)+

lemma utf8_item_Malformed: "utf8_item bs = Malformed (Some k) \<Longrightarrow> 1 \<le> k \<and> k \<le> length bs"
  by (cases bs) (auto split: if_splits dest!: check_rest_Malformed)

section \<open>Bytes inside a scalar\<close>

lemma encoded_single: "byte_val b < 0x80 \<Longrightarrow> encoded [b]"
  by (simp add: encoded_def utf8_char_width_def)

lemma second_continuation:
  "second_of_three a b \<Longrightarrow> continuation b" "second_of_four a b \<Longrightarrow> continuation b"
  by (auto simp: second_of_three_def second_of_four_def continuation_def split: if_splits)

lemma check_rest_bytes:
  "check_rest ps n bs = Scalar (n + length bs) \<Longrightarrow> \<forall>p \<in> set ps. \<forall>b. p b \<longrightarrow> continuation b \<Longrightarrow>
    \<forall>b \<in> set bs. continuation b"
proof (induction ps n bs rule: check_rest.induct)
  case (3 p ps n b bs)
  then show ?case by (auto split: if_splits)
qed auto

lemma encoded_bytes:
  assumes "encoded (b # bs)"
  shows "(\<forall>c \<in> set bs. continuation c) \<and> utf8_char_width b = Suc (length bs)"
proof -
  have w: "utf8_char_width b = Suc (length bs)" using utf8_item_Scalar [of "b # bs" "length (b # bs)"] assms
    unfolding encoded_def by simp
  have "bs = [] \<or> check_rest [continuation] 1 bs = Scalar (1 + length bs) \<or>
      check_rest [second_of_three b, continuation] 1 bs = Scalar (1 + length bs) \<or>
      check_rest [second_of_four b, continuation, continuation] 1 bs = Scalar (1 + length bs)"
    using assms by (simp add: encoded_def split: if_splits)
  moreover have rest: "\<forall>c \<in> set bs. continuation c"
    if "check_rest ps 1 bs = Scalar (1 + length bs)" "\<forall>p \<in> set ps. \<forall>b. p b \<longrightarrow> continuation b" for ps
    by (rule check_rest_bytes [OF that])
  have p1: "\<forall>p \<in> set [continuation]. \<forall>b. p b \<longrightarrow> continuation b"
    and p2: "\<forall>p \<in> set [second_of_three b, continuation]. \<forall>b. p b \<longrightarrow> continuation b"
    and p3: "\<forall>p \<in> set [second_of_four b, continuation, continuation]. \<forall>b. p b \<longrightarrow> continuation b"
    using second_continuation [of b] by simp_all
  have "\<forall>c \<in> set bs. continuation c" if "bs = []" using that by simp
  ultimately have "\<forall>c \<in> set bs. continuation c"
    using rest [OF _ p1] rest [OF _ p2] rest [OF _ p3] by argo
  then show ?thesis using w by simp
qed

definition bom :: "u8 list" where
  "bom = [CHR 0xEF, CHR 0xBB, CHR 0xBF]"

lemma encoded_bom [simp]: "encoded bom"
  by (simp add: encoded_def bom_def utf8_char_width_def second_of_three_def continuation_def)

text \<open>The byte order mark can only appear as a whole scalar, and a zero byte only as the scalar zero.\<close>

lemma bom_is_scalar:
  "\<forall>it \<in> set its. encoded it \<Longrightarrow> drop i (concat its) = bom @ rest \<Longrightarrow> bom \<in> set its"
proof (induction its arbitrary: i)
  case (Cons it its)
  obtain b bs where it: "it = b # bs" using Cons.prems(1) by (cases it) auto
  have enc: "\<forall>c \<in> set bs. continuation c" "utf8_char_width b = Suc (length bs)"
    using encoded_bytes [of b bs] Cons.prems(1) it by auto
  show ?case
  proof (cases "i < length it")
    case True
    have "(it @ concat its) ! i = hd (drop i (concat (it # its)))"
      using True by (subst hd_drop_conv_nth) auto
    also have "\<dots> = CHR 0xEF" unfolding Cons.prems(2) by (simp add: bom_def)
    finally have "it ! i = CHR 0xEF" using True by (simp add: nth_append)
    moreover have "\<not> continuation (CHR 0xEF)" by (simp add: continuation_def)
    ultimately have i: "i = 0"
      using enc(1) True it by (metis length_Cons less_Suc_eq_0_disj nth_Cons_Suc nth_mem Suc_less_eq)
    then have b: "b = CHR 0xEF" using \<open>it ! i = CHR 0xEF\<close> it by simp
    then have "length it = length bom" using enc(2) it by (simp add: utf8_char_width_def bom_def)
    then have "it = bom" using Cons.prems(2) i by (simp add: append_eq_append_conv)
    then show ?thesis by simp
  next
    case False
    then have "drop (i - length it) (concat its) = bom @ rest" using Cons.prems(2) by simp
    then show ?thesis using Cons by simp
  qed
qed (simp add: bom_def)

lemma zero_is_scalar: "encoded it \<Longrightarrow> CHR 0x00 \<in> set it \<Longrightarrow> it = [CHR 0x00]"
proof (cases it)
  case (Cons b bs)
  assume h: "encoded it" "CHR 0x00 \<in> set it"
  have "\<not> continuation (CHR 0x00)" by (simp add: continuation_def)
  then have "b = CHR 0x00" using encoded_bytes [of b bs] h Cons by auto
  then have "Suc (length bs) = 1" using encoded_bytes [of b bs] h(1) Cons by (simp add: utf8_char_width_def)
  then show ?thesis using Cons \<open>b = CHR 0x00\<close> by simp
qed simp

section \<open>Clean texts\<close>

text \<open>Valid text without zero bytes and without byte order marks.\<close>

definition clean :: "u8 list \<Rightarrow> bool" where
  "clean bs \<longleftrightarrow> (\<exists>its. bs = concat its \<and> (\<forall>it \<in> set its. encoded it \<and> it \<noteq> bom \<and> it \<noteq> [CHR 0x00]))"

lemma clean_Nil [simp]: "clean []"
  unfolding clean_def by (rule exI [of _ "[]"]) simp

lemma clean_append [intro]: "clean xs \<Longrightarrow> clean ys \<Longrightarrow> clean (xs @ ys)"
  unfolding clean_def by (metis Un_iff concat_append set_append)

lemma clean_concat: "\<forall>xs \<in> set xss. clean xs \<Longrightarrow> clean (concat xss)"
  by (induction xss) auto

lemma clean_item: "encoded it \<Longrightarrow> it \<noteq> bom \<Longrightarrow> it \<noteq> [CHR 0x00] \<Longrightarrow> clean it"
  unfolding clean_def by (intro exI [of _ "[it]"]) simp

lemma clean_ascii:
  assumes "\<forall>b \<in> set bs. byte_val b < 0x80 \<and> b \<noteq> CHR 0x00"
  shows "clean bs"
proof -
  have "clean [b]" if "b \<in> set bs" for b
    using clean_item [of "[b]"] assms that encoded_single [of b] by (simp add: bom_def)
  then have "clean (concat (map (\<lambda>b. [b]) bs))" by (intro clean_concat) auto
  then show ?thesis by simp
qed

lemma clean_valid: "clean bs \<Longrightarrow> from_utf8 bs = None"
  unfolding clean_def from_utf8_valid by blast

lemma clean_no_zero: "clean bs \<Longrightarrow> CHR 0x00 \<notin> set bs"
  unfolding clean_def using zero_is_scalar by fastforce

lemma clean_no_bom: "clean bs \<Longrightarrow> drop i bs \<noteq> bom @ rest"
  unfolding clean_def using bom_is_scalar by metis

lemma clean_iff:
  "clean bs \<longleftrightarrow> from_utf8 bs = None \<and> CHR 0x00 \<notin> set bs \<and> (\<forall>i rest. drop i bs \<noteq> bom @ rest)"
proof
  assume h: "from_utf8 bs = None \<and> CHR 0x00 \<notin> set bs \<and> (\<forall>i rest. drop i bs \<noteq> bom @ rest)"
  then obtain its where its: "bs = concat its" "\<forall>it \<in> set its. encoded it" by (auto simp: from_utf8_valid)
  have "it \<noteq> bom" if mem: "it \<in> set its" for it
  proof
    assume "it = bom"
    then obtain xs ys where "its = xs @ bom # ys" using split_list [OF mem] by blast
    then have "drop (length (concat xs)) bs = bom @ concat ys" by (simp add: its(1))
    then show False using h by blast
  qed
  moreover have "it \<noteq> [CHR 0x00]" if "it \<in> set its" for it using h its(1) that by auto
  ultimately show "clean bs" unfolding clean_def using its by blast
qed (auto intro: clean_valid dest: clean_no_zero clean_no_bom)

end
