(* ===== verification/Lexer_Number.thy ===== *)
theory Lexer_Number
  imports Utf8
begin

text \<open>
  Numeric candidates, \<open>src/src/lexer/number.rs\<close>: the extent of a candidate and its class. Byte positions are
  indices into the whole source; \<open>byte_at\<close> is \<open>slice::get\<close>.
\<close>

section \<open>Bytes\<close>

definition byte_at :: "u8 list \<Rightarrow> nat \<Rightarrow> u8 option" where
  "byte_at bs i = (if i < length bs then Some (bs ! i) else None)"

definition at_is :: "u8 list \<Rightarrow> nat \<Rightarrow> (u8 \<Rightarrow> bool) \<Rightarrow> bool" where
  "at_is bs i p = (case byte_at bs i of Some b \<Rightarrow> p b | None \<Rightarrow> False)"

definition starts_with :: "u8 list \<Rightarrow> u8 list \<Rightarrow> bool" where
  "starts_with bs pat \<longleftrightarrow> take (length pat) bs = pat"

definition is_ascii_digit :: "u8 \<Rightarrow> bool" where
  "is_ascii_digit b \<longleftrightarrow> byte_val (CHR ''0'') \<le> byte_val b \<and> byte_val b \<le> byte_val (CHR ''9'')"

definition is_ascii_alphabetic :: "u8 \<Rightarrow> bool" where
  "is_ascii_alphabetic b \<longleftrightarrow>
     (byte_val (CHR ''a'') \<le> byte_val b \<and> byte_val b \<le> byte_val (CHR ''z'')) \<or>
     (byte_val (CHR ''A'') \<le> byte_val b \<and> byte_val b \<le> byte_val (CHR ''Z''))"

definition is_ascii_alphanumeric :: "u8 \<Rightarrow> bool" where
  "is_ascii_alphanumeric b \<longleftrightarrow> is_ascii_digit b \<or> is_ascii_alphabetic b"

definition digit_value :: "u8 \<Rightarrow> nat option" where
  "digit_value b =
     (if is_ascii_digit b then Some (byte_val b - byte_val (CHR ''0''))
      else if byte_val (CHR ''a'') \<le> byte_val b \<and> byte_val b \<le> byte_val (CHR ''z'')
      then Some (byte_val b - byte_val (CHR ''a'') + 10)
      else if byte_val (CHR ''A'') \<le> byte_val b \<and> byte_val b \<le> byte_val (CHR ''Z'')
      then Some (byte_val b - byte_val (CHR ''A'') + 10) else None)"

definition is_digit :: "nat \<Rightarrow> u8 \<Rightarrow> bool" where
  "is_digit radix b = (case digit_value b of Some d \<Rightarrow> d < radix | None \<Rightarrow> False)"

definition is_ascii_hexdigit :: "u8 \<Rightarrow> bool" where
  "is_ascii_hexdigit b = is_digit 16 b"

text \<open>The loop \<open>while bytes.get(offset).is_some_and(p) { offset += 1; }\<close>.\<close>

function skip_while :: "(u8 \<Rightarrow> bool) \<Rightarrow> u8 list \<Rightarrow> nat \<Rightarrow> nat" where
  "skip_while p bs off = (if at_is bs off p then skip_while p bs (Suc off) else off)"
  by pat_completeness auto

termination
  by (relation "measure (\<lambda>(p, bs, off). length bs - off)") (auto simp: at_is_def byte_at_def split: if_splits)

declare skip_while.simps [simp del]

section \<open>The extent of a candidate\<close>

datatype number_class = Integer | Float

record number_state =
  has_dot :: bool
  has_exponent :: bool
  suffix_started :: bool
  exponent_sign_allowed :: bool

definition number_start :: number_state where
  "number_start = \<lparr>has_dot = False, has_exponent = False, suffix_started = False, exponent_sign_allowed = False\<rparr>"

definition number_byte :: "u8 list \<Rightarrow> nat \<Rightarrow> u8 \<Rightarrow> number_state \<Rightarrow> number_state option" where
  "number_byte bs off byte st =
     (if is_ascii_digit byte \<or> byte = CHR ''_'' then Some (st\<lparr>exponent_sign_allowed := False\<rparr>)
      else if is_ascii_alphabetic byte then
        (if (byte = CHR ''e'' \<or> byte = CHR ''E'') \<and> \<not> has_exponent st \<and> \<not> suffix_started st
         then Some (st\<lparr>has_exponent := True, exponent_sign_allowed := True\<rparr>)
         else Some (st\<lparr>suffix_started := True, exponent_sign_allowed := False\<rparr>))
      else if (byte = CHR ''+'' \<or> byte = CHR ''-'') \<and> exponent_sign_allowed st
      then Some (st\<lparr>exponent_sign_allowed := False\<rparr>)
      else if byte = CHR ''.'' \<and> \<not> has_dot st \<and> \<not> has_exponent st \<and> \<not> suffix_started st \<and>
        at_is bs (off + 1) is_ascii_digit
      then Some (st\<lparr>has_dot := True, exponent_sign_allowed := False\<rparr>)
      else None)"

function number_end :: "u8 list \<Rightarrow> nat \<Rightarrow> number_state \<Rightarrow> nat" where
  "number_end bs off st =
     (case byte_at bs off of
        None \<Rightarrow> off
      | Some byte \<Rightarrow> (case number_byte bs off byte st of Some st' \<Rightarrow> number_end bs (Suc off) st' | None \<Rightarrow> off))"
  by pat_completeness auto

termination
  by (relation "measure (\<lambda>(bs, off, st). length bs - off)") (auto simp: byte_at_def split: if_splits)

declare number_end.simps [simp del]

section \<open>Validation\<close>

definition strip_prefix :: "u8 list \<Rightarrow> u8 list \<Rightarrow> u8 list option" where
  "strip_prefix text pre = (if starts_with text pre then Some (drop (length pre) text) else None)"

definition strip_suffix :: "u8 list \<Rightarrow> u8 list \<Rightarrow> u8 list option" where
  "strip_suffix text suf =
     (if length suf \<le> length text \<and> drop (length text - length suf) text = suf
      then Some (take (length text - length suf) text) else None)"

fun split_suffix :: "u8 list \<Rightarrow> u8 list list \<Rightarrow> u8 list \<times> u8 list option" where
  "split_suffix text [] = (text, None)"
| "split_suffix text (suf # suffixes) =
     (case strip_suffix text suf of
        Some body \<Rightarrow> (body, Some (drop (length body) text))
      | None \<Rightarrow> split_suffix text suffixes)"

definition digit_sequence_byte :: "u8 list \<Rightarrow> nat \<Rightarrow> nat \<Rightarrow> bool" where
  "digit_sequence_byte bytes radix index =
     (if bytes ! index = CHR ''_'' then
        index > 0 \<and> index + 1 < length bytes \<and>
        is_digit radix (bytes ! (index - 1)) \<and> is_digit radix (bytes ! (index + 1))
      else is_digit radix (bytes ! index))"

definition valid_digit_sequence :: "u8 list \<Rightarrow> nat \<Rightarrow> bool" where
  "valid_digit_sequence text radix =
     (if text = [] \<or> hd text = CHR ''_'' \<or> last text = CHR ''_'' then False
      else list_all (digit_sequence_byte text radix) [0..<length text])"

definition valid_decimal_body :: "u8 list \<Rightarrow> bool" where
  "valid_decimal_body text \<longleftrightarrow>
     valid_digit_sequence text 10 \<and> (text = ''0'' \<or> \<not> starts_with text ''0'')"

definition integer_suffixes :: "u8 list list" where
  "integer_suffixes = [''isize'', ''usize'', ''i16'', ''i32'', ''i64'', ''u16'', ''u32'', ''u64'', ''i8'', ''u8'', ''i128'', ''u128'']"

definition split_radix :: "u8 list \<Rightarrow> u8 list \<times> nat" where
  "split_radix body =
     (case strip_prefix body ''0x'' of Some rest \<Rightarrow> (rest, 16)
      | None \<Rightarrow> (case strip_prefix body ''0o'' of Some rest \<Rightarrow> (rest, 8)
      | None \<Rightarrow> (case strip_prefix body ''0b'' of Some rest \<Rightarrow> (rest, 2)
      | None \<Rightarrow> (body, 10))))"

definition validate_integer :: "u8 list \<Rightarrow> bool" where
  "validate_integer text =
     (case split_suffix text integer_suffixes of (body, suffix) \<Rightarrow>
        if suffix = Some ''i128'' \<or> suffix = Some ''u128'' then False
        else case split_radix body of (digits, radix) \<Rightarrow>
          if radix = 10 \<and> length digits > 1 \<and> starts_with digits ''0'' then False
          else valid_digit_sequence digits radix)"

definition is_exponent_mark :: "u8 \<Rightarrow> bool" where
  "is_exponent_mark b \<longleftrightarrow> b = CHR ''e'' \<or> b = CHR ''E''"

definition split_exponent :: "u8 list \<Rightarrow> u8 list \<times> u8 list option" where
  "split_exponent body =
     (if list_ex is_exponent_mark body
      then (takeWhile (\<lambda>b. \<not> is_exponent_mark b) body, Some (tl (dropWhile (\<lambda>b. \<not> is_exponent_mark b) body)))
      else (body, None))"

definition valid_exponent :: "u8 list \<Rightarrow> bool" where
  "valid_exponent text =
     valid_digit_sequence (if text \<noteq> [] \<and> (hd text = CHR ''+'' \<or> hd text = CHR ''-'') then tl text else text) 10"

definition valid_mantissa :: "u8 list \<Rightarrow> bool" where
  "valid_mantissa mantissa =
     (if list_ex (\<lambda>b. b = CHR ''.'') mantissa then
        (let fraction = tl (dropWhile (\<lambda>b. b \<noteq> CHR ''.'') mantissa) in
         valid_decimal_body (takeWhile (\<lambda>b. b \<noteq> CHR ''.'') mantissa) \<and>
         valid_digit_sequence fraction 10 \<and> fraction \<noteq> [])
      else valid_decimal_body mantissa)"

definition validate_float :: "u8 list \<Rightarrow> bool" where
  "validate_float text =
     (case split_suffix text [''f16'', ''f32'', ''f64''] of (body, suffix) \<Rightarrow>
      case split_exponent body of (mantissa, exponent) \<Rightarrow>
        if (case exponent of Some value \<Rightarrow> \<not> valid_exponent value | None \<Rightarrow> False) then False
        else valid_mantissa mantissa \<and>
          (list_ex (\<lambda>b. b = CHR ''.'') mantissa \<or> exponent \<noteq> None \<or> suffix \<noteq> None))"

definition classify :: "u8 list \<Rightarrow> number_class option" where
  "classify raw =
     (if from_utf8 raw \<noteq> None then None
      else if validate_integer raw then Some Integer
      else if validate_float raw then Some Float else None)"

definition slice :: "u8 list \<Rightarrow> nat \<Rightarrow> nat \<Rightarrow> u8 list option" where
  "slice bs i j = (if i \<le> j \<and> j \<le> length bs then Some (take (j - i) (drop i bs)) else None)"

definition scan_end :: "u8 list \<Rightarrow> nat \<Rightarrow> nat" where
  "scan_end bs start =
     (if starts_with (drop start bs) ''0x'' \<or> starts_with (drop start bs) ''0o'' \<or> starts_with (drop start bs) ''0b''
      then skip_while (\<lambda>b. is_ascii_alphanumeric b \<or> b = CHR ''_'') bs (start + 2)
      else number_end bs start number_start)"

definition scan :: "u8 list \<Rightarrow> nat \<Rightarrow> (nat \<times> number_class option) option" where
  "scan bs start =
     (case slice bs start (scan_end bs start) of
        Some raw \<Rightarrow> Some (scan_end bs start, classify raw) | None \<Rightarrow> None)"

section \<open>Progress\<close>

lemma skip_while_range:
  "off \<le> length bs \<Longrightarrow> off \<le> skip_while p bs off \<and> skip_while p bs off \<le> length bs"
proof (induction p bs off rule: skip_while.induct)
  case (1 p bs off)
  then show ?case
    by (subst (1 2) skip_while.simps) (auto simp: at_is_def byte_at_def split: if_splits)
qed

lemma skip_while_all: "off \<le> i \<Longrightarrow> i < skip_while p bs off \<Longrightarrow> i < length bs \<and> p (bs ! i)"
proof (induction p bs off rule: skip_while.induct)
  case (1 p bs off)
  show ?case
  proof (cases "at_is bs off p")
    case True
    then have "skip_while p bs off = skip_while p bs (Suc off)" by (simp add: skip_while.simps)
    then show ?thesis using 1 True by (cases "i = off") (auto simp: at_is_def byte_at_def split: if_splits)
  next
    case False
    then have "skip_while p bs off = off" by (simp add: skip_while.simps)
    then show ?thesis using 1(2,3) by simp
  qed
qed

lemma skip_while_stop: "\<not> at_is bs (skip_while p bs off) p"
proof (induction p bs off rule: skip_while.induct)
  case (1 p bs off)
  then show ?case by (cases "at_is bs off p") (simp_all add: skip_while.simps [of p bs off])
qed

lemma number_end_range:
  "off \<le> length bs \<Longrightarrow> off \<le> number_end bs off st \<and> number_end bs off st \<le> length bs"
proof (induction bs off st rule: number_end.induct)
  case (1 bs off st)
  then show ?case
    by (subst (1 2) number_end.simps) (fastforce simp: byte_at_def split: option.splits if_splits)
qed

definition number_text :: "u8 \<Rightarrow> bool" where
  "number_text b \<longleftrightarrow> is_ascii_alphanumeric b \<or> b \<in> {CHR ''_'', CHR ''+'', CHR ''-'', CHR ''.''}"

lemma number_byte_text: "number_byte bs off b st = Some st' \<Longrightarrow> number_text b"
  by (auto simp: number_byte_def number_text_def is_ascii_alphanumeric_def split: if_splits)

lemma number_end_all: "off \<le> i \<Longrightarrow> i < number_end bs off st \<Longrightarrow> i < length bs \<and> number_text (bs ! i)"
proof (induction bs off st rule: number_end.induct)
  case (1 bs off st)
  show ?case
  proof (cases "off < length bs \<and> number_byte bs off (bs ! off) st \<noteq> None")
    case True
    then obtain st' where st': "number_byte bs off (bs ! off) st = Some st'" by blast
    then have "number_end bs off st = number_end bs (Suc off) st'"
      using True by (subst number_end.simps) (simp add: byte_at_def)
    then show ?thesis using 1 st' True number_byte_text [OF st'] by (cases "i = off") (auto simp: byte_at_def)
  next
    case False
    then have "number_end bs off st = off" by (subst number_end.simps) (auto simp: byte_at_def split: option.split)
    then show ?thesis using 1(2,3) by simp
  qed
qed

lemma starts_with_nth:
  assumes "starts_with (drop k bs) pat" and "k \<le> length bs"
  shows "k + length pat \<le> length bs \<and> (\<forall>i < length pat. bs ! (k + i) = pat ! i)"
proof -
  have t: "take (length pat) (drop k bs) = pat" using assms(1) by (simp add: starts_with_def)
  then have len: "k + length pat \<le> length bs" using assms(2) by (metis length_take length_drop min.cobounded1 le_diff_conv2 add.commute)
  have "bs ! (k + i) = pat ! i" if "i < length pat" for i
    using arg_cong [OF t, of "\<lambda>xs. xs ! i"] that len by simp
  then show ?thesis using len by simp
qed

definition radix_start :: "u8 list \<Rightarrow> nat \<Rightarrow> bool" where
  "radix_start bs start \<longleftrightarrow>
     starts_with (drop start bs) ''0x'' \<or> starts_with (drop start bs) ''0o'' \<or> starts_with (drop start bs) ''0b''"

lemma radix_start_bytes:
  assumes "radix_start bs start" and "start \<le> length bs"
  shows "start + 2 \<le> length bs \<and> number_text (bs ! start) \<and> number_text (bs ! Suc start)"
proof -
  obtain c where c: "starts_with (drop start bs) [CHR ''0'', c]" "number_text c"
    using assms(1) unfolding radix_start_def
    by (auto simp: number_text_def is_ascii_alphanumeric_def is_ascii_alphabetic_def)
  have n: "start + 2 \<le> length bs" "\<forall>i < 2. bs ! (start + i) = [CHR ''0'', c] ! i"
    using starts_with_nth [OF c(1) assms(2)] by (simp_all add: numeral_2_eq_2)
  have "bs ! (start + 0) = CHR ''0''" "bs ! (start + 1) = c" using n(2) [rule_format, of 0] n(2) [rule_format, of 1] by simp_all
  moreover have "number_text (CHR ''0'')" by (simp add: number_text_def is_ascii_alphanumeric_def is_ascii_digit_def)
  ultimately show ?thesis using n(1) c(2) by simp
qed

lemma scan_end_range:
  assumes "start < length bs" and "is_ascii_digit (bs ! start)"
  shows "start < scan_end bs start \<and> scan_end bs start \<le> length bs"
proof (cases "radix_start bs start")
  case True
  then have "start + 2 \<le> length bs" using radix_start_bytes assms(1) by simp
  then show ?thesis
    using True skip_while_range [of "start + 2" bs "\<lambda>b. is_ascii_alphanumeric b \<or> b = CHR ''_''"]
    by (simp add: scan_end_def radix_start_def)
next
  case False
  obtain st' where st': "number_byte bs start (bs ! start) number_start = Some st'"
    using assms(2) by (simp add: number_byte_def)
  have "number_end bs start number_start = number_end bs (Suc start) st'"
    by (subst number_end.simps) (simp add: byte_at_def assms(1) st')
  then show ?thesis using False number_end_range [of "Suc start" bs st'] assms(1) by (simp add: scan_end_def radix_start_def)
qed

lemma scan_end_all:
  assumes "start \<le> i" and "i < scan_end bs start" and "start \<le> length bs"
  shows "i < length bs \<and> number_text (bs ! i)"
proof (cases "radix_start bs start")
  case True
  note pre = radix_start_bytes [OF True assms(3)]
  consider "i = start" | "i = Suc start" | "start + 2 \<le> i" using assms(1) by linarith
  then show ?thesis
  proof cases
    case 3
    then show ?thesis
      using assms(2) True skip_while_all [of "start + 2" i "\<lambda>b. is_ascii_alphanumeric b \<or> b = CHR ''_''" bs]
      by (auto simp: scan_end_def number_text_def radix_start_def)
  qed (use pre in auto)
next
  case False
  then show ?thesis using assms number_end_all by (simp add: scan_end_def radix_start_def)
qed

end
