(* ===== verification/Lexer.thy ===== *)
theory Lexer
  imports Lexer_Number "HOL-Library.Monad_Syntax"
begin

text \<open>
  The lossless lexer, \<open>src/src/lexer.rs\<close>, over the spans and diagnostics of \<open>diagnostic.rs\<close>. Every slice, index
  and \<open>expect\<close> that could panic is an option, so \<open>None\<close> is a panic of the lexer; \<open>Lexer_Sound\<close> shows that
  it never happens. Keyword and punctuation constructors carry the prefixes \<open>K\<close> and \<open>P\<close>.
\<close>

section \<open>Tokens and diagnostics\<close>

datatype (plugins only: code size) keyword_kind =
    KAs | KAssert | KBreak | KConst | KContinue | KDecreases | KElse | KEnum | KEnsures | KExists
    | KExtern | KFalse | KFn | KFor | KForall | KGhost | KIf | KIn | KInvariant | KLet | KMatch
    | KModule | KMove | KMut | KNull | KProof | KPtr | KPub | KRaw | KReads | KRegion | KRequires
    | KResult | KReturn | KSelfValue | KSpawn | KStatic | KStruct | KTheorem | KTrue | KTrusted | KType
    | KUse | KWhere | KWhile | KWrites

datatype (plugins only: code size) punctuation_kind =
    PLeftParen | PRightParen | PLeftBrace | PRightBrace | PLeftBracket | PRightBracket | PComma
    | PSemicolon | PColon | PDot | PQuestion | PPlus | PMinus | PStar | PSlash | PPercent | PAmp | PPipe
    | PCaret | PBang | PTilde | PLess | PGreater | PEqual | PPathSeparator | PArrow | PFatArrow | PRange
    | PRangeInclusive | PLogicalAnd | PLogicalOr | PEqualEqual | PNotEqual | PLessEqual | PGreaterEqual
    | PShiftLeft | PShiftRight | PPlusEqual | PMinusEqual | PStarEqual | PSlashEqual | PPercentEqual
    | PAmpEqual | PPipeEqual | PCaretEqual | PShiftLeftEqual | PShiftRightEqual

datatype lex_error_kind =
    InvalidUtf8 | UnexpectedBom | NulByte | InvalidWhitespace | UnterminatedBlockComment | InvalidNumber
    | InvalidLiteral | UnexpectedByte

datatype token_kind =
    InitialBom | Whitespace | LineComment | BlockComment | Identifier | Underscore | IntegerLiteral
  | FloatLiteral | CharLiteral | ByteCharLiteral | StringLiteral | ByteStringLiteral | Lifetime
  | Keyword keyword_kind | Punctuation punctuation_kind | LexError lex_error_kind | Eof

definition is_trivia :: "token_kind \<Rightarrow> bool" where
  "is_trivia k \<longleftrightarrow> k = InitialBom \<or> k = Whitespace \<or> k = LineComment \<or> k = BlockComment"

record byte_span =
  sp_start :: nat
  sp_end :: nat

definition span_new :: "nat \<Rightarrow> nat \<Rightarrow> byte_span option" where
  "span_new i j = (if i \<le> j then Some \<lparr>sp_start = i, sp_end = j\<rparr> else None)"

definition span_is_empty :: "byte_span \<Rightarrow> bool" where
  "span_is_empty sp \<longleftrightarrow> sp_start sp = sp_end sp"

datatype severity = SevError | SevWarning | SevNote | SevHelp

record diagnostic =
  dg_severity :: severity
  dg_message :: string
  dg_primary_span :: "byte_span option"

definition diagnostic_error :: "string \<Rightarrow> diagnostic" where
  "diagnostic_error message = \<lparr>dg_severity = SevError, dg_message = message, dg_primary_span = None\<rparr>"

definition with_primary_span :: "byte_span \<Rightarrow> diagnostic \<Rightarrow> diagnostic" where
  "with_primary_span sp d = d\<lparr>dg_primary_span := Some sp\<rparr>"

record token =
  tk_kind :: token_kind
  tk_span :: byte_span

definition raw :: "token \<Rightarrow> u8 list \<Rightarrow> u8 list option" where
  "raw t bytes = slice bytes (sp_start (tk_span t)) (sp_end (tk_span t))"

record lex_issue =
  li_kind :: lex_error_kind
  li_diagnostic :: diagnostic

record lexed =
  lx_tokens :: "token list"
  lx_issues :: "lex_issue list"

fun contiguous_from :: "nat \<Rightarrow> nat \<Rightarrow> token list \<Rightarrow> bool" where
  "contiguous_from source_len expected [] \<longleftrightarrow> expected = source_len"
| "contiguous_from source_len expected (t # ts) \<longleftrightarrow>
     (if sp_start (tk_span t) \<noteq> expected \<or> sp_end (tk_span t) > source_len \<or> span_is_empty (tk_span t)
      then False else contiguous_from source_len (sp_end (tk_span t)) ts)"

definition has_bounded_contiguous_spans :: "lexed \<Rightarrow> nat \<Rightarrow> bool" where
  "has_bounded_contiguous_spans lx source_len =
     (if lx_tokens lx = [] then False
      else let eof = last (lx_tokens lx) in
        if tk_kind eof \<noteq> Eof \<or> sp_start (tk_span eof) \<noteq> source_len \<or> sp_end (tk_span eof) \<noteq> source_len then False
        else contiguous_from source_len 0 (butlast (lx_tokens lx)))"

section \<open>Spellings\<close>

definition keyword_table :: "(string \<times> keyword_kind) list" where
  "keyword_table =
    [(''as'', KAs), (''assert'', KAssert), (''break'', KBreak), (''const'', KConst)
     , (''continue'', KContinue), (''decreases'', KDecreases), (''else'', KElse), (''enum'', KEnum)
     , (''ensures'', KEnsures), (''exists'', KExists), (''extern'', KExtern), (''false'', KFalse)
     , (''fn'', KFn), (''for'', KFor), (''forall'', KForall), (''ghost'', KGhost), (''if'', KIf)
     , (''in'', KIn), (''invariant'', KInvariant), (''let'', KLet), (''match'', KMatch)
     , (''module'', KModule), (''move'', KMove), (''mut'', KMut), (''null'', KNull), (''proof'', KProof)
     , (''ptr'', KPtr), (''pub'', KPub), (''raw'', KRaw), (''reads'', KReads), (''region'', KRegion)
     , (''requires'', KRequires), (''result'', KResult), (''return'', KReturn), (''self'', KSelfValue)
     , (''spawn'', KSpawn), (''static'', KStatic), (''struct'', KStruct), (''theorem'', KTheorem)
     , (''true'', KTrue), (''trusted'', KTrusted), (''type'', KType), (''use'', KUse)
     , (''where'', KWhere), (''while'', KWhile), (''writes'', KWrites)]"

definition keyword :: "u8 list \<Rightarrow> keyword_kind option" where
  "keyword text = map_of keyword_table text"

definition punctuation_table :: "(u8 \<times> punctuation_kind) list" where
  "punctuation_table =
    [(CHR ''('', PLeftParen), (CHR '')'', PRightParen), (CHR ''{'', PLeftBrace), (CHR ''}'', PRightBrace)
     , (CHR ''['', PLeftBracket), (CHR '']'', PRightBracket), (CHR '','', PComma)
     , (CHR '';'', PSemicolon), (CHR '':'', PColon), (CHR ''.'', PDot), (CHR ''?'', PQuestion)
     , (CHR ''+'', PPlus), (CHR ''-'', PMinus), (CHR ''*'', PStar), (CHR ''/'', PSlash)
     , (CHR ''%'', PPercent), (CHR ''&'', PAmp), (CHR ''|'', PPipe), (CHR ''^'', PCaret)
     , (CHR ''!'', PBang), (CHR ''~'', PTilde), (CHR ''<'', PLess), (CHR ''>'', PGreater)
     , (CHR ''='', PEqual)]"

definition punctuation :: "u8 \<Rightarrow> punctuation_kind option" where
  "punctuation b = map_of punctuation_table b"

definition MULTI :: "(u8 list \<times> punctuation_kind) list" where
  "MULTI =
    [(''<<='', PShiftLeftEqual), (''>>='', PShiftRightEqual), (''..='', PRangeInclusive)
     , (''::'', PPathSeparator), (''->'', PArrow), (''=>'', PFatArrow), (''..'', PRange)
     , (''&&'', PLogicalAnd), (''||'', PLogicalOr), (''=='', PEqualEqual), (''!='', PNotEqual)
     , (''<='', PLessEqual), (''>='', PGreaterEqual), (''<<'', PShiftLeft), (''>>'', PShiftRight)
     , (''+='', PPlusEqual), (''-='', PMinusEqual), (''*='', PStarEqual), (''/='', PSlashEqual)
     , (''%='', PPercentEqual), (''&='', PAmpEqual), (''|='', PPipeEqual), (''^='', PCaretEqual)]"

definition longest_punctuation :: "u8 list \<Rightarrow> (punctuation_kind \<times> nat) option" where
  "longest_punctuation bytes =
     (case find (\<lambda>(spelling, _). spelling \<noteq> [] \<and> starts_with bytes spelling) MULTI of
        Some (spelling, p) \<Rightarrow> Some (p, length spelling)
      | None \<Rightarrow> do { b \<leftarrow> byte_at bytes 0; p \<leftarrow> punctuation b; Some (p, 1) })"

definition lex_error_message :: "lex_error_kind \<Rightarrow> string" where
  "lex_error_message kind = (case kind of
       InvalidUtf8 \<Rightarrow> ''source contains invalid UTF-8''
     | UnexpectedBom \<Rightarrow> ''UTF-8 BOM is only allowed at the start of a file''
     | NulByte \<Rightarrow> ''source contains a NUL byte''
     | InvalidWhitespace \<Rightarrow> ''whitespace is not allowed by the Nera source profile''
     | UnterminatedBlockComment \<Rightarrow> ''unterminated block comment''
     | InvalidNumber \<Rightarrow> ''invalid numeric literal''
     | InvalidLiteral \<Rightarrow> ''invalid or unterminated quoted literal''
     | UnexpectedByte \<Rightarrow> ''byte cannot start a Nera token'')"

section \<open>Scalars\<close>

definition utf8_width :: "u8 \<Rightarrow> nat" where
  "utf8_width first =
     (if byte_val first \<le> 0x7f then 1
      else if 0xc2 \<le> byte_val first \<and> byte_val first \<le> 0xdf then 2
      else if 0xe0 \<le> byte_val first \<and> byte_val first \<le> 0xef then 3
      else if 0xf0 \<le> byte_val first \<and> byte_val first \<le> 0xf4 then 4 else 0)"

definition decode_scalar :: "u8 list \<Rightarrow> (nat \<times> nat) option" where
  "decode_scalar bytes =
     (case bytes of
        [] \<Rightarrow> None
      | first # _ \<Rightarrow>
          (let width = utf8_width first in
           if width = 0 \<or> length bytes < width then None
           else case from_utf8 (take width bytes) of
             None \<Rightarrow> Some (scalar_value (take width bytes), width)
           | Some _ \<Rightarrow> None))"

definition invalid_utf8_width :: "u8 list \<Rightarrow> nat option" where
  "invalid_utf8_width bytes =
     (case from_utf8 bytes of
        None \<Rightarrow> None
      | Some e \<Rightarrow>
          Some (if valid_up_to e > 0 then 1
                else min (case error_len e of Some n \<Rightarrow> n | None \<Rightarrow> length bytes) (length bytes)))"

definition contains_bom :: "u8 list \<Rightarrow> bool" where
  "contains_bom text = list_ex (\<lambda>i. starts_with (drop i text) bom) [0..<length text]"

definition global_text_error :: "u8 list \<Rightarrow> lex_error_kind option" where
  "global_text_error text =
     (if from_utf8 text \<noteq> None then Some InvalidUtf8
      else if CHR 0x00 \<in> set text then Some NulByte
      else if contains_bom text then Some UnexpectedBom else None)"

definition is_identifier_byte :: "u8 \<Rightarrow> bool" where
  "is_identifier_byte b \<longleftrightarrow> is_ascii_alphanumeric b \<or> b = CHR ''_''"

definition is_identifier_candidate_byte :: "u8 \<Rightarrow> bool" where
  "is_identifier_candidate_byte b \<longleftrightarrow> is_ascii_alphanumeric b \<or> b = CHR ''_'' \<or> byte_val b \<ge> 0x80"

section \<open>Quoted literals\<close>

abbreviation LF :: u8 where "LF \<equiv> CHR 0x0A"
abbreviation CR :: u8 where "CR \<equiv> CHR 0x0D"
abbreviation TAB :: u8 where "TAB \<equiv> CHR 0x09"
abbreviation BACKSLASH :: u8 where "BACKSLASH \<equiv> CHR 0x5C"
abbreviation QUOTE :: u8 where "QUOTE \<equiv> CHR 0x27"
abbreviation DQUOTE :: u8 where "DQUOTE \<equiv> CHR 0x22"

datatype apostrophe_kind = Quoted nat | LifetimeForm nat | Invalid nat

function quoted_end_from :: "u8 list \<Rightarrow> u8 \<Rightarrow> bool \<Rightarrow> nat \<Rightarrow> nat option" where
  "quoted_end_from bytes quote escaped offset =
     (case byte_at bytes offset of
        None \<Rightarrow> None
      | Some byte \<Rightarrow>
          if \<not> escaped \<and> byte = quote then Some (offset + 1)
          else if \<not> escaped \<and> (byte = LF \<or> byte = CR \<or> byte = CHR 0x00) then None
          else quoted_end_from bytes quote (\<not> escaped \<and> byte = BACKSLASH) (offset + 1))"
  by pat_completeness auto

termination
  by (relation "measure (\<lambda>(bytes, quote, escaped, offset). length bytes - offset)")
    (auto simp: byte_at_def split: if_splits)

declare quoted_end_from.simps [simp del]

definition quoted_end :: "u8 list \<Rightarrow> nat \<Rightarrow> u8 \<Rightarrow> nat option" where
  "quoted_end bytes quote_index quote = quoted_end_from bytes quote False (quote_index + 1)"

definition unterminated_quoted_end :: "u8 list \<Rightarrow> nat \<Rightarrow> nat" where
  "unterminated_quoted_end bytes offset = skip_while (\<lambda>b. b \<noteq> LF \<and> b \<noteq> CR) bytes offset"

definition apostrophe_form :: "u8 list \<Rightarrow> nat \<Rightarrow> apostrophe_kind option" where
  "apostrophe_form bytes quote_index =
     (let content_start = quote_index + 1 in
      case byte_at bytes content_start of
        None \<Rightarrow> Some (Invalid content_start)
      | Some first \<Rightarrow>
          if first = LF \<or> first = CR \<or> first = CHR 0x00 then Some (Invalid content_start)
          else if first = BACKSLASH then
            (case quoted_end bytes quote_index QUOTE of
               Some fin \<Rightarrow> Some (Quoted fin)
             | None \<Rightarrow> Some (Invalid (unterminated_quoted_end bytes content_start)))
          else if is_identifier_candidate_byte first then
            (let fin = skip_while is_identifier_candidate_byte bytes content_start in
             if byte_at bytes fin = Some QUOTE then Some (Quoted (fin + 1)) else Some (LifetimeForm fin))
          else do {
            rest \<leftarrow> slice bytes content_start (length bytes);
            case decode_scalar rest of
              None \<Rightarrow> do { n \<leftarrow> invalid_utf8_width rest; Some (Invalid (content_start + n)) }
            | Some (_, width) \<Rightarrow>
                let scalar_end = content_start + width in
                if byte_at bytes scalar_end = Some QUOTE then Some (Quoted (scalar_end + 1))
                else Some (Invalid scalar_end) })"

definition u32_from_hex :: "u8 list \<Rightarrow> nat option" where
  "u32_from_hex hex =
     (if hex = [] \<or> \<not> list_all is_ascii_hexdigit hex then None
      else let v = foldl (\<lambda>acc b. 16 * acc + the (digit_value b)) 0 hex in
        if v < 4294967296 then Some v else None)"

definition unicode_escape_end :: "u8 list \<Rightarrow> nat \<Rightarrow> nat option" where
  "unicode_escape_end content offset =
     (let digits_start = offset + 2; fin = skip_while is_ascii_hexdigit content digits_start in
      if fin = digits_start \<or> fin - digits_start > 6 \<or> byte_at content fin \<noteq> Some (CHR 0x7D) then None
      else do {
        hex \<leftarrow> slice content digits_start fin;
        if from_utf8 hex \<noteq> None then None
        else do { v \<leftarrow> u32_from_hex hex; _ \<leftarrow> char_from_u32 v; Some (fin + 1) } })"

definition escape_end :: "u8 list \<Rightarrow> bool \<Rightarrow> nat \<Rightarrow> nat option" where
  "escape_end content byte_literal offset =
     (case byte_at content offset of
        None \<Rightarrow> None
      | Some escape \<Rightarrow>
          if escape \<in> {BACKSLASH, DQUOTE, QUOTE, CHR ''n'', CHR ''r'', CHR ''t'', CHR ''0''} then Some (offset + 1)
          else if escape = CHR ''x'' then
            (if \<not> at_is content (offset + 1) is_ascii_hexdigit \<or> \<not> at_is content (offset + 2) is_ascii_hexdigit then None
             else Some (offset + 3))
          else if escape = CHR ''u'' \<and> \<not> byte_literal \<and> byte_at content (offset + 1) = Some (CHR 0x7B)
          then unicode_escape_end content offset
          else None)"

lemma decode_scalar_width: "decode_scalar bs = Some (v, w) \<Longrightarrow> 0 < w \<and> w \<le> length bs"
  by (cases bs) (auto simp: decode_scalar_def Let_def split: if_splits option.splits)

lemma escape_end_progress: "escape_end content b offset = Some fin \<Longrightarrow> offset < fin"
  using skip_while_range [of "offset + 2" content is_ascii_hexdigit]
  by (auto simp: escape_end_def unicode_escape_end_def Let_def slice_def split: option.splits if_splits Option.bind_splits)

function validate_content :: "u8 list \<Rightarrow> bool \<Rightarrow> nat \<Rightarrow> nat \<Rightarrow> nat option" where
  "validate_content content byte_literal offset scalars =
     (if offset < length content then
        let byte = content ! offset in
        if byte = LF \<or> byte = CR \<or> byte = CHR 0x00 then None
        else if byte \<noteq> BACKSLASH then
          (case decode_scalar (drop offset content) of
             None \<Rightarrow> None
           | Some (scalar, width) \<Rightarrow>
               if byte_literal \<and> \<not> scalar < 128 then None
               else validate_content content byte_literal (offset + width) (scalars + 1))
        else (case escape_end content byte_literal (offset + 1) of
             None \<Rightarrow> None
           | Some fin \<Rightarrow> validate_content content byte_literal fin (scalars + 1))
      else Some scalars)"
  by pat_completeness auto

termination
  by (relation "measure (\<lambda>(content, b, offset, scalars). length content - offset)")
    (auto dest!: decode_scalar_width escape_end_progress)

declare validate_content.simps [simp del]

definition validate_quoted :: "u8 list \<Rightarrow> bool \<Rightarrow> bool \<Rightarrow> bool" where
  "validate_quoted text byte_literal require_one_scalar =
     (let pre = (if byte_literal then 1 else 0) in
      if from_utf8 text \<noteq> None then False
      else if length text < pre + 2 then False
      else case validate_content (take (length text - 1 - (pre + 1)) (drop (pre + 1) text)) byte_literal 0 0 of
        None \<Rightarrow> False
      | Some scalars \<Rightarrow> \<not> require_one_scalar \<or> scalars = 1)"

section \<open>The lexer\<close>

record lexer =
  l_bytes :: "u8 list"
  l_offset :: nat
  l_tokens :: "token list"
  l_issues :: "lex_issue list"

definition lexer_new :: "u8 list \<Rightarrow> lexer" where
  "lexer_new bytes = \<lparr>l_bytes = bytes, l_offset = 0, l_tokens = [], l_issues = []\<rparr>"

definition push :: "token_kind \<Rightarrow> nat \<Rightarrow> nat \<Rightarrow> lexer \<Rightarrow> lexer option" where
  "push kind start fin lx = do {
     span \<leftarrow> span_new start fin;
     Some (lx\<lparr>l_tokens := l_tokens lx @ [\<lparr>tk_kind = kind, tk_span = span\<rparr>]\<rparr>) }"

definition push_error :: "lex_error_kind \<Rightarrow> nat \<Rightarrow> nat \<Rightarrow> lexer \<Rightarrow> lexer option" where
  "push_error kind start fin lx = do {
     span \<leftarrow> span_new start fin;
     Some (lx\<lparr>l_tokens := l_tokens lx @ [\<lparr>tk_kind = LexError kind, tk_span = span\<rparr>],
       l_issues := l_issues lx @ [\<lparr>li_kind = kind,
         li_diagnostic = with_primary_span span (diagnostic_error (lex_error_message kind))\<rparr>]\<rparr>) }"

definition push_text_checked :: "token_kind \<Rightarrow> nat \<Rightarrow> nat \<Rightarrow> lexer \<Rightarrow> lexer option" where
  "push_text_checked kind start fin lx = do {
     text \<leftarrow> slice (l_bytes lx) start fin;
     case global_text_error text of
       Some e \<Rightarrow> push_error e start fin lx
     | None \<Rightarrow> push kind start fin lx }"

function whitespace_end :: "u8 list \<Rightarrow> nat \<Rightarrow> nat" where
  "whitespace_end bytes offset =
     (if offset < length bytes then
        (if bytes ! offset = CHR '' '' \<or> bytes ! offset = TAB \<or> bytes ! offset = LF
         then whitespace_end bytes (offset + 1)
         else if bytes ! offset = CR \<and> byte_at bytes (offset + 1) = Some LF
         then whitespace_end bytes (offset + 2)
         else offset)
      else offset)"
  by pat_completeness auto

termination
  by (relation "measure (\<lambda>(bytes, offset). length bytes - offset)") auto

declare whitespace_end.simps [simp del]

definition scan_whitespace :: "lexer \<Rightarrow> lexer option" where
  "scan_whitespace lx =
     (let start = l_offset lx; fin = whitespace_end (l_bytes lx) start in
      push Whitespace start fin (lx\<lparr>l_offset := fin\<rparr>))"

definition scan_line_comment :: "lexer \<Rightarrow> lexer option" where
  "scan_line_comment lx =
     (let start = l_offset lx; fin = skip_while (\<lambda>b. b \<noteq> LF \<and> b \<noteq> CR) (l_bytes lx) (start + 2) in
      push_text_checked LineComment start fin (lx\<lparr>l_offset := fin\<rparr>))"

text \<open>The position where the loop stops and whether the comment was closed there.\<close>

function comment_end :: "u8 list \<Rightarrow> nat \<Rightarrow> nat \<Rightarrow> nat \<times> bool" where
  "comment_end bytes depth offset =
     (if offset < length bytes then
        (if starts_with (drop offset bytes) ''/*'' then comment_end bytes (depth + 1) (offset + 2)
         else if starts_with (drop offset bytes) ''*/'' then
           (if depth - 1 = 0 then (offset + 2, True) else comment_end bytes (depth - 1) (offset + 2))
         else comment_end bytes depth (offset + 1))
      else (offset, False))"
  by pat_completeness auto

termination
  by (relation "measure (\<lambda>(bytes, depth, offset). length bytes - offset)") auto

declare comment_end.simps [simp del]

definition scan_block_comment :: "lexer \<Rightarrow> lexer option" where
  "scan_block_comment lx =
     (let start = l_offset lx in
      case comment_end (l_bytes lx) 1 (start + 2) of
        (fin, True) \<Rightarrow> push_text_checked BlockComment start fin (lx\<lparr>l_offset := fin\<rparr>)
      | (fin, False) \<Rightarrow> push_error UnterminatedBlockComment start fin (lx\<lparr>l_offset := fin\<rparr>))"

definition identifier_kind :: "u8 list \<Rightarrow> token_kind" where
  "identifier_kind text =
     (if text = ''_'' then Underscore
      else case keyword text of Some k \<Rightarrow> Keyword k | None \<Rightarrow> Identifier)"

definition scan_ascii_identifier :: "lexer \<Rightarrow> lexer option" where
  "scan_ascii_identifier lx =
     (let start = l_offset lx; fin = skip_while is_identifier_byte (l_bytes lx) (start + 1) in do {
        text \<leftarrow> slice (l_bytes lx) start fin;
        push (identifier_kind text) start fin (lx\<lparr>l_offset := fin\<rparr>) })"

definition scan_number :: "lexer \<Rightarrow> lexer option" where
  "scan_number lx =
     (let start = l_offset lx in do {
        (fin, class') \<leftarrow> scan (l_bytes lx) start;
        case class' of
          Some Integer \<Rightarrow> push IntegerLiteral start fin (lx\<lparr>l_offset := fin\<rparr>)
        | Some Float \<Rightarrow> push FloatLiteral start fin (lx\<lparr>l_offset := fin\<rparr>)
        | None \<Rightarrow> push_error InvalidNumber start fin (lx\<lparr>l_offset := fin\<rparr>) })"

definition scan_apostrophe :: "lexer \<Rightarrow> lexer option" where
  "scan_apostrophe lx =
     (let start = l_offset lx in do {
        form \<leftarrow> apostrophe_form (l_bytes lx) start;
        case form of
          Quoted fin \<Rightarrow> do {
            text \<leftarrow> slice (l_bytes lx) start fin;
            case global_text_error text of
              Some e \<Rightarrow> push_error e start fin (lx\<lparr>l_offset := fin\<rparr>)
            | None \<Rightarrow>
                if validate_quoted text False True then push CharLiteral start fin (lx\<lparr>l_offset := fin\<rparr>)
                else push_error InvalidLiteral start fin (lx\<lparr>l_offset := fin\<rparr>) }
        | LifetimeForm fin \<Rightarrow> push_text_checked Lifetime start fin (lx\<lparr>l_offset := fin\<rparr>)
        | Invalid fin \<Rightarrow> push_error InvalidLiteral start fin (lx\<lparr>l_offset := fin\<rparr>) })"

definition literal_kind :: "bool \<Rightarrow> bool \<Rightarrow> token_kind" where
  "literal_kind byte_literal is_char =
     (if byte_literal then (if is_char then ByteCharLiteral else ByteStringLiteral)
      else (if is_char then CharLiteral else StringLiteral))"

definition finish_quoted :: "bool \<Rightarrow> bool \<Rightarrow> nat \<Rightarrow> nat \<Rightarrow> lexer \<Rightarrow> lexer option" where
  "finish_quoted byte_literal is_char start fin lx = do {
     text \<leftarrow> slice (l_bytes lx) start fin;
     case global_text_error text of
       Some e \<Rightarrow> push_error e start fin (lx\<lparr>l_offset := fin\<rparr>)
     | None \<Rightarrow>
         if \<not> validate_quoted text byte_literal is_char then push_error InvalidLiteral start fin (lx\<lparr>l_offset := fin\<rparr>)
         else push (literal_kind byte_literal is_char) start fin (lx\<lparr>l_offset := fin\<rparr>) }"

definition scan_quoted :: "bool \<Rightarrow> lexer \<Rightarrow> lexer option" where
  "scan_quoted byte_literal lx =
     (let start = l_offset lx; quote_index = start + (if byte_literal then 1 else 0) in do {
        quote \<leftarrow> byte_at (l_bytes lx) quote_index;
        if quote = QUOTE then do {
          form \<leftarrow> apostrophe_form (l_bytes lx) quote_index;
          case form of
            Quoted fin \<Rightarrow> finish_quoted byte_literal True start fin lx
          | LifetimeForm fin \<Rightarrow> push_error InvalidLiteral start fin (lx\<lparr>l_offset := fin\<rparr>)
          | Invalid fin \<Rightarrow> push_error InvalidLiteral start fin (lx\<lparr>l_offset := fin\<rparr>) }
        else case quoted_end (l_bytes lx) quote_index quote of
            None \<Rightarrow>
              (let fin = unterminated_quoted_end (l_bytes lx) (quote_index + 1) in
               push_error InvalidLiteral start fin (lx\<lparr>l_offset := fin\<rparr>))
          | Some fin \<Rightarrow> finish_quoted byte_literal False start fin lx })"

definition scan_punctuation :: "lexer \<Rightarrow> lexer option" where
  "scan_punctuation lx =
     (let start = l_offset lx in do {
        rest \<leftarrow> slice (l_bytes lx) start (length (l_bytes lx));
        (p, width) \<leftarrow> longest_punctuation rest;
        push (Punctuation p) start (start + width) (lx\<lparr>l_offset := start + width\<rparr>) })"

function unicode_identifier_end :: "u8 list \<Rightarrow> nat \<Rightarrow> nat" where
  "unicode_identifier_end bytes offset =
     (if offset < length bytes then
        (if is_identifier_byte (bytes ! offset) then unicode_identifier_end bytes (offset + 1)
         else if byte_val (bytes ! offset) < 0x80 then offset
         else case decode_scalar (drop offset bytes) of
           None \<Rightarrow> offset
         | Some (scalar, width) \<Rightarrow>
             if char_is_whitespace scalar \<or> scalar = 0xFEFF then offset
             else unicode_identifier_end bytes (offset + width))
      else offset)"
  by pat_completeness auto

termination
  by (relation "measure (\<lambda>(bytes, offset). length bytes - offset)") (auto dest!: decode_scalar_width)

declare unicode_identifier_end.simps [simp del]

definition scan_unicode_or_invalid :: "lexer \<Rightarrow> lexer option" where
  "scan_unicode_or_invalid lx =
     (let start = l_offset lx in do {
        rest \<leftarrow> slice (l_bytes lx) start (length (l_bytes lx));
        case decode_scalar rest of
          None \<Rightarrow> do {
            n \<leftarrow> invalid_utf8_width rest;
            push_error InvalidUtf8 start (start + n) (lx\<lparr>l_offset := start + n\<rparr>) }
        | Some (first, width) \<Rightarrow>
            if first = 0xFEFF then push_error UnexpectedBom start (start + width) (lx\<lparr>l_offset := start + width\<rparr>)
            else if char_is_whitespace first
            then push_error InvalidWhitespace start (start + width) (lx\<lparr>l_offset := start + width\<rparr>)
            else (let fin = unicode_identifier_end (l_bytes lx) (start + width) in
              push Identifier start fin (lx\<lparr>l_offset := fin\<rparr>)) })"

definition scan_one :: "lexer \<Rightarrow> lexer option" where
  "scan_one lx =
     (let start = l_offset lx; bytes = l_bytes lx in do {
        rest \<leftarrow> slice bytes start (length bytes);
        if starts_with rest bom then
          (if start = 0 then push InitialBom start (start + 3) (lx\<lparr>l_offset := start + 3\<rparr>)
           else push_error UnexpectedBom start (start + 3) (lx\<lparr>l_offset := start + 3\<rparr>))
        else do {
          byte \<leftarrow> byte_at bytes start;
          let following = byte_at bytes (start + 1);
          if byte = CHR '' '' \<or> byte = TAB \<or> byte = LF then scan_whitespace lx
          else if byte = CR \<and> following = Some LF then scan_whitespace lx
          else if byte = CR then push_error InvalidWhitespace start (start + 1) (lx\<lparr>l_offset := start + 1\<rparr>)
          else if byte = CHR 0x00 then push_error NulByte start (start + 1) (lx\<lparr>l_offset := start + 1\<rparr>)
          else if byte = CHR ''/'' \<and> following = Some (CHR ''/'') then scan_line_comment lx
          else if byte = CHR ''/'' \<and> following = Some (CHR ''*'') then scan_block_comment lx
          else if byte = CHR ''b'' \<and> (following = Some QUOTE \<or> following = Some DQUOTE) then scan_quoted True lx
          else if is_ascii_alphabetic byte \<or> byte = CHR ''_'' then scan_ascii_identifier lx
          else if is_ascii_digit byte then scan_number lx
          else if byte = QUOTE then scan_apostrophe lx
          else if byte = DQUOTE then scan_quoted False lx
          else if punctuation byte \<noteq> None then scan_punctuation lx
          else if byte_val byte \<ge> 0x80 then scan_unicode_or_invalid lx
          else push_error UnexpectedByte start (start + 1) (lx\<lparr>l_offset := start + 1\<rparr>) } })"

partial_function (option) run :: "lexer \<Rightarrow> lexed option" where
  "run lx =
     (if l_offset lx < length (l_bytes lx) then Option.bind (scan_one lx) run
      else do {
        lx' \<leftarrow> push Eof (l_offset lx) (l_offset lx) lx;
        Some \<lparr>lx_tokens = l_tokens lx', lx_issues = l_issues lx'\<rparr> })"

declare run.simps [code]

definition lex :: "u8 list \<Rightarrow> lexed option" where
  "lex bytes = run (lexer_new bytes)"

end
