(* ===== verification/Lexer_Grammar.thy ===== *)
theory Lexer_Grammar
  imports Lexer
begin

text \<open>
  A lexical grammar of the language, stated without the code of the lexer: what the text of a token of each kind looks
  like, after sections 2 to 5 of \<open>docs/language-spec.md\<close>. The second half shows that the texts the scanners and
  validators of \<open>lexer.rs\<close> and \<open>number.rs\<close> accept are of these forms.
\<close>

section \<open>Spellings\<close>

fun keyword_spelling :: "keyword_kind \<Rightarrow> string" where
  "keyword_spelling KAs = ''as''" | "keyword_spelling KAssert = ''assert''" | "keyword_spelling KBreak = ''break''"
| "keyword_spelling KConst = ''const''" | "keyword_spelling KContinue = ''continue''" | "keyword_spelling KDecreases = ''decreases''"
| "keyword_spelling KElse = ''else''" | "keyword_spelling KEnum = ''enum''" | "keyword_spelling KEnsures = ''ensures''"
| "keyword_spelling KExists = ''exists''" | "keyword_spelling KExtern = ''extern''" | "keyword_spelling KFalse = ''false''"
| "keyword_spelling KFn = ''fn''" | "keyword_spelling KFor = ''for''" | "keyword_spelling KForall = ''forall''"
| "keyword_spelling KGhost = ''ghost''" | "keyword_spelling KIf = ''if''" | "keyword_spelling KIn = ''in''"
| "keyword_spelling KInvariant = ''invariant''" | "keyword_spelling KLet = ''let''" | "keyword_spelling KMatch = ''match''"
| "keyword_spelling KModule = ''module''" | "keyword_spelling KMove = ''move''" | "keyword_spelling KMut = ''mut''"
| "keyword_spelling KNull = ''null''" | "keyword_spelling KProof = ''proof''" | "keyword_spelling KPtr = ''ptr''"
| "keyword_spelling KPub = ''pub''" | "keyword_spelling KRaw = ''raw''" | "keyword_spelling KReads = ''reads''"
| "keyword_spelling KRegion = ''region''" | "keyword_spelling KRequires = ''requires''" | "keyword_spelling KResult = ''result''"
| "keyword_spelling KReturn = ''return''" | "keyword_spelling KSelfValue = ''self''" | "keyword_spelling KSpawn = ''spawn''"
| "keyword_spelling KStatic = ''static''" | "keyword_spelling KStruct = ''struct''" | "keyword_spelling KTheorem = ''theorem''"
| "keyword_spelling KTrue = ''true''" | "keyword_spelling KTrusted = ''trusted''" | "keyword_spelling KType = ''type''"
| "keyword_spelling KUse = ''use''" | "keyword_spelling KWhere = ''where''" | "keyword_spelling KWhile = ''while''"
| "keyword_spelling KWrites = ''writes''"

fun punctuation_spelling :: "punctuation_kind \<Rightarrow> string" where
  "punctuation_spelling PLeftParen = ''(''" | "punctuation_spelling PRightParen = '')''" | "punctuation_spelling PLeftBrace = ''{''"
| "punctuation_spelling PRightBrace = ''}''" | "punctuation_spelling PLeftBracket = ''[''" | "punctuation_spelling PRightBracket = '']''"
| "punctuation_spelling PComma = '',''" | "punctuation_spelling PSemicolon = '';''" | "punctuation_spelling PColon = '':''"
| "punctuation_spelling PDot = ''.''" | "punctuation_spelling PQuestion = ''?''" | "punctuation_spelling PPlus = ''+''"
| "punctuation_spelling PMinus = ''-''" | "punctuation_spelling PStar = ''*''" | "punctuation_spelling PSlash = ''/''"
| "punctuation_spelling PPercent = ''%''" | "punctuation_spelling PAmp = ''&''" | "punctuation_spelling PPipe = ''|''"
| "punctuation_spelling PCaret = ''^''" | "punctuation_spelling PBang = ''!''" | "punctuation_spelling PTilde = ''~''"
| "punctuation_spelling PLess = ''<''" | "punctuation_spelling PGreater = ''>''" | "punctuation_spelling PEqual = ''=''"
| "punctuation_spelling PPathSeparator = ''::''" | "punctuation_spelling PArrow = ''->''" | "punctuation_spelling PFatArrow = ''=>''"
| "punctuation_spelling PRange = ''..''" | "punctuation_spelling PRangeInclusive = ''..=''" | "punctuation_spelling PLogicalAnd = ''&&''"
| "punctuation_spelling PLogicalOr = ''||''" | "punctuation_spelling PEqualEqual = ''==''" | "punctuation_spelling PNotEqual = ''!=''"
| "punctuation_spelling PLessEqual = ''<=''" | "punctuation_spelling PGreaterEqual = ''>=''" | "punctuation_spelling PShiftLeft = ''<<''"
| "punctuation_spelling PShiftRight = ''>>''" | "punctuation_spelling PPlusEqual = ''+=''" | "punctuation_spelling PMinusEqual = ''-=''"
| "punctuation_spelling PStarEqual = ''*=''" | "punctuation_spelling PSlashEqual = ''/=''" | "punctuation_spelling PPercentEqual = ''%=''"
| "punctuation_spelling PAmpEqual = ''&=''" | "punctuation_spelling PPipeEqual = ''|=''" | "punctuation_spelling PCaretEqual = ''^=''"
| "punctuation_spelling PShiftLeftEqual = ''<<=''" | "punctuation_spelling PShiftRightEqual = ''>>=''"

section \<open>Characters\<close>

definition decimal_digits :: string where
  "decimal_digits = ''0123456789''"

definition letters :: string where
  "letters = ''abcdefghijklmnopqrstuvwxyzABCDEFGHIJKLMNOPQRSTUVWXYZ''"

definition identifier_characters :: string where
  "identifier_characters = letters @ decimal_digits @ ''_''"

definition digit_char :: "nat \<Rightarrow> u8 \<Rightarrow> bool" where
  "digit_char radix b = (b \<in> set (take radix ''0123456789abcdef'') \<union> set (take radix ''0123456789ABCDEF''))"

definition follows :: "u8 list \<Rightarrow> nat \<Rightarrow> u8 set \<Rightarrow> bool" where
  "follows bytes j bs = (j < length bytes \<and> bytes ! j \<in> bs)"

section \<open>Whitespace and comments\<close>

definition blanks :: "u8 list set" where
  "blanks = {'' '', [TAB], [LF], [CR, LF]}"

definition whitespace_text :: "u8 list \<Rightarrow> bool" where
  "whitespace_text text = (\<exists>chunks. chunks \<noteq> [] \<and> set chunks \<subseteq> blanks \<and> text = concat chunks)"

definition blank_follows :: "u8 list \<Rightarrow> nat \<Rightarrow> bool" where
  "blank_follows bytes j = (\<exists>chunk \<in> blanks. \<exists>rest. drop j bytes = chunk @ rest)"

definition line_comment_text :: "u8 list \<Rightarrow> bool" where
  "line_comment_text text = (\<exists>body. text = ''//'' @ body \<and> LF \<notin> set body \<and> CR \<notin> set body)"

text \<open>\<open>comment_tail d\<close>: a text that closes \<open>d\<close> open comments, the last one exactly at its end.\<close>

inductive comment_tail :: "nat \<Rightarrow> u8 list \<Rightarrow> bool" where
  Done: "comment_tail 0 []"
| Close: "comment_tail d text \<Longrightarrow> comment_tail (Suc d) (''*/'' @ text)"
| Open: "comment_tail (Suc (Suc d)) text \<Longrightarrow> comment_tail (Suc d) (''/*'' @ text)"
| Other: "comment_tail (Suc d) text \<Longrightarrow> (\<nexists>rest. b # text = ''/*'' @ rest \<or> b # text = ''*/'' @ rest) \<Longrightarrow>
    comment_tail (Suc d) (b # text)"

definition block_comment_text :: "u8 list \<Rightarrow> bool" where
  "block_comment_text text = (\<exists>body. text = ''/*'' @ body \<and> comment_tail 1 body)"

section \<open>Names\<close>

text \<open>A scalar beyond ASCII, encoded in several bytes, belongs to an identifier unless it is white space or a byte
  order mark.\<close>

definition identifier_scalar :: "u8 list \<Rightarrow> bool" where
  "identifier_scalar it =
     ((\<exists>b \<in> set identifier_characters. it = [b]) \<or>
      (encoded it \<and> 2 \<le> length it \<and> \<not> char_is_whitespace (scalar_value it) \<and> scalar_value it \<noteq> 0xFEFF))"

definition name_text :: "u8 list \<Rightarrow> bool" where
  "name_text text =
     (\<exists>its. its \<noteq> [] \<and> text = concat its \<and> (\<forall>it \<in> set its. identifier_scalar it) \<and> hd text \<notin> set decimal_digits)"

definition identifier_text :: "u8 list \<Rightarrow> bool" where
  "identifier_text text = (name_text text \<and> text \<noteq> ''_'' \<and> (\<forall>k. text \<noteq> keyword_spelling k))"

definition lifetime_text :: "u8 list \<Rightarrow> bool" where
  "lifetime_text text = (\<exists>name. name \<noteq> [] \<and> text = QUOTE # name \<and> (\<forall>b \<in> set name. b \<in> set identifier_characters \<or> 128 \<le> byte_val b))"

section \<open>Numbers\<close>

inductive digit_seq :: "nat \<Rightarrow> u8 list \<Rightarrow> bool" for radix where
  One: "digit_char radix d \<Longrightarrow> digit_seq radix [d]"
| Digit: "digit_char radix d \<Longrightarrow> digit_seq radix ds \<Longrightarrow> digit_seq radix (d # ds)"
| Separated: "digit_char radix d \<Longrightarrow> digit_seq radix ds \<Longrightarrow> digit_seq radix (d # CHR ''_'' # ds)"

definition decimal_text :: "u8 list \<Rightarrow> bool" where
  "decimal_text text = (digit_seq 10 text \<and> (text = ''0'' \<or> hd text \<noteq> CHR ''0''))"

definition integer_literal :: "u8 list \<Rightarrow> bool" where
  "integer_literal text =
     (\<exists>digits suffix.
        suffix \<in> {'''', ''isize'', ''usize'', ''i8'', ''i16'', ''i32'', ''i64'', ''u8'', ''u16'', ''u32'', ''u64''} \<and>
        (text = digits @ suffix \<and> decimal_text digits \<or> text = ''0x'' @ digits @ suffix \<and> digit_seq 16 digits \<or>
         text = ''0o'' @ digits @ suffix \<and> digit_seq 8 digits \<or> text = ''0b'' @ digits @ suffix \<and> digit_seq 2 digits))"

definition fraction_text :: "u8 list \<Rightarrow> bool" where
  "fraction_text text = (text = [] \<or> (\<exists>digits. text = CHR ''.'' # digits \<and> digit_seq 10 digits))"

definition exponent_text :: "u8 list \<Rightarrow> bool" where
  "exponent_text text =
     (text = [] \<or> (\<exists>mark \<in> set ''eE''. \<exists>sign \<in> {'''', ''+'', ''-''}. \<exists>digits. text = mark # sign @ digits \<and> digit_seq 10 digits))"

definition float_literal :: "u8 list \<Rightarrow> bool" where
  "float_literal text =
     (\<exists>whole fraction exponent suffix. text = whole @ fraction @ exponent @ suffix \<and> decimal_text whole \<and>
        fraction_text fraction \<and> exponent_text exponent \<and> suffix \<in> {'''', ''f16'', ''f32'', ''f64''} \<and>
        fraction @ exponent @ suffix \<noteq> [])"

section \<open>Quoted literals\<close>

inductive hex_text :: "nat \<Rightarrow> u8 list \<Rightarrow> bool" where
  Empty: "hex_text 0 []"
| Digit: "hex_text n hs \<Longrightarrow> v < 16 \<Longrightarrow> b = ''0123456789abcdef'' ! v \<or> b = ''0123456789ABCDEF'' ! v \<Longrightarrow> hex_text (16 * n + v) (hs @ [b])"

text \<open>One character of a literal: a scalar that stands for itself, or an escape. In a byte literal it is ASCII.\<close>

inductive literal_item :: "bool \<Rightarrow> u8 list \<Rightarrow> bool" for byte_literal where
  Plain: "encoded it \<Longrightarrow> it \<notin> {[BACKSLASH], [LF], [CR], [CHR 0x00]} \<Longrightarrow> (byte_literal \<Longrightarrow> scalar_value it < 128) \<Longrightarrow>
    literal_item byte_literal it"
| Escape: "c \<in> {BACKSLASH, DQUOTE, QUOTE, CHR ''n'', CHR ''r'', CHR ''t'', CHR ''0''} \<Longrightarrow> literal_item byte_literal [BACKSLASH, c]"
| Hex: "digit_char 16 a \<Longrightarrow> digit_char 16 b \<Longrightarrow> literal_item byte_literal [BACKSLASH, CHR ''x'', a, b]"
| Unicode: "\<not> byte_literal \<Longrightarrow> hex_text v hs \<Longrightarrow> hs \<noteq> [] \<Longrightarrow> length hs \<le> 6 \<Longrightarrow> v \<le> 0x10FFFF \<Longrightarrow> \<not> (0xD800 \<le> v \<and> v \<le> 0xDFFF) \<Longrightarrow>
    literal_item byte_literal ([BACKSLASH, CHR ''u'', CHR 0x7B] @ hs @ [CHR 0x7D])"

definition literal_prefix :: "bool \<Rightarrow> u8 list" where
  "literal_prefix byte_literal = (if byte_literal then ''b'' else [])"

definition char_literal :: "bool \<Rightarrow> u8 list \<Rightarrow> bool" where
  "char_literal byte_literal text =
     (\<exists>it. text = literal_prefix byte_literal @ [QUOTE] @ it @ [QUOTE] \<and> literal_item byte_literal it)"

definition string_literal :: "bool \<Rightarrow> u8 list \<Rightarrow> bool" where
  "string_literal byte_literal text =
     (\<exists>its. text = literal_prefix byte_literal @ [DQUOTE] @ concat its @ [DQUOTE] \<and>
        (\<forall>it \<in> set its. literal_item byte_literal it \<and> it \<noteq> [DQUOTE]))"

section \<open>The code's classes of bytes\<close>

lemma consecutive:
  assumes "map byte_val bs = [n..<n + length bs]"
  shows "b \<in> set bs \<longleftrightarrow> n \<le> byte_val b \<and> byte_val b < n + length bs"
proof -
  have "b \<in> set bs \<longleftrightarrow> byte_val b \<in> byte_val ` set bs" by auto
  also have "byte_val ` set bs = {n..<n + length bs}" using arg_cong [OF assms, of set] by simp
  finally show ?thesis by simp
qed

lemma class_chars: "is_ascii_digit b = (b \<in> set decimal_digits)" "is_ascii_alphabetic b = (b \<in> set letters)"
proof -
  have "map byte_val ''0123456789'' = [48..<58]" "map byte_val ''abcdefghijklmnopqrstuvwxyz'' = [97..<123]"
      "map byte_val ''ABCDEFGHIJKLMNOPQRSTUVWXYZ'' = [65..<91]" by code_simp+
  then have "b \<in> set ''0123456789'' \<longleftrightarrow> 48 \<le> byte_val b \<and> byte_val b < 58"
      "b \<in> set ''abcdefghijklmnopqrstuvwxyz'' \<longleftrightarrow> 97 \<le> byte_val b \<and> byte_val b < 123"
      "b \<in> set ''ABCDEFGHIJKLMNOPQRSTUVWXYZ'' \<longleftrightarrow> 65 \<le> byte_val b \<and> byte_val b < 91"
    using consecutive [of "''0123456789''" 48 b] consecutive [of "''abcdefghijklmnopqrstuvwxyz''" 97 b]
      consecutive [of "''ABCDEFGHIJKLMNOPQRSTUVWXYZ''" 65 b] by (simp_all only: list.size add_0 One_nat_def) simp_all
  moreover have "set letters = set ''abcdefghijklmnopqrstuvwxyz'' \<union> set ''ABCDEFGHIJKLMNOPQRSTUVWXYZ''"
    unfolding letters_def by (simp only: set_append [symmetric] append.simps)
  moreover have "byte_val (CHR ''0'') = 48" "byte_val (CHR ''9'') = 57" "byte_val (CHR ''a'') = 97" "byte_val (CHR ''z'') = 122"
      "byte_val (CHR ''A'') = 65" "byte_val (CHR ''Z'') = 90" by simp_all
  ultimately show "is_ascii_digit b = (b \<in> set decimal_digits)" "is_ascii_alphabetic b = (b \<in> set letters)"
    unfolding is_ascii_digit_def is_ascii_alphabetic_def decimal_digits_def by (simp_all only: Un_iff) arith+
qed

lemma hex_digits:
  "v < 16 \<Longrightarrow> byte_val (''0123456789abcdef'' ! v) = (if v < 10 then 48 + v else 87 + v)"
  "v < 16 \<Longrightarrow> byte_val (''0123456789ABCDEF'' ! v) = (if v < 10 then 48 + v else 55 + v)"
proof -
  have "list_all (\<lambda>v. byte_val (''0123456789abcdef'' ! v) = (if v < 10 then 48 + v else 87 + v)) [0..<16]"
      "list_all (\<lambda>v. byte_val (''0123456789ABCDEF'' ! v) = (if v < 10 then 48 + v else 55 + v)) [0..<16]"
    by (simp_all add: upt_rec)
  then show "v < 16 \<Longrightarrow> byte_val (''0123456789abcdef'' ! v) = (if v < 10 then 48 + v else 87 + v)"
      "v < 16 \<Longrightarrow> byte_val (''0123456789ABCDEF'' ! v) = (if v < 10 then 48 + v else 55 + v)"
    by (simp_all add: list_all_iff)
qed

lemma digit_spelled:
  assumes "is_digit radix b" and "radix \<le> 16"
  shows "\<exists>v < radix. digit_value b = Some v \<and> (b = ''0123456789abcdef'' ! v \<or> b = ''0123456789ABCDEF'' ! v)"
proof -
  obtain v where v: "digit_value b = Some v" "v < radix" using assms(1) by (auto simp: is_digit_def split: option.splits)
  have "byte_val b = 48 + v \<and> v < 10 \<or> byte_val b = 87 + v \<and> 10 \<le> v \<or> byte_val b = 55 + v \<and> 10 \<le> v"
    using v(1) by (auto simp: digit_value_def is_ascii_digit_def split: if_splits)
  then have "byte_val b = byte_val (''0123456789abcdef'' ! v) \<or> byte_val b = byte_val (''0123456789ABCDEF'' ! v)"
    using hex_digits [of v] v(2) assms(2) by auto
  then show ?thesis using v by auto
qed

lemma digit_chars:
  assumes "is_digit radix b" and "radix \<le> 16"
  shows "digit_char radix b"
proof -
  obtain v where v: "v < radix" "b = ''0123456789abcdef'' ! v \<or> b = ''0123456789ABCDEF'' ! v" using digit_spelled [OF assms] by blast
  have "xs ! v \<in> set (take radix xs)" if "length xs = 16" for xs :: "u8 list"
    using v(1) assms(2) that by (auto simp: in_set_conv_nth intro!: exI [of _ v])
  then show ?thesis using v(2) unfolding digit_char_def by fastforce
qed

lemma identifier_byte_chars: "is_identifier_byte b = (b \<in> set identifier_characters)"
  by (simp add: is_identifier_byte_def is_ascii_alphanumeric_def class_chars identifier_characters_def) blast

lemma candidate_byte_chars: "is_identifier_candidate_byte b = (b \<in> set identifier_characters \<or> 128 \<le> byte_val b)"
  using identifier_byte_chars [of b] by (auto simp: is_identifier_candidate_byte_def is_identifier_byte_def)

lemma at_is_follows: "at_is bs j p = follows bs j {b. p b}"
  by (simp add: at_is_def byte_at_def follows_def)

lemma keyword_spelled: "keyword text = Some k \<longleftrightarrow> text = keyword_spelling k"
proof -
  have table: "keyword_table = map (\<lambda>k. (keyword_spelling k, k)) (map snd keyword_table)" by (simp add: keyword_table_def)
  have "k \<in> set (map snd keyword_table)" by (cases k) (simp_all add: keyword_table_def)
  then have all: "(keyword_spelling k, k) \<in> set keyword_table" by (subst table) force
  have only: "t = keyword_spelling l" if "(t, l) \<in> set keyword_table" for t l using that by (subst (asm) table) auto
  have "distinct (map fst keyword_table)" by code_simp
  then show ?thesis unfolding keyword_def using all only map_of_is_SomeI map_of_SomeD by metis
qed

lemma punctuation_spelled:
  "(s, p) \<in> set MULTI \<Longrightarrow> s = punctuation_spelling p" "punctuation b = Some p \<Longrightarrow> [b] = punctuation_spelling p"
  "(punctuation_spelling p, p) \<in> set MULTI \<or> length (punctuation_spelling p) = 1"
proof -
  have "\<forall>(s, p) \<in> set MULTI. s = punctuation_spelling p" by (simp add: MULTI_def)
  then show "s = punctuation_spelling p" if "(s, p) \<in> set MULTI" using that by blast
  have "\<forall>(b, p) \<in> set punctuation_table. [b] = punctuation_spelling p" by (simp add: punctuation_table_def)
  then show "[b] = punctuation_spelling p" if "punctuation b = Some p"
    using map_of_SomeD [OF that [unfolded punctuation_def]] by blast
  show "(punctuation_spelling p, p) \<in> set MULTI \<or> length (punctuation_spelling p) = 1" by (cases p) (simp_all add: MULTI_def)
qed

section \<open>Texts between two positions\<close>

definition text_at :: "u8 list \<Rightarrow> nat \<Rightarrow> nat \<Rightarrow> u8 list" where
  "text_at bytes i j = take (j - i) (drop i bytes)"

lemma text_at_same [simp]: "text_at bs i i = []"
  by (simp add: text_at_def)

lemma text_at_split: "i \<le> j \<Longrightarrow> j \<le> k \<Longrightarrow> k \<le> length bs \<Longrightarrow> text_at bs i k = text_at bs i j @ text_at bs j k"
proof -
  assume h: "i \<le> j" "j \<le> k" "k \<le> length bs"
  have "take (k - i) (drop i bs) = take (j - i) (drop i bs) @ take (k - j) (drop (j - i) (drop i bs))"
    using h take_add [of "j - i" "k - j" "drop i bs"] by simp
  then show ?thesis using h by (simp add: text_at_def)
qed

lemma text_at_step: "i < j \<Longrightarrow> j \<le> length bs \<Longrightarrow> text_at bs i j = bs ! i # text_at bs (Suc i) j"
  using Cons_nth_drop_Suc [of i bs] take_Suc_Cons [of "j - Suc i" "bs ! i" "drop (Suc i) bs"] by (simp add: text_at_def Suc_diff_Suc)

lemma text_at_snoc: "i \<le> j \<Longrightarrow> j < length bs \<Longrightarrow> text_at bs i (Suc j) = text_at bs i j @ [bs ! j]"
  using text_at_split [of i j "Suc j" bs] text_at_step [of j "Suc j" bs] by simp

lemma text_at_set: "j \<le> length bs \<Longrightarrow> b \<in> set (text_at bs i j) \<longleftrightarrow> (\<exists>k. i \<le> k \<and> k < j \<and> b = bs ! k)"
proof -
  assume j: "j \<le> length bs"
  have "b \<in> set (text_at bs i j) \<longleftrightarrow> (\<exists>m < j - i. b = bs ! (i + m))"
    using j by (auto simp: text_at_def in_set_conv_nth)
  also have "\<dots> \<longleftrightarrow> (\<exists>k. i \<le> k \<and> k < j \<and> b = bs ! k)"
  proof
    assume "\<exists>k. i \<le> k \<and> k < j \<and> b = bs ! k"
    then obtain k where "i \<le> k" "k < j" "b = bs ! k" by blast
    then show "\<exists>m < j - i. b = bs ! (i + m)" by (intro exI [of _ "k - i"]) auto
  qed (metis le_add1 less_diff_conv add.commute)
  finally show ?thesis .
qed

lemma drop_step: "i < length bs \<Longrightarrow> drop i bs = bs ! i # drop (Suc i) bs"
  by (simp add: Cons_nth_drop_Suc)

lemma starts_with_iff: "starts_with text pre \<longleftrightarrow> (\<exists>rest. text = pre @ rest)"
  by (metis append_eq_conv_conj append_take_drop_id starts_with_def)

lemma byte_at_Some: "byte_at bs i = Some b \<longleftrightarrow> i < length bs \<and> bs ! i = b"
  by (simp add: byte_at_def)

section \<open>Whitespace and comments of the code\<close>

lemma whitespace_end_text:
  "offset \<le> length bs \<Longrightarrow> offset \<le> whitespace_end bs offset \<and> whitespace_end bs offset \<le> length bs \<and>
    (\<exists>chunks. set chunks \<subseteq> blanks \<and> text_at bs offset (whitespace_end bs offset) = concat chunks) \<and>
    \<not> blank_follows bs (whitespace_end bs offset)"
proof (induction bs offset rule: whitespace_end.induct)
  case (1 bs offset)
  let ?b = "bs ! offset"
  consider (one) "offset < length bs" "?b = CHR '' '' \<or> ?b = TAB \<or> ?b = LF"
    | (two) "offset < length bs" "\<not> (?b = CHR '' '' \<or> ?b = TAB \<or> ?b = LF)" "?b = CR" "byte_at bs (offset + 1) = Some LF"
    | (stop) "\<not> (offset < length bs \<and> (?b = CHR '' '' \<or> ?b = TAB \<or> ?b = LF))" "\<not> (offset < length bs \<and> ?b = CR \<and> byte_at bs (offset + 1) = Some LF)"
    by argo
  then show ?case
  proof cases
    case one
    then have eq: "whitespace_end bs offset = whitespace_end bs (offset + 1)" by (subst whitespace_end.simps) simp
    have IH: "offset + 1 \<le> whitespace_end bs (offset + 1)" "whitespace_end bs (offset + 1) \<le> length bs"
        "\<not> blank_follows bs (whitespace_end bs (offset + 1))" using 1(1) [OF one] one(1) by auto
    obtain chunks where c: "set chunks \<subseteq> blanks" "text_at bs (offset + 1) (whitespace_end bs (offset + 1)) = concat chunks"
      using 1(1) [OF one] one(1) by auto
    have "text_at bs offset (whitespace_end bs (offset + 1)) = concat ([?b] # chunks)"
      using text_at_step [of offset "whitespace_end bs (offset + 1)" bs] IH(1,2) c(2) by simp
    moreover have "set ([?b] # chunks) \<subseteq> blanks" using c(1) one(2) by (auto simp: blanks_def)
    ultimately show ?thesis using IH unfolding eq by (metis add_leD1)
  next
    case two
    then have eq: "whitespace_end bs offset = whitespace_end bs (offset + 2)" by (subst whitespace_end.simps) simp
    have lf: "Suc offset < length bs" "bs ! Suc offset = LF" using two(4) by (auto simp: byte_at_def split: if_splits)
    have IH: "offset + 2 \<le> whitespace_end bs (offset + 2)" "whitespace_end bs (offset + 2) \<le> length bs"
        "\<not> blank_follows bs (whitespace_end bs (offset + 2))" using 1(2) [OF two(1,2)] two lf(1) by auto
    obtain chunks where c: "set chunks \<subseteq> blanks" "text_at bs (offset + 2) (whitespace_end bs (offset + 2)) = concat chunks"
      using 1(2) [OF two(1,2)] two lf(1) by auto
    have "text_at bs offset (whitespace_end bs (offset + 2)) = concat ([CR, LF] # chunks)"
      using text_at_step [of offset "whitespace_end bs (offset + 2)" bs] text_at_step [of "Suc offset" "whitespace_end bs (offset + 2)" bs]
        IH(1,2) c(2) lf two(3) by simp
    moreover have "set ([CR, LF] # chunks) \<subseteq> blanks" using c(1) by (auto simp: blanks_def)
    ultimately show ?thesis using IH unfolding eq by (metis add_leD1)
  next
    case stop
    then have eq: "whitespace_end bs offset = offset" by (subst whitespace_end.simps) auto
    have "\<not> blank_follows bs offset"
    proof
      assume "blank_follows bs offset"
      then obtain chunk rest where chunk: "chunk \<in> blanks" "drop offset bs = chunk @ rest" by (auto simp: blank_follows_def)
      have len: "offset < length bs" using chunk by (cases "offset < length bs") (auto simp: blanks_def)
      have hd: "?b = hd chunk" using drop_step [OF len] chunk by (auto simp: blanks_def)
      show False
      proof (cases "chunk = [CR, LF]")
        case True
        then have "drop (Suc offset) bs = LF # rest" using drop_step [OF len] chunk(2) by simp
        then have "byte_at bs (offset + 1) = Some LF"
          by (metis Suc_eq_plus1 byte_at_def drop_all hd_drop_conv_nth linorder_not_le list.discI list.sel(1))
        then show ?thesis using stop(2) len hd True by simp
      next
        case False
        then show ?thesis using stop(1) len hd chunk(1) by (auto simp: blanks_def)
      qed
    qed
    moreover have "\<exists>chunks. set chunks \<subseteq> blanks \<and> [] = concat chunks" by (rule exI [of _ "[]"]) simp
    ultimately show ?thesis using eq 1(3) by simp
  qed
qed

lemma comment_end_tail:
  "comment_end bs (Suc d) offset = (j, True) \<Longrightarrow> offset \<le> length bs \<Longrightarrow>
    offset \<le> j \<and> j \<le> length bs \<and> comment_tail (Suc d) (text_at bs offset j)"
proof (induction bs "Suc d" offset arbitrary: d rule: comment_end.induct)
  case (1 bs offset)
  have len: "offset < length bs" using 1(4) by (subst (asm) comment_end.simps) (auto split: if_splits)
  let ?open = "starts_with (drop offset bs) ''/*''" and ?close = "starts_with (drop offset bs) ''*/''"
  have two: "offset + 2 \<le> length bs \<and> text_at bs offset (offset + 2) = pat"
    if "starts_with (drop offset bs) pat" "length pat = 2" for pat
  proof -
    have "take 2 (drop offset bs) = pat" using that by (simp add: starts_with_def)
    moreover then have "offset + 2 \<le> length bs" using that(2) by (metis length_take length_drop min.cobounded1 len le_diff_conv2 less_imp_le_nat add.commute)
    ultimately show ?thesis by (simp add: text_at_def)
  qed
  show ?case
  proof (cases ?open)
    case True
    then have run: "comment_end bs (Suc (Suc d)) (offset + 2) = (j, True)" using 1(4) len by (subst (asm) comment_end.simps) simp
    have o: "offset + 2 \<le> length bs" "text_at bs offset (offset + 2) = ''/*''" using two [OF True] by simp_all
    have IH: "offset + 2 \<le> j" "j \<le> length bs" "comment_tail (Suc (Suc d)) (text_at bs (offset + 2) j)"
      using 1(1) [OF len True _ run o(1)] by simp_all
    show ?thesis using comment_tail.Open [OF IH(3)] text_at_split [of offset "offset + 2" j bs] o IH(1,2) by simp
  next
    case open': False
    show ?thesis
    proof (cases ?close)
      case True
      have c: "offset + 2 \<le> length bs" "text_at bs offset (offset + 2) = ''*/''" using two [OF True] by simp_all
      show ?thesis
      proof (cases d)
        case 0
        then have "j = offset + 2" using 1(4) len open' True by (subst (asm) comment_end.simps) simp
        then show ?thesis using c comment_tail.Close [OF comment_tail.Done] 0 by simp
      next
        case (Suc e)
        then have run: "comment_end bs (Suc e) (offset + 2) = (j, True)" using 1(4) len open' True by (subst (asm) comment_end.simps) simp
        have IH: "offset + 2 \<le> j" "j \<le> length bs" "comment_tail (Suc e) (text_at bs (offset + 2) j)"
          using 1(2) [OF len open' True _ _ run c(1)] Suc by simp_all
        show ?thesis using comment_tail.Close [OF IH(3)] text_at_split [of offset "offset + 2" j bs] c IH(1,2) Suc by simp
      qed
    next
      case close: False
      then have run: "comment_end bs (Suc d) (offset + 1) = (j, True)" using 1(4) len open' by (subst (asm) comment_end.simps) simp
      have IH: "offset + 1 \<le> j" "j \<le> length bs" "comment_tail (Suc d) (text_at bs (offset + 1) j)"
        using 1(3) [OF len open' close run] len by simp_all
      have joined: "text_at bs offset j = bs ! offset # text_at bs (offset + 1) j"
        using text_at_step [of offset j bs] IH(1,2) by simp
      have "drop offset bs = text_at bs offset j @ drop j bs"
        using IH(1,2) by (metis add_leD1 append_take_drop_id drop_drop le_add_diff_inverse2 text_at_def)
      then have "\<nexists>rest. text_at bs offset j = ''/*'' @ rest \<or> text_at bs offset j = ''*/'' @ rest"
        using open' close unfolding starts_with_iff by (metis append_assoc)
      then show ?thesis using comment_tail.Other [OF IH(3)] IH(1,2) unfolding joined by auto
    qed
  qed
qed

section \<open>Names of the code\<close>

lemma ascii_name: "\<forall>b \<in> set text. is_identifier_byte b \<Longrightarrow> text \<noteq> [] \<Longrightarrow> \<not> is_ascii_digit (hd text) \<Longrightarrow> name_text text"
  unfolding name_text_def
  by (rule exI [of _ "map (\<lambda>b. [b]) text"]) (auto simp: identifier_scalar_def identifier_byte_chars class_chars)

lemma decoded_item:
  assumes "decode_scalar (drop i bs) = Some (v, w)"
  shows "encoded (text_at bs i (i + w)) \<and> v = scalar_value (text_at bs i (i + w)) \<and> i < i + w \<and> i + w \<le> length bs"
proof -
  obtain b cs where d: "drop i bs = b # cs" using assms by (cases "drop i bs") (auto simp: decode_scalar_def)
  have w: "w = utf8_width b" "0 < w" "w \<le> length (drop i bs)" "from_utf8 (take w (drop i bs)) = None" "v = scalar_value (take w (drop i bs))"
    using assms unfolding d by (auto simp: decode_scalar_def Let_def split: if_splits option.splits)
  obtain its where its: "take w (drop i bs) = concat its" "\<forall>x \<in> set its. encoded x" using w(4) by (auto simp: from_utf8_valid)
  have hd: "hd (take w (drop i bs)) = b" "take w (drop i bs) \<noteq> []" using w(2) d by (cases w; simp)+
  then obtain x xs where x: "its = x # xs" using its(1) by (cases its) auto
  have "encoded x" using its(2) x by simp
  then have ne: "x \<noteq> []" "length x = utf8_char_width (hd x)" using utf8_item_Scalar [of x "length x"] by (auto simp: encoded_def)
  have "hd x = b" using hd(1) ne(1) its(1) x by (simp add: hd_append)
  then have "length x = w" using ne(2) w(1) by (simp add: utf8_width_def utf8_char_width_def)
  moreover have "length (take w (drop i bs)) = w" using w(3) by simp
  ultimately have "take w (drop i bs) = x" using its(1) x by (metis append_eq_conv_conj concat.simps(2) take_all_iff order_refl)
  moreover have "i + w \<le> length bs" using w(2,3) by simp
  ultimately show ?thesis using \<open>encoded x\<close> w(2,5) by (simp add: text_at_def)
qed

lemma wide_item: "encoded it \<Longrightarrow> 128 \<le> byte_val (hd it) \<Longrightarrow> 2 \<le> length it"
  using utf8_item_Scalar [of it "length it"] by (auto simp: encoded_def utf8_char_width_def split: if_splits)

lemma unicode_end_items:
  "offset \<le> length bs \<Longrightarrow> offset \<le> unicode_identifier_end bs offset \<and> unicode_identifier_end bs offset \<le> length bs \<and>
    (\<exists>its. text_at bs offset (unicode_identifier_end bs offset) = concat its \<and> (\<forall>it \<in> set its. identifier_scalar it)) \<and>
    \<not> at_is bs (unicode_identifier_end bs offset) is_identifier_byte"
proof (induction bs offset rule: unicode_identifier_end.induct)
  case (1 bs offset)
  let ?b = "bs ! offset"
  consider (ident) "offset < length bs" "is_identifier_byte ?b"
    | (scalar) v w where "offset < length bs" "\<not> is_identifier_byte ?b" "\<not> byte_val ?b < 0x80"
        "decode_scalar (drop offset bs) = Some (v, w)" "\<not> (char_is_whitespace v \<or> v = 0xFEFF)"
    | (stop) "unicode_identifier_end bs offset = offset" "offset < length bs \<Longrightarrow> \<not> is_identifier_byte ?b"
    using unicode_identifier_end.simps [of bs offset]
    by (cases "offset < length bs"; cases "is_identifier_byte ?b"; cases "byte_val ?b < 0x80";
        cases "decode_scalar (drop offset bs)") (auto split: if_splits)
  then show ?case
  proof cases
    case ident
    let ?e = "unicode_identifier_end bs (offset + 1)"
    have eq: "unicode_identifier_end bs offset = ?e" using ident by (subst unicode_identifier_end.simps) simp
    have "offset + 1 \<le> length bs" using ident(1) by simp
    note IH = 1(1) [OF ident this]
    then obtain its where its: "text_at bs (offset + 1) ?e = concat its" "\<forall>it \<in> set its. identifier_scalar it" by blast
    have "text_at bs offset ?e = concat ([?b] # its)" using text_at_step [of offset ?e bs] IH its(1) by simp
    moreover have "identifier_scalar [?b]" using ident(2) by (simp add: identifier_scalar_def identifier_byte_chars)
    ultimately have "\<exists>its. text_at bs offset ?e = concat its \<and> (\<forall>it \<in> set its. identifier_scalar it)"
      using its(2) by (metis set_ConsD)
    then show ?thesis using IH unfolding eq by (metis add_leD1)
  next
    case (scalar v w)
    let ?e = "unicode_identifier_end bs (offset + w)" and ?it = "text_at bs offset (offset + w)"
    have eq: "unicode_identifier_end bs offset = ?e" using scalar by (subst unicode_identifier_end.simps) simp
    note d = decoded_item [OF scalar(4)]
    have le: "offset + w \<le> length bs" using d by blast
    note IH = 1(2) [OF scalar(1-4) refl scalar(5) le]
    then obtain its where its: "text_at bs (offset + w) ?e = concat its" "\<forall>it \<in> set its. identifier_scalar it" by blast
    have "hd ?it = ?b" using d by (simp add: text_at_step)
    then have "2 \<le> length ?it" using d scalar(3) wide_item [of ?it] by simp
    then have "identifier_scalar ?it" using d scalar(5) by (simp add: identifier_scalar_def)
    moreover have "text_at bs offset ?e = concat (?it # its)" using text_at_split [of offset "offset + w" ?e bs] IH its(1) by simp
    ultimately have "\<exists>its. text_at bs offset ?e = concat its \<and> (\<forall>it \<in> set its. identifier_scalar it)"
      using its(2) by (metis set_ConsD)
    then show ?thesis using IH unfolding eq by (metis add_leD1)
  next
    case stop
    moreover have "\<exists>its. [] = concat its \<and> (\<forall>it \<in> set its. identifier_scalar it)" by (rule exI [of _ "[]"]) simp
    ultimately show ?thesis using 1(3) by (auto simp: at_is_def byte_at_def)
  qed
qed

section \<open>Numbers of the code\<close>

lemma digit_sequence_seq:
  assumes "valid_digit_sequence text radix" and "\<And>b. is_digit radix b \<Longrightarrow> digit_char radix b" and "\<not> is_digit radix (CHR ''_'')"
  shows "digit_seq radix text"
proof -
  have ne: "text \<noteq> []" "hd text \<noteq> CHR ''_''" and each: "\<And>k. k < length text \<Longrightarrow> digit_sequence_byte text radix k"
    using assms(1) by (auto simp: valid_digit_sequence_def list_all_iff split: if_splits)
  have "digit_seq radix (drop k text)" if "k < length text" "text ! k \<noteq> CHR ''_''" for k
    using that
  proof (induction "length text - k" arbitrary: k rule: less_induct)
    case less
    have d: "digit_char radix (text ! k)" using each [OF less.prems(1)] less.prems(2) assms(2) by (simp add: digit_sequence_byte_def)
    have drop: "drop k text = text ! k # drop (Suc k) text" by (rule drop_step [OF less.prems(1)])
    consider (last) "Suc k = length text" | (digit) "Suc k < length text" "text ! Suc k \<noteq> CHR ''_''"
      | (sep) "Suc k < length text" "text ! Suc k = CHR ''_''" using less.prems(1) by linarith
    then show ?case
    proof cases
      case last
      then show ?thesis unfolding drop using digit_seq.One [OF d] by simp
    next
      case digit
      then show ?thesis unfolding drop by (intro digit_seq.Digit [OF d] less.hyps) (use less.prems in auto)
    next
      case sep
      have "Suc (Suc k) < length text" "is_digit radix (text ! Suc (Suc k))"
        using each [OF sep(1)] sep(2) by (auto simp: digit_sequence_byte_def)
      then have "digit_seq radix (drop (Suc (Suc k)) text)" by (intro less.hyps) (use assms(3) in auto)
      then show ?thesis unfolding drop drop_step [OF sep(1)] sep(2) by (rule digit_seq.Separated [OF d])
    qed
  qed
  from this [of 0] show ?thesis using ne by (simp add: hd_conv_nth)
qed

lemma digit_seq_nonempty [simp]: "\<not> digit_seq radix []"
  by (auto elim: digit_seq.cases)

lemma digit_sequences:
  "valid_digit_sequence text 2 \<Longrightarrow> digit_seq 2 text" "valid_digit_sequence text 8 \<Longrightarrow> digit_seq 8 text"
  "valid_digit_sequence text 10 \<Longrightarrow> digit_seq 10 text" "valid_digit_sequence text 16 \<Longrightarrow> digit_seq 16 text"
  by (erule digit_sequence_seq, rule digit_chars, assumption, simp, simp add: is_digit_def digit_value_def is_ascii_digit_def)+

lemma split_suffix_parts:
  "split_suffix text suffixes = (body, s) \<Longrightarrow> (s = None \<and> body = text) \<or> (\<exists>x \<in> set suffixes. s = Some x \<and> text = body @ x)"
proof (induction "text" suffixes rule: split_suffix.induct)
  case (2 t suf suffixes)
  show ?case
  proof (cases "strip_suffix t suf")
    case (Some b)
    then have "t = b @ suf" by (metis append_take_drop_id option.distinct(1) option.inject strip_suffix_def)
    then show ?thesis using 2(2) Some by auto
  qed (use 2 in auto)
qed simp

lemma strip_prefix_Some: "strip_prefix text pre = Some rest \<Longrightarrow> text = pre @ rest"
  by (auto simp: strip_prefix_def starts_with_iff split: if_splits)

lemma integer_literalI:
  "suffix \<in> {'''', ''isize'', ''usize'', ''i8'', ''i16'', ''i32'', ''i64'', ''u8'', ''u16'', ''u32'', ''u64''} \<Longrightarrow>
    (text = digits @ suffix \<and> decimal_text digits \<or> text = ''0x'' @ digits @ suffix \<and> digit_seq 16 digits \<or>
     text = ''0o'' @ digits @ suffix \<and> digit_seq 8 digits \<or> text = ''0b'' @ digits @ suffix \<and> digit_seq 2 digits) \<Longrightarrow>
    integer_literal text"
  unfolding integer_literal_def by (rule exI [of _ digits], rule exI [of _ suffix], rule conjI)

lemma validate_integer_grammar:
  assumes "validate_integer text"
  shows "integer_literal text"
proof -
  obtain body suffix where sp: "split_suffix text integer_suffixes = (body, suffix)" by force
  obtain digits radix where r: "split_radix body = (digits, radix)" by force
  have ok: "suffix \<noteq> Some ''i128''" "suffix \<noteq> Some ''u128''" "\<not> (radix = 10 \<and> length digits > 1 \<and> starts_with digits ''0'')"
      "valid_digit_sequence digits radix"
    using assms unfolding validate_integer_def sp prod.case r by (simp_all split: if_splits)
  define suf where "suf = (case suffix of None \<Rightarrow> [] | Some s \<Rightarrow> s)"
  have suf: "suf \<in> {'''', ''isize'', ''usize'', ''i8'', ''i16'', ''i32'', ''i64'', ''u8'', ''u16'', ''u32'', ''u64''}" "text = body @ suf"
  proof -
    have all: "x = ''i128'' \<or> x = ''u128'' \<or> x \<in> {''isize'', ''usize'', ''i8'', ''i16'', ''i32'', ''i64'', ''u8'', ''u16'', ''u32'', ''u64''}" if "x \<in> set integer_suffixes" for x
      using that unfolding integer_suffixes_def list.set insert_iff empty_iff by argo
    consider "suffix = None" "body = text" | x where "x \<in> {''isize'', ''usize'', ''i8'', ''i16'', ''i32'', ''i64'', ''u8'', ''u16'', ''u32'', ''u64''}" "suffix = Some x" "text = body @ x"
      using split_suffix_parts [OF sp] ok(1,2) all by metis
    then show "suf \<in> insert [] {''isize'', ''usize'', ''i8'', ''i16'', ''i32'', ''i64'', ''u8'', ''u16'', ''u32'', ''u64''}" "text = body @ suf"
      by (cases; simp only: suf_def option.case append_Nil2 insert_iff simp_thms)+
  qed
  consider "body = ''0x'' @ digits" "radix = 16" | "body = ''0o'' @ digits" "radix = 8" | "body = ''0b'' @ digits" "radix = 2" |
      "body = digits" "radix = 10"
    using r by (auto simp: split_radix_def dest!: strip_prefix_Some split: option.splits)
  then show ?thesis
  proof cases
    case 4
    have seq: "digit_seq 10 digits" using digit_sequences(3) ok(4) 4(2) by simp
    then have ne: "digits \<noteq> []" by (auto elim: digit_seq.cases)
    have "digits = ''0'' \<or> hd digits \<noteq> CHR ''0''"
      using ok(3) 4(2) ne by (cases digits) (auto simp: starts_with_def)
    then show ?thesis by (intro integer_literalI [OF suf(1), where digits = digits]) (use suf(2) seq 4(1) in \<open>simp add: decimal_text_def\<close>)
  next
    case 1
    then show ?thesis by (intro integer_literalI [OF suf(1), where digits = digits]) (use suf(2) digit_sequences(4) ok(4) in simp)
  next
    case 2
    then show ?thesis by (intro integer_literalI [OF suf(1), where digits = digits]) (use suf(2) digit_sequences(2) ok(4) in simp)
  next
    case 3
    then show ?thesis by (intro integer_literalI [OF suf(1), where digits = digits]) (use suf(2) digit_sequences(1) ok(4) in simp)
  qed
qed

lemma decimal_body: "valid_decimal_body text \<Longrightarrow> decimal_text text"
  using digit_sequences(3) [of "text"] by (cases "text") (auto simp: valid_decimal_body_def decimal_text_def starts_with_def)

lemma validate_float_grammar:
  assumes "validate_float text"
  shows "float_literal text"
proof -
  obtain body suffix where sp: "split_suffix text [''f16'', ''f32'', ''f64''] = (body, suffix)" by force
  obtain mantissa exponent where e: "split_exponent body = (mantissa, exponent)" by force
  have ok: "\<And>value. exponent = Some value \<Longrightarrow> valid_exponent value" "valid_mantissa mantissa"
      "list_ex (\<lambda>b. b = CHR ''.'') mantissa \<or> exponent \<noteq> None \<or> suffix \<noteq> None"
    using assms unfolding validate_float_def sp prod.case e by (simp_all split: if_splits option.splits)
  define suf where "suf = (case suffix of None \<Rightarrow> [] | Some s \<Rightarrow> s)"
  have suf: "suf \<in> {'''', ''f16'', ''f32'', ''f64''}" "text = body @ suf" "suffix \<noteq> None \<longrightarrow> suf \<noteq> []"
    using split_suffix_parts [OF sp] by (auto simp: suf_def)
  obtain ex where ex: "body = mantissa @ ex" "exponent_text ex" "exponent \<noteq> None \<longrightarrow> ex \<noteq> []"
  proof (cases "list_ex is_exponent_mark body")
    case False
    then show thesis using e that [of "[]"] by (simp add: split_exponent_def exponent_text_def)
  next
    case True
    let ?d = "dropWhile (\<lambda>b. \<not> is_exponent_mark b) body"
    have d: "?d \<noteq> []" "is_exponent_mark (hd ?d)"
      using True hd_dropWhile [of "\<lambda>b. \<not> is_exponent_mark b" body] by (auto simp: list_ex_iff dropWhile_eq_Nil_conv)
    have parts: "mantissa = takeWhile (\<lambda>b. \<not> is_exponent_mark b) body" "exponent = Some (tl ?d)" using e True by (simp_all add: split_exponent_def)
    have "valid_exponent (tl ?d)" using ok(1) parts(2) by simp
    then obtain sign digits where t: "sign \<in> {'''', ''+'', ''-''}" "tl ?d = sign @ digits" "digit_seq 10 digits"
      using digit_sequences(3) [of "tl ?d"] digit_sequences(3) [of "tl (tl ?d)"]
      by (cases "tl ?d") (force simp: valid_exponent_def split: if_splits)+
    have "?d = hd ?d # sign @ digits" using d(1) t(2) by (metis list.collapse)
    moreover have "hd ?d \<in> set ''eE''" using d(2) by (simp add: is_exponent_mark_def)
    ultimately have "exponent_text ?d" unfolding exponent_text_def using t(1,3) by blast
    then show thesis using that [of ?d] d(1) parts(1) by (metis takeWhile_dropWhile_id)
  qed
  obtain whole frac where m: "mantissa = whole @ frac" "decimal_text whole" "fraction_text frac" "list_ex (\<lambda>b. b = CHR ''.'') mantissa \<longrightarrow> frac \<noteq> []"
  proof (cases "list_ex (\<lambda>b. b = CHR ''.'') mantissa")
    case False
    then show thesis using that [of mantissa "[]"] ok(2) decimal_body by (simp add: valid_mantissa_def fraction_text_def)
  next
    case True
    let ?d = "dropWhile (\<lambda>b. b \<noteq> CHR ''.'') mantissa"
    have d: "?d \<noteq> []" "hd ?d = CHR ''.''"
      using True hd_dropWhile [of "\<lambda>b. b \<noteq> CHR ''.''" mantissa] by (auto simp: list_ex_iff dropWhile_eq_Nil_conv)
    have ok': "valid_decimal_body (takeWhile (\<lambda>b. b \<noteq> CHR ''.'') mantissa)" "valid_digit_sequence (tl ?d) 10"
      using ok(2) True by (simp_all add: valid_mantissa_def Let_def)
    have "?d = CHR ''.'' # tl ?d" using d by (metis list.collapse)
    then have "fraction_text ?d" using digit_sequences(3) [OF ok'(2)] unfolding fraction_text_def by blast
    then show thesis using that [of "takeWhile (\<lambda>b. b \<noteq> CHR ''.'') mantissa" ?d] decimal_body [OF ok'(1)] d(1) takeWhile_dropWhile_id by metis
  qed
  have "frac @ ex @ suf \<noteq> []" using ok(3) suf(3) ex(3) m(4) by auto
  then show ?thesis unfolding float_literal_def using suf(1,2) ex(1,2) m(1-3) by (metis append_assoc)
qed

lemma classified: "classify text = Some Integer \<Longrightarrow> integer_literal text" "classify text = Some Float \<Longrightarrow> float_literal text"
  using validate_integer_grammar validate_float_grammar by (auto simp: classify_def split: if_splits)

lemma number_end_stop: "\<not> at_is bs (number_end bs off st) is_identifier_byte"
proof (induction bs off st rule: number_end.induct)
  case (1 bs off st)
  show ?case
  proof (cases "byte_at bs off")
    case None
    then show ?thesis by (subst number_end.simps) (simp add: at_is_def)
  next
    case byte: (Some b)
    show ?thesis
    proof (cases "number_byte bs off b st")
      case None
      then have "\<not> is_identifier_byte b"
        by (auto simp: number_byte_def is_identifier_byte_def is_ascii_alphanumeric_def split: if_splits)
      then show ?thesis using byte None by (subst number_end.simps) (simp add: at_is_def)
    next
      case (Some st')
      then show ?thesis using 1 byte by (subst number_end.simps) simp
    qed
  qed
qed

lemma scan_end_stop: "\<not> at_is bs (scan_end bs start) is_identifier_byte"
proof -
  have "is_identifier_byte = (\<lambda>b. is_ascii_alphanumeric b \<or> b = CHR ''_'')" by (simp add: is_identifier_byte_def fun_eq_iff)
  then show ?thesis using skip_while_stop [of bs is_identifier_byte "start + 2"] number_end_stop by (simp add: scan_end_def)
qed

section \<open>Quoted literals of the code\<close>

lemma hex_text_value: "list_all is_ascii_hexdigit hs \<Longrightarrow> hex_text (foldl (\<lambda>acc b. 16 * acc + the (digit_value b)) 0 hs) hs"
proof (induction hs rule: rev_induct)
  case (snoc b hs)
  have "is_digit 16 b" using snoc.prems by (simp add: is_ascii_hexdigit_def)
  then obtain v where v: "v < 16" "digit_value b = Some v" "b = ''0123456789abcdef'' ! v \<or> b = ''0123456789ABCDEF'' ! v"
    using digit_spelled [of 16 b] by blast
  have "hex_text (16 * foldl (\<lambda>acc b. 16 * acc + the (digit_value b)) 0 hs + v) (hs @ [b])"
    by (rule hex_text.Digit [OF snoc.IH v(1,3)]) (use snoc.prems in simp)
  then show ?case using v(2) by simp
qed (simp add: hex_text.Empty)

lemma digit_char_plain: "digit_char 16 b \<Longrightarrow> b \<noteq> QUOTE \<and> b \<noteq> DQUOTE \<and> b \<noteq> BACKSLASH"
  by (auto simp: digit_char_def)

lemma member_of_digits: "length xs = 16 \<Longrightarrow> v < 16 \<Longrightarrow> xs ! v \<in> set (take 16 xs)"
  by simp

lemma hex_text_chars: "hex_text n hs \<Longrightarrow> \<forall>b \<in> set hs. digit_char 16 b"
proof (induction rule: hex_text.induct)
  case (Digit n hs v b)
  have "digit_char 16 b"
    using Digit.hyps(3)
  proof
    assume "b = ''0123456789abcdef'' ! v"
    moreover have "''0123456789abcdef'' ! v \<in> set (take 16 ''0123456789abcdef'')" by (rule member_of_digits [OF _ Digit.hyps(2)]) simp
    ultimately show ?thesis unfolding digit_char_def by (metis UnI1)
  next
    assume "b = ''0123456789ABCDEF'' ! v"
    moreover have "''0123456789ABCDEF'' ! v \<in> set (take 16 ''0123456789ABCDEF'')" by (rule member_of_digits [OF _ Digit.hyps(2)]) simp
    ultimately show ?thesis unfolding digit_char_def by (metis UnI2)
  qed
  then show ?case using Digit.IH by simp
qed simp

lemma nested_guards:
  "(if a then x else if b then y else if c then z else None) = Some r \<Longrightarrow> a \<and> x = Some r \<or> b \<and> y = Some r \<or> c \<and> z = Some r"
  by (simp split: if_splits)

lemma escape_end_item:
  assumes "escape_end content byte_literal (Suc k) = Some fin" and "k < length content" and "content ! k = BACKSLASH"
  shows "literal_item byte_literal (text_at content k fin) \<and> k < fin \<and> fin \<le> length content"
proof -
  obtain c where c: "Suc k < length content" "content ! Suc k = c"
    using assms(1) by (cases "Suc k < length content") (simp_all add: escape_end_def byte_at_def)
  have byte: "byte_at content (Suc k) = Some c" using c by (simp add: byte_at_def)
  have start: "text_at content k fin = BACKSLASH # c # text_at content (k + 2) fin" if "k + 2 \<le> fin" "fin \<le> length content"
    using that text_at_step [of k fin content] text_at_step [of "Suc k" fin content] assms(2,3) c by simp
  consider (simple) "c \<in> {BACKSLASH, DQUOTE, QUOTE, CHR ''n'', CHR ''r'', CHR ''t'', CHR ''0''}" "fin = k + 2"
    | (hex) "c = CHR ''x''" "at_is content (k + 2) is_ascii_hexdigit" "at_is content (k + 3) is_ascii_hexdigit" "fin = k + 4"
    | (unicode) "c = CHR ''u''" "\<not> byte_literal" "byte_at content (k + 2) = Some (CHR 0x7B)" "unicode_escape_end content (Suc k) = Some fin"
  proof -
    from nested_guards [OF assms(1) [unfolded escape_end_def byte option.case]] show thesis
    proof (elim disjE conjE)
      assume h: "c \<in> {BACKSLASH, DQUOTE, QUOTE, CHR ''n'', CHR ''r'', CHR ''t'', CHR ''0''}" "Some (Suc k + 1) = Some fin"
      have "fin = k + 2" using h(2) by simp
      then show thesis by (rule simple [OF h(1)])
    next
      assume h: "c = CHR ''x''"
        "(if \<not> at_is content (Suc k + 1) is_ascii_hexdigit \<or> \<not> at_is content (Suc k + 2) is_ascii_hexdigit then None
          else Some (Suc k + 3)) = Some fin"
      have "at_is content (k + 2) is_ascii_hexdigit \<and> at_is content (k + 3) is_ascii_hexdigit \<and> fin = k + 4"
        using h(2) by (simp add: eval_nat_numeral split: if_splits)
      then show thesis by (intro hex [OF h(1)]) (simp_all only:)
    next
      assume h: "c = CHR ''u''" "\<not> byte_literal" "byte_at content (Suc k + 1) = Some (CHR 0x7B)" "unicode_escape_end content (Suc k) = Some fin"
      have "byte_at content (k + 2) = Some (CHR 0x7B)" using h(3) by simp
      then show thesis by (rule unicode [OF h(1,2) _ h(4)])
    qed
  qed
  then show ?thesis
  proof cases
    case simple
    then show ?thesis using start literal_item.Escape [OF simple(1)] c(1) by simp
  next
    case hex
    have ab: "k + 3 < length content" "is_digit 16 (content ! (k + 2))" "is_digit 16 (content ! (k + 3))"
      using hex(2,3) by (auto simp: at_is_def byte_at_def is_ascii_hexdigit_def split: if_splits)
    have "text_at content (k + 2) fin = [content ! (k + 2), content ! (k + 3)]"
      using text_at_step [of "k + 2" fin content] text_at_step [of "k + 3" fin content] ab(1) hex(4) by (simp add: eval_nat_numeral)
    then show ?thesis
      using start literal_item.Hex [OF digit_chars [OF ab(2)] digit_chars [OF ab(3)]] ab(1) hex(1,4) by simp
  next
    case unicode
    let ?s = "k + 3"
    let ?e = "skip_while is_ascii_hexdigit content ?s"
    have s: "Suc k + 2 = ?s" by simp
    obtain hs v where h: "?e \<noteq> ?s" "?e - ?s \<le> 6" "byte_at content ?e = Some (CHR 0x7D)" "slice content ?s ?e = Some hs"
        "u32_from_hex hs = Some v" "char_from_u32 v \<noteq> None" "fin = ?e + 1"
      using unicode(4) unfolding unicode_escape_end_def Let_def s by (auto split: if_splits Option.bind_splits)
    have e: "?s \<le> ?e" "?e < length content" "hs = text_at content ?s ?e" "content ! ?e = CHR 0x7D"
      using h(3,4) by (auto simp: byte_at_def slice_def text_at_def split: if_splits)
    have v: "hex_text v hs" "v \<le> 0x10FFFF" "\<not> (0xD800 \<le> v \<and> v \<le> 0xDFFF)"
      using h(5,6) hex_text_value [of hs] by (auto simp: u32_from_hex_def char_from_u32_def Let_def split: if_splits)
    have len: "length hs = ?e - ?s" using e by (simp add: text_at_def)
    have "text_at content (k + 2) fin = CHR 0x7B # text_at content ?s fin"
      using text_at_step [of "k + 2" fin content] unicode(3) e(1,2) h(7) by (simp add: byte_at_Some eval_nat_numeral)
    also have "text_at content ?s fin = hs @ [CHR 0x7D]" using text_at_snoc [OF e(1,2)] e(3,4) h(7) by simp
    finally have "text_at content k fin = [BACKSLASH, CHR ''u'', CHR 0x7B] @ hs @ [CHR 0x7D]"
      using start e(1,2) h(7) unicode(1) by simp
    moreover have "literal_item byte_literal ([BACKSLASH, CHR ''u'', CHR 0x7B] @ hs @ [CHR 0x7D])"
      by (rule literal_item.Unicode [OF unicode(2) v(1) _ _ v(2,3)]) (use len h(1,2) e(1) in auto)
    ultimately show ?thesis using e(1,2) h(7) by simp
  qed
qed

lemma drop_text_at: "i \<le> j \<Longrightarrow> j \<le> length bs \<Longrightarrow> drop i bs = text_at bs i j @ drop j bs"
  by (metis append_take_drop_id drop_drop le_add_diff_inverse2 text_at_def)

lemma validate_content_items:
  "validate_content content byte_literal offset n = Some m \<Longrightarrow>
    \<exists>its. drop offset content = concat its \<and> m = n + length its \<and> (\<forall>it \<in> set its. literal_item byte_literal it)"
proof (induction content byte_literal offset n rule: validate_content.induct)
  case (1 content byte_literal offset n)
  show ?case
  proof (cases "offset < length content")
    case False
    then have "m = n" using 1(3) by (subst (asm) validate_content.simps) simp
    then show ?thesis using False by (intro exI [of _ "[]"]) simp
  next
    case True
    let ?b = "content ! offset"
    have ok: "\<not> (?b = LF \<or> ?b = CR \<or> ?b = CHR 0x00)" using 1(3) True by (subst (asm) validate_content.simps) (auto split: if_splits)
    obtain fin where fin: "literal_item byte_literal (text_at content offset fin)" "offset < fin" "fin \<le> length content"
      and rest: "\<exists>its. drop fin content = concat its \<and> m = n + 1 + length its \<and> (\<forall>it \<in> set its. literal_item byte_literal it)"
    proof (cases "?b = BACKSLASH")
      case True
      then obtain fin where f: "escape_end content byte_literal (offset + 1) = Some fin" "validate_content content byte_literal fin (n + 1) = Some m"
        using 1(3) \<open>offset < length content\<close> ok by (subst (asm) validate_content.simps) (auto split: option.splits)
      from escape_end_item [of content byte_literal offset fin] f(1) \<open>offset < length content\<close> True
      have i: "literal_item byte_literal (text_at content offset fin)" "offset < fin" "fin \<le> length content" by simp_all
      show thesis using that [OF i] 1(2) [OF \<open>offset < length content\<close> refl ok _ f] True by simp
    next
      case False
      then obtain v w where d: "decode_scalar (drop offset content) = Some (v, w)" "\<not> (byte_literal \<and> \<not> v < 128)"
          "validate_content content byte_literal (offset + w) (n + 1) = Some m"
        using 1(3) True ok by (subst (asm) validate_content.simps) (auto split: option.splits if_splits)
      note i = decoded_item [OF d(1)]
      let ?it = "text_at content offset (offset + w)"
      have "hd ?it = ?b" using i by (simp add: text_at_step)
      then have "?it \<notin> {[BACKSLASH], [LF], [CR], [CHR 0x00]}" using False ok by auto
      then have "literal_item byte_literal ?it" using i d(2) by (intro literal_item.Plain) auto
      then show thesis using that i 1(1) [OF True refl ok False d(1) refl d(2,3)] by blast
    qed
    then obtain its where its: "drop fin content = concat its" "m = n + 1 + length its" "\<forall>it \<in> set its. literal_item byte_literal it" by blast
    then show ?thesis using fin drop_text_at [of offset fin content] by (intro exI [of _ "text_at content offset fin # its"]) simp
  qed
qed

lemma quoted_end_range: "quoted_end_from bs quote escaped offset = Some j \<Longrightarrow> offset < j \<and> j \<le> length bs \<and> bs ! (j - 1) = quote"
proof (induction bs quote escaped offset rule: quoted_end_from.induct)
  case (1 bs quote escaped offset)
  then obtain b where b: "byte_at bs offset = Some b" "offset < length bs" "bs ! offset = b"
    by (subst (asm) quoted_end_from.simps) (auto simp: byte_at_def split: option.splits if_splits)
  show ?case
  proof (cases "\<not> escaped \<and> b = quote")
    case True
    then show ?thesis using 1(2) b by (subst (asm) quoted_end_from.simps) auto
  next
    case False
    then have "\<not> (\<not> escaped \<and> (b = LF \<or> b = CR \<or> b = CHR 0x00))"
        "quoted_end_from bs quote (\<not> escaped \<and> b = BACKSLASH) (offset + 1) = Some j"
      using 1(2) b by (subst (asm) quoted_end_from.simps; auto split: if_splits)+
    then show ?thesis using 1(1) [OF b(1) False] by simp
  qed
qed

text \<open>The scan for the closing quote follows the items of the content, so that no item is the bare quote.\<close>

lemma quoted_end_step:
  assumes "quoted_end_from bs quote escaped offset = Some j" and "\<not> (\<not> escaped \<and> bs ! offset = quote)"
  shows "quoted_end_from bs quote (\<not> escaped \<and> bs ! offset = BACKSLASH) (offset + 1) = Some j"
  using assms by (subst (asm) quoted_end_from.simps) (auto simp: byte_at_def split: if_splits)

lemma quoted_end_skip:
  assumes "quoted_end_from bs quote False offset = Some j" and "text_at bs offset (offset + length xs) = xs"
    and "\<forall>b \<in> set xs. b \<noteq> quote \<and> b \<noteq> BACKSLASH"
  shows "quoted_end_from bs quote False (offset + length xs) = Some j"
  using assms
proof (induction xs arbitrary: offset)
  case (Cons b xs)
  have len: "offset < length bs" using Cons.prems(2) by (cases "offset < length bs") (auto simp: text_at_def)
  have b: "bs ! offset = b" "text_at bs (Suc offset) (Suc offset + length xs) = xs"
    using Cons.prems(2) drop_step [OF len] by (auto simp: text_at_def)
  have "quoted_end_from bs quote False (Suc offset) = Some j"
    using quoted_end_step [OF Cons.prems(1)] b(1) Cons.prems(3) by simp
  then show ?case using Cons.IH [of "Suc offset"] b(2) Cons.prems(3) by simp
qed simp

lemma quoted_end_escape:
  assumes "quoted_end_from bs quote False offset = Some j" and "bs ! offset = BACKSLASH" and "quote \<noteq> BACKSLASH"
  shows "quoted_end_from bs quote False (offset + 2) = Some j"
proof -
  have "quoted_end_from bs quote True (offset + 1) = Some j" using quoted_end_step [OF assms(1)] assms(2,3) by simp
  from quoted_end_step [OF this] show ?thesis by simp
qed

lemma wide_bytes: "encoded (b # bs) \<Longrightarrow> bs \<noteq> [] \<Longrightarrow> \<forall>c \<in> set (b # bs). 128 \<le> byte_val c"
  using encoded_bytes [of b bs] by (auto simp: continuation_def utf8_char_width_def split: if_splits)

lemma item_skipped:
  assumes "literal_item byte_literal it" and "quoted_end_from bs DQUOTE False offset = Some j"
    and "text_at bs offset (offset + length it) = it" and "it \<noteq> [DQUOTE]" and "it \<noteq> []"
  shows "quoted_end_from bs DQUOTE False (offset + length it) = Some j"
  using assms(1)
proof cases
  case Plain
  have "\<forall>b \<in> set it. b \<noteq> DQUOTE \<and> b \<noteq> BACKSLASH"
  proof (cases "tl it = []")
    case True
    then obtain b where "it = [b]" using assms(5) by (cases it) auto
    then show ?thesis using assms(4) Plain(2) by auto
  next
    case False
    then obtain b bs' where it: "it = b # bs'" "bs' \<noteq> []" by (cases it) auto
    then have "\<forall>c \<in> set it. 128 \<le> byte_val c" using wide_bytes [of b bs'] Plain(1) by simp
    moreover have "\<not> 128 \<le> byte_val DQUOTE" "\<not> 128 \<le> byte_val BACKSLASH" by simp_all
    ultimately show ?thesis by metis
  qed
  then show ?thesis by (rule quoted_end_skip [OF assms(2,3)])
next
  case (Escape c)
  have "offset < length bs" using quoted_end_range [OF assms(2)] by simp
  then have "bs ! offset = BACKSLASH" using assms(3) drop_step [of offset bs] by (simp add: Escape text_at_def)
  then show ?thesis using quoted_end_escape [OF assms(2)] by (simp add: Escape)
next
  case (Hex a b)
  have len: "offset < length bs" using quoted_end_range [OF assms(2)] by simp
  have first: "bs ! offset = BACKSLASH" using arg_cong [OF assms(3), of hd] text_at_step [of offset _ bs] len by (simp add: Hex text_at_def hd_drop_conv_nth)
  have rest: "text_at bs (offset + 2) (offset + 2 + length [a, b]) = [a, b]"
    using arg_cong [OF assms(3), of "drop 2"] by (simp add: Hex text_at_def drop_take)
  show ?thesis
    using quoted_end_skip [OF quoted_end_escape [OF assms(2) first] rest] digit_char_plain [OF Hex(2)] digit_char_plain [OF Hex(3)]
    by (simp add: Hex)
next
  case (Unicode v hs)
  have len: "offset < length bs" using quoted_end_range [OF assms(2)] by simp
  have first: "bs ! offset = BACKSLASH" using arg_cong [OF assms(3), of hd] len by (simp add: Unicode text_at_def hd_drop_conv_nth)
  let ?r = "[CHR 0x7B] @ hs @ [CHR 0x7D]"
  have rest: "text_at bs (offset + 2) (offset + 2 + length ?r) = ?r"
    using arg_cong [OF assms(3), of "drop 2"] by (simp add: Unicode text_at_def drop_take)
  have "\<forall>b \<in> set ?r. b \<noteq> DQUOTE \<and> b \<noteq> BACKSLASH" using hex_text_chars [OF Unicode(3)] digit_char_plain by auto
  then show ?thesis using quoted_end_skip [OF quoted_end_escape [OF assms(2) first] rest] by (simp add: Unicode add.assoc)
qed

lemma literal_item_nonempty: "literal_item byte_literal it \<Longrightarrow> it \<noteq> []"
  by (auto elim: literal_item.cases)

lemma no_bare_quote:
  "quoted_end_from bs DQUOTE False offset = Some j \<Longrightarrow> text_at bs offset (j - 1) = concat its \<Longrightarrow>
    \<forall>it \<in> set its. literal_item byte_literal it \<Longrightarrow> [DQUOTE] \<notin> set its"
proof (induction its arbitrary: offset)
  case (Cons it its)
  note r = quoted_end_range [OF Cons.prems(1)]
  have item: "literal_item byte_literal it" "it \<noteq> []" using Cons.prems(3) literal_item_nonempty by auto
  have "length it > 0" using item(2) by simp
  then have le: "offset + length it \<le> j - 1"
    using arg_cong [OF Cons.prems(2), of length] r by (simp add: text_at_def min_def split: if_splits)
  have "j - 1 \<le> length bs" using r by linarith
  from text_at_split [OF le_add1 le this]
  have parts: "text_at bs offset (offset + length it) @ text_at bs (offset + length it) (j - 1) = it @ concat its"
    using Cons.prems(2) by simp
  have here: "text_at bs offset (offset + length it) = it" "text_at bs (offset + length it) (j - 1) = concat its"
    using parts le r by (auto simp: append_eq_append_conv text_at_def)
  have "it \<noteq> [DQUOTE]"
  proof
    assume it: "it = [DQUOTE]"
    then have "bs ! offset = DQUOTE" "offset < length bs" using here(1) r drop_step [of offset bs] by (simp_all add: text_at_def)
    then have "j = offset + 1" using Cons.prems(1) by (subst (asm) quoted_end_from.simps) (simp add: byte_at_def)
    then show False using le it by simp
  qed
  then show ?case using Cons.IH [OF item_skipped [OF item(1) Cons.prems(1) here(1) _ item(2)] here(2)] Cons.prems(3) by simp
qed simp

lemma quoted_literal:
  fixes byte_literal is_char bs i
  defines "k \<equiv> i + (if byte_literal then 1 else 0)" and "quote \<equiv> (if is_char then QUOTE else DQUOTE)"
  assumes "validate_quoted (text_at bs i j) byte_literal is_char" and "text_at bs i k = literal_prefix byte_literal"
    and "k + 1 < j" and "j \<le> length bs" and "bs ! k = quote" and "bs ! (j - 1) = quote"
    and "\<not> is_char \<Longrightarrow> quoted_end_from bs DQUOTE False (k + 1) = Some j"
  shows "if is_char then char_literal byte_literal (text_at bs i j) else string_literal byte_literal (text_at bs i j)"
proof -
  let ?content = "text_at bs (k + 1) (j - 1)"
  have le: "i \<le> k" "k \<le> j" by (use assms(5) in \<open>simp_all add: k_def\<close>)
  have whole: "text_at bs i j = literal_prefix byte_literal @ [quote] @ ?content @ [quote]"
    using text_at_split [of i k j bs] text_at_step [of k j bs] text_at_snoc [of "k + 1" "j - 1" bs] assms(4-8) le by simp
  have pre: "(if byte_literal then 1 else 0) = length (literal_prefix byte_literal)" by (simp add: literal_prefix_def)
  obtain n where n: "validate_content ?content byte_literal 0 0 = Some n" "is_char \<longrightarrow> n = 1"
    using assms(3) unfolding validate_quoted_def whole pre Let_def by (auto split: if_splits option.splits)
  obtain its where its: "?content = concat its" "n = length its" "\<forall>it \<in> set its. literal_item byte_literal it"
    using validate_content_items [OF n(1)] by auto
  show ?thesis
  proof (cases is_char)
    case True
    then obtain it where "its = [it]" using n(2) its(2) by (cases its) auto
    then show ?thesis using whole its True unfolding char_literal_def quote_def by auto
  next
    case False
    have "[DQUOTE] \<notin> set its" by (rule no_bare_quote [OF assms(9) [OF False] its(1,3)])
    then have "\<forall>it \<in> set its. literal_item byte_literal it \<and> it \<noteq> [DQUOTE]" using its(3) by auto
    then show ?thesis using whole its(1) False unfolding string_literal_def quote_def by auto
  qed
qed

lemma apostrophe_quoted:
  assumes "apostrophe_form bs q = Some (Quoted j)"
  shows "q + 1 < j \<and> j \<le> length bs \<and> bs ! (j - 1) = QUOTE"
proof -
  have q: "q + 1 < length bs" using assms by (auto simp: apostrophe_form_def byte_at_def Let_def split: if_splits)
  have skip: "q + 1 \<le> skip_while is_identifier_candidate_byte bs (q + 1)" using skip_while_range [of "q + 1" bs] q by simp
  show ?thesis
    using assms quoted_end_range [of bs QUOTE False "q + 1" j] skip decode_scalar_width
    by (auto simp: apostrophe_form_def byte_at_Some Let_def quoted_end_def split: if_splits option.splits Option.bind_splits)
qed

lemma apostrophe_lifetime:
  assumes "apostrophe_form bs q = Some (LifetimeForm j)" and "q < length bs" and "bs ! q = QUOTE"
  shows "lifetime_text (text_at bs q j) \<and> \<not> follows bs j {b. b = QUOTE \<or> b \<in> set identifier_characters \<or> 128 \<le> byte_val b}"
proof -
  have q: "q + 1 < length bs" using assms(1) by (auto simp: apostrophe_form_def byte_at_def Let_def split: if_splits)
  have c: "is_identifier_candidate_byte (bs ! (q + 1))" "j = skip_while is_identifier_candidate_byte bs (q + 1)" "byte_at bs j \<noteq> Some QUOTE"
    using assms(1) q by (auto simp: apostrophe_form_def byte_at_Some byte_at_def Let_def split: if_splits option.splits Option.bind_splits)
  have range: "q + 1 \<le> j" "j \<le> length bs" using skip_while_range [of "q + 1" bs is_identifier_candidate_byte] q c(2) by simp_all
  have stop: "\<not> at_is bs j is_identifier_candidate_byte" unfolding c(2) by (rule skip_while_stop)
  then have "j \<noteq> q + 1" using c(1) q by (auto simp: at_is_def byte_at_def)
  then have ne: "text_at bs (q + 1) j \<noteq> []" using range q by (simp add: text_at_def)
  have "\<forall>b \<in> set (text_at bs (q + 1) j). is_identifier_candidate_byte b"
  proof
    fix b
    assume "b \<in> set (text_at bs (q + 1) j)"
    then obtain k where "q + 1 \<le> k" "k < j" "b = bs ! k" using text_at_set [OF range(2)] by blast
    then show "is_identifier_candidate_byte b" using skip_while_all [of "q + 1" k is_identifier_candidate_byte bs] c(2) by simp
  qed
  then have "lifetime_text (text_at bs q j)"
    unfolding lifetime_text_def using ne text_at_step [of q j bs] range assms(3) candidate_byte_chars by auto
  moreover have "\<not> follows bs j {b. b = QUOTE \<or> b \<in> set identifier_characters \<or> 128 \<le> byte_val b}"
    using stop c(3) by (auto simp: follows_def at_is_def byte_at_def candidate_byte_chars)
  ultimately show ?thesis by blast
qed

end
