(* ===== verification/Lexer_Sound.thy ===== *)
theory Lexer_Sound
  imports Lexer_Grammar
begin

text \<open>
  Correctness of the lexer for arbitrary bytes: it returns without panicking, its tokens cover the source
  without gaps, every token is a word of the grammar of its kind (\<open>Lexer_Grammar\<close>), issues are exactly the error
  tokens, and a source without issues is clean text.
\<close>

section \<open>Decoding\<close>

lemma utf8_width_char_width: "utf8_width b = utf8_char_width b"
  by (simp add: utf8_width_def utf8_char_width_def)

lemma encoded_alone:
  assumes "from_utf8 it = None" and "it \<noteq> []" and "length it = utf8_char_width (hd it)"
  shows "encoded it"
proof -
  obtain its where its: "it = concat its" "\<forall>x \<in> set its. encoded x" using assms(1) by (auto simp: from_utf8_valid)
  then obtain x xs where x: "its = x # xs" using assms(2) by (cases its) auto
  have "encoded x" using its(2) x by simp
  then have ne: "x \<noteq> []" and "length x = utf8_char_width (hd x)"
    using utf8_item_Scalar [of x "length x"] by (auto simp: encoded_def)
  then have "length x = length it" using assms(3) its(1) x by (simp add: hd_append)
  then have "it = x" using its(1) x by simp
  then show ?thesis using \<open>encoded x\<close> by simp
qed

lemma decode_scalar_Some:
  assumes "decode_scalar bs = Some (v, w)"
  shows "encoded (take w bs) \<and> v = scalar_value (take w bs) \<and> 0 < w \<and> w \<le> length bs \<and> w = utf8_char_width (hd bs)"
proof -
  obtain b cs where bs: "bs = b # cs" using assms by (cases bs) (auto simp: decode_scalar_def)
  have w: "w = utf8_char_width b" "0 < w" "w \<le> length bs" "from_utf8 (take w bs) = None" "v = scalar_value (take w bs)"
    using assms by (auto simp: decode_scalar_def bs Let_def utf8_width_char_width split: if_splits option.splits)
  have "hd (take w bs) = b" using w(2) bs by (cases w) auto
  then have "encoded (take w bs)" using encoded_alone [of "take w bs"] w bs by (simp add: min_def)
  then show ?thesis using w bs by simp
qed

lemma decode_scalar_None:
  assumes "decode_scalar bs = None" and "bs \<noteq> []"
  shows "\<exists>e. utf8_item bs = Malformed e"
proof (cases "utf8_item bs")
  case (Scalar w)
  obtain b cs where bs: "bs = b # cs" using assms(2) by (cases bs) auto
  have w: "w = utf8_char_width b" "0 < w" "w \<le> length bs" using utf8_item_Scalar [OF Scalar] bs by auto
  have "encoded (take w bs)" by (rule utf8_item_encoded [OF Scalar])
  then have "from_utf8 (take w bs) = None" unfolding from_utf8_valid by (intro exI [of _ "[take w bs]"]) simp
  then show ?thesis using assms(1) w by (auto simp: decode_scalar_def bs Let_def utf8_width_char_width)
qed simp

lemma invalid_utf8_width_Some:
  assumes "decode_scalar bs = None" and "bs \<noteq> []"
  shows "\<exists>n. invalid_utf8_width bs = Some n \<and> 0 < n \<and> n \<le> length bs"
proof -
  obtain e where e: "utf8_item bs = Malformed e" using decode_scalar_None [OF assms] by blast
  have "from_utf8 bs = Some \<lparr>valid_up_to = 0, error_len = e\<rparr>" by (rule from_utf8_error_at_start [OF assms(2) e])
  then show ?thesis
    using utf8_item_Malformed [of bs] e assms(2) by (cases e) (auto simp: invalid_utf8_width_def)
qed

lemma global_text_error_None: "global_text_error text = None \<longleftrightarrow> clean text"
proof -
  have "contains_bom text \<longleftrightarrow> (\<exists>i rest. drop i text = bom @ rest)"
  proof
    assume "contains_bom text"
    then obtain i where "starts_with (drop i text) bom" by (auto simp: contains_bom_def list_ex_iff)
    then show "\<exists>i rest. drop i text = bom @ rest" by (metis append_take_drop_id starts_with_def)
  next
    assume "\<exists>i rest. drop i text = bom @ rest"
    then obtain i rest where d: "drop i text = bom @ rest" by blast
    then have "i < length text" by (cases "i < length text") (auto simp: bom_def)
    then show "contains_bom text" using d by (auto simp: contains_bom_def list_ex_iff starts_with_def intro!: bexI [of _ i])
  qed
  then show ?thesis by (auto simp: global_text_error_def clean_iff)
qed

section \<open>One token\<close>

definition token_ok :: "u8 list \<Rightarrow> token_kind \<Rightarrow> nat \<Rightarrow> nat \<Rightarrow> bool" where
  "token_ok bytes kind i j =
     (let text = text_at bytes i j; ended = (\<not> follows bytes j (set identifier_characters)) in
      case kind of
        LexError _ \<Rightarrow> True
      | Eof \<Rightarrow> False
      | InitialBom \<Rightarrow> i = 0 \<and> text = bom
      | Whitespace \<Rightarrow> clean text \<and> whitespace_text text \<and> \<not> blank_follows bytes j
      | LineComment \<Rightarrow> clean text \<and> line_comment_text text \<and> (j = length bytes \<or> bytes ! j = LF \<or> bytes ! j = CR)
      | BlockComment \<Rightarrow> clean text \<and> block_comment_text text
      | Identifier \<Rightarrow> clean text \<and> identifier_text text \<and> ended
      | Underscore \<Rightarrow> text = ''_'' \<and> ended
      | Keyword k \<Rightarrow> clean text \<and> text = keyword_spelling k \<and> ended
      | Punctuation p \<Rightarrow> clean text \<and> text = punctuation_spelling p \<and>
          (\<forall>q. starts_with (drop i bytes) (punctuation_spelling q) \<longrightarrow> length (punctuation_spelling q) \<le> length text)
      | IntegerLiteral \<Rightarrow> clean text \<and> integer_literal text \<and> ended
      | FloatLiteral \<Rightarrow> clean text \<and> float_literal text \<and> ended
      | CharLiteral \<Rightarrow> clean text \<and> char_literal False text
      | ByteCharLiteral \<Rightarrow> clean text \<and> char_literal True text
      | StringLiteral \<Rightarrow> clean text \<and> string_literal False text
      | ByteStringLiteral \<Rightarrow> clean text \<and> string_literal True text
      | Lifetime \<Rightarrow> clean text \<and> lifetime_text text \<and>
          \<not> follows bytes j {b. b = QUOTE \<or> b \<in> set identifier_characters \<or> 128 \<le> byte_val b})"

definition issue_of :: "token \<Rightarrow> lex_issue list" where
  "issue_of t =
     (case tk_kind t of
        LexError k \<Rightarrow> [\<lparr>li_kind = k,
          li_diagnostic = with_primary_span (tk_span t) (diagnostic_error (lex_error_message k))\<rparr>]
      | _ \<Rightarrow> [])"

definition token_at :: "token_kind \<Rightarrow> nat \<Rightarrow> nat \<Rightarrow> token" where
  "token_at kind i j = \<lparr>tk_kind = kind, tk_span = \<lparr>sp_start = i, sp_end = j\<rparr>\<rparr>"

definition emit :: "token_kind \<Rightarrow> nat \<Rightarrow> lexer \<Rightarrow> lexer" where
  "emit kind j lx =
     lx\<lparr>l_offset := j, l_tokens := l_tokens lx @ [token_at kind (l_offset lx) j],
        l_issues := l_issues lx @ issue_of (token_at kind (l_offset lx) j)\<rparr>"

definition stepped :: "lexer \<Rightarrow> lexer option \<Rightarrow> bool" where
  "stepped lx r \<longleftrightarrow>
     (\<exists>kind j. r = Some (emit kind j lx) \<and> l_offset lx < j \<and> j \<le> length (l_bytes lx) \<and>
        token_ok (l_bytes lx) kind (l_offset lx) j)"

named_theorems stepped_intros "results of a scanner that emit one well-formed token"

lemma stepped_push [stepped_intros]:
  assumes "l_offset lx < j" and "j \<le> length (l_bytes lx)" and "token_ok (l_bytes lx) kind (l_offset lx) j"
    and "\<And>k. kind \<noteq> LexError k"
  shows "stepped lx (push kind (l_offset lx) j (lx\<lparr>l_offset := j\<rparr>))"
proof -
  have "push kind (l_offset lx) j (lx\<lparr>l_offset := j\<rparr>) = Some (emit kind j lx)"
    using assms(1,4) by (cases kind) (auto simp: push_def span_new_def emit_def token_at_def issue_of_def)
  then show ?thesis using assms unfolding stepped_def by blast
qed

lemma stepped_error [stepped_intros]:
  assumes "l_offset lx < j" and "j \<le> length (l_bytes lx)"
  shows "stepped lx (push_error k (l_offset lx) j (lx\<lparr>l_offset := j\<rparr>))"
proof -
  have "push_error k (l_offset lx) j (lx\<lparr>l_offset := j\<rparr>) = Some (emit (LexError k) j lx)"
    using assms(1) by (simp add: push_error_def span_new_def emit_def token_at_def issue_of_def)
  moreover have "token_ok (l_bytes lx) (LexError k) (l_offset lx) j" by (simp add: token_ok_def)
  ultimately show ?thesis using assms unfolding stepped_def by blast
qed

lemma slice_text: "i \<le> j \<Longrightarrow> j \<le> length bs \<Longrightarrow> slice bs i j = Some (text_at bs i j)"
  by (simp add: slice_def text_at_def)

lemma slice_rest: "i \<le> length bs \<Longrightarrow> slice bs i (length bs) = Some (drop i bs)"
  by (simp add: slice_def)

lemma stepped_text_checked [stepped_intros]:
  assumes "l_offset lx < j" and "j \<le> length (l_bytes lx)"
    and "\<And>k. kind \<noteq> LexError k"
    and "clean (text_at (l_bytes lx) (l_offset lx) j) \<Longrightarrow> token_ok (l_bytes lx) kind (l_offset lx) j"
  shows "stepped lx (push_text_checked kind (l_offset lx) j (lx\<lparr>l_offset := j\<rparr>))"
proof -
  let ?text = "text_at (l_bytes lx) (l_offset lx) j"
  have s: "slice (l_bytes lx) (l_offset lx) j = Some ?text" using assms by (simp add: slice_text)
  show ?thesis
  proof (cases "global_text_error ?text")
    case None
    then have "stepped lx (push kind (l_offset lx) j (lx\<lparr>l_offset := j\<rparr>))"
      using assms global_text_error_None by (intro stepped_push) auto
    then show ?thesis using s None by (simp add: push_text_checked_def)
  next
    case (Some e)
    then show ?thesis using s stepped_error [OF assms(1,2)] by (simp add: push_text_checked_def)
  qed
qed

lemma clean_range:
  assumes "\<And>i. a \<le> i \<Longrightarrow> i < b \<Longrightarrow> byte_val (bs ! i) < 0x80 \<and> bs ! i \<noteq> CHR 0x00" and "b \<le> length bs"
  shows "clean (text_at bs a b)"
proof (rule clean_ascii, intro ballI)
  fix c
  assume "c \<in> set (text_at bs a b)"
  then obtain i where "i < b - a" "c = bs ! (a + i)" using assms(2) by (auto simp: text_at_def in_set_conv_nth)
  then show "byte_val c < 0x80 \<and> c \<noteq> CHR 0x00" using assms(1) [of "a + i"] by simp
qed

section \<open>Scanners\<close>

lemma ascii_class:
  "is_ascii_digit b \<Longrightarrow> byte_val b < 0x80 \<and> b \<noteq> CHR 0x00"
  "is_ascii_alphabetic b \<Longrightarrow> byte_val b < 0x80 \<and> b \<noteq> CHR 0x00"
  "is_identifier_byte b \<Longrightarrow> byte_val b < 0x80 \<and> b \<noteq> CHR 0x00"
  "number_text b \<Longrightarrow> byte_val b < 0x80 \<and> b \<noteq> CHR 0x00"
  by (auto simp: is_ascii_digit_def is_ascii_alphabetic_def is_identifier_byte_def number_text_def
      is_ascii_alphanumeric_def)

lemma whitespace_end_range:
  "offset \<le> length bs \<Longrightarrow> offset \<le> whitespace_end bs offset \<and> whitespace_end bs offset \<le> length bs"
proof (induction bs offset rule: whitespace_end.induct)
  case (1 bs offset)
  then show ?case
    by (subst (1 2) whitespace_end.simps) (force simp: byte_at_def split: if_splits)
qed

lemma whitespace_end_all:
  "offset \<le> i \<Longrightarrow> i < whitespace_end bs offset \<Longrightarrow> bs ! i \<in> {CHR '' '', TAB, LF, CR}"
proof (induction bs offset rule: whitespace_end.induct)
  case (1 bs offset)
  let ?b = "bs ! offset"
  consider (one) "offset < length bs" "?b = CHR '' '' \<or> ?b = TAB \<or> ?b = LF"
    | (two) "offset < length bs" "\<not> (?b = CHR '' '' \<or> ?b = TAB \<or> ?b = LF)" "?b = CR" "byte_at bs (offset + 1) = Some LF"
    | (stop) "whitespace_end bs offset = offset"
    using whitespace_end.simps [of bs offset] by argo
  then show ?case
  proof cases
    case one
    then have "whitespace_end bs offset = whitespace_end bs (offset + 1)" by (subst whitespace_end.simps) simp
    then show ?thesis using 1(1) [OF one] 1(3,4) one by (cases "i = offset") auto
  next
    case two
    then have eq: "whitespace_end bs offset = whitespace_end bs (offset + 2)" by (subst whitespace_end.simps) simp
    have "bs ! Suc offset = LF" using two(4) by (auto simp: byte_at_def split: if_splits)
    then show ?thesis using 1(2) [OF two(1,2)] 1(3,4) two eq by (cases "i = offset"; cases "i = Suc offset") auto
  next
    case stop
    then show ?thesis using 1(3,4) by simp
  qed
qed

lemma scan_whitespace_stepped:
  assumes "l_offset lx < whitespace_end (l_bytes lx) (l_offset lx)" and "l_offset lx < length (l_bytes lx)"
  shows "stepped lx (scan_whitespace lx)"
proof -
  let ?j = "whitespace_end (l_bytes lx) (l_offset lx)"
  have r: "?j \<le> length (l_bytes lx)" using whitespace_end_range [of "l_offset lx" "l_bytes lx"] assms(2) by simp
  have "clean (text_at (l_bytes lx) (l_offset lx) ?j)"
    by (rule clean_range [OF _ r]) (use whitespace_end_all [of "l_offset lx" _ "l_bytes lx"] in fastforce)
  moreover obtain chunks where chunks: "set chunks \<subseteq> blanks" "text_at (l_bytes lx) (l_offset lx) ?j = concat chunks"
      "\<not> blank_follows (l_bytes lx) ?j"
    using whitespace_end_text [of "l_offset lx" "l_bytes lx"] assms(2) by auto
  moreover have "chunks \<noteq> []" using chunks(2) text_at_step [OF assms(1) r] by auto
  ultimately have "token_ok (l_bytes lx) Whitespace (l_offset lx) ?j"
    unfolding token_ok_def Let_def whitespace_text_def by auto
  then show ?thesis unfolding scan_whitespace_def Let_def using assms r by (intro stepped_push) auto
qed

lemma two_bytes:
  assumes "i < length bs" and "bs ! i = a" and "byte_at bs (i + 1) = Some b" and "i + 2 \<le> j" and "j \<le> length bs"
  shows "text_at bs i j = [a, b] @ text_at bs (i + 2) j"
  using assms text_at_step [of i j bs] text_at_step [of "Suc i" j bs] by (simp add: byte_at_Some)

lemma scan_line_comment_stepped:
  assumes "l_offset lx < length (l_bytes lx)" and "l_bytes lx ! l_offset lx = CHR ''/''"
    and "byte_at (l_bytes lx) (l_offset lx + 1) = Some (CHR ''/'')"
  shows "stepped lx (scan_line_comment lx)"
proof -
  let ?bs = "l_bytes lx" and ?i = "l_offset lx"
  let ?j = "skip_while (\<lambda>b. b \<noteq> LF \<and> b \<noteq> CR) ?bs (?i + 2)"
  have len: "?i + 2 \<le> length ?bs" using assms(3) by (simp add: byte_at_Some)
  have r: "?i + 2 \<le> ?j" "?j \<le> length ?bs" using skip_while_range [OF len, of "\<lambda>b. b \<noteq> LF \<and> b \<noteq> CR"] by auto
  have "b \<noteq> LF \<and> b \<noteq> CR" if b: "b \<in> set (text_at ?bs (?i + 2) ?j)" for b
  proof -
    obtain k where "?i + 2 \<le> k" "k < ?j" "b = ?bs ! k" using b text_at_set [OF r(2)] by blast
    then show ?thesis using skip_while_all [of "?i + 2" k "\<lambda>b. b \<noteq> LF \<and> b \<noteq> CR" ?bs] by simp
  qed
  then have "LF \<notin> set (text_at ?bs (?i + 2) ?j)" "CR \<notin> set (text_at ?bs (?i + 2) ?j)" by blast+
  then have "line_comment_text (text_at ?bs ?i ?j)"
    unfolding line_comment_text_def using two_bytes [OF assms r] by (intro exI [of _ "text_at ?bs (?i + 2) ?j"] conjI)
  moreover have "?j = length ?bs \<or> ?bs ! ?j = LF \<or> ?bs ! ?j = CR"
    using skip_while_stop [of ?bs "\<lambda>b. b \<noteq> LF \<and> b \<noteq> CR" "?i + 2"] r(2) by (auto simp: at_is_def byte_at_def)
  ultimately have "clean (text_at ?bs ?i ?j) \<Longrightarrow> token_ok ?bs LineComment ?i ?j" by (simp add: token_ok_def Let_def)
  then show ?thesis unfolding scan_line_comment_def Let_def using r by (intro stepped_text_checked) auto
qed

lemma comment_end_range:
  "offset \<le> length bs \<Longrightarrow> offset \<le> fst (comment_end bs depth offset) \<and> fst (comment_end bs depth offset) \<le> length bs"
proof (induction bs depth offset rule: comment_end.induct)
  case (1 bs depth offset)
  have two: "offset + 2 \<le> length bs" if "starts_with (drop offset bs) ''/*'' \<or> starts_with (drop offset bs) ''*/''"
    using that starts_with_nth [of offset bs] 1(4) by fastforce
  show ?case
    using 1 two by (subst (1 2) comment_end.simps) (auto split: if_splits)
qed

lemma scan_block_comment_stepped:
  assumes "l_offset lx < length (l_bytes lx)" and "l_bytes lx ! l_offset lx = CHR ''/''"
    and "byte_at (l_bytes lx) (l_offset lx + 1) = Some (CHR ''*'')"
  shows "stepped lx (scan_block_comment lx)"
proof -
  let ?bs = "l_bytes lx" and ?i = "l_offset lx"
  obtain j closed where c: "comment_end ?bs 1 (?i + 2) = (j, closed)" by force
  have len: "?i + 2 \<le> length ?bs" using assms(3) by (simp add: byte_at_Some)
  have r: "?i + 2 \<le> j" "j \<le> length ?bs" using comment_end_range [OF len, of 1] c by auto
  have "token_ok ?bs BlockComment ?i j" if closed "clean (text_at ?bs ?i j)"
  proof -
    have "comment_tail 1 (text_at ?bs (?i + 2) j)" using comment_end_tail [of ?bs 0 "?i + 2" j] c len that(1) by simp
    then have "block_comment_text (text_at ?bs ?i j)"
      unfolding block_comment_text_def two_bytes [OF assms r] by (intro exI [of _ "text_at ?bs (?i + 2) j"]) auto
    then show ?thesis using that(2) by (simp add: token_ok_def Let_def)
  qed
  then show ?thesis
    using r unfolding scan_block_comment_def Let_def c
    by (cases closed) (auto intro!: stepped_text_checked stepped_error)
qed

lemma text_at_nonempty: "i < j \<Longrightarrow> j \<le> length bs \<Longrightarrow> text_at bs i j \<noteq> [] \<and> hd (text_at bs i j) = bs ! i"
  by (simp add: text_at_def hd_drop_conv_nth)

lemma name_ended: "\<not> at_is bs j is_identifier_byte \<Longrightarrow> \<not> follows bs j (set identifier_characters)"
  by (simp add: at_is_follows identifier_byte_chars)

lemma scan_ascii_identifier_stepped:
  assumes "l_offset lx < length (l_bytes lx)"
    and "is_ascii_alphabetic (l_bytes lx ! l_offset lx) \<or> l_bytes lx ! l_offset lx = CHR ''_''"
  shows "stepped lx (scan_ascii_identifier lx)"
proof -
  let ?bs = "l_bytes lx" and ?i = "l_offset lx"
  let ?j = "skip_while is_identifier_byte ?bs (?i + 1)"
  let ?text = "text_at ?bs ?i ?j"
  have r: "?i < ?j" "?j \<le> length ?bs" using skip_while_range [of "?i + 1" ?bs is_identifier_byte] assms(1) by auto
  have first: "is_identifier_byte (?bs ! ?i)" "\<not> is_ascii_digit (?bs ! ?i)"
    using assms(2) by (auto simp: is_identifier_byte_def is_ascii_alphanumeric_def is_ascii_alphabetic_def is_ascii_digit_def)
  have all: "is_identifier_byte (?bs ! k)" if "?i \<le> k" "k < ?j" for k
    using skip_while_all [of "?i + 1" k is_identifier_byte ?bs] first(1) that by (cases "k = ?i") auto
  have c: "clean ?text" using all r(2) ascii_class(3) by (intro clean_range) blast+
  have "is_identifier_byte b" if b: "b \<in> set ?text" for b
  proof -
    obtain k where "?i \<le> k" "k < ?j" "b = ?bs ! k" using b text_at_set [OF r(2)] by blast
    then show ?thesis using all by simp
  qed
  then have "\<forall>b \<in> set ?text. is_identifier_byte b" by blast
  then have name: "name_text ?text" using text_at_nonempty [OF r] first(2) by (intro ascii_name) simp_all
  have ended: "\<not> follows ?bs ?j (set identifier_characters)"
    using skip_while_stop [of ?bs is_identifier_byte "?i + 1"] by (rule name_ended)
  have ok: "token_ok ?bs (identifier_kind ?text) ?i ?j"
  proof (cases "keyword ?text")
    case None
    then have "\<forall>k. ?text \<noteq> keyword_spelling k" using keyword_spelled [of ?text] by simp
    then show ?thesis using c name ended None by (simp add: token_ok_def Let_def identifier_kind_def identifier_text_def)
  next
    case (Some k)
    then show ?thesis using c ended keyword_spelled [of ?text k] by (simp add: token_ok_def Let_def identifier_kind_def)
  qed
  have "stepped lx (push (identifier_kind ?text) ?i ?j (lx\<lparr>l_offset := ?j\<rparr>))"
    using r ok by (intro stepped_push) (auto simp: identifier_kind_def split: option.split)
  then show ?thesis
    using r by (simp add: scan_ascii_identifier_def Let_def slice_text)
qed

lemma scan_number_stepped:
  assumes "l_offset lx < length (l_bytes lx)" and "is_ascii_digit (l_bytes lx ! l_offset lx)"
  shows "stepped lx (scan_number lx)"
proof -
  let ?bs = "l_bytes lx" and ?i = "l_offset lx"
  let ?j = "scan_end ?bs ?i"
  let ?text = "text_at ?bs ?i ?j"
  have r: "?i < ?j" "?j \<le> length ?bs" using scan_end_range [OF assms] by auto
  have cl: "clean ?text" using scan_end_all [of ?i _ ?bs] assms(1) ascii_class(4) r(2) by (intro clean_range) auto
  have sc: "scan ?bs ?i = Some (?j, classify ?text)" using r by (simp add: scan_def slice_text)
  show ?thesis
  proof (cases "classify ?text")
    case None
    then show ?thesis using sc stepped_error [OF r] by (simp add: scan_number_def Let_def)
  next
    case (Some c)
    have "stepped lx (push k ?i ?j (lx\<lparr>l_offset := ?j\<rparr>))"
      if "k = (case c of Integer \<Rightarrow> IntegerLiteral | Float \<Rightarrow> FloatLiteral)" for k
      using that r cl Some classified [of ?text] name_ended [OF scan_end_stop [of ?bs ?i]]
      by (intro stepped_push) (auto simp: token_ok_def Let_def split: number_class.splits)
    then show ?thesis using sc Some by (cases c) (simp_all add: scan_number_def Let_def)
  qed
qed

subsection \<open>Quoted literals\<close>

fun form_end :: "apostrophe_kind \<Rightarrow> nat" where
  "form_end (Quoted j) = j"
| "form_end (LifetimeForm j) = j"
| "form_end (Invalid j) = j"

lemma apostrophe_form_total:
  assumes "q < length bs"
  shows "\<exists>form. apostrophe_form bs q = Some form \<and> q < form_end form \<and> form_end form \<le> length bs"
proof (cases "byte_at bs (q + 1)")
  case None
  then show ?thesis using assms by (simp add: apostrophe_form_def)
next
  case (Some first)
  then have q1: "q + 1 < length bs" by (auto simp: byte_at_def split: if_splits)
  note skip = skip_while_range [of "q + 1" bs]
  let ?rest = "drop (q + 1) bs"
  have ne: "?rest \<noteq> []" "slice bs (q + 1) (length bs) = Some ?rest" using q1 by (simp_all add: slice_rest)
  have plain: "\<exists>form. (case decode_scalar ?rest of
              None \<Rightarrow> do { n \<leftarrow> invalid_utf8_width ?rest; Some (Invalid (q + 1 + n)) }
            | Some (_, width) \<Rightarrow>
                if byte_at bs (q + 1 + width) = Some QUOTE then Some (Quoted (q + 1 + width + 1))
                else Some (Invalid (q + 1 + width))) = Some form \<and> q < form_end form \<and> form_end form \<le> length bs"
  proof (cases "decode_scalar ?rest")
    case None
    then show ?thesis using invalid_utf8_width_Some [OF None ne(1)] q1 by auto
  next
    case (Some p)
    obtain v w where p: "p = (v, w)" by force
    have "w \<le> length bs - (q + 1)" using decode_scalar_width [OF Some [unfolded p]] by simp
    then have "q + 1 + w \<le> length bs" using q1 by linarith
    then show ?thesis using Some p by (auto simp: byte_at_def)
  qed
  have ident: "\<exists>form. (let fin = skip_while is_identifier_candidate_byte bs (q + 1) in
             if byte_at bs fin = Some QUOTE then Some (Quoted (fin + 1)) else Some (LifetimeForm fin)) = Some form \<and>
      q < form_end form \<and> form_end form \<le> length bs"
    using skip [of is_identifier_candidate_byte] q1 by (auto simp: Let_def byte_at_def split: if_splits)
  have escape: "\<exists>form. (case quoted_end bs q QUOTE of
               Some fin \<Rightarrow> Some (Quoted fin)
             | None \<Rightarrow> Some (Invalid (unterminated_quoted_end bs (q + 1)))) = Some form \<and>
      q < form_end form \<and> form_end form \<le> length bs"
    using skip [of "\<lambda>b. b \<noteq> LF \<and> b \<noteq> CR"] q1 quoted_end_range [of bs QUOTE False "q + 1"]
    by (auto simp: quoted_end_def unterminated_quoted_end_def split: option.split)
  show ?thesis
    using plain ident escape q1 unfolding apostrophe_form_def Let_def Some option.case ne(2) Option.bind.simps by simp
qed

lemma finish_quoted_stepped:
  assumes "l_offset lx < j" and "j \<le> length (l_bytes lx)"
    and "validate_quoted (text_at (l_bytes lx) (l_offset lx) j) byte_literal is_char \<Longrightarrow>
      if is_char then char_literal byte_literal (text_at (l_bytes lx) (l_offset lx) j)
      else string_literal byte_literal (text_at (l_bytes lx) (l_offset lx) j)"
  shows "stepped lx (finish_quoted byte_literal is_char (l_offset lx) j lx)"
proof -
  let ?text = "text_at (l_bytes lx) (l_offset lx) j"
  have s: "slice (l_bytes lx) (l_offset lx) j = Some ?text" using assms by (simp add: slice_text)
  show ?thesis
  proof (cases "global_text_error ?text = None \<and> validate_quoted ?text byte_literal is_char")
    case True
    then have "token_ok (l_bytes lx) (literal_kind byte_literal is_char) (l_offset lx) j"
      using assms(3) global_text_error_None [of ?text] by (auto simp: token_ok_def literal_kind_def Let_def)
    then have "stepped lx (push (literal_kind byte_literal is_char) (l_offset lx) j (lx\<lparr>l_offset := j\<rparr>))"
      using assms by (intro stepped_push) (auto simp: literal_kind_def)
    then show ?thesis using True s by (simp add: finish_quoted_def)
  next
    case False
    then show ?thesis using s stepped_error [OF assms(1,2)] by (auto simp: finish_quoted_def split: option.split)
  qed
qed

lemma scan_apostrophe_quoted:
  "apostrophe_form (l_bytes lx) (l_offset lx) = Some (Quoted j) \<Longrightarrow>
    scan_apostrophe lx = finish_quoted False True (l_offset lx) j lx"
  by (cases "slice (l_bytes lx) (l_offset lx) j")
    (auto simp: scan_apostrophe_def finish_quoted_def literal_kind_def Let_def split: option.split)

lemma scan_apostrophe_stepped:
  assumes "l_offset lx < length (l_bytes lx)" and "l_bytes lx ! l_offset lx = QUOTE"
  shows "stepped lx (scan_apostrophe lx)"
proof -
  let ?bs = "l_bytes lx" and ?i = "l_offset lx"
  obtain form where f: "apostrophe_form (l_bytes lx) (l_offset lx) = Some form"
    and r: "l_offset lx < form_end form" "form_end form \<le> length (l_bytes lx)"
    using apostrophe_form_total [OF assms(1)] by blast
  show ?thesis
  proof (cases form)
    case (Quoted j)
    have "char_literal False (text_at ?bs ?i j)" if "validate_quoted (text_at ?bs ?i j) False True"
      using quoted_literal [of ?bs ?i j False True] that apostrophe_quoted f assms(2) by (simp add: Quoted literal_prefix_def)
    then show ?thesis using scan_apostrophe_quoted f finish_quoted_stepped [of lx j False True] r by (simp add: Quoted)
  next
    case (LifetimeForm j)
    have "token_ok ?bs Lifetime ?i j" if "clean (text_at ?bs ?i j)"
      using apostrophe_lifetime [of ?bs ?i j] f assms that unfolding LifetimeForm token_ok_def Let_def by simp
    then show ?thesis using f r stepped_text_checked [of lx j Lifetime] by (simp add: scan_apostrophe_def Let_def LifetimeForm)
  next
    case (Invalid j)
    then show ?thesis using f r stepped_error [of lx j] by (simp add: scan_apostrophe_def Let_def)
  qed
qed

lemma scan_quoted_stepped:
  fixes byte_literal lx
  defines "q \<equiv> l_offset lx + (if byte_literal then 1 else 0)"
  assumes q: "q < length (l_bytes lx)" and pre: "byte_literal \<Longrightarrow> l_bytes lx ! l_offset lx = CHR ''b''"
    and quote: "l_bytes lx ! q = QUOTE \<or> l_bytes lx ! q = DQUOTE"
  shows "stepped lx (scan_quoted byte_literal lx)"
proof -
  let ?bs = "l_bytes lx"
  have le: "l_offset lx \<le> q" by (simp add: q_def)
  let ?i = "l_offset lx"
  have at: "byte_at ?bs q = Some (?bs ! q)" using q by (simp add: byte_at_def)
  have pre_text: "text_at ?bs ?i q = literal_prefix byte_literal"
    using pre q text_at_step [of ?i q ?bs] by (cases byte_literal) (simp_all add: q_def literal_prefix_def)
  show ?thesis
  proof (cases "?bs ! q = QUOTE")
    case True
    obtain form where f: "apostrophe_form ?bs q = Some form"
      and r: "l_offset lx < form_end form" "form_end form \<le> length ?bs"
      using apostrophe_form_total [OF q] le by force
    have "scan_quoted byte_literal lx = (case form of
        Quoted fin \<Rightarrow> finish_quoted byte_literal True (l_offset lx) fin lx
      | LifetimeForm fin \<Rightarrow> push_error InvalidLiteral (l_offset lx) fin (lx\<lparr>l_offset := fin\<rparr>)
      | Invalid fin \<Rightarrow> push_error InvalidLiteral (l_offset lx) fin (lx\<lparr>l_offset := fin\<rparr>))"
      unfolding scan_quoted_def Let_def q_def [symmetric] at using f True by simp
    moreover have "char_literal byte_literal (text_at ?bs ?i j)"
      if "form = Quoted j" "validate_quoted (text_at ?bs ?i j) byte_literal True" for j
      using quoted_literal [of ?bs ?i j byte_literal True] that apostrophe_quoted [of ?bs q j] f True pre_text by (simp add: q_def)
    ultimately show ?thesis using r finish_quoted_stepped [of lx _ byte_literal True] stepped_error by (cases form) auto
  next
    case False
    let ?u = "unterminated_quoted_end ?bs (q + 1)"
    have u: "l_offset lx < ?u" "?u \<le> length ?bs"
      using skip_while_range [of "q + 1" ?bs "\<lambda>b. b \<noteq> LF \<and> b \<noteq> CR"] q le by (auto simp: unterminated_quoted_end_def)
    have e: "l_offset lx < j \<and> j \<le> length ?bs" if "quoted_end ?bs q (?bs ! q) = Some j" for j
      using quoted_end_range [of ?bs "?bs ! q" False "q + 1" j] that le by (simp add: quoted_end_def)
    have "scan_quoted byte_literal lx = (case quoted_end ?bs q (?bs ! q) of
        None \<Rightarrow> push_error InvalidLiteral (l_offset lx) ?u (lx\<lparr>l_offset := ?u\<rparr>)
      | Some fin \<Rightarrow> finish_quoted byte_literal False (l_offset lx) fin lx)"
      unfolding scan_quoted_def Let_def q_def [symmetric] at using False by simp
    moreover have "string_literal byte_literal (text_at ?bs ?i j)"
      if "quoted_end ?bs q (?bs ! q) = Some j" "validate_quoted (text_at ?bs ?i j) byte_literal False" for j
    proof -
      have dq: "?bs ! q = DQUOTE" using False quote by simp
      have closed: "quoted_end_from ?bs DQUOTE False (q + 1) = Some j" using that(1) dq by (simp add: quoted_end_def)
      show ?thesis
        using quoted_literal [of ?bs ?i j byte_literal False] that(2) quoted_end_range [OF closed] closed dq pre_text
        by (simp add: q_def)
    qed
    ultimately show ?thesis
      using u e finish_quoted_stepped [of lx _ byte_literal False] stepped_error [OF u] by (auto split: option.split)
  qed
qed

subsection \<open>Punctuation and identifiers beyond ASCII\<close>

lemma multi_ascii: "\<forall>(s, p) \<in> set MULTI. s \<noteq> [] \<and> length s \<le> 3 \<and> (\<forall>b \<in> set s. byte_val b < 0x80 \<and> b \<noteq> CHR 0x00)"
  by (simp add: MULTI_def)

lemma multi_longest_first: "sorted_wrt (\<lambda>a b. length (fst b) \<le> length (fst a)) MULTI"
  by (simp add: MULTI_def)

lemma punctuation_ascii: "punctuation b = Some p \<Longrightarrow> byte_val b < 0x80 \<and> b \<noteq> CHR 0x00"
  by (auto simp: punctuation_def punctuation_table_def split: if_splits)

lemma spelling_bound:
  assumes "\<And>s k. (s, k) \<in> set MULTI \<Longrightarrow> starts_with bs s \<Longrightarrow> length s \<le> w" and "1 \<le> w"
  shows "starts_with bs (punctuation_spelling q) \<Longrightarrow> length (punctuation_spelling q) \<le> w"
  using assms punctuation_spelled(3) [of q] by auto

lemma longest_punctuation_ok:
  assumes "bs \<noteq> []" and "punctuation (hd bs) \<noteq> None"
  shows "\<exists>p w. longest_punctuation bs = Some (p, w) \<and> 0 < w \<and> w \<le> length bs \<and> take w bs = punctuation_spelling p \<and>
    clean (take w bs) \<and> (\<forall>q. starts_with bs (punctuation_spelling q) \<longrightarrow> length (punctuation_spelling q) \<le> w)"
proof (cases "find (\<lambda>(s, _). s \<noteq> [] \<and> starts_with bs s) MULTI")
  case None
  obtain b cs where bs: "bs = b # cs" using assms(1) by (cases bs) auto
  then obtain p where p: "punctuation b = Some p" using assms(2) by auto
  have l: "longest_punctuation bs = Some (p, 1)" using None p bs by (simp add: longest_punctuation_def byte_at_def)
  have "\<not> starts_with bs s" if "(s, k) \<in> set MULTI" for s k
    using None that multi_ascii by (fastforce simp: find_None_iff)
  moreover have "clean [b]" using punctuation_ascii [OF p] by (intro clean_ascii) simp
  ultimately show ?thesis
    using l bs punctuation_spelled(2) [OF p] spelling_bound [of bs 1] by (intro exI [of _ p] exI [of _ 1]) auto
next
  case (Some sp)
  obtain s p where sp: "sp = (s, p)" by force
  obtain i where i: "i < length MULTI" "MULTI ! i = (s, p)" "starts_with bs s"
    and first: "\<And>j. j < i \<Longrightarrow> \<not> (case MULTI ! j of (s, _) \<Rightarrow> s \<noteq> [] \<and> starts_with bs s)"
    using Some unfolding find_Some_iff sp by auto
  have mem: "(s, p) \<in> set MULTI" using i by (metis nth_mem)
  then have s: "s \<noteq> []" "\<forall>b \<in> set s. byte_val b < 0x80 \<and> b \<noteq> CHR 0x00" using multi_ascii by auto
  have t: "take (length s) bs = s" using i(3) by (simp add: starts_with_def)
  then have "length s \<le> length bs" by (metis length_take min.cobounded1)
  moreover have "length s' \<le> length s" if m: "(s', k) \<in> set MULTI" and st: "starts_with bs s'" for s' k
  proof -
    obtain j where j: "j < length MULTI" "MULTI ! j = (s', k)" using m by (auto simp: in_set_conv_nth)
    have "s' \<noteq> []" using multi_ascii m by auto
    then have "i \<le> j" using first [of j] j st by (cases "j < i") auto
    then show ?thesis
      using sorted_wrt_nth_less [OF multi_longest_first, of i j] i j by (cases "i = j") auto
  qed
  ultimately show ?thesis
    using Some sp s t punctuation_spelled(1) [OF mem] clean_ascii [of s] spelling_bound [of bs "length s"]
    by (intro exI [of _ p] exI [of _ "length s"]) (auto simp: longest_punctuation_def Suc_le_eq)
qed

lemma scan_punctuation_stepped:
  assumes "l_offset lx < length (l_bytes lx)" and "punctuation (l_bytes lx ! l_offset lx) \<noteq> None"
  shows "stepped lx (scan_punctuation lx)"
proof -
  let ?bs = "l_bytes lx" and ?i = "l_offset lx"
  let ?rest = "drop ?i ?bs"
  have "?rest \<noteq> []" "punctuation (hd ?rest) \<noteq> None" using assms by (auto simp: hd_drop_conv_nth)
  then obtain p w where p: "longest_punctuation ?rest = Some (p, w)" "0 < w" "w \<le> length ?rest" "take w ?rest = punctuation_spelling p"
    "clean (take w ?rest)" "\<forall>q. starts_with ?rest (punctuation_spelling q) \<longrightarrow> length (punctuation_spelling q) \<le> w"
    using longest_punctuation_ok by blast
  have len: "?i + w \<le> length ?bs" using p(3) assms(1) by simp
  have "length (punctuation_spelling p) = w" using arg_cong [OF p(4), of length] p(3) by simp
  then have "token_ok ?bs (Punctuation p) ?i (?i + w)" using p by (simp add: token_ok_def Let_def text_at_def)
  then have "stepped lx (push (Punctuation p) ?i (?i + w) (lx\<lparr>l_offset := ?i + w\<rparr>))"
    using p(2) len by (intro stepped_push) auto
  then show ?thesis using p(1) assms(1) by (simp add: scan_punctuation_def Let_def slice_rest)
qed

lemma clean_extend:
  "clean (text_at bs i j) \<Longrightarrow> clean (text_at bs j k) \<Longrightarrow> i \<le> j \<Longrightarrow> j \<le> k \<Longrightarrow> k \<le> length bs \<Longrightarrow> clean (text_at bs i k)"
  using text_at_split [of i j k bs] clean_append [of "text_at bs i j" "text_at bs j k"] by simp

lemma decoded_clean:
  assumes "decode_scalar (drop i bs) = Some (v, w)" and "v \<noteq> 0xFEFF" and "byte_val (bs ! i) \<ge> 0x80" and "i < length bs"
  shows "clean (text_at bs i (i + w)) \<and> i < i + w \<and> i + w \<le> length bs"
proof -
  note d = decode_scalar_Some [OF assms(1)]
  have "w \<le> length bs - i" using d by simp
  then have "take w (drop i bs) \<noteq> bom"
    using d assms(2) by (auto simp: scalar_value_def bom_def)
  moreover have "take w (drop i bs) \<noteq> [CHR 0x00]"
  proof
    assume "take w (drop i bs) = [CHR 0x00]"
    moreover have "hd (take w (drop i bs)) = bs ! i" using d assms(4) by (simp add: hd_drop_conv_nth)
    ultimately have "bs ! i = CHR 0x00" by simp
    then show False using assms(3) by simp
  qed
  ultimately have "clean (take w (drop i bs))" using d clean_item by blast
  then show ?thesis using d assms(4) by (simp add: text_at_def) linarith
qed

lemma unicode_identifier_end_ok:
  "offset \<le> length bs \<Longrightarrow> offset \<le> unicode_identifier_end bs offset \<and> unicode_identifier_end bs offset \<le> length bs \<and>
    clean (text_at bs offset (unicode_identifier_end bs offset)) \<and>
    \<not> at_is bs (unicode_identifier_end bs offset) is_identifier_byte"
proof (induction bs offset rule: unicode_identifier_end.induct)
  case (1 bs offset)
  let ?b = "bs ! offset"
  consider (ident) "offset < length bs" "is_identifier_byte ?b"
    | (scalar) v w where "offset < length bs" "\<not> is_identifier_byte ?b" "\<not> byte_val ?b < 0x80"
        "decode_scalar (drop offset bs) = Some (v, w)" "\<not> (char_is_whitespace v \<or> v = 0xFEFF)"
    | (stop) "unicode_identifier_end bs offset = offset" "offset < length bs \<Longrightarrow> \<not> is_identifier_byte ?b"
    using unicode_identifier_end.simps [of bs offset]
    by (cases "offset < length bs"; cases "is_identifier_byte ?b"; cases "byte_val ?b < 0x80";
        cases "decode_scalar (drop offset bs)") (auto split: if_splits)
  then show ?case
  proof cases
    case ident
    then have eq: "unicode_identifier_end bs offset = unicode_identifier_end bs (offset + 1)"
      by (subst unicode_identifier_end.simps) simp
    have c: "clean (text_at bs offset (offset + 1))"
      using ident ascii_class(3) by (intro clean_range) (auto simp: le_less_Suc_eq)
    have "offset + 1 \<le> length bs" using ident(1) by simp
    note IH = 1(1) [OF ident this]
    then have "clean (text_at bs offset (unicode_identifier_end bs (offset + 1)))" using clean_extend [OF c] by simp
    then show ?thesis using IH unfolding eq by simp
  next
    case (scalar v w)
    then have eq: "unicode_identifier_end bs offset = unicode_identifier_end bs (offset + w)"
      by (subst unicode_identifier_end.simps) simp
    have c: "clean (text_at bs offset (offset + w))" "offset + w \<le> length bs"
      using decoded_clean [OF scalar(4)] scalar by auto
    note IH = 1(2) [OF scalar(1-4) refl scalar(5) c(2)]
    then have "clean (text_at bs offset (unicode_identifier_end bs (offset + w)))" using clean_extend [OF c(1)] by simp
    then show ?thesis using IH unfolding eq by simp
  next
    case stop
    then show ?thesis using 1(3) by (auto simp: text_at_def at_is_def byte_at_def)
  qed
qed

lemma keyword_head: "hd (keyword_spelling k) = b \<Longrightarrow> byte_val b < 128"
  by (cases k) auto

lemma unicode_identifier:
  assumes "decode_scalar (drop i bs) = Some (v, w)" and "128 \<le> byte_val (bs ! i)" and "\<not> (v = 0xFEFF \<or> char_is_whitespace v)"
  shows "identifier_text (text_at bs i (unicode_identifier_end bs (i + w)))"
proof -
  let ?j = "unicode_identifier_end bs (i + w)" and ?it = "text_at bs i (i + w)"
  note d = decoded_item [OF assms(1)]
  have le: "i + w \<le> length bs" using d by blast
  obtain its where its: "i + w \<le> ?j" "?j \<le> length bs" "text_at bs (i + w) ?j = concat its" "\<forall>it \<in> set its. identifier_scalar it"
    using unicode_end_items [OF le] by blast
  have hd: "?it \<noteq> []" "hd ?it = bs ! i" using d by (simp_all add: text_at_step)
  then have "identifier_scalar ?it" using d wide_item [of ?it] assms(2,3) by (simp add: identifier_scalar_def)
  moreover have whole: "text_at bs i ?j = concat (?it # its)" using text_at_split [of i "i + w" ?j bs] its by simp
  moreover have first: "hd (text_at bs i ?j) = bs ! i" using hd whole by simp
  moreover have "bs ! i \<notin> set decimal_digits" using assms(2) ascii_class(1) [of "bs ! i"] class_chars(1) by fastforce
  ultimately have "name_text (text_at bs i ?j)"
    unfolding name_text_def using its(4) by (intro exI [of _ "?it # its"]) (auto simp del: concat.simps)
  moreover have "text_at bs i ?j \<noteq> keyword_spelling k" for k using keyword_head [of k "bs ! i"] first assms(2) by auto
  moreover have "text_at bs i ?j \<noteq> ''_''"
  proof
    assume "text_at bs i ?j = ''_''"
    then have "bs ! i = CHR ''_''" using first by simp
    then show False using assms(2) by simp
  qed
  ultimately show ?thesis by (simp add: identifier_text_def)
qed

lemma scan_unicode_stepped:
  assumes "l_offset lx < length (l_bytes lx)" and "byte_val (l_bytes lx ! l_offset lx) \<ge> 0x80"
  shows "stepped lx (scan_unicode_or_invalid lx)"
proof -
  let ?bs = "l_bytes lx" and ?i = "l_offset lx"
  let ?rest = "drop ?i ?bs"
  have rest: "slice ?bs ?i (length ?bs) = Some ?rest" "?rest \<noteq> []" using assms(1) by (simp_all add: slice_rest)
  show ?thesis
  proof (cases "decode_scalar ?rest")
    case None
    then obtain n where n: "invalid_utf8_width ?rest = Some n" "0 < n" "n \<le> length ?rest"
      using invalid_utf8_width_Some rest(2) by blast
    then have "?i + n \<le> length ?bs" using assms(1) by simp
    then show ?thesis using None n rest(1) stepped_error [of lx "?i + n"] by (simp add: scan_unicode_or_invalid_def Let_def)
  next
    case (Some p)
    obtain v w where p: "p = (v, w)" by force
    have d: "decode_scalar ?rest = Some (v, w)" using Some p by simp
    have w: "?i < ?i + w" "?i + w \<le> length ?bs" using decode_scalar_width [OF d] assms(1) by auto
    show ?thesis
    proof (cases "v = 0xFEFF \<or> char_is_whitespace v")
      case True
      then show ?thesis using d rest(1) stepped_error [OF w] by (auto simp: scan_unicode_or_invalid_def Let_def)
    next
      case False
      let ?j = "unicode_identifier_end ?bs (?i + w)"
      have j: "?i + w \<le> ?j" "?j \<le> length ?bs" "clean (text_at ?bs (?i + w) ?j)" "\<not> at_is ?bs ?j is_identifier_byte"
        using unicode_identifier_end_ok [OF w(2)] by auto
      have c: "clean (text_at ?bs ?i ?j)"
        using decoded_clean [OF d] False assms j by (intro clean_extend [of ?bs ?i "?i + w" ?j]) auto
      have "identifier_text (text_at ?bs ?i ?j)"
        using unicode_identifier [OF d assms(2) False] by simp
      then have "token_ok ?bs Identifier ?i ?j" using c name_ended [OF j(4)] by (simp add: token_ok_def Let_def)
      then have "stepped lx (push Identifier ?i ?j (lx\<lparr>l_offset := ?j\<rparr>))" using j w by (intro stepped_push) auto
      then show ?thesis using d rest(1) False by (simp add: scan_unicode_or_invalid_def Let_def)
    qed
  qed
qed

section \<open>The whole source\<close>

lemma whitespace_progress:
  assumes "offset < length bs" and "bs ! offset = CHR '' '' \<or> bs ! offset = TAB \<or> bs ! offset = LF \<or>
    (bs ! offset = CR \<and> byte_at bs (offset + 1) = Some LF)"
  shows "offset < whitespace_end bs offset"
proof -
  have "offset + 2 \<le> length bs" if "byte_at bs (offset + 1) = Some LF" using that by (auto simp: byte_at_def split: if_splits)
  then have "whitespace_end bs offset = whitespace_end bs (offset + 1) \<or>
      whitespace_end bs offset = whitespace_end bs (offset + 2) \<and> offset + 2 \<le> length bs"
    using assms by (subst (1 3) whitespace_end.simps) auto
  then show ?thesis
    using whitespace_end_range [of "offset + 1" bs] whitespace_end_range [of "offset + 2" bs] assms(1) by force
qed

lemma stepped_if: "(c \<Longrightarrow> stepped lx a) \<Longrightarrow> (\<not> c \<Longrightarrow> stepped lx b) \<Longrightarrow> stepped lx (if c then a else b)"
  by simp

lemma scan_one_stepped:
  assumes "l_offset lx < length (l_bytes lx)"
  shows "stepped lx (scan_one lx)"
proof -
  let ?bs = "l_bytes lx" and ?i = "l_offset lx"
  have rest: "slice ?bs ?i (length ?bs) = Some (drop ?i ?bs)" using assms by (simp add: slice_rest)
  have at: "byte_at ?bs ?i = Some (?bs ! ?i)" using assms by (simp add: byte_at_def)
  have two: "Suc (Suc ?i) \<le> length ?bs" if "byte_at ?bs (Suc ?i) = Some c" for c using that by (auto simp: byte_at_def split: if_splits)
  show ?thesis
  proof (cases "starts_with (drop ?i ?bs) bom")
    case True
    have t: "take 3 (drop ?i ?bs) = bom" "?i + 3 \<le> length ?bs"
      using True starts_with_nth [OF True] assms by (simp_all add: starts_with_def bom_def numeral_3_eq_3)
    then have "?i = 0 \<Longrightarrow> token_ok ?bs InitialBom ?i (?i + 3)" by (simp add: token_ok_def Let_def text_at_def)
    then show ?thesis
      using True rest t(2) stepped_push [of lx "?i + 3" InitialBom] stepped_error [of lx "?i + 3"]
      by (auto simp: scan_one_def Let_def)
  next
    case False
    have err: "stepped lx (push_error k ?i (?i + 1) (lx\<lparr>l_offset := ?i + 1\<rparr>))" for k
      using assms by (intro stepped_error) auto
    note scanners = scan_whitespace_stepped [OF whitespace_progress assms] scan_line_comment_stepped [OF assms] scan_block_comment_stepped [OF assms]
      scan_quoted_stepped [of lx True] scan_quoted_stepped [of lx False] scan_ascii_identifier_stepped [OF assms]
      scan_number_stepped [OF assms] scan_apostrophe_stepped [OF assms] scan_punctuation_stepped [OF assms]
      scan_unicode_stepped [OF assms] err
    show ?thesis
      unfolding scan_one_def Let_def rest at Option.bind.simps if_not_P [OF False]
      by (intro stepped_if scanners)
        (use assms in \<open>auto simp: is_identifier_byte_def is_ascii_alphanumeric_def byte_at_Some dest: two\<close>)
  qed
qed

fun covers :: "nat \<Rightarrow> token list \<Rightarrow> nat \<Rightarrow> bool" where
  "covers a [] b \<longleftrightarrow> a = b"
| "covers a (t # ts) b \<longleftrightarrow> sp_start (tk_span t) = a \<and> a < sp_end (tk_span t) \<and> covers (sp_end (tk_span t)) ts b"

lemma covers_le: "covers a ts b \<Longrightarrow> a \<le> b"
  by (induction a ts b rule: covers.induct) auto

lemma covers_append: "covers a (xs @ ys) c \<longleftrightarrow> (\<exists>b. covers a xs b \<and> covers b ys c)"
proof (induction xs arbitrary: a)
  case (Cons x xs)
  then show ?case by (auto simp: Cons.IH)
qed auto

lemma covers_contiguous: "covers a ts n \<Longrightarrow> contiguous_from n a ts"
proof (induction ts arbitrary: a)
  case (Cons t ts)
  then show ?case using covers_le [of "sp_end (tk_span t)" ts n] by (auto simp: span_is_empty_def)
qed simp

definition token_valid :: "u8 list \<Rightarrow> token \<Rightarrow> bool" where
  "token_valid bytes t = token_ok bytes (tk_kind t) (sp_start (tk_span t)) (sp_end (tk_span t))"

definition lexer_inv :: "lexer \<Rightarrow> bool" where
  "lexer_inv lx \<longleftrightarrow>
     covers 0 (l_tokens lx) (l_offset lx) \<and> list_all (token_valid (l_bytes lx)) (l_tokens lx) \<and>
     l_issues lx = concat (map issue_of (l_tokens lx)) \<and> l_offset lx \<le> length (l_bytes lx)"

lemma stepped_inv:
  assumes "stepped lx r" and "lexer_inv lx"
  shows "\<exists>lx'. r = Some lx' \<and> lexer_inv lx' \<and> l_bytes lx' = l_bytes lx \<and> l_offset lx < l_offset lx'"
proof -
  obtain kind j where r: "r = Some (emit kind j lx)" "l_offset lx < j" "j \<le> length (l_bytes lx)"
    "token_ok (l_bytes lx) kind (l_offset lx) j"
    using assms(1) by (auto simp: stepped_def)
  have "lexer_inv (emit kind j lx)"
    using r assms(2) by (auto simp: lexer_inv_def emit_def token_at_def covers_append token_valid_def)
  then show ?thesis using r by (auto simp: emit_def)
qed

definition lexed_ok :: "u8 list \<Rightarrow> lexed \<Rightarrow> bool" where
  "lexed_ok bytes r \<longleftrightarrow>
     (\<exists>ts. lx_tokens r = ts @ [token_at Eof (length bytes) (length bytes)] \<and> covers 0 ts (length bytes) \<and>
        list_all (token_valid bytes) ts \<and> lx_issues r = concat (map issue_of ts))"

lemma run_ok: "lexer_inv lx \<Longrightarrow> \<exists>r. run lx = Some r \<and> lexed_ok (l_bytes lx) r"
proof (induction "length (l_bytes lx) - l_offset lx" arbitrary: lx rule: less_induct)
  case less
  show ?case
  proof (cases "l_offset lx < length (l_bytes lx)")
    case True
    then obtain lx' where lx': "scan_one lx = Some lx'" "lexer_inv lx'" "l_bytes lx' = l_bytes lx" "l_offset lx < l_offset lx'"
      using stepped_inv [OF scan_one_stepped [OF True] less.prems] by blast
    have "run lx = run lx'" using True lx'(1) by (subst run.simps) simp
    moreover have "length (l_bytes lx') - l_offset lx' < length (l_bytes lx) - l_offset lx" using lx' True by simp
    ultimately show ?thesis using less.hyps [of lx'] lx' by simp
  next
    case False
    then have "l_offset lx = length (l_bytes lx)" using less.prems by (simp add: lexer_inv_def)
    then show ?thesis using less.prems False
      by (subst run.simps) (auto simp: push_def span_new_def lexed_ok_def token_at_def lexer_inv_def)
  qed
qed

lemma lex_ok: "\<exists>r. lex bytes = Some r \<and> lexed_ok bytes r"
proof -
  have "lexer_inv (lexer_new bytes)" by (simp add: lexer_inv_def lexer_new_def)
  then show ?thesis using run_ok [of "lexer_new bytes"] by (simp add: lex_def) (simp add: lexer_new_def)
qed

lemma lex_lexed_ok: "lex bytes = Some r \<Longrightarrow> lexed_ok bytes r"
  using lex_ok [of bytes] by auto

lemma covers_texts:
  "covers a ts b \<Longrightarrow> b \<le> length bytes \<Longrightarrow>
    those (map (\<lambda>t. raw t bytes) ts) = Some (map (\<lambda>t. text_at bytes (sp_start (tk_span t)) (sp_end (tk_span t))) ts) \<and>
    concat (map (\<lambda>t. text_at bytes (sp_start (tk_span t)) (sp_end (tk_span t))) ts) = text_at bytes a b"
proof (induction ts arbitrary: a)
  case Nil
  then show ?case by (simp add: text_at_def)
next
  case (Cons t ts)
  let ?e = "sp_end (tk_span t)"
  have c: "sp_start (tk_span t) = a" "a < ?e" "covers ?e ts b" using Cons.prems(1) by auto
  have le: "?e \<le> b" by (rule covers_le [OF c(3)])
  have "raw t bytes = Some (text_at bytes a ?e)" using c le Cons.prems(2) by (simp add: raw_def slice_text)
  then show ?case using Cons.IH [OF c(3) Cons.prems(2)] text_at_split [of a ?e b bytes] c le Cons.prems(2) by simp
qed

section \<open>Clean sources\<close>

definition token_text :: "u8 list \<Rightarrow> token \<Rightarrow> u8 list" where
  "token_text bytes t = text_at bytes (sp_start (tk_span t)) (sp_end (tk_span t))"

lemma token_valid_clean:
  assumes "token_valid bytes t" and "issue_of t = []"
  shows "clean (token_text bytes t) \<or> sp_start (tk_span t) = 0 \<and> token_text bytes t = bom"
proof -
  have "clean ''_''" by (rule clean_ascii) simp
  then show ?thesis
    using assms by (cases "tk_kind t") (auto simp: token_valid_def token_ok_def Let_def issue_of_def token_text_def)
qed

lemma bom_only_at_start:
  assumes "clean rest" and "0 < i"
  shows "\<not> starts_with (drop i (bom @ rest)) bom"
proof
  assume s: "starts_with (drop i (bom @ rest)) bom"
  consider "i = 1" | "i = 2" | "3 \<le> i" using assms(2) by linarith
  then show False
  proof cases
    case 3
    then obtain k where k: "i = 3 + k" using le_Suc_ex by blast
    then have "drop i (bom @ rest) = drop (i - 3) rest" by (simp add: bom_def numeral_3_eq_3)
    then show False
      using s clean_no_bom [OF assms(1), of "i - 3"] append_take_drop_id [of "length bom" "drop (i - 3) rest"]
      by (metis starts_with_def)
  qed (use s in \<open>auto simp: bom_def starts_with_def\<close>)
qed

lemma covers_starts: "covers a ts b \<Longrightarrow> t \<in> set ts \<Longrightarrow> a \<le> sp_start (tk_span t)"
  by (induction a ts b rule: covers.induct) auto

lemma clean_tokens:
  assumes "covers a ts b" and "0 < a" and "list_all (token_valid bytes) ts" and "\<forall>t \<in> set ts. issue_of t = []"
  shows "clean (concat (map (token_text bytes) ts))"
  using assms covers_starts [OF assms(1)] token_valid_clean
  by (intro clean_concat) (fastforce simp: list_all_iff)

lemma lexed_clean:
  assumes "lexed_ok bytes r" and "lx_issues r = []"
  shows "clean bytes \<or> (\<exists>rest. bytes = bom @ rest \<and> clean rest)"
proof -
  obtain ts where ts: "covers 0 ts (length bytes)" "list_all (token_valid bytes) ts" "lx_issues r = concat (map issue_of ts)"
    using assms(1) by (auto simp: lexed_ok_def)
  have none: "\<forall>t \<in> set ts. issue_of t = []" using ts(3) assms(2) by simp
  have bytes: "bytes = concat (map (token_text bytes) ts)"
    using covers_texts [OF ts(1), of bytes] by (simp add: text_at_def token_text_def [abs_def])
  show ?thesis
  proof (cases ts)
    case Nil
    then show ?thesis using bytes by simp
  next
    case (Cons t us)
    let ?e = "sp_end (tk_span t)"
    have "covers ?e us (length bytes)" "0 < ?e" using ts(1) Cons by auto
    then have us: "clean (concat (map (token_text bytes) us))" using clean_tokens ts(2) none Cons by simp
    have "clean (token_text bytes t) \<or> token_text bytes t = bom" using token_valid_clean [of bytes t] ts(2) none Cons by auto
    then have "clean (concat (map (token_text bytes) ts)) \<or>
        (\<exists>rest. concat (map (token_text bytes) ts) = bom @ rest \<and> clean rest)"
      using us clean_append [OF _ us, of "token_text bytes t"] by (auto simp: Cons)
    then show ?thesis unfolding bytes [symmetric] .
  qed
qed

section \<open>Properties\<close>

text \<open>C4: The lexer accepts every byte sequence: it terminates, none of its slices, indices and \<open>expect\<close> calls
  panics, and its tokens satisfy the lossless-token invariant the code itself states: nonempty, contiguous and
  bounded spans from the first byte to the last, closed by one empty end-of-file token.\<close>

theorem lex_total: "\<exists>r. lex bytes = Some r \<and> has_bounded_contiguous_spans r (length bytes)"
proof -
  obtain r where r: "lex bytes = Some r" "lexed_ok bytes r" using lex_ok by blast
  then show ?thesis
    by (auto simp: lexed_ok_def has_bounded_contiguous_spans_def token_at_def Let_def butlast_append covers_contiguous)
qed

text \<open>C32: Lexing is lossless. The raw texts of the tokens, read back from the source in order, are the source.\<close>

theorem lex_roundtrip:
  assumes "lex bytes = Some r"
  shows "\<exists>texts. those (map (\<lambda>t. raw t bytes) (lx_tokens r)) = Some texts \<and> concat texts = bytes"
proof -
  obtain ts where ts: "lx_tokens r = ts @ [token_at Eof (length bytes) (length bytes)]" "covers 0 ts (length bytes)"
    using lex_lexed_ok [OF assms] by (auto simp: lexed_ok_def)
  have one: "covers (length bytes) [] (length bytes)" by simp
  have eof: "raw (token_at Eof (length bytes) (length bytes)) bytes = Some []" by (simp add: raw_def token_at_def slice_def)
  have app: "those (xs @ [Some y]) = map_option (\<lambda>zs. zs @ [y]) (those xs)" for xs and y :: "u8 list"
    by (induction xs) (auto simp: option.map_comp comp_def split: option.split)
  show ?thesis
    using covers_texts [OF ts(2), of bytes] eof app by (simp add: ts(1) text_at_def)
qed

theorem lex_roundtrip_witness:
  "map_option (map tk_kind \<circ> lx_tokens) (lex ''let x'') = Some [Keyword KLet, Whitespace, Identifier, Eof] \<and>
   (\<exists>r texts. lex ''let x'' = Some r \<and> those (map (\<lambda>t. raw t ''let x'') (lx_tokens r)) = Some texts \<and> concat texts = ''let x'')"
proof -
  have k: "map_option (map tk_kind \<circ> lx_tokens) (lex ''let x'') = Some [Keyword KLet, Whitespace, Identifier, Eof]" by code_simp
  then obtain r where r: "lex ''let x'' = Some r" by auto
  then show ?thesis using lex_roundtrip [OF r] k by blast
qed

text \<open>C36: Diagnostics are exact. The issues are, in order, one error diagnostic for every error token, with its
  class, its message and its span as primary span, and no other token raises one.\<close>

theorem lex_issues_exact:
  assumes "lex bytes = Some r"
  shows "lx_issues r = concat (map issue_of (lx_tokens r))"
  using lex_lexed_ok [OF assms] by (auto simp: lexed_ok_def issue_of_def token_at_def)

theorem lex_issues_exact_witness:
  "\<exists>r. lex ''#'' = Some r \<and> map tk_kind (lx_tokens r) = [LexError UnexpectedByte, Eof] \<and>
    lx_issues r = concat (map issue_of (lx_tokens r))"
proof -
  have k: "map_option (map tk_kind \<circ> lx_tokens) (lex ''#'') = Some [LexError UnexpectedByte, Eof]" by code_simp
  obtain r where r: "lex ''#'' = Some r" using lex_ok by blast
  then have "map tk_kind (lx_tokens r) = [LexError UnexpectedByte, Eof]" using k by simp
  then show ?thesis by (intro exI [of _ r] conjI r lex_issues_exact [OF r])
qed

text \<open>C5: A source without lexical issues is clean text: valid UTF-8 without zero bytes, with a byte order mark at
  most at its start. No comment, literal or identifier can hide a globally invalid byte.\<close>

theorem lex_clean_source:
  assumes "lex bytes = Some r" and "lx_issues r = []"
  shows "from_utf8 bytes = None \<and> CHR 0x00 \<notin> set bytes \<and> (\<forall>i > 0. \<not> starts_with (drop i bytes) bom)"
proof -
  consider "clean bytes" | rest where "bytes = bom @ rest" "clean rest"
    using lexed_clean [OF lex_lexed_ok [OF assms(1)] assms(2)] by blast
  then show ?thesis
  proof cases
    case 1
    then show ?thesis using clean_valid clean_no_zero clean_no_bom
      by (metis append_take_drop_id starts_with_def)
  next
    case 2
    obtain its where "rest = concat its" "\<forall>it \<in> set its. encoded it" using 2(2) clean_valid from_utf8_valid by blast
    then have "from_utf8 bytes = None"
      unfolding from_utf8_valid using 2(1) by (intro exI [of _ "bom # its"]) simp
    then show ?thesis using 2 bom_only_at_start clean_no_zero by (auto simp: bom_def)
  qed
qed

theorem lex_clean_source_witness:
  "\<exists>r. lex (bom @ ''let x1 = 0x1F; // '' @ [CHR 0xC3, CHR 0xA9]) = Some r \<and> lx_issues r = [] \<and> length (lx_tokens r) = 12 \<and>
    from_utf8 (bom @ ''let x1 = 0x1F; // '' @ [CHR 0xC3, CHR 0xA9]) = None"
proof -
  let ?source = "bom @ ''let x1 = 0x1F; // '' @ [CHR 0xC3, CHR 0xA9]"
  have "map_option (\<lambda>r. (lx_issues r, length (lx_tokens r))) (lex ?source) = Some ([], 12)" by code_simp
  then obtain r where r: "lex ?source = Some r" "lx_issues r = []" "length (lx_tokens r) = 12" by auto
  show ?thesis using lex_clean_source [OF r(1,2)] r by (intro exI [of _ r]) simp
qed

text \<open>C33: Every token is a word of the grammar of its kind, stated apart from the code in \<open>Lexer_Grammar\<close> after
  sections 2 to 5 of \<open>docs/language-spec.md\<close>: whitespace is a sequence of blanks and the longest one; a line comment
  runs to the end of its line and a block comment closes its nested comments exactly at its end; an identifier is a
  name that is no keyword and no underscore; a keyword or punctuation has the spelling of its kind, the longest one at
  its position; numbers, characters, strings and lifetimes have their forms, escapes and suffixes. Names and numbers
  end only where no identifier character follows. The byte order mark is a token only at the start, and the
  end-of-file token is the last one and the only one.\<close>

theorem lex_tokens_valid:
  assumes "lex bytes = Some r"
  shows "\<exists>ts. lx_tokens r = ts @ [token_at Eof (length bytes) (length bytes)] \<and> (\<forall>t \<in> set ts. token_valid bytes t)"
  using lex_lexed_ok [OF assms] by (auto simp: lexed_ok_def list_all_iff)

theorem lex_tokens_valid_witness:
  "\<exists>r ts. lex ''>>='' = Some r \<and> lx_tokens r = ts @ [token_at Eof 3 3] \<and> (\<forall>t \<in> set ts. token_valid ''>>='' t) \<and>
   map tk_kind ts = [Punctuation PShiftRightEqual]"
proof -
  have k: "map_option (map tk_kind \<circ> lx_tokens) (lex ''>>='') = Some [Punctuation PShiftRightEqual, Eof]" by code_simp
  then obtain r where r: "lex ''>>='' = Some r" "map tk_kind (lx_tokens r) = [Punctuation PShiftRightEqual, Eof]" by auto
  obtain ts where ts: "lx_tokens r = ts @ [token_at Eof 3 3]" "\<forall>t \<in> set ts. token_valid ''>>='' t"
    using lex_tokens_valid [OF r(1)] by (auto simp: numeral_3_eq_3)
  then show ?thesis using r by (auto simp: token_at_def)
qed

end
