(* ===== verification/Flat_Domain.thy ===== *)
theory Flat_Domain
  imports Byte_Set
begin

text \<open>
  The flat domains of the verifier's resource state. Most enumerations of
  \<open>src/src/verifier/resource/\<close> join two facts to the common fact or to the enumeration's unknown
  value; the locale \<open>flat_domain\<close> says so once and gives each of them the laws of \<open>widening_domain\<close>.
\<close>

definition flat_height :: "'a \<Rightarrow> 'a \<Rightarrow> nat" where
  "flat_height unknown a = (if a = unknown then 0 else 1)"

locale flat_domain =
  fixes \<gamma> :: "'a \<Rightarrow> 'c \<Rightarrow> bool"
    and join :: "'a \<Rightarrow> 'a \<Rightarrow> 'a"
    and unknown :: 'a
  assumes join_flat: "join a b = (if a = b then a else unknown)"
    and unknown_holds: "\<gamma> unknown c"
begin

lemma join_idem: "join a a = a"
  by (simp add: join_flat)

lemma join_commute: "join a b = join b a"
  by (simp add: join_flat)

lemma join_assoc: "join (join a b) c = join a (join b c)"
  by (simp add: join_flat)

lemma join_precise: "join a b \<noteq> unknown \<Longrightarrow> a = b \<and> join a b = a"
  by (simp add: join_flat split: if_splits)

lemma height_le: "flat_height unknown (join a b) \<le> flat_height unknown a"
  by (simp add: join_flat flat_height_def)

lemma join_covers: "\<gamma> a c \<or> \<gamma> b c \<Longrightarrow> \<gamma> (join a b) c"
  by (auto simp: join_flat unknown_holds)

end

sublocale flat_domain \<subseteq> widening_domain "\<lambda>_. True" \<gamma> join join "flat_height unknown"
  by unfold_locales (auto simp: join_flat unknown_holds flat_height_def)

section \<open>Facts that may be absent\<close>

definition option_join :: "'a option \<Rightarrow> 'a option \<Rightarrow> 'a option" where
  "option_join a b = (if a = b then a else None)"

fun option_holds :: "('a \<Rightarrow> 'c \<Rightarrow> bool) \<Rightarrow> 'a option \<Rightarrow> 'c \<Rightarrow> bool" where
  "option_holds h None c = True"
| "option_holds h (Some x) c = h x c"

interpretation optd: flat_domain "option_holds h" option_join None for h
  by unfold_locales (auto simp: option_join_def)

interpretation abrf: flat_domain abr_holds abr_join RUnknown
proof unfold_locales
  fix a b :: abstract_byte_range and c
  show "abr_join a b = (if a = b then a else RUnknown)"
    by (cases a; cases b) auto
  show "abr_holds RUnknown c" by (cases c) simp
qed

interpretation abf: flat_domain ab_contains ab_join ABUnknown
proof unfold_locales
  fix a b :: abstract_bool
  show "ab_join a b = (if a = b then a else ABUnknown)" by (cases a; cases b) (simp_all add: ab_join_def)
qed simp

end
