(* ===== verification/Nominal_Path.thy ===== *)
theory Nominal_Path
  imports Prelude
begin

text \<open>
  The nominal paths of \<open>src/src/vir/provenance.rs\<close>: which subobject a pointer addresses and in which
  arithmetic domain, as bounded encoded paths below an object or a parameter. A path is a fixed array
  of eight encoded steps and a length. The lemmas decode the array and show that extending a path
  appends exactly the erased segments, so two paths are equal only when root and segments agree.
\<close>

section \<open>Accesses and segments\<close>

record vir_memory_access =
  ma_ty :: u32
  ma_layout :: u32

datatype vir_object_path_segment = TupleElement u64 | FieldSegment u32 | ArrayElement u64 | VariantSegment u32

section \<open>Paths\<close>

datatype parameter_path_role = RoleObject | RoleIncomingDomain | RoleSelectedDomain

datatype vir_nominal_root =
    RootObject vir_memory_access
  | RootParameter vir_memory_access u32 u32 parameter_path_role

record vir_nominal_path =
  np_root :: vir_nominal_root
  np_steps :: "u32 list"
  np_len :: nat

definition VIR_NOMINAL_STEPS :: nat where
  "VIR_NOMINAL_STEPS = 8"

definition np_empty :: "vir_nominal_root \<Rightarrow> vir_nominal_path" where
  "np_empty r = \<lparr>np_root = r, np_steps = replicate VIR_NOMINAL_STEPS 0, np_len = 0\<rparr>"

definition np_of_root :: "vir_memory_access \<Rightarrow> vir_nominal_path" where
  "np_of_root access = np_empty (RootObject access)"

fun role_code :: "parameter_path_role \<Rightarrow> nat" where
  "role_code RoleObject = 0"
| "role_code RoleIncomingDomain = 1"
| "role_code RoleSelectedDomain = 2"

definition interface_parts ::
  "vir_nominal_path \<Rightarrow> u32 \<Rightarrow> (vir_memory_access \<times> (u32 \<times> nat) option \<times> u32 list) option" where
  "interface_parts p fn =
     (case np_root p of
        RootObject access \<Rightarrow> Some (access, None, take (np_len p) (np_steps p))
      | RootParameter access owner index role \<Rightarrow>
          if owner \<noteq> fn then None
          else Some (access, Some (index, role_code role), take (np_len p) (np_steps p)))"

definition u32_fit :: "nat \<Rightarrow> u32 option" where
  "u32_fit n = (if int n < 2 ^ 32 then Some n else None)"

fun segment_code :: "vir_object_path_segment \<Rightarrow> (u32 \<times> nat) option" where
  "segment_code (FieldSegment fid) = Some (fid, 0)"
| "segment_code (VariantSegment fid) = Some (fid, 1)"
| "segment_code (TupleElement index) = map_option (\<lambda>i. (i, 2)) (u32_fit (unat index))"
| "segment_code (ArrayElement _) = Some (0, 3)"

definition encode_step :: "vir_object_path_segment \<Rightarrow> u32 option" where
  "encode_step s =
     Option.bind (segment_code s) (\<lambda>(fid, tag). Option.bind (u32_fit (fid * 4)) (\<lambda>m. u32_fit (m + tag)))"

definition np_push :: "u32 \<Rightarrow> vir_nominal_path \<Rightarrow> vir_nominal_path option" where
  "np_push encoded p =
     (if np_len p < length (np_steps p)
      then Some (p\<lparr>np_steps := (np_steps p)[np_len p := encoded], np_len := np_len p + 1\<rparr>) else None)"

fun np_extend :: "vir_nominal_path \<Rightarrow> vir_object_path_segment list \<Rightarrow> vir_nominal_path option" where
  "np_extend p [] = Some p"
| "np_extend p (s # path) =
     Option.bind (encode_step s) (\<lambda>e. Option.bind (np_push e p) (\<lambda>q. np_extend q path))"

section \<open>Paths of a pointer\<close>

record vir_pointer_paths =
  pp_object :: "vir_nominal_path option"
  pp_domain :: "vir_nominal_path option"

definition pp_parameter :: "vir_memory_access \<Rightarrow> u32 \<Rightarrow> u32 \<Rightarrow> vir_pointer_paths" where
  "pp_parameter access fn index =
     \<lparr>pp_object = Some (np_empty (RootParameter access fn index RoleObject)),
      pp_domain = Some (np_empty (RootParameter access fn index RoleIncomingDomain))\<rparr>"

fun select_root :: "vir_nominal_root \<Rightarrow> vir_nominal_root" where
  "select_root (RootParameter access fn index RoleIncomingDomain) =
     RootParameter access fn index RoleSelectedDomain"
| "select_root r = r"

definition pp_selected :: "vir_pointer_paths \<Rightarrow> vir_pointer_paths" where
  "pp_selected pp = pp\<lparr>pp_domain := map_option (\<lambda>p. p\<lparr>np_root := select_root (np_root p)\<rparr>) (pp_domain pp)\<rparr>"

definition pp_root :: "vir_memory_access \<Rightarrow> vir_pointer_paths" where
  "pp_root access = \<lparr>pp_object = Some (np_of_root access), pp_domain = Some (np_of_root access)\<rparr>"

definition pp_project ::
  "vir_pointer_paths \<Rightarrow> vir_object_path_segment list \<Rightarrow> vir_object_path_segment list \<Rightarrow> vir_pointer_paths" where
  "pp_project pp path domain_path =
     \<lparr>pp_object = Option.bind (pp_object pp) (\<lambda>p. np_extend p path),
      pp_domain = Option.bind (pp_object pp) (\<lambda>p. np_extend p domain_path)\<rparr>"

definition pp_element :: "vir_pointer_paths \<Rightarrow> vir_pointer_paths" where
  "pp_element pp =
     \<lparr>pp_object = Option.bind (pp_object pp) (\<lambda>p. np_extend p [ArrayElement 0]), pp_domain = pp_object pp\<rparr>"

definition pp_join :: "vir_pointer_paths \<Rightarrow> vir_pointer_paths \<Rightarrow> vir_pointer_paths" where
  "pp_join a b =
     \<lparr>pp_object = (if pp_object a = pp_object b then pp_object a else None),
      pp_domain = (if pp_domain a = pp_domain b then pp_domain a else None)\<rparr>"

section \<open>Decoding\<close>

definition decode_step :: "u32 \<Rightarrow> vir_object_path_segment" where
  "decode_step e =
     (if e mod 4 = 0 then FieldSegment (e div 4) else if e mod 4 = 1 then VariantSegment (e div 4)
      else if e mod 4 = 2 then TupleElement (of_nat (e div 4)) else ArrayElement 0)"

fun erase_ordinal :: "vir_object_path_segment \<Rightarrow> vir_object_path_segment" where
  "erase_ordinal (ArrayElement _) = ArrayElement 0"
| "erase_ordinal s = s"

definition np_segments :: "vir_nominal_path \<Rightarrow> vir_object_path_segment list" where
  "np_segments p = map decode_step (take (np_len p) (np_steps p))"

definition step_ok :: "u32 \<Rightarrow> bool" where
  "step_ok e = (int e < 2 ^ 32 \<and> (e mod 4 = 3 \<longrightarrow> e = 3))"

definition np_wf :: "vir_nominal_path \<Rightarrow> bool" where
  "np_wf p =
     (length (np_steps p) = VIR_NOMINAL_STEPS \<and> np_len p \<le> VIR_NOMINAL_STEPS \<and>
      list_all step_ok (take (np_len p) (np_steps p)) \<and>
      drop (np_len p) (np_steps p) = replicate (VIR_NOMINAL_STEPS - np_len p) 0)"

definition segment_fits :: "vir_object_path_segment \<Rightarrow> bool" where
  "segment_fits s = (encode_step s \<noteq> None)"

lemma segment_fits_iff:
  "segment_fits s \<longleftrightarrow> (case s of FieldSegment n \<Rightarrow> int n < 2 ^ 30 | VariantSegment n \<Rightarrow> int n < 2 ^ 30
     | TupleElement i \<Rightarrow> unat i < 2 ^ 30 | ArrayElement _ \<Rightarrow> True)"
proof (cases s)
  case (TupleElement i)
  have "unat i < 1073741824 \<Longrightarrow> uint i < 4294967296"
    using of_nat_less_iff [of "unat i" 1073741824, where 'a = int] by simp
  then show ?thesis using TupleElement
    by (simp add: segment_fits_def encode_step_def u32_fit_def bind_eq_None_conv)
qed (simp_all add: segment_fits_def encode_step_def u32_fit_def bind_eq_None_conv)

lemma step_digits:
  "(n * 4 + 2) mod 4 = 2" "(n * 4 + 2) div 4 = n" "Suc (n * 4) mod 4 = 1" "Suc (n * 4) div 4 = n"
  for n :: nat
  by presburger+

lemma encode_step_ok:
  assumes "encode_step s = Some e"
  shows "step_ok e \<and> decode_step e = erase_ordinal s"
  using assms
  by (cases s)
    (auto simp: encode_step_def u32_fit_def step_ok_def decode_step_def step_digits split: if_splits
      simp del: add_2_eq_Suc')

lemma div_mod_ext: "a div 4 = b div 4 \<Longrightarrow> a mod 4 = b mod 4 \<Longrightarrow> a = b" for a b :: nat
  by (metis div_mult_mod_eq)

lemma decode_step_inj:
  assumes "step_ok a" and "step_ok b" and "decode_step a = decode_step b"
  shows "a = b"
proof -
  define sid where "sid s = (case s of FieldSegment n \<Rightarrow> n | VariantSegment n \<Rightarrow> n | TupleElement w \<Rightarrow> unat w
    | ArrayElement _ \<Rightarrow> 0)" for s
  have sid: "sid (decode_step n) = n div 4" if h: "step_ok n" "n mod 4 \<noteq> 3" for n
  proof -
    have "unat (of_nat (n div 4) :: u64) = n div 4"
      using h(1) by (intro of_nat_inverse) (auto simp: step_ok_def)
    moreover have "n mod 4 < 4" by simp
    ultimately show ?thesis using h(2) by (simp add: sid_def decode_step_def)
  qed
  have "a mod 4 = b mod 4"
    using assms(3) by (auto simp: decode_step_def split: if_splits)
  show ?thesis
  proof (cases "a mod 4 = 3")
    case True
    then show ?thesis using assms(1,2) \<open>a mod 4 = b mod 4\<close> by (simp add: step_ok_def)
  next
    case False
    then have "a div 4 = b div 4"
      using sid [OF assms(1)] sid [OF assms(2)] assms(3) \<open>a mod 4 = b mod 4\<close> by simp
    then show ?thesis using \<open>a mod 4 = b mod 4\<close> by (rule div_mod_ext)
  qed
qed

lemma np_empty_wf: "np_wf (np_empty r)" "np_segments (np_empty r) = []"
  by (simp_all add: np_wf_def np_empty_def np_segments_def)

lemma np_push_spec:
  assumes "np_wf p" and "step_ok e"
  shows "np_push e p = (if np_len p < VIR_NOMINAL_STEPS
      then Some (p\<lparr>np_steps := (np_steps p)[np_len p := e], np_len := np_len p + 1\<rparr>) else None)"
    and "np_push e p = Some q \<Longrightarrow> np_wf q \<and> np_root q = np_root p \<and> np_len q = np_len p + 1 \<and>
      np_segments q = np_segments p @ [decode_step e]"
proof -
  show eq: "np_push e p = (if np_len p < VIR_NOMINAL_STEPS
      then Some (p\<lparr>np_steps := (np_steps p)[np_len p := e], np_len := np_len p + 1\<rparr>) else None)"
    using assms by (simp add: np_push_def np_wf_def)
  assume "np_push e p = Some q"
  then have less: "np_len p < VIR_NOMINAL_STEPS" and
    q: "q = p\<lparr>np_steps := (np_steps p)[np_len p := e], np_len := np_len p + 1\<rparr>"
    using eq by (auto split: if_splits)
  have len: "length (np_steps p) = VIR_NOMINAL_STEPS" using assms(1) by (simp add: np_wf_def)
  have take: "take (Suc (np_len p)) ((np_steps p)[np_len p := e]) = take (np_len p) (np_steps p) @ [e]"
    using less len by (simp add: take_Suc_conv_app_nth)
  have "drop (Suc (np_len p)) (np_steps p) = tl (drop (np_len p) (np_steps p))"
    by (simp add: drop_Suc drop_tl)
  then have drop: "drop (Suc (np_len p)) ((np_steps p)[np_len p := e]) =
      replicate (VIR_NOMINAL_STEPS - Suc (np_len p)) 0"
    using assms(1) less by (simp add: np_wf_def drop_update_cancel flip: Suc_diff_Suc)
  show "np_wf q \<and> np_root q = np_root p \<and> np_len q = np_len p + 1 \<and>
      np_segments q = np_segments p @ [decode_step e]"
    using assms less len take drop by (simp add: q np_wf_def np_segments_def)
qed

lemma np_extend_spec:
  assumes "np_wf p"
  shows "np_extend p path \<noteq> None \<longleftrightarrow> list_all segment_fits path \<and> np_len p + length path \<le> VIR_NOMINAL_STEPS"
    and "np_extend p path = Some q \<Longrightarrow> np_wf q \<and> np_root q = np_root p \<and>
      np_segments q = np_segments p @ map erase_ordinal path"
  using assms
proof (induction path arbitrary: p)
  case Nil
  { case 1 then show ?case by (simp add: np_wf_def) next case 2 then show ?case by simp }
next
  case (Cons s path)
  { case 1
    show ?case
    proof (cases "encode_step s")
      case (Some e)
      have ok: "step_ok e" using encode_step_ok [OF Some] by blast
      show ?thesis
      proof (cases "np_push e p")
        case None
        then have "\<not> np_len p < VIR_NOMINAL_STEPS" using np_push_spec(1) [OF 1 ok] by (simp split: if_splits)
        then show ?thesis using Some None by simp
      next
        case q: (Some q)
        then have "np_wf q" "np_len q = np_len p + 1" using np_push_spec(2) [OF 1 ok q] by blast+
        then show ?thesis using Cons.IH(1) [of q] Some q by (simp add: segment_fits_def)
      qed
    qed (simp add: segment_fits_def)
  next
    case 2
    then obtain e r where e: "encode_step s = Some e" and r: "np_push e p = Some r" "np_extend r path = Some q"
      by (auto simp: Option.bind_eq_Some_conv)
    have ok: "step_ok e \<and> decode_step e = erase_ordinal s" by (rule encode_step_ok [OF e])
    note push = np_push_spec(2) [OF 2(2) conjunct1 [OF ok] r(1)]
    have "np_wf q \<and> np_root q = np_root r \<and> np_segments q = np_segments r @ map erase_ordinal path"
      by (rule Cons.IH(2) [OF r(2) conjunct1 [OF push]])
    then show ?case using push ok by simp }
qed

lemma np_equal_iff:
  assumes "np_wf p" and "np_wf q"
  shows "p = q \<longleftrightarrow> np_root p = np_root q \<and> np_segments p = np_segments q"
proof
  assume eq: "np_root p = np_root q \<and> np_segments p = np_segments q"
  have len: "length (take (np_len r) (np_steps r)) = np_len r" if "np_wf r" for r
    using that by (simp add: np_wf_def)
  have "length (np_segments p) = length (np_segments q)" using eq by simp
  then have n: "np_len p = np_len q" using len assms by (simp add: np_segments_def)
  have "take (np_len p) (np_steps p) = take (np_len q) (np_steps q)"
  proof (rule map_inj_on [OF eq [THEN conjunct2, unfolded np_segments_def]])
    show "inj_on decode_step (set (take (np_len p) (np_steps p)) \<union> set (take (np_len q) (np_steps q)))"
      using assms by (intro inj_onI decode_step_inj) (auto simp: np_wf_def list_all_iff)
  qed
  moreover have "drop (np_len p) (np_steps p) = drop (np_len q) (np_steps q)"
    using assms n by (simp add: np_wf_def)
  ultimately have "np_steps p = np_steps q" using n by (metis append_take_drop_id)
  then show "p = q" using eq n by (simp add: vir_nominal_path.equality)
qed simp

section \<open>Properties\<close>

text \<open>Nominal paths are exact. Extending a path fails exactly when a segment does not fit the
  encoding or the eight steps are used up, and two extensions of object or parameter roots are the
  same path only when the roots agree and the segments agree up to array ordinals. Running out of
  room loses the path and never merges two.\<close>

theorem nominal_path_exact:
  "(np_extend (np_empty r) path = None \<longleftrightarrow> \<not> list_all segment_fits path \<or> 8 < length path) \<and>
   (np_extend (np_empty r) path = Some p \<longrightarrow> np_extend (np_empty r') path' = Some p' \<longrightarrow>
     (p = p' \<longleftrightarrow> r = r' \<and> map erase_ordinal path = map erase_ordinal path'))"
proof (intro conjI impI)
  show "np_extend (np_empty r) path = None \<longleftrightarrow> \<not> list_all segment_fits path \<or> 8 < length path"
    using np_extend_spec(1) [OF np_empty_wf(1), of r path] by (auto simp: VIR_NOMINAL_STEPS_def np_empty_def)
  assume ex: "np_extend (np_empty r) path = Some p" "np_extend (np_empty r') path' = Some p'"
  note s = np_extend_spec(2) [OF np_empty_wf(1) ex(1)] np_extend_spec(2) [OF np_empty_wf(1) ex(2)]
  then show "p = p' \<longleftrightarrow> r = r' \<and> map erase_ordinal path = map erase_ordinal path'"
    using np_equal_iff [of p p'] by (simp add: np_empty_wf(2)) (simp add: np_empty_def)
qed

theorem nominal_path_exact_witness:
  "let r = RootObject \<lparr>ma_ty = 1, ma_layout = 2\<rparr>; p = np_extend (np_empty r) [FieldSegment 7, ArrayElement 3];
       q = np_extend (np_empty r) [FieldSegment 7, ArrayElement 4]; s = np_extend (np_empty r) [FieldSegment 7, VariantSegment 0]
   in p = q \<and> p \<noteq> s \<and> s \<noteq> None \<and> np_extend (np_empty r) [FieldSegment 1073741824] = None"
proof -
  define r where "r = RootObject \<lparr>ma_ty = 1, ma_layout = 2\<rparr>"
  have "np_extend (np_empty r) path \<noteq> None" if "list_all segment_fits path" "length path = 2" for path
    using nominal_path_exact [of r path] that by simp
  from this [of "[FieldSegment 7, ArrayElement 3]"] this [of "[FieldSegment 7, ArrayElement 4]"]
    this [of "[FieldSegment 7, VariantSegment 0]"]
  obtain p q s where e: "np_extend (np_empty r) [FieldSegment 7, ArrayElement 3] = Some p"
      "np_extend (np_empty r) [FieldSegment 7, ArrayElement 4] = Some q"
      "np_extend (np_empty r) [FieldSegment 7, VariantSegment 0] = Some s"
    by (auto simp: segment_fits_iff simp del: np_extend.simps)
  have "p = q" "p \<noteq> s" using nominal_path_exact [of r _ p r _ q] nominal_path_exact [of r _ p r _ s] e
    by (auto simp del: np_extend.simps)
  moreover have "np_extend (np_empty r) [FieldSegment 1073741824] = None"
    using nominal_path_exact [of r "[FieldSegment 1073741824]"] by (simp add: segment_fits_iff del: np_extend.simps)
  ultimately show ?thesis using e by (simp add: r_def Let_def del: np_extend.simps)
qed

end
