(* ===== verification/Abstract_Pointer.thy ===== *)
theory Abstract_Pointer
  imports Flat_Domain Nominal_Path
begin

text \<open>
  Abstract pointers: allocation identities of \<open>src/src/verifier/resource/object.rs\<close>, provenance, object
  offsets and pointers of \<open>src/src/verifier/resource/pointer.rs\<close>, and the memory footprint of
  \<open>src/src/verifier/resource/bytes.rs\<close>. \<open>ptr_holds\<close> says which run-time pointers an abstract pointer
  stands for; join and widening are interpreted as a \<open>widening_domain\<close> over it.
\<close>

section \<open>Allocation identities\<close>

datatype (plugins only: code size) abstract_allocation_id =
    External u32
  | VirAllocationSite vir_value_id
  | VirLocalStorageSite vir_value_id
  | ContractInstance u64 u32
  | SummaryInstance u64 u32
  | AbiEntryPayload u32 u32 u32
  | AbiCallPayload u64 u32 u32

fun aid_get :: "abstract_allocation_id \<Rightarrow> u32" where
  "aid_get (External raw) = raw"
| "aid_get (VirAllocationSite v) = v"
| "aid_get (VirLocalStorageSite v) = v"
| "aid_get (ContractInstance _ r) = r"
| "aid_get (SummaryInstance _ r) = r"
| "aid_get (AbiEntryPayload _ _ leaf) = leaf"
| "aid_get (AbiCallPayload _ _ leaf) = leaf"

fun same_identity :: "abstract_allocation_id \<Rightarrow> abstract_allocation_id \<Rightarrow> bool" where
  "same_identity (SummaryInstance a x) (SummaryInstance b y) = (a = b \<and> x = y)"
| "same_identity (External l) (External r) = (l = r)"
| "same_identity (VirAllocationSite l) (VirAllocationSite r) = (l = r)"
| "same_identity (VirLocalStorageSite l) (VirLocalStorageSite r) = (l = r)"
| "same_identity (ContractInstance a x) (ContractInstance b y) = (a = b \<and> x = y)"
| "same_identity (AbiEntryPayload f p l) (AbiEntryPayload g q m) = (f = g \<and> p = q \<and> l = m)"
| "same_identity (AbiCallPayload s r l) (AbiCallPayload t q m) = (s = t \<and> r = q \<and> l = m)"
| "same_identity _ _ = False"

lemma same_identity_iff [simp]: "same_identity a b \<longleftrightarrow> a = b"
  by (cases a; cases b) simp_all

section \<open>Provenance\<close>

datatype abstract_provenance = ProvKnown abstract_allocation_id | ProvUnknown

fun prov_join :: "abstract_provenance \<Rightarrow> abstract_provenance \<Rightarrow> abstract_provenance" where
  "prov_join (ProvKnown l) (ProvKnown r) = (if same_identity l r then ProvKnown l else ProvUnknown)"
| "prov_join _ _ = ProvUnknown"

fun prov_holds :: "abstract_provenance \<Rightarrow> abstract_allocation_id \<Rightarrow> bool" where
  "prov_holds (ProvKnown a) c = (a = c)"
| "prov_holds ProvUnknown c = True"

interpretation provd: flat_domain prov_holds prov_join ProvUnknown
proof unfold_locales
  fix a b :: abstract_provenance
  show "prov_join a b = (if a = b then a else ProvUnknown)" by (cases a; cases b) simp_all
qed simp

section \<open>Object offsets\<close>

definition VERIFIER_OBJECT_OFFSET_MAX_CANDIDATES :: nat where
  "VERIFIER_OBJECT_OFFSET_MAX_CANDIDATES = 256"

datatype abstract_object_offsets = OffExact u64 | OffStrided u64 u64 nat | OffUnknown

definition off_from_interval :: "u64_interval \<Rightarrow> abstract_object_offsets" where
  "off_from_interval i = (case iv_exact_value i of Some v \<Rightarrow> OffExact v | None \<Rightarrow> OffUnknown)"

fun off_candidates :: "abstract_object_offsets \<Rightarrow> u64 list option" where
  "off_candidates (OffExact offset) = Some [offset]"
| "off_candidates (OffStrided first stride count) =
     option_map_list (\<lambda>index. Option.bind (u64_checked_mul (of_nat index) stride) (\<lambda>m. u64_checked_add m first))
       [0..<count]"
| "off_candidates OffUnknown = None"

fun off_join :: "abstract_object_offsets \<Rightarrow> abstract_object_offsets \<Rightarrow> abstract_object_offsets" where
  "off_join (OffExact l) (OffExact r) = (if l = r then OffExact l else OffUnknown)"
| "off_join (OffStrided lf ls lc) (OffStrided rf rs rc) =
     (if lf = rf \<and> ls = rs \<and> lc = rc then OffStrided lf ls lc else OffUnknown)"
| "off_join _ _ = OffUnknown"

fun offset_by_exact :: "abstract_object_offsets \<Rightarrow> u64 \<Rightarrow> abstract_object_offsets" where
  "offset_by_exact (OffExact offset) delta =
     (case u64_checked_add offset delta of Some v \<Rightarrow> OffExact v | None \<Rightarrow> OffUnknown)"
| "offset_by_exact (OffStrided first stride count) delta =
     (case u64_checked_add first delta of Some v \<Rightarrow> OffStrided v stride count | None \<Rightarrow> OffUnknown)"
| "offset_by_exact OffUnknown delta = OffUnknown"

definition offset_by_index :: "abstract_object_offsets \<Rightarrow> u64_interval \<Rightarrow> u64 \<Rightarrow> abstract_object_offsets" where
  "offset_by_index offs indices stride =
     (case Option.bind (u64_checked_sub (iv_upper indices) (iv_lower indices)) (\<lambda>w. u64_checked_add w 1) of
        None \<Rightarrow> OffUnknown
      | Some count \<Rightarrow>
          if count > of_nat VERIFIER_OBJECT_OFFSET_MAX_CANDIDATES then OffUnknown
          else case u64_checked_mul (iv_lower indices) stride of
            None \<Rightarrow> OffUnknown
          | Some delta \<Rightarrow>
              (case offs of
                 OffExact base \<Rightarrow>
                   (case u64_checked_add base delta of
                      None \<Rightarrow> OffUnknown
                    | Some first \<Rightarrow> if count = 1 then OffExact first else OffStrided first stride (unat count))
               | _ \<Rightarrow> OffUnknown))"

fun off_holds :: "abstract_object_offsets \<Rightarrow> u64 \<Rightarrow> bool" where
  "off_holds (OffExact v) c = (c = v)"
| "off_holds (OffStrided first stride count) c =
     (\<exists>i \<in> set [0..<count]. uint c = uint first + int i * uint stride)"
| "off_holds OffUnknown c = True"

interpretation offd: flat_domain off_holds off_join OffUnknown
proof unfold_locales
  fix a b :: abstract_object_offsets
  show "off_join a b = (if a = b then a else OffUnknown)" by (cases a; cases b) simp_all
qed simp

section \<open>Arithmetic domain\<close>

datatype 'r vir_pointer_domain = PDAllocation | PDRestricted 'r | PDUnknown

definition pd_join :: "'r vir_pointer_domain \<Rightarrow> 'r vir_pointer_domain \<Rightarrow> 'r vir_pointer_domain" where
  "pd_join a b = (if a = b then a else PDUnknown)"

fun pd_holds ::
  "abstract_byte_range vir_pointer_domain \<Rightarrow> (vir_value_id \<Rightarrow> int) \<times> (u64 \<times> u64) option \<Rightarrow> bool" where
  "pd_holds PDAllocation (\<rho>, c) = (c = None)"
| "pd_holds (PDRestricted r) (\<rho>, c) = (case c of None \<Rightarrow> False | Some se \<Rightarrow> abr_holds r (\<rho>, se))"
| "pd_holds PDUnknown (\<rho>, c) = True"

interpretation pdd: flat_domain pd_holds pd_join PDUnknown
proof unfold_locales
  fix c show "pd_holds PDUnknown c" by (cases c) simp
qed (simp add: pd_join_def)

section \<open>Footprints\<close>

record memory_footprint =
  fp_provenance :: abstract_provenance
  fp_access :: vir_memory_access
  fp_stride_bytes :: u64
  fp_range :: abstract_byte_range
  fp_envelope :: byte_range

definition fp_join :: "memory_footprint \<Rightarrow> memory_footprint \<Rightarrow> memory_footprint option" where
  "fp_join a b =
     (if fp_access a \<noteq> fp_access b \<or> fp_stride_bytes a \<noteq> fp_stride_bytes b then None
      else Some (a\<lparr>fp_provenance := prov_join (fp_provenance a) (fp_provenance b),
                   fp_range := abr_join (fp_range a) (fp_range b),
                   fp_envelope :=
                     \<lparr>br_start = min (br_start (fp_envelope a)) (br_start (fp_envelope b)),
                      br_end = max (br_end (fp_envelope a)) (br_end (fp_envelope b))\<rparr>\<rparr>))"

definition slice_join :: "memory_footprint option \<Rightarrow> memory_footprint option \<Rightarrow> memory_footprint option" where
  "slice_join a b = (case (a, b) of (Some x, Some y) \<Rightarrow> fp_join x y | _ \<Rightarrow> None)"

section \<open>Pointers\<close>

record abstract_pointer =
  ap_provenance :: abstract_provenance
  ap_offset_bytes :: u64_interval
  ap_alignment :: guaranteed_alignment
  ap_offset_expression :: "affine_expression option"
  ap_access :: "vir_memory_access option"
  ap_object_offsets :: abstract_object_offsets
  ap_slice_footprint :: "memory_footprint option"
  ap_domain :: "abstract_byte_range vir_pointer_domain"
  ap_paths :: vir_pointer_paths

definition ap_new :: "abstract_provenance \<Rightarrow> u64_interval \<Rightarrow> guaranteed_alignment \<Rightarrow> abstract_pointer" where
  "ap_new provenance offset_bytes alignment =
     \<lparr>ap_provenance = provenance, ap_offset_bytes = offset_bytes, ap_alignment = alignment,
      ap_offset_expression = None, ap_access = None,
      ap_object_offsets =
        (if iv_lower offset_bytes = iv_upper offset_bytes then OffExact (iv_lower offset_bytes) else OffUnknown),
      ap_slice_footprint = None, ap_domain = PDAllocation,
      ap_paths = \<lparr>pp_object = None, pp_domain = None\<rparr>\<rparr>"

definition ap_with_offset_expression :: "abstract_pointer \<Rightarrow> affine_expression option \<Rightarrow> abstract_pointer" where
  "ap_with_offset_expression p e = p\<lparr>ap_offset_expression := e\<rparr>"

definition ap_with_memory_access :: "abstract_pointer \<Rightarrow> vir_memory_access option \<Rightarrow> abstract_pointer" where
  "ap_with_memory_access p access =
     (case (ap_access p, access) of
        (None, Some a) \<Rightarrow> p\<lparr>ap_paths := pp_root a, ap_access := access\<rparr>
      | _ \<Rightarrow> p\<lparr>ap_access := access\<rparr>)"

definition ap_with_object_offsets :: "abstract_pointer \<Rightarrow> abstract_object_offsets \<Rightarrow> abstract_pointer" where
  "ap_with_object_offsets p o' = p\<lparr>ap_object_offsets := o'\<rparr>"

definition ap_with_paths :: "abstract_pointer \<Rightarrow> vir_pointer_paths \<Rightarrow> abstract_pointer" where
  "ap_with_paths p paths = p\<lparr>ap_paths := paths\<rparr>"

definition ap_with_domain ::
  "abstract_pointer \<Rightarrow> abstract_byte_range vir_pointer_domain \<Rightarrow> abstract_pointer" where
  "ap_with_domain p d = p\<lparr>ap_domain := d\<rparr>"

definition ap_with_slice_footprint :: "abstract_pointer \<Rightarrow> memory_footprint option \<Rightarrow> abstract_pointer" where
  "ap_with_slice_footprint p f = p\<lparr>ap_slice_footprint := f\<rparr>"

definition ap_join :: "abstract_pointer \<Rightarrow> abstract_pointer \<Rightarrow> abstract_pointer" where
  "ap_join a b =
     \<lparr>ap_provenance = prov_join (ap_provenance a) (ap_provenance b),
      ap_offset_bytes = iv_join (ap_offset_bytes a) (ap_offset_bytes b),
      ap_alignment = ga_join (ap_alignment a) (ap_alignment b),
      ap_offset_expression = option_join (ap_offset_expression a) (ap_offset_expression b),
      ap_access = option_join (ap_access a) (ap_access b),
      ap_object_offsets = off_join (ap_object_offsets a) (ap_object_offsets b),
      ap_slice_footprint = slice_join (ap_slice_footprint a) (ap_slice_footprint b),
      ap_domain = pd_join (ap_domain a) (ap_domain b),
      ap_paths = pp_join (ap_paths a) (ap_paths b)\<rparr>"

definition ap_widen :: "abstract_pointer \<Rightarrow> abstract_pointer \<Rightarrow> abstract_pointer" where
  "ap_widen a b =
     \<lparr>ap_provenance = prov_join (ap_provenance a) (ap_provenance b),
      ap_offset_bytes = iv_widen (ap_offset_bytes a) (ap_offset_bytes b),
      ap_alignment = ga_join (ap_alignment a) (ap_alignment b),
      ap_offset_expression = option_join (ap_offset_expression a) (ap_offset_expression b),
      ap_access = option_join (ap_access a) (ap_access b),
      ap_object_offsets = off_join (ap_object_offsets a) (ap_object_offsets b),
      ap_slice_footprint = slice_join (ap_slice_footprint a) (ap_slice_footprint b),
      ap_domain = pd_join (ap_domain a) (ap_domain b),
      ap_paths = pp_join (ap_paths a) (ap_paths b)\<rparr>"

section \<open>What a pointer stands for\<close>

record slice_state =
  ss_allocation :: abstract_allocation_id
  ss_access :: vir_memory_access
  ss_stride :: u64
  ss_start :: u64
  ss_end :: u64

record pointer_state =
  cp_env :: "vir_value_id \<Rightarrow> int"
  cp_allocation :: abstract_allocation_id
  cp_address :: int
  cp_offset :: u64
  cp_access :: vir_memory_access
  cp_object_path :: vir_nominal_path
  cp_domain_path :: vir_nominal_path
  cp_extent :: "(u64 \<times> u64) option"
  cp_slice :: "slice_state option"

definition fp_holds :: "memory_footprint \<Rightarrow> (vir_value_id \<Rightarrow> int) \<times> slice_state \<Rightarrow> bool" where
  "fp_holds f c =
     (prov_holds (fp_provenance f) (ss_allocation (snd c)) \<and> ss_access (snd c) = fp_access f \<and>
      ss_stride (snd c) = fp_stride_bytes f \<and>
      abr_holds (fp_range f) (fst c, ss_start (snd c), ss_end (snd c)) \<and>
      br_start (fp_envelope f) \<le> ss_start (snd c) \<and> ss_end (snd c) \<le> br_end (fp_envelope f))"

definition slice_holds :: "memory_footprint option \<Rightarrow> (vir_value_id \<Rightarrow> int) \<times> slice_state option \<Rightarrow> bool" where
  "slice_holds f c = (case f of None \<Rightarrow> True | Some f \<Rightarrow> (case snd c of None \<Rightarrow> False | Some s \<Rightarrow> fp_holds f (fst c, s)))"

definition pp_holds :: "vir_pointer_paths \<Rightarrow> vir_nominal_path \<times> vir_nominal_path \<Rightarrow> bool" where
  "pp_holds pp c = (option_holds (=) (pp_object pp) (fst c) \<and> option_holds (=) (pp_domain pp) (snd c))"

definition ptr_holds :: "abstract_pointer \<Rightarrow> pointer_state \<Rightarrow> bool" where
  "ptr_holds p c =
     (prov_holds (ap_provenance p) (cp_allocation c) \<and> iv_contains (ap_offset_bytes p) (cp_offset c) \<and>
      ga_holds (ap_alignment p) (cp_address c) \<and>
      option_holds (\<lambda>e (\<rho>, v). ae_den \<rho> e = uint v) (ap_offset_expression p) (cp_env c, cp_offset c) \<and>
      option_holds (=) (ap_access p) (cp_access c) \<and> off_holds (ap_object_offsets p) (cp_offset c) \<and>
      slice_holds (ap_slice_footprint p) (cp_env c, cp_slice c) \<and> pd_holds (ap_domain p) (cp_env c, cp_extent c) \<and>
      pp_holds (ap_paths p) (cp_object_path c, cp_domain_path c))"

definition ptr_wf :: "abstract_pointer \<Rightarrow> bool" where
  "ptr_wf p = (iv_wf (ap_offset_bytes p) \<and> ga_wf (ap_alignment p))"

definition fp_height :: "memory_footprint \<Rightarrow> nat" where
  "fp_height f =
     1 + flat_height ProvUnknown (fp_provenance f) + flat_height RUnknown (fp_range f) +
     unat (br_start (fp_envelope f)) + (unat u64_MAX - unat (br_end (fp_envelope f)))"

definition slice_height :: "memory_footprint option \<Rightarrow> nat" where
  "slice_height f = (case f of None \<Rightarrow> 0 | Some f \<Rightarrow> fp_height f)"

definition ptr_height :: "abstract_pointer \<Rightarrow> nat" where
  "ptr_height p =
     flat_height ProvUnknown (ap_provenance p) + iv_height (ap_offset_bytes p) + unat (ga_bytes (ap_alignment p)) +
     flat_height None (ap_offset_expression p) + flat_height None (ap_access p) +
     flat_height OffUnknown (ap_object_offsets p) + slice_height (ap_slice_footprint p) +
     flat_height PDUnknown (ap_domain p) +
     flat_height None (pp_object (ap_paths p)) + flat_height None (pp_domain (ap_paths p))"

section \<open>Joins and widening\<close>

lemma ga_join_progress: "ga_join a b \<noteq> a \<Longrightarrow> unat (ga_bytes (ga_join a b)) < unat (ga_bytes a)"
  by (cases a; cases b)
    (auto simp: ga_join_def not_less simp flip: word_less_nat_alt split: if_splits)

lemma pp_join_holds: "pp_holds a c \<or> pp_holds b c \<Longrightarrow> pp_holds (pp_join a b) c"
  by (auto simp: pp_holds_def pp_join_def)

lemma fp_join_holds: "fp_join a b = Some f \<Longrightarrow> fp_holds a c \<or> fp_holds b c \<Longrightarrow> fp_holds f c"
  using provd.join_covers [of "fp_provenance a" "ss_allocation (snd c)" "fp_provenance b"]
    abrf.join_covers [of "fp_range a" "(fst c, ss_start (snd c), ss_end (snd c))" "fp_range b"]
  by (auto simp: fp_join_def fp_holds_def min_le_iff_disj le_max_iff_disj split: if_splits)

lemma slice_join_holds: "slice_holds a c \<or> slice_holds b c \<Longrightarrow> slice_holds (slice_join a b) c"
  using fp_join_holds by (auto simp: slice_holds_def slice_join_def split: option.splits)

lemma envelope_progress:
  fixes s e s' e' :: u64
  shows "unat (min s s') + (unat u64_MAX - unat (max e e')) \<le> unat s + (unat u64_MAX - unat e)"
    and "min s s' \<noteq> s \<or> max e e' \<noteq> e \<Longrightarrow>
      unat (min s s') + (unat u64_MAX - unat (max e e')) < unat s + (unat u64_MAX - unat e)"
proof -
  have bound: "unat x \<le> unat u64_MAX" for x :: u64 using u64_le_MAX [of x] by (simp add: word_le_nat_alt)
  have mm: "unat (min s s') = min (unat s) (unat s')" "unat (max e e') = max (unat e) (unat e')"
    by (simp_all add: min_def max_def word_le_nat_alt)
  show "unat (min s s') + (unat u64_MAX - unat (max e e')) \<le> unat s + (unat u64_MAX - unat e)"
    unfolding mm by simp
  assume ne: "min s s' \<noteq> s \<or> max e e' \<noteq> e"
  then have "s' < s \<or> e < e'" by (auto simp: min_def max_def split: if_splits)
  then have "unat s' < unat s \<or> unat e < unat e'" by (simp add: word_less_nat_alt)
  then show "unat (min s s') + (unat u64_MAX - unat (max e e')) < unat s + (unat u64_MAX - unat e)"
    unfolding mm using bound [of e] bound [of e'] by (auto simp: min_def max_def)
qed

lemmas flat_heights = provd.height_le abrf.height_le offd.height_le pdd.height_le optd.height_le

lemma fp_join_progress:
  assumes "fp_join a b = Some f"
  shows "fp_height f \<le> fp_height a" and "f \<noteq> a \<Longrightarrow> fp_height f < fp_height a"
proof -
  have f: "f = a\<lparr>fp_provenance := prov_join (fp_provenance a) (fp_provenance b),
      fp_range := abr_join (fp_range a) (fp_range b),
      fp_envelope := \<lparr>br_start = min (br_start (fp_envelope a)) (br_start (fp_envelope b)),
        br_end = max (br_end (fp_envelope a)) (br_end (fp_envelope b))\<rparr>\<rparr>"
    using assms by (simp add: fp_join_def split: if_splits)
  note le = flat_heights(1) [of "fp_provenance a" "fp_provenance b"] flat_heights(2) [of "fp_range a" "fp_range b"]
    envelope_progress(1) [of "br_start (fp_envelope a)" "br_start (fp_envelope b)"
      "br_end (fp_envelope a)" "br_end (fp_envelope b)"]
  show "fp_height f \<le> fp_height a" using le by (simp add: f fp_height_def)
  assume ne: "f \<noteq> a"
  show "fp_height f < fp_height a"
  proof (rule ccontr)
    assume no: "\<not> fp_height f < fp_height a"
    have "prov_join (fp_provenance a) (fp_provenance b) = fp_provenance a"
      "abr_join (fp_range a) (fp_range b) = fp_range a"
      "min (br_start (fp_envelope a)) (br_start (fp_envelope b)) = br_start (fp_envelope a) \<and>
       max (br_end (fp_envelope a)) (br_end (fp_envelope b)) = br_end (fp_envelope a)"
      using no le provd.widen_progress [of "fp_provenance a" "fp_provenance b"]
        abrf.widen_progress [of "fp_range a" "fp_range b"]
        envelope_progress(2) [of "br_start (fp_envelope a)" "br_start (fp_envelope b)"
          "br_end (fp_envelope a)" "br_end (fp_envelope b)"]
      by (fastforce simp: f fp_height_def)+
    then have "f = a" by (simp add: f)
    with ne show False ..
  qed
qed

lemma slice_join_progress:
  "slice_height (slice_join a b) \<le> slice_height a"
  "slice_join a b \<noteq> a \<Longrightarrow> slice_height (slice_join a b) < slice_height a"
  using fp_join_progress by (auto simp: slice_height_def slice_join_def fp_height_def split: option.splits)

lemma ap_widen_progress:
  assumes "ap_widen a b \<noteq> a"
  shows "ptr_height (ap_widen a b) < ptr_height a"
proof (rule ccontr)
  assume no: "\<not> ptr_height (ap_widen a b) < ptr_height a"
  note le = flat_heights(1) [of "ap_provenance a" "ap_provenance b"]
    flat_heights(3) [of "ap_object_offsets a" "ap_object_offsets b"]
    flat_heights(4) [of "ap_domain a" "ap_domain b"]
    flat_heights(5) [of "ap_offset_expression a" "ap_offset_expression b"]
    flat_heights(5) [of "ap_access a" "ap_access b"]
    flat_heights(5) [of "pp_object (ap_paths a)" "pp_object (ap_paths b)"]
    flat_heights(5) [of "pp_domain (ap_paths a)" "pp_domain (ap_paths b)"]
    slice_join_progress(1) [of "ap_slice_footprint a" "ap_slice_footprint b"]
  have ivle: "iv_height (iv_widen (ap_offset_bytes a) (ap_offset_bytes b)) \<le> iv_height (ap_offset_bytes a)"
    using iv_widen_progress [of "ap_offset_bytes a" "ap_offset_bytes b"] by fastforce
  have gale: "unat (ga_bytes (ga_join (ap_alignment a) (ap_alignment b))) \<le> unat (ga_bytes (ap_alignment a))"
    using ga_join_progress [of "ap_alignment a" "ap_alignment b"] by fastforce
  have pp: "pp_join (ap_paths a) (ap_paths b) =
      \<lparr>pp_object = option_join (pp_object (ap_paths a)) (pp_object (ap_paths b)),
       pp_domain = option_join (pp_domain (ap_paths a)) (pp_domain (ap_paths b))\<rparr>"
    by (simp add: pp_join_def option_join_def)
  have sum: "ptr_height a \<le> ptr_height (ap_widen a b)" using no by simp
  note tight = sum [unfolded ptr_height_def ap_widen_def pp abstract_pointer.select_convs vir_pointer_paths.select_convs]
    le ivle gale
  have "prov_join (ap_provenance a) (ap_provenance b) = ap_provenance a"
    by (rule ccontr, drule provd.widen_progress, use tight in linarith)
  moreover have "iv_widen (ap_offset_bytes a) (ap_offset_bytes b) = ap_offset_bytes a"
    by (rule ccontr, drule iv_widen_progress, use tight in linarith)
  moreover have "ga_join (ap_alignment a) (ap_alignment b) = ap_alignment a"
    by (rule ccontr, drule ga_join_progress, use tight in linarith)
  moreover have "option_join (ap_offset_expression a) (ap_offset_expression b) = ap_offset_expression a"
    by (rule ccontr, drule optd.widen_progress, use tight in linarith)
  moreover have "option_join (ap_access a) (ap_access b) = ap_access a"
    by (rule ccontr, drule optd.widen_progress, use tight in linarith)
  moreover have "off_join (ap_object_offsets a) (ap_object_offsets b) = ap_object_offsets a"
    by (rule ccontr, drule offd.widen_progress, use tight in linarith)
  moreover have "slice_join (ap_slice_footprint a) (ap_slice_footprint b) = ap_slice_footprint a"
    by (rule ccontr, drule slice_join_progress(2), use tight in linarith)
  moreover have "pd_join (ap_domain a) (ap_domain b) = ap_domain a"
    by (rule ccontr, drule pdd.widen_progress, use tight in linarith)
  moreover have "option_join (pp_object (ap_paths a)) (pp_object (ap_paths b)) = pp_object (ap_paths a)"
    by (rule ccontr, drule optd.widen_progress, use tight in linarith)
  moreover have "option_join (pp_domain (ap_paths a)) (pp_domain (ap_paths b)) = pp_domain (ap_paths a)"
    by (rule ccontr, drule optd.widen_progress, use tight in linarith)
  ultimately have "ap_widen a b = a" by (simp add: ap_widen_def pp)
  with assms show False ..
qed

lemma ap_flat_holds:
  assumes "ptr_holds a c \<or> ptr_holds b c"
  shows "prov_holds (prov_join (ap_provenance a) (ap_provenance b)) (cp_allocation c)"
    and "option_holds (\<lambda>e (\<rho>, v). ae_den \<rho> e = uint v)
      (option_join (ap_offset_expression a) (ap_offset_expression b)) (cp_env c, cp_offset c)"
    and "option_holds (=) (option_join (ap_access a) (ap_access b)) (cp_access c)"
    and "off_holds (off_join (ap_object_offsets a) (ap_object_offsets b)) (cp_offset c)"
    and "slice_holds (slice_join (ap_slice_footprint a) (ap_slice_footprint b)) (cp_env c, cp_slice c)"
    and "pd_holds (pd_join (ap_domain a) (ap_domain b)) (cp_env c, cp_extent c)"
    and "pp_holds (pp_join (ap_paths a) (ap_paths b)) (cp_object_path c, cp_domain_path c)"
proof -
  show "prov_holds (prov_join (ap_provenance a) (ap_provenance b)) (cp_allocation c)"
    by (rule provd.join_covers) (use assms in \<open>auto simp: ptr_holds_def\<close>)
  show "option_holds (\<lambda>e (\<rho>, v). ae_den \<rho> e = uint v)
      (option_join (ap_offset_expression a) (ap_offset_expression b)) (cp_env c, cp_offset c)"
    by (rule optd.join_covers) (use assms in \<open>auto simp: ptr_holds_def\<close>)
  show "option_holds (=) (option_join (ap_access a) (ap_access b)) (cp_access c)"
    by (rule optd.join_covers) (use assms in \<open>auto simp: ptr_holds_def\<close>)
  show "off_holds (off_join (ap_object_offsets a) (ap_object_offsets b)) (cp_offset c)"
    by (rule offd.join_covers) (use assms in \<open>auto simp: ptr_holds_def\<close>)
  show "slice_holds (slice_join (ap_slice_footprint a) (ap_slice_footprint b)) (cp_env c, cp_slice c)"
    by (rule slice_join_holds) (use assms in \<open>auto simp: ptr_holds_def\<close>)
  show "pd_holds (pd_join (ap_domain a) (ap_domain b)) (cp_env c, cp_extent c)"
    by (rule pdd.join_covers) (use assms in \<open>auto simp: ptr_holds_def\<close>)
  show "pp_holds (pp_join (ap_paths a) (ap_paths b)) (cp_object_path c, cp_domain_path c)"
    by (rule pp_join_holds) (use assms in \<open>auto simp: ptr_holds_def\<close>)
qed

lemma ap_join_holds:
  assumes "ptr_wf a" and "ptr_wf b" and "ptr_holds a c \<or> ptr_holds b c"
  shows "ptr_holds (ap_join a b) c" and "ptr_holds (ap_widen a b) c"
proof -
  have iv: "iv_wf (ap_offset_bytes a)" "iv_wf (ap_offset_bytes b)"
    "iv_contains (ap_offset_bytes a) (cp_offset c) \<or> iv_contains (ap_offset_bytes b) (cp_offset c)"
    using assms by (auto simp: ptr_wf_def ptr_holds_def)
  have ga: "ga_wf (ap_alignment a)" "ga_wf (ap_alignment b)"
    "ga_holds (ap_alignment a) (cp_address c) \<or> ga_holds (ap_alignment b) (cp_address c)"
    using assms by (auto simp: ptr_wf_def ptr_holds_def)
  have "iv_contains (iv_join (ap_offset_bytes a) (ap_offset_bytes b)) (cp_offset c)"
    "iv_contains (iv_widen (ap_offset_bytes a) (ap_offset_bytes b)) (cp_offset c)"
    "ga_holds (ga_join (ap_alignment a) (ap_alignment b)) (cp_address c)"
    using iv ga ivd.join_left ivd.join_right ivd.widen_left ivd.widen_right gad.join_left gad.join_right by blast+
  then show "ptr_holds (ap_join a b) c" "ptr_holds (ap_widen a b) c"
    using ap_flat_holds [OF assms(3)] by (simp_all add: ptr_holds_def ap_join_def ap_widen_def)
qed

interpretation apd: widening_domain ptr_wf ptr_holds ap_join ap_widen ptr_height
proof unfold_locales
  fix a b :: abstract_pointer and c :: pointer_state
  assume wf: "ptr_wf a" "ptr_wf b"
  then show "ptr_wf (ap_join a b)" "ptr_wf (ap_widen a b)"
    using ivd.join_wf ivd.widen_wf gad.join_wf by (simp_all add: ptr_wf_def ap_join_def ap_widen_def)
  show "ptr_holds a c \<Longrightarrow> ptr_holds (ap_join a b) c" "ptr_holds b c \<Longrightarrow> ptr_holds (ap_join a b) c"
    "ptr_holds a c \<Longrightarrow> ptr_holds (ap_widen a b) c" "ptr_holds b c \<Longrightarrow> ptr_holds (ap_widen a b) c"
    using ap_join_holds [OF wf] by blast+
qed (rule ap_widen_progress)

section \<open>Offsets are followed exactly\<close>

definition off_wf :: "abstract_object_offsets \<Rightarrow> bool" where
  "off_wf offs = (case offs of OffStrided first stride count \<Rightarrow> count \<le> VERIFIER_OBJECT_OFFSET_MAX_CANDIDATES | _ \<Rightarrow> True)"

lemma option_map_list_set:
  "option_map_list f xs = Some ys \<Longrightarrow> length ys = length xs \<and> (y \<in> set ys \<longleftrightarrow> (\<exists>x \<in> set xs. f x = Some y))"
  by (induction xs arbitrary: ys) (auto simp: Option.bind_eq_Some_conv)

lemma uint_small_nat: "n \<le> 256 \<Longrightarrow> uint (of_nat n :: u64) = int n"
  using uint_of_nat_small [of n] by (simp add: at_byte_def)

lemma candidate_value:
  assumes "i \<le> 256"
  shows "Option.bind (u64_checked_mul (of_nat i) stride) (\<lambda>m. u64_checked_add m first) = Some c \<longleftrightarrow>
    uint c = uint first + int i * uint stride"
proof
  assume "Option.bind (u64_checked_mul (of_nat i) stride) (\<lambda>m. u64_checked_add m first) = Some c"
  then show "uint c = uint first + int i * uint stride"
    using uint_small_nat [OF assms] by (auto simp: Option.bind_eq_Some_conv dest!: checked_arith)
next
  assume c: "uint c = uint first + int i * uint stride"
  have less: "uint first + int i * uint stride < 2 ^ 64" using c uint_u64_bound [of c] by simp
  have mul: "u64_checked_mul (of_nat i) stride = Some (of_nat i * stride)"
    using le_less_trans [OF _ less, of "int i * uint stride"] uint_small_nat [OF assms]
    by (simp add: u64_checked_mul_def)
  then have m: "uint (of_nat i * stride) = int i * uint stride"
    using u64_checked_mul_Some uint_small_nat [OF assms] by fastforce
  have "uint (of_nat i * stride + first) = uint c"
    using uint_add_u64 [of "of_nat i * stride" first] m less c by simp
  then have "of_nat i * stride + first = c" by (rule word_uint_eqI)
  then show "Option.bind (u64_checked_mul (of_nat i) stride) (\<lambda>m. u64_checked_add m first) = Some c"
    using mul m less by (simp add: u64_checked_add_def)
qed

lemma off_candidates_exact:
  assumes "off_wf offs" and "off_candidates offs = Some cs"
  shows "off_holds offs c \<longleftrightarrow> c \<in> set cs" and "length cs \<le> 256"
proof -
  have "(off_holds offs c \<longleftrightarrow> c \<in> set cs) \<and> length cs \<le> 256"
  proof (cases offs)
    case (OffStrided first stride count)
    have n: "count \<le> 256" using assms(1) OffStrided by (simp add: off_wf_def VERIFIER_OBJECT_OFFSET_MAX_CANDIDATES_def)
    note cs = option_map_list_set [OF assms(2) [unfolded OffStrided off_candidates.simps]]
    have "off_holds offs c \<longleftrightarrow> (\<exists>i \<in> set [0..<count]. uint c = uint first + int i * uint stride)"
      by (simp add: OffStrided)
    also have "\<dots> \<longleftrightarrow> c \<in> set cs" using cs [of c] candidate_value [of _ stride first c] n by auto
    finally show ?thesis using cs n by simp
  qed (use assms in auto)
  then show "off_holds offs c \<longleftrightarrow> c \<in> set cs" "length cs \<le> 256" by auto
qed

lemma offset_by_exact_holds:
  assumes "off_holds offs c" and "uint c' = uint c + uint delta"
  shows "off_holds (offset_by_exact offs delta) c'"
proof (cases offs)
  case (OffExact v)
  have "u64_checked_add v delta = Some c'"
    using assms OffExact uint_u64_bound [of c'] by (auto simp: u64_checked_add_def uint_add_u64 intro: word_uint_eqI)
  then show ?thesis by (simp add: OffExact)
next
  case (OffStrided first stride count)
  then show ?thesis using assms by (auto split: option.splits dest!: checked_arith)
qed simp

lemma offset_by_index_cases:
  "offset_by_index offs indices stride = OffUnknown \<or>
   (\<exists>base first (count :: u64). offs = OffExact base \<and> uint first = uint base + uint (iv_lower indices) * uint stride \<and>
      uint count = uint (iv_upper indices) - uint (iv_lower indices) + 1 \<and> iv_wf indices \<and> unat count \<le> 256 \<and>
      offset_by_index offs indices stride = (if count = 1 then OffExact first else OffStrided first stride (unat count)))"
proof (cases "offset_by_index offs indices stride = OffUnknown")
  case False
  then obtain w count delta base first where
    steps: "u64_checked_sub (iv_upper indices) (iv_lower indices) = Some w" "u64_checked_add w 1 = Some count"
      "\<not> count > of_nat VERIFIER_OBJECT_OFFSET_MAX_CANDIDATES" "u64_checked_mul (iv_lower indices) stride = Some delta"
      "offs = OffExact base" "u64_checked_add base delta = Some first"
    by (auto simp: offset_by_index_def Option.bind_eq_Some_conv split: option.splits if_splits abstract_object_offsets.splits)
  have "unat count \<le> 256"
    using steps(3) by (simp add: VERIFIER_OBJECT_OFFSET_MAX_CANDIDATES_def not_less word_le_nat_alt)
  moreover have "iv_wf indices" using steps(1) by (simp add: u64_checked_sub_def iv_wf_def split: if_splits)
  moreover have "uint first = uint base + uint (iv_lower indices) * uint stride"
    using steps by (auto dest!: checked_arith)
  moreover have "uint count = uint (iv_upper indices) - uint (iv_lower indices) + 1"
    using steps(1,2) by (auto dest!: checked_arith)
  moreover have "offset_by_index offs indices stride = (if count = 1 then OffExact first else OffStrided first stride (unat count))"
    using steps by (simp add: offset_by_index_def)
  ultimately show ?thesis using steps(5) by blast
qed simp

lemma offset_by_index_holds:
  assumes "off_holds offs c" and "iv_contains indices i" and "uint c' = uint c + uint i * uint stride"
  shows "off_holds (offset_by_index offs indices stride) c'" and "off_wf (offset_by_index offs indices stride)"
proof -
  consider "offset_by_index offs indices stride = OffUnknown" |
    base first and count :: u64 where "offs = OffExact base" "uint first = uint base + uint (iv_lower indices) * uint stride"
      "uint count = uint (iv_upper indices) - uint (iv_lower indices) + 1" "iv_wf indices" "unat count \<le> 256"
      "offset_by_index offs indices stride = (if count = 1 then OffExact first else OffStrided first stride (unat count))"
    using offset_by_index_cases [of offs indices stride] by blast
  then have "off_holds (offset_by_index offs indices stride) c' \<and> off_wf (offset_by_index offs indices stride)"
  proof cases
    case 2
    have i: "uint (iv_lower indices) \<le> uint i" "uint i \<le> uint (iv_upper indices)"
      using assms(2) by (auto simp: iv_contains_def word_le_def)
    have c: "uint c = uint base" using assms(1) 2(1) by simp
    let ?k = "nat (uint i - uint (iv_lower indices))"
    have "uint c' = uint first + int ?k * uint stride"
      using i assms(3) 2(2) c by (simp add: algebra_simps)
    moreover have "?k < unat count" using i 2(3) by (simp add: nat_less_iff unat_eq_nat_uint)
    ultimately show ?thesis
      using 2(5,6) by (auto simp: off_wf_def VERIFIER_OBJECT_OFFSET_MAX_CANDIDATES_def intro!: word_uint_eqI bexI [of _ ?k])
  qed (simp add: off_wf_def)
  then show "off_holds (offset_by_index offs indices stride) c'" "off_wf (offset_by_index offs indices stride)" by auto
qed

section \<open>Properties\<close>

text \<open>Dynamic indexing enumerates the right subobjects. When the candidates of an indexed offset can
  be listed, the list holds exactly the offsets that some index of the interval can reach, and it has at
  most 256 entries; an interval too wide or an overflowing offset gives no list at all.\<close>

theorem offset_candidates_exact:
  assumes "off_candidates (offset_by_index (OffExact base) indices stride) = Some cs"
  shows "length cs \<le> 256 \<and>
    (\<forall>c. c \<in> set cs \<longleftrightarrow> (\<exists>i. iv_contains indices i \<and> uint c = uint base + uint i * uint stride))"
proof -
  let ?o = "offset_by_index (OffExact base) indices stride"
  obtain first and count :: u64 where o: "uint first = uint base + uint (iv_lower indices) * uint stride"
      "uint count = uint (iv_upper indices) - uint (iv_lower indices) + 1" "iv_wf indices" "unat count \<le> 256"
      "?o = (if count = 1 then OffExact first else OffStrided first stride (unat count))"
    using offset_by_index_cases [of "OffExact base" indices stride] assms by force
  have wf: "off_wf ?o" using o(4,5) by (simp add: off_wf_def VERIFIER_OBJECT_OFFSET_MAX_CANDIDATES_def)
  have "\<exists>i. iv_contains indices i \<and> uint c = uint base + uint i * uint stride" if h: "off_holds ?o c" for c
  proof -
    obtain k where k: "k < unat count" "uint c = uint first + int k * uint stride"
      using h o(5) unat_gt_0 [of count] by (cases "count = 1") (auto simp: unat_gt_0)
    have le: "uint (iv_lower indices) + int k \<le> uint (iv_upper indices)"
      using k(1) o(2) by (simp add: unat_eq_nat_uint)
    then have u: "uint (iv_lower indices + of_nat k) = uint (iv_lower indices) + int k"
      using uint_small_nat [of k] k(1) o(4) uint_u64_bound [of "iv_upper indices"]
        uint_add_u64 [of "iv_lower indices" "of_nat k"] by simp
    then show ?thesis
      using le k(2) o(1) by (intro exI [of _ "iv_lower indices + of_nat k"])
        (simp add: iv_contains_def word_le_def algebra_simps)
  qed
  moreover have "off_holds ?o c" if "iv_contains indices i" "uint c = uint base + uint i * uint stride" for c i
    by (rule offset_by_index_holds(1) [of _ base _ i]) (use that in simp_all)
  ultimately show ?thesis using off_candidates_exact [OF wf assms] by blast
qed

theorem offset_candidates_exact_witness:
  "off_candidates (offset_by_index (OffExact 16) \<lparr>iv_lower = 1, iv_upper = 3\<rparr> 8) = Some [24, 32, 40] \<and>
   length [24 :: u64, 32, 40] \<le> 256 \<and>
   (\<forall>c. c \<in> set [24 :: u64, 32, 40] \<longleftrightarrow>
     (\<exists>i. iv_contains \<lparr>iv_lower = 1, iv_upper = 3\<rparr> i \<and> uint c = uint (16 :: u64) + uint i * uint (8 :: u64)))"
proof -
  have run: "off_candidates (offset_by_index (OffExact 16) \<lparr>iv_lower = 1, iv_upper = 3\<rparr> 8) = Some [24, 32, 40]"
    by code_simp
  show ?thesis using offset_candidates_exact [OF run] run by blast
qed

end
