(* ===== verification/Abstract_Value.thy ===== *)
theory Abstract_Value
  imports Abstract_Pointer
begin

text \<open>
  Permissions and loans of \<open>src/src/verifier/resource/loan.rs\<close> and the typed value facts of
  \<open>src/src/verifier/resource/scalar.rs\<close>. A join that cannot be formed returns the error of
  \<open>src/src/verifier/resource/state.rs\<close>. The enumerations are flat domains; a permission joins field
  by field; a value joins and widens within its kind.
\<close>

section \<open>Errors\<close>

datatype resource_join_error =
    PredicateStateMismatch
  | AllocationInstanceBudget
  | AllocationRegionMismatch abstract_allocation_id
  | AllocationSizeMismatch abstract_allocation_id
  | AllocationAlignmentMismatch abstract_allocation_id
  | ValueKindMismatch vir_value_id
  | LoanMetadataMismatch u32

section \<open>Permission facts\<close>

datatype access_permission = APRead | APWrite | APMaybeWrite

definition acc_join :: "access_permission \<Rightarrow> access_permission \<Rightarrow> access_permission" where
  "acc_join a b =
     (if (a = APRead \<and> b = APRead) \<or> (a = APWrite \<and> b = APWrite) \<or> (a = APMaybeWrite \<and> b = APMaybeWrite)
      then a else APMaybeWrite)"

datatype free_capability = FreeYes | FreeNo | FreeMaybe

definition free_join :: "free_capability \<Rightarrow> free_capability \<Rightarrow> free_capability" where
  "free_join a b = (if (a = FreeYes \<and> b = FreeYes) \<or> (a = FreeNo \<and> b = FreeNo) then a else FreeMaybe)"

datatype permission_availability = Available | Consumed | MaybeConsumed

definition avail_join :: "permission_availability \<Rightarrow> permission_availability \<Rightarrow> permission_availability" where
  "avail_join a b =
     (if (a = Available \<and> b = Available) \<or> (a = Consumed \<and> b = Consumed) then a else MaybeConsumed)"

datatype permission_authority = AuthOwner | AuthLoan u32 | AuthUnknown

definition auth_join :: "permission_authority \<Rightarrow> permission_authority \<Rightarrow> permission_authority" where
  "auth_join a b =
     (if (a = AuthOwner \<and> b = AuthOwner) \<or> (a = AuthUnknown \<and> b = AuthUnknown) then a
      else case (a, b) of (AuthLoan l, AuthLoan r) \<Rightarrow> if l = r then a else AuthUnknown | _ \<Rightarrow> AuthUnknown)"

record abstract_permission =
  perm_provenance :: abstract_provenance
  perm_range :: abstract_byte_range
  perm_access :: access_permission
  perm_free :: free_capability
  perm_availability :: permission_availability
  perm_authority :: permission_authority

definition perm_new ::
  "abstract_provenance \<Rightarrow> abstract_byte_range \<Rightarrow> access_permission \<Rightarrow> free_capability \<Rightarrow> abstract_permission" where
  "perm_new provenance rg access free =
     \<lparr>perm_provenance = provenance, perm_range = rg, perm_access = access, perm_free = free,
      perm_availability = Available, perm_authority = AuthOwner\<rparr>"

definition perm_with_availability :: "abstract_permission \<Rightarrow> permission_availability \<Rightarrow> abstract_permission" where
  "perm_with_availability p a = p\<lparr>perm_availability := a\<rparr>"

definition perm_with_authority :: "abstract_permission \<Rightarrow> permission_authority \<Rightarrow> abstract_permission" where
  "perm_with_authority p a = p\<lparr>perm_authority := a\<rparr>"

definition perm_mark_consumed :: "abstract_permission \<Rightarrow> abstract_permission" where
  "perm_mark_consumed p = p\<lparr>perm_availability := Consumed\<rparr>"

definition perm_join :: "abstract_permission \<Rightarrow> abstract_permission \<Rightarrow> abstract_permission" where
  "perm_join a b =
     \<lparr>perm_provenance = prov_join (perm_provenance a) (perm_provenance b),
      perm_range = abr_join (perm_range a) (perm_range b),
      perm_access = acc_join (perm_access a) (perm_access b),
      perm_free = free_join (perm_free a) (perm_free b),
      perm_availability = avail_join (perm_availability a) (perm_availability b),
      perm_authority = auth_join (perm_authority a) (perm_authority b)\<rparr>"

section \<open>Loans\<close>

datatype loan_activity = LoanActive | LoanSuspended | LoanEnded | LoanMaybeActive

definition loan_activity_join :: "loan_activity \<Rightarrow> loan_activity \<Rightarrow> loan_activity" where
  "loan_activity_join a b =
     (if (a = LoanActive \<and> b = LoanActive) \<or> (a = LoanSuspended \<and> b = LoanSuspended) \<or>
         (a = LoanEnded \<and> b = LoanEnded) \<or> (a = LoanMaybeActive \<and> b = LoanMaybeActive)
      then a else LoanMaybeActive)"

record resource_payload_key =
  pk_offset_bytes :: u64
  pk_access :: vir_memory_access

datatype abstract_loan_authority =
    AuthorityValue vir_value_id
  | AuthorityStored abstract_allocation_id resource_payload_key

datatype vir_loan_kind = LoanShared | LoanMutable

record abstract_loan =
  al_provenance :: abstract_provenance
  al_range :: byte_range
  al_footprint :: "memory_footprint option"
  al_kind :: vir_loan_kind
  al_region :: u32
  al_parent :: "u32 option"
  al_activity :: loan_activity
  al_authorities :: "abstract_loan_authority set"

definition al_new ::
  "abstract_provenance \<Rightarrow> byte_range \<Rightarrow> vir_loan_kind \<Rightarrow> u32 \<Rightarrow> u32 option \<Rightarrow> loan_activity \<Rightarrow> abstract_loan" where
  "al_new provenance rg kind region parent activity =
     \<lparr>al_provenance = provenance, al_range = rg, al_footprint = None, al_kind = kind, al_region = region,
      al_parent = parent, al_activity = activity, al_authorities = {}\<rparr>"

definition al_with_footprint :: "abstract_loan \<Rightarrow> memory_footprint option \<Rightarrow> abstract_loan" where
  "al_with_footprint l f = l\<lparr>al_footprint := f\<rparr>"

definition al_actual_range :: "abstract_loan \<Rightarrow> abstract_byte_range" where
  "al_actual_range l = (case al_footprint l of None \<Rightarrow> RUnknown | Some f \<Rightarrow> fp_range f)"

definition al_set_activity :: "loan_activity \<Rightarrow> abstract_loan \<Rightarrow> abstract_loan" where
  "al_set_activity a l = l\<lparr>al_activity := a\<rparr>"

definition insert_authority :: "abstract_loan_authority \<Rightarrow> abstract_loan \<Rightarrow> abstract_loan" where
  "insert_authority a l = l\<lparr>al_authorities := insert a (al_authorities l)\<rparr>"

definition drop_authority :: "abstract_loan_authority \<Rightarrow> abstract_loan \<Rightarrow> bool \<times> abstract_loan" where
  "drop_authority a l = (a \<in> al_authorities l, l\<lparr>al_authorities := al_authorities l - {a}\<rparr>)"

definition replace_authority ::
  "abstract_loan_authority \<Rightarrow> abstract_loan_authority \<Rightarrow> abstract_loan \<Rightarrow> bool \<times> abstract_loan" where
  "replace_authority source result l =
     (case drop_authority source l of
        (False, l') \<Rightarrow> (False, l')
      | (True, l') \<Rightarrow> (True, insert_authority result l'))"

definition al_add_authority :: "vir_value_id \<Rightarrow> abstract_loan \<Rightarrow> abstract_loan" where
  "al_add_authority v l = insert_authority (AuthorityValue v) l"

definition al_remove_authority :: "vir_value_id \<Rightarrow> abstract_loan \<Rightarrow> bool \<times> abstract_loan" where
  "al_remove_authority v l = drop_authority (AuthorityValue v) l"

definition al_move_authority :: "vir_value_id \<Rightarrow> vir_value_id \<Rightarrow> abstract_loan \<Rightarrow> bool \<times> abstract_loan" where
  "al_move_authority source result l = replace_authority (AuthorityValue source) (AuthorityValue result) l"

definition has_value_authority :: "abstract_loan \<Rightarrow> vir_value_id \<Rightarrow> bool" where
  "has_value_authority l v = (AuthorityValue v \<in> al_authorities l)"

definition move_authority_to_storage ::
  "vir_value_id \<Rightarrow> abstract_allocation_id \<Rightarrow> resource_payload_key \<Rightarrow> abstract_loan \<Rightarrow> bool \<times> abstract_loan" where
  "move_authority_to_storage source allocation payload l =
     replace_authority (AuthorityValue source) (AuthorityStored allocation payload) l"

definition move_authority_from_storage ::
  "abstract_allocation_id \<Rightarrow> resource_payload_key \<Rightarrow> vir_value_id \<Rightarrow> abstract_loan \<Rightarrow> bool \<times> abstract_loan" where
  "move_authority_from_storage allocation payload result l =
     replace_authority (AuthorityStored allocation payload) (AuthorityValue result) l"

definition add_stored_authority ::
  "abstract_allocation_id \<Rightarrow> resource_payload_key \<Rightarrow> abstract_loan \<Rightarrow> abstract_loan" where
  "add_stored_authority allocation payload l = insert_authority (AuthorityStored allocation payload) l"

definition remove_stored_authority ::
  "abstract_allocation_id \<Rightarrow> resource_payload_key \<Rightarrow> abstract_loan \<Rightarrow> bool \<times> abstract_loan" where
  "remove_stored_authority allocation payload l = drop_authority (AuthorityStored allocation payload) l"

definition move_stored_authority ::
  "abstract_allocation_id \<Rightarrow> resource_payload_key \<Rightarrow> abstract_allocation_id \<Rightarrow> resource_payload_key \<Rightarrow>
    abstract_loan \<Rightarrow> bool \<times> abstract_loan" where
  "move_stored_authority sa sp da dp l = replace_authority (AuthorityStored sa sp) (AuthorityStored da dp) l"

definition al_join :: "abstract_loan \<Rightarrow> abstract_loan \<Rightarrow> u32 \<Rightarrow> resource_join_error + abstract_loan" where
  "al_join a b loan =
     (if al_range a \<noteq> al_range b \<or> al_kind a \<noteq> al_kind b \<or> al_region a \<noteq> al_region b \<or> al_parent a \<noteq> al_parent b
      then Inl (LoanMetadataMismatch loan)
      else Inr (a\<lparr>al_provenance := prov_join (al_provenance a) (al_provenance b),
                  al_footprint := slice_join (al_footprint a) (al_footprint b),
                  al_activity := loan_activity_join (al_activity a) (al_activity b),
                  al_authorities := al_authorities a \<union> al_authorities b\<rparr>))"

definition al_join_absent :: "abstract_loan \<Rightarrow> abstract_loan" where
  "al_join_absent l = (if al_activity l \<noteq> LoanEnded then l\<lparr>al_activity := LoanMaybeActive\<rparr> else l)"

section \<open>Values\<close>

record enum_discriminant_fact =
  ed_interval :: u64_interval
  ed_pointer :: abstract_pointer
  ed_access :: vir_memory_access

definition ed_join :: "enum_discriminant_fact \<Rightarrow> enum_discriminant_fact \<Rightarrow> enum_discriminant_fact option" where
  "ed_join a b =
     (if ed_access a = ed_access b
      then Some \<lparr>ed_interval = iv_join (ed_interval a) (ed_interval b),
                 ed_pointer = ap_join (ed_pointer a) (ed_pointer b), ed_access = ed_access a\<rparr>
      else None)"

definition ed_widen :: "enum_discriminant_fact \<Rightarrow> enum_discriminant_fact \<Rightarrow> enum_discriminant_fact option" where
  "ed_widen a b =
     (if ed_access a = ed_access b
      then Some \<lparr>ed_interval = iv_widen (ed_interval a) (ed_interval b),
                 ed_pointer = ap_widen (ed_pointer a) (ed_pointer b), ed_access = ed_access a\<rparr>
      else None)"

datatype abstract_value =
    AVU64 u64_interval
  | AVEnumDiscriminant enum_discriminant_fact
  | AVBool abstract_bool
  | AVPointer abstract_pointer
  | AVPermission abstract_permission

fun aval_join :: "abstract_value \<Rightarrow> abstract_value \<Rightarrow> vir_value_id \<Rightarrow> resource_join_error + abstract_value" where
  "aval_join (AVU64 l) (AVU64 r) v = Inr (AVU64 (iv_join l r))"
| "aval_join (AVEnumDiscriminant l) (AVEnumDiscriminant r) v =
     Inr (case ed_join l r of None \<Rightarrow> AVU64 (iv_join (ed_interval l) (ed_interval r)) | Some f \<Rightarrow> AVEnumDiscriminant f)"
| "aval_join (AVEnumDiscriminant l) (AVU64 r) v = Inr (AVU64 (iv_join (ed_interval l) r))"
| "aval_join (AVU64 r) (AVEnumDiscriminant l) v = Inr (AVU64 (iv_join (ed_interval l) r))"
| "aval_join (AVBool l) (AVBool r) v = Inr (AVBool (ab_join l r))"
| "aval_join (AVPointer l) (AVPointer r) v = Inr (AVPointer (ap_join l r))"
| "aval_join (AVPermission l) (AVPermission r) v = Inr (AVPermission (perm_join l r))"
| "aval_join _ _ v = Inl (ValueKindMismatch v)"

fun aval_widen :: "abstract_value \<Rightarrow> abstract_value \<Rightarrow> vir_value_id \<Rightarrow> resource_join_error + abstract_value" where
  "aval_widen (AVU64 c) (AVU64 n) v = Inr (AVU64 (iv_widen c n))"
| "aval_widen (AVEnumDiscriminant c) (AVEnumDiscriminant n) v =
     Inr (case ed_widen c n of None \<Rightarrow> AVU64 (iv_widen (ed_interval c) (ed_interval n)) | Some f \<Rightarrow> AVEnumDiscriminant f)"
| "aval_widen (AVEnumDiscriminant c) (AVU64 n) v = Inr (AVU64 (iv_widen (ed_interval c) n))"
| "aval_widen (AVU64 c) (AVEnumDiscriminant n) v = Inr (AVU64 (iv_widen c (ed_interval n)))"
| "aval_widen (AVBool c) (AVBool n) v = Inr (AVBool (ab_join c n))"
| "aval_widen (AVPointer c) (AVPointer n) v = Inr (AVPointer (ap_widen c n))"
| "aval_widen (AVPermission c) (AVPermission n) v = Inr (AVPermission (perm_join c n))"
| "aval_widen _ _ v = Inl (ValueKindMismatch v)"

section \<open>What the facts stand for\<close>

fun acc_holds :: "access_permission \<Rightarrow> bool \<Rightarrow> bool" where
  "acc_holds APRead writable = (\<not> writable)"
| "acc_holds APWrite writable = writable"
| "acc_holds APMaybeWrite writable = True"

fun free_holds :: "free_capability \<Rightarrow> bool \<Rightarrow> bool" where
  "free_holds FreeYes can = can"
| "free_holds FreeNo can = (\<not> can)"
| "free_holds FreeMaybe can = True"

fun avail_holds :: "permission_availability \<Rightarrow> bool \<Rightarrow> bool" where
  "avail_holds Available usable = usable"
| "avail_holds Consumed usable = (\<not> usable)"
| "avail_holds MaybeConsumed usable = True"

fun auth_holds :: "permission_authority \<Rightarrow> u32 option \<Rightarrow> bool" where
  "auth_holds AuthOwner a = (a = None)"
| "auth_holds (AuthLoan l) a = (a = Some l)"
| "auth_holds AuthUnknown a = True"

fun loan_activity_holds :: "loan_activity \<Rightarrow> loan_activity \<Rightarrow> bool" where
  "loan_activity_holds LoanMaybeActive c = True"
| "loan_activity_holds a c = (a = c)"

interpretation accd: flat_domain acc_holds acc_join APMaybeWrite
proof unfold_locales
  fix a b :: access_permission
  show "acc_join a b = (if a = b then a else APMaybeWrite)" by (cases a; cases b) (simp_all add: acc_join_def)
qed simp

interpretation freed: flat_domain free_holds free_join FreeMaybe
proof unfold_locales
  fix a b :: free_capability
  show "free_join a b = (if a = b then a else FreeMaybe)" by (cases a; cases b) (simp_all add: free_join_def)
qed simp

interpretation availd: flat_domain avail_holds avail_join MaybeConsumed
proof unfold_locales
  fix a b :: permission_availability
  show "avail_join a b = (if a = b then a else MaybeConsumed)" by (cases a; cases b) (simp_all add: avail_join_def)
qed simp

interpretation authd: flat_domain auth_holds auth_join AuthUnknown
proof unfold_locales
  fix a b :: permission_authority
  show "auth_join a b = (if a = b then a else AuthUnknown)" by (cases a; cases b) (simp_all add: auth_join_def)
qed simp

interpretation lad: flat_domain loan_activity_holds loan_activity_join LoanMaybeActive
proof unfold_locales
  fix a b :: loan_activity
  show "loan_activity_join a b = (if a = b then a else LoanMaybeActive)"
    by (cases a; cases b) (simp_all add: loan_activity_join_def)
qed simp

record permission_state =
  cm_env :: "vir_value_id \<Rightarrow> int"
  cm_allocation :: abstract_allocation_id
  cm_start :: u64
  cm_end :: u64
  cm_writable :: bool
  cm_can_free :: bool
  cm_usable :: bool
  cm_authority :: "u32 option"

definition perm_holds :: "abstract_permission \<Rightarrow> permission_state \<Rightarrow> bool" where
  "perm_holds p c =
     (prov_holds (perm_provenance p) (cm_allocation c) \<and>
      abr_holds (perm_range p) (cm_env c, cm_start c, cm_end c) \<and>
      acc_holds (perm_access p) (cm_writable c) \<and> free_holds (perm_free p) (cm_can_free c) \<and>
      avail_holds (perm_availability p) (cm_usable c) \<and> auth_holds (perm_authority p) (cm_authority c))"

definition perm_height :: "abstract_permission \<Rightarrow> nat" where
  "perm_height p =
     flat_height ProvUnknown (perm_provenance p) + flat_height RUnknown (perm_range p) +
     flat_height APMaybeWrite (perm_access p) + flat_height FreeMaybe (perm_free p) +
     flat_height MaybeConsumed (perm_availability p) + flat_height AuthUnknown (perm_authority p)"

lemma perm_join_holds:
  assumes "perm_holds a c \<or> perm_holds b c"
  shows "perm_holds (perm_join a b) c"
proof -
  have "prov_holds (prov_join (perm_provenance a) (perm_provenance b)) (cm_allocation c)"
    by (rule provd.join_covers) (use assms in \<open>auto simp: perm_holds_def\<close>)
  moreover have "abr_holds (abr_join (perm_range a) (perm_range b)) (cm_env c, cm_start c, cm_end c)"
    by (rule abrf.join_covers) (use assms in \<open>auto simp: perm_holds_def\<close>)
  moreover have "acc_holds (acc_join (perm_access a) (perm_access b)) (cm_writable c)"
    by (rule accd.join_covers) (use assms in \<open>auto simp: perm_holds_def\<close>)
  moreover have "free_holds (free_join (perm_free a) (perm_free b)) (cm_can_free c)"
    by (rule freed.join_covers) (use assms in \<open>auto simp: perm_holds_def\<close>)
  moreover have "avail_holds (avail_join (perm_availability a) (perm_availability b)) (cm_usable c)"
    by (rule availd.join_covers) (use assms in \<open>auto simp: perm_holds_def\<close>)
  moreover have "auth_holds (auth_join (perm_authority a) (perm_authority b)) (cm_authority c)"
    by (rule authd.join_covers) (use assms in \<open>auto simp: perm_holds_def\<close>)
  ultimately show ?thesis by (simp add: perm_holds_def perm_join_def)
qed

lemma perm_join_progress:
  assumes "perm_join a b \<noteq> a"
  shows "perm_height (perm_join a b) < perm_height a"
proof (rule ccontr)
  assume no: "\<not> perm_height (perm_join a b) < perm_height a"
  then have sum: "perm_height a \<le> perm_height (perm_join a b)" by simp
  note tight = sum [unfolded perm_height_def perm_join_def abstract_permission.select_convs]
    provd.height_le [of "perm_provenance a" "perm_provenance b"] abrf.height_le [of "perm_range a" "perm_range b"]
    accd.height_le [of "perm_access a" "perm_access b"] freed.height_le [of "perm_free a" "perm_free b"]
    availd.height_le [of "perm_availability a" "perm_availability b"]
    authd.height_le [of "perm_authority a" "perm_authority b"]
  have "prov_join (perm_provenance a) (perm_provenance b) = perm_provenance a"
    by (rule ccontr, drule provd.widen_progress, use tight in linarith)
  moreover have "abr_join (perm_range a) (perm_range b) = perm_range a"
    by (rule ccontr, drule abrf.widen_progress, use tight in linarith)
  moreover have "acc_join (perm_access a) (perm_access b) = perm_access a"
    by (rule ccontr, drule accd.widen_progress, use tight in linarith)
  moreover have "free_join (perm_free a) (perm_free b) = perm_free a"
    by (rule ccontr, drule freed.widen_progress, use tight in linarith)
  moreover have "avail_join (perm_availability a) (perm_availability b) = perm_availability a"
    by (rule ccontr, drule availd.widen_progress, use tight in linarith)
  moreover have "auth_join (perm_authority a) (perm_authority b) = perm_authority a"
    by (rule ccontr, drule authd.widen_progress, use tight in linarith)
  ultimately have "perm_join a b = a" by (simp add: perm_join_def)
  with assms show False ..
qed

interpretation permd: widening_domain "\<lambda>_. True" perm_holds perm_join perm_join perm_height
  by unfold_locales (simp_all add: perm_join_holds perm_join_progress)

section \<open>Loan carriers\<close>

record loan_state =
  cl_env :: "vir_value_id \<Rightarrow> int"
  cl_allocation :: abstract_allocation_id
  cl_slice :: "slice_state option"
  cl_activity :: loan_activity
  cl_carriers :: "abstract_loan_authority set"

definition loan_holds :: "abstract_loan \<Rightarrow> loan_state \<Rightarrow> bool" where
  "loan_holds l c =
     (prov_holds (al_provenance l) (cl_allocation c) \<and> slice_holds (al_footprint l) (cl_env c, cl_slice c) \<and>
      loan_activity_holds (al_activity l) (cl_activity c) \<and> cl_carriers c \<subseteq> al_authorities l)"

lemma replace_authority_spec:
  "replace_authority source result l =
     (if source \<in> al_authorities l
      then (True, l\<lparr>al_authorities := insert result (al_authorities l - {source})\<rparr>) else (False, l))"
  by (auto simp: replace_authority_def drop_authority_def insert_authority_def)

lemma replace_authority_card:
  assumes "finite (al_authorities l)" and "replace_authority source result l = (True, l')"
    and "result \<notin> al_authorities l \<or> result = source"
  shows "card (al_authorities l') = card (al_authorities l)"
proof -
  have "source \<in> al_authorities l" "l' = l\<lparr>al_authorities := insert result (al_authorities l - {source})\<rparr>"
    using assms(2) by (auto simp: replace_authority_spec split: if_splits)
  then show ?thesis
    using assms(1,3) card_Suc_Diff1 [of "al_authorities l" source] by (auto simp: insert_absorb)
qed

lemma replace_authority_holds:
  assumes "loan_holds l c" and "replace_authority source result l = (ok, l')"
    and "cl_carriers c' = (if source \<in> cl_carriers c then insert result (cl_carriers c - {source}) else cl_carriers c)"
    and "cl_env c' = cl_env c" "cl_allocation c' = cl_allocation c" "cl_slice c' = cl_slice c"
      "cl_activity c' = cl_activity c"
  shows "loan_holds l' c'"
  using assms by (auto simp: loan_holds_def replace_authority_spec split: if_splits)

lemma al_join_holds:
  assumes "al_join a b loan = Inr j" and "loan_holds a c \<or> loan_holds b c"
  shows "loan_holds j c"
proof -
  have j: "j = a\<lparr>al_provenance := prov_join (al_provenance a) (al_provenance b),
      al_footprint := slice_join (al_footprint a) (al_footprint b),
      al_activity := loan_activity_join (al_activity a) (al_activity b),
      al_authorities := al_authorities a \<union> al_authorities b\<rparr>"
    using assms(1) by (simp add: al_join_def split: if_splits)
  have "prov_holds (prov_join (al_provenance a) (al_provenance b)) (cl_allocation c)"
    by (rule provd.join_covers) (use assms(2) in \<open>auto simp: loan_holds_def\<close>)
  moreover have "slice_holds (slice_join (al_footprint a) (al_footprint b)) (cl_env c, cl_slice c)"
    by (rule slice_join_holds) (use assms(2) in \<open>auto simp: loan_holds_def\<close>)
  moreover have "loan_activity_holds (loan_activity_join (al_activity a) (al_activity b)) (cl_activity c)"
    by (rule lad.join_covers) (use assms(2) in \<open>auto simp: loan_holds_def\<close>)
  ultimately show ?thesis using assms(2) by (auto simp: loan_holds_def j)
qed

lemma al_join_absent_holds:
  "loan_holds l c \<Longrightarrow> loan_holds (al_join_absent l) c"
  "prov_holds (al_provenance l) (cl_allocation c) \<Longrightarrow> slice_holds (al_footprint l) (cl_env c, cl_slice c) \<Longrightarrow>
    cl_activity c = LoanEnded \<Longrightarrow> cl_carriers c = {} \<Longrightarrow> loan_holds (al_join_absent l) c"
  by (auto simp: loan_holds_def al_join_absent_def)

section \<open>Typed values\<close>

datatype runtime_value =
    RVWord u64 "(pointer_state \<times> vir_memory_access) option"
  | RVBool bool
  | RVPointer pointer_state
  | RVPermission permission_state

fun aval_holds :: "abstract_value \<Rightarrow> runtime_value \<Rightarrow> bool" where
  "aval_holds (AVU64 i) (RVWord v tag) = iv_contains i v"
| "aval_holds (AVEnumDiscriminant f) (RVWord v tag) =
     (iv_contains (ed_interval f) v \<and>
      (case tag of None \<Rightarrow> False | Some (p, access) \<Rightarrow> ptr_holds (ed_pointer f) p \<and> access = ed_access f))"
| "aval_holds (AVBool b) (RVBool v) = ab_contains b v"
| "aval_holds (AVPointer p) (RVPointer c) = ptr_holds p c"
| "aval_holds (AVPermission p) (RVPermission c) = perm_holds p c"
| "aval_holds _ _ = False"

datatype value_kind = WordKind | BoolKind | PointerKind | PermissionKind

fun aval_kind :: "abstract_value \<Rightarrow> value_kind" where
  "aval_kind (AVU64 _) = WordKind"
| "aval_kind (AVEnumDiscriminant _) = WordKind"
| "aval_kind (AVBool _) = BoolKind"
| "aval_kind (AVPointer _) = PointerKind"
| "aval_kind (AVPermission _) = PermissionKind"

fun aval_wf :: "abstract_value \<Rightarrow> bool" where
  "aval_wf (AVU64 i) = iv_wf i"
| "aval_wf (AVEnumDiscriminant f) = (iv_wf (ed_interval f) \<and> ptr_wf (ed_pointer f))"
| "aval_wf (AVPointer p) = ptr_wf p"
| "aval_wf _ = True"

fun aval_height :: "abstract_value \<Rightarrow> nat" where
  "aval_height (AVU64 i) = iv_height i"
| "aval_height (AVEnumDiscriminant f) = 1 + iv_height (ed_interval f) + ptr_height (ed_pointer f)"
| "aval_height (AVBool b) = ab_height b"
| "aval_height (AVPointer p) = ptr_height p"
| "aval_height (AVPermission p) = perm_height p"

lemma iv_widen_height: "iv_height (iv_widen a b) \<le> iv_height a"
  using iv_widen_progress [of a b] by (cases "iv_widen a b = a") auto

lemma ap_widen_height: "ptr_height (ap_widen a b) \<le> ptr_height a"
  using ap_widen_progress [of a b] by (cases "ap_widen a b = a") auto

lemma ed_widen_progress:
  assumes "ed_widen a b = Some f" and "f \<noteq> a"
  shows "iv_height (ed_interval f) + ptr_height (ed_pointer f) < iv_height (ed_interval a) + ptr_height (ed_pointer a)"
proof -
  have f: "f = \<lparr>ed_interval = iv_widen (ed_interval a) (ed_interval b),
      ed_pointer = ap_widen (ed_pointer a) (ed_pointer b), ed_access = ed_access a\<rparr>"
    using assms(1) by (simp add: ed_widen_def split: if_splits)
  then have "iv_widen (ed_interval a) (ed_interval b) \<noteq> ed_interval a \<or> ap_widen (ed_pointer a) (ed_pointer b) \<noteq> ed_pointer a"
    using assms(2) by auto
  then show ?thesis
    using iv_widen_progress [of "ed_interval a" "ed_interval b"] ap_widen_progress [of "ed_pointer a" "ed_pointer b"]
      iv_widen_height [of "ed_interval a" "ed_interval b"] ap_widen_height [of "ed_pointer a" "ed_pointer b"]
    by (auto simp: f)
qed

lemmas value_laws = ivd.join_wf ivd.widen_wf ivd.join_left ivd.join_right ivd.widen_left ivd.widen_right
  apd.join_wf apd.widen_wf apd.join_left apd.join_right apd.widen_left apd.widen_right
  ab_join_contains perm_join_holds

lemma aval_join_error: "aval_join a b v = Inl e \<longleftrightarrow> aval_kind a \<noteq> aval_kind b \<and> e = ValueKindMismatch v"
  by (cases a; cases b) auto

lemma aval_widen_error: "aval_widen a b v = Inl e \<longleftrightarrow> aval_kind a \<noteq> aval_kind b \<and> e = ValueKindMismatch v"
  by (cases a; cases b) auto

lemma aval_join_holds:
  assumes "aval_wf a" and "aval_wf b" and "aval_join a b v = Inr j"
  shows "aval_wf j" and "aval_holds a c \<or> aval_holds b c \<Longrightarrow> aval_holds j c" and "aval_kind j = aval_kind a"
proof -
  have "aval_wf j \<and> (aval_holds a c \<or> aval_holds b c \<longrightarrow> aval_holds j c) \<and> aval_kind j = aval_kind a"
    using assms
    by (cases a; cases b; cases c)
      (auto simp: ed_join_def value_laws split: option.splits if_splits)
  then show "aval_wf j" "aval_holds a c \<or> aval_holds b c \<Longrightarrow> aval_holds j c" "aval_kind j = aval_kind a" by auto
qed

lemma aval_widen_holds:
  assumes "aval_wf a" and "aval_wf b" and "aval_widen a b v = Inr j"
  shows "aval_wf j" and "aval_holds a c \<or> aval_holds b c \<Longrightarrow> aval_holds j c" and "aval_kind j = aval_kind a"
proof -
  have "aval_wf j \<and> (aval_holds a c \<or> aval_holds b c \<longrightarrow> aval_holds j c) \<and> aval_kind j = aval_kind a"
    using assms
    by (cases a; cases b; cases c)
      (auto simp: ed_widen_def value_laws split: option.splits if_splits)
  then show "aval_wf j" "aval_holds a c \<or> aval_holds b c \<Longrightarrow> aval_holds j c" "aval_kind j = aval_kind a" by auto
qed

lemma aval_widen_progress:
  assumes "aval_widen a b v = Inr j" and "j \<noteq> a"
  shows "aval_height j < aval_height a"
  using assms
  by (cases a; cases b)
    (auto simp: le_imp_less_Suc trans_le_add1 iv_widen_height split: option.splits
      intro: iv_widen_progress ap_widen_progress perm_join_progress ab_join_progress ed_widen_progress)

section \<open>Properties\<close>

text \<open>C15: Joining and widening typed values is sound and the widening terminates. Values of different
  kinds are rejected with the mismatch error of the SSA value and nothing else is; otherwise the result
  has the kind, is well formed and represents every run-time value either side represents, and a widening
  that changes the left value lowers its height, so a loop head changes only finitely often.\<close>

theorem abstract_value_merge_sound:
  assumes "aval_wf a" and "aval_wf b" and "merge = aval_join \<or> merge = aval_widen"
  shows "case merge a b v of
      Inl e \<Rightarrow> aval_kind a \<noteq> aval_kind b \<and> e = ValueKindMismatch v
    | Inr j \<Rightarrow> aval_kind a = aval_kind b \<and> aval_kind j = aval_kind a \<and> aval_wf j \<and>
        (\<forall>c. aval_holds a c \<or> aval_holds b c \<longrightarrow> aval_holds j c) \<and>
        (merge = aval_widen \<longrightarrow> j \<noteq> a \<longrightarrow> aval_height j < aval_height a)"
proof (cases "merge a b v")
  case (Inl e)
  then show ?thesis using assms(3) aval_join_error aval_widen_error by auto
next
  case (Inr j)
  have "aval_kind a = aval_kind b"
    using assms(3) Inr aval_join_error [of a b v "ValueKindMismatch v"] aval_widen_error [of a b v "ValueKindMismatch v"]
    by auto
  moreover have "aval_wf j \<and> aval_kind j = aval_kind a \<and> (\<forall>c. aval_holds a c \<or> aval_holds b c \<longrightarrow> aval_holds j c)"
    using assms(3) Inr aval_join_holds [OF assms(1,2), of v j] aval_widen_holds [OF assms(1,2), of v j] by blast
  moreover have "merge = aval_widen \<Longrightarrow> j \<noteq> a \<Longrightarrow> aval_height j < aval_height a"
    using Inr aval_widen_progress [of a b v j] by blast
  ultimately show ?thesis using Inr by auto
qed

definition loop_pointer :: "u64 \<Rightarrow> abstract_pointer" where
  "loop_pointer offset = ap_new (ProvKnown (VirAllocationSite 4)) (iv_exact offset) \<lparr>ga_bytes = 8\<rparr>"

theorem abstract_value_merge_sound_witness:
  "aval_widen (AVPointer (loop_pointer 16)) (AVPointer (loop_pointer 24)) 7 =
     Inr (AVPointer (loop_pointer 16\<lparr>ap_offset_bytes := \<lparr>iv_lower = 16, iv_upper = u64_MAX\<rparr>,
       ap_object_offsets := OffUnknown\<rparr>)) \<and>
   (case aval_widen (AVPointer (loop_pointer 16)) (AVPointer (loop_pointer 24)) 7 of
      Inl e \<Rightarrow> False
    | Inr j \<Rightarrow> aval_wf j \<and> (\<forall>c. aval_holds (AVPointer (loop_pointer 24)) c \<longrightarrow> aval_holds j c) \<and>
        aval_height j < aval_height (AVPointer (loop_pointer 16)))"
proof -
  have wf: "aval_wf (AVPointer (loop_pointer 16))" "aval_wf (AVPointer (loop_pointer 24))" by code_simp+
  have run: "aval_widen (AVPointer (loop_pointer 16)) (AVPointer (loop_pointer 24)) 7 =
     Inr (AVPointer (loop_pointer 16\<lparr>ap_offset_bytes := \<lparr>iv_lower = 16, iv_upper = u64_MAX\<rparr>,
       ap_object_offsets := OffUnknown\<rparr>))"
    by code_simp
  have ne: "loop_pointer 16\<lparr>ap_offset_bytes := \<lparr>iv_lower = 16, iv_upper = u64_MAX\<rparr>,
       ap_object_offsets := OffUnknown\<rparr> \<noteq> loop_pointer 16"
    by code_simp
  show ?thesis
    using abstract_value_merge_sound [OF wf, of aval_widen 7] ne unfolding run by simp
qed

end
