(* ===== verification/Record_Order.thy ===== *)
theory Record_Order
  imports Abstract_Value "HOL-Library.Product_Lexorder"
begin

text \<open>
  The derived field-by-field orders of the key structures of the resource state, as instances of
  \<open>linorder\<close>, so that their \<open>BTreeMap\<close>s are the ordered maps of the prelude.
\<close>

definition ma_key :: "'a vir_memory_access_scheme \<Rightarrow> u32 \<times> u32 \<times> 'a" where
  "ma_key r = (ma_ty r, ma_layout r, vir_memory_access.more r)"

lemma ma_key_eq [simp]: "ma_key r = ma_key s \<longleftrightarrow> r = s"
  by (auto simp: ma_key_def)

instantiation vir_memory_access_ext :: (linorder) linorder
begin

definition less_eq_vir_memory_access_ext :: "'a vir_memory_access_scheme \<Rightarrow> 'a vir_memory_access_scheme \<Rightarrow> bool" where
  "less_eq_vir_memory_access_ext r s \<longleftrightarrow> ma_key r \<le> ma_key s"

definition less_vir_memory_access_ext :: "'a vir_memory_access_scheme \<Rightarrow> 'a vir_memory_access_scheme \<Rightarrow> bool" where
  "less_vir_memory_access_ext r s \<longleftrightarrow> ma_key r < ma_key s"

instance
  by standard (auto simp: less_eq_vir_memory_access_ext_def less_vir_memory_access_ext_def
      dest: order_antisym intro: order_trans)

end

definition pk_key :: "'a resource_payload_key_scheme \<Rightarrow> u64 \<times> vir_memory_access \<times> 'a" where
  "pk_key r = (pk_offset_bytes r, pk_access r, resource_payload_key.more r)"

lemma pk_key_eq [simp]: "pk_key r = pk_key s \<longleftrightarrow> r = s"
  by (auto simp: pk_key_def)

instantiation resource_payload_key_ext :: (linorder) linorder
begin

definition less_eq_resource_payload_key_ext ::
  "'a resource_payload_key_scheme \<Rightarrow> 'a resource_payload_key_scheme \<Rightarrow> bool" where
  "less_eq_resource_payload_key_ext r s \<longleftrightarrow> pk_key r \<le> pk_key s"

definition less_resource_payload_key_ext ::
  "'a resource_payload_key_scheme \<Rightarrow> 'a resource_payload_key_scheme \<Rightarrow> bool" where
  "less_resource_payload_key_ext r s \<longleftrightarrow> pk_key r < pk_key s"

instance
  by standard (auto simp: less_eq_resource_payload_key_ext_def less_resource_payload_key_ext_def
      dest: order_antisym intro: order_trans)

end

definition br_key :: "'a byte_range_scheme \<Rightarrow> u64 \<times> u64 \<times> 'a" where
  "br_key r = (br_start r, br_end r, byte_range.more r)"

lemma br_key_eq [simp]: "br_key r = br_key s \<longleftrightarrow> r = s"
  by (auto simp: br_key_def)

instantiation byte_range_ext :: (linorder) linorder
begin

definition less_eq_byte_range_ext :: "'a byte_range_scheme \<Rightarrow> 'a byte_range_scheme \<Rightarrow> bool" where
  "less_eq_byte_range_ext r s \<longleftrightarrow> br_key r \<le> br_key s"

definition less_byte_range_ext :: "'a byte_range_scheme \<Rightarrow> 'a byte_range_scheme \<Rightarrow> bool" where
  "less_byte_range_ext r s \<longleftrightarrow> br_key r < br_key s"

instance
  by standard (auto simp: less_eq_byte_range_ext_def less_byte_range_ext_def
      dest: order_antisym intro: order_trans)

end

end
