(* ===== verification/Object_State.thy ===== *)
theory Object_State
  imports Record_Order
begin

text \<open>
  The path-sensitive facts about one allocation, \<open>src/src/verifier/resource/object.rs\<close>: liveness,
  ownership, definite initialisation, active enum variants and the move paths of resources stored in
  memory. Byte facts are pairs of byte sets, the other two are bounded ordered maps in which a missing
  entry means unknown.
\<close>

section \<open>Liveness and ownership\<close>

datatype liveness_state = Live | Dead | MaybeLive

definition live_join :: "liveness_state \<Rightarrow> liveness_state \<Rightarrow> liveness_state" where
  "live_join a b = (if (a = Live \<and> b = Live) \<or> (a = Dead \<and> b = Dead) then a else MaybeLive)"

datatype ownership_state = Owned | Unowned | MaybeOwned

definition own_join :: "ownership_state \<Rightarrow> ownership_state \<Rightarrow> ownership_state" where
  "own_join a b = (if (a = Owned \<and> b = Owned) \<or> (a = Unowned \<and> b = Unowned) then a else MaybeOwned)"

fun live_holds :: "liveness_state \<Rightarrow> bool \<Rightarrow> bool" where
  "live_holds Live c = c"
| "live_holds Dead c = (\<not> c)"
| "live_holds MaybeLive c = True"

fun own_holds :: "ownership_state \<Rightarrow> bool \<Rightarrow> bool" where
  "own_holds Owned c = c"
| "own_holds Unowned c = (\<not> c)"
| "own_holds MaybeOwned c = True"

interpretation lived: flat_domain live_holds live_join MaybeLive
proof unfold_locales
  fix a b :: liveness_state
  show "live_join a b = (if a = b then a else MaybeLive)" by (cases a; cases b) (simp_all add: live_join_def)
qed simp

interpretation ownd: flat_domain own_holds own_join MaybeOwned
proof unfold_locales
  fix a b :: ownership_state
  show "own_join a b = (if a = b then a else MaybeOwned)" by (cases a; cases b) (simp_all add: own_join_def)
qed simp

section \<open>Initialisation\<close>

datatype initialization_class = Initialized | Uninitialized | MaybeInitialized

record initialization_state =
  is_initialized :: byte_set
  is_uninitialized :: byte_set

definition is_all_uninitialized :: "u64 \<Rightarrow> initialization_state" where
  "is_all_uninitialized size_bytes =
     \<lparr>is_initialized = bs_new, is_uninitialized = bs_single \<lparr>br_start = 0, br_end = size_bytes\<rparr>\<rparr>"

definition is_unknown :: initialization_state where
  "is_unknown = \<lparr>is_initialized = bs_new, is_uninitialized = bs_new\<rparr>"

definition is_classify :: "initialization_state \<Rightarrow> byte_range \<Rightarrow> initialization_class" where
  "is_classify s r =
     (if bs_contains (is_initialized s) r then Initialized
      else if bs_contains (is_uninitialized s) r then Uninitialized else MaybeInitialized)"

definition is_mark_initialized :: "byte_range \<Rightarrow> initialization_state \<Rightarrow> initialization_state" where
  "is_mark_initialized r s =
     \<lparr>is_initialized = bs_insert r (is_initialized s), is_uninitialized = bs_remove r (is_uninitialized s)\<rparr>"

definition is_mark_uninitialized :: "byte_range \<Rightarrow> initialization_state \<Rightarrow> initialization_state" where
  "is_mark_uninitialized r s =
     \<lparr>is_initialized = bs_remove r (is_initialized s), is_uninitialized = bs_insert r (is_uninitialized s)\<rparr>"

definition is_forget :: "byte_range \<Rightarrow> initialization_state \<Rightarrow> initialization_state" where
  "is_forget r s =
     \<lparr>is_initialized = bs_remove r (is_initialized s), is_uninitialized = bs_remove r (is_uninitialized s)\<rparr>"

definition is_forget_uninitialized :: "byte_range \<Rightarrow> initialization_state \<Rightarrow> initialization_state" where
  "is_forget_uninitialized r s = s\<lparr>is_uninitialized := bs_remove r (is_uninitialized s)\<rparr>"

definition is_join :: "initialization_state \<Rightarrow> initialization_state \<Rightarrow> initialization_state" where
  "is_join a b =
     \<lparr>is_initialized = bs_intersection (is_initialized a) (is_initialized b),
      is_uninitialized = bs_intersection (is_uninitialized a) (is_uninitialized b)\<rparr>"

section \<open>Move paths and variants\<close>

type_synonym object_state_key = resource_payload_key

record typed_resource_payload =
  tp_pointer :: abstract_pointer
  tp_permission :: abstract_permission

datatype move_path_state = PathAvailable typed_resource_payload | PathMoved | PathUnknown

fun mp_join :: "move_path_state \<Rightarrow> move_path_state \<Rightarrow> move_path_state" where
  "mp_join (PathAvailable l) (PathAvailable r) = (if l = r then PathAvailable l else PathUnknown)"
| "mp_join PathMoved PathMoved = PathMoved"
| "mp_join _ _ = PathUnknown"

datatype active_variant_state = VariantExact u32 | VariantAlternatives "u32 set" | VariantUnknown

definition VERIFIER_ACTIVE_VARIANT_MAX_ALTERNATIVES :: nat where
  "VERIFIER_ACTIVE_VARIANT_MAX_ALTERNATIVES = 256"

fun avs_alternatives :: "active_variant_state \<Rightarrow> u32 set option" where
  "avs_alternatives (VariantExact v) = Some {v}"
| "avs_alternatives (VariantAlternatives vs) = Some vs"
| "avs_alternatives VariantUnknown = None"

definition avs_join :: "active_variant_state \<Rightarrow> active_variant_state \<Rightarrow> active_variant_state" where
  "avs_join a b =
     (case (avs_alternatives a, avs_alternatives b) of
        (Some vs, Some ws) \<Rightarrow>
          (let all = vs \<union> ws in
           if card all > VERIFIER_ACTIVE_VARIANT_MAX_ALTERNATIVES then VariantUnknown
           else if card all = 1 then VariantExact (Min all) else VariantAlternatives all)
      | _ \<Rightarrow> VariantUnknown)"

section \<open>Object state\<close>

definition VERIFIER_OBJECT_STATE_MAX_ENTRIES :: nat where
  "VERIFIER_OBJECT_STATE_MAX_ENTRIES = 1024"

definition VERIFIER_RESOURCE_PAYLOAD_MAX_ENTRIES :: nat where
  "VERIFIER_RESOURCE_PAYLOAD_MAX_ENTRIES = 1024"

record object_state =
  os_active_variants :: "(object_state_key, active_variant_state) btmap"
  os_resource_payloads :: "(resource_payload_key, move_path_state) btmap"
  os_precision_lost :: bool

definition os_new :: object_state where
  "os_new = \<lparr>os_active_variants = [], os_resource_payloads = [], os_precision_lost = False\<rparr>"

definition os_is_precise :: "object_state \<Rightarrow> bool" where
  "os_is_precise s = (\<not> os_precision_lost s)"

definition os_active_variant :: "object_state \<Rightarrow> object_state_key \<Rightarrow> active_variant_state" where
  "os_active_variant s key = (case bt_get (os_active_variants s) key of None \<Rightarrow> VariantUnknown | Some v \<Rightarrow> v)"

definition os_set_active_variant ::
  "object_state_key \<Rightarrow> active_variant_state \<Rightarrow> object_state \<Rightarrow> bool \<times> object_state" where
  "os_set_active_variant key st s =
     (if bt_get (os_active_variants s) key = None \<and>
         length (os_active_variants s) \<ge> VERIFIER_OBJECT_STATE_MAX_ENTRIES
      then (False, s\<lparr>os_precision_lost := True\<rparr>)
      else (True, s\<lparr>os_active_variants := bt_insert key st (os_active_variants s)\<rparr>))"

definition os_resource_payload :: "object_state \<Rightarrow> resource_payload_key \<Rightarrow> move_path_state" where
  "os_resource_payload s key = (case bt_get (os_resource_payloads s) key of None \<Rightarrow> PathUnknown | Some v \<Rightarrow> v)"

definition os_set_resource_payload ::
  "resource_payload_key \<Rightarrow> move_path_state \<Rightarrow> object_state \<Rightarrow> bool \<times> object_state" where
  "os_set_resource_payload key st s =
     (if bt_get (os_resource_payloads s) key = None \<and>
         length (os_resource_payloads s) \<ge> VERIFIER_RESOURCE_PAYLOAD_MAX_ENTRIES
      then (False, s\<lparr>os_precision_lost := True\<rparr>)
      else (True, s\<lparr>os_resource_payloads := bt_insert key st (os_resource_payloads s)\<rparr>))"

definition key_range :: "resource_payload_key \<Rightarrow> byte_range" where
  "key_range key = \<lparr>br_start = pk_offset_bytes key, br_end = u64_saturating_add (pk_offset_bytes key) 1\<rparr>"

definition bt_overwrite :: "('k \<Rightarrow> bool) \<Rightarrow> 'v \<Rightarrow> ('k, 'v) btmap \<Rightarrow> ('k, 'v) btmap" where
  "bt_overwrite p v m = map (\<lambda>(k, w). (k, if p k then v else w)) m"

definition os_forget_range :: "byte_range \<Rightarrow> object_state \<Rightarrow> object_state" where
  "os_forget_range r s =
     s\<lparr>os_active_variants := bt_overwrite (\<lambda>key. br_contains r (key_range key)) VariantUnknown (os_active_variants s),
       os_resource_payloads := bt_overwrite (\<lambda>key. br_contains r (key_range key)) PathUnknown (os_resource_payloads s)\<rparr>"

definition mark_resource_paths_moved :: "byte_range \<Rightarrow> object_state \<Rightarrow> object_state" where
  "mark_resource_paths_moved r s =
     s\<lparr>os_resource_payloads := bt_overwrite (\<lambda>key. br_contains r (key_range key)) PathMoved (os_resource_payloads s)\<rparr>"

definition join_variant ::
  "object_state \<Rightarrow> object_state_key \<times> active_variant_state \<Rightarrow> bool \<times> object_state \<Rightarrow> bool \<times> object_state" where
  "join_variant other e acc =
     (case bt_get (os_active_variants other) (fst e) of
        None \<Rightarrow> acc
      | Some right \<Rightarrow>
          (case os_set_active_variant (fst e) (avs_join (snd e) right) (snd acc) of
             (inserted, joined) \<Rightarrow> (fst acc \<and> inserted, joined)))"

definition join_payload ::
  "object_state \<Rightarrow> object_state \<Rightarrow> resource_payload_key \<Rightarrow> bool \<times> object_state \<Rightarrow> bool \<times> object_state" where
  "join_payload a b key acc =
     (case os_set_resource_payload key (mp_join (os_resource_payload a key) (os_resource_payload b key)) (snd acc) of
        (inserted, joined) \<Rightarrow> (fst acc \<and> inserted, joined))"

definition os_join_checked :: "object_state \<Rightarrow> object_state \<Rightarrow> bool \<times> object_state" where
  "os_join_checked a b =
     (let start = (True, os_new\<lparr>os_precision_lost := os_precision_lost a \<or> os_precision_lost b\<rparr>);
          joined = fold (join_variant b) (os_active_variants a) start;
          keys = sort (remdups (bt_keys (os_resource_payloads a) @ bt_keys (os_resource_payloads b)))
      in fold (join_payload a b) keys joined)"

definition os_join :: "object_state \<Rightarrow> object_state \<Rightarrow> object_state" where
  "os_join a b = snd (os_join_checked a b)"

section \<open>Definite bytes\<close>

definition is_wf :: "initialization_state \<Rightarrow> bool" where
  "is_wf s = (bs_wf (is_initialized s) \<and> bs_wf (is_uninitialized s) \<and>
     bs_bytes (is_initialized s) \<inter> bs_bytes (is_uninitialized s) = {})"

definition is_holds :: "initialization_state \<Rightarrow> int set \<Rightarrow> bool" where
  "is_holds s M = (bs_bytes (is_initialized s) \<subseteq> M \<and> bs_bytes (is_uninitialized s) \<inter> M = {})"

lemma bs_insert_sub: "bs_wf s \<Longrightarrow> br_wf r \<Longrightarrow> bs_bytes (bs_insert r s) \<subseteq> bs_bytes s \<union> br_bytes r"
  using bs_insert_bytes by blast

lemma bs_remove_sub: "bs_wf s \<Longrightarrow> br_wf r \<Longrightarrow> bs_bytes (bs_remove r s) \<subseteq> bs_bytes s - br_bytes r"
  using bs_remove_bytes by blast

lemmas byte_steps = bs_insert_wf bs_remove_wf bs_insert_sub [THEN subsetD] bs_remove_sub [THEN subsetD]

lemma is_mark_initialized_holds:
  assumes "is_wf s" and "br_wf r" and "is_holds s M"
  shows "is_wf (is_mark_initialized r s)" and "is_holds (is_mark_initialized r s) (M \<union> br_bytes r)"
  using assms by (auto simp: is_wf_def is_holds_def is_mark_initialized_def byte_steps dest!: byte_steps(3,4) [rotated 2])

lemma is_mark_uninitialized_holds:
  assumes "is_wf s" and "br_wf r" and "is_holds s M"
  shows "is_wf (is_mark_uninitialized r s)" and "is_holds (is_mark_uninitialized r s) (M - br_bytes r)"
  using assms by (auto simp: is_wf_def is_holds_def is_mark_uninitialized_def byte_steps dest!: byte_steps(3,4) [rotated 2])

lemma is_forget_holds:
  assumes "is_wf s" and "br_wf r" and "is_holds s M" and "M' - br_bytes r = M - br_bytes r"
  shows "is_wf (is_forget r s)" and "is_holds (is_forget r s) M'"
  using assms by (auto simp: is_wf_def is_holds_def is_forget_def byte_steps dest!: byte_steps(4) [rotated 2])

lemma is_forget_uninitialized_holds:
  assumes "is_wf s" and "br_wf r" and "is_holds s M" and "M \<subseteq> M'" and "M' \<subseteq> M \<union> br_bytes r"
  shows "is_wf (is_forget_uninitialized r s)" and "is_holds (is_forget_uninitialized r s) M'"
  using assms by (auto simp: is_wf_def is_holds_def is_forget_uninitialized_def byte_steps dest!: byte_steps(4) [rotated 2])

lemma is_join_holds:
  assumes "is_wf a" and "is_wf b"
  shows "is_wf (is_join a b)" and "is_holds a M \<or> is_holds b M \<Longrightarrow> is_holds (is_join a b) M"
  using assms bs_intersection_spec [of "is_initialized a" "is_initialized b"]
    bs_intersection_spec [of "is_uninitialized a" "is_uninitialized b"]
  by (auto simp: is_wf_def is_holds_def is_join_def)

interpretation isd: join_domain is_wf is_holds is_join
  by unfold_locales (simp_all add: is_join_holds)

lemma is_classify_holds:
  assumes "is_wf s" and "br_wf r" and "is_holds s M"
  shows "is_classify s r = Initialized \<Longrightarrow> br_bytes r \<subseteq> M"
    and "is_classify s r = Uninitialized \<Longrightarrow> br_bytes r \<inter> M = {}"
  using assms by (auto simp: is_classify_def is_wf_def is_holds_def bs_contains_iff split: if_splits)

lemma is_all_uninitialized_holds: "is_wf (is_all_uninitialized n) \<and> is_holds (is_all_uninitialized n) {}"
proof -
  have wf: "br_wf \<lparr>br_start = 0, br_end = n\<rparr>" by simp
  show ?thesis
    using bs_insert_wf [OF bs_new_wf(1) wf]
    by (simp add: is_wf_def is_holds_def is_all_uninitialized_def bs_single_def)
qed

section \<open>Variants and payloads\<close>

fun avs_holds :: "active_variant_state \<Rightarrow> u32 \<Rightarrow> bool" where
  "avs_holds (VariantExact v) c = (c = v)"
| "avs_holds (VariantAlternatives vs) c = (c \<in> vs)"
| "avs_holds VariantUnknown c = True"

lemma avs_holds_alternatives: "avs_holds a c \<longleftrightarrow> (case avs_alternatives a of None \<Rightarrow> True | Some vs \<Rightarrow> c \<in> vs)"
  by (cases a) auto

lemma avs_join_holds:
  assumes "avs_holds a c \<or> avs_holds b c"
  shows "avs_holds (avs_join a b) c"
proof (cases "avs_alternatives a")
  case (Some vs)
  show ?thesis
  proof (cases "avs_alternatives b")
    case ws: (Some ws)
    have c: "c \<in> vs \<union> ws" using assms Some ws by (auto simp: avs_holds_alternatives)
    have "c = Min (vs \<union> ws)" if "card (vs \<union> ws) = 1"
      using that c by (metis Min_singleton card_1_singletonE singletonD)
    then show ?thesis using Some ws c by (auto simp: avs_join_def Let_def)
  qed (simp add: avs_join_def Some)
qed (simp add: avs_join_def)

interpretation avsd: join_domain "\<lambda>_. True" avs_holds avs_join
  by unfold_locales (simp_all add: avs_join_holds)

fun mp_holds :: "move_path_state \<Rightarrow> (pointer_state \<times> permission_state) option \<Rightarrow> bool" where
  "mp_holds (PathAvailable p) c =
     (case c of None \<Rightarrow> False | Some (ptr, perm) \<Rightarrow> ptr_holds (tp_pointer p) ptr \<and> perm_holds (tp_permission p) perm)"
| "mp_holds PathMoved c = (c = None)"
| "mp_holds PathUnknown c = True"

interpretation mpd: flat_domain mp_holds mp_join PathUnknown
proof unfold_locales
  fix a b :: move_path_state
  show "mp_join a b = (if a = b then a else PathUnknown)" by (cases a; cases b) simp_all
qed simp

record object_contents =
  oc_variant :: "object_state_key \<Rightarrow> u32"
  oc_payload :: "resource_payload_key \<Rightarrow> (pointer_state \<times> permission_state) option"

definition os_holds :: "object_state \<Rightarrow> object_contents \<Rightarrow> bool" where
  "os_holds s c =
     (\<forall>key. avs_holds (os_active_variant s key) (oc_variant c key) \<and> mp_holds (os_resource_payload s key) (oc_payload c key))"

definition os_wf :: "object_state \<Rightarrow> bool" where
  "os_wf s =
     (bt_sorted (os_active_variants s) \<and> length (os_active_variants s) \<le> VERIFIER_OBJECT_STATE_MAX_ENTRIES \<and>
      bt_sorted (os_resource_payloads s) \<and> length (os_resource_payloads s) \<le> VERIFIER_RESOURCE_PAYLOAD_MAX_ENTRIES)"

lemma bt_get_overwrite: "bt_get (bt_overwrite p v m) k = map_option (\<lambda>w. if p k then v else w) (bt_get m k)"
  by (induction m k rule: bt_get.induct) (auto simp: bt_overwrite_def)

lemma bt_sorted_overwrite [simp]: "bt_sorted (bt_overwrite p v m) = bt_sorted m" "length (bt_overwrite p v m) = length m"
  by (induction m) (auto simp: bt_overwrite_def bt_sorted_def)

lemma bt_get_None_iff: "bt_sorted m \<Longrightarrow> bt_get m k = None \<longleftrightarrow> k \<notin> set (bt_keys m)"
  by (auto simp: bt_get_map_of map_of_eq_None_iff bt_keys_def)

lemma bt_sorted_card: "bt_sorted m \<Longrightarrow> card (set (bt_keys m)) = length m"
  using distinct_card [of "map fst m"] by (simp add: bt_sorted_def bt_keys_def strict_sorted_iff)

lemma bt_insert_length_fresh: "bt_sorted m \<Longrightarrow> bt_get m k = None \<Longrightarrow> length (bt_insert k v m) = Suc (length m)"
  using bt_sorted_card [of m] bt_sorted_card [of "bt_insert k v m"] bt_insert_keys [of k v m]
  by (auto simp: bt_get_None_iff) (simp add: bt_keys_def)

lemma bt_insert_length_old: "bt_sorted m \<Longrightarrow> bt_get m k \<noteq> None \<Longrightarrow> length (bt_insert k v m) = length m"
  using bt_sorted_card [of m] bt_sorted_card [of "bt_insert k v m"] bt_insert_keys [of k v m]
  by (auto simp: bt_get_None_iff) (simp add: bt_keys_def insert_absorb)

lemma os_set_active_variant_wf: "os_wf s \<Longrightarrow> os_wf (snd (os_set_active_variant key st s))"
  using bt_insert_length_old [of "os_active_variants s" key st] bt_insert_length [of key st "os_active_variants s"]
  by (cases "bt_get (os_active_variants s) key") (auto simp: os_wf_def os_set_active_variant_def)

lemma os_set_resource_payload_wf: "os_wf s \<Longrightarrow> os_wf (snd (os_set_resource_payload key st s))"
  using bt_insert_length_old [of "os_resource_payloads s" key st] bt_insert_length [of key st "os_resource_payloads s"]
  by (cases "bt_get (os_resource_payloads s) key") (auto simp: os_wf_def os_set_resource_payload_def)

lemma os_set_active_variant_holds:
  assumes "os_wf s" and "os_holds s c" and "avs_holds st v"
  shows "os_holds (snd (os_set_active_variant key st s)) (c\<lparr>oc_variant := (oc_variant c)(key := v)\<rparr>)"
  using assms by (auto simp: os_holds_def os_wf_def os_set_active_variant_def os_active_variant_def
      os_resource_payload_def bt_get_insert_other)

lemma os_set_resource_payload_holds:
  assumes "os_wf s" and "os_holds s c" and "mp_holds st v"
  shows "os_holds (snd (os_set_resource_payload key st s)) (c\<lparr>oc_payload := (oc_payload c)(key := v)\<rparr>)"
  using assms by (auto simp: os_holds_def os_wf_def os_set_resource_payload_def os_active_variant_def
      os_resource_payload_def bt_get_insert_other)

lemma key_range_contains: "uint (pk_offset_bytes key) \<in> br_bytes r \<Longrightarrow> br_contains r (key_range key)"
  using uint_u64_bound [of "br_end r"]
  by (auto simp: br_contains_def key_range_def br_bytes_def u64_order uint_saturating_add)

definition same_outside :: "byte_range \<Rightarrow> object_contents \<Rightarrow> object_contents \<Rightarrow> bool" where
  "same_outside r c c' =
     (\<forall>key. uint (pk_offset_bytes key) \<notin> br_bytes r \<longrightarrow>
        oc_variant c' key = oc_variant c key \<and> oc_payload c' key = oc_payload c key)"

lemma os_forget_range_holds:
  assumes "os_wf s" and "os_holds s c" and "same_outside r c c'"
  shows "os_wf (os_forget_range r s)" and "os_holds (os_forget_range r s) c'"
proof -
  show "os_wf (os_forget_range r s)" using assms(1) by (simp add: os_wf_def os_forget_range_def)
  show "os_holds (os_forget_range r s) c'"
    unfolding os_holds_def
  proof (rule allI)
    fix key
    show "avs_holds (os_active_variant (os_forget_range r s) key) (oc_variant c' key) \<and>
        mp_holds (os_resource_payload (os_forget_range r s) key) (oc_payload c' key)"
    proof (cases "br_contains r (key_range key)")
      case True
      then show ?thesis
        by (auto simp: os_active_variant_def os_resource_payload_def os_forget_range_def bt_get_overwrite
            split: option.splits)
    next
      case False
      then have "uint (pk_offset_bytes key) \<notin> br_bytes r" using key_range_contains by blast
      then have "oc_variant c' key = oc_variant c key" "oc_payload c' key = oc_payload c key"
        using assms(3) by (auto simp: same_outside_def)
      moreover have "avs_holds (os_active_variant s key) (oc_variant c key)"
        "mp_holds (os_resource_payload s key) (oc_payload c key)"
        using assms(2) by (auto simp: os_holds_def)
      ultimately show ?thesis
        using False by (auto simp: os_active_variant_def os_resource_payload_def os_forget_range_def bt_get_overwrite
            option.map_id0 split: option.splits)
    qed
  qed
qed

lemma mark_moved_holds:
  assumes "os_wf s" and "os_holds s c" and "\<And>key. br_contains r (key_range key) \<Longrightarrow> oc_payload c key = None"
  shows "os_wf (mark_resource_paths_moved r s)" and "os_holds (mark_resource_paths_moved r s) c"
  using assms
  by (auto simp: os_wf_def os_holds_def mark_resource_paths_moved_def os_active_variant_def os_resource_payload_def
      bt_get_overwrite split: option.splits)

section \<open>Joins\<close>

definition joined_variants :: "object_state \<Rightarrow> object_state \<Rightarrow> object_state \<Rightarrow> bool" where
  "joined_variants a b s =
     (\<forall>(key, st) \<in> set (os_active_variants s). st = avs_join (os_active_variant a key) (os_active_variant b key))"

lemma join_variant_fold:
  assumes "bt_sorted (os_active_variants s)" and "length (os_active_variants s) + length es \<le> VERIFIER_OBJECT_STATE_MAX_ENTRIES"
    and "joined_variants a b s" and "\<And>key st. (key, st) \<in> set es \<Longrightarrow> os_active_variant a key = st"
  shows "\<exists>s'. fold (join_variant b) es (True, s) = (True, s') \<and> bt_sorted (os_active_variants s') \<and>
    length (os_active_variants s') \<le> VERIFIER_OBJECT_STATE_MAX_ENTRIES \<and> joined_variants a b s' \<and>
    os_resource_payloads s' = os_resource_payloads s"
  using assms
proof (induction es arbitrary: s)
  case (Cons e es)
  obtain key left where e: "e = (key, left)" by force
  show ?case
  proof (cases "bt_get (os_active_variants b) key")
    case None
    have es: "os_active_variant a k = st" if "(k, st) \<in> set es" for k st using Cons.prems(4) that by simp
    show ?thesis using Cons.IH [of s, OF _ _ _ es] Cons.prems(1-3) None by (simp add: join_variant_def e)
  next
    case (Some right)
    define s1 where "s1 = s\<lparr>os_active_variants := bt_insert key (avs_join left right) (os_active_variants s)\<rparr>"
    have step: "join_variant b e (True, s) = (True, s1)"
      using Cons.prems(2) Some by (simp add: join_variant_def e os_set_active_variant_def s1_def)
    have left: "os_active_variant a key = left" using Cons.prems(4) by (simp add: e)
    have right: "os_active_variant b key = right" using Some by (simp add: os_active_variant_def)
    have "bt_sorted (os_active_variants s1)" using Cons.prems(1) by (simp add: s1_def)
    moreover have "length (os_active_variants s1) + length es \<le> VERIFIER_OBJECT_STATE_MAX_ENTRIES"
      using Cons.prems(2) bt_insert_length [of key "avs_join left right" "os_active_variants s"] by (simp add: s1_def)
    moreover have "joined_variants a b s1"
      using Cons.prems(3) left right bt_insert_elem by (fastforce simp: joined_variants_def s1_def)
    moreover have "os_active_variant a k = st" if "(k, st) \<in> set es" for k st using Cons.prems(4) that by simp
    ultimately show ?thesis using Cons.IH [of s1] by (simp add: step) (simp add: s1_def)
  qed
qed simp

definition joined_payloads :: "object_state \<Rightarrow> object_state \<Rightarrow> object_state \<Rightarrow> bool" where
  "joined_payloads a b s =
     (\<forall>(key, st) \<in> set (os_resource_payloads s). st = mp_join (os_resource_payload a key) (os_resource_payload b key))"

lemma join_payload_fold:
  assumes "bt_sorted (os_resource_payloads s)" and "length (os_resource_payloads s) \<le> VERIFIER_RESOURCE_PAYLOAD_MAX_ENTRIES"
    and "distinct ks" and "set ks \<inter> set (bt_keys (os_resource_payloads s)) = {}" and "joined_payloads a b s"
  shows "\<exists>ok s'. fold (join_payload a b) ks (flag, s) = (ok, s') \<and>
    (ok \<longleftrightarrow> flag \<and> length (os_resource_payloads s) + length ks \<le> VERIFIER_RESOURCE_PAYLOAD_MAX_ENTRIES) \<and>
    bt_sorted (os_resource_payloads s') \<and> length (os_resource_payloads s') \<le> VERIFIER_RESOURCE_PAYLOAD_MAX_ENTRIES \<and>
    joined_payloads a b s' \<and> os_active_variants s' = os_active_variants s"
  using assms
proof (induction ks arbitrary: flag s)
  case (Cons key ks)
  let ?st = "mp_join (os_resource_payload a key) (os_resource_payload b key)"
  have fresh: "bt_get (os_resource_payloads s) key = None" using Cons.prems(1,4) by (simp add: bt_get_None_iff)
  show ?case
  proof (cases "length (os_resource_payloads s) < VERIFIER_RESOURCE_PAYLOAD_MAX_ENTRIES")
    case True
    define s1 where "s1 = s\<lparr>os_resource_payloads := bt_insert key ?st (os_resource_payloads s)\<rparr>"
    have step: "join_payload a b key (flag, s) = (flag, s1)"
      using True by (simp add: join_payload_def os_set_resource_payload_def s1_def)
    have len: "length (os_resource_payloads s1) = Suc (length (os_resource_payloads s))"
      using bt_insert_length_fresh [OF Cons.prems(1) fresh] by (simp add: s1_def)
    have "bt_sorted (os_resource_payloads s1)" using Cons.prems(1) by (simp add: s1_def)
    moreover have "set ks \<inter> set (bt_keys (os_resource_payloads s1)) = {}"
      using Cons.prems(3,4) bt_insert_keys [of key ?st "os_resource_payloads s"] by (simp add: s1_def bt_keys_def)
    moreover have "joined_payloads a b s1"
      using Cons.prems(5) bt_insert_elem by (fastforce simp: joined_payloads_def s1_def)
    ultimately show ?thesis
      using Cons.IH [of s1 flag] Cons.prems(3) True len by (simp add: step) (simp add: s1_def)
  next
    case False
    define s1 where "s1 = s\<lparr>os_precision_lost := True\<rparr>"
    have step: "join_payload a b key (flag, s) = (False, s1)"
      using False fresh by (simp add: join_payload_def os_set_resource_payload_def s1_def)
    have s1: "os_resource_payloads s1 = os_resource_payloads s" "os_active_variants s1 = os_active_variants s"
      "joined_payloads a b s1"
      using Cons.prems(5) by (simp_all add: s1_def joined_payloads_def)
    show ?thesis using Cons.IH [of s1 False] Cons.prems False by (simp add: step s1)
  qed
qed simp

lemma os_join_spec:
  assumes "os_wf a" and "os_wf b"
  obtains ok s where "os_join_checked a b = (ok, s)" and "os_wf s" and "joined_variants a b s" and "joined_payloads a b s"
    and "ok \<longleftrightarrow> card (set (bt_keys (os_resource_payloads a)) \<union> set (bt_keys (os_resource_payloads b))) \<le>
      VERIFIER_RESOURCE_PAYLOAD_MAX_ENTRIES"
proof -
  let ?start = "os_new\<lparr>os_precision_lost := os_precision_lost a \<or> os_precision_lost b\<rparr>"
  let ?ks = "sort (remdups (bt_keys (os_resource_payloads a) @ bt_keys (os_resource_payloads b)))"
  have entry: "os_active_variant a key = st" if "(key, st) \<in> set (os_active_variants a)" for key st
    using that assms(1) by (simp add: os_active_variant_def os_wf_def bt_get_map_of bt_sorted_def strict_sorted_iff)
  obtain s1 where s1: "fold (join_variant b) (os_active_variants a) (True, ?start) = (True, s1)"
      "bt_sorted (os_active_variants s1)" "length (os_active_variants s1) \<le> VERIFIER_OBJECT_STATE_MAX_ENTRIES"
      "joined_variants a b s1" "os_resource_payloads s1 = []"
    using join_variant_fold [of ?start "os_active_variants a" a b] entry assms(1)
    by (auto simp: os_wf_def os_new_def joined_variants_def)
  obtain ok s where s: "fold (join_payload a b) ?ks (True, s1) = (ok, s)"
      "ok \<longleftrightarrow> length ?ks \<le> VERIFIER_RESOURCE_PAYLOAD_MAX_ENTRIES"
      "bt_sorted (os_resource_payloads s)" "length (os_resource_payloads s) \<le> VERIFIER_RESOURCE_PAYLOAD_MAX_ENTRIES"
      "joined_payloads a b s" "os_active_variants s = os_active_variants s1"
    using join_payload_fold [of s1 ?ks a b True] s1(5) by (auto simp: joined_payloads_def bt_keys_def)
  show thesis
  proof (rule that)
    show "os_join_checked a b = (ok, s)" by (simp add: os_join_checked_def s1(1) s(1))
    show "os_wf s" using s s1 by (simp add: os_wf_def)
    show "joined_variants a b s" using s1(4) s(6) by (simp add: joined_variants_def)
    show "joined_payloads a b s" by (rule s(5))
    show "ok \<longleftrightarrow> card (set (bt_keys (os_resource_payloads a)) \<union> set (bt_keys (os_resource_payloads b))) \<le>
        VERIFIER_RESOURCE_PAYLOAD_MAX_ENTRIES"
      using s(2) by (simp add: length_remdups_card_conv)
  qed
qed

lemma os_join_holds:
  assumes "os_wf a" and "os_wf b"
  shows "os_wf (os_join a b)" and "os_holds a c \<or> os_holds b c \<Longrightarrow> os_holds (os_join a b) c"
proof -
  obtain ok s where s: "os_join_checked a b = (ok, s)" "os_wf s" "joined_variants a b s" "joined_payloads a b s"
    using os_join_spec [OF assms] by metis
  have j: "os_join a b = s" by (simp add: os_join_def s(1))
  show "os_wf (os_join a b)" using s(2) by (simp add: j)
  assume h: "os_holds a c \<or> os_holds b c"
  have "avs_holds (os_active_variant s key) (oc_variant c key)" for key
    using s(3) h avs_join_holds [of "os_active_variant a key" "oc_variant c key" "os_active_variant b key"]
    by (auto simp: joined_variants_def os_active_variant_def [of s] os_holds_def split: option.splits dest!: bt_get_in_set)
  moreover have "mp_holds (os_resource_payload s key) (oc_payload c key)" for key
    using s(4) h mpd.join_covers [of "os_resource_payload a key" "oc_payload c key" "os_resource_payload b key"]
    by (auto simp: joined_payloads_def os_resource_payload_def [of s] os_holds_def split: option.splits dest!: bt_get_in_set)
  ultimately show "os_holds (os_join a b) c" by (simp add: os_holds_def j)
qed

interpretation osd: join_domain os_wf os_holds os_join
  by unfold_locales (simp_all add: os_join_holds)

section \<open>Properties\<close>

text \<open>C39: Joining object states keeps the facts true on both paths, and its budget assertion is not an
  invariant. The join is well formed and holds of every object either side describes; the assertion of the
  code that every joined payload fits is true exactly when the union of the two key sets fits the budget,
  so two states within the budget can break it.\<close>

theorem object_join_budget:
  assumes "os_wf a" and "os_wf b"
  shows "os_wf (os_join a b) \<and> (\<forall>c. os_holds a c \<or> os_holds b c \<longrightarrow> os_holds (os_join a b) c) \<and>
    (fst (os_join_checked a b) \<longleftrightarrow>
      card (set (bt_keys (os_resource_payloads a)) \<union> set (bt_keys (os_resource_payloads b))) \<le>
        VERIFIER_RESOURCE_PAYLOAD_MAX_ENTRIES)"
  using os_join_holds [OF assms] os_join_spec [OF assms] by (metis fst_conv)

definition full_payloads :: "nat \<Rightarrow> object_state" where
  "full_payloads base =
     os_new\<lparr>os_resource_payloads :=
       map (\<lambda>i. (\<lparr>pk_offset_bytes = at_byte (base + i), pk_access = \<lparr>ma_ty = 0, ma_layout = 0\<rparr>\<rparr>, PathMoved)) [0..<1024]\<rparr>"

lemma at_byte_less: "m < n \<Longrightarrow> n < 100000 \<Longrightarrow> at_byte m < at_byte n"
  using uint_of_nat_small [of m] uint_of_nat_small [of n] by (simp add: word_less_def)

lemma full_payloads_wf: "base < 10000 \<Longrightarrow> os_wf (full_payloads base)"
  by (auto simp: os_wf_def full_payloads_def os_new_def bt_sorted_def sorted_wrt_iff_nth_less
      less_resource_payload_key_ext_def pk_key_def at_byte_less VERIFIER_RESOURCE_PAYLOAD_MAX_ENTRIES_def)

lemma full_payloads_keys:
  "set (bt_keys (os_resource_payloads (full_payloads base))) =
     (\<lambda>i. \<lparr>pk_offset_bytes = at_byte i, pk_access = \<lparr>ma_ty = 0, ma_layout = 0\<rparr>\<rparr>) ` {base..<base + 1024}"
proof -
  have shift: "(\<lambda>i. base + i) ` {0..<1024} = {base..<base + 1024}"
    by (simp add: image_add_atLeastLessThan add.commute)
  have "set (bt_keys (os_resource_payloads (full_payloads base))) =
     (\<lambda>i. \<lparr>pk_offset_bytes = at_byte i, pk_access = \<lparr>ma_ty = 0, ma_layout = 0\<rparr>\<rparr>) ` ((\<lambda>i. base + i) ` {0..<1024})"
    unfolding image_image by (simp add: full_payloads_def bt_keys_def image_image comp_def)
  then show ?thesis unfolding shift .
qed

theorem object_join_budget_witness:
  "os_wf (full_payloads 0) \<and> os_wf (full_payloads 2000) \<and>
   os_wf (os_join (full_payloads 0) (full_payloads 2000)) \<and>
   \<not> fst (os_join_checked (full_payloads 0) (full_payloads 2000))"
proof -
  let ?key = "\<lambda>i. \<lparr>pk_offset_bytes = at_byte i, pk_access = \<lparr>ma_ty = 0, ma_layout = 0\<rparr>\<rparr>"
  have wf: "os_wf (full_payloads 0)" "os_wf (full_payloads 2000)" by (simp_all add: full_payloads_wf)
  have "inj_on ?key {0..<10000}"
  proof (rule inj_onI)
    fix i j :: nat
    assume "i \<in> {0..<10000}" "j \<in> {0..<10000}" and eq: "?key i = ?key j"
    then have small: "i < 100000" "j < 100000" by simp_all
    have "at_byte i = at_byte j" using eq by (rule resource_payload_key.ext_inject [THEN iffD1, THEN conjunct1])
    then have "uint (at_byte i) = uint (at_byte j)" by (rule arg_cong)
    then have "int i = int j" unfolding uint_of_nat_small [OF small(1)] uint_of_nat_small [OF small(2)] .
    then show "i = j" by (rule of_nat_eq_iff [THEN iffD1])
  qed
  then have inj: "inj_on ?key ({0..<1024} \<union> {2000..<3024})" by (rule inj_on_subset) auto
  have "card (?key ` {0..<1024} \<union> ?key ` {2000..<3024}) = card ({0..<1024} \<union> {2000..<3024 :: nat})"
    unfolding image_Un [symmetric] by (rule card_image [OF inj])
  also have "\<dots> = 2048" by (subst card_Un_disjoint) auto
  finally show ?thesis
    using object_join_budget [OF wf] wf full_payloads_keys [of 0] full_payloads_keys [of 2000]
    by (simp add: VERIFIER_RESOURCE_PAYLOAD_MAX_ENTRIES_def)
qed

end
