(* ===== verification/Expression_Remapper.thy ===== *)
theory Expression_Remapper
  imports Object_State
begin

text \<open>
  Renaming at a control-flow edge: \<open>ExpressionRemapper\<close> of \<open>src/src/verifier/resource/state.rs\<close> and the
  projections of pointers, permissions, footprints, loans and object state that use it. All operands are
  read in the old environment at once; a symbolic fact whose roots are not carried is dropped, never
  re-read under the new names.
\<close>

section \<open>Construction\<close>

record expression_remapper =
  er_roots :: "(vir_value_id, vir_value_id) btmap"
  er_expressions :: "(affine_expression \<times> vir_value_id) list"
  er_prefix_expressions :: "(affine_expression \<times> vir_value_id) list"

definition bt_or_insert :: "'k::linorder \<Rightarrow> 'v \<Rightarrow> ('k, 'v) btmap \<Rightarrow> ('k, 'v) btmap" where
  "bt_or_insert k v m = (if bt_get m k = None then bt_insert k v m else m)"

definition er_value_expression :: "affine_expression option \<Rightarrow> u64_interval \<Rightarrow> vir_value_id \<Rightarrow> affine_expression" where
  "er_value_expression word i source =
     (case word of Some e \<Rightarrow> e
      | None \<Rightarrow> (case iv_exact_value i of Some v \<Rightarrow> ae_constant v | None \<Rightarrow> ae_identity source))"

definition er_step ::
  "(vir_value_id \<Rightarrow> abstract_value option) \<Rightarrow> (vir_value_id \<Rightarrow> affine_expression option) \<Rightarrow>
    vir_value_id \<times> vir_value_id \<Rightarrow> expression_remapper \<Rightarrow> expression_remapper" where
  "er_step read word rename er =
     (let source = fst rename; target = snd rename;
          prefixes =
            (case read source of
               Some (AVU64 i) \<Rightarrow>
                 [(ae_identity source, target), (er_value_expression (word source) i source, target)]
             | _ \<Rightarrow> []);
          exprs =
            (case word source of
               Some e \<Rightarrow> if list_ex (\<lambda>(known, _). known = e) (er_expressions er) then [] else [(e, target)]
             | None \<Rightarrow> [])
      in \<lparr>er_roots = bt_or_insert source target (er_roots er),
          er_expressions = er_expressions er @ exprs,
          er_prefix_expressions = er_prefix_expressions er @ prefixes\<rparr>)"

definition er_alias ::
  "affine_expression \<times> vir_value_id \<Rightarrow> (vir_value_id, vir_value_id) btmap \<Rightarrow> (vir_value_id, vir_value_id) btmap" where
  "er_alias et roots =
     (case ae_single_root (fst et) of
        Some root \<Rightarrow>
          if ae_scale (fst et) = 1 \<and> ae_addend (fst et) = 0 then bt_or_insert root (snd et) roots else roots
      | None \<Rightarrow> roots)"

definition er_new ::
  "(vir_value_id \<Rightarrow> abstract_value option) \<Rightarrow> (vir_value_id \<Rightarrow> affine_expression option) \<Rightarrow>
    (vir_value_id \<times> vir_value_id) list \<Rightarrow> expression_remapper" where
  "er_new read word renames =
     (let er = fold (er_step read word) renames \<lparr>er_roots = [], er_expressions = [], er_prefix_expressions = []\<rparr>
      in er\<lparr>er_roots := fold er_alias (er_expressions er) (er_roots er)\<rparr>)"

section \<open>Projection\<close>

definition er_expression :: "expression_remapper \<Rightarrow> affine_expression \<Rightarrow> affine_expression option" where
  "er_expression er e =
     (if ae_is_constant e then Some e
      else case rename_root e (er_roots er) of
        Some renamed \<Rightarrow> Some renamed
      | None \<Rightarrow> map_option (\<lambda>(_, target). ae_identity target) (List.find (\<lambda>(known, _). known = e) (er_expressions er)))"

definition er_bound :: "expression_remapper \<Rightarrow> symbolic_range_bound \<Rightarrow> symbolic_range_bound option" where
  "er_bound er b =
     map_option (\<lambda>e. \<lparr>sb_expression = e, sb_interval = sb_interval b\<rparr>) (er_expression er (sb_expression b))"

fun er_range :: "expression_remapper \<Rightarrow> abstract_byte_range \<Rightarrow> abstract_byte_range" where
  "er_range er (RSymbolic start end') =
     (case (er_bound er start, er_bound er end') of
        (Some s, Some e) \<Rightarrow> from_bounds s e
      | _ \<Rightarrow> RUnknown)"
| "er_range er r = r"

definition fp_project :: "expression_remapper \<Rightarrow> memory_footprint \<Rightarrow> memory_footprint" where
  "fp_project er f = f\<lparr>fp_range := er_range er (fp_range f)\<rparr>"

definition er_pointer :: "expression_remapper \<Rightarrow> abstract_pointer \<Rightarrow> abstract_pointer" where
  "er_pointer er p =
     ap_with_offset_expression
       (ap_with_slice_footprint
         (ap_with_domain p (case ap_domain p of PDRestricted r \<Rightarrow> PDRestricted (er_range er r) | d \<Rightarrow> d))
         (map_option (fp_project er) (ap_slice_footprint p)))
       (Option.bind (ap_offset_expression p) (er_expression er))"

definition er_permission :: "expression_remapper \<Rightarrow> abstract_permission \<Rightarrow> abstract_permission" where
  "er_permission er p =
     perm_with_authority
       (perm_with_availability
         (perm_new (perm_provenance p) (er_range er (perm_range p)) (perm_access p) (perm_free p))
         (perm_availability p))
       (perm_authority p)"

fun er_value :: "expression_remapper \<Rightarrow> abstract_value \<Rightarrow> abstract_value" where
  "er_value er (AVPointer p) = AVPointer (er_pointer er p)"
| "er_value er (AVPermission p) = AVPermission (er_permission er p)"
| "er_value er (AVEnumDiscriminant f) = AVEnumDiscriminant (f\<lparr>ed_pointer := er_pointer er (ed_pointer f)\<rparr>)"
| "er_value er v = v"

fun rename_authority :: "expression_remapper \<Rightarrow> abstract_loan_authority \<Rightarrow> abstract_loan_authority" where
  "rename_authority er (AuthorityValue v) =
     AuthorityValue (case bt_get (er_roots er) v of Some t \<Rightarrow> t | None \<Rightarrow> v)"
| "rename_authority er (AuthorityStored a k) = AuthorityStored a k"

definition al_project_cfg_edge :: "expression_remapper \<Rightarrow> abstract_loan \<Rightarrow> abstract_loan" where
  "al_project_cfg_edge er l =
     l\<lparr>al_authorities := rename_authority er ` al_authorities l,
       al_footprint := map_option (fp_project er) (al_footprint l)\<rparr>"

fun mp_project :: "expression_remapper \<Rightarrow> move_path_state \<Rightarrow> move_path_state" where
  "mp_project er (PathAvailable p) =
     PathAvailable \<lparr>tp_pointer = er_pointer er (tp_pointer p), tp_permission = er_permission er (tp_permission p)\<rparr>"
| "mp_project er s = s"

definition os_project_cfg_edge :: "expression_remapper \<Rightarrow> object_state \<Rightarrow> object_state" where
  "os_project_cfg_edge er s =
     s\<lparr>os_resource_payloads := map (\<lambda>(k, st). (k, mp_project er st)) (os_resource_payloads s)\<rparr>"

section \<open>Expressions keep their value\<close>

definition edge_env ::
  "(vir_value_id \<times> vir_value_id) list \<Rightarrow> (vir_value_id \<Rightarrow> int) \<Rightarrow> (vir_value_id \<Rightarrow> int) \<Rightarrow> bool" where
  "edge_env renames \<rho> \<rho>' = (\<forall>(source, target) \<in> set renames. \<rho>' target = \<rho> source)"

definition facts_env ::
  "(vir_value_id \<Rightarrow> abstract_value option) \<Rightarrow> (vir_value_id \<Rightarrow> affine_expression option) \<Rightarrow> (vir_value_id \<Rightarrow> int) \<Rightarrow> bool" where
  "facts_env read word \<rho> =
     ((\<forall>v i. read v = Some (AVU64 i) \<longrightarrow> uint (iv_lower i) \<le> \<rho> v \<and> \<rho> v \<le> uint (iv_upper i)) \<and>
      (\<forall>v e. word v = Some e \<longrightarrow> ae_wf e \<and> ae_den \<rho> e = \<rho> v))"

definition er_sound :: "expression_remapper \<Rightarrow> (vir_value_id \<Rightarrow> int) \<Rightarrow> (vir_value_id \<Rightarrow> int) \<Rightarrow> bool" where
  "er_sound er \<rho> \<rho>' =
     ((\<forall>v t. bt_get (er_roots er) v = Some t \<longrightarrow> \<rho>' t = \<rho> v) \<and> bt_sorted (er_roots er) \<and>
      (\<forall>(e, t) \<in> set (er_expressions er). ae_den \<rho> e = \<rho>' t) \<and>
      (\<forall>(e, t) \<in> set (er_prefix_expressions er). ae_den \<rho> e = \<rho>' t))"

lemma ae_den_identity [simp]: "ae_den \<rho> (ae_identity v) = \<rho> v"
  by (simp add: ae_den_def ae_identity_def ae_terms_def)

lemma ae_den_constant [simp]: "ae_den \<rho> (ae_constant v) = uint v"
  by (simp add: ae_den_def ae_flat_constant) (simp add: ae_constant_def)

lemma or_insert_get:
  "bt_sorted m \<Longrightarrow> bt_get (bt_or_insert k v m) j = Some t \<Longrightarrow> bt_get m j = Some t \<or> j = k \<and> t = v"
  by (cases "j = k") (auto simp: bt_or_insert_def bt_get_insert_other split: if_splits)

lemma or_insert_sorted: "bt_sorted m \<Longrightarrow> bt_sorted (bt_or_insert k v m)"
  by (simp add: bt_or_insert_def)

lemma exact_den: "iv_exact_value i = Some v \<Longrightarrow> uint (iv_lower i) \<le> x \<Longrightarrow> x \<le> uint (iv_upper i) \<Longrightarrow> x = uint v"
  by (auto simp: iv_exact_value_def split: if_splits)

lemma er_step_sound:
  assumes "er_sound er \<rho> \<rho>'" and "facts_env read word \<rho>" and "\<rho>' (snd rename) = \<rho> (fst rename)"
  shows "er_sound (er_step read word rename er) \<rho> \<rho>'"
proof -
  obtain source target where r: "rename = (source, target)" by force
  have den: "ae_den \<rho> (er_value_expression (word source) i source) = \<rho> source" if "read source = Some (AVU64 i)" for i
    using that assms(2) exact_den [of i _ "\<rho> source"]
    by (auto simp: er_value_expression_def facts_env_def split: option.split)
  have "ae_den \<rho> e = \<rho>' t"
    if "(e, t) \<in> set (er_prefix_expressions (er_step read word rename er))" for e t
    using that assms(1,3) den by (auto simp: er_step_def er_sound_def r Let_def split: option.splits abstract_value.splits)
  moreover have "ae_den \<rho> e = \<rho>' t" if "(e, t) \<in> set (er_expressions (er_step read word rename er))" for e t
    using that assms by (auto simp: er_step_def er_sound_def facts_env_def r Let_def split: option.splits if_splits)
  moreover have "\<rho>' t = \<rho> v" if "bt_get (er_roots (er_step read word rename er)) v = Some t" for v t
    using that assms(1,3) or_insert_get [of "er_roots er" source target v t] by (auto simp: er_step_def er_sound_def r Let_def)
  moreover have "bt_sorted (er_roots (er_step read word rename er))"
    using assms(1) by (simp add: er_step_def er_sound_def or_insert_sorted Let_def)
  ultimately show ?thesis by (auto simp: er_sound_def)
qed

lemma er_alias_sound:
  assumes "bt_sorted roots" and "\<And>v t. bt_get roots v = Some t \<Longrightarrow> \<rho>' t = \<rho> v" and "ae_den \<rho> (fst et) = \<rho>' (snd et)"
  shows "bt_sorted (er_alias et roots)" and "bt_get (er_alias et roots) v = Some t \<Longrightarrow> \<rho>' t = \<rho> v"
proof -
  show "bt_sorted (er_alias et roots)" using assms(1) by (simp add: er_alias_def or_insert_sorted split: option.split)
  have "ae_den \<rho> (fst et) = \<rho> root" if "ae_single_root (fst et) = Some root" "ae_scale (fst et) = 1" "ae_addend (fst et) = 0" for root
    using that by (simp add: ae_single_root_def ae_den_def ae_terms_def split: if_splits)
  then show "bt_get (er_alias et roots) v = Some t \<Longrightarrow> \<rho>' t = \<rho> v"
    using assms or_insert_get [OF assms(1), of _ "snd et" v t] by (auto simp: er_alias_def split: option.splits if_splits)
qed

lemma er_new_sound:
  assumes "edge_env renames \<rho> \<rho>'" and "facts_env read word \<rho>"
  shows "er_sound (er_new read word renames) \<rho> \<rho>'"
proof -
  have step: "er_sound (fold (er_step read word) rs er) \<rho> \<rho>'" if "er_sound er \<rho> \<rho>'" "edge_env rs \<rho> \<rho>'" for rs er
    using that
  proof (induction rs arbitrary: er)
    case (Cons r rs)
    have "er_sound (er_step read word r er) \<rho> \<rho>'"
      by (rule er_step_sound [OF Cons.prems(1) assms(2)]) (use Cons.prems(2) in \<open>auto simp: edge_env_def\<close>)
    then show ?case using Cons by (simp add: edge_env_def)
  qed simp
  let ?er = "fold (er_step read word) renames \<lparr>er_roots = [], er_expressions = [], er_prefix_expressions = []\<rparr>"
  have er: "er_sound ?er \<rho> \<rho>'" by (rule step) (use assms(1) in \<open>simp_all add: er_sound_def\<close>)
  have aliases: "bt_sorted (fold er_alias es roots) \<and> (\<forall>v t. bt_get (fold er_alias es roots) v = Some t \<longrightarrow> \<rho>' t = \<rho> v)"
    if "bt_sorted roots" "\<And>v t. bt_get roots v = Some t \<Longrightarrow> \<rho>' t = \<rho> v" "\<forall>(e, t) \<in> set es. ae_den \<rho> e = \<rho>' t" for es roots
    using that
  proof (induction es arbitrary: roots)
    case (Cons et es)
    have et: "ae_den \<rho> (fst et) = \<rho>' (snd et)" using Cons.prems(3) by (auto split: prod.splits)
    note a = er_alias_sound [of roots \<rho>' \<rho>, OF Cons.prems(1) _ et]
    show ?case using Cons.IH [OF a(1) a(2)] Cons.prems(2,3) by simp
  qed simp
  show ?thesis
    using aliases [of "er_roots ?er" "er_expressions ?er"] er by (auto simp: er_new_def er_sound_def Let_def)
qed

lemma option_map_list_all: "option_map_list f xs = Some ys \<Longrightarrow> x \<in> set xs \<Longrightarrow> f x \<noteq> None"
  by (induction xs arbitrary: ys) (auto simp: Option.bind_eq_Some_conv)

lemma terms_sum_cong: "(\<And>v s. (v, s) \<in> set ts \<Longrightarrow> \<rho> v = \<sigma> v) \<Longrightarrow> terms_sum \<rho> ts = terms_sum \<sigma> ts"
proof (induction ts)
  case (Cons t ts)
  have "\<rho> (fst t) = \<sigma> (fst t)" using Cons.prems [of "fst t" "snd t"] by simp
  moreover have "terms_sum \<rho> ts = terms_sum \<sigma> ts" by (rule Cons.IH) (erule Cons.prems [OF list.set_intros(2)])
  ultimately show ?case by (cases t) simp
qed simp

lemma find_elem: "List.find p xs = Some x \<Longrightarrow> x \<in> set xs \<and> p x"
  by (induction xs) (auto split: if_splits)

lemma er_expression_den:
  assumes "er_sound er \<rho> \<rho>'" and "ae_wf e" and "er_expression er e = Some e'"
  shows "ae_den \<rho>' e' = ae_den \<rho> e"
proof -
  consider "ae_is_constant e" "e' = e" | "rename_root e (er_roots er) = Some e'" |
    known target where "(known, target) \<in> set (er_expressions er)" "known = e" "e' = ae_identity target"
    using assms(3) find_elem [of "\<lambda>(known, _). known = e" "er_expressions er"]
    by (fastforce simp: er_expression_def split: if_splits option.splits)
  then show ?thesis
  proof cases
    case 1
    then have "ae_flat e = []" using assms(2) by (simp add: ae_wf_def ae_is_constant_def ae_terms_def)
    then show ?thesis using 1 by (simp add: ae_den_def)
  next
    case 2
    have "\<rho>' (the (bt_get (er_roots er) v)) = \<rho> v" if "(v, s) \<in> set (ae_flat e)" for v s
    proof -
      obtain ts where "option_map_list (\<lambda>(vid, scale). map_option (\<lambda>n. (n, scale)) (bt_get (er_roots er) vid)) (ae_flat e) = Some ts"
        using 2 by (auto simp: rename_root_def Option.bind_eq_Some_conv)
      from option_map_list_all [OF this that] obtain t where "bt_get (er_roots er) v = Some t" by auto
      then show ?thesis using assms(1) by (simp add: er_sound_def)
    qed
    then have "terms_sum (\<lambda>v. \<rho>' (the (bt_get (er_roots er) v))) (ae_flat e) = terms_sum \<rho> (ae_flat e)"
      by (rule terms_sum_cong)
    then show ?thesis using rename_root_den [OF 2, of \<rho>'] by (simp add: ae_den_def)
  next
    case 3
    then show ?thesis using assms(1) by (auto simp: er_sound_def)
  qed
qed

section \<open>Facts keep their meaning\<close>

definition bound_wf :: "symbolic_range_bound \<Rightarrow> bool" where
  "bound_wf b = ae_wf (sb_expression b)"

fun range_exprs_wf :: "abstract_byte_range \<Rightarrow> bool" where
  "range_exprs_wf (RSymbolic s e) = (bound_wf s \<and> bound_wf e)"
| "range_exprs_wf r = True"

definition ptr_exprs_wf :: "abstract_pointer \<Rightarrow> bool" where
  "ptr_exprs_wf p =
     ((case ap_offset_expression p of None \<Rightarrow> True | Some e \<Rightarrow> ae_wf e) \<and>
      (case ap_domain p of PDRestricted r \<Rightarrow> range_exprs_wf r | _ \<Rightarrow> True) \<and>
      (case ap_slice_footprint p of None \<Rightarrow> True | Some f \<Rightarrow> range_exprs_wf (fp_range f)))"

fun aval_exprs_wf :: "abstract_value \<Rightarrow> bool" where
  "aval_exprs_wf (AVPointer p) = ptr_exprs_wf p"
| "aval_exprs_wf (AVPermission p) = range_exprs_wf (perm_range p)"
| "aval_exprs_wf (AVEnumDiscriminant f) = ptr_exprs_wf (ed_pointer f)"
| "aval_exprs_wf _ = True"

lemma er_range_holds:
  assumes "er_sound er \<rho> \<rho>'" and "range_exprs_wf r" and "abr_holds r (\<rho>, s, e)"
  shows "abr_holds (er_range er r) (\<rho>', s, e)"
proof (cases r)
  case (RSymbolic a b)
  have "bound_holds \<rho>' b' v" if "er_bound er x = Some b'" "bound_wf x" "bound_holds \<rho> x v" for x b' v
    using that er_expression_den [OF assms(1)] by (auto simp: er_bound_def bound_wf_def bound_holds_def)
  then have "bound_holds \<rho>' a' s \<and> bound_holds \<rho>' b' e" if "er_bound er a = Some a'" "er_bound er b = Some b'" for a' b'
    using that assms(2,3) by (auto simp: RSymbolic)
  then show ?thesis by (auto simp: RSymbolic from_bounds_holds split: option.split)
qed (use assms(3) in auto)

lemma slice_project_holds:
  assumes "er_sound er \<rho> \<rho>'" and "case f of None \<Rightarrow> True | Some f \<Rightarrow> range_exprs_wf (fp_range f)"
    and "slice_holds f (\<rho>, c)"
  shows "slice_holds (map_option (fp_project er) f) (\<rho>', c)"
  using assms er_range_holds [OF assms(1)]
  by (auto simp: slice_holds_def fp_holds_def fp_project_def split: option.splits)

lemma er_pointer_holds:
  assumes "er_sound er (cp_env c) \<rho>'" and "ptr_exprs_wf p" and "ptr_holds p c"
  shows "ptr_holds (er_pointer er p) (c\<lparr>cp_env := \<rho>'\<rparr>)"
proof -
  have "option_holds (\<lambda>e (\<rho>, v). ae_den \<rho> e = uint v) (Option.bind (ap_offset_expression p) (er_expression er))
      (\<rho>', cp_offset c)"
    using assms(2,3) er_expression_den [OF assms(1)]
    by (cases "ap_offset_expression p"; cases "Option.bind (ap_offset_expression p) (er_expression er)")
      (auto simp: ptr_exprs_wf_def ptr_holds_def)
  moreover have "slice_holds (map_option (fp_project er) (ap_slice_footprint p)) (\<rho>', cp_slice c)"
    by (rule slice_project_holds [OF assms(1)]) (use assms(2,3) in \<open>simp_all add: ptr_exprs_wf_def ptr_holds_def\<close>)
  moreover have "pd_holds (case ap_domain p of PDRestricted r \<Rightarrow> PDRestricted (er_range er r) | d \<Rightarrow> d) (\<rho>', cp_extent c)"
    using assms(2,3) er_range_holds [OF assms(1)]
    by (auto simp: ptr_exprs_wf_def ptr_holds_def split: vir_pointer_domain.splits option.splits)
  ultimately show ?thesis
    using assms(3)
    by (simp add: ptr_holds_def er_pointer_def ap_with_offset_expression_def ap_with_slice_footprint_def ap_with_domain_def)
qed

lemma er_permission_holds:
  assumes "er_sound er (cm_env c) \<rho>'" and "range_exprs_wf (perm_range p)" and "perm_holds p c"
  shows "perm_holds (er_permission er p) (c\<lparr>cm_env := \<rho>'\<rparr>)"
  using assms(3) er_range_holds [OF assms(1,2)]
  by (simp add: perm_holds_def er_permission_def perm_new_def perm_with_availability_def perm_with_authority_def)

fun reads_env :: "(vir_value_id \<Rightarrow> int) \<Rightarrow> runtime_value \<Rightarrow> bool" where
  "reads_env \<rho> (RVWord v tag) = (case tag of None \<Rightarrow> True | Some (p, _) \<Rightarrow> cp_env p = \<rho>)"
| "reads_env \<rho> (RVBool b) = True"
| "reads_env \<rho> (RVPointer c) = (cp_env c = \<rho>)"
| "reads_env \<rho> (RVPermission c) = (cm_env c = \<rho>)"

fun cross_edge :: "(vir_value_id \<Rightarrow> int) \<Rightarrow> runtime_value \<Rightarrow> runtime_value" where
  "cross_edge \<rho>' (RVWord v tag) = RVWord v (map_option (\<lambda>(p, a). (p\<lparr>cp_env := \<rho>'\<rparr>, a)) tag)"
| "cross_edge \<rho>' (RVBool b) = RVBool b"
| "cross_edge \<rho>' (RVPointer c) = RVPointer (c\<lparr>cp_env := \<rho>'\<rparr>)"
| "cross_edge \<rho>' (RVPermission c) = RVPermission (c\<lparr>cm_env := \<rho>'\<rparr>)"

lemma er_value_holds:
  assumes "er_sound er \<rho> \<rho>'" and "aval_exprs_wf v" and "reads_env \<rho> c" and "aval_holds v c"
  shows "aval_holds (er_value er v) (cross_edge \<rho>' c)"
  using assms er_pointer_holds er_permission_holds
  by (cases v; cases c) (auto split: option.splits)

lemma al_project_holds:
  assumes "er_sound er (cl_env c) \<rho>'" and "case al_footprint l of None \<Rightarrow> True | Some f \<Rightarrow> range_exprs_wf (fp_range f)"
    and "loan_holds l c"
  shows "loan_holds (al_project_cfg_edge er l)
    (c\<lparr>cl_env := \<rho>', cl_carriers := rename_authority er ` cl_carriers c\<rparr>)"
  using assms slice_project_holds [OF assms(1,2), of "cl_slice c"] by (auto simp: loan_holds_def al_project_cfg_edge_def)

lemma os_project_holds:
  assumes "er_sound er \<rho> \<rho>'" and "os_holds s c"
    and "\<And>key p. (key, PathAvailable p) \<in> set (os_resource_payloads s) \<Longrightarrow>
      ptr_exprs_wf (tp_pointer p) \<and> range_exprs_wf (perm_range (tp_permission p))"
    and "\<And>key ptr perm. oc_payload c key = Some (ptr, perm) \<Longrightarrow> cp_env ptr = \<rho> \<and> cm_env perm = \<rho>"
  shows "os_holds (os_project_cfg_edge er s)
    (c\<lparr>oc_payload := \<lambda>key. map_option (\<lambda>(ptr, perm). (ptr\<lparr>cp_env := \<rho>'\<rparr>, perm\<lparr>cm_env := \<rho>'\<rparr>)) (oc_payload c key)\<rparr>)"
proof -
  have get: "bt_get (map (\<lambda>(k, st). (k, mp_project er st)) m) k = map_option (mp_project er) (bt_get m k)" for m k
    by (induction m k rule: bt_get.induct) auto
  have "mp_holds (mp_project er st)
      (map_option (\<lambda>(ptr, perm). (ptr\<lparr>cp_env := \<rho>'\<rparr>, perm\<lparr>cm_env := \<rho>'\<rparr>)) (oc_payload c key))"
    if st: "bt_get (os_resource_payloads s) key = Some st" "mp_holds st (oc_payload c key)" for key st
  proof (cases st)
    case (PathAvailable p)
    obtain ptr perm where pp: "oc_payload c key = Some (ptr, perm)" "ptr_holds (tp_pointer p) ptr" "perm_holds (tp_permission p) perm"
      using st(2) PathAvailable by (auto split: option.splits)
    have wf: "ptr_exprs_wf (tp_pointer p)" "range_exprs_wf (perm_range (tp_permission p))"
      using assms(3) bt_get_in_set [OF st(1)] PathAvailable by auto
    have env: "cp_env ptr = \<rho>" "cm_env perm = \<rho>" using assms(4) [OF pp(1)] by auto
    show ?thesis
      using er_pointer_holds [OF _ wf(1) pp(2), of er \<rho>'] er_permission_holds [OF _ wf(2) pp(3), of er \<rho>'] assms(1) env
      by (simp add: PathAvailable pp(1))
  qed (use st in auto)
  then show ?thesis
    using assms(2)
    by (auto simp: os_holds_def os_project_cfg_edge_def os_active_variant_def os_resource_payload_def get split: option.splits)
qed

section \<open>Properties\<close>

text \<open>C16: Crossing a control-flow edge keeps the meaning of every value fact. For all simultaneous
  renamings of SSA values, swaps and repeated arguments included, and whatever affine expressions the old
  state knew, a fact projected by the remapper holds after the edge of the value it held of before; the
  symbolic bounds and offsets are rewritten to the new names or dropped.\<close>

theorem remapped_value_sound:
  assumes "edge_env renames \<rho> \<rho>'" and "facts_env read word \<rho>"
    and "aval_exprs_wf v" and "reads_env \<rho> c" and "aval_holds v c"
  shows "aval_holds (er_value (er_new read word renames) v) (cross_edge \<rho>' c)"
  by (rule er_value_holds [OF er_new_sound [OF assms(1,2)] assms(3-5)])

definition swap_edge :: "(vir_value_id \<times> vir_value_id) list" where
  "swap_edge = [(1, 2), (2, 1)]"

definition swap_permission :: abstract_permission where
  "swap_permission =
     perm_new (ProvKnown (External 0))
       (RSymbolic \<lparr>sb_expression = ae_identity 1, sb_interval = \<lparr>iv_lower = 0, iv_upper = 8\<rparr>\<rparr>
         \<lparr>sb_expression = ae_identity 2, sb_interval = \<lparr>iv_lower = 8, iv_upper = 16\<rparr>\<rparr>)
       APWrite FreeNo"

definition swap_env :: "int \<Rightarrow> int \<Rightarrow> vir_value_id \<Rightarrow> int" where
  "swap_env a b v = (if v = 1 then a else if v = 2 then b else 0)"

definition swap_state :: permission_state where
  "swap_state =
     \<lparr>cm_env = swap_env 4 12, cm_allocation = External 0, cm_start = 4, cm_end = 12, cm_writable = True,
      cm_can_free = False, cm_usable = True, cm_authority = None\<rparr>"

theorem remapped_value_sound_witness:
  "perm_range (er_permission (er_new (\<lambda>_. None) (\<lambda>_. None) swap_edge) swap_permission) =
     RSymbolic \<lparr>sb_expression = ae_identity 2, sb_interval = \<lparr>iv_lower = 0, iv_upper = 8\<rparr>\<rparr>
       \<lparr>sb_expression = ae_identity 1, sb_interval = \<lparr>iv_lower = 8, iv_upper = 16\<rparr>\<rparr> \<and>
   aval_holds (er_value (er_new (\<lambda>_. None) (\<lambda>_. None) swap_edge) (AVPermission swap_permission))
     (cross_edge (swap_env 12 4) (RVPermission swap_state))"
proof -
  have edge: "edge_env swap_edge (swap_env 4 12) (swap_env 12 4)" by code_simp
  have facts: "facts_env (\<lambda>_. None) (\<lambda>_. None) (swap_env 4 12)" by (simp add: facts_env_def)
  have wf: "aval_exprs_wf (AVPermission swap_permission)" by code_simp
  have env: "reads_env (swap_env 4 12) (RVPermission swap_state)" by (simp add: swap_state_def)
  have holds: "aval_holds (AVPermission swap_permission) (RVPermission swap_state)" by code_simp
  have run: "perm_range (er_permission (er_new (\<lambda>_. None) (\<lambda>_. None) swap_edge) swap_permission) =
     RSymbolic \<lparr>sb_expression = ae_identity 2, sb_interval = \<lparr>iv_lower = 0, iv_upper = 8\<rparr>\<rparr>
       \<lparr>sb_expression = ae_identity 1, sb_interval = \<lparr>iv_lower = 8, iv_upper = 16\<rparr>\<rparr>"
    by code_simp
  show ?thesis using remapped_value_sound [OF edge facts wf env holds] run by blast
qed

end
