(* ===== verification/Initialization_Prefix.thy ===== *)
theory Initialization_Prefix
  imports Expression_Remapper Linear_Word "HOL-Library.Option_ord"
begin

text \<open>
  Relational initialisation facts, \<open>src/src/verifier/resource/initialization.rs\<close>: for an array at a fixed
  place of an allocation, affine counts such that the elements from the key's begin up to each count are
  initialised and valid. Facts are intersected at joins, reset by overlapping writes and carried across
  control-flow edges by the remapper.
\<close>

section \<open>Array keys\<close>

definition ae_key :: "'a affine_expression_scheme \<Rightarrow> vir_value_id option \<times> u64 \<times> u64 \<times> (vir_value_id \<times> u64) option \<times> 'a" where
  "ae_key e = (ae_root e, ae_scale e, ae_addend e, ae_second e, affine_expression.more e)"

lemma ae_key_eq [simp]: "ae_key r = ae_key s \<longleftrightarrow> r = s"
  by (auto simp: ae_key_def)

instantiation affine_expression_ext :: (linorder) linorder
begin

definition less_eq_affine_expression_ext :: "'a affine_expression_scheme \<Rightarrow> 'a affine_expression_scheme \<Rightarrow> bool" where
  "less_eq_affine_expression_ext r s \<longleftrightarrow> ae_key r \<le> ae_key s"

definition less_affine_expression_ext :: "'a affine_expression_scheme \<Rightarrow> 'a affine_expression_scheme \<Rightarrow> bool" where
  "less_affine_expression_ext r s \<longleftrightarrow> ae_key r < ae_key s"

instance
  by standard (auto simp: less_eq_affine_expression_ext_def less_affine_expression_ext_def
      dest: order_antisym intro: order_trans)

end

record array_key =
  ak_base :: u64
  ak_stride :: u64
  ak_length :: u64
  ak_element :: vir_memory_access
  ak_begin :: affine_expression

definition ak_key :: "'a array_key_scheme \<Rightarrow> u64 \<times> u64 \<times> u64 \<times> vir_memory_access \<times> affine_expression \<times> 'a" where
  "ak_key k = (ak_base k, ak_stride k, ak_length k, ak_element k, ak_begin k, array_key.more k)"

lemma ak_key_eq [simp]: "ak_key r = ak_key s \<longleftrightarrow> r = s"
  by (auto simp: ak_key_def)

instantiation array_key_ext :: (linorder) linorder
begin

definition less_eq_array_key_ext :: "'a array_key_scheme \<Rightarrow> 'a array_key_scheme \<Rightarrow> bool" where
  "less_eq_array_key_ext r s \<longleftrightarrow> ak_key r \<le> ak_key s"

definition less_array_key_ext :: "'a array_key_scheme \<Rightarrow> 'a array_key_scheme \<Rightarrow> bool" where
  "less_array_key_ext r s \<longleftrightarrow> ak_key r < ak_key s"

instance
  by standard (auto simp: less_eq_array_key_ext_def less_array_key_ext_def dest: order_antisym intro: order_trans)

end

definition MAX_PREFIXES :: nat where
  "MAX_PREFIXES = 64"

definition MAX_EQUIVALENT_COUNTS :: nat where
  "MAX_EQUIVALENT_COUNTS = 16"

definition ak_extent :: "array_key \<Rightarrow> byte_range option" where
  "ak_extent k =
     Option.bind (u64_checked_mul (ak_stride k) (ak_length k)) (\<lambda>n. result_ok (br_from_start_and_length (ak_base k) n))"

section \<open>Facts\<close>

type_synonym initialization_prefixes = "(array_key, affine_expression set) btmap"

definition ae_independent :: "vir_value_id \<Rightarrow> affine_expression \<Rightarrow> bool" where
  "ae_independent v e = list_all (\<lambda>(vid, _). vid \<noteq> v) (flatten_options (ae_terms e))"

definition ip_forget_value :: "vir_value_id \<Rightarrow> initialization_prefixes \<Rightarrow> initialization_prefixes" where
  "ip_forget_value v facts =
     map (\<lambda>(k, counts). (k, Set.filter (ae_independent v) counts)) (filter (\<lambda>(k, _). ae_independent v (ak_begin k)) facts)"

definition ranges_overlap :: "byte_range \<Rightarrow> byte_range \<Rightarrow> bool" where
  "ranges_overlap l r = (br_start l < br_end r \<and> br_start r < br_end l)"

definition ip_invalidate :: "byte_range \<Rightarrow> initialization_prefixes \<Rightarrow> initialization_prefixes" where
  "ip_invalidate r facts =
     map (\<lambda>(k, counts).
       (k, if (case ak_extent k of None \<Rightarrow> True | Some ext \<Rightarrow> ranges_overlap ext r) then {ak_begin k} else counts)) facts"

definition ip_join :: "initialization_prefixes \<Rightarrow> initialization_prefixes \<Rightarrow> initialization_prefixes" where
  "ip_join a b =
     List.map_filter (\<lambda>(k, counts). map_option (\<lambda>other. (k, counts \<inter> other)) (bt_get b k)) a"

definition limit_counts_from :: "affine_expression \<Rightarrow> affine_expression set \<Rightarrow> affine_expression set" where
  "limit_counts_from begin' counts = (if card counts > MAX_EQUIVALENT_COUNTS then {begin'} else counts)"

fun word_reading :: "abstract_value option \<Rightarrow> u64_interval option" where
  "word_reading (Some (AVU64 i)) = Some i"
| "word_reading _ = None"

definition expr_interval ::
  "(vir_value_id \<Rightarrow> abstract_value option) \<Rightarrow> affine_expression \<Rightarrow> u64_interval option" where
  "expr_interval read e =
     Option.bind
       (option_map_list (\<lambda>(vid, coefficient). map_option (\<lambda>i. (coefficient, iv_lower i, iv_upper i)) (word_reading (read vid)))
          (flatten_options (ae_terms e)))
       (\<lambda>terms. case positive_word_envelope (ae_addend e) terms of
          Inl _ \<Rightarrow> None
        | Inr (lower, upper) \<Rightarrow> result_ok (iv_new lower upper))"

definition exact_expr :: "(vir_value_id \<Rightarrow> abstract_value option) \<Rightarrow> affine_expression \<Rightarrow> affine_expression option" where
  "exact_expr read e = map_option ae_constant (Option.bind (expr_interval read e) iv_exact_value)"

definition project_alias ::
  "affine_expression \<Rightarrow> affine_expression \<times> vir_value_id \<Rightarrow> affine_expression set" where
  "project_alias count et =
     (case et of (expression, target) \<Rightarrow>
        (if count = expression then {ae_identity target} else {}) \<union>
        (if same_terms count expression
         then (case u64_checked_sub (ae_addend count) (ae_addend expression) of
                 None \<Rightarrow> {}
               | Some delta \<Rightarrow> set_option (ae_checked_add_constant (ae_identity target) delta))
         else {}))"

definition project_count :: "expression_remapper \<Rightarrow> affine_expression \<Rightarrow> affine_expression set" where
  "project_count er count =
     set_option (er_expression er count) \<union> (\<Union>et \<in> set (er_prefix_expressions er). project_alias count et)"

definition project_counts ::
  "expression_remapper \<Rightarrow> (vir_value_id \<Rightarrow> abstract_value option) \<Rightarrow> affine_expression \<Rightarrow> affine_expression set \<Rightarrow>
    affine_expression set" where
  "project_counts er read begin' counts =
     (let normalized = counts \<union> (\<Union>count \<in> counts. set_option (exact_expr read count)) in
      limit_counts_from begin' (insert begin' (\<Union>count \<in> normalized. project_count er count)))"

definition project_fact ::
  "expression_remapper \<Rightarrow> (vir_value_id \<Rightarrow> abstract_value option) \<Rightarrow> array_key \<times> affine_expression set \<Rightarrow>
    initialization_prefixes \<Rightarrow> initialization_prefixes" where
  "project_fact er read entry result =
     (let key = fst entry in
      case (case er_expression er (ak_begin key) of Some b \<Rightarrow> Some b | None \<Rightarrow> exact_expr read (ak_begin key)) of
        None \<Rightarrow> result
      | Some begin' \<Rightarrow>
          (let key' = key\<lparr>ak_begin := begin'\<rparr>;
               old = (case bt_get result key' of None \<Rightarrow> {} | Some counts \<Rightarrow> counts)
           in bt_insert key' (limit_counts_from begin' (old \<union> project_counts er read begin' (snd entry))) result))"

definition ip_project ::
  "expression_remapper \<Rightarrow> (vir_value_id \<Rightarrow> abstract_value option) \<Rightarrow> initialization_prefixes \<Rightarrow> initialization_prefixes" where
  "ip_project er read facts = fold (project_fact er read) facts []"

definition ip_detach :: "initialization_prefixes \<Rightarrow> initialization_prefixes" where
  "ip_detach facts =
     map (\<lambda>(k, counts). (k, Set.filter ae_is_constant counts)) (filter (\<lambda>(k, _). ae_is_constant (ak_begin k)) facts)"

definition ip_bind :: "array_key \<Rightarrow> affine_expression \<Rightarrow> initialization_prefixes \<Rightarrow> bool \<times> initialization_prefixes" where
  "ip_bind key count facts =
     (if length facts \<ge> MAX_PREFIXES \<and> bt_get facts key = None then (False, facts)
      else (let counts = (case bt_get facts key of None \<Rightarrow> {} | Some c \<Rightarrow> c) in
            if card counts \<ge> MAX_EQUIVALENT_COUNTS then (False, bt_insert key counts facts)
            else (True, bt_insert key (insert count counts) facts)))"

section \<open>Meaning\<close>

definition elements :: "array_key \<Rightarrow> int \<Rightarrow> int \<Rightarrow> int set" where
  "elements k b n =
     {x. \<exists>j. 0 \<le> j \<and> b \<le> j \<and> j < n \<and> j < uint (ak_length k) \<and> uint (ak_base k) + j * uint (ak_stride k) \<le> x \<and>
        x < uint (ak_base k) + (j + 1) * uint (ak_stride k)}"

definition fact_holds :: "(vir_value_id \<Rightarrow> int) \<Rightarrow> int set \<Rightarrow> array_key \<Rightarrow> affine_expression set \<Rightarrow> bool" where
  "fact_holds \<rho> G k counts =
     (ae_den \<rho> (ak_begin k) < 2 ^ 64 \<and>
      (\<forall>count \<in> counts. ae_den \<rho> count < 2 ^ 64 \<and> elements k (ae_den \<rho> (ak_begin k)) (ae_den \<rho> count) \<subseteq> G))"

definition fact_wf :: "array_key \<Rightarrow> affine_expression set \<Rightarrow> bool" where
  "fact_wf k counts = (ae_wf (ak_begin k) \<and> (\<forall>count \<in> counts. ae_wf count) \<and> finite counts)"

definition ip_holds :: "(vir_value_id \<Rightarrow> int) \<Rightarrow> int set \<Rightarrow> initialization_prefixes \<Rightarrow> bool" where
  "ip_holds \<rho> G facts = (\<forall>k counts. (k, counts) \<in> set facts \<longrightarrow> fact_holds \<rho> G k counts)"

definition ip_wf :: "initialization_prefixes \<Rightarrow> bool" where
  "ip_wf facts = (bt_sorted facts \<and> (\<forall>k counts. (k, counts) \<in> set facts \<longrightarrow> fact_wf k counts))"

lemma elements_empty [simp]: "elements k b b = {}"
  by (auto simp: elements_def)

lemma elements_mono: "n \<le> m \<Longrightarrow> elements k b n \<subseteq> elements k b m"
  by (fastforce simp: elements_def)

lemma fact_holds_reset: "fact_holds \<rho> G k counts \<Longrightarrow> fact_holds \<rho> G' k {ak_begin k}"
  by (simp add: fact_holds_def)

lemma fact_holds_subset: "fact_holds \<rho> G k counts \<Longrightarrow> counts' \<subseteq> counts \<Longrightarrow> fact_holds \<rho> G k counts'"
  by (auto simp: fact_holds_def)

lemma fact_holds_union: "fact_holds \<rho> G k a \<Longrightarrow> fact_holds \<rho> G k b \<Longrightarrow> fact_holds \<rho> G k (a \<union> b)"
  by (auto simp: fact_holds_def)

lemma fact_holds_limit: "fact_holds \<rho> G k counts \<Longrightarrow> fact_holds \<rho> G k (limit_counts_from (ak_begin k) counts)"
  by (auto simp: limit_counts_from_def intro: fact_holds_reset)

lemma fact_wf_limit: "fact_wf k counts \<Longrightarrow> fact_wf k (limit_counts_from (ak_begin k) counts)"
  by (auto simp: limit_counts_from_def fact_wf_def)

lemma start_length_Some:
  "result_ok (br_from_start_and_length start n) = Some r \<longleftrightarrow>
    (\<exists>e. u64_checked_add start n = Some e \<and> r = \<lparr>br_start = start, br_end = e\<rparr>)"
  by (cases "u64_checked_add start n") (auto simp: br_from_start_and_length_def)

lemma mapped_elem: "(k, x) \<in> set (map (\<lambda>(k, v). (k, f k v)) m) \<longleftrightarrow> (\<exists>v. (k, v) \<in> set m \<and> x = f k v)"
  by (force simp: image_iff)

lemma mapped_sorted: "bt_sorted (map (\<lambda>(k, v). (k, f k v)) m) = bt_sorted m"
  by (induction m) (auto simp: bt_sorted_def)

lemma elements_extent:
  assumes "ak_extent k = Some ext"
  shows "elements k b n \<subseteq> br_bytes ext"
proof -
  obtain m e where m: "u64_checked_mul (ak_stride k) (ak_length k) = Some m" "u64_checked_add (ak_base k) m = Some e"
    and ext: "ext = \<lparr>br_start = ak_base k, br_end = e\<rparr>"
    using assms by (auto simp: ak_extent_def start_length_Some Option.bind_eq_Some_conv)
  have e: "uint e = uint (ak_base k) + uint (ak_length k) * uint (ak_stride k)"
    using m by (auto simp: mult.commute dest!: checked_arith)
  have "x \<in> br_bytes ext"
    if h: "0 \<le> j" "j < uint (ak_length k)" "uint (ak_base k) + j * uint (ak_stride k) \<le> x"
      "x < uint (ak_base k) + (j + 1) * uint (ak_stride k)" for x j
  proof -
    have "0 \<le> j * uint (ak_stride k)" using h(1) by simp
    moreover have "(j + 1) * uint (ak_stride k) \<le> uint (ak_length k) * uint (ak_stride k)"
      using h(2) by (intro mult_right_mono) auto
    ultimately show ?thesis using h(3,4) unfolding ext br_bytes_def byte_range.select_convs e mem_Collect_eq by linarith
  qed
  then show ?thesis by (auto simp: elements_def)
qed

lemma ip_invalidate_holds:
  assumes "ip_wf facts" and "ip_holds \<rho> G facts" and "G - br_bytes r \<subseteq> G'"
  shows "ip_wf (ip_invalidate r facts)" and "ip_holds \<rho> G' (ip_invalidate r facts)"
proof -
  show "ip_wf (ip_invalidate r facts)"
    using assms(1) unfolding ip_wf_def ip_invalidate_def mapped_sorted mapped_elem by (auto simp: fact_wf_def)
  have "fact_holds \<rho> G' k counts"
    if h: "fact_holds \<rho> G k counts" "ak_extent k = Some ext" "\<not> ranges_overlap ext r" for k counts ext
  proof -
    have "br_bytes ext \<inter> br_bytes r = {}" using h(3) by (auto simp: ranges_overlap_def br_bytes_def u64_order)
    then have "elements k b n \<subseteq> G'" if "elements k b n \<subseteq> G" for b n
      using that elements_extent [OF h(2), of b n] assms(3) by blast
    then show ?thesis using h(1) by (auto simp: fact_holds_def)
  qed
  note kept = this
  show "ip_holds \<rho> G' (ip_invalidate r facts)"
    unfolding ip_holds_def ip_invalidate_def mapped_elem
  proof (intro allI impI, elim exE conjE)
    fix k counts orig
    assume k: "(k, orig) \<in> set facts" and
      counts: "counts = (if case ak_extent k of None \<Rightarrow> True | Some ext \<Rightarrow> ranges_overlap ext r then {ak_begin k} else orig)"
    have h: "fact_holds \<rho> G k orig" using assms(2) k by (simp add: ip_holds_def)
    show "fact_holds \<rho> G' k counts"
      using kept [OF h] fact_holds_reset [OF h, of G'] by (cases "ak_extent k") (auto simp: counts)
  qed
qed

lemma bt_sorted_filter [simp]: "bt_sorted m \<Longrightarrow> bt_sorted (filter p m)"
  by (induction m) (auto simp: bt_sorted_def)

lemma independent_den: "ae_independent v e \<Longrightarrow> ae_den (\<rho>(v := x)) e = ae_den \<rho> e"
proof -
  assume "ae_independent v e"
  then have "terms_sum (\<rho>(v := x)) (ae_flat e) = terms_sum \<rho> (ae_flat e)"
    by (intro terms_sum_cong) (auto simp: ae_independent_def list_all_iff)
  then show ?thesis by (simp add: ae_den_def)
qed

lemma ip_forget_value_holds:
  assumes "ip_wf facts" and "ip_holds \<rho> G facts"
  shows "ip_wf (ip_forget_value v facts)" and "ip_holds (\<rho>(v := x)) G (ip_forget_value v facts)"
proof -
  show "ip_wf (ip_forget_value v facts)"
    using assms(1) unfolding ip_wf_def ip_forget_value_def mapped_sorted mapped_elem
    by (auto simp: fact_wf_def bt_sorted_filter)
  show "ip_holds (\<rho>(v := x)) G (ip_forget_value v facts)"
    unfolding ip_holds_def ip_forget_value_def mapped_elem
  proof (intro allI impI, elim exE conjE)
    fix k counts orig
    assume k: "(k, orig) \<in> set (filter (\<lambda>(k, _). ae_independent v (ak_begin k)) facts)" and
      counts: "counts = Set.filter (ae_independent v) orig"
    have "fact_holds \<rho> G k orig" using assms(2) k by (simp add: ip_holds_def)
    then show "fact_holds (\<rho>(v := x)) G k counts" using k by (simp add: counts fact_holds_def independent_den)
  qed
qed

lemma ip_join_elem:
  "(k, x) \<in> set (ip_join a b) \<longleftrightarrow> (\<exists>v w. (k, v) \<in> set a \<and> bt_get b k = Some w \<and> x = v \<inter> w)"
  by (force simp: ip_join_def List.map_filter_def image_iff)

lemma ip_join_sorted: "bt_sorted a \<Longrightarrow> bt_sorted (ip_join a b) \<and> fst ` set (ip_join a b) \<subseteq> fst ` set a"
proof (induction a)
  case (Cons e a)
  obtain k v where e: "e = (k, v)" by force
  have a: "bt_sorted a" "\<forall>x \<in> fst ` set a. k < x" using Cons.prems by (auto simp: e bt_sorted_Cons)
  have "\<forall>z \<in> set (map fst (ip_join a b)). k < z" using Cons.IH [OF a(1)] a(2) unfolding set_map by blast
  then show ?case
    using Cons.IH [OF a(1)]
    by (cases "bt_get b k") (auto simp: ip_join_def List.map_filter_simps e bt_sorted_Cons)
qed (simp add: ip_join_def List.map_filter_simps)

lemma ip_join_holds:
  assumes "ip_wf a" and "ip_wf b"
  shows "ip_wf (ip_join a b)" and "ip_holds \<rho> G a \<or> ip_holds \<rho> G b \<Longrightarrow> ip_holds \<rho> G (ip_join a b)"
proof -
  have "fact_wf k x" if h: "(k, x) \<in> set (ip_join a b)" for k x
  proof -
    obtain v w where "(k, v) \<in> set a" "x = v \<inter> w" using h ip_join_elem by blast
    moreover from this have "fact_wf k v" using assms(1) by (simp add: ip_wf_def)
    ultimately show ?thesis by (simp add: fact_wf_def)
  qed
  then show "ip_wf (ip_join a b)" using assms(1) ip_join_sorted by (simp add: ip_wf_def)
  assume either: "ip_holds \<rho> G a \<or> ip_holds \<rho> G b"
  show "ip_holds \<rho> G (ip_join a b)"
    unfolding ip_holds_def ip_join_elem
  proof (intro allI impI, elim exE conjE)
    fix k x v w
    assume vw: "(k, v) \<in> set a" "bt_get b k = Some w" "x = v \<inter> w"
    then have "fact_holds \<rho> G k v \<or> fact_holds \<rho> G k w"
      using either bt_get_in_set [OF vw(2)] by (auto simp: ip_holds_def)
    then show "fact_holds \<rho> G k x" using vw(3) fact_holds_subset by blast
  qed
qed

section \<open>Numeric readings\<close>

definition reads :: "(vir_value_id \<Rightarrow> abstract_value option) \<Rightarrow> (vir_value_id \<Rightarrow> int) \<Rightarrow> bool" where
  "reads read \<rho> = (\<forall>v i. read v = Some (AVU64 i) \<longrightarrow> uint (iv_lower i) \<le> \<rho> v \<and> \<rho> v \<le> uint (iv_upper i))"

lemma word_reading_Some: "word_reading r = Some i \<longleftrightarrow> r = Some (AVU64 i)"
  by (cases r rule: word_reading.cases) auto

lemma reading_ranges:
  assumes "option_map_list (\<lambda>(vid, c). map_option (\<lambda>i. (c, iv_lower i, iv_upper i)) (word_reading (read vid))) ts = Some terms"
    and "reads read \<rho>"
  shows "in_ranges terms (map (\<lambda>(vid, _). word_of_int (\<rho> vid)) ts) \<and>
    weighted terms (map (\<lambda>(vid, _). word_of_int (\<rho> vid)) ts) = terms_sum \<rho> ts"
  using assms(1)
proof (induction ts arbitrary: terms)
  case (Cons t ts)
  obtain vid c where t: "t = (vid, c)" by force
  obtain i rest where i: "word_reading (read vid) = Some i" and
    rest: "option_map_list (\<lambda>(vid, c). map_option (\<lambda>i. (c, iv_lower i, iv_upper i)) (word_reading (read vid))) ts = Some rest"
    and terms: "terms = (c, iv_lower i, iv_upper i) # rest"
    using Cons.prems by (auto simp: t Option.bind_eq_Some_conv)
  have b: "uint (iv_lower i) \<le> \<rho> vid" "\<rho> vid \<le> uint (iv_upper i)"
    using assms(2) i by (auto simp: reads_def word_reading_Some)
  then have "uint (word_of_int (\<rho> vid) :: u64) = \<rho> vid"
    using order_trans [OF uint_ge_0 b(1)] le_less_trans [OF b(2) uint_u64_bound]
    by (simp add: uint_word_of_int mod_pos_pos_trivial)
  then show ?case using Cons.IH [OF rest] b by (simp add: terms t in_ranges_def word_le_def)
qed (simp add: in_ranges_def)

lemma expr_interval_bounds:
  assumes "expr_interval read e = Some i" and "reads read \<rho>" and "ae_den \<rho> e < 2 ^ 64"
  shows "uint (iv_lower i) \<le> ae_den \<rho> e" and "ae_den \<rho> e \<le> uint (iv_upper i)"
proof -
  obtain terms l u where terms:
      "option_map_list (\<lambda>(vid, c). map_option (\<lambda>i. (c, iv_lower i, iv_upper i)) (word_reading (read vid))) (ae_flat e) = Some terms"
      "positive_word_envelope (ae_addend e) terms = Inr (l, u)" "i = \<lparr>iv_lower = l, iv_upper = u\<rparr>"
  proof -
    obtain terms where t: "option_map_list (\<lambda>(vid, c). map_option (\<lambda>i. (c, iv_lower i, iv_upper i)) (word_reading (read vid)))
        (ae_flat e) = Some terms"
      and p: "(case positive_word_envelope (ae_addend e) terms of Inl _ \<Rightarrow> None
        | Inr (lower, upper) \<Rightarrow> result_ok (iv_new lower upper)) = Some i"
      using assms(1) by (auto simp: expr_interval_def Option.bind_eq_Some_conv)
    show thesis
    proof (cases "positive_word_envelope (ae_addend e) terms")
      case (Inr lu)
      then show ?thesis using p t that by (cases lu) (simp add: iv_new_ok)
    qed (use p in simp)
  qed
  note r = reading_ranges [OF terms(1) assms(2)]
  have "uint l \<le> ae_den \<rho> e \<and> ae_den \<rho> e \<le> uint u"
    using envelope_bounds [OF terms(2) [unfolded positive_word_envelope_def] conjunct1 [OF r], of "uint (ae_addend e)"]
      conjunct2 [OF r] assms(3) by (simp add: ae_den_def)
  then show "uint (iv_lower i) \<le> ae_den \<rho> e" "ae_den \<rho> e \<le> uint (iv_upper i)" by (auto simp: terms(3))
qed

lemma exact_expr_den:
  assumes "exact_expr read e = Some c" and "reads read \<rho>" and "ae_den \<rho> e < 2 ^ 64"
  shows "ae_wf c" and "ae_den \<sigma> c = ae_den \<rho> e"
proof -
  obtain i v where i: "expr_interval read e = Some i" "iv_exact_value i = Some v" "c = ae_constant v"
    using assms(1) by (auto simp: exact_expr_def Option.bind_eq_Some_conv)
  show "ae_wf c" by (simp add: i(3) ae_wf_def) (simp add: ae_constant_def)
  show "ae_den \<sigma> c = ae_den \<rho> e"
    using exact_den [OF i(2) expr_interval_bounds [OF i(1) assms(2,3)]] by (simp add: i(3))
qed

section \<open>Crossing an edge\<close>

lemma ae_identity_wf [simp]: "ae_wf (ae_identity v)"
  by (simp add: ae_wf_def ae_identity_def ae_terms_def canonical_terms_def)

lemma er_expression_wf: "ae_wf e \<Longrightarrow> er_expression er e = Some e' \<Longrightarrow> ae_wf e'"
  using rename_root_den [of e "er_roots er" e']
  by (auto simp: er_expression_def split: if_splits option.splits prod.splits)

lemma project_alias_den:
  assumes "ae_den \<rho> (fst et) = \<rho>' (snd et)" and "c \<in> project_alias count et"
  shows "ae_wf c \<and> ae_den \<rho>' c = ae_den \<rho> count"
proof -
  obtain e t where et: "et = (e, t)" by force
  consider "count = e" "c = ae_identity t" | delta where "same_terms count e"
      "u64_checked_sub (ae_addend count) (ae_addend e) = Some delta" "ae_checked_add_constant (ae_identity t) delta = Some c"
    using assms(2) by (auto simp: project_alias_def et split: if_splits option.splits)
  then show ?thesis
  proof cases
    case 2
    have flat: "ae_flat count = ae_flat e" using 2(1) by (simp add: same_terms_def)
    have "c = ae_identity t\<lparr>ae_addend := delta\<rparr>"
      using 2(3) by (auto simp: ae_checked_add_constant_def ae_identity_def u64_checked_add_def split: if_splits)
    moreover have "ae_flat (ae_identity t\<lparr>ae_addend := delta\<rparr>) = ae_flat (ae_identity t)" by simp
    ultimately have "ae_wf c" "ae_den \<rho>' c = uint delta + \<rho>' t"
      by (simp_all add: ae_wf_def ae_den_def ae_identity_def ae_terms_def canonical_terms_def)
    moreover have "uint delta = uint (ae_addend count) - uint (ae_addend e)" using 2(2) by (rule u64_checked_sub_Some)
    ultimately show ?thesis using assms(1) flat by (simp add: et ae_den_def)
  qed (use assms(1) in \<open>simp add: et\<close>)
qed

lemma project_count_den:
  assumes "er_sound er \<rho> \<rho>'" and "ae_wf count" and "c \<in> project_count er count"
  shows "ae_wf c \<and> ae_den \<rho>' c = ae_den \<rho> count"
  using assms(3) er_expression_den [OF assms(1,2)] er_expression_wf [OF assms(2)] project_alias_den [of \<rho> _ \<rho>' c count] assms(1)
  by (fastforce simp: project_count_def er_sound_def)

lemma project_alias_finite: "finite (project_alias count et)"
  by (auto simp: project_alias_def split: prod.splits option.splits)

lemma project_counts_holds:
  assumes "er_sound er \<rho> \<rho>'" and "reads read \<rho>" and "fact_wf k counts" and "fact_holds \<rho> G k counts"
    and "ae_wf begin'" and "ae_den \<rho>' begin' = ae_den \<rho> (ak_begin k)"
  shows "fact_wf (k\<lparr>ak_begin := begin'\<rparr>) (project_counts er read begin' counts)"
    and "fact_holds \<rho>' G (k\<lparr>ak_begin := begin'\<rparr>) (project_counts er read begin' counts)"
proof -
  let ?k = "k\<lparr>ak_begin := begin'\<rparr>"
  define normalized where "normalized = counts \<union> (\<Union>count \<in> counts. set_option (exact_expr read count))"
  have elements: "elements ?k b n = elements k b n" for b n by (simp add: elements_def)
  have norm: "ae_wf n \<and> (\<exists>count \<in> counts. ae_den \<rho> n = ae_den \<rho> count)" if "n \<in> normalized" for n
    using that assms(3,4) exact_expr_den [OF _ assms(2)] by (fastforce simp: normalized_def fact_wf_def fact_holds_def)
  have "c = begin' \<or> (ae_wf c \<and> (\<exists>count \<in> counts. ae_den \<rho>' c = ae_den \<rho> count))"
    if "c \<in> insert begin' (\<Union>count \<in> normalized. project_count er count)" for c
    using that norm project_count_den [OF assms(1)] by fastforce
  moreover have "finite (insert begin' (\<Union>count \<in> normalized. project_count er count))"
    using assms(3) by (auto simp: normalized_def project_count_def project_alias_finite fact_wf_def)
  ultimately have "fact_wf ?k (insert begin' (\<Union>count \<in> normalized. project_count er count))"
    "fact_holds \<rho>' G ?k (insert begin' (\<Union>count \<in> normalized. project_count er count))"
    using assms(4-6) by (fastforce simp: fact_wf_def fact_holds_def elements)+
  then show "fact_wf ?k (project_counts er read begin' counts)" "fact_holds \<rho>' G ?k (project_counts er read begin' counts)"
    using fact_wf_limit [of ?k] fact_holds_limit [of \<rho>' G ?k]
    by (simp_all add: project_counts_def normalized_def [symmetric] Let_def)
qed

lemma ip_insert_holds:
  assumes "ip_wf facts" and "ip_holds \<rho> G facts" and "fact_wf k c" and "fact_holds \<rho> G k c"
  shows "ip_wf (bt_insert k c facts)" and "ip_holds \<rho> G (bt_insert k c facts)"
proof -
  have "x = (k, c) \<or> x \<in> set facts" if "x \<in> set (bt_insert k c facts)" for x using that by (rule bt_insert_elem)
  then show "ip_wf (bt_insert k c facts)" "ip_holds \<rho> G (bt_insert k c facts)"
    using assms unfolding ip_wf_def ip_holds_def by blast+
qed

lemma project_fact_holds:
  assumes "er_sound er \<rho> \<rho>'" and "reads read \<rho>" and "fact_wf (fst entry) (snd entry)" and "fact_holds \<rho> G (fst entry) (snd entry)"
    and "ip_wf result" and "ip_holds \<rho>' G result"
  shows "ip_wf (project_fact er read entry result) \<and> ip_holds \<rho>' G (project_fact er read entry result)"
proof -
  let ?k = "fst entry"
  let ?start = "case er_expression er (ak_begin ?k) of Some b \<Rightarrow> Some b | None \<Rightarrow> exact_expr read (ak_begin ?k)"
  show ?thesis
  proof (cases ?start)
    case None
    then show ?thesis using assms(5,6) by (simp add: project_fact_def Let_def)
  next
    case (Some b)
    let ?k' = "?k\<lparr>ak_begin := b\<rparr>"
    let ?old = "case bt_get result ?k' of None \<Rightarrow> {} | Some counts \<Rightarrow> counts"
    have wfk: "ae_wf (ak_begin ?k)" and less: "ae_den \<rho> (ak_begin ?k) < 2 ^ 64"
      using assms(3,4) by (simp_all add: fact_wf_def fact_holds_def)
    have b: "ae_wf b" "ae_den \<rho>' b = ae_den \<rho> (ak_begin ?k)"
      using Some er_expression_den [OF assms(1) wfk] er_expression_wf [OF wfk] exact_expr_den [OF _ assms(2) less]
      by (auto split: option.splits)
    have first: "ae_den \<rho>' (ak_begin ?k') < 2 ^ 64" using b less by simp
    have old: "fact_wf ?k' ?old" "fact_holds \<rho>' G ?k' ?old"
      using assms(5,6) first b(1) bt_get_in_set [of result ?k']
      by (auto simp: ip_wf_def ip_holds_def fact_wf_def [of _ "{}"] fact_holds_def [of _ _ _ "{}"] split: option.splits)
    note new = project_counts_holds [OF assms(1-4) b]
    have "fact_wf ?k' (?old \<union> project_counts er read b (snd entry))"
      "fact_holds \<rho>' G ?k' (?old \<union> project_counts er read b (snd entry))"
      using old new fact_holds_union by (auto simp: fact_wf_def)
    then have "fact_wf ?k' (limit_counts_from b (?old \<union> project_counts er read b (snd entry)))"
      "fact_holds \<rho>' G ?k' (limit_counts_from b (?old \<union> project_counts er read b (snd entry)))"
      using fact_wf_limit [of ?k'] fact_holds_limit [of \<rho>' G ?k'] by simp_all
    then show ?thesis using ip_insert_holds [OF assms(5,6)] Some by (simp add: project_fact_def Let_def)
  qed
qed

lemma ip_project_holds:
  assumes "er_sound er \<rho> \<rho>'" and "reads read \<rho>" and "ip_wf facts" and "ip_holds \<rho> G facts"
  shows "ip_wf (ip_project er read facts)" and "ip_holds \<rho>' G (ip_project er read facts)"
proof -
  have "ip_wf (fold (project_fact er read) fs result) \<and> ip_holds \<rho>' G (fold (project_fact er read) fs result)"
    if "set fs \<subseteq> set facts" "ip_wf result" "ip_holds \<rho>' G result" for fs result
    using that
  proof (induction fs arbitrary: result)
    case (Cons f fs)
    have "fact_wf (fst f) (snd f)" "fact_holds \<rho> G (fst f) (snd f)"
      using Cons.prems(1) assms(3,4) by (auto simp: ip_wf_def ip_holds_def)
    then show ?case using Cons project_fact_holds [OF assms(1,2)] by simp
  qed simp
  from this [of facts "[]"] show "ip_wf (ip_project er read facts)" "ip_holds \<rho>' G (ip_project er read facts)"
    by (simp_all add: ip_project_def ip_wf_def ip_holds_def)
qed

lemma constant_den: "ae_wf e \<Longrightarrow> ae_is_constant e \<Longrightarrow> ae_den \<sigma> e = ae_den \<rho> e"
  by (simp add: ae_wf_def ae_is_constant_def ae_den_def ae_terms_def)

lemma ip_detach_holds:
  assumes "ip_wf facts" and "ip_holds \<rho> G facts"
  shows "ip_wf (ip_detach facts)" and "ip_holds \<sigma> G (ip_detach facts)"
proof -
  show "ip_wf (ip_detach facts)"
    using assms(1) unfolding ip_wf_def ip_detach_def mapped_sorted mapped_elem by (auto simp: fact_wf_def)
  show "ip_holds \<sigma> G (ip_detach facts)"
    unfolding ip_holds_def ip_detach_def mapped_elem
  proof (intro allI impI, elim exE conjE)
    fix k counts orig
    assume k: "(k, orig) \<in> set (filter (\<lambda>(k, _). ae_is_constant (ak_begin k)) facts)" and
      counts: "counts = Set.filter ae_is_constant orig"
    have "fact_holds \<rho> G k orig" "fact_wf k orig" using assms k by (auto simp: ip_holds_def ip_wf_def)
    then show "fact_holds \<sigma> G k counts"
      using k constant_den [of _ \<sigma> \<rho>] by (auto simp: counts fact_holds_def fact_wf_def)
  qed
qed

lemma ip_bind_holds:
  assumes "ip_wf facts" and "ip_holds \<rho> G facts" and "ae_wf (ak_begin k)" and "ae_wf count"
    and "ae_den \<rho> (ak_begin k) < 2 ^ 64" and "ae_den \<rho> count < 2 ^ 64"
    and "elements k (ae_den \<rho> (ak_begin k)) (ae_den \<rho> count) \<subseteq> G"
  shows "ip_wf (snd (ip_bind k count facts))" and "ip_holds \<rho> G (snd (ip_bind k count facts))"
proof -
  let ?counts = "case bt_get facts k of None \<Rightarrow> {} | Some c \<Rightarrow> c"
  have old: "fact_wf k ?counts" "fact_holds \<rho> G k ?counts"
    using assms bt_get_in_set [of facts k]
    by (auto simp: ip_wf_def ip_holds_def fact_wf_def [of _ "{}"] fact_holds_def [of _ _ _ "{}"] split: option.splits)
  then have "fact_wf k (insert count ?counts)" "fact_holds \<rho> G k (insert count ?counts)"
    using assms(4,6,7) by (simp_all add: fact_wf_def fact_holds_def)
  then show "ip_wf (snd (ip_bind k count facts))" "ip_holds \<rho> G (snd (ip_bind k count facts))"
    using old ip_insert_holds [OF assms(1,2)] assms(1,2) by (auto simp: ip_bind_def Let_def)
qed

end
