(* ===== verification/Scalar_Contents.thy ===== *)
theory Scalar_Contents
  imports Initialization_Prefix
begin

text \<open>
  Bounded scalar contents of an allocation, \<open>src/src/verifier/resource/contents.rs\<close>, with the historical
  origins of \<open>src/src/verifier/resource/scalar_origin.rs\<close> they carry. Every write forgets the cells it
  touches; a recorded cell is kept only while its bytes stay untouched.
\<close>

section \<open>Origins\<close>

record transported_origin =
  to_epoch :: u64
  to_index :: u32

record scalar_cell_snapshot =
  cs_epoch :: u64
  cs_allocation :: abstract_allocation_id
  cs_bytes :: byte_range
  cs_access :: vir_memory_access

datatype bool_origin =
    BTransported transported_origin
  | BSnapshot scalar_cell_snapshot
  | BParameter u32 vir_value_id
  | BCell abstract_allocation_id byte_range vir_memory_access

datatype scalar_origin_root =
    STransported transported_origin
  | SSnapshot scalar_cell_snapshot
  | SCell abstract_allocation_id byte_range vir_memory_access
  | SParameter u32 vir_value_id

record scalar_origin_cell =
  oc_root :: scalar_origin_root
  oc_initial_lower :: u64
  oc_initial_upper :: u64

record scalar_origin =
  so_first :: scalar_origin_cell
  so_scale :: u64
  so_second :: "(scalar_origin_cell \<times> u64) option"
  so_addend :: u64

section \<open>Heap prefixes\<close>

record heap_initialization_prefix =
  hp_array_offset :: u64
  hp_element :: vir_memory_access
  hp_length :: u64
  hp_stride :: u64
  hp_count_offset :: u64
  hp_count_access :: vir_memory_access

definition hp_key ::
  "'a heap_initialization_prefix_scheme \<Rightarrow> u64 \<times> vir_memory_access \<times> u64 \<times> u64 \<times> u64 \<times> vir_memory_access \<times> 'a" where
  "hp_key p =
     (hp_array_offset p, hp_element p, hp_length p, hp_stride p, hp_count_offset p, hp_count_access p,
      heap_initialization_prefix.more p)"

lemma hp_key_eq [simp]: "hp_key r = hp_key s \<longleftrightarrow> r = s"
  by (auto simp: hp_key_def)

instantiation heap_initialization_prefix_ext :: (linorder) linorder
begin

definition less_eq_heap_initialization_prefix_ext ::
  "'a heap_initialization_prefix_scheme \<Rightarrow> 'a heap_initialization_prefix_scheme \<Rightarrow> bool" where
  "less_eq_heap_initialization_prefix_ext r s \<longleftrightarrow> hp_key r \<le> hp_key s"

definition less_heap_initialization_prefix_ext ::
  "'a heap_initialization_prefix_scheme \<Rightarrow> 'a heap_initialization_prefix_scheme \<Rightarrow> bool" where
  "less_heap_initialization_prefix_ext r s \<longleftrightarrow> hp_key r < hp_key s"

instance
  by standard (auto simp: less_eq_heap_initialization_prefix_ext_def less_heap_initialization_prefix_ext_def
      dest: order_antisym intro: order_trans)

end

definition hp_count_range :: "heap_initialization_prefix \<Rightarrow> byte_range" where
  "hp_count_range p = the (result_ok (br_from_start_and_length (hp_count_offset p) 8))"

definition hp_extent :: "heap_initialization_prefix \<Rightarrow> byte_range" where
  "hp_extent p = the (result_ok (br_from_start_and_length (hp_array_offset p) (hp_length p * hp_stride p)))"

section \<open>Contents\<close>

type_synonym cell_key = "byte_range \<times> vir_memory_access"

record scalar_contents =
  sc_values :: "(cell_key, abstract_value) btmap"
  sc_prefixes :: "(heap_initialization_prefix, bool) btmap"
  sc_word_origins :: "(cell_key, scalar_origin) btmap"
  sc_bool_origins :: "(cell_key, bool_origin) btmap"

definition sc_default :: scalar_contents where
  "sc_default = \<lparr>sc_values = [], sc_prefixes = [], sc_word_origins = [], sc_bool_origins = []\<rparr>"

definition outside_cells :: "byte_range \<Rightarrow> (cell_key, 'v) btmap \<Rightarrow> (cell_key, 'v) btmap" where
  "outside_cells r m = filter (\<lambda>((cell, _), _). br_intersection cell r = None) m"

definition sc_forget :: "byte_range \<Rightarrow> scalar_contents \<Rightarrow> scalar_contents" where
  "sc_forget r s =
     \<lparr>sc_values = outside_cells r (sc_values s),
      sc_prefixes =
        bt_overwrite (\<lambda>p. br_intersection (hp_count_range p) r \<noteq> None \<or> br_intersection (hp_extent p) r \<noteq> None)
          False (sc_prefixes s),
      sc_word_origins = outside_cells r (sc_word_origins s),
      sc_bool_origins = outside_cells r (sc_bool_origins s)\<rparr>"

definition sc_clear :: "scalar_contents \<Rightarrow> scalar_contents" where
  "sc_clear s = sc_default"

fun is_scalar_fact :: "abstract_value \<Rightarrow> bool" where
  "is_scalar_fact (AVU64 _) = True"
| "is_scalar_fact (AVBool _) = True"
| "is_scalar_fact _ = False"

definition sc_record :: "byte_range \<Rightarrow> vir_memory_access \<Rightarrow> abstract_value \<Rightarrow> scalar_contents \<Rightarrow> scalar_contents" where
  "sc_record r access v s =
     (let s' = sc_forget r s in
      if length (sc_values s') < 64 \<and> is_scalar_fact v
      then s'\<lparr>sc_values := bt_insert (r, access) v (sc_values s')\<rparr> else s')"

definition sc_get :: "scalar_contents \<Rightarrow> byte_range \<Rightarrow> vir_memory_access \<Rightarrow> abstract_value option" where
  "sc_get s r access = bt_get (sc_values s) (r, access)"

fun join_scalar :: "abstract_value \<Rightarrow> abstract_value \<Rightarrow> abstract_value option" where
  "join_scalar (AVU64 a) (AVU64 b) = Some (AVU64 (iv_join a b))"
| "join_scalar (AVBool a) (AVBool b) = Some (AVBool (ab_join a b))"
| "join_scalar _ _ = None"

definition common_entries :: "('v \<Rightarrow> 'v \<Rightarrow> 'v option) \<Rightarrow> ('k::linorder, 'v) btmap \<Rightarrow> ('k, 'v) btmap \<Rightarrow> ('k, 'v) btmap" where
  "common_entries f m n =
     List.map_filter (\<lambda>(k, v). Option.bind (bt_get n k) (\<lambda>w. map_option (\<lambda>x. (k, x)) (f v w))) m"

definition sc_join :: "scalar_contents \<Rightarrow> scalar_contents \<Rightarrow> scalar_contents" where
  "sc_join a b =
     \<lparr>sc_values = common_entries join_scalar (sc_values a) (sc_values b),
      sc_prefixes = common_entries (\<lambda>v w. Some (v \<and> w)) (sc_prefixes a) (sc_prefixes b),
      sc_word_origins = filter (\<lambda>(k, v). bt_get (sc_word_origins b) k = Some v) (sc_word_origins a),
      sc_bool_origins = filter (\<lambda>(k, v). bt_get (sc_bool_origins b) k = Some v) (sc_bool_origins a)\<rparr>"

definition sc_widen :: "scalar_contents \<Rightarrow> scalar_contents \<Rightarrow> scalar_contents \<Rightarrow> scalar_contents" where
  "sc_widen left right s =
     (let values = filter (\<lambda>(k, _). bt_get (sc_values left) k = bt_get (sc_values right) k) (sc_values s) in
      s\<lparr>sc_values := values,
        sc_word_origins := filter (\<lambda>(k, _). bt_get values k \<noteq> None) (sc_word_origins s),
        sc_bool_origins := filter (\<lambda>(k, _). bt_get values k \<noteq> None) (sc_bool_origins s)\<rparr>)"

definition sc_certify :: "heap_initialization_prefix \<Rightarrow> scalar_contents \<Rightarrow> scalar_contents" where
  "sc_certify p s =
     (if length (sc_prefixes s) < 32 \<or> bt_get (sc_prefixes s) p \<noteq> None
      then s\<lparr>sc_prefixes := bt_insert p True (sc_prefixes s)\<rparr> else s)"

section \<open>Meaning\<close>

datatype scalar_value = SWord u64 | SBool bool

type_synonym cells = "cell_key \<Rightarrow> scalar_value"

fun scalar_fact_holds :: "abstract_value \<Rightarrow> scalar_value \<Rightarrow> bool" where
  "scalar_fact_holds (AVU64 i) (SWord v) = iv_contains i v"
| "scalar_fact_holds (AVBool b) (SBool v) = ab_contains b v"
| "scalar_fact_holds _ _ = False"

definition hp_wf :: "heap_initialization_prefix \<Rightarrow> bool" where
  "hp_wf p =
     (uint (hp_count_offset p) + 8 < 2 ^ 64 \<and>
      uint (hp_array_offset p) + uint (hp_length p) * uint (hp_stride p) < 2 ^ 64)"

definition prefix_bytes :: "heap_initialization_prefix \<Rightarrow> u64 \<Rightarrow> int set" where
  "prefix_bytes p n =
     {x. uint (hp_array_offset p) \<le> x \<and> x < uint (hp_array_offset p) + uint n * uint (hp_stride p)}"

definition hp_holds :: "heap_initialization_prefix \<Rightarrow> cells \<Rightarrow> int set \<Rightarrow> bool" where
  "hp_holds p w G =
     (\<forall>n. w (hp_count_range p, hp_count_access p) = SWord n \<longrightarrow> n \<le> hp_length p \<longrightarrow> prefix_bytes p n \<subseteq> G)"

definition sc_holds :: "scalar_contents \<Rightarrow> cells \<Rightarrow> int set \<Rightarrow> bool" where
  "sc_holds s w G =
     ((\<forall>(k, v) \<in> set (sc_values s). scalar_fact_holds v (w k)) \<and>
      (\<forall>(p, valid) \<in> set (sc_prefixes s). valid \<longrightarrow> hp_holds p w G))"

definition sc_wf :: "scalar_contents \<Rightarrow> bool" where
  "sc_wf s =
     (bt_sorted (sc_values s) \<and> length (sc_values s) \<le> 64 \<and> (\<forall>(k, v) \<in> set (sc_values s). is_scalar_fact v \<and> aval_wf v) \<and>
      bt_sorted (sc_prefixes s) \<and> length (sc_prefixes s) \<le> 32 \<and> (\<forall>(p, valid) \<in> set (sc_prefixes s). hp_wf p) \<and>
      bt_sorted (sc_word_origins s) \<and> bt_sorted (sc_bool_origins s))"

definition cells_outside :: "byte_range \<Rightarrow> cells \<Rightarrow> cells \<Rightarrow> bool" where
  "cells_outside r w w' = (\<forall>cell access. br_intersection cell r = None \<longrightarrow> w' (cell, access) = w (cell, access))"

lemma sc_default_ok [simp]: "sc_wf sc_default" "sc_holds sc_default w G"
  by (simp_all add: sc_wf_def sc_holds_def sc_default_def)

lemma length_filter_bound: "length m \<le> n \<Longrightarrow> length (filter p m) \<le> n"
  by (rule order_trans [OF length_filter_le])

lemma overwrite_elem:
  "(k, x) \<in> set (bt_overwrite p v m) \<longleftrightarrow> (\<exists>w. (k, w) \<in> set m \<and> x = (if p k then v else w))"
  by (force simp: bt_overwrite_def image_iff)

lemma hp_extent_bytes: "hp_wf p \<Longrightarrow> n \<le> hp_length p \<Longrightarrow> prefix_bytes p n \<subseteq> br_bytes (hp_extent p)"
proof -
  assume wf: "hp_wf p" and n: "n \<le> hp_length p"
  have len: "uint (hp_length p * hp_stride p) = uint (hp_length p) * uint (hp_stride p)"
  proof (rule uint_mul_u64)
    have "uint (hp_length p) * uint (hp_stride p) \<le> uint (hp_array_offset p) + uint (hp_length p) * uint (hp_stride p)"
      by simp
    also have "\<dots> < 2 ^ 64" using wf by (simp add: hp_wf_def)
    finally show "uint (hp_length p) * uint (hp_stride p) < 2 ^ 64" .
  qed
  then have "hp_extent p = \<lparr>br_start = hp_array_offset p, br_end = hp_array_offset p + hp_length p * hp_stride p\<rparr>"
    "uint (hp_array_offset p + hp_length p * hp_stride p) = uint (hp_array_offset p) + uint (hp_length p) * uint (hp_stride p)"
    using wf uint_add_u64 [of "hp_array_offset p" "hp_length p * hp_stride p"]
    by (simp_all add: hp_wf_def hp_extent_def br_from_start_and_length_def u64_checked_add_def)
  moreover have "uint n * uint (hp_stride p) \<le> uint (hp_length p) * uint (hp_stride p)"
    using n by (simp add: word_le_def mult_right_mono)
  ultimately show ?thesis by (auto simp: prefix_bytes_def br_bytes_def)
qed

lemma sc_forget_holds:
  assumes "sc_wf s" and "sc_holds s w G" and "cells_outside r w w'" and "G - br_bytes r \<subseteq> G'"
  shows "sc_wf (sc_forget r s)" and "sc_holds (sc_forget r s) w' G'"
proof -
  show "sc_wf (sc_forget r s)"
    using assms(1)
    by (auto simp: sc_wf_def sc_forget_def outside_cells_def length_filter_bound overwrite_elem)
  have "hp_holds p w' G'"
    if p: "(p, True) \<in> set (sc_prefixes s)" "br_intersection (hp_count_range p) r = None" "br_intersection (hp_extent p) r = None"
    for p
  proof -
    have "w' (hp_count_range p, hp_count_access p) = w (hp_count_range p, hp_count_access p)"
      using assms(3) p(2) by (simp add: cells_outside_def)
    moreover have "prefix_bytes p n \<subseteq> G'" if "prefix_bytes p n \<subseteq> G" "n \<le> hp_length p" for n
      using that hp_extent_bytes [of p n] p(1,3) assms(1,4) br_intersection_bytes [of "hp_extent p" r]
      by (force simp: sc_wf_def)
    moreover have "hp_holds p w G" using assms(2) p(1) by (auto simp: sc_holds_def)
    ultimately show ?thesis by (auto simp: hp_holds_def)
  qed
  moreover have "scalar_fact_holds v (w' (cell, access))"
    if "((cell, access), v) \<in> set (sc_values s)" "br_intersection cell r = None" for cell access v
    using that assms(2,3) by (auto simp: sc_holds_def cells_outside_def)
  ultimately show "sc_holds (sc_forget r s) w' G'"
    by (auto simp: sc_holds_def sc_forget_def outside_cells_def overwrite_elem split: if_splits)
qed

lemma sc_holds_insert:
  assumes "sc_holds s w G" and "scalar_fact_holds v (w k)"
  shows "sc_holds (s\<lparr>sc_values := bt_insert k v (sc_values s)\<rparr>) w G"
  using assms bt_insert_elem [of _ k v "sc_values s"] by (fastforce simp: sc_holds_def)

lemma sc_record_holds:
  assumes "sc_wf s" and "sc_holds s w G" and "scalar_fact_holds v (w (r, access))" and "aval_wf v"
  shows "sc_wf (sc_record r access v s)" and "sc_holds (sc_record r access v s) w G"
proof -
  note forget = sc_forget_holds [OF assms(1,2), of r w G]
  have f: "sc_wf (sc_forget r s)" "sc_holds (sc_forget r s) w G" using forget by (auto simp: cells_outside_def)
  let ?m = "sc_values (sc_forget r s)"
  have "sc_wf (sc_forget r s\<lparr>sc_values := bt_insert (r, access) v ?m\<rparr>)" if "length ?m < 64" "is_scalar_fact v"
    using that f(1) assms(4) bt_insert_length [of "(r, access)" v ?m] bt_insert_elem [of _ "(r, access)" v ?m]
    by (fastforce simp: sc_wf_def)
  then show "sc_wf (sc_record r access v s)" using f(1) by (simp add: sc_record_def Let_def)
  show "sc_holds (sc_record r access v s) w G"
    using f(2) sc_holds_insert [OF f(2) assms(3)] by (simp add: sc_record_def Let_def)
qed

lemma common_entries_elem:
  "(k, x) \<in> set (common_entries f m n) \<longleftrightarrow> (\<exists>v w. (k, v) \<in> set m \<and> bt_get n k = Some w \<and> f v w = Some x)"
  by (force simp: common_entries_def List.map_filter_def Option.bind_eq_Some_conv image_iff split: Option.bind_splits)

lemma common_entries_sorted:
  "bt_sorted m \<Longrightarrow> bt_sorted (common_entries f m n) \<and> length (common_entries f m n) \<le> length m \<and>
    fst ` set (common_entries f m n) \<subseteq> fst ` set m"
proof (induction m)
  case (Cons e m)
  obtain k v where e: "e = (k, v)" by force
  have m: "bt_sorted m" "\<forall>x \<in> fst ` set m. k < x" using Cons.prems by (auto simp: e bt_sorted_Cons)
  note IH = Cons.IH [OF m(1)]
  show ?case
  proof (cases "Option.bind (bt_get n k) (\<lambda>w. map_option (\<lambda>x. (k, x)) (f v w))")
    case None
    then have "common_entries f (e # m) n = common_entries f m n"
      by (simp add: common_entries_def List.map_filter_simps e)
    then show ?thesis using IH by auto
  next
    case (Some y)
    then obtain x where y: "y = (k, x)" by (auto simp: Option.bind_eq_Some_conv)
    have "common_entries f (e # m) n = (k, x) # common_entries f m n"
      using Some by (simp add: common_entries_def List.map_filter_simps e y)
    moreover have "\<forall>z \<in> set (map fst (common_entries f m n)). k < z" using IH m(2) unfolding set_map by blast
    ultimately show ?thesis using IH by (auto simp: bt_sorted_Cons e)
  qed
qed (simp add: common_entries_def List.map_filter_simps)

lemma join_scalar_holds:
  assumes "join_scalar v w = Some x" and "aval_wf v" and "aval_wf w"
  shows "is_scalar_fact x" and "aval_wf x" and "scalar_fact_holds v c \<or> scalar_fact_holds w c \<Longrightarrow> scalar_fact_holds x c"
proof -
  have "is_scalar_fact x \<and> aval_wf x \<and> (scalar_fact_holds v c \<or> scalar_fact_holds w c \<longrightarrow> scalar_fact_holds x c)"
    using assms by (induction v w rule: join_scalar.induct; cases c) (auto simp: value_laws)
  then show "is_scalar_fact x" "aval_wf x" "scalar_fact_holds v c \<or> scalar_fact_holds w c \<Longrightarrow> scalar_fact_holds x c"
    by auto
qed

lemma sc_join_wf:
  assumes "sc_wf a" and "sc_wf b"
  shows "sc_wf (sc_join a b)"
proof -
  have "is_scalar_fact x \<and> aval_wf x" if "(k, x) \<in> set (common_entries join_scalar (sc_values a) (sc_values b))" for k x
  proof -
    obtain v w where vw: "(k, v) \<in> set (sc_values a)" "bt_get (sc_values b) k = Some w" "join_scalar v w = Some x"
      using \<open>(k, x) \<in> _\<close> by (auto simp: common_entries_elem)
    then have "aval_wf v" "aval_wf w" using assms by (auto simp: sc_wf_def dest!: bt_get_in_set)
    then show ?thesis using join_scalar_holds [OF vw(3)] by blast
  qed
  then show ?thesis
    using assms common_entries_sorted [of "sc_values a" join_scalar "sc_values b"]
      common_entries_sorted [of "sc_prefixes a" "\<lambda>v w. Some (v \<and> w)" "sc_prefixes b"]
    by (auto simp: sc_wf_def sc_join_def common_entries_elem)
qed

lemma sc_join_holds:
  assumes "sc_wf a" and "sc_wf b" and "sc_holds a w G \<or> sc_holds b w G"
  shows "sc_holds (sc_join a b) w G"
proof -
  have "scalar_fact_holds x (w k)" if "(k, x) \<in> set (common_entries join_scalar (sc_values a) (sc_values b))" for k x
  proof -
    obtain v u where vu: "(k, v) \<in> set (sc_values a)" "bt_get (sc_values b) k = Some u" "join_scalar v u = Some x"
      using \<open>(k, x) \<in> _\<close> by (auto simp: common_entries_elem)
    have u: "(k, u) \<in> set (sc_values b)" by (rule bt_get_in_set [OF vu(2)])
    have wf: "aval_wf v" "aval_wf u" using assms(1,2) vu(1) u by (auto simp: sc_wf_def)
    have "scalar_fact_holds v (w k) \<or> scalar_fact_holds u (w k)"
      using assms(3) vu(1) u by (auto simp: sc_holds_def)
    then show ?thesis by (rule join_scalar_holds(3) [OF vu(3) wf])
  qed
  moreover have "hp_holds p w G"
    if "(p, True) \<in> set (common_entries (\<lambda>v w. Some (v \<and> w)) (sc_prefixes a) (sc_prefixes b))" for p
    using that assms(3) by (auto simp: common_entries_elem sc_holds_def dest!: bt_get_in_set)
  ultimately show ?thesis by (auto simp: sc_holds_def sc_join_def)
qed

lemma sc_widen_holds:
  assumes "sc_wf s"
  shows "sc_wf (sc_widen left right s)" and "sc_holds s w G \<Longrightarrow> sc_holds (sc_widen left right s) w G"
  using assms by (auto simp: sc_wf_def sc_holds_def sc_widen_def Let_def length_filter_bound)

lemma sc_certify_holds:
  assumes "sc_wf s" and "hp_wf p"
  shows "sc_wf (sc_certify p s)" and "sc_holds s w G \<Longrightarrow> hp_holds p w G \<Longrightarrow> sc_holds (sc_certify p s) w G"
proof -
  have len: "length (bt_insert p True (sc_prefixes s)) \<le> 32"
    if "length (sc_prefixes s) < 32 \<or> bt_get (sc_prefixes s) p \<noteq> None"
    using that assms(1) bt_insert_length [of p True "sc_prefixes s"] bt_insert_length_old [of "sc_prefixes s" p True]
    by (auto simp: sc_wf_def)
  have elem: "e = (p, True) \<or> e \<in> set (sc_prefixes s)" if "e \<in> set (bt_insert p True (sc_prefixes s))" for e
    using that by (rule bt_insert_elem)
  show "sc_wf (sc_certify p s)"
  proof (cases "length (sc_prefixes s) < 32 \<or> bt_get (sc_prefixes s) p \<noteq> None")
    case True
    have "hp_wf q" if "(q, b) \<in> set (bt_insert p True (sc_prefixes s))" for q b
      using elem [OF that] assms by (auto simp: sc_wf_def)
    then show ?thesis using True assms(1) len [OF True] by (auto simp: sc_wf_def sc_certify_def)
  qed (use assms in \<open>simp add: sc_certify_def\<close>)
  assume h: "sc_holds s w G" "hp_holds p w G"
  have "hp_holds q w G" if "(q, True) \<in> set (bt_insert p True (sc_prefixes s))" for q
    using elem [OF that] h by (auto simp: sc_holds_def)
  then show "sc_holds (sc_certify p s) w G" using h(1) by (auto simp: sc_holds_def sc_certify_def)
qed

lemma sc_get_holds: "sc_holds s w G \<Longrightarrow> sc_get s r access = Some v \<Longrightarrow> scalar_fact_holds v (w (r, access))"
  by (auto simp: sc_holds_def sc_get_def dest!: bt_get_in_set)

lemma sc_holds_mono: "sc_holds s w G \<Longrightarrow> G \<subseteq> G' \<Longrightarrow> sc_holds s w G'"
  by (fastforce simp: sc_holds_def hp_holds_def)

end
