(* ===== verification/Abstract_Allocation.thy ===== *)
theory Abstract_Allocation
  imports Scalar_Contents
begin

text \<open>
  One abstract allocation: \<open>AbstractAllocation\<close> of \<open>src/src/verifier/resource/object.rs\<close> with the scalar
  contents of \<open>contents.rs\<close>, the origins of \<open>scalar_origin.rs\<close> and the initialisation prefixes of
  \<open>initialization.rs\<close>. An operation that fails returns its error together with the state the code
  leaves behind, which need not be the state it was called on. \<open>aa_holds\<close> relates an abstract
  allocation to the bytes, cells and objects of a run; the operations are a step relation over it.
\<close>

section \<open>State\<close>

datatype abstract_allocation_error = ZeroSize | InvalidAlignment u64 | RangeOutOfBounds byte_range u64

record abstract_allocation =
  aa_scalar_contents :: scalar_contents
  aa_region :: "u32 option"
  aa_size_bytes :: u64
  aa_alignment :: guaranteed_alignment
  aa_liveness :: liveness_state
  aa_ownership :: ownership_state
  aa_initialization :: initialization_state
  aa_valid_value_bytes :: byte_set
  aa_object_state :: object_state
  aa_prefixes :: initialization_prefixes
  aa_initialization_revision :: "u64 option"

type_synonym 'a alloc_step = "(abstract_allocation_error + 'a) \<times> abstract_allocation"

definition aa_with_region ::
  "u32 option \<Rightarrow> u64 \<Rightarrow> u64 \<Rightarrow> ownership_state \<Rightarrow> abstract_allocation_error + abstract_allocation" where
  "aa_with_region region size_bytes alignment ownership =
     (if size_bytes = 0 then Inl ZeroSize
      else case ga_new alignment of
        Inl e \<Rightarrow> Inl (InvalidAlignment (gae_bytes e))
      | Inr al \<Rightarrow>
          Inr \<lparr>aa_scalar_contents = sc_default, aa_region = region, aa_size_bytes = size_bytes, aa_alignment = al,
               aa_liveness = Live, aa_ownership = ownership, aa_initialization = is_all_uninitialized size_bytes,
               aa_valid_value_bytes = bs_new, aa_object_state = os_new, aa_prefixes = [],
               aa_initialization_revision = Some 0\<rparr>)"

definition aa_new :: "u32 \<Rightarrow> u64 \<Rightarrow> u64 \<Rightarrow> abstract_allocation_error + abstract_allocation" where
  "aa_new region size_bytes alignment = aa_with_region (Some region) size_bytes alignment Owned"

definition aa_new_local :: "u64 \<Rightarrow> u64 \<Rightarrow> abstract_allocation_error + abstract_allocation" where
  "aa_new_local size_bytes alignment = aa_with_region None size_bytes alignment Unowned"

definition aa_check_range :: "abstract_allocation \<Rightarrow> byte_range \<Rightarrow> abstract_allocation_error + unit" where
  "aa_check_range a r = (if br_end r > aa_size_bytes a then Inl (RangeOutOfBounds r (aa_size_bytes a)) else Inr ())"

definition aa_guard :: "byte_range \<Rightarrow> (abstract_allocation \<Rightarrow> abstract_allocation) \<Rightarrow> abstract_allocation \<Rightarrow> unit alloc_step" where
  "aa_guard r f a = (case aa_check_range a r of Inl e \<Rightarrow> (Inl e, a) | Inr u \<Rightarrow> (Inr u, f a))"

section \<open>Invalidation\<close>

definition aa_forget_contents :: "byte_range \<Rightarrow> abstract_allocation \<Rightarrow> abstract_allocation" where
  "aa_forget_contents r a = a\<lparr>aa_scalar_contents := sc_forget r (aa_scalar_contents a)\<rparr>"

definition aa_clear_contents :: "abstract_allocation \<Rightarrow> abstract_allocation" where
  "aa_clear_contents a = a\<lparr>aa_scalar_contents := sc_clear (aa_scalar_contents a)\<rparr>"

definition aa_invalidate_prefixes :: "byte_range \<Rightarrow> abstract_allocation \<Rightarrow> abstract_allocation" where
  "aa_invalidate_prefixes r a = a\<lparr>aa_prefixes := ip_invalidate r (aa_prefixes a)\<rparr>"

definition invalidate_logical_initialization :: "abstract_allocation \<Rightarrow> abstract_allocation" where
  "invalidate_logical_initialization a =
     a\<lparr>aa_initialization_revision := Option.bind (aa_initialization_revision a) (\<lambda>n. u64_checked_add n 1)\<rparr>"

definition aa_mark_dead :: "abstract_allocation \<Rightarrow> abstract_allocation" where
  "aa_mark_dead a =
     (aa_clear_contents (invalidate_logical_initialization a))
       \<lparr>aa_prefixes := [], aa_liveness := Dead, aa_ownership := Unowned\<rparr>"

definition aa_set_liveness :: "liveness_state \<Rightarrow> abstract_allocation \<Rightarrow> abstract_allocation" where
  "aa_set_liveness l a =
     (let a' = (if l \<noteq> Live then (aa_clear_contents (invalidate_logical_initialization a))\<lparr>aa_prefixes := []\<rparr> else a)
      in a'\<lparr>aa_liveness := l\<rparr>)"

definition aa_set_ownership :: "ownership_state \<Rightarrow> abstract_allocation \<Rightarrow> abstract_allocation" where
  "aa_set_ownership ow a = a\<lparr>aa_ownership := ow\<rparr>"

section \<open>Bytes\<close>

definition aa_mark_initialized :: "byte_range \<Rightarrow> abstract_allocation \<Rightarrow> unit alloc_step" where
  "aa_mark_initialized r a =
     aa_guard r
       (\<lambda>a. let a' = invalidate_logical_initialization (aa_invalidate_prefixes r a)
            in a'\<lparr>aa_initialization := is_mark_initialized r (aa_initialization a')\<rparr>)
       (aa_forget_contents r a)"

definition aa_mark_valid :: "byte_range \<Rightarrow> abstract_allocation \<Rightarrow> unit alloc_step" where
  "aa_mark_valid r a = aa_guard r (\<lambda>a. a\<lparr>aa_valid_value_bytes := bs_insert r (aa_valid_value_bytes a)\<rparr>) a"

definition aa_mark_uninitialized :: "byte_range \<Rightarrow> abstract_allocation \<Rightarrow> unit alloc_step" where
  "aa_mark_uninitialized r a =
     aa_guard r
       (\<lambda>a. let a' = invalidate_logical_initialization (aa_invalidate_prefixes r a)
            in a'\<lparr>aa_initialization := is_mark_uninitialized r (aa_initialization a'),
                  aa_valid_value_bytes := bs_remove r (aa_valid_value_bytes a'),
                  aa_object_state := mark_resource_paths_moved r (os_forget_range r (aa_object_state a'))\<rparr>)
       (aa_forget_contents r a)"

definition aa_forget_initialization :: "byte_range \<Rightarrow> abstract_allocation \<Rightarrow> unit alloc_step" where
  "aa_forget_initialization r a =
     aa_guard r
       (\<lambda>a. let a' = invalidate_logical_initialization (aa_invalidate_prefixes r (aa_forget_contents r a))
            in a'\<lparr>aa_initialization := is_forget r (aa_initialization a'),
                  aa_valid_value_bytes := bs_remove r (aa_valid_value_bytes a'),
                  aa_object_state := os_forget_range r (aa_object_state a')\<rparr>) a"

definition aa_forget_validity :: "byte_range \<Rightarrow> abstract_allocation \<Rightarrow> unit alloc_step" where
  "aa_forget_validity r a =
     aa_guard r
       (\<lambda>a. let a' = invalidate_logical_initialization (aa_invalidate_prefixes r a)
            in a'\<lparr>aa_valid_value_bytes := bs_remove r (aa_valid_value_bytes a')\<rparr>)
       (aa_forget_contents r a)"

definition aa_forget_object_state :: "byte_range \<Rightarrow> abstract_allocation \<Rightarrow> unit alloc_step" where
  "aa_forget_object_state r a =
     aa_guard r (\<lambda>a. a\<lparr>aa_object_state := os_forget_range r (aa_object_state a)\<rparr>) (aa_forget_contents r a)"

definition aa_forget_uninitialized :: "byte_range \<Rightarrow> abstract_allocation \<Rightarrow> unit alloc_step" where
  "aa_forget_uninitialized r a =
     aa_guard r
       (\<lambda>a. let a' = invalidate_logical_initialization (aa_invalidate_prefixes r (aa_forget_contents r a))
            in a'\<lparr>aa_initialization := is_forget_uninitialized r (aa_initialization a')\<rparr>) a"

definition forget_preserved_slice_contents :: "byte_range \<Rightarrow> abstract_allocation \<Rightarrow> unit alloc_step" where
  "forget_preserved_slice_contents r a =
     aa_guard r
       (\<lambda>a. let a' = aa_forget_contents r a
            in a'\<lparr>aa_object_state := os_forget_range r (aa_object_state a'),
                  aa_initialization := is_forget_uninitialized r (aa_initialization a')\<rparr>) a"

section \<open>Variants and payloads\<close>

definition key_check :: "abstract_allocation \<Rightarrow> u64 \<Rightarrow> abstract_allocation_error + unit" where
  "key_check a offset =
     (case br_from_start_and_length offset 1 of
        Inl _ \<Rightarrow> Inl (RangeOutOfBounds \<lparr>br_start = offset, br_end = u64_MAX\<rparr> (aa_size_bytes a))
      | Inr r \<Rightarrow> aa_check_range a r)"

definition aa_set_active_variant ::
  "object_state_key \<Rightarrow> active_variant_state \<Rightarrow> abstract_allocation \<Rightarrow> bool alloc_step" where
  "aa_set_active_variant key st a =
     (let a' = aa_clear_contents a in
      case key_check a' (pk_offset_bytes key) of
        Inl e \<Rightarrow> (Inl e, a')
      | Inr _ \<Rightarrow>
          (case os_set_active_variant key st (aa_object_state a') of
             (ok, os) \<Rightarrow> (Inr ok, a'\<lparr>aa_object_state := os\<rparr>)))"

definition aa_set_resource_payload ::
  "resource_payload_key \<Rightarrow> move_path_state \<Rightarrow> abstract_allocation \<Rightarrow> bool alloc_step" where
  "aa_set_resource_payload key st a =
     (case key_check a (pk_offset_bytes key) of
        Inl e \<Rightarrow> (Inl e, a)
      | Inr _ \<Rightarrow>
          (case os_set_resource_payload key st (aa_object_state a) of
             (ok, os) \<Rightarrow> (Inr ok, a\<lparr>aa_object_state := os\<rparr>)))"

section \<open>Scalar cells\<close>

definition aa_readable :: "abstract_allocation \<Rightarrow> byte_range \<Rightarrow> bool" where
  "aa_readable a r =
     (aa_liveness a = Live \<and> is_classify (aa_initialization a) r = Initialized \<and> bs_contains (aa_valid_value_bytes a) r)"

definition aa_scalar_content :: "abstract_allocation \<Rightarrow> byte_range \<Rightarrow> vir_memory_access \<Rightarrow> abstract_value option" where
  "aa_scalar_content a r access = (if \<not> aa_readable a r then None else sc_get (aa_scalar_contents a) r access)"

definition aa_scalar_cells :: "abstract_allocation \<Rightarrow> (byte_range \<times> vir_memory_access \<times> abstract_value) list" where
  "aa_scalar_cells a =
     List.map_filter
       (\<lambda>((r, access), v). if aa_scalar_content a r access = Some v then Some (r, access, v) else None)
       (sc_values (aa_scalar_contents a))"

definition record_scalar_content ::
  "byte_range \<Rightarrow> vir_memory_access \<Rightarrow> abstract_value \<Rightarrow> abstract_allocation \<Rightarrow> abstract_allocation" where
  "record_scalar_content r access v a =
     (if aa_liveness a = Live \<and> br_end r \<le> aa_size_bytes a \<and> is_classify (aa_initialization a) r = Initialized \<and>
         bs_contains (aa_valid_value_bytes a) r
      then a\<lparr>aa_scalar_contents := sc_record r access v (aa_scalar_contents a)\<rparr> else a)"

fun is_word_fact :: "abstract_value option \<Rightarrow> bool" where
  "is_word_fact (Some (AVU64 _)) = True"
| "is_word_fact _ = False"

fun is_bool_fact :: "abstract_value option \<Rightarrow> bool" where
  "is_bool_fact (Some (AVBool _)) = True"
| "is_bool_fact _ = False"

definition aa_scalar_origin :: "abstract_allocation \<Rightarrow> byte_range \<Rightarrow> vir_memory_access \<Rightarrow> scalar_origin option" where
  "aa_scalar_origin a r access =
     (if is_word_fact (aa_scalar_content a r access) then bt_get (sc_word_origins (aa_scalar_contents a)) (r, access) else None)"

definition aa_bool_origin :: "abstract_allocation \<Rightarrow> byte_range \<Rightarrow> vir_memory_access \<Rightarrow> bool_origin option" where
  "aa_bool_origin a r access =
     (if is_bool_fact (aa_scalar_content a r access) then bt_get (sc_bool_origins (aa_scalar_contents a)) (r, access) else None)"

definition aa_set_scalar_origin ::
  "byte_range \<Rightarrow> vir_memory_access \<Rightarrow> scalar_origin \<Rightarrow> abstract_allocation \<Rightarrow> abstract_allocation" where
  "aa_set_scalar_origin r access origin a =
     (let m = sc_word_origins (aa_scalar_contents a) in
      if is_word_fact (aa_scalar_content a r access) \<and> (length m < 64 \<or> bt_get m (r, access) \<noteq> None)
      then a\<lparr>aa_scalar_contents := (aa_scalar_contents a)\<lparr>sc_word_origins := bt_insert (r, access) origin m\<rparr>\<rparr> else a)"

definition aa_set_bool_origin ::
  "byte_range \<Rightarrow> vir_memory_access \<Rightarrow> bool_origin \<Rightarrow> abstract_allocation \<Rightarrow> abstract_allocation" where
  "aa_set_bool_origin r access origin a =
     (let m = sc_bool_origins (aa_scalar_contents a) in
      if br_end r - br_start r = 1 \<and> is_bool_fact (aa_scalar_content a r access) \<and>
         (length m < 64 \<or> bt_get m (r, access) \<noteq> None)
      then a\<lparr>aa_scalar_contents := (aa_scalar_contents a)\<lparr>sc_bool_origins := bt_insert (r, access) origin m\<rparr>\<rparr> else a)"

definition copy_cell ::
  "abstract_allocation \<Rightarrow> byte_range \<Rightarrow> u64 \<Rightarrow> cell_key \<times> abstract_value \<Rightarrow> abstract_allocation \<Rightarrow> abstract_allocation" where
  "copy_cell source selected destination cell a =
     (case cell of ((r, access), v) \<Rightarrow>
        if br_start r < br_start selected \<or> br_end r > br_end selected \<or> aa_scalar_content source r access = None then a
        else case u64_checked_add destination (br_start r - br_start selected) of
          None \<Rightarrow> a
        | Some start \<Rightarrow>
            (case br_from_start_and_length start (br_end r - br_start r) of
               Inl _ \<Rightarrow> a
             | Inr target \<Rightarrow>
                 (let a1 = record_scalar_content target access v a;
                      a2 = (case aa_scalar_origin source r access of
                              None \<Rightarrow> a1 | Some origin \<Rightarrow> aa_set_scalar_origin target access origin a1)
                  in case aa_bool_origin source r access of
                       None \<Rightarrow> a2 | Some origin \<Rightarrow> aa_set_bool_origin target access origin a2)))"

definition copy_scalar_contents ::
  "abstract_allocation \<Rightarrow> byte_range \<Rightarrow> u64 \<Rightarrow> abstract_allocation \<Rightarrow> abstract_allocation" where
  "copy_scalar_contents source selected destination a =
     fold (copy_cell source selected destination) (sc_values (aa_scalar_contents source)) a"

definition narrow_cell ::
  "scalar_origin \<Rightarrow> u64_interval \<Rightarrow> byte_range \<times> vir_memory_access \<times> abstract_value \<Rightarrow> abstract_allocation \<Rightarrow> abstract_allocation" where
  "narrow_cell origin i cell a =
     (case cell of (r, access, v) \<Rightarrow>
        if aa_scalar_origin a r access = Some origin
        then (case v of
                AVU64 current \<Rightarrow>
                  (case iv_intersection current i of
                     None \<Rightarrow> a
                   | Some narrowed \<Rightarrow>
                       a\<lparr>aa_scalar_contents := (aa_scalar_contents a)
                           \<lparr>sc_values := bt_insert (r, access) (AVU64 narrowed) (sc_values (aa_scalar_contents a))\<rparr>\<rparr>)
              | _ \<Rightarrow> a)
        else a)"

definition narrow_stored_word_origin :: "scalar_origin \<Rightarrow> u64_interval \<Rightarrow> abstract_allocation \<Rightarrow> abstract_allocation" where
  "narrow_stored_word_origin origin i a = fold (narrow_cell origin i) (aa_scalar_cells a) a"

section \<open>Prefixes\<close>

definition certify_heap_prefix :: "heap_initialization_prefix \<Rightarrow> abstract_allocation \<Rightarrow> abstract_allocation" where
  "certify_heap_prefix p a = a\<lparr>aa_scalar_contents := sc_certify p (aa_scalar_contents a)\<rparr>"

definition heap_prefix_valid :: "abstract_allocation \<Rightarrow> heap_initialization_prefix \<Rightarrow> bool" where
  "heap_prefix_valid a p =
     (if aa_liveness a \<noteq> Live then False
      else case aa_scalar_content a (hp_count_range p) (hp_count_access p) of
        Some (AVU64 count) \<Rightarrow>
          if iv_upper count > hp_length p then False
          else if bt_get (sc_prefixes (aa_scalar_contents a)) p = Some True \<or> iv_upper count = 0 then True
          else (case Option.bind (u64_checked_mul (iv_upper count) (hp_stride p))
                       (\<lambda>n. result_ok (br_from_start_and_length (hp_array_offset p) n)) of
                  None \<Rightarrow> False
                | Some r \<Rightarrow>
                    is_classify (aa_initialization a) r = Initialized \<and> bs_contains (aa_valid_value_bytes a) r)
      | _ \<Rightarrow> False)"

definition prefix_covers_count :: "abstract_allocation \<Rightarrow> heap_initialization_prefix \<Rightarrow> affine_expression \<Rightarrow> bool" where
  "prefix_covers_count a p count =
     (if ae_is_constant count \<and> ae_addend count = 0 then True
      else list_ex (\<lambda>(key, counts).
        ak_base key = hp_array_offset p \<and> ak_stride key = hp_stride p \<and> ak_length key = hp_length p \<and>
        ak_element key = hp_element p \<and> ak_begin key = ae_constant 0 \<and>
        (\<exists>known \<in> counts. same_terms known count \<and> ae_addend known \<ge> ae_addend count)) (aa_prefixes a))"

definition reduce_fact ::
  "(vir_value_id \<Rightarrow> abstract_value option) \<Rightarrow> array_key \<times> affine_expression set \<Rightarrow> abstract_allocation \<Rightarrow> abstract_allocation" where
  "reduce_fact read entry a =
     (let key = fst entry;
          lower = (\<lambda>count. case expr_interval read count of Some i \<Rightarrow> iv_lower i | None \<Rightarrow> 0);
          count = min (Max (insert 0 (lower ` snd entry))) (ak_length key)
      in case Option.bind (expr_interval read (ak_begin key)) (\<lambda>i.
                Option.bind (u64_checked_mul (iv_upper i) (ak_stride key)) (u64_checked_add (ak_base key))) of
           None \<Rightarrow> a
         | Some lo \<Rightarrow>
             (case Option.bind (u64_checked_mul count (ak_stride key)) (u64_checked_add (ak_base key)) of
                None \<Rightarrow> a
              | Some hi \<Rightarrow>
                  (case br_new lo hi of
                     Inl _ \<Rightarrow> a
                   | Inr r \<Rightarrow>
                       if br_is_empty r \<or> hi > aa_size_bytes a then a
                       else a\<lparr>aa_initialization := is_mark_initialized r (aa_initialization a),
                              aa_valid_value_bytes := bs_insert r (aa_valid_value_bytes a)\<rparr>)))"

definition reduce_initialization_prefixes ::
  "(vir_value_id \<Rightarrow> abstract_value option) \<Rightarrow> abstract_allocation \<Rightarrow> abstract_allocation" where
  "reduce_initialization_prefixes read a =
     (if aa_liveness a \<noteq> Live then a else fold (reduce_fact read) (aa_prefixes a) a)"

definition bind_array_initialization_prefix ::
  "u64 \<Rightarrow> vir_memory_access \<Rightarrow> u64 \<Rightarrow> u64 \<Rightarrow> affine_expression \<Rightarrow> abstract_allocation \<Rightarrow> bool \<times> abstract_allocation" where
  "bind_array_initialization_prefix base element len stride count a =
     (let key = \<lparr>ak_base = base, ak_stride = stride, ak_length = len, ak_element = element, ak_begin = ae_constant 0\<rparr> in
      if aa_liveness a \<noteq> Live \<or> (case ak_extent key of None \<Rightarrow> True | Some r \<Rightarrow> br_end r > aa_size_bytes a)
      then (False, a)
      else (case ip_bind key count (aa_prefixes a) of (ok, facts) \<Rightarrow> (ok, a\<lparr>aa_prefixes := facts\<rparr>)))"

definition project_call_initialization ::
  "expression_remapper \<Rightarrow> (vir_value_id \<Rightarrow> abstract_value option) \<Rightarrow> bool \<Rightarrow> abstract_allocation \<Rightarrow> abstract_allocation" where
  "project_call_initialization er read has_scalar_abi a =
     a\<lparr>aa_prefixes := (if has_scalar_abi then ip_project er read (aa_prefixes a) else ip_detach (aa_prefixes a))\<rparr>"

section \<open>Joins and edges\<close>

definition aa_join ::
  "abstract_allocation_id \<Rightarrow> abstract_allocation \<Rightarrow> abstract_allocation \<Rightarrow> resource_join_error + abstract_allocation" where
  "aa_join aid a b =
     (if aa_region a \<noteq> aa_region b then Inl (AllocationRegionMismatch aid)
      else if aa_size_bytes a \<noteq> aa_size_bytes b then Inl (AllocationSizeMismatch aid)
      else if aa_alignment a \<noteq> aa_alignment b then Inl (AllocationAlignmentMismatch aid)
      else Inr
        \<lparr>aa_scalar_contents = sc_join (aa_scalar_contents a) (aa_scalar_contents b), aa_region = aa_region a,
         aa_size_bytes = aa_size_bytes a, aa_alignment = aa_alignment a,
         aa_liveness = live_join (aa_liveness a) (aa_liveness b),
         aa_ownership = own_join (aa_ownership a) (aa_ownership b),
         aa_initialization = is_join (aa_initialization a) (aa_initialization b),
         aa_valid_value_bytes = bs_intersection (aa_valid_value_bytes a) (aa_valid_value_bytes b),
         aa_object_state = os_join (aa_object_state a) (aa_object_state b),
         aa_prefixes = ip_join (aa_prefixes a) (aa_prefixes b),
         aa_initialization_revision =
           (case aa_initialization_revision a of
              None \<Rightarrow> None
            | Some n \<Rightarrow> if Some n = aa_initialization_revision b then Some n else None)\<rparr>)"

definition widen_scalar_contents ::
  "abstract_allocation \<Rightarrow> abstract_allocation \<Rightarrow> abstract_allocation \<Rightarrow> abstract_allocation" where
  "widen_scalar_contents left right a =
     a\<lparr>aa_scalar_contents := sc_widen (aa_scalar_contents left) (aa_scalar_contents right) (aa_scalar_contents a)\<rparr>"

definition aa_project_cfg_edge ::
  "expression_remapper \<Rightarrow> (vir_value_id \<Rightarrow> abstract_value option) \<Rightarrow> abstract_allocation \<Rightarrow> abstract_allocation" where
  "aa_project_cfg_edge er read a =
     (reduce_initialization_prefixes read a)
       \<lparr>aa_object_state := os_project_cfg_edge er (aa_object_state a),
        aa_prefixes := ip_project er read (aa_prefixes a)\<rparr>"

section \<open>What an allocation stands for\<close>

record allocation_run =
  ar_env :: "vir_value_id \<Rightarrow> int"
  ar_live :: bool
  ar_owned :: bool
  ar_init :: "int set"
  ar_valid :: "int set"
  ar_cells :: cells
  ar_objects :: object_contents

abbreviation ar_good :: "allocation_run \<Rightarrow> int set" where
  "ar_good c \<equiv> ar_init c \<inter> ar_valid c"

definition aa_holds :: "abstract_allocation \<Rightarrow> allocation_run \<Rightarrow> bool" where
  "aa_holds a c =
     (live_holds (aa_liveness a) (ar_live c) \<and> own_holds (aa_ownership a) (ar_owned c) \<and>
      is_holds (aa_initialization a) (ar_init c) \<and> bs_bytes (aa_valid_value_bytes a) \<subseteq> ar_valid c \<and>
      os_holds (aa_object_state a) (ar_objects c) \<and> sc_holds (aa_scalar_contents a) (ar_cells c) (ar_good c) \<and>
      ip_holds (ar_env c) (ar_good c) (aa_prefixes a))"

definition aa_wf :: "abstract_allocation \<Rightarrow> bool" where
  "aa_wf a =
     (is_wf (aa_initialization a) \<and> bs_wf (aa_valid_value_bytes a) \<and> os_wf (aa_object_state a) \<and>
      sc_wf (aa_scalar_contents a) \<and> ip_wf (aa_prefixes a) \<and> ga_wf (aa_alignment a) \<and> aa_size_bytes a \<noteq> 0)"

lemmas aa_meaning = aa_wf_def aa_holds_def
lemmas aa_edits = aa_forget_contents_def aa_clear_contents_def aa_invalidate_prefixes_def
  invalidate_logical_initialization_def sc_clear_def Let_def

lemma ip_empty [simp]: "ip_wf []" "ip_holds \<rho> G []"
  by (simp_all add: ip_wf_def ip_holds_def)

lemma cells_outside_refl [simp]: "cells_outside r w w"
  by (simp add: cells_outside_def)

lemma aa_guard_ok: "aa_guard r f a = (Inr u, a') \<Longrightarrow> a' = f a \<and> br_end r \<le> aa_size_bytes a"
  by (auto simp: aa_guard_def aa_check_range_def split: if_splits)

lemma aa_guard_err: "aa_guard r f a = (Inl e, a') \<Longrightarrow> a' = a \<and> e = RangeOutOfBounds r (aa_size_bytes a) \<and> aa_size_bytes a < br_end r"
  by (auto simp: aa_guard_def aa_check_range_def split: if_splits)

lemma forget_contents_step:
  assumes "aa_wf a" and "aa_holds a c"
  shows "aa_wf (aa_forget_contents r a) \<and> aa_holds (aa_forget_contents r a) c"
  using assms sc_forget_holds [of "aa_scalar_contents a" "ar_cells c" "ar_good c" r "ar_cells c" "ar_good c"]
  by (auto simp: aa_meaning aa_edits)

lemma write_parts:
  assumes "aa_wf a" and "aa_holds a c" and "cells_outside r (ar_cells c) w" and "ar_good c - br_bytes r \<subseteq> G"
  shows "sc_wf (sc_forget r (aa_scalar_contents a))" and "sc_holds (sc_forget r (aa_scalar_contents a)) w G"
    and "ip_wf (ip_invalidate r (aa_prefixes a))" and "ip_holds (ar_env c) G (ip_invalidate r (aa_prefixes a))"
  using assms sc_forget_holds [of "aa_scalar_contents a" "ar_cells c" "ar_good c" r w G]
    ip_invalidate_holds [of "aa_prefixes a" "ar_env c" "ar_good c" r G]
  by (auto simp: aa_meaning)

lemma mark_initialized_ok:
  assumes "aa_wf a" and "aa_holds a c" and "br_wf r" and "aa_mark_initialized r a = (Inr u, a')"
    and "cells_outside r (ar_cells c) w"
  shows "aa_wf a' \<and> aa_holds a' (c\<lparr>ar_init := ar_init c \<union> br_bytes r, ar_cells := w\<rparr>)"
proof -
  have g: "ar_good c - br_bytes r \<subseteq> (ar_init c \<union> br_bytes r) \<inter> ar_valid c" by blast
  note w = write_parts [OF assms(1,2,5) g]
  have i: "is_wf (is_mark_initialized r (aa_initialization a))"
    "is_holds (is_mark_initialized r (aa_initialization a)) (ar_init c \<union> br_bytes r)"
    using is_mark_initialized_holds [of "aa_initialization a" r "ar_init c"] assms(1-3) by (simp_all add: aa_meaning)
  show ?thesis
    using assms(1,2) w i aa_guard_ok [OF assms(4) [unfolded aa_mark_initialized_def]]
    by (simp add: aa_meaning aa_edits)
qed

lemma mark_valid_ok:
  assumes "aa_wf a" and "aa_holds a c" and "br_wf r" and "aa_mark_valid r a = (Inr u, a')"
  shows "aa_wf a' \<and> aa_holds a' (c\<lparr>ar_valid := ar_valid c \<union> br_bytes r\<rparr>)"
proof -
  have g: "ar_good c \<subseteq> ar_init c \<inter> (ar_valid c \<union> br_bytes r)" by blast
  have "bs_wf (bs_insert r (aa_valid_value_bytes a))" "bs_bytes (bs_insert r (aa_valid_value_bytes a)) \<subseteq> ar_valid c \<union> br_bytes r"
    using assms(1-3) bs_insert_wf [of "aa_valid_value_bytes a" r] bs_insert_sub [of "aa_valid_value_bytes a" r]
    by (auto simp: aa_meaning)
  moreover have "ip_holds (ar_env c) (ar_init c \<inter> (ar_valid c \<union> br_bytes r)) (aa_prefixes a)"
    using assms(2) g unfolding aa_holds_def ip_holds_def fact_holds_def by blast
  ultimately show ?thesis
    using assms(1,2) sc_holds_mono [OF _ g] aa_guard_ok [OF assms(4) [unfolded aa_mark_valid_def]]
    by (simp add: aa_meaning)
qed

lemma bs_remove_valid:
  assumes "bs_wf s" and "br_wf r" and "bs_bytes s \<subseteq> V" and "V - br_bytes r \<subseteq> V'"
  shows "bs_wf (bs_remove r s) \<and> bs_bytes (bs_remove r s) \<subseteq> V'"
  using assms bs_remove_wf [of s r] bs_remove_sub [of s r] by blast

lemma mark_uninitialized_ok:
  assumes "aa_wf a" and "aa_holds a c" and "br_wf r" and "aa_mark_uninitialized r a = (Inr u, a')"
    and "cells_outside r (ar_cells c) w" and "same_outside r (ar_objects c) ob"
    and "\<And>key. br_contains r (key_range key) \<Longrightarrow> oc_payload ob key = None"
  shows "aa_wf a' \<and> aa_holds a'
    (c\<lparr>ar_init := ar_init c - br_bytes r, ar_valid := ar_valid c - br_bytes r, ar_cells := w, ar_objects := ob\<rparr>)"
proof -
  have g: "ar_good c - br_bytes r \<subseteq> (ar_init c - br_bytes r) \<inter> (ar_valid c - br_bytes r)" by blast
  note w = write_parts [OF assms(1,2,5) g]
  have i: "is_wf (is_mark_uninitialized r (aa_initialization a))"
    "is_holds (is_mark_uninitialized r (aa_initialization a)) (ar_init c - br_bytes r)"
    using is_mark_uninitialized_holds [of "aa_initialization a" r "ar_init c"] assms(1-3) by (simp_all add: aa_meaning)
  have v: "bs_wf (bs_remove r (aa_valid_value_bytes a)) \<and> bs_bytes (bs_remove r (aa_valid_value_bytes a)) \<subseteq> ar_valid c - br_bytes r"
    by (rule bs_remove_valid) (use assms(1-3) in \<open>auto simp: aa_meaning\<close>)
  have ob: "os_wf (os_forget_range r (aa_object_state a))" "os_holds (os_forget_range r (aa_object_state a)) ob"
    using os_forget_range_holds [of "aa_object_state a" "ar_objects c" r ob] assms(1,2,6) by (simp_all add: aa_meaning)
  show ?thesis
    using assms(1,2) w i v mark_moved_holds [OF ob assms(7)] aa_guard_ok [OF assms(4) [unfolded aa_mark_uninitialized_def]]
    by (simp add: aa_meaning aa_edits)
qed

lemma forget_initialization_ok:
  assumes "aa_wf a" and "aa_holds a c" and "br_wf r" and "aa_forget_initialization r a = (Inr u, a')"
    and "cells_outside r (ar_cells c) w" and "same_outside r (ar_objects c) ob"
    and "I - br_bytes r = ar_init c - br_bytes r" and "V - br_bytes r = ar_valid c - br_bytes r"
  shows "aa_wf a' \<and> aa_holds a' (c\<lparr>ar_init := I, ar_valid := V, ar_cells := w, ar_objects := ob\<rparr>)"
proof -
  have g: "ar_good c - br_bytes r \<subseteq> I \<inter> V" using assms(7,8) by blast
  note w = write_parts [OF assms(1,2,5) g]
  have i: "is_wf (is_forget r (aa_initialization a))" "is_holds (is_forget r (aa_initialization a)) I"
    using is_forget_holds [of "aa_initialization a" r "ar_init c" I] assms(1-3,7) by (simp_all add: aa_meaning)
  have v: "bs_wf (bs_remove r (aa_valid_value_bytes a)) \<and> bs_bytes (bs_remove r (aa_valid_value_bytes a)) \<subseteq> V"
    by (rule bs_remove_valid [of _ _ "ar_valid c"]) (use assms(1-3,8) in \<open>auto simp: aa_meaning\<close>)
  have ob: "os_wf (os_forget_range r (aa_object_state a))" "os_holds (os_forget_range r (aa_object_state a)) ob"
    using os_forget_range_holds [of "aa_object_state a" "ar_objects c" r ob] assms(1,2,6) by (simp_all add: aa_meaning)
  show ?thesis
    using assms(1,2) w i v ob aa_guard_ok [OF assms(4) [unfolded aa_forget_initialization_def]]
    by (simp add: aa_meaning aa_edits)
qed

lemma forget_validity_ok:
  assumes "aa_wf a" and "aa_holds a c" and "br_wf r" and "aa_forget_validity r a = (Inr u, a')"
    and "cells_outside r (ar_cells c) w" and "V - br_bytes r = ar_valid c - br_bytes r"
  shows "aa_wf a' \<and> aa_holds a' (c\<lparr>ar_valid := V, ar_cells := w\<rparr>)"
proof -
  have g: "ar_good c - br_bytes r \<subseteq> ar_init c \<inter> V" using assms(6) by blast
  note w = write_parts [OF assms(1,2,5) g]
  have v: "bs_wf (bs_remove r (aa_valid_value_bytes a)) \<and> bs_bytes (bs_remove r (aa_valid_value_bytes a)) \<subseteq> V"
    by (rule bs_remove_valid [of _ _ "ar_valid c"]) (use assms(1-3,6) in \<open>auto simp: aa_meaning\<close>)
  show ?thesis
    using assms(1,2) w v aa_guard_ok [OF assms(4) [unfolded aa_forget_validity_def]]
    by (simp add: aa_meaning aa_edits)
qed

lemma forget_object_state_ok:
  assumes "aa_wf a" and "aa_holds a c" and "aa_forget_object_state r a = (Inr u, a')"
    and "cells_outside r (ar_cells c) w" and "same_outside r (ar_objects c) ob"
  shows "aa_wf a' \<and> aa_holds a' (c\<lparr>ar_cells := w, ar_objects := ob\<rparr>)"
proof -
  note w = write_parts [OF assms(1,2,4) Diff_subset]
  have ob: "os_wf (os_forget_range r (aa_object_state a))" "os_holds (os_forget_range r (aa_object_state a)) ob"
    using os_forget_range_holds [of "aa_object_state a" "ar_objects c" r ob] assms(1,2,5) by (simp_all add: aa_meaning)
  show ?thesis
    using assms(1,2) w(1,2) ob aa_guard_ok [OF assms(3) [unfolded aa_forget_object_state_def]]
    by (simp add: aa_meaning aa_edits)
qed

lemma ip_holds_mono: "ip_holds \<rho> G facts \<Longrightarrow> G \<subseteq> G' \<Longrightarrow> ip_holds \<rho> G' facts"
  unfolding ip_holds_def fact_holds_def by blast

lemma forget_uninitialized_ok:
  assumes "aa_wf a" and "aa_holds a c" and "br_wf r" and "aa_forget_uninitialized r a = (Inr u, a')"
    and "cells_outside r (ar_cells c) w" and "ar_init c \<subseteq> I" and "I \<subseteq> ar_init c \<union> br_bytes r"
  shows "aa_wf a' \<and> aa_holds a' (c\<lparr>ar_init := I, ar_cells := w\<rparr>)"
proof -
  have g: "ar_good c - br_bytes r \<subseteq> I \<inter> ar_valid c" using assms(6) by blast
  note w = write_parts [OF assms(1,2,5) g]
  have i: "is_wf (is_forget_uninitialized r (aa_initialization a))" "is_holds (is_forget_uninitialized r (aa_initialization a)) I"
    using is_forget_uninitialized_holds [of "aa_initialization a" r "ar_init c" I] assms(1-3,6,7) by (simp_all add: aa_meaning)
  show ?thesis
    using assms(1,2) w i aa_guard_ok [OF assms(4) [unfolded aa_forget_uninitialized_def]]
    by (simp add: aa_meaning aa_edits)
qed

lemma forget_preserved_ok:
  assumes "aa_wf a" and "aa_holds a c" and "br_wf r" and "forget_preserved_slice_contents r a = (Inr u, a')"
    and "cells_outside r (ar_cells c) w" and "same_outside r (ar_objects c) ob"
    and "ar_init c \<subseteq> I" and "I \<subseteq> ar_init c \<union> br_bytes r"
  shows "aa_wf a' \<and> aa_holds a' (c\<lparr>ar_init := I, ar_cells := w, ar_objects := ob\<rparr>)"
proof -
  have g: "ar_good c - br_bytes r \<subseteq> I \<inter> ar_valid c" "ar_good c \<subseteq> I \<inter> ar_valid c" using assms(7) by blast+
  note w = write_parts [OF assms(1,2,5) g(1)]
  have i: "is_wf (is_forget_uninitialized r (aa_initialization a))" "is_holds (is_forget_uninitialized r (aa_initialization a)) I"
    using is_forget_uninitialized_holds [of "aa_initialization a" r "ar_init c" I] assms(1-3,7,8) by (simp_all add: aa_meaning)
  have ob: "os_wf (os_forget_range r (aa_object_state a))" "os_holds (os_forget_range r (aa_object_state a)) ob"
    using os_forget_range_holds [of "aa_object_state a" "ar_objects c" r ob] assms(1,2,6) by (simp_all add: aa_meaning)
  show ?thesis
    using assms(1,2) w(1,2) i ob ip_holds_mono [OF _ g(2)] aa_guard_ok [OF assms(4) [unfolded forget_preserved_slice_contents_def]]
    by (simp add: aa_meaning aa_edits)
qed

section \<open>Lifetime, variants and payloads\<close>

lemma mark_dead_ok:
  assumes "aa_wf a" and "aa_holds a c"
  shows "aa_wf (aa_mark_dead a) \<and> aa_holds (aa_mark_dead a) (c\<lparr>ar_live := False, ar_owned := False, ar_cells := w\<rparr>)"
  using assms by (simp add: aa_meaning aa_mark_dead_def aa_edits)

lemma set_liveness_ok:
  assumes "aa_wf a" and "aa_holds a c" and "live_holds l b" and "l = Live \<Longrightarrow> w = ar_cells c"
  shows "aa_wf (aa_set_liveness l a) \<and> aa_holds (aa_set_liveness l a) (c\<lparr>ar_live := b, ar_cells := w\<rparr>)"
  using assms by (auto simp: aa_meaning aa_set_liveness_def aa_edits)

lemma set_ownership_ok:
  assumes "aa_wf a" and "aa_holds a c" and "own_holds ow b"
  shows "aa_wf (aa_set_ownership ow a) \<and> aa_holds (aa_set_ownership ow a) (c\<lparr>ar_owned := b\<rparr>)"
  using assms by (simp add: aa_meaning aa_set_ownership_def)

lemma clear_contents_step:
  assumes "aa_wf a" and "aa_holds a c"
  shows "aa_wf (aa_clear_contents a) \<and> aa_holds (aa_clear_contents a) (c\<lparr>ar_cells := w\<rparr>)"
  using assms by (simp add: aa_meaning aa_edits)

lemma set_active_variant_ok:
  assumes "aa_wf a" and "aa_holds a c" and "aa_set_active_variant key st a = (Inr ok, a')" and "avs_holds st v"
  shows "aa_wf a' \<and> aa_holds a'
    (c\<lparr>ar_cells := w, ar_objects := (ar_objects c)\<lparr>oc_variant := (oc_variant (ar_objects c))(key := v)\<rparr>\<rparr>)"
proof -
  have a': "a' = (aa_clear_contents a)\<lparr>aa_object_state := snd (os_set_active_variant key st (aa_object_state a))\<rparr>"
    using assms(3) by (auto simp: aa_set_active_variant_def aa_clear_contents_def Let_def split: sum.splits prod.splits)
  show ?thesis
    using assms(1,2) os_set_active_variant_wf [of "aa_object_state a" key st]
      os_set_active_variant_holds [of "aa_object_state a" "ar_objects c" st v key] assms(4)
    by (simp add: a' aa_meaning aa_edits)
qed

lemma set_resource_payload_ok:
  assumes "aa_wf a" and "aa_holds a c" and "aa_set_resource_payload key st a = (Inr ok, a')" and "mp_holds st v"
  shows "aa_wf a' \<and> aa_holds a'
    (c\<lparr>ar_objects := (ar_objects c)\<lparr>oc_payload := (oc_payload (ar_objects c))(key := v)\<rparr>\<rparr>)"
proof -
  have a': "a' = a\<lparr>aa_object_state := snd (os_set_resource_payload key st (aa_object_state a))\<rparr>"
    using assms(3) by (auto simp: aa_set_resource_payload_def split: sum.splits prod.splits)
  show ?thesis
    using assms(1,2) os_set_resource_payload_wf [of "aa_object_state a" key st]
      os_set_resource_payload_holds [of "aa_object_state a" "ar_objects c" st v key] assms(4)
    by (simp add: a' aa_meaning)
qed

section \<open>Learning facts\<close>

lemma record_ok:
  assumes "aa_wf a" and "aa_holds a c" and "aval_wf v" and "scalar_fact_holds v (ar_cells c (r, access))"
  shows "aa_wf (record_scalar_content r access v a) \<and> aa_holds (record_scalar_content r access v a) c"
  using assms sc_record_holds [of "aa_scalar_contents a" "ar_cells c" "ar_good c" v r access]
  by (auto simp: record_scalar_content_def aa_meaning)

lemma certify_ok:
  assumes "aa_wf a" and "aa_holds a c" and "hp_wf p" and "hp_holds p (ar_cells c) (ar_good c)"
  shows "aa_wf (certify_heap_prefix p a) \<and> aa_holds (certify_heap_prefix p a) c"
  using assms sc_certify_holds(1) [of "aa_scalar_contents a" p]
    sc_certify_holds(2) [of "aa_scalar_contents a" p "ar_cells c" "ar_good c"]
  by (simp add: certify_heap_prefix_def aa_meaning)

lemma forget_value_ok:
  assumes "aa_wf a" and "aa_holds a c"
  shows "aa_wf (a\<lparr>aa_prefixes := ip_forget_value v (aa_prefixes a)\<rparr>) \<and>
    aa_holds (a\<lparr>aa_prefixes := ip_forget_value v (aa_prefixes a)\<rparr>) (c\<lparr>ar_env := (ar_env c)(v := x)\<rparr>)"
  using assms ip_forget_value_holds [of "aa_prefixes a" "ar_env c" "ar_good c" v] by (simp add: aa_meaning)

lemma origin_update_ok:
  assumes "aa_wf a" and "aa_holds a c"
  shows "aa_wf (aa_set_scalar_origin r access origin a) \<and> aa_holds (aa_set_scalar_origin r access origin a) c"
    and "aa_wf (aa_set_bool_origin r access borigin a) \<and> aa_holds (aa_set_bool_origin r access borigin a) c"
  using assms by (auto simp: aa_meaning aa_set_scalar_origin_def aa_set_bool_origin_def Let_def sc_wf_def sc_holds_def)

lemma scalar_content_holds:
  "aa_holds a c \<Longrightarrow> aa_scalar_content a r access = Some v \<Longrightarrow> scalar_fact_holds v (ar_cells c (r, access))"
  using sc_get_holds [of "aa_scalar_contents a" "ar_cells c" "ar_good c" r access v]
  by (simp add: aa_holds_def aa_scalar_content_def split: if_splits)

definition copied :: "byte_range \<Rightarrow> u64 \<Rightarrow> cells \<Rightarrow> cells \<Rightarrow> bool" where
  "copied selected destination source target =
     (\<forall>r access start t. br_start selected \<le> br_start r \<longrightarrow> br_end r \<le> br_end selected \<longrightarrow>
        u64_checked_add destination (br_start r - br_start selected) = Some start \<longrightarrow>
        br_from_start_and_length start (br_end r - br_start r) = Inr t \<longrightarrow> target (t, access) = source (r, access))"

lemma copy_cell_ok:
  assumes "aa_wf a" and "aa_holds a c" and "aa_wf source" and "aa_holds source d"
    and "copied selected destination (ar_cells d) (ar_cells c)" and "cell \<in> set (sc_values (aa_scalar_contents source))"
  shows "aa_wf (copy_cell source selected destination cell a) \<and> aa_holds (copy_cell source selected destination cell a) c"
proof -
  obtain r access v where cell: "cell = ((r, access), v)" by (metis surj_pair)
  have v: "aval_wf v" "scalar_fact_holds v (ar_cells d (r, access))"
    using assms(3,4,6) by (auto simp: cell aa_meaning sc_wf_def sc_holds_def)
  define P where "P b = (aa_wf b \<and> aa_holds b c)" for b
  have rec: "P (record_scalar_content t access v a)"
    if "\<not> br_start r < br_start selected" "\<not> br_end r > br_end selected"
      "u64_checked_add destination (br_start r - br_start selected) = Some start"
      "br_from_start_and_length start (br_end r - br_start r) = Inr t" for start t
    unfolding P_def
    by (rule record_ok [OF assms(1,2) v(1)]) (use that assms(5) v(2) in \<open>auto simp: copied_def not_less\<close>)
  have org: "P (aa_set_scalar_origin t access so b)" "P (aa_set_bool_origin t access bo b)" if "P b" for t so bo b
    using that origin_update_ok [of b c] unfolding P_def by blast+
  have "P a" using assms(1,2) by (simp add: P_def)
  then have "P (copy_cell source selected destination cell a)"
    using rec by (auto simp: copy_cell_def cell Let_def org split: option.split sum.split)
  then show ?thesis by (simp add: P_def)
qed

lemma copy_ok:
  assumes "aa_wf a" and "aa_holds a c" and "aa_wf source" and "aa_holds source d"
    and "copied selected destination (ar_cells d) (ar_cells c)"
  shows "aa_wf (copy_scalar_contents source selected destination a) \<and>
    aa_holds (copy_scalar_contents source selected destination a) c"
proof -
  have "aa_wf (fold (copy_cell source selected destination) cs b) \<and> aa_holds (fold (copy_cell source selected destination) cs b) c"
    if "set cs \<subseteq> set (sc_values (aa_scalar_contents source))" "aa_wf b" "aa_holds b c" for cs b
    using that
  proof (induction cs arbitrary: b)
    case (Cons cell cs)
    then show ?case using copy_cell_ok [OF Cons.prems(2,3) assms(3-5), of cell] by simp
  qed simp
  then show ?thesis using assms(1,2) by (simp add: copy_scalar_contents_def)
qed

definition origin_within :: "scalar_origin \<Rightarrow> u64_interval \<Rightarrow> abstract_allocation \<Rightarrow> cells \<Rightarrow> bool" where
  "origin_within origin i a w =
     (\<forall>k v. (k, origin) \<in> set (sc_word_origins (aa_scalar_contents a)) \<longrightarrow> w k = SWord v \<longrightarrow> iv_contains i v)"

lemma narrow_cell_ok:
  assumes "aa_wf a" and "aa_holds a c" and "origin_within origin i a (ar_cells c)"
    and "scalar_fact_holds (snd (snd cell)) (ar_cells c (fst cell, fst (snd cell)))"
  shows "aa_wf (narrow_cell origin i cell a) \<and> aa_holds (narrow_cell origin i cell a) c \<and>
    origin_within origin i (narrow_cell origin i cell a) (ar_cells c)"
proof -
  obtain r access v where cell: "cell = (r, access, v)" by (metis surj_pair)
  let ?sc = "aa_scalar_contents a"
  have "aa_wf (a\<lparr>aa_scalar_contents := ?sc\<lparr>sc_values := bt_insert (r, access) (AVU64 narrowed) (sc_values ?sc)\<rparr>\<rparr>) \<and>
      aa_holds (a\<lparr>aa_scalar_contents := ?sc\<lparr>sc_values := bt_insert (r, access) (AVU64 narrowed) (sc_values ?sc)\<rparr>\<rparr>) c"
    if h: "aa_scalar_origin a r access = Some origin" "v = AVU64 current" "iv_intersection current i = Some narrowed"
    for current narrowed
  proof -
    obtain n where n: "ar_cells c (r, access) = SWord n" "iv_contains current n"
      using assms(4) h(2) by (cases "ar_cells c (r, access)") (auto simp: cell)
    have org: "bt_get (sc_word_origins ?sc) (r, access) = Some origin" "is_word_fact (aa_scalar_content a r access)"
      using h(1) by (auto simp: aa_scalar_origin_def split: if_splits)
    then have "iv_contains i n" using assms(3) n(1) by (auto simp: origin_within_def dest!: bt_get_in_set)
    then have fact: "scalar_fact_holds (AVU64 narrowed) (ar_cells c (r, access))"
      using h(3) n by (auto simp: iv_intersection_def iv_new_ok iv_contains_def)
    have wf: "aval_wf (AVU64 narrowed)" using h(3) by (auto simp: iv_intersection_def iv_new_ok iv_wf_def)
    have present: "bt_get (sc_values ?sc) (r, access) \<noteq> None"
      using org(2) by (cases "bt_get (sc_values ?sc) (r, access)") (auto simp: aa_scalar_content_def sc_get_def split: if_splits)
    have len: "length (bt_insert (r, access) (AVU64 narrowed) (sc_values ?sc)) \<le> 64"
      using assms(1) bt_insert_length_old [OF _ present, of "AVU64 narrowed"] by (simp add: aa_wf_def sc_wf_def)
    have "is_scalar_fact x \<and> aval_wf x" if "(k, x) \<in> set (bt_insert (r, access) (AVU64 narrowed) (sc_values ?sc))" for k x
      using bt_insert_elem [OF that] assms(1) wf by (auto simp: aa_wf_def sc_wf_def)
    then have "sc_wf (?sc\<lparr>sc_values := bt_insert (r, access) (AVU64 narrowed) (sc_values ?sc)\<rparr>)"
      using assms(1) len by (auto simp: aa_wf_def sc_wf_def)
    then show ?thesis using assms(1,2) sc_holds_insert [of ?sc "ar_cells c" "ar_good c", OF _ fact] by (simp add: aa_meaning)
  qed
  then show ?thesis
    using assms(1-3)
    by (auto simp: narrow_cell_def cell origin_within_def split: abstract_value.split option.split)
qed

lemma narrow_ok:
  assumes "aa_wf a" and "aa_holds a c" and "origin_within origin i a (ar_cells c)"
  shows "aa_wf (narrow_stored_word_origin origin i a) \<and> aa_holds (narrow_stored_word_origin origin i a) c"
proof -
  have "aa_wf (fold (narrow_cell origin i) cs b) \<and> aa_holds (fold (narrow_cell origin i) cs b) c"
    if "\<forall>cell \<in> set cs. scalar_fact_holds (snd (snd cell)) (ar_cells c (fst cell, fst (snd cell)))"
      "aa_wf b" "aa_holds b c" "origin_within origin i b (ar_cells c)" for cs b
    using that
  proof (induction cs arbitrary: b)
    case (Cons cell cs)
    then show ?case using narrow_cell_ok [OF Cons.prems(2-4), of cell] by simp
  qed simp
  moreover have "\<forall>cell \<in> set (aa_scalar_cells a). scalar_fact_holds (snd (snd cell)) (ar_cells c (fst cell, fst (snd cell)))"
    using scalar_content_holds [OF assms(2)]
    by (auto simp: aa_scalar_cells_def List.map_filter_def split: if_splits)
  ultimately show ?thesis using assms by (simp add: narrow_stored_word_origin_def)
qed

section \<open>Prefix facts\<close>

lemma element_index:
  fixes base u x n s :: int
  assumes "base + u * s \<le> x" and "x < base + n * s" and "0 \<le> s"
  obtains j where "u \<le> j" and "j < n" and "base + j * s \<le> x" and "x < base + (j + 1) * s"
proof -
  have pos: "0 < s" using assms by (cases "s = 0") auto
  define j where "j = (x - base) div s"
  define m where "m = (x - base) mod s"
  have x: "x - base = j * s + m" unfolding j_def m_def by (rule div_mult_mod_eq [symmetric])
  have m: "0 \<le> m" "m < s" using pos by (simp_all add: m_def)
  have js: "(j + 1) * s = j * s + s" by (simp add: distrib_right)
  have "u * s < (j + 1) * s" using x m js assms(1) by linarith
  then have "u < j + 1" using pos by (auto simp: mult_less_cancel_right)
  moreover have "j * s < n * s" using x m assms(2) by linarith
  then have "j < n" using pos by (auto simp: mult_less_cancel_right)
  ultimately show thesis using that [of j] x m js by simp
qed

lemma reduced_elements:
  assumes "uint lo = uint (ak_base k) + upper * uint (ak_stride k)" and "uint hi = uint (ak_base k) + n * uint (ak_stride k)"
    and "0 \<le> upper" and "b \<le> upper" and "n \<le> m" and "n \<le> uint (ak_length k)"
    and "uint lo \<le> x" and "x < uint hi"
  shows "x \<in> elements k b m"
proof -
  obtain j where "upper \<le> j" "j < n" "uint (ak_base k) + j * uint (ak_stride k) \<le> x" "x < uint (ak_base k) + (j + 1) * uint (ak_stride k)"
    by (rule element_index [of "uint (ak_base k)" upper "uint (ak_stride k)" x n]) (use assms in auto)
  then show ?thesis using assms(3-6) unfolding elements_def by (intro CollectI exI [of _ j]) linarith
qed

lemma reduce_fact_ok:
  assumes "aa_wf a" and "aa_holds a c" and "reads read (ar_env c)"
    and "fact_wf (fst entry) (snd entry)" and "fact_holds (ar_env c) (ar_good c) (fst entry) (snd entry)"
  shows "aa_wf (reduce_fact read entry a) \<and> aa_holds (reduce_fact read entry a) c"
proof -
  let ?k = "fst entry"
  let ?lower = "\<lambda>count. case expr_interval read count of Some i \<Rightarrow> iv_lower i | None \<Rightarrow> 0"
  let ?count = "min (Max (insert 0 (?lower ` snd entry))) (ak_length ?k)"
  have sub: "br_bytes r \<subseteq> ar_good c"
    if lo: "Option.bind (expr_interval read (ak_begin ?k)) (\<lambda>i.
        Option.bind (u64_checked_mul (iv_upper i) (ak_stride ?k)) (u64_checked_add (ak_base ?k))) = Some lo"
      and hi: "Option.bind (u64_checked_mul ?count (ak_stride ?k)) (u64_checked_add (ak_base ?k)) = Some hi"
      and r: "br_new lo hi = Inr r" for lo hi r
  proof
    fix x assume "x \<in> br_bytes r"
    then have x: "uint lo \<le> x" "x < uint hi" using r by (auto simp: br_new_def br_bytes_def split: if_splits)
    obtain i where i: "expr_interval read (ak_begin ?k) = Some i"
      and lov: "uint lo = uint (ak_base ?k) + uint (iv_upper i) * uint (ak_stride ?k)"
      using lo by (auto simp: Option.bind_eq_Some_conv dest!: checked_arith)
    have "uint (ak_base ?k) \<le> uint lo" unfolding lov by simp
    then have low: "uint (ak_base ?k) < uint hi" using x by linarith
    have hiv: "uint hi = uint (ak_base ?k) + uint ?count * uint (ak_stride ?k)"
      using hi by (auto simp: Option.bind_eq_Some_conv dest!: checked_arith)
    have lower': "ae_den (ar_env c) (ak_begin ?k) \<le> uint (iv_upper i)"
      using expr_interval_bounds(2) [OF i assms(3)] assms(5) by (simp add: fact_holds_def)
    have "Max (insert 0 (?lower ` snd entry)) \<in> insert 0 (?lower ` snd entry)"
      using assms(4) by (intro Max_in) (auto simp: fact_wf_def)
    then consider "Max (insert 0 (?lower ` snd entry)) = 0" |
      e where "e \<in> snd entry" "Max (insert 0 (?lower ` snd entry)) = ?lower e" by auto
    then show "x \<in> ar_good c"
    proof cases
      case 1
      then have "uint hi = uint (ak_base ?k)" using hiv by simp
      then show ?thesis using low by simp
    next
      case (2 e)
      show ?thesis
      proof (cases "expr_interval read e")
        case None
        then have "uint hi = uint (ak_base ?k)" using hiv 2(2) by simp
        then show ?thesis using low by simp
      next
        case (Some ie)
        have e: "ae_den (ar_env c) e < 2 ^ 64"
          "elements ?k (ae_den (ar_env c) (ak_begin ?k)) (ae_den (ar_env c) e) \<subseteq> ar_good c"
          using assms(5) 2(1) by (auto simp: fact_holds_def)
        have "uint ?count \<le> ae_den (ar_env c) e"
          using expr_interval_bounds(1) [OF Some assms(3) e(1)] 2(2) Some by (simp add: uint_min_u64)
        moreover have "uint ?count \<le> uint (ak_length ?k)" by (simp add: uint_min_u64)
        ultimately have "x \<in> elements ?k (ae_den (ar_env c) (ak_begin ?k)) (ae_den (ar_env c) e)"
          by (intro reduced_elements [OF lov hiv _ lower' _ _ x]) auto
        then show ?thesis using e(2) by blast
      qed
    qed
  qed
  have "aa_wf (a\<lparr>aa_initialization := is_mark_initialized r (aa_initialization a),
      aa_valid_value_bytes := bs_insert r (aa_valid_value_bytes a)\<rparr>) \<and>
    aa_holds (a\<lparr>aa_initialization := is_mark_initialized r (aa_initialization a),
      aa_valid_value_bytes := bs_insert r (aa_valid_value_bytes a)\<rparr>) c"
    if "br_bytes r \<subseteq> ar_good c" "br_wf r" for r
  proof -
    have "ar_init c \<union> br_bytes r = ar_init c" using that(1) by blast
    then have "is_wf (is_mark_initialized r (aa_initialization a))" "is_holds (is_mark_initialized r (aa_initialization a)) (ar_init c)"
      using is_mark_initialized_holds [of "aa_initialization a" r "ar_init c"] assms(1,2) that(2) by (simp_all add: aa_meaning)
    moreover have "bs_wf (bs_insert r (aa_valid_value_bytes a))" "bs_bytes (bs_insert r (aa_valid_value_bytes a)) \<subseteq> ar_valid c"
      using assms(1,2) that bs_insert_wf [of "aa_valid_value_bytes a" r] bs_insert_sub [of "aa_valid_value_bytes a" r]
      by (auto simp: aa_meaning)
    ultimately show ?thesis using assms(1,2) by (simp add: aa_meaning)
  qed
  moreover have "br_wf r" if "br_new lo hi = Inr r" for lo hi r
    using that by (auto simp: br_new_def split: if_splits)
  ultimately show ?thesis
    using assms(1,2) sub by (auto simp: reduce_fact_def Let_def split: option.split sum.split)
qed

lemma reduce_fact_prefixes: "aa_prefixes (reduce_fact read entry a) = aa_prefixes a"
  by (auto simp: reduce_fact_def Let_def split: option.split sum.split)

lemma reduce_ok:
  assumes "aa_wf a" and "aa_holds a c" and "reads read (ar_env c)"
  shows "aa_wf (reduce_initialization_prefixes read a) \<and> aa_holds (reduce_initialization_prefixes read a) c"
proof -
  have "aa_wf (fold (reduce_fact read) fs b) \<and> aa_holds (fold (reduce_fact read) fs b) c"
    if "set fs \<subseteq> set (aa_prefixes a)" "aa_wf b" "aa_holds b c" for fs b
    using that
  proof (induction fs arbitrary: b)
    case (Cons f fs)
    have "fact_wf (fst f) (snd f)" "fact_holds (ar_env c) (ar_good c) (fst f) (snd f)"
      using assms(1,2) Cons.prems(1) by (auto simp: aa_meaning ip_wf_def ip_holds_def)
    then show ?case using Cons reduce_fact_ok [OF Cons.prems(2,3) assms(3), of f] by simp
  qed simp
  then show ?thesis using assms(1,2) by (simp add: reduce_initialization_prefixes_def)
qed

end
