(* ===== verification/Allocation_Steps.thy ===== *)
theory Allocation_Steps
  imports Abstract_Allocation
begin

text \<open>
  Runs of the allocation operations. \<open>aa_apply\<close> is one call on \<open>AbstractAllocation\<close>, \<open>op_effect\<close> what the
  program may have done to the memory when the call is made, and \<open>aa_step\<close> the steps both take
  together, failed calls included. The invariant is carried along every run, and the queries the
  verifier asks of a reachable allocation are answered truthfully.
\<close>

section \<open>Queries\<close>

lemma readable_holds:
  assumes "aa_wf a" and "aa_holds a c" and "br_wf r" and "aa_readable a r"
  shows "ar_live c" and "br_bytes r \<subseteq> ar_good c"
  using assms is_classify_holds(1) [of "aa_initialization a" r "ar_init c"] bs_contains_iff [of "aa_valid_value_bytes a" r]
  by (auto simp: aa_meaning aa_readable_def)

lemma heap_prefix_valid_holds:
  assumes "aa_wf a" and "aa_holds a c" and "heap_prefix_valid a p"
  shows "hp_holds p (ar_cells c) (ar_good c)"
  unfolding hp_holds_def
proof (intro allI impI)
  fix n
  assume n: "ar_cells c (hp_count_range p, hp_count_access p) = SWord n" "n \<le> hp_length p"
  obtain i where i: "aa_scalar_content a (hp_count_range p) (hp_count_access p) = Some (AVU64 i)"
    and upper: "\<not> iv_upper i > hp_length p"
    and how: "bt_get (sc_prefixes (aa_scalar_contents a)) p = Some True \<or> iv_upper i = 0 \<or>
      (\<exists>r. Option.bind (u64_checked_mul (iv_upper i) (hp_stride p))
          (\<lambda>m. result_ok (br_from_start_and_length (hp_array_offset p) m)) = Some r \<and>
        is_classify (aa_initialization a) r = Initialized \<and> bs_contains (aa_valid_value_bytes a) r)"
    using assms(3) by (auto simp: heap_prefix_valid_def split: if_splits option.splits abstract_value.splits)
  have le: "n \<le> iv_upper i" using scalar_content_holds [OF assms(2) i] n(1) by (simp add: iv_contains_def)
  consider "bt_get (sc_prefixes (aa_scalar_contents a)) p = Some True" | "n = 0" |
    m r where "u64_checked_mul (iv_upper i) (hp_stride p) = Some m"
      "result_ok (br_from_start_and_length (hp_array_offset p) m) = Some r"
      "is_classify (aa_initialization a) r = Initialized" "bs_contains (aa_valid_value_bytes a) r"
    using how le by (auto simp: Option.bind_eq_Some_conv)
  then show "prefix_bytes p n \<subseteq> ar_good c"
  proof cases
    case 1
    then have "hp_holds p (ar_cells c) (ar_good c)"
      using assms(2) by (auto simp: aa_holds_def sc_holds_def dest!: bt_get_in_set)
    then show ?thesis using n by (auto simp: hp_holds_def)
  next
    case 2
    then show ?thesis by (auto simp: prefix_bytes_def)
  next
    case (3 m r)
    obtain e where e: "u64_checked_add (hp_array_offset p) m = Some e" "r = \<lparr>br_start = hp_array_offset p, br_end = e\<rparr>"
      using 3(2) by (auto simp: start_length_Some)
    have val: "uint e = uint (hp_array_offset p) + uint (iv_upper i) * uint (hp_stride p)"
      using e(1) 3(1) by (auto dest!: checked_arith)
    have wf: "br_wf r" using val by (simp add: e(2) word_le_def)
    have "uint n * uint (hp_stride p) \<le> uint (iv_upper i) * uint (hp_stride p)"
      using le by (intro mult_right_mono) (simp_all add: word_le_def)
    then have "prefix_bytes p n \<subseteq> br_bytes r" using val by (auto simp: prefix_bytes_def br_bytes_def e(2))
    moreover have "br_bytes r \<subseteq> ar_good c"
      using assms(1,2) wf 3(3,4) is_classify_holds(1) [of "aa_initialization a" r "ar_init c"]
        bs_contains_iff [of "aa_valid_value_bytes a" r] by (auto simp: aa_meaning)
    ultimately show ?thesis by blast
  qed
qed

lemma prefix_covers_count_holds:
  assumes "aa_wf a" and "aa_holds a c" and "ae_wf count" and "prefix_covers_count a p count"
    and "ae_den (ar_env c) count = uint n" and "n \<le> hp_length p"
  shows "prefix_bytes p n \<subseteq> ar_good c"
proof (cases "ae_is_constant count \<and> ae_addend count = 0")
  case True
  then have "ae_den (ar_env c) count = 0" using assms(3) by (simp add: ae_den_def ae_wf_def ae_is_constant_def ae_terms_def)
  then show ?thesis using assms(5) by (auto simp: prefix_bytes_def)
next
  case False
  then obtain key counts known where key: "(key, counts) \<in> set (aa_prefixes a)" "ak_base key = hp_array_offset p"
      "ak_stride key = hp_stride p" "ak_length key = hp_length p" "ak_begin key = ae_constant 0"
      "known \<in> counts" "same_terms known count" "ae_addend known \<ge> ae_addend count"
    using assms(4) by (auto simp: prefix_covers_count_def list_ex_iff)
  have "ae_den (ar_env c) count \<le> ae_den (ar_env c) known"
    using key(7,8) by (simp add: ae_den_def same_terms_def word_le_def)
  then have sub: "elements key 0 (uint n) \<subseteq> ar_good c"
    using assms(2,5) key(1,5,6) elements_mono [of "uint n" "ae_den (ar_env c) known" key 0]
    by (force simp: aa_holds_def ip_holds_def fact_holds_def)
  have "x \<in> elements key 0 (uint n)" if x: "x \<in> prefix_bytes p n" for x
  proof -
    have b: "uint (ak_base key) + 0 * uint (ak_stride key) \<le> x" "x < uint (ak_base key) + uint n * uint (ak_stride key)"
      using x key(2,3) by (auto simp: prefix_bytes_def)
    obtain j where "0 \<le> j" "j < uint n" "uint (ak_base key) + j * uint (ak_stride key) \<le> x"
        "x < uint (ak_base key) + (j + 1) * uint (ak_stride key)"
      by (rule element_index [OF b]) simp
    moreover have "uint n \<le> uint (ak_length key)" using assms(6) key(4) by (simp add: word_le_def)
    ultimately show ?thesis unfolding elements_def by (intro CollectI exI [of _ j]) linarith
  qed
  then show ?thesis using sub by blast
qed

section \<open>Joins\<close>

lemma aa_join_error:
  "aa_join aid a b = Inl e \<Longrightarrow> aa_region a \<noteq> aa_region b \<or> aa_size_bytes a \<noteq> aa_size_bytes b \<or> aa_alignment a \<noteq> aa_alignment b"
  by (auto simp: aa_join_def split: if_splits)

lemma aa_join_ok:
  assumes "aa_wf a" and "aa_wf b" and "aa_join aid a b = Inr j"
  shows "aa_wf j" and "aa_holds a c \<or> aa_holds b c \<Longrightarrow> aa_holds j c"
proof -
  note parts = assms(3) [unfolded aa_join_def]
  have v: "bs_wf (bs_intersection (aa_valid_value_bytes a) (aa_valid_value_bytes b))"
    "bs_bytes (bs_intersection (aa_valid_value_bytes a) (aa_valid_value_bytes b)) \<subseteq>
      bs_bytes (aa_valid_value_bytes a) \<inter> bs_bytes (aa_valid_value_bytes b)"
    using bs_intersection_spec [of "aa_valid_value_bytes a" "aa_valid_value_bytes b"] assms(1,2) by (auto simp: aa_wf_def)
  show "aa_wf j"
    using parts assms(1,2) v(1) isd.join_wf osd.join_wf sc_join_wf ip_join_holds(1)
    by (auto simp: aa_wf_def split: if_splits)
  assume h: "aa_holds a c \<or> aa_holds b c"
  have "live_holds (live_join (aa_liveness a) (aa_liveness b)) (ar_live c)"
    by (rule lived.join_covers) (use h in \<open>auto simp: aa_holds_def\<close>)
  moreover have "own_holds (own_join (aa_ownership a) (aa_ownership b)) (ar_owned c)"
    by (rule ownd.join_covers) (use h in \<open>auto simp: aa_holds_def\<close>)
  moreover have "is_holds (is_join (aa_initialization a) (aa_initialization b)) (ar_init c)"
    by (rule is_join_holds(2)) (use assms(1,2) h in \<open>auto simp: aa_meaning\<close>)
  moreover have "os_holds (os_join (aa_object_state a) (aa_object_state b)) (ar_objects c)"
    by (rule os_join_holds(2)) (use assms(1,2) h in \<open>auto simp: aa_meaning\<close>)
  moreover have "sc_holds (sc_join (aa_scalar_contents a) (aa_scalar_contents b)) (ar_cells c) (ar_good c)"
    by (rule sc_join_holds) (use assms(1,2) h in \<open>auto simp: aa_meaning\<close>)
  moreover have "ip_holds (ar_env c) (ar_good c) (ip_join (aa_prefixes a) (aa_prefixes b))"
    by (rule ip_join_holds(2)) (use assms(1,2) h in \<open>auto simp: aa_meaning\<close>)
  moreover have "bs_bytes (bs_intersection (aa_valid_value_bytes a) (aa_valid_value_bytes b)) \<subseteq> ar_valid c"
    using v(2) h by (auto simp: aa_holds_def)
  ultimately show "aa_holds j c" using parts by (auto simp: aa_holds_def split: if_splits)
qed

section \<open>Operations and effects\<close>

datatype alloc_op =
    OpMarkInitialized byte_range
  | OpMarkValid byte_range
  | OpMarkUninitialized byte_range
  | OpForgetInitialization byte_range
  | OpForgetValidity byte_range
  | OpForgetObjectState byte_range
  | OpForgetUninitialized byte_range
  | OpForgetPreserved byte_range
  | OpMarkDead
  | OpSetLiveness liveness_state
  | OpSetOwnership ownership_state
  | OpSetActiveVariant object_state_key active_variant_state
  | OpSetResourcePayload resource_payload_key move_path_state
  | OpRecord byte_range vir_memory_access abstract_value
  | OpCopy abstract_allocation byte_range u64
  | OpNarrow scalar_origin u64_interval
  | OpCertify heap_initialization_prefix
  | OpReduce "vir_value_id \<Rightarrow> abstract_value option"
  | OpForgetValue vir_value_id

definition outcome :: "'a alloc_step \<Rightarrow> abstract_allocation_error option \<times> abstract_allocation" where
  "outcome s = (case s of (Inl e, a) \<Rightarrow> (Some e, a) | (Inr _, a) \<Rightarrow> (None, a))"

fun aa_apply :: "alloc_op \<Rightarrow> abstract_allocation \<Rightarrow> abstract_allocation_error option \<times> abstract_allocation" where
  "aa_apply (OpMarkInitialized r) a = outcome (aa_mark_initialized r a)"
| "aa_apply (OpMarkValid r) a = outcome (aa_mark_valid r a)"
| "aa_apply (OpMarkUninitialized r) a = outcome (aa_mark_uninitialized r a)"
| "aa_apply (OpForgetInitialization r) a = outcome (aa_forget_initialization r a)"
| "aa_apply (OpForgetValidity r) a = outcome (aa_forget_validity r a)"
| "aa_apply (OpForgetObjectState r) a = outcome (aa_forget_object_state r a)"
| "aa_apply (OpForgetUninitialized r) a = outcome (aa_forget_uninitialized r a)"
| "aa_apply (OpForgetPreserved r) a = outcome (forget_preserved_slice_contents r a)"
| "aa_apply OpMarkDead a = (None, aa_mark_dead a)"
| "aa_apply (OpSetLiveness l) a = (None, aa_set_liveness l a)"
| "aa_apply (OpSetOwnership ow) a = (None, aa_set_ownership ow a)"
| "aa_apply (OpSetActiveVariant key st) a = outcome (aa_set_active_variant key st a)"
| "aa_apply (OpSetResourcePayload key st) a = outcome (aa_set_resource_payload key st a)"
| "aa_apply (OpRecord r access v) a = (None, record_scalar_content r access v a)"
| "aa_apply (OpCopy source selected destination) a = (None, copy_scalar_contents source selected destination a)"
| "aa_apply (OpNarrow origin i) a = (None, narrow_stored_word_origin origin i a)"
| "aa_apply (OpCertify p) a = (None, certify_heap_prefix p a)"
| "aa_apply (OpReduce read) a = (None, reduce_initialization_prefixes read a)"
| "aa_apply (OpForgetValue v) a = (None, a\<lparr>aa_prefixes := ip_forget_value v (aa_prefixes a)\<rparr>)"

fun op_range :: "alloc_op \<Rightarrow> byte_range option" where
  "op_range (OpMarkInitialized r) = Some r"
| "op_range (OpMarkValid r) = Some r"
| "op_range (OpMarkUninitialized r) = Some r"
| "op_range (OpForgetInitialization r) = Some r"
| "op_range (OpForgetValidity r) = Some r"
| "op_range (OpForgetObjectState r) = Some r"
| "op_range (OpForgetUninitialized r) = Some r"
| "op_range (OpForgetPreserved r) = Some r"
| "op_range _ = None"

fun op_effect :: "alloc_op \<Rightarrow> abstract_allocation \<Rightarrow> allocation_run \<Rightarrow> allocation_run \<Rightarrow> bool" where
  "op_effect (OpMarkInitialized r) a c c' =
     (\<exists>w. cells_outside r (ar_cells c) w \<and> c' = c\<lparr>ar_init := ar_init c \<union> br_bytes r, ar_cells := w\<rparr>)"
| "op_effect (OpMarkValid r) a c c' = (c' = c\<lparr>ar_valid := ar_valid c \<union> br_bytes r\<rparr>)"
| "op_effect (OpMarkUninitialized r) a c c' =
     (\<exists>w ob. cells_outside r (ar_cells c) w \<and> same_outside r (ar_objects c) ob \<and>
        (\<forall>key. br_contains r (key_range key) \<longrightarrow> oc_payload ob key = None) \<and>
        c' = c\<lparr>ar_init := ar_init c - br_bytes r, ar_valid := ar_valid c - br_bytes r, ar_cells := w, ar_objects := ob\<rparr>)"
| "op_effect (OpForgetInitialization r) a c c' =
     (\<exists>w ob I V. cells_outside r (ar_cells c) w \<and> same_outside r (ar_objects c) ob \<and>
        I - br_bytes r = ar_init c - br_bytes r \<and> V - br_bytes r = ar_valid c - br_bytes r \<and>
        c' = c\<lparr>ar_init := I, ar_valid := V, ar_cells := w, ar_objects := ob\<rparr>)"
| "op_effect (OpForgetValidity r) a c c' =
     (\<exists>w V. cells_outside r (ar_cells c) w \<and> V - br_bytes r = ar_valid c - br_bytes r \<and>
        c' = c\<lparr>ar_valid := V, ar_cells := w\<rparr>)"
| "op_effect (OpForgetObjectState r) a c c' =
     (\<exists>w ob. cells_outside r (ar_cells c) w \<and> same_outside r (ar_objects c) ob \<and>
        c' = c\<lparr>ar_cells := w, ar_objects := ob\<rparr>)"
| "op_effect (OpForgetUninitialized r) a c c' =
     (\<exists>w I. cells_outside r (ar_cells c) w \<and> ar_init c \<subseteq> I \<and> I \<subseteq> ar_init c \<union> br_bytes r \<and>
        c' = c\<lparr>ar_init := I, ar_cells := w\<rparr>)"
| "op_effect (OpForgetPreserved r) a c c' =
     (\<exists>w ob I. cells_outside r (ar_cells c) w \<and> same_outside r (ar_objects c) ob \<and>
        ar_init c \<subseteq> I \<and> I \<subseteq> ar_init c \<union> br_bytes r \<and> c' = c\<lparr>ar_init := I, ar_cells := w, ar_objects := ob\<rparr>)"
| "op_effect OpMarkDead a c c' = (\<exists>w. c' = c\<lparr>ar_live := False, ar_owned := False, ar_cells := w\<rparr>)"
| "op_effect (OpSetLiveness l) a c c' =
     (\<exists>b w. live_holds l b \<and> (l = Live \<longrightarrow> w = ar_cells c) \<and> c' = c\<lparr>ar_live := b, ar_cells := w\<rparr>)"
| "op_effect (OpSetOwnership ow) a c c' = (\<exists>b. own_holds ow b \<and> c' = c\<lparr>ar_owned := b\<rparr>)"
| "op_effect (OpSetActiveVariant key st) a c c' =
     (\<exists>v w. avs_holds st v \<and>
        c' = c\<lparr>ar_cells := w, ar_objects := (ar_objects c)\<lparr>oc_variant := (oc_variant (ar_objects c))(key := v)\<rparr>\<rparr>)"
| "op_effect (OpSetResourcePayload key st) a c c' =
     (\<exists>v. mp_holds st v \<and> c' = c\<lparr>ar_objects := (ar_objects c)\<lparr>oc_payload := (oc_payload (ar_objects c))(key := v)\<rparr>\<rparr>)"
| "op_effect (OpRecord r access v) a c c' = (aval_wf v \<and> scalar_fact_holds v (ar_cells c (r, access)) \<and> c' = c)"
| "op_effect (OpCopy source selected destination) a c c' =
     (\<exists>d. aa_wf source \<and> aa_holds source d \<and> copied selected destination (ar_cells d) (ar_cells c) \<and> c' = c)"
| "op_effect (OpNarrow origin i) a c c' = (origin_within origin i a (ar_cells c) \<and> c' = c)"
| "op_effect (OpCertify p) a c c' = (hp_wf p \<and> hp_holds p (ar_cells c) (ar_good c) \<and> c' = c)"
| "op_effect (OpReduce read) a c c' = (reads read (ar_env c) \<and> c' = c)"
| "op_effect (OpForgetValue v) a c c' = (\<exists>x. c' = c\<lparr>ar_env := (ar_env c)(v := x)\<rparr>)"

inductive aa_step :: "abstract_allocation \<times> allocation_run \<Rightarrow> abstract_allocation \<times> allocation_run \<Rightarrow> bool" where
  applied: "aa_apply op a = (None, a') \<Longrightarrow> (\<And>r. op_range op = Some r \<Longrightarrow> br_wf r) \<Longrightarrow> op_effect op a c c' \<Longrightarrow>
    aa_step (a, c) (a', c')"
| failed: "aa_apply op a = (Some e, a') \<Longrightarrow> (\<And>r. op_range op = Some r \<Longrightarrow> br_wf r) \<Longrightarrow> aa_step (a, c) (a', c)"

inductive_cases aa_stepE: "aa_step (a, c) (a', c')"

lemma outcome_None: "outcome s = (None, a') \<longleftrightarrow> (\<exists>x. s = (Inr x, a'))"
  by (auto simp: outcome_def split: prod.splits sum.splits)

lemma outcome_Some: "outcome s = (Some e, a') \<longleftrightarrow> s = (Inl e, a')"
  by (auto simp: outcome_def split: prod.splits sum.splits)

lemma applied_ok:
  assumes "aa_wf a" and "aa_holds a c" and "aa_apply op a = (None, a')"
    and "\<And>r. op_range op = Some r \<Longrightarrow> br_wf r" and "op_effect op a c c'"
  shows "aa_wf a' \<and> aa_holds a' c'"
proof (cases op)
  case (OpMarkInitialized r)
  then show ?thesis using assms mark_initialized_ok [OF assms(1,2)] by (auto simp: outcome_None)
next
  case (OpMarkValid r)
  then show ?thesis using assms mark_valid_ok [OF assms(1,2)] by (auto simp: outcome_None)
next
  case (OpMarkUninitialized r)
  then obtain w ob u where h: "cells_outside r (ar_cells c) w" "same_outside r (ar_objects c) ob"
    "\<And>key. br_contains r (key_range key) \<Longrightarrow> oc_payload ob key = None" "aa_mark_uninitialized r a = (Inr u, a')"
    "c' = c\<lparr>ar_init := ar_init c - br_bytes r, ar_valid := ar_valid c - br_bytes r, ar_cells := w, ar_objects := ob\<rparr>" "br_wf r"
    using assms(3-5) by (auto simp: outcome_None)
  show ?thesis unfolding h(5) by (rule mark_uninitialized_ok [OF assms(1,2) h(6,4,1,2,3)])
next
  case (OpForgetInitialization r)
  then show ?thesis using assms forget_initialization_ok [OF assms(1,2)] by (auto simp: outcome_None)
next
  case (OpForgetValidity r)
  then show ?thesis using assms forget_validity_ok [OF assms(1,2)] by (auto simp: outcome_None)
next
  case (OpForgetObjectState r)
  then show ?thesis using assms forget_object_state_ok [OF assms(1,2)] by (auto simp: outcome_None)
next
  case (OpForgetUninitialized r)
  then show ?thesis using assms forget_uninitialized_ok [OF assms(1,2)] by (auto simp: outcome_None)
next
  case (OpForgetPreserved r)
  then show ?thesis using assms forget_preserved_ok [OF assms(1,2)] by (auto simp: outcome_None)
next
  case OpMarkDead
  then show ?thesis using assms(3,5) mark_dead_ok [OF assms(1,2)] by auto
next
  case (OpSetLiveness l)
  then show ?thesis using assms(3,5) set_liveness_ok [OF assms(1,2)] by auto
next
  case (OpSetOwnership ow)
  then show ?thesis using assms(3,5) set_ownership_ok [OF assms(1,2)] by auto
next
  case (OpSetActiveVariant key st)
  then show ?thesis using assms(3,5) set_active_variant_ok [OF assms(1,2)] by (auto simp: outcome_None)
next
  case (OpSetResourcePayload key st)
  then show ?thesis using assms(3,5) set_resource_payload_ok [OF assms(1,2)] by (auto simp: outcome_None)
next
  case (OpRecord r access v)
  then show ?thesis using assms(3,5) record_ok [OF assms(1,2)] by auto
next
  case (OpCopy source selected destination)
  then show ?thesis using assms(3,5) copy_ok [OF assms(1,2)] by auto
next
  case (OpNarrow origin i)
  then show ?thesis using assms(3,5) narrow_ok [OF assms(1,2)] by auto
next
  case (OpCertify p)
  then show ?thesis using assms(3,5) certify_ok [OF assms(1,2)] by auto
next
  case (OpReduce read)
  then show ?thesis using assms(3,5) reduce_ok [OF assms(1,2)] by auto
next
  case (OpForgetValue v)
  then show ?thesis using assms(3,5) forget_value_ok [OF assms(1,2)] by auto
qed

lemmas guarded_defs = aa_mark_initialized_def aa_mark_valid_def aa_mark_uninitialized_def aa_forget_initialization_def
  aa_forget_validity_def aa_forget_object_state_def aa_forget_uninitialized_def forget_preserved_slice_contents_def

lemma failed_state:
  assumes "aa_apply op a = (Some e, a')"
  shows "a' = a \<or> (\<exists>r. a' = aa_forget_contents r a) \<or> a' = aa_clear_contents a"
  using assms
  by (cases op)
    (auto simp: outcome_Some guarded_defs aa_set_active_variant_def aa_set_resource_payload_def Let_def
      split: sum.splits prod.splits dest!: aa_guard_err)

lemma failed_ok:
  assumes "aa_wf a" and "aa_holds a c" and "aa_apply op a = (Some e, a')"
  shows "aa_wf a' \<and> aa_holds a' c"
  using failed_state [OF assms(3)] assms(1,2) forget_contents_step [OF assms(1,2)]
    clear_contents_step [OF assms(1,2), of "ar_cells c"] by auto

lemma aa_step_ok: "aa_step s t \<Longrightarrow> aa_wf (fst s) \<and> aa_holds (fst s) (snd s) \<Longrightarrow> aa_wf (fst t) \<and> aa_holds (fst t) (snd t)"
proof (induction rule: aa_step.induct)
  case (applied op a a' c c')
  have ok: "aa_wf a" "aa_holds a c" using applied.prems by simp_all
  show ?case using applied_ok [OF ok applied.hyps(1) _ applied.hyps(3)] applied.hyps(2) by simp
next
  case (failed op a e a' c)
  then show ?case using failed_ok [of a c op e a'] by simp
qed

lemma aa_steps_ok:
  "aa_step\<^sup>*\<^sup>* s t \<Longrightarrow> aa_wf (fst s) \<and> aa_holds (fst s) (snd s) \<Longrightarrow> aa_wf (fst t) \<and> aa_holds (fst t) (snd t)"
  by (induction rule: rtranclp_induct) (auto dest: aa_step_ok)

section \<open>Properties\<close>

definition fresh_run :: "bool \<Rightarrow> allocation_run \<Rightarrow> bool" where
  "fresh_run owned c = (ar_live c \<and> ar_owned c = owned \<and> ar_init c = {})"

lemma fresh_ok:
  assumes "aa_with_region region size_bytes alignment ow = Inr a" and "fresh_run owned c" and "own_holds ow owned"
  shows "aa_wf a \<and> aa_holds a c"
proof -
  obtain al where al: "ga_new alignment = Inr al" and a: "a = \<lparr>aa_scalar_contents = sc_default, aa_region = region,
      aa_size_bytes = size_bytes, aa_alignment = al, aa_liveness = Live, aa_ownership = ow,
      aa_initialization = is_all_uninitialized size_bytes, aa_valid_value_bytes = bs_new, aa_object_state = os_new,
      aa_prefixes = [], aa_initialization_revision = Some 0\<rparr>" and size: "size_bytes \<noteq> 0"
    using assms(1) by (auto simp: aa_with_region_def split: if_splits sum.splits)
  have "os_wf os_new" "os_holds os_new (ar_objects c)"
    by (simp_all add: os_wf_def os_holds_def os_new_def os_active_variant_def os_resource_payload_def)
  then show ?thesis
    using assms(2,3) is_all_uninitialized_holds [of size_bytes] ga_new_wf [OF al] size
    by (simp add: aa_meaning a fresh_run_def)
qed

text \<open>C12: A reachable abstract allocation never lies about memory. Starting from a fresh heap or local
  allocation, after any sequence of the allocation operations (failed calls included) that follow what
  the program did to the memory, a range classified initialised is initialised and one classified
  uninitialised is not, a scalar the state reports is the value stored in live, initialised and valid
  bytes, and a certified heap prefix really covers its elements up to the stored count.\<close>

theorem allocation_reports_truth:
  assumes "aa_with_region region size_bytes alignment (if owned then Owned else Unowned) = Inr a\<^sub>0"
    and "fresh_run owned c\<^sub>0" and "aa_step\<^sup>*\<^sup>* (a\<^sub>0, c\<^sub>0) (a, c)" and "br_wf r"
  shows "(is_classify (aa_initialization a) r = Initialized \<longrightarrow> br_bytes r \<subseteq> ar_init c) \<and>
    (is_classify (aa_initialization a) r = Uninitialized \<longrightarrow> br_bytes r \<inter> ar_init c = {}) \<and>
    (\<forall>access v. aa_scalar_content a r access = Some v \<longrightarrow>
      ar_live c \<and> br_bytes r \<subseteq> ar_init c \<inter> ar_valid c \<and> scalar_fact_holds v (ar_cells c (r, access))) \<and>
    (\<forall>p. heap_prefix_valid a p \<longrightarrow> hp_holds p (ar_cells c) (ar_init c \<inter> ar_valid c))"
proof -
  have "aa_wf a\<^sub>0 \<and> aa_holds a\<^sub>0 c\<^sub>0" by (rule fresh_ok [OF assms(1,2)]) simp
  then have ok: "aa_wf a" "aa_holds a c" using aa_steps_ok [OF assms(3)] by simp_all
  have "is_wf (aa_initialization a)" "is_holds (aa_initialization a) (ar_init c)" using ok by (simp_all add: aa_meaning)
  note classify = is_classify_holds [OF this(1) assms(4) this(2)]
  have content: "ar_live c \<and> br_bytes r \<subseteq> ar_good c \<and> scalar_fact_holds v (ar_cells c (r, access))"
    if h: "aa_scalar_content a r access = Some v" for access v
  proof -
    have "aa_readable a r" using h by (simp add: aa_scalar_content_def split: if_splits)
    then show ?thesis using readable_holds [OF ok assms(4)] scalar_content_holds [OF ok(2) h] by blast
  qed
  show ?thesis using classify content heap_prefix_valid_holds [OF ok] by blast
qed

definition demo_cell :: byte_range where
  "demo_cell = \<lparr>br_start = 0, br_end = 8\<rparr>"

definition demo_access :: vir_memory_access where
  "demo_access = \<lparr>ma_ty = 0, ma_layout = 0\<rparr>"

definition demo_start :: abstract_allocation where
  "demo_start = the (result_ok (aa_new_local 8 8))"

definition demo_initialized :: abstract_allocation where
  "demo_initialized = snd (aa_apply (OpMarkInitialized demo_cell) demo_start)"

definition demo_valid :: abstract_allocation where
  "demo_valid = snd (aa_apply (OpMarkValid demo_cell) demo_initialized)"

definition demo_stored :: abstract_allocation where
  "demo_stored = snd (aa_apply (OpRecord demo_cell demo_access (AVU64 (iv_exact 42))) demo_valid)"

definition demo_run :: "int set \<Rightarrow> int set \<Rightarrow> allocation_run" where
  "demo_run I V =
     \<lparr>ar_env = \<lambda>_. 0, ar_live = True, ar_owned = False, ar_init = I, ar_valid = V, ar_cells = \<lambda>_. SWord 42,
      ar_objects = \<lparr>oc_variant = \<lambda>_. 0, oc_payload = \<lambda>_. None\<rparr>\<rparr>"

lemma demo_steps:
  "aa_step\<^sup>*\<^sup>* (demo_start, demo_run {} {}) (demo_stored, demo_run (br_bytes demo_cell) (br_bytes demo_cell))"
proof -
  let ?B = "br_bytes demo_cell"
  have wf: "br_wf demo_cell" by (simp add: demo_cell_def)
  have "aa_apply (OpMarkInitialized demo_cell) demo_start = (None, demo_initialized)"
    unfolding demo_initialized_def by code_simp
  then have "aa_step (demo_start, demo_run {} {}) (demo_initialized, demo_run ?B {})"
    by (rule aa_step.applied) (use wf in \<open>auto simp: demo_run_def\<close>)
  moreover have "aa_apply (OpMarkValid demo_cell) demo_initialized = (None, demo_valid)"
    unfolding demo_valid_def by code_simp
  then have "aa_step (demo_initialized, demo_run ?B {}) (demo_valid, demo_run ?B ?B)"
    by (rule aa_step.applied) (use wf in \<open>auto simp: demo_run_def\<close>)
  moreover have "aa_apply (OpRecord demo_cell demo_access (AVU64 (iv_exact 42))) demo_valid = (None, demo_stored)"
    unfolding demo_stored_def by code_simp
  then have "aa_step (demo_valid, demo_run ?B ?B) (demo_stored, demo_run ?B ?B)"
    by (rule aa_step.applied) (auto simp: demo_run_def iv_exact_def iv_wf_def iv_contains_def)
  ultimately show ?thesis by (meson r_into_rtranclp rtranclp_trans)
qed

theorem allocation_reports_truth_witness:
  "aa_scalar_content demo_stored demo_cell demo_access = Some (AVU64 (iv_exact 42)) \<and>
   br_bytes demo_cell \<subseteq> ar_init (demo_run (br_bytes demo_cell) (br_bytes demo_cell)) \<and>
   scalar_fact_holds (AVU64 (iv_exact 42)) (ar_cells (demo_run (br_bytes demo_cell) (br_bytes demo_cell)) (demo_cell, demo_access))"
proof -
  have start: "aa_with_region None 8 8 (if False then Owned else Unowned) = Inr demo_start"
    unfolding demo_start_def by code_simp
  have fresh: "fresh_run False (demo_run {} {})" by (simp add: fresh_run_def demo_run_def)
  have wf: "br_wf demo_cell" by (simp add: demo_cell_def)
  have read: "aa_scalar_content demo_stored demo_cell demo_access = Some (AVU64 (iv_exact 42))" by code_simp
  show ?thesis using allocation_reports_truth [OF start fresh demo_steps wf] read by blast
qed

end
