(* ===== verification/Scalar_Origin.thy ===== *)
theory Scalar_Origin
  imports Abstract_Allocation "HOL-Library.List_Lexorder"
begin

text \<open>
  Historical origins, \<open>src/src/verifier/resource/scalar_origin.rs\<close> and \<open>scalar_origin/transport.rs\<close>: sums of at
  most two immutable historical words with checked arithmetic, the seeding of the cells of an allocation,
  and the simultaneous renaming of histories at a call boundary. The derived orders of the identities, on
  which their \<open>BTreeMap\<close>s rest, compare the fields variant by variant; \<open>aid_fields\<close> and its companions list
  them, so that the lexicographic order of the lists is the derived order.
\<close>

section \<open>Derived orders\<close>

fun aid_fields :: "abstract_allocation_id \<Rightarrow> nat list" where
  "aid_fields (External raw) = [0, raw]"
| "aid_fields (VirAllocationSite v) = [1, v]"
| "aid_fields (VirLocalStorageSite v) = [2, v]"
| "aid_fields (ContractInstance site resource) = [3, unat site, resource]"
| "aid_fields (SummaryInstance site resource) = [4, unat site, resource]"
| "aid_fields (AbiEntryPayload f p leaf) = [5, f, p, leaf]"
| "aid_fields (AbiCallPayload site result leaf) = [6, unat site, result, leaf]"

definition range_fields :: "byte_range \<Rightarrow> nat list" where
  "range_fields r = [unat (br_start r), unat (br_end r)]"

definition access_fields :: "vir_memory_access \<Rightarrow> nat list" where
  "access_fields a = [ma_ty a, ma_layout a]"

definition transported_fields :: "transported_origin \<Rightarrow> nat list" where
  "transported_fields t = [unat (to_epoch t), to_index t]"

definition snapshot_fields :: "scalar_cell_snapshot \<Rightarrow> nat list" where
  "snapshot_fields s =
     unat (cs_epoch s) # aid_fields (cs_allocation s) @ range_fields (cs_bytes s) @ access_fields (cs_access s)"

fun root_fields :: "scalar_origin_root \<Rightarrow> nat list" where
  "root_fields (STransported t) = 0 # transported_fields t"
| "root_fields (SSnapshot s) = 1 # snapshot_fields s"
| "root_fields (SCell a r access) = 2 # aid_fields a @ range_fields r @ access_fields access"
| "root_fields (SParameter f v) = [3, f, v]"

fun bool_origin_fields :: "bool_origin \<Rightarrow> nat list" where
  "bool_origin_fields (BTransported t) = 0 # transported_fields t"
| "bool_origin_fields (BSnapshot s) = 1 # snapshot_fields s"
| "bool_origin_fields (BParameter f v) = [2, f, v]"
| "bool_origin_fields (BCell a r access) = 3 # aid_fields a @ range_fields r @ access_fields access"

definition origin_cell_fields :: "scalar_origin_cell \<Rightarrow> nat list" where
  "origin_cell_fields c = root_fields (oc_root c) @ [unat (oc_initial_lower c), unat (oc_initial_upper c)]"

lemma unat_same [simp]: "unat (a :: u64) = unat b \<longleftrightarrow> a = b"
  by (simp add: word_unat_eq_iff)

lemma range_fields_eq [simp]: "range_fields r = range_fields s \<longleftrightarrow> r = s"
  by (auto simp: range_fields_def)

lemma access_fields_eq [simp]: "access_fields a = access_fields b \<longleftrightarrow> a = b"
  by (auto simp: access_fields_def)

lemma transported_fields_eq [simp]: "transported_fields a = transported_fields b \<longleftrightarrow> a = b"
  by (auto simp: transported_fields_def)

lemma fields_length [simp]:
  "length (range_fields r) = 2" "length (access_fields a) = 2" "length (transported_fields t) = 2"
  by (simp_all add: range_fields_def access_fields_def transported_fields_def)

lemma aid_fields_eq [simp]: "aid_fields a = aid_fields b \<longleftrightarrow> a = b"
  by (cases a; cases b) (auto simp:)

lemma snapshot_fields_eq [simp]: "snapshot_fields a = snapshot_fields b \<longleftrightarrow> a = b"
  by (cases a; cases b) (auto simp: snapshot_fields_def append_eq_append_conv)

lemma root_fields_eq [simp]: "root_fields a = root_fields b \<longleftrightarrow> a = b"
  by (cases a; cases b) (auto simp: append_eq_append_conv)

lemma bool_origin_fields_eq [simp]: "bool_origin_fields a = bool_origin_fields b \<longleftrightarrow> a = b"
  by (cases a; cases b) (auto simp: append_eq_append_conv)

lemma origin_cell_fields_eq [simp]: "origin_cell_fields a = origin_cell_fields b \<longleftrightarrow> a = b"
  by (cases a; cases b) (auto simp: origin_cell_fields_def append_eq_append_conv)

instantiation abstract_allocation_id :: linorder
begin

definition less_eq_abstract_allocation_id :: "abstract_allocation_id \<Rightarrow> abstract_allocation_id \<Rightarrow> bool" where
  "less_eq_abstract_allocation_id a b = (aid_fields a \<le> aid_fields b)"

definition less_abstract_allocation_id :: "abstract_allocation_id \<Rightarrow> abstract_allocation_id \<Rightarrow> bool" where
  "less_abstract_allocation_id a b = (aid_fields a < aid_fields b)"

instance
  by standard (auto simp: less_eq_abstract_allocation_id_def less_abstract_allocation_id_def
      dest: order_antisym intro: order_trans)

end

instantiation bool_origin :: linorder
begin

definition less_eq_bool_origin :: "bool_origin \<Rightarrow> bool_origin \<Rightarrow> bool" where
  "less_eq_bool_origin a b = (bool_origin_fields a \<le> bool_origin_fields b)"

definition less_bool_origin :: "bool_origin \<Rightarrow> bool_origin \<Rightarrow> bool" where
  "less_bool_origin a b = (bool_origin_fields a < bool_origin_fields b)"

instance
  by standard (auto simp: less_eq_bool_origin_def less_bool_origin_def dest: order_antisym intro: order_trans)

end

definition oc_key :: "'a scalar_origin_cell_scheme \<Rightarrow> nat list \<times> 'a" where
  "oc_key c = (origin_cell_fields (scalar_origin_cell.truncate c), scalar_origin_cell.more c)"

lemma oc_key_eq [simp]: "oc_key a = oc_key b \<longleftrightarrow> a = b"
  by (cases a; cases b) (auto simp: oc_key_def scalar_origin_cell.truncate_def)

instantiation scalar_origin_cell_ext :: (linorder) linorder
begin

definition less_eq_scalar_origin_cell_ext :: "'a scalar_origin_cell_scheme \<Rightarrow> 'a scalar_origin_cell_scheme \<Rightarrow> bool" where
  "less_eq_scalar_origin_cell_ext a b \<longleftrightarrow> oc_key a \<le> oc_key b"

definition less_scalar_origin_cell_ext :: "'a scalar_origin_cell_scheme \<Rightarrow> 'a scalar_origin_cell_scheme \<Rightarrow> bool" where
  "less_scalar_origin_cell_ext a b \<longleftrightarrow> oc_key a < oc_key b"

instance
  by standard (auto simp: less_eq_scalar_origin_cell_ext_def less_scalar_origin_cell_ext_def
      dest: order_antisym intro: order_trans)

end

section \<open>Arithmetic of origins\<close>

datatype scalar_origin_difference = DifferenceConstant u64 | DifferenceOrigin scalar_origin

type_synonym origin_terms = "(scalar_origin_cell, u64) btmap"

definition so_terms :: "scalar_origin \<Rightarrow> (scalar_origin_cell \<times> u64) list" where
  "so_terms s = (so_first s, so_scale s) # (case so_second s of None \<Rightarrow> [] | Some t \<Rightarrow> [t])"

definition collect_terms :: "(scalar_origin_cell \<times> u64) list \<Rightarrow> origin_terms" where
  "collect_terms ts = fold (\<lambda>(cell, scale). bt_insert cell scale) ts []"

fun subtract_terms :: "(scalar_origin_cell \<times> u64) list \<Rightarrow> origin_terms \<Rightarrow> origin_terms option" where
  "subtract_terms [] m = Some m"
| "subtract_terms ((cell, scale) # ts) m =
     Option.bind (bt_get m cell) (\<lambda>c. Option.bind (u64_checked_sub c scale) (\<lambda>c'.
       subtract_terms ts (bt_insert cell c' m)))"

definition so_difference :: "scalar_origin \<Rightarrow> scalar_origin \<Rightarrow> scalar_origin_difference option" where
  "so_difference a b =
     Option.bind (u64_checked_sub (so_addend a) (so_addend b)) (\<lambda>addend.
       map_option (\<lambda>m.
           case filter (\<lambda>(_, scale). scale \<noteq> 0) m of
             [] \<Rightarrow> DifferenceConstant addend
           | (cell, scale) # rest \<Rightarrow>
               DifferenceOrigin \<lparr>so_first = cell, so_scale = scale,
                 so_second = (case rest of [] \<Rightarrow> None | t # _ \<Rightarrow> Some t), so_addend = addend\<rparr>)
         (subtract_terms (so_terms b) (collect_terms (so_terms a))))"

fun interval_terms :: "(scalar_origin_cell \<times> u64) list \<Rightarrow> u64 \<Rightarrow> u64 \<Rightarrow> (u64 \<times> u64) option" where
  "interval_terms [] lower upper = Some (lower, upper)"
| "interval_terms ((cell, scale) # ts) lower upper =
     Option.bind (u64_checked_mul (oc_initial_lower cell) scale) (\<lambda>l. Option.bind (u64_checked_add lower l) (\<lambda>lower'.
       interval_terms ts lower' (u64_saturating_add upper (u64_saturating_mul (oc_initial_upper cell) scale))))"

definition so_initial_interval :: "scalar_origin \<Rightarrow> u64_interval option" where
  "so_initial_interval s =
     Option.bind (interval_terms (so_terms s) (so_addend s) (so_addend s)) (\<lambda>(lower, upper). result_ok (iv_new lower upper))"

definition so_add :: "u64 \<Rightarrow> scalar_origin \<Rightarrow> scalar_origin option" where
  "so_add n s = map_option (\<lambda>addend. s\<lparr>so_addend := addend\<rparr>) (u64_checked_add (so_addend s) n)"

definition scale_second :: "u64 \<Rightarrow> (scalar_origin_cell \<times> u64) option \<Rightarrow> (scalar_origin_cell \<times> u64) option option" where
  "scale_second factor second =
     (case second of
        None \<Rightarrow> Some None
      | Some (cell, scale) \<Rightarrow> map_option (\<lambda>n. Some (cell, n)) (u64_checked_mul scale factor))"

definition so_scale_by :: "u64 \<Rightarrow> scalar_origin \<Rightarrow> scalar_origin option" where
  "so_scale_by factor s =
     (if factor = 0 then None
      else Option.bind (u64_checked_mul (so_scale s) factor) (\<lambda>scale.
        Option.bind (scale_second factor (so_second s)) (\<lambda>second.
          map_option (\<lambda>addend. s\<lparr>so_scale := scale, so_second := second, so_addend := addend\<rparr>)
            (u64_checked_mul (so_addend s) factor))))"

fun sum_terms :: "(scalar_origin_cell \<times> u64) list \<Rightarrow> origin_terms \<Rightarrow> origin_terms option" where
  "sum_terms [] m = Some m"
| "sum_terms ((cell, scale) # ts) m =
     Option.bind (u64_checked_add (case bt_get m cell of Some c \<Rightarrow> c | None \<Rightarrow> 0) scale) (\<lambda>c.
       let m' = bt_insert cell c m in if length m' > 2 then None else sum_terms ts m')"

definition so_sum :: "scalar_origin \<Rightarrow> scalar_origin \<Rightarrow> scalar_origin option" where
  "so_sum a b =
     Option.bind (sum_terms (so_terms a @ so_terms b) []) (\<lambda>m.
       case m of
         [] \<Rightarrow> None
       | (cell, scale) # rest \<Rightarrow>
           map_option (\<lambda>addend. \<lparr>so_first = cell, so_scale = scale,
               so_second = (case rest of [] \<Rightarrow> None | t # _ \<Rightarrow> Some t), so_addend = addend\<rparr>)
             (u64_checked_add (so_addend a) (so_addend b)))"

section \<open>What an origin denotes\<close>

type_synonym history = "scalar_origin_cell \<Rightarrow> u64"

definition terms_val :: "history \<Rightarrow> (scalar_origin_cell \<times> u64) list \<Rightarrow> int" where
  "terms_val h ts = sum_list (map (\<lambda>(cell, scale). uint (h cell) * uint scale) ts)"

definition origin_val :: "history \<Rightarrow> scalar_origin \<Rightarrow> int" where
  "origin_val h s = terms_val h (so_terms s) + uint (so_addend s)"

definition so_wf :: "scalar_origin \<Rightarrow> bool" where
  "so_wf s = (case so_second s of None \<Rightarrow> True | Some (cell, _) \<Rightarrow> cell \<noteq> so_first s)"

lemma terms_val_simps [simp]:
  "terms_val h [] = 0" "terms_val h ((cell, scale) # ts) = uint (h cell) * uint scale + terms_val h ts"
  "terms_val h (ts @ us) = terms_val h ts + terms_val h us"
  by (simp_all add: terms_val_def)

lemma terms_val_insert:
  assumes "bt_sorted m"
  shows "terms_val h (bt_insert cell scale m) =
    terms_val h m + uint (h cell) * (uint scale - (case bt_get m cell of Some c \<Rightarrow> uint c | None \<Rightarrow> 0))"
  using assms
proof (induction cell scale m rule: bt_insert.induct)
  case (2 k v a w m)
  have "bt_get m k = None" if "k < a"
    using 2(2) that by (cases m) (auto simp: bt_sorted_Cons)
  then show ?case using 2 by (auto simp: bt_sorted_Cons algebra_simps split: option.splits)
qed simp

lemma subtract_terms_val:
  "subtract_terms ts m = Some m' \<Longrightarrow> bt_sorted m \<Longrightarrow>
    bt_sorted m' \<and> length m' = length m \<and> terms_val h m = terms_val h m' + terms_val h ts"
proof (induction ts m rule: subtract_terms.induct)
  case (2 cell scale ts m)
  obtain c c' where c: "bt_get m cell = Some c" "u64_checked_sub c scale = Some c'"
      "subtract_terms ts (bt_insert cell c' m) = Some m'"
    using 2(2) by (auto simp: Option.bind_eq_Some_conv)
  have "length (bt_insert cell c' m) = length m" by (rule bt_insert_length_old [OF 2(3)]) (simp add: c(1))
  moreover have "terms_val h (bt_insert cell c' m) = terms_val h m - uint (h cell) * uint scale"
    by (simp add: terms_val_insert [OF 2(3)] c(1) u64_checked_sub_Some [OF c(2)] algebra_simps)
  ultimately show ?case using 2(1) [OF c(1,2,3) bt_sorted_insert [OF 2(3)]] by simp
qed simp

lemma sum_terms_val:
  "sum_terms ts m = Some m' \<Longrightarrow> bt_sorted m \<Longrightarrow> length m \<le> 2 \<Longrightarrow>
    bt_sorted m' \<and> length m' \<le> 2 \<and> terms_val h m' = terms_val h m + terms_val h ts"
proof (induction ts m rule: sum_terms.induct)
  case (2 cell scale ts m)
  let ?old = "case bt_get m cell of Some c \<Rightarrow> c | None \<Rightarrow> 0"
  obtain c where c: "u64_checked_add ?old scale = Some c" "\<not> length (bt_insert cell c m) > 2"
      "sum_terms ts (bt_insert cell c m) = Some m'"
    using 2(2) by (auto simp: Option.bind_eq_Some_conv Let_def split: if_splits)
  have "terms_val h (bt_insert cell c m) = terms_val h m + uint (h cell) * uint scale"
    using u64_checked_add_Some [OF c(1)] by (auto simp: terms_val_insert [OF 2(3)] algebra_simps split: option.splits)
  then show ?case using 2(1) [OF c(1) refl c(2) c(3) bt_sorted_insert [OF 2(3)]] c(2) by simp
qed simp

lemma collect_terms_val:
  assumes "so_wf s"
  shows "bt_sorted (collect_terms (so_terms s)) \<and> length (collect_terms (so_terms s)) \<le> 2 \<and>
    terms_val h (collect_terms (so_terms s)) = terms_val h (so_terms s)"
  using assms by (auto simp: collect_terms_def so_terms_def so_wf_def bt_sorted_Cons split: option.splits)

lemma filter_terms_val: "terms_val h (filter (\<lambda>(_, scale). scale \<noteq> 0) ts) = terms_val h ts"
  by (induction ts) auto

lemma origin_of_terms:
  assumes "bt_sorted ((cell, scale) # rest)" and "length rest \<le> 1"
  shows "so_wf \<lparr>so_first = cell, so_scale = scale, so_second = (case rest of [] \<Rightarrow> None | t # _ \<Rightarrow> Some t), so_addend = n\<rparr>"
    and "origin_val h \<lparr>so_first = cell, so_scale = scale, so_second = (case rest of [] \<Rightarrow> None | t # _ \<Rightarrow> Some t), so_addend = n\<rparr> =
      terms_val h ((cell, scale) # rest) + uint n"
  using assms by (cases rest; force simp: so_wf_def origin_val_def so_terms_def bt_sorted_Cons)+

lemma so_difference_val:
  assumes "so_wf a" and "so_difference a b = Some d"
  shows "case d of
      DifferenceConstant n \<Rightarrow> origin_val h a - origin_val h b = uint n
    | DifferenceOrigin s \<Rightarrow> so_wf s \<and> origin_val h a - origin_val h b = origin_val h s"
proof -
  obtain n m where n: "u64_checked_sub (so_addend a) (so_addend b) = Some n"
      and m: "subtract_terms (so_terms b) (collect_terms (so_terms a)) = Some m"
      and d: "d = (case filter (\<lambda>(_, scale). scale \<noteq> 0) m of
             [] \<Rightarrow> DifferenceConstant n
           | (cell, scale) # rest \<Rightarrow>
               DifferenceOrigin \<lparr>so_first = cell, so_scale = scale,
                 so_second = (case rest of [] \<Rightarrow> None | t # _ \<Rightarrow> Some t), so_addend = n\<rparr>)"
    using assms(2) by (auto simp: so_difference_def Option.bind_eq_Some_conv)
  let ?kept = "filter (\<lambda>(_, scale). scale \<noteq> 0) m"
  note c = collect_terms_val [OF assms(1)]
  have v: "bt_sorted m" "length m \<le> 2" "terms_val h (so_terms a) = terms_val h m + terms_val h (so_terms b)"
    using subtract_terms_val [OF m, of h] c by auto
  have diff: "origin_val h a - origin_val h b = terms_val h ?kept + uint n"
    using u64_checked_sub_Some [OF n] v(3) by (simp add: origin_val_def filter_terms_val)
  have sorted: "bt_sorted ?kept" using v(1) by simp
  have len: "length ?kept \<le> 2" using v(2) by (rule length_filter_bound)
  show ?thesis
  proof (cases ?kept)
    case Nil
    then show ?thesis using diff by (simp add: d)
  next
    case (Cons t rest)
    obtain cell scale where t: "t = (cell, scale)" by force
    have "length rest \<le> 1" using len Cons by simp
    then show ?thesis
      using origin_of_terms [OF sorted [unfolded Cons t], where n = n] diff by (simp add: d Cons t)
  qed
qed

lemma so_sum_val:
  assumes "so_sum a b = Some s"
  shows "so_wf s \<and> origin_val h s = origin_val h a + origin_val h b"
proof -
  obtain m where m0: "sum_terms (so_terms a @ so_terms b) [] = Some m" "m \<noteq> []"
    using assms by (fastforce simp: so_sum_def Option.bind_eq_Some_conv)
  then obtain cell scale rest where cons: "m = (cell, scale) # rest" by (cases m) auto
  note m = m0(1) [unfolded cons]
  obtain n where n: "u64_checked_add (so_addend a) (so_addend b) = Some n"
      and s: "s = \<lparr>so_first = cell, so_scale = scale,
               so_second = (case rest of [] \<Rightarrow> None | t # _ \<Rightarrow> Some t), so_addend = n\<rparr>"
    using assms by (auto simp: so_sum_def m)
  have v: "bt_sorted ((cell, scale) # rest)" "length rest \<le> 1"
      "terms_val h ((cell, scale) # rest) = terms_val h (so_terms a @ so_terms b)"
    using sum_terms_val [OF m, of h] by auto
  show ?thesis
    using origin_of_terms [OF v(1,2), where n = n] v(3) u64_checked_add_Some [OF n] unfolding s
    by (simp add: origin_val_def)
qed

lemma so_scale_val:
  assumes "so_wf a" and "so_scale_by factor a = Some s"
  shows "so_wf s \<and> origin_val h s = uint factor * origin_val h a"
  using assms
  by (auto simp: so_scale_by_def scale_second_def so_wf_def origin_val_def so_terms_def Option.bind_eq_Some_conv
      algebra_simps dest!: u64_checked_mul_Some split: if_splits option.splits)

lemma so_add_val: "so_wf a \<Longrightarrow> so_add n a = Some s \<Longrightarrow> so_wf s \<and> origin_val h s = origin_val h a + uint n"
  by (auto simp: so_add_def so_wf_def origin_val_def so_terms_def dest: u64_checked_add_Some split: option.splits)

definition within_initial :: "history \<Rightarrow> scalar_origin \<Rightarrow> bool" where
  "within_initial h s =
     (\<forall>(cell, _) \<in> set (so_terms s). oc_initial_lower cell \<le> h cell \<and> h cell \<le> oc_initial_upper cell)"

lemma interval_terms_val:
  assumes "interval_terms ts l u = Some (l', u')" and "uint l \<le> x" and "x \<le> uint u \<or> u = u64_MAX"
    and "\<forall>(cell, _) \<in> set ts. oc_initial_lower cell \<le> h cell \<and> h cell \<le> oc_initial_upper cell"
  shows "uint l' \<le> x + terms_val h ts \<and> (x + terms_val h ts \<le> uint u' \<or> u' = u64_MAX)"
  using assms
proof (induction ts arbitrary: l u x)
  case (Cons t ts)
  obtain cell scale where t: "t = (cell, scale)" by force
  let ?u = "u64_saturating_add u (u64_saturating_mul (oc_initial_upper cell) scale)"
  obtain m k where m: "u64_checked_mul (oc_initial_lower cell) scale = Some m" "u64_checked_add l m = Some k"
      "interval_terms ts k ?u = Some (l', u')"
    using Cons.prems(1) by (auto simp: t Option.bind_eq_Some_conv)
  let ?x = "x + uint (h cell) * uint scale"
  have cell: "uint (oc_initial_lower cell) \<le> uint (h cell)" "uint (h cell) \<le> uint (oc_initial_upper cell)"
    using Cons.prems(4) by (simp_all add: t word_le_def)
  have low: "uint k \<le> ?x"
    using u64_checked_mul_Some [OF m(1)] u64_checked_add_Some [OF m(2)] Cons.prems(2) mult_right_mono [OF cell(1), of "uint scale"]
    by simp
  have sat: "x + y \<le> min (v + min p (2 ^ 64 - 1)) (2 ^ 64 - 1) \<or> min (v + min p (2 ^ 64 - 1)) (2 ^ 64 - 1) = 2 ^ 64 - 1"
    if "y \<le> p" "0 \<le> p" "0 \<le> v" "x \<le> v \<or> v = 2 ^ 64 - 1" for y p v :: int
    using that by (auto simp: min_def)
  have "?x \<le> uint ?u \<or> uint ?u = 2 ^ 64 - 1"
    unfolding uint_saturating_add uint_saturating_mul
    by (rule sat [OF mult_right_mono [OF cell(2)]]) (use Cons.prems(3) in auto)
  then have high: "?x \<le> uint ?u \<or> ?u = u64_MAX" by (metis uint_u64_MAX word_uint_eqI)
  show ?case using Cons.IH [OF m(3) low high] Cons.prems(4) by (simp add: t add.assoc)
qed simp

lemma so_initial_interval_val:
  assumes "so_initial_interval s = Some i" and "within_initial h s" and "origin_val h s < 2 ^ 64"
  shows "iv_wf i \<and> uint (iv_lower i) \<le> origin_val h s \<and> origin_val h s \<le> uint (iv_upper i)"
proof -
  obtain l u where t: "interval_terms (so_terms s) (so_addend s) (so_addend s) = Some (l, u)" "result_ok (iv_new l u) = Some i"
    using assms(1) by (auto simp: so_initial_interval_def Option.bind_eq_Some_conv)
  show ?thesis
    using interval_terms_val [OF t(1), of "uint (so_addend s)" h] assms(2,3) t(2)
    by (auto simp: origin_val_def within_initial_def iv_new_ok iv_wf_def)
qed

section \<open>Seeding\<close>

definition word_seed :: "scalar_origin_root \<Rightarrow> u64_interval \<Rightarrow> scalar_origin" where
  "word_seed root i =
     \<lparr>so_first = \<lparr>oc_root = root, oc_initial_lower = iv_lower i, oc_initial_upper = iv_upper i\<rparr>,
      so_scale = 1, so_second = None, so_addend = 0\<rparr>"

definition seed_cell_snapshot :: "scalar_cell_snapshot \<Rightarrow> abstract_allocation \<Rightarrow> bool \<times> abstract_allocation" where
  "seed_cell_snapshot snap a =
     (let r = cs_bytes snap; access = cs_access snap in
      if aa_liveness a \<noteq> Live \<or> is_classify (aa_initialization a) r \<noteq> Initialized \<or>
         \<not> bs_contains (aa_valid_value_bytes a) r
      then (False, a)
      else case aa_scalar_content a r access of
        Some (AVU64 i) \<Rightarrow>
          if br_end r - br_start r = 8
          then let a' = (if aa_scalar_origin a r access = None
                 then aa_set_scalar_origin r access (word_seed (SSnapshot snap) i) a else a)
               in (aa_scalar_origin a' r access \<noteq> None, a')
          else (False, a)
      | Some (AVBool _) \<Rightarrow>
          if br_end r - br_start r = 1
          then let a' = (if aa_bool_origin a r access = None
                 then aa_set_bool_origin r access (BSnapshot snap) a else a)
               in (aa_bool_origin a' r access \<noteq> None, a')
          else (False, a)
      | _ \<Rightarrow> (False, a))"

definition seed_cell ::
  "abstract_allocation_id \<Rightarrow> byte_range \<times> vir_memory_access \<times> abstract_value \<Rightarrow> abstract_allocation \<Rightarrow> abstract_allocation" where
  "seed_cell aid cell a =
     (case cell of (r, access, v) \<Rightarrow>
        case v of
          AVBool _ \<Rightarrow>
            if br_end r - br_start r = 1 \<and> aa_bool_origin a r access = None
            then aa_set_bool_origin r access (BCell aid r access) a else a
        | AVU64 i \<Rightarrow>
            if br_end r - br_start r = 8 \<and> aa_scalar_origin a r access = None
            then aa_set_scalar_origin r access (word_seed (SCell aid r access) i) a else a
        | _ \<Rightarrow> a)"

definition aa_seed_scalar_origins :: "abstract_allocation_id \<Rightarrow> abstract_allocation \<Rightarrow> abstract_allocation" where
  "aa_seed_scalar_origins aid a = fold (seed_cell aid) (aa_scalar_cells a) a"

section \<open>Transport across a boundary\<close>

record scalar_origin_transport =
  tr_epoch :: "u64 option"
  tr_words :: "(scalar_origin_cell, scalar_origin_cell) btmap"
  tr_booleans :: "(bool_origin, bool_origin) btmap"

definition tr_default :: scalar_origin_transport where
  "tr_default = \<lparr>tr_epoch = None, tr_words = [], tr_booleans = []\<rparr>"

text \<open>The methods take the counter of fresh epochs of the destination by reference beside the maps and stop the whole
  transfer when they fail, so both are returned on success only.\<close>

type_synonym 'a transport = "scalar_origin_transport \<times> u64 \<Rightarrow> ('a \<times> scalar_origin_transport \<times> u64) lb"

definition tr_fresh :: "transported_origin transport" where
  "tr_fresh = (\<lambda>(t, counter).
     lb_bind (case tr_epoch t of
                Some epoch \<Rightarrow> lb_return (epoch, t, counter)
              | None \<Rightarrow> (case u64_checked_add counter 1 of
                  None \<Rightarrow> lb_throw Budget
                | Some counter' \<Rightarrow> lb_return (counter, t\<lparr>tr_epoch := Some counter\<rparr>, counter')))
       (\<lambda>(epoch, t', counter').
         let index = length (tr_words t') + length (tr_booleans t') in
         if int index < 2 ^ 32 then lb_return (\<lparr>to_epoch = epoch, to_index = index\<rparr>, t', counter') else lb_throw Budget))"

definition tr_word :: "scalar_origin_cell \<Rightarrow> scalar_origin_cell transport" where
  "tr_word cell = (\<lambda>(t, counter).
     lb_then (charge 1)
       (case bt_get (tr_words t) cell of
          Some mapped \<Rightarrow> lb_return (mapped, t, counter)
        | None \<Rightarrow> lb_bind (tr_fresh (t, counter)) (\<lambda>(fresh, t', counter').
            let mapped = cell\<lparr>oc_root := STransported fresh\<rparr>
            in lb_return (mapped, t'\<lparr>tr_words := bt_insert cell mapped (tr_words t')\<rparr>, counter'))))"

definition tr_boolean :: "bool_origin \<Rightarrow> bool_origin transport" where
  "tr_boolean origin = (\<lambda>(t, counter).
     lb_then (charge 1)
       (case bt_get (tr_booleans t) origin of
          Some mapped \<Rightarrow> lb_return (mapped, t, counter)
        | None \<Rightarrow> lb_bind (tr_fresh (t, counter)) (\<lambda>(fresh, t', counter').
            let mapped = BTransported fresh
            in lb_return (mapped, t'\<lparr>tr_booleans := bt_insert origin mapped (tr_booleans t')\<rparr>, counter'))))"

definition tr_origin :: "scalar_origin \<Rightarrow> scalar_origin transport" where
  "tr_origin s = (\<lambda>st.
     lb_bind (tr_word (so_first s) st) (\<lambda>(first, st1).
       case so_second s of
         None \<Rightarrow> lb_return (s\<lparr>so_first := first\<rparr>, st1)
       | Some (cell, coefficient) \<Rightarrow>
           lb_bind (tr_word cell st1) (\<lambda>(second, st2).
             lb_return (s\<lparr>so_first := first, so_second := Some (second, coefficient)\<rparr>, st2))))"

definition drop_cell_origins :: "cell_key \<Rightarrow> abstract_allocation \<Rightarrow> abstract_allocation" where
  "drop_cell_origins key a =
     a\<lparr>aa_scalar_contents := (aa_scalar_contents a)
         \<lparr>sc_word_origins := filter (\<lambda>(k, _). k \<noteq> key) (sc_word_origins (aa_scalar_contents a)),
          sc_bool_origins := filter (\<lambda>(k, _). k \<noteq> key) (sc_bool_origins (aa_scalar_contents a))\<rparr>\<rparr>"

definition tr_cell ::
  "byte_range \<times> vir_memory_access \<times> abstract_value \<Rightarrow> abstract_allocation \<times> scalar_origin_transport \<times> u64 \<Rightarrow>
    (abstract_allocation \<times> scalar_origin_transport \<times> u64) lb" where
  "tr_cell cell = (\<lambda>(a, st). case cell of (r, access, v) \<Rightarrow>
     lb_then (charge 1)
       (if \<not> aa_readable a r then lb_return (drop_cell_origins (r, access) a, st)
        else case v of
          AVU64 _ \<Rightarrow>
            (case aa_scalar_origin a r access of
               None \<Rightarrow> lb_return (a, st)
             | Some s \<Rightarrow> lb_bind (tr_origin s st) (\<lambda>(s', st'). lb_return (aa_set_scalar_origin r access s' a, st')))
        | AVBool _ \<Rightarrow>
            (case aa_bool_origin a r access of
               None \<Rightarrow> lb_return (a, st)
             | Some s \<Rightarrow> lb_bind (tr_boolean s st) (\<lambda>(s', st'). lb_return (aa_set_bool_origin r access s' a, st')))
        | _ \<Rightarrow> lb_return (a, st)))"

definition tr_allocation :: "abstract_allocation \<Rightarrow> abstract_allocation transport" where
  "tr_allocation a = (\<lambda>st. lb_fold tr_cell (aa_scalar_cells a) (a, st))"

section \<open>Transport is a renaming\<close>

definition fresh_name :: "u64 \<Rightarrow> nat \<Rightarrow> transported_origin" where
  "fresh_name epoch i = \<lparr>to_epoch = epoch, to_index = i\<rparr>"

definition renames_words :: "u64 \<Rightarrow> nat \<Rightarrow> (scalar_origin_cell, scalar_origin_cell) btmap \<Rightarrow> bool" where
  "renames_words epoch n m = (\<forall>k v. (k, v) \<in> set m \<longrightarrow> (\<exists>i < n. v = k\<lparr>oc_root := STransported (fresh_name epoch i)\<rparr>))"

definition renames_booleans :: "u64 \<Rightarrow> nat \<Rightarrow> (bool_origin, bool_origin) btmap \<Rightarrow> bool" where
  "renames_booleans epoch n m = (\<forall>k v. (k, v) \<in> set m \<longrightarrow> (\<exists>i < n. v = BTransported (fresh_name epoch i)))"

definition distinct_names :: "scalar_origin_transport \<Rightarrow> bool" where
  "distinct_names t =
     ((\<forall>k v k' v'. (k, v) \<in> set (tr_words t) \<longrightarrow> (k', v') \<in> set (tr_words t) \<longrightarrow> oc_root v = oc_root v' \<longrightarrow> k = k') \<and>
      (\<forall>k v k'. (k, v) \<in> set (tr_booleans t) \<longrightarrow> (k', v) \<in> set (tr_booleans t) \<longrightarrow> k = k') \<and>
      (\<forall>k v k' n. (k, v) \<in> set (tr_words t) \<longrightarrow> (k', BTransported n) \<in> set (tr_booleans t) \<longrightarrow> oc_root v \<noteq> STransported n))"

definition tr_size :: "scalar_origin_transport \<Rightarrow> nat" where
  "tr_size t = length (tr_words t) + length (tr_booleans t)"

definition tr_inv :: "u64 \<Rightarrow> scalar_origin_transport \<times> u64 \<Rightarrow> bool" where
  "tr_inv c\<^sub>0 st =
     (case st of (t, c) \<Rightarrow>
        bt_sorted (tr_words t) \<and> bt_sorted (tr_booleans t) \<and> distinct_names t \<and>
        (case tr_epoch t of None \<Rightarrow> c = c\<^sub>0 \<and> tr_size t = 0 | Some e \<Rightarrow> e = c\<^sub>0 \<and> uint c = uint c\<^sub>0 + 1) \<and>
        renames_words c\<^sub>0 (tr_size t) (tr_words t) \<and> renames_booleans c\<^sub>0 (tr_size t) (tr_booleans t))"

definition extends :: "scalar_origin_transport \<Rightarrow> scalar_origin_transport \<Rightarrow> bool" where
  "extends t t' =
     ((\<forall>k v. bt_get (tr_words t) k = Some v \<longrightarrow> bt_get (tr_words t') k = Some v) \<and>
      (\<forall>k v. bt_get (tr_booleans t) k = Some v \<longrightarrow> bt_get (tr_booleans t') k = Some v))"

lemma extends_refl [simp]: "extends t t"
  by (simp add: extends_def)

lemma extends_trans: "extends t u \<Longrightarrow> extends u v \<Longrightarrow> extends t v"
  by (simp add: extends_def)

lemma tr_default_inv: "tr_inv c (tr_default, c)"
  by (simp add: tr_inv_def tr_default_def distinct_names_def tr_size_def renames_words_def renames_booleans_def)

lemma tr_fresh_ok:
  assumes "tr_inv c\<^sub>0 (t, c)" and "tr_fresh (t, c) b = (Inr (f, t', c'), b')"
  shows "f = fresh_name c\<^sub>0 (tr_size t) \<and> tr_inv c\<^sub>0 (t', c') \<and> tr_words t' = tr_words t \<and> tr_booleans t' = tr_booleans t \<and>
    tr_epoch t' = Some c\<^sub>0"
  using assms
  by (auto simp: tr_fresh_def lb_bind_Inr lb_simps tr_inv_def tr_size_def fresh_name_def distinct_names_def Let_def
      dest: u64_checked_add_Some split: option.splits if_splits)

lemma renames_mono:
  "renames_words e n m \<Longrightarrow> n \<le> n' \<Longrightarrow> renames_words e n' m"
  "renames_booleans e n bs \<Longrightarrow> n \<le> n' \<Longrightarrow> renames_booleans e n' bs"
  unfolding renames_words_def renames_booleans_def by (meson order_less_le_trans)+

lemma fresh_name_eq [simp]: "fresh_name e i = fresh_name e j \<longleftrightarrow> i = j"
  by (simp add: fresh_name_def)

lemma get_insert_extends:
  "bt_sorted m \<Longrightarrow> bt_get m k = None \<Longrightarrow> bt_get m j = Some v \<Longrightarrow> bt_get (bt_insert k w m) j = Some v"
  by (cases "j = k") (simp_all add: bt_get_insert_other)

lemma tr_word_ok:
  assumes "tr_inv c\<^sub>0 (t, c)" and "tr_word cell (t, c) b = (Inr (cell', t', c'), b')"
  shows "tr_inv c\<^sub>0 (t', c') \<and> extends t t' \<and> bt_get (tr_words t') cell = Some cell'"
proof (cases "bt_get (tr_words t) cell")
  case None
  then obtain f t1 b1 where f: "tr_fresh (t, c) b1 = (Inr (f, t1, c'), b')"
      and c': "cell' = cell\<lparr>oc_root := STransported f\<rparr>" "t' = t1\<lparr>tr_words := bt_insert cell cell' (tr_words t1)\<rparr>"
    using assms(2) by (auto simp: tr_word_def lb_then_def lb_bind_Inr lb_simps Let_def)
  note ok = tr_fresh_ok [OF assms(1) f]
  then have epoch: "tr_epoch t1 = Some c\<^sub>0" "uint c' = uint c\<^sub>0 + 1" by (auto simp: tr_inv_def)
  have sorted: "bt_sorted (tr_words t)" "bt_sorted (tr_booleans t)" using assms(1) by (simp_all add: tr_inv_def)
  have size: "tr_size t' = Suc (tr_size t)"
    using ok bt_insert_length_fresh [OF sorted(1) None] by (simp add: c'(2) tr_size_def)
  have names: "renames_words c\<^sub>0 (tr_size t) (tr_words t)" "renames_booleans c\<^sub>0 (tr_size t) (tr_booleans t)"
    using assms(1) by (simp_all add: tr_inv_def)
  have dn: "distinct_names t" using assms(1) by (simp add: tr_inv_def)
  have new: "cell' = cell\<lparr>oc_root := STransported (fresh_name c\<^sub>0 (tr_size t))\<rparr>" using ok by (simp add: c'(1))
  have elem: "(k, v) = (cell, cell') \<or> (k, v) \<in> set (tr_words t)" if "(k, v) \<in> set (tr_words t')" for k v
    using bt_insert_elem [of "(k, v)" cell cell' "tr_words t1"] that ok by (auto simp: c'(2))
  have bools: "tr_booleans t' = tr_booleans t" using ok by (simp add: c'(2))
  have other: "oc_root v \<noteq> oc_root cell'" if "(k, v) \<in> set (tr_words t)" for k v
    using names(1) that unfolding renames_words_def new by fastforce
  have "renames_words c\<^sub>0 (tr_size t') (tr_words t')"
    using elem names(1) new unfolding renames_words_def size by (metis less_Suc_eq prod.inject)
  moreover have "renames_booleans c\<^sub>0 (tr_size t') (tr_booleans t')"
    unfolding bools size by (rule renames_mono(2) [OF names(2)]) simp
  moreover have "oc_root cell' \<noteq> STransported n" if "(k, BTransported n) \<in> set (tr_booleans t)" for k n
    using names(2) that unfolding renames_booleans_def new by fastforce
  then have "distinct_names t'"
    using dn elem other unfolding distinct_names_def bools by (smt (verit, ccfv_threshold) prod.inject)
  ultimately have "tr_inv c\<^sub>0 (t', c')"
    using ok sorted epoch by (simp add: tr_inv_def bools) (simp add: c'(2))
  moreover have "extends t t'"
    using ok get_insert_extends [OF sorted(1) None] by (simp add: extends_def c'(2))
  ultimately show ?thesis by (simp add: c'(2))
next
  case (Some mapped)
  then show ?thesis using assms by (auto simp: tr_word_def lb_then_def lb_bind_Inr lb_simps)
qed

lemma tr_boolean_ok:
  assumes "tr_inv c\<^sub>0 (t, c)" and "tr_boolean origin (t, c) b = (Inr (origin', t', c'), b')"
  shows "tr_inv c\<^sub>0 (t', c') \<and> extends t t' \<and> bt_get (tr_booleans t') origin = Some origin'"
proof (cases "bt_get (tr_booleans t) origin")
  case None
  then obtain f t1 b1 where f: "tr_fresh (t, c) b1 = (Inr (f, t1, c'), b')"
      and c': "origin' = BTransported f" "t' = t1\<lparr>tr_booleans := bt_insert origin origin' (tr_booleans t1)\<rparr>"
    using assms(2) by (auto simp: tr_boolean_def lb_then_def lb_bind_Inr lb_simps Let_def)
  note ok = tr_fresh_ok [OF assms(1) f]
  then have epoch: "tr_epoch t1 = Some c\<^sub>0" "uint c' = uint c\<^sub>0 + 1" by (auto simp: tr_inv_def)
  have sorted: "bt_sorted (tr_words t)" "bt_sorted (tr_booleans t)" using assms(1) by (simp_all add: tr_inv_def)
  have size: "tr_size t' = Suc (tr_size t)"
    using ok bt_insert_length_fresh [OF sorted(2) None] by (simp add: c'(2) tr_size_def)
  have names: "renames_words c\<^sub>0 (tr_size t) (tr_words t)" "renames_booleans c\<^sub>0 (tr_size t) (tr_booleans t)"
    using assms(1) by (simp_all add: tr_inv_def)
  have dn: "distinct_names t" using assms(1) by (simp add: tr_inv_def)
  have new: "origin' = BTransported (fresh_name c\<^sub>0 (tr_size t))" using ok by (simp add: c'(1))
  have elem: "(k, v) = (origin, origin') \<or> (k, v) \<in> set (tr_booleans t)" if "(k, v) \<in> set (tr_booleans t')" for k v
    using bt_insert_elem [of "(k, v)" origin origin' "tr_booleans t1"] that ok by (auto simp: c'(2))
  have words: "tr_words t' = tr_words t" using ok by (simp add: c'(2))
  have other: "v \<noteq> origin'" if "(k, v) \<in> set (tr_booleans t)" for k v
    using names(2) that unfolding renames_booleans_def new by fastforce
  have "renames_booleans c\<^sub>0 (tr_size t') (tr_booleans t')"
    using elem names(2) new unfolding renames_booleans_def size by (metis less_Suc_eq prod.inject)
  moreover have "renames_words c\<^sub>0 (tr_size t') (tr_words t')"
    unfolding words size by (rule renames_mono(1) [OF names(1)]) simp
  moreover have "oc_root v \<noteq> STransported (fresh_name c\<^sub>0 (tr_size t))" if "(k, v) \<in> set (tr_words t)" for k v
    using names(1) that unfolding renames_words_def by fastforce
  then have "distinct_names t'"
    using dn elem other new unfolding distinct_names_def words by (smt (verit, ccfv_threshold) bool_origin.inject(1) prod.inject)
  ultimately have "tr_inv c\<^sub>0 (t', c')"
    using ok sorted epoch by (simp add: tr_inv_def words) (simp add: c'(2))
  moreover have "extends t t'"
    using ok get_insert_extends [OF sorted(2) None] by (simp add: extends_def c'(2))
  ultimately show ?thesis by (simp add: c'(2))
next
  case (Some mapped)
  then show ?thesis using assms by (auto simp: tr_boolean_def lb_then_def lb_bind_Inr lb_simps)
qed

definition renamed_origin :: "scalar_origin_transport \<Rightarrow> scalar_origin \<Rightarrow> scalar_origin option" where
  "renamed_origin t s =
     Option.bind (bt_get (tr_words t) (so_first s)) (\<lambda>first.
       case so_second s of
         None \<Rightarrow> Some (s\<lparr>so_first := first\<rparr>)
       | Some (cell, coefficient) \<Rightarrow>
           map_option (\<lambda>second. s\<lparr>so_first := first, so_second := Some (second, coefficient)\<rparr>) (bt_get (tr_words t) cell))"

lemma renamed_origin_extends: "extends t t' \<Longrightarrow> renamed_origin t s = Some s' \<Longrightarrow> renamed_origin t' s = Some s'"
  by (cases "so_second s") (auto simp: renamed_origin_def extends_def Option.bind_eq_Some_conv)

lemma tr_origin_ok:
  assumes "tr_inv c\<^sub>0 st" and "tr_origin s st b = (Inr (s', st'), b')"
  shows "tr_inv c\<^sub>0 st' \<and> extends (fst st) (fst st') \<and> renamed_origin (fst st') s = Some s'"
proof -
  obtain t c where st: "st = (t, c)" by force
  obtain first t1 c1 b1 where one: "tr_word (so_first s) (t, c) b = (Inr (first, t1, c1), b1)"
    using assms(2) by (auto simp: tr_origin_def lb_bind_Inr st split: option.splits)
  note w1 = tr_word_ok [OF assms(1) [unfolded st] one]
  show ?thesis
  proof (cases "so_second s")
    case None
    then show ?thesis using assms(2) w1 one by (auto simp: tr_origin_def lb_bind_def lb_simps st renamed_origin_def)
  next
    case (Some p)
    obtain cell k where p: "p = (cell, k)" by force
    obtain second t2 c2 where two: "tr_word cell (t1, c1) b1 = (Inr (second, t2, c2), b')"
        and out: "s' = s\<lparr>so_first := first, so_second := Some (second, k)\<rparr>" "st' = (t2, c2)"
      using assms(2) one by (auto simp: tr_origin_def lb_bind_def lb_simps st Some p split: sum.splits prod.splits)
    note w2 = tr_word_ok [OF conjunct1 [OF w1] two]
    show ?thesis using w1 w2 by (auto simp: out st renamed_origin_def Some p extends_def)
  qed
qed

text \<open>Only the origins of the cells of an allocation change.\<close>

definition same_facts :: "abstract_allocation \<Rightarrow> abstract_allocation \<Rightarrow> bool" where
  "same_facts a a' =
     (\<exists>words booleans. bt_sorted words \<and> bt_sorted booleans \<and>
        a' = a\<lparr>aa_scalar_contents := (aa_scalar_contents a)\<lparr>sc_word_origins := words, sc_bool_origins := booleans\<rparr>\<rparr>)"

lemma same_facts_content:
  "same_facts a a' \<Longrightarrow> aa_scalar_content a' r access = aa_scalar_content a r access \<and> aa_readable a' r = aa_readable a r"
  by (auto simp: same_facts_def aa_scalar_content_def aa_readable_def sc_get_def)

lemma same_facts_sorted:
  "same_facts a a' \<Longrightarrow> bt_sorted (sc_word_origins (aa_scalar_contents a')) \<and> bt_sorted (sc_bool_origins (aa_scalar_contents a'))"
  by (auto simp: same_facts_def)

lemma same_facts_refl: "sc_wf (aa_scalar_contents a) \<Longrightarrow> same_facts a a"
  unfolding same_facts_def sc_wf_def
  by (rule exI [of _ "sc_word_origins (aa_scalar_contents a)"], rule exI [of _ "sc_bool_origins (aa_scalar_contents a)"]) simp

lemma same_factsI:
  assumes "same_facts a b" and "bt_sorted words" and "bt_sorted booleans"
  shows "same_facts a (b\<lparr>aa_scalar_contents := (aa_scalar_contents b)\<lparr>sc_word_origins := words, sc_bool_origins := booleans\<rparr>\<rparr>)"
proof -
  obtain w bs where "b = a\<lparr>aa_scalar_contents := (aa_scalar_contents a)\<lparr>sc_word_origins := w, sc_bool_origins := bs\<rparr>\<rparr>"
    using assms(1) by (auto simp: same_facts_def)
  then have "b\<lparr>aa_scalar_contents := (aa_scalar_contents b)\<lparr>sc_word_origins := words, sc_bool_origins := booleans\<rparr>\<rparr> =
      a\<lparr>aa_scalar_contents := (aa_scalar_contents a)\<lparr>sc_word_origins := words, sc_bool_origins := booleans\<rparr>\<rparr>" by simp
  then show ?thesis using assms(2,3) unfolding same_facts_def by blast
qed

lemma set_origin_step:
  assumes "same_facts a b" and "aa_scalar_origin b r access \<noteq> None"
  shows "same_facts a (aa_set_scalar_origin r access s b)"
    and "aa_scalar_origin (aa_set_scalar_origin r access s b) r' access' =
      (if (r', access') = (r, access) then Some s else aa_scalar_origin b r' access')"
    and "aa_bool_origin (aa_set_scalar_origin r access s b) r' access' = aa_bool_origin b r' access'"
proof -
  let ?m = "sc_word_origins (aa_scalar_contents b)"
  have h: "is_word_fact (aa_scalar_content b r access)" "bt_get ?m (r, access) \<noteq> None"
    using assms(2) by (auto simp: aa_scalar_origin_def split: if_splits)
  have eq: "aa_set_scalar_origin r access s b =
      b\<lparr>aa_scalar_contents := (aa_scalar_contents b)\<lparr>sc_word_origins := bt_insert (r, access) s ?m\<rparr>\<rparr>"
    using h by (auto simp: aa_set_scalar_origin_def Let_def)
  have sorted: "bt_sorted ?m" "bt_sorted (sc_bool_origins (aa_scalar_contents b))" using same_facts_sorted [OF assms(1)] by simp_all
  show "same_facts a (aa_set_scalar_origin r access s b)"
    unfolding eq by (rule same_factsI [OF assms(1) bt_sorted_insert [OF sorted(1)] sorted(2), simplified])
  have content: "aa_scalar_content (aa_set_scalar_origin r access s b) x y = aa_scalar_content b x y" for x y
    by (simp add: eq aa_scalar_content_def aa_readable_def sc_get_def)
  show "aa_scalar_origin (aa_set_scalar_origin r access s b) r' access' =
      (if (r', access') = (r, access) then Some s else aa_scalar_origin b r' access')"
    using h(1) by (auto simp: aa_scalar_origin_def content) (auto simp: eq bt_get_insert_other [OF sorted(1)])
  show "aa_bool_origin (aa_set_scalar_origin r access s b) r' access' = aa_bool_origin b r' access'"
    by (simp add: aa_bool_origin_def content) (simp add: eq)
qed

lemma set_bool_origin_step:
  assumes "same_facts a b" and "aa_bool_origin b r access \<noteq> None" and "br_end r - br_start r = 1"
  shows "same_facts a (aa_set_bool_origin r access s b)"
    and "aa_bool_origin (aa_set_bool_origin r access s b) r' access' =
      (if (r', access') = (r, access) then Some s else aa_bool_origin b r' access')"
    and "aa_scalar_origin (aa_set_bool_origin r access s b) r' access' = aa_scalar_origin b r' access'"
proof -
  let ?m = "sc_bool_origins (aa_scalar_contents b)"
  have h: "is_bool_fact (aa_scalar_content b r access)" "bt_get ?m (r, access) \<noteq> None"
    using assms(2) by (auto simp: aa_bool_origin_def split: if_splits)
  have eq: "aa_set_bool_origin r access s b =
      b\<lparr>aa_scalar_contents := (aa_scalar_contents b)\<lparr>sc_bool_origins := bt_insert (r, access) s ?m\<rparr>\<rparr>"
    using h assms(3) by (auto simp: aa_set_bool_origin_def Let_def)
  have sorted: "bt_sorted (sc_word_origins (aa_scalar_contents b))" "bt_sorted ?m" using same_facts_sorted [OF assms(1)] by simp_all
  show "same_facts a (aa_set_bool_origin r access s b)"
    unfolding eq by (rule same_factsI [OF assms(1) sorted(1) bt_sorted_insert [OF sorted(2)], simplified])
  have content: "aa_scalar_content (aa_set_bool_origin r access s b) x y = aa_scalar_content b x y" for x y
    by (simp add: eq aa_scalar_content_def aa_readable_def sc_get_def)
  show "aa_bool_origin (aa_set_bool_origin r access s b) r' access' =
      (if (r', access') = (r, access) then Some s else aa_bool_origin b r' access')"
    using h(1) by (auto simp: aa_bool_origin_def content) (auto simp: eq bt_get_insert_other [OF sorted(2)])
  show "aa_scalar_origin (aa_set_bool_origin r access s b) r' access' = aa_scalar_origin b r' access'"
    by (simp add: aa_scalar_origin_def content) (simp add: eq)
qed

definition moved_cell ::
  "abstract_allocation \<Rightarrow> scalar_origin_transport \<Rightarrow> abstract_allocation \<Rightarrow> byte_range \<Rightarrow> vir_memory_access \<Rightarrow> bool" where
  "moved_cell a t b r access =
     (aa_scalar_origin b r access = Option.bind (aa_scalar_origin a r access) (renamed_origin t) \<and>
      (aa_scalar_origin b r access = None \<longleftrightarrow> aa_scalar_origin a r access = None) \<and>
      aa_bool_origin b r access = Option.bind (aa_bool_origin a r access) (bt_get (tr_booleans t)) \<and>
      (aa_bool_origin b r access = None \<longleftrightarrow> aa_bool_origin a r access = None))"

definition transported_cells ::
  "abstract_allocation \<Rightarrow> cell_key set \<Rightarrow> scalar_origin_transport \<Rightarrow> abstract_allocation \<Rightarrow> bool" where
  "transported_cells a done t b =
     (same_facts a b \<and>
      (\<forall>r access. (r, access) \<in> done \<longrightarrow> moved_cell a t b r access) \<and>
      (\<forall>r access. (r, access) \<notin> done \<longrightarrow>
         aa_scalar_origin b r access = aa_scalar_origin a r access \<and> aa_bool_origin b r access = aa_bool_origin a r access))"

lemma moved_cell_cong:
  "aa_scalar_origin b' r access = aa_scalar_origin b r access \<Longrightarrow> aa_bool_origin b' r access = aa_bool_origin b r access \<Longrightarrow>
    moved_cell a t b' r access = moved_cell a t b r access"
  by (simp add: moved_cell_def)

lemma moved_cell_extends:
  assumes "extends t t'" and "moved_cell a t b r access"
  shows "moved_cell a t' b r access"
proof -
  have words: "y = Option.bind x (renamed_origin t')" if "y = Option.bind x (renamed_origin t)" "y = None \<longleftrightarrow> x = None" for x y
    using that renamed_origin_extends [OF assms(1)] by (cases x) fastforce+
  have booleans: "y = Option.bind x (bt_get (tr_booleans t'))" if "y = Option.bind x (bt_get (tr_booleans t))" "y = None \<longleftrightarrow> x = None" for x y
    using that assms(1) by (cases x) (fastforce simp: extends_def)+
  note p = assms(2) [unfolded moved_cell_def]
  note w = words [OF conjunct1 [OF p] conjunct1 [OF conjunct2 [OF p]]]
  note b = booleans [OF conjunct1 [OF conjunct2 [OF conjunct2 [OF p]]] conjunct2 [OF conjunct2 [OF conjunct2 [OF p]]]]
  show ?thesis
    unfolding moved_cell_def
    by (rule conjI [OF w conjI [OF conjunct1 [OF conjunct2 [OF p]] conjI [OF b conjunct2 [OF conjunct2 [OF conjunct2 [OF p]]]]]])
qed

lemma transported_cells_extends: "transported_cells a done t b \<Longrightarrow> extends t t' \<Longrightarrow> transported_cells a done t' b"
  by (auto simp: transported_cells_def intro: moved_cell_extends)

lemma transported_cells_insert:
  assumes "transported_cells a done t b" and "same_facts a b'" and "moved_cell a t b' r access"
    and "\<And>r' access'. (r', access') \<noteq> (r, access) \<Longrightarrow>
      aa_scalar_origin b' r' access' = aa_scalar_origin b r' access' \<and> aa_bool_origin b' r' access' = aa_bool_origin b r' access'"
  shows "transported_cells a (insert (r, access) done) t b'"
  unfolding transported_cells_def
proof (intro conjI allI impI)
  fix r' access'
  assume d: "(r', access') \<in> insert (r, access) done"
  show "moved_cell a t b' r' access'"
  proof (cases "(r', access') = (r, access)")
    case False
    then have "(r', access') \<in> done" using d by blast
    then have "moved_cell a t b r' access'" using assms(1) unfolding transported_cells_def by blast
    then show ?thesis using moved_cell_cong assms(4) [OF False] by blast
  qed (use assms(3) in simp)
next
  fix r' access'
  assume d: "(r', access') \<notin> insert (r, access) done"
  then have "aa_scalar_origin b' r' access' = aa_scalar_origin b r' access' \<and> aa_bool_origin b' r' access' = aa_bool_origin b r' access'"
    by (intro assms(4)) auto
  then show "aa_scalar_origin b' r' access' = aa_scalar_origin a r' access'"
    and "aa_bool_origin b' r' access' = aa_bool_origin a r' access'"
    using d assms(1) by (auto simp: transported_cells_def)
qed (rule assms(2))

definition narrow_booleans :: "abstract_allocation \<Rightarrow> bool" where
  "narrow_booleans a = (\<forall>r access s. aa_bool_origin a r access = Some s \<longrightarrow> br_end r - br_start r = 1)"

lemma cell_origin_kind:
  "aa_scalar_content a r access = Some v \<Longrightarrow>
    (aa_scalar_origin a r access \<noteq> None \<longrightarrow> (\<exists>i. v = AVU64 i)) \<and> (aa_bool_origin a r access \<noteq> None \<longrightarrow> (\<exists>x. v = AVBool x))"
  by (cases v) (auto simp: aa_scalar_origin_def aa_bool_origin_def)

lemma tr_cell_ok:
  assumes "tr_inv c\<^sub>0 st" and "transported_cells a done (fst st) b" and "aa_scalar_content a r access = Some v"
    and "(r, access) \<notin> done" and "narrow_booleans a"
    and "tr_cell (r, access, v) (b, st) n = (Inr (b', st'), n')"
  shows "tr_inv c\<^sub>0 st' \<and> extends (fst st) (fst st') \<and> transported_cells a (insert (r, access) done) (fst st') b'"
proof -
  have same: "same_facts a b" using assms(2) by (simp add: transported_cells_def)
  have readable: "aa_readable b r"
    using same_facts_content [OF same] assms(3) by (auto simp: aa_scalar_content_def split: if_splits)
  have orig: "aa_scalar_origin b r access = aa_scalar_origin a r access" "aa_bool_origin b r access = aa_bool_origin a r access"
    using assms(2,4) by (auto simp: transported_cells_def)
  note kind = cell_origin_kind [OF assms(3)]
  consider "aa_scalar_origin a r access = None" "aa_bool_origin a r access = None" |
    s where "aa_scalar_origin a r access = Some s" | s where "aa_bool_origin a r access = Some s" by fastforce
  then show ?thesis
  proof cases
    case 1
    then have "b' = b" "st' = st"
      using assms(6) readable orig by (auto simp: tr_cell_def lb_then_def lb_bind_Inr lb_simps split: abstract_value.splits)
    moreover have "moved_cell a (fst st) b r access" using 1 orig by (simp add: moved_cell_def)
    ultimately show ?thesis using assms(1) transported_cells_insert [OF assms(2) same] by simp
  next
    case (2 s)
    then obtain i where v: "v = AVU64 i" "aa_bool_origin a r access = None" using kind by auto
    then obtain s' n1 where s': "tr_origin s st n1 = (Inr (s', st'), n')" "b' = aa_set_scalar_origin r access s' b"
      using assms(6) readable orig 2 by (auto simp: tr_cell_def lb_then_def lb_bind_Inr lb_simps)
    note ok = tr_origin_ok [OF assms(1) s'(1)]
    then have "transported_cells a done (fst st') b" using transported_cells_extends [OF assms(2)] by blast
    moreover have "aa_scalar_origin b r access \<noteq> None" using orig(1) 2 by simp
    note step = set_origin_step [OF same this, of s']
    moreover have "moved_cell a (fst st') b' r access" using ok v(2) 2 step orig by (simp add: moved_cell_def s'(2))
    ultimately have "transported_cells a (insert (r, access) done) (fst st') b'"
      by (intro transported_cells_insert) (auto simp: s'(2) step(2,3) intro: step(1))
    then show ?thesis using ok by blast
  next
    case (3 s)
    then obtain x where v: "v = AVBool x" "aa_scalar_origin a r access = None" using kind by auto
    then obtain s' n1 where s': "tr_boolean s st n1 = (Inr (s', st'), n')" "b' = aa_set_bool_origin r access s' b"
      using assms(6) readable orig 3 by (auto simp: tr_cell_def lb_then_def lb_bind_Inr lb_simps)
    obtain t c t' c' where st: "st = (t, c)" "st' = (t', c')" by force
    note ok = tr_boolean_ok [OF assms(1) [unfolded st] s'(1) [unfolded st]]
    then have "transported_cells a done (fst st') b" using transported_cells_extends [OF assms(2)] by (auto simp: st)
    moreover have "aa_bool_origin b r access \<noteq> None" using orig(2) 3 by simp
    moreover have "br_end r - br_start r = 1" using assms(5) 3 unfolding narrow_booleans_def by blast
    note step = set_bool_origin_step [OF same calculation(2) this, of s']
    moreover have "moved_cell a (fst st') b' r access" using ok v(2) 3 step orig by (simp add: moved_cell_def s'(2) st)
    ultimately have "transported_cells a (insert (r, access) done) (fst st') b'"
      by (intro transported_cells_insert) (auto simp: s'(2) step(2,3) intro: step(1))
    then show ?thesis using ok by (simp add: st)
  qed
qed

lemma tr_cells_ok:
  assumes "tr_inv c\<^sub>0 st" and "transported_cells a done (fst st) b" and "narrow_booleans a"
    and "\<forall>(r, access, v) \<in> set cells. aa_scalar_content a r access = Some v"
    and "distinct (map (\<lambda>(r, access, _). (r, access)) cells)" and "done \<inter> (\<lambda>(r, access, _). (r, access)) ` set cells = {}"
    and "lb_fold tr_cell cells (b, st) n = (Inr (b', st'), n')"
  shows "tr_inv c\<^sub>0 st' \<and> extends (fst st) (fst st') \<and>
    transported_cells a (done \<union> (\<lambda>(r, access, _). (r, access)) ` set cells) (fst st') b'"
  using assms
proof (induction cells arbitrary: "done" b st n)
  case Nil
  then show ?case by (simp add: lb_simps)
next
  case (Cons cell cells)
  obtain r access v where cell: "cell = (r, access, v)" by (metis surj_pair)
  obtain b1 st1 n1 where one: "tr_cell (r, access, v) (b, st) n = (Inr (b1, st1), n1)"
      and rest: "lb_fold tr_cell cells (b1, st1) n1 = (Inr (b', st'), n')"
    using Cons.prems(7) by (auto simp: lb_bind_Inr cell)
  have step: "tr_inv c\<^sub>0 st1 \<and> extends (fst st) (fst st1) \<and> transported_cells a (insert (r, access) done) (fst st1) b1"
    by (rule tr_cell_ok [OF Cons.prems(1,2) _ _ Cons.prems(3) one]) (use Cons.prems(4,6) in \<open>auto simp: cell\<close>)
  have "tr_inv c\<^sub>0 st' \<and> extends (fst st1) (fst st') \<and>
      transported_cells a (insert (r, access) done \<union> (\<lambda>(r, access, _). (r, access)) ` set cells) (fst st') b'"
    by (rule Cons.IH [OF _ _ Cons.prems(3) _ _ _ rest]) (use step Cons.prems(4-6) in \<open>auto simp: cell image_iff\<close>)
  then show ?case using step extends_trans by (auto simp: cell)
qed

lemma scalar_cells_keys:
  assumes "bt_sorted (sc_values (aa_scalar_contents a))"
  shows "distinct (map (\<lambda>(r, access, _). (r, access)) (aa_scalar_cells a))"
    and "(r, access) \<in> (\<lambda>(r, access, _). (r, access)) ` set (aa_scalar_cells a) \<longleftrightarrow> aa_scalar_content a r access \<noteq> None"
    and "(r, access, v) \<in> set (aa_scalar_cells a) \<Longrightarrow> aa_scalar_content a r access = Some v"
proof -
  let ?p = "\<lambda>((r, access), v). if aa_scalar_content a r access = Some v then Some (r, access, v) else None"
  have "map (\<lambda>(r, access, _). (r, access)) (List.map_filter ?p m) =
      map fst (filter (\<lambda>((r, access), v). aa_scalar_content a r access = Some v) m)" for m
    by (induction m) (auto simp: List.map_filter_simps)
  moreover have "distinct (map fst (filter (\<lambda>((r, access), v). aa_scalar_content a r access = Some v) (sc_values (aa_scalar_contents a))))"
    using assms distinct_map_filter unfolding bt_sorted_def strict_sorted_iff by blast
  ultimately show "distinct (map (\<lambda>(r, access, _). (r, access)) (aa_scalar_cells a))"
    by (simp add: aa_scalar_cells_def)
  have elem: "(r, access, v) \<in> set (aa_scalar_cells a) \<longleftrightarrow> aa_scalar_content a r access = Some v" for r access v
    using bt_get_in_set [of "sc_values (aa_scalar_contents a)" "(r, access)" v]
    by (force simp: aa_scalar_cells_def List.map_filter_def aa_scalar_content_def sc_get_def split: if_splits)
  then show "(r, access, v) \<in> set (aa_scalar_cells a) \<Longrightarrow> aa_scalar_content a r access = Some v" by blast
  show "(r, access) \<in> (\<lambda>(r, access, _). (r, access)) ` set (aa_scalar_cells a) \<longleftrightarrow> aa_scalar_content a r access \<noteq> None"
    using elem by (force simp: image_iff)
qed

lemma tr_allocation_ok:
  assumes "tr_inv c\<^sub>0 st" and "sc_wf (aa_scalar_contents a)" and "narrow_booleans a"
    and "tr_allocation a st n = (Inr (a', st'), n')"
  shows "tr_inv c\<^sub>0 st' \<and> extends (fst st) (fst st') \<and> transported_cells a UNIV (fst st') a'"
proof -
  let ?keys = "(\<lambda>(r, access, _). (r, access)) ` set (aa_scalar_cells a)"
  have sorted: "bt_sorted (sc_values (aa_scalar_contents a))" using assms(2) by (simp add: sc_wf_def)
  note keys = scalar_cells_keys [OF sorted]
  have start: "transported_cells a {} (fst st) a" using same_facts_refl [OF assms(2)] by (simp add: transported_cells_def)
  have ok: "tr_inv c\<^sub>0 st' \<and> extends (fst st) (fst st') \<and> transported_cells a ({} \<union> ?keys) (fst st') a'"
    by (rule tr_cells_ok [OF assms(1) start assms(3) _ keys(1) _ assms(4) [unfolded tr_allocation_def]]) (auto dest: keys(3))
  have none: "aa_scalar_origin a r access = None \<and> aa_bool_origin a r access = None" if "(r, access) \<notin> ?keys" for r access
    using that keys(2) by (auto simp: aa_scalar_origin_def aa_bool_origin_def)
  have "moved_cell a (fst st') a' r access" for r access
  proof (cases "(r, access) \<in> ?keys")
    case True
    then show ?thesis using ok unfolding transported_cells_def by blast
  next
    case False
    then have "aa_scalar_origin a' r access = aa_scalar_origin a r access \<and> aa_bool_origin a' r access = aa_bool_origin a r access"
      using ok unfolding transported_cells_def by blast
    then show ?thesis using none [OF False] by (simp add: moved_cell_def)
  qed
  then have "transported_cells a UNIV (fst st') a'" using ok by (simp add: transported_cells_def)
  then show ?thesis using ok by blast
qed

section \<open>Properties\<close>

text \<open>C18: The arithmetic of historical words is exact. When the code returns a difference, a sum, a scaled or a
  shifted origin, the result denotes exactly the difference, sum, product or shift of what its operands
  denote, for every assignment of words to the historical cells; results stay in the normal form of two
  distinct cells, a difference that cancels every cell is the constant it reports, and the interval computed
  from the initial ranges contains the denoted word whenever the cells lie in their ranges.\<close>

theorem origin_arithmetic_exact:
  assumes "so_wf a" and "so_wf b"
  shows "(\<forall>n. so_difference a b = Some (DifferenceConstant n) \<longrightarrow> (\<forall>h. origin_val h a - origin_val h b = uint n)) \<and>
    (\<forall>s. so_difference a b = Some (DifferenceOrigin s) \<longrightarrow> so_wf s \<and> (\<forall>h. origin_val h a - origin_val h b = origin_val h s)) \<and>
    (\<forall>s. so_sum a b = Some s \<longrightarrow> so_wf s \<and> (\<forall>h. origin_val h s = origin_val h a + origin_val h b)) \<and>
    (\<forall>k s. so_scale_by k a = Some s \<longrightarrow> so_wf s \<and> (\<forall>h. origin_val h s = uint k * origin_val h a)) \<and>
    (\<forall>n s. so_add n a = Some s \<longrightarrow> so_wf s \<and> (\<forall>h. origin_val h s = origin_val h a + uint n)) \<and>
    (\<forall>i h. so_initial_interval a = Some i \<longrightarrow> within_initial h a \<longrightarrow> origin_val h a < 2 ^ 64 \<longrightarrow>
       uint (iv_lower i) \<le> origin_val h a \<and> origin_val h a \<le> uint (iv_upper i))"
  using so_difference_val [OF assms(1), of b] so_sum_val so_scale_val [OF assms(1)] so_add_val [OF assms(1)] so_initial_interval_val
  by fastforce

definition parameter_cell :: "nat \<Rightarrow> scalar_origin_cell" where
  "parameter_cell v = \<lparr>oc_root = SParameter 0 v, oc_initial_lower = 0, oc_initial_upper = 9\<rparr>"

definition parameter_origin :: "nat \<Rightarrow> scalar_origin" where
  "parameter_origin v = \<lparr>so_first = parameter_cell v, so_scale = 1, so_second = None, so_addend = 2\<rparr>"

theorem origin_arithmetic_exact_witness:
  "let s = \<lparr>so_first = parameter_cell 1, so_scale = 1, so_second = Some (parameter_cell 2, 1), so_addend = 4\<rparr>
   in so_sum (parameter_origin 2) (parameter_origin 1) = Some s \<and>
      so_difference s (parameter_origin 1) = Some (DifferenceOrigin (parameter_origin 2)) \<and>
      (\<forall>h. origin_val h s - origin_val h (parameter_origin 1) = origin_val h (parameter_origin 2))"
proof -
  let ?s = "\<lparr>so_first = parameter_cell 1, so_scale = 1, so_second = Some (parameter_cell 2, 1), so_addend = 4\<rparr>"
  have wf: "so_wf ?s" "so_wf (parameter_origin 1)" by code_simp+
  have sum: "so_sum (parameter_origin 2) (parameter_origin 1) = Some ?s" by code_simp
  have diff: "so_difference ?s (parameter_origin 1) = Some (DifferenceOrigin (parameter_origin 2))" by code_simp
  have "\<forall>h. origin_val h ?s - origin_val h (parameter_origin 1) = origin_val h (parameter_origin 2)"
    using origin_arithmetic_exact [OF wf] diff by blast
  then show ?thesis unfolding Let_def using sum diff by blast
qed

inductive tr_step :: "scalar_origin_transport \<times> u64 \<Rightarrow> scalar_origin_transport \<times> u64 \<Rightarrow> bool" where
  word: "tr_word cell st n = (Inr (cell', st'), n') \<Longrightarrow> tr_step st st'"
| boolean: "tr_boolean origin st n = (Inr (origin', st'), n') \<Longrightarrow> tr_step st st'"
| origin: "tr_origin s st n = (Inr (s', st'), n') \<Longrightarrow> tr_step st st'"
| allocation: "sc_wf (aa_scalar_contents a) \<Longrightarrow> narrow_booleans a \<Longrightarrow> tr_allocation a st n = (Inr (a', st'), n') \<Longrightarrow> tr_step st st'"

lemma tr_steps_inv: "tr_step\<^sup>*\<^sup>* (tr_default, c) st \<Longrightarrow> tr_inv c st"
proof (induction rule: rtranclp_induct)
  case (step st st')
  obtain t k t' k' where st: "st = (t, k)" "st' = (t', k')" by force
  from step.hyps(2) show ?case
  proof cases
    case (word cell n cell' n')
    then show ?thesis using tr_word_ok [OF step.IH [unfolded st(1)]] by (simp add: st)
  next
    case (boolean origin n origin' n')
    then show ?thesis using tr_boolean_ok [OF step.IH [unfolded st(1)]] by (simp add: st)
  next
    case (origin s n s' n')
    then show ?thesis using tr_origin_ok [OF step.IH] by blast
  next
    case (allocation a n a' n')
    then show ?thesis using tr_allocation_ok [OF step.IH] by blast
  qed
qed (rule tr_default_inv)

lemma transported_history:
  assumes "tr_inv c (t, k)"
  shows "\<exists>h'. \<forall>s s'. renamed_origin t s = Some s' \<longrightarrow> origin_val h' s' = origin_val h s"
proof -
  let ?m = "tr_words t"
  have sorted: "bt_sorted ?m" and dn: "distinct_names t" using assms by (simp_all add: tr_inv_def)
  define h' where "h' v = h (THE k. (k, v) \<in> set ?m)" for v
  have h': "h' v = h k" if "bt_get ?m k = Some v" for k v
  proof -
    have "(k, v) \<in> set ?m" using that by (rule bt_get_in_set)
    then have "(THE k. (k, v) \<in> set ?m) = k" using dn unfolding distinct_names_def by (intro the_equality) blast+
    then show ?thesis by (simp add: h'_def)
  qed
  have "origin_val h' s' = origin_val h s" if "renamed_origin t s = Some s'" for s s'
    using that h' by (cases "so_second s") (auto simp: renamed_origin_def Option.bind_eq_Some_conv origin_val_def so_terms_def)
  then show ?thesis by blast
qed

text \<open>C19: Transport across a boundary renames histories and does nothing else. After any sequence of transports that
  starts from the empty map at epoch counter \<open>c\<close>, the new names are pairwise distinct, words and booleans included, all
  are numbered below the size of the map and belong to the epoch \<open>c\<close>, and the counter has moved on by exactly one as
  soon as the epoch was used, so that the next map starts an epoch of its own; names given before are kept.
  Transporting an allocation changes no field but the histories of its cells, each history becomes the one the
  map gives it, none is lost or made up, and whatever the old histories were worth there is a reading of the new
  names under which every transported origin is worth what it was.\<close>

theorem origin_transport_renames:
  assumes "tr_step\<^sup>*\<^sup>* (tr_default, c) st" and "sc_wf (aa_scalar_contents a)" and "narrow_booleans a"
    and "tr_allocation a st n = (Inr (a', t, c'), n')"
  shows "(\<forall>k v. (k, v) \<in> set (tr_words t) \<longrightarrow>
       (\<exists>i < length (tr_words t) + length (tr_booleans t). v = k\<lparr>oc_root := STransported \<lparr>to_epoch = c, to_index = i\<rparr>\<rparr>)) \<and>
    (\<forall>k v. (k, v) \<in> set (tr_booleans t) \<longrightarrow>
       (\<exists>i < length (tr_words t) + length (tr_booleans t). v = BTransported \<lparr>to_epoch = c, to_index = i\<rparr>)) \<and>
    distinct_names t \<and>
    (tr_epoch t = None \<and> tr_words t = [] \<and> tr_booleans t = [] \<and> c' = c \<or> tr_epoch t = Some c \<and> uint c' = uint c + 1) \<and>
    extends (fst st) t \<and>
    (\<exists>words booleans. a' = a\<lparr>aa_scalar_contents :=
       (aa_scalar_contents a)\<lparr>sc_word_origins := words, sc_bool_origins := booleans\<rparr>\<rparr>) \<and>
    (\<forall>r access. aa_scalar_content a' r access = aa_scalar_content a r access \<and>
       aa_scalar_origin a' r access = Option.bind (aa_scalar_origin a r access) (renamed_origin t) \<and>
       (aa_scalar_origin a' r access = None \<longleftrightarrow> aa_scalar_origin a r access = None) \<and>
       aa_bool_origin a' r access = Option.bind (aa_bool_origin a r access) (bt_get (tr_booleans t)) \<and>
       (aa_bool_origin a' r access = None \<longleftrightarrow> aa_bool_origin a r access = None)) \<and>
    (\<forall>h. \<exists>h'. \<forall>r access s s'. aa_scalar_origin a r access = Some s \<longrightarrow> aa_scalar_origin a' r access = Some s' \<longrightarrow>
       origin_val h' s' = origin_val h s)"
proof -
  have ok: "tr_inv c (t, c')" "extends (fst st) t" "transported_cells a UNIV t a'"
    using tr_allocation_ok [OF tr_steps_inv [OF assms(1)] assms(2-4)] by simp_all
  have same: "same_facts a a'" and moved: "moved_cell a t a' r access" for r access
    using ok(3) by (simp_all add: transported_cells_def)
  have reading: "\<exists>h'. \<forall>r access s s'. aa_scalar_origin a r access = Some s \<longrightarrow> aa_scalar_origin a' r access = Some s' \<longrightarrow>
      origin_val h' s' = origin_val h s" for h
  proof -
    obtain h' where h': "\<forall>s s'. renamed_origin t s = Some s' \<longrightarrow> origin_val h' s' = origin_val h s"
      using transported_history [OF ok(1)] by blast
    have "renamed_origin t s = Some s'" if "aa_scalar_origin a r access = Some s" "aa_scalar_origin a' r access = Some s'"
      for r access s s'
      using conjunct1 [OF moved [of r access, unfolded moved_cell_def], unfolded that] by simp
    then show ?thesis using h' by blast
  qed
  then have readings: "\<forall>h. \<exists>h'. \<forall>r access s s'. aa_scalar_origin a r access = Some s \<longrightarrow> aa_scalar_origin a' r access = Some s' \<longrightarrow>
      origin_val h' s' = origin_val h s" by blast
  note t = ok(1) [unfolded tr_inv_def renames_words_def renames_booleans_def fresh_name_def tr_size_def, simplified]
  have names: "\<forall>k v. (k, v) \<in> set (tr_words t) \<longrightarrow>
       (\<exists>i < length (tr_words t) + length (tr_booleans t). v = k\<lparr>oc_root := STransported \<lparr>to_epoch = c, to_index = i\<rparr>\<rparr>)"
      "\<forall>k v. (k, v) \<in> set (tr_booleans t) \<longrightarrow>
       (\<exists>i < length (tr_words t) + length (tr_booleans t). v = BTransported \<lparr>to_epoch = c, to_index = i\<rparr>)" "distinct_names t"
    using t by blast+
  have epoch: "tr_epoch t = None \<and> tr_words t = [] \<and> tr_booleans t = [] \<and> c' = c \<or> tr_epoch t = Some c \<and> uint c' = uint c + 1"
    using t by (cases "tr_epoch t") simp_all
  have facts: "\<exists>words booleans. a' = a\<lparr>aa_scalar_contents :=
       (aa_scalar_contents a)\<lparr>sc_word_origins := words, sc_bool_origins := booleans\<rparr>\<rparr>"
    using same unfolding same_facts_def by blast
  have cells: "\<forall>r access. aa_scalar_content a' r access = aa_scalar_content a r access \<and>
       aa_scalar_origin a' r access = Option.bind (aa_scalar_origin a r access) (renamed_origin t) \<and>
       (aa_scalar_origin a' r access = None \<longleftrightarrow> aa_scalar_origin a r access = None) \<and>
       aa_bool_origin a' r access = Option.bind (aa_bool_origin a r access) (bt_get (tr_booleans t)) \<and>
       (aa_bool_origin a' r access = None \<longleftrightarrow> aa_bool_origin a r access = None)"
    using same_facts_content [OF same] moved unfolding moved_cell_def by blast
  show ?thesis by (intro conjI names epoch ok(2) facts cells readings)
qed

definition transported_cell :: byte_range where
  "transported_cell = \<lparr>br_start = 0, br_end = 8\<rparr>"

definition transported_access :: vir_memory_access where
  "transported_access = \<lparr>ma_ty = 0, ma_layout = 0\<rparr>"

definition transported_allocation :: "scalar_origin \<Rightarrow> abstract_allocation" where
  "transported_allocation s =
     \<lparr>aa_scalar_contents =
        \<lparr>sc_values = [((transported_cell, transported_access), AVU64 \<lparr>iv_lower = 2, iv_upper = 11\<rparr>)], sc_prefixes = [],
         sc_word_origins = [((transported_cell, transported_access), s)], sc_bool_origins = []\<rparr>,
      aa_region = None, aa_size_bytes = 8, aa_alignment = ga_one, aa_liveness = Live, aa_ownership = Owned,
      aa_initialization = is_mark_initialized transported_cell (is_all_uninitialized 8),
      aa_valid_value_bytes = bs_insert transported_cell bs_new,
      aa_object_state = os_new, aa_prefixes = [], aa_initialization_revision = Some 0\<rparr>"

definition renamed_cell :: scalar_origin_cell where
  "renamed_cell = (parameter_cell 1)\<lparr>oc_root := STransported \<lparr>to_epoch = 7, to_index = 0\<rparr>\<rparr>"

theorem origin_transport_renames_witness:
  "tr_allocation (transported_allocation (parameter_origin 1)) (tr_default, 7) \<lparr>remaining = 9\<rparr> =
     (Inr (transported_allocation ((parameter_origin 1)\<lparr>so_first := renamed_cell\<rparr>),
        \<lparr>tr_epoch = Some 7, tr_words = [(parameter_cell 1, renamed_cell)], tr_booleans = []\<rparr>, 8), \<lparr>remaining = 7\<rparr>) \<and>
   (\<exists>h'. origin_val h' ((parameter_origin 1)\<lparr>so_first := renamed_cell\<rparr>) = origin_val (\<lambda>_. 5) (parameter_origin 1))"
proof -
  let ?a = "transported_allocation (parameter_origin 1)"
  let ?a' = "transported_allocation ((parameter_origin 1)\<lparr>so_first := renamed_cell\<rparr>)"
  let ?t = "\<lparr>tr_epoch = Some 7, tr_words = [(parameter_cell 1, renamed_cell)], tr_booleans = []\<rparr>"
  have run: "tr_allocation ?a (tr_default, 7) \<lparr>remaining = 9\<rparr> = (Inr (?a', ?t, 8), \<lparr>remaining = 7\<rparr>)" by code_simp
  have wf: "sc_wf (aa_scalar_contents ?a)"
    by (simp add: sc_wf_def transported_allocation_def iv_wf_def)
  have narrow: "narrow_booleans ?a"
    by (simp add: narrow_booleans_def aa_bool_origin_def transported_allocation_def)
  have origins: "aa_scalar_origin ?a transported_cell transported_access = Some (parameter_origin 1)"
      "aa_scalar_origin ?a' transported_cell transported_access = Some ((parameter_origin 1)\<lparr>so_first := renamed_cell\<rparr>)"
    by code_simp+
  have "\<exists>h'. \<forall>r access s s'. aa_scalar_origin ?a r access = Some s \<longrightarrow> aa_scalar_origin ?a' r access = Some s' \<longrightarrow>
      origin_val h' s' = origin_val (\<lambda>_. 5) s"
    using origin_transport_renames [OF rtranclp.rtrancl_refl wf narrow run] by blast
  then show ?thesis using run origins by blast
qed

end
