(* ===== verification/Path_Condition.thy ===== *)
theory Path_Condition
  imports Record_Order
begin

text \<open>
  The path facts and path conditions of \<open>src/src/verifier/resource/state.rs\<close>: conjunctions of branch
  facts over SSA values, with a canonical form for comparisons and an explicit unreachable condition. A
  run assigns a word and a boolean to every SSA value; conjoining is exact about the runs, joining and
  crossing a control-flow edge keep every run.
\<close>

section \<open>Facts\<close>

datatype vir_integer_predicate = PredEqual | PredNotEqual | PredLess | PredLessOrEqual | PredGreater | PredGreaterOrEqual

datatype path_fact =
    FactBoolean vir_value_id bool
  | FactComparison vir_integer_predicate vir_value_id vir_value_id

fun swap_comparison_operands :: "vir_integer_predicate \<Rightarrow> vir_integer_predicate" where
  "swap_comparison_operands PredEqual = PredEqual"
| "swap_comparison_operands PredNotEqual = PredNotEqual"
| "swap_comparison_operands PredLess = PredGreater"
| "swap_comparison_operands PredLessOrEqual = PredGreaterOrEqual"
| "swap_comparison_operands PredGreater = PredLess"
| "swap_comparison_operands PredGreaterOrEqual = PredLessOrEqual"

fun negate_comparison :: "vir_integer_predicate \<Rightarrow> vir_integer_predicate" where
  "negate_comparison PredEqual = PredNotEqual"
| "negate_comparison PredNotEqual = PredEqual"
| "negate_comparison PredLess = PredGreaterOrEqual"
| "negate_comparison PredLessOrEqual = PredGreater"
| "negate_comparison PredGreater = PredLessOrEqual"
| "negate_comparison PredGreaterOrEqual = PredLess"

definition fact_comparison :: "vir_integer_predicate \<Rightarrow> vir_value_id \<Rightarrow> vir_value_id \<Rightarrow> path_fact" where
  "fact_comparison p l r =
     (if l \<le> r then FactComparison p l r else FactComparison (swap_comparison_operands p) r l)"

fun fact_negated :: "path_fact \<Rightarrow> path_fact" where
  "fact_negated (FactBoolean v expected) = FactBoolean v (\<not> expected)"
| "fact_negated (FactComparison p l r) = FactComparison (negate_comparison p) l r"

fun constant_truth :: "path_fact \<Rightarrow> bool option" where
  "constant_truth (FactBoolean v expected) = None"
| "constant_truth (FactComparison p l r) =
     (if l = r then Some (p \<in> {PredEqual, PredLessOrEqual, PredGreaterOrEqual}) else None)"

text \<open>The derived order of the facts, variant by variant and field by field.\<close>

fun predicate_rank :: "vir_integer_predicate \<Rightarrow> nat" where
  "predicate_rank PredEqual = 0"
| "predicate_rank PredNotEqual = 1"
| "predicate_rank PredLess = 2"
| "predicate_rank PredLessOrEqual = 3"
| "predicate_rank PredGreater = 4"
| "predicate_rank PredGreaterOrEqual = 5"

fun fact_key :: "path_fact \<Rightarrow> nat \<times> nat \<times> nat \<times> nat" where
  "fact_key (FactBoolean v expected) = (0, v, of_bool expected, 0)"
| "fact_key (FactComparison p l r) = (1, predicate_rank p, l, r)"

lemma predicate_rank_eq: "predicate_rank p = predicate_rank q \<longleftrightarrow> p = q"
  by (cases p; cases q) simp_all

lemma fact_key_eq: "fact_key f = fact_key g \<longleftrightarrow> f = g"
  by (cases f; cases g) (auto simp: predicate_rank_eq)

instantiation path_fact :: linorder
begin

definition less_eq_path_fact :: "path_fact \<Rightarrow> path_fact \<Rightarrow> bool" where
  "less_eq_path_fact f g = (fact_key f \<le> fact_key g)"

definition less_path_fact :: "path_fact \<Rightarrow> path_fact \<Rightarrow> bool" where
  "less_path_fact f g = (fact_key f < fact_key g)"

instance
  by standard (auto simp: less_eq_path_fact_def less_path_fact_def less_le_not_le antisym fact_key_eq [symmetric] intro: order_trans)

end

section \<open>Conditions\<close>

datatype path_condition = Unreachable | Reachable "path_fact set"

definition pc_empty :: path_condition where
  "pc_empty = Reachable {}"

fun pc_is_reachable :: "path_condition \<Rightarrow> bool" where
  "pc_is_reachable (Reachable _) = True"
| "pc_is_reachable Unreachable = False"

fun pc_facts :: "path_condition \<Rightarrow> path_fact set option" where
  "pc_facts Unreachable = None"
| "pc_facts (Reachable facts) = Some facts"

definition pc_atom_count :: "path_condition \<Rightarrow> nat" where
  "pc_atom_count c = (case pc_facts c of None \<Rightarrow> 0 | Some facts \<Rightarrow> card facts)"

fun pc_implies :: "path_condition \<Rightarrow> path_fact \<Rightarrow> bool" where
  "pc_implies Unreachable f = True"
| "pc_implies (Reachable facts) f = (f \<in> facts)"

fun pc_conjoin :: "path_fact \<Rightarrow> path_condition \<Rightarrow> path_condition" where
  "pc_conjoin f Unreachable = Unreachable"
| "pc_conjoin f (Reachable facts) =
     (case constant_truth f of
        Some truth \<Rightarrow> if truth then Reachable facts else Unreachable
      | None \<Rightarrow> if fact_negated f \<in> facts then Unreachable else Reachable (insert f facts))"

fun fact_mentions :: "vir_value_id \<Rightarrow> path_fact \<Rightarrow> bool" where
  "fact_mentions v (FactBoolean w _) = (w = v)"
| "fact_mentions v (FactComparison _ l r) = (l = v \<or> r = v)"

fun pc_forget_value :: "vir_value_id \<Rightarrow> path_condition \<Rightarrow> path_condition" where
  "pc_forget_value v (Reachable facts) = Reachable (Set.filter (\<lambda>f. \<not> fact_mentions v f) facts)"
| "pc_forget_value v Unreachable = Unreachable"

fun pc_join :: "path_condition \<Rightarrow> path_condition \<Rightarrow> path_condition" where
  "pc_join Unreachable c = c"
| "pc_join c Unreachable = c"
| "pc_join (Reachable l) (Reachable r) = Reachable (l \<inter> r)"

definition first_targets :: "(vir_value_id \<times> vir_value_id) list \<Rightarrow> (vir_value_id, vir_value_id) btmap" where
  "first_targets renames =
     fold (\<lambda>(source, target) m.
         bt_insert source (case bt_get m source of Some old \<Rightarrow> min old target | None \<Rightarrow> target) m)
       renames []"

fun rename_fact :: "(vir_value_id, vir_value_id) btmap \<Rightarrow> path_fact \<Rightarrow> path_fact option" where
  "rename_fact m (FactBoolean v expected) = map_option (\<lambda>t. FactBoolean t expected) (bt_get m v)"
| "rename_fact m (FactComparison p l r) =
     Option.bind (bt_get m l) (\<lambda>l'. map_option (\<lambda>r'. fact_comparison p l' r') (bt_get m r))"

fun pc_project :: "(vir_value_id \<times> vir_value_id) list \<Rightarrow> path_condition \<Rightarrow> path_condition" where
  "pc_project renames Unreachable = Unreachable"
| "pc_project renames (Reachable facts) =
     fold pc_conjoin (List.map_filter (rename_fact (first_targets renames)) (sorted_list_of_set facts)) pc_empty"

section \<open>Meaning\<close>

record path_run =
  pr_words :: "vir_value_id \<Rightarrow> u64"
  pr_bools :: "vir_value_id \<Rightarrow> bool"

fun predicate_true :: "vir_integer_predicate \<Rightarrow> u64 \<Rightarrow> u64 \<Rightarrow> bool" where
  "predicate_true PredEqual x y = (x = y)"
| "predicate_true PredNotEqual x y = (x \<noteq> y)"
| "predicate_true PredLess x y = (x < y)"
| "predicate_true PredLessOrEqual x y = (x \<le> y)"
| "predicate_true PredGreater x y = (x > y)"
| "predicate_true PredGreaterOrEqual x y = (x \<ge> y)"

fun fact_true :: "path_run \<Rightarrow> path_fact \<Rightarrow> bool" where
  "fact_true c (FactBoolean v expected) = (pr_bools c v = expected)"
| "fact_true c (FactComparison p l r) = predicate_true p (pr_words c l) (pr_words c r)"

fun pc_holds :: "path_condition \<Rightarrow> path_run \<Rightarrow> bool" where
  "pc_holds Unreachable c = False"
| "pc_holds (Reachable facts) c = (\<forall>f \<in> facts. fact_true c f)"

definition run_edge :: "(vir_value_id \<times> vir_value_id) list \<Rightarrow> path_run \<Rightarrow> path_run \<Rightarrow> bool" where
  "run_edge renames c c' =
     (\<forall>s t. (s, t) \<in> set renames \<longrightarrow> pr_words c' t = pr_words c s \<and> pr_bools c' t = pr_bools c s)"

lemma swap_true: "predicate_true (swap_comparison_operands p) y x = predicate_true p x y"
  by (cases p) auto

lemma negate_true: "predicate_true (negate_comparison p) x y \<longleftrightarrow> \<not> predicate_true p x y"
  by (cases p) auto

lemma fact_comparison_true:
  "fact_true c (fact_comparison p l r) \<longleftrightarrow> predicate_true p (pr_words c l) (pr_words c r)"
  by (simp add: fact_comparison_def swap_true)

lemma fact_comparison_commute:
  "fact_comparison (swap_comparison_operands p) r l = fact_comparison p l r" if "l \<noteq> r"
  using that by (cases p) (auto simp: fact_comparison_def)

lemma fact_negated_true: "fact_true c (fact_negated f) \<longleftrightarrow> \<not> fact_true c f"
  by (cases f) (auto simp: negate_true)

lemma constant_truth_true: "constant_truth f = Some b \<Longrightarrow> fact_true c f = b"
  by (cases f; cases "case f of FactComparison p _ _ \<Rightarrow> p | _ \<Rightarrow> PredEqual") (auto split: if_splits)

lemma pc_conjoin_holds: "pc_holds (pc_conjoin f pc) c \<longleftrightarrow> pc_holds pc c \<and> fact_true c f"
  using fact_negated_true [of c f] by (cases pc) (auto dest: constant_truth_true [of f _ c] split: option.splits)

lemma pc_conjoin_all_holds:
  "pc_holds (fold pc_conjoin facts pc) c \<longleftrightarrow> pc_holds pc c \<and> (\<forall>f \<in> set facts. fact_true c f)"
  by (induction facts arbitrary: pc) (auto simp: pc_conjoin_holds)

lemma pc_join_holds: "pc_holds a c \<or> pc_holds b c \<Longrightarrow> pc_holds (pc_join a b) c"
  by (cases a; cases b) auto

lemma pc_implies_true: "pc_implies pc f \<Longrightarrow> pc_holds pc c \<Longrightarrow> fact_true c f"
  by (cases pc) auto

lemma fact_true_unmentioned:
  "\<not> fact_mentions v f \<Longrightarrow> fact_true (c\<lparr>pr_words := (pr_words c)(v := x), pr_bools := (pr_bools c)(v := y)\<rparr>) f = fact_true c f"
  by (cases f) auto

lemma pc_forget_value_holds:
  "pc_holds pc c \<Longrightarrow> pc_holds (pc_forget_value v pc) (c\<lparr>pr_words := (pr_words c)(v := x), pr_bools := (pr_bools c)(v := y)\<rparr>)"
  by (cases pc) (auto simp: fact_true_unmentioned)

lemma first_targets_snoc:
  "first_targets (renames @ [(a, b)]) =
     bt_insert a (case bt_get (first_targets renames) a of Some old \<Rightarrow> min old b | None \<Rightarrow> b) (first_targets renames)"
  by (simp add: first_targets_def)

lemma first_targets_sorted: "bt_sorted (first_targets renames)"
proof (induction renames rule: rev_induct)
  case (snoc r renames)
  then show ?case by (cases r) (simp add: first_targets_snoc bt_sorted_insert)
qed (simp add: first_targets_def)

lemma first_targets_get: "bt_get (first_targets renames) s = Some t \<Longrightarrow> (s, t) \<in> set renames"
proof (induction renames arbitrary: t rule: rev_induct)
  case (snoc r renames)
  obtain a b where r: "r = (a, b)" by force
  show ?case
  proof (cases "s = a")
    case True
    then have "t = b \<or> bt_get (first_targets renames) s = Some t"
      using snoc.prems by (auto simp: r first_targets_snoc min_def split: option.splits if_splits)
    then show ?thesis using snoc.IH True r by auto
  next
    case False
    then have "bt_get (first_targets renames) s = Some t"
      using snoc.prems by (simp add: r first_targets_snoc bt_get_insert_other first_targets_sorted)
    then show ?thesis using snoc.IH by simp
  qed
qed (simp add: first_targets_def)

lemma rename_fact_true:
  assumes "rename_fact (first_targets renames) f = Some g" and "run_edge renames c c'"
  shows "fact_true c' g = fact_true c f"
  using assms
  by (cases f) (auto simp: run_edge_def fact_comparison_true Option.bind_eq_Some_conv dest!: first_targets_get)

lemma pc_project_holds:
  assumes "run_edge renames c c'" and "finite (case pc of Reachable facts \<Rightarrow> facts | Unreachable \<Rightarrow> {})" and "pc_holds pc c"
  shows "pc_holds (pc_project renames pc) c'"
  using assms rename_fact_true [OF _ assms(1)]
  by (cases pc) (auto simp: pc_conjoin_all_holds pc_empty_def List.map_filter_def)

section \<open>Properties\<close>

text \<open>C34: Path conditions are exact about branch facts and lose no run. A condition built by conjoining
  facts holds in exactly the runs that satisfy all of them, so it is reported unreachable only when no run
  satisfies them; a join holds in every run of either side; and after a control-flow edge the projected
  condition, canonical comparisons of renamed operands included, holds in every run that took the edge.\<close>

theorem path_condition_exact:
  assumes "run_edge renames c c'"
  shows "(pc_holds (fold pc_conjoin facts pc_empty) c \<longleftrightarrow> (\<forall>f \<in> set facts. fact_true c f)) \<and>
    (\<forall>pc. pc_holds (fold pc_conjoin facts pc_empty) c \<or> pc_holds pc c \<longrightarrow> pc_holds (pc_join (fold pc_conjoin facts pc_empty) pc) c) \<and>
    (pc_holds (fold pc_conjoin facts pc_empty) c \<longrightarrow> pc_holds (pc_project renames (fold pc_conjoin facts pc_empty)) c')"
proof -
  let ?pc = "fold pc_conjoin facts pc_empty"
  have "finite (case fold pc_conjoin facts pc of Reachable facts \<Rightarrow> facts | Unreachable \<Rightarrow> {})"
    if "finite (case pc of Reachable facts \<Rightarrow> facts | Unreachable \<Rightarrow> {})" for pc
    using that
  proof (induction facts arbitrary: pc)
    case (Cons f facts)
    have "finite (case pc_conjoin f pc of Reachable facts \<Rightarrow> facts | Unreachable \<Rightarrow> {})"
      using Cons.prems by (cases pc) (auto split: option.split)
    then show ?case using Cons.IH by simp
  qed simp
  then have "finite (case ?pc of Reachable facts \<Rightarrow> facts | Unreachable \<Rightarrow> {})" by (simp add: pc_empty_def)
  then have "pc_holds ?pc c \<longrightarrow> pc_holds (pc_project renames ?pc) c'" using pc_project_holds [OF assms] by blast
  moreover have "pc_holds ?pc c \<longleftrightarrow> (\<forall>f \<in> set facts. fact_true c f)"
    by (simp add: pc_conjoin_all_holds pc_empty_def)
  ultimately show ?thesis by (blast intro: pc_join_holds)
qed

theorem path_condition_exact_witness:
  "let facts = [fact_comparison PredLess 2 1, FactBoolean 0 True];
       c = \<lparr>pr_words = (\<lambda>v. if v = 1 then 5 else 3), pr_bools = (\<lambda>_. True)\<rparr>;
       c' = \<lparr>pr_words = (\<lambda>v. if v = 7 then 5 else 3), pr_bools = (\<lambda>_. True)\<rparr>
   in pc_holds (fold pc_conjoin facts pc_empty) c \<and>
      pc_project [(2, 8), (1, 7)] (fold pc_conjoin facts pc_empty) = Reachable {FactComparison PredGreater 7 8} \<and>
      pc_holds (Reachable {FactComparison PredGreater 7 8}) c'"
proof -
  let ?facts = "[fact_comparison PredLess 2 1, FactBoolean 0 True]"
  let ?c = "\<lparr>pr_words = (\<lambda>v. if v = 1 then 5 else 3), pr_bools = (\<lambda>_. True)\<rparr>"
  let ?c' = "\<lparr>pr_words = (\<lambda>v. if v = 7 then 5 else 3), pr_bools = (\<lambda>_. True)\<rparr>"
  have edge: "run_edge [(2, 8), (1, 7)] ?c ?c'" by (simp add: run_edge_def)
  have "\<forall>f \<in> set ?facts. fact_true ?c f" by (simp add: fact_comparison_def)
  moreover have "pc_project [(2, 8), (1, 7)] (fold pc_conjoin ?facts pc_empty) = Reachable {FactComparison PredGreater 7 8}"
    by code_simp
  ultimately show ?thesis using path_condition_exact [OF edge, of ?facts] by (simp add: Let_def)
qed

end
