(* ===== verification/Relation_State.thy ===== *)
theory Relation_State
  imports Path_Condition Difference_Verdict Scalar_Contents
begin

text \<open>
  The numeric component of a resource case, \<open>src/src/verifier/relation/state.rs\<close>: difference bounds and
  disequalities between SSA words, closed by the difference solver when facts are learnt, renamed across
  control-flow edges, intersected at joins and widened at loop heads. A state holds of an assignment of
  machine words when all its facts do; every operation keeps the assignments, and running out of a budget
  only drops facts.
\<close>

section \<open>Operands\<close>

datatype relation_operand = OperandValue vir_value_id | OperandConstant u64

fun operand_value :: "relation_operand \<Rightarrow> vir_value_id option" where
  "operand_value (OperandValue v) = Some v"
| "operand_value (OperandConstant _) = None"

fun operand_from_term :: "'m relation_term \<Rightarrow> relation_operand option" where
  "operand_from_term (RValue v TyU64) = Some (OperandValue v)"
| "operand_from_term (RConstant n) = Some (OperandConstant n)"
| "operand_from_term _ = None"

fun operand_term :: "relation_operand \<Rightarrow> 'm relation_term" where
  "operand_term (OperandValue v) = relation_word v"
| "operand_term (OperandConstant n) = RConstant n"

fun operand_key :: "relation_operand \<Rightarrow> nat \<times> nat \<times> u64" where
  "operand_key (OperandValue v) = (0, v, 0)"
| "operand_key (OperandConstant n) = (1, 0, n)"

lemma operand_key_eq: "operand_key a = operand_key b \<longleftrightarrow> a = b"
  by (cases a; cases b) auto

instantiation relation_operand :: linorder
begin

definition less_eq_relation_operand :: "relation_operand \<Rightarrow> relation_operand \<Rightarrow> bool" where
  "less_eq_relation_operand a b = (operand_key a \<le> operand_key b)"

definition less_relation_operand :: "relation_operand \<Rightarrow> relation_operand \<Rightarrow> bool" where
  "less_relation_operand a b = (operand_key a < operand_key b)"

instance
  by standard (auto simp: less_eq_relation_operand_def less_relation_operand_def less_le_not_le antisym
      operand_key_eq [symmetric] intro: order_trans)

end

section \<open>State\<close>

datatype relation_precision_loss = LossBudget | LossProjection | LossWidening | LossInconsistent

type_synonym bound_pair = "vir_value_id option \<times> vir_value_id option"

record relation_state =
  rs_bounds :: "(bound_pair, i128) btmap"
  rs_disequalities :: "(relation_operand \<times> relation_operand) set"
  rs_losses :: "relation_precision_loss set"

definition MAX_FACTS :: nat where
  "MAX_FACTS = 64"

definition rs_new :: relation_state where
  "rs_new = \<lparr>rs_bounds = [], rs_disequalities = {}, rs_losses = {}\<rparr>"

definition rs_size :: "relation_state \<Rightarrow> nat" where
  "rs_size rs = length (rs_bounds rs) + card (rs_disequalities rs)"

definition rs_bound_list :: "relation_state \<Rightarrow> difference_bound list" where
  "rs_bound_list rs = map (\<lambda>((l, r), b). \<lparr>db_left = l, db_right = r, db_bound = b\<rparr>) (rs_bounds rs)"

definition rs_premises :: "relation_state \<Rightarrow> vir_memory_access difference_premise list" where
  "rs_premises rs =
     map bound_premise (rs_bound_list rs) @
     map (\<lambda>(a, b). PCompare NotEqual (operand_term a) (operand_term b)) (sorted_list_of_set (rs_disequalities rs))"

definition rs_forget_all :: "relation_precision_loss \<Rightarrow> relation_state \<Rightarrow> relation_state" where
  "rs_forget_all reason rs = rs\<lparr>rs_bounds := [], rs_disequalities := {}, rs_losses := insert reason (rs_losses rs)\<rparr>"

definition rs_forget_value :: "vir_value_id \<Rightarrow> relation_state \<Rightarrow> relation_state" where
  "rs_forget_value v rs =
     rs\<lparr>rs_bounds := filter (\<lambda>((a, b), _). a \<noteq> Some v \<and> b \<noteq> Some v) (rs_bounds rs),
        rs_disequalities := Set.filter (\<lambda>(a, b). operand_value a \<noteq> Some v \<and> operand_value b \<noteq> Some v) (rs_disequalities rs)\<rparr>"

definition pair_values :: "vir_value_id option \<Rightarrow> vir_value_id option \<Rightarrow> vir_value_id list" where
  "pair_values a b = flatten_options [a, b]"

definition rs_variables :: "relation_state \<Rightarrow> vir_value_id set" where
  "rs_variables rs =
     (\<Union>((a, b), _) \<in> set (rs_bounds rs). set (pair_values a b)) \<union>
     (\<Union>(a, b) \<in> rs_disequalities rs. set (pair_values (operand_value a) (operand_value b)))"

definition rs_limit :: "difference_limits \<Rightarrow> relation_state \<Rightarrow> relation_state" where
  "rs_limit limits rs =
     (if rs_size rs > min (max_constraints limits) MAX_FACTS \<or> card (rs_variables rs) > max_variables limits \<or>
         max_steps limits = 0 \<or> max_derivations limits = 0 \<or> max_branches limits = 0
      then rs_forget_all LossBudget rs else rs)"

section \<open>Learning\<close>

definition exact_term ::
  "(vir_value_id \<Rightarrow> abstract_value option) \<Rightarrow> vir_memory_access relation_term \<Rightarrow> vir_memory_access relation_term" where
  "exact_term read t =
     (case t of
        RValue v TyU64 \<Rightarrow>
          (case read v of
             Some (AVU64 i) \<Rightarrow> (case iv_exact_value i of Some n \<Rightarrow> RConstant n | None \<Rightarrow> t)
           | _ \<Rightarrow> t)
      | _ \<Rightarrow> t)"

fun normalize_premise ::
  "(vir_value_id \<Rightarrow> abstract_value option) \<Rightarrow> vir_memory_access difference_premise \<Rightarrow>
    vir_memory_access difference_premise list" where
  "normalize_premise read (PBound l r b) = [PBound (exact_term read l) (exact_term read r) b]"
| "normalize_premise read (PEqualOffset l r d) = [PEqualOffset (exact_term read l) (exact_term read r) d]"
| "normalize_premise read (PCompare c l r) = [PCompare c (exact_term read l) (exact_term read r)]"
| "normalize_premise read (PInterval v i) =
     (case exact_term read (relation_word v) of
        RConstant n \<Rightarrow> [PBound (RConstant (iv_lower i)) (RConstant n) 0, PBound (RConstant n) (RConstant (iv_upper i)) 0]
      | _ \<Rightarrow> [PInterval v i])"

fun term_values :: "'m relation_term \<Rightarrow> vir_value_id list" where
  "term_values (RValue v _) = [v]"
| "term_values _ = []"

fun premise_values :: "'m difference_premise \<Rightarrow> vir_value_id list" where
  "premise_values (PBound l r _) = term_values l @ term_values r"
| "premise_values (PEqualOffset l r _) = term_values l @ term_values r"
| "premise_values (PCompare _ l r) = term_values l @ term_values r"
| "premise_values (PInterval v _) = [v, v]"

definition interval_premise ::
  "(vir_value_id \<Rightarrow> abstract_value option) \<Rightarrow> vir_value_id \<Rightarrow> vir_memory_access difference_premise option" where
  "interval_premise read v = map_option (PInterval v) (word_reading (read v))"

definition trivial_goal :: "vir_memory_access difference_goal" where
  "trivial_goal = \<lparr>dg_comparison = Equal, dg_left = RConstant 0, dg_right = RConstant 0\<rparr>"

definition branch_bound_map :: "difference_branch \<Rightarrow> (bound_pair, i128) btmap" where
  "branch_bound_map br = fold (\<lambda>b. bt_insert (db_left b, db_right b) (db_bound b)) (dbr_bounds br) []"

definition merge_branch :: "difference_branch \<Rightarrow> (bound_pair, i128) btmap \<Rightarrow> (bound_pair, i128) btmap" where
  "merge_branch br bounds = common_entries (\<lambda>b b'. Some (max b b')) bounds (branch_bound_map br)"

fun kept_disequality :: "'m difference_premise \<Rightarrow> (relation_operand \<times> relation_operand) option" where
  "kept_disequality (PCompare NotEqual l r) =
     (case (operand_from_term l, operand_from_term r) of
        (Some a, Some b) \<Rightarrow>
          if operand_value a \<noteq> None \<or> operand_value b \<noteq> None then Some (min a b, max a b) else None
      | _ \<Rightarrow> None)"
| "kept_disequality _ = None"

definition learn_closed ::
  "vir_memory_access difference_premise list \<Rightarrow> difference_limits \<Rightarrow> relation_state \<Rightarrow> relation_state" where
  "learn_closed premises limits rs =
     (let query = solve_difference premises trivial_goal limits in
      if de_stop query \<noteq> Complete
      then rs_forget_all (if de_stop query = Inconsistent then LossInconsistent else LossBudget) rs
      else case filter (\<lambda>b. dbr_contradiction b = None) (de_branches query) of
        [] \<Rightarrow> rs_forget_all LossInconsistent rs
      | first # rest \<Rightarrow>
          rs_limit limits
            (rs\<lparr>rs_disequalities := set (List.map_filter kept_disequality premises),
               rs_bounds := fold merge_branch rest (branch_bound_map first)\<rparr>))"

definition rs_learn ::
  "vir_memory_access difference_premise list \<Rightarrow> (vir_value_id \<Rightarrow> abstract_value option) \<Rightarrow> difference_limits \<Rightarrow>
    relation_state \<Rightarrow> relation_state" where
  "rs_learn added read limits rs0 =
     (let rs = rs_limit limits rs0;
          premises = concat (map (normalize_premise read) (rs_premises rs @ added));
          variables = sorted_list_of_set (set (concat (map premise_values premises)))
      in if length variables > max_variables limits \<or> length premises + length variables > max_constraints limits
         then rs_forget_all LossBudget rs
         else case option_map_list (interval_premise read) variables of
           None \<Rightarrow> rs_forget_all LossProjection rs
         | Some intervals \<Rightarrow> learn_closed (premises @ intervals) limits rs)"

section \<open>Crossing an edge\<close>

definition edge_sources :: "(vir_value_id \<times> vir_value_id) list \<Rightarrow> (vir_value_id, vir_value_id) btmap" where
  "edge_sources renames = fold (\<lambda>(source, target). bt_insert target source) renames []"

definition edge_nodes :: "(vir_value_id, vir_value_id) btmap \<Rightarrow> (vir_value_id option \<times> vir_value_id option) list" where
  "edge_nodes sources = (None, None) # map (\<lambda>(target, source). (Some target, Some source)) sources"

definition project_bound ::
  "relation_state \<Rightarrow> (vir_value_id option \<times> vir_value_id option) \<times> (vir_value_id option \<times> vir_value_id option) \<Rightarrow>
    (bound_pair, i128) btmap \<Rightarrow> (bound_pair, i128) btmap" where
  "project_bound rs nodes bounds =
     (case nodes of ((target_a, source_a), (target_b, source_b)) \<Rightarrow>
        if target_a = target_b then bounds
        else case (if source_a = source_b then Some 0 else bt_get (rs_bounds rs) (source_a, source_b)) of
          Some b \<Rightarrow> bt_insert (target_a, target_b) b bounds
        | None \<Rightarrow> bounds)"

fun project_operand :: "(vir_value_id, vir_value_id) btmap \<Rightarrow> relation_operand \<Rightarrow> relation_operand list" where
  "project_operand sources (OperandConstant n) = [OperandConstant n]"
| "project_operand sources (OperandValue v) = map (\<lambda>(target, _). OperandValue target) (filter (\<lambda>(_, old). old = v) sources)"

text \<open>The flag tells that the budget stopped the loop.\<close>

fun project_pairs :: "(relation_operand \<times> relation_operand) list \<Rightarrow> relation_state \<Rightarrow> bool \<times> relation_state" where
  "project_pairs [] rs = (False, rs)"
| "project_pairs ((a, b) # pairs) rs =
     (let rs' = rs\<lparr>rs_disequalities := insert (min a b, max a b) (rs_disequalities rs)\<rparr>
      in if rs_size rs' > MAX_FACTS then (True, rs_forget_all LossBudget rs') else project_pairs pairs rs')"

definition projected_pairs ::
  "(vir_value_id, vir_value_id) btmap \<Rightarrow> relation_state \<Rightarrow> (relation_operand \<times> relation_operand) list" where
  "projected_pairs sources rs =
     concat (map (\<lambda>(a, b). List.product (project_operand sources a) (project_operand sources b))
       (sorted_list_of_set (rs_disequalities rs)))"

definition rs_project :: "(vir_value_id \<times> vir_value_id) list \<Rightarrow> relation_state \<Rightarrow> relation_state" where
  "rs_project renames rs =
     (let sources = edge_sources renames;
          start = rs_new\<lparr>rs_losses := rs_losses rs\<rparr>;
          nodes = edge_nodes sources
      in if length nodes > 25 then rs_forget_all LossBudget start
         else let bounded = start\<lparr>rs_bounds := fold (project_bound rs) (List.product nodes nodes) []\<rparr>
         in case project_pairs (projected_pairs sources rs) bounded of
              (True, stopped) \<Rightarrow> stopped
            | (False, paired) \<Rightarrow>
                let lost = (if \<exists>v \<in> rs_variables rs. v \<notin> snd ` set sources
                      then paired\<lparr>rs_losses := insert LossProjection (rs_losses paired)\<rparr> else paired)
                in if rs_size lost > MAX_FACTS then rs_forget_all LossBudget lost else lost)"

definition affine_lower_bounds :: "vir_value_id \<Rightarrow> affine_expression \<Rightarrow> difference_bound list" where
  "affine_lower_bounds v e =
     map (\<lambda>(root, _). \<lparr>db_left = Some root, db_right = Some v, db_bound = - uint (ae_addend e)\<rparr>)
       (filter (\<lambda>(root, scale). scale > 0 \<and> root \<noteq> v) (flatten_options (ae_terms e)))"

fun add_affine_bounds :: "difference_bound list \<Rightarrow> relation_state \<Rightarrow> relation_state option" where
  "add_affine_bounds [] rs = Some rs"
| "add_affine_bounds (b # bs) rs =
     (let key = (db_left b, db_right b);
          rs' = rs\<lparr>rs_bounds := bt_insert key
            (case bt_get (rs_bounds rs) key of Some old \<Rightarrow> min old (db_bound b) | None \<Rightarrow> db_bound b) (rs_bounds rs)\<rparr>
      in if rs_size rs' > MAX_FACTS then None else add_affine_bounds bs rs')"

definition retained_bounds :: "vir_value_id set \<Rightarrow> (vir_value_id \<times> affine_expression) list \<Rightarrow> difference_bound list" where
  "retained_bounds retained expressions =
     concat (map (\<lambda>(v, e).
         if v \<in> retained
         then filter (\<lambda>b. case db_left b of Some root \<Rightarrow> root \<in> retained | None \<Rightarrow> False) (affine_lower_bounds v e)
         else []) expressions)"

definition rs_project_affine ::
  "(vir_value_id \<times> vir_value_id) list \<Rightarrow> (vir_value_id \<times> affine_expression) list \<Rightarrow> relation_state \<Rightarrow> relation_state" where
  "rs_project_affine renames expressions rs =
     (case add_affine_bounds (retained_bounds (fst ` set renames) expressions) rs of
        Some source \<Rightarrow> rs_project renames source
      | None \<Rightarrow> let result = rs_project renames rs in result\<lparr>rs_losses := insert LossBudget (rs_losses result)\<rparr>)"

section \<open>Joins and branches\<close>

definition rs_join :: "relation_state \<Rightarrow> relation_state \<Rightarrow> relation_state" where
  "rs_join a b =
     (let joined = \<lparr>rs_bounds = common_entries (\<lambda>x y. Some (max x y)) (rs_bounds a) (rs_bounds b),
            rs_disequalities = rs_disequalities a \<inter> rs_disequalities b, rs_losses = rs_losses a \<union> rs_losses b\<rparr>
      in if rs_size joined > MAX_FACTS then rs_forget_all LossBudget joined else joined)"

definition stable_bound :: "relation_state \<Rightarrow> bound_pair \<times> i128 \<Rightarrow> bool" where
  "stable_bound rs e = (case bt_get (rs_bounds rs) (fst e) of Some old \<Rightarrow> snd e \<le> old | None \<Rightarrow> False)"

definition rs_widen :: "relation_state \<Rightarrow> relation_state \<Rightarrow> relation_state" where
  "rs_widen a b =
     (let joined = rs_join a b;
          kept = joined\<lparr>rs_bounds := filter (stable_bound a) (rs_bounds joined)\<rparr>
      in if rs_bounds kept \<noteq> rs_bounds a \<or> rs_disequalities kept \<noteq> rs_disequalities a
         then kept\<lparr>rs_losses := insert LossWidening (rs_losses kept)\<rparr> else kept)"

definition branch_term :: "(vir_value_id \<Rightarrow> abstract_value option) \<Rightarrow> vir_value_id \<Rightarrow> vir_memory_access relation_term option" where
  "branch_term read v =
     map_option (\<lambda>i. case iv_exact_value i of Some n \<Rightarrow> RConstant n | None \<Rightarrow> relation_word v) (word_reading (read v))"

fun premise_comparison ::
  "vir_integer_predicate \<Rightarrow> 'm relation_term \<Rightarrow> 'm relation_term \<Rightarrow> 'm difference_premise" where
  "premise_comparison PredLess l r = PCompare LessThan l r"
| "premise_comparison PredLessOrEqual l r = PCompare LessOrEqual l r"
| "premise_comparison PredEqual l r = PCompare Equal l r"
| "premise_comparison PredNotEqual l r = PCompare NotEqual l r"
| "premise_comparison PredGreater l r = PCompare LessThan r l"
| "premise_comparison PredGreaterOrEqual l r = PCompare LessOrEqual r l"

fun comparison_premise ::
  "(vir_value_id \<Rightarrow> abstract_value option) \<Rightarrow> path_fact \<Rightarrow> vir_memory_access difference_premise option" where
  "comparison_premise read (FactBoolean _ _) = None"
| "comparison_premise read (FactComparison p l r) =
     Option.bind (branch_term read l) (\<lambda>l'. map_option (premise_comparison p l') (branch_term read r))"

text \<open>The intervals that established bounds give to single words.\<close>

fun bound_refinement :: "difference_bound \<Rightarrow> (vir_value_id \<times> u64_interval) option" where
  "bound_refinement b =
     (case (db_left b, db_right b) of
        (Some v, None) \<Rightarrow> map_option (\<lambda>u. (v, \<lparr>iv_lower = 0, iv_upper = u\<rparr>)) (u64_try_from (db_bound b))
      | (None, Some v) \<Rightarrow>
          map_option (\<lambda>l. (v, \<lparr>iv_lower = l, iv_upper = u64_MAX\<rparr>)) (Option.bind (i128_checked_neg (db_bound b)) u64_try_from)
      | _ \<Rightarrow> None)"

end
