(* ===== verification/Resource_State.thy ===== *)
theory Resource_State
  imports Scalar_Origin Relation_State
begin

text \<open>
  \<open>ResourceState\<close> of \<open>src/src/verifier/resource/state.rs\<close> with the operations of \<open>instance.rs\<close>,
  \<open>cfg_projection.rs\<close>, \<open>loop_partition.rs\<close>, \<open>scalar_origin.rs\<close> and \<open>scalar_origin/refinement.rs\<close>: all facts the
  verifier keeps at one program point, and how they are defined, narrowed, projected across an edge, joined,
  widened and retired. The predicate layer (\<open>predicate.rs\<close>) takes part through the fields its instances share with
  the state; the definition and the logic of an instance are carried along as type parameters, and the
  merge of two predicate maps is an argument of the joins.
\<close>

section \<open>Predicate instances\<close>

record sealed_resource =
  sr_allocation :: abstract_allocation_id
  sr_carrier :: "vir_value_id option"
  sr_storage :: "(abstract_allocation_id \<times> resource_payload_key) option"
  sr_pointer :: abstract_pointer
  sr_permission :: abstract_permission

record ('d, 'l, 's) predicate_instance =
  pi_definition :: 'd
  pi_resources :: "sealed_resource list"
  pi_folded :: bool
  pi_dropping :: bool
  pi_borrowed_by :: "(usize, u32) btmap"
  pi_logic :: 'l
  pi_local_aliases :: "(vir_value_id, 's) btmap"
  pi_opening_action :: "u32 option"

type_synonym ('d, 'l, 's) predicate_map = "(u32, ('d, 'l, 's) predicate_instance) btmap"

definition MAX_PREDICATE_LOCAL_ALIASES :: nat where
  "MAX_PREDICATE_LOCAL_ALIASES = 256"

section \<open>State\<close>

datatype loan_precision_loss =
    ActiveLoanBudget | LoanAliasBudget | RegionConstraintBudget | ReborrowDepthBudget | LoanJoinLoss | LoanLoopWidening

datatype resource_state_definition_error =
    InstanceBudget
  | InstanceStillReferenced abstract_allocation_id
  | DuplicateAllocation abstract_allocation_id
  | DuplicateValue vir_value_id
  | DuplicateLoan u32

record ('d, 'l, 's) resource_state =
  st_next_scope :: u64
  st_predicates :: "('d, 'l, 's) predicate_map"
  st_relations :: relation_state
  st_path :: path_condition
  st_allocations :: "(abstract_allocation_id, abstract_allocation) btmap"
  st_values :: "(vir_value_id, abstract_value) btmap"
  st_word_expressions :: "(vir_value_id, affine_expression) btmap"
  st_bool_origins :: "(vir_value_id, bool_origin) btmap"
  st_word_origins :: "(vir_value_id, scalar_origin) btmap"
  st_loans :: "(u32, abstract_loan) btmap"
  st_losses :: "loan_precision_loss set"

definition MAX_ALLOCATION_SLOTS :: nat where
  "MAX_ALLOCATION_SLOTS = 4096"

definition st_new :: "('d, 'l, 's) resource_state" where
  "st_new =
     \<lparr>st_next_scope = 0, st_predicates = [], st_relations = rs_new, st_path = pc_empty, st_allocations = [], st_values = [],
      st_word_expressions = [], st_bool_origins = [], st_word_origins = [], st_loans = [], st_losses = {}\<rparr>"

definition st_unreachable :: "('d, 'l, 's) resource_state" where
  "st_unreachable = st_new\<lparr>st_path := Unreachable\<rparr>"

definition st_value :: "('d, 'l, 's) resource_state \<Rightarrow> vir_value_id \<Rightarrow> abstract_value option" where
  "st_value st v = bt_get (st_values st) v"

definition st_word :: "('d, 'l, 's) resource_state \<Rightarrow> vir_value_id \<Rightarrow> affine_expression option" where
  "st_word st v = bt_get (st_word_expressions st) v"

definition map_entries :: "('v \<Rightarrow> 'w) \<Rightarrow> ('k, 'v) btmap \<Rightarrow> ('k, 'w) btmap" where
  "map_entries f m = map (\<lambda>(k, v). (k, f v)) m"

section \<open>Predicate obligations\<close>

definition predicate_references_loan :: "u32 \<Rightarrow> ('d, 'l, 's) resource_state \<Rightarrow> bool" where
  "predicate_references_loan loan st =
     list_ex (\<lambda>(_, p).
         list_ex (\<lambda>(_, l). l = loan) (pi_borrowed_by p) \<or>
         list_ex (\<lambda>r. perm_authority (sr_permission r) = AuthLoan loan) (pi_resources p))
       (st_predicates st)"

definition predicate_references_allocation :: "abstract_allocation_id \<Rightarrow> ('d, 'l, 's) resource_state \<Rightarrow> bool" where
  "predicate_references_allocation aid st =
     list_ex (\<lambda>(_, p).
         list_ex (\<lambda>r. sr_allocation r = aid \<or> (case sr_storage r of None \<Rightarrow> False | Some (storage, _) \<Rightarrow> storage = aid))
           (pi_resources p))
       (st_predicates st)"

definition forget_predicate_local_alias :: "vir_value_id \<Rightarrow> ('d, 'l, 's) resource_state \<Rightarrow> ('d, 'l, 's) resource_state" where
  "forget_predicate_local_alias v st =
     st\<lparr>st_predicates :=
       map_entries (\<lambda>p. p\<lparr>pi_local_aliases := filter (\<lambda>(k, _). k \<noteq> v) (pi_local_aliases p)\<rparr>) (st_predicates st)\<rparr>"

text \<open>One optional fact per target; a second source that disagrees erases it.\<close>

definition merge_target ::
  "(vir_value_id \<Rightarrow> 'o option) \<Rightarrow> vir_value_id \<times> vir_value_id \<Rightarrow> (vir_value_id, 'o option) btmap \<Rightarrow>
    (vir_value_id, 'o option) btmap" where
  "merge_target read rename m =
     (case rename of (source, target) \<Rightarrow>
        case bt_get m target of
          None \<Rightarrow> bt_insert target (read source) m
        | Some old \<Rightarrow> if old \<noteq> read source then bt_insert target None m else m)"

definition present_entries :: "('k, 'v option) btmap \<Rightarrow> ('k, 'v) btmap" where
  "present_entries m = List.map_filter (\<lambda>(k, v). map_option (\<lambda>x. (k, x)) v) m"

fun project_aliases ::
  "(vir_value_id \<Rightarrow> 's option) \<Rightarrow> (vir_value_id \<times> vir_value_id) list \<Rightarrow> (vir_value_id, 's option) btmap \<Rightarrow>
    (vir_value_id, 's option) btmap" where
  "project_aliases read [] m = m"
| "project_aliases read (r # rs) m =
     (let m' = merge_target read r m in if length m' > MAX_PREDICATE_LOCAL_ALIASES then [] else project_aliases read rs m')"

definition project_sealed :: "expression_remapper \<Rightarrow> sealed_resource \<Rightarrow> sealed_resource" where
  "project_sealed er r =
     r\<lparr>sr_pointer := er_pointer er (sr_pointer r), sr_carrier := Option.bind (sr_carrier r) (bt_get (er_roots er))\<rparr>"

definition project_predicates ::
  "expression_remapper \<Rightarrow> (vir_value_id \<times> vir_value_id) list \<Rightarrow> ('d, 'l, 's) predicate_map \<Rightarrow> ('d, 'l, 's) predicate_map" where
  "project_predicates er renames m =
     map_entries (\<lambda>p. p\<lparr>pi_local_aliases := present_entries (project_aliases (bt_get (pi_local_aliases p)) renames []),
                        pi_resources := map (project_sealed er) (pi_resources p)\<rparr>) m"

section \<open>Definitions and updates\<close>

definition conjoin_path_fact :: "path_fact \<Rightarrow> ('d, 'l, 's) resource_state \<Rightarrow> ('d, 'l, 's) resource_state" where
  "conjoin_path_fact f st = st\<lparr>st_path := pc_conjoin f (st_path st)\<rparr>"

definition forget_path_condition :: "('d, 'l, 's) resource_state \<Rightarrow> ('d, 'l, 's) resource_state" where
  "forget_path_condition st = (if pc_is_reachable (st_path st) then st\<lparr>st_path := pc_empty\<rparr> else st)"

definition define_allocation ::
  "abstract_allocation_id \<Rightarrow> abstract_allocation \<Rightarrow> ('d, 'l, 's) resource_state \<Rightarrow>
    resource_state_definition_error + ('d, 'l, 's) resource_state" where
  "define_allocation aid a st =
     (if bt_get (st_allocations st) aid = None \<and> length (st_allocations st) \<ge> MAX_ALLOCATION_SLOTS
      then Inl InstanceBudget
      else case bt_get (st_allocations st) aid of
        None \<Rightarrow> Inr (st\<lparr>st_allocations := bt_insert aid a (st_allocations st)\<rparr>)
      | Some _ \<Rightarrow> Inl (DuplicateAllocation aid))"

definition replace_allocation ::
  "abstract_allocation_id \<Rightarrow> abstract_allocation \<Rightarrow> ('d, 'l, 's) resource_state \<Rightarrow> ('d, 'l, 's) resource_state" where
  "replace_allocation aid a st = st\<lparr>st_allocations := bt_insert aid a (st_allocations st)\<rparr>"

definition define_value ::
  "vir_value_id \<Rightarrow> abstract_value \<Rightarrow> ('d, 'l, 's) resource_state \<Rightarrow>
    resource_state_definition_error + ('d, 'l, 's) resource_state" where
  "define_value v a st =
     (case bt_get (st_values st) v of
        None \<Rightarrow> Inr (st\<lparr>st_values := bt_insert v a (st_values st)\<rparr>)
      | Some _ \<Rightarrow> Inl (DuplicateValue v))"

definition set_word_expression :: "vir_value_id \<Rightarrow> affine_expression \<Rightarrow> ('d, 'l, 's) resource_state \<Rightarrow> ('d, 'l, 's) resource_state" where
  "set_word_expression v e st = st\<lparr>st_word_expressions := bt_insert v e (st_word_expressions st)\<rparr>"

definition clear_word_expression :: "vir_value_id \<Rightarrow> ('d, 'l, 's) resource_state \<Rightarrow> ('d, 'l, 's) resource_state" where
  "clear_word_expression v st = st\<lparr>st_word_expressions := filter (\<lambda>(k, _). k \<noteq> v) (st_word_expressions st)\<rparr>"

definition expression_mentions :: "vir_value_id \<Rightarrow> affine_expression \<Rightarrow> bool" where
  "expression_mentions v e = list_ex (\<lambda>(root, _). root = v) (flatten_options (ae_terms e))"

text \<open>\<open>value_mut\<close> scrubs every fact that names the value before it lends the value out; \<open>f\<close> is what the
  borrower writes.\<close>

definition scrub_value :: "vir_value_id \<Rightarrow> ('d, 'l, 's) resource_state \<Rightarrow> ('d, 'l, 's) resource_state" where
  "scrub_value v st =
     (let st1 = st\<lparr>st_relations := rs_forget_value v (st_relations st),
            st_path := pc_forget_value v (st_path st),
            st_bool_origins := filter (\<lambda>(k, _). k \<noteq> v) (st_bool_origins st),
            st_word_origins := filter (\<lambda>(k, _). k \<noteq> v) (st_word_origins st),
            st_word_expressions := filter (\<lambda>(k, e). k \<noteq> v \<and> \<not> expression_mentions v e) (st_word_expressions st)\<rparr>;
          st2 = forget_predicate_local_alias v st1
      in st2\<lparr>st_allocations := map_entries (\<lambda>a. a\<lparr>aa_prefixes := ip_forget_value v (aa_prefixes a)\<rparr>) (st_allocations st2)\<rparr>)"

definition update_entry :: "'k::linorder \<Rightarrow> ('v \<Rightarrow> 'v) \<Rightarrow> ('k, 'v) btmap \<Rightarrow> ('k, 'v) btmap" where
  "update_entry k f m = (case bt_get m k of None \<Rightarrow> m | Some v \<Rightarrow> bt_insert k (f v) m)"

definition value_mut ::
  "vir_value_id \<Rightarrow> (abstract_value \<Rightarrow> abstract_value) \<Rightarrow> ('d, 'l, 's) resource_state \<Rightarrow> ('d, 'l, 's) resource_state" where
  "value_mut v f st = (let st' = scrub_value v st in st'\<lparr>st_values := update_entry v f (st_values st')\<rparr>)"

definition allocation_mut ::
  "abstract_allocation_id \<Rightarrow> (abstract_allocation \<Rightarrow> abstract_allocation) \<Rightarrow> ('d, 'l, 's) resource_state \<Rightarrow> ('d, 'l, 's) resource_state" where
  "allocation_mut aid f st = st\<lparr>st_allocations := update_entry aid f (st_allocations st)\<rparr>"

definition loan_mut :: "u32 \<Rightarrow> (abstract_loan \<Rightarrow> abstract_loan) \<Rightarrow> ('d, 'l, 's) resource_state \<Rightarrow> ('d, 'l, 's) resource_state" where
  "loan_mut loan f st = st\<lparr>st_loans := update_entry loan f (st_loans st)\<rparr>"

definition define_loan ::
  "u32 \<Rightarrow> abstract_loan \<Rightarrow> ('d, 'l, 's) resource_state \<Rightarrow> resource_state_definition_error + ('d, 'l, 's) resource_state" where
  "define_loan loan l st =
     (case bt_get (st_loans st) loan of
        None \<Rightarrow> Inr (st\<lparr>st_loans := bt_insert loan l (st_loans st)\<rparr>)
      | Some _ \<Rightarrow> Inl (DuplicateLoan loan))"

definition define_next_loan_instance ::
  "u32 \<Rightarrow> abstract_loan \<Rightarrow> ('d, 'l, 's) resource_state \<Rightarrow> resource_state_definition_error + ('d, 'l, 's) resource_state" where
  "define_next_loan_instance loan l st =
     (if predicate_references_loan loan st then Inl (DuplicateLoan loan)
      else case bt_get (st_loans st) loan of
        None \<Rightarrow> Inr (st\<lparr>st_loans := bt_insert loan l (st_loans st)\<rparr>)
      | Some old \<Rightarrow>
          if al_activity old = LoanEnded then Inr (st\<lparr>st_loans := bt_insert loan l (st_loans st)\<rparr>)
          else Inl (DuplicateLoan loan))"

definition mark_loan_precision_loss :: "loan_precision_loss \<Rightarrow> ('d, 'l, 's) resource_state \<Rightarrow> ('d, 'l, 's) resource_state" where
  "mark_loan_precision_loss loss st = st\<lparr>st_losses := insert loss (st_losses st)\<rparr>"

section \<open>Narrowing\<close>

definition narrow_bool_value :: "vir_value_id \<Rightarrow> bool \<Rightarrow> ('d, 'l, 's) resource_state \<Rightarrow> bool \<times> ('d, 'l, 's) resource_state" where
  "narrow_bool_value v expected st =
     (case bt_get (st_values st) v of
        Some (AVBool b) \<Rightarrow>
          if (b = ABTrue \<and> \<not> expected) \<or> (b = ABFalse \<and> expected) then (False, st)
          else (True, st\<lparr>st_values := bt_insert v (AVBool (if expected then ABTrue else ABFalse)) (st_values st)\<rparr>)
      | _ \<Rightarrow> (False, st))"

definition narrow_pointer_offset ::
  "vir_value_id \<Rightarrow> u64_interval \<Rightarrow> ('d, 'l, 's) resource_state \<Rightarrow> bool \<times> ('d, 'l, 's) resource_state" where
  "narrow_pointer_offset v i st =
     (case bt_get (st_values st) v of
        Some (AVPointer p) \<Rightarrow>
          (case iv_intersection (ap_offset_bytes p) i of
             None \<Rightarrow> (False, st)
           | Some j \<Rightarrow> (True, st\<lparr>st_values := bt_insert v (AVPointer (p\<lparr>ap_offset_bytes := j\<rparr>)) (st_values st)\<rparr>))
      | _ \<Rightarrow> (False, st))"

fun narrowed_word :: "u64_interval \<Rightarrow> abstract_value \<Rightarrow> u64_interval option" where
  "narrowed_word i (AVU64 current) = iv_intersection current i"
| "narrowed_word i _ = None"

definition narrow_entry :: "u64_interval \<Rightarrow> vir_value_id \<Rightarrow> (vir_value_id, abstract_value) btmap \<Rightarrow> (vir_value_id, abstract_value) btmap" where
  "narrow_entry i v m =
     (case Option.bind (bt_get m v) (narrowed_word i) of None \<Rightarrow> m | Some j \<Rightarrow> bt_insert v (AVU64 j) m)"

definition narrow_word_history :: "vir_value_id \<Rightarrow> u64_interval \<Rightarrow> ('d, 'l, 's) resource_state \<Rightarrow> ('d, 'l, 's) resource_state" where
  "narrow_word_history v i st =
     (case bt_get (st_word_origins st) v of
        None \<Rightarrow> st
      | Some origin \<Rightarrow>
          st\<lparr>st_values := fold (\<lambda>(alias, history) m. if history = origin then narrow_entry i alias m else m)
               (st_word_origins st) (st_values st),
             st_allocations := map_entries (narrow_stored_word_origin origin i) (st_allocations st)\<rparr>)"

definition narrow_word_interval :: "vir_value_id \<Rightarrow> u64_interval \<Rightarrow> ('d, 'l, 's) resource_state \<Rightarrow> ('d, 'l, 's) resource_state" where
  "narrow_word_interval v i st =
     (case Option.bind (bt_get (st_values st) v) (narrowed_word i) of
        None \<Rightarrow> st
      | Some j \<Rightarrow> narrow_word_history v j (st\<lparr>st_values := bt_insert v (AVU64 j) (st_values st)\<rparr>))"

definition reduce_relation_intervals :: "('d, 'l, 's) resource_state \<Rightarrow> ('d, 'l, 's) resource_state" where
  "reduce_relation_intervals st =
     fold (\<lambda>b st'. case bound_refinement b of None \<Rightarrow> st' | Some (v, i) \<Rightarrow> narrow_word_interval v i st')
       (rs_bound_list (st_relations st)) st"

definition learn_relations ::
  "vir_memory_access difference_premise list \<Rightarrow> difference_limits \<Rightarrow> ('d, 'l, 's) resource_state \<Rightarrow> ('d, 'l, 's) resource_state" where
  "learn_relations premises limits st =
     reduce_relation_intervals (st\<lparr>st_relations := rs_learn premises (bt_get (st_values st)) limits (st_relations st)\<rparr>)"

definition limit_relations :: "difference_limits \<Rightarrow> ('d, 'l, 's) resource_state \<Rightarrow> ('d, 'l, 's) resource_state" where
  "limit_relations limits st = st\<lparr>st_relations := rs_limit limits (st_relations st)\<rparr>"

section \<open>Origins\<close>

definition st_set_bool_origin :: "vir_value_id \<Rightarrow> bool_origin \<Rightarrow> ('d, 'l, 's) resource_state \<Rightarrow> ('d, 'l, 's) resource_state" where
  "st_set_bool_origin v origin st =
     (if is_bool_fact (bt_get (st_values st) v) \<and>
         (length (st_bool_origins st) < 256 \<or> bt_get (st_bool_origins st) v \<noteq> None)
      then st\<lparr>st_bool_origins := bt_insert v origin (st_bool_origins st)\<rparr> else st)"

definition st_set_word_origin :: "vir_value_id \<Rightarrow> scalar_origin \<Rightarrow> ('d, 'l, 's) resource_state \<Rightarrow> ('d, 'l, 's) resource_state" where
  "st_set_word_origin v origin st =
     (if length (st_word_origins st) < 256 \<or> bt_get (st_word_origins st) v \<noteq> None
      then st\<lparr>st_word_origins := bt_insert v origin (st_word_origins st)\<rparr> else st)"

definition st_seed_scalar_origins :: "('d, 'l, 's) resource_state \<Rightarrow> ('d, 'l, 's) resource_state" where
  "st_seed_scalar_origins st =
     st\<lparr>st_allocations := map (\<lambda>(aid, a). (aid, aa_seed_scalar_origins aid a)) (st_allocations st)\<rparr>"

definition seed_parameter :: "u32 \<Rightarrow> vir_value_id \<Rightarrow> ('d, 'l, 's) resource_state \<Rightarrow> ('d, 'l, 's) resource_state" where
  "seed_parameter f v st =
     (case bt_get (st_values st) v of
        Some (AVBool _) \<Rightarrow> st_set_bool_origin v (BParameter f v) st
      | Some (AVU64 i) \<Rightarrow> st_set_word_origin v (word_seed (SParameter f v) i) st
      | _ \<Rightarrow> st)"

definition seed_parameter_origins :: "u32 \<Rightarrow> vir_value_id list \<Rightarrow> ('d, 'l, 's) resource_state \<Rightarrow> ('d, 'l, 's) resource_state" where
  "seed_parameter_origins f parameters st = fold (seed_parameter f) parameters st"

definition tr_scalar ::
  "('d, 'l, 's) resource_state \<Rightarrow> vir_value_id \<Rightarrow> vir_value_id \<Rightarrow> scalar_origin_transport \<Rightarrow> ('d, 'l, 's) resource_state \<Rightarrow>
    (scalar_origin_transport \<times> ('d, 'l, 's) resource_state) lb" where
  "tr_scalar source v target t destination =
     (case bt_get (st_values source) v of
        Some (AVU64 _) \<Rightarrow>
          (case bt_get (st_word_origins source) v of
             None \<Rightarrow> lb_return (t, destination)
           | Some origin \<Rightarrow> lb_bind (tr_origin origin (t, st_next_scope destination)) (\<lambda>(origin', t', scope).
               lb_return (t', st_set_word_origin target origin' (destination\<lparr>st_next_scope := scope\<rparr>))))
      | Some (AVBool _) \<Rightarrow>
          (case bt_get (st_bool_origins source) v of
             None \<Rightarrow> lb_return (t, destination)
           | Some origin \<Rightarrow> lb_bind (tr_boolean origin (t, st_next_scope destination)) (\<lambda>(origin', t', scope).
               lb_return (t', st_set_bool_origin target origin' (destination\<lparr>st_next_scope := scope\<rparr>))))
      | _ \<Rightarrow> lb_throw InvalidNode)"

section \<open>Instances\<close>

definition transfer_opaque_instance :: "abstract_allocation_id \<Rightarrow> ('d, 'l, 's) resource_state \<Rightarrow> ('d, 'l, 's) resource_state" where
  "transfer_opaque_instance aid st =
     allocation_mut aid
       (\<lambda>a. let a' = a\<lparr>aa_ownership := Unowned\<rparr> in if aa_liveness a' \<noteq> Dead then aa_set_liveness MaybeLive a' else a') st"

definition forget_pointer :: "abstract_provenance \<Rightarrow> abstract_pointer \<Rightarrow> bool \<times> abstract_pointer" where
  "forget_pointer provenance p =
     (if ap_provenance p \<noteq> provenance then (False, p)
      else (True, p\<lparr>ap_provenance := ProvUnknown, ap_slice_footprint := None, ap_domain := PDUnknown,
                    ap_paths := \<lparr>pp_object = None, pp_domain = None\<rparr>\<rparr>))"

definition forget_permission :: "abstract_provenance \<Rightarrow> abstract_permission \<Rightarrow> bool \<times> abstract_permission" where
  "forget_permission provenance p =
     (if perm_provenance p \<noteq> provenance then (False, p)
      else (True, p\<lparr>perm_provenance := ProvUnknown, perm_authority := AuthUnknown, perm_free := FreeNo\<rparr>))"

fun forget_alias :: "abstract_provenance \<Rightarrow> abstract_value \<Rightarrow> bool \<times> abstract_value" where
  "forget_alias provenance (AVPointer p) = apsnd AVPointer (forget_pointer provenance p)"
| "forget_alias provenance (AVPermission p) = apsnd AVPermission (forget_permission provenance p)"
| "forget_alias provenance (AVEnumDiscriminant f) =
     (if ap_provenance (ed_pointer f) = provenance then (True, AVU64 (ed_interval f)) else (False, AVEnumDiscriminant f))"
| "forget_alias provenance v = (False, v)"

fun forget_payload :: "abstract_provenance \<Rightarrow> move_path_state \<Rightarrow> move_path_state" where
  "forget_payload provenance (PathAvailable p) =
     PathAvailable \<lparr>tp_pointer = snd (forget_pointer provenance (tp_pointer p)),
                    tp_permission = snd (forget_permission provenance (tp_permission p))\<rparr>"
| "forget_payload provenance s = s"

definition forget_stored_aliases :: "abstract_provenance \<Rightarrow> abstract_allocation \<Rightarrow> abstract_allocation" where
  "forget_stored_aliases provenance a =
     a\<lparr>aa_object_state := (aa_object_state a)
         \<lparr>os_resource_payloads := map_entries (forget_payload provenance) (os_resource_payloads (aa_object_state a))\<rparr>\<rparr>"

fun stored_in :: "abstract_allocation_id \<Rightarrow> abstract_loan_authority \<Rightarrow> bool" where
  "stored_in aid (AuthorityStored a key) = (a = aid)"
| "stored_in aid (AuthorityValue v) = False"

definition still_responsible :: "abstract_allocation \<Rightarrow> bool" where
  "still_responsible old =
     (aa_liveness old \<noteq> Dead \<and>
      (aa_ownership old \<noteq> Unowned \<or> list_ex (\<lambda>(_, p). p \<noteq> PathMoved) (os_resource_payloads (aa_object_state old))))"

definition loan_blocks :: "abstract_allocation_id \<Rightarrow> abstract_loan \<Rightarrow> bool" where
  "loan_blocks aid l =
     ((al_provenance l = ProvKnown aid \<or> al_provenance l = ProvUnknown \<or> (\<exists>a \<in> al_authorities l. stored_in aid a)) \<and>
      (al_activity l \<noteq> LoanEnded \<or> al_authorities l \<noteq> {}))"

definition still_referenced :: "abstract_allocation_id \<Rightarrow> ('d, 'l, 's) resource_state \<Rightarrow> bool" where
  "still_referenced aid st =
     (predicate_references_allocation aid st \<or>
      (case bt_get (st_allocations st) aid of None \<Rightarrow> False | Some old \<Rightarrow> still_responsible old) \<or>
      list_ex (\<lambda>(_, l). loan_blocks aid l) (st_loans st))"

definition introduce_allocation_instance ::
  "abstract_allocation_id \<Rightarrow> abstract_allocation \<Rightarrow> ('d, 'l, 's) resource_state \<Rightarrow>
    (resource_state_definition_error + unit) \<times> ('d, 'l, 's) resource_state" where
  "introduce_allocation_instance aid a st =
     (if still_referenced aid st then (Inl (InstanceStillReferenced aid), st)
      else if bt_get (st_allocations st) aid = None \<and> length (st_allocations st) \<ge> MAX_ALLOCATION_SLOTS
      then (Inl InstanceBudget, st)
      else let prov = ProvKnown aid in
        (Inr (), st
          \<lparr>st_values := map_entries (\<lambda>v. snd (forget_alias prov v)) (st_values st),
           st_relations :=
             fold (\<lambda>(v, x) rs. if fst (forget_alias prov x) then rs_forget_value v rs else rs) (st_values st) (st_relations st),
           st_loans := filter (\<lambda>(_, l). al_provenance l \<noteq> prov) (st_loans st),
           st_allocations := bt_insert aid a (map_entries (forget_stored_aliases prov) (st_allocations st))\<rparr>))"

section \<open>Crossing an edge\<close>

definition st_remapper :: "(vir_value_id \<times> vir_value_id) list \<Rightarrow> ('d, 'l, 's) resource_state \<Rightarrow> expression_remapper" where
  "st_remapper renames st = er_new (bt_get (st_values st)) (bt_get (st_word_expressions st)) renames"

definition project_word_expression ::
  "expression_remapper \<Rightarrow> (vir_value_id, affine_expression) btmap \<Rightarrow> vir_value_id \<times> vir_value_id \<Rightarrow>
    (vir_value_id, affine_expression) btmap \<Rightarrow> (vir_value_id, affine_expression) btmap" where
  "project_word_expression er words rename m =
     (case Option.bind (bt_get words (fst rename)) (er_expression er) of
        None \<Rightarrow> m | Some e \<Rightarrow> bt_or_insert (snd rename) e m)"

definition project_origins ::
  "(vir_value_id, 'o) btmap \<Rightarrow> (vir_value_id \<times> vir_value_id) list \<Rightarrow> (vir_value_id, 'o) btmap" where
  "project_origins origins renames = take 256 (present_entries (fold (merge_target (bt_get origins)) renames []))"

definition word_renames ::
  "('d, 'l, 's) resource_state \<Rightarrow> (vir_value_id \<times> vir_value_id) list \<Rightarrow> (vir_value_id \<times> vir_value_id) list" where
  "word_renames st renames = filter (\<lambda>(source, _). is_word_fact (bt_get (st_values st) source)) renames"

definition project_cfg_edge ::
  "(vir_value_id \<times> vir_value_id) list \<Rightarrow> ('d, 'l, 's) resource_state \<Rightarrow> ('d, 'l, 's) resource_state" where
  "project_cfg_edge renames st =
     (if \<not> pc_is_reachable (st_path st) then st_unreachable
      else let er = st_remapper renames st in
        \<lparr>st_next_scope = st_next_scope st,
         st_predicates = project_predicates er renames (st_predicates st),
         st_relations = rs_project_affine (word_renames st renames) (st_word_expressions st) (st_relations st),
         st_path = pc_project renames (st_path st),
         st_allocations = map_entries (aa_project_cfg_edge er (bt_get (st_values st))) (st_allocations st),
         st_values = [],
         st_word_expressions = fold (project_word_expression er (st_word_expressions st)) renames [],
         st_bool_origins = project_origins (st_bool_origins st) renames,
         st_word_origins = project_origins (st_word_origins st) renames,
         st_loans = map_entries (al_project_cfg_edge er) (st_loans st),
         st_losses = st_losses st\<rparr>)"

definition loses_cfg_guards :: "(vir_value_id \<times> vir_value_id) list \<Rightarrow> ('d, 'l, 's) resource_state \<Rightarrow> bool" where
  "loses_cfg_guards renames st =
     (let carried = fst ` set renames in
      case pc_facts (st_path st) of
        None \<Rightarrow> False
      | Some facts \<Rightarrow> (\<exists>f \<in> facts. case f of
            FactBoolean v _ \<Rightarrow> v \<notin> carried
          | FactComparison _ l r \<Rightarrow> l \<notin> carried \<or> r \<notin> carried))"

definition carried_truth :: "path_condition \<Rightarrow> vir_value_id \<Rightarrow> abstract_value \<Rightarrow> bool option" where
  "carried_truth pc source v =
     (case v of
        AVBool ABTrue \<Rightarrow> Some True
      | AVBool ABFalse \<Rightarrow> Some False
      | AVBool ABUnknown \<Rightarrow>
          if pc_implies pc (FactBoolean source True) then Some True
          else if pc_implies pc (FactBoolean source False) then Some False else None
      | _ \<Rightarrow> None)"

definition carry_value ::
  "('d, 'l, 's) resource_state \<Rightarrow> expression_remapper \<Rightarrow> vir_value_id \<times> vir_value_id \<Rightarrow> ('d, 'l, 's) resource_state \<Rightarrow>
    resource_state_definition_error + ('d, 'l, 's) resource_state" where
  "carry_value st er rename projected =
     (case rename of (source, target) \<Rightarrow>
        case bt_get (st_values st) source of
          None \<Rightarrow> Inr projected
        | Some v \<Rightarrow>
            res_bind (define_value target (er_value er v) projected) (\<lambda>defined.
              Inr (case carried_truth (st_path st) source v of
                     None \<Rightarrow> defined
                   | Some expected \<Rightarrow> conjoin_path_fact (FactBoolean target expected) defined)))"

fun duplicate_target :: "vir_value_id set \<Rightarrow> (vir_value_id \<times> vir_value_id) list \<Rightarrow> vir_value_id option" where
  "duplicate_target seen [] = None"
| "duplicate_target seen ((_, target) # renames) =
     (if target \<in> seen then Some target else duplicate_target (insert target seen) renames)"

definition project_cfg_case ::
  "(vir_value_id \<times> vir_value_id) list \<Rightarrow> ('d, 'l, 's) resource_state \<Rightarrow>
    resource_state_definition_error + ('d, 'l, 's) resource_state" where
  "project_cfg_case renames st =
     (if \<not> pc_is_reachable (st_path st) then Inr st_unreachable
      else case duplicate_target {} renames of
        Some target \<Rightarrow> Inl (DuplicateValue target)
      | None \<Rightarrow> res_fold (carry_value st (st_remapper renames st)) renames (project_cfg_edge renames st))"

section \<open>Joins\<close>

definition join_loan ::
  "(u32, abstract_loan) btmap \<Rightarrow> (u32, abstract_loan) btmap \<Rightarrow> u32 \<Rightarrow> (u32, abstract_loan) btmap \<times> bool \<Rightarrow>
    resource_join_error + (u32, abstract_loan) btmap \<times> bool" where
  "join_loan left right loan acc =
     (case acc of (joined, lost) \<Rightarrow>
        case (bt_get left loan, bt_get right loan) of
          (Some l, Some r) \<Rightarrow>
            res_bind (al_join l r loan) (\<lambda>j.
              let ended = (al_activity l = LoanEnded \<and> al_activity r = LoanEnded \<and>
                     al_authorities l = {} \<and> al_authorities r = {})
              in Inr (bt_insert loan j joined, lost \<or> \<not> ended \<and> (j \<noteq> l \<or> j \<noteq> r)))
        | (None, None) \<Rightarrow> Inr acc
        | (Some l, None) \<Rightarrow>
            if al_activity l = LoanEnded then Inr acc
            else Inr (bt_insert loan (al_join_absent l) joined,
                   lost \<or> al_join_absent l \<noteq> l \<or> al_activity l \<noteq> LoanEnded)
        | (None, Some l) \<Rightarrow>
            if al_activity l = LoanEnded then Inr acc
            else Inr (bt_insert loan (al_join_absent l) joined,
                   lost \<or> al_join_absent l \<noteq> l \<or> al_activity l \<noteq> LoanEnded))"

definition join_loans ::
  "(u32, abstract_loan) btmap \<Rightarrow> (u32, abstract_loan) btmap \<Rightarrow> resource_join_error + (u32, abstract_loan) btmap \<times> bool" where
  "join_loans left right =
     res_fold (join_loan left right) (sort (remdups (bt_keys left @ bt_keys right))) ([], False)"

definition absent_join ::
  "abstract_allocation_id \<Rightarrow> abstract_allocation \<Rightarrow> resource_join_error + abstract_allocation option" where
  "absent_join aid a =
     (if aa_liveness a \<noteq> Dead \<and> aa_ownership a \<noteq> Unowned then res_bind (aa_join aid a (aa_mark_dead a)) (\<lambda>j. Inr (Some j))
      else Inr None)"

definition join_allocation ::
  "(abstract_allocation_id, abstract_allocation) btmap \<Rightarrow> (abstract_allocation_id, abstract_allocation) btmap \<Rightarrow>
    abstract_allocation_id \<Rightarrow> (abstract_allocation_id, abstract_allocation) btmap \<Rightarrow>
    resource_join_error + (abstract_allocation_id, abstract_allocation) btmap" where
  "join_allocation left right aid joined =
     (if bt_get joined aid \<noteq> None then Inr joined
      else res_bind
        (case (bt_get left aid, bt_get right aid) of
           (Some l, Some r) \<Rightarrow> res_bind (aa_join aid l r) (\<lambda>j. Inr (Some j))
         | (Some a, None) \<Rightarrow> absent_join aid a
         | (None, Some a) \<Rightarrow> absent_join aid a
         | (None, None) \<Rightarrow> Inr None)
        (\<lambda>merged. case merged of
           None \<Rightarrow> Inr joined
         | Some j \<Rightarrow>
             if length joined \<ge> MAX_ALLOCATION_SLOTS then Inl AllocationInstanceBudget else Inr (bt_insert aid j joined)))"

definition join_allocations ::
  "(abstract_allocation_id, abstract_allocation) btmap \<Rightarrow> (abstract_allocation_id, abstract_allocation) btmap \<Rightarrow>
    resource_join_error + (abstract_allocation_id, abstract_allocation) btmap" where
  "join_allocations left right = res_fold (join_allocation left right) (bt_keys left @ bt_keys right) []"

definition merge_value ::
  "(abstract_value \<Rightarrow> abstract_value \<Rightarrow> vir_value_id \<Rightarrow> resource_join_error + abstract_value) \<Rightarrow>
    (vir_value_id, abstract_value) btmap \<Rightarrow> vir_value_id \<times> abstract_value \<Rightarrow> (vir_value_id, abstract_value) btmap \<Rightarrow>
    resource_join_error + (vir_value_id, abstract_value) btmap" where
  "merge_value merge right e joined =
     (case bt_get right (fst e) of
        None \<Rightarrow> Inr joined
      | Some r \<Rightarrow> res_bind (merge (snd e) r (fst e)) (\<lambda>j. Inr (bt_insert (fst e) j joined)))"

definition merge_values ::
  "(abstract_value \<Rightarrow> abstract_value \<Rightarrow> vir_value_id \<Rightarrow> resource_join_error + abstract_value) \<Rightarrow>
    (vir_value_id, abstract_value) btmap \<Rightarrow> (vir_value_id, abstract_value) btmap \<Rightarrow>
    resource_join_error + (vir_value_id, abstract_value) btmap" where
  "merge_values merge left right = res_fold (merge_value merge right) left []"

definition shared_entries :: "('k::linorder, 'v) btmap \<Rightarrow> ('k, 'v) btmap \<Rightarrow> ('k, 'v) btmap" where
  "shared_entries left right = filter (\<lambda>(k, v). bt_get right k = Some v) left"

text \<open>The merge of the predicate maps, with the instances to check again at the end, is an argument.\<close>

type_synonym ('d, 'l, 's, 'r) predicate_merge =
  "('d, 'l, 's) resource_state \<Rightarrow> ('d, 'l, 's) resource_state \<Rightarrow> resource_join_error + ('d, 'l, 's) predicate_map \<times> 'r"

type_synonym ('d, 'l, 's, 'r) predicate_check =
  "'r \<Rightarrow> ('d, 'l, 's) resource_state \<Rightarrow> resource_join_error + unit"

definition merge_states ::
  "(abstract_value \<Rightarrow> abstract_value \<Rightarrow> vir_value_id \<Rightarrow> resource_join_error + abstract_value) \<Rightarrow>
    (relation_state \<Rightarrow> relation_state \<Rightarrow> relation_state) \<Rightarrow>
    ((abstract_allocation_id, abstract_allocation) btmap \<Rightarrow> (abstract_allocation_id, abstract_allocation) btmap) \<Rightarrow>
    loan_precision_loss \<Rightarrow> ('d, 'l, 's, 'r) predicate_merge \<Rightarrow> ('d, 'l, 's, 'r) predicate_check \<Rightarrow>
    ('d, 'l, 's) resource_state \<Rightarrow> ('d, 'l, 's) resource_state \<Rightarrow> resource_join_error + ('d, 'l, 's) resource_state" where
  "merge_states merge relate adjust loss predicates check a b =
     res_bind (predicates a b) (\<lambda>(instances, recheck).
     res_bind (join_allocations (st_allocations a) (st_allocations b)) (\<lambda>allocations.
     res_bind (merge_values merge (st_values a) (st_values b)) (\<lambda>values'.
     res_bind (join_loans (st_loans a) (st_loans b)) (\<lambda>(loans, lost).
       let result =
         \<lparr>st_next_scope = max (st_next_scope a) (st_next_scope b), st_predicates = instances,
          st_relations = relate (st_relations a) (st_relations b), st_path = pc_join (st_path a) (st_path b),
          st_allocations = adjust allocations, st_values = values',
          st_word_expressions = shared_entries (st_word_expressions a) (st_word_expressions b),
          st_bool_origins = shared_entries (st_bool_origins a) (st_bool_origins b),
          st_word_origins = shared_entries (st_word_origins a) (st_word_origins b),
          st_loans = loans,
          st_losses = st_losses a \<union> st_losses b \<union> (if lost then {loss} else {})\<rparr>
       in res_bind (check recheck result) (\<lambda>_. Inr result)))))"

definition st_join ::
  "('d, 'l, 's, 'r) predicate_merge \<Rightarrow> ('d, 'l, 's, 'r) predicate_check \<Rightarrow> ('d, 'l, 's) resource_state \<Rightarrow>
    ('d, 'l, 's) resource_state \<Rightarrow> resource_join_error + ('d, 'l, 's) resource_state" where
  "st_join predicates check a b =
     (if \<not> pc_is_reachable (st_path a) then Inr b
      else if \<not> pc_is_reachable (st_path b) then Inr a
      else merge_states aval_join rs_join id LoanJoinLoss predicates check a b)"

definition widen_allocation ::
  "('d, 'l, 's) resource_state \<Rightarrow> ('d, 'l, 's) resource_state \<Rightarrow> abstract_allocation_id \<Rightarrow> abstract_allocation \<Rightarrow>
    abstract_allocation" where
  "widen_allocation a b aid j =
     (case (bt_get (st_allocations a) aid, bt_get (st_allocations b) aid) of
        (Some l, Some r) \<Rightarrow> widen_scalar_contents l r j
      | _ \<Rightarrow> j)"

definition st_widen ::
  "('d, 'l, 's, 'r) predicate_merge \<Rightarrow> ('d, 'l, 's, 'r) predicate_check \<Rightarrow> ('d, 'l, 's) resource_state \<Rightarrow>
    ('d, 'l, 's) resource_state \<Rightarrow> resource_join_error + ('d, 'l, 's) resource_state" where
  "st_widen predicates check a b =
     (if \<not> pc_is_reachable (st_path a) then Inr b
      else if \<not> pc_is_reachable (st_path b) then Inr a
      else merge_states aval_widen rs_widen (map (\<lambda>(aid, j). (aid, widen_allocation a b aid j))) LoanLoopWidening
        predicates check a b)"

definition covers_cfg_case ::
  "('d, 'l, 's, 'r) predicate_merge \<Rightarrow> ('d, 'l, 's, 'r) predicate_check \<Rightarrow> ('d, 'l, 's) resource_state \<Rightarrow>
    ('d, 'l, 's) resource_state \<Rightarrow> bool" where
  "covers_cfg_case predicates check st incoming =
     (case st_join predicates check st incoming of
        Inl _ \<Rightarrow> False
      | Inr joined \<Rightarrow>
          if rs_bound_list (st_relations joined) \<noteq> rs_bound_list (st_relations st) \<or>
             rs_disequalities (st_relations joined) \<noteq> rs_disequalities (st_relations st)
          then False
          else joined\<lparr>st_relations := st_relations st\<rparr> = st)"

fun resource_value :: "abstract_value \<Rightarrow> bool" where
  "resource_value (AVPointer _) = True"
| "resource_value (AVPermission _) = True"
| "resource_value (AVEnumDiscriminant _) = True"
| "resource_value _ = False"

definition same_resource_facts ::
  "('d, 'l, 's, 'r) predicate_merge \<Rightarrow> ('d, 'l, 's) resource_state \<Rightarrow> ('d, 'l, 's) resource_state \<Rightarrow> bool" where
  "same_resource_facts predicates a b =
     (result_ok (predicates a b) \<noteq> None \<and> st_allocations a = st_allocations b \<and>
      bt_retain resource_value (st_values a) = bt_retain resource_value (st_values b) \<and>
      st_loans a = st_loans b \<and> st_losses a = st_losses b)"

section \<open>Loop partitions\<close>

text \<open>The cuts are in increasing order, so that the partition point is the length of the prefix below the bound.\<close>

definition partition_point :: "u64 list \<Rightarrow> u64 \<Rightarrow> nat" where
  "partition_point cuts x = length (takeWhile (\<lambda>cut. cut \<le> x) cuts)"

definition loop_cell :: "u64_interval \<Rightarrow> u64 list \<Rightarrow> nat option" where
  "loop_cell i cuts =
     (let lower = partition_point cuts (iv_lower i) in
      if lower = partition_point cuts (iv_upper i) then Some lower else None)"

definition word_cells :: "u64 list \<Rightarrow> (vir_value_id, abstract_value) btmap \<Rightarrow> (vir_value_id \<times> nat option) list" where
  "word_cells cuts m = List.map_filter (\<lambda>(v, x). map_option (\<lambda>i. (v, loop_cell i cuts)) (word_reading (Some x))) m"

definition same_loop_predicates :: "u64 list \<Rightarrow> ('d, 'l, 's) resource_state \<Rightarrow> ('d, 'l, 's) resource_state \<Rightarrow> bool" where
  "same_loop_predicates cuts a b = (cuts = [] \<or> word_cells cuts (st_values a) = word_cells cuts (st_values b))"

definition clip_cell :: "u64 list \<Rightarrow> nat \<Rightarrow> u64_interval \<Rightarrow> u64_interval option" where
  "clip_cell cuts index wide =
     (let lower = (if index = 0 then 0 else cuts ! (index - 1));
          upper = (if index < length cuts then cuts ! index - 1 else u64_MAX)
      in result_ok (iv_new (max (iv_lower wide) lower) (min (iv_upper wide) upper)))"

text \<open>\<open>None\<close> is the panic of the \<open>expect\<close>.\<close>

definition clip_value ::
  "u64 list \<Rightarrow> ('d, 'l, 's) resource_state \<Rightarrow> ('d, 'l, 's) resource_state \<Rightarrow> vir_value_id \<Rightarrow> abstract_value \<Rightarrow> abstract_value option" where
  "clip_value cuts old new v x =
     (case (word_reading (Some x), word_reading (bt_get (st_values new) v)) of
        (Some wide, Some i) \<Rightarrow>
          (case loop_cell i cuts of
             None \<Rightarrow> Some x
           | Some index \<Rightarrow>
               (case word_reading (bt_get (st_values old) v) of
                  None \<Rightarrow> Some x
                | Some j \<Rightarrow>
                    if loop_cell j cuts \<noteq> Some index then Some x
                    else map_option AVU64 (clip_cell cuts index wide)))
      | _ \<Rightarrow> Some x)"

definition widen_loop_predicates ::
  "('d, 'l, 's, 'r) predicate_merge \<Rightarrow> ('d, 'l, 's, 'r) predicate_check \<Rightarrow> u64 list \<Rightarrow> ('d, 'l, 's) resource_state \<Rightarrow>
    ('d, 'l, 's) resource_state \<Rightarrow> resource_join_error + ('d, 'l, 's) resource_state option" where
  "widen_loop_predicates predicates check cuts old new =
     res_bind (st_widen predicates check old new) (\<lambda>widened.
       Inr (map_option (\<lambda>vs. widened\<lparr>st_values := vs\<rparr>)
         (option_map_list (\<lambda>(v, x). map_option (\<lambda>y. (v, y)) (clip_value cuts old new v x)) (st_values widened))))"

datatype value_phase =
    PhaseBool abstract_bool
  | PhasePointer abstract_provenance
  | PhasePermission abstract_provenance permission_availability permission_authority access_permission free_capability
  | PhaseTag abstract_provenance vir_memory_access u64_interval

fun phase_of :: "abstract_value \<Rightarrow> value_phase option" where
  "phase_of (AVU64 _) = None"
| "phase_of (AVBool b) = Some (PhaseBool b)"
| "phase_of (AVPointer p) = Some (PhasePointer (ap_provenance p))"
| "phase_of (AVPermission p) =
     Some (PhasePermission (perm_provenance p) (perm_availability p) (perm_authority p) (perm_access p) (perm_free p))"
| "phase_of (AVEnumDiscriminant f) = Some (PhaseTag (ap_provenance (ed_pointer f)) (ed_access f) (ed_interval f))"

definition phase_values :: "(vir_value_id, abstract_value) btmap \<Rightarrow> (vir_value_id \<times> value_phase) list" where
  "phase_values m = List.map_filter (\<lambda>(v, x). map_option (\<lambda>p. (v, p)) (phase_of x)) m"

definition same_allocation_phase :: "abstract_allocation \<Rightarrow> abstract_allocation \<Rightarrow> bool" where
  "same_allocation_phase a b =
     (aa_region a = aa_region b \<and> aa_size_bytes a = aa_size_bytes b \<and> aa_alignment a = aa_alignment b \<and>
      aa_liveness a = aa_liveness b \<and> aa_ownership a = aa_ownership b \<and> aa_object_state a = aa_object_state b)"

definition same_loan_phase :: "abstract_loan \<Rightarrow> abstract_loan \<Rightarrow> bool" where
  "same_loan_phase a b =
     (al_provenance a = al_provenance b \<and> al_range a = al_range b \<and> al_kind a = al_kind b \<and> al_region a = al_region b \<and>
      al_parent a = al_parent b \<and> al_activity a = al_activity b \<and> al_authorities a = al_authorities b)"

definition entries_agree :: "('v \<Rightarrow> 'v \<Rightarrow> bool) \<Rightarrow> ('k::linorder, 'v) btmap \<Rightarrow> ('k, 'v) btmap \<Rightarrow> bool" where
  "entries_agree same m n =
     (length m = length n \<and>
      list_all (\<lambda>(k, v). case bt_get n k of None \<Rightarrow> False | Some w \<Rightarrow> same v w) m)"

definition same_loop_partition ::
  "('d, 'l, 's, 'r) predicate_merge \<Rightarrow> ('d, 'l, 's) resource_state \<Rightarrow> ('d, 'l, 's) resource_state \<Rightarrow> bool" where
  "same_loop_partition predicates a b =
     (result_ok (predicates a b) \<noteq> None \<and> entries_agree same_allocation_phase (st_allocations a) (st_allocations b) \<and>
      entries_agree same_loan_phase (st_loans a) (st_loans b) \<and> phase_values (st_values a) = phase_values (st_values b))"

section \<open>Loop frames\<close>

definition inherit_predicate_scalar_aliases ::
  "('d, 'l, 's) resource_state \<Rightarrow> ('d, 'l, 's) resource_state \<Rightarrow> ('d, 'l, 's) resource_state" where
  "inherit_predicate_scalar_aliases frame st =
     st\<lparr>st_predicates :=
       map (\<lambda>(holder, p). (holder,
         case bt_get (st_predicates frame) holder of
           None \<Rightarrow> p | Some before \<Rightarrow> p\<lparr>pi_local_aliases := pi_local_aliases before\<rparr>)) (st_predicates st)\<rparr>"

definition inherit_loop_scalar_frame ::
  "('d, 'l, 's) resource_state \<Rightarrow> vir_value_id set \<Rightarrow> ('d, 'l, 's) resource_state \<Rightarrow> ('d, 'l, 's) resource_state" where
  "inherit_loop_scalar_frame entry retained st =
     (let renames = map (\<lambda>v. (v, v)) (sorted_list_of_set retained);
          frame = project_cfg_edge renames entry
      in (inherit_predicate_scalar_aliases frame st)
        \<lparr>st_path := st_path frame, st_relations := st_relations frame, st_word_expressions := st_word_expressions frame,
         st_word_origins := st_word_origins frame, st_bool_origins := st_bool_origins frame\<rparr>)"

fun stable_range :: "abstract_byte_range \<Rightarrow> bool" where
  "stable_range (RSymbolic _ _) = False"
| "stable_range _ = True"

fun stable_loop_value :: "abstract_value \<Rightarrow> bool" where
  "stable_loop_value (AVPointer p) =
     (iv_exact_value (ap_offset_bytes p) \<noteq> None \<and>
      (case ap_offset_expression p of None \<Rightarrow> True | Some e \<Rightarrow> ae_is_constant e) \<and>
      (case ap_slice_footprint p of None \<Rightarrow> True | Some f \<Rightarrow> stable_range (fp_range f)) \<and>
      (case ap_domain p of PDRestricted r \<Rightarrow> stable_range r | _ \<Rightarrow> True))"
| "stable_loop_value (AVPermission p) = stable_range (perm_range p)"
| "stable_loop_value _ = False"

end
