(* ===== verification/Relation_Sound.thy ===== *)
theory Relation_Sound
  imports Relation_State
begin

text \<open>
  Correctness of the relation states: every operation keeps the assignments the state holds of and the
  budget of facts, the widening is a \<open>widening_domain\<close>, and the states reached by any sequence of
  operations tell the truth about the words of the program.
\<close>

section \<open>Meaning\<close>

definition end_val :: "word_model \<Rightarrow> vir_value_id option \<Rightarrow> int" where
  "end_val w v = (case v of Some v \<Rightarrow> uint (w v) | None \<Rightarrow> 0)"

fun operand_val :: "word_model \<Rightarrow> relation_operand \<Rightarrow> int" where
  "operand_val w (OperandValue v) = uint (w v)"
| "operand_val w (OperandConstant n) = uint n"

definition bounds_hold :: "word_model \<Rightarrow> (bound_pair, i128) btmap \<Rightarrow> bool" where
  "bounds_hold w bounds = (\<forall>l r b. ((l, r), b) \<in> set bounds \<longrightarrow> end_val w l - end_val w r \<le> b)"

definition rs_holds :: "relation_state \<Rightarrow> word_model \<Rightarrow> bool" where
  "rs_holds rs w =
     (bounds_hold w (rs_bounds rs) \<and> (\<forall>a b. (a, b) \<in> rs_disequalities rs \<longrightarrow> operand_val w a \<noteq> operand_val w b))"

definition rs_wf :: "relation_state \<Rightarrow> bool" where
  "rs_wf rs = (bt_sorted (rs_bounds rs) \<and> finite (rs_disequalities rs) \<and> rs_size rs \<le> MAX_FACTS)"

definition rs_height :: "relation_state \<Rightarrow> nat" where
  "rs_height rs = rs_size rs + (4 - card (rs_losses rs))"

definition reads_words :: "(vir_value_id \<Rightarrow> abstract_value option) \<Rightarrow> word_model \<Rightarrow> bool" where
  "reads_words read w = (\<forall>v i. read v = Some (AVU64 i) \<longrightarrow> iv_contains i (w v))"

lemma bound_premise_true:
  "premise_true w (bound_premise b) \<longleftrightarrow> end_val w (db_left b) - end_val w (db_right b) \<le> db_bound b"
  by (simp add: bound_premise_def end_val_def relation_word_def split: option.split)

lemma operand_term_val: "term_val w (operand_term a) = operand_val w a"
  by (cases a) (simp_all add: relation_word_def)

lemma operand_from_term_val: "operand_from_term t = Some a \<Longrightarrow> operand_val w a = term_val w t"
  by (cases t rule: operand_from_term.cases) auto

lemma bounds_hold_insert:
  "bounds_hold w bounds \<Longrightarrow> end_val w l - end_val w r \<le> b \<Longrightarrow> bounds_hold w (bt_insert (l, r) b bounds)"
  unfolding bounds_hold_def by (metis Pair_inject bt_insert_elem)

lemma rs_premises_true:
  assumes "rs_holds rs w" and "finite (rs_disequalities rs)"
  shows "list_all (premise_true w) (rs_premises rs)"
  using assms
  by (auto simp: rs_premises_def rs_bound_list_def rs_holds_def bounds_hold_def list_all_iff bound_premise_true
      operand_term_val)

lemma rs_forget_all_ok [simp]: "rs_holds (rs_forget_all reason rs) w" "rs_wf (rs_forget_all reason rs)"
  by (simp_all add: rs_forget_all_def rs_holds_def bounds_hold_def rs_wf_def rs_size_def)

lemma rs_limit_holds: "rs_holds rs w \<Longrightarrow> rs_holds (rs_limit limits rs) w"
  by (simp add: rs_limit_def)

lemma rs_limit_wf: "bt_sorted (rs_bounds rs) \<Longrightarrow> finite (rs_disequalities rs) \<Longrightarrow> rs_wf (rs_limit limits rs)"
  by (auto simp: rs_limit_def) (simp add: rs_wf_def)

lemma rs_forget_value_ok:
  assumes "rs_wf rs" and "rs_holds rs w"
  shows "rs_wf (rs_forget_value v rs)" and "rs_holds (rs_forget_value v rs) (w(v := x))"
proof -
  have "length (filter p (rs_bounds rs)) + card (Set.filter q (rs_disequalities rs)) \<le> rs_size rs" for p q
    using assms(1) by (auto simp: rs_size_def rs_wf_def intro!: add_mono card_mono)
  then show "rs_wf (rs_forget_value v rs)"
    using assms(1) unfolding rs_wf_def rs_forget_value_def by (fastforce simp: rs_size_def intro: order_trans)
  have "end_val (w(v := x)) e = end_val w e" if "e \<noteq> Some v" for e using that by (auto simp: end_val_def split: option.split)
  moreover have "operand_val (w(v := x)) a = operand_val w a" if "operand_value a \<noteq> Some v" for a using that by (cases a) auto
  ultimately show "rs_holds (rs_forget_value v rs) (w(v := x))"
    using assms(2) by (auto simp: rs_holds_def rs_forget_value_def bounds_hold_def)
qed

section \<open>Learning\<close>

lemma exact_term_val: "reads_words read w \<Longrightarrow> term_val w (exact_term read t) = term_val w t"
  using iv_exact_valueD by (fastforce simp: exact_term_def reads_words_def split: relation_term.split vir_type.split
      option.split abstract_value.split)

lemma normalize_premise_true:
  assumes "reads_words read w" and "premise_true w p"
  shows "list_all (premise_true w) (normalize_premise read p)"
proof (cases p)
  case (PInterval v i)
  show ?thesis
  proof (cases "\<exists>n. exact_term read (relation_word v) = RConstant n")
    case True
    then obtain n where n: "exact_term read (relation_word v) = RConstant n" by blast
    then have "uint n = uint (w v)" using exact_term_val [OF assms(1), of "relation_word v"] by (simp add: relation_word_def)
    then show ?thesis using assms(2) n PInterval by (simp add: iv_contains_def word_le_def)
  next
    case False
    then have "normalize_premise read p = [p]" by (simp add: PInterval split: relation_term.split)
    then show ?thesis using assms(2) by simp
  qed
qed (use assms(2) in \<open>simp_all add: exact_term_val [OF assms(1)]\<close>)

lemma interval_premise_true:
  "reads_words read w \<Longrightarrow> interval_premise read v = Some p \<Longrightarrow> premise_true w p"
  by (auto simp: interval_premise_def reads_words_def word_reading_Some)

lemma branch_bound_map_get:
  assumes "bt_get (branch_bound_map br) (l, r) = Some b"
  shows "\<exists>d \<in> set (dbr_bounds br). db_left d = l \<and> db_right d = r \<and> db_bound d = b"
proof -
  have "x \<in> set (fold (\<lambda>b. bt_insert (db_left b, db_right b) (db_bound b)) bs m) \<Longrightarrow>
      x \<in> set m \<or> (\<exists>d \<in> set bs. x = ((db_left d, db_right d), db_bound d))" for x and bs :: "difference_bound list" and m :: "(bound_pair, i128) btmap"
    by (induction bs arbitrary: m) (auto dest: bt_insert_elem)
  then show ?thesis using bt_get_in_set [OF assms] by (fastforce simp: branch_bound_map_def)
qed

lemma branch_bound_map_sorted: "bt_sorted (branch_bound_map br)"
proof -
  have "bt_sorted m \<Longrightarrow> bt_sorted (fold (\<lambda>b. bt_insert (db_left b, db_right b) (db_bound b)) bs m)"
    for bs :: "difference_bound list" and m :: "(bound_pair, i128) btmap"
    by (induction bs arbitrary: m) auto
  then show ?thesis by (simp add: branch_bound_map_def)
qed

text \<open>A merged bound is no tighter than the bound of any branch.\<close>

lemma merge_branches_weaker:
  assumes "bt_sorted bounds"
  shows "bt_sorted (fold merge_branch brs bounds) \<and>
    ((k, b) \<in> set (fold merge_branch brs bounds) \<longrightarrow> (\<exists>b' \<le> b. (k, b') \<in> set bounds) \<and>
      (\<forall>br \<in> set brs. \<exists>b' \<le> b. bt_get (branch_bound_map br) k = Some b'))"
  using assms
proof (induction brs arbitrary: bounds)
  case (Cons br brs)
  have sorted: "bt_sorted (merge_branch br bounds)"
    using common_entries_sorted [OF Cons.prems] unfolding merge_branch_def by blast
  note IH = Cons.IH [OF sorted]
  have step: "(\<exists>v \<le> c. (k, v) \<in> set bounds) \<and> (\<exists>v \<le> c. bt_get (branch_bound_map br) k = Some v)"
    if h: "(k, c) \<in> set (merge_branch br bounds)" for c
  proof -
    obtain v v' where "(k, v) \<in> set bounds" "bt_get (branch_bound_map br) k = Some v'" "c = max v v'"
      using h unfolding merge_branch_def common_entries_elem by blast
    then show ?thesis by (auto intro: max.cobounded1 max.cobounded2)
  qed
  show ?case
  proof (intro conjI impI)
    assume "(k, b) \<in> set (fold merge_branch (br # brs) bounds)"
    then obtain c where c: "c \<le> b" "(k, c) \<in> set (merge_branch br bounds)"
        and rest: "\<forall>br \<in> set brs. \<exists>b' \<le> b. bt_get (branch_bound_map br) k = Some b'"
      using IH by auto
    from step [OF c(2)] c(1) show "\<exists>b' \<le> b. (k, b') \<in> set bounds" by (meson order_trans)
    from step [OF c(2)] c(1) have "\<exists>b' \<le> b. bt_get (branch_bound_map br) k = Some b'" by (meson order_trans)
    then show "\<forall>br \<in> set (br # brs). \<exists>b' \<le> b. bt_get (branch_bound_map br) k = Some b'" using rest by simp
  qed (use IH in simp)
qed auto

lemma kept_disequality_true:
  assumes "premise_true w p" and "kept_disequality p = Some (a, b)"
  shows "operand_val w a \<noteq> operand_val w b"
proof (cases p rule: kept_disequality.cases)
  case (1 l r)
  then obtain x y where "operand_from_term l = Some x" "operand_from_term r = Some y" "a = min x y" "b = max x y"
    using assms(2) by (auto split: option.splits if_splits)
  then show ?thesis using assms(1) 1 operand_from_term_val [of l x w] operand_from_term_val [of r y w]
    by (auto simp: min_def max_def)
qed (use assms(2) in auto)

lemma learn_closed_ok:
  assumes "list_all (premise_true w) premises"
  shows "rs_wf (learn_closed premises limits rs) \<and> rs_holds (learn_closed premises limits rs) w"
proof -
  let ?ev = "solve_difference premises trivial_goal limits"
  let ?open = "filter (\<lambda>b. dbr_contradiction b = None) (de_branches ?ev)"
  show ?thesis
  proof (cases "de_stop ?ev = Complete \<and> ?open \<noteq> []")
    case True
    then obtain first rest where brs: "?open = first # rest" by (cases ?open) auto
    let ?bounds = "fold merge_branch rest (branch_bound_map first)"
    let ?rs = "rs\<lparr>rs_disequalities := set (List.map_filter kept_disequality premises), rs_bounds := ?bounds\<rparr>"
    have eq: "learn_closed premises limits rs = rs_limit limits ?rs"
      using True brs by (simp add: learn_closed_def Let_def)
    obtain br where br: "br \<in> set (de_branches ?ev)" "branch_sound w trivial_goal br"
      using solve_difference_model [OF assms, of trivial_goal limits] True by blast
    then have "br \<in> set (first # rest)" unfolding brs [symmetric] by (simp add: branch_sound_def)
    have "end_val w l - end_val w r \<le> b" if "((l, r), b) \<in> set ?bounds" for l r b
    proof -
      have "(\<exists>b' \<le> b. bt_get (branch_bound_map first) (l, r) = Some b') \<and>
          (\<forall>br \<in> set rest. \<exists>b' \<le> b. bt_get (branch_bound_map br) (l, r) = Some b')"
        using merge_branches_weaker [OF branch_bound_map_sorted [of first], of rest "(l, r)" b] that
        by (simp add: bt_get_mem [OF branch_bound_map_sorted])
      then obtain b' where b': "b' \<le> b" "bt_get (branch_bound_map br) (l, r) = Some b'"
        using \<open>br \<in> set (first # rest)\<close> by auto
      then obtain d where "d \<in> set (dbr_bounds br)" "db_left d = l" "db_right d = r" "db_bound d = b'"
        using branch_bound_map_get by blast
      then have "end_val w l - end_val w r \<le> b'"
        using br(2) bound_premise_true [of w d] by (auto simp: branch_sound_def)
      then show ?thesis using b'(1) by simp
    qed
    moreover have "operand_val w a \<noteq> operand_val w b" if h: "(a, b) \<in> set (List.map_filter kept_disequality premises)" for a b
    proof -
      obtain p where "p \<in> set premises" "kept_disequality p = Some (a, b)" using h by (auto simp: List.map_filter_def)
      then show ?thesis using assms kept_disequality_true [of w p a b] by (simp add: list_all_iff)
    qed
    ultimately have "rs_holds ?rs w" by (auto simp: rs_holds_def bounds_hold_def)
    moreover have "bt_sorted ?bounds" using merge_branches_weaker [OF branch_bound_map_sorted] by blast
    ultimately show ?thesis unfolding eq by (simp add: rs_limit_holds rs_limit_wf)
  next
    case False
    then show ?thesis by (auto simp: learn_closed_def Let_def split: list.split)
  qed
qed

lemma rs_learn_ok:
  assumes "rs_wf rs" and "rs_holds rs w" and "list_all (premise_true w) added" and "reads_words read w"
  shows "rs_wf (rs_learn added read limits rs) \<and> rs_holds (rs_learn added read limits rs) w"
proof -
  let ?rs = "rs_limit limits rs"
  let ?premises = "concat (map (normalize_premise read) (rs_premises ?rs @ added))"
  let ?variables = "sorted_list_of_set (set (concat (map premise_values ?premises)))"
  have "rs_wf ?rs" using assms(1) by (intro rs_limit_wf) (simp_all add: rs_wf_def)
  then have "list_all (premise_true w) (rs_premises ?rs @ added)"
    using rs_premises_true [OF rs_limit_holds [OF assms(2)]] assms(3) by (simp add: rs_wf_def)
  then have prem: "list_all (premise_true w) ?premises"
    using normalize_premise_true [OF assms(4)] by (auto simp: list_all_iff)
  have "list_all (premise_true w) intervals" if "option_map_list (interval_premise read) ?variables = Some intervals" for intervals
    using option_map_list_set [OF that] interval_premise_true [OF assms(4)] by (auto simp: list_all_iff)
  then have "rs_wf (learn_closed (?premises @ intervals) limits ?rs) \<and> rs_holds (learn_closed (?premises @ intervals) limits ?rs) w"
    if "option_map_list (interval_premise read) ?variables = Some intervals" for intervals
    using learn_closed_ok [of w "?premises @ intervals"] that prem by simp
  then show ?thesis unfolding rs_learn_def Let_def by (simp split: option.split)
qed

section \<open>Crossing an edge\<close>

definition word_edge :: "(vir_value_id \<times> vir_value_id) list \<Rightarrow> word_model \<Rightarrow> word_model \<Rightarrow> bool" where
  "word_edge renames w w' = (\<forall>s t. (s, t) \<in> set renames \<longrightarrow> w' t = w s)"

lemma edge_sources_elem: "(t, s) \<in> set (edge_sources renames) \<Longrightarrow> (s, t) \<in> set renames"
proof -
  have "x \<in> set (fold (\<lambda>(source, target). bt_insert target source) rs m) \<Longrightarrow>
      x \<in> set m \<or> prod.swap x \<in> set rs" for x :: "vir_value_id \<times> vir_value_id" and rs m
    by (induction rs arbitrary: m) (force dest: bt_insert_elem)+
  then show "(t, s) \<in> set (edge_sources renames) \<Longrightarrow> (s, t) \<in> set renames" by (fastforce simp: edge_sources_def)
qed

lemma edge_nodes_val:
  "word_edge renames w w' \<Longrightarrow> (t, s) \<in> set (edge_nodes (edge_sources renames)) \<Longrightarrow> end_val w' t = end_val w s"
  by (auto simp: edge_nodes_def end_val_def word_edge_def dest!: edge_sources_elem)

lemma project_bounds_ok:
  assumes "bounds_hold w (rs_bounds rs)"
    and "\<forall>t s t' s'. ((t, s), (t', s')) \<in> set pairs \<longrightarrow> end_val w' t = end_val w s \<and> end_val w' t' = end_val w s'"
    and "bounds_hold w' bounds" and "bt_sorted bounds"
  shows "bounds_hold w' (fold (project_bound rs) pairs bounds) \<and> bt_sorted (fold (project_bound rs) pairs bounds)"
  using assms(2-4)
proof (induction pairs arbitrary: bounds)
  case (Cons p pairs)
  obtain t s t' s' where p: "p = ((t, s), (t', s'))" by (metis prod.collapse)
  have v: "end_val w' t = end_val w s" "end_val w' t' = end_val w s'" using Cons.prems(1) p by auto
  have "end_val w s - end_val w s' \<le> b" if "bt_get (rs_bounds rs) (s, s') = Some b" for b
    using bt_get_in_set [OF that] assms(1) by (auto simp: bounds_hold_def)
  then have "bounds_hold w' (project_bound rs p bounds)" "bt_sorted (project_bound rs p bounds)"
    using Cons.prems(2,3) v by (auto simp: project_bound_def p intro!: bounds_hold_insert split: option.split)
  then show ?case using Cons.IH [of "project_bound rs p bounds"] Cons.prems(1) by auto
qed auto

lemma project_operand_val:
  "word_edge renames w w' \<Longrightarrow> b \<in> set (project_operand (edge_sources renames) a) \<Longrightarrow> operand_val w' b = operand_val w a"
  by (cases a) (auto simp: word_edge_def dest!: edge_sources_elem)

lemma project_pairs_ok:
  assumes "project_pairs pairs rs = (stopped, rs')" and "rs_holds rs w" and "bt_sorted (rs_bounds rs)"
    and "finite (rs_disequalities rs)" and "\<forall>a b. (a, b) \<in> set pairs \<longrightarrow> operand_val w a \<noteq> operand_val w b"
  shows "rs_holds rs' w \<and> bt_sorted (rs_bounds rs') \<and> finite (rs_disequalities rs') \<and> (stopped \<longrightarrow> rs_wf rs')"
  using assms
proof (induction pairs arbitrary: rs)
  case (Cons p pairs)
  obtain a b where p: "p = (a, b)" by force
  let ?rs = "rs\<lparr>rs_disequalities := insert (min a b, max a b) (rs_disequalities rs)\<rparr>"
  have ab: "operand_val w a \<noteq> operand_val w b" using Cons.prems(5) p by auto
  have holds: "rs_holds ?rs w" using Cons.prems(2) ab by (auto simp: rs_holds_def min_def max_def split: if_splits)
  show ?case
  proof (cases "rs_size ?rs > MAX_FACTS")
    case True
    then have "rs' = rs_forget_all LossBudget ?rs" using Cons.prems(1) by (simp add: p Let_def)
    then show ?thesis using rs_forget_all_ok(2) [of LossBudget ?rs] by (simp add: rs_wf_def)
  next
    case False
    then show ?thesis using Cons.IH [OF _ holds] Cons.prems by (auto simp: p Let_def)
  qed
qed auto

lemma rs_project_ok:
  assumes "rs_holds rs w" and "word_edge renames w w'"
  shows "rs_wf (rs_project renames rs) \<and> rs_holds (rs_project renames rs) w'"
proof -
  let ?sources = "edge_sources renames"
  let ?nodes = "edge_nodes ?sources"
  let ?start = "rs_new\<lparr>rs_losses := rs_losses rs\<rparr>"
  let ?bounded = "?start\<lparr>rs_bounds := fold (project_bound rs) (List.product ?nodes ?nodes) []\<rparr>"
  obtain stopped rs' where pairs: "project_pairs (projected_pairs ?sources rs) ?bounded = (stopped, rs')" by force
  have "bounds_hold w' (rs_bounds ?bounded) \<and> bt_sorted (rs_bounds ?bounded)"
    using project_bounds_ok [of w rs "List.product ?nodes ?nodes" w' "[]"] assms edge_nodes_val [OF assms(2)]
    by (auto simp: rs_holds_def bounds_hold_def)
  then have bounded: "rs_holds ?bounded w'" "bt_sorted (rs_bounds ?bounded)" "finite (rs_disequalities ?bounded)"
    by (simp_all add: rs_holds_def rs_new_def)
  have "operand_val w' a \<noteq> operand_val w' b" if h: "(a, b) \<in> set (projected_pairs ?sources rs)" for a b
  proof -
    have "\<exists>x y. (x, y) \<in> set (sorted_list_of_set (rs_disequalities rs)) \<and> a \<in> set (project_operand ?sources x) \<and>
        b \<in> set (project_operand ?sources y)"
      using h by (force simp: projected_pairs_def)
    then obtain x y where xy: "(x, y) \<in> rs_disequalities rs" "a \<in> set (project_operand ?sources x)" "b \<in> set (project_operand ?sources y)"
      by (cases "finite (rs_disequalities rs)") auto
    then show ?thesis using project_operand_val [OF assms(2)] assms(1) by (auto simp: rs_holds_def)
  qed
  then have paired: "rs_holds rs' w' \<and> bt_sorted (rs_bounds rs') \<and> finite (rs_disequalities rs') \<and> (stopped \<longrightarrow> rs_wf rs')"
    using project_pairs_ok [OF pairs bounded] by blast
  have losses: "rs_holds (rs'\<lparr>rs_losses := l\<rparr>) w' = rs_holds rs' w'" "rs_size (rs'\<lparr>rs_losses := l\<rparr>) = rs_size rs'" for l
    by (simp_all add: rs_holds_def rs_size_def)
  have small: "rs_wf rs' \<and> rs_wf (rs'\<lparr>rs_losses := l\<rparr>)" if "\<not> MAX_FACTS < rs_size rs'" for l
    using that paired losses(2) [of l] by (simp add: rs_wf_def)
  show ?thesis
  proof (cases "length ?nodes > 25")
    case False
    then show ?thesis using paired
      by (cases stopped) (auto simp: rs_project_def Let_def pairs losses small)
  qed (simp add: rs_project_def Let_def)
qed

lemma affine_lower_bounds_hold:
  assumes "ae_den (\<lambda>v. uint (w v)) e = uint (w v)" and "b \<in> set (affine_lower_bounds v e)"
  shows "end_val w (db_left b) - end_val w (db_right b) \<le> db_bound b"
proof -
  obtain root scale where rs: "(root, scale) \<in> set (ae_flat e)" "scale > 0"
      and b: "b = \<lparr>db_left = Some root, db_right = Some v, db_bound = - uint (ae_addend e)\<rparr>"
    using assms(2) by (auto simp: affine_lower_bounds_def)
  let ?f = "\<lambda>(vid, scale). uint scale * uint (w vid) :: int"
  have "?f (root, scale) \<le> sum_list (map ?f (ae_flat e))"
    using rs(1) by (intro member_le_sum_list) (force simp: case_prod_unfold)+
  moreover have "1 * uint (w root) \<le> uint scale * uint (w root)"
    using rs(2) by (intro mult_right_mono) (simp_all add: word_less_def)
  ultimately show ?thesis using assms(1) by (simp add: b end_val_def ae_den_def terms_sum_def)
qed

lemma add_affine_bounds_ok:
  assumes "add_affine_bounds bs rs = Some rs'" and "rs_holds rs w"
    and "\<forall>b \<in> set bs. end_val w (db_left b) - end_val w (db_right b) \<le> db_bound b"
  shows "rs_holds rs' w"
  using assms
proof (induction bs arbitrary: rs)
  case (Cons b bs)
  let ?key = "(db_left b, db_right b)"
  let ?b = "case bt_get (rs_bounds rs) ?key of Some old \<Rightarrow> min old (db_bound b) | None \<Rightarrow> db_bound b"
  have "end_val w (db_left b) - end_val w (db_right b) \<le> ?b"
    using Cons.prems(2,3) by (auto simp: rs_holds_def bounds_hold_def dest: bt_get_in_set split: option.split)
  then have "rs_holds (rs\<lparr>rs_bounds := bt_insert ?key ?b (rs_bounds rs)\<rparr>) w"
    using Cons.prems(2) by (simp add: rs_holds_def bounds_hold_insert)
  then show ?case using Cons.IH Cons.prems by (auto simp: Let_def split: if_splits)
qed simp

lemma rs_project_affine_ok:
  assumes "rs_holds rs w" and "word_edge renames w w'"
    and "\<forall>v e. (v, e) \<in> set expressions \<longrightarrow> ae_den (\<lambda>v. uint (w v)) e = uint (w v)"
  shows "rs_wf (rs_project_affine renames expressions rs) \<and> rs_holds (rs_project_affine renames expressions rs) w'"
proof (cases "add_affine_bounds (retained_bounds (fst ` set renames) expressions) rs")
  case None
  then show ?thesis using rs_project_ok [OF assms(1,2)]
    by (simp add: rs_project_affine_def Let_def rs_wf_def rs_holds_def rs_size_def)
next
  case (Some source)
  have "end_val w (db_left b) - end_val w (db_right b) \<le> db_bound b"
    if h: "b \<in> set (retained_bounds (fst ` set renames) expressions)" for b
  proof -
    obtain v e where "(v, e) \<in> set expressions" "b \<in> set (affine_lower_bounds v e)"
      using h by (auto simp: retained_bounds_def split: if_splits)
    then show ?thesis using assms(3) affine_lower_bounds_hold by blast
  qed
  then have "rs_holds source w" using add_affine_bounds_ok [OF Some assms(1)] by blast
  then show ?thesis using rs_project_ok [OF _ assms(2)] Some by (simp add: rs_project_affine_def)
qed

section \<open>Joins and widening\<close>

lemma rs_join_eq:
  assumes "rs_wf a"
  shows "rs_join a b = \<lparr>rs_bounds = common_entries (\<lambda>x y. Some (max x y)) (rs_bounds a) (rs_bounds b),
      rs_disequalities = rs_disequalities a \<inter> rs_disequalities b, rs_losses = rs_losses a \<union> rs_losses b\<rparr>"
    and "rs_wf (rs_join a b)"
proof -
  let ?j = "\<lparr>rs_bounds = common_entries (\<lambda>x y. Some (max x y)) (rs_bounds a) (rs_bounds b),
      rs_disequalities = rs_disequalities a \<inter> rs_disequalities b, rs_losses = rs_losses a \<union> rs_losses b\<rparr>"
  have a: "bt_sorted (rs_bounds a)" "finite (rs_disequalities a)" "rs_size a \<le> MAX_FACTS" using assms by (simp_all add: rs_wf_def)
  note c = common_entries_sorted [OF a(1), of "\<lambda>x y. Some (max x y)" "rs_bounds b"]
  have "card (rs_disequalities a \<inter> rs_disequalities b) \<le> card (rs_disequalities a)" using a(2) by (intro card_mono) auto
  then have size: "rs_size ?j \<le> MAX_FACTS" using c a(3) by (simp add: rs_size_def)
  then show eq: "rs_join a b = ?j" by (simp add: rs_join_def Let_def)
  show "rs_wf (rs_join a b)" unfolding eq rs_wf_def using size c a(2) by simp
qed

interpretation rsd: join_domain rs_wf rs_holds rs_join
proof
  fix a b c
  assume wf: "rs_wf a" "rs_wf b"
  show "rs_wf (rs_join a b)" by (rule rs_join_eq(2) [OF wf(1)])
  have weaker: "\<exists>v v'. ((l, r), v) \<in> set (rs_bounds a) \<and> ((l, r), v') \<in> set (rs_bounds b) \<and> x = max v v'"
    if "((l, r), x) \<in> set (rs_bounds (rs_join a b))" for l r x
    using that by (auto simp: rs_join_eq(1) [OF wf(1)] common_entries_elem dest!: bt_get_in_set)
  have "end_val c l - end_val c r \<le> x" if h: "((l, r), x) \<in> set (rs_bounds (rs_join a b))"
      and "bounds_hold c (rs_bounds a) \<or> bounds_hold c (rs_bounds b)" for l r x
    using weaker [OF h] that(2) unfolding bounds_hold_def by (metis max.coboundedI1 max.coboundedI2)
  then show "rs_holds a c \<Longrightarrow> rs_holds (rs_join a b) c" "rs_holds b c \<Longrightarrow> rs_holds (rs_join a b) c"
    unfolding rs_holds_def bounds_hold_def [of _ "rs_bounds (rs_join a b)"] by (auto simp: rs_join_eq(1) [OF wf(1)])
qed

lemma stable_bounds_filter:
  assumes "\<forall>k v. (k, v) \<in> set m \<longrightarrow> bt_get (rs_bounds a) k = Some v"
  shows "filter (stable_bound a) (common_entries (\<lambda>x y. Some (max x y)) m n) =
    filter (\<lambda>(k, v). \<exists>w. bt_get n k = Some w \<and> w \<le> v) m"
  using assms
proof (induction m)
  case (Cons e m)
  obtain k v where e: "e = (k, v)" by (cases e) blast
  have head: "bt_get (rs_bounds a) k = Some v" using Cons.prems unfolding e by (meson list.set_intros(1))
  have "\<forall>k v. (k, v) \<in> set m \<longrightarrow> bt_get (rs_bounds a) k = Some v" using Cons.prems by (meson list.set_intros(2))
  note IH = Cons.IH [OF this]
  show ?case
  proof (cases "bt_get n k")
    case None
    then have "common_entries (\<lambda>x y. Some (max x y)) (e # m) n = common_entries (\<lambda>x y. Some (max x y)) m n"
      by (simp add: e common_entries_def List.map_filter_simps)
    then show ?thesis using IH None by (simp add: e)
  next
    case (Some w)
    then have "common_entries (\<lambda>x y. Some (max x y)) (e # m) n = (k, max v w) # common_entries (\<lambda>x y. Some (max x y)) m n"
      by (simp add: e common_entries_def List.map_filter_simps)
    moreover have "stable_bound a (k, max v w) \<longleftrightarrow> w \<le> v" using head by (simp add: stable_bound_def)
    ultimately show ?thesis using IH Some by (simp add: e max_absorb1)
  qed
qed (simp add: common_entries_def List.map_filter_simps)

text \<open>Every index into the bounds of the left state that the widening makes is in range.\<close>

lemma widen_index_in_range:
  assumes "rs_wf a" and "e \<in> set (rs_bounds (rs_join a b))"
  shows "\<exists>old. bt_get (rs_bounds a) (fst e) = Some old"
proof -
  have sorted: "bt_sorted (rs_bounds a)" using assms(1) by (simp add: rs_wf_def)
  then have "fst e \<in> fst ` set (rs_bounds a)"
    using common_entries_sorted [OF sorted] assms(2) unfolding rs_join_eq(1) [OF assms(1)] by fastforce
  then show ?thesis using bt_get_mem [OF sorted] by fastforce
qed

lemma rs_widen_cases:
  assumes "rs_wf a"
  obtains p where "rs_bounds (rs_widen a b) = filter p (rs_bounds a)"
    and "rs_disequalities (rs_widen a b) = rs_disequalities a \<inter> rs_disequalities b"
    and "rs_losses (rs_widen a b) \<supseteq> rs_losses a"
    and "rs_bounds (rs_widen a b) \<noteq> rs_bounds a \<or> rs_disequalities (rs_widen a b) \<noteq> rs_disequalities a \<longrightarrow>
      LossWidening \<in> rs_losses (rs_widen a b)"
proof -
  have "\<forall>k v. (k, v) \<in> set (rs_bounds a) \<longrightarrow> bt_get (rs_bounds a) k = Some v"
    using assms by (simp add: rs_wf_def bt_get_mem)
  note f = stable_bounds_filter [OF this, of "rs_bounds b"]
  show thesis
    by (rule that [of "\<lambda>(k, v). \<exists>w. bt_get (rs_bounds b) k = Some w \<and> w \<le> v"])
      (auto simp: rs_widen_def Let_def rs_join_eq(1) [OF assms] f)
qed

lemma rs_widen_ok:
  assumes "rs_wf a" and "rs_wf b"
  shows "rs_wf (rs_widen a b)" and "rs_holds a w \<or> rs_holds b w \<Longrightarrow> rs_holds (rs_widen a b) w"
proof -
  obtain p where p: "rs_bounds (rs_widen a b) = filter p (rs_bounds a)"
      "rs_disequalities (rs_widen a b) = rs_disequalities a \<inter> rs_disequalities b"
    by (rule rs_widen_cases [OF assms(1)])
  have "card (rs_disequalities a \<inter> rs_disequalities b) \<le> card (rs_disequalities a)"
    using assms(1) by (intro card_mono) (auto simp: rs_wf_def)
  moreover have "length (filter p (rs_bounds a)) \<le> length (rs_bounds a)" by simp
  ultimately have "rs_size (rs_widen a b) \<le> rs_size a" unfolding rs_size_def p by linarith
  then show "rs_wf (rs_widen a b)" using assms(1) p by (simp add: rs_wf_def)
  have "rs_bounds (rs_widen a b) = filter (stable_bound a) (rs_bounds (rs_join a b))"
      "rs_disequalities (rs_widen a b) = rs_disequalities (rs_join a b)"
    by (simp_all add: rs_widen_def Let_def)
  then show "rs_holds a w \<or> rs_holds b w \<Longrightarrow> rs_holds (rs_widen a b) w"
    using rsd.join_left [OF assms, of w] rsd.join_right [OF assms, of w]
    unfolding rs_holds_def [of "rs_widen a b"] rs_holds_def [of "rs_join a b"] bounds_hold_def by (metis filter_is_subset subsetD)
qed

lemma losses_card: "card (losses :: relation_precision_loss set) \<le> 4" "finite (losses :: relation_precision_loss set)"
proof -
  have all: "(UNIV :: relation_precision_loss set) = set [LossBudget, LossProjection, LossWidening, LossInconsistent]"
    by (auto intro: relation_precision_loss.exhaust)
  then have "finite (UNIV :: relation_precision_loss set)" by (metis List.finite_set)
  then show "finite losses" by (rule rev_finite_subset) simp
  have "card losses \<le> card (UNIV :: relation_precision_loss set)" by (rule card_mono [OF \<open>finite UNIV\<close> subset_UNIV])
  also have "\<dots> \<le> 4" unfolding all by (rule order_trans [OF card_length]) simp
  finally show "card losses \<le> 4" .
qed

lemma rs_widen_progress:
  assumes "rs_wf a" and "rs_widen a b \<noteq> a"
  shows "rs_height (rs_widen a b) < rs_height a"
proof -
  let ?w = "rs_widen a b"
  obtain p where p: "rs_bounds ?w = filter p (rs_bounds a)" "rs_disequalities ?w = rs_disequalities a \<inter> rs_disequalities b"
      "rs_losses a \<subseteq> rs_losses ?w"
    by (rule rs_widen_cases [OF assms(1)])
  have fin: "finite (rs_disequalities a)" using assms(1) by (simp add: rs_wf_def)
  have le: "length (rs_bounds ?w) \<le> length (rs_bounds a)" "card (rs_disequalities ?w) \<le> card (rs_disequalities a)"
      "card (rs_losses a) \<le> card (rs_losses ?w)"
    using p fin by (auto intro!: card_mono losses_card)
  consider "rs_bounds ?w \<noteq> rs_bounds a" | "rs_disequalities ?w \<noteq> rs_disequalities a" | "rs_losses a \<noteq> rs_losses ?w"
    using assms(2) by (metis relation_state.equality old.unit.exhaust)
  then show ?thesis
  proof cases
    case 1
    then have "length (rs_bounds ?w) < length (rs_bounds a)"
      unfolding p(1) by (metis filter_True length_filter_less)
    then show ?thesis using le losses_card(1) [of "rs_losses ?w"] by (simp add: rs_height_def rs_size_def)
  next
    case 2
    then have "card (rs_disequalities ?w) < card (rs_disequalities a)" using p(2) fin by (intro psubset_card_mono) auto
    then show ?thesis using le losses_card(1) [of "rs_losses ?w"] by (simp add: rs_height_def rs_size_def)
  next
    case 3
    then have "card (rs_losses a) < card (rs_losses ?w)" using p(3) by (intro psubset_card_mono losses_card) auto
    then show ?thesis using le losses_card(1) [of "rs_losses ?w"] by (simp add: rs_height_def rs_size_def)
  qed
qed

section \<open>Branches and refinements\<close>

lemma branch_term_val:
  "reads_words read w \<Longrightarrow> branch_term read v = Some t \<Longrightarrow> term_val w t = uint (w v)"
  using iv_exact_valueD by (fastforce simp: branch_term_def reads_words_def word_reading_Some relation_word_def split: option.splits)

lemma premise_comparison_true:
  "term_val w l = uint x \<Longrightarrow> term_val w r = uint y \<Longrightarrow> premise_true w (premise_comparison p l r) = predicate_true p x y"
  by (cases p) (auto simp: word_le_def word_less_def word_uint_eq_iff)

lemma comparison_premise_true:
  assumes "reads_words read (pr_words c)" and "comparison_premise read f = Some p"
  shows "premise_true (pr_words c) p = fact_true c f"
  using assms(2)
  by (cases f) (auto simp: Option.bind_eq_Some_conv branch_term_val [OF assms(1)]
      premise_comparison_true [of "pr_words c" _ "pr_words c (_ :: nat)" _ "pr_words c (_ :: nat)"])

lemma bound_refinement_holds:
  assumes "bound_refinement b = Some (v, i)" and "end_val w (db_left b) - end_val w (db_right b) \<le> db_bound b"
  shows "iv_contains i (w v)"
proof (cases "db_left b")
  case None
  then obtain l n where "db_right b = Some v" "i128_checked_neg (db_bound b) = Some n" "u64_try_from n = Some l"
      "i = \<lparr>iv_lower = l, iv_upper = u64_MAX\<rparr>"
    using assms(1) by (auto simp: Option.bind_eq_Some_conv split: option.splits)
  moreover from this have "uint l = - db_bound b" by (auto dest!: checked_arith)
  ultimately show ?thesis using assms(2) None by (simp add: end_val_def iv_contains_def word_le_def [of l])
next
  case (Some v')
  then obtain u where "db_right b = None" "v' = v" "u64_try_from (db_bound b) = Some u" "i = \<lparr>iv_lower = 0, iv_upper = u\<rparr>"
    using assms(1) by (auto split: option.splits)
  then show ?thesis using assms(2) Some by (simp add: end_val_def iv_contains_def word_le_def [of _ u] u64_try_from_Some)
qed

section \<open>Reachable states\<close>

inductive rs_step :: "relation_state \<times> word_model \<Rightarrow> relation_state \<times> word_model \<Rightarrow> bool" where
  learn: "list_all (premise_true w) added \<Longrightarrow> reads_words read w \<Longrightarrow> rs_step (rs, w) (rs_learn added read limits rs, w)"
| branch: "comparison_premise read f = Some p \<Longrightarrow> fact_true \<lparr>pr_words = w, pr_bools = bs\<rparr> f \<Longrightarrow> reads_words read w \<Longrightarrow>
    rs_step (rs, w) (rs_learn [p] read limits rs, w)"
| assign: "rs_step (rs, w) (rs_forget_value v rs, w(v := x))"
| limit: "rs_step (rs, w) (rs_limit limits rs, w)"
| edge: "word_edge renames w w' \<Longrightarrow>
    \<forall>v e. (v, e) \<in> set expressions \<longrightarrow> ae_den (\<lambda>v. uint (w v)) e = uint (w v) \<Longrightarrow>
    rs_step (rs, w) (rs_project_affine renames expressions rs, w')"
| join: "rs_wf other \<Longrightarrow> rs_step (rs, w) (rs_join rs other, w)"
| join_other: "rs_wf other \<Longrightarrow> rs_step (rs, w) (rs_join other rs, w)"
| widen: "rs_wf other \<Longrightarrow> rs_step (rs, w) (rs_widen rs other, w)"
| widen_other: "rs_wf other \<Longrightarrow> rs_step (rs, w) (rs_widen other rs, w)"

lemma rs_step_ok:
  assumes "rs_step s s'" and "rs_wf (fst s) \<and> rs_holds (fst s) (snd s)"
  shows "rs_wf (fst s') \<and> rs_holds (fst s') (snd s')"
  using assms
proof cases
  case (branch read f p w bs rs limits)
  then have "list_all (premise_true w) [p]"
    using comparison_premise_true [of read "\<lparr>pr_words = w, pr_bools = bs\<rparr>" f p] by simp
  then show ?thesis using branch assms(2) rs_learn_ok [of rs w "[p]" read limits] by simp
next
  case (limit rs w limits)
  then show ?thesis using assms(2) rs_limit_holds rs_limit_wf by (simp add: rs_wf_def)
qed (use assms(2) in \<open>auto simp: rs_learn_ok rs_forget_value_ok rs_project_affine_ok rs_widen_ok
    intro: rsd.join_wf rsd.join_left rsd.join_right\<close>)

lemma rs_new_ok: "rs_wf rs_new \<and> rs_holds rs_new w"
  by (simp add: rs_new_def rs_wf_def rs_holds_def bounds_hold_def rs_size_def MAX_FACTS_def)

lemma rs_steps_ok:
  assumes "rs_step\<^sup>*\<^sup>* (rs_new, w\<^sub>0) (rs, w)"
  shows "rs_wf rs \<and> rs_holds rs w"
proof -
  have "rs_wf (fst s) \<and> rs_holds (fst s) (snd s)" if "rs_step\<^sup>*\<^sup>* (rs_new, w\<^sub>0) s" for s
    using that by (induction rule: rtranclp_induct) (simp_all add: rs_new_ok rs_step_ok)
  from this [OF assms] show ?thesis by simp
qed

section \<open>Properties\<close>

text \<open>C7: The numeric relations of a resource case never lie. After any sequence of learning, branching,
  assignments, limits, control-flow edges with swaps and duplicate arguments, joins and widenings, the state
  has at most 64 facts, the difference solver proves from them only goals that are true of the current words,
  and every interval a bound gives to a word contains it. Exhausted budgets and contradictory premises drop
  facts and never invent one.\<close>

theorem relations_never_lie:
  assumes "rs_step\<^sup>*\<^sup>* (rs_new, w\<^sub>0) (rs, w)"
  shows "rs_size rs \<le> 64 \<and>
    (de_status (solve_difference (rs_premises rs) goal limits) = Proven \<longrightarrow> goal_true w goal) \<and>
    (\<forall>b v i. b \<in> set (rs_bound_list rs) \<longrightarrow> bound_refinement b = Some (v, i) \<longrightarrow> iv_contains i (w v))"
proof -
  have ok: "rs_wf rs" "rs_holds rs w" using rs_steps_ok [OF assms] by auto
  then have "list_all (premise_true w) (rs_premises rs)" using rs_premises_true by (simp add: rs_wf_def)
  then have "de_status (solve_difference (rs_premises rs) goal limits) = Proven \<longrightarrow> goal_true w goal"
    using solve_difference_verdict by blast
  moreover have "iv_contains i (w v)" if "b \<in> set (rs_bound_list rs)" "bound_refinement b = Some (v, i)" for b v i
    using bound_refinement_holds [OF that(2), of w] that(1) ok(2)
    by (auto simp: rs_bound_list_def rs_holds_def bounds_hold_def)
  ultimately show ?thesis using ok(1) by (simp add: rs_wf_def MAX_FACTS_def)
qed

definition counter_reads :: "vir_value_id \<Rightarrow> abstract_value option" where
  "counter_reads v = (if v = 0 \<or> v = 1 then Some (AVU64 \<lparr>iv_lower = 0, iv_upper = 5\<rparr>) else None)"

definition counter_limits :: difference_limits where
  "counter_limits = \<lparr>max_variables = 4, max_constraints = 16, max_steps = 200, max_derivations = 60, max_branches = 2\<rparr>"

definition counter_learnt :: relation_state where
  "counter_learnt = rs_learn [PCompare LessThan (relation_word 0) (relation_word 1)] counter_reads counter_limits rs_new"

definition counter_state :: relation_state where
  "counter_state = rs_project_affine [(0, 7), (1, 8)] [] counter_learnt"

definition counter_goal :: "vir_memory_access difference_goal" where
  "counter_goal = \<lparr>dg_comparison = LessThan, dg_left = relation_word 7, dg_right = relation_word 8\<rparr>"

lemma counter_learnt_eq:
  "counter_learnt = \<lparr>rs_bounds = [((None, Some 1), - 1), ((Some 0, None), 4), ((Some 0, Some 1), - 1), ((Some 1, None), 5),
     ((Some 1, Some 0), 5)], rs_disequalities = {}, rs_losses = {}\<rparr>"
proof -
  let ?p = "[PCompare LessThan (relation_word 0) (relation_word 1)] :: vir_memory_access difference_premise list"
  let ?i = "[PInterval 0 \<lparr>iv_lower = 0, iv_upper = 5\<rparr>, PInterval 1 \<lparr>iv_lower = 0, iv_upper = 5\<rparr>]
    :: vir_memory_access difference_premise list"
  have limit: "rs_limit counter_limits rs_new = rs_new" by code_simp
  have norm: "concat (map (normalize_premise counter_reads) (rs_premises rs_new @ ?p)) = ?p" by code_simp
  have vars: "sorted_list_of_set (set (concat (map premise_values ?p))) = [0, 1]" by code_simp
  have ints: "option_map_list (interval_premise counter_reads) [0, 1] = Some ?i" by code_simp
  have small: "\<not> (length [0, 1 :: nat] > max_variables counter_limits \<or>
      length ?p + length [0, 1 :: nat] > max_constraints counter_limits)"
    by (simp add: counter_limits_def)
  have "counter_learnt = learn_closed (?p @ ?i) counter_limits rs_new"
    unfolding counter_learnt_def rs_learn_def Let_def limit norm vars ints if_not_P [OF small] option.case ..
  also have "\<dots> = \<lparr>rs_bounds = [((None, Some 1), - 1), ((Some 0, None), 4), ((Some 0, Some 1), - 1), ((Some 1, None), 5),
        ((Some 1, Some 0), 5)], rs_disequalities = {}, rs_losses = {}\<rparr>"
    by code_simp
  finally show ?thesis .
qed

lemma counter_state_eq:
  "counter_state = \<lparr>rs_bounds = [((None, Some 8), - 1), ((Some 7, None), 4), ((Some 7, Some 8), - 1), ((Some 8, None), 5),
     ((Some 8, Some 7), 5)], rs_disequalities = {}, rs_losses = {}\<rparr>"
  unfolding counter_state_def counter_learnt_eq by code_simp

theorem relations_never_lie_witness:
  "de_status (solve_difference (rs_premises counter_state) counter_goal counter_limits) = Proven \<and>
   goal_true (\<lambda>v. if v = 8 then 4 else 3) counter_goal"
proof -
  let ?w = "\<lambda>v :: vir_value_id. if v = 1 then 4 else 3 :: u64"
  let ?w' = "\<lambda>v :: vir_value_id. if v = 8 then 4 else 3 :: u64"
  have "rs_step (rs_new, ?w) (counter_learnt, ?w)"
    unfolding counter_learnt_def by (intro rs_step.learn) (auto simp: relation_word_def reads_words_def counter_reads_def iv_contains_def)
  moreover have "rs_step (counter_learnt, ?w) (counter_state, ?w')"
    unfolding counter_state_def by (intro rs_step.edge) (auto simp: word_edge_def)
  ultimately have "rs_step\<^sup>*\<^sup>* (rs_new, ?w) (counter_state, ?w')"
    by (rule converse_rtranclp_into_rtranclp [OF _ r_into_rtranclp])
  moreover have "de_status (solve_difference (rs_premises counter_state) counter_goal counter_limits) = Proven"
    unfolding counter_state_eq by code_simp
  ultimately show ?thesis using relations_never_lie [of ?w counter_state ?w' counter_goal counter_limits] by simp
qed

text \<open>C35: Widening the relations terminates at every loop head. A widening that changes a state of bounded
  size lowers its height, the number of facts plus the number of losses not yet recorded, and the height is at
  most 68; the widened state holds wherever either side holds.\<close>

theorem relation_widening_terminates:
  assumes "rs_wf a" and "rs_wf b"
  shows "(rs_widen a b \<noteq> a \<longrightarrow> rs_height (rs_widen a b) < rs_height a) \<and> rs_height a \<le> 68 \<and>
    (\<forall>w. rs_holds a w \<or> rs_holds b w \<longrightarrow> rs_holds (rs_widen a b) w)"
  using rs_widen_progress [OF assms(1)] rs_widen_ok(2) [OF assms] assms(1) by (auto simp: rs_height_def rs_wf_def MAX_FACTS_def)

theorem relation_widening_terminates_witness:
  "let a = \<lparr>rs_bounds = [((None, Some 1), - 2), ((Some 1, None), 5)], rs_disequalities = {}, rs_losses = {}\<rparr>;
       b = \<lparr>rs_bounds = [((None, Some 1), - 2), ((Some 1, None), 6)], rs_disequalities = {}, rs_losses = {}\<rparr>
   in rs_widen a b = \<lparr>rs_bounds = [((None, Some 1), - 2)], rs_disequalities = {}, rs_losses = {LossWidening}\<rparr> \<and>
      rs_height (rs_widen a b) < rs_height a \<and> rs_holds (rs_widen a b) (\<lambda>_. 6)"
proof -
  let ?a = "\<lparr>rs_bounds = [((None, Some 1), - 2), ((Some 1, None), 5)], rs_disequalities = {}, rs_losses = {}\<rparr>"
  let ?b = "\<lparr>rs_bounds = [((None, Some 1), - 2), ((Some 1, None), 6)], rs_disequalities = {}, rs_losses = {}\<rparr>"
  have wf: "rs_wf ?a" "rs_wf ?b" by (simp_all add: rs_wf_def rs_size_def MAX_FACTS_def bt_sorted_def)
  have widen: "rs_widen ?a ?b = \<lparr>rs_bounds = [((None, Some 1), - 2)], rs_disequalities = {}, rs_losses = {LossWidening}\<rparr>"
    by code_simp
  have "rs_holds ?b (\<lambda>_. 6)" by (auto simp: rs_holds_def bounds_hold_def end_val_def)
  then show ?thesis using relation_widening_terminates [OF wf] widen by (simp add: Let_def)
qed

end
