(* ===== verification/Resource_Machine.thy ===== *)
theory Resource_Machine
  imports Resource_State Relation_Sound Allocation_Steps
begin

text \<open>
  What a resource state says of a machine. A machine has typed values, the allocations and loans the identities of
  the state denote, and the values of the historical names; \<open>st_holds\<close> relates the two and \<open>st_ok\<close> is the
  invariant of the states themselves. The joins of value facts keep the latter.
\<close>

section \<open>Maps with well-formed entries\<close>

definition entries_wf :: "('v \<Rightarrow> bool) \<Rightarrow> ('k::linorder, 'v) btmap \<Rightarrow> bool" where
  "entries_wf P m = (bt_sorted m \<and> (\<forall>k v. (k, v) \<in> set m \<longrightarrow> P v))"

lemma entries_wf_Nil [simp]: "entries_wf P []"
  by (simp add: entries_wf_def)

lemma entries_wf_sorted: "entries_wf P m \<Longrightarrow> bt_sorted m"
  by (simp add: entries_wf_def)

lemma entries_wf_get: "entries_wf P m \<Longrightarrow> bt_get m k = Some v \<Longrightarrow> P v"
  using bt_get_in_set [of m k v] by (auto simp: entries_wf_def)

lemma entries_wf_insert: "entries_wf P m \<Longrightarrow> P v \<Longrightarrow> entries_wf P (bt_insert k v m)"
  unfolding entries_wf_def by (metis bt_insert_elem bt_sorted_insert prod.inject)

lemma entries_wf_filter: "entries_wf P m \<Longrightarrow> entries_wf P (filter q m)"
  by (auto simp: entries_wf_def)

lemma map_entries_keys: "map fst (map_entries f m) = map fst m"
  by (simp add: map_entries_def case_prod_unfold comp_def)

lemma map_entries_sorted [simp]: "bt_sorted (map_entries f m) = bt_sorted m"
  unfolding bt_sorted_def map_entries_keys ..

lemma map_entries_get: "bt_get (map_entries f m) k = map_option f (bt_get m k)"
  by (induction m k rule: bt_get.induct) (auto simp: map_entries_def)

lemma map_entries_length [simp]: "length (map_entries f m) = length m"
  by (simp add: map_entries_def)

lemma entries_wf_map: "entries_wf P m \<Longrightarrow> (\<And>v. P v \<Longrightarrow> Q (f v)) \<Longrightarrow> entries_wf Q (map_entries f m)"
  by (auto simp: entries_wf_def) (auto simp: map_entries_def)

lemma filter_get:
  assumes "bt_sorted m"
  shows "bt_get (filter (\<lambda>(k, v). q k v) m) j = (case bt_get m j of Some v \<Rightarrow> if q j v then Some v else None | None \<Rightarrow> None)"
proof -
  have sorted: "bt_sorted (filter (\<lambda>(k, v). q k v) m)" using assms by simp
  have "bt_get (filter (\<lambda>(k, v). q k v) m) j = Some v \<longleftrightarrow> bt_get m j = Some v \<and> q j v" for v
    by (auto simp: bt_get_mem [OF sorted] bt_get_mem [OF assms])
  note found = this
  show ?thesis
  proof (cases "bt_get (filter (\<lambda>(k, v). q k v) m) j")
    case None
    then have "\<not> q j v" if "bt_get m j = Some v" for v using found [of v] that by simp
    then show ?thesis using None by (cases "bt_get m j") simp_all
  next
    case (Some v)
    then show ?thesis using found [of v] by simp
  qed
qed

lemma filter_get_Some: "bt_sorted m \<Longrightarrow> bt_get (filter q m) j = Some v \<Longrightarrow> bt_get m j = Some v"
  using bt_get_in_set [of "filter q m" j v] by (auto simp: bt_get_mem)

lemma insert_get: "bt_sorted m \<Longrightarrow> bt_get (bt_insert k v m) j = (if j = k then Some v else bt_get m j)"
  by (auto simp: bt_get_insert_other)

lemma update_entry_wf: "entries_wf P m \<Longrightarrow> (\<And>v. bt_get m k = Some v \<Longrightarrow> P (f v)) \<Longrightarrow> entries_wf P (update_entry k f m)"
  by (auto simp: update_entry_def entries_wf_insert split: option.split)

lemma update_entry_get:
  "bt_sorted m \<Longrightarrow> bt_get (update_entry k f m) j = (if j = k then map_option f (bt_get m k) else bt_get m j)"
  by (auto simp: update_entry_def insert_get split: option.split)

lemma shared_entries_get:
  "bt_sorted m \<Longrightarrow> bt_get (shared_entries m n) k = Some v \<longleftrightarrow> bt_get m k = Some v \<and> bt_get n k = Some v"
  unfolding shared_entries_def by (subst filter_get) (auto split: option.splits)

section \<open>Machines\<close>

record machine =
  mc_values :: "vir_value_id \<Rightarrow> runtime_value"
  mc_allocations :: "abstract_allocation_id \<Rightarrow> allocation_run"
  mc_loans :: "u32 \<Rightarrow> loan_state"
  mc_history :: history
  mc_bool_history :: "bool_origin \<Rightarrow> bool"

text \<open>The coordinate a symbolic expression reads at a value: a word is itself, a pointer is its offset in its allocation.\<close>

fun word_of :: "runtime_value \<Rightarrow> u64" where
  "word_of (RVWord v tag) = v"
| "word_of (RVPointer p) = cp_offset p"
| "word_of _ = 0"

fun bool_of :: "runtime_value \<Rightarrow> bool" where
  "bool_of (RVBool b) = b"
| "bool_of _ = False"

definition mc_word :: "machine \<Rightarrow> vir_value_id \<Rightarrow> u64" where
  "mc_word c v = word_of (mc_values c v)"

definition mc_bool :: "machine \<Rightarrow> vir_value_id \<Rightarrow> bool" where
  "mc_bool c v = bool_of (mc_values c v)"

definition mc_env :: "machine \<Rightarrow> vir_value_id \<Rightarrow> int" where
  "mc_env c v = uint (mc_word c v)"

definition mc_path :: "machine \<Rightarrow> path_run" where
  "mc_path c = \<lparr>pr_words = mc_word c, pr_bools = mc_bool c\<rparr>"

text \<open>Every symbolic bound is read in the environment of the current words.\<close>

definition payload_env :: "(vir_value_id \<Rightarrow> int) \<Rightarrow> object_contents \<Rightarrow> bool" where
  "payload_env \<rho> ob = (\<forall>key ptr perm. oc_payload ob key = Some (ptr, perm) \<longrightarrow> cp_env ptr = \<rho> \<and> cm_env perm = \<rho>)"

definition machine_wf :: "machine \<Rightarrow> bool" where
  "machine_wf c =
     ((\<forall>v. reads_env (mc_env c) (mc_values c v)) \<and>
      (\<forall>aid. ar_env (mc_allocations c aid) = mc_env c \<and> payload_env (mc_env c) (ar_objects (mc_allocations c aid))) \<and>
      (\<forall>l. cl_env (mc_loans c l) = mc_env c))"

definition cell_histories :: "abstract_allocation \<Rightarrow> allocation_run \<Rightarrow> machine \<Rightarrow> bool" where
  "cell_histories a r c =
     ((\<forall>k s. (k, s) \<in> set (sc_word_origins (aa_scalar_contents a)) \<longrightarrow>
         (\<exists>v. ar_cells r k = SWord v \<and> origin_val (mc_history c) s = uint v)) \<and>
      (\<forall>k s. (k, s) \<in> set (sc_bool_origins (aa_scalar_contents a)) \<longrightarrow> ar_cells r k = SBool (mc_bool_history c s)))"

text \<open>An identity without an entry is not a live owner, and the contents of an allocation are claimed
  only while it is definitely live.\<close>

definition alloc_means :: "abstract_allocation option \<Rightarrow> allocation_run \<Rightarrow> machine \<Rightarrow> bool" where
  "alloc_means entry r c =
     (case entry of
        None \<Rightarrow> \<not> (ar_live r \<and> ar_owned r)
      | Some a \<Rightarrow> live_holds (aa_liveness a) (ar_live r) \<and> own_holds (aa_ownership a) (ar_owned r) \<and>
          (aa_liveness a = Live \<longrightarrow> aa_holds a r \<and> cell_histories a r c))"

definition loan_means :: "abstract_loan option \<Rightarrow> loan_state \<Rightarrow> bool" where
  "loan_means entry s =
     (case entry of
        None \<Rightarrow> cl_activity s = LoanEnded
      | Some l \<Rightarrow> loan_activity_holds (al_activity l) (cl_activity s) \<and> (cl_activity s \<noteq> LoanEnded \<longrightarrow> loan_holds l s))"

definition st_holds :: "('d, 'l, 's) resource_state \<Rightarrow> machine \<Rightarrow> bool" where
  "st_holds st c =
     (pc_holds (st_path st) (mc_path c) \<and> rs_holds (st_relations st) (mc_word c) \<and>
      (\<forall>v x. bt_get (st_values st) v = Some x \<longrightarrow> aval_holds x (mc_values c v)) \<and>
      (\<forall>v e. bt_get (st_word_expressions st) v = Some e \<longrightarrow> ae_den (mc_env c) e = mc_env c v) \<and>
      (\<forall>v s. bt_get (st_word_origins st) v = Some s \<longrightarrow> origin_val (mc_history c) s = mc_env c v) \<and>
      (\<forall>v s. bt_get (st_bool_origins st) v = Some s \<longrightarrow> mc_bool_history c s = mc_bool c v) \<and>
      (\<forall>aid. alloc_means (bt_get (st_allocations st) aid) (mc_allocations c aid) c) \<and>
      (\<forall>l. loan_means (bt_get (st_loans st) l) (mc_loans c l)))"

section \<open>Well-formed states\<close>

text \<open>The footprint of a slice names the allocation its pointer names.\<close>

definition ptr_linked :: "abstract_pointer \<Rightarrow> bool" where
  "ptr_linked p = (case ap_slice_footprint p of None \<Rightarrow> True | Some f \<Rightarrow> fp_provenance f = ap_provenance p)"

definition ptr_ok :: "abstract_pointer \<Rightarrow> bool" where
  "ptr_ok p = (ptr_wf p \<and> ptr_exprs_wf p \<and> ptr_linked p)"

fun aval_ok :: "abstract_value \<Rightarrow> bool" where
  "aval_ok (AVPointer p) = ptr_ok p"
| "aval_ok (AVPermission p) = range_exprs_wf (perm_range p)"
| "aval_ok (AVEnumDiscriminant f) = (iv_wf (ed_interval f) \<and> ptr_ok (ed_pointer f))"
| "aval_ok (AVU64 i) = iv_wf i"
| "aval_ok (AVBool b) = True"

fun payload_ok :: "move_path_state \<Rightarrow> bool" where
  "payload_ok (PathAvailable p) = (ptr_ok (tp_pointer p) \<and> range_exprs_wf (perm_range (tp_permission p)))"
| "payload_ok _ = True"

definition alloc_ok :: "abstract_allocation \<Rightarrow> bool" where
  "alloc_ok a =
     (aa_wf a \<and> (aa_liveness a \<noteq> Live \<longrightarrow> aa_prefixes a = []) \<and>
      (\<forall>k s. (k, s) \<in> set (os_resource_payloads (aa_object_state a)) \<longrightarrow> payload_ok s))"

definition loan_ok :: "abstract_loan \<Rightarrow> bool" where
  "loan_ok l =
     (case al_footprint l of None \<Rightarrow> True | Some f \<Rightarrow> range_exprs_wf (fp_range f) \<and> fp_provenance f = al_provenance l)"

definition st_ok :: "('d, 'l, 's) resource_state \<Rightarrow> bool" where
  "st_ok st =
     (rs_wf (st_relations st) \<and> finite (case st_path st of Reachable facts \<Rightarrow> facts | Unreachable \<Rightarrow> {}) \<and>
      entries_wf aval_ok (st_values st) \<and> entries_wf ae_wf (st_word_expressions st) \<and>
      entries_wf alloc_ok (st_allocations st) \<and> entries_wf loan_ok (st_loans st) \<and>
      bt_sorted (st_word_origins st) \<and> bt_sorted (st_bool_origins st))"

lemma st_ok_entry:
  assumes "st_ok st"
  shows "bt_get (st_values st) v = Some x \<Longrightarrow> aval_ok x" and "bt_get (st_word_expressions st) v = Some e \<Longrightarrow> ae_wf e"
    and "bt_get (st_allocations st) aid = Some a \<Longrightarrow> alloc_ok a" and "bt_get (st_loans st) loan = Some l \<Longrightarrow> loan_ok l"
  using assms entries_wf_get [of aval_ok "st_values st"] entries_wf_get [of ae_wf "st_word_expressions st"]
    entries_wf_get [of alloc_ok "st_allocations st"] entries_wf_get [of loan_ok "st_loans st"]
  by (auto simp: st_ok_def)

lemma st_ok_sorted:
  assumes "st_ok st"
  shows "bt_sorted (st_values st)" and "bt_sorted (st_word_expressions st)" and "bt_sorted (st_allocations st)"
    and "bt_sorted (st_loans st)" and "bt_sorted (st_word_origins st)" and "bt_sorted (st_bool_origins st)"
  using assms by (simp_all add: st_ok_def entries_wf_def)

lemma aval_ok_wf: "aval_ok v \<Longrightarrow> aval_wf v \<and> aval_exprs_wf v"
  by (cases v) (auto simp: ptr_ok_def)

lemma alloc_ok_wf: "alloc_ok a \<Longrightarrow> aa_wf a"
  by (simp add: alloc_ok_def)

lemma option_join_cases: "option_join a b = None \<or> option_join a b = a"
  by (auto simp: option_join_def)

lemma slice_join_Some:
  assumes "slice_join f g = Some h"
  obtains x y where "f = Some x" and "g = Some y" and "fp_provenance h = prov_join (fp_provenance x) (fp_provenance y)"
    and "fp_range h = abr_join (fp_range x) (fp_range y)"
  using assms by (auto simp: slice_join_def fp_join_def split: option.splits if_splits)

lemma range_exprs_join: "range_exprs_wf r \<Longrightarrow> range_exprs_wf (abr_join r s)"
  by (auto simp: abrf.join_flat)

lemma domain_exprs_join:
  "(case d of PDRestricted r \<Rightarrow> range_exprs_wf r | _ \<Rightarrow> True) \<Longrightarrow>
    (case pd_join d e of PDRestricted r \<Rightarrow> range_exprs_wf r | _ \<Rightarrow> True)"
  by (auto simp: pd_join_def)

lemma ptr_exprs_merge:
  assumes "ptr_exprs_wf a" and "ptr_exprs_wf b" and "ptr_linked a" and "ptr_linked b"
  shows "ptr_exprs_wf (ap_join a b) \<and> ptr_linked (ap_join a b)" and "ptr_exprs_wf (ap_widen a b) \<and> ptr_linked (ap_widen a b)"
proof -
  have offset: "case option_join (ap_offset_expression a) (ap_offset_expression b) of None \<Rightarrow> True | Some e \<Rightarrow> ae_wf e"
    using assms(1) option_join_cases [of "ap_offset_expression a" "ap_offset_expression b"] by (auto simp: ptr_exprs_wf_def)
  have slice: "case slice_join (ap_slice_footprint a) (ap_slice_footprint b) of None \<Rightarrow> True
      | Some f \<Rightarrow> range_exprs_wf (fp_range f) \<and> fp_provenance f = prov_join (ap_provenance a) (ap_provenance b)"
  proof (cases "slice_join (ap_slice_footprint a) (ap_slice_footprint b)")
    case (Some h)
    from slice_join_Some [OF Some] show ?thesis
      by (rule) (use assms range_exprs_join in \<open>auto simp: Some ptr_exprs_wf_def ptr_linked_def\<close>)
  qed simp
  have domain: "case pd_join (ap_domain a) (ap_domain b) of PDRestricted r \<Rightarrow> range_exprs_wf r | _ \<Rightarrow> True"
    by (rule domain_exprs_join) (use assms(1) in \<open>simp add: ptr_exprs_wf_def\<close>)
  show "ptr_exprs_wf (ap_join a b) \<and> ptr_linked (ap_join a b)" "ptr_exprs_wf (ap_widen a b) \<and> ptr_linked (ap_widen a b)"
    using offset slice domain
    by (auto simp: ptr_exprs_wf_def ptr_linked_def ap_join_def ap_widen_def split: option.splits)
qed

lemma ptr_ok_join: "ptr_ok a \<Longrightarrow> ptr_ok b \<Longrightarrow> ptr_ok (ap_join a b)"
  unfolding ptr_ok_def using ptr_exprs_merge(1) [of a b] apd.join_wf [of a b] by blast

lemma ptr_ok_widen: "ptr_ok a \<Longrightarrow> ptr_ok b \<Longrightarrow> ptr_ok (ap_widen a b)"
  unfolding ptr_ok_def using ptr_exprs_merge(2) [of a b] apd.widen_wf [of a b] by blast

lemma ed_join_ok:
  assumes "iv_wf (ed_interval l)" and "ptr_ok (ed_pointer l)" and "iv_wf (ed_interval r)" and "ptr_ok (ed_pointer r)"
  shows "aval_ok (case ed_join l r of None \<Rightarrow> AVU64 (iv_join (ed_interval l) (ed_interval r)) | Some f \<Rightarrow> AVEnumDiscriminant f)"
  using ivd.join_wf [OF assms(1,3)] ptr_ok_join [OF assms(2,4)] by (simp add: ed_join_def)

lemma ed_widen_ok:
  assumes "iv_wf (ed_interval l)" and "ptr_ok (ed_pointer l)" and "iv_wf (ed_interval r)" and "ptr_ok (ed_pointer r)"
  shows "aval_ok (case ed_widen l r of None \<Rightarrow> AVU64 (iv_widen (ed_interval l) (ed_interval r)) | Some f \<Rightarrow> AVEnumDiscriminant f)"
  using ivd.widen_wf [OF assms(1,3)] ptr_ok_widen [OF assms(2,4)] by (simp add: ed_widen_def)

lemma perm_range_join: "range_exprs_wf (perm_range a) \<Longrightarrow> range_exprs_wf (perm_range (perm_join a b))"
  using range_exprs_join by (simp add: perm_join_def)

lemma aval_join_ok: "aval_ok a \<Longrightarrow> aval_ok b \<Longrightarrow> aval_join a b v = Inr j \<Longrightarrow> aval_ok j"
  by (induction a b v rule: aval_join.induct)
    (simp_all only: aval_join.simps sum.inject sum.distinct aval_ok.simps, (metis ed_join_ok ptr_ok_join ivd.join_wf perm_range_join aval_ok.simps)+)

lemma aval_widen_ok: "aval_ok a \<Longrightarrow> aval_ok b \<Longrightarrow> aval_widen a b v = Inr j \<Longrightarrow> aval_ok j"
  by (induction a b v rule: aval_widen.induct)
    (simp_all only: aval_widen.simps sum.inject sum.distinct aval_ok.simps, (metis ed_widen_ok ptr_ok_widen ivd.widen_wf perm_range_join aval_ok.simps)+)

end
