(* ===== verification/Relation_Kernel.thy ===== *)
theory Relation_Kernel
  imports Abstract_Allocation
begin

text \<open>
  The numeric rules of \<open>src/src/verifier/relation/kernel.rs\<close>: verdicts about the bounds, alignment and
  overlap of memory accesses from intervals and affine offsets alone. Each verdict is related to the
  accesses it is about: \<open>Proven\<close> holds of every represented access, \<open>Refuted\<close> of none.
\<close>

section \<open>Comparisons\<close>

definition interval_le_status :: "u64_interval \<Rightarrow> u64_interval \<Rightarrow> obligation_status" where
  "interval_le_status l r =
     (if iv_upper l \<le> iv_lower r then Proven else if iv_lower l > iv_upper r then Refuted else Unknown)"

definition interval_lt_status :: "u64_interval \<Rightarrow> u64_interval \<Rightarrow> obligation_status" where
  "interval_lt_status l r =
     (if iv_upper l < iv_lower r then Proven else if iv_lower l \<ge> iv_upper r then Refuted else Unknown)"

definition bound_le_status :: "symbolic_range_bound \<Rightarrow> symbolic_range_bound \<Rightarrow> obligation_status" where
  "bound_le_status l r =
     (if sb_expression l = sb_expression r then Proven
      else if same_terms (sb_expression l) (sb_expression r)
      then (if ae_addend (sb_expression l) \<le> ae_addend (sb_expression r) then Proven else Refuted)
      else interval_le_status (sb_interval l) (sb_interval r))"

definition symbolic_bound :: "u64_interval \<Rightarrow> affine_expression option \<Rightarrow> symbolic_range_bound option" where
  "symbolic_bound i e =
     (case e of Some e \<Rightarrow> Some \<lparr>sb_expression = e, sb_interval = i\<rparr>
      | None \<Rightarrow> map_option sb_constant (iv_exact_value i))"

section \<open>Pointer arithmetic\<close>

definition add_constant_interval :: "u64_interval \<Rightarrow> u64 \<Rightarrow> u64_interval option" where
  "add_constant_interval i v =
     Option.bind (u64_checked_add (iv_lower i) v) (\<lambda>l.
     Option.bind (u64_checked_add (iv_upper i) v) (\<lambda>u. result_ok (iv_new l u)))"

definition arithmetic_verdict :: "u64 option \<Rightarrow> u64 option \<Rightarrow> u64_interval \<times> obligation_status" where
  "arithmetic_verdict lower upper =
     (case (lower, upper) of
        (Some l, Some u) \<Rightarrow> (case iv_new l u of Inr i \<Rightarrow> i | Inl _ \<Rightarrow> iv_unknown, Proven)
      | (None, _) \<Rightarrow> (iv_unknown, Refuted)
      | (Some _, None) \<Rightarrow> (iv_unknown, Unknown))"

definition add_pointer_intervals :: "u64_interval \<Rightarrow> u64_interval \<Rightarrow> u64_interval \<times> obligation_status" where
  "add_pointer_intervals base delta =
     arithmetic_verdict (u64_checked_add (iv_lower base) (iv_lower delta)) (u64_checked_add (iv_upper base) (iv_upper delta))"

definition scale_pointer_interval :: "u64_interval \<Rightarrow> u64 \<Rightarrow> u64_interval \<times> obligation_status" where
  "scale_pointer_interval v factor =
     arithmetic_verdict (u64_checked_mul (iv_lower v) factor) (u64_checked_mul (iv_upper v) factor)"

section \<open>Objects\<close>

definition object_bounds_status :: "u64_interval \<Rightarrow> u64 \<Rightarrow> u64 \<Rightarrow> obligation_status" where
  "object_bounds_status offset object_bytes size_bytes =
     (case u64_checked_add (iv_lower offset) object_bytes of
        None \<Rightarrow> Refuted
      | Some minimum \<Rightarrow>
          if minimum > size_bytes then Refuted
          else case u64_checked_add (iv_upper offset) object_bytes of
            Some maximum \<Rightarrow> if maximum \<le> size_bytes then Proven else Unknown
          | None \<Rightarrow> Unknown)"

definition object_alignment_status :: "abstract_pointer \<Rightarrow> abstract_allocation \<Rightarrow> u64 \<Rightarrow> obligation_status" where
  "object_alignment_status p a required =
     (if ga_bytes (aa_alignment a) < required then Refuted
      else if ga_bytes (ap_alignment p) \<ge> required then Proven
      else case iv_exact_value (ap_offset_bytes p) of
        Some offset \<Rightarrow> if offset mod required \<noteq> 0 then Refuted else Unknown
      | None \<Rightarrow> Unknown)"

definition or_unknown :: "'a option \<Rightarrow> ('a \<Rightarrow> obligation_status) \<Rightarrow> obligation_status" where
  "or_unknown x f = (case x of None \<Rightarrow> Unknown | Some y \<Rightarrow> f y)"

definition overlap_orders :: "abstract_pointer \<Rightarrow> abstract_pointer \<Rightarrow> u64 \<Rightarrow> obligation_status \<times> obligation_status" where
  "overlap_orders dst src size_bytes =
     (case (symbolic_bound (ap_offset_bytes dst) (ap_offset_expression dst),
            symbolic_bound (ap_offset_bytes src) (ap_offset_expression src)) of
        (Some d, Some s) \<Rightarrow>
          (or_unknown (sb_checked_add_constant d size_bytes) (\<lambda>e. bound_le_status e s),
           or_unknown (sb_checked_add_constant s size_bytes) (\<lambda>e. bound_le_status e d))
      | _ \<Rightarrow>
          (or_unknown (add_constant_interval (ap_offset_bytes dst) size_bytes)
             (\<lambda>e. interval_le_status e (ap_offset_bytes src)),
           or_unknown (add_constant_interval (ap_offset_bytes src) size_bytes)
             (\<lambda>e. interval_le_status e (ap_offset_bytes dst))))"

definition object_non_overlap_status :: "abstract_pointer \<Rightarrow> abstract_pointer \<Rightarrow> u64 \<Rightarrow> obligation_status" where
  "object_non_overlap_status dst src size_bytes =
     (if size_bytes = 0 then Proven
      else case (ap_provenance dst, ap_provenance src) of
        (ProvKnown l, ProvKnown r) \<Rightarrow>
          if l \<noteq> r then Proven
          else (case overlap_orders dst src size_bytes of
                  (dst_first, src_first) \<Rightarrow>
                    if dst_first = Proven \<or> src_first = Proven then Proven
                    else if dst_first = Refuted \<and> src_first = Refuted then Refuted else Unknown)
      | _ \<Rightarrow> Unknown)"

section \<open>Verdicts are sound\<close>

lemma interval_le_sound:
  "iv_contains l x \<Longrightarrow> iv_contains r y \<Longrightarrow>
    (interval_le_status l r = Proven \<longrightarrow> x \<le> y) \<and> (interval_le_status l r = Refuted \<longrightarrow> \<not> x \<le> y)"
  by (auto simp: interval_le_status_def iv_contains_def u64_order)

lemma interval_le_exact:
  assumes "iv_wf l" and "iv_wf r"
  shows "interval_le_status l r = Proven \<longleftrightarrow> (\<forall>x y. iv_contains l x \<longrightarrow> iv_contains r y \<longrightarrow> x \<le> y)"
    and "interval_le_status l r = Refuted \<longleftrightarrow> (\<forall>x y. iv_contains l x \<longrightarrow> iv_contains r y \<longrightarrow> \<not> x \<le> y)"
proof -
  have ends: "iv_contains l (iv_lower l)" "iv_contains l (iv_upper l)" "iv_contains r (iv_lower r)" "iv_contains r (iv_upper r)"
    using assms by (simp_all add: iv_contains_ends)
  show "interval_le_status l r = Proven \<longleftrightarrow> (\<forall>x y. iv_contains l x \<longrightarrow> iv_contains r y \<longrightarrow> x \<le> y)"
  proof
    assume "\<forall>x y. iv_contains l x \<longrightarrow> iv_contains r y \<longrightarrow> x \<le> y"
    then have "iv_upper l \<le> iv_lower r" using ends by blast
    then show "interval_le_status l r = Proven" by (simp add: interval_le_status_def)
  qed (use interval_le_sound in blast)
  show "interval_le_status l r = Refuted \<longleftrightarrow> (\<forall>x y. iv_contains l x \<longrightarrow> iv_contains r y \<longrightarrow> \<not> x \<le> y)"
  proof
    assume "\<forall>x y. iv_contains l x \<longrightarrow> iv_contains r y \<longrightarrow> \<not> x \<le> y"
    then have "\<not> iv_lower l \<le> iv_upper r" "\<not> iv_upper l \<le> iv_lower r" using ends by blast+
    then show "interval_le_status l r = Refuted" by (simp add: interval_le_status_def)
  qed (use interval_le_sound in blast)
qed

lemma interval_lt_sound:
  "iv_contains l x \<Longrightarrow> iv_contains r y \<Longrightarrow>
    (interval_lt_status l r = Proven \<longrightarrow> x < y) \<and> (interval_lt_status l r = Refuted \<longrightarrow> \<not> x < y)"
  by (auto simp: interval_lt_status_def iv_contains_def u64_order)

lemma bound_le_sound:
  assumes "bound_holds \<rho> l x" and "bound_holds \<rho> r y"
  shows "bound_le_status l r = Proven \<Longrightarrow> x \<le> y" and "bound_le_status l r = Refuted \<Longrightarrow> \<not> x \<le> y"
  using assms interval_le_sound [of "sb_interval l" x "sb_interval r" y]
  by (auto simp: bound_le_status_def bound_holds_def word_le_def ae_den_def same_terms_def split: if_splits)

lemma symbolic_bound_holds:
  assumes "ptr_holds p c" and "symbolic_bound (ap_offset_bytes p) (ap_offset_expression p) = Some b"
  shows "bound_holds (cp_env c) b (cp_offset c)"
  using assms iv_exact_valueD [of "ap_offset_bytes p" _ "cp_offset c"]
  by (cases "ap_offset_expression p") (auto simp: symbolic_bound_def ptr_holds_def bound_holds_def [of _ "\<lparr>sb_expression = _, sb_interval = _\<rparr>"])

lemma sb_add_holds:
  assumes "sb_checked_add_constant b n = Some e" and "bound_holds \<rho> b x"
  obtains y where "u64_checked_add x n = Some y" and "bound_holds \<rho> e y"
proof -
  obtain ex l u where e: "ae_checked_add_constant (sb_expression b) n = Some ex"
      "u64_checked_add (iv_lower (sb_interval b)) n = Some l" "u64_checked_add (iv_upper (sb_interval b)) n = Some u"
      "e = \<lparr>sb_expression = ex, sb_interval = \<lparr>iv_lower = l, iv_upper = u\<rparr>\<rparr>"
    using assms(1) by (auto simp: sb_checked_add_constant_def Option.bind_eq_Some_conv iv_new_ok)
  have x: "uint (iv_lower (sb_interval b)) \<le> uint x" "uint x \<le> uint (iv_upper (sb_interval b))" "ae_den \<rho> (sb_expression b) = uint x"
    using assms(2) by (auto simp: bound_holds_def iv_contains_def word_le_def)
  have lu: "uint l = uint (iv_lower (sb_interval b)) + uint n" "uint u = uint (iv_upper (sb_interval b)) + uint n"
    using e(2,3) by (auto dest!: checked_arith)
  have fit: "uint x + uint n < 2 ^ 64" using x(2) lu(2) uint_u64_bound [of u] by linarith
  then have add: "u64_checked_add x n = Some (x + n)" "uint (x + n) = uint x + uint n"
    by (simp_all add: u64_checked_add_def uint_add_u64)
  have "ae_den \<rho> ex = uint (x + n)" using e(1) x(3) add(2) by (auto simp: ae_checked_add_constant_def ae_den_def dest!: checked_arith)
  then have "bound_holds \<rho> e (x + n)" using x(1,2) lu add(2) by (simp add: bound_holds_def e(4) iv_contains_def word_le_def)
  then show thesis using add(1) that by blast
qed

lemma add_interval_holds:
  assumes "add_constant_interval i n = Some j" and "iv_contains i x"
  obtains y where "u64_checked_add x n = Some y" and "iv_contains j y"
proof -
  obtain l u where e: "u64_checked_add (iv_lower i) n = Some l" "u64_checked_add (iv_upper i) n = Some u"
      "j = \<lparr>iv_lower = l, iv_upper = u\<rparr>"
    using assms(1) by (auto simp: add_constant_interval_def Option.bind_eq_Some_conv iv_new_ok)
  have x: "uint (iv_lower i) \<le> uint x" "uint x \<le> uint (iv_upper i)" using assms(2) by (auto simp: iv_contains_def word_le_def)
  have lu: "uint l = uint (iv_lower i) + uint n" "uint u = uint (iv_upper i) + uint n"
    using e(1,2) by (auto dest!: checked_arith)
  have "uint x + uint n < 2 ^ 64" using x(2) lu(2) uint_u64_bound [of u] by linarith
  then have add: "u64_checked_add x n = Some (x + n)" "uint (x + n) = uint x + uint n"
    by (simp_all add: u64_checked_add_def uint_add_u64)
  then show thesis using that [of "x + n"] x lu by (simp add: e(3) iv_contains_def word_le_def)
qed

lemma overlap_orders_sound:
  assumes "ptr_holds dst d" and "ptr_holds src s" and "cp_env d = cp_env s" and "overlap_orders dst src n = (df, sf)"
  shows "(df = Proven \<longrightarrow> uint (cp_offset d) + uint n \<le> uint (cp_offset s)) \<and>
    (df = Refuted \<longrightarrow> \<not> uint (cp_offset d) + uint n \<le> uint (cp_offset s)) \<and>
    (sf = Proven \<longrightarrow> uint (cp_offset s) + uint n \<le> uint (cp_offset d)) \<and>
    (sf = Refuted \<longrightarrow> \<not> uint (cp_offset s) + uint n \<le> uint (cp_offset d))"
proof -
  have bound: "(or_unknown (sb_checked_add_constant a n) (\<lambda>e. bound_le_status e b) = Proven \<longrightarrow> uint x + uint n \<le> uint y) \<and>
      (or_unknown (sb_checked_add_constant a n) (\<lambda>e. bound_le_status e b) = Refuted \<longrightarrow> \<not> uint x + uint n \<le> uint y)"
    if h: "bound_holds \<rho> a x" "bound_holds \<rho> b y" for \<rho> a b x y
  proof (cases "sb_checked_add_constant a n")
    case (Some e)
    obtain z where z: "u64_checked_add x n = Some z" "bound_holds \<rho> e z" by (rule sb_add_holds [OF Some h(1)])
    have "uint z = uint x + uint n" using z(1) by (auto dest!: checked_arith)
    then show ?thesis using bound_le_sound [OF z(2) h(2)] Some by (auto simp: or_unknown_def word_le_def)
  qed (simp add: or_unknown_def)
  have interval: "(or_unknown (add_constant_interval i n) (\<lambda>e. interval_le_status e j) = Proven \<longrightarrow> uint x + uint n \<le> uint y) \<and>
      (or_unknown (add_constant_interval i n) (\<lambda>e. interval_le_status e j) = Refuted \<longrightarrow> \<not> uint x + uint n \<le> uint y)"
    if h: "iv_contains i x" "iv_contains j y" for i j x y
  proof (cases "add_constant_interval i n")
    case (Some e)
    obtain z where z: "u64_checked_add x n = Some z" "iv_contains e z" by (rule add_interval_holds [OF Some h(1)])
    have "uint z = uint x + uint n" using z(1) by (auto dest!: checked_arith)
    then show ?thesis using interval_le_sound [OF z(2) h(2)] Some by (auto simp: or_unknown_def word_le_def)
  qed (simp add: or_unknown_def)
  have off: "iv_contains (ap_offset_bytes dst) (cp_offset d)" "iv_contains (ap_offset_bytes src) (cp_offset s)"
    using assms(1,2) by (simp_all add: ptr_holds_def)
  show ?thesis
  proof (cases "symbolic_bound (ap_offset_bytes dst) (ap_offset_expression dst)")
    case None
    then show ?thesis using assms(4) interval [OF off] interval [OF off(2,1)] by (auto simp: overlap_orders_def)
  next
    case a: (Some a)
    show ?thesis
    proof (cases "symbolic_bound (ap_offset_bytes src) (ap_offset_expression src)")
      case None
      then show ?thesis using a assms(4) interval [OF off] interval [OF off(2,1)] by (auto simp: overlap_orders_def)
    next
      case b: (Some b)
      have "bound_holds (cp_env d) a (cp_offset d)" "bound_holds (cp_env d) b (cp_offset s)"
        using symbolic_bound_holds [OF assms(1) a] symbolic_bound_holds [OF assms(2) b] assms(3) by simp_all
      then show ?thesis using assms(4) a b bound by (auto simp: overlap_orders_def)
    qed
  qed
qed

lemma add_pointer_sound:
  assumes "add_pointer_intervals base delta = (i, st)" and "iv_contains base x" and "iv_contains delta y"
  shows "st = Proven \<Longrightarrow> \<exists>z. u64_checked_add x y = Some z \<and> iv_contains i z"
    and "st = Refuted \<Longrightarrow> u64_checked_add x y = None"
proof -
  have b: "uint (iv_lower base) + uint (iv_lower delta) \<le> uint x + uint y" "uint x + uint y \<le> uint (iv_upper base) + uint (iv_upper delta)"
    using assms(2,3) by (auto simp: iv_contains_def word_le_def)
  show "st = Refuted \<Longrightarrow> u64_checked_add x y = None"
    using assms(1) b(1)
    by (auto simp: add_pointer_intervals_def arithmetic_verdict_def u64_checked_add_def split: option.splits if_splits)
  assume "st = Proven"
  then obtain l u where lu: "u64_checked_add (iv_lower base) (iv_lower delta) = Some l"
      "u64_checked_add (iv_upper base) (iv_upper delta) = Some u" "i = (case iv_new l u of Inr i \<Rightarrow> i | Inl _ \<Rightarrow> iv_unknown)"
    using assms(1) by (auto simp: add_pointer_intervals_def arithmetic_verdict_def split: option.splits)
  have v: "uint l = uint (iv_lower base) + uint (iv_lower delta)" "uint u = uint (iv_upper base) + uint (iv_upper delta)"
    using lu(1,2) by (auto dest!: checked_arith)
  have fit: "uint x + uint y < 2 ^ 64" using b(2) v(2) uint_u64_bound [of u] by linarith
  have "l \<le> u" using b v by (simp add: word_le_def)
  then have "iv_new l u = Inr \<lparr>iv_lower = l, iv_upper = u\<rparr>" by (simp add: iv_new_def)
  then show "\<exists>z. u64_checked_add x y = Some z \<and> iv_contains i z"
    using fit b v by (simp add: lu(3) u64_checked_add_def iv_contains_def word_le_def uint_add_u64)
qed

lemma scale_pointer_sound:
  assumes "scale_pointer_interval v n = (i, st)" and "iv_contains v x"
  shows "st = Proven \<Longrightarrow> \<exists>z. u64_checked_mul x n = Some z \<and> iv_contains i z"
    and "st = Refuted \<Longrightarrow> u64_checked_mul x n = None"
proof -
  have b: "uint (iv_lower v) * uint n \<le> uint x * uint n" "uint x * uint n \<le> uint (iv_upper v) * uint n"
    using assms(2) by (auto simp: iv_contains_def word_le_def intro: mult_right_mono)
  show "st = Refuted \<Longrightarrow> u64_checked_mul x n = None"
    using assms(1) b(1)
    by (auto simp: scale_pointer_interval_def arithmetic_verdict_def u64_checked_mul_def split: option.splits if_splits)
  assume "st = Proven"
  then obtain l u where lu: "u64_checked_mul (iv_lower v) n = Some l" "u64_checked_mul (iv_upper v) n = Some u"
      "i = (case iv_new l u of Inr i \<Rightarrow> i | Inl _ \<Rightarrow> iv_unknown)"
    using assms(1) by (auto simp: scale_pointer_interval_def arithmetic_verdict_def split: option.splits)
  have w: "uint l = uint (iv_lower v) * uint n" "uint u = uint (iv_upper v) * uint n"
    using lu(1,2) by (auto dest!: checked_arith)
  have fit: "uint x * uint n < 2 ^ 64" using b(2) w(2) uint_u64_bound [of u] by linarith
  have "l \<le> u" using b w by (simp add: word_le_def)
  then have "iv_new l u = Inr \<lparr>iv_lower = l, iv_upper = u\<rparr>" by (simp add: iv_new_def)
  then show "\<exists>z. u64_checked_mul x n = Some z \<and> iv_contains i z"
    using fit b w by (simp add: lu(3) u64_checked_mul_def iv_contains_def word_le_def uint_mul_u64)
qed

lemma object_alignment_sound:
  assumes "ptr_holds p c" and "ga_wf (ap_alignment p)" and "u64_is_power_of_two required"
    and "ga_holds (aa_alignment a) (cp_address c - uint (cp_offset c))" and "ga_wf (aa_alignment a)"
  shows "object_alignment_status p a required = Proven \<Longrightarrow> uint required dvd cp_address c"
    and "object_alignment_status p a required = Refuted \<Longrightarrow>
      ga_bytes (aa_alignment a) < required \<or> \<not> uint required dvd cp_address c"
proof -
  show "object_alignment_status p a required = Proven \<Longrightarrow> uint required dvd cp_address c"
    using assms(1-3) power_two_dvd [of required "ga_bytes (ap_alignment p)"]
    by (auto simp: object_alignment_status_def ptr_holds_def ga_holds_def ga_wf_def split: if_splits option.splits intro: dvd_trans)
  assume refuted: "object_alignment_status p a required = Refuted"
  show "ga_bytes (aa_alignment a) < required \<or> \<not> uint required dvd cp_address c"
  proof (rule disjCI, rule ccontr)
    assume "\<not> \<not> uint required dvd cp_address c" and strong: "\<not> ga_bytes (aa_alignment a) < required"
    then have addr: "uint required dvd cp_address c" by simp
    obtain offset where offset: "iv_exact_value (ap_offset_bytes p) = Some offset" "offset mod required \<noteq> 0"
      using refuted strong by (auto simp: object_alignment_status_def split: if_splits option.splits)
    have "uint required dvd uint (ga_bytes (aa_alignment a))"
      using power_two_dvd [of required "ga_bytes (aa_alignment a)"] assms(3,5) strong by (simp add: ga_wf_def)
    then have "uint required dvd cp_address c - uint (cp_offset c)" using assms(4) by (auto simp: ga_holds_def intro: dvd_trans)
    then have "uint required dvd uint (cp_offset c)" using addr by (metis dvd_diff_commute dvd_diffD1 dvd_diff diff_diff_eq2 add_diff_cancel_left')
    moreover have "cp_offset c = offset"
      using iv_exact_valueD [OF offset(1), of "cp_offset c"] assms(1) by (simp add: ptr_holds_def)
    ultimately have "uint (offset mod required) = 0" by (simp add: uint_mod)
    then show False using offset(2) by (simp add: uint_0_iff)
  qed
qed

section \<open>Properties\<close>

definition accessed :: "pointer_state \<Rightarrow> u64 \<Rightarrow> (abstract_allocation_id \<times> int) set" where
  "accessed c n = {cp_allocation c} \<times> {x. uint (cp_offset c) \<le> x \<and> x < uint (cp_offset c) + uint n}"

lemma object_non_overlap_right:
  assumes h: "ptr_holds dst d" "ptr_holds src s" "cp_env d = cp_env s"
  shows "(object_non_overlap_status dst src n = Proven \<longrightarrow> accessed d n \<inter> accessed s n = {}) \<and>
    (object_non_overlap_status dst src n = Refuted \<longrightarrow> accessed d n \<inter> accessed s n \<noteq> {})"
proof (cases "n = 0")
  case True
  then have "accessed d n = {}" by (auto simp: accessed_def)
  then show ?thesis using True by (simp add: object_non_overlap_status_def)
next
  case n: False
  show ?thesis
  proof (cases "\<exists>l r. ap_provenance dst = ProvKnown l \<and> ap_provenance src = ProvKnown r")
    case True
    then have prov: "ap_provenance dst = ProvKnown (cp_allocation d)" "ap_provenance src = ProvKnown (cp_allocation s)"
      using h(1,2) by (auto simp: ptr_holds_def)
    obtain df sf where o: "overlap_orders dst src n = (df, sf)" by force
    note ord = overlap_orders_sound [OF h o]
    have pos: "0 < uint n" using n by (simp add: uint_u64_pos_iff)
    have disj: "accessed d n \<inter> accessed s n = {} \<longleftrightarrow> cp_allocation d \<noteq> cp_allocation s \<or>
        uint (cp_offset d) + uint n \<le> uint (cp_offset s) \<or> uint (cp_offset s) + uint n \<le> uint (cp_offset d)"
      (is "_ \<longleftrightarrow> ?apart")
    proof
      assume empty: "accessed d n \<inter> accessed s n = {}"
      show ?apart
      proof (rule ccontr)
        assume near: "\<not> ?apart"
        let ?x = "max (uint (cp_offset d)) (uint (cp_offset s))"
        have "uint (cp_offset d) \<le> ?x" "?x < uint (cp_offset d) + uint n"
            "uint (cp_offset s) \<le> ?x" "?x < uint (cp_offset s) + uint n" and same: "cp_allocation s = cp_allocation d"
          using near pos by simp_all
        then have "(cp_allocation d, ?x) \<in> accessed d n \<inter> accessed s n" unfolding accessed_def same by blast
        then show False using empty by blast
      qed
    qed (auto simp: accessed_def)
    show ?thesis using ord n unfolding disj by (auto simp: object_non_overlap_status_def prov o split: if_splits)
  next
    case False
    then have "object_non_overlap_status dst src n = Unknown"
      using n by (cases "ap_provenance dst"; cases "ap_provenance src") (auto simp: object_non_overlap_status_def)
    then show ?thesis by simp
  qed
qed

text \<open>C17: The non-overlap verdict of a memory copy is sound. For all pointers the two abstract pointers
  stand for, read in one environment, \<open>Proven\<close> means the two accessed ranges share no byte and \<open>Refuted\<close>
  means they share one; wrapping end offsets are never trusted.\<close>

theorem object_non_overlap_sound:
  "classifies (object_non_overlap_status dst src n)
     (\<lambda>(d, s). ptr_holds dst d \<and> ptr_holds src s \<and> cp_env d = cp_env s)
     (\<lambda>(d, s). accessed d n \<inter> accessed s n = {})"
  using object_non_overlap_right by (fastforce simp: classifies_def)

text \<open>The bounds verdict of an object access is exact. For an interval of offsets, \<open>Proven\<close> is returned
  exactly when the object fits the allocation at every offset of the interval, \<open>Refuted\<close> exactly when
  it fits at none, overflow of the end offset counted as not fitting.\<close>

theorem object_bounds_exact:
  assumes "iv_wf offset"
  shows "(object_bounds_status offset n size_bytes = Proven \<longleftrightarrow>
      (\<forall>x. iv_contains offset x \<longrightarrow> uint x + uint n \<le> uint size_bytes)) \<and>
    (object_bounds_status offset n size_bytes = Refuted \<longleftrightarrow>
      (\<forall>x. iv_contains offset x \<longrightarrow> \<not> uint x + uint n \<le> uint size_bytes))"
proof -
  have ends: "iv_contains offset (iv_lower offset)" "iv_contains offset (iv_upper offset)"
    using assms by (simp_all add: iv_contains_ends)
  have order: "uint (iv_lower offset) \<le> uint x \<and> uint x \<le> uint (iv_upper offset)" if "iv_contains offset x" for x
    using that by (simp add: iv_contains_def word_le_def)
  have le: "uint (iv_lower offset) \<le> uint (iv_upper offset)" using assms by (simp add: iv_wf_def word_le_def)
  have status: "object_bounds_status offset n size_bytes =
      (if \<not> uint (iv_lower offset) + uint n \<le> uint size_bytes then Refuted
       else if uint (iv_upper offset) + uint n \<le> uint size_bytes then Proven else Unknown)"
    using uint_u64_bound [of size_bytes] le
    by (auto simp: object_bounds_status_def u64_checked_add_def word_le_def word_less_def uint_add_u64 split: option.split)
  have "(\<forall>x. iv_contains offset x \<longrightarrow> uint x + uint n \<le> uint size_bytes) \<longleftrightarrow> uint (iv_upper offset) + uint n \<le> uint size_bytes"
    using ends(2) order by fastforce
  moreover have "(\<forall>x. iv_contains offset x \<longrightarrow> \<not> uint x + uint n \<le> uint size_bytes) \<longleftrightarrow>
      \<not> uint (iv_lower offset) + uint n \<le> uint size_bytes"
    using ends(1) order by fastforce
  ultimately show ?thesis unfolding status using le by auto
qed

theorem object_bounds_exact_witness:
  "object_bounds_status \<lparr>iv_lower = 2, iv_upper = 18446744073709551615\<rparr> 4 8 = Unknown \<and>
   \<not> (\<forall>x. iv_contains \<lparr>iv_lower = 2, iv_upper = 18446744073709551615\<rparr> x \<longrightarrow> uint x + uint (4 :: u64) \<le> uint (8 :: u64))"
  using object_bounds_exact [of "\<lparr>iv_lower = 2, iv_upper = 18446744073709551615\<rparr>" 4 8]
  by (simp add: iv_wf_def object_bounds_status_def u64_checked_add_def)

end
