(* ===== verification/Relation_Query.thy ===== *)
theory Relation_Query
  imports Resource_Machine Relation_Kernel
begin

text \<open>
  The bounded numeric queries the verifier asks of a resource state: the projection of its facts to a query
  of the difference solver (\<open>src/src/verifier/relation/local.rs\<close>), orders, containment and disjointness of byte
  ranges (\<open>relation/range.rs\<close> and \<open>range/coordinates.rs\<close>), and the journal every query is recorded in
  (\<open>relation/audit.rs\<close>). \<open>cancel_common\<close> and \<open>without_root\<close> unwrap a result, so what calls them is an option,
  \<open>None\<close> for the panic; \<open>Query_Sound\<close> shows that it never happens on well-formed states.
\<close>

section \<open>Facts that bear on a query\<close>

fun term_interval :: "('d, 'l, 's) resource_state \<Rightarrow> vir_memory_access relation_term \<Rightarrow> u64_interval option" where
  "term_interval st (RConstant n) = Some (iv_exact n)"
| "term_interval st (RValue v TyU64) = word_reading (st_value st v)"
| "term_interval st _ = None"

definition insert_root :: "difference_limits \<Rightarrow> vir_value_id \<Rightarrow> vir_value_id set \<Rightarrow> difference_stop + vir_value_id set" where
  "insert_root limits v values =
     (if v \<notin> values \<and> card values \<ge> max_variables limits then Inl StopBudget else Inr (insert v values))"

text \<open>The closure collects the values connected to the query and counts its visits.\<close>

type_synonym scan = "vir_value_id set \<times> usize"

definition scan_visit :: "difference_limits \<Rightarrow> scan \<Rightarrow> difference_stop + scan" where
  "scan_visit limits s =
     res_bind (ok_or StopBudget (usize_checked_add (snd s) 1)) (\<lambda>visits.
       if visits > max_steps limits then Inl StopBudget else Inr (fst s, visits))"

definition scan_root :: "('d, 'l, 's) resource_state \<Rightarrow> difference_limits \<Rightarrow> vir_value_id \<Rightarrow> scan \<Rightarrow> difference_stop + scan" where
  "scan_root st limits v s =
     (if term_interval st (relation_word v) \<noteq> None then res_bind (insert_root limits v (fst s)) (\<lambda>values. Inr (values, snd s))
      else Inr s)"

definition scan_value :: "('d, 'l, 's) resource_state \<Rightarrow> difference_limits \<Rightarrow> vir_value_id \<Rightarrow> scan \<Rightarrow> difference_stop + scan" where
  "scan_value st limits v s =
     res_bind (scan_visit limits s) (\<lambda>s'.
       case st_word st v of
         None \<Rightarrow> Inr s'
       | Some e \<Rightarrow> res_fold (\<lambda>(root, _). scan_root st limits root) (ae_flat e) s')"

fun compared_values :: "('d, 'l, 's) resource_state \<Rightarrow> vir_value_id set \<Rightarrow> path_fact \<Rightarrow> vir_value_id list" where
  "compared_values st values (FactBoolean _ _) = []"
| "compared_values st values (FactComparison _ l r) =
     (if (l \<in> values \<or> r \<in> values) \<and> term_interval st (relation_word l) \<noteq> None \<and> term_interval st (relation_word r) \<noteq> None
      then [l, r] else [])"

definition scan_fact :: "('d, 'l, 's) resource_state \<Rightarrow> difference_limits \<Rightarrow> path_fact \<Rightarrow> scan \<Rightarrow> difference_stop + scan" where
  "scan_fact st limits f s =
     res_bind (scan_visit limits s) (\<lambda>s'. res_fold (scan_root st limits) (compared_values st (fst s') f) s')"

fun premise_terms :: "'m difference_premise \<Rightarrow> 'm relation_term list" where
  "premise_terms (PBound l r _) = [l, r]"
| "premise_terms (PCompare _ l r) = [l, r]"
| "premise_terms _ = []"

definition scan_relation ::
  "('d, 'l, 's) resource_state \<Rightarrow> difference_limits \<Rightarrow> vir_memory_access difference_premise \<Rightarrow> scan \<Rightarrow> difference_stop + scan" where
  "scan_relation st limits p s =
     res_bind (scan_visit limits s) (\<lambda>s'.
       let endpoints = concat (map term_values (premise_terms p)) in
       if list_ex (\<lambda>v. v \<in> fst s') endpoints then res_fold (scan_root st limits) endpoints s' else Inr s')"

definition scan_round ::
  "('d, 'l, 's) resource_state \<Rightarrow> difference_limits \<Rightarrow> path_fact set \<Rightarrow> vir_memory_access difference_premise list \<Rightarrow>
    scan \<Rightarrow> difference_stop + scan" where
  "scan_round st limits facts relations s =
     res_bind (res_fold (scan_value st limits) (sorted_list_of_set (fst s)) s) (\<lambda>s1.
     res_bind (res_fold (scan_fact st limits) (sorted_list_of_set facts) s1) (\<lambda>s2.
     res_fold (scan_relation st limits) relations s2))"

definition scan_grows :: "difference_limits \<Rightarrow> scan \<Rightarrow> scan \<Rightarrow> bool" where
  "scan_grows limits s s' =
     (fst s \<subseteq> fst s' \<and> (finite (fst s) \<longrightarrow> finite (fst s') \<and> (fst s' = fst s \<or> card (fst s') \<le> max_variables limits)))"

lemma scan_grows_refl [simp]: "scan_grows limits s s"
  by (simp add: scan_grows_def)

lemma scan_grows_trans: "scan_grows limits s t \<Longrightarrow> scan_grows limits t u \<Longrightarrow> scan_grows limits s u"
  by (auto simp: scan_grows_def)

lemma scan_visit_grows: "scan_visit limits s = Inr s' \<Longrightarrow> scan_grows limits s s'"
  by (auto simp: scan_visit_def scan_grows_def split: if_splits)

lemma scan_root_grows: "scan_root st limits v s = Inr s' \<Longrightarrow> scan_grows limits s s'"
  by (cases "fst s = insert v (fst s)")
    (auto simp: scan_root_def insert_root_def scan_grows_def card_insert_if insert_absorb split: if_splits)

lemma scan_fold_grows:
  assumes step: "\<And>x s s'. f x s = Inr s' \<Longrightarrow> scan_grows limits s s'"
  shows "res_fold f xs s = Inr s' \<Longrightarrow> scan_grows limits s s'"
proof (induction xs arbitrary: s)
  case (Cons x xs)
  then obtain t where "f x s = Inr t" "res_fold f xs t = Inr s'" unfolding res_fold.simps res_bind_Inr by blast
  then show ?case using step Cons.IH scan_grows_trans by blast
qed simp

lemma scan_round_grows:
  assumes "scan_round st limits facts relations s = Inr s'"
  shows "scan_grows limits s s'"
proof -
  note fold = scan_fold_grows [where limits = limits]
  have roots: "res_fold (scan_root st limits) vs s = Inr s' \<Longrightarrow> scan_grows limits s s'" for vs s s'
    by (rule fold [where f = "scan_root st limits"]) (auto intro: scan_root_grows)
  have terms: "res_fold (\<lambda>(root, _). scan_root st limits root) ts s = Inr s' \<Longrightarrow> scan_grows limits s s'"
    for ts :: "(vir_value_id \<times> u64) list" and s s'
    by (rule fold [where f = "\<lambda>(root, _). scan_root st limits root"]) (auto intro: scan_root_grows)
  have v: "scan_value st limits v s = Inr s' \<Longrightarrow> scan_grows limits s s'" for v s s'
    unfolding scan_value_def by (auto split: option.splits dest!: scan_visit_grows terms intro: scan_grows_trans)
  have f: "scan_fact st limits v s = Inr s' \<Longrightarrow> scan_grows limits s s'" for v s s'
    unfolding scan_fact_def by (auto dest!: scan_visit_grows roots intro: scan_grows_trans)
  have r: "scan_relation st limits v s = Inr s' \<Longrightarrow> scan_grows limits s s'" for v s s'
    unfolding scan_relation_def Let_def by (auto split: if_splits dest!: scan_visit_grows roots intro: scan_grows_trans)
  obtain s1 s2 where s1: "res_fold (scan_value st limits) (sorted_list_of_set (fst s)) s = Inr s1"
    and s2: "res_fold (scan_fact st limits) (sorted_list_of_set facts) s1 = Inr s2"
    and s3: "res_fold (scan_relation st limits) relations s2 = Inr s'"
    using assms unfolding scan_round_def res_bind_Inr by blast
  have "scan_grows limits s s1" by (rule fold [OF _ s1]) (rule v)
  moreover have "scan_grows limits s1 s2" by (rule fold [OF _ s2]) (rule f)
  moreover have "scan_grows limits s2 s'" by (rule fold [OF _ s3]) (rule r)
  ultimately show ?thesis by (blast intro: scan_grows_trans)
qed

function scan_closure ::
  "('d, 'l, 's) resource_state \<Rightarrow> difference_limits \<Rightarrow> path_fact set \<Rightarrow> vir_memory_access difference_premise list \<Rightarrow>
    scan \<Rightarrow> difference_stop + vir_value_id set" where
  "scan_closure st limits facts relations s =
     (case scan_round st limits facts relations s of
        Inl e \<Rightarrow> Inl e
      | Inr s' \<Rightarrow> if card (fst s') = card (fst s) then Inr (fst s') else scan_closure st limits facts relations s')"
  by pat_completeness auto

termination
proof (relation "measure (\<lambda>(st, limits, facts, relations, s). max_variables limits - card (fst s))")
  fix st :: "('d, 'l, 's) resource_state" and limits facts relations s s'
  assume round: "scan_round st limits facts relations s = Inr s'" and moved: "card (fst s') \<noteq> card (fst s)"
  have grows: "scan_grows limits s s'" by (rule scan_round_grows [OF round])
  have finite: "finite (fst s)"
  proof (rule ccontr)
    assume "infinite (fst s)"
    moreover from this have "infinite (fst s')" using grows finite_subset by (auto simp: scan_grows_def)
    ultimately show False using moved by simp
  qed
  then have "card (fst s) < card (fst s') \<and> card (fst s') \<le> max_variables limits"
    using grows moved card_mono [of "fst s'" "fst s"] by (auto simp: scan_grows_def)
  then show "((st, limits, facts, relations, s'), st, limits, facts, relations, s) \<in>
      measure (\<lambda>(st, limits, facts, relations, s). max_variables limits - card (fst s))" by (auto intro: diff_less_mono2)
qed simp

section \<open>The premises of a query\<close>

text \<open>Disequalities between identity aliases of the same values are one premise.\<close>

definition alias_root ::
  "('d, 'l, 's) resource_state \<Rightarrow> vir_value_id set \<Rightarrow> vir_memory_access relation_term \<Rightarrow> vir_memory_access relation_term" where
  "alias_root st values t =
     (case t of
        RValue v _ \<Rightarrow>
          (case st_word st v of
             None \<Rightarrow> t
           | Some e \<Rightarrow>
               if ae_scale e = 1 \<and> ae_addend e = 0
               then (case ae_single_root e of
                       None \<Rightarrow> t
                     | Some root \<Rightarrow> if root \<in> values then relation_word root else t)
               else t)
      | _ \<Rightarrow> t)"

fun swap_terms :: "'m relation_term \<Rightarrow> 'm relation_term \<Rightarrow> 'm relation_term \<times> 'm relation_term" where
  "swap_terms (RValue a s) (RValue b t) = (if a > b then (RValue b t, RValue a s) else (RValue a s, RValue b t))"
| "swap_terms l r = (l, r)"

definition canonical_premise ::
  "('d, 'l, 's) resource_state \<Rightarrow> vir_value_id set \<Rightarrow> vir_memory_access difference_premise \<Rightarrow>
    vir_memory_access difference_premise" where
  "canonical_premise st values p =
     (case p of
        PCompare NotEqual l r \<Rightarrow>
          (case swap_terms (alias_root st values l) (alias_root st values r) of (l', r') \<Rightarrow> PCompare NotEqual l' r')
      | _ \<Rightarrow> p)"

definition push_premise ::
  "('d, 'l, 's) resource_state \<Rightarrow> vir_value_id set \<Rightarrow> difference_limits \<Rightarrow> vir_memory_access difference_premise \<Rightarrow>
    vir_memory_access difference_premise list \<Rightarrow> difference_stop + vir_memory_access difference_premise list" where
  "push_premise st values limits p ps =
     (let p' = canonical_premise st values p in
      if p' \<in> set ps then Inr ps
      else if length ps \<ge> max_constraints limits then Inl StopBudget
      else Inr (ps @ [p']))"

definition expression_premises ::
  "vir_value_id set \<Rightarrow> vir_value_id \<Rightarrow> affine_expression \<Rightarrow> vir_memory_access difference_premise list" where
  "expression_premises values v e =
     map bound_premise
       (filter (\<lambda>b. case db_left b of None \<Rightarrow> False | Some root \<Rightarrow> root \<in> values) (affine_lower_bounds v e)) @
     (case (case ae_single_root e of
              Some root \<Rightarrow> if ae_scale e = 1 \<and> root \<in> values then Some (relation_word root) else None
            | None \<Rightarrow> if ae_is_constant e then Some (RConstant 0) else None) of
        None \<Rightarrow> []
      | Some right \<Rightarrow>
          if right \<noteq> relation_word v \<or> ae_addend e \<noteq> 0
          then [PEqualOffset (relation_word v) right (uint (ae_addend e))] else [])"

definition push_value ::
  "('d, 'l, 's) resource_state \<Rightarrow> vir_value_id set \<Rightarrow> difference_limits \<Rightarrow> vir_value_id \<Rightarrow>
    vir_memory_access difference_premise list \<Rightarrow> difference_stop + vir_memory_access difference_premise list" where
  "push_value st values limits v ps =
     res_bind (ok_or InvalidInput (term_interval st (relation_word v))) (\<lambda>i.
       res_fold (push_premise st values limits)
         (PInterval v i # (case st_word st v of None \<Rightarrow> [] | Some e \<Rightarrow> expression_premises values v e)) ps)"

fun fact_premises :: "vir_value_id set \<Rightarrow> path_fact \<Rightarrow> vir_memory_access difference_premise list" where
  "fact_premises values (FactBoolean _ _) = []"
| "fact_premises values (FactComparison p l r) =
     (if l \<in> values \<and> r \<in> values then [premise_comparison p (relation_word l) (relation_word r)] else [])"

fun retained_term :: "vir_value_id set \<Rightarrow> 'm relation_term \<Rightarrow> bool" where
  "retained_term values (RValue v _) = (v \<in> values)"
| "retained_term values (RConstant _) = True"
| "retained_term values _ = False"

definition retained_premise :: "vir_value_id set \<Rightarrow> 'm difference_premise \<Rightarrow> bool" where
  "retained_premise values p = (premise_terms p \<noteq> [] \<and> list_all (retained_term values) (premise_terms p))"

definition query_premises ::
  "('d, 'l, 's) resource_state \<Rightarrow> vir_memory_access difference_goal \<Rightarrow> difference_limits \<Rightarrow>
    difference_stop + vir_memory_access difference_premise list" where
  "query_premises st goal limits =
     res_bind (res_fold (insert_root limits) (term_values (dg_left goal) @ term_values (dg_right goal)) {}) (\<lambda>start.
     res_bind (ok_or Inconsistent (pc_facts (st_path st))) (\<lambda>facts.
     let relations = rs_premises (st_relations st) in
     res_bind (scan_closure st limits facts relations (start, 0)) (\<lambda>values.
     res_bind (res_fold (push_value st values limits) (sorted_list_of_set values) []) (\<lambda>ps.
     res_fold (push_premise st values limits)
       (concat (map (fact_premises values) (sorted_list_of_set facts)) @ filter (retained_premise values) relations) ps))))"

section \<open>Comparisons\<close>

type_synonym observed =
  "obligation_status \<times> vir_memory_access difference_evidence option \<times> difference_stop option"

definition fast_comparison :: "relation_comparison \<Rightarrow> u64_interval \<Rightarrow> u64_interval \<Rightarrow> obligation_status" where
  "fast_comparison comparison a b =
     (case comparison of
        LessThan \<Rightarrow> interval_lt_status a b
      | LessOrEqual \<Rightarrow> interval_le_status a b
      | _ \<Rightarrow> Unknown)"

definition compare_observed ::
  "('d, 'l, 's) resource_state \<Rightarrow> relation_comparison \<Rightarrow> vir_memory_access relation_term \<Rightarrow>
    vir_memory_access relation_term \<Rightarrow> difference_limits \<Rightarrow> observed" where
  "compare_observed st comparison left right limits =
     (case (term_interval st left, term_interval st right) of
        (Some a, Some b) \<Rightarrow>
          (if fast_comparison comparison a b \<noteq> Unknown then (fast_comparison comparison a b, None, None)
           else let goal = \<lparr>dg_comparison = comparison, dg_left = left, dg_right = right\<rparr> in
             case query_premises st goal limits of
               Inl stop \<Rightarrow> (Unknown, None, Some stop)
             | Inr premises \<Rightarrow>
                 let evidence = solve_difference premises goal limits in (de_status evidence, Some evidence, None))
      | _ \<Rightarrow> (Unknown, None, Some InvalidInput))"

definition compare_terms ::
  "('d, 'l, 's) resource_state \<Rightarrow> relation_comparison \<Rightarrow> vir_memory_access relation_term \<Rightarrow>
    vir_memory_access relation_term \<Rightarrow> difference_limits \<Rightarrow> obligation_status \<times> vir_memory_access difference_evidence option" where
  "compare_terms st comparison left right limits =
     (case compare_observed st comparison left right limits of (status, evidence, _) \<Rightarrow> (status, evidence))"

section \<open>Orders of symbolic bounds\<close>

record bound_evidence =
  be_stop :: "difference_stop option"
  be_left :: symbolic_range_bound
  be_right :: symbolic_range_bound
  be_threshold :: "i128 option"
  be_difference :: "vir_memory_access difference_evidence option"
  be_status :: obligation_status
  be_cancelled :: "(affine_expression \<times> affine_expression) option"
  be_coordinates :: "(symbolic_range_bound \<times> symbolic_range_bound) option"

text \<open>A pointer in an expression is its own checked offset.\<close>

definition coordinate :: "('d, 'l, 's) resource_state \<Rightarrow> vir_value_id \<Rightarrow> u64_interval option" where
  "coordinate st v =
     (case st_value st v of
        Some (AVU64 i) \<Rightarrow> Some i
      | Some (AVPointer p) \<Rightarrow>
          if ap_provenance p \<noteq> ProvUnknown \<and> ap_access p \<noteq> None \<and> ap_offset_expression p = Some (ae_identity v)
          then Some (ap_offset_bytes p) else None
      | _ \<Rightarrow> None)"

definition evaluate_bound ::
  "('d, 'l, 's) resource_state \<Rightarrow> symbolic_range_bound \<Rightarrow> difference_stop + symbolic_range_bound" where
  "evaluate_bound st b =
     res_bind (ok_or InvalidInput (ae_interval (coordinate st) (sb_expression b))) (\<lambda>actual.
     res_bind (ok_or Inconsistent (iv_intersection (sb_interval b) actual)) (\<lambda>i.
       Inr \<lparr>sb_expression = sb_expression b, sb_interval = i\<rparr>))"

definition bound_roots :: "symbolic_range_bound \<Rightarrow> vir_value_id set" where
  "bound_roots b = set (map fst (ae_flat (sb_expression b)))"

definition is_pointer :: "abstract_value option \<Rightarrow> bool" where
  "is_pointer v = (case v of Some (AVPointer _) \<Rightarrow> True | _ \<Rightarrow> False)"

definition refine_pair ::
  "('d, 'l, 's) resource_state \<Rightarrow> symbolic_range_bound \<Rightarrow> symbolic_range_bound \<Rightarrow> difference_limits \<Rightarrow>
    difference_stop + (symbolic_range_bound \<times> symbolic_range_bound) option" where
  "refine_pair st left right limits =
     (let roots = bound_roots left \<union> bound_roots right in
      if \<not> (\<exists>v \<in> roots. is_pointer (st_value st v)) then Inr None
      else if card roots > max_variables limits \<or> max_steps limits < 4 + card roots then Inl StopBudget
      else case (evaluate_bound st left, evaluate_bound st right) of
        (Inr a, Inr b) \<Rightarrow> Inr (Some (a, b))
      | (a, b) \<Rightarrow> if a = Inl Inconsistent \<or> b = Inl Inconsistent then Inl Inconsistent else Inr None)"

definition several_roots :: "affine_expression \<Rightarrow> bool" where
  "several_roots e = (\<not> ae_is_constant e \<and> ae_single_root e = None)"

definition observe_threshold :: "bound_evidence \<Rightarrow> i128 \<Rightarrow> (u64 \<Rightarrow> observed) \<Rightarrow> bound_evidence" where
  "observe_threshold out threshold query =
     (case u64_try_from threshold of
        None \<Rightarrow> out
      | Some k \<Rightarrow>
          (case query k of (status, difference, stop) \<Rightarrow>
             out\<lparr>be_threshold := Some (uint k), be_status := status, be_difference := difference, be_stop := stop\<rparr>))"

definition branch_order :: "vir_value_id \<Rightarrow> vir_value_id \<Rightarrow> i128 \<Rightarrow> difference_branch \<Rightarrow> obligation_status" where
  "branch_order x y threshold br =
     (if list_ex (\<lambda>b. db_left b = Some x \<and> db_right b = Some y \<and> db_bound b \<le> threshold) (dbr_bounds br) then Proven
      else if list_ex (\<lambda>b. db_left b = Some y \<and> db_right b = Some x \<and> db_bound b < - threshold) (dbr_bounds br) then Refuted
      else Unknown)"

definition agreed_order :: "obligation_status list \<Rightarrow> obligation_status" where
  "agreed_order statuses =
     (if statuses \<noteq> [] \<and> list_all (\<lambda>s. s = Proven) statuses then Proven
      else if statuses \<noteq> [] \<and> list_all (\<lambda>s. s = Refuted) statuses then Refuted
      else Unknown)"

definition ordered_roots ::
  "('d, 'l, 's) resource_state \<Rightarrow> affine_expression \<Rightarrow> affine_expression \<Rightarrow> vir_value_id \<Rightarrow> vir_value_id \<Rightarrow>
    difference_limits \<Rightarrow> bound_evidence \<Rightarrow> bound_evidence" where
  "ordered_roots st a b x y limits out =
     (if ae_scale a = 0 \<or> ae_scale a \<noteq> ae_scale b then out\<lparr>be_stop := Some InvalidInput\<rparr>
      else
        let threshold = (uint (ae_addend b) - uint (ae_addend a)) div uint (ae_scale a);
            out' = out\<lparr>be_threshold := Some threshold\<rparr>;
            goal = \<lparr>dg_comparison = LessOrEqual, dg_left = relation_word x, dg_right = relation_word y\<rparr>
        in case query_premises st goal limits of
             Inl stop \<Rightarrow> out'\<lparr>be_stop := Some stop\<rparr>
           | Inr premises \<Rightarrow>
               let evidence = solve_difference premises goal limits;
                   status = (if de_stop evidence = Complete
                     then agreed_order (map (branch_order x y threshold)
                       (filter (\<lambda>br. dbr_contradiction br = None) (de_branches evidence)))
                     else Unknown)
               in out'\<lparr>be_status := (if status \<noteq> Unknown then status else be_status out'), be_difference := Some evidence\<rparr>)"

definition ordered_terms ::
  "('d, 'l, 's) resource_state \<Rightarrow> affine_expression \<Rightarrow> affine_expression \<Rightarrow> difference_limits \<Rightarrow> bound_evidence \<Rightarrow>
    bound_evidence" where
  "ordered_terms st a b limits out =
     (if several_roots a \<or> several_roots b then out\<lparr>be_stop := Some InvalidInput\<rparr>
      else if ae_is_constant a \<and> ae_is_constant b
      then out\<lparr>be_status := if ae_addend a \<le> ae_addend b then Proven else Refuted\<rparr>
      else case (ae_single_root a, ae_single_root b) of
        (Some x, Some y) \<Rightarrow> ordered_roots st a b x y limits out
      | (None, Some y) \<Rightarrow>
          if ae_scale b \<noteq> 0
          then observe_threshold out (- ((- (uint (ae_addend a) - uint (ae_addend b))) div uint (ae_scale b)))
            (\<lambda>k. compare_observed st LessOrEqual (RConstant k) (relation_word y) limits)
          else out
      | (Some x, None) \<Rightarrow>
          if ae_scale a \<noteq> 0
          then observe_threshold out ((uint (ae_addend b) - uint (ae_addend a)) div uint (ae_scale a))
            (\<lambda>k. compare_observed st LessOrEqual (relation_word x) (RConstant k) limits)
          else out
      | (None, None) \<Rightarrow> out)"

definition ordered_cancelled ::
  "('d, 'l, 's) resource_state \<Rightarrow> affine_expression \<Rightarrow> affine_expression \<Rightarrow> difference_limits \<Rightarrow> bound_evidence \<Rightarrow>
    bound_evidence option" where
  "ordered_cancelled st left right limits out =
     map_option (\<lambda>(a, b). ordered_terms st a b limits
         (if (a, b) \<noteq> (left, right) then out\<lparr>be_cancelled := Some (a, b)\<rparr> else out))
       (cancel_common left right)"

definition ordered_bounds ::
  "('d, 'l, 's) resource_state \<Rightarrow> symbolic_range_bound \<Rightarrow> symbolic_range_bound \<Rightarrow> difference_limits \<Rightarrow>
    bound_evidence option" where
  "ordered_bounds st left right limits =
     (let out = \<lparr>be_stop = None, be_left = left, be_right = right, be_threshold = None, be_difference = None,
            be_status = bound_le_status left right, be_cancelled = None, be_coordinates = None\<rparr> in
      if be_status out \<noteq> Unknown then Some out
      else case refine_pair st left right limits of
        Inl stop \<Rightarrow> Some (out\<lparr>be_stop := Some stop\<rparr>)
      | Inr None \<Rightarrow> ordered_cancelled st (sb_expression left) (sb_expression right) limits out
      | Inr (Some (a, b)) \<Rightarrow>
          let out' = out\<lparr>be_coordinates := Some (a, b), be_status := bound_le_status a b\<rparr> in
          if be_status out' \<noteq> Unknown then Some out'
          else ordered_cancelled st (sb_expression left) (sb_expression right) limits out')"

section \<open>Containment\<close>

definition all_status :: "obligation_status list \<Rightarrow> obligation_status" where
  "all_status statuses =
     (if list_ex (\<lambda>s. s = Refuted) statuses then Refuted
      else if list_all (\<lambda>s. s = Proven) statuses then Proven else Unknown)"

definition contained_in ::
  "('d, 'l, 's) resource_state \<Rightarrow> abstract_byte_range \<Rightarrow> abstract_byte_range \<Rightarrow> difference_limits \<Rightarrow>
    (obligation_status \<times> bound_evidence list) option" where
  "contained_in st outer inner limits =
     (case (abr_bounds outer, abr_bounds inner) of
        (Some (a, b), Some (x, y)) \<Rightarrow>
          (case (ordered_bounds st a x limits, ordered_bounds st y b limits) of
             (Some lower, Some upper) \<Rightarrow> Some (all_status [be_status lower, be_status upper], [lower, upper])
           | _ \<Rightarrow> None)
      | _ \<Rightarrow> Some (Unknown, []))"

definition access_range :: "abstract_pointer \<Rightarrow> u64 \<Rightarrow> abstract_byte_range" where
  "access_range p width =
     (case symbolic_bound (ap_offset_bytes p) (ap_offset_expression p) of
        None \<Rightarrow> RUnknown
      | Some start \<Rightarrow>
          (case sb_checked_add_constant start width of
             None \<Rightarrow> RUnknown
           | Some end' \<Rightarrow> from_bounds start end'))"

definition exact_coverage :: "byte_range \<Rightarrow> u64_interval \<Rightarrow> u64 \<Rightarrow> obligation_status" where
  "exact_coverage permission offset width =
     (if br_end permission - br_start permission < width then Refuted
      else
        let safe_end = br_end permission - width in
        if iv_lower offset \<ge> br_start permission \<and> iv_upper offset \<le> safe_end then Proven
        else if iv_upper offset < br_start permission \<or> iv_lower offset > safe_end then Refuted
        else Unknown)"

definition bounds_coverage ::
  "symbolic_range_bound \<Rightarrow> symbolic_range_bound \<Rightarrow> abstract_pointer \<Rightarrow> u64 \<Rightarrow> obligation_status" where
  "bounds_coverage first end' p width =
     (let offset = ap_offset_bytes p;
          start = map_option (\<lambda>e. \<lparr>sb_expression = e, sb_interval = offset\<rparr>) (ap_offset_expression p)
      in case (u64_checked_add (iv_lower offset) width, u64_checked_add (iv_upper offset) width) of
        (None, _) \<Rightarrow> Refuted
      | (Some _, None) \<Rightarrow> Unknown
      | (Some l, Some u) \<Rightarrow>
          let end_interval = (case iv_new l u of Inr i \<Rightarrow> i | Inl _ \<Rightarrow> iv_unknown) in
          all_status
            [case start of None \<Rightarrow> interval_le_status (sb_interval first) offset | Some b \<Rightarrow> bound_le_status first b,
             case Option.bind start (\<lambda>b. sb_checked_add_constant b width) of
               None \<Rightarrow> interval_le_status end_interval (sb_interval end') | Some b \<Rightarrow> bound_le_status b end'])"

definition interval_coverage :: "abstract_byte_range \<Rightarrow> abstract_pointer \<Rightarrow> u64 \<Rightarrow> obligation_status" where
  "interval_coverage permission p width =
     (case permission of
        RExact r \<Rightarrow> exact_coverage r (ap_offset_bytes p) width
      | _ \<Rightarrow> (case abr_bounds permission of
                None \<Rightarrow> Unknown
              | Some (first, end') \<Rightarrow> bounds_coverage first end' p width))"

definition covers_access ::
  "('d, 'l, 's) resource_state \<Rightarrow> abstract_byte_range \<Rightarrow> abstract_pointer \<Rightarrow> u64 \<Rightarrow> difference_limits \<Rightarrow>
    (obligation_status \<times> bound_evidence list) option" where
  "covers_access st outer p width limits =
     (if interval_coverage outer p width \<noteq> Unknown then Some (interval_coverage outer p width, [])
      else contained_in st outer (access_range p width) limits)"

section \<open>Disjointness\<close>

datatype range_reduction_rule =
    CommonTranslation
  | FixedStrideBands (rule_left_root: vir_value_id) (rule_right_root: vir_value_id) (rule_stride: u64)

datatype disjoint_evidence =
    DisjointEvidence (dj_left: abstract_byte_range) (dj_right: abstract_byte_range)
      (dj_orders: "bound_evidence \<times> bound_evidence")
      (dj_index_separation: "vir_memory_access difference_evidence option") (dj_index_stop: "difference_stop option")
      (dj_failed_bands: "range_reduction list") (dj_status: obligation_status) (dj_bands: "range_reduction option")
and range_reduction = RangeReduction (rr_rule: range_reduction_rule) (rr_proof: disjoint_evidence)

definition either_order :: "obligation_status \<Rightarrow> obligation_status \<Rightarrow> obligation_status" where
  "either_order first second =
     (if first = Proven \<or> second = Proven then Proven
      else if first = Refuted \<and> second = Refuted then Refuted else Unknown)"

text \<open>Slots of one array, no wider than its stride, are apart when their indices differ.\<close>

definition slot_indices ::
  "affine_expression \<Rightarrow> affine_expression \<Rightarrow> affine_expression \<Rightarrow> affine_expression \<Rightarrow> (vir_value_id \<times> vir_value_id) option" where
  "slot_indices a b x y =
     (case (ae_single_root a, ae_single_root x, u64_checked_sub (ae_addend b) (ae_addend a),
            u64_checked_sub (ae_addend y) (ae_addend x)) of
        (Some i, Some j, Some left_width, Some right_width) \<Rightarrow>
          if ae_scale a > 0 \<and> ae_scale a = ae_scale x \<and> ae_addend a = ae_addend x \<and>
             ae_single_root a = ae_single_root b \<and> ae_scale a = ae_scale b \<and>
             ae_single_root x = ae_single_root y \<and> ae_scale x = ae_scale y \<and>
             1 \<le> left_width \<and> left_width \<le> ae_scale a \<and> 1 \<le> right_width \<and> right_width \<le> ae_scale a
          then Some (i, j) else None
      | _ \<Rightarrow> None)"

definition index_separation ::
  "('d, 'l, 's) resource_state \<Rightarrow> (vir_value_id \<times> vir_value_id) option \<Rightarrow> difference_limits \<Rightarrow> obligation_status \<Rightarrow> observed" where
  "index_separation st indices limits status =
     (if status \<noteq> Unknown then (status, None, None)
      else case indices of
        None \<Rightarrow> (status, None, None)
      | Some (i, j) \<Rightarrow> compare_observed st NotEqual (relation_word i) (relation_word j) limits)"

definition evaluated :: "('d, 'l, 's) resource_state \<Rightarrow> affine_expression \<Rightarrow> symbolic_range_bound option" where
  "evaluated st e =
     map_option (\<lambda>i. \<lparr>sb_expression = e, sb_interval = i\<rparr>) (ae_interval (\<lambda>v. word_reading (st_value st v)) e)"

definition anchored_band ::
  "('d, 'l, 's) resource_state \<Rightarrow> vir_value_id \<Rightarrow> u64 \<Rightarrow> u64 \<Rightarrow> u64 \<Rightarrow> abstract_byte_range option" where
  "anchored_band st root scale low high =
     Option.bind (ae_checked_scale (ae_identity root) scale) (\<lambda>anchor.
     Option.bind (ae_checked_add_constant anchor low) (\<lambda>first.
     Option.bind (evaluated st first) (\<lambda>start.
     Option.bind (ae_checked_add_constant anchor high) (\<lambda>second.
     Option.bind (evaluated st second) (\<lambda>end'. Some (from_bounds start end'))))))"

definition range_band ::
  "('d, 'l, 's) resource_state \<Rightarrow> abstract_byte_range \<Rightarrow> vir_value_id \<Rightarrow> u64 \<Rightarrow> abstract_byte_range option option" where
  "range_band st r root scale =
     (case abr_bounds r of
        None \<Rightarrow> Some None
      | Some (a, b) \<Rightarrow>
          if \<not> same_terms (sb_expression a) (sb_expression b) then Some None
          else case without_root (sb_expression a) root of
            None \<Rightarrow> None
          | Some a' \<Rightarrow>
              (case evaluated st a' of
                 None \<Rightarrow> Some None
               | Some low \<Rightarrow>
                   (case without_root (sb_expression b) root of
                      None \<Rightarrow> None
                    | Some b' \<Rightarrow>
                        Some (Option.bind (evaluated st b') (\<lambda>high.
                          anchored_band st root scale (iv_lower (sb_interval low)) (iv_upper (sb_interval high)))))))"

definition range_several_roots :: "abstract_byte_range \<Rightarrow> bool" where
  "range_several_roots r =
     (case abr_bounds r of
        None \<Rightarrow> False
      | Some (a, b) \<Rightarrow> several_roots (sb_expression a) \<or> several_roots (sb_expression b))"

lemma several_roots_constant [simp]: "\<not> several_roots (ae_constant v)"
  by (simp add: several_roots_def ae_is_constant_def ae_constant_def)

lemma range_several_roots_from_bounds:
  "\<not> several_roots (sb_expression p) \<Longrightarrow> \<not> several_roots (sb_expression q) \<Longrightarrow> \<not> range_several_roots (from_bounds p q)"
proof -
  assume h: "\<not> several_roots (sb_expression p)" "\<not> several_roots (sb_expression q)"
  have fold: "\<not> several_roots (sb_expression (fold_exact b))" if "\<not> several_roots (sb_expression b)" for b
    using that by (simp add: fold_exact_def sb_constant_def split: option.split)
  show ?thesis
    using fold [OF h(1)] fold [OF h(2)]
    by (auto simp: from_bounds_def Let_def range_several_roots_def sb_constant_def br_new_def split: option.splits)
qed

lemma evaluated_expression: "evaluated st e = Some b \<Longrightarrow> sb_expression b = e"
  by (auto simp: evaluated_def)

lemma anchor_single:
  assumes "ae_checked_scale (ae_identity root) scale = Some anchor" and "ae_checked_add_constant anchor n = Some e"
  shows "\<not> several_roots e"
  using assms by (auto simp: ae_checked_scale_def ae_identity_def ae_checked_add_constant_def several_roots_def
      ae_is_constant_def ae_single_root_def ae_constant_def Option.bind_eq_Some_conv split: if_splits)

lemma anchored_band_single:
  assumes "anchored_band st root scale low high = Some r"
  shows "\<not> range_several_roots r"
proof -
  obtain anchor first start second end' where anchor: "ae_checked_scale (ae_identity root) scale = Some anchor"
      "ae_checked_add_constant anchor low = Some first" "ae_checked_add_constant anchor high = Some second"
    and bounds: "evaluated st first = Some start" "evaluated st second = Some end'" "r = from_bounds start end'"
    using assms by (auto simp: anchored_band_def Option.bind_eq_Some_conv)
  have "\<not> several_roots (sb_expression start)" "\<not> several_roots (sb_expression end')"
    using bounds(1,2) anchor_single [OF anchor(1,2)] anchor_single [OF anchor(1,3)] by (simp_all add: evaluated_expression)
  then show ?thesis using range_several_roots_from_bounds bounds(3) by blast
qed

lemma range_band_single: "range_band st r root scale = Some (Some b) \<Longrightarrow> \<not> range_several_roots b"
  by (auto simp: range_band_def Option.bind_eq_Some_conv anchored_band_single split: option.splits if_splits prod.splits)

definition shared_pairs :: "affine_expression \<Rightarrow> affine_expression \<Rightarrow> ((vir_value_id \<times> u64) \<times> (vir_value_id \<times> u64)) list" where
  "shared_pairs a x = List.product (ae_flat a) (ae_flat x)"

definition failed_reduction :: "range_reduction_rule \<Rightarrow> disjoint_evidence option \<Rightarrow> range_reduction list" where
  "failed_reduction rule evidence = (case evidence of None \<Rightarrow> [] | Some e \<Rightarrow> [RangeReduction rule e])"

definition translated_ranges ::
  "('d, 'l, 's) resource_state \<Rightarrow> affine_expression \<Rightarrow> affine_expression \<Rightarrow> affine_expression \<Rightarrow> affine_expression \<Rightarrow>
    (abstract_byte_range \<times> abstract_byte_range) option" where
  "translated_ranges st a b x y =
     Option.bind (evaluated st a) (\<lambda>a'. Option.bind (evaluated st b) (\<lambda>b'.
     Option.bind (evaluated st x) (\<lambda>x'. Option.bind (evaluated st y) (\<lambda>y'.
       Some (from_bounds a' b', from_bounds x' y')))))"

lemma translated_ranges_single:
  assumes "translated_ranges st a b x y = Some (l, r)" and "\<not> list_ex several_roots [a, x, b, y]"
  shows "\<not> range_several_roots l \<and> \<not> range_several_roots r"
proof -
  obtain a' b' x' y' where h: "evaluated st a = Some a'" "evaluated st b = Some b'" "evaluated st x = Some x'" "evaluated st y = Some y'"
    and lr: "l = from_bounds a' b'" "r = from_bounds x' y'"
    using assms(1) by (auto simp: translated_ranges_def Option.bind_eq_Some_conv)
  then show ?thesis
    using assms(2) range_several_roots_from_bounds [of a' b'] range_several_roots_from_bounds [of x' y'] h [THEN evaluated_expression]
    by simp
qed

function disjoint_same ::
    "('d, 'l, 's) resource_state \<Rightarrow> difference_limits \<Rightarrow> abstract_byte_range \<Rightarrow> abstract_byte_range \<Rightarrow>
      (obligation_status \<times> disjoint_evidence option) option"
  and band_disjointness ::
    "('d, 'l, 's) resource_state \<Rightarrow> difference_limits \<Rightarrow> abstract_byte_range \<Rightarrow> abstract_byte_range \<Rightarrow>
      (range_reduction option \<times> range_reduction list) option"
  and band_pairs ::
    "('d, 'l, 's) resource_state \<Rightarrow> difference_limits \<Rightarrow> abstract_byte_range \<Rightarrow> abstract_byte_range \<Rightarrow>
      ((vir_value_id \<times> u64) \<times> (vir_value_id \<times> u64)) list \<Rightarrow> range_reduction list \<Rightarrow>
      (range_reduction option \<times> range_reduction list) option" where
  "disjoint_same st limits left right =
     (case (abr_bounds left, abr_bounds right) of
        (Some (a, b), Some (x, y)) \<Rightarrow>
          if sb_expression a = sb_expression b \<or> sb_expression x = sb_expression y then Some (Proven, None)
          else (case (ordered_bounds st b x limits, ordered_bounds st y a limits) of
             (Some first, Some second) \<Rightarrow>
               (case index_separation st (slot_indices (sb_expression a) (sb_expression b) (sb_expression x) (sb_expression y))
                       limits (either_order (be_status first) (be_status second)) of
                  (status, index, stop) \<Rightarrow>
                    if status \<noteq> Unknown
                    then Some (status, Some (DisjointEvidence left right (first, second) index stop [] status None))
                    else (case band_disjointness st limits left right of
                       None \<Rightarrow> None
                     | Some (bands, failed) \<Rightarrow>
                         let status' = (if bands = None then Unknown else Proven) in
                         Some (status', Some (DisjointEvidence left right (first, second) index stop failed status' bands))))
           | _ \<Rightarrow> None)
      | _ \<Rightarrow> Some (Unknown, None))"
| "band_disjointness st limits left right =
     (case (abr_bounds left, abr_bounds right) of
        (Some (a, b), Some (x, y)) \<Rightarrow>
          if \<not> (range_several_roots left \<or> range_several_roots right) then Some (None, [])
          else (case (cancel_common (sb_expression a) (sb_expression x), cancel_common (sb_expression b) (sb_expression y)) of
             (Some (aa, xx), Some (bb, yy)) \<Rightarrow>
               if same_terms (sb_expression a) (sb_expression b) \<and> same_terms (sb_expression x) (sb_expression y) \<and>
                  \<not> list_ex several_roots [aa, xx, bb, yy]
               then (case translated_ranges st aa bb xx yy of
                       None \<Rightarrow> Some (None, [])
                     | Some (l, r) \<Rightarrow>
                         (case disjoint_same st limits l r of
                            None \<Rightarrow> None
                          | Some (status, evidence) \<Rightarrow>
                              if status = Proven then Some (map_option (RangeReduction CommonTranslation) evidence, [])
                              else band_pairs st limits left right (shared_pairs (sb_expression a) (sb_expression x))
                                (failed_reduction CommonTranslation evidence)))
               else band_pairs st limits left right (shared_pairs (sb_expression a) (sb_expression x)) []
           | _ \<Rightarrow> None)
      | _ \<Rightarrow> Some (None, []))"
| "band_pairs st limits left right [] failed = Some (None, failed)"
| "band_pairs st limits left right (((i, s), (j, t)) # rest) failed =
     (if s \<noteq> t then band_pairs st limits left right rest failed
      else (case (range_band st left i s, range_band st right j t) of
         (Some (Some l), Some (Some r)) \<Rightarrow>
           (case disjoint_same st limits l r of
              None \<Rightarrow> None
            | Some (status, evidence) \<Rightarrow>
                if status = Proven then Some (map_option (RangeReduction (FixedStrideBands i j s)) evidence, failed)
                else band_pairs st limits left right rest (failed @ failed_reduction (FixedStrideBands i j s) evidence))
       | (Some _, Some _) \<Rightarrow> band_pairs st limits left right rest failed
       | _ \<Rightarrow> None))"
  by pat_completeness auto

text \<open>A query on several roots asks queries on single roots only, so the recursion has depth two.\<close>

fun reduction_rank ::
  "('a \<times> 'b \<times> abstract_byte_range \<times> abstract_byte_range) +
   ('a \<times> 'b \<times> abstract_byte_range \<times> abstract_byte_range) + ('a \<times> 'b \<times> abstract_byte_range \<times> abstract_byte_range \<times> 'c list \<times> 'd)
   \<Rightarrow> nat" where
  "reduction_rank (Inl (st, limits, l, r)) = (if range_several_roots l \<or> range_several_roots r then 5 else 2)"
| "reduction_rank (Inr (Inl (st, limits, l, r))) = (if range_several_roots l \<or> range_several_roots r then 4 else 1)"
| "reduction_rank (Inr (Inr _)) = 3"

fun pairs_left ::
  "('a \<times> 'b \<times> abstract_byte_range \<times> abstract_byte_range) +
   ('a \<times> 'b \<times> abstract_byte_range \<times> abstract_byte_range) + ('a \<times> 'b \<times> abstract_byte_range \<times> abstract_byte_range \<times> 'c list \<times> 'd)
   \<Rightarrow> nat" where
  "pairs_left (Inr (Inr (st, limits, l, r, pairs, failed))) = length pairs"
| "pairs_left _ = 0"

termination disjoint_same
  by (relation "measures [reduction_rank, pairs_left]") (auto dest: translated_ranges_single range_band_single range_band_single [OF sym])

definition disjoint_ranges ::
  "('d, 'l, 's) resource_state \<Rightarrow> abstract_provenance \<Rightarrow> abstract_byte_range \<Rightarrow> abstract_provenance \<Rightarrow> abstract_byte_range \<Rightarrow>
    difference_limits \<Rightarrow> (obligation_status \<times> disjoint_evidence option) option" where
  "disjoint_ranges st left_provenance left right_provenance right limits =
     (case (left_provenance, right_provenance) of
        (ProvKnown a, ProvKnown b) \<Rightarrow> if a \<noteq> b then Some (Proven, None) else disjoint_same st limits left right
      | _ \<Rightarrow> Some (Unknown, None))"

definition non_overlapping ::
  "('d, 'l, 's) resource_state \<Rightarrow> abstract_pointer \<Rightarrow> abstract_pointer \<Rightarrow> u64 \<Rightarrow> difference_limits \<Rightarrow>
    (obligation_status \<times> disjoint_evidence option) option" where
  "non_overlapping st left right width limits =
     (if object_non_overlap_status left right width \<noteq> Unknown then Some (object_non_overlap_status left right width, None)
      else disjoint_ranges st (ap_provenance left) (access_range left width) (ap_provenance right) (access_range right width)
        limits)"

section \<open>The journal\<close>

definition MAX_QUERIES_PER_SITE :: nat where
  "MAX_QUERIES_PER_SITE = 4096"

definition RELATION_THEORY :: string where
  "RELATION_THEORY = ''u64-nonwrapping/difference-i128/affine2/halfopen-v1''"

definition RELATION_KERNEL_VERSION :: nat where
  "RELATION_KERNEL_VERSION = 171"

datatype query_goal =
    GoalCompare "vir_memory_access difference_goal"
  | GoalOrdered symbolic_range_bound symbolic_range_bound
  | GoalContained abstract_byte_range abstract_byte_range
  | GoalCoversAccess abstract_byte_range abstract_pointer u64
  | GoalNonOverlapping abstract_pointer abstract_pointer u64
  | GoalDisjoint abstract_provenance abstract_byte_range abstract_provenance abstract_byte_range

datatype query_witness =
    WitnessComparison "u64_interval option" "u64_interval option" "vir_memory_access difference_evidence option"
      "difference_stop option"
  | WitnessBounds "bound_evidence list"
  | WitnessDisjoint "disjoint_evidence option"

datatype query_outcome =
    OutcomeProven | RefutedCondition | MissingRelation | BudgetExhausted | UnsupportedTheory | InconsistentPremises

record query_observation =
  qo_theory :: string
  qo_goal :: query_goal
  qo_guard :: path_condition
  qo_relations :: "vir_memory_access difference_premise list"
  qo_losses :: "relation_precision_loss set"
  qo_limits :: difference_limits
  qo_status :: obligation_status
  qo_outcome :: query_outcome
  qo_witness :: query_witness
  qo_kernel_version :: nat

record query_log =
  ql_records :: "query_observation list"
  ql_overflow :: bool

definition ql_default :: query_log where
  "ql_default = \<lparr>ql_records = [], ql_overflow = False\<rparr>"

definition ql_finish :: "query_log \<Rightarrow> query_observation list option" where
  "ql_finish log = (if \<not> ql_overflow log then Some (ql_records log) else None)"

definition bound_stops :: "bound_evidence \<Rightarrow> difference_stop list" where
  "bound_stops b = flatten_options [be_stop b, map_option de_stop (be_difference b)]"

fun disjoint_stops :: "disjoint_evidence \<Rightarrow> difference_stop list"
  and reduction_stops :: "range_reduction \<Rightarrow> difference_stop list" where
  "disjoint_stops (DisjointEvidence left right orders separation stop failed status bands) =
     flatten_options [stop] @ concat (map reduction_stops failed) @ bound_stops (fst orders) @ bound_stops (snd orders) @
     flatten_options [map_option de_stop separation] @ (case bands of None \<Rightarrow> [] | Some b \<Rightarrow> reduction_stops b)"
| "reduction_stops (RangeReduction rule e) = disjoint_stops e"

fun witness_stops :: "query_witness \<Rightarrow> difference_stop list" where
  "witness_stops (WitnessComparison l r difference stop) = flatten_options [stop, map_option de_stop difference]"
| "witness_stops (WitnessBounds bounds) = concat (map bound_stops bounds)"
| "witness_stops (WitnessDisjoint (Some d)) = disjoint_stops d"
| "witness_stops (WitnessDisjoint None) = []"

definition outcome_of :: "obligation_status \<Rightarrow> query_witness \<Rightarrow> query_outcome" where
  "outcome_of status witness =
     (if status = Proven then OutcomeProven
      else if status = Refuted then RefutedCondition
      else let stops = set (witness_stops witness) in
        if StopBudget \<in> stops then BudgetExhausted
        else if InvalidInput \<in> stops \<or> ArithmeticOverflow \<in> stops then UnsupportedTheory
        else if Inconsistent \<in> stops then InconsistentPremises
        else MissingRelation)"

definition ql_record ::
  "('d, 'l, 's) resource_state \<Rightarrow> query_goal \<Rightarrow> difference_limits \<Rightarrow> obligation_status \<Rightarrow> query_witness \<Rightarrow> query_log \<Rightarrow>
    obligation_status \<times> query_log" where
  "ql_record st goal limits status witness log =
     (status,
      if length (ql_records log) \<ge> MAX_QUERIES_PER_SITE then log\<lparr>ql_overflow := True\<rparr>
      else log\<lparr>ql_records := ql_records log @
        [\<lparr>qo_theory = RELATION_THEORY, qo_goal = goal, qo_guard = st_path st, qo_relations = rs_premises (st_relations st),
          qo_losses = rs_losses (st_relations st), qo_limits = limits, qo_status = status,
          qo_outcome = outcome_of status witness, qo_witness = witness, qo_kernel_version = RELATION_KERNEL_VERSION\<rparr>]\<rparr>)"

definition ql_compare ::
  "('d, 'l, 's) resource_state \<Rightarrow> relation_comparison \<Rightarrow> vir_memory_access relation_term \<Rightarrow>
    vir_memory_access relation_term \<Rightarrow> difference_limits \<Rightarrow> query_log \<Rightarrow> obligation_status \<times> query_log" where
  "ql_compare st comparison left right limits log =
     (case compare_observed st comparison left right limits of (status, difference, stop) \<Rightarrow>
        ql_record st (GoalCompare \<lparr>dg_comparison = comparison, dg_left = left, dg_right = right\<rparr>) limits status
          (WitnessComparison (term_interval st left) (term_interval st right) difference stop) log)"

definition ql_contained ::
  "('d, 'l, 's) resource_state \<Rightarrow> abstract_byte_range \<Rightarrow> abstract_byte_range \<Rightarrow> difference_limits \<Rightarrow> query_log \<Rightarrow>
    (obligation_status \<times> query_log) option" where
  "ql_contained st outer inner limits log =
     map_option (\<lambda>(status, bounds). ql_record st (GoalContained outer inner) limits status (WitnessBounds bounds) log)
       (contained_in st outer inner limits)"

definition ql_ordered ::
  "('d, 'l, 's) resource_state \<Rightarrow> symbolic_range_bound \<Rightarrow> symbolic_range_bound \<Rightarrow> difference_limits \<Rightarrow> query_log \<Rightarrow>
    (obligation_status \<times> query_log) option" where
  "ql_ordered st left right limits log =
     map_option (\<lambda>bound. ql_record st (GoalOrdered left right) limits (be_status bound) (WitnessBounds [bound]) log)
       (ordered_bounds st left right limits)"

definition ql_covers_access ::
  "('d, 'l, 's) resource_state \<Rightarrow> abstract_byte_range \<Rightarrow> abstract_pointer \<Rightarrow> u64 \<Rightarrow> difference_limits \<Rightarrow> query_log \<Rightarrow>
    (obligation_status \<times> query_log) option" where
  "ql_covers_access st outer p width limits log =
     map_option (\<lambda>(status, bounds). ql_record st (GoalCoversAccess outer p width) limits status (WitnessBounds bounds) log)
       (covers_access st outer p width limits)"

definition ql_disjoint ::
  "('d, 'l, 's) resource_state \<Rightarrow> abstract_provenance \<Rightarrow> abstract_byte_range \<Rightarrow> abstract_provenance \<Rightarrow> abstract_byte_range \<Rightarrow>
    difference_limits \<Rightarrow> query_log \<Rightarrow> (obligation_status \<times> query_log) option" where
  "ql_disjoint st a left b right limits log =
     map_option (\<lambda>(status, proof'). ql_record st (GoalDisjoint a left b right) limits status (WitnessDisjoint proof') log)
       (disjoint_ranges st a left b right limits)"

definition ql_non_overlapping ::
  "('d, 'l, 's) resource_state \<Rightarrow> abstract_pointer \<Rightarrow> abstract_pointer \<Rightarrow> u64 \<Rightarrow> difference_limits \<Rightarrow> query_log \<Rightarrow>
    (obligation_status \<times> query_log) option" where
  "ql_non_overlapping st left right width limits log =
     map_option (\<lambda>(status, proof'). ql_record st (GoalNonOverlapping left right width) limits status (WitnessDisjoint proof') log)
       (non_overlapping st left right width limits)"

end
