(* ===== verification/Resource_Join.thy ===== *)
theory Resource_Join
  imports Resource_Machine
begin

text \<open>
  The joins of resource states. The maps of a state are merged key by key, each merged entry is what the two entries
  of its key give, and the joined or widened state is true of every machine one of the two states is true of.
\<close>

section \<open>Keyed folds\<close>

text \<open>A fold over keys that writes at most the entry of its key leaves the right entry under every key.\<close>

lemma keyed_fold:
  assumes "res_fold f ks acc = Inr acc'" and "bt_sorted (m acc)"
    and "\<And>k s s'. k \<in> set ks \<Longrightarrow> bt_sorted (m s) \<Longrightarrow> bt_get (m s) k = None \<or> R k (bt_get (m s) k) \<Longrightarrow> f k s = Inr s' \<Longrightarrow>
      bt_sorted (m s') \<and> R k (bt_get (m s') k) \<and> (\<forall>j. j \<noteq> k \<longrightarrow> bt_get (m s') j = bt_get (m s) j)"
    and "\<forall>k. bt_get (m acc) k = None"
  shows "bt_sorted (m acc') \<and> (\<forall>k \<in> set ks. R k (bt_get (m acc') k)) \<and> (\<forall>k. k \<notin> set ks \<longrightarrow> bt_get (m acc') k = None)"
proof (rule res_fold_prefix [OF assms(1), where I = "\<lambda>ys s. bt_sorted (m s) \<and>
    (\<forall>k \<in> set ys. R k (bt_get (m s) k)) \<and> (\<forall>k. k \<notin> set ys \<longrightarrow> bt_get (m s) k = None)"])
  show "bt_sorted (m acc) \<and> (\<forall>k \<in> set []. R k (bt_get (m acc) k)) \<and> (\<forall>k. k \<notin> set [] \<longrightarrow> bt_get (m acc) k = None)"
    using assms(2,4) by simp
next
  fix ys x zs s s'
  assume ks: "ks = ys @ x # zs" and f: "f x s = Inr s'"
    and I: "bt_sorted (m s) \<and> (\<forall>k \<in> set ys. R k (bt_get (m s) k)) \<and> (\<forall>k. k \<notin> set ys \<longrightarrow> bt_get (m s) k = None)"
  have "x \<in> set ks" by (simp add: ks)
  moreover have "bt_get (m s) x = None \<or> R x (bt_get (m s) x)" using I by (cases "x \<in> set ys") simp_all
  ultimately have s': "bt_sorted (m s') \<and> R x (bt_get (m s') x) \<and> (\<forall>j. j \<noteq> x \<longrightarrow> bt_get (m s') j = bt_get (m s) j)"
    using assms(3) I f by blast
  then show "bt_sorted (m s') \<and> (\<forall>k \<in> set (ys @ [x]). R k (bt_get (m s') k)) \<and>
      (\<forall>k. k \<notin> set (ys @ [x]) \<longrightarrow> bt_get (m s') k = None)"
    using I by (metis (no_types, lifting) Un_iff insert_iff list.set(1) list.set(2) set_append singletonD)
qed

lemma bt_get_absent: "k \<notin> set (bt_keys m) \<Longrightarrow> bt_get m k = None"
  by (cases "bt_get m k") (force simp: bt_keys_def dest!: bt_get_in_set)+

section \<open>Loans\<close>

definition loan_merged :: "abstract_loan option \<Rightarrow> abstract_loan option \<Rightarrow> u32 \<Rightarrow> abstract_loan option \<Rightarrow> bool" where
  "loan_merged left right loan entry =
     (case (left, right) of
        (Some l, Some r) \<Rightarrow> \<exists>j. al_join l r loan = Inr j \<and> entry = Some j
      | (None, None) \<Rightarrow> entry = None
      | (Some l, None) \<Rightarrow> entry = (if al_activity l = LoanEnded then None else Some (al_join_absent l))
      | (None, Some l) \<Rightarrow> entry = (if al_activity l = LoanEnded then None else Some (al_join_absent l)))"

lemma join_loan_step:
  assumes "join_loan left right loan acc = Inr acc'" and "bt_sorted (fst acc)"
    and "bt_get (fst acc) loan = None \<or> loan_merged (bt_get left loan) (bt_get right loan) loan (bt_get (fst acc) loan)"
  shows "bt_sorted (fst acc') \<and> loan_merged (bt_get left loan) (bt_get right loan) loan (bt_get (fst acc') loan) \<and>
    (\<forall>j. j \<noteq> loan \<longrightarrow> bt_get (fst acc') j = bt_get (fst acc) j)"
proof -
  obtain joined lost where acc: "acc = (joined, lost)" by force
  show ?thesis
  proof (cases "bt_get left loan"; cases "bt_get right loan")
    fix l r
    assume "bt_get left loan = Some l" "bt_get right loan = Some r"
    then show ?thesis using assms by (auto simp: acc join_loan_def loan_merged_def Let_def insert_get)
  qed (use assms in \<open>auto simp: acc join_loan_def loan_merged_def Let_def insert_get split: if_splits\<close>)
qed

lemma join_loans_get:
  assumes "join_loans left right = Inr (joined, lost)"
  shows "bt_sorted joined" and "loan_merged (bt_get left loan) (bt_get right loan) loan (bt_get joined loan)"
proof -
  let ?ks = "sort (remdups (bt_keys left @ bt_keys right))"
  have "bt_sorted (fst (joined, lost)) \<and>
      (\<forall>k \<in> set ?ks. loan_merged (bt_get left k) (bt_get right k) k (bt_get (fst (joined, lost)) k)) \<and>
      (\<forall>k. k \<notin> set ?ks \<longrightarrow> bt_get (fst (joined, lost)) k = None)"
    by (rule keyed_fold [OF assms [unfolded join_loans_def]]) (use join_loan_step in \<open>auto simp: bt_sorted_def\<close>)
  moreover have "loan_merged (bt_get left loan) (bt_get right loan) loan None" if "loan \<notin> set ?ks"
    using that by (simp add: bt_get_absent loan_merged_def)
  ultimately show "bt_sorted joined" "loan_merged (bt_get left loan) (bt_get right loan) loan (bt_get joined loan)"
    by (simp_all only: fst_conv) metis
qed

lemma al_join_parts:
  assumes "al_join a b loan = Inr j"
  shows "al_footprint j = slice_join (al_footprint a) (al_footprint b)"
    and "al_provenance j = prov_join (al_provenance a) (al_provenance b)"
    and "al_activity j = loan_activity_join (al_activity a) (al_activity b)"
  using assms by (auto simp: al_join_def split: if_splits)

lemma loan_merged_ok:
  assumes "loan_merged left right loan (Some j)" and "\<And>l. left = Some l \<Longrightarrow> loan_ok l" and "\<And>l. right = Some l \<Longrightarrow> loan_ok l"
  shows "loan_ok j"
proof (cases "left"; cases "right")
  fix l r
  assume lr: "left = Some l" "right = Some r"
  have j: "al_join l r loan = Inr j" using assms(1) by (auto simp: lr loan_merged_def)
  have ok: "loan_ok l" "loan_ok r" using assms(2,3) lr by blast+
  show ?thesis
  proof (cases "slice_join (al_footprint l) (al_footprint r)")
    case None
    then show ?thesis by (simp add: loan_ok_def al_join_parts [OF j])
  next
    case (Some h)
    from slice_join_Some [OF Some] show ?thesis
      by (rule) (use ok Some range_exprs_join in \<open>auto simp: loan_ok_def al_join_parts [OF j]\<close>)
  qed
qed (use assms in \<open>auto simp: loan_merged_def loan_ok_def al_join_absent_def split: if_splits option.splits\<close>)

lemma loan_merged_means:
  assumes "loan_merged left right loan entry" and "loan_means left s \<or> loan_means right s"
  shows "loan_means entry s"
proof (cases "left"; cases "right")
  fix l r
  assume lr: "left = Some l" "right = Some r"
  then obtain j where j: "al_join l r loan = Inr j" "entry = Some j" using assms(1) by (auto simp: loan_merged_def)
  have "loan_activity_holds (al_activity j) (cl_activity s)"
    unfolding al_join_parts(3) [OF j(1)] by (rule lad.join_covers) (use assms(2) lr in \<open>auto simp: loan_means_def\<close>)
  then show ?thesis using al_join_holds [OF j(1), of s] assms(2) by (auto simp: lr j(2) loan_means_def)
next
  fix l
  assume "left = Some l" "right = None"
  then show ?thesis using assms al_join_absent_holds(1) [of l s]
    by (cases "al_activity l") (auto simp: loan_merged_def loan_means_def al_join_absent_def)
next
  fix l
  assume "left = None" "right = Some l"
  then show ?thesis using assms al_join_absent_holds(1) [of l s]
    by (cases "al_activity l") (auto simp: loan_merged_def loan_means_def al_join_absent_def)
qed (use assms in \<open>simp add: loan_merged_def\<close>)

section \<open>Allocations\<close>

definition alloc_merged ::
  "abstract_allocation option \<Rightarrow> abstract_allocation option \<Rightarrow> abstract_allocation_id \<Rightarrow> abstract_allocation option \<Rightarrow> bool" where
  "alloc_merged left right aid entry =
     (case (left, right) of
        (Some l, Some r) \<Rightarrow> \<exists>j. aa_join aid l r = Inr j \<and> entry = Some j
      | (None, None) \<Rightarrow> entry = None
      | (Some a, None) \<Rightarrow> absent_join aid a = Inr entry
      | (None, Some a) \<Rightarrow> absent_join aid a = Inr entry)"

lemma join_allocation_step:
  assumes "join_allocation left right aid joined = Inr joined'" and "bt_sorted joined"
    and "bt_get joined aid = None \<or> alloc_merged (bt_get left aid) (bt_get right aid) aid (bt_get joined aid)"
  shows "bt_sorted joined' \<and> alloc_merged (bt_get left aid) (bt_get right aid) aid (bt_get joined' aid) \<and>
    (\<forall>j. j \<noteq> aid \<longrightarrow> bt_get joined' j = bt_get joined j)"
proof (cases "bt_get joined aid")
  case None
  let ?merged = "case (bt_get left aid, bt_get right aid) of
           (Some l, Some r) \<Rightarrow> res_bind (aa_join aid l r) (\<lambda>j. Inr (Some j))
         | (Some a, None) \<Rightarrow> absent_join aid a
         | (None, Some a) \<Rightarrow> absent_join aid a
         | (None, None) \<Rightarrow> Inr None"
  obtain entry where entry: "?merged = Inr entry"
    and next_map: "(case entry of None \<Rightarrow> Inr joined
         | Some j \<Rightarrow> if length joined \<ge> MAX_ALLOCATION_SLOTS then Inl AllocationInstanceBudget else Inr (bt_insert aid j joined)) =
       Inr joined'"
    using assms(1) None unfolding join_allocation_def by auto
  have "alloc_merged (bt_get left aid) (bt_get right aid) aid entry"
    using entry by (auto simp: alloc_merged_def split: option.splits)
  then show ?thesis using next_map assms(2) None by (auto simp: insert_get split: option.splits if_splits)
next
  case (Some a)
  then have "joined' = joined" using assms(1) by (simp add: join_allocation_def)
  then show ?thesis using assms(2,3) Some by simp
qed

lemma join_allocations_get:
  assumes "join_allocations left right = Inr joined"
  shows "bt_sorted joined" and "alloc_merged (bt_get left aid) (bt_get right aid) aid (bt_get joined aid)"
proof -
  let ?ks = "bt_keys left @ bt_keys right"
  have "bt_sorted joined \<and> (\<forall>k \<in> set ?ks. alloc_merged (bt_get left k) (bt_get right k) k (bt_get joined k)) \<and>
      (\<forall>k. k \<notin> set ?ks \<longrightarrow> bt_get joined k = None)"
    by (rule keyed_fold [where m = "\<lambda>x. x", OF assms [unfolded join_allocations_def]])
      (use join_allocation_step in \<open>auto simp: bt_sorted_def\<close>)
  moreover have "alloc_merged (bt_get left aid) (bt_get right aid) aid None" if "aid \<notin> set ?ks"
    using that by (simp add: bt_get_absent alloc_merged_def)
  ultimately show "bt_sorted joined" "alloc_merged (bt_get left aid) (bt_get right aid) aid (bt_get joined aid)"
    by metis+
qed

lemma aa_join_parts:
  assumes "aa_join aid a b = Inr j"
  shows "aa_scalar_contents j = sc_join (aa_scalar_contents a) (aa_scalar_contents b)"
    and "aa_liveness j = live_join (aa_liveness a) (aa_liveness b)" and "aa_ownership j = own_join (aa_ownership a) (aa_ownership b)"
    and "aa_object_state j = os_join (aa_object_state a) (aa_object_state b)" and "aa_prefixes j = ip_join (aa_prefixes a) (aa_prefixes b)"
  using assms by (auto simp: aa_join_def split: if_splits)

lemma payloads_join_ok:
  assumes "os_wf a" and "os_wf b" and "\<forall>k s. (k, s) \<in> set (os_resource_payloads a) \<longrightarrow> payload_ok s"
    and "(k, s) \<in> set (os_resource_payloads (os_join a b))"
  shows "payload_ok s"
proof -
  obtain ok j where j: "os_join_checked a b = (ok, j)" "joined_payloads a b j" using os_join_spec [OF assms(1,2)] by metis
  then have s: "s = mp_join (os_resource_payload a k) (os_resource_payload b k)"
    using assms(4) by (auto simp: os_join_def joined_payloads_def)
  have "payload_ok (os_resource_payload a k)"
    using assms(3) by (auto simp: os_resource_payload_def split: option.split dest!: bt_get_in_set)
  then show ?thesis unfolding s mpd.join_flat by auto
qed

lemma ip_join_Nil: "a = [] \<or> b = [] \<Longrightarrow> ip_join a b = []"
  by (auto simp: ip_join_def List.map_filter_def)

lemma alloc_join_ok:
  assumes "alloc_ok a" and "alloc_ok b" and "aa_join aid a b = Inr j"
  shows "alloc_ok j"
  unfolding alloc_ok_def
proof (intro conjI impI allI)
  show "aa_wf j" by (rule aa_join_ok(1) [OF _ _ assms(3)]) (use assms(1,2) in \<open>simp_all add: alloc_ok_def\<close>)
  assume "aa_liveness j \<noteq> Live"
  then have "aa_liveness a \<noteq> Live \<or> aa_liveness b \<noteq> Live"
    unfolding aa_join_parts(2) [OF assms(3)] by (auto simp: lived.join_flat)
  then have "aa_prefixes a = [] \<or> aa_prefixes b = []" using assms(1,2) by (auto simp: alloc_ok_def)
  then show "aa_prefixes j = []" using aa_join_parts(5) [OF assms(3)] ip_join_Nil by simp
next
  fix k s
  assume "(k, s) \<in> set (os_resource_payloads (aa_object_state j))"
  then show "payload_ok s"
    unfolding aa_join_parts(4) [OF assms(3)]
    by (intro payloads_join_ok [of "aa_object_state a" "aa_object_state b"]) (use assms(1,2) in \<open>auto simp: alloc_ok_def aa_wf_def\<close>)
qed

lemma mark_dead_alloc_ok: "alloc_ok a \<Longrightarrow> alloc_ok (aa_mark_dead a)"
  by (auto simp: alloc_ok_def aa_wf_def aa_mark_dead_def aa_edits)

lemma absent_join_cases:
  assumes "absent_join aid a = Inr entry"
  obtains j where "aa_liveness a \<noteq> Dead" "aa_ownership a \<noteq> Unowned" "aa_join aid a (aa_mark_dead a) = Inr j" "entry = Some j"
    | "aa_liveness a = Dead \<or> aa_ownership a = Unowned" "entry = None"
  using assms by (cases "aa_liveness a \<noteq> Dead \<and> aa_ownership a \<noteq> Unowned") (simp_all add: absent_join_def, metis)

lemma absent_join_ok:
  assumes "alloc_ok a" and "absent_join aid a = Inr (Some j)"
  shows "alloc_ok j"
  using assms(2) by (cases rule: absent_join_cases) (use alloc_join_ok [OF assms(1) mark_dead_alloc_ok [OF assms(1)]] in simp_all)

lemma alloc_merged_ok:
  assumes "alloc_merged left right aid (Some j)" and "\<And>l. left = Some l \<Longrightarrow> alloc_ok l" and "\<And>l. right = Some l \<Longrightarrow> alloc_ok l"
  shows "alloc_ok j"
proof (cases "left"; cases "right")
  fix l r
  assume lr: "left = Some l" "right = Some r"
  then have "aa_join aid l r = Inr j" using assms(1) by (auto simp: alloc_merged_def)
  then show ?thesis using alloc_join_ok assms(2,3) lr by blast
next
  fix l
  assume "left = Some l" "right = None"
  then show ?thesis using assms(1) absent_join_ok [OF assms(2)] by (simp add: alloc_merged_def)
next
  fix l
  assume "left = None" "right = Some l"
  then show ?thesis using assms(1) absent_join_ok [OF assms(3)] by (simp add: alloc_merged_def)
qed (use assms(1) in \<open>simp add: alloc_merged_def\<close>)

lemma cell_histories_join:
  assumes "aa_join aid a b = Inr j" and "cell_histories a r c \<or> cell_histories b r c" and "alloc_ok b"
  shows "cell_histories j r c"
proof -
  have "set (sc_word_origins (aa_scalar_contents j)) \<subseteq> set (sc_word_origins (aa_scalar_contents a)) \<inter>
      set (sc_word_origins (aa_scalar_contents b))"
    "set (sc_bool_origins (aa_scalar_contents j)) \<subseteq> set (sc_bool_origins (aa_scalar_contents a)) \<inter>
      set (sc_bool_origins (aa_scalar_contents b))"
    by (auto simp: aa_join_parts(1) [OF assms(1)] sc_join_def dest: bt_get_in_set)
  then show ?thesis using assms(2) unfolding cell_histories_def by blast
qed

lemma alloc_join_means:
  assumes "alloc_ok a" and "alloc_ok b" and "aa_join aid a b = Inr j"
    and "alloc_means (Some a) r c \<or> alloc_means (Some b) r c"
  shows "alloc_means (Some j) r c"
proof -
  have "live_holds (aa_liveness j) (ar_live r)"
    unfolding aa_join_parts(2) [OF assms(3)] by (rule lived.join_covers) (use assms(4) in \<open>auto simp: alloc_means_def\<close>)
  moreover have "own_holds (aa_ownership j) (ar_owned r)"
    unfolding aa_join_parts(3) [OF assms(3)] by (rule ownd.join_covers) (use assms(4) in \<open>auto simp: alloc_means_def\<close>)
  moreover have "aa_holds j r \<and> cell_histories j r c" if "aa_liveness j = Live"
  proof -
    have "aa_liveness a = Live" "aa_liveness b = Live"
      using that by (auto simp: aa_join_parts(2) [OF assms(3)] lived.join_flat split: if_splits)
    then have "aa_holds a r \<and> cell_histories a r c \<or> aa_holds b r \<and> cell_histories b r c"
      using assms(4) by (auto simp: alloc_means_def)
    then show ?thesis
      using aa_join_ok(2) [OF _ _ assms(3), of r] assms(1,2) cell_histories_join [OF assms(3) _ assms(2)] by (auto simp: alloc_ok_def)
  qed
  ultimately show ?thesis by (simp add: alloc_means_def)
qed

lemma absent_join_means:
  assumes "alloc_ok a" and "absent_join aid a = Inr entry" and "alloc_means (Some a) r c \<or> alloc_means None r c"
  shows "alloc_means entry r c"
  using assms(2)
proof (cases rule: absent_join_cases)
  case (1 j)
  have dead: "aa_liveness (aa_mark_dead a) = Dead" "aa_ownership (aa_mark_dead a) = Unowned"
    by (simp_all add: aa_mark_dead_def)
  have "aa_liveness j = MaybeLive" "aa_ownership j = MaybeOwned"
    using 1(1,2) aa_join_parts(2,3) [OF 1(3)] dead by (auto simp: lived.join_flat ownd.join_flat split: if_splits)
  then show ?thesis by (simp add: alloc_means_def 1(4))
next
  case 2
  then show ?thesis using assms(3) by (auto simp: alloc_means_def)
qed

lemma alloc_merged_means:
  assumes "alloc_merged left right aid entry" and "alloc_means left r c \<or> alloc_means right r c"
    and "\<And>l. left = Some l \<Longrightarrow> alloc_ok l" and "\<And>l. right = Some l \<Longrightarrow> alloc_ok l"
  shows "alloc_means entry r c"
proof (cases "left"; cases "right")
  fix l r'
  assume "left = Some l" "right = Some r'"
  then show ?thesis using assms alloc_join_means [of l r' aid] by (auto simp: alloc_merged_def)
next
  fix l
  assume "left = Some l" "right = None"
  then show ?thesis using assms absent_join_means [of l aid entry r c] by (auto simp: alloc_merged_def)
next
  fix l
  assume "left = None" "right = Some l"
  then show ?thesis using assms absent_join_means [of l aid entry r c] by (auto simp: alloc_merged_def)
qed (use assms in \<open>simp add: alloc_merged_def\<close>)

section \<open>Values\<close>

lemma merge_values_get:
  assumes "merge_values merge left right = Inr joined"
  shows "bt_sorted joined"
    and "bt_get joined v = Some x \<Longrightarrow> \<exists>l r. (v, l) \<in> set left \<and> bt_get right v = Some r \<and> merge l r v = Inr x"
proof -
  let ?I = "\<lambda>ys m. bt_sorted m \<and>
    (\<forall>v x. bt_get m v = Some x \<longrightarrow> (\<exists>l r. (v, l) \<in> set left \<and> bt_get right v = Some r \<and> merge l r v = Inr x))"
  have "?I left joined"
  proof (rule res_fold_prefix [OF assms [unfolded merge_values_def], where I = ?I])
    fix ys e zs m m'
    assume h: "left = ys @ e # zs" "?I ys m" "merge_value merge right e m = Inr m'"
    show "?I (ys @ [e]) m'"
    proof (cases "bt_get right (fst e)")
      case None
      then show ?thesis using h(2,3) by (simp add: merge_value_def)
    next
      case (Some r)
      then obtain j where j: "merge (snd e) r (fst e) = Inr j" "m' = bt_insert (fst e) j m"
        using h(3) by (auto simp: merge_value_def)
      have "(fst e, snd e) \<in> set left" using h(1) by simp
      then have "\<exists>l r. (fst e, l) \<in> set left \<and> bt_get right (fst e) = Some r \<and> merge l r (fst e) = Inr j"
        using Some j(1) by blast
      then show ?thesis using h(2) by (simp add: j(2) insert_get)
    qed
  qed (simp add: bt_sorted_def)
  then show "bt_sorted joined"
    "bt_get joined v = Some x \<Longrightarrow> \<exists>l r. (v, l) \<in> set left \<and> bt_get right v = Some r \<and> merge l r v = Inr x"
    by blast+
qed

lemma merged_values_ok:
  assumes "merge_values merge left right = Inr joined" and "merge = aval_join \<or> merge = aval_widen"
    and "entries_wf aval_ok left" and "entries_wf aval_ok right"
  shows "entries_wf aval_ok joined"
    and "(\<forall>v x. bt_get left v = Some x \<longrightarrow> aval_holds x (rv v)) \<or> (\<forall>v x. bt_get right v = Some x \<longrightarrow> aval_holds x (rv v)) \<Longrightarrow>
      bt_get joined v = Some x \<Longrightarrow> aval_holds x (rv v)"
proof -
  have parts: "\<exists>l r. bt_get left v = Some l \<and> bt_get right v = Some r \<and> merge l r v = Inr x \<and> aval_ok l \<and> aval_ok r"
    if h: "bt_get joined v = Some x" for v x
  proof -
    obtain l r where "(v, l) \<in> set left" "bt_get right v = Some r" "merge l r v = Inr x"
      using merge_values_get(2) [OF assms(1) h] by blast
    moreover from this have "bt_get left v = Some l" using assms(3) by (simp add: bt_get_mem entries_wf_sorted)
    ultimately show ?thesis using entries_wf_get [OF assms(3), of v l] entries_wf_get [OF assms(4), of v r] by simp
  qed
  have sorted: "bt_sorted joined" by (rule merge_values_get(1) [OF assms(1)])
  have "aval_ok x" if "(v, x) \<in> set joined" for v x
  proof -
    have "bt_get joined v = Some x" using bt_get_mem [OF sorted] that by blast
    then obtain l r where "merge l r v = Inr x" "aval_ok l" "aval_ok r" using parts by blast
    then show ?thesis using assms(2) aval_join_ok aval_widen_ok by blast
  qed
  then show "entries_wf aval_ok joined" using sorted by (auto simp: entries_wf_def)
  assume h: "(\<forall>v x. bt_get left v = Some x \<longrightarrow> aval_holds x (rv v)) \<or> (\<forall>v x. bt_get right v = Some x \<longrightarrow> aval_holds x (rv v))"
    and x: "bt_get joined v = Some x"
  obtain l r where lr: "bt_get left v = Some l" "bt_get right v = Some r" "merge l r v = Inr x" "aval_ok l" "aval_ok r"
    using parts [OF x] by blast
  have "aval_holds l (rv v) \<or> aval_holds r (rv v)" using h lr(1,2) by blast
  moreover have wf: "aval_wf l" "aval_wf r" using lr(4,5) aval_ok_wf by blast+
  have "aval_holds l c \<or> aval_holds r c \<Longrightarrow> aval_holds x c" for c
    using assms(2) lr(3) aval_join_holds(2) [OF wf, of v x c] aval_widen_holds(2) [OF wf, of v x c] by auto
  ultimately show "aval_holds x (rv v)" by blast
qed

section \<open>States\<close>

text \<open>The widening drops stored scalars that changed; nothing else of an allocation.\<close>

lemma widen_contents_ok: "alloc_ok j \<Longrightarrow> alloc_ok (widen_scalar_contents l r j)"
  using sc_widen_holds(1) [of "aa_scalar_contents j" "aa_scalar_contents l" "aa_scalar_contents r"]
  by (auto simp: alloc_ok_def aa_wf_def widen_scalar_contents_def)

lemma widen_contents_means:
  assumes "alloc_ok j" and "alloc_means (Some j) r c"
  shows "alloc_means (Some (widen_scalar_contents a b j)) r c"
proof -
  let ?j = "widen_scalar_contents a b j"
  have sub: "set (sc_word_origins (aa_scalar_contents ?j)) \<subseteq> set (sc_word_origins (aa_scalar_contents j))"
    "set (sc_bool_origins (aa_scalar_contents ?j)) \<subseteq> set (sc_bool_origins (aa_scalar_contents j))"
    by (auto simp: widen_scalar_contents_def sc_widen_def Let_def)
  have live: "aa_liveness ?j = aa_liveness j" "aa_ownership ?j = aa_ownership j" by (simp_all add: widen_scalar_contents_def)
  have "aa_holds ?j r" if "aa_holds j r"
    using that assms(1) sc_widen_holds(2) [of "aa_scalar_contents j" "ar_cells r" "ar_good r"]
    by (auto simp: alloc_ok_def aa_meaning widen_scalar_contents_def)
  moreover have "cell_histories ?j r c" if "cell_histories j r c" using that sub unfolding cell_histories_def by blast
  ultimately show ?thesis using assms(2) by (auto simp: alloc_means_def live)
qed

lemma keyed_map_get: "bt_get (map (\<lambda>(k, v). (k, f k v)) m) j = map_option (f j) (bt_get m j)"
  by (induction m j rule: bt_get.induct) auto

lemma keyed_map_sorted [simp]: "bt_sorted (map (\<lambda>(k, v). (k, f k v)) m) = bt_sorted m"
proof -
  have "map fst (map (\<lambda>(k, v). (k, f k v)) m) = map fst m" by (simp add: case_prod_unfold comp_def)
  then show ?thesis unfolding bt_sorted_def by (simp only:)
qed

definition kept_allocations ::
  "((abstract_allocation_id, abstract_allocation) btmap \<Rightarrow> (abstract_allocation_id, abstract_allocation) btmap) \<Rightarrow> bool" where
  "kept_allocations adjust =
     (\<forall>m. bt_sorted m \<longrightarrow> bt_sorted (adjust m) \<and>
        (\<forall>aid j. bt_get (adjust m) aid = Some j \<longrightarrow> (\<exists>i. bt_get m aid = Some i \<and> (alloc_ok i \<longrightarrow> alloc_ok j \<and>
           (\<forall>r c. alloc_means (Some i) r c \<longrightarrow> alloc_means (Some j) r c)))) \<and>
        (\<forall>aid. bt_get (adjust m) aid = None \<longrightarrow> bt_get m aid = None))"

lemma kept_id: "kept_allocations id"
  by (simp add: kept_allocations_def)

lemma widen_allocation_kept:
  "alloc_ok j \<Longrightarrow> alloc_ok (widen_allocation a b aid j)"
  "alloc_ok j \<Longrightarrow> alloc_means (Some j) r c \<Longrightarrow> alloc_means (Some (widen_allocation a b aid j)) r c"
  by (simp_all add: widen_allocation_def widen_contents_ok widen_contents_means split: option.split)

lemma kept_widen: "kept_allocations (map (\<lambda>(aid, j). (aid, widen_allocation a b aid j)))"
  unfolding kept_allocations_def
proof (intro allI impI conjI)
  fix m aid j
  assume "bt_get (map (\<lambda>(aid, j). (aid, widen_allocation a b aid j)) m) aid = Some j"
  then obtain i where "bt_get m aid = Some i" "j = widen_allocation a b aid i" by (auto simp: keyed_map_get)
  then show "\<exists>i. bt_get m aid = Some i \<and> (alloc_ok i \<longrightarrow> alloc_ok j \<and>
      (\<forall>r c. alloc_means (Some i) r c \<longrightarrow> alloc_means (Some j) r c))"
    using widen_allocation_kept by blast
qed (simp_all add: keyed_map_get)

lemma shared_wf: "entries_wf P m \<Longrightarrow> entries_wf P (shared_entries m n)"
  by (simp add: shared_entries_def entries_wf_filter)

lemma shared_sorted: "bt_sorted m \<Longrightarrow> bt_sorted (shared_entries m n)"
  by (simp add: shared_entries_def)

lemma finite_pc_join:
  "finite (case a of Reachable facts \<Rightarrow> facts | Unreachable \<Rightarrow> {}) \<Longrightarrow> finite (case b of Reachable facts \<Rightarrow> facts | Unreachable \<Rightarrow> {}) \<Longrightarrow>
    finite (case pc_join a b of Reachable facts \<Rightarrow> facts | Unreachable \<Rightarrow> {})"
  by (cases a; cases b) auto

text \<open>A merge of two states is true of every machine one of them is true of, whatever the predicate maps become.\<close>

lemma merge_states_ok:
  assumes "merge_states merge relate adjust loss predicates check a b = Inr j" and "merge = aval_join \<or> merge = aval_widen"
    and "relate = rs_join \<or> relate = rs_widen" and "kept_allocations adjust" and "st_ok a" and "st_ok b"
  shows "st_ok j" and "st_holds a c \<or> st_holds b c \<Longrightarrow> st_holds j c"
proof -
  obtain instances recheck allocations vs loans lost where parts:
      "join_allocations (st_allocations a) (st_allocations b) = Inr allocations"
      "merge_values merge (st_values a) (st_values b) = Inr vs" "join_loans (st_loans a) (st_loans b) = Inr (loans, lost)"
    and j: "j = \<lparr>st_next_scope = max (st_next_scope a) (st_next_scope b), st_predicates = instances,
          st_relations = relate (st_relations a) (st_relations b), st_path = pc_join (st_path a) (st_path b),
          st_allocations = adjust allocations, st_values = vs,
          st_word_expressions = shared_entries (st_word_expressions a) (st_word_expressions b),
          st_bool_origins = shared_entries (st_bool_origins a) (st_bool_origins b),
          st_word_origins = shared_entries (st_word_origins a) (st_word_origins b),
          st_loans = loans, st_losses = st_losses a \<union> st_losses b \<union> (if lost then {loss} else {})\<rparr>"
    using assms(1) by (auto simp: merge_states_def Let_def)
  note ok = assms(5,6) [unfolded st_ok_def]
  note allocs = join_allocations_get [OF parts(1)] and lns = join_loans_get [OF parts(3)]
  have relate: "rs_wf (relate (st_relations a) (st_relations b))"
      "rs_holds (st_relations a) w \<or> rs_holds (st_relations b) w \<Longrightarrow> rs_holds (relate (st_relations a) (st_relations b)) w" for w
    using assms(3) ok rsd.join_wf rsd.join_left rsd.join_right rs_widen_ok by auto
  have adjusted: "\<exists>i. bt_get allocations aid = Some i \<and> (alloc_ok i \<longrightarrow> alloc_ok x \<and>
      (\<forall>r c. alloc_means (Some i) r c \<longrightarrow> alloc_means (Some x) r c))" if "bt_get (adjust allocations) aid = Some x" for aid x
    using assms(4) allocs(1) that unfolding kept_allocations_def by blast
  have dropped: "bt_get (adjust allocations) aid = None \<Longrightarrow> bt_get allocations aid = None" for aid
    using assms(4) allocs(1) unfolding kept_allocations_def by blast
  have entry_ok: "alloc_ok i" if "bt_get allocations aid = Some i" for aid i
    by (rule alloc_merged_ok [OF allocs(2) [of aid, unfolded that]]) (rule st_ok_entry(3) [OF assms(5)] st_ok_entry(3) [OF assms(6)], assumption)+
  have "entries_wf alloc_ok (adjust allocations)"
    unfolding entries_wf_def
  proof (intro conjI allI impI)
    show sorted: "bt_sorted (adjust allocations)" using assms(4) allocs(1) by (simp add: kept_allocations_def)
    fix k x assume "(k, x) \<in> set (adjust allocations)"
    then have "bt_get (adjust allocations) k = Some x" using bt_get_mem [OF sorted] by blast
    then show "alloc_ok x" using adjusted entry_ok by blast
  qed
  moreover have "entries_wf loan_ok loans"
    unfolding entries_wf_def
  proof (intro conjI allI impI)
    fix k l assume "(k, l) \<in> set loans"
    then have "loan_merged (bt_get (st_loans a) k) (bt_get (st_loans b) k) k (Some l)"
      using lns(2) [of k] bt_get_mem [OF lns(1), of k l] by (metis)
    then show "loan_ok l" by (rule loan_merged_ok) (rule st_ok_entry(4) [OF assms(5)] st_ok_entry(4) [OF assms(6)], assumption)+
  qed (rule lns(1))
  moreover have "entries_wf aval_ok vs" by (rule merged_values_ok(1) [OF parts(2) assms(2)]) (use ok in simp_all)
  ultimately show "st_ok j"
    using ok relate(1) by (simp add: st_ok_def j shared_wf shared_sorted finite_pc_join)
  assume h: "st_holds a c \<or> st_holds b c"
  have "pc_holds (st_path j) (mc_path c)" unfolding j by (simp, rule pc_join_holds) (use h in \<open>auto simp: st_holds_def\<close>)
  moreover have "rs_holds (st_relations j) (mc_word c)" unfolding j by (simp, rule relate(2)) (use h in \<open>auto simp: st_holds_def\<close>)
  moreover have "aval_holds x (mc_values c v)" if "bt_get (st_values j) v = Some x" for v x
    by (rule merged_values_ok(2) [OF parts(2) assms(2)]) (use ok h that in \<open>auto simp: st_holds_def j\<close>)
  moreover have "ae_den (mc_env c) e = mc_env c v" if "bt_get (st_word_expressions j) v = Some e" for v e
    using that h ok by (auto simp: j shared_entries_get entries_wf_sorted st_holds_def)
  moreover have "origin_val (mc_history c) s = mc_env c v" if "bt_get (st_word_origins j) v = Some s" for v s
    using that h ok by (auto simp: j shared_entries_get st_holds_def)
  moreover have "mc_bool_history c s = mc_bool c v" if "bt_get (st_bool_origins j) v = Some s" for v s
    using that h ok by (auto simp: j shared_entries_get st_holds_def)
  moreover have "alloc_means (bt_get (st_allocations j) aid) (mc_allocations c aid) c" for aid
  proof -
    have "alloc_means (bt_get allocations aid) (mc_allocations c aid) c"
      by (rule alloc_merged_means [OF allocs(2) [of aid]])
        (use h st_ok_entry(3) [OF assms(5), of aid] st_ok_entry(3) [OF assms(6), of aid] in \<open>auto simp: st_holds_def\<close>)
    then show ?thesis using adjusted [of aid] dropped [of aid] entry_ok [of aid]
      by (cases "bt_get (adjust allocations) aid") (auto simp: j)
  qed
  moreover have "loan_means (bt_get (st_loans j) l) (mc_loans c l)" for l
    unfolding j using loan_merged_means [OF lns(2) [of l]] h by (auto simp: st_holds_def)
  ultimately show "st_holds j c" by (simp add: st_holds_def)
qed

lemma unreachable_no_machine: "\<not> pc_is_reachable (st_path st) \<Longrightarrow> \<not> st_holds st c"
  by (cases "st_path st") (auto simp: st_holds_def)

lemma st_join_ok:
  assumes "st_join predicates check a b = Inr j" and "st_ok a" and "st_ok b"
  shows "st_ok j" and "st_holds a c \<or> st_holds b c \<Longrightarrow> st_holds j c"
proof -
  have "st_ok j \<and> (st_holds a c \<or> st_holds b c \<longrightarrow> st_holds j c)"
  proof (cases "pc_is_reachable (st_path a) \<and> pc_is_reachable (st_path b)")
    case True
    note merged = assms(1) [unfolded st_join_def, simplified True not_True_eq_False if_False simp_thms]
    show ?thesis
      using merge_states_ok(1) [OF merged disjI1 [OF refl] disjI1 [OF refl] kept_id assms(2,3)] merge_states_ok(2) [OF merged disjI1 [OF refl] disjI1 [OF refl] kept_id assms(2,3), of c] by blast
  next
    case False
    then show ?thesis
      using assms unreachable_no_machine [of a c] unreachable_no_machine [of b c]
      by (cases "pc_is_reachable (st_path a)") (simp_all add: st_join_def)
  qed
  then show "st_ok j" "st_holds a c \<or> st_holds b c \<Longrightarrow> st_holds j c" by blast+
qed

lemma st_widen_ok:
  assumes "st_widen predicates check a b = Inr j" and "st_ok a" and "st_ok b"
  shows "st_ok j" and "st_holds a c \<or> st_holds b c \<Longrightarrow> st_holds j c"
proof -
  have "st_ok j \<and> (st_holds a c \<or> st_holds b c \<longrightarrow> st_holds j c)"
  proof (cases "pc_is_reachable (st_path a) \<and> pc_is_reachable (st_path b)")
    case True
    note merged = assms(1) [unfolded st_widen_def, simplified True not_True_eq_False if_False simp_thms]
    show ?thesis
      using merge_states_ok(1) [OF merged disjI2 [OF refl] disjI2 [OF refl] kept_widen assms(2,3)] merge_states_ok(2) [OF merged disjI2 [OF refl] disjI2 [OF refl] kept_widen assms(2,3), of c] by blast
  next
    case False
    then show ?thesis
      using assms unreachable_no_machine [of a c] unreachable_no_machine [of b c]
      by (cases "pc_is_reachable (st_path a)") (simp_all add: st_widen_def)
  qed
  then show "st_ok j" "st_holds a c \<or> st_holds b c \<Longrightarrow> st_holds j c" by blast+
qed

end
