(* ===== verification/Resource_Edge.thy ===== *)
theory Resource_Edge
  imports Resource_Join
begin

text \<open>
  Crossing a control-flow edge. A machine reads every block argument from its operand at once; the projected state is
  true of the machine after the edge, and its symbolic facts are still well formed.
\<close>

section \<open>Projected facts stay well formed\<close>

lemma er_bound_wf: "bound_wf b \<Longrightarrow> er_bound er b = Some b' \<Longrightarrow> bound_wf b'"
  using er_expression_wf by (auto simp: er_bound_def bound_wf_def)

lemma constant_wf: "ae_wf (ae_constant v)"
  unfolding ae_wf_def ae_flat_constant by (simp add: ae_constant_def canonical_terms_def)

lemma fold_exact_wf: "bound_wf b \<Longrightarrow> bound_wf (fold_exact b)"
  by (simp add: fold_exact_def bound_wf_def sb_constant_def constant_wf split: option.split)

lemma from_bounds_wf: "bound_wf s \<Longrightarrow> bound_wf e \<Longrightarrow> range_exprs_wf (from_bounds s e)"
  using fold_exact_wf [of s] fold_exact_wf [of e]
  by (auto simp: from_bounds_def Let_def split: option.split sum.split)

lemma er_range_wf: "range_exprs_wf r \<Longrightarrow> range_exprs_wf (er_range er r)"
  using er_bound_wf from_bounds_wf by (cases r) (auto split: option.split)

lemma er_pointer_ok: "ptr_ok p \<Longrightarrow> ptr_ok (er_pointer er p)"
  using er_range_wf [of _ er] er_expression_wf [of _ er]
  by (auto simp: ptr_ok_def ptr_wf_def ptr_exprs_wf_def ptr_linked_def er_pointer_def fp_project_def
      ap_with_offset_expression_def ap_with_slice_footprint_def ap_with_domain_def Option.bind_eq_Some_conv
      split: option.splits vir_pointer_domain.splits)

lemma er_permission_range: "perm_range (er_permission er p) = er_range er (perm_range p)"
  by (simp add: er_permission_def perm_new_def perm_with_availability_def perm_with_authority_def)

lemma er_value_ok: "aval_ok v \<Longrightarrow> aval_ok (er_value er v)"
  using er_pointer_ok er_range_wf by (cases v) (auto simp: er_permission_range)

lemma mp_project_ok: "payload_ok s \<Longrightarrow> payload_ok (mp_project er s)"
  using er_pointer_ok er_range_wf by (cases s) (auto simp: er_permission_range)

lemma project_loan_ok: "loan_ok l \<Longrightarrow> loan_ok (al_project_cfg_edge er l)"
  using er_range_wf by (auto simp: loan_ok_def al_project_cfg_edge_def fp_project_def split: option.splits)

section \<open>The machine across an edge\<close>

definition cross_objects :: "(vir_value_id \<Rightarrow> int) \<Rightarrow> object_contents \<Rightarrow> object_contents" where
  "cross_objects \<rho>' ob =
     ob\<lparr>oc_payload := \<lambda>key. map_option (\<lambda>(ptr, perm). (ptr\<lparr>cp_env := \<rho>'\<rparr>, perm\<lparr>cm_env := \<rho>'\<rparr>)) (oc_payload ob key)\<rparr>"

definition cross_run :: "(vir_value_id \<Rightarrow> int) \<Rightarrow> allocation_run \<Rightarrow> allocation_run" where
  "cross_run \<rho>' r = r\<lparr>ar_env := \<rho>', ar_objects := cross_objects \<rho>' (ar_objects r)\<rparr>"

definition cross_loan :: "(vir_value_id \<Rightarrow> int) \<Rightarrow> expression_remapper \<Rightarrow> loan_state \<Rightarrow> loan_state" where
  "cross_loan \<rho>' er s = s\<lparr>cl_env := \<rho>', cl_carriers := rename_authority er ` cl_carriers s\<rparr>"

definition machine_edge ::
  "(vir_value_id \<times> vir_value_id) list \<Rightarrow> expression_remapper \<Rightarrow> machine \<Rightarrow> machine \<Rightarrow> bool" where
  "machine_edge renames er c c' =
     ((\<forall>s t. (s, t) \<in> set renames \<longrightarrow> mc_values c' t = cross_edge (mc_env c') (mc_values c s)) \<and>
      (\<forall>aid. mc_allocations c' aid = cross_run (mc_env c') (mc_allocations c aid)) \<and>
      (\<forall>l. mc_loans c' l = cross_loan (mc_env c') er (mc_loans c l)) \<and>
      mc_history c' = mc_history c \<and> mc_bool_history c' = mc_bool_history c)"

lemma cross_edge_scalars [simp]:
  "word_of (cross_edge \<rho>' rv) = word_of rv" "bool_of (cross_edge \<rho>' rv) = bool_of rv"
  by (cases rv; simp)+

lemma machine_edge_scalars:
  assumes "machine_edge renames er c c'" and "(s, t) \<in> set renames"
  shows "mc_word c' t = mc_word c s" and "mc_bool c' t = mc_bool c s" and "mc_env c' t = mc_env c s"
  using assms by (simp_all add: machine_edge_def mc_word_def mc_bool_def mc_env_def)

lemma machine_edge_runs:
  assumes "machine_edge renames er c c'"
  shows "run_edge renames (mc_path c) (mc_path c')" and "edge_env renames (mc_env c) (mc_env c')"
    and "word_edge renames (mc_word c) (mc_word c')"
  using machine_edge_scalars [OF assms] by (auto simp: run_edge_def mc_path_def edge_env_def word_edge_def)

lemma st_reads:
  assumes "st_holds st c" and "bt_get (st_values st) v = Some (AVU64 i)"
  shows "iv_contains i (mc_word c v)"
proof -
  have "aval_holds (AVU64 i) (mc_values c v)" using assms by (simp add: st_holds_def)
  then show ?thesis by (cases "mc_values c v") (auto simp: mc_word_def)
qed

lemma st_reads_env:
  assumes "st_holds st c"
  shows "reads (bt_get (st_values st)) (mc_env c)" and "reads_words (bt_get (st_values st)) (mc_word c)"
  using st_reads [OF assms] by (auto simp: reads_def reads_words_def mc_env_def iv_contains_def word_le_def)

lemma st_facts_env:
  assumes "st_ok st" and "st_holds st c"
  shows "facts_env (bt_get (st_values st)) (bt_get (st_word_expressions st)) (mc_env c)"
  using st_reads_env(1) [OF assms(2)] st_ok_entry(2) [OF assms(1)] assms(2)
  by (auto simp: facts_env_def reads_def st_holds_def)

lemma st_remapper_sound:
  "st_ok st \<Longrightarrow> st_holds st c \<Longrightarrow> machine_edge renames er c c' \<Longrightarrow> er_sound (st_remapper renames st) (mc_env c) (mc_env c')"
  unfolding st_remapper_def by (intro er_new_sound machine_edge_runs(2) st_facts_env)

section \<open>Allocations and loans\<close>

lemma reduce_prefixes_kept: "aa_prefixes (reduce_initialization_prefixes read a) = aa_prefixes a"
proof -
  have "aa_prefixes (fold (reduce_fact read) fs b) = aa_prefixes b" for fs b
    by (induction fs arbitrary: b) (simp_all add: reduce_fact_prefixes)
  then show ?thesis by (simp add: reduce_initialization_prefixes_def)
qed

definition same_but_bytes :: "abstract_allocation \<Rightarrow> abstract_allocation \<Rightarrow> bool" where
  "same_but_bytes a b =
     (\<exists>i v. b = a\<lparr>aa_initialization := i, aa_valid_value_bytes := v\<rparr>)"

lemma reduce_same: "same_but_bytes a (reduce_initialization_prefixes read a)"
proof -
  have step: "same_but_bytes a (reduce_fact read f b)" if "same_but_bytes a b" for f b
    using that unfolding same_but_bytes_def
    by (elim exE) (simp add: reduce_fact_def Let_def split: option.split sum.split, blast)
  have "same_but_bytes a (fold (reduce_fact read) fs b)" if "same_but_bytes a b" for fs b
    using that by (induction fs arbitrary: b) (simp_all add: step)
  moreover have "same_but_bytes a a"
    unfolding same_but_bytes_def by (rule exI [of _ "aa_initialization a"], rule exI [of _ "aa_valid_value_bytes a"]) simp
  ultimately show ?thesis by (simp add: reduce_initialization_prefixes_def)
qed

lemma project_allocation_parts:
  "aa_liveness (aa_project_cfg_edge er read a) = aa_liveness a" "aa_ownership (aa_project_cfg_edge er read a) = aa_ownership a"
  "aa_scalar_contents (aa_project_cfg_edge er read a) = aa_scalar_contents a"
  using reduce_same [of a read] by (auto simp: same_but_bytes_def aa_project_cfg_edge_def)

lemma project_payloads_ok:
  "\<forall>k s. (k, s) \<in> set (os_resource_payloads ob) \<longrightarrow> payload_ok s \<Longrightarrow>
    \<forall>k s. (k, s) \<in> set (os_resource_payloads (os_project_cfg_edge er ob)) \<longrightarrow> payload_ok s"
  using mp_project_ok by (auto simp: os_project_cfg_edge_def)

lemma project_objects_wf: "os_wf ob \<Longrightarrow> os_wf (os_project_cfg_edge er ob)"
  unfolding os_wf_def os_project_cfg_edge_def by (simp add: keyed_map_sorted [of "\<lambda>k st. mp_project er st"])

lemma project_objects_hold:
  assumes "er_sound er \<rho> \<rho>'" and "os_holds ob oc" and "payload_env \<rho> oc"
    and "\<forall>k s. (k, s) \<in> set (os_resource_payloads ob) \<longrightarrow> payload_ok s"
  shows "os_holds (os_project_cfg_edge er ob) (cross_objects \<rho>' oc)"
  unfolding cross_objects_def
proof (rule os_project_holds [OF assms(1,2)])
  fix key p assume "(key, PathAvailable p) \<in> set (os_resource_payloads ob)"
  then have "payload_ok (PathAvailable p)" using assms(4) by blast
  then show "ptr_exprs_wf (tp_pointer p) \<and> range_exprs_wf (perm_range (tp_permission p))" by (simp add: ptr_ok_def)
qed (use assms(3) in \<open>simp add: payload_env_def\<close>)

lemma project_allocation_ok:
  assumes "alloc_ok a" and "alloc_means (Some a) r c" and "ar_env r = \<rho>" and "payload_env \<rho> (ar_objects r)"
    and "er_sound er \<rho> \<rho>'" and "reads read \<rho>" and "mc_history c' = mc_history c" and "mc_bool_history c' = mc_bool_history c"
  shows "alloc_ok (aa_project_cfg_edge er read a) \<and> alloc_means (Some (aa_project_cfg_edge er read a)) (cross_run \<rho>' r) c'"
proof -
  let ?p = "aa_project_cfg_edge er read a"
  let ?b = "reduce_initialization_prefixes read a"
  have wf: "aa_wf a" and payloads: "\<forall>k s. (k, s) \<in> set (os_resource_payloads (aa_object_state a)) \<longrightarrow> payload_ok s"
    using assms(1) by (simp_all add: alloc_ok_def)
  have histories: "cell_histories ?p (cross_run \<rho>' r) c'" if "cell_histories a r c"
    using that assms(7,8) by (simp add: cell_histories_def project_allocation_parts cross_run_def)
  show ?thesis
  proof (cases "aa_liveness a = Live")
    case True
    then have holds: "aa_holds a r" "cell_histories a r c" using assms(2) by (auto simp: alloc_means_def)
    have b: "aa_wf ?b" "aa_holds ?b r" using reduce_ok [OF wf holds(1)] assms(3,6) by auto
    have ip: "ip_wf (ip_project er read (aa_prefixes a))" "ip_holds \<rho>' (ar_good r) (ip_project er read (aa_prefixes a))"
      using ip_project_holds [OF assms(5,6), of "aa_prefixes a" "ar_good r"] wf holds(1) assms(3) by (simp_all add: aa_meaning)
    have os: "os_wf (os_project_cfg_edge er (aa_object_state a))"
        "os_holds (os_project_cfg_edge er (aa_object_state a)) (cross_objects \<rho>' (ar_objects r))"
      using wf holds(1) project_objects_wf project_objects_hold [OF assms(5) _ assms(4) payloads] by (simp_all add: aa_meaning)
    have "aa_wf ?p" "aa_holds ?p (cross_run \<rho>' r)"
      using b ip os by (simp_all add: aa_meaning aa_project_cfg_edge_def cross_run_def)
    moreover have "alloc_ok ?p \<longleftrightarrow> aa_wf ?p"
      using True project_payloads_ok [OF payloads, of er] by (simp add: alloc_ok_def project_allocation_parts) (simp add: aa_project_cfg_edge_def)
    ultimately show ?thesis
      using histories holds(2) assms(2) by (simp add: alloc_means_def project_allocation_parts cross_run_def)
  next
    case False
    then have p: "?p = a\<lparr>aa_object_state := os_project_cfg_edge er (aa_object_state a), aa_prefixes := []\<rparr>"
      using assms(1) by (simp add: aa_project_cfg_edge_def reduce_initialization_prefixes_def alloc_ok_def ip_project_def)
    have "alloc_ok ?p"
      using wf project_objects_wf [of "aa_object_state a" er] project_payloads_ok [OF payloads, of er]
      unfolding p by (simp add: alloc_ok_def aa_wf_def)
    then show ?thesis using False assms(2) by (simp add: alloc_means_def project_allocation_parts cross_run_def)
  qed
qed

lemma project_loan_means:
  assumes "loan_ok l" and "loan_means (Some l) s" and "cl_env s = \<rho>" and "er_sound er \<rho> \<rho>'"
  shows "loan_means (Some (al_project_cfg_edge er l)) (cross_loan \<rho>' er s)"
proof -
  have "case al_footprint l of None \<Rightarrow> True | Some f \<Rightarrow> range_exprs_wf (fp_range f)"
    using assms(1) by (auto simp: loan_ok_def split: option.splits)
  then have "loan_holds l s \<Longrightarrow> loan_holds (al_project_cfg_edge er l) (cross_loan \<rho>' er s)"
    using al_project_holds [of er s \<rho>' l] assms(3,4) by (simp add: cross_loan_def)
  then show ?thesis using assms(2) by (auto simp: loan_means_def cross_loan_def al_project_cfg_edge_def)
qed

section \<open>Origins and expressions\<close>

lemma merge_target_sorted: "bt_sorted m \<Longrightarrow> bt_sorted (merge_target f r m)"
  by (auto simp: merge_target_def split: prod.split option.split)

lemma merge_target_get:
  "bt_sorted m \<Longrightarrow> bt_get (merge_target f r m) t = Some (Some x) \<Longrightarrow>
    bt_get m t = Some (Some x) \<or> t = snd r \<and> f (fst r) = Some x"
  by (cases r) (auto simp: merge_target_def insert_get split: option.splits if_splits)

lemma merge_targets_get:
  "bt_sorted m \<Longrightarrow> bt_get (fold (merge_target f) rs m) t = Some (Some x) \<Longrightarrow>
    bt_get m t = Some (Some x) \<or> (\<exists>s. (s, t) \<in> set rs \<and> f s = Some x)"
proof (induction rs arbitrary: m)
  case (Cons r rs)
  then have "bt_get (merge_target f r m) t = Some (Some x) \<or> (\<exists>s. (s, t) \<in> set rs \<and> f s = Some x)"
    using Cons.IH [OF merge_target_sorted [OF Cons.prems(1)]] by simp
  then show ?case using merge_target_get [OF Cons.prems(1), of f r t x] by (cases r) auto
qed simp

lemma merge_targets_sorted: "bt_sorted m \<Longrightarrow> bt_sorted (fold (merge_target f) rs m)"
  by (induction rs arbitrary: m) (simp_all add: merge_target_sorted)

lemma present_entries_elem: "(k, x) \<in> set (present_entries m) \<longleftrightarrow> (k, Some x) \<in> set m"
  by (force simp: present_entries_def List.map_filter_def image_iff)

lemma present_entries_sorted: "bt_sorted m \<Longrightarrow> bt_sorted (present_entries m)"
proof (induction m)
  case (Cons e m)
  obtain k v where e: "e = (k, v)" by force
  have m: "bt_sorted m" "\<forall>x \<in> fst ` set m. k < x" using Cons.prems by (auto simp: e bt_sorted_Cons)
  have "fst ` set (present_entries m) \<subseteq> fst ` set m" by (force simp: present_entries_elem image_iff)
  then have "\<forall>x \<in> set (map fst (present_entries m)). k < x" using m(2) unfolding set_map by blast
  moreover have "present_entries (e # m) = (case v of None \<Rightarrow> present_entries m | Some x \<Rightarrow> (k, x) # present_entries m)"
    by (simp add: e present_entries_def List.map_filter_simps split: option.split)
  ultimately show ?case using Cons.IH [OF m(1)] by (simp add: bt_sorted_Cons split: option.split)
qed (simp add: present_entries_def List.map_filter_simps)

lemma take_sorted: "bt_sorted m \<Longrightarrow> bt_sorted (take n m)"
  unfolding bt_sorted_def take_map [symmetric] by (rule sorted_wrt_take)

lemma project_origins_get:
  assumes "bt_get (project_origins origins renames) t = Some x"
  shows "\<exists>s. (s, t) \<in> set renames \<and> bt_get origins s = Some x"
proof -
  let ?m = "fold (merge_target (bt_get origins)) renames []"
  have sorted: "bt_sorted ?m" by (rule merge_targets_sorted) simp
  have "(t, x) \<in> set (take 256 (present_entries ?m))" using bt_get_in_set [OF assms] by (simp add: project_origins_def)
  then have "(t, Some x) \<in> set ?m" using present_entries_elem [of t x ?m] by (meson in_set_takeD)
  then have "bt_get ?m t = Some (Some x)" using bt_get_mem [OF sorted] by blast
  then show ?thesis using merge_targets_get [of "[]" "bt_get origins" renames t x] by simp
qed

lemma project_origins_sorted: "bt_sorted (project_origins origins renames)"
  unfolding project_origins_def by (intro take_sorted present_entries_sorted merge_targets_sorted) simp

lemma project_words_get:
  assumes "bt_sorted m" and "bt_get (fold (project_word_expression er words) renames m) t = Some e"
  shows "bt_get m t = Some e \<or> (\<exists>s e'. (s, t) \<in> set renames \<and> bt_get words s = Some e' \<and> er_expression er e' = Some e)"
  using assms
proof (induction renames arbitrary: m)
  case (Cons r renames)
  obtain s u where r: "r = (s, u)" by force
  have sorted: "bt_sorted (project_word_expression er words r m)"
    using Cons.prems(1) by (simp add: project_word_expression_def or_insert_sorted split: option.split)
  from Cons.IH [OF sorted] Cons.prems(2) consider "bt_get (project_word_expression er words r m) t = Some e" |
      "\<exists>s e'. (s, t) \<in> set renames \<and> bt_get words s = Some e' \<and> er_expression er e' = Some e" by auto
  then show ?case
  proof cases
    case 1
    then show ?thesis
      using or_insert_get [OF Cons.prems(1), of u _ t e]
      by (fastforce simp: project_word_expression_def r Option.bind_eq_Some_conv split: option.splits)
  qed auto
qed simp

lemma project_words_sorted: "bt_sorted m \<Longrightarrow> bt_sorted (fold (project_word_expression er words) renames m)"
  by (induction renames arbitrary: m) (simp_all add: project_word_expression_def or_insert_sorted split: option.split)

section \<open>States\<close>

lemma conjoin_all_finite:
  "finite (case pc of Reachable facts \<Rightarrow> facts | Unreachable \<Rightarrow> {}) \<Longrightarrow>
    finite (case fold pc_conjoin fs pc of Reachable facts \<Rightarrow> facts | Unreachable \<Rightarrow> {})"
proof (induction fs arbitrary: pc)
  case (Cons f fs)
  have "finite (case pc_conjoin f pc of Reachable facts \<Rightarrow> facts | Unreachable \<Rightarrow> {})"
    using Cons.prems by (cases pc) (auto split: option.split)
  then show ?case using Cons.IH by simp
qed simp

lemma pc_project_finite: "finite (case pc_project renames pc of Reachable facts \<Rightarrow> facts | Unreachable \<Rightarrow> {})"
  using conjoin_all_finite [of pc_empty] by (cases pc) (simp_all add: pc_empty_def)

lemma project_edge_ok:
  assumes "st_ok st" and "st_holds st c" and "machine_wf c" and "machine_edge renames (st_remapper renames st) c c'"
  shows "st_ok (project_cfg_edge renames st)" and "st_holds (project_cfg_edge renames st) c'"
proof -
  let ?er = "st_remapper renames st" and ?p = "project_cfg_edge renames st"
  note er = st_remapper_sound [OF assms(1,2,4)]
  note scalars = machine_edge_scalars [OF assms(4)]
  have reach: "pc_is_reachable (st_path st)" using assms(2) unreachable_no_machine by blast
  have fin: "finite (case st_path st of Reachable facts \<Rightarrow> facts | Unreachable \<Rightarrow> {})" using assms(1) by (simp add: st_ok_def)
  have p: "?p = \<lparr>st_next_scope = st_next_scope st, st_predicates = project_predicates ?er renames (st_predicates st),
         st_relations = rs_project_affine (word_renames st renames) (st_word_expressions st) (st_relations st),
         st_path = pc_project renames (st_path st),
         st_allocations = map_entries (aa_project_cfg_edge ?er (bt_get (st_values st))) (st_allocations st),
         st_values = [], st_word_expressions = fold (project_word_expression ?er (st_word_expressions st)) renames [],
         st_bool_origins = project_origins (st_bool_origins st) renames,
         st_word_origins = project_origins (st_word_origins st) renames,
         st_loans = map_entries (al_project_cfg_edge ?er) (st_loans st), st_losses = st_losses st\<rparr>"
    using reach by (simp add: project_cfg_edge_def Let_def)
  have histories: "mc_history c' = mc_history c" "mc_bool_history c' = mc_bool_history c"
    using assms(4) by (simp_all add: machine_edge_def)
  have "word_edge (word_renames st renames) (mc_word c) (mc_word c')"
    using scalars(1) by (auto simp: word_edge_def word_renames_def)
  moreover have "\<forall>v e. (v, e) \<in> set (st_word_expressions st) \<longrightarrow> ae_den (\<lambda>v. uint (mc_word c v)) e = uint (mc_word c v)"
  proof (intro allI impI)
    fix v e assume "(v, e) \<in> set (st_word_expressions st)"
    then have "bt_get (st_word_expressions st) v = Some e" using bt_get_mem [OF st_ok_sorted(2) [OF assms(1)]] by blast
    then have "ae_den (mc_env c) e = mc_env c v" using assms(2) by (simp add: st_holds_def)
    then show "ae_den (\<lambda>v. uint (mc_word c v)) e = uint (mc_word c v)" by (simp add: mc_env_def [abs_def])
  qed
  ultimately have rel: "rs_wf (st_relations ?p) \<and> rs_holds (st_relations ?p) (mc_word c')"
    unfolding p using rs_project_affine_ok [of "st_relations st" "mc_word c" "word_renames st renames" "mc_word c'" "st_word_expressions st"]
      assms(2) by (simp add: st_holds_def)
  have path: "pc_holds (st_path ?p) (mc_path c')"
    unfolding p using pc_project_holds [OF machine_edge_runs(1) [OF assms(4)] fin] assms(2) by (simp add: st_holds_def)
  have alloc: "alloc_ok (aa_project_cfg_edge ?er (bt_get (st_values st)) a) \<and>
      alloc_means (Some (aa_project_cfg_edge ?er (bt_get (st_values st)) a)) (mc_allocations c' aid) c'"
    if a: "bt_get (st_allocations st) aid = Some a" for aid a
  proof -
    have "mc_allocations c' aid = cross_run (mc_env c') (mc_allocations c aid)" using assms(4) by (simp add: machine_edge_def)
    moreover have "alloc_means (Some a) (mc_allocations c aid) c" using assms(2) a unfolding st_holds_def by metis
    moreover have "ar_env (mc_allocations c aid) = mc_env c" "payload_env (mc_env c) (ar_objects (mc_allocations c aid))"
      using assms(3) by (simp_all add: machine_wf_def)
    ultimately show ?thesis
      using project_allocation_ok [OF st_ok_entry(3) [OF assms(1) a] _ _ _ er st_reads_env(1) [OF assms(2)] histories] by simp
  qed
  have loan: "loan_means (Some (al_project_cfg_edge ?er l)) (mc_loans c' k)" if l: "bt_get (st_loans st) k = Some l" for k l
  proof -
    have "mc_loans c' k = cross_loan (mc_env c') ?er (mc_loans c k)" using assms(4) by (simp add: machine_edge_def)
    moreover have "loan_means (Some l) (mc_loans c k)" using assms(2) l unfolding st_holds_def by metis
    moreover have "cl_env (mc_loans c k) = mc_env c" using assms(3) by (simp add: machine_wf_def)
    ultimately show ?thesis using project_loan_means [OF st_ok_entry(4) [OF assms(1) l] _ _ er] by simp
  qed
  have word: "ae_wf e \<and> ae_den (mc_env c') e = mc_env c' t" if e: "bt_get (st_word_expressions ?p) t = Some e" for t e
  proof -
    obtain s e' where s: "(s, t) \<in> set renames" "bt_get (st_word_expressions st) s = Some e'" "er_expression ?er e' = Some e"
      using e project_words_get [of "[]" ?er "st_word_expressions st" renames t e] by (auto simp: p)
    have wf: "ae_wf e'" by (rule st_ok_entry(2) [OF assms(1) s(2)])
    have "ae_den (mc_env c') e = ae_den (mc_env c) e'" by (rule er_expression_den [OF er wf s(3)])
    also have "\<dots> = mc_env c s" using assms(2) s(2) by (simp add: st_holds_def)
    finally show ?thesis using scalars(3) [OF s(1)] er_expression_wf [OF wf s(3)] by simp
  qed
  have sorted_words: "bt_sorted (st_word_expressions ?p)" unfolding p by (simp add: project_words_sorted)
  have "entries_wf ae_wf (st_word_expressions ?p)"
    using word sorted_words bt_get_mem [OF sorted_words] by (auto simp: entries_wf_def)
  moreover have "entries_wf alloc_ok (st_allocations ?p)"
    unfolding p using alloc bt_get_mem [OF st_ok_sorted(3) [OF assms(1)]] st_ok_sorted(3) [OF assms(1)]
    by (auto simp: entries_wf_def map_entries_def)
  moreover have "entries_wf loan_ok (st_loans ?p)"
    unfolding p using entries_wf_map [of loan_ok "st_loans st" loan_ok "al_project_cfg_edge ?er"] project_loan_ok assms(1)
    by (auto simp: st_ok_def)
  ultimately show "st_ok ?p"
    using rel pc_project_finite by (simp add: st_ok_def p project_origins_sorted)
  have "alloc_means (bt_get (st_allocations ?p) aid) (mc_allocations c' aid) c'" for aid
  proof (cases "bt_get (st_allocations st) aid")
    case None
    then have "alloc_means None (mc_allocations c aid) c" using assms(2) unfolding st_holds_def by metis
    then show ?thesis using None assms(4) by (simp add: p map_entries_get alloc_means_def machine_edge_def cross_run_def)
  qed (use alloc in \<open>simp add: p map_entries_get\<close>)
  moreover have "loan_means (bt_get (st_loans ?p) k) (mc_loans c' k)" for k
  proof (cases "bt_get (st_loans st) k")
    case None
    then have "loan_means None (mc_loans c k)" using assms(2) unfolding st_holds_def by metis
    then show ?thesis using None assms(4) by (simp add: p map_entries_get loan_means_def machine_edge_def cross_loan_def)
  qed (use loan in \<open>simp add: p map_entries_get\<close>)
  moreover have "origin_val (mc_history c') x = mc_env c' t" if "bt_get (st_word_origins ?p) t = Some x" for t x
    using project_origins_get [of "st_word_origins st" renames t x] that scalars(3) assms(2) histories(1)
    by (auto simp: p st_holds_def)
  moreover have "mc_bool_history c' x = mc_bool c' t" if "bt_get (st_bool_origins ?p) t = Some x" for t x
    using project_origins_get [of "st_bool_origins st" renames t x] that scalars(2) assms(2) histories(2)
    by (auto simp: p st_holds_def)
  moreover have "bt_get (st_values ?p) v = None" for v by (simp add: p)
  ultimately show "st_holds ?p c'" using rel path word by (simp add: st_holds_def)
qed

section \<open>Carried values\<close>

lemma insert_value_ok:
  assumes "st_ok st" and "st_holds st c" and "aval_ok x" and "aval_holds x (mc_values c v)"
  shows "st_ok (st\<lparr>st_values := bt_insert v x (st_values st)\<rparr>) \<and> st_holds (st\<lparr>st_values := bt_insert v x (st_values st)\<rparr>) c"
proof -
  have sorted: "bt_sorted (st_values st)" by (rule st_ok_sorted(1) [OF assms(1)])
  have "entries_wf aval_ok (bt_insert v x (st_values st))"
    by (rule entries_wf_insert [where P = aval_ok, OF _ assms(3)]) (use assms(1) in \<open>simp add: st_ok_def\<close>)
  moreover have "aval_holds y (mc_values c u)" if "bt_get (bt_insert v x (st_values st)) u = Some y" for u y
    using that assms(2,4) sorted by (auto simp: insert_get st_holds_def split: if_splits)
  ultimately show ?thesis using assms(1,2) by (simp add: st_ok_def st_holds_def)
qed

lemma conjoin_path_ok:
  assumes "st_ok st" and "st_holds st c" and "fact_true (mc_path c) f"
  shows "st_ok (conjoin_path_fact f st) \<and> st_holds (conjoin_path_fact f st) c"
proof -
  have "finite (case pc_conjoin f (st_path st) of Reachable facts \<Rightarrow> facts | Unreachable \<Rightarrow> {})"
    using conjoin_all_finite [of "st_path st" "[f]"] assms(1) by (simp add: st_ok_def)
  then show ?thesis using assms by (simp add: conjoin_path_fact_def st_ok_def st_holds_def pc_conjoin_holds)
qed

lemma carried_truth_true:
  assumes "st_holds st c" and "bt_get (st_values st) s = Some v" and "carried_truth (st_path st) s v = Some b"
  shows "mc_bool c s = b"
proof -
  have holds: "aval_holds v (mc_values c s)" and path: "pc_holds (st_path st) (mc_path c)"
    using assms(1,2) by (simp_all add: st_holds_def)
  obtain ab where v: "v = AVBool ab" using assms(3) by (auto simp: carried_truth_def split: abstract_value.splits)
  obtain x where x: "mc_values c s = RVBool x" "ab_contains ab x" using holds by (cases "mc_values c s") (auto simp: v)
  have implied: "pc_implies (st_path st) (FactBoolean s e) \<Longrightarrow> mc_bool c s = e" for e
    using pc_implies_true [OF _ path, of "FactBoolean s e"] by (simp add: mc_path_def)
  show ?thesis
  proof (cases ab)
    case ABUnknown
    then show ?thesis using assms(3) implied [of True] implied [of False] by (auto simp: carried_truth_def v split: if_splits)
  qed (use assms(3) x in \<open>simp_all add: carried_truth_def v mc_bool_def\<close>)
qed

lemma carry_value_ok:
  assumes "carry_value st er (s, t) p = Inr p'" and "st_ok p" and "st_holds p c'"
    and "st_ok st" and "st_holds st c" and "machine_wf c" and "er_sound er (mc_env c) (mc_env c')"
    and "mc_values c' t = cross_edge (mc_env c') (mc_values c s)"
  shows "st_ok p' \<and> st_holds p' c'"
proof (cases "bt_get (st_values st) s")
  case None
  then show ?thesis using assms(1-3) by (simp add: carry_value_def)
next
  case (Some v)
  let ?d = "p\<lparr>st_values := bt_insert t (er_value er v) (st_values p)\<rparr>"
  have p': "p' = (case carried_truth (st_path st) s v of None \<Rightarrow> ?d | Some e \<Rightarrow> conjoin_path_fact (FactBoolean t e) ?d)"
    using assms(1) Some by (auto simp: carry_value_def define_value_def split: option.splits)
  have v: "aval_ok v" "aval_holds v (mc_values c s)"
    using st_ok_entry(1) [OF assms(4) Some] assms(5) Some by (simp_all add: st_holds_def)
  have "reads_env (mc_env c) (mc_values c s)" using assms(6) by (simp add: machine_wf_def)
  then have "aval_holds (er_value er v) (mc_values c' t)"
    unfolding assms(8) using er_value_holds [OF assms(7) _ _ v(2)] aval_ok_wf [OF v(1)] by blast
  then have d: "st_ok ?d" "st_holds ?d c'" using insert_value_ok [OF assms(2,3) er_value_ok [OF v(1)]] by blast+
  have "mc_bool c' t = mc_bool c s" using assms(8) by (simp add: mc_bool_def)
  then have "fact_true (mc_path c') (FactBoolean t e)" if "carried_truth (st_path st) s v = Some e" for e
    using carried_truth_true [OF assms(5) Some that] by (simp add: mc_path_def)
  then show ?thesis using d conjoin_path_ok [OF d] by (simp add: p' split: option.split)
qed

lemma project_case_ok:
  assumes "project_cfg_case renames st = Inr p" and "st_ok st" and "st_holds st c" and "machine_wf c"
    and "machine_edge renames (st_remapper renames st) c c'"
  shows "st_ok p \<and> st_holds p c'"
proof -
  let ?er = "st_remapper renames st"
  have reach: "pc_is_reachable (st_path st)" using assms(3) unreachable_no_machine by blast
  then have run: "res_fold (carry_value st ?er) renames (project_cfg_edge renames st) = Inr p"
    using assms(1) by (simp add: project_cfg_case_def split: option.splits)
  note er = st_remapper_sound [OF assms(2,3,5)]
  show ?thesis
  proof (rule res_fold_prefix [OF run, where I = "\<lambda>_ p. st_ok p \<and> st_holds p c'"])
    show "st_ok (project_cfg_edge renames st) \<and> st_holds (project_cfg_edge renames st) c'"
      using project_edge_ok [OF assms(2-5)] by blast
  next
    fix ys r zs q q'
    assume h: "renames = ys @ r # zs" "st_ok q \<and> st_holds q c'" "carry_value st ?er r q = Inr q'"
    obtain s t where r: "r = (s, t)" by force
    have "mc_values c' t = cross_edge (mc_env c') (mc_values c s)" using assms(5) h(1) by (simp add: machine_edge_def r)
    then show "st_ok q' \<and> st_holds q' c'"
      using carry_value_ok [OF h(3) [unfolded r] _ _ assms(2-4) er] h(2) by blast
  qed
qed

end
