(* ===== verification/Resource_Update.thy ===== *)
theory Resource_Update
  imports Resource_Edge
begin

text \<open>
  The updates of a resource state at one program point: facts that are defined, narrowed or learned while the
  machine stands still, and the entries that change together with the machine.
\<close>

definition sound :: "('d, 'l, 's) resource_state \<Rightarrow> machine \<Rightarrow> bool" where
  "sound st c = (st_ok st \<and> st_holds st c)"

lemma soundI: "st_ok st \<Longrightarrow> st_holds st c \<Longrightarrow> sound st c"
  by (simp add: sound_def)

lemma soundD: "sound st c \<Longrightarrow> st_ok st" "sound st c \<Longrightarrow> st_holds st c"
  by (simp_all add: sound_def)

lemma insert_value_sound:
  "sound st c \<Longrightarrow> aval_ok x \<Longrightarrow> aval_holds x (mc_values c v) \<Longrightarrow> sound (st\<lparr>st_values := bt_insert v x (st_values st)\<rparr>) c"
  unfolding sound_def using insert_value_ok by blast

lemma define_value_sound:
  "define_value v x st = Inr st' \<Longrightarrow> sound st c \<Longrightarrow> aval_ok x \<Longrightarrow> aval_holds x (mc_values c v) \<Longrightarrow> sound st' c"
  using insert_value_sound by (auto simp: define_value_def split: option.splits)

lemma conjoin_sound: "sound st c \<Longrightarrow> fact_true (mc_path c) f \<Longrightarrow> sound (conjoin_path_fact f st) c"
  unfolding sound_def using conjoin_path_ok by blast

lemma forget_path_sound: "sound st c \<Longrightarrow> sound (forget_path_condition st) c"
  by (auto simp: sound_def forget_path_condition_def st_ok_def st_holds_def pc_empty_def)

lemma mark_loss_sound: "sound st c \<Longrightarrow> sound (mark_loan_precision_loss loss st) c"
  by (auto simp: sound_def mark_loan_precision_loss_def st_ok_def st_holds_def)

lemma set_expression_sound:
  assumes "sound st c" and "ae_wf e" and "ae_den (mc_env c) e = mc_env c v"
  shows "sound (set_word_expression v e st) c"
proof -
  have "entries_wf ae_wf (bt_insert v e (st_word_expressions st))"
    by (rule entries_wf_insert [where P = ae_wf, OF _ assms(2)]) (use assms(1) in \<open>simp add: sound_def st_ok_def\<close>)
  moreover have "ae_den (mc_env c) x = mc_env c u" if "bt_get (bt_insert v e (st_word_expressions st)) u = Some x" for u x
    using that assms(1,3) st_ok_sorted(2) [OF soundD(1) [OF assms(1)]] by (auto simp: insert_get sound_def st_holds_def split: if_splits)
  ultimately show ?thesis using assms(1) by (simp add: sound_def st_ok_def st_holds_def set_word_expression_def)
qed

lemma clear_expression_sound:
  assumes "sound st c"
  shows "sound (clear_word_expression v st) c"
proof -
  have "ae_den (mc_env c) x = mc_env c u" if "bt_get (filter (\<lambda>(k, _). k \<noteq> v) (st_word_expressions st)) u = Some x" for u x
    using filter_get_Some [OF st_ok_sorted(2) [OF soundD(1) [OF assms]] that] assms by (simp add: sound_def st_holds_def)
  then show ?thesis using assms by (simp add: sound_def st_ok_def st_holds_def clear_word_expression_def entries_wf_filter)
qed

section \<open>Narrowing\<close>

lemma iv_intersection_contains:
  "iv_intersection a b = Some j \<Longrightarrow> iv_contains a x \<Longrightarrow> iv_contains b x \<Longrightarrow> iv_contains j x"
  by (auto simp: iv_intersection_def iv_new_ok iv_contains_def)

lemma iv_intersection_wf: "iv_intersection a b = Some j \<Longrightarrow> iv_wf j"
  by (auto simp: iv_intersection_def iv_new_ok iv_wf_def)

lemma narrow_bool_sound:
  assumes "sound st c" and "mc_bool c v = expected"
  shows "sound (snd (narrow_bool_value v expected st)) c"
proof -
  have "aval_holds (AVBool (if expected then ABTrue else ABFalse)) (mc_values c v)" if "bt_get (st_values st) v = Some (AVBool b)" for b
  proof -
    have "aval_holds (AVBool b) (mc_values c v)" using assms(1) that by (simp add: sound_def st_holds_def)
    then show ?thesis using assms(2) by (cases "mc_values c v") (auto simp: mc_bool_def)
  qed
  then show ?thesis
    using assms(1) insert_value_sound [OF assms(1)] by (auto simp: narrow_bool_value_def split: option.split abstract_value.split)
qed

lemma narrow_pointer_sound:
  assumes "sound st c" and "\<And>p. mc_values c v = RVPointer p \<Longrightarrow> iv_contains i (cp_offset p)"
  shows "sound (snd (narrow_pointer_offset v i st)) c"
proof -
  have "aval_ok (AVPointer (p\<lparr>ap_offset_bytes := j\<rparr>)) \<and> aval_holds (AVPointer (p\<lparr>ap_offset_bytes := j\<rparr>)) (mc_values c v)"
    if h: "bt_get (st_values st) v = Some (AVPointer p)" "iv_intersection (ap_offset_bytes p) i = Some j" for p j
  proof -
    have "aval_holds (AVPointer p) (mc_values c v)" using assms(1) h(1) by (simp add: sound_def st_holds_def)
    then obtain x where x: "mc_values c v = RVPointer x" "ptr_holds p x" by (cases "mc_values c v") auto
    have "iv_contains j (cp_offset x)"
      by (rule iv_intersection_contains [OF h(2)]) (use x assms(2) in \<open>simp_all add: ptr_holds_def\<close>)
    moreover have "ptr_ok p" using st_ok_entry(1) [OF soundD(1) [OF assms(1)] h(1)] by simp
    ultimately show ?thesis
      using x iv_intersection_wf [OF h(2)]
      by (cases "ap_slice_footprint p") (simp_all add: ptr_holds_def ptr_ok_def ptr_wf_def ptr_exprs_wf_def ptr_linked_def)
  qed
  then show ?thesis
    using assms(1) insert_value_sound [OF assms(1)]
    by (auto simp: narrow_pointer_offset_def split: option.split abstract_value.split)
qed

lemma narrowed_word_Some:
  "Option.bind (bt_get m v) (narrowed_word i) = Some j \<longleftrightarrow>
    (\<exists>current. bt_get m v = Some (AVU64 current) \<and> iv_intersection current i = Some j)"
proof -
  have "narrowed_word i x = Some j \<longleftrightarrow> (\<exists>current. x = AVU64 current \<and> iv_intersection current i = Some j)" for x
    by (cases x) auto
  then show ?thesis by (auto simp: Option.bind_eq_Some_conv)
qed

lemma word_holds_iff: "aval_holds (AVU64 i) rv \<Longrightarrow> iv_contains j (word_of rv) \<Longrightarrow> aval_holds (AVU64 j) rv"
  by (cases rv) auto

lemma narrowed_holds:
  assumes "sound st c" and "bt_get (st_values st) v = Some (AVU64 current)" and "iv_intersection current i = Some j"
    and "iv_contains i (mc_word c v)"
  shows "aval_ok (AVU64 j)" and "aval_holds (AVU64 j) (mc_values c v)"
proof -
  have holds: "aval_holds (AVU64 current) (mc_values c v)" using assms(1,2) by (simp add: sound_def st_holds_def)
  have "iv_contains current (mc_word c v)" by (rule st_reads [OF soundD(2) [OF assms(1)] assms(2)])
  then have "iv_contains j (mc_word c v)" using iv_intersection_contains [OF assms(3)] assms(4) by blast
  then show "aval_holds (AVU64 j) (mc_values c v)" using word_holds_iff [OF holds] by (simp add: mc_word_def)
  show "aval_ok (AVU64 j)" using iv_intersection_wf [OF assms(3)] by simp
qed

lemma narrow_entry_sound:
  assumes "sound st c" and "iv_contains i (mc_word c v)"
  shows "sound (st\<lparr>st_values := narrow_entry i v (st_values st)\<rparr>) c"
proof (cases "Option.bind (bt_get (st_values st) v) (narrowed_word i)")
  case None
  then show ?thesis using assms(1) by (simp add: narrow_entry_def)
next
  case (Some j)
  then obtain current where cur: "bt_get (st_values st) v = Some (AVU64 current)" "iv_intersection current i = Some j"
    using narrowed_word_Some by blast
  show ?thesis using insert_value_sound [OF assms(1) narrowed_holds [OF assms(1) cur assms(2)]] Some by (simp add: narrow_entry_def)
qed

lemma narrow_aliases_sound:
  assumes "sound st c" and "\<And>alias. (alias, origin) \<in> set origins \<Longrightarrow> iv_contains i (mc_word c alias)"
  shows "sound (st\<lparr>st_values := fold (\<lambda>(alias, history) m. if history = origin then narrow_entry i alias m else m) origins (st_values st)\<rparr>) c"
  using assms
proof (induction origins arbitrary: st)
  case (Cons e origins)
  obtain u history where e: "e = (u, history)" by force
  let ?st = "if history = origin then st\<lparr>st_values := narrow_entry i u (st_values st)\<rparr> else st"
  have "sound ?st c" using narrow_entry_sound [OF Cons.prems(1)] Cons.prems by (auto simp: e)
  then have "sound (?st\<lparr>st_values := fold (\<lambda>(alias, history) m. if history = origin then narrow_entry i alias m else m) origins (st_values ?st)\<rparr>) c"
    by (rule Cons.IH) (use Cons.prems(2) in auto)
  then show ?case by (simp add: e split: if_splits)
qed simp

text \<open>Narrowing the stored words of one origin changes nothing but their intervals.\<close>

lemma narrow_stored_same:
  obtains vs where "narrow_stored_word_origin origin i a = a\<lparr>aa_scalar_contents := (aa_scalar_contents a)\<lparr>sc_values := vs\<rparr>\<rparr>"
proof -
  define P where "P b \<longleftrightarrow> (\<exists>vs. b = a\<lparr>aa_scalar_contents := (aa_scalar_contents a)\<lparr>sc_values := vs\<rparr>\<rparr>)" for b
  have step: "P (narrow_cell origin i cell b)" if "P b" for cell b
    using that unfolding P_def
    by (elim exE) (cases cell, simp add: narrow_cell_def split: abstract_value.split option.split, blast)
  have "P (fold (narrow_cell origin i) cells b)" if "P b" for cells b
    using that by (induction cells arbitrary: b) (simp_all add: step)
  moreover have "P a" unfolding P_def by (rule exI [of _ "sc_values (aa_scalar_contents a)"]) simp
  ultimately show thesis using that by (auto simp: P_def narrow_stored_word_origin_def)
qed

lemma no_cells: "aa_liveness a \<noteq> Live \<Longrightarrow> aa_scalar_cells a = []"
  by (simp add: aa_scalar_cells_def aa_scalar_content_def aa_readable_def List.map_filter_def case_prod_unfold)

lemma narrow_stored_ok:
  assumes "alloc_ok a" and "alloc_means (Some a) r c" and "iv_contains i w" and "origin_val (mc_history c) origin = uint w"
  shows "alloc_ok (narrow_stored_word_origin origin i a) \<and> alloc_means (Some (narrow_stored_word_origin origin i a)) r c"
proof (cases "aa_liveness a = Live")
  case False
  then show ?thesis using assms(1,2) by (simp add: narrow_stored_word_origin_def no_cells)
next
  case True
  obtain vs where same: "narrow_stored_word_origin origin i a = a\<lparr>aa_scalar_contents := (aa_scalar_contents a)\<lparr>sc_values := vs\<rparr>\<rparr>"
    by (rule narrow_stored_same)
  have holds: "aa_wf a" "aa_holds a r" "cell_histories a r c" using assms(1,2) True by (auto simp: alloc_ok_def alloc_means_def)
  have "origin_within origin i a (ar_cells r)"
    using holds(3) assms(3,4) unfolding origin_within_def cell_histories_def by (metis scalar_value.inject(1) word_uint_eq_iff)
  note n = narrow_ok [OF holds(1,2) this]
  have "cell_histories (narrow_stored_word_origin origin i a) r c" using holds(3) by (simp add: same cell_histories_def)
  then show ?thesis using n assms(1,2) True by (simp add: same alloc_ok_def alloc_means_def)
qed

lemma map_allocations_sound:
  assumes "sound st c" and "\<And>aid a. bt_get (st_allocations st) aid = Some a \<Longrightarrow>
      alloc_ok (f aid a) \<and> alloc_means (Some (f aid a)) (mc_allocations c aid) c"
  shows "sound (st\<lparr>st_allocations := map (\<lambda>(aid, a). (aid, f aid a)) (st_allocations st)\<rparr>) c"
proof -
  note sorted = st_ok_sorted(3) [OF soundD(1) [OF assms(1)]]
  have means: "alloc_means (bt_get (st_allocations st) aid) (mc_allocations c aid) c" for aid
    using assms(1) by (simp add: sound_def st_holds_def)
  have "entries_wf alloc_ok (map (\<lambda>(aid, a). (aid, f aid a)) (st_allocations st))"
    using assms(2) bt_get_mem [OF sorted] sorted by (auto simp: entries_wf_def)
  moreover have "alloc_means (bt_get (map (\<lambda>(aid, a). (aid, f aid a)) (st_allocations st)) aid) (mc_allocations c aid) c" for aid
    using assms(2) [of aid] means [of aid] by (cases "bt_get (st_allocations st) aid") (simp_all add: keyed_map_get)
  ultimately show ?thesis using assms(1) by (simp add: sound_def st_ok_def st_holds_def)
qed

lemma map_entries_keyed: "map_entries f m = map (\<lambda>(k, v). (k, f v)) m"
  by (simp add: map_entries_def)

lemma narrow_history_sound:
  assumes "sound st c" and "iv_contains i (mc_word c v)"
  shows "sound (narrow_word_history v i st) c"
proof (cases "bt_get (st_word_origins st) v")
  case None
  then show ?thesis using assms(1) by (simp add: narrow_word_history_def)
next
  case (Some origin)
  have history: "bt_get (st_word_origins st) u = Some s \<Longrightarrow> origin_val (mc_history c) s = uint (mc_word c u)" for u s
    using assms(1) by (simp add: sound_def st_holds_def mc_env_def)
  have "iv_contains i (mc_word c u)" if "(u, origin) \<in> set (st_word_origins st)" for u
  proof -
    have "bt_get (st_word_origins st) u = Some origin"
      using that bt_get_mem [OF st_ok_sorted(5) [OF soundD(1) [OF assms(1)]]] by blast
    then have "mc_word c u = mc_word c v" using history Some by (metis word_uint_eq_iff)
    then show ?thesis using assms(2) by simp
  qed
  note aliases = narrow_aliases_sound [where origins = "st_word_origins st" and origin = origin and i = i, OF assms(1) this]
  let ?st = "st\<lparr>st_values := fold (\<lambda>(alias, history) m. if history = origin then narrow_entry i alias m else m)
      (st_word_origins st) (st_values st)\<rparr>"
  have "alloc_ok (narrow_stored_word_origin origin i a) \<and>
      alloc_means (Some (narrow_stored_word_origin origin i a)) (mc_allocations c aid) c"
    if a: "bt_get (st_allocations ?st) aid = Some a" for aid a
  proof (rule narrow_stored_ok [OF st_ok_entry(3) [OF soundD(1) [OF aliases] a] _ assms(2) history [OF Some]])
    have "alloc_means (bt_get (st_allocations ?st) aid) (mc_allocations c aid) c"
      using soundD(2) [OF aliases] unfolding st_holds_def by blast
    then show "alloc_means (Some a) (mc_allocations c aid) c" unfolding a .
  qed
  from map_allocations_sound [OF aliases this] show ?thesis
    by (simp add: narrow_word_history_def Some map_entries_keyed)
qed

lemma narrow_word_sound:
  assumes "sound st c" and "iv_contains i (mc_word c v)"
  shows "sound (narrow_word_interval v i st) c"
proof (cases "Option.bind (bt_get (st_values st) v) (narrowed_word i)")
  case None
  then show ?thesis using assms(1) by (simp add: narrow_word_interval_def)
next
  case (Some j)
  then obtain current where cur: "bt_get (st_values st) v = Some (AVU64 current)" "iv_intersection current i = Some j"
    using narrowed_word_Some by blast
  have "iv_contains current (mc_word c v)" by (rule st_reads [OF soundD(2) [OF assms(1)] cur(1)])
  then have j: "iv_contains j (mc_word c v)" using iv_intersection_contains [OF cur(2)] assms(2) by blast
  show ?thesis
    using narrow_history_sound [OF insert_value_sound [OF assms(1) narrowed_holds [OF assms(1) cur assms(2)]] j] Some
    by (simp add: narrow_word_interval_def)
qed

section \<open>Relations\<close>

lemma set_relations_sound:
  "sound st c \<Longrightarrow> rs_wf rs \<Longrightarrow> rs_holds rs (mc_word c) \<Longrightarrow> sound (st\<lparr>st_relations := rs\<rparr>) c"
  by (simp add: sound_def st_ok_def st_holds_def)

lemma limit_relations_sound: "sound st c \<Longrightarrow> sound (limit_relations limits st) c"
  unfolding limit_relations_def
  by (rule set_relations_sound) (simp_all add: sound_def st_ok_def st_holds_def rs_wf_def [of "st_relations st"] rs_limit_holds rs_limit_wf)

lemma reduce_relations_sound:
  assumes "sound st c"
  shows "sound (reduce_relation_intervals st) c"
proof -
  let ?step = "\<lambda>b st'. case bound_refinement b of None \<Rightarrow> st' | Some (v, i) \<Rightarrow> narrow_word_interval v i st'"
  have "sound (fold ?step bs st') c"
    if "\<forall>b \<in> set bs. end_val (mc_word c) (db_left b) - end_val (mc_word c) (db_right b) \<le> db_bound b" "sound st' c" for bs st'
    using that
  proof (induction bs arbitrary: st')
    case (Cons b bs)
    have "sound (?step b st') c"
    proof (cases "bound_refinement b")
      case (Some vi)
      obtain v i where vi: "vi = (v, i)" by force
      have "iv_contains i (mc_word c v)"
        using bound_refinement_holds [OF Some [unfolded vi]] Cons.prems(1) by simp
      then show ?thesis unfolding Some vi using narrow_word_sound [OF Cons.prems(2)] by simp
    next
      case None
      then show ?thesis unfolding None using Cons.prems(2) by simp
    qed
    then show ?case using Cons.IH Cons.prems(1) by simp
  qed simp
  moreover have "\<forall>b \<in> set (rs_bound_list (st_relations st)).
      end_val (mc_word c) (db_left b) - end_val (mc_word c) (db_right b) \<le> db_bound b"
    using assms by (auto simp: sound_def st_holds_def rs_holds_def bounds_hold_def rs_bound_list_def)
  ultimately show ?thesis unfolding reduce_relation_intervals_def using assms by blast
qed

lemma learn_relations_sound:
  assumes "sound st c" and "list_all (premise_true (mc_word c)) added"
  shows "sound (learn_relations added limits st) c"
proof -
  have "rs_wf (rs_learn added (bt_get (st_values st)) limits (st_relations st)) \<and>
      rs_holds (rs_learn added (bt_get (st_values st)) limits (st_relations st)) (mc_word c)"
    by (rule rs_learn_ok [OF _ _ assms(2) st_reads_env(2) [OF soundD(2) [OF assms(1)]]])
      (use assms(1) in \<open>simp_all add: sound_def st_ok_def st_holds_def\<close>)
  then show ?thesis
    unfolding learn_relations_def by (intro reduce_relations_sound set_relations_sound [OF assms(1)]) simp_all
qed

section \<open>Origins\<close>

lemma set_bool_origin_sound:
  assumes "sound st c" and "mc_bool_history c origin = mc_bool c v"
  shows "sound (st_set_bool_origin v origin st) c"
proof -
  note sorted = st_ok_sorted(6) [OF soundD(1) [OF assms(1)]]
  have "mc_bool_history c s = mc_bool c u" if "bt_get (bt_insert v origin (st_bool_origins st)) u = Some s" for u s
    using that assms sorted by (auto simp: insert_get sound_def st_holds_def split: if_splits)
  then show ?thesis using assms(1) sorted by (simp add: sound_def st_ok_def st_holds_def st_set_bool_origin_def)
qed

lemma set_word_origin_sound:
  assumes "sound st c" and "origin_val (mc_history c) origin = mc_env c v"
  shows "sound (st_set_word_origin v origin st) c"
proof -
  note sorted = st_ok_sorted(5) [OF soundD(1) [OF assms(1)]]
  have "origin_val (mc_history c) s = mc_env c u" if "bt_get (bt_insert v origin (st_word_origins st)) u = Some s" for u s
    using that assms sorted by (auto simp: insert_get sound_def st_holds_def split: if_splits)
  then show ?thesis using assms(1) sorted by (simp add: sound_def st_ok_def st_holds_def st_set_word_origin_def)
qed

lemma word_seed_val: "origin_val h (word_seed root i) = uint (h \<lparr>oc_root = root, oc_initial_lower = iv_lower i, oc_initial_upper = iv_upper i\<rparr>)"
  by (simp add: origin_val_def word_seed_def so_terms_def)

text \<open>At the start of a function the parameters are their own history, and so are the stored cells.\<close>

definition parameter_history :: "u32 \<Rightarrow> vir_value_id \<Rightarrow> machine \<Rightarrow> bool" where
  "parameter_history f v c =
     (mc_bool_history c (BParameter f v) = mc_bool c v \<and>
      (\<forall>l u. mc_history c \<lparr>oc_root = SParameter f v, oc_initial_lower = l, oc_initial_upper = u\<rparr> = mc_word c v))"

definition stored_history :: "machine \<Rightarrow> bool" where
  "stored_history c =
     (\<forall>aid r access. case ar_cells (mc_allocations c aid) (r, access) of
        SWord n \<Rightarrow> (\<forall>l u. mc_history c \<lparr>oc_root = SCell aid r access, oc_initial_lower = l, oc_initial_upper = u\<rparr> = n)
      | SBool b \<Rightarrow> mc_bool_history c (BCell aid r access) = b)"

lemma seed_parameter_sound: "sound st c \<Longrightarrow> parameter_history f v c \<Longrightarrow> sound (seed_parameter f v st) c"
  using set_bool_origin_sound [of st c "BParameter f v" v] set_word_origin_sound [of st c _ v]
  by (auto simp: seed_parameter_def parameter_history_def word_seed_val mc_env_def split: option.split abstract_value.split)

lemma seed_parameters_sound:
  "sound st c \<Longrightarrow> \<forall>v \<in> set parameters. parameter_history f v c \<Longrightarrow> sound (seed_parameter_origins f parameters st) c"
  unfolding seed_parameter_origins_def by (induction parameters arbitrary: st) (simp_all add: seed_parameter_sound)

definition alloc_live_sound :: "machine \<Rightarrow> allocation_run \<Rightarrow> abstract_allocation \<Rightarrow> abstract_allocation \<Rightarrow> bool" where
  "alloc_live_sound c r a b =
     (aa_wf b \<and> aa_holds b r \<and> cell_histories b r c \<and> aa_liveness b = aa_liveness a \<and> aa_ownership b = aa_ownership a \<and>
      aa_object_state b = aa_object_state a)"

lemma seed_cell_sound:
  assumes "alloc_live_sound c r a b" and "stored_history c" and "r = mc_allocations c aid"
  shows "alloc_live_sound c r a (seed_cell aid cell b)"
proof -
  obtain rg access v where cell: "cell = (rg, access, v)" by (metis surj_pair)
  note b = assms(1) [unfolded alloc_live_sound_def]
  have ok: "aa_wf b" "aa_holds b r" using b by simp_all
  have history: "case ar_cells r (rg, access) of
        SWord n \<Rightarrow> (\<forall>l u. mc_history c \<lparr>oc_root = SCell aid rg access, oc_initial_lower = l, oc_initial_upper = u\<rparr> = n)
      | SBool b \<Rightarrow> mc_bool_history c (BCell aid rg access) = b"
    using assms(2) unfolding stored_history_def assms(3) by blast
  have bool: "alloc_live_sound c r a (aa_set_bool_origin rg access (BCell aid rg access) b)"
  proof (cases "is_bool_fact (aa_scalar_content b rg access)")
    case True
    then obtain x where "aa_scalar_content b rg access = Some (AVBool x)" by (auto elim!: is_bool_fact.elims)
    from scalar_content_holds [OF ok(2) this] obtain y where y: "ar_cells r (rg, access) = SBool y"
      by (cases "ar_cells r (rg, access)") auto
    then have "cell_histories (aa_set_bool_origin rg access (BCell aid rg access) b) r c"
      using b history by (auto simp: cell_histories_def aa_set_bool_origin_def Let_def dest!: bt_insert_elem)
    then show ?thesis
      using b origin_update_ok(2) [OF ok] by (simp add: alloc_live_sound_def) (simp add: aa_set_bool_origin_def Let_def)
  qed (use assms(1) in \<open>simp add: aa_set_bool_origin_def Let_def\<close>)
  have word: "alloc_live_sound c r a (aa_set_scalar_origin rg access (word_seed (SCell aid rg access) i) b)" for i
  proof (cases "is_word_fact (aa_scalar_content b rg access)")
    case True
    then obtain x where "aa_scalar_content b rg access = Some (AVU64 x)" by (auto elim!: is_word_fact.elims)
    from scalar_content_holds [OF ok(2) this] obtain y where y: "ar_cells r (rg, access) = SWord y"
      by (cases "ar_cells r (rg, access)") auto
    then have "cell_histories (aa_set_scalar_origin rg access (word_seed (SCell aid rg access) i) b) r c"
      using b history by (auto simp: cell_histories_def aa_set_scalar_origin_def Let_def word_seed_val dest!: bt_insert_elem)
    then show ?thesis
      using b origin_update_ok(1) [OF ok] by (simp add: alloc_live_sound_def) (simp add: aa_set_scalar_origin_def Let_def)
  qed (use assms(1) in \<open>simp add: aa_set_scalar_origin_def Let_def\<close>)
  show ?thesis using bool word assms(1) by (simp add: seed_cell_def cell split: abstract_value.split)
qed

lemma seed_origins_ok:
  assumes "alloc_ok a" and "alloc_means (Some a) (mc_allocations c aid) c" and "stored_history c"
  shows "alloc_ok (aa_seed_scalar_origins aid a) \<and> alloc_means (Some (aa_seed_scalar_origins aid a)) (mc_allocations c aid) c"
proof (cases "aa_liveness a = Live")
  case False
  then show ?thesis using assms(1,2) by (simp add: aa_seed_scalar_origins_def no_cells)
next
  case True
  have "alloc_live_sound c (mc_allocations c aid) a (fold (seed_cell aid) cs b)"
    if "alloc_live_sound c (mc_allocations c aid) a b" for cs b
    using that by (induction cs arbitrary: b) (simp_all add: seed_cell_sound [OF _ assms(3) refl])
  moreover have "alloc_live_sound c (mc_allocations c aid) a a"
    using True assms(1,2) by (simp add: alloc_live_sound_def alloc_ok_def alloc_means_def)
  ultimately have "alloc_live_sound c (mc_allocations c aid) a (aa_seed_scalar_origins aid a)"
    by (simp add: aa_seed_scalar_origins_def)
  then show ?thesis using True assms(1,2) by (simp add: alloc_live_sound_def alloc_ok_def alloc_means_def)
qed

lemma seed_origins_sound:
  assumes "sound st c" and "stored_history c"
  shows "sound (st_seed_scalar_origins st) c"
  unfolding st_seed_scalar_origins_def
proof (rule map_allocations_sound [OF assms(1)])
  fix aid a assume a: "bt_get (st_allocations st) aid = Some a"
  have "alloc_means (Some a) (mc_allocations c aid) c"
    using assms(1) a unfolding sound_def st_holds_def by metis
  then show "alloc_ok (aa_seed_scalar_origins aid a) \<and> alloc_means (Some (aa_seed_scalar_origins aid a)) (mc_allocations c aid) c"
    using seed_origins_ok [OF st_ok_entry(3) [OF soundD(1) [OF assms(1)] a] _ assms(2)] by blast
qed

section \<open>Entries that change with the machine\<close>

lemma alloc_means_cong:
  "mc_history c' = mc_history c \<Longrightarrow> mc_bool_history c' = mc_bool_history c \<Longrightarrow> alloc_means entry r c' = alloc_means entry r c"
  by (simp add: alloc_means_def cell_histories_def split: option.split)

definition set_run :: "abstract_allocation_id \<Rightarrow> allocation_run \<Rightarrow> machine \<Rightarrow> machine" where
  "set_run aid r c = c\<lparr>mc_allocations := (mc_allocations c)(aid := r)\<rparr>"

definition set_loan :: "u32 \<Rightarrow> loan_state \<Rightarrow> machine \<Rightarrow> machine" where
  "set_loan loan s c = c\<lparr>mc_loans := (mc_loans c)(loan := s)\<rparr>"

definition set_value :: "vir_value_id \<Rightarrow> runtime_value \<Rightarrow> machine \<Rightarrow> machine" where
  "set_value v rv c = c\<lparr>mc_values := (mc_values c)(v := rv)\<rparr>"

lemma set_run_scalars [simp]:
  "mc_values (set_run aid r c) = mc_values c" "mc_word (set_run aid r c) = mc_word c" "mc_bool (set_run aid r c) = mc_bool c"
  "mc_env (set_run aid r c) = mc_env c" "mc_path (set_run aid r c) = mc_path c" "mc_history (set_run aid r c) = mc_history c"
  "mc_bool_history (set_run aid r c) = mc_bool_history c" "mc_loans (set_run aid r c) = mc_loans c"
  "mc_allocations (set_run aid r c) = (mc_allocations c)(aid := r)"
  by (simp_all add: set_run_def mc_word_def mc_bool_def mc_env_def mc_path_def fun_eq_iff)

lemma set_loan_scalars [simp]:
  "mc_values (set_loan l s c) = mc_values c" "mc_word (set_loan l s c) = mc_word c" "mc_bool (set_loan l s c) = mc_bool c"
  "mc_env (set_loan l s c) = mc_env c" "mc_path (set_loan l s c) = mc_path c" "mc_history (set_loan l s c) = mc_history c"
  "mc_bool_history (set_loan l s c) = mc_bool_history c" "mc_allocations (set_loan l s c) = mc_allocations c"
  "mc_loans (set_loan l s c) = (mc_loans c)(l := s)"
  by (simp_all add: set_loan_def mc_word_def mc_bool_def mc_env_def mc_path_def fun_eq_iff)

lemma insert_allocation_sound:
  assumes "sound st c" and "alloc_ok a" and "alloc_means (Some a) r c"
  shows "sound (st\<lparr>st_allocations := bt_insert aid a (st_allocations st)\<rparr>) (set_run aid r c)"
proof -
  note sorted = st_ok_sorted(3) [OF soundD(1) [OF assms(1)]]
  have "entries_wf alloc_ok (bt_insert aid a (st_allocations st))"
    by (rule entries_wf_insert [where P = alloc_ok, OF _ assms(2)]) (use assms(1) in \<open>simp add: sound_def st_ok_def\<close>)
  moreover have "alloc_means (bt_get (bt_insert aid a (st_allocations st)) k) (((mc_allocations c)(aid := r)) k) (set_run aid r c)" for k
    using assms(1,3) sorted alloc_means_cong [of "set_run aid r c" c] by (simp add: insert_get sound_def st_holds_def)
  ultimately show ?thesis using assms(1) by (simp add: sound_def st_ok_def st_holds_def)
qed

lemma define_allocation_sound:
  "define_allocation aid a st = Inr st' \<Longrightarrow> sound st c \<Longrightarrow> alloc_ok a \<Longrightarrow> alloc_means (Some a) r c \<Longrightarrow> sound st' (set_run aid r c)"
  using insert_allocation_sound by (auto simp: define_allocation_def split: option.splits if_splits)

lemma replace_allocation_sound:
  "sound st c \<Longrightarrow> alloc_ok a \<Longrightarrow> alloc_means (Some a) r c \<Longrightarrow> sound (replace_allocation aid a st) (set_run aid r c)"
  using insert_allocation_sound by (simp add: replace_allocation_def)

lemma allocation_mut_sound:
  assumes "sound st c" and "bt_get (st_allocations st) aid = Some a" and "alloc_ok (f a)" and "alloc_means (Some (f a)) r c"
  shows "sound (allocation_mut aid f st) (set_run aid r c)"
  using insert_allocation_sound [OF assms(1,3,4)] assms(2) by (simp add: allocation_mut_def update_entry_def)

lemma insert_loan_sound:
  assumes "sound st c" and "loan_ok l" and "loan_means (Some l) s"
  shows "sound (st\<lparr>st_loans := bt_insert loan l (st_loans st)\<rparr>) (set_loan loan s c)"
proof -
  note sorted = st_ok_sorted(4) [OF soundD(1) [OF assms(1)]]
  have "entries_wf loan_ok (bt_insert loan l (st_loans st))"
    by (rule entries_wf_insert [where P = loan_ok, OF _ assms(2)]) (use assms(1) in \<open>simp add: sound_def st_ok_def\<close>)
  moreover have "loan_means (bt_get (bt_insert loan l (st_loans st)) k) (((mc_loans c)(loan := s)) k)" for k
    using assms(1,3) sorted by (simp add: insert_get sound_def st_holds_def)
  moreover have "alloc_means entry r (set_loan loan s c) = alloc_means entry r c" for entry r by (rule alloc_means_cong) simp_all
  ultimately show ?thesis using assms(1) by (simp add: sound_def st_ok_def st_holds_def)
qed

lemma define_loan_sound:
  "define_loan loan l st = Inr st' \<Longrightarrow> sound st c \<Longrightarrow> loan_ok l \<Longrightarrow> loan_means (Some l) s \<Longrightarrow> sound st' (set_loan loan s c)"
  using insert_loan_sound by (auto simp: define_loan_def split: option.splits)

lemma define_next_loan_sound:
  "define_next_loan_instance loan l st = Inr st' \<Longrightarrow> sound st c \<Longrightarrow> loan_ok l \<Longrightarrow> loan_means (Some l) s \<Longrightarrow>
    sound st' (set_loan loan s c)"
  using insert_loan_sound by (auto simp: define_next_loan_instance_def split: option.splits if_splits)

lemma loan_mut_sound:
  assumes "sound st c" and "bt_get (st_loans st) loan = Some l" and "loan_ok (f l)" and "loan_means (Some (f l)) s"
  shows "sound (loan_mut loan f st) (set_loan loan s c)"
  using insert_loan_sound [OF assms(1,3,4)] assms(2) by (simp add: loan_mut_def update_entry_def)

text \<open>An instance handed to unknown code keeps neither its contents nor its owner.\<close>

lemma opaque_ok:
  assumes "alloc_ok a"
  shows "alloc_ok (let a' = a\<lparr>aa_ownership := Unowned\<rparr> in if aa_liveness a' \<noteq> Dead then aa_set_liveness MaybeLive a' else a')"
  using assms by (auto simp: alloc_ok_def aa_wf_def aa_set_liveness_def aa_edits)

lemma transfer_opaque_sound:
  assumes "sound st c" and "\<not> ar_owned r" and "ar_live r \<Longrightarrow> ar_live (mc_allocations c aid)"
  shows "sound (transfer_opaque_instance aid st) (set_run aid r c)"
proof (cases "bt_get (st_allocations st) aid")
  case None
  have "alloc_means (bt_get (st_allocations st) k) (((mc_allocations c)(aid := r)) k) (set_run aid r c)" for k
    using assms(1,2) None alloc_means_cong [of "set_run aid r c" c] by (simp add: sound_def st_holds_def alloc_means_def)
  then show ?thesis
    using assms(1) None by (simp add: transfer_opaque_instance_def allocation_mut_def update_entry_def sound_def st_ok_def st_holds_def)
next
  case (Some a)
  have "alloc_means (Some a) (mc_allocations c aid) c" using assms(1) Some unfolding sound_def st_holds_def by metis
  then have "alloc_means (Some (let a' = a\<lparr>aa_ownership := Unowned\<rparr> in if aa_liveness a' \<noteq> Dead then aa_set_liveness MaybeLive a' else a')) r c"
    using assms(2,3) by (auto simp: alloc_means_def aa_set_liveness_def aa_edits)
  with opaque_ok [OF st_ok_entry(3) [OF soundD(1) [OF assms(1)] Some]] show ?thesis
    unfolding transfer_opaque_instance_def by (rule allocation_mut_sound [OF assms(1) Some])
qed

end
