(* ===== verification/Query_Sound.thy ===== *)
theory Query_Sound
  imports Relation_Query Resource_Update
begin

text \<open>
  What a query answers is true: in every machine a well-formed resource state is true of, a \<open>Proven\<close> query holds
  and a \<open>Refuted\<close> one does not. The queries never unwrap a failed result, and whatever they find inconclusive or
  run out of budget on is \<open>Unknown\<close>.
\<close>

section \<open>The premises of a query are true\<close>

lemma sound_reads:
  assumes "sound st c" and "st_value st v = Some x"
  shows "aval_holds x (mc_values c v)" and "aval_ok x"
  using assms st_ok_entry(1) by (auto simp: sound_def st_holds_def st_value_def)

lemma word_reading_holds:
  assumes "sound st c" and "word_reading (st_value st v) = Some i"
  shows "iv_contains i (mc_word c v)"
proof -
  obtain x where "st_value st v = Some (AVU64 x)" "i = x"
    using assms(2) by (cases "st_value st v" rule: word_reading.cases) auto
  then have "aval_holds (AVU64 i) (mc_values c v)" using sound_reads [OF assms(1)] by blast
  then show ?thesis by (cases "mc_values c v") (auto simp: mc_word_def)
qed

lemma term_interval_holds:
  assumes "sound st c" and "term_interval st t = Some i"
  obtains w where "term_val (mc_word c) t = uint w" and "iv_contains i w"
proof (cases "(st, t)" rule: term_interval.cases)
  case (1 st' n)
  then show ?thesis using assms(2) that [of n] by (auto simp: iv_exact_def iv_contains_def)
next
  case (2 st' v)
  then show ?thesis using assms(2) that [of "mc_word c v"] word_reading_holds [OF assms(1)] by auto
qed (use assms(2) in auto)

lemma expression_holds:
  assumes "sound st c" and "st_word st v = Some e"
  shows "ae_den (mc_env c) e = mc_env c v" and "ae_wf e"
  using assms st_ok_entry(2) by (auto simp: sound_def st_holds_def st_word_def)

lemma single_root_flat: "ae_single_root e = Some r \<Longrightarrow> ae_flat e = [(r, ae_scale e)]"
  by (auto simp: ae_single_root_def ae_terms_def split: if_splits)

lemma single_root_den: "ae_single_root e = Some r \<Longrightarrow> ae_den \<rho> e = uint (ae_addend e) + uint (ae_scale e) * \<rho> r"
  by (simp add: ae_den_def single_root_flat)

lemma constant_expression_den: "ae_wf e \<Longrightarrow> ae_is_constant e \<Longrightarrow> ae_den \<rho> e = uint (ae_addend e)"
  by (auto simp: ae_den_def ae_terms_def ae_is_constant_def ae_wf_def)

lemma alias_root_val:
  assumes "sound st c"
  shows "term_val (mc_word c) (alias_root st seen t) = term_val (mc_word c) t"
proof -
  have "uint (mc_word c root) = uint (mc_word c v)"
    if h: "st_word st v = Some e" "ae_scale e = 1" "ae_addend e = 0" "ae_single_root e = Some root" for v e root
    using expression_holds(1) [OF assms h(1)] single_root_den [OF h(4), of "mc_env c"] h(2,3) by (simp add: mc_env_def)
  then show ?thesis
    by (auto simp: alias_root_def relation_word_def split: relation_term.split option.split)
qed

lemma swap_terms_val: "swap_terms l r = (l', r') \<Longrightarrow> (l' = l \<and> r' = r) \<or> (l' = r \<and> r' = l)"
  by (cases "(l, r)" rule: swap_terms.cases) (auto split: if_splits)

lemma canonical_premise_true:
  assumes "sound st c"
  shows "premise_true (mc_word c) (canonical_premise st seen p) = premise_true (mc_word c) p"
proof (cases "\<exists>l r. p = PCompare NotEqual l r")
  case True
  then obtain l r where p: "p = PCompare NotEqual l r" by blast
  obtain l' r' where s: "swap_terms (alias_root st seen l) (alias_root st seen r) = (l', r')" by force
  show ?thesis using swap_terms_val [OF s] alias_root_val [OF assms] by (auto simp: canonical_premise_def p s)
next
  case False
  then have "canonical_premise st seen p = p"
    by (auto simp: canonical_premise_def split: difference_premise.split relation_comparison.split)
  then show ?thesis by simp
qed

lemma push_premise_true:
  assumes "sound st c" and "premise_true (mc_word c) p" and "list_all (premise_true (mc_word c)) ps"
    and "push_premise st seen limits p ps = Inr ps'"
  shows "list_all (premise_true (mc_word c)) ps'"
  using assms(2-4) canonical_premise_true [OF assms(1), of seen p]
  by (auto simp: push_premise_def Let_def split: if_splits)

lemma push_premises_true:
  assumes "sound st c"
  shows "list_all (premise_true (mc_word c)) qs \<Longrightarrow> list_all (premise_true (mc_word c)) ps \<Longrightarrow>
    res_fold (push_premise st seen limits) qs ps = Inr ps' \<Longrightarrow> list_all (premise_true (mc_word c)) ps'"
proof (induction qs arbitrary: ps)
  case (Cons q qs)
  then obtain ps1 where "push_premise st seen limits q ps = Inr ps1"
      "res_fold (push_premise st seen limits) qs ps1 = Inr ps'" by auto
  moreover have "list_all (premise_true (mc_word c)) ps1"
    using push_premise_true [OF assms _ _ \<open>push_premise st seen limits q ps = Inr ps1\<close>] Cons.prems(1,2) by simp
  ultimately show ?case using Cons.IH Cons.prems(1) by simp
qed simp

lemma expression_premises_true:
  assumes "sound st c" and "st_word st v = Some e"
  shows "list_all (premise_true (mc_word c)) (expression_premises seen v e)"
proof -
  have den: "ae_den (\<lambda>v. uint (mc_word c v)) e = uint (mc_word c v)"
    using expression_holds(1) [OF assms] by (simp add: mc_env_def [abs_def])
  have bounds: "premise_true (mc_word c) (bound_premise b :: vir_memory_access difference_premise)"
    if "b \<in> set (affine_lower_bounds v e)" for b
    using affine_lower_bounds_hold [OF den that] by (simp add: bound_premise_true)
  have root: "uint (mc_word c v) - uint (mc_word c root) = uint (ae_addend e)"
    if "ae_single_root e = Some root" "ae_scale e = 1" for root
    using single_root_den [OF that(1), of "\<lambda>v. uint (mc_word c v)"] den that(2) by simp
  have const: "uint (mc_word c v) = uint (ae_addend e)" if "ae_is_constant e"
    using constant_expression_den [OF expression_holds(2) [OF assms] that, of "\<lambda>v. uint (mc_word c v)"] den by simp
  show ?thesis
    using bounds root const
    by (auto simp: expression_premises_def list_all_iff relation_word_def split: option.splits if_splits)
qed

lemma push_value_true:
  assumes "sound st c" and "list_all (premise_true (mc_word c)) ps" and "push_value st seen limits v ps = Inr ps'"
  shows "list_all (premise_true (mc_word c)) ps'"
proof -
  obtain i where i: "term_interval st (relation_word v) = Some i"
    and run: "res_fold (push_premise st seen limits)
        (PInterval v i # (case st_word st v of None \<Rightarrow> [] | Some e \<Rightarrow> expression_premises seen v e)) ps = Inr ps'"
    using assms(3) by (auto simp: push_value_def ok_or_def split: option.splits)
  have "iv_contains i (mc_word c v)" using word_reading_holds [OF assms(1)] i by (simp add: relation_word_def)
  then have "list_all (premise_true (mc_word c))
      (PInterval v i # (case st_word st v of None \<Rightarrow> [] | Some e \<Rightarrow> expression_premises seen v e))"
    using expression_premises_true [OF assms(1)] by (auto split: option.split)
  then show ?thesis using push_premises_true [OF assms(1) _ assms(2) run] by blast
qed

lemma push_values_true:
  assumes "sound st c"
  shows "list_all (premise_true (mc_word c)) ps \<Longrightarrow> res_fold (push_value st seen limits) vs ps = Inr ps' \<Longrightarrow>
    list_all (premise_true (mc_word c)) ps'"
proof (induction vs arbitrary: ps)
  case (Cons v vs)
  then obtain ps1 where "push_value st seen limits v ps = Inr ps1"
      "res_fold (push_value st seen limits) vs ps1 = Inr ps'" by auto
  then show ?case using Cons push_value_true [OF assms] by blast
qed simp

lemma fact_premises_true:
  assumes "fact_true (mc_path c) f"
  shows "list_all (premise_true (mc_word c)) (fact_premises seen f)"
  using assms by (cases f) (simp_all add: mc_path_def relation_word_def premise_comparison_true [of "mc_word c" _ "mc_word c _" _ "mc_word c _"])

lemma query_premises_true:
  assumes "sound st c" and "query_premises st goal limits = Inr ps"
  shows "list_all (premise_true (mc_word c)) ps"
proof -
  obtain facts seen ps1 where facts: "pc_facts (st_path st) = Some facts"
    and ps1: "res_fold (push_value st seen limits) (sorted_list_of_set seen) [] = Inr ps1"
    and run: "res_fold (push_premise st seen limits)
       (concat (map (fact_premises seen) (sorted_list_of_set facts)) @
        filter (retained_premise seen) (rs_premises (st_relations st))) ps1 = Inr ps"
    using assms(2) by (auto simp: query_premises_def Let_def ok_or_def split: option.splits)
  have path: "st_path st = Reachable facts" using facts by (cases "st_path st") auto
  have holds: "st_holds st c" and "st_ok st" using assms(1) by (simp_all add: sound_def)
  then have finite: "finite facts" "finite (rs_disequalities (st_relations st))" by (simp_all add: st_ok_def path rs_wf_def)
  have "list_all (premise_true (mc_word c)) (rs_premises (st_relations st))"
    using rs_premises_true finite(2) holds by (simp add: st_holds_def)
  moreover have "list_all (premise_true (mc_word c)) (concat (map (fact_premises seen) (sorted_list_of_set facts)))"
  proof -
    have "\<forall>f \<in> facts. fact_true (mc_path c) f" using holds by (simp add: st_holds_def path)
    then have "\<forall>f \<in> facts. list_all (premise_true (mc_word c)) (fact_premises seen f)" using fact_premises_true by blast
    then show ?thesis using finite(1) by (auto simp: list_all_iff)
  qed
  ultimately have "list_all (premise_true (mc_word c))
      (concat (map (fact_premises seen) (sorted_list_of_set facts)) @ filter (retained_premise seen) (rs_premises (st_relations st)))"
    by (auto simp: list_all_iff)
  then show ?thesis
    by (rule push_premises_true [OF assms(1) _ push_values_true [OF assms(1) _ ps1] run]) simp
qed

section \<open>Comparisons\<close>

definition verdict_right :: "obligation_status \<Rightarrow> bool \<Rightarrow> bool" where
  "verdict_right status truth = ((status = Proven \<longrightarrow> truth) \<and> (status = Refuted \<longrightarrow> \<not> truth))"

lemma verdict_right_Unknown [simp]: "verdict_right Unknown truth"
  by (simp add: verdict_right_def)

lemma compare_observed_right:
  assumes "sound st c" and "compare_observed st comparison l r limits = (status, evidence, stop)"
  shows "verdict_right status (compare_holds comparison (term_val (mc_word c) l) (term_val (mc_word c) r))"
proof (cases "term_interval st l = None \<or> term_interval st r = None")
  case True
  then show ?thesis using assms(2) by (auto simp: compare_observed_def split: option.splits)
next
  case False
  then obtain a b where ab: "term_interval st l = Some a" "term_interval st r = Some b" by auto
  obtain x where x: "term_val (mc_word c) l = uint x" "iv_contains a x" using term_interval_holds [OF assms(1) ab(1)] .
  obtain y where y: "term_val (mc_word c) r = uint y" "iv_contains b y" using term_interval_holds [OF assms(1) ab(2)] .
  have fast: "verdict_right (fast_comparison comparison a b) (compare_holds comparison (uint x) (uint y))"
    using interval_le_sound [OF x(2) y(2)] interval_lt_sound [OF x(2) y(2)]
    by (auto simp: fast_comparison_def verdict_right_def word_le_def word_less_def split: relation_comparison.split)
  show ?thesis
  proof (cases "fast_comparison comparison a b = Unknown")
    case True
    let ?goal = "\<lparr>dg_comparison = comparison, dg_left = l, dg_right = r\<rparr>"
    show ?thesis
    proof (cases "query_premises st ?goal limits")
      case (Inr ps)
      note sound = solve_difference_verdict [OF query_premises_true [OF assms(1) Inr], of ?goal limits]
      then show ?thesis
        using assms(2) ab True Inr by (auto simp: compare_observed_def Let_def verdict_right_def goal_true_def)
    qed (use assms(2) ab True in \<open>auto simp: compare_observed_def Let_def\<close>)
  next
    case False
    then show ?thesis using assms(2) ab fast x(1) y(1) by (auto simp: compare_observed_def)
  qed
qed

section \<open>Orders\<close>

lemma coordinate_holds:
  assumes "sound st c"
  shows "within_intervals (coordinate st) (mc_env c)"
proof -
  have "iv_contains i (mc_word c v)" if coord: "coordinate st v = Some i" for v i
  proof (cases "st_value st v")
    case (Some x)
    note x = sound_reads(1) [OF assms(1) Some]
    show ?thesis
    proof (cases x)
      case (AVU64 j)
      then show ?thesis using coord Some word_reading_holds [OF assms(1), of v] by (simp add: coordinate_def)
    next
      case (AVPointer p)
      then show ?thesis using coord Some x
        by (cases "mc_values c v") (auto simp: coordinate_def mc_word_def ptr_holds_def split: if_splits)
    qed (use coord Some in \<open>auto simp: coordinate_def\<close>)
  qed (use coord in \<open>simp add: coordinate_def\<close>)
  then show ?thesis by (fastforce simp: within_intervals_def mc_env_def iv_contains_def word_le_def)
qed

lemma ae_interval_contains:
  assumes "ae_interval read e = Some i" and "within_intervals read \<rho>" and "ae_den \<rho> e = uint x"
  shows "iv_contains i x"
proof -
  obtain l u where lu: "Affine_Expression.interval_terms read (ae_flat e) (ae_addend e, ae_addend e) = Some (l, u)" "i = \<lparr>iv_lower = l, iv_upper = u\<rparr>"
    using assms(1) by (auto simp: ae_interval_def Option.bind_eq_Some_conv iv_new_ok)
  show ?thesis
    using Affine_Expression.interval_terms_bounds [OF lu(1) assms(2)] assms(3) by (simp add: lu(2) iv_contains_def word_le_def ae_den_def)
qed

lemma iv_intersection_some:
  assumes "iv_contains a x" and "iv_contains b x"
  shows "\<exists>j. iv_intersection a b = Some j \<and> iv_contains j x"
proof -
  have "max (iv_lower a) (iv_lower b) \<le> x" "x \<le> min (iv_upper a) (iv_upper b)" using assms by (simp_all add: iv_contains_def)
  then have "\<not> max (iv_lower a) (iv_lower b) > min (iv_upper a) (iv_upper b)" by (meson leD order_trans)
  then have "\<exists>j. iv_intersection a b = Some j" by (simp add: iv_intersection_def iv_new_def)
  then show ?thesis using iv_intersection_contains [OF _ assms] by blast
qed

lemma evaluate_bound_holds:
  assumes "sound st c" and "bound_holds (mc_env c) b x"
  shows "evaluate_bound st b = Inr b' \<Longrightarrow> bound_holds (mc_env c) b' x \<and> sb_expression b' = sb_expression b"
    and "evaluate_bound st b \<noteq> Inl Inconsistent"
proof -
  have actual: "iv_contains i x" if "ae_interval (coordinate st) (sb_expression b) = Some i" for i
    using ae_interval_contains [OF that coordinate_holds [OF assms(1)]] assms(2) by (simp add: bound_holds_def)
  have inter: "\<exists>j. iv_intersection (sb_interval b) i = Some j \<and> iv_contains j x"
    if "ae_interval (coordinate st) (sb_expression b) = Some i" for i
    using iv_intersection_some [OF _ actual [OF that]] assms(2) by (simp add: bound_holds_def)
  show "evaluate_bound st b = Inr b' \<Longrightarrow> bound_holds (mc_env c) b' x \<and> sb_expression b' = sb_expression b"
    using inter assms(2) by (fastforce simp: evaluate_bound_def ok_or_def bound_holds_def split: option.splits)
  show "evaluate_bound st b \<noteq> Inl Inconsistent"
    using inter by (fastforce simp: evaluate_bound_def ok_or_def res_bind_def split: option.splits)
qed

lemma refine_pair_holds:
  assumes "sound st c" and "bound_holds (mc_env c) l x" and "bound_holds (mc_env c) r y"
    and "refine_pair st l r limits = Inr (Some (a, b))"
  shows "bound_holds (mc_env c) a x" and "bound_holds (mc_env c) b y"
  using assms(4) evaluate_bound_holds(1) [OF assms(1,2)] evaluate_bound_holds(1) [OF assms(1,3)]
  by (auto simp: refine_pair_def Let_def split: if_splits sum.splits)

lemma observe_threshold_right:
  assumes "verdict_right (be_status out) truth" and "\<And>k s d e. u64_try_from t = Some k \<Longrightarrow> query k = (s, d, e) \<Longrightarrow> verdict_right s truth"
  shows "verdict_right (be_status (observe_threshold out t query)) truth"
  using assms by (auto simp: observe_threshold_def split: option.split prod.split)

lemma div_threshold:
  fixes s n x :: int
  assumes "0 < s"
  shows "s * x \<le> n \<longleftrightarrow> x \<le> n div s" and "- ((- n) div s) \<le> x \<longleftrightarrow> n \<le> s * x"
proof -
  have h: "s * x \<le> n \<longleftrightarrow> x \<le> n div s" for x n
  proof
    assume "s * x \<le> n"
    then have "(s * x) div s \<le> n div s" using assms by (intro zdiv_mono1)
    then show "x \<le> n div s" using assms by simp
  next
    assume "x \<le> n div s"
    then have "s * x \<le> s * (n div s)" using assms by simp
    also have "\<dots> \<le> n" using assms pos_mod_sign [of s n] mult_div_mod_eq [of s n] by linarith
    finally show "s * x \<le> n" .
  qed
  show "s * x \<le> n \<longleftrightarrow> x \<le> n div s" by (rule h)
  have "- ((- n) div s) \<le> x \<longleftrightarrow> - x \<le> (- n) div s" by linarith
  also have "\<dots> \<longleftrightarrow> s * (- x) \<le> - n" using h by blast
  finally show "- ((- n) div s) \<le> x \<longleftrightarrow> n \<le> s * x" by simp
qed

lemma branch_order_right:
  fixes goal :: "vir_memory_access difference_goal"
  assumes "branch_sound w goal br"
  shows "verdict_right (branch_order x y t br) (uint (w x) - uint (w y) \<le> t)"
proof -
  have bound: "end_val w (db_left b) - end_val w (db_right b) \<le> db_bound b" if "b \<in> set (dbr_bounds br)" for b
    using assms that by (auto simp: branch_sound_def bound_premise_true)
  have "uint (w x) - uint (w y) \<le> t"
    if "b \<in> set (dbr_bounds br)" "db_left b = Some x" "db_right b = Some y" "db_bound b \<le> t" for b
    using bound [OF that(1)] that(2-4) by (simp add: end_val_def)
  moreover have "\<not> uint (w x) - uint (w y) \<le> t"
    if "b \<in> set (dbr_bounds br)" "db_left b = Some y" "db_right b = Some x" "db_bound b < - t" for b
    using bound [OF that(1)] that(2-4) by (simp add: end_val_def)
  ultimately show ?thesis by (auto simp: branch_order_def verdict_right_def list_ex_iff)
qed

lemma ordered_roots_right:
  assumes "sound st c" and "be_status out = Unknown" and "ae_single_root a = Some x" and "ae_single_root b = Some y"
  shows "verdict_right (be_status (ordered_roots st a b x y limits out)) (ae_den (mc_env c) a \<le> ae_den (mc_env c) b)"
proof (cases "ae_scale a = 0 \<or> ae_scale a \<noteq> ae_scale b")
  case True
  then show ?thesis using assms(2) by (auto simp: ordered_roots_def)
next
  case False
  let ?t = "(uint (ae_addend b) - uint (ae_addend a)) div uint (ae_scale a)"
  let ?goal = "\<lparr>dg_comparison = LessOrEqual, dg_left = relation_word x, dg_right = relation_word y\<rparr> :: vir_memory_access difference_goal"
  let ?truth = "uint (mc_word c x) - uint (mc_word c y) \<le> ?t"
  have pos: "0 < uint (ae_scale a)" using False by (auto simp: uint_u64_pos_iff)
  have truth: "ae_den (mc_env c) a \<le> ae_den (mc_env c) b \<longleftrightarrow> ?truth"
    unfolding div_threshold(1) [OF pos, symmetric]
    using single_root_den [OF assms(3)] single_root_den [OF assms(4)] False by (simp add: mc_env_def right_diff_distrib) linarith
  show ?thesis
  proof (cases "query_premises st ?goal limits")
    case (Inl stop)
    then show ?thesis using False assms(2) by (simp add: ordered_roots_def Let_def)
  next
    case (Inr ps)
    let ?ev = "solve_difference ps ?goal limits"
    let ?open = "filter (\<lambda>br. dbr_contradiction br = None) (de_branches ?ev)"
    have "verdict_right (agreed_order (map (branch_order x y ?t) ?open)) ?truth" if "de_stop ?ev = Complete"
    proof -
      have "\<exists>br \<in> set (de_branches ?ev). branch_sound (mc_word c) ?goal br"
        using solve_difference_model [OF query_premises_true [OF assms(1) Inr], of ?goal limits] that by blast
      then obtain br where br: "br \<in> set ?open" "branch_sound (mc_word c) ?goal br" by (auto simp: branch_sound_def)
      have "branch_order x y ?t br = agreed_order (map (branch_order x y ?t) ?open) \<or>
          agreed_order (map (branch_order x y ?t) ?open) = Unknown"
        using br(1) by (auto simp: agreed_order_def list_all_iff)
      then show ?thesis using branch_order_right [OF br(2), of x y ?t] by auto
    qed
    then show ?thesis using False assms(2) Inr by (auto simp: ordered_roots_def Let_def truth)
  qed
qed

lemma ordered_terms_right:
  assumes "sound st c" and "be_status out = Unknown" and "ae_wf a" and "ae_wf b"
  shows "verdict_right (be_status (ordered_terms st a b limits out)) (ae_den (mc_env c) a \<le> ae_den (mc_env c) b)"
proof -
  note observed = compare_observed_right [OF assms(1)]
  have trivial: "verdict_right (be_status (out\<lparr>be_stop := s\<rparr>)) t" "verdict_right (be_status out) t" for s t
    using assms(2) by simp_all
  show ?thesis
  proof (cases "several_roots a \<or> several_roots b")
    case True
    then show ?thesis using trivial by (simp add: ordered_terms_def)
  next
    case single: False
    show ?thesis
    proof (cases "ae_single_root a")
      case None
      then have a: "ae_is_constant a" using single by (simp add: several_roots_def)
      note den = constant_expression_den [OF assms(3) a]
      show ?thesis
      proof (cases "ae_single_root b")
        case None
        then have b: "ae_is_constant b" using single by (simp add: several_roots_def)
        show ?thesis
          using single a b den constant_expression_den [OF assms(4) b] by (auto simp: ordered_terms_def verdict_right_def word_le_def)
      next
        case (Some y)
        then have b: "\<not> ae_is_constant b" by (auto simp: ae_single_root_def ae_is_constant_def split: if_splits)
        let ?t = "- ((- (uint (ae_addend a) - uint (ae_addend b))) div uint (ae_scale b))"
        have "verdict_right s (ae_den (mc_env c) a \<le> ae_den (mc_env c) b)"
          if h: "ae_scale b \<noteq> 0" "u64_try_from ?t = Some k"
            "compare_observed st LessOrEqual (RConstant k) (relation_word y) limits = (s, d, e)" for k s d e
        proof -
          have pos: "0 < uint (ae_scale b)" using h(1) by (simp add: uint_u64_pos_iff)
          have "uint k = ?t" by (rule u64_try_from_Some [OF h(2)])
          then have "uint k \<le> uint (mc_word c y) \<longleftrightarrow> uint (ae_addend a) - uint (ae_addend b) \<le> uint (ae_scale b) * uint (mc_word c y)"
            using div_threshold(2) [OF pos, of "uint (ae_addend a) - uint (ae_addend b)" "uint (mc_word c y)"] by simp
          also have "\<dots> \<longleftrightarrow> ae_den (mc_env c) a \<le> ae_den (mc_env c) b"
            using den single_root_den [OF Some] by (auto simp: mc_env_def)
          finally show ?thesis using observed [OF h(3)] by (simp add: relation_word_def)
        qed
        then show ?thesis
          using single None Some a b trivial by (auto simp: ordered_terms_def intro!: observe_threshold_right)
      qed
    next
      case (Some x)
      then have a: "\<not> ae_is_constant a" by (auto simp: ae_single_root_def ae_is_constant_def split: if_splits)
      show ?thesis
      proof (cases "ae_single_root b")
        case None
        then have b: "ae_is_constant b" using single by (simp add: several_roots_def)
        let ?t = "(uint (ae_addend b) - uint (ae_addend a)) div uint (ae_scale a)"
        have "verdict_right s (ae_den (mc_env c) a \<le> ae_den (mc_env c) b)"
          if h: "ae_scale a \<noteq> 0" "u64_try_from ?t = Some k"
            "compare_observed st LessOrEqual (relation_word x) (RConstant k) limits = (s, d, e)" for k s d e
        proof -
          have pos: "0 < uint (ae_scale a)" using h(1) by (simp add: uint_u64_pos_iff)
          have "uint k = ?t" by (rule u64_try_from_Some [OF h(2)])
          then have "uint (mc_word c x) \<le> uint k \<longleftrightarrow> uint (ae_scale a) * uint (mc_word c x) \<le> uint (ae_addend b) - uint (ae_addend a)"
            using div_threshold(1) [OF pos, of "uint (mc_word c x)" "uint (ae_addend b) - uint (ae_addend a)"] by simp
          also have "\<dots> \<longleftrightarrow> ae_den (mc_env c) a \<le> ae_den (mc_env c) b"
            using constant_expression_den [OF assms(4) b] single_root_den [OF Some] by (auto simp: mc_env_def)
          finally show ?thesis using observed [OF h(3)] by (simp add: relation_word_def)
        qed
        then show ?thesis
          using single None Some a b trivial by (auto simp: ordered_terms_def intro!: observe_threshold_right)
      next
        case (Some y)
        then show ?thesis
          using single \<open>ae_single_root a = Some x\<close> a ordered_roots_right [OF assms(1,2) \<open>ae_single_root a = Some x\<close> Some]
          by (simp add: ordered_terms_def)
      qed
    qed
  qed
qed

lemma ordered_cancelled_right:
  assumes "sound st c" and "be_status out = Unknown" and "ae_wf l" and "ae_wf r"
  shows "\<exists>e. ordered_cancelled st l r limits out = Some e \<and>
    verdict_right (be_status e) (ae_den (mc_env c) l \<le> ae_den (mc_env c) r)"
proof -
  obtain a b where cancel: "cancel_common l r = Some (a, b)" and wf: "ae_wf a" "ae_wf b"
    and den: "ae_den (mc_env c) l - ae_den (mc_env c) r = ae_den (mc_env c) a - ae_den (mc_env c) b"
    using cancel_common_total [OF assms(3,4)] by blast
  have "ae_den (mc_env c) l \<le> ae_den (mc_env c) r \<longleftrightarrow> ae_den (mc_env c) a \<le> ae_den (mc_env c) b" using den by linarith
  then show ?thesis
    using ordered_terms_right [OF assms(1) _ wf] assms(2) by (simp add: ordered_cancelled_def cancel)
qed

lemma bound_verdict_right:
  assumes "bound_holds \<rho> l x" and "bound_holds \<rho> r y"
  shows "verdict_right (bound_le_status l r) (x \<le> y)"
  using bound_le_sound [OF assms] by (simp add: verdict_right_def)

lemma ordered_bounds_right:
  assumes "sound st c" and "bound_wf l" and "bound_wf r"
    and "bound_holds (mc_env c) l x" and "bound_holds (mc_env c) r y"
  shows "\<exists>e. ordered_bounds st l r limits = Some e \<and> verdict_right (be_status e) (x \<le> y)"
proof -
  note direct = bound_verdict_right [OF assms(4,5)]
  have wf: "ae_wf (sb_expression l)" "ae_wf (sb_expression r)" using assms(2,3) by (simp_all add: bound_wf_def)
  have truth: "ae_den (mc_env c) (sb_expression l) \<le> ae_den (mc_env c) (sb_expression r) \<longleftrightarrow> x \<le> y"
    using assms(4,5) by (simp add: bound_holds_def word_le_def)
  have cancelled: "\<exists>e. ordered_cancelled st (sb_expression l) (sb_expression r) limits out = Some e \<and> verdict_right (be_status e) (x \<le> y)"
    if "be_status out = Unknown" for out
    using ordered_cancelled_right [OF assms(1) that wf] truth by simp
  show ?thesis
  proof (cases "bound_le_status l r = Unknown")
    case True
    show ?thesis
    proof (cases "refine_pair st l r limits")
      case (Inr pair)
      show ?thesis
      proof (cases pair)
        case (Some ab)
        obtain a b where ab: "ab = (a, b)" by force
        note refined = refine_pair_holds [OF assms(1,4,5) Inr [unfolded Some ab]]
        show ?thesis
          using True Inr Some ab bound_verdict_right [OF refined] cancelled by (auto simp: ordered_bounds_def Let_def)
      qed (use True Inr cancelled in \<open>auto simp: ordered_bounds_def Let_def\<close>)
    qed (use True in \<open>auto simp: ordered_bounds_def Let_def\<close>)
  qed (use direct in \<open>auto simp: ordered_bounds_def Let_def\<close>)
qed

section \<open>Containment\<close>

lemma constant_bound_wf [simp]: "bound_wf (sb_constant v)"
  by (simp add: bound_wf_def sb_constant_def ae_wf_def) (simp add: ae_constant_def)

lemma range_bounds_hold:
  assumes "abr_bounds r = Some (a, b)" and "range_exprs_wf r" and "abr_holds r (\<rho>, s, e)"
  shows "bound_holds \<rho> a s" and "bound_holds \<rho> b e" and "bound_wf a" and "bound_wf b"
proof -
  have "bound_holds \<rho> a s \<and> bound_holds \<rho> b e \<and> bound_wf a \<and> bound_wf b"
    using assms by (cases r) auto
  then show "bound_holds \<rho> a s" "bound_holds \<rho> b e" "bound_wf a" "bound_wf b" by simp_all
qed

lemma all_status_right:
  "verdict_right s t \<Longrightarrow> verdict_right s' t' \<Longrightarrow> verdict_right (all_status [s, s']) (t \<and> t')"
  by (auto simp: all_status_def verdict_right_def)

lemma contained_in_right:
  assumes "sound st c" and "range_exprs_wf outer" and "range_exprs_wf inner"
    and "abr_holds outer (mc_env c, s, e)" and "abr_holds inner (mc_env c, s', e')"
  shows "\<exists>status evidence. contained_in st outer inner limits = Some (status, evidence) \<and> verdict_right status (s \<le> s' \<and> e' \<le> e)"
proof (cases "abr_bounds outer = None \<or> abr_bounds inner = None")
  case False
  then obtain a b x y where ab: "abr_bounds outer = Some (a, b)" and xy: "abr_bounds inner = Some (x, y)" by auto
  note o = range_bounds_hold [OF ab assms(2,4)] and i = range_bounds_hold [OF xy assms(3,5)]
  show ?thesis
    using ordered_bounds_right [OF assms(1) o(3) i(3) o(1) i(1), of limits]
      ordered_bounds_right [OF assms(1) i(4) o(4) i(2) o(2), of limits] all_status_right
    by (auto simp: contained_in_def ab xy)
qed (auto simp: contained_in_def split: option.splits)

lemma access_range_holds:
  assumes "ptr_holds p q" and "ptr_ok p" and "access_range p width \<noteq> RUnknown"
  shows "range_exprs_wf (access_range p width)" and "\<exists>y. u64_checked_add (cp_offset q) width = Some y \<and>
    abr_holds (access_range p width) (cp_env q, cp_offset q, y)"
proof -
  obtain start end' where s: "symbolic_bound (ap_offset_bytes p) (ap_offset_expression p) = Some start"
    and e: "sb_checked_add_constant start width = Some end'" and r: "access_range p width = from_bounds start end'"
    using assms(3) by (auto simp: access_range_def split: option.splits)
  have start: "bound_holds (cp_env q) start (cp_offset q)" by (rule symbolic_bound_holds [OF assms(1) s])
  obtain y where y: "u64_checked_add (cp_offset q) width = Some y" "bound_holds (cp_env q) end' y"
    using sb_add_holds [OF e start] .
  then show "\<exists>y. u64_checked_add (cp_offset q) width = Some y \<and> abr_holds (access_range p width) (cp_env q, cp_offset q, y)"
    using from_bounds_holds [OF start y(2)] r by auto
  have wf: "bound_wf start"
  proof (cases "ap_offset_expression p")
    case (Some ex)
    then show ?thesis using s assms(2) by (auto simp: symbolic_bound_def ptr_ok_def ptr_exprs_wf_def bound_wf_def)
  qed (use s in \<open>auto simp: symbolic_bound_def\<close>)
  then have "bound_wf end'"
    using e ae_add_constant_den [of "sb_expression start" width] by (auto simp: sb_checked_add_constant_def bound_wf_def Option.bind_eq_Some_conv)
  with wf show "range_exprs_wf (access_range p width)" unfolding r by (rule from_bounds_wf)
qed

lemma exact_coverage_right:
  assumes "iv_contains offset x" and "br_start r \<le> br_end r"
  shows "verdict_right (exact_coverage r offset width) (br_start r \<le> x \<and> uint x + uint width \<le> uint (br_end r))"
proof -
  have x: "uint (iv_lower offset) \<le> uint x" "uint x \<le> uint (iv_upper offset)" and r: "uint (br_start r) \<le> uint (br_end r)"
    using assms by (simp_all add: iv_contains_def word_le_def)
  have len: "uint (br_end r - br_start r) = uint (br_end r) - uint (br_start r)" by (rule uint_sub_u64) (use assms(2) in simp)
  show ?thesis
  proof (cases "br_end r - br_start r < width")
    case True
    then have "uint (br_end r) - uint (br_start r) < uint width" using len by (simp add: word_less_def)
    then show ?thesis using True x by (auto simp: exact_coverage_def verdict_right_def word_le_def)
  next
    case False
    then have fits: "uint width \<le> uint (br_end r) - uint (br_start r)" using len by (simp add: word_less_def)
    then have "width \<le> br_end r" using uint_ge_0 [of "br_start r"] unfolding word_le_def by linarith
    then have safe: "uint (br_end r - width) = uint (br_end r) - uint width" by (rule uint_sub_u64)
    show ?thesis
      using False x safe by (auto simp: exact_coverage_def Let_def verdict_right_def word_le_def word_less_def)
  qed
qed

lemma bindE: "Option.bind x f = Some y \<Longrightarrow> (\<And>z. x = Some z \<Longrightarrow> f z = Some y \<Longrightarrow> thesis) \<Longrightarrow> thesis"
  by (cases x) simp_all

lemma bounds_coverage_right:
  assumes "ptr_holds p q" and "bound_holds (cp_env q) a s" and "bound_holds (cp_env q) b e"
  shows "verdict_right (bounds_coverage a b p width) (s \<le> cp_offset q \<and> uint (cp_offset q) + uint width \<le> uint e)"
proof -
  let ?x = "cp_offset q" and ?i = "ap_offset_bytes p"
  have x: "iv_contains ?i ?x" "uint (iv_lower ?i) \<le> uint ?x" "uint ?x \<le> uint (iv_upper ?i)"
    using assms(1) by (auto simp: ptr_holds_def iv_contains_def word_le_def)
  show ?thesis
  proof (cases "u64_checked_add (iv_lower ?i) width")
    case None
    then have "2 ^ 64 \<le> uint (iv_lower ?i) + uint width" by (simp add: u64_checked_add_def split: if_splits)
    then have "uint e < uint ?x + uint width" using x(2) uint_u64_bound [of e] by linarith
    then show ?thesis by (simp add: bounds_coverage_def Let_def None verdict_right_def)
  next
    case (Some l)
    show ?thesis
    proof (cases "u64_checked_add (iv_upper ?i) width")
      case None
      then show ?thesis by (simp add: bounds_coverage_def Let_def Some)
    next
      case upper: (Some u)
      have lu: "uint l = uint (iv_lower ?i) + uint width" "uint u = uint (iv_upper ?i) + uint width"
        using Some upper by (auto dest!: checked_arith)
      have sum: "u64_checked_add ?x width = Some (?x + width)" "uint (?x + width) = uint ?x + uint width"
        using x(3) lu(2) uint_u64_bound [of u] by (simp_all add: u64_checked_add_def uint_add_u64)
      let ?start = "map_option (\<lambda>e. \<lparr>sb_expression = e, sb_interval = ?i\<rparr>) (ap_offset_expression p)"
      have start: "bound_holds (cp_env q) st ?x" if "?start = Some st" for st
        using that assms(1) x(1) by (auto simp: ptr_holds_def bound_holds_def)
      have new: "iv_new l u = Inr \<lparr>iv_lower = l, iv_upper = u\<rparr>"
        using x lu by (simp add: iv_new_def word_less_def)
      have last: "iv_contains \<lparr>iv_lower = l, iv_upper = u\<rparr> (?x + width)"
        using x lu sum(2) by (simp add: iv_contains_def word_le_def)
      have first: "verdict_right (case ?start of None \<Rightarrow> interval_le_status (sb_interval a) ?i | Some st \<Rightarrow> bound_le_status a st) (s \<le> ?x)"
        using start bound_verdict_right [OF assms(2)] interval_le_sound [of "sb_interval a" s ?i ?x] x(1) assms(2)
        by (auto simp: verdict_right_def bound_holds_def [of _ a] split: option.split)
      have "bound_holds (cp_env q) en (?x + width)" if end': "Option.bind ?start (\<lambda>st. sb_checked_add_constant st width) = Some en" for en
      proof -
        obtain st where st: "?start = Some st" "sb_checked_add_constant st width = Some en"
          by (rule bindE [OF end'])
        show ?thesis using sb_add_holds [OF st(2) start [OF st(1)]] sum(1) by auto
      qed
      then have second: "verdict_right (case Option.bind ?start (\<lambda>st. sb_checked_add_constant st width) of
            None \<Rightarrow> interval_le_status \<lparr>iv_lower = l, iv_upper = u\<rparr> (sb_interval b) | Some en \<Rightarrow> bound_le_status en b) (?x + width \<le> e)"
        using bound_verdict_right [OF _ assms(3)] interval_le_sound [OF last, of "sb_interval b" e] assms(3)
        by (auto simp: verdict_right_def bound_holds_def [of _ b] split: option.split)
      have "?x + width \<le> e \<longleftrightarrow> uint ?x + uint width \<le> uint e" by (simp add: word_le_def sum(2))
      then show ?thesis
        using all_status_right [OF first second] by (simp add: bounds_coverage_def Let_def Some upper new)
    qed
  qed
qed

lemma interval_coverage_right:
  assumes "ptr_holds p q" and "abr_holds r (cp_env q, s, e)" and "s \<le> e"
  shows "verdict_right (interval_coverage r p width) (s \<le> cp_offset q \<and> uint (cp_offset q) + uint width \<le> uint e)"
proof -
  have offset: "iv_contains (ap_offset_bytes p) (cp_offset q)" using assms(1) by (simp add: ptr_holds_def)
  show ?thesis
    using assms exact_coverage_right [OF offset] bounds_coverage_right [OF assms(1)]
    by (cases r) (auto simp: interval_coverage_def)
qed

lemma covers_access_right:
  assumes "sound st c" and "ptr_holds p q" and "ptr_ok p" and "cp_env q = mc_env c"
    and "range_exprs_wf outer" and "abr_holds outer (mc_env c, s, e)" and "s \<le> e"
  shows "\<exists>status evidence. covers_access st outer p width limits = Some (status, evidence) \<and>
    verdict_right status (s \<le> cp_offset q \<and> uint (cp_offset q) + uint width \<le> uint e)"
proof (cases "interval_coverage outer p width = Unknown")
  case False
  then show ?thesis using interval_coverage_right [OF assms(2)] assms(4,6,7) by (simp add: covers_access_def)
next
  case True
  show ?thesis
  proof (cases "access_range p width = RUnknown")
    case unknown: True
    then show ?thesis using True by (simp add: covers_access_def contained_in_def split: option.split)
  next
    case False
    note range = access_range_holds [OF assms(2,3) False]
    then obtain y where y: "u64_checked_add (cp_offset q) width = Some y"
      "abr_holds (access_range p width) (mc_env c, cp_offset q, y)" using assms(4) by auto
    have "uint y = uint (cp_offset q) + uint width" using y(1) by (auto dest!: checked_arith)
    then show ?thesis
      using contained_in_right [OF assms(1,5) range(1) assms(6) y(2), of limits] True
      by (auto simp: covers_access_def word_le_def)
  qed
qed

end
