(* ===== verification/Resource_Instance.thy ===== *)
theory Resource_Instance
  imports Resource_Update
begin

text \<open>
  Reuse of an allocation identity: \<open>introduce_allocation_instance\<close> of \<open>instance.rs\<close>. The machine keeps the old
  allocation under a ghost identity the state does not name; the facts of the state that named it are forgotten, and
  the guard makes sure that no responsibility for it is lost.
\<close>

section \<open>Retiring an identity\<close>

definition retire_id :: "abstract_allocation_id \<Rightarrow> abstract_allocation_id \<Rightarrow> abstract_allocation_id \<Rightarrow> abstract_allocation_id" where
  "retire_id aid ghost a = (if a = aid then ghost else a)"

definition retire_slice :: "abstract_allocation_id \<Rightarrow> abstract_allocation_id \<Rightarrow> slice_state \<Rightarrow> slice_state" where
  "retire_slice aid ghost s = s\<lparr>ss_allocation := retire_id aid ghost (ss_allocation s)\<rparr>"

definition retire_pointer :: "abstract_allocation_id \<Rightarrow> abstract_allocation_id \<Rightarrow> pointer_state \<Rightarrow> pointer_state" where
  "retire_pointer aid ghost c =
     c\<lparr>cp_allocation := retire_id aid ghost (cp_allocation c), cp_slice := map_option (retire_slice aid ghost) (cp_slice c)\<rparr>"

definition retire_permission :: "abstract_allocation_id \<Rightarrow> abstract_allocation_id \<Rightarrow> permission_state \<Rightarrow> permission_state" where
  "retire_permission aid ghost c = c\<lparr>cm_allocation := retire_id aid ghost (cm_allocation c)\<rparr>"

fun retire_value :: "abstract_allocation_id \<Rightarrow> abstract_allocation_id \<Rightarrow> runtime_value \<Rightarrow> runtime_value" where
  "retire_value aid ghost (RVWord v tag) = RVWord v (map_option (\<lambda>(p, access). (retire_pointer aid ghost p, access)) tag)"
| "retire_value aid ghost (RVBool b) = RVBool b"
| "retire_value aid ghost (RVPointer c) = RVPointer (retire_pointer aid ghost c)"
| "retire_value aid ghost (RVPermission c) = RVPermission (retire_permission aid ghost c)"

definition retire_run :: "abstract_allocation_id \<Rightarrow> abstract_allocation_id \<Rightarrow> allocation_run \<Rightarrow> allocation_run" where
  "retire_run aid ghost r =
     r\<lparr>ar_objects := (ar_objects r)\<lparr>oc_payload := \<lambda>key. map_option
         (\<lambda>(ptr, perm). (retire_pointer aid ghost ptr, retire_permission aid ghost perm)) (oc_payload (ar_objects r) key)\<rparr>\<rparr>"

definition retire_loan :: "abstract_allocation_id \<Rightarrow> abstract_allocation_id \<Rightarrow> loan_state \<Rightarrow> loan_state" where
  "retire_loan aid ghost s =
     s\<lparr>cl_allocation := retire_id aid ghost (cl_allocation s), cl_slice := map_option (retire_slice aid ghost) (cl_slice s)\<rparr>"

definition retire_machine :: "abstract_allocation_id \<Rightarrow> abstract_allocation_id \<Rightarrow> allocation_run \<Rightarrow> machine \<Rightarrow> machine" where
  "retire_machine aid ghost r c =
     c\<lparr>mc_values := \<lambda>v. retire_value aid ghost (mc_values c v),
       mc_allocations := \<lambda>k. if k = aid then r else retire_run aid ghost (mc_allocations c (if k = ghost then aid else k)),
       mc_loans := \<lambda>l. retire_loan aid ghost (mc_loans c l)\<rparr>"

text \<open>No permission for the retired allocation can still free it.\<close>

definition revoked :: "abstract_allocation_id \<Rightarrow> machine \<Rightarrow> bool" where
  "revoked aid c =
     ((\<forall>v p. mc_values c v = RVPermission p \<longrightarrow> cm_allocation p = aid \<longrightarrow> \<not> cm_can_free p) \<and>
      (\<forall>k key ptr p. oc_payload (ar_objects (mc_allocations c k)) key = Some (ptr, p) \<longrightarrow> cm_allocation p = aid \<longrightarrow> \<not> cm_can_free p))"

lemma retire_scalars [simp]:
  "word_of (retire_value aid ghost rv) = word_of rv" "bool_of (retire_value aid ghost rv) = bool_of rv"
  by (cases rv; simp add: retire_pointer_def)+

lemma retire_machine_scalars [simp]:
  "mc_word (retire_machine aid ghost r c) = mc_word c" "mc_bool (retire_machine aid ghost r c) = mc_bool c"
  "mc_env (retire_machine aid ghost r c) = mc_env c" "mc_path (retire_machine aid ghost r c) = mc_path c"
  "mc_history (retire_machine aid ghost r c) = mc_history c" "mc_bool_history (retire_machine aid ghost r c) = mc_bool_history c"
  by (simp_all add: retire_machine_def mc_word_def mc_bool_def mc_env_def mc_path_def fun_eq_iff)

lemma retire_prov: "prov_holds p a \<Longrightarrow> p \<noteq> ProvKnown aid \<Longrightarrow> prov_holds p (retire_id aid ghost a)"
  by (cases p) (auto simp: retire_id_def)

lemma retire_slice_holds:
  assumes "slice_holds f (\<rho>, s)" and "\<And>x. f = Some x \<Longrightarrow> fp_provenance x \<noteq> ProvKnown aid"
  shows "slice_holds f (\<rho>, map_option (retire_slice aid ghost) s)"
  using assms retire_prov by (auto simp: slice_holds_def fp_holds_def retire_slice_def split: option.splits)

lemma forget_pointer_ok: "ptr_ok p \<Longrightarrow> ptr_ok (snd (forget_pointer prov p))"
  by (auto simp: forget_pointer_def ptr_ok_def ptr_wf_def ptr_exprs_wf_def ptr_linked_def split: option.splits)

lemma forget_pointer_holds:
  assumes "ptr_ok p" and "ptr_holds p c"
  shows "ptr_holds (snd (forget_pointer (ProvKnown aid) p)) (retire_pointer aid ghost c)"
proof (cases "ap_provenance p = ProvKnown aid")
  case True
  then show ?thesis
    using assms(2) by (simp add: forget_pointer_def ptr_holds_def retire_pointer_def slice_holds_def pp_holds_def)
next
  case False
  have "slice_holds (ap_slice_footprint p) (cp_env c, map_option (retire_slice aid ghost) (cp_slice c))"
    by (rule retire_slice_holds) (use assms False in \<open>auto simp: ptr_holds_def ptr_ok_def ptr_linked_def\<close>)
  then show ?thesis
    using False assms(2) retire_prov [OF _ False] by (simp add: forget_pointer_def ptr_holds_def retire_pointer_def)
qed

lemma forget_permission_range [simp]: "perm_range (snd (forget_permission prov p)) = perm_range p"
  by (simp add: forget_permission_def)

lemma forget_permission_holds:
  assumes "perm_holds p c" and "cm_allocation c = aid \<Longrightarrow> \<not> cm_can_free c"
  shows "perm_holds (snd (forget_permission (ProvKnown aid) p)) (retire_permission aid ghost c)"
  using assms retire_prov [of "perm_provenance p" "cm_allocation c" aid ghost]
  by (auto simp: forget_permission_def perm_holds_def retire_permission_def)

lemma forget_alias_ok: "aval_ok x \<Longrightarrow> aval_ok (snd (forget_alias prov x))"
  using forget_pointer_ok by (cases x) auto

lemma forget_alias_holds:
  assumes "aval_ok x" and "aval_holds x rv" and "\<And>p. rv = RVPermission p \<Longrightarrow> cm_allocation p = aid \<Longrightarrow> \<not> cm_can_free p"
  shows "aval_holds (snd (forget_alias (ProvKnown aid) x)) (retire_value aid ghost rv)"
proof (cases x)
  case (AVEnumDiscriminant f)
  then obtain v p access where rv: "rv = RVWord v (Some (p, access))" "iv_contains (ed_interval f) v" "ptr_holds (ed_pointer f) p" "access = ed_access f"
    using assms(2) by (cases rv) (auto split: option.splits)
  have "ptr_holds (ed_pointer f) (retire_pointer aid ghost p)" if "ap_provenance (ed_pointer f) \<noteq> ProvKnown aid"
    using forget_pointer_holds [of "ed_pointer f" p aid ghost] that assms(1) rv(3) by (simp add: AVEnumDiscriminant forget_pointer_def)
  then show ?thesis using rv by (simp add: AVEnumDiscriminant)
qed (use assms forget_pointer_holds forget_permission_holds in \<open>cases rv; auto\<close>)+

lemma forget_payload_ok: "payload_ok s \<Longrightarrow> payload_ok (forget_payload prov s)"
  using forget_pointer_ok by (cases s) auto

lemma forget_payload_holds:
  assumes "payload_ok s" and "mp_holds s v" and "\<And>ptr p. v = Some (ptr, p) \<Longrightarrow> cm_allocation p = aid \<Longrightarrow> \<not> cm_can_free p"
  shows "mp_holds (forget_payload (ProvKnown aid) s)
    (map_option (\<lambda>(ptr, perm). (retire_pointer aid ghost ptr, retire_permission aid ghost perm)) v)"
  using assms forget_pointer_holds forget_permission_holds by (cases s) (auto split: option.splits)

lemma forget_stored_ok:
  assumes "alloc_ok a"
  shows "alloc_ok (forget_stored_aliases prov a)"
proof -
  have "os_wf (aa_object_state a)" using assms by (simp add: alloc_ok_def aa_wf_def)
  then have "os_wf ((aa_object_state a)\<lparr>os_resource_payloads := map_entries (forget_payload prov) (os_resource_payloads (aa_object_state a))\<rparr>)"
    by (simp add: os_wf_def)
  moreover have "payload_ok s" if "(k, s) \<in> set (map_entries (forget_payload prov) (os_resource_payloads (aa_object_state a)))" for k s
    using that assms forget_payload_ok by (auto simp: alloc_ok_def map_entries_def)
  ultimately show ?thesis using assms by (auto simp: alloc_ok_def aa_wf_def forget_stored_aliases_def)
qed

lemma forget_stored_means:
  assumes "alloc_ok a" and "alloc_means (Some a) r c"
    and "\<And>key ptr p. oc_payload (ar_objects r) key = Some (ptr, p) \<Longrightarrow> cm_allocation p = aid \<Longrightarrow> \<not> cm_can_free p"
  shows "alloc_means (Some (forget_stored_aliases (ProvKnown aid) a)) (retire_run aid ghost r) c"
proof -
  let ?b = "forget_stored_aliases (ProvKnown aid) a"
  let ?m = "os_resource_payloads (aa_object_state a)"
  have "aa_holds ?b (retire_run aid ghost r)" if h: "aa_holds a r"
  proof -
    have "mp_holds (os_resource_payload (aa_object_state ?b) key) (oc_payload (ar_objects (retire_run aid ghost r)) key)" for key
    proof (cases "bt_get ?m key")
      case (Some s)
      have s: "payload_ok s" "mp_holds s (oc_payload (ar_objects r) key)"
        using assms(1) h bt_get_in_set [OF Some] Some
        by (auto simp: alloc_ok_def aa_holds_def os_holds_def os_resource_payload_def split: option.splits)
      show ?thesis
        using forget_payload_holds [OF s, of aid ghost] assms(3) Some
        by (simp add: forget_stored_aliases_def os_resource_payload_def map_entries_get retire_run_def)
    qed (simp add: forget_stored_aliases_def os_resource_payload_def map_entries_get)
    then have "os_holds (aa_object_state ?b) (ar_objects (retire_run aid ghost r))"
      using h by (auto simp: os_holds_def aa_holds_def forget_stored_aliases_def os_active_variant_def retire_run_def)
    then show ?thesis using h by (simp add: aa_holds_def forget_stored_aliases_def retire_run_def)
  qed
  moreover have "cell_histories ?b (retire_run aid ghost r) c" if "cell_histories a r c"
    using that by (simp add: cell_histories_def forget_stored_aliases_def retire_run_def)
  ultimately show ?thesis using assms(2) by (simp add: alloc_means_def forget_stored_aliases_def retire_run_def)
qed

lemma retire_loan_means:
  assumes "loan_ok l" and "loan_means (Some l) s" and "al_provenance l \<noteq> ProvKnown aid"
  shows "loan_means (Some l) (retire_loan aid ghost s)"
proof -
  have "loan_holds l (retire_loan aid ghost s)" if h: "loan_holds l s"
  proof -
    have "slice_holds (al_footprint l) (cl_env s, map_option (retire_slice aid ghost) (cl_slice s))"
      by (rule retire_slice_holds) (use h assms(1,3) in \<open>auto simp: loan_holds_def loan_ok_def\<close>)
    then show ?thesis using h retire_prov [OF _ assms(3)] by (simp add: loan_holds_def retire_loan_def)
  qed
  then show ?thesis using assms(2) by (simp add: loan_means_def) (simp add: retire_loan_def)
qed

section \<open>Introducing an instance\<close>

lemma introduce_Inr:
  assumes "introduce_allocation_instance aid a st = (Inr u, st')"
  shows "\<not> still_referenced aid st" and "st' = st
          \<lparr>st_values := map_entries (\<lambda>v. snd (forget_alias (ProvKnown aid) v)) (st_values st),
           st_relations :=
             fold (\<lambda>(v, x) rs. if fst (forget_alias (ProvKnown aid) x) then rs_forget_value v rs else rs) (st_values st) (st_relations st),
           st_loans := filter (\<lambda>(_, l). al_provenance l \<noteq> ProvKnown aid) (st_loans st),
           st_allocations := bt_insert aid a (map_entries (forget_stored_aliases (ProvKnown aid)) (st_allocations st))\<rparr>"
  using assms by (auto simp: introduce_allocation_instance_def Let_def split: if_splits)

text \<open>What makes an identity unavailable, said without the code: a predicate instance that owns a resource of the
  allocation or keeps one stored in it, an allocation that may be alive and is owned or still holds a resource, and a
  loan of it, of an unknown allocation or with a carrier stored in it that has not ended or still has carriers.\<close>

definition outstanding :: "abstract_allocation_id \<Rightarrow> ('d, 'l, 's) resource_state \<Rightarrow> bool" where
  "outstanding aid st \<longleftrightarrow>
     (\<exists>(holder, p) \<in> set (st_predicates st). \<exists>r \<in> set (pi_resources p).
        sr_allocation r = aid \<or> (\<exists>key. sr_storage r = Some (aid, key))) \<or>
     (\<exists>old. bt_get (st_allocations st) aid = Some old \<and> aa_liveness old \<noteq> Dead \<and>
        (aa_ownership old \<noteq> Unowned \<or> (\<exists>(key, p) \<in> set (os_resource_payloads (aa_object_state old)). p \<noteq> PathMoved))) \<or>
     (\<exists>(loan, l) \<in> set (st_loans st).
        (al_provenance l = ProvKnown aid \<or> al_provenance l = ProvUnknown \<or> (\<exists>key. AuthorityStored aid key \<in> al_authorities l)) \<and>
        (al_activity l \<noteq> LoanEnded \<or> al_authorities l \<noteq> {}))"

lemma stored_in_iff: "(\<exists>a \<in> authorities. stored_in aid a) \<longleftrightarrow> (\<exists>key. AuthorityStored aid key \<in> authorities)"
proof
  assume "\<exists>a \<in> authorities. stored_in aid a"
  then obtain a where "a \<in> authorities" "stored_in aid a" by blast
  then show "\<exists>key. AuthorityStored aid key \<in> authorities" by (cases a) auto
qed (metis stored_in.simps(1))

lemma storage_iff:
  "(case sr_storage r of None \<Rightarrow> False | Some (storage, _) \<Rightarrow> storage = aid) \<longleftrightarrow> (\<exists>key. sr_storage r = Some (aid, key))"
  by (auto split: option.split)

lemma still_referenced_iff: "still_referenced aid st \<longleftrightarrow> outstanding aid st"
proof -
  have "predicate_references_allocation aid st \<longleftrightarrow>
      (\<exists>(holder, p) \<in> set (st_predicates st). \<exists>r \<in> set (pi_resources p).
        sr_allocation r = aid \<or> (\<exists>key. sr_storage r = Some (aid, key)))"
    unfolding predicate_references_allocation_def list_ex_iff storage_iff ..
  moreover have "(case bt_get (st_allocations st) aid of None \<Rightarrow> False | Some old \<Rightarrow> still_responsible old) \<longleftrightarrow>
      (\<exists>old. bt_get (st_allocations st) aid = Some old \<and> aa_liveness old \<noteq> Dead \<and>
        (aa_ownership old \<noteq> Unowned \<or> (\<exists>(key, p) \<in> set (os_resource_payloads (aa_object_state old)). p \<noteq> PathMoved)))"
    by (simp add: still_responsible_def list_ex_iff split: option.split)
  moreover have "list_ex (\<lambda>(_, l). loan_blocks aid l) (st_loans st) \<longleftrightarrow>
      (\<exists>(loan, l) \<in> set (st_loans st).
        (al_provenance l = ProvKnown aid \<or> al_provenance l = ProvUnknown \<or> (\<exists>key. AuthorityStored aid key \<in> al_authorities l)) \<and>
        (al_activity l \<noteq> LoanEnded \<or> al_authorities l \<noteq> {}))"
    unfolding list_ex_iff loan_blocks_def stored_in_iff ..
  ultimately show ?thesis unfolding still_referenced_def outstanding_def by simp
qed

lemma introduce_decision:
  assumes "introduce_allocation_instance aid a st = (result, st')"
  shows "result = Inl (InstanceStillReferenced aid) \<longleftrightarrow> outstanding aid st"
    and "result = Inl InstanceBudget \<longleftrightarrow>
      \<not> outstanding aid st \<and> bt_get (st_allocations st) aid = None \<and> MAX_ALLOCATION_SLOTS \<le> length (st_allocations st)"
    and "result = Inr () \<longleftrightarrow>
      \<not> outstanding aid st \<and> (bt_get (st_allocations st) aid \<noteq> None \<or> length (st_allocations st) < MAX_ALLOCATION_SLOTS)"
  using assms unfolding introduce_allocation_instance_def still_referenced_iff by (auto simp: Let_def split: if_splits)

lemma introduce_Inl: "introduce_allocation_instance aid a st = (Inl e, st') \<Longrightarrow> st' = st"
  by (auto simp: introduce_allocation_instance_def Let_def split: if_splits)

lemma forget_relations_ok:
  assumes "rs_wf rs" and "rs_holds rs w"
  shows "rs_wf (fold (\<lambda>(v, x) rs. if fst (forget_alias prov x) then rs_forget_value v rs else rs) m rs) \<and>
    rs_holds (fold (\<lambda>(v, x) rs. if fst (forget_alias prov x) then rs_forget_value v rs else rs) m rs) w"
  using assms
proof (induction m arbitrary: rs)
  case (Cons e m)
  obtain v x where e: "e = (v, x)" by force
  have "rs_holds (rs_forget_value v rs) (w(v := w v))" by (rule rs_forget_value_ok(2) [OF Cons.prems])
  then show ?case using Cons.IH Cons.prems rs_forget_value_ok(1) [OF Cons.prems, of v] by (simp add: e)
qed simp

lemma not_owned:
  assumes "sound st c" and "\<not> still_referenced aid st"
  shows "\<not> (ar_live (mc_allocations c aid) \<and> ar_owned (mc_allocations c aid))"
proof (cases "bt_get (st_allocations st) aid")
  case None
  then have "alloc_means None (mc_allocations c aid) c" using assms(1) unfolding sound_def st_holds_def by metis
  then show ?thesis by (simp add: alloc_means_def)
next
  case (Some old)
  then have "alloc_means (Some old) (mc_allocations c aid) c" using assms(1) unfolding sound_def st_holds_def by metis
  moreover have "aa_liveness old = Dead \<or> aa_ownership old = Unowned"
    using assms(2) Some by (auto simp: still_referenced_def still_responsible_def)
  ultimately show ?thesis by (auto simp: alloc_means_def)
qed

lemma forgotten_loan_ended:
  assumes "sound st c" and "\<not> still_referenced aid st" and "bt_get (st_loans st) loan = Some l" and "al_provenance l = ProvKnown aid"
  shows "cl_activity (mc_loans c loan) = LoanEnded"
proof -
  have "\<not> loan_blocks aid l"
    using assms(2) bt_get_in_set [OF assms(3)] by (auto simp: still_referenced_def list_ex_iff)
  then have "al_activity l = LoanEnded" using assms(4) by (auto simp: loan_blocks_def)
  moreover have "loan_means (Some l) (mc_loans c loan)" using assms(1,3) unfolding sound_def st_holds_def by metis
  ultimately show ?thesis by (simp add: loan_means_def)
qed

lemma introduce_sound:
  assumes "introduce_allocation_instance aid a st = (Inr u, st')" and "sound st c" and "revoked aid c"
    and "bt_get (st_allocations st) ghost = None" and "ghost \<noteq> aid" and "alloc_ok a" and "alloc_means (Some a) r c"
  shows "sound st' (retire_machine aid ghost r c)"
proof -
  let ?c = "retire_machine aid ghost r c" and ?prov = "ProvKnown aid"
  note ok = soundD(1) [OF assms(2)] and holds = soundD(2) [OF assms(2)]
  note intro = introduce_Inr [OF assms(1)]
  note sorted = st_ok_sorted [OF ok]
  have wfs: "entries_wf aval_ok (st_values st)" "entries_wf alloc_ok (st_allocations st)" "entries_wf loan_ok (st_loans st)"
    using ok by (simp_all add: st_ok_def)
  have stored: "entries_wf alloc_ok (map_entries (forget_stored_aliases ?prov) (st_allocations st))"
    by (rule entries_wf_map [where P = alloc_ok and Q = alloc_ok, OF wfs(2)]) (rule forget_stored_ok)
  have values': "entries_wf aval_ok (map_entries (\<lambda>x. snd (forget_alias ?prov x)) (st_values st))"
    by (rule entries_wf_map [where P = aval_ok and Q = aval_ok, OF wfs(1)]) (rule forget_alias_ok)
  have wf: "entries_wf aval_ok (st_values st')" "entries_wf alloc_ok (st_allocations st')" "entries_wf loan_ok (st_loans st')"
    unfolding intro(2) using values' entries_wf_insert [where P = alloc_ok, OF stored assms(6)]
    by (simp_all add: entries_wf_filter wfs(3))
  have rel: "rs_wf (st_relations st') \<and> rs_holds (st_relations st') (mc_word c)"
    unfolding intro(2) using forget_relations_ok [of "st_relations st" "mc_word c"] ok holds by (simp add: st_ok_def st_holds_def)
  have same: "st_path st' = st_path st" "st_word_expressions st' = st_word_expressions st"
      "st_word_origins st' = st_word_origins st" "st_bool_origins st' = st_bool_origins st"
    by (simp_all add: intro(2))
  have values': "aval_holds x (mc_values ?c v)" if x: "bt_get (st_values st') v = Some x" for v x
  proof -
    obtain y where y: "bt_get (st_values st) v = Some y" "x = snd (forget_alias ?prov y)"
      using x by (auto simp: intro(2) map_entries_get)
    have "aval_holds y (mc_values c v)" using holds y(1) by (simp add: st_holds_def)
    then show ?thesis
      using forget_alias_holds [OF st_ok_entry(1) [OF ok y(1)], of "mc_values c v" aid ghost] assms(3)
      by (simp add: y(2) retire_machine_def revoked_def)
  qed
  have allocs: "alloc_means (bt_get (st_allocations st') k) (mc_allocations ?c k) ?c" for k
  proof (cases "k = aid")
    case True
    then show ?thesis using assms(7) alloc_means_cong [of ?c c] sorted(3) by (simp add: intro(2) insert_get retire_machine_def)
  next
    case False
    then have get: "bt_get (st_allocations st') k = map_option (forget_stored_aliases ?prov) (bt_get (st_allocations st) k)"
      using sorted(3) by (simp add: intro(2) insert_get map_entries_get)
    show ?thesis
    proof (cases "bt_get (st_allocations st) k")
      case None
      then have "alloc_means None (mc_allocations c k) c" using holds unfolding st_holds_def by metis
      then show ?thesis
        using False None not_owned [OF assms(2) intro(1)] get by (auto simp: alloc_means_def retire_machine_def retire_run_def)
    next
      case (Some b)
      then have b: "alloc_means (Some b) (mc_allocations c k) c" using holds unfolding st_holds_def by metis
      have "k \<noteq> ghost" using Some assms(4) by auto
      moreover have "alloc_means (Some (forget_stored_aliases ?prov b)) (retire_run aid ghost (mc_allocations c k)) c"
        by (rule forget_stored_means [OF st_ok_entry(3) [OF ok Some] b]) (use assms(3) in \<open>auto simp: revoked_def\<close>)
      ultimately show ?thesis using get Some False alloc_means_cong [of ?c c] by (simp add: retire_machine_def)
    qed
  qed
  have loans: "loan_means (bt_get (st_loans st') l) (mc_loans ?c l)" for l
  proof (cases "bt_get (st_loans st) l")
    case None
    then have "loan_means None (mc_loans c l)" using holds unfolding st_holds_def by metis
    then show ?thesis
      using None filter_get [OF sorted(4), of "\<lambda>_ l. al_provenance l \<noteq> ?prov" l]
      by (simp add: intro(2) loan_means_def retire_machine_def retire_loan_def)
  next
    case (Some x)
    then have x: "loan_means (Some x) (mc_loans c l)" using holds unfolding st_holds_def by metis
    have get: "bt_get (st_loans st') l = (if al_provenance x \<noteq> ?prov then Some x else None)"
      using Some filter_get [OF sorted(4), of "\<lambda>_ l. al_provenance l \<noteq> ?prov" l] by (simp add: intro(2))
    show ?thesis
    proof (cases "al_provenance x = ?prov")
      case True
      then show ?thesis
        using forgotten_loan_ended [OF assms(2) intro(1) Some] get by (simp add: loan_means_def retire_machine_def retire_loan_def)
    next
      case False
      then show ?thesis using retire_loan_means [OF st_ok_entry(4) [OF ok Some] x False] get by (simp add: retire_machine_def)
    qed
  qed
  show ?thesis
    using ok holds wf rel values' allocs loans by (simp add: sound_def st_ok_def st_holds_def same)
qed

text \<open>After the introduction nothing but the fresh entry names the identity.\<close>

fun names :: "abstract_provenance \<Rightarrow> abstract_value \<Rightarrow> bool" where
  "names prov (AVPointer p) = (ap_provenance p = prov)"
| "names prov (AVPermission p) = (perm_provenance p = prov)"
| "names prov (AVEnumDiscriminant f) = (ap_provenance (ed_pointer f) = prov)"
| "names prov _ = False"

fun payload_names :: "abstract_provenance \<Rightarrow> move_path_state \<Rightarrow> bool" where
  "payload_names prov (PathAvailable p) = (ap_provenance (tp_pointer p) = prov \<or> perm_provenance (tp_permission p) = prov)"
| "payload_names prov _ = False"

lemma forgotten_names: "\<not> names (ProvKnown aid) (snd (forget_alias (ProvKnown aid) x))"
  by (cases x) (simp_all add: forget_pointer_def forget_permission_def)

lemma forgotten_payload_names: "\<not> payload_names (ProvKnown aid) (forget_payload (ProvKnown aid) s)"
  by (cases s) (simp_all add: forget_pointer_def forget_permission_def)

end
