(* ===== verification/Resource_Loop.thy ===== *)
theory Resource_Loop
  imports Resource_Update
begin

text \<open>
  Loop heads: the fixpoint test of \<open>covers_cfg_case\<close>, the widening that clips words to a partition of their values
  (\<open>loop_partition.rs\<close>) and the scalar frame a loop inherits from its entry (\<open>loop_frame.rs\<close>).
\<close>

section \<open>The fixpoint test\<close>

lemma bound_list_inj: "rs_bound_list a = rs_bound_list b \<Longrightarrow> rs_bounds a = rs_bounds b"
proof -
  assume "rs_bound_list a = rs_bound_list b"
  then have "map (\<lambda>d. ((db_left d, db_right d), db_bound d)) (rs_bound_list a) =
      map (\<lambda>d. ((db_left d, db_right d), db_bound d)) (rs_bound_list b)" by simp
  moreover have "map (\<lambda>d. ((db_left d, db_right d), db_bound d)) (rs_bound_list r) = rs_bounds r" for r
    unfolding rs_bound_list_def map_map by (rule map_idI) auto
  ultimately show ?thesis by simp
qed

lemma covers_sound:
  assumes "covers_cfg_case predicates check st incoming" and "st_ok st" and "st_ok incoming" and "st_holds incoming c"
  shows "st_holds st c"
proof -
  obtain joined where joined: "st_join predicates check st incoming = Inr joined"
      "rs_bound_list (st_relations joined) = rs_bound_list (st_relations st)"
      "rs_disequalities (st_relations joined) = rs_disequalities (st_relations st)" "joined\<lparr>st_relations := st_relations st\<rparr> = st"
    using assms(1) by (auto simp: covers_cfg_case_def split: sum.splits if_splits)
  have "st_holds joined c" by (rule st_join_ok(2) [OF joined(1) assms(2,3)]) (simp add: assms(4))
  moreover from this have "rs_holds (st_relations st) (mc_word c)"
    using joined(3) bound_list_inj [OF joined(2)] by (simp add: st_holds_def rs_holds_def)
  ultimately have "st_holds (joined\<lparr>st_relations := st_relations st\<rparr>) c" by (simp add: st_holds_def)
  then show ?thesis using joined(4) by simp
qed

section \<open>Partitioned words\<close>

lemma partition_point_spec:
  assumes "index = partition_point cuts x"
  shows "k < index \<Longrightarrow> cuts ! k \<le> x" and "index < length cuts \<Longrightarrow> x < cuts ! index"
proof -
  let ?P = "\<lambda>cut. cut \<le> x"
  have "takeWhile ?P cuts ! k = cuts ! k" "takeWhile ?P cuts ! k \<in> set (takeWhile ?P cuts)" if "k < index"
    using that assms takeWhile_nth [of k ?P cuts] nth_mem [of k "takeWhile ?P cuts"] by (simp_all add: partition_point_def)
  then show "k < index \<Longrightarrow> cuts ! k \<le> x" by (metis set_takeWhileD)
  show "index < length cuts \<Longrightarrow> x < cuts ! index"
    using nth_length_takeWhile [of ?P cuts] assms by (simp add: partition_point_def not_le)
qed

definition cell_lower :: "u64 list \<Rightarrow> nat \<Rightarrow> u64" where
  "cell_lower cuts index = (if index = 0 then 0 else cuts ! (index - 1))"

definition cell_upper :: "u64 list \<Rightarrow> nat \<Rightarrow> u64" where
  "cell_upper cuts index = (if index < length cuts then cuts ! index - 1 else u64_MAX)"

lemma word_less_pred: "x < y \<Longrightarrow> x \<le> y - (1 :: u64)"
  by uint_arith

lemma loop_cell_bounds:
  assumes "loop_cell i cuts = Some index" and "iv_contains i x"
  shows "cell_lower cuts index \<le> x" and "x \<le> cell_upper cuts index"
proof -
  have index: "index = partition_point cuts (iv_lower i)" "index = partition_point cuts (iv_upper i)"
    using assms(1) by (auto simp: loop_cell_def Let_def split: if_splits)
  have x: "iv_lower i \<le> x" "x \<le> iv_upper i" using assms(2) by (simp_all add: iv_contains_def)
  show "cell_lower cuts index \<le> x"
    using partition_point_spec(1) [OF index(1), of "index - 1"] x(1) by (auto simp: cell_lower_def)
  show "x \<le> cell_upper cuts index"
  proof (cases "index < length cuts")
    case True
    then have "x < cuts ! index" using partition_point_spec(2) [OF index(2)] x(2) by simp
    then show ?thesis using True word_less_pred by (simp add: cell_upper_def)
  qed (simp add: cell_upper_def)
qed

lemma clip_cell_Some:
  assumes "iv_contains wide x" and "cell_lower cuts index \<le> x" and "x \<le> cell_upper cuts index"
  shows "\<exists>j. clip_cell cuts index wide = Some j \<and> iv_wf j \<and> iv_contains j x"
proof -
  have h: "max (iv_lower wide) (cell_lower cuts index) \<le> x" "x \<le> min (iv_upper wide) (cell_upper cuts index)"
    using assms by (simp_all add: iv_contains_def)
  then have le: "max (iv_lower wide) (cell_lower cuts index) \<le> min (iv_upper wide) (cell_upper cuts index)" by (rule order_trans)
  from le have "clip_cell cuts index wide = Some \<lparr>iv_lower = max (iv_lower wide) (cell_lower cuts index),
      iv_upper = min (iv_upper wide) (cell_upper cuts index)\<rparr>"
    by (simp only: clip_cell_def Let_def cell_lower_def [symmetric] cell_upper_def [symmetric] iv_new_def not_less [symmetric] if_False
        result_ok.simps)
  then show ?thesis using h le by (simp only: option.inject) (simp add: iv_contains_def iv_wf_def)
qed

lemma clip_cell_inside:
  "clip_cell cuts index wide = Some w \<Longrightarrow> cell_lower cuts index \<le> iv_lower w \<and> iv_upper w \<le> cell_upper cuts index"
  by (auto simp: clip_cell_def cell_lower_def cell_upper_def Let_def iv_new_def split: if_splits)

text \<open>A clipped value is still true when both operands of the widening lie in the cell.\<close>

lemma clip_value_ok:
  assumes "aval_ok x" and "s = old \<or> s = new"
    and "\<And>i. bt_get (st_values s) v = Some (AVU64 i) \<Longrightarrow> iv_wf i \<and> (\<forall>n. iv_contains i n \<longrightarrow> aval_holds x (RVWord n None))"
  shows "\<exists>y. clip_value cuts old new v x = Some y \<and> aval_ok y \<and>
    (\<forall>rv. aval_holds x rv \<longrightarrow>
      (\<forall>z. bt_get (st_values old) v = Some z \<longrightarrow> aval_holds z rv) \<or> (\<forall>z. bt_get (st_values new) v = Some z \<longrightarrow> aval_holds z rv) \<longrightarrow>
      aval_holds y rv)"
proof (cases "\<exists>wide i index j. x = AVU64 wide \<and> bt_get (st_values new) v = Some (AVU64 i) \<and> loop_cell i cuts = Some index \<and>
    bt_get (st_values old) v = Some (AVU64 j) \<and> loop_cell j cuts = Some index")
  case False
  then have "clip_value cuts old new v x = Some x"
    by (auto simp: clip_value_def word_reading_Some split: option.splits)
  then show ?thesis using assms(1) by blast
next
  case True
  then obtain wide i index j where h: "x = AVU64 wide" "bt_get (st_values new) v = Some (AVU64 i)" "loop_cell i cuts = Some index"
      "bt_get (st_values old) v = Some (AVU64 j)" "loop_cell j cuts = Some index" by blast
  have clip: "clip_value cuts old new v x = map_option AVU64 (clip_cell cuts index wide)"
    by (simp add: clip_value_def h)
  obtain l where l: "bt_get (st_values s) v = Some (AVU64 l)" "loop_cell l cuts = Some index" using assms(2) h by blast
  have low: "iv_contains l (iv_lower l)" using assms(3) [OF l(1)] by (simp add: iv_wf_def iv_contains_def)
  then have "iv_contains wide (iv_lower l)" using assms(3) [OF l(1)] by (simp add: h(1))
  then obtain k where k: "clip_cell cuts index wide = Some k" "iv_wf k"
    using clip_cell_Some loop_cell_bounds [OF l(2) low] by blast
  have "aval_holds (AVU64 k) rv"
    if "aval_holds x rv" "aval_holds (AVU64 j) rv \<or> aval_holds (AVU64 i) rv" for rv
  proof -
    note holds = that
    obtain n tag where rv: "rv = RVWord n tag" using holds(1) by (cases rv) (auto simp: h(1))
    have "cell_lower cuts index \<le> n" "n \<le> cell_upper cuts index"
      using holds(2) loop_cell_bounds [OF h(3), of n] loop_cell_bounds [OF h(5), of n] by (auto simp: rv)
    then have "iv_contains k n" using clip_cell_Some [of wide n cuts index] holds(1) k(1) by (auto simp: h(1) rv)
    then show ?thesis by (simp add: rv)
  qed
  then show ?thesis using k by (simp add: clip h(2,4))
qed

lemma widen_source:
  assumes "st_widen predicates check old new = Inr widened" and "st_ok old" and "st_ok new"
  shows "\<exists>s. (s = old \<or> s = new) \<and> (\<forall>v x i. bt_get (st_values widened) v = Some x \<longrightarrow> bt_get (st_values s) v = Some (AVU64 i) \<longrightarrow>
    iv_wf i \<and> (\<forall>n. iv_contains i n \<longrightarrow> aval_holds x (RVWord n None)))"
proof -
  have self: "iv_wf i \<and> (\<forall>n. iv_contains i n \<longrightarrow> aval_holds x (RVWord n None))"
    if "st_ok s" "bt_get (st_values s) v = Some x" "bt_get (st_values s) v = Some (AVU64 i)" for s :: "('a, 'b, 'c) resource_state" and v x i
    using st_ok_entry(1) [OF that(1,3)] that(2,3) by auto
  show ?thesis
  proof (cases "pc_is_reachable (st_path old) \<and> pc_is_reachable (st_path new)")
    case False
    then have "widened = old \<or> widened = new" using assms(1) by (auto simp: st_widen_def split: if_splits)
    then show ?thesis using self assms(2,3) by metis
  next
    case True
    then obtain vs where vs: "merge_values aval_widen (st_values old) (st_values new) = Inr vs" "st_values widened = vs"
      using assms(1) by (auto simp: st_widen_def merge_states_def Let_def)
    have "iv_wf i \<and> (\<forall>n. iv_contains i n \<longrightarrow> aval_holds x (RVWord n None))"
      if x: "bt_get (st_values widened) v = Some x" and i: "bt_get (st_values new) v = Some (AVU64 i)" for v x i
    proof -
      obtain l where l: "(v, l) \<in> set (st_values old)" "aval_widen l (AVU64 i) v = Inr x"
        using merge_values_get(2) [OF vs(1), of v x] x i vs(2) by auto
      then have "bt_get (st_values old) v = Some l" using bt_get_mem [OF st_ok_sorted(1) [OF assms(2)]] by blast
      then have ok: "aval_ok l" "aval_ok (AVU64 i)" using st_ok_entry(1) [OF assms(2)] st_ok_entry(1) [OF assms(3) i] by blast+
      then have wf: "aval_wf l" "aval_wf (AVU64 i)" using aval_ok_wf by blast+
      show ?thesis using aval_widen_holds(2) [OF wf l(2)] ok(2) by simp
    qed
    then show ?thesis by blast
  qed
qed

lemma clipped_list:
  assumes "\<And>v x. (v, x) \<in> set m \<Longrightarrow> \<exists>y. g v x = Some y"
  shows "option_map_list (\<lambda>(v, x). map_option (\<lambda>y. (v, y)) (g v x)) m = Some (map (\<lambda>(v, x). (v, the (g v x))) m)"
  using assms
proof (induction m)
  case (Cons e m)
  obtain v x where e: "e = (v, x)" by force
  obtain y where "g v x = Some y" using Cons.prems [of v x] e by auto
  moreover have "option_map_list (\<lambda>(v, x). map_option (\<lambda>y. (v, y)) (g v x)) m = Some (map (\<lambda>(v, x). (v, the (g v x))) m)"
    by (rule Cons.IH) (use Cons.prems in auto)
  ultimately show ?case by (simp add: e)
qed simp

lemma widen_loop_ok:
  assumes "widen_loop_predicates predicates check cuts old new = Inr result" and "st_ok old" and "st_ok new"
  shows "\<exists>j. result = Some j \<and> st_ok j \<and> (\<forall>c. st_holds old c \<or> st_holds new c \<longrightarrow> st_holds j c) \<and>
    (\<forall>v a b index w. bt_get (st_values old) v = Some (AVU64 a) \<longrightarrow> bt_get (st_values new) v = Some (AVU64 b) \<longrightarrow>
       loop_cell a cuts = Some index \<longrightarrow> loop_cell b cuts = Some index \<longrightarrow> bt_get (st_values j) v = Some (AVU64 w) \<longrightarrow>
       cell_lower cuts index \<le> iv_lower w \<and> iv_upper w \<le> cell_upper cuts index)"
proof -
  obtain widened where w: "st_widen predicates check old new = Inr widened" and result: "result =
      map_option (\<lambda>vs. widened\<lparr>st_values := vs\<rparr>)
         (option_map_list (\<lambda>(v, x). map_option (\<lambda>y. (v, y)) (clip_value cuts old new v x)) (st_values widened))"
    using assms(1) by (auto simp: widen_loop_predicates_def)
  note ok = st_widen_ok(1) [OF w assms(2,3)] and covers = st_widen_ok(2) [OF w assms(2,3)]
  obtain s where s: "s = old \<or> s = new" "\<And>v x i. bt_get (st_values widened) v = Some x \<Longrightarrow> bt_get (st_values s) v = Some (AVU64 i) \<Longrightarrow>
      iv_wf i \<and> (\<forall>n. iv_contains i n \<longrightarrow> aval_holds x (RVWord n None))"
    using widen_source [OF w assms(2,3)] by metis
  have clip: "\<exists>y. clip_value cuts old new v x = Some y \<and> aval_ok y \<and>
    (\<forall>rv. aval_holds x rv \<longrightarrow>
      (\<forall>z. bt_get (st_values old) v = Some z \<longrightarrow> aval_holds z rv) \<or> (\<forall>z. bt_get (st_values new) v = Some z \<longrightarrow> aval_holds z rv) \<longrightarrow>
      aval_holds y rv)" if "bt_get (st_values widened) v = Some x" for v x
    by (rule clip_value_ok [OF st_ok_entry(1) [OF ok that] s(1)]) (rule s(2) [OF that])
  note sorted = st_ok_sorted(1) [OF ok]
  let ?m = "map (\<lambda>(v, x). (v, the (clip_value cuts old new v x))) (st_values widened)"
  have "option_map_list (\<lambda>(v, x). map_option (\<lambda>y. (v, y)) (clip_value cuts old new v x)) (st_values widened) = Some ?m"
    by (rule clipped_list) (use clip bt_get_mem [OF sorted] in blast)
  then have j: "result = Some (widened\<lparr>st_values := ?m\<rparr>)" by (simp add: result)
  have get: "bt_get ?m v = map_option (\<lambda>x. the (clip_value cuts old new v x)) (bt_get (st_values widened) v)" for v
    by (rule keyed_map_get)
  have "entries_wf aval_ok ?m"
    unfolding entries_wf_def
  proof (intro conjI allI impI)
    show m: "bt_sorted ?m" by (simp add: keyed_map_sorted sorted)
    fix v y assume "(v, y) \<in> set ?m"
    then have "bt_get ?m v = Some y" using bt_get_mem [OF m] by blast
    then obtain x where x: "bt_get (st_values widened) v = Some x" "y = the (clip_value cuts old new v x)"
      unfolding get by auto
    then show "aval_ok y" using clip [OF x(1)] by auto
  qed
  then have "st_ok (widened\<lparr>st_values := ?m\<rparr>)" using ok by (simp add: st_ok_def)
  moreover have "st_holds (widened\<lparr>st_values := ?m\<rparr>) c" if h: "st_holds old c \<or> st_holds new c" for c
  proof -
    have wide: "st_holds widened c" by (rule covers [OF h])
    have "aval_holds y (mc_values c v)" if y: "bt_get ?m v = Some y" for v y
    proof -
      obtain x where x: "bt_get (st_values widened) v = Some x" "y = the (clip_value cuts old new v x)"
        using y unfolding get by auto
      have "aval_holds x (mc_values c v)" using wide x(1) by (simp add: st_holds_def)
      moreover have "(\<forall>z. bt_get (st_values old) v = Some z \<longrightarrow> aval_holds z (mc_values c v)) \<or>
          (\<forall>z. bt_get (st_values new) v = Some z \<longrightarrow> aval_holds z (mc_values c v))"
        using h by (auto simp: st_holds_def)
      ultimately show ?thesis using clip [OF x(1)] x(2) by auto
    qed
    then show ?thesis using wide by (simp add: st_holds_def)
  qed
  moreover have "cell_lower cuts index \<le> iv_lower w \<and> iv_upper w \<le> cell_upper cuts index"
    if h: "bt_get (st_values old) v = Some (AVU64 a)" "bt_get (st_values new) v = Some (AVU64 b)"
      "loop_cell a cuts = Some index" "loop_cell b cuts = Some index" "bt_get ?m v = Some (AVU64 w)" for v a b index w
  proof -
    obtain x where x: "bt_get (st_values widened) v = Some x" "AVU64 w = the (clip_value cuts old new v x)"
      using h(5) unfolding get by auto
    then obtain y where y: "clip_value cuts old new v x = Some y" using clip by blast
    then show ?thesis using x(2) h(1-4) clip_cell_inside [of cuts index _ w]
      by (cases x) (auto simp: clip_value_def split: option.splits)
  qed
  ultimately show ?thesis using j by auto
qed

section \<open>Loop frames\<close>

lemma inherit_frame_sound:
  assumes "sound entry c0" and "machine_wf c0" and "sound st c"
    and "\<And>v. v \<in> retained \<Longrightarrow> mc_values c v = cross_edge (mc_env c) (mc_values c0 v)"
    and "mc_history c = mc_history c0" and "mc_bool_history c = mc_bool_history c0"
  shows "sound (inherit_loop_scalar_frame entry retained st) c"
proof -
  let ?renames = "map (\<lambda>v. (v, v)) (sorted_list_of_set retained)"
  let ?frame = "project_cfg_edge ?renames entry"
  let ?er = "st_remapper ?renames entry"
  define c' where "c' = c\<lparr>mc_allocations := \<lambda>aid. cross_run (mc_env c) (mc_allocations c0 aid),
      mc_loans := \<lambda>l. cross_loan (mc_env c) ?er (mc_loans c0 l)\<rparr>"
  have scalars: "mc_values c' = mc_values c" "mc_word c' = mc_word c" "mc_bool c' = mc_bool c" "mc_env c' = mc_env c"
      "mc_path c' = mc_path c" "mc_history c' = mc_history c" "mc_bool_history c' = mc_bool_history c"
    by (simp_all add: c'_def mc_word_def mc_bool_def mc_env_def mc_path_def fun_eq_iff)
  have "v \<in> retained" if "v \<in> set (sorted_list_of_set retained)" for v
    using that by (cases "finite retained") simp_all
  then have "machine_edge ?renames ?er c0 c'"
    unfolding machine_edge_def using assms(4-6) by (auto simp: scalars) (simp_all add: c'_def)
  from project_edge_ok [OF soundD [OF assms(1)] assms(2) this] have frame: "st_ok ?frame" "st_holds ?frame c'" by blast+
  have "st_values (inherit_predicate_scalar_aliases ?frame st) = st_values st"
      "st_allocations (inherit_predicate_scalar_aliases ?frame st) = st_allocations st"
      "st_loans (inherit_predicate_scalar_aliases ?frame st) = st_loans st"
    by (simp_all add: inherit_predicate_scalar_aliases_def)
  then show ?thesis
    using frame assms(3) by (simp add: inherit_loop_scalar_frame_def Let_def sound_def st_ok_def st_holds_def scalars)
qed

end
