(* ===== verification/Resource_Mutation.thy ===== *)
theory Resource_Mutation
  imports Resource_Update
begin

text \<open>
  Replaced values: \<open>value_mut\<close> of \<open>state.rs\<close>. Its caller may write any value, so every relation, path fact, origin,
  word expression and initialization prefix that names the value is forgotten before the entry is handed out. What
  the code does not scrub are the symbolic bounds of the other entries; either the write keeps the word, or no such
  bound may name the value.
\<close>

section \<open>The expressions a mutation leaves in place\<close>

fun range_exprs :: "abstract_byte_range \<Rightarrow> affine_expression list" where
  "range_exprs (RSymbolic s e) = [sb_expression s, sb_expression e]"
| "range_exprs r = []"

definition slice_exprs :: "memory_footprint option \<Rightarrow> affine_expression list" where
  "slice_exprs f = (case f of None \<Rightarrow> [] | Some f \<Rightarrow> range_exprs (fp_range f))"

definition ptr_exprs :: "abstract_pointer \<Rightarrow> affine_expression list" where
  "ptr_exprs p =
     (case ap_offset_expression p of None \<Rightarrow> [] | Some e \<Rightarrow> [e]) @
     (case ap_domain p of PDRestricted r \<Rightarrow> range_exprs r | _ \<Rightarrow> []) @ slice_exprs (ap_slice_footprint p)"

fun aval_exprs :: "abstract_value \<Rightarrow> affine_expression list" where
  "aval_exprs (AVPointer p) = ptr_exprs p"
| "aval_exprs (AVPermission p) = range_exprs (perm_range p)"
| "aval_exprs (AVEnumDiscriminant f) = ptr_exprs (ed_pointer f)"
| "aval_exprs v = []"

fun payload_exprs :: "move_path_state \<Rightarrow> affine_expression list" where
  "payload_exprs (PathAvailable p) = ptr_exprs (tp_pointer p) @ range_exprs (perm_range (tp_permission p))"
| "payload_exprs s = []"

definition kept_exprs :: "vir_value_id \<Rightarrow> ('d, 'l, 's) resource_state \<Rightarrow> affine_expression list" where
  "kept_exprs v st =
     concat (map (\<lambda>(u, x). if u = v then [] else aval_exprs x) (st_values st)) @
     concat (map (\<lambda>(_, a). concat (map (\<lambda>(_, s). payload_exprs s) (os_resource_payloads (aa_object_state a)))) (st_allocations st)) @
     concat (map (\<lambda>(_, l). slice_exprs (al_footprint l)) (st_loans st))"

definition isolated :: "vir_value_id \<Rightarrow> ('d, 'l, 's) resource_state \<Rightarrow> bool" where
  "isolated v st = list_all (\<lambda>e. \<not> expression_mentions v e) (kept_exprs v st)"

definition agree_on :: "affine_expression list \<Rightarrow> (vir_value_id \<Rightarrow> int) \<Rightarrow> (vir_value_id \<Rightarrow> int) \<Rightarrow> bool" where
  "agree_on es \<rho> \<rho>' = (\<forall>e \<in> set es. ae_den \<rho>' e = ae_den \<rho> e)"

lemma agree_on_parts [simp]:
  "agree_on [] \<rho> \<rho>'" "agree_on (e # es) \<rho> \<rho>' \<longleftrightarrow> ae_den \<rho>' e = ae_den \<rho> e \<and> agree_on es \<rho> \<rho>'"
  "agree_on (es @ fs) \<rho> \<rho>' \<longleftrightarrow> agree_on es \<rho> \<rho>' \<and> agree_on fs \<rho> \<rho>'"
  by (auto simp: agree_on_def)

lemma agree_on_subset: "agree_on es \<rho> \<rho>' \<Longrightarrow> set fs \<subseteq> set es \<Longrightarrow> agree_on fs \<rho> \<rho>'"
  by (auto simp: agree_on_def)

lemma unmentioned_den: "\<not> expression_mentions v e \<Longrightarrow> ae_den (\<rho>(v := x)) e = ae_den \<rho> e"
  unfolding ae_den_def expression_mentions_def list_ex_iff
  by (rule arg_cong [where f = "\<lambda>s. uint (ae_addend e) + s"], rule terms_sum_cong) auto

lemma isolated_agree: "isolated v st \<Longrightarrow> agree_on (kept_exprs v st) \<rho> (\<rho>(v := x))"
  using unmentioned_den by (auto simp: isolated_def agree_on_def list_all_iff)

lemma range_agrees: "agree_on (range_exprs r) \<rho> \<rho>' \<Longrightarrow> abr_holds r (\<rho>', s, e) = abr_holds r (\<rho>, s, e)"
  by (cases r) (auto simp: bound_holds_def)

lemma slice_agrees: "agree_on (slice_exprs f) \<rho> \<rho>' \<Longrightarrow> slice_holds f (\<rho>', s) = slice_holds f (\<rho>, s)"
  using range_agrees by (auto simp: slice_holds_def slice_exprs_def fp_holds_def split: option.splits)

lemma ptr_agrees:
  assumes "agree_on (ptr_exprs p) (cp_env c) \<rho>'" and "ptr_holds p c"
  shows "ptr_holds p (c\<lparr>cp_env := \<rho>'\<rparr>)"
proof -
  have "option_holds (\<lambda>e (\<rho>, v). ae_den \<rho> e = uint v) (ap_offset_expression p) (\<rho>', cp_offset c)"
    using assms by (cases "ap_offset_expression p") (auto simp: ptr_exprs_def ptr_holds_def)
  moreover have "slice_holds (ap_slice_footprint p) (\<rho>', cp_slice c)"
    using assms slice_agrees [of "ap_slice_footprint p" "cp_env c" \<rho>'] by (simp add: ptr_exprs_def ptr_holds_def)
  moreover have "pd_holds (ap_domain p) (\<rho>', cp_extent c)"
    using assms range_agrees [of _ "cp_env c" \<rho>']
    by (auto simp: ptr_exprs_def ptr_holds_def split: vir_pointer_domain.splits option.splits)
  ultimately show ?thesis using assms(2) by (simp add: ptr_holds_def)
qed

lemma perm_agrees: "agree_on (range_exprs (perm_range p)) (cm_env c) \<rho>' \<Longrightarrow> perm_holds p c \<Longrightarrow> perm_holds p (c\<lparr>cm_env := \<rho>'\<rparr>)"
  using range_agrees [of "perm_range p" "cm_env c" \<rho>'] by (simp add: perm_holds_def)

lemma aval_agrees:
  "agree_on (aval_exprs x) \<rho> \<rho>' \<Longrightarrow> reads_env \<rho> rv \<Longrightarrow> aval_holds x rv \<Longrightarrow> aval_holds x (cross_edge \<rho>' rv)"
proof (induction x rv rule: aval_holds.induct)
  case (2 f v tag)
  then show ?case using ptr_agrees [of "ed_pointer f"] by (cases tag) auto
next
  case (4 b c)
  then show ?case using ptr_agrees [of b c] by simp
next
  case (5 b c)
  then show ?case using perm_agrees [of b c] by simp
qed simp_all

lemma payload_agrees:
  assumes "agree_on (payload_exprs s) \<rho> \<rho>'" and "mp_holds s v"
    and "\<And>ptr perm. v = Some (ptr, perm) \<Longrightarrow> cp_env ptr = \<rho> \<and> cm_env perm = \<rho>"
  shows "mp_holds s (map_option (\<lambda>(ptr, perm). (ptr\<lparr>cp_env := \<rho>'\<rparr>, perm\<lparr>cm_env := \<rho>'\<rparr>)) v)"
proof (cases s)
  case (PathAvailable p)
  then show ?thesis using assms ptr_agrees [of "tp_pointer p"] perm_agrees [of "tp_permission p"] by (cases v) (auto simp: agree_on_def)
qed (use assms(2) in \<open>cases v; auto\<close>)+

lemma objects_agree:
  assumes "os_holds ob oc" and "payload_env \<rho> oc" and "\<And>k s. (k, s) \<in> set (os_resource_payloads ob) \<Longrightarrow> agree_on (payload_exprs s) \<rho> \<rho>'"
  shows "os_holds ob (cross_objects \<rho>' oc)"
proof -
  have "mp_holds (os_resource_payload ob key) (oc_payload (cross_objects \<rho>' oc) key)" for key
  proof (cases "bt_get (os_resource_payloads ob) key")
    case (Some s)
    then have "mp_holds s (oc_payload oc key)" using assms(1) by (auto simp: os_holds_def os_resource_payload_def split: option.splits)
    then show ?thesis
      using payload_agrees [OF assms(3) [OF bt_get_in_set [OF Some]]] assms(2) Some
      by (simp add: cross_objects_def os_resource_payload_def payload_env_def)
  qed (simp add: os_resource_payload_def)
  then show ?thesis using assms(1) by (simp add: os_holds_def cross_objects_def)
qed

section \<open>The machine after the write\<close>

definition mutate_machine :: "vir_value_id \<Rightarrow> runtime_value \<Rightarrow> machine \<Rightarrow> machine" where
  "mutate_machine v rv c =
     (let \<rho>' = (mc_env c)(v := uint (word_of rv))
      in c\<lparr>mc_values := \<lambda>u. if u = v then rv else cross_edge \<rho>' (mc_values c u),
           mc_allocations := \<lambda>aid. cross_run \<rho>' (mc_allocations c aid),
           mc_loans := \<lambda>l. (mc_loans c l)\<lparr>cl_env := \<rho>'\<rparr>\<rparr>)"

definition writable :: "vir_value_id \<Rightarrow> runtime_value \<Rightarrow> ('d, 'l, 's) resource_state \<Rightarrow> machine \<Rightarrow> bool" where
  "writable v rv st c = (machine_wf c \<and> (word_of rv = mc_word c v \<or> isolated v st))"

lemma mutate_scalars [simp]:
  "mc_word (mutate_machine v rv c) = (mc_word c)(v := word_of rv)"
  "mc_env (mutate_machine v rv c) = (mc_env c)(v := uint (word_of rv))"
  "mc_bool (mutate_machine v rv c) = (mc_bool c)(v := bool_of rv)"
  "mc_history (mutate_machine v rv c) = mc_history c" "mc_bool_history (mutate_machine v rv c) = mc_bool_history c"
  by (auto simp: mutate_machine_def mc_word_def mc_env_def mc_bool_def fun_eq_iff Let_def)

lemma mutate_path:
  "mc_path (mutate_machine v rv c) =
     (mc_path c)\<lparr>pr_words := (pr_words (mc_path c))(v := word_of rv), pr_bools := (pr_bools (mc_path c))(v := bool_of rv)\<rparr>"
  by (simp add: mc_path_def)

lemma writable_agree:
  assumes "writable v rv st c"
  shows "agree_on (kept_exprs v st) (mc_env c) ((mc_env c)(v := uint (word_of rv)))"
proof (cases "isolated v st")
  case True
  then show ?thesis by (rule isolated_agree)
next
  case False
  then have "(mc_env c)(v := uint (word_of rv)) = mc_env c" using assms by (auto simp: writable_def mc_env_def fun_eq_iff)
  then show ?thesis by (simp add: agree_on_def)
qed

lemma kept_parts:
  "bt_get (st_values st) u = Some x \<Longrightarrow> u \<noteq> v \<Longrightarrow> set (aval_exprs x) \<subseteq> set (kept_exprs v st)"
  "bt_get (st_allocations st) aid = Some a \<Longrightarrow> (k, s) \<in> set (os_resource_payloads (aa_object_state a)) \<Longrightarrow>
    set (payload_exprs s) \<subseteq> set (kept_exprs v st)"
  "bt_get (st_loans st) loan = Some l \<Longrightarrow> set (slice_exprs (al_footprint l)) \<subseteq> set (kept_exprs v st)"
  by (fastforce simp: kept_exprs_def dest: bt_get_in_set)+

lemma scrub_allocation_ok:
  assumes "alloc_ok a" and "alloc_means (Some a) r c" and "ar_env r = \<rho>" and "payload_env \<rho> (ar_objects r)"
    and "\<And>k s. (k, s) \<in> set (os_resource_payloads (aa_object_state a)) \<Longrightarrow> agree_on (payload_exprs s) \<rho> (\<rho>(v := x))"
    and "mc_history c' = mc_history c" and "mc_bool_history c' = mc_bool_history c"
  shows "alloc_ok (a\<lparr>aa_prefixes := ip_forget_value v (aa_prefixes a)\<rparr>) \<and>
    alloc_means (Some (a\<lparr>aa_prefixes := ip_forget_value v (aa_prefixes a)\<rparr>)) (cross_run (\<rho>(v := x)) r) c'"
proof (cases "aa_liveness a = Live")
  case True
  then have a: "aa_wf a" "aa_holds a r" "cell_histories a r c" using assms(1,2) by (auto simp: alloc_ok_def alloc_means_def)
  let ?a = "a\<lparr>aa_prefixes := ip_forget_value v (aa_prefixes a)\<rparr>"
  note f = forget_value_ok [OF a(1,2), of v x]
  have "os_holds (aa_object_state a) (cross_objects (\<rho>(v := x)) (ar_objects r))"
    by (rule objects_agree [OF _ assms(4,5)]) (use a(2) in \<open>simp add: aa_holds_def\<close>)
  then have "aa_holds ?a (cross_run (\<rho>(v := x)) r)" using f assms(3) by (simp add: aa_meaning cross_run_def)
  moreover have "cell_histories ?a (cross_run (\<rho>(v := x)) r) c'" using a(3) assms(6,7) by (simp add: cell_histories_def cross_run_def)
  ultimately show ?thesis using f True assms(1,2) by (simp add: alloc_ok_def alloc_means_def cross_run_def)
next
  case False
  then have "ip_forget_value v (aa_prefixes a) = []" using assms(1) by (simp add: alloc_ok_def ip_forget_value_def)
  then show ?thesis using False assms(1,2) by (simp add: alloc_ok_def alloc_means_def aa_wf_def cross_run_def)
qed

lemma scrubbed_words:
  assumes "sound st c"
    and "bt_get (filter (\<lambda>(k, e). k \<noteq> v \<and> \<not> expression_mentions v e) (st_word_expressions st)) u = Some e"
  shows "ae_den ((mc_env c)(v := x)) e = ((mc_env c)(v := x)) u"
proof -
  have e: "bt_get (st_word_expressions st) u = Some e" "u \<noteq> v" "\<not> expression_mentions v e"
    using filter_get [OF st_ok_sorted(2) [OF soundD(1) [OF assms(1)]], of "\<lambda>k e. k \<noteq> v \<and> \<not> expression_mentions v e" u] assms(2)
    by (auto split: option.splits if_splits)
  then have "ae_den (mc_env c) e = mc_env c u" using soundD(2) [OF assms(1)] by (simp add: st_holds_def)
  then show ?thesis using e(2) unmentioned_den [OF e(3)] by simp
qed

lemma other_entry:
  assumes "bt_sorted m" and "bt_get (filter (\<lambda>(k, _). k \<noteq> v) m) u = Some x"
  shows "u \<noteq> v \<and> bt_get m u = Some x"
  using filter_get [OF assms(1), of "\<lambda>k _. k \<noteq> v" u] assms(2) by (auto split: option.splits if_splits)

lemma value_mut_sound:
  assumes "sound st c" and "writable v rv st c"
    and "\<And>x. bt_get (st_values st) v = Some x \<Longrightarrow> aval_ok (k x) \<and> aval_holds (k x) rv"
  shows "sound (value_mut v k st) (mutate_machine v rv c)"
proof -
  let ?s = "value_mut v k st" and ?c = "mutate_machine v rv c" and ?env = "(mc_env c)(v := uint (word_of rv))"
  let ?f = "\<lambda>a. a\<lparr>aa_prefixes := ip_forget_value v (aa_prefixes a)\<rparr>"
  note ok = soundD(1) [OF assms(1)] and holds = soundD(2) [OF assms(1)]
  note sorted = st_ok_sorted [OF ok]
  have wf: "machine_wf c" using assms(2) by (simp add: writable_def)
  note agree = agree_on_subset [OF writable_agree [OF assms(2)]]
  have s: "st_relations ?s = rs_forget_value v (st_relations st)" "st_path ?s = pc_forget_value v (st_path st)"
      "st_bool_origins ?s = filter (\<lambda>(k, _). k \<noteq> v) (st_bool_origins st)" "st_word_origins ?s = filter (\<lambda>(k, _). k \<noteq> v) (st_word_origins st)"
      "st_word_expressions ?s = filter (\<lambda>(k, e). k \<noteq> v \<and> \<not> expression_mentions v e) (st_word_expressions st)"
      "st_allocations ?s = map_entries ?f (st_allocations st)" "st_values ?s = update_entry v k (st_values st)" "st_loans ?s = st_loans st"
    by (simp_all add: value_mut_def scrub_value_def forget_predicate_local_alias_def Let_def)
  have rel: "rs_wf (rs_forget_value v (st_relations st))" "rs_holds (rs_forget_value v (st_relations st)) (mc_word ?c)"
    using rs_forget_value_ok [of "st_relations st" "mc_word c" v] ok holds by (simp_all add: st_ok_def st_holds_def)
  have alloc: "alloc_ok (?f a) \<and> alloc_means (Some (?f a)) (mc_allocations ?c aid) ?c" if a: "bt_get (st_allocations st) aid = Some a" for aid a
  proof -
    have "alloc_means (Some a) (mc_allocations c aid) c" using holds a unfolding st_holds_def by metis
    moreover have "mc_allocations ?c aid = cross_run ?env (mc_allocations c aid)" by (simp add: mutate_machine_def Let_def)
    ultimately show ?thesis
      using scrub_allocation_ok [OF st_ok_entry(3) [OF ok a], where v = v and x = "uint (word_of rv)" and \<rho> = "mc_env c" and c' = ?c]
        wf agree [OF kept_parts(2) [OF a]] by (simp add: machine_wf_def)
  qed
  have values': "aval_holds x (mc_values ?c u)" if x: "bt_get (st_values ?s) u = Some x" for u x
  proof (cases "u = v")
    case True
    then show ?thesis using x assms(3) sorted(1) by (auto simp: s update_entry_get mutate_machine_def Let_def)
  next
    case False
    then have u: "bt_get (st_values st) u = Some x" using x sorted(1) by (simp add: s update_entry_get)
    then have "aval_holds x (mc_values c u)" "reads_env (mc_env c) (mc_values c u)" using holds wf by (simp_all add: st_holds_def machine_wf_def)
    then show ?thesis using aval_agrees [OF agree [OF kept_parts(1) [OF u False]]] False by (simp add: mutate_machine_def Let_def)
  qed
  have loans: "loan_means (bt_get (st_loans st) l) (mc_loans ?c l)" for l
  proof (cases "bt_get (st_loans st) l")
    case None
    then have "loan_means None (mc_loans c l)" using holds unfolding st_holds_def by metis
    then show ?thesis using None by (simp add: loan_means_def mutate_machine_def Let_def)
  next
    case (Some x)
    then have "loan_means (Some x) (mc_loans c l)" using holds unfolding st_holds_def by metis
    then show ?thesis
      using slice_agrees [OF agree [OF kept_parts(3) [OF Some]]] wf Some
      by (auto simp: loan_means_def loan_holds_def mutate_machine_def machine_wf_def Let_def)
  qed
  have allocs: "alloc_means (bt_get (st_allocations ?s) aid) (mc_allocations ?c aid) ?c" for aid
  proof (cases "bt_get (st_allocations st) aid")
    case None
    then have "alloc_means None (mc_allocations c aid) c" using holds unfolding st_holds_def by metis
    then show ?thesis using None by (simp add: s map_entries_get alloc_means_def mutate_machine_def cross_run_def Let_def)
  qed (use alloc in \<open>simp add: s map_entries_get\<close>)
  have finite_path: "finite (case pc_forget_value v (st_path st) of Reachable facts \<Rightarrow> facts | Unreachable \<Rightarrow> {})"
    using ok by (cases "st_path st") (auto simp: st_ok_def)
  have "entries_wf alloc_ok (st_allocations ?s)"
    unfolding s entries_wf_def using alloc bt_get_mem [OF sorted(3)] sorted(3) by (auto simp: map_entries_def)
  moreover have "entries_wf aval_ok (st_values ?s)"
    unfolding s by (rule update_entry_wf) (use ok assms(3) in \<open>simp_all add: st_ok_def\<close>)
  ultimately have wf': "st_ok ?s"
    using ok rel(1) finite_path by (simp add: st_ok_def s(1-5,8) entries_wf_filter)
  have path: "pc_holds (st_path ?s) (mc_path ?c)"
    unfolding s mutate_path by (rule pc_forget_value_holds) (use holds in \<open>simp add: st_holds_def\<close>)
  have origins: "bt_get (st_word_origins ?s) u = Some w \<Longrightarrow> origin_val (mc_history ?c) w = mc_env ?c u"
      "bt_get (st_bool_origins ?s) u = Some b \<Longrightarrow> mc_bool_history ?c b = mc_bool ?c u" for u w b
    using other_entry [OF sorted(5), of v u w] other_entry [OF sorted(6), of v u b] holds by (auto simp: s st_holds_def)
  show ?thesis
    unfolding sound_def st_holds_def
    using wf' path rel(2) values' scrubbed_words [OF assms(1)] origins allocs loans by (simp add: s(1,5,8))
qed

end
