(* ===== verification/Resource_Sound.thy ===== *)
theory Resource_Sound
  imports Resource_Instance Resource_Loop Resource_Mutation
begin

text \<open>
  The resource states an analysis reaches. \<open>analyses\<close> runs the operations of the state beside the machine they
  describe, with the facts an operation is handed true of the machine, and both sides of every join and widening
  reached; every reached state is well formed and true.
\<close>

section \<open>Reached states\<close>

inductive analyses ::
  "('d, 'l, 's, 'r) predicate_merge \<Rightarrow> ('d, 'l, 's, 'r) predicate_merge \<Rightarrow> ('d, 'l, 's, 'r) predicate_check \<Rightarrow>
    ('d, 'l, 's) resource_state \<Rightarrow> machine \<Rightarrow> bool"
  for P W :: "('d, 'l, 's, 'r) predicate_merge" and Q :: "('d, 'l, 's, 'r) predicate_check" where
  start: "(\<And>aid. \<not> (ar_live (mc_allocations c aid) \<and> ar_owned (mc_allocations c aid))) \<Longrightarrow>
    (\<And>l. cl_activity (mc_loans c l) = LoanEnded) \<Longrightarrow> analyses P W Q st_new c"
| conjoin: "analyses P W Q st c \<Longrightarrow> fact_true (mc_path c) f \<Longrightarrow> analyses P W Q (conjoin_path_fact f st) c"
| forget_path: "analyses P W Q st c \<Longrightarrow> analyses P W Q (forget_path_condition st) c"
| mark_loss: "analyses P W Q st c \<Longrightarrow> analyses P W Q (mark_loan_precision_loss loss st) c"
| limit: "analyses P W Q st c \<Longrightarrow> analyses P W Q (limit_relations limits st) c"
| learn: "analyses P W Q st c \<Longrightarrow> list_all (premise_true (mc_word c)) added \<Longrightarrow>
    analyses P W Q (learn_relations added limits st) c"
| narrow_bool: "analyses P W Q st c \<Longrightarrow> mc_bool c v = expected \<Longrightarrow>
    analyses P W Q (snd (narrow_bool_value v expected st)) c"
| narrow_pointer: "analyses P W Q st c \<Longrightarrow> (\<And>p. mc_values c v = RVPointer p \<Longrightarrow> iv_contains i (cp_offset p)) \<Longrightarrow>
    analyses P W Q (snd (narrow_pointer_offset v i st)) c"
| narrow_word: "analyses P W Q st c \<Longrightarrow> iv_contains i (mc_word c v) \<Longrightarrow>
    analyses P W Q (narrow_word_interval v i st) c"
| define_val: "analyses P W Q st c \<Longrightarrow> define_value v x st = Inr st' \<Longrightarrow> aval_ok x \<Longrightarrow> aval_holds x (mc_values c v) \<Longrightarrow>
    analyses P W Q st' c"
| set_expression: "analyses P W Q st c \<Longrightarrow> ae_wf e \<Longrightarrow> ae_den (mc_env c) e = mc_env c v \<Longrightarrow>
    analyses P W Q (set_word_expression v e st) c"
| clear_expression: "analyses P W Q st c \<Longrightarrow> analyses P W Q (clear_word_expression v st) c"
| bool_origin: "analyses P W Q st c \<Longrightarrow> mc_bool_history c s = mc_bool c v \<Longrightarrow>
    analyses P W Q (st_set_bool_origin v s st) c"
| word_origin: "analyses P W Q st c \<Longrightarrow> origin_val (mc_history c) w = mc_env c v \<Longrightarrow>
    analyses P W Q (st_set_word_origin v w st) c"
| seed_parameters: "analyses P W Q st c \<Longrightarrow> \<forall>v \<in> set parameters. parameter_history f v c \<Longrightarrow>
    analyses P W Q (seed_parameter_origins f parameters st) c"
| seed_cells: "analyses P W Q st c \<Longrightarrow> stored_history c \<Longrightarrow> analyses P W Q (st_seed_scalar_origins st) c"
| define_alloc: "analyses P W Q st c \<Longrightarrow> define_allocation aid a st = Inr st' \<Longrightarrow> alloc_ok a \<Longrightarrow> alloc_means (Some a) r c \<Longrightarrow>
    analyses P W Q st' (set_run aid r c)"
| replace_alloc: "analyses P W Q st c \<Longrightarrow> alloc_ok a \<Longrightarrow> alloc_means (Some a) r c \<Longrightarrow>
    analyses P W Q (replace_allocation aid a st) (set_run aid r c)"
| mutate_alloc: "analyses P W Q st c \<Longrightarrow> bt_get (st_allocations st) aid = Some a \<Longrightarrow> alloc_ok (g a) \<Longrightarrow> alloc_means (Some (g a)) r c \<Longrightarrow>
    analyses P W Q (allocation_mut aid g st) (set_run aid r c)"
| opaque: "analyses P W Q st c \<Longrightarrow> \<not> ar_owned r \<Longrightarrow> (ar_live r \<Longrightarrow> ar_live (mc_allocations c aid)) \<Longrightarrow>
    analyses P W Q (transfer_opaque_instance aid st) (set_run aid r c)"
| introduce: "analyses P W Q st c \<Longrightarrow> introduce_allocation_instance aid a st = (Inr u, st') \<Longrightarrow> revoked aid c \<Longrightarrow>
    bt_get (st_allocations st) ghost = None \<Longrightarrow> ghost \<noteq> aid \<Longrightarrow> alloc_ok a \<Longrightarrow> alloc_means (Some a) r c \<Longrightarrow>
    analyses P W Q st' (retire_machine aid ghost r c)"
| new_loan: "analyses P W Q st c \<Longrightarrow> define_loan loan l st = Inr st' \<Longrightarrow> loan_ok l \<Longrightarrow> loan_means (Some l) s \<Longrightarrow>
    analyses P W Q st' (set_loan loan s c)"
| next_loan: "analyses P W Q st c \<Longrightarrow> define_next_loan_instance loan l st = Inr st' \<Longrightarrow> loan_ok l \<Longrightarrow> loan_means (Some l) s \<Longrightarrow>
    analyses P W Q st' (set_loan loan s c)"
| mutate_loan: "analyses P W Q st c \<Longrightarrow> bt_get (st_loans st) loan = Some l \<Longrightarrow> loan_ok (h l) \<Longrightarrow> loan_means (Some (h l)) s \<Longrightarrow>
    analyses P W Q (loan_mut loan h st) (set_loan loan s c)"
| mutate_value: "analyses P W Q st c \<Longrightarrow> writable v rv st c \<Longrightarrow>
    (\<And>x. bt_get (st_values st) v = Some x \<Longrightarrow> aval_ok (k x) \<and> aval_holds (k x) rv) \<Longrightarrow>
    analyses P W Q (value_mut v k st) (mutate_machine v rv c)"
| edge: "analyses P W Q st c \<Longrightarrow> machine_wf c \<Longrightarrow> machine_edge renames (st_remapper renames st) c c' \<Longrightarrow>
    analyses P W Q (project_cfg_edge renames st) c'"
| edge_case: "analyses P W Q st c \<Longrightarrow> project_cfg_case renames st = Inr st' \<Longrightarrow> machine_wf c \<Longrightarrow>
    machine_edge renames (st_remapper renames st) c c' \<Longrightarrow> analyses P W Q st' c'"
| join: "analyses P W Q a c \<Longrightarrow> analyses P W Q b d \<Longrightarrow> st_join P Q a b = Inr j \<Longrightarrow> e = c \<or> e = d \<Longrightarrow>
    analyses P W Q j e"
| widen: "analyses P W Q a c \<Longrightarrow> analyses P W Q b d \<Longrightarrow> st_widen W Q a b = Inr j \<Longrightarrow> e = c \<or> e = d \<Longrightarrow>
    analyses P W Q j e"
| widen_loop: "analyses P W Q a c \<Longrightarrow> analyses P W Q b d \<Longrightarrow> widen_loop_predicates W Q cuts a b = Inr (Some j) \<Longrightarrow>
    e = c \<or> e = d \<Longrightarrow> analyses P W Q j e"
| covered: "analyses P W Q a c \<Longrightarrow> analyses P W Q b d \<Longrightarrow> covers_cfg_case P Q a b \<Longrightarrow>
    analyses P W Q a d"
| frame: "analyses P W Q entry d \<Longrightarrow> machine_wf d \<Longrightarrow> analyses P W Q st c \<Longrightarrow>
    (\<And>v. v \<in> retained \<Longrightarrow> mc_values c v = cross_edge (mc_env c) (mc_values d v)) \<Longrightarrow>
    mc_history c = mc_history d \<Longrightarrow> mc_bool_history c = mc_bool_history d \<Longrightarrow>
    analyses P W Q (inherit_loop_scalar_frame entry retained st) c"

lemma start_sound:
  "(\<And>aid. \<not> (ar_live (mc_allocations c aid) \<and> ar_owned (mc_allocations c aid))) \<Longrightarrow>
    (\<And>l. cl_activity (mc_loans c l) = LoanEnded) \<Longrightarrow> sound st_new c"
  by (simp add: sound_def st_ok_def st_holds_def st_new_def rs_new_def pc_empty_def alloc_means_def loan_means_def
      rs_wf_def rs_holds_def bounds_hold_def rs_size_def)

lemma merged_sound:
  assumes "sound a c" and "sound b d"
  shows "st_join P Q a b = Inr j \<Longrightarrow> e = c \<or> e = d \<Longrightarrow> sound j e"
    and "st_widen W Q a b = Inr j \<Longrightarrow> e = c \<or> e = d \<Longrightarrow> sound j e"
    and "widen_loop_predicates W Q cuts a b = Inr (Some j) \<Longrightarrow> e = c \<or> e = d \<Longrightarrow> sound j e"
    and "covers_cfg_case P Q a b \<Longrightarrow> sound a d"
proof -
  note ok = soundD(1) [OF assms(1)] soundD(1) [OF assms(2)] and holds = soundD(2) [OF assms(1)] soundD(2) [OF assms(2)]
  show "sound j e" if "st_join P Q a b = Inr j" "e = c \<or> e = d"
    using st_join_ok [OF that(1) ok] that(2) holds by (auto simp: sound_def)
  show "sound j e" if "st_widen W Q a b = Inr j" "e = c \<or> e = d"
    using st_widen_ok [OF that(1) ok] that(2) holds by (auto simp: sound_def)
  show "sound j e" if "widen_loop_predicates W Q cuts a b = Inr (Some j)" "e = c \<or> e = d"
    using widen_loop_ok [OF that(1) ok] that(2) holds by (auto simp: sound_def)
  show "sound a d" if "covers_cfg_case P Q a b"
    using covers_sound [OF that ok holds(2)] ok(1) by (simp add: sound_def)
qed

lemma edge_sound:
  "sound st c \<Longrightarrow> machine_wf c \<Longrightarrow> machine_edge renames (st_remapper renames st) c c' \<Longrightarrow> sound (project_cfg_edge renames st) c'"
  "sound st c \<Longrightarrow> project_cfg_case renames st = Inr st' \<Longrightarrow> machine_wf c \<Longrightarrow>
    machine_edge renames (st_remapper renames st) c c' \<Longrightarrow> sound st' c'"
  unfolding sound_def using project_edge_ok project_case_ok by blast+

lemmas narrowing_sound = narrow_bool_sound narrow_pointer_sound narrow_word_sound learn_relations_sound limit_relations_sound

lemmas fact_sound = conjoin_sound forget_path_sound mark_loss_sound define_value_sound set_expression_sound clear_expression_sound
  set_bool_origin_sound set_word_origin_sound seed_parameters_sound seed_origins_sound

lemmas entry_sound = define_allocation_sound replace_allocation_sound allocation_mut_sound transfer_opaque_sound introduce_sound
  define_loan_sound define_next_loan_sound loan_mut_sound value_mut_sound

lemma analyses_sound: "analyses P W Q st c \<Longrightarrow> sound st c"
  by (induction rule: analyses.induct)
    (rule start_sound narrowing_sound fact_sound entry_sound edge_sound merged_sound inherit_frame_sound; blast)+

section \<open>Properties\<close>

text \<open>C6: A reached resource state never lies. Whatever sequence of definitions, narrowings, learned relations,
  replaced values, allocations, loans, reused identities, edges, joins, widenings and loop frames led to it, the state is well
  formed and reachable, and what it records is true of the machine: path facts, difference bounds and disequalities,
  value facts, affine word expressions and the word and Boolean histories. A live owned allocation is never missing,
  dead or unowned; a definitely live entry describes the allocation, its cell histories and the scalars in memory; a
  loan that has not ended is recorded with its carriers. A value handed out by \<open>value_mut\<close> may be replaced by any
  value, as long as its word stays or no symbolic bound elsewhere names it.\<close>

theorem resource_states_never_lie:
  assumes "analyses P W Q st c"
  shows "st_ok st \<and>
    (\<exists>facts. st_path st = Reachable facts \<and> (\<forall>f \<in> facts. fact_true (mc_path c) f)) \<and>
    (\<forall>b \<in> set (rs_bound_list (st_relations st)). end_val (mc_word c) (db_left b) - end_val (mc_word c) (db_right b) \<le> db_bound b) \<and>
    (\<forall>(l, r) \<in> rs_disequalities (st_relations st). operand_val (mc_word c) l \<noteq> operand_val (mc_word c) r) \<and>
    (\<forall>v x. st_value st v = Some x \<longrightarrow> aval_holds x (mc_values c v)) \<and>
    (\<forall>v e. st_word st v = Some e \<longrightarrow> ae_den (mc_env c) e = mc_env c v) \<and>
    (\<forall>v s. bt_get (st_word_origins st) v = Some s \<longrightarrow> origin_val (mc_history c) s = mc_env c v) \<and>
    (\<forall>v s. bt_get (st_bool_origins st) v = Some s \<longrightarrow> mc_bool_history c s = mc_bool c v) \<and>
    (\<forall>aid. ar_live (mc_allocations c aid) \<and> ar_owned (mc_allocations c aid) \<longrightarrow>
       (\<exists>a. bt_get (st_allocations st) aid = Some a \<and> aa_liveness a \<noteq> Dead \<and> aa_ownership a \<noteq> Unowned)) \<and>
    (\<forall>aid a. bt_get (st_allocations st) aid = Some a \<and> aa_liveness a = Live \<longrightarrow>
       ar_live (mc_allocations c aid) \<and> aa_holds a (mc_allocations c aid) \<and> cell_histories a (mc_allocations c aid) c) \<and>
    (\<forall>aid a r access x. bt_get (st_allocations st) aid = Some a \<longrightarrow> aa_scalar_content a r access = Some x \<longrightarrow>
       ar_live (mc_allocations c aid) \<and> scalar_fact_holds x (ar_cells (mc_allocations c aid) (r, access))) \<and>
    (\<forall>l. cl_activity (mc_loans c l) \<noteq> LoanEnded \<longrightarrow>
       (\<exists>x. bt_get (st_loans st) l = Some x \<and> al_activity x \<noteq> LoanEnded \<and> loan_holds x (mc_loans c l)))"
proof -
  have sound: "sound st c" by (rule analyses_sound [OF assms])
  note holds = soundD(2) [OF sound, unfolded st_holds_def]
  have path: "\<exists>facts. st_path st = Reachable facts \<and> (\<forall>f \<in> facts. fact_true (mc_path c) f)"
    using holds by (cases "st_path st") auto
  have means: "alloc_means (bt_get (st_allocations st) aid) (mc_allocations c aid) c" for aid using holds by blast
  have owners: "\<exists>a. bt_get (st_allocations st) aid = Some a \<and> aa_liveness a \<noteq> Dead \<and> aa_ownership a \<noteq> Unowned"
    if "ar_live (mc_allocations c aid) \<and> ar_owned (mc_allocations c aid)" for aid
    using means [of aid] that by (cases "bt_get (st_allocations st) aid") (auto simp: alloc_means_def)
  have stored: "ar_live (mc_allocations c aid) \<and> scalar_fact_holds x (ar_cells (mc_allocations c aid) (r, access))"
    if "bt_get (st_allocations st) aid = Some a" "aa_scalar_content a r access = Some x" for aid a r access x
  proof -
    have "aa_liveness a = Live" using that(2) by (simp add: aa_scalar_content_def aa_readable_def split: if_splits)
    then have "aa_holds a (mc_allocations c aid)" using means [of aid] that(1) by (simp add: alloc_means_def)
    then show ?thesis using scalar_content_holds [OF _ that(2)] \<open>aa_liveness a = Live\<close> by (auto simp: aa_holds_def)
  qed
  have loans: "\<exists>x. bt_get (st_loans st) l = Some x \<and> al_activity x \<noteq> LoanEnded \<and> loan_holds x (mc_loans c l)"
    if "cl_activity (mc_loans c l) \<noteq> LoanEnded" for l
  proof (cases "bt_get (st_loans st) l")
    case None
    then have "loan_means None (mc_loans c l)" using holds by metis
    then show ?thesis using that by (simp add: loan_means_def)
  next
    case (Some x)
    then have "loan_means (Some x) (mc_loans c l)" using holds by metis
    then show ?thesis using that Some by (auto simp: loan_means_def)
  qed
  have live: "ar_live (mc_allocations c aid) \<and> aa_holds a (mc_allocations c aid) \<and> cell_histories a (mc_allocations c aid) c"
    if "bt_get (st_allocations st) aid = Some a \<and> aa_liveness a = Live" for aid a
    using means [of aid] that by (simp add: alloc_means_def)
  have relations: "end_val (mc_word c) (db_left b) - end_val (mc_word c) (db_right b) \<le> db_bound b"
      if "b \<in> set (rs_bound_list (st_relations st))" for b
    using that holds by (auto simp: rs_holds_def bounds_hold_def rs_bound_list_def)
  have apart: "\<forall>(l, r) \<in> rs_disequalities (st_relations st). operand_val (mc_word c) l \<noteq> operand_val (mc_word c) r" using holds by (auto simp: rs_holds_def)
  show ?thesis
    using soundD(1) [OF sound] path relations apart holds owners live stored loans unfolding st_value_def st_word_def
    by (intro conjI) blast+
qed

text \<open>A machine with one live local allocation, in which every value is the word five.\<close>

definition no_predicates :: "(unit, unit, unit, unit) predicate_merge" where
  "no_predicates a b = Inr ([], ())"

definition no_check :: "(unit, unit, unit, unit) predicate_check" where
  "no_check r st = Inr ()"

definition five_env :: "vir_value_id \<Rightarrow> int" where
  "five_env v = 5"

definition dead_run :: allocation_run where
  "dead_run = (demo_run {} {})\<lparr>ar_env := five_env, ar_live := False\<rparr>"

definition five_start :: machine where
  "five_start =
     \<lparr>mc_values = \<lambda>_. RVWord 5 None, mc_allocations = \<lambda>_. dead_run,
      mc_loans = \<lambda>_. \<lparr>cl_env = five_env, cl_allocation = External 0, cl_slice = None, cl_activity = LoanEnded, cl_carriers = {}\<rparr>,
      mc_history = \<lambda>_. 5, mc_bool_history = \<lambda>_. False\<rparr>"

definition five_machine :: machine where
  "five_machine = set_run (External 0) ((demo_run {} {})\<lparr>ar_env := five_env\<rparr>) five_start"

definition five_defined :: "(unit, unit, unit) resource_state" where
  "five_defined = the (result_ok (define_allocation (External 0) demo_start st_new))"

definition five_state :: "(unit, unit, unit) resource_state" where
  "five_state = the (result_ok (define_value 0 (AVU64 \<lparr>iv_lower = 0, iv_upper = 9\<rparr>) five_defined))"

definition five_narrowed :: "(unit, unit, unit) resource_state" where
  "five_narrowed = narrow_word_interval 0 \<lparr>iv_lower = 5, iv_upper = 20\<rparr> five_state"

definition five_target :: "(unit, unit, unit) resource_state" where
  "five_target = the (result_ok (project_cfg_case [(0, 7)] five_narrowed))"

lemma five_env: "mc_env five_start = five_env" "mc_env five_machine = five_env"
  by (simp_all add: five_machine_def five_start_def mc_env_def mc_word_def five_env_def fun_eq_iff)

lemma five_wf: "machine_wf five_machine"
  by (simp add: machine_wf_def five_env) (simp add: five_machine_def five_start_def dead_run_def demo_run_def payload_env_def)

lemma five_edge: "machine_edge [(0, 7)] er five_machine five_machine"
  unfolding machine_edge_def five_env
  by (simp add: five_machine_def five_start_def dead_run_def demo_run_def cross_run_def cross_objects_def cross_loan_def)

lemma demo_start_ok: "alloc_ok demo_start \<and> alloc_means (Some demo_start) ((demo_run {} {})\<lparr>ar_env := five_env\<rparr>) c"
proof -
  have start: "aa_with_region None 8 8 (if False then Owned else Unowned) = Inr demo_start"
    unfolding demo_start_def by code_simp
  have "fresh_run False ((demo_run {} {})\<lparr>ar_env := five_env\<rparr>)" by (simp add: fresh_run_def demo_run_def)
  then have ok: "aa_wf demo_start" "aa_holds demo_start ((demo_run {} {})\<lparr>ar_env := five_env\<rparr>)"
    using fresh_ok [OF start, where owned = False] by simp_all
  have parts: "aa_liveness demo_start = Live" "os_resource_payloads (aa_object_state demo_start) = []"
      "sc_word_origins (aa_scalar_contents demo_start) = []" "sc_bool_origins (aa_scalar_contents demo_start) = []"
    by code_simp+
  then show ?thesis using ok by (simp add: alloc_ok_def alloc_means_def cell_histories_def aa_holds_def)
qed

lemma five_run: "analyses no_predicates no_predicates no_check five_target five_machine"
proof -
  have "analyses no_predicates no_predicates no_check st_new five_start"
    by (rule analyses.start) (simp_all add: five_start_def dead_run_def)
  moreover have "define_allocation (External 0) demo_start (st_new :: (unit, unit, unit) resource_state) = Inr five_defined"
    unfolding five_defined_def by code_simp
  ultimately have "analyses no_predicates no_predicates no_check five_defined five_machine"
    unfolding five_machine_def using analyses.define_alloc demo_start_ok by blast
  moreover have "define_value 0 (AVU64 \<lparr>iv_lower = 0, iv_upper = 9\<rparr>) five_defined = Inr five_state"
    unfolding five_state_def by code_simp
  ultimately have "analyses no_predicates no_predicates no_check five_state five_machine"
    by (rule analyses.define_val)
      (simp_all add: iv_wf_def iv_contains_def five_machine_def five_start_def)
  then have "analyses no_predicates no_predicates no_check five_narrowed five_machine"
    unfolding five_narrowed_def
    by (rule analyses.narrow_word) (simp add: iv_contains_def five_machine_def five_start_def mc_word_def)
  moreover have "project_cfg_case [(0, 7)] five_narrowed = Inr five_target"
    unfolding five_target_def by code_simp
  ultimately show ?thesis by (rule analyses.edge_case [OF _ _ five_wf five_edge])
qed

theorem resource_states_never_lie_witness:
  "st_value five_target 7 = Some (AVU64 \<lparr>iv_lower = 5, iv_upper = 9\<rparr>) \<and>
   aval_holds (AVU64 \<lparr>iv_lower = 5, iv_upper = 9\<rparr>) (mc_values five_machine 7)"
proof -
  have "st_value five_target 7 = Some (AVU64 \<lparr>iv_lower = 5, iv_upper = 9\<rparr>)" by code_simp
  then show ?thesis using resource_states_never_lie [OF five_run] by blast
qed

text \<open>C13: An allocation identity is reused exactly when nothing is still responsible for the old instance. The
  introduction is refused as still referenced if and only if something is outstanding: a predicate instance with a
  resource of the allocation or stored in it, an entry that may be alive and is owned or keeps a payload that was not
  moved away, or a loan of it, of an unknown allocation or carried in it that is not over. It is refused for the budget
  exactly when nothing is and all slots are taken by other identities. When it succeeds on a true state, the old
  allocation was not a live owned one, every loan that named it had ended, and afterwards the state is true of the
  machine in which the old allocation lives on without a name: no value, stored payload or loan of the state names the
  new instance by a stale alias. A refused introduction leaves the state as it was.\<close>

theorem instance_reuse_safe:
  assumes "sound st c" and "revoked aid c" and "bt_get (st_allocations st) ghost = None" and "ghost \<noteq> aid"
    and "alloc_ok a" and "alloc_means (Some a) r c" and "introduce_allocation_instance aid a st = (result, st')"
  shows "(result = Inl (InstanceStillReferenced aid) \<longleftrightarrow> outstanding aid st) \<and>
    (result = Inl InstanceBudget \<longleftrightarrow>
      \<not> outstanding aid st \<and> bt_get (st_allocations st) aid = None \<and> MAX_ALLOCATION_SLOTS \<le> length (st_allocations st)) \<and>
    (result = Inr () \<longleftrightarrow>
      \<not> outstanding aid st \<and> (bt_get (st_allocations st) aid \<noteq> None \<or> length (st_allocations st) < MAX_ALLOCATION_SLOTS)) \<and>
    (result = Inr () \<longrightarrow>
      \<not> (ar_live (mc_allocations c aid) \<and> ar_owned (mc_allocations c aid)) \<and>
      (\<forall>l x. bt_get (st_loans st) l = Some x \<and> al_provenance x = ProvKnown aid \<longrightarrow> cl_activity (mc_loans c l) = LoanEnded) \<and>
      sound st' (retire_machine aid ghost r c) \<and>
      (\<forall>v x. bt_get (st_values st') v = Some x \<longrightarrow> \<not> names (ProvKnown aid) x) \<and>
      (\<forall>k b key s. bt_get (st_allocations st') k = Some b \<and> k \<noteq> aid \<and> (key, s) \<in> set (os_resource_payloads (aa_object_state b)) \<longrightarrow>
         \<not> payload_names (ProvKnown aid) s) \<and>
      (\<forall>l x. bt_get (st_loans st') l = Some x \<longrightarrow> al_provenance x \<noteq> ProvKnown aid)) \<and>
    (\<forall>e. result = Inl e \<longrightarrow> st' = st)"
proof (cases result)
  case (Inl e)
  then have "st' = st" using introduce_Inl [of aid a st e st'] assms(7) by simp
  then show ?thesis using introduce_decision [OF assms(7)] Inl by simp
next
  case (Inr u)
  note run = assms(7) [unfolded Inr]
  note intro = introduce_Inr [OF run]
  note sorted = st_ok_sorted [OF soundD(1) [OF assms(1)]]
  have "\<not> names (ProvKnown aid) x" if "bt_get (st_values st') v = Some x" for v x
    using that forgotten_names by (auto simp: intro(2) map_entries_get)
  moreover have "\<not> payload_names (ProvKnown aid) s"
    if "bt_get (st_allocations st') k = Some b" "k \<noteq> aid" "(key, s) \<in> set (os_resource_payloads (aa_object_state b))" for k b key s
  proof -
    note h = that
    have "bt_get (st_allocations st') k = map_option (forget_stored_aliases (ProvKnown aid)) (bt_get (st_allocations st) k)"
      using that(2) sorted(3) by (simp add: intro(2) insert_get map_entries_get)
    then obtain b0 where "b = forget_stored_aliases (ProvKnown aid) b0"
      using h(1) by (cases "bt_get (st_allocations st) k") simp_all
    then show ?thesis using h(3) forgotten_payload_names by (auto simp: forget_stored_aliases_def map_entries_def)
  qed
  moreover have "al_provenance x \<noteq> ProvKnown aid" if "bt_get (st_loans st') l = Some x" for l x
    using bt_get_in_set [OF that] by (simp add: intro(2))
  ultimately show ?thesis
    using Inr introduce_decision [OF assms(7)] introduce_sound [OF run assms(1-6)] not_owned [OF assms(1) intro(1)] forgotten_loan_ended [OF assms(1) intro(1)] by blast
qed

definition reuse_pointer :: abstract_pointer where
  "reuse_pointer = (ap_new (ProvKnown (External 0)) (iv_exact 0)) \<lparr>ga_bytes = 8\<rparr>"

definition reuse_state :: "(unit, unit, unit) resource_state" where
  "reuse_state = st_new\<lparr>st_values := [(3, AVPointer reuse_pointer)]\<rparr>"

definition reuse_address :: pointer_state where
  "reuse_address =
     \<lparr>cp_env = \<lambda>_. 0, cp_allocation = External 0, cp_address = 0, cp_offset = 0, cp_access = demo_access,
      cp_object_path = the (pp_object (pp_root demo_access)), cp_domain_path = the (pp_object (pp_root demo_access)),
      cp_extent = None, cp_slice = None\<rparr>"

definition reuse_machine :: machine where
  "reuse_machine = five_start\<lparr>mc_values := (mc_values five_start)(3 := RVPointer reuse_address)\<rparr>"

definition reuse_result :: "(unit, unit, unit) resource_state" where
  "reuse_result = snd (introduce_allocation_instance (External 0) demo_start reuse_state)"

theorem instance_reuse_safe_witness:
  "introduce_allocation_instance (External 0) demo_start reuse_state = (Inr (), reuse_result) \<and>
   st_value reuse_result 3 = Some (AVPointer (snd (forget_pointer (ProvKnown (External 0)) reuse_pointer))) \<and>
   sound reuse_result (retire_machine (External 0) (External 1) ((demo_run {} {})\<lparr>ar_env := five_env\<rparr>) reuse_machine)"
proof -
  have "aval_ok (AVPointer reuse_pointer)" by code_simp
  moreover have "ptr_holds reuse_pointer reuse_address" by code_simp
  moreover have "analyses no_predicates no_predicates no_check st_new reuse_machine"
    by (rule analyses.start) (simp_all add: reuse_machine_def five_start_def dead_run_def)
  then have "sound (st_new :: (unit, unit, unit) resource_state) reuse_machine" by (rule analyses_sound)
  ultimately have sound: "sound reuse_state reuse_machine"
    using insert_value_sound [of "st_new :: (unit, unit, unit) resource_state" reuse_machine "AVPointer reuse_pointer" 3]
    by (simp add: reuse_state_def reuse_machine_def st_new_def)
  have revoked: "revoked (External 0) reuse_machine"
    by (simp add: revoked_def reuse_machine_def five_start_def dead_run_def demo_run_def)
  have free: "bt_get (st_allocations reuse_state) (External 1) = None" "External 1 \<noteq> External 0"
    by (simp_all add: reuse_state_def st_new_def)
  have run: "introduce_allocation_instance (External 0) demo_start reuse_state = (Inr (), reuse_result)"
    unfolding reuse_result_def by code_simp
  have "st_value reuse_result 3 = Some (AVPointer (snd (forget_pointer (ProvKnown (External 0)) reuse_pointer)))" by code_simp
  moreover note instance_reuse_safe [OF sound revoked free conjunct1 [OF demo_start_ok] conjunct2 [OF demo_start_ok] run]
  ultimately show ?thesis using run by blast
qed

text \<open>C14: The decisions at a loop head are sound. When the fixpoint test accepts a state, every machine of the incoming
  state is a machine of the state at the head. Widening over a partition of the words never panics, its result is
  true of every machine of either state, and a word whose two intervals lie in one cell of the partition stays in
  that cell.\<close>

theorem loop_head_sound:
  assumes "st_ok old" and "st_ok new"
  shows "(covers_cfg_case P Q old new \<longrightarrow> (\<forall>c. st_holds new c \<longrightarrow> st_holds old c)) \<and>
    (\<forall>result. widen_loop_predicates P Q cuts old new = Inr result \<longrightarrow>
       (\<exists>j. result = Some j \<and> st_ok j \<and> (\<forall>c. st_holds old c \<or> st_holds new c \<longrightarrow> st_holds j c) \<and>
         (\<forall>v a b index w. st_value old v = Some (AVU64 a) \<longrightarrow> st_value new v = Some (AVU64 b) \<longrightarrow>
            loop_cell a cuts = Some index \<longrightarrow> loop_cell b cuts = Some index \<longrightarrow> st_value j v = Some (AVU64 w) \<longrightarrow>
            cell_lower cuts index \<le> iv_lower w \<and> iv_upper w \<le> cell_upper cuts index)))"
  unfolding st_value_def using covers_sound [OF _ assms] widen_loop_ok [OF _ assms] by fast

definition counter_state :: "u64 \<Rightarrow> (unit, unit, unit) resource_state" where
  "counter_state n = st_new\<lparr>st_values := [(0, AVU64 (iv_exact n))]\<rparr>"

theorem loop_head_sound_witness:
  "\<exists>j. widen_loop_predicates no_predicates no_check [10] (counter_state 0) (counter_state 1) = Inr (Some j) \<and> st_ok j \<and>
     st_value j 0 = Some (AVU64 \<lparr>iv_lower = 0, iv_upper = 9\<rparr>) \<and> \<not> covers_cfg_case no_predicates no_check (counter_state 0) j"
proof -
  let ?j = "st_new\<lparr>st_values := [(0, AVU64 \<lparr>iv_lower = 0, iv_upper = 9\<rparr>)]\<rparr> :: (unit, unit, unit) resource_state"
  have ok: "st_ok (counter_state 0)" "st_ok (counter_state 1)"
    by (auto simp: counter_state_def st_ok_def st_new_def rs_wf_def rs_new_def rs_size_def pc_empty_def entries_wf_def iv_exact_def iv_wf_def)
  have run: "widen_loop_predicates no_predicates no_check [10] (counter_state 0) (counter_state 1) = Inr (Some ?j)" by code_simp
  have "\<not> covers_cfg_case no_predicates no_check (counter_state 0) ?j" by code_simp
  moreover have "st_value ?j 0 = Some (AVU64 \<lparr>iv_lower = 0, iv_upper = 9\<rparr>)" by code_simp
  moreover have "st_ok ?j" using loop_head_sound [OF ok, of no_predicates no_check "[10]"] run by blast
  ultimately show ?thesis using run by blast
qed

end
