(* ===== verification/Disjoint_Sound.thy ===== *)
theory Disjoint_Sound
  imports Query_Sound Resource_Sound
begin

text \<open>
  Disjointness of byte ranges: the order and index rules, and the reductions of a range on two roots to ranges on one
  (\<open>disjoint_same_allocation\<close>, \<open>band_disjointness\<close> and \<open>band\<close> in \<open>src/src/verifier/relation/range.rs\<close>). A \<open>Proven\<close>
  pair shares no byte; a \<open>Refuted\<close> pair overlaps unless one of the two is empty. Then the properties of the queries
  and of their journal.
\<close>

section \<open>Disjointness\<close>

definition apart :: "u64 \<Rightarrow> u64 \<Rightarrow> u64 \<Rightarrow> u64 \<Rightarrow> bool" where
  "apart s e s' e' = (e \<le> s' \<or> e' \<le> s \<or> e \<le> s \<or> e' \<le> s')"

definition apart_right :: "obligation_status \<Rightarrow> u64 \<Rightarrow> u64 \<Rightarrow> u64 \<Rightarrow> u64 \<Rightarrow> bool" where
  "apart_right status s e s' e' =
     ((status = Proven \<longrightarrow> apart s e s' e') \<and> (status = Refuted \<longrightarrow> \<not> e \<le> s' \<and> \<not> e' \<le> s))"

definition range_at :: "machine \<Rightarrow> abstract_byte_range \<Rightarrow> u64 \<Rightarrow> u64 \<Rightarrow> bool" where
  "range_at c r s e = (range_exprs_wf r \<and> abr_holds r (mc_env c, s, e))"

lemma apart_right_Unknown [simp]: "apart_right Unknown s e s' e'"
  by (simp add: apart_right_def)

lemma apart_enclosed:
  "apart S E S' E' \<Longrightarrow> S \<le> s \<Longrightarrow> e \<le> E \<Longrightarrow> S' \<le> s' \<Longrightarrow> e' \<le> E' \<Longrightarrow> apart s e s' e'"
  unfolding apart_def by (meson order_trans)

lemma either_order_right:
  "verdict_right p (e \<le> s') \<Longrightarrow> verdict_right q (e' \<le> s) \<Longrightarrow> apart_right (either_order p q) s e s' e'"
  by (auto simp: either_order_def verdict_right_def apart_right_def apart_def)

lemma slots_apart:
  fixes i j k a w w' :: int
  assumes "i \<noteq> j" and "0 < k" and "w \<le> k" and "w' \<le> k"
  shows "a + k * i + w \<le> a + k * j \<or> a + k * j + w' \<le> a + k * i"
proof -
  have "k * i + k \<le> k * j" if "i < j" using mult_left_mono [of "i + 1" j k] that assms(2) by (simp add: algebra_simps)
  moreover have "k * j + k \<le> k * i" if "j < i" using mult_left_mono [of "j + 1" i k] that assms(2) by (simp add: algebra_simps)
  ultimately show ?thesis using assms by (cases "i < j") auto
qed

lemma slot_indices_apart:
  assumes "slot_indices a b x y = Some (i, j)"
    and "ae_den (mc_env c) a = uint s" and "ae_den (mc_env c) b = uint e"
    and "ae_den (mc_env c) x = uint s'" and "ae_den (mc_env c) y = uint e'"
  shows "uint (mc_word c i) \<noteq> uint (mc_word c j) \<Longrightarrow> apart s e s' e'"
    and "uint (mc_word c i) = uint (mc_word c j) \<Longrightarrow> \<not> e \<le> s' \<and> \<not> e' \<le> s"
proof -
  obtain lw rw where some: "ae_single_root a = Some i" "ae_single_root x = Some j"
      "u64_checked_sub (ae_addend b) (ae_addend a) = Some lw" "u64_checked_sub (ae_addend y) (ae_addend x) = Some rw"
    and guard: "ae_scale a > 0 \<and> ae_scale a = ae_scale x \<and> ae_addend a = ae_addend x \<and>
             ae_single_root a = ae_single_root b \<and> ae_scale a = ae_scale b \<and>
             ae_single_root x = ae_single_root y \<and> ae_scale x = ae_scale y \<and>
             1 \<le> lw \<and> lw \<le> ae_scale a \<and> 1 \<le> rw \<and> rw \<le> ae_scale a"
    using assms(1) unfolding slot_indices_def
    by (cases "ae_single_root a"; cases "ae_single_root x"; cases "u64_checked_sub (ae_addend b) (ae_addend a)";
        cases "u64_checked_sub (ae_addend y) (ae_addend x)"; simp only: prod.case option.case option.distinct option.inject prod.inject split: if_split_asm; blast)
  have h: "ae_single_root b = Some i" "ae_single_root y = Some j" "ae_addend x = ae_addend a" "ae_scale b = ae_scale a"
      "ae_scale x = ae_scale a" "ae_scale y = ae_scale a"
    using guard some(1,2) by metis+
  have w: "uint lw = uint (ae_addend b) - uint (ae_addend a)" "uint rw = uint (ae_addend y) - uint (ae_addend x)"
    using some(3,4) by (auto dest!: checked_arith)
  have k: "0 < uint (ae_scale a)" "1 \<le> uint lw" "uint lw \<le> uint (ae_scale a)" "1 \<le> uint rw" "uint rw \<le> uint (ae_scale a)"
    using guard unfolding word_le_def word_less_def unsigned_1 unsigned_0 by blast+
  have den: "uint s = uint (ae_addend a) + uint (ae_scale a) * uint (mc_word c i)"
    using assms(2) unfolding single_root_den [OF some(1)] mc_env_def by simp
  have "uint e = uint (ae_addend b) + uint (ae_scale a) * uint (mc_word c i)"
    using assms(3) unfolding single_root_den [OF h(1)] mc_env_def h(4) by simp
  then have den': "uint e = uint s + uint lw" using den w(1) by linarith
  have dens: "uint s' = uint (ae_addend a) + uint (ae_scale a) * uint (mc_word c j)"
    using assms(4) unfolding single_root_den [OF some(2)] mc_env_def h(3,5) by simp
  have "uint e' = uint (ae_addend y) + uint (ae_scale a) * uint (mc_word c j)"
    using assms(5) unfolding single_root_den [OF h(2)] mc_env_def h(6) by simp
  then have dens': "uint e' = uint s' + uint rw" using dens w(2) unfolding h(3) by linarith
  show "uint (mc_word c i) \<noteq> uint (mc_word c j) \<Longrightarrow> apart s e s' e'"
    using slots_apart [OF _ k(1,3,5), of "uint (mc_word c i)" "uint (mc_word c j)" "uint (ae_addend a)"]
    unfolding apart_def word_le_def den' dens' den dens by blast
  show "uint (mc_word c i) = uint (mc_word c j) \<Longrightarrow> \<not> e \<le> s' \<and> \<not> e' \<le> s"
    using den dens den' dens' k(2,4) unfolding word_le_def by (simp del: One_nat_def)
qed

lemma index_separation_right:
  assumes "sound st c" and "apart_right status s e s' e'"
    and "index_separation st (slot_indices a b x y) limits status = (status', index, stop)"
    and "ae_den (mc_env c) a = uint s" and "ae_den (mc_env c) b = uint e"
    and "ae_den (mc_env c) x = uint s'" and "ae_den (mc_env c) y = uint e'"
  shows "apart_right status' s e s' e'"
proof (cases "status = Unknown \<and> slot_indices a b x y \<noteq> None")
  case True
  then obtain i j where ij: "slot_indices a b x y = Some (i, j)" by auto
  then have "compare_observed st NotEqual (relation_word i) (relation_word j) limits = (status', index, stop)"
    using True assms(3) by (simp add: index_separation_def)
  from compare_observed_right [OF assms(1) this]
  show ?thesis
    using slot_indices_apart [OF ij assms(4-7)] by (auto simp: verdict_right_def apart_right_def relation_word_def)
qed (use assms(2,3) in \<open>auto simp: index_separation_def split: if_splits option.splits\<close>)

section \<open>Reductions\<close>

lemma reading_holds: "sound st c \<Longrightarrow> within_intervals (\<lambda>v. word_reading (st_value st v)) (mc_env c)"
  using word_reading_holds [of st c] by (fastforce simp: within_intervals_def mc_env_def iv_contains_def word_le_def)

lemma evaluated_holds:
  assumes "sound st c" and "evaluated st e = Some b"
  shows "\<exists>v. bound_holds (mc_env c) b v"
    and "uint (iv_lower (sb_interval b)) \<le> ae_den (mc_env c) e \<and> ae_den (mc_env c) e \<le> uint (iv_upper (sb_interval b))"
proof -
  obtain i where i: "ae_interval (\<lambda>v. word_reading (st_value st v)) e = Some i" "b = \<lparr>sb_expression = e, sb_interval = i\<rparr>"
    using assms(2) by (auto simp: evaluated_def)
  obtain l u where lu: "Affine_Expression.interval_terms (\<lambda>v. word_reading (st_value st v)) (ae_flat e) (ae_addend e, ae_addend e) = Some (l, u)"
      "i = \<lparr>iv_lower = l, iv_upper = u\<rparr>"
    using i(1) by (auto simp: ae_interval_def Option.bind_eq_Some_conv iv_new_ok)
  have range: "uint l \<le> ae_den (mc_env c) e" "ae_den (mc_env c) e \<le> uint u"
    using Affine_Expression.interval_terms_bounds [OF lu(1) reading_holds [OF assms(1)]] by (simp_all add: ae_den_def)
  then show "uint (iv_lower (sb_interval b)) \<le> ae_den (mc_env c) e \<and> ae_den (mc_env c) e \<le> uint (iv_upper (sb_interval b))"
    by (simp add: i(2) lu(2))
  have "uint (word_of_int (ae_den (mc_env c) e) :: u64) = ae_den (mc_env c) e"
    using order_trans [OF uint_ge_0 range(1)] range(2) uint_u64_bound [of u] by (simp add: uint_word_of_int take_bit_int_eq_self)
  then have "bound_holds (mc_env c) b (word_of_int (ae_den (mc_env c) e))"
    using range by (simp add: bound_holds_def i(2) lu(2) iv_contains_def word_le_def)
  then show "\<exists>v. bound_holds (mc_env c) b v" by blast
qed

lemma cancelled_shift:
  assumes "cancel_common a x = Some (aa, xx)" and "cancel_common b y = Some (bb, yy)"
    and "same_terms a b" and "same_terms x y"
  shows "ae_den \<rho> a - ae_den \<rho> aa = ae_den \<rho> b - ae_den \<rho> bb" and "ae_den \<rho> x - ae_den \<rho> xx = ae_den \<rho> y - ae_den \<rho> yy"
    and "ae_den \<rho> a - ae_den \<rho> aa = ae_den \<rho> x - ae_den \<rho> xx"
    and "ae_wf aa \<and> ae_wf xx \<and> ae_wf bb \<and> ae_wf yy"
proof -
  obtain l r where lr: "cancel_terms (ae_flat a) (ae_flat x) = (l, r)" by force
  have flat: "ae_flat b = ae_flat a" "ae_flat y = ae_flat x" using assms(3,4) by (simp_all add: same_terms_def)
  have new: "from_terms (ae_addend a) l = Some aa" "from_terms (ae_addend x) r = Some xx"
      "from_terms (ae_addend b) l = Some bb" "from_terms (ae_addend y) r = Some yy"
    using assms(1,2) lr by (auto simp: cancel_common_def flat split: option.splits)
  note den = new [THEN from_terms_den, of \<rho>]
  show "ae_den \<rho> a - ae_den \<rho> aa = ae_den \<rho> b - ae_den \<rho> bb" "ae_den \<rho> x - ae_den \<rho> xx = ae_den \<rho> y - ae_den \<rho> yy"
    using den by (simp_all add: ae_den_def [of _ a] ae_den_def [of _ b] ae_den_def [of _ x] ae_den_def [of _ y] flat)
  show "ae_den \<rho> a - ae_den \<rho> aa = ae_den \<rho> x - ae_den \<rho> xx"
    using den cancel_terms_sum [OF lr, of \<rho>] by (simp add: ae_den_def [of _ a] ae_den_def [of _ x])
  show "ae_wf aa \<and> ae_wf xx \<and> ae_wf bb \<and> ae_wf yy" using den by blast
qed

lemma from_bounds_at:
  "bound_holds (mc_env c) p u \<Longrightarrow> bound_holds (mc_env c) q v \<Longrightarrow> bound_wf p \<Longrightarrow> bound_wf q \<Longrightarrow> range_at c (from_bounds p q) u v"
  by (simp add: range_at_def from_bounds_holds from_bounds_wf)

lemma range_at_bounds:
  assumes "range_at c r s e" and "abr_bounds r = Some (a, b)"
  shows "bound_holds (mc_env c) a s" and "bound_holds (mc_env c) b e" and "bound_wf a" and "bound_wf b"
    and "ae_den (mc_env c) (sb_expression a) = uint s" and "ae_den (mc_env c) (sb_expression b) = uint e"
proof -
  have r: "range_exprs_wf r" "abr_holds r (mc_env c, s, e)" using assms(1) by (simp_all add: range_at_def)
  note bounds = range_bounds_hold [OF assms(2) r]
  then show "bound_holds (mc_env c) a s" "bound_holds (mc_env c) b e" "bound_wf a" "bound_wf b" by blast+
  show "ae_den (mc_env c) (sb_expression a) = uint s" "ae_den (mc_env c) (sb_expression b) = uint e"
    using bounds(1,2) by (simp_all add: bound_holds_def)
qed

lemma translated_ranges_at:
  assumes "sound st c" and "translated_ranges st aa bb xx yy = Some (l, r)"
    and "ae_wf aa \<and> ae_wf xx \<and> ae_wf bb \<and> ae_wf yy"
  shows "\<exists>S E S' E'. range_at c l S E \<and> range_at c r S' E' \<and>
    uint S = ae_den (mc_env c) aa \<and> uint E = ae_den (mc_env c) bb \<and> uint S' = ae_den (mc_env c) xx \<and> uint E' = ae_den (mc_env c) yy"
proof -
  obtain a' b' x' y' where h: "evaluated st aa = Some a'" "evaluated st bb = Some b'" "evaluated st xx = Some x'" "evaluated st yy = Some y'"
    and lr: "l = from_bounds a' b'" "r = from_bounds x' y'"
    using assms(2) by (auto simp: translated_ranges_def Option.bind_eq_Some_conv)
  obtain S E S' E' where holds: "bound_holds (mc_env c) a' S" "bound_holds (mc_env c) b' E" "bound_holds (mc_env c) x' S'" "bound_holds (mc_env c) y' E'"
    using h [THEN evaluated_holds(1) [OF assms(1)]] by blast
  have wf: "bound_wf a'" "bound_wf b'" "bound_wf x'" "bound_wf y'"
    using assms(3) h [THEN evaluated_expression] by (simp_all add: bound_wf_def)
  have "range_at c l S E" "range_at c r S' E'" using from_bounds_at holds wf lr by simp_all
  moreover have "uint S = ae_den (mc_env c) aa" "uint E = ae_den (mc_env c) bb" "uint S' = ae_den (mc_env c) xx" "uint E' = ae_den (mc_env c) yy"
    using holds h [THEN evaluated_expression] by (simp_all add: bound_holds_def)
  ultimately show ?thesis by blast
qed

lemma shifted_apart:
  fixes k :: int
  assumes "apart S E S' E'" and "uint s = uint S + k" and "uint e = uint E + k" and "uint s' = uint S' + k" and "uint e' = uint E' + k"
  shows "apart s e s' e'"
  using assms by (auto simp: apart_def word_le_def)

lemma root_term_sum:
  assumes "ae_wf e" and "(root, scale) \<in> set (ae_flat e)"
  shows "ae_den \<rho> e = uint scale * \<rho> root + ae_den (\<rho>(root := 0)) e"
proof -
  have gen: "terms_sum \<rho> ts = uint scale * \<rho> root + terms_sum (\<rho>(root := 0)) ts"
    if "sorted_wrt (<) (map fst ts)" "(root, scale) \<in> set ts" for ts
    using that
  proof (induction ts)
    case (Cons t ts)
    have other: "terms_sum \<rho> us = terms_sum (\<rho>(root := 0)) us" if "root \<notin> fst ` set us" for us
      using that by (induction us) auto
    show ?case
    proof (cases "t = (root, scale)")
      case True
      then have "root \<notin> fst ` set ts" using Cons.prems(1) by auto
      then show ?thesis using other [of ts] True by (simp add: fun_upd_def)
    next
      case False
      then have "(root, scale) \<in> set ts" "fst t \<noteq> root" using Cons.prems by fastforce+
      then show ?thesis using Cons.IH Cons.prems(1) by (cases t) simp
    qed
  qed simp
  show ?thesis
    using gen [of "ae_flat e"] assms by (simp add: ae_den_def ae_wf_def canonical_terms_def bt_sorted_def)
qed

lemma anchored_band_at:
  assumes "sound st c" and "anchored_band st root scale low high = Some band"
  shows "\<exists>S E. range_at c band S E \<and>
    uint S = uint scale * mc_env c root + uint low \<and> uint E = uint scale * mc_env c root + uint high"
proof -
  obtain anchor first start second end' where anchor: "ae_checked_scale (ae_identity root) scale = Some anchor"
      "ae_checked_add_constant anchor low = Some first" "ae_checked_add_constant anchor high = Some second"
    and bounds: "evaluated st first = Some start" "evaluated st second = Some end'" "band = from_bounds start end'"
    using assms(2) by (auto simp: anchored_band_def Option.bind_eq_Some_conv)
  have "ae_wf (ae_identity root)" "ae_den (mc_env c) (ae_identity root) = mc_env c root"
    by (simp_all add: ae_identity_def ae_wf_def ae_den_def ae_terms_def canonical_terms_def bt_sorted_def)
  then have "ae_wf anchor" "ae_den (mc_env c) anchor = uint scale * mc_env c root"
    using ae_checked_scale_den [OF anchor(1)] by simp_all
  then have e: "ae_wf first \<and> ae_den (mc_env c) first = uint scale * mc_env c root + uint low"
      "ae_wf second \<and> ae_den (mc_env c) second = uint scale * mc_env c root + uint high"
    using ae_add_constant_den [OF anchor(2)] ae_add_constant_den [OF anchor(3)] by simp_all
  obtain S E where holds: "bound_holds (mc_env c) start S" "bound_holds (mc_env c) end' E"
    using bounds(1,2) [THEN evaluated_holds(1) [OF assms(1)]] by blast
  have wf: "bound_wf start" "bound_wf end'" using e bounds(1,2) [THEN evaluated_expression] by (simp_all add: bound_wf_def)
  have "range_at c band S E" unfolding bounds(3) by (rule from_bounds_at [OF holds wf])
  moreover have "uint S = uint scale * mc_env c root + uint low" "uint E = uint scale * mc_env c root + uint high"
    using holds e bounds(1,2) [THEN evaluated_expression] by (simp_all add: bound_holds_def)
  ultimately show ?thesis by blast
qed

lemma range_band_total:
  assumes "range_at c r s e"
  shows "range_band st r root scale \<noteq> None"
proof (cases "abr_bounds r")
  case (Some ab)
  obtain a b where ab: "ab = (a, b)" by force
  have "ae_wf (sb_expression a)" "ae_wf (sb_expression b)"
    using range_at_bounds(3,4) [OF assms Some [unfolded ab]] by (simp_all add: bound_wf_def)
  then show ?thesis
    using without_root_total [of "sb_expression a" root] without_root_total [of "sb_expression b" root]
    by (auto simp: range_band_def Some ab split: option.split)
qed (simp add: range_band_def)

lemma range_band_at:
  assumes "sound st c" and "range_at c r s e" and "abr_bounds r = Some (a, b)"
    and "(root, scale) \<in> set (ae_flat (sb_expression a))" and "range_band st r root scale = Some (Some band)"
  shows "\<exists>S E. range_at c band S E \<and> S \<le> s \<and> e \<le> E"
proof -
  note at = range_at_bounds [OF assms(2,3)]
  let ?\<rho> = "mc_env c"
  have same: "same_terms (sb_expression a) (sb_expression b)" using assms(3,5) by (auto simp: range_band_def split: if_splits)
  obtain a' low where a': "without_root (sb_expression a) root = Some a'" "evaluated st a' = Some low"
    using assms(3,5) same by (auto simp: range_band_def split: option.splits)
  obtain b' high where b': "without_root (sb_expression b) root = Some b'" "evaluated st b' = Some high"
      "anchored_band st root scale (iv_lower (sb_interval low)) (iv_upper (sb_interval high)) = Some band"
    using assms(3,5) same a' by (auto simp: range_band_def Option.bind_eq_Some_conv split: option.splits)
  obtain S E where SE: "range_at c band S E" "uint S = uint scale * ?\<rho> root + uint (iv_lower (sb_interval low))"
      "uint E = uint scale * ?\<rho> root + uint (iv_upper (sb_interval high))"
    using anchored_band_at [OF assms(1) b'(3)] by blast
  have wf: "ae_wf (sb_expression a)" "ae_wf (sb_expression b)" using at(3,4) by (simp_all add: bound_wf_def)
  have rest: "ae_den ?\<rho> a' = ae_den (?\<rho>(root := 0)) (sb_expression a)" "ae_den ?\<rho> b' = ae_den (?\<rho>(root := 0)) (sb_expression b)"
    using without_root_total [OF wf(1), of root] without_root_total [OF wf(2), of root] a'(1) b'(1) by auto
  have "(root, scale) \<in> set (ae_flat (sb_expression b))" using assms(4) same by (simp add: same_terms_def)
  then have den: "uint s = uint scale * ?\<rho> root + ae_den ?\<rho> a'" "uint e = uint scale * ?\<rho> root + ae_den ?\<rho> b'"
    using root_term_sum [OF wf(1) assms(4), of ?\<rho>] root_term_sum [OF wf(2), of root scale ?\<rho>] rest at(5,6) by simp_all
  have "uint S \<le> uint s" "uint e \<le> uint E"
    using SE(2,3) den evaluated_holds(2) [OF assms(1) a'(2)] evaluated_holds(2) [OF assms(1) b'(2)] by linarith+
  then show ?thesis using SE(1) by (auto simp: word_le_def)
qed

section \<open>The three procedures together\<close>

definition bands_right :: "(range_reduction option \<times> range_reduction list) option \<Rightarrow> u64 \<Rightarrow> u64 \<Rightarrow> u64 \<Rightarrow> u64 \<Rightarrow> bool" where
  "bands_right answer s e s' e' = (\<exists>bands failed. answer = Some (bands, failed) \<and> (bands \<noteq> None \<longrightarrow> apart s e s' e'))"

definition disjoint_right :: "(obligation_status \<times> disjoint_evidence option) option \<Rightarrow> u64 \<Rightarrow> u64 \<Rightarrow> u64 \<Rightarrow> u64 \<Rightarrow> bool" where
  "disjoint_right answer s e s' e' = (\<exists>status evidence. answer = Some (status, evidence) \<and> apart_right status s e s' e')"

lemma disjoint_step_right:
  assumes "sound st c" and "range_at c left s e" and "range_at c right s' e'"
    and "bands_right (band_disjointness st limits left right) s e s' e'"
  shows "disjoint_right (disjoint_same st limits left right) s e s' e'"
proof (cases "abr_bounds left = None \<or> abr_bounds right = None")
  case False
  then obtain a b x y where ab: "abr_bounds left = Some (a, b)" and xy: "abr_bounds right = Some (x, y)" by auto
  note l = range_at_bounds [OF assms(2) ab] and r = range_at_bounds [OF assms(3) xy]
  show ?thesis
  proof (cases "sb_expression a = sb_expression b \<or> sb_expression x = sb_expression y")
    case True
    then have "s = e \<or> s' = e'" using l(5,6) r(5,6) by (auto intro: word_uint_eqI)
    then show ?thesis using True ab xy by (auto simp: disjoint_right_def apart_right_def apart_def)
  next
    case different: False
    obtain p where p: "ordered_bounds st b x limits = Some p" "verdict_right (be_status p) (e \<le> s')"
      using ordered_bounds_right [OF assms(1) l(4) r(3) l(2) r(1)] by blast
    obtain q where q: "ordered_bounds st y a limits = Some q" "verdict_right (be_status q) (e' \<le> s)"
      using ordered_bounds_right [OF assms(1) r(4) l(3) r(2) l(1)] by blast
    obtain status index stop where sep: "index_separation st (slot_indices (sb_expression a) (sb_expression b) (sb_expression x) (sb_expression y))
          limits (either_order (be_status p) (be_status q)) = (status, index, stop)"
      using prod_cases3 by blast
    have right: "apart_right status s e s' e'"
      by (rule index_separation_right [OF assms(1) either_order_right [OF p(2) q(2)] sep l(5,6) r(5,6)])
    obtain bands failed where bands: "band_disjointness st limits left right = Some (bands, failed)" "bands \<noteq> None \<longrightarrow> apart s e s' e'"
      using assms(4) by (auto simp: bands_right_def)
    show ?thesis
      using different ab xy p(1) q(1) sep right bands
      by (cases "status = Unknown"; cases "bands = None") (auto simp: disjoint_right_def apart_right_def Let_def simp del: band_disjointness.simps)
  qed
qed (auto simp: disjoint_right_def split: option.split)

lemma pairs_step_right:
  assumes "sound st c" and "range_at c left s e" and "range_at c right s' e'"
    and "abr_bounds left = Some (a, b)" and "abr_bounds right = Some (x, y)"
    and "(i, k) \<in> set (ae_flat (sb_expression a))" and "(j, t) \<in> set (ae_flat (sb_expression x))"
    and same: "\<And>l r S E S' E'. k = t \<Longrightarrow> range_band st left i k = Some (Some l) \<Longrightarrow> range_band st right j t = Some (Some r) \<Longrightarrow>
      range_at c l S E \<Longrightarrow> range_at c r S' E' \<Longrightarrow> disjoint_right (disjoint_same st limits l r) S E S' E'"
    and rest: "\<And>failed. bands_right (band_pairs st limits left right pairs failed) s e s' e'"
  shows "bands_right (band_pairs st limits left right (((i, k), (j, t)) # pairs) failed) s e s' e'"
proof (cases "k = t")
  case True
  obtain bl br where bl: "range_band st left i k = Some bl" and br: "range_band st right j t = Some br"
    using range_band_total [OF assms(2), of st i k] range_band_total [OF assms(3), of st j t] by auto
  show ?thesis
  proof (cases "bl = None \<or> br = None")
    case True
    then show ?thesis using rest bl br \<open>k = t\<close> by (auto split: option.split)
  next
    case False
    then obtain l r where lr: "bl = Some l" "br = Some r" by auto
    obtain S E where left: "range_at c l S E" "S \<le> s" "e \<le> E"
      using range_band_at [OF assms(1,2,4,6) bl [unfolded lr]] by blast
    obtain S' E' where right: "range_at c r S' E'" "S' \<le> s'" "e' \<le> E'"
      using range_band_at [OF assms(1,3,5,7) br [unfolded lr]] by blast
    obtain status evidence where d: "disjoint_same st limits l r = Some (status, evidence)" "apart_right status S E S' E'"
      using same [OF \<open>k = t\<close> bl [unfolded lr] br [unfolded lr] left(1) right(1)] by (auto simp: disjoint_right_def)
    show ?thesis
    proof (cases "status = Proven")
      case True
      then have "apart s e s' e'" using d(2) apart_enclosed [OF _ left(2,3) right(2,3)] by (simp add: apart_right_def)
      then show ?thesis using True d(1) bl br lr \<open>k = t\<close> by (simp add: bands_right_def del: disjoint_same.simps)
    next
      case False
      then show ?thesis using rest d(1) bl br lr \<open>k = t\<close> by (simp del: disjoint_same.simps)
    qed
  qed
qed (simp add: rest)

lemma band_step_right:
  assumes "sound st c" and "range_at c left s e" and "range_at c right s' e'"
    and same: "\<And>l r S E S' E'. range_at c l S E \<Longrightarrow> range_at c r S' E' \<Longrightarrow>
      (range_several_roots left \<or> range_several_roots right) \<Longrightarrow> \<not> (range_several_roots l \<or> range_several_roots r) \<Longrightarrow>
      disjoint_right (disjoint_same st limits l r) S E S' E'"
    and pairs: "\<And>a b x y failed. abr_bounds left = Some (a, b) \<Longrightarrow> abr_bounds right = Some (x, y) \<Longrightarrow>
      (range_several_roots left \<or> range_several_roots right) \<Longrightarrow>
      bands_right (band_pairs st limits left right (shared_pairs (sb_expression a) (sb_expression x)) failed) s e s' e'"
  shows "bands_right (band_disjointness st limits left right) s e s' e'"
proof (cases "abr_bounds left = None \<or> abr_bounds right = None \<or> \<not> (range_several_roots left \<or> range_several_roots right)")
  case False
  then obtain a b x y where ab: "abr_bounds left = Some (a, b)" and xy: "abr_bounds right = Some (x, y)"
    and several: "range_several_roots left \<or> range_several_roots right" by auto
  note l = range_at_bounds [OF assms(2) ab] and r = range_at_bounds [OF assms(3) xy]
  note tail = pairs [OF ab xy several]
  have wf: "ae_wf (sb_expression a)" "ae_wf (sb_expression b)" "ae_wf (sb_expression x)" "ae_wf (sb_expression y)"
    using l(3,4) r(3,4) by (simp_all add: bound_wf_def)
  obtain aa xx where ax: "cancel_common (sb_expression a) (sb_expression x) = Some (aa, xx)"
    using cancel_common_total [OF wf(1,3)] by blast
  obtain bb yy where by': "cancel_common (sb_expression b) (sb_expression y) = Some (bb, yy)"
    using cancel_common_total [OF wf(2,4)] by blast
  note unfold_bands = band_disjointness.simps ab xy ax by' option.case prod.case
  show ?thesis
  proof (cases "same_terms (sb_expression a) (sb_expression b) \<and> same_terms (sb_expression x) (sb_expression y) \<and>
      \<not> list_ex several_roots [aa, xx, bb, yy]")
    case True
    note shift = cancelled_shift(1-3) [OF ax by', of "mc_env c"] and wf' = cancelled_shift(4) [OF ax by']
    show ?thesis
    proof (cases "translated_ranges st aa bb xx yy")
      case None
      then show ?thesis using True several by (simp add: unfold_bands bands_right_def del: disjoint_same.simps)
    next
      case (Some lr)
      obtain u v where uv: "lr = (u, v)" by force
      obtain S E S' E' where at: "range_at c u S E" "range_at c v S' E'"
        and den: "uint S = ae_den (mc_env c) aa" "uint E = ae_den (mc_env c) bb" "uint S' = ae_den (mc_env c) xx" "uint E' = ae_den (mc_env c) yy"
        using translated_ranges_at [OF assms(1) Some [unfolded uv] wf'] True by blast
      have "\<not> (range_several_roots u \<or> range_several_roots v)"
        using translated_ranges_single [OF Some [unfolded uv]] True by simp
      then obtain status evidence where d: "disjoint_same st limits u v = Some (status, evidence)" "apart_right status S E S' E'"
        using same [OF at several] by (auto simp: disjoint_right_def)
      have close: "apart s e s' e'" if "apart S E S' E'"
      proof (rule shifted_apart [OF that])
        let ?k = "ae_den (mc_env c) (sb_expression a) - ae_den (mc_env c) aa"
        show "uint s = uint S + ?k" using den l(5) by simp
        show "uint e = uint E + ?k" using den l(6) shift(1) True by simp
        show "uint s' = uint S' + ?k" using den r(5) shift(3) True by simp
        show "uint e' = uint E' + ?k" using den r(6) shift(2,3) True by simp
      qed
      show ?thesis
      proof (cases "status = Proven")
        case True
        then have "apart s e s' e'" using d(2) close by (simp add: apart_right_def)
        then show ?thesis
          using True \<open>same_terms _ _ \<and> _\<close> several Some uv d(1) by (simp add: unfold_bands bands_right_def del: disjoint_same.simps)
      next
        case False
        then show ?thesis
          using tail \<open>same_terms _ _ \<and> _\<close> several Some uv d(1) by (simp add: unfold_bands del: disjoint_same.simps)
      qed
    qed
  next
    case False
    then show ?thesis using tail several by (simp only: unfold_bands if_False if_True simp_thms)
  qed
qed (auto simp: bands_right_def split: option.split)

lemma single_root_right:
  assumes "sound st c" and "range_at c left s e" and "range_at c right s' e'"
    and "\<not> (range_several_roots left \<or> range_several_roots right)"
  shows "disjoint_right (disjoint_same st limits left right) s e s' e'"
proof (rule disjoint_step_right [OF assms(1-3)])
  show "bands_right (band_disjointness st limits left right) s e s' e'"
    by (rule band_step_right [OF assms(1-3)]) (use assms(4) in blast)+
qed

lemma band_pairs_right:
  assumes "sound st c" and "range_at c left s e" and "range_at c right s' e'"
    and "abr_bounds left = Some (a, b)" and "abr_bounds right = Some (x, y)"
  shows "set pairs \<subseteq> set (shared_pairs (sb_expression a) (sb_expression x)) \<Longrightarrow>
    bands_right (band_pairs st limits left right pairs failed) s e s' e'"
proof (induction pairs arbitrary: failed)
  case Nil
  then show ?case by (simp add: bands_right_def)
next
  case (Cons p pairs)
  obtain i k j t where p: "p = ((i, k), (j, t))" by (metis surj_pair)
  have mem: "(i, k) \<in> set (ae_flat (sb_expression a))" "(j, t) \<in> set (ae_flat (sb_expression x))"
    using Cons.prems by (auto simp: p shared_pairs_def)
  show ?case
    unfolding p
  proof (rule pairs_step_right [OF assms mem])
    show "bands_right (band_pairs st limits left right pairs failed) s e s' e'" for failed using Cons by simp
    show "disjoint_right (disjoint_same st limits l r) S E S' E'"
      if "range_band st left i k = Some (Some l)" "range_band st right j t = Some (Some r)" "range_at c l S E" "range_at c r S' E'"
      for l r S E S' E'
      using single_root_right [OF assms(1) that(3,4)] range_band_single [OF that(1)] range_band_single [OF that(2)] by blast
  qed
qed

lemma disjoint_same_right:
  assumes "sound st c" and "range_at c left s e" and "range_at c right s' e'"
  shows "disjoint_right (disjoint_same st limits left right) s e s' e'"
proof (rule disjoint_step_right [OF assms])
  show "bands_right (band_disjointness st limits left right) s e s' e'"
    using single_root_right [OF assms(1)] band_pairs_right [OF assms]
    by (intro band_step_right [OF assms]) blast+
qed

section \<open>Queries with their provenance\<close>

definition range_bytes :: "abstract_allocation_id \<Rightarrow> u64 \<Rightarrow> u64 \<Rightarrow> (abstract_allocation_id \<times> int) set" where
  "range_bytes aid s e = {aid} \<times> {i. uint s \<le> i \<and> i < uint e}"

definition disjoint_verdict :: "obligation_status \<Rightarrow> abstract_allocation_id \<Rightarrow> u64 \<Rightarrow> u64 \<Rightarrow> abstract_allocation_id \<Rightarrow> u64 \<Rightarrow> u64 \<Rightarrow> bool" where
  "disjoint_verdict status a s e b s' e' =
     ((status = Proven \<longrightarrow> range_bytes a s e \<inter> range_bytes b s' e' = {}) \<and>
      (status = Refuted \<longrightarrow> a = b \<and> s' < e \<and> s < e'))"

lemma apart_bytes: "apart s e s' e' \<Longrightarrow> range_bytes a s e \<inter> range_bytes b s' e' = {}"
  by (auto simp: apart_def range_bytes_def word_le_def)

lemma disjoint_ranges_right:
  assumes "sound st c" and "range_at c left s e" and "range_at c right s' e'" and "prov_holds p a" and "prov_holds q b"
  shows "\<exists>status evidence. disjoint_ranges st p left q right limits = Some (status, evidence) \<and> disjoint_verdict status a s e b s' e'"
proof (cases "p = ProvKnown a \<and> q = ProvKnown b \<and> a = b")
  case True
  then show ?thesis
    using disjoint_same_right [OF assms(1-3), of limits] apart_bytes
    by (auto simp: disjoint_ranges_def disjoint_right_def apart_right_def disjoint_verdict_def simp del: disjoint_same.simps)
next
  case False
  then have "disjoint_ranges st p left q right limits = Some (Unknown, None) \<or>
      (disjoint_ranges st p left q right limits = Some (Proven, None) \<and> a \<noteq> b)"
    using assms(4,5) by (cases p; cases q) (auto simp: disjoint_ranges_def simp del: disjoint_same.simps)
  then show ?thesis by (auto simp: disjoint_verdict_def range_bytes_def)
qed

lemma disjoint_unknown_range:
  assumes "prov_holds p a" and "prov_holds q b" and "l = RUnknown \<or> r = RUnknown"
  shows "disjoint_ranges st p l q r limits = Some (Unknown, None) \<or> (disjoint_ranges st p l q r limits = Some (Proven, None) \<and> a \<noteq> b)"
  using assms by (cases p; cases q) (auto simp: disjoint_ranges_def split: option.split)

lemma non_overlapping_right:
  assumes "sound st c" and "ptr_holds p d" and "ptr_holds q t" and "ptr_ok p" and "ptr_ok q"
    and "cp_env d = mc_env c" and "cp_env t = mc_env c"
  shows "\<exists>status evidence. non_overlapping st p q width limits = Some (status, evidence) \<and>
    (status = Proven \<longrightarrow> accessed d width \<inter> accessed t width = {}) \<and>
    (status = Refuted \<longrightarrow> accessed d width \<inter> accessed t width \<noteq> {})"
proof (cases "object_non_overlap_status p q width = Unknown")
  case False
  then show ?thesis
    using object_non_overlap_right [OF assms(2,3), of width] assms(6,7) by (auto simp: non_overlapping_def)
next
  case unknown: True
  have width: "0 < uint width"
  proof -
    have "width \<noteq> 0" using unknown by (auto simp: object_non_overlap_status_def)
    then show ?thesis by (simp add: uint_u64_pos_iff)
  qed
  have prov: "prov_holds (ap_provenance p) (cp_allocation d)" "prov_holds (ap_provenance q) (cp_allocation t)"
    using assms(2,3) by (simp_all add: ptr_holds_def)
  have answer: "non_overlapping st p q width limits =
      disjoint_ranges st (ap_provenance p) (access_range p width) (ap_provenance q) (access_range q width) limits"
    by (simp add: non_overlapping_def unknown)
  show ?thesis
  proof (cases "access_range p width = RUnknown \<or> access_range q width = RUnknown")
    case True
    then show ?thesis
      using disjoint_unknown_range [OF prov True, of st limits] by (auto simp: answer accessed_def)
  next
    case False
    obtain e where e: "u64_checked_add (cp_offset d) width = Some e" "range_at c (access_range p width) (cp_offset d) e"
      using access_range_holds [OF assms(2,4), of width] False assms(6) by (auto simp: range_at_def)
    obtain e' where e': "u64_checked_add (cp_offset t) width = Some e'" "range_at c (access_range q width) (cp_offset t) e'"
      using access_range_holds [OF assms(3,5), of width] False assms(7) by (auto simp: range_at_def)
    have ends: "uint e = uint (cp_offset d) + uint width" "uint e' = uint (cp_offset t) + uint width"
      using e(1) e'(1) by (auto dest!: checked_arith)
    have bytes: "accessed d width = range_bytes (cp_allocation d) (cp_offset d) e" "accessed t width = range_bytes (cp_allocation t) (cp_offset t) e'"
      by (simp_all add: accessed_def range_bytes_def ends)
    have meet: "accessed d width \<inter> accessed t width \<noteq> {}" if "cp_allocation d = cp_allocation t" "cp_offset t < e" "cp_offset d < e'"
    proof -
      have "(cp_allocation t, max (uint (cp_offset d)) (uint (cp_offset t))) \<in> accessed d width \<inter> accessed t width"
        using that ends width by (auto simp: accessed_def word_less_def)
      then show ?thesis by blast
    qed
    show ?thesis
      using disjoint_ranges_right [OF assms(1) e(2) e'(2) prov, of limits] meet
      unfolding answer disjoint_verdict_def bytes by fast
  qed
qed

section \<open>The journal\<close>

lemma logged_status [simp]: "fst (ql_record st goal limits status witness log) = status"
  by (simp add: ql_record_def)

lemma logged_answer:
  "\<exists>status evidence. answer = Some (status, evidence) \<and> R status \<Longrightarrow>
    \<exists>status log'. map_option (\<lambda>(status, evidence). ql_record st goal limits status (W evidence) log) answer = Some (status, log') \<and> R status"
  by (auto simp: ql_record_def)

lemma unlogged_answers:
  "fst (ql_compare st comparison l r limits log) = fst (compare_observed st comparison l r limits)"
  "map_option fst (ql_ordered st lo hi limits log) = map_option be_status (ordered_bounds st lo hi limits)"
  "map_option fst (ql_contained st outer inner limits log) = map_option fst (contained_in st outer inner limits)"
  "map_option fst (ql_covers_access st outer p width limits log) = map_option fst (covers_access st outer p width limits)"
  by (simp_all add: ql_compare_def ql_ordered_def ql_contained_def ql_covers_access_def ql_record_def option.map_comp comp_def
      case_prod_unfold)

type_synonym ('d, 'l, 's) logged =
  "('d, 'l, 's) resource_state \<times> query_goal \<times> difference_limits \<times> obligation_status \<times> query_witness"

definition observation :: "('d, 'l, 's) logged \<Rightarrow> query_observation" where
  "observation q =
     (case q of (st, goal, limits, status, witness) \<Rightarrow>
        \<lparr>qo_theory = RELATION_THEORY, qo_goal = goal, qo_guard = st_path st, qo_relations = rs_premises (st_relations st),
         qo_losses = rs_losses (st_relations st), qo_limits = limits, qo_status = status,
         qo_outcome = outcome_of status witness, qo_witness = witness, qo_kernel_version = RELATION_KERNEL_VERSION\<rparr>)"

definition log_all :: "('d, 'l, 's) logged list \<Rightarrow> query_log \<Rightarrow> query_log" where
  "log_all = fold (\<lambda>(st, goal, limits, status, witness) log. snd (ql_record st goal limits status witness log))"

lemma log_all_step:
  "log_all (q # qs) log = log_all qs (if length (ql_records log) \<ge> MAX_QUERIES_PER_SITE then log\<lparr>ql_overflow := True\<rparr>
     else log\<lparr>ql_records := ql_records log @ [observation q]\<rparr>)"
  by (cases q) (simp add: log_all_def ql_record_def observation_def)

lemma log_all_result:
  "length (ql_records log) \<le> MAX_QUERIES_PER_SITE \<Longrightarrow>
    ql_records (log_all qs log) = take MAX_QUERIES_PER_SITE (ql_records log @ map observation qs) \<and>
    (ql_overflow (log_all qs log) \<longleftrightarrow> ql_overflow log \<or> length (ql_records log) + length qs > MAX_QUERIES_PER_SITE)"
proof (induction qs arbitrary: log)
  case Nil
  then show ?case by (simp add: log_all_def)
next
  case (Cons q qs)
  then show ?case
    by (cases "length (ql_records log) \<ge> MAX_QUERIES_PER_SITE") (auto simp: log_all_step take_Cons')
qed

text \<open>Logging never loses, reorders or alters a query: a site that asked at most \<open>MAX_QUERIES_PER_SITE\<close> queries publishes
  exactly their observations in order, and one that asked more publishes nothing. The recorded outcome is \<open>Proven\<close> or
  \<open>RefutedCondition\<close> exactly for the answers that say so.\<close>

theorem query_journal_exact:
  "ql_finish (log_all qs ql_default) = (if length qs \<le> MAX_QUERIES_PER_SITE then Some (map observation qs) else None) \<and>
   (\<forall>status witness. (outcome_of status witness = OutcomeProven \<longleftrightarrow> status = Proven) \<and>
     (outcome_of status witness = RefutedCondition \<longleftrightarrow> status = Refuted))"
  using log_all_result [of ql_default qs] by (auto simp: ql_finish_def ql_default_def outcome_of_def Let_def)

section \<open>Properties\<close>

text \<open>C8: The answers of the numeric queries are true. In every machine a sound resource state describes, a comparison,
  an order of bounds, a containment of ranges or the coverage of an access that is answered \<open>Proven\<close> holds and one that
  is answered \<open>Refuted\<close> does not, whatever the limits of the solver; no query unwraps a failed cancellation, and
  recording it in the journal, full or not, does not change the answer of the query without a journal.\<close>

theorem query_answers_true:
  assumes "sound st c"
    and "bound_wf lo" and "bound_wf hi" and "bound_holds (mc_env c) lo x" and "bound_holds (mc_env c) hi y"
    and "range_at c outer s e" and "s \<le> e" and "range_at c inner s' e'"
    and "ptr_holds p q" and "ptr_ok p" and "cp_env q = mc_env c"
  shows "verdict_right (fst (ql_compare st comparison l r limits log)) (compare_holds comparison (term_val (mc_word c) l) (term_val (mc_word c) r)) \<and>
    (\<exists>status log'. ql_ordered st lo hi limits log = Some (status, log') \<and> verdict_right status (x \<le> y)) \<and>
    (\<exists>status log'. ql_contained st outer inner limits log = Some (status, log') \<and> verdict_right status (s \<le> s' \<and> e' \<le> e)) \<and>
    (\<exists>status log'. ql_covers_access st outer p width limits log = Some (status, log') \<and>
      verdict_right status (s \<le> cp_offset q \<and> uint (cp_offset q) + uint width \<le> uint e)) \<and>
    fst (ql_compare st comparison l r limits log) = fst (compare_observed st comparison l r limits) \<and>
    map_option fst (ql_ordered st lo hi limits log) = map_option be_status (ordered_bounds st lo hi limits) \<and>
    map_option fst (ql_contained st outer inner limits log) = map_option fst (contained_in st outer inner limits) \<and>
    map_option fst (ql_covers_access st outer p width limits log) = map_option fst (covers_access st outer p width limits)"
proof (intro conjI)
  have r: "range_exprs_wf outer" "abr_holds outer (mc_env c, s, e)" "range_exprs_wf inner" "abr_holds inner (mc_env c, s', e')"
    using assms(6,8) by (simp_all add: range_at_def)
  obtain status difference stop where run: "compare_observed st comparison l r limits = (status, difference, stop)"
    using prod_cases3 by blast
  show "verdict_right (fst (ql_compare st comparison l r limits log)) (compare_holds comparison (term_val (mc_word c) l) (term_val (mc_word c) r))"
    using compare_observed_right [OF assms(1) run] by (simp add: ql_compare_def run)
  show "\<exists>status log'. ql_ordered st lo hi limits log = Some (status, log') \<and> verdict_right status (x \<le> y)"
    using ordered_bounds_right [OF assms(1-5), of limits] by (auto simp: ql_ordered_def ql_record_def)
  show "\<exists>status log'. ql_contained st outer inner limits log = Some (status, log') \<and> verdict_right status (s \<le> s' \<and> e' \<le> e)"
    unfolding ql_contained_def by (rule logged_answer [OF contained_in_right [OF assms(1) r(1,3,2,4)]])
  show "\<exists>status log'. ql_covers_access st outer p width limits log = Some (status, log') \<and>
      verdict_right status (s \<le> cp_offset q \<and> uint (cp_offset q) + uint width \<le> uint e)"
    unfolding ql_covers_access_def by (rule logged_answer [OF covers_access_right [OF assms(1,9,10,11) r(1,2) assms(7)]])
qed (rule unlogged_answers)+

definition pair_machine :: machine where
  "pair_machine = five_start\<lparr>mc_values := \<lambda>v. RVWord (if v = 0 then 1 else 2) None\<rparr>"

definition pair_values :: "(unit, unit, unit) resource_state" where
  "pair_values = st_new\<lparr>st_values := map (\<lambda>v. (v, AVU64 \<lparr>iv_lower = 0, iv_upper = 3\<rparr>)) [0, 1, 2]\<rparr>"

definition pair_state :: "vir_integer_predicate \<Rightarrow> (unit, unit, unit) resource_state" where
  "pair_state p = conjoin_path_fact (FactComparison p 0 1) pair_values"

text \<open>Byte \<open>a\<close> of the eight-byte slot that the word \<open>v\<close> selects, and of the row \<open>v\<close> at the column of the word 2.\<close>

definition slot_bound :: "vir_value_id \<Rightarrow> u64 \<Rightarrow> symbolic_range_bound" where
  "slot_bound v a = \<lparr>sb_expression = \<lparr>ae_root = Some v, ae_scale = 8, ae_addend = a, ae_second = None\<rparr>,
     sb_interval = \<lparr>iv_lower = a, iv_upper = a + 24\<rparr>\<rparr>"

definition grid_bound :: "vir_value_id \<Rightarrow> u64 \<Rightarrow> symbolic_range_bound" where
  "grid_bound v a = \<lparr>sb_expression = \<lparr>ae_root = Some v, ae_scale = 8, ae_addend = a, ae_second = Some (2, 32)\<rparr>,
     sb_interval = \<lparr>iv_lower = a, iv_upper = a + 120\<rparr>\<rparr>"

definition slot_pointer :: "vir_value_id \<Rightarrow> abstract_pointer" where
  "slot_pointer v = (ap_new (ProvKnown (External 0)) (sb_interval (slot_bound v 0)) \<lparr>ga_bytes = 8\<rparr>)
     \<lparr>ap_offset_expression := Some (sb_expression (slot_bound v 0))\<rparr>"

definition slot_address :: "vir_value_id \<Rightarrow> pointer_state" where
  "slot_address v = reuse_address\<lparr>cp_env := mc_env pair_machine, cp_offset := (if v = 0 then 8 else 16)\<rparr>"

lemma pair_sound: "p \<in> {PredLess, PredNotEqual} \<Longrightarrow> sound (pair_state p) pair_machine"
proof -
  assume p: "p \<in> {PredLess, PredNotEqual}"
  have "analyses no_predicates no_predicates no_check st_new pair_machine"
    by (rule analyses.start) (simp_all add: pair_machine_def five_start_def dead_run_def)
  then have "sound (st_new :: (unit, unit, unit) resource_state) pair_machine" by (rule analyses_sound)
  then have "sound pair_values pair_machine"
    by (auto simp: pair_values_def sound_def st_ok_def st_holds_def st_new_def entries_wf_def bt_sorted_def iv_wf_def pair_machine_def iv_contains_def
        split: if_splits)
  then show ?thesis
    unfolding pair_state_def by (rule conjoin_sound) (use p in \<open>auto simp: mc_path_def mc_word_def pair_machine_def\<close>)
qed

lemma pair_env: "mc_env pair_machine v = (if v = 0 then 1 else 2)"
  by (simp add: mc_env_def mc_word_def pair_machine_def)

lemma slot_bound_holds:
  assumes "a \<in> {0, 8}"
  shows "bound_wf (slot_bound v a)" and "bound_holds (mc_env pair_machine) (slot_bound v a) ((if v = 0 then 8 else 16) + a)"
  using assms
  by (auto simp: slot_bound_def bound_wf_def bound_holds_def ae_wf_def ae_den_def ae_terms_def canonical_terms_def bt_sorted_def
      iv_contains_def pair_env)

lemma grid_bound_holds:
  assumes "a \<in> {0, 8}" and "v < 2"
  shows "bound_wf (grid_bound v a)" and "bound_holds (mc_env pair_machine) (grid_bound v a) ((if v = 0 then 72 else 80) + a)"
  using assms
  by (auto simp: grid_bound_def bound_wf_def bound_holds_def ae_wf_def ae_den_def ae_terms_def canonical_terms_def bt_sorted_def
      iv_contains_def pair_env)

lemma slot_pointer_holds: "ptr_ok (slot_pointer v)" "ptr_holds (slot_pointer v) (slot_address v)"
proof -
  have "u64_is_power_of_two 8" by code_simp
  moreover have "slice_holds None (mc_env pair_machine, None)" by (simp add: slice_holds_def)
  ultimately show "ptr_ok (slot_pointer v)" "ptr_holds (slot_pointer v) (slot_address v)"
    using slot_bound_holds [of 0 v]
    by (auto simp: slot_pointer_def slot_address_def reuse_address_def ap_new_def ptr_ok_def ptr_wf_def ptr_exprs_wf_def ptr_linked_def
        ptr_holds_def bound_wf_def bound_holds_def slot_bound_def iv_wf_def ga_wf_def ga_holds_def iv_contains_def pp_holds_def)
qed

lemma slot_range_at:
  assumes "a \<in> {0, 8}" and "b \<in> {0, 8}"
  shows "range_at pair_machine (RSymbolic (slot_bound v a) (slot_bound w b)) ((if v = 0 then 8 else 16) + a) ((if w = 0 then 8 else 16) + b)"
  using slot_bound_holds [OF assms(1), of v] slot_bound_holds [OF assms(2), of w] by (simp add: range_at_def)

theorem query_answers_true_witness:
  "fst (ql_compare (pair_state PredLess) LessThan (relation_word 0) (relation_word 1) sample_limits ql_default) = Proven \<and>
   mc_word pair_machine 0 < mc_word pair_machine 1 \<and>
   map_option fst (ql_ordered (pair_state PredLess) (slot_bound 0 8) (slot_bound 1 0) sample_limits ql_default) = Some Proven \<and>
   map_option fst (ql_contained (pair_state PredLess) (RSymbolic (slot_bound 0 0) (slot_bound 1 8)) (RSymbolic (slot_bound 0 8) (slot_bound 1 0))
      sample_limits ql_default) = Some Proven \<and>
   map_option fst (ql_covers_access (pair_state PredLess) (RSymbolic (slot_bound 0 0) (slot_bound 1 8)) (slot_pointer 1) 8 sample_limits ql_default) =
      Some Proven \<and>
   uint (cp_offset (slot_address 1)) + uint (8 :: u64) \<le> uint (24 :: u64)"
proof -
  have compare: "fst (ql_compare (pair_state PredLess) LessThan (relation_word 0) (relation_word 1) sample_limits ql_default) = Proven" by code_simp
  have ordered: "map_option fst (ql_ordered (pair_state PredLess) (slot_bound 0 8) (slot_bound 1 0) sample_limits ql_default) = Some Proven" by code_simp
  have contained: "map_option fst (ql_contained (pair_state PredLess) (RSymbolic (slot_bound 0 0) (slot_bound 1 8))
      (RSymbolic (slot_bound 0 8) (slot_bound 1 0)) sample_limits ql_default) = Some Proven" by code_simp
  have covers: "map_option fst (ql_covers_access (pair_state PredLess) (RSymbolic (slot_bound 0 0) (slot_bound 1 8)) (slot_pointer 1) 8
      sample_limits ql_default) = Some Proven" by code_simp
  have outer: "range_at pair_machine (RSymbolic (slot_bound 0 0) (slot_bound 1 8)) 8 24"
    and inner: "range_at pair_machine (RSymbolic (slot_bound 0 8) (slot_bound 1 0)) 16 16"
    using slot_range_at [of 0 8 0 1] slot_range_at [of 8 0 0 1] by simp_all
  have bounds: "bound_wf (slot_bound 0 8)" "bound_wf (slot_bound 1 0)"
      "bound_holds (mc_env pair_machine) (slot_bound 0 8) 16" "bound_holds (mc_env pair_machine) (slot_bound 1 0) 16"
    using slot_bound_holds [of 8 0] slot_bound_holds [of 0 1] by simp_all
  have env: "cp_env (slot_address 1) = mc_env pair_machine" by (simp add: slot_address_def)
  have less: "sound (pair_state PredLess) pair_machine" by (rule pair_sound) simp
  have order: "(8 :: u64) \<le> 24" by simp
  note answers = query_answers_true [OF less bounds outer order inner slot_pointer_holds(2,1) env,
      of LessThan "relation_word 0" "relation_word 1" sample_limits ql_default 8]
  have "mc_word pair_machine 0 < mc_word pair_machine 1"
    using conjunct1 [OF answers] compare by (simp add: verdict_right_def relation_word_def word_less_def)
  moreover have "uint (cp_offset (slot_address 1)) + uint (8 :: u64) \<le> uint (24 :: u64)"
    using conjunct1 [OF conjunct2 [OF conjunct2 [OF conjunct2 [OF answers]]]] covers by (auto simp: verdict_right_def)
  ultimately show ?thesis using compare ordered contained covers by blast
qed

text \<open>C9: The answers about disjointness are true. In every machine a sound resource state describes, two ranges of the
  named allocations that are answered \<open>Proven\<close> share no byte, and those answered \<open>Refuted\<close> lie in one allocation
  with each starting before the other ends; two accesses answered \<open>Proven\<close> touch no common byte and those answered
  \<open>Refuted\<close> touch one. This covers the index rule for slots of one array and the reductions of ranges on two roots by
  common translation and by bands of a fixed stride, whose recursion always ends and never unwraps a failed result.\<close>

theorem disjoint_answers_true:
  assumes "sound st c" and "range_at c left s e" and "range_at c right s' e'" and "prov_holds a x" and "prov_holds b y"
    and "ptr_holds p d" and "ptr_holds q t" and "ptr_ok p" and "ptr_ok q" and "cp_env d = mc_env c" and "cp_env t = mc_env c"
  shows "(\<exists>status log'. ql_disjoint st a left b right limits log = Some (status, log') \<and> disjoint_verdict status x s e y s' e') \<and>
    (\<exists>status log'. ql_non_overlapping st p q width limits log = Some (status, log') \<and>
      (status = Proven \<longrightarrow> accessed d width \<inter> accessed t width = {}) \<and>
      (status = Refuted \<longrightarrow> accessed d width \<inter> accessed t width \<noteq> {}))"
  unfolding ql_disjoint_def ql_non_overlapping_def
  by (rule conjI [OF logged_answer [OF disjoint_ranges_right [OF assms(1-5)]] logged_answer [OF non_overlapping_right [OF assms(1,6-11)]]])

theorem disjoint_answers_true_witness:
  "map_option fst (ql_disjoint (pair_state PredNotEqual) (ProvKnown (External 0)) (RSymbolic (grid_bound 0 0) (grid_bound 0 8))
      (ProvKnown (External 0)) (RSymbolic (grid_bound 1 0) (grid_bound 1 8)) sample_limits ql_default) = Some Proven \<and>
   range_bytes (External 0) 72 80 \<inter> range_bytes (External 0) 80 88 = {} \<and>
   map_option fst (ql_non_overlapping (pair_state PredNotEqual) (slot_pointer 1) (slot_pointer 1) 8 sample_limits ql_default) = Some Refuted \<and>
   accessed (slot_address 1) 8 \<noteq> {}"
proof -
  have apart: "map_option fst (ql_disjoint (pair_state PredNotEqual) (ProvKnown (External 0)) (RSymbolic (grid_bound 0 0) (grid_bound 0 8))
      (ProvKnown (External 0)) (RSymbolic (grid_bound 1 0) (grid_bound 1 8)) sample_limits ql_default) = Some Proven" by code_simp
  have overlap: "map_option fst (ql_non_overlapping (pair_state PredNotEqual) (slot_pointer 1) (slot_pointer 1) 8 sample_limits ql_default) = Some Refuted"
    by code_simp
  have ranges: "range_at pair_machine (RSymbolic (grid_bound 0 0) (grid_bound 0 8)) 72 80"
      "range_at pair_machine (RSymbolic (grid_bound 1 0) (grid_bound 1 8)) 80 88"
    using grid_bound_holds [of 0 0] grid_bound_holds [of 8 0] grid_bound_holds [of 0 1] grid_bound_holds [of 8 1]
    by (simp_all add: range_at_def)
  have distinct: "sound (pair_state PredNotEqual) pair_machine" by (rule pair_sound) simp
  have prov: "prov_holds (ProvKnown (External 0)) (External 0)" by simp
  have env: "cp_env (slot_address 1) = mc_env pair_machine" by (simp add: slot_address_def)
  note answers = disjoint_answers_true [OF distinct ranges prov prov slot_pointer_holds(2) slot_pointer_holds(2)
      slot_pointer_holds(1) slot_pointer_holds(1) env env, of sample_limits ql_default 8]
  have "range_bytes (External 0) 72 80 \<inter> range_bytes (External 0) 80 88 = {}"
    using conjunct1 [OF answers] apart by (auto simp: disjoint_verdict_def)
  moreover have "accessed (slot_address 1) 8 \<noteq> {}"
    using conjunct2 [OF answers] overlap by auto
  ultimately show ?thesis using apart overlap by blast
qed

end
