(* ===== verification/Validation.thy ===== *)
theory Validation
  imports Logic_Syntax
begin

text \<open>
  What \<open>LogicExpression::validate\<close> accepts, said without its code: a typing judgement for nodes, the chains of operands
  below a node, and the disjunctive normal form of a condition and of its negation. The validator accepts exactly the
  expressions that are typed, whose chains and normal forms are within the limits and that have no dead node.
\<close>

section \<open>The typing judgement\<close>

text \<open>\<open>has_type i k t\<close>: a node of kind \<open>k\<close> at position \<open>i\<close> has the type \<open>t\<close>, its operands being earlier nodes.\<close>

inductive has_type ::
  "'t logic_type list \<Rightarrow> 't logic_type list \<Rightarrow> 't observation_typing \<Rightarrow> 't resource_typing \<Rightarrow> 't logic_node list \<Rightarrow>
    nat \<Rightarrow> 't logic_node_kind \<Rightarrow> 't logic_type \<Rightarrow> bool"
  for ps es :: "'t logic_type list" and obs :: "'t observation_typing" and rsc :: "'t resource_typing"
    and ns :: "'t logic_node list" and i :: nat where
  Word: "t \<in> {TU64, TUsize} \<Longrightarrow> has_type ps es obs rsc ns i (NWord n) t"
| Bool: "has_type ps es obs rsc ns i (NBool v) TBool"
| Param: "p < length ps \<Longrightarrow> has_type ps es obs rsc ns i (NBinder (Parameter p)) (ps ! p)"
| Exist: "x < length es \<Longrightarrow> has_type ps es obs rsc ns i (NBinder (ExistentialBinder x)) (es ! x)"
| Observe: "obs r k a time = Some t \<Longrightarrow> has_type ps es obs rsc ns i (NObserve r k a time) t"
| Resource: "length path \<le> 16 \<Longrightarrow> rsc r path = Some t \<Longrightarrow> has_type ps es obs rsc ns i (NResource r path) (TResource t)"
| Scale: "a < i \<Longrightarrow> node_ty (ns ! a) = t \<Longrightarrow> t \<in> {TU64, TUsize} \<Longrightarrow> has_type ps es obs rsc ns i (NScale a f) t"
| Add: "a < i \<Longrightarrow> b < i \<Longrightarrow> node_ty (ns ! a) = t \<Longrightarrow> node_ty (ns ! b) = t \<Longrightarrow> t \<in> {TU64, TUsize} \<Longrightarrow>
    has_type ps es obs rsc ns i (NAdd a b) t"
| Sub: "a < i \<Longrightarrow> b < i \<Longrightarrow> node_ty (ns ! a) = t \<Longrightarrow> node_ty (ns ! b) = t \<Longrightarrow> t \<in> {TU64, TUsize} \<Longrightarrow>
    has_type ps es obs rsc ns i (NSub a b) t"
| Equal: "a < i \<Longrightarrow> b < i \<Longrightarrow> node_ty (ns ! a) = t \<Longrightarrow> node_ty (ns ! b) = t \<Longrightarrow> has_type ps es obs rsc ns i (NEqual a b) TBool"
| Less: "a < i \<Longrightarrow> b < i \<Longrightarrow> node_ty (ns ! a) = t \<Longrightarrow> node_ty (ns ! b) = t \<Longrightarrow> t \<in> {TU64, TUsize} \<Longrightarrow>
    has_type ps es obs rsc ns i (NLess a b) TBool"
| LessEqual: "a < i \<Longrightarrow> b < i \<Longrightarrow> node_ty (ns ! a) = t \<Longrightarrow> node_ty (ns ! b) = t \<Longrightarrow> t \<in> {TU64, TUsize} \<Longrightarrow>
    has_type ps es obs rsc ns i (NLessEqual a b) TBool"
| Not: "a < i \<Longrightarrow> node_ty (ns ! a) = TBool \<Longrightarrow> has_type ps es obs rsc ns i (NNot a) TBool"
| And: "a < i \<Longrightarrow> b < i \<Longrightarrow> node_ty (ns ! a) = TBool \<Longrightarrow> node_ty (ns ! b) = TBool \<Longrightarrow>
    has_type ps es obs rsc ns i (NAnd a b) TBool"
| Or: "a < i \<Longrightarrow> b < i \<Longrightarrow> node_ty (ns ! a) = TBool \<Longrightarrow> node_ty (ns ! b) = TBool \<Longrightarrow>
    has_type ps es obs rsc ns i (NOr a b) TBool"

inductive_simps has_type_simps [simp]:
  "has_type ps es obs rsc ns i (NWord n) t" "has_type ps es obs rsc ns i (NBool v) t"
  "has_type ps es obs rsc ns i (NBinder x) t" "has_type ps es obs rsc ns i (NObserve r k a time) t"
  "has_type ps es obs rsc ns i (NResource r path) t" "has_type ps es obs rsc ns i (NScale a f) t"
  "has_type ps es obs rsc ns i (NAdd a b) t" "has_type ps es obs rsc ns i (NSub a b) t"
  "has_type ps es obs rsc ns i (NEqual a b) t" "has_type ps es obs rsc ns i (NLess a b) t"
  "has_type ps es obs rsc ns i (NLessEqual a b) t" "has_type ps es obs rsc ns i (NNot a) t"
  "has_type ps es obs rsc ns i (NAnd a b) t" "has_type ps es obs rsc ns i (NOr a b) t"

lemma operand_type_iff: "i \<le> length ns \<Longrightarrow> operand_type ns i a = Inr t \<longleftrightarrow> a < i \<and> node_ty (ns ! a) = t"
  by (auto simp: operand_type_def)

lemma infer_binary_iff:
  "i \<le> length ns \<Longrightarrow> infer_binary ns i k a b = Inr t \<longleftrightarrow>
    a < i \<and> b < i \<and> node_ty (ns ! b) = node_ty (ns ! a) \<and> binary_type k (node_ty (ns ! a)) = Inr t"
  by (auto simp: infer_binary_def operand_type_iff)

lemma infer_node_iff:
  assumes "i \<le> length ns"
  shows "infer_node ps es obs rsc ns i t k = Inr t \<longleftrightarrow> has_type ps es obs rsc ns i k t"
proof (cases k)
  case (NBinder x)
  then show ?thesis by (cases x) auto
qed (auto simp: infer_binary_iff [OF assms] operand_type_iff [OF assms] is_word_type_def)

lemma typed_children: "has_type ps es obs rsc ns i k t \<Longrightarrow> c \<in> set (node_children k) \<Longrightarrow> c < i"
  by (induction rule: has_type.induct) auto

section \<open>Normal forms\<close>

text \<open>The clauses of the disjunctive normal form of node \<open>i\<close>, or of its negation when the polarity is \<open>False\<close>; a literal is
  a node with the polarity it occurs in.\<close>

inductive normal_form :: "'t logic_node list \<Rightarrow> bool \<Rightarrow> nat \<Rightarrow> (nat \<times> bool) list list \<Rightarrow> bool" for ns :: "'t logic_node list" where
  Or: "node_kind (ns ! i) = NOr a b \<Longrightarrow> normal_form ns True a cs \<Longrightarrow> normal_form ns True b ds \<Longrightarrow> normal_form ns True i (cs @ ds)"
| NotOr: "node_kind (ns ! i) = NOr a b \<Longrightarrow> normal_form ns False a cs \<Longrightarrow> normal_form ns False b ds \<Longrightarrow>
    normal_form ns False i [c @ d. c \<leftarrow> cs, d \<leftarrow> ds]"
| And: "node_kind (ns ! i) = NAnd a b \<Longrightarrow> normal_form ns True a cs \<Longrightarrow> normal_form ns True b ds \<Longrightarrow>
    normal_form ns True i [c @ d. c \<leftarrow> cs, d \<leftarrow> ds]"
| NotAnd: "node_kind (ns ! i) = NAnd a b \<Longrightarrow> normal_form ns False a cs \<Longrightarrow> normal_form ns False b ds \<Longrightarrow> normal_form ns False i (cs @ ds)"
| Not: "node_kind (ns ! i) = NNot a \<Longrightarrow> normal_form ns (\<not> polarity) a cs \<Longrightarrow> normal_form ns polarity i cs"
| Literal: "\<forall>a b. node_kind (ns ! i) \<noteq> NOr a b \<and> node_kind (ns ! i) \<noteq> NAnd a b \<and> node_kind (ns ! i) \<noteq> NNot a \<Longrightarrow>
    normal_form ns polarity i [[(i, polarity)]]"

lemma normal_form_unique: "normal_form ns polarity i cs \<Longrightarrow> normal_form ns polarity i ds \<Longrightarrow> cs = ds"
proof (induction arbitrary: ds rule: normal_form.induct)
  case (Or i a b cs ds')
  from Or.prems Or.hyps(1) Or.IH show ?case by (cases rule: normal_form.cases) auto
next
  case (NotOr i a b cs ds')
  from NotOr.prems NotOr.hyps(1) NotOr.IH show ?case by (cases rule: normal_form.cases) auto
next
  case (And i a b cs ds')
  from And.prems And.hyps(1) And.IH show ?case by (cases rule: normal_form.cases) auto
next
  case (NotAnd i a b cs ds')
  from NotAnd.prems NotAnd.hyps(1) NotAnd.IH show ?case by (cases rule: normal_form.cases) auto
next
  case (Not i a polarity cs)
  from Not.prems Not.hyps(1) Not.IH show ?case by (cases rule: normal_form.cases) auto
next
  case (Literal i polarity)
  from Literal.prems Literal.hyps show ?case by (cases rule: normal_form.cases) auto
qed

lemma product_length: "length [c @ d. c \<leftarrow> cs, d \<leftarrow> ds] = length cs * length ds"
  by (induction cs) auto

definition counts :: "'t logic_node list \<Rightarrow> nat \<Rightarrow> nat \<times> nat \<Rightarrow> bool" where
  "counts ns i n = ((\<exists>cs. normal_form ns True i cs \<and> length cs = fst n) \<and> (\<exists>cs. normal_form ns False i cs \<and> length cs = snd n))"

lemma counts_junction:
  assumes "counts ns a m" and "counts ns b n"
  shows "node_kind (ns ! i) = NOr a b \<Longrightarrow> counts ns i (fst m + fst n, snd m * snd n)"
    and "node_kind (ns ! i) = NAnd a b \<Longrightarrow> counts ns i (fst m * fst n, snd m + snd n)"
proof -
  obtain cs cs' ds ds' where f: "normal_form ns True a cs" "normal_form ns True b ds" "normal_form ns False a cs'" "normal_form ns False b ds'"
      "length cs = fst m" "length ds = fst n" "length cs' = snd m" "length ds' = snd n"
    using assms by (auto simp: counts_def)
  show "counts ns i (fst m + fst n, snd m * snd n)" if k: "node_kind (ns ! i) = NOr a b"
    unfolding counts_def fst_conv snd_conv
  proof
    show "\<exists>xs. normal_form ns True i xs \<and> length xs = fst m + fst n"
      using normal_form.Or [OF k f(1,2)] f(5,6) by (intro exI [of _ "cs @ ds"]) simp
    show "\<exists>xs. normal_form ns False i xs \<and> length xs = snd m * snd n"
      using normal_form.NotOr [OF k f(3,4)] f(7,8) product_length [where cs = cs' and ds = ds']
      by (intro exI [of _ "[c @ d. c \<leftarrow> cs', d \<leftarrow> ds']"]) simp
  qed
  show "counts ns i (fst m * fst n, snd m + snd n)" if k: "node_kind (ns ! i) = NAnd a b"
    unfolding counts_def fst_conv snd_conv
  proof
    show "\<exists>xs. normal_form ns True i xs \<and> length xs = fst m * fst n"
      using normal_form.And [OF k f(1,2)] f(5,6) product_length [where cs = cs and ds = ds]
      by (intro exI [of _ "[c @ d. c \<leftarrow> cs, d \<leftarrow> ds]"]) simp
    show "\<exists>xs. normal_form ns False i xs \<and> length xs = snd m + snd n"
      using normal_form.NotAnd [OF k f(3,4)] f(7,8) by (intro exI [of _ "cs' @ ds'"]) simp
  qed
qed

lemma counts_not: "counts ns a m \<Longrightarrow> node_kind (ns ! i) = NNot a \<Longrightarrow> counts ns i (snd m, fst m)"
  unfolding counts_def using normal_form.Not [of ns i a True] normal_form.Not [of ns i a False] by auto

lemma counts_literal:
  "\<forall>a b. node_kind (ns ! i) \<noteq> NOr a b \<and> node_kind (ns ! i) \<noteq> NAnd a b \<and> node_kind (ns ! i) \<noteq> NNot a \<Longrightarrow> counts ns i (1, 1)"
  unfolding counts_def using normal_form.Literal [of ns i] by force

lemma checked_small: "a \<le> MAX_BOOLEAN_BRANCHES \<Longrightarrow> b \<le> MAX_BOOLEAN_BRANCHES \<Longrightarrow>
  usize_checked_add a b = Some (a + b) \<and> usize_checked_mul a b = Some (a * b)"
proof -
  assume h: "a \<le> MAX_BOOLEAN_BRANCHES" "b \<le> MAX_BOOLEAN_BRANCHES"
  then have "a * b \<le> 16 * 16" unfolding MAX_BOOLEAN_BRANCHES_def by (intro mult_mono) simp_all
  then have "int a * int b \<le> 256" by (simp flip: of_nat_mult)
  then show ?thesis using h by (simp add: usize_checked_add_def usize_checked_mul_def MAX_BOOLEAN_BRANCHES_def)
qed

lemma branches_counts:
  assumes "\<And>c. c \<in> set (node_children (node_kind (ns ! i))) \<Longrightarrow>
    counts ns c (br ! c) \<and> fst (br ! c) \<le> MAX_BOOLEAN_BRANCHES \<and> snd (br ! c) \<le> MAX_BOOLEAN_BRANCHES"
  shows "\<exists>n. node_branches br (node_kind (ns ! i)) = Inr n \<and> counts ns i n"
proof (cases "node_kind (ns ! i)")
  case (NOr a b)
  then show ?thesis using assms [of a] assms [of b] counts_junction(1) [of ns a "br ! a" b "br ! b" i] by (simp add: checked_small)
next
  case (NAnd a b)
  then show ?thesis using assms [of a] assms [of b] counts_junction(2) [of ns a "br ! a" b "br ! b" i] by (simp add: checked_small)
next
  case (NNot a)
  then show ?thesis using assms [of a] counts_not [of ns a "br ! a" i] by simp
qed (use counts_literal [of ns i] in simp_all)

section \<open>Chains of operands\<close>

lemma chain_step:
  "i < length ns \<Longrightarrow> (\<exists>c. (i, c) \<in> child_edges ns ^^ Suc m) \<longleftrightarrow>
    (\<exists>a \<in> set (node_children (node_kind (ns ! i))). \<exists>c. (a, c) \<in> child_edges ns ^^ m)"
proof -
  assume "i < length ns"
  then have edge: "(i, a) \<in> child_edges ns \<longleftrightarrow> a \<in> set (node_children (node_kind (ns ! i)))" for a by (simp add: child_edges_def)
  show ?thesis unfolding relpow.simps(2) relpow_commute [symmetric] using edge by blast
qed

lemma depth_chains:
  assumes "i < length ns"
    and "\<And>c m. c \<in> set (node_children (node_kind (ns ! i))) \<Longrightarrow> (\<exists>d. (c, d) \<in> child_edges ns ^^ m) \<longleftrightarrow> m < depths ! c"
  shows "(\<exists>d. (i, d) \<in> child_edges ns ^^ m) \<longleftrightarrow> m < node_depth depths (node_kind (ns ! i))"
proof (cases m)
  case (Suc k)
  have "(\<exists>d. (i, d) \<in> child_edges ns ^^ m) \<longleftrightarrow> (\<exists>a \<in> set (node_children (node_kind (ns ! i))). k < depths ! a)"
    using chain_step [OF assms(1)] assms(2) by (simp only: Suc) blast
  also have "\<dots> \<longleftrightarrow> k < Max (insert 0 ((\<lambda>nid. depths ! nid) ` set (node_children (node_kind (ns ! i)))))"
    by (subst Max_gr_iff) auto
  finally show ?thesis by (simp add: node_depth_def Suc)
qed (simp add: node_depth_def)

section \<open>The sweep over the nodes\<close>

definition within_limits :: "'t logic_node list \<Rightarrow> nat \<Rightarrow> bool" where
  "within_limits ns i =
     ((\<forall>m c. (i, c) \<in> child_edges ns ^^ m \<longrightarrow> m < MAX_EXPRESSION_DEPTH) \<and>
      (\<forall>polarity. \<exists>cs. normal_form ns polarity i cs \<and> length cs \<le> MAX_BOOLEAN_BRANCHES))"

definition swept :: "'t logic_node list \<Rightarrow> nat \<Rightarrow> nat list \<times> (nat \<times> nat) list \<Rightarrow> bool" where
  "swept ns k acc =
     (case acc of (depths, branches) \<Rightarrow>
        length depths = k \<and> length branches = k \<and>
        (\<forall>i < k. (\<forall>m. (\<exists>c. (i, c) \<in> child_edges ns ^^ m) \<longleftrightarrow> m < depths ! i) \<and> depths ! i \<le> MAX_EXPRESSION_DEPTH \<and>
           counts ns i (branches ! i) \<and> fst (branches ! i) \<le> MAX_BOOLEAN_BRANCHES \<and> snd (branches ! i) \<le> MAX_BOOLEAN_BRANCHES))"

lemma within_limits_iff:
  assumes "\<And>m. (\<exists>c. (i, c) \<in> child_edges ns ^^ m) \<longleftrightarrow> m < depth" and "counts ns i n"
  shows "within_limits ns i \<longleftrightarrow> depth \<le> MAX_EXPRESSION_DEPTH \<and> fst n \<le> MAX_BOOLEAN_BRANCHES \<and> snd n \<le> MAX_BOOLEAN_BRANCHES"
proof -
  have "(\<forall>m c. (i, c) \<in> child_edges ns ^^ m \<longrightarrow> m < MAX_EXPRESSION_DEPTH) \<longleftrightarrow> (\<forall>m. m < depth \<longrightarrow> m < MAX_EXPRESSION_DEPTH)"
    using assms(1) by blast
  also have "\<dots> \<longleftrightarrow> depth \<le> MAX_EXPRESSION_DEPTH" by (meson less_le_trans linorder_not_less order_refl)
  finally have depth: "(\<forall>m c. (i, c) \<in> child_edges ns ^^ m \<longrightarrow> m < MAX_EXPRESSION_DEPTH) \<longleftrightarrow> depth \<le> MAX_EXPRESSION_DEPTH" .
  obtain cs ds where cs: "normal_form ns True i cs" "length cs = fst n" "normal_form ns False i ds" "length ds = snd n"
    using assms(2) by (auto simp: counts_def)
  have "(\<exists>cs. normal_form ns True i cs \<and> length cs \<le> MAX_BOOLEAN_BRANCHES) \<longleftrightarrow> fst n \<le> MAX_BOOLEAN_BRANCHES"
    using cs(1,2) normal_form_unique by metis
  moreover have "(\<exists>cs. normal_form ns False i cs \<and> length cs \<le> MAX_BOOLEAN_BRANCHES) \<longleftrightarrow> snd n \<le> MAX_BOOLEAN_BRANCHES"
    using cs(3,4) normal_form_unique by metis
  ultimately show ?thesis unfolding within_limits_def depth all_bool_eq by blast
qed

text \<open>One node: with the tables of the nodes before it, it is accepted exactly when it is typed and within the limits.\<close>

lemma validate_node_iff:
  assumes "swept ns k acc" and "k < length ns"
  shows "(\<exists>acc'. validate_node ps es obs rsc ns (k, ns ! k) acc = Inr acc') \<longleftrightarrow>
      has_type ps es obs rsc ns k (node_kind (ns ! k)) (node_ty (ns ! k)) \<and> within_limits ns k"
    and "validate_node ps es obs rsc ns (k, ns ! k) acc = Inr acc' \<Longrightarrow> swept ns (Suc k) acc'"
proof -
  obtain depths branches where acc: "acc = (depths, branches)" by force
  let ?kind = "node_kind (ns ! k)"
  have typed: "infer_node ps es obs rsc ns k (node_ty (ns ! k)) ?kind = Inr (node_ty (ns ! k)) \<longleftrightarrow>
      has_type ps es obs rsc ns k ?kind (node_ty (ns ! k))"
    using infer_node_iff assms(2) by (metis less_imp_le_nat)
  have untyped: "validate_node ps es obs rsc ns (k, ns ! k) acc \<noteq> Inr x"
    if "\<not> has_type ps es obs rsc ns k ?kind (node_ty (ns ! k))" for x
    using that typed by (auto simp: validate_node_def acc)
  have facts: "\<exists>n. node_branches branches ?kind = Inr n \<and> counts ns k n \<and>
      (\<forall>m. (\<exists>d. (k, d) \<in> child_edges ns ^^ m) \<longleftrightarrow> m < node_depth depths ?kind)"
    if t: "has_type ps es obs rsc ns k ?kind (node_ty (ns ! k))"
  proof -
    have child: "c < k" if "c \<in> set (node_children ?kind)" for c using typed_children [OF t that] .
    have "\<exists>n. node_branches branches ?kind = Inr n \<and> counts ns k n"
      by (rule branches_counts) (use child assms(1) in \<open>auto simp: swept_def acc\<close>)
    moreover have "(\<exists>d. (k, d) \<in> child_edges ns ^^ m) \<longleftrightarrow> m < node_depth depths ?kind" for m
      by (rule depth_chains [OF assms(2)]) (use child assms(1) in \<open>auto simp: swept_def acc\<close>)
    ultimately show ?thesis by blast
  qed
  show "(\<exists>acc'. validate_node ps es obs rsc ns (k, ns ! k) acc = Inr acc') \<longleftrightarrow>
      has_type ps es obs rsc ns k ?kind (node_ty (ns ! k)) \<and> within_limits ns k"
  proof (cases "has_type ps es obs rsc ns k ?kind (node_ty (ns ! k))")
    case True
    from facts [OF True] obtain n where n: "node_branches branches ?kind = Inr n" "counts ns k n"
      "\<And>m. (\<exists>d. (k, d) \<in> child_edges ns ^^ m) \<longleftrightarrow> m < node_depth depths ?kind" by blast
    show ?thesis using within_limits_iff [OF n(3,2)] n(1) True typed by (auto simp: validate_node_def acc Let_def)
  qed (use untyped in blast)
  show "swept ns (Suc k) acc'" if run: "validate_node ps es obs rsc ns (k, ns ! k) acc = Inr acc'"
  proof -
    have t: "has_type ps es obs rsc ns k ?kind (node_ty (ns ! k))" using untyped run by blast
    from facts [OF t] obtain n where n: "node_branches branches ?kind = Inr n" "counts ns k n"
      "\<And>m. (\<exists>d. (k, d) \<in> child_edges ns ^^ m) \<longleftrightarrow> m < node_depth depths ?kind" by blast
    have "acc' = (depths @ [node_depth depths ?kind], branches @ [n])" "node_depth depths ?kind \<le> MAX_EXPRESSION_DEPTH"
        "fst n \<le> MAX_BOOLEAN_BRANCHES" "snd n \<le> MAX_BOOLEAN_BRANCHES"
      using run n(1) t typed by (auto simp: validate_node_def acc Let_def split: if_splits)
    then show ?thesis using assms(1) n(2,3) by (auto simp: swept_def acc less_Suc_eq nth_append)
  qed
qed

lemma res_fold_snoc: "res_fold f (xs @ [x]) a = res_bind (res_fold f xs a) (f x)"
  by (induction xs arbitrary: a) (simp_all add: res_bind_def split: sum.split)

lemma enumerate_take_Suc: "k < length xs \<Longrightarrow> take (Suc k) (List.enumerate 0 xs) = take k (List.enumerate 0 xs) @ [(k, xs ! k)]"
  by (simp add: take_Suc_conv_app_nth nth_enumerate_eq)

lemma sweep_prefix:
  "k \<le> length ns \<Longrightarrow>
    ((\<exists>acc. res_fold (validate_node ps es obs rsc ns) (take k (List.enumerate 0 ns)) ([], []) = Inr acc) \<longleftrightarrow>
      (\<forall>i < k. has_type ps es obs rsc ns i (node_kind (ns ! i)) (node_ty (ns ! i)) \<and> within_limits ns i)) \<and>
    (\<forall>acc. res_fold (validate_node ps es obs rsc ns) (take k (List.enumerate 0 ns)) ([], []) = Inr acc \<longrightarrow> swept ns k acc)"
proof (induction k)
  case (Suc k)
  let ?r = "res_fold (validate_node ps es obs rsc ns) (take k (List.enumerate 0 ns)) ([], [])"
  have k: "k < length ns" and IH: "(\<exists>acc. ?r = Inr acc) \<longleftrightarrow>
      (\<forall>i < k. has_type ps es obs rsc ns i (node_kind (ns ! i)) (node_ty (ns ! i)) \<and> within_limits ns i)"
      "\<And>acc. ?r = Inr acc \<Longrightarrow> swept ns k acc"
    using Suc by simp_all
  have step: "res_fold (validate_node ps es obs rsc ns) (take (Suc k) (List.enumerate 0 ns)) ([], []) =
      res_bind ?r (validate_node ps es obs rsc ns (k, ns ! k))"
    using k by (simp only: enumerate_take_Suc res_fold_snoc)
  show ?case
  proof (cases ?r)
    case (Inl err)
    then have "\<not> (\<forall>i < Suc k. has_type ps es obs rsc ns i (node_kind (ns ! i)) (node_ty (ns ! i)) \<and> within_limits ns i)"
      using IH(1) less_SucI by (metis Inl_Inr_False)
    then show ?thesis unfolding step Inl by (simp add: res_bind_def)
  next
    case (Inr acc)
    note v = validate_node_iff [OF IH(2) [OF Inr] k, of ps es obs rsc]
    have "\<forall>i < k. has_type ps es obs rsc ns i (node_kind (ns ! i)) (node_ty (ns ! i)) \<and> within_limits ns i" using IH(1) Inr by blast
    then show ?thesis unfolding step Inr using v by (auto simp: res_bind_def less_Suc_eq)
  qed
qed (simp add: swept_def)

lemma sweep_iff:
  "(\<exists>acc. res_fold (validate_node ps es obs rsc ns) (List.enumerate 0 ns) ([], []) = Inr acc) \<longleftrightarrow>
    (\<forall>i < length ns. has_type ps es obs rsc ns i (node_kind (ns ! i)) (node_ty (ns ! i)) \<and> within_limits ns i)"
  using sweep_prefix [of "length ns" ns ps es obs rsc] by simp

section \<open>Reachability\<close>

lemma live_nodes_closed:
  assumes "\<forall>x \<in> set used. \<forall>c. (x, c) \<in> child_edges ns \<longrightarrow> c < length ns \<longrightarrow> c \<in> set used \<union> set pending"
  shows "(\<forall>x \<in> set pending \<union> set used. x < length ns \<longrightarrow> x \<in> set (live_nodes ns pending used)) \<and>
    (\<forall>x \<in> set (live_nodes ns pending used). \<forall>c. (x, c) \<in> child_edges ns \<longrightarrow> c < length ns \<longrightarrow> c \<in> set (live_nodes ns pending used))"
  using assms
proof (induction ns pending used rule: live_nodes.induct)
  case (2 ns nid pending used)
  show ?case
  proof (cases "nid \<in> set used \<or> \<not> nid < length ns")
    case True
    have "\<forall>x \<in> set used. \<forall>c. (x, c) \<in> child_edges ns \<longrightarrow> c < length ns \<longrightarrow> c \<in> set used \<union> set pending"
      using 2(3) True by auto
    from 2(1) [OF True this] show ?thesis using True by auto
  next
    case False
    have "\<forall>x \<in> set (nid # used). \<forall>c. (x, c) \<in> child_edges ns \<longrightarrow> c < length ns \<longrightarrow>
        c \<in> set (nid # used) \<union> set (rev (node_children (node_kind (ns ! nid))) @ pending)"
      using 2(3) by (auto simp: child_edges_def)
    from 2(2) [OF False this] show ?thesis using False by auto
  qed
qed simp

lemma live_nodes_all:
  assumes "\<forall>i < length ns. \<forall>c \<in> set (node_children (node_kind (ns ! i))). c < length ns" and "r < length ns"
  shows "length (live_nodes ns [r] []) = length ns \<longleftrightarrow> (\<forall>i < length ns. (r, i) \<in> (child_edges ns)\<^sup>*)"
proof -
  let ?L = "live_nodes ns [r] []"
  have L: "distinct ?L" "set ?L \<subseteq> {..<length ns}" using live_nodes_distinct [of "[]" ns "[r]"] by auto
  have "r \<in> set ?L" and closed: "c \<in> set ?L" if "x \<in> set ?L" "(x, c) \<in> child_edges ns" for x c
    using live_nodes_closed [of "[]" ns "[r]"] assms that by (auto simp: child_edges_def)
  have "r \<in> set ?L" using live_nodes_closed [of "[]" ns "[r]"] assms(2) by simp
  have "i \<in> set ?L" if "(r, i) \<in> (child_edges ns)\<^sup>*" for i
    using that by (induction rule: rtrancl_induct) (use \<open>r \<in> set ?L\<close> closed in blast)+
  moreover have "\<forall>i \<in> set ?L. (r, i) \<in> (child_edges ns)\<^sup>*" using live_nodes_reachable [of "[r]" "[]" r ns] by simp
  ultimately have set: "set ?L = {i. (r, i) \<in> (child_edges ns)\<^sup>*}" by blast
  have "length ?L = length ns \<longleftrightarrow> set ?L = {..<length ns}"
    using L by (metis card_lessThan card_subset_eq distinct_card finite_lessThan)
  then show ?thesis using L(2) unfolding set by auto
qed

section \<open>Properties\<close>

text \<open>C27: Validation accepts exactly the well-formed expressions. It succeeds if and only if the expression has between
  one node and the limit, its root is the last node, every node has its declared type by the typing judgement, so that
  every operand precedes its user, no chain of operands is longer than the depth limit, the disjunctive normal forms
  of every node and of its negation have at most the limit of clauses, every node is reachable from the root, and the
  budget covers its size; the result is then the type of the root and exactly its size is charged.\<close>

theorem validate_exact:
  "validate ps es obs rsc e b = (Inr ty, b') \<longleftrightarrow>
    nodes e \<noteq> [] \<and> length (nodes e) \<le> MAX_EXPRESSION_NODES \<and> root e + 1 = length (nodes e) \<and>
    (\<forall>i < length (nodes e). has_type ps es obs rsc (nodes e) i (node_kind (nodes e ! i)) (node_ty (nodes e ! i))) \<and>
    (\<forall>i < length (nodes e). \<forall>m c. (i, c) \<in> child_edges (nodes e) ^^ m \<longrightarrow> m < MAX_EXPRESSION_DEPTH) \<and>
    (\<forall>i < length (nodes e). \<forall>polarity. \<exists>cs. normal_form (nodes e) polarity i cs \<and> length cs \<le> MAX_BOOLEAN_BRANCHES) \<and>
    (\<forall>i < length (nodes e). (root e, i) \<in> (child_edges (nodes e))\<^sup>*) \<and>
    length (nodes e) \<le> remaining b \<and> b' = b\<lparr>remaining := remaining b - length (nodes e)\<rparr> \<and> ty = node_ty (nodes e ! root e)"
proof (cases "(\<forall>i < length (nodes e). has_type ps es obs rsc (nodes e) i (node_kind (nodes e ! i)) (node_ty (nodes e ! i)) \<and>
    within_limits (nodes e) i) \<and> root e + 1 = length (nodes e)")
  case True
  then have "\<exists>acc. res_fold (validate_node ps es obs rsc (nodes e)) (List.enumerate 0 (nodes e)) ([], []) = Inr acc"
    using sweep_iff by blast
  then obtain acc where acc: "res_fold (validate_node ps es obs rsc (nodes e)) (List.enumerate 0 (nodes e)) ([], []) = Inr acc" ..
  have "\<forall>i < length (nodes e). \<forall>c \<in> set (node_children (node_kind (nodes e ! i))). c < length (nodes e)"
    using True typed_children by (meson order_less_trans)
  then have live: "length (live_nodes (nodes e) [root e] []) = length (nodes e) \<longleftrightarrow>
      (\<forall>i < length (nodes e). (root e, i) \<in> (child_edges (nodes e))\<^sup>*)"
    using live_nodes_all [of "nodes e" "root e"] True by (metis less_add_one)
  have "validate ps es obs rsc e b = (Inr ty, b') \<longleftrightarrow>
      length (nodes e) \<le> remaining b \<and> nodes e \<noteq> [] \<and> length (nodes e) \<le> MAX_EXPRESSION_NODES \<and>
      (\<forall>i < length (nodes e). (root e, i) \<in> (child_edges (nodes e))\<^sup>*) \<and>
      ty = node_ty (nodes e ! root e) \<and> b' = b\<lparr>remaining := remaining b - length (nodes e)\<rparr>"
    unfolding validate_def charge_then_Inr live [symmetric] using True by (auto simp: lb_bind_def lb_simps acc split: if_splits)
  then show ?thesis using True unfolding within_limits_def by blast
next
  case False
  have "validate ps es obs rsc e b \<noteq> (Inr ty, b')"
  proof
    assume "validate ps es obs rsc e b = (Inr ty, b')"
    then obtain acc where "root e + 1 = length (nodes e)"
        "res_fold (validate_node ps es obs rsc (nodes e)) (List.enumerate 0 (nodes e)) ([], []) = Inr acc"
      by (auto simp: validate_def charge_then_Inr lb_bind_Inr lb_simps split: if_splits)
    then show False using False sweep_iff by blast
  qed
  then show ?thesis using False unfolding within_limits_def by blast
qed

definition checked_expression :: "unit logic_expression" where
  "checked_expression =
     \<lparr>nodes = [\<lparr>node_ty = TU64, node_kind = NBinder (Parameter 0)\<rparr>, \<lparr>node_ty = TBool, node_kind = NEqual 0 0\<rparr>,
               \<lparr>node_ty = TBool, node_kind = NLess 0 0\<rparr>, \<lparr>node_ty = TBool, node_kind = NOr 1 2\<rparr>], root = 3\<rparr>"

theorem validate_exact_witness:
  "validate [TU64] [] (\<lambda>r i a t. None) (\<lambda>r p. None) checked_expression default_budget = (Inr TBool, \<lparr>remaining = 4092\<rparr>) \<and>
   has_type [TU64] [] (\<lambda>r i a t. None) (\<lambda>r p. None) (nodes checked_expression) 3 (NOr 1 2) TBool \<and>
   (\<exists>cs. normal_form (nodes checked_expression) True 3 cs \<and> length cs \<le> 16) \<and>
   (3, 0) \<in> (child_edges (nodes checked_expression))\<^sup>*"
proof -
  have run: "validate [TU64] [] (\<lambda>r i a t. None) (\<lambda>r p. None) checked_expression default_budget = (Inr TBool, \<lparr>remaining = 4092\<rparr>)"
    by code_simp
  note v = validate_exact [THEN iffD1, OF run]
  have shape: "length (nodes checked_expression) = 4" "root checked_expression = 3"
      "nodes checked_expression ! 3 = \<lparr>node_ty = TBool, node_kind = NOr 1 2\<rparr>"
    by (simp_all add: checked_expression_def)
  have "has_type [TU64] [] (\<lambda>r i a t. None) (\<lambda>r p. None) (nodes checked_expression) 3 (NOr 1 2) TBool"
    by (simp add: checked_expression_def)
  moreover have "\<exists>cs. normal_form (nodes checked_expression) True 3 cs \<and> length cs \<le> 16"
    using v shape unfolding MAX_BOOLEAN_BRANCHES_def by force
  moreover have "(3, 0) \<in> (child_edges (nodes checked_expression))\<^sup>*" using v shape by auto
  ultimately show ?thesis using run by blast
qed

end
