(* ===== verification/Spec2Isabelle.thy ===== *)
theory Spec2Isabelle
  imports Evaluation_Safe Boolean_Equivalence Boolean_Normalize Difference_Graph Byte_Set Difference_Verdict Lexer_Sound
    Allocation_Steps Disjoint_Sound Validation
begin

text \<open>
  Verification of the lexer, the decision procedures and the memory domain of the Nera compiler (\<open>src/src\<close>, Rust).

  \<^bold>\<open>The program.\<close> Nera compiles a small systems language with ownership predicates. The frontend
  lowers source to a verification-oriented IR (VIR); the verifier runs an abstract interpretation over
  the IR and discharges obligations; the backend emits x86-64 code only for verified programs. What the
  verifier may conclude rests on two groups of pure decision procedures: the \<^emph>\<open>predicate logic\<close>
  (\<open>predicate_logic.rs\<close> and the files under \<open>predicate_logic/\<close>) that validates, evaluates, captures, normalises and compares
  predicate bodies, and the \<^emph>\<open>abstract domains\<close> of the verifier: scalars, byte sets, pointers, permissions,
  loans, values, objects and allocations (the files under \<open>verifier/resource\<close>) with the relations between them
  (\<open>verifier/relation\<close>) and the \<^emph>\<open>resource state\<close> (\<open>verifier/resource/state.rs\<close>) that holds the facts of one program
  point and through whose operations the verifier defines, narrows, renames, joins, widens and retires them. The
  development models these two groups and the lexer (\<open>lexer.rs\<close>), the first stage of the frontend; the surrounding
  compiler only calls them.

  \<^bold>\<open>Theories and sources.\<close>

  \<^item> \<open>Prelude\<close>: machine integers (\<open>u64\<close> as 64-bit words, \<open>i128\<close> as integers with checked operations, \<open>usize\<close>
    as naturals), \<open>Result\<close> as a sum, \<open>BTreeMap\<close> as a strictly sorted association list behind the locale
    \<open>ordered_map\<close>. \<open>Error_State\<close>: the monad of \<open>&mut self\<close> methods that fail with \<open>?\<close>, its triples for
    successful runs and its rules for runs that keep an invariant also when they fail.
  \<^item> \<open>Logic_Budget\<close>: limits, errors and the metered budget of \<open>predicate_logic.rs\<close>. Every operation of the
    logic charges the budget in a monad whose rules show that charging only ever lowers it.
  \<^item> \<open>Affine_Value\<close>, \<open>Linear_Word\<close>: affine words and the envelope, preimage and projection routines
    under \<open>predicate_logic/affine\<close>.
  \<^item> \<open>Logic_Syntax\<close>: the expression DAG and \<open>validate\<close>; \<open>Validation\<close>: a typing judgement, normal forms and chains of
    operands, and that \<open>validate\<close> accepts exactly the expressions they admit. \<open>Logic_Value\<close>: three-valued values and boolean captures
    (\<open>boolean.rs\<close>). \<open>Evaluation\<close>, \<open>Evaluation_Sound\<close>, \<open>Evaluation_Safe\<close>: \<open>evaluation.rs\<close>.
  \<^item> \<open>Propositional\<close>: \<open>propositional.rs\<close>. \<open>Scalar_Template\<close>: \<open>scalar_template.rs\<close>. \<open>Boolean_Equivalence\<close>,
    \<open>Boolean_Normalize\<close>: the files of the same names. \<open>Difference_Graph\<close>: \<open>facts/linear.rs\<close>.
  \<^item> \<open>Interval_Domain\<close>, \<open>Affine_Expression\<close>, \<open>Byte_Set\<close>: \<open>U64Interval\<close>, \<open>AbstractBool\<close>,
    \<open>GuaranteedAlignment\<close>, \<open>AffineExpression\<close>, \<open>ByteRange\<close>, \<open>ByteSet\<close>, \<open>AbstractByteRange\<close> of \<open>verifier/resource\<close>.
  \<^item> \<open>Nominal_Path\<close>: encoded subobject paths of \<open>vir/provenance.rs\<close>. \<open>Flat_Domain\<close>: the locale of flat domains, a
    \<open>widening_domain\<close>, that most facts below instantiate. \<open>Abstract_Pointer\<close>: \<open>pointer.rs\<close>. \<open>Abstract_Value\<close>: permissions and
    loans of \<open>loan.rs\<close> and the typed values of \<open>scalar.rs\<close>. \<open>Record_Order\<close>: the derived orders of the keys of
    ordered maps. \<open>Object_State\<close>: liveness, ownership, initialisation, variants and payloads of \<open>object.rs\<close>.
  \<^item> \<open>Expression_Remapper\<close>: the renaming of facts across control-flow edges (\<open>state.rs\<close> and the \<open>project_cfg_edge\<close>
    methods). \<open>Initialization_Prefix\<close>: relational initialisation facts of \<open>initialization.rs\<close>. \<open>Scalar_Contents\<close>,
    \<open>Abstract_Allocation\<close>: \<open>contents.rs\<close>, the allocation part of \<open>scalar_origin.rs\<close> and \<open>AbstractAllocation\<close>;
    \<open>Allocation_Steps\<close>: its operations as a step relation beside the memory they describe.
  \<^item> \<open>Relation_Kernel\<close>: the numeric verdicts of \<open>verifier/relation/kernel.rs\<close>.
  \<^item> \<open>Difference_Solver\<close>: \<open>verifier/relation/difference.rs\<close> and \<open>difference/splits.rs\<close>; \<open>Difference_Sound\<close>,
    \<open>Difference_Plan\<close>, \<open>Difference_Verdict\<close>: its correctness.
  \<^item> \<open>Path_Condition\<close>: \<open>PathFact\<close> and \<open>PathCondition\<close> of \<open>state.rs\<close>. \<open>Relation_State\<close>: \<open>verifier/relation/state.rs\<close>, the numeric
    facts of a state, learned through the solver and renamed, joined and widened; \<open>Relation_Sound\<close>: its correctness.
    \<open>Scalar_Origin\<close>: histories of scalars, \<open>scalar_origin.rs\<close>, and their renaming at calls, \<open>scalar_origin/transport.rs\<close>.
  \<^item> \<open>Resource_State\<close>: the definitions of \<open>ResourceState\<close> (\<open>state.rs\<close>, \<open>instance.rs\<close>, \<open>cfg_projection.rs\<close>,
    \<open>loop_partition.rs\<close>, the scalar frame of \<open>loop_frame.rs\<close>, \<open>scalar_origin/refinement.rs\<close> and what \<open>state.rs\<close> uses of
    \<open>predicate.rs\<close>). \<open>Resource_Machine\<close>: the machine a state describes and when the state is true of it. \<open>Resource_Join\<close>,
    \<open>Resource_Edge\<close>, \<open>Resource_Update\<close>, \<open>Resource_Mutation\<close>, \<open>Resource_Instance\<close>, \<open>Resource_Loop\<close>: joins and widening, edges,
    narrowing and definitions, overwritten values, reuse of allocation slots, loop heads. \<open>Resource_Sound\<close>: all of them as one relation of reached states.
  \<^item> \<open>Relation_Query\<close>: the numeric queries asked of a resource state, \<open>verifier/relation/local.rs\<close>, \<open>range.rs\<close>,
    \<open>range/coordinates.rs\<close>, and their journal, \<open>audit.rs\<close>; \<open>Query_Sound\<close>, \<open>Disjoint_Sound\<close>: their correctness, orders,
    containment and coverage first, then disjointness and its reductions.
  \<^item> \<open>Utf8\<close>: UTF-8 validation and decoding of the standard library. \<open>Lexer_Number\<close>, \<open>Lexer\<close>: \<open>lexer/number.rs\<close> and
    \<open>lexer.rs\<close> over arbitrary bytes, with the spans and diagnostics of \<open>diagnostic.rs\<close>; \<open>Lexer_Grammar\<close>: the
    words of each token kind, stated apart from the code after \<open>docs/language-spec.md\<close>; \<open>Lexer_Sound\<close>: its correctness.

  \<^bold>\<open>Modelling choices.\<close> A struct is a record, an enum a datatype with the source's constructors, a method
  one definition. A Rust \<open>Err\<close> is a value of the left summand and every early return is a branch. A method
  taking \<open>&mut self\<close> returns the state, also on failure where the caller can still see it (the difference
  solver reports its steps and finished branches after a failure); the graph of \<open>facts/linear.rs\<close> is
  dropped by its callers on failure and is returned only on success. \<open>unwrap\<close>, \<open>expect\<close>, indexing and slicing are
  options that a theorem shows to be \<open>Some\<close>.
  Closures passed in by adapters (types of observations and resources, reads of leaves, the word service of a template
  domain) are parameters of the definitions; they may only charge the budget, and what a theorem needs of them is a
  hypothesis with an instance in the witness. The merge of two maps of predicate instances and the check of the merged
  map are arguments of the joins of states, about which nothing is assumed; the parts of an instance that the state
  never inspects are type parameters. A getter that hands out a mutable entry is the update of that entry by a function. The memory access inside a relation term is a type parameter.

  \<^bold>\<open>What is shown.\<close>

  \<^item> Evaluation: a computed value represents the machine value in every run its inputs represent; on validated
    input only documented errors occur and the value has the type of the root; validation accepts exactly the typed, live
    DAGs whose depth and normal forms are within the limits.
  \<^item> Propositional engine, templates, normaliser and equivalence test are exact or meaning preserving, against a
    semantics of shapes given independently of the code; captures round-trip through templates.
  \<^item> The difference graph and the difference solver are sound in every model; distances are the tightest
    consequences of the edges; splitting on disequalities loses no model even when equal vertices share a
    split, and the shared limits hold however a query ends.
  \<^item> Interval joins and widening, affine normal forms, alignment and byte sets are sound for the concrete values
    they describe, and affine expressions built by the code's operations are equal exactly when their values are (the locales \<open>join_domain\<close>, \<open>widening_domain\<close> and \<open>definite_bytes\<close>, each interpreted on the code's
    definitions); byte sets refine finite sets of bytes and widening reaches a post-fixpoint.
  \<^item> Pointers, permissions, loans, typed values and object states: every join and widening covers both sides, the
    widenings lower a height, a mismatch of kinds is the only error of a value; nominal paths and indexed offsets
    are exact. Projection across an edge keeps the meaning of every fact under simultaneous renamings.
  \<^item> An abstract allocation reached by any sequence of its operations never lies about the memory: classified
    bytes, reported scalars and certified prefixes agree with it. Overlap, bounds and alignment verdicts are sound.
  \<^item> Path conditions and relation states are exact or sound about the words of a run, and widening relations terminates.
    Arithmetic on scalar histories is exact, and transport across a call renames words and booleans injectively to fresh
    names of one epoch, changing nothing else.
  \<^item> A resource state reached by any sequence of its operations is true of the machine: values, symbolic words, path
    facts, relations, histories, stored scalars, live owners and open loans, also after a value was replaced. A slot
    of an allocation is reused exactly when nothing is outstanding that depends on it, and the tests and clipped widening at a loop head lose no run. This rests on the theorems about
    each part, put together by \<open>analyses\<close>, whose steps say what a caller owes: a fact it adds is true of the machine.
  \<^item> A numeric query answered \<open>Proven\<close> or \<open>Refuted\<close> is right in every machine the queried state is true of, whatever
    the limits of the solver, and no unwrapped cancellation fails; the journal records every query of a site in order
    or publishes nothing, and recording changes no answer.
  \<^item> The lexer terminates without a panic on every byte sequence; its tokens cover the source without gaps and
    are words of the grammar of their kind; issues mirror error tokens; a source without issues is clean text.

  \<^bold>\<open>Bounds and termination.\<close> No definition carries artificial fuel: every loop is a total function, structural
  over the vector it walks, over the rounds it counts, or with a measure on its worklist; the driving loop of the
  lexer, whose progress is a theorem about its scanners, is a partial function in the option type, and \<open>lex_total\<close>
  shows that it always returns. The limits of the code
  (nodes, depth, rows, vertices, edges, steps, branches, ranges) keep their values, and budgets that the
  code takes as arguments stay arguments.

  \<^bold>\<open>Not modelled.\<close> The saturation of \<open>facts.rs\<close> and its helpers, capture joins and queries; of the verifier the calculus
  of predicate instances (\<open>predicate.rs\<close> and below, apart from the fields and operations \<open>state.rs\<close> uses), the inheritance of
  whole resources at a loop head (\<open>loop_frame.rs\<close>), the state-wide queries of \<open>initialization.rs\<close>, the attribution and replay of recorded queries, the transfer functions,
  the fixpoint driver, contracts and summaries; VIR with its validator and interpreter, the frontend after the lexer and
  the backend. They are clients or producers of the modelled procedures: a transfer function is a caller of \<open>analyses\<close>
  whose obligations are the premises of its steps. Transporting a scalar between two states (\<open>tr_scalar\<close>) is defined, but
  not a step of that relation, because it renames histories between two machines. Nor is the binding of array
  initialisation prefixes a step of \<open>Allocation_Steps\<close>, so that its reduction of prefixes acts on none. A value may be
  overwritten with another word in a step only when no symbolic bound that \<open>value_mut\<close> keeps, in another value, a stored
  payload or a loan, names it; checking that is the caller's part. Driver, diagnostics and reports perform input and output only.
\<close>

end
